(* ===== verification/Prelude.thy ===== *)
theory Prelude
  imports Main "HOL-Library.Word"
begin

text \<open>
  Shared vocabulary of the development: the return codes of
  \<^verbatim>\<open>src/observer/common/rc.h\<close>, the machine types of
  \<^verbatim>\<open>src/observer/common/types.h\<close>, the record identifier, and the list, byte and
  integer lemmas the components share.

  A C++ function that returns an \<open>RC\<close> and fills an output parameter is modelled by the pair of the
  code and the value, or by \<open>RC + 'a\<close> where the output is only meaningful on success.
\<close>

unbundle bit_operations_syntax

named_theorems node_simps \<open>evaluation of the index node operations\<close>
named_theorems page_simps \<open>evaluation of the record page operations\<close>
named_theorems ptr_simps \<open>evaluation of pointer updates\<close>

section \<open>Return codes and machine types\<close>

datatype (plugins only: code size) RC =
    SUCCESS | NULL_VALUE | UNIMPLENMENT | SQL_SYNTAX | INTERNAL | NOMEM | NOTFOUND | EMPTY | FULL
  | EXIST | NOT_EXIST | BUFFERPOOL_OPEN | BUFFERPOOL_NOBUF | BUFFERPOOL_INVALID_PAGE_NUM
  | RECORD_OPENNED | RECORD_INVALID_RID | RECORD_INVALID_KEY | RECORD_DUPLICATE_KEY | RECORD_NOMEM
  | RECORD_EOF | RECORD_NOT_EXIST | RECORD_INVISIBLE | SCHEMA_DB_EXIST | SCHEMA_DB_NOT_EXIST
  | SCHEMA_DB_NOT_OPENED | SCHEMA_TABLE_NOT_EXIST | SCHEMA_TABLE_EXIST | SCHEMA_FIELD_AMBIGUOUS
  | SCHEMA_FIELD_NOT_EXIST | SCHEMA_FIELD_MISSING | SCHEMA_FIELD_TYPE_MISMATCH
  | SCHEMA_FIELD_NON_NULL | SCHEMA_INDEX_NAME_REPEAT | SUBQUERY_MORE_THAN_ONE_ROW
  | SUBQUERY_MORE_THAN_ONE_COL | ALIAS_NOT_EXIST | INSERT_VALUE_TOOLONG | UPDATE_VALUE_TOO_LONG
  | IOERR_READ | IOERR_WRITE | IOERR_ACCESS | IOERR_OPEN | IOERR_DELETE | IOERR_CLOSE | IOERR_SEEK
  | IOERR_TOO_LONG | IOERR_SYNC | INCORRECT_DATE_VALUE | INCORRECT_DATE_FORMAT | INVALID_ARGUMENT
  | INVALID_AGGREGATE | INVALID_GROUPING | INVALID_FUNCTION_NAME | LOCKED_UNLOCK | LOCKED_NEED_WAIT
  | LOCKED_CONCURRENCY_CONFLICT | FILE_EXIST | FILE_NOT_EXIST | FILE_NAME | FILE_BOUND | FILE_CREATE
  | FILE_OPEN | FILE_NOT_OPENED | FILE_CLOSE | FILE_REMOVE | VARIABLE_NOT_EXISTS
  | VARIABLE_NOT_VALID | LOGBUF_FULL | LOG_FILE_FULL | LOG_ENTRY_INVALID

type_synonym byte = "8 word"
type_synonym PageNum = int
type_synonym SlotNum = int
type_synonym LSN = int

definition BP_INVALID_PAGE_NUM :: PageNum where
  "BP_INVALID_PAGE_NUM = -1"

definition BP_HEADER_PAGE :: PageNum where
  "BP_HEADER_PAGE = 0"

text \<open>
  \<open>BP_PAGE_SIZE\<close> is \<open>1 << 13\<close>; the data part leaves out a \<open>PageNum\<close> (4 bytes), an \<open>LSN\<close> (8 bytes)
  and a \<open>CheckSum\<close> (4 bytes).
\<close>

definition BP_PAGE_SIZE :: nat where
  "BP_PAGE_SIZE = 2 ^ 13"

definition BP_PAGE_DATA_SIZE :: nat where
  "BP_PAGE_DATA_SIZE = BP_PAGE_SIZE - 4 - 8 - 4"

lemma BP_PAGE_DATA_SIZE_eq: "BP_PAGE_DATA_SIZE = 8176"
  by (simp add: BP_PAGE_DATA_SIZE_def BP_PAGE_SIZE_def)

record RID =
  page_num :: PageNum
  slot_num :: SlotNum

text \<open>Two's complement subtraction of two 32-bit integers, as \<open>int\<close> arithmetic wraps in hardware.\<close>

definition int32_sub :: "int \<Rightarrow> int \<Rightarrow> int" where
  "int32_sub a b = signed_take_bit 31 (a - b)"

definition int32 :: "int \<Rightarrow> bool" where
  "int32 a \<longleftrightarrow> - (2 ^ 31) \<le> a \<and> a < 2 ^ 31"

definition RID_compare :: "RID \<Rightarrow> RID \<Rightarrow> int" where
  "RID_compare rid1 rid2 =
     (let page_diff = int32_sub (page_num rid1) (page_num rid2)
      in if page_diff \<noteq> 0 then page_diff
         else int32_sub (slot_num rid1) (slot_num rid2))"

definition RID_min :: RID where
  "RID_min = \<lparr>page_num = 0, slot_num = 0\<rparr>"

definition RID_max :: RID where
  "RID_max = \<lparr>page_num = 2 ^ 31 - 1, slot_num = 2 ^ 31 - 1\<rparr>"

lemma int32_sub_exact: "int32 (a - b) \<Longrightarrow> int32_sub a b = a - b"
  unfolding int32_sub_def int32_def by (subst signed_take_bit_int_eq_self_iff) auto

text \<open>Page and slot numbers of stored records are never negative, so the subtraction is exact.\<close>

definition rid_ok :: "RID \<Rightarrow> bool" where
  "rid_ok r \<longleftrightarrow> 0 \<le> page_num r \<and> page_num r < 2 ^ 31 \<and> 0 \<le> slot_num r \<and> slot_num r < 2 ^ 31"

lemma RID_compare_exact:
  assumes "rid_ok r" "rid_ok s"
  shows "RID_compare r s =
    (if page_num r \<noteq> page_num s then page_num r - page_num s else slot_num r - slot_num s)"
proof -
  have "int32 (page_num r - page_num s)" "int32 (slot_num r - slot_num s)"
    using assms by (auto simp: rid_ok_def int32_def)
  then show ?thesis
    by (simp add: RID_compare_def int32_sub_exact)
qed

section \<open>Bytes of integers\<close>

text \<open>
  The in-memory bytes of a signed integer on a little-endian machine, and their value.
  \<open>int_to_bytes n v\<close> are the low \<open>n\<close> bytes of \<open>v\<close>.
\<close>

fun int_to_bytes :: "nat \<Rightarrow> int \<Rightarrow> byte list" where
  "int_to_bytes 0 v = []"
| "int_to_bytes (Suc n) v = word_of_int v # int_to_bytes n (v div 256)"

fun bytes_to_int :: "byte list \<Rightarrow> int" where
  "bytes_to_int [] = 0"
| "bytes_to_int (b # bs) = uint b + 256 * bytes_to_int bs"

definition int32_of_bytes :: "byte list \<Rightarrow> int" where
  "int32_of_bytes bs = signed_take_bit 31 (bytes_to_int (take 4 bs))"

definition int64_of_bytes :: "byte list \<Rightarrow> int" where
  "int64_of_bytes bs = signed_take_bit 63 (bytes_to_int (take 8 bs))"

lemma length_int_to_bytes [simp]: "length (int_to_bytes n v) = n"
  by (induction n arbitrary: v) auto

lemma bytes_to_int_bounds: "0 \<le> bytes_to_int bs \<and> bytes_to_int bs < 256 ^ length bs"
proof (induction bs)
  case (Cons b bs)
  have "uint b < 256" "0 \<le> uint b" using uint_lt2p [of b] by auto
  with Cons show ?case by simp
qed simp

lemma bytes_to_int_to_bytes: "bytes_to_int (int_to_bytes n v) = v mod 256 ^ n"
proof (induction n arbitrary: v)
  case (Suc n)
  have "uint (word_of_int v :: byte) = v mod 256" by (simp add: uint_word_of_int)
  with Suc show ?case by (simp add: zmod_zmult2_eq)
qed simp

lemma int32_roundtrip: "int32 v \<Longrightarrow> int32_of_bytes (int_to_bytes 4 v) = v"
  by (simp add: int32_of_bytes_def bytes_to_int_to_bytes int32_def signed_take_bit_eq_take_bit_shift
      take_bit_eq_mod mod_add_left_eq)

definition int64 :: "int \<Rightarrow> bool" where
  "int64 a \<longleftrightarrow> - (2 ^ 63) \<le> a \<and> a < 2 ^ 63"

lemma int64_roundtrip: "int64 v \<Longrightarrow> int64_of_bytes (int_to_bytes 8 v) = v"
  by (simp add: int64_of_bytes_def bytes_to_int_to_bytes int64_def signed_take_bit_eq_take_bit_shift
      take_bit_eq_mod mod_add_left_eq)

section \<open>Lists\<close>

text \<open>
  \<open>list_insert_at\<close> and \<open>list_remove_at\<close> are what the \<open>memmove\<close>/\<open>memcpy\<close> pairs over item arrays
  compute.
\<close>

definition list_insert_at :: "nat \<Rightarrow> 'a list \<Rightarrow> 'a list \<Rightarrow> 'a list" where
  "list_insert_at i ys xs = take i xs @ ys @ drop i xs"

definition list_remove_at :: "nat \<Rightarrow> nat \<Rightarrow> 'a list \<Rightarrow> 'a list" where
  "list_remove_at i n xs = take i xs @ drop (i + n) xs"

lemma length_list_insert_at [simp]: "length (list_insert_at i ys xs) = length xs + length ys"
  by (simp add: list_insert_at_def)

lemma length_list_remove_at [simp]:
  "i + n \<le> length xs \<Longrightarrow> length (list_remove_at i n xs) = length xs - n"
  by (simp add: list_remove_at_def)

lemma list_remove_insert_at [simp]:
  "i \<le> length xs \<Longrightarrow> list_remove_at i (length ys) (list_insert_at i ys xs) = xs"
  by (simp add: list_insert_at_def list_remove_at_def)

lemma list_insert_remove_at [simp]:
  "i + n \<le> length xs \<Longrightarrow> list_insert_at i (take n (drop i xs)) (list_remove_at i n xs) = xs"
  by (simp add: list_insert_at_def list_remove_at_def)
    (metis add.commute append_take_drop_id drop_drop)

lemma set_list_insert_at [simp]: "set (list_insert_at i ys xs) = set xs \<union> set ys"
proof -
  have "set xs = set (take i xs) \<union> set (drop i xs)"
    by (metis append_take_drop_id set_append)
  then show ?thesis by (auto simp: list_insert_at_def)
qed

lemma list_insert_at_end [simp]: "list_insert_at (length xs) ys xs = xs @ ys"
  by (simp add: list_insert_at_def)

lemma list_insert_at_0 [simp]: "list_insert_at 0 ys xs = ys @ xs"
  by (simp add: list_insert_at_def)

lemma map_list_insert_at: "map f (list_insert_at i ys xs) = list_insert_at i (map f ys) (map f xs)"
  by (simp add: list_insert_at_def take_map drop_map)

lemma map_list_remove_at: "map f (list_remove_at i n xs) = list_remove_at i n (map f xs)"
  by (simp add: list_remove_at_def take_map drop_map)

lemma list_remove_at_1: "i < length xs \<Longrightarrow> xs = take i xs @ xs ! i # drop (Suc i) xs"
  by (simp add: id_take_nth_drop)

end
