(* ===== verification/Comparator.thy ===== *)
theory Comparator
  imports Prelude Complex_Main
begin

text \<open>
  Key order and binary search: \<^verbatim>\<open>deps/common/lang/comparator.cpp\<close>,
  \<^verbatim>\<open>deps/common/lang/lower_bound.h\<close>, and the comparators \<open>AttrComparator\<close> and \<open>KeyComparator\<close> of
  \<^verbatim>\<open>src/observer/storage/index/bplus_tree.h\<close>.

  The locale \<open>key_order\<close> is what the index relies on in a comparator: a total preorder on the valid
  keys, read off the sign of an integer. \<open>attr_order\<close> is the same contract for the attribute part and
  gives the contract for whole keys (attribute, then record identifier) by a sublocale. It is
  interpreted on the comparators of integer, date and character columns.
\<close>

section \<open>Attribute types and keys\<close>

datatype AttrType = UNDEFINED | CHARS | INTS | FLOATS | BOOLEANS | DATES | TEXTS | NULLS

text \<open>A key of the index: the attribute's bytes followed by the record identifier (\<open>make_key\<close>).\<close>

record IKey =
  user_key :: "byte list"
  key_rid :: RID

section \<open>Comparison functions\<close>

definition compare_int :: "byte list \<Rightarrow> byte list \<Rightarrow> int" where
  "compare_int arg1 arg2 =
     (let v1 = int32_of_bytes arg1; v2 = int32_of_bytes arg2
      in if v1 > v2 then 1 else if v1 < v2 then -1 else 0)"

text \<open>
  Single precision subtraction is the parameter \<open>fsub\<close> (\<open>None\<close> for a NaN result); \<open>EPSILON\<close> is \<open>1E-6\<close>.
\<close>

definition compare_float :: "(byte list \<Rightarrow> byte list \<Rightarrow> rat option) \<Rightarrow> byte list \<Rightarrow> byte list \<Rightarrow> int" where
  "compare_float fsub arg1 arg2 =
     (case fsub arg1 arg2 of
        None \<Rightarrow> 0
      | Some cmp \<Rightarrow> if cmp > 1 / 10 ^ 6 then 1 else if cmp < - (1 / 10 ^ 6) then -1 else 0)"

text \<open>\<open>strncmp\<close> of the C library: unsigned bytes, up to \<open>n\<close> of them, stopping after a common NUL.\<close>

fun strncmp :: "nat \<Rightarrow> byte list \<Rightarrow> byte list \<Rightarrow> int" where
  "strncmp (Suc n) (a # s1) (b # s2) =
     (if a \<noteq> b then uint a - uint b else if a = 0 then 0 else strncmp n s1 s2)"
| "strncmp _ _ _ = 0"

definition char_value :: "byte \<Rightarrow> int" where
  "char_value b = sint b"

definition compare_string :: "byte list \<Rightarrow> nat \<Rightarrow> byte list \<Rightarrow> nat \<Rightarrow> int" where
  "compare_string arg1 arg1_max_length arg2 arg2_max_length =
     (let maxlen = min arg1_max_length arg2_max_length;
          result = strncmp maxlen arg1 arg2
      in if result \<noteq> 0 then result
         else if arg1_max_length > maxlen then char_value (arg1 ! maxlen)
         else if arg2_max_length > maxlen then 0 - char_value (arg2 ! maxlen)
         else 0)"

text \<open>
  For the types without a comparison the source asserts; with assertions compiled out it falls through
  to \<open>return 0\<close>.
\<close>

fun AttrComparator :: "(byte list \<Rightarrow> byte list \<Rightarrow> rat option) \<Rightarrow> AttrType \<Rightarrow> nat \<Rightarrow> byte list \<Rightarrow> byte list \<Rightarrow> int" where
  "AttrComparator fsub DATES len v1 v2 = compare_int v1 v2"
| "AttrComparator fsub INTS len v1 v2 = compare_int v1 v2"
| "AttrComparator fsub FLOATS len v1 v2 = compare_float fsub v1 v2"
| "AttrComparator fsub CHARS len v1 v2 = compare_string v1 len v2 len"
| "AttrComparator fsub _ len v1 v2 = 0"

definition KeyComparator :: "(byte list \<Rightarrow> byte list \<Rightarrow> int) \<Rightarrow> IKey \<Rightarrow> IKey \<Rightarrow> int" where
  "KeyComparator attr_comparator v1 v2 =
     (let result = attr_comparator (user_key v1) (user_key v2)
      in if result \<noteq> 0 then result else RID_compare (key_rid v1) (key_rid v2))"

section \<open>Binary search\<close>

text \<open>
  The loop of \<open>lower_bound\<close> over the items \<open>xs\<close>: \<open>first\<close> is the iterator as an index and \<open>last_count\<close>
  the number of items left.
\<close>

function lower_bound_loop :: "('a \<Rightarrow> 'b \<Rightarrow> int) \<Rightarrow> 'a list \<Rightarrow> 'b \<Rightarrow> nat \<Rightarrow> nat \<Rightarrow> nat \<times> bool" where
  "lower_bound_loop compar xs val first last_count =
     (if last_count > 0 then
        (let step = last_count div 2;
             iter = first + step;
             result = compar (xs ! iter) val
         in if result = 0 then (iter, True)
            else if result < 0 then lower_bound_loop compar xs val (Suc iter) (last_count - (step + 1))
            else lower_bound_loop compar xs val first step)
      else (first, False))"
  by pat_completeness auto
termination
  by (relation "measure (\<lambda>(c, xs, v, f, n). n)") (auto simp: Let_def)

declare lower_bound_loop.simps [simp del]

definition lower_bound :: "('a \<Rightarrow> 'b \<Rightarrow> int) \<Rightarrow> 'a list \<Rightarrow> 'b \<Rightarrow> nat \<times> bool" where
  "lower_bound compar xs val = lower_bound_loop compar xs val 0 (length xs)"

section \<open>The contract of a comparator\<close>

text \<open>Valid keys in strictly ascending order.\<close>

definition key_ascending :: "('k \<Rightarrow> 'k \<Rightarrow> int) \<Rightarrow> ('k \<Rightarrow> bool) \<Rightarrow> 'k list \<Rightarrow> bool" where
  "key_ascending cmp valid ks \<longleftrightarrow> (\<forall>k\<in>set ks. valid k) \<and> sorted_wrt (\<lambda>a b. cmp a b < 0) ks"

text \<open>What a search position means: everything before it is smaller, nothing after it is.\<close>

definition search_pos :: "('k \<Rightarrow> 'k \<Rightarrow> int) \<Rightarrow> 'k list \<Rightarrow> 'k \<Rightarrow> nat \<Rightarrow> bool" where
  "search_pos cmp ks v i \<longleftrightarrow> i \<le> length ks \<and> (\<forall>j<i. cmp (ks ! j) v < 0) \<and>
     (\<forall>j. i \<le> j \<and> j < length ks \<longrightarrow> cmp (ks ! j) v \<ge> 0)"

locale key_order =
  fixes cmp :: "'k \<Rightarrow> 'k \<Rightarrow> int" and valid :: "'k \<Rightarrow> bool"
  assumes cmp_refl: "valid x \<Longrightarrow> cmp x x = 0"
    and cmp_flip: "valid x \<Longrightarrow> valid y \<Longrightarrow> cmp x y < 0 \<longleftrightarrow> cmp y x > 0"
    and cmp_trans: "valid x \<Longrightarrow> valid y \<Longrightarrow> valid z \<Longrightarrow> cmp x y \<le> 0 \<Longrightarrow> cmp y z \<le> 0 \<Longrightarrow> cmp x z \<le> 0"
begin

lemma cmp_zero_sym: "valid x \<Longrightarrow> valid y \<Longrightarrow> cmp x y = 0 \<Longrightarrow> cmp y x = 0"
  using cmp_flip [of x y] cmp_flip [of y x] by linarith

lemma cmp_ge_flip: "valid x \<Longrightarrow> valid y \<Longrightarrow> cmp x y \<ge> 0 \<longleftrightarrow> cmp y x \<le> 0"
  using cmp_flip [of x y] by linarith

lemma cmp_less_le_trans:
  assumes "valid x" "valid y" "valid z" "cmp x y < 0" "cmp y z \<le> 0"
  shows "cmp x z < 0"
proof (rule ccontr)
  assume "\<not> cmp x z < 0"
  with assms(1,3) have "cmp z x \<le> 0" by (simp add: cmp_ge_flip [symmetric])
  with assms have "cmp y x \<le> 0" using cmp_trans [of y z x] by blast
  with assms show False using cmp_flip [of x y] by auto
qed

lemma cmp_le_less_trans:
  assumes "valid x" "valid y" "valid z" "cmp x y \<le> 0" "cmp y z < 0"
  shows "cmp x z < 0"
proof (rule ccontr)
  assume "\<not> cmp x z < 0"
  with assms(1,3) have "cmp z x \<le> 0" by (simp add: cmp_ge_flip [symmetric])
  with assms have "cmp z y \<le> 0" using cmp_trans [of z x y] by blast
  with assms show False using cmp_flip [of y z] by auto
qed

abbreviation ascending :: "'k list \<Rightarrow> bool" where
  "ascending \<equiv> key_ascending cmp valid"

lemmas ascending_def = key_ascending_def [of cmp valid]

lemma ascending_nth: "ascending ks \<Longrightarrow> i < j \<Longrightarrow> j < length ks \<Longrightarrow> cmp (ks ! i) (ks ! j) < 0"
  by (simp add: ascending_def sorted_wrt_iff_nth_less)

lemma ascending_append:
  "ascending (ks @ ls) \<longleftrightarrow> ascending ks \<and> ascending ls \<and> (\<forall>k\<in>set ks. \<forall>l\<in>set ls. cmp k l < 0)"
  by (auto simp: ascending_def sorted_wrt_append)

lemma ascending_Cons:
  "ascending (k # ks) \<longleftrightarrow> valid k \<and> (\<forall>l\<in>set ks. cmp k l < 0) \<and> ascending ks"
  by (auto simp: ascending_def)

lemma ascending_Nil [simp]: "ascending []"
  by (simp add: ascending_def)

lemma ascending_valid: "ascending ks \<Longrightarrow> k \<in> set ks \<Longrightarrow> valid k"
  by (simp add: ascending_def)

abbreviation lb_pos :: "'k list \<Rightarrow> 'k \<Rightarrow> nat \<Rightarrow> bool" where
  "lb_pos \<equiv> search_pos cmp"

lemmas lb_pos_def = search_pos_def [of cmp]

lemma lower_bound_loop_spec:
  assumes "ascending ks" "valid v"
    and "f + n \<le> length ks"
    and "\<forall>j<f. cmp (ks ! j) v < 0"
    and "\<forall>j. f + n \<le> j \<and> j < length ks \<longrightarrow> cmp (ks ! j) v > 0"
    and "lower_bound_loop cmp ks v f n = (i, found)"
  shows "lb_pos ks v i \<and> (found \<longleftrightarrow> i < length ks \<and> cmp (ks ! i) v = 0)"
  using assms(3-6)
proof (induction n arbitrary: f rule: less_induct)
  case (less n)
  show ?case
  proof (cases "n > 0")
    case False
    with less.prems have "i = f" "\<not> found" by (auto simp: lower_bound_loop.simps)
    with False less.prems show ?thesis by (force simp: lb_pos_def)
  next
    case True
    let ?m = "f + n div 2"
    have m: "?m < length ks" "n div 2 < n" using True less.prems(1) by auto
    have val: "\<And>j. j < length ks \<Longrightarrow> valid (ks ! j)" using assms(1) by (auto simp: ascending_def)
    have below: "cmp (ks ! j) v < 0" if "cmp (ks ! ?m) v \<le> 0" "j < ?m" for j
      using cmp_less_le_trans [of "ks ! j" "ks ! ?m" v] ascending_nth [OF assms(1)] val m that assms(2)
      by auto
    have above: "cmp (ks ! j) v > 0" if "cmp (ks ! ?m) v \<ge> 0" "?m < j" "j < length ks" for j
    proof -
      have "cmp v (ks ! j) < 0"
        using cmp_le_less_trans [of v "ks ! ?m" "ks ! j"] cmp_ge_flip [of "ks ! ?m" v]
          ascending_nth [OF assms(1)] val m that assms(2) by auto
      then show ?thesis using cmp_flip [of v "ks ! j"] val that assms(2) by auto
    qed
    consider "cmp (ks ! ?m) v = 0" | "cmp (ks ! ?m) v < 0" | "cmp (ks ! ?m) v > 0" by linarith
    then show ?thesis
    proof cases
      case 1
      then have "i = ?m" "found" using less.prems(4) True
        by (auto simp: lower_bound_loop.simps [of cmp ks v f n] Let_def)
      moreover have "\<forall>j. ?m \<le> j \<and> j < length ks \<longrightarrow> cmp (ks ! j) v \<ge> 0"
        using above 1 by (metis le_less order_less_le order_refl)
      ultimately show ?thesis using m below 1 by (auto simp: lb_pos_def)
    next
      case 2
      then have eq: "lower_bound_loop cmp ks v (Suc ?m) (n - (n div 2 + 1)) = (i, found)"
        using less.prems(4) True by (simp add: lower_bound_loop.simps [of cmp ks v f n] Let_def)
      show ?thesis
        by (rule less.IH [OF _ _ _ _ eq]) (use True below 2 m less.prems in \<open>auto simp: less_Suc_eq\<close>)
    next
      case 3
      then have eq: "lower_bound_loop cmp ks v f (n div 2) = (i, found)"
        using less.prems(4) True by (simp add: lower_bound_loop.simps [of cmp ks v f n] Let_def)
      have "\<forall>j. ?m \<le> j \<and> j < length ks \<longrightarrow> cmp (ks ! j) v > 0"
        using above 3 by (metis le_less order_less_imp_le)
      then show ?thesis
        by (intro less.IH [OF m(2) _ _ _ eq]) (use m less.prems in auto)
    qed
  qed
qed

lemma lower_bound_spec:
  assumes "ascending ks" "valid v" "lower_bound cmp ks v = (i, found)"
  shows "lb_pos ks v i" "found \<longleftrightarrow> i < length ks \<and> cmp (ks ! i) v = 0"
  using lower_bound_loop_spec [OF assms(1,2), of 0 "length ks" i found] assms(3)
  by (auto simp: lower_bound_def)

lemma lb_pos_unique:
  assumes "lb_pos ks v i" "lb_pos ks v j"
  shows "i = j"
proof (rule ccontr)
  assume "i \<noteq> j"
  then consider "i < j" | "j < i" by linarith
  then show False
  proof cases
    case 1
    with assms have "cmp (ks ! i) v < 0" "cmp (ks ! i) v \<ge> 0" by (auto simp: lb_pos_def)
    then show False by simp
  next
    case 2
    with assms have "cmp (ks ! j) v < 0" "cmp (ks ! j) v \<ge> 0" by (auto simp: lb_pos_def)
    then show False by simp
  qed
qed

text \<open>Inserting an absent key at its search position keeps the order; removing keys does too.\<close>

lemma lb_pos_take: "lb_pos ks v i \<Longrightarrow> k \<in> set (take i ks) \<Longrightarrow> cmp k v < 0"
  by (auto simp: lb_pos_def in_set_conv_nth)

lemma lb_pos_drop: "lb_pos ks v i \<Longrightarrow> k \<in> set (drop i ks) \<Longrightarrow> cmp k v \<ge> 0"
  by (auto simp: lb_pos_def in_set_conv_nth)

lemma ascending_take: "ascending ks \<Longrightarrow> ascending (take i ks)"
  by (metis append_take_drop_id ascending_append)

lemma ascending_drop: "ascending ks \<Longrightarrow> ascending (drop i ks)"
  by (metis append_take_drop_id ascending_append)

lemma ascending_insert:
  assumes "ascending ks" "valid v" "lb_pos ks v i" "\<forall>k\<in>set ks. cmp k v \<noteq> 0"
  shows "ascending (list_insert_at i [v] ks)"
proof -
  have "cmp v k < 0" if "k \<in> set (drop i ks)" for k
  proof -
    have "k \<in> set ks" "valid k" using that assms(1) by (auto dest: in_set_dropD simp: ascending_def)
    then show ?thesis
      using lb_pos_drop [OF assms(3) that] assms(4) cmp_flip [of v k] assms(2) by fastforce
  qed
  moreover have "cmp k l < 0" if "k \<in> set (take i ks)" "l \<in> set (drop i ks)" for k l
    using assms(1) that ascending_append [of "take i ks" "drop i ks"] by auto
  ultimately show ?thesis
    using assms lb_pos_take [OF assms(3)]
    by (auto simp: list_insert_at_def ascending_append ascending_Cons ascending_take ascending_drop)
qed

lemma ascending_remove: "ascending ks \<Longrightarrow> ascending (list_remove_at i n ks)"
proof -
  assume a: "ascending ks"
  have "ks = take i ks @ drop i ks" by simp
  with a have "ascending (take i ks)" "ascending (drop i ks)"
    "\<forall>k\<in>set (take i ks). \<forall>l\<in>set (drop i ks). cmp k l < 0"
    by (metis ascending_append)+
  moreover have "set (drop (i + n) ks) \<subseteq> set (drop i ks)"
    by (metis add.commute drop_drop set_drop_subset)
  ultimately show ?thesis
    using ascending_drop [of "drop i ks" n] unfolding list_remove_at_def ascending_append
    by (auto simp: add.commute)
qed

end

section \<open>Attribute order gives key order\<close>

locale attr_order = a: key_order acmp avalid
  for acmp :: "byte list \<Rightarrow> byte list \<Rightarrow> int" and avalid :: "byte list \<Rightarrow> bool"

definition ikey_ok :: "(byte list \<Rightarrow> bool) \<Rightarrow> IKey \<Rightarrow> bool" where
  "ikey_ok avalid k \<longleftrightarrow> avalid (user_key k) \<and> rid_ok (key_rid k)"

sublocale attr_order \<subseteq> k: key_order "KeyComparator acmp" "ikey_ok avalid"
proof unfold_locales
  fix x assume "ikey_ok avalid x"
  then show "KeyComparator acmp x x = 0"
    by (simp add: KeyComparator_def ikey_ok_def a.cmp_refl RID_compare_exact)
next
  fix x y assume "ikey_ok avalid x" "ikey_ok avalid y"
  then show "KeyComparator acmp x y < 0 \<longleftrightarrow> KeyComparator acmp y x > 0"
    using a.cmp_flip [of "user_key x" "user_key y"] a.cmp_flip [of "user_key y" "user_key x"]
    by (cases "acmp (user_key x) (user_key y) = 0"; cases "acmp (user_key y) (user_key x) = 0")
      (simp_all add: KeyComparator_def ikey_ok_def RID_compare_exact)
next
  fix x y z
  assume v: "ikey_ok avalid x" "ikey_ok avalid y" "ikey_ok avalid z"
    and le: "KeyComparator acmp x y \<le> 0" "KeyComparator acmp y z \<le> 0"
  let ?x = "user_key x" and ?y = "user_key y" and ?z = "user_key z"
  have av: "avalid ?x" "avalid ?y" "avalid ?z" and rv: "rid_ok (key_rid x)" "rid_ok (key_rid y)" "rid_ok (key_rid z)"
    using v by (auto simp: ikey_ok_def)
  have le': "acmp ?x ?y \<le> 0" "acmp ?y ?z \<le> 0"
    using le by (auto simp: KeyComparator_def Let_def split: if_splits)
  consider "acmp ?x ?y < 0" | "acmp ?y ?z < 0" | "acmp ?x ?y = 0" "acmp ?y ?z = 0"
    using le' by linarith
  then show "KeyComparator acmp x z \<le> 0"
  proof cases
    case 1
    then have "acmp ?x ?z < 0" using a.cmp_less_le_trans av le' by blast
    then show ?thesis by (simp add: KeyComparator_def)
  next
    case 2
    then have "acmp ?x ?z < 0" using a.cmp_le_less_trans av le' by blast
    then show ?thesis by (simp add: KeyComparator_def)
  next
    case 3
    have "acmp ?x ?z \<le> 0" using a.cmp_trans av le' by blast
    moreover have "acmp ?z ?x \<le> 0"
      using a.cmp_trans [of ?z ?y ?x] a.cmp_zero_sym [of ?x ?y] a.cmp_zero_sym [of ?y ?z] 3 av
      by linarith
    ultimately have "acmp ?x ?z = 0" using a.cmp_ge_flip [of ?x ?z] av by linarith
    with 3 le rv show ?thesis
      by (simp add: KeyComparator_def RID_compare_exact split: if_splits)
  qed
qed

section \<open>The comparators of the index\<close>

interpretation int_attr: attr_order "AttrComparator fsub INTS len" "\<lambda>v. length v = len" for fsub len
  by unfold_locales (auto simp: compare_int_def Let_def split: if_splits)

interpretation date_attr: attr_order "AttrComparator fsub DATES len" "\<lambda>v. length v = len" for fsub len
  by unfold_locales (auto simp: compare_int_def Let_def split: if_splits)

lemma strncmp_refl: "strncmp n s s = 0"
proof (induction n arbitrary: s)
  case (Suc n)
  then show ?case by (cases s) simp_all
qed simp

lemma strncmp_flip: "strncmp n s t = - strncmp n t s"
  by (induction n s t rule: strncmp.induct) auto

lemma strncmp_trans:
  assumes "length s = m" "length t = m" "length u = m" "strncmp n s t \<le> 0" "strncmp n t u \<le> 0"
  shows "strncmp n s u \<le> 0"
  using assms
proof (induction n arbitrary: s t u m)
  case 0
  then show ?case by simp
next
  case (Suc n)
  show ?case
  proof (cases m)
    case 0
    with Suc.prems show ?thesis by simp
  next
    case (Suc k)
    then obtain a s' b t' c u' where eq: "s = a # s'" "t = b # t'" "u = c # u'"
      using Suc.prems(1-3) by (auto simp: length_Suc_conv)
    show ?thesis
      using Suc.prems Suc.IH [of s' k t' u'] unfolding eq \<open>m = Suc k\<close>
      by (auto split: if_splits simp: word_uint_eq_iff)
  qed
qed

lemma compare_string_same: "compare_string v len w len = strncmp len v w"
  by (simp add: compare_string_def Let_def)

interpretation char_attr: attr_order "AttrComparator fsub CHARS len" "\<lambda>v. length v = len" for fsub len
proof unfold_locales
  fix x y :: "byte list"
  show "AttrComparator fsub CHARS len x y < 0 \<longleftrightarrow> AttrComparator fsub CHARS len y x > 0"
    using strncmp_flip [of len x y] by (simp add: compare_string_same)
qed (auto simp: compare_string_same strncmp_refl intro: strncmp_trans)

end
