(* ===== verification/BplusNode.thy ===== *)
theory BplusNode
  imports Prelude Comparator
begin

text \<open>
  Index nodes: the page layouts and the classes \<open>IndexNodeHandler\<close>, \<open>LeafIndexNodeHandler\<close> and
  \<open>InternalIndexNodeHandler\<close> of \<^verbatim>\<open>src/observer/storage/index/bplus_tree.{h,cpp}\<close>, with the log
  entries they append through \<open>BplusTreeLogger\<close> (\<^verbatim>\<open>bplus_tree_log.cpp\<close>).

  A node is a record; its item array is the list \<open>items\<close>, whose length is \<open>key_num\<close>. The value of an
  item is a record identifier in a leaf and a page number in an internal node; reading a page number
  from a record identifier yields its first field, as the cast in the source does.

  The handlers act on a \<open>btree\<close>: the handler object, the pages of its file, the pages the mini
  transaction disposed of and the log entries it collected. Latches and pins are not part of this
  sequential model.
\<close>

section \<open>Data\<close>

record IndexFileHeader =
  root_page :: PageNum
  internal_max_size :: int
  leaf_max_size :: int
  attr_length :: nat
  key_length :: nat
  attr_type :: AttrType

datatype ItemValue = RidV RID | PageV PageNum

type_synonym item = "IKey \<times> ItemValue"

fun page_of :: "ItemValue \<Rightarrow> PageNum" where
  "page_of (PageV p) = p"
| "page_of (RidV r) = page_num r"

record IndexNode =
  is_leaf :: bool
  parent :: PageNum
  next_brother :: PageNum
  items :: "item list"

text \<open>A page of zero bytes read as a node.\<close>

definition zero_node :: IndexNode where
  "zero_node = \<lparr>is_leaf = False, parent = 0, next_brother = 0, items = []\<rparr>"

abbreviation node_keys :: "IndexNode \<Rightarrow> IKey list" where
  "node_keys n \<equiv> map fst (items n)"

abbreviation node_pages :: "IndexNode \<Rightarrow> PageNum list" where
  "node_pages n \<equiv> map (page_of \<circ> snd) (items n)"

datatype BplusTreeOperationType = READ | INSERT | DELETE

text \<open>
  One constructor per log entry handler of \<^verbatim>\<open>bplus_tree_log_entry.h\<close>; the first argument is the page
  of the frame. Old values are kept in memory for rollback and not serialised.
\<close>

datatype LogEntryHandler =
    InitHeaderPage PageNum IndexFileHeader
  | UpdateRootPage PageNum PageNum PageNum
  | SetParentPage PageNum PageNum PageNum
  | LeafInitEmpty PageNum
  | LeafSetNextPage PageNum PageNum PageNum
  | InternalInitEmpty PageNum
  | InternalCreateNewRoot PageNum PageNum IKey PageNum
  | InternalUpdateKey PageNum nat IKey IKey
  | NodeInsert PageNum nat "item list" nat
  | NodeRemove PageNum nat "item list" nat

record btree =
  file_header :: IndexFileHeader
  header_dirty :: bool
  key_comparator :: "IKey \<Rightarrow> IKey \<Rightarrow> int"
  page_count :: nat
  allocated :: "PageNum \<Rightarrow> bool"
  pages :: "PageNum \<Rightarrow> IndexNode"
  page_lsn :: "PageNum \<Rightarrow> LSN"
  disposed_pages :: "PageNum list"
  need_log :: bool
  entries :: "LogEntryHandler list"

section \<open>Capacities\<close>

text \<open>\<open>sizeof(RID)\<close> is 8 and \<open>sizeof(PageNum)\<close> is 4; node headers are 12 and 16 bytes.\<close>

definition calc_internal_page_capacity :: "nat \<Rightarrow> nat" where
  "calc_internal_page_capacity attr_len = (BP_PAGE_DATA_SIZE - 12) div (attr_len + 8 + 4)"

definition calc_leaf_page_capacity :: "nat \<Rightarrow> nat" where
  "calc_leaf_page_capacity attr_len = (BP_PAGE_DATA_SIZE - 16) div (attr_len + 8 + 8)"

definition node_size :: "IndexNode \<Rightarrow> int" where
  "node_size n = int (length (items n))"

definition max_size :: "IndexFileHeader \<Rightarrow> IndexNode \<Rightarrow> int" where
  "max_size h n = (if is_leaf n then leaf_max_size h else internal_max_size h)"

text \<open>C++ division truncates towards zero.\<close>

definition min_size :: "IndexFileHeader \<Rightarrow> IndexNode \<Rightarrow> int" where
  "min_size h n = (let m = max_size h n in m - (if m \<ge> 0 then m div 2 else - ((- m) div 2)))"

definition is_safe :: "IndexFileHeader \<Rightarrow> IndexNode \<Rightarrow> BplusTreeOperationType \<Rightarrow> bool \<Rightarrow> bool" where
  "is_safe h n op is_root_node =
     (case op of
        READ \<Rightarrow> True
      | INSERT \<Rightarrow> node_size n < max_size h n
      | DELETE \<Rightarrow> if is_root_node then (if is_leaf n then node_size n > 1 else node_size n > 2)
                  else node_size n > min_size h n)"

section \<open>The item array\<close>

definition recover_insert_items :: "nat \<Rightarrow> item list \<Rightarrow> IndexNode \<Rightarrow> IndexNode" where
  "recover_insert_items index its n = n\<lparr>items := list_insert_at index its (items n)\<rparr>"

definition recover_remove_items :: "nat \<Rightarrow> nat \<Rightarrow> IndexNode \<Rightarrow> IndexNode" where
  "recover_remove_items index num n = n\<lparr>items := list_remove_at index num (items n)\<rparr>"

definition init_empty :: "bool \<Rightarrow> IndexNode \<Rightarrow> IndexNode" where
  "init_empty leaf n = n\<lparr>is_leaf := leaf, items := [], parent := BP_INVALID_PAGE_NUM\<rparr>"

section \<open>Searching a node\<close>

definition leaf_lookup :: "(IKey \<Rightarrow> IKey \<Rightarrow> int) \<Rightarrow> IKey \<Rightarrow> IndexNode \<Rightarrow> nat \<times> bool" where
  "leaf_lookup cmp key n = lower_bound cmp (node_keys n) key"

text \<open>The result is the child index, the \<open>found\<close> flag and the insert position.\<close>

definition internal_lookup :: "(IKey \<Rightarrow> IKey \<Rightarrow> int) \<Rightarrow> IKey \<Rightarrow> IndexNode \<Rightarrow> nat \<times> bool \<times> nat" where
  "internal_lookup cmp key n =
     (let size = length (items n)
      in if size = 0 then (0, False, 1)
         else (let (i, found) = lower_bound cmp (tl (node_keys n)) key;
                   ret = i + 1
               in (if ret \<ge> size \<or> cmp key (node_keys n ! ret) < 0 then ret - 1 else ret, found, ret)))"

definition internal_value_at :: "nat \<Rightarrow> IndexNode \<Rightarrow> PageNum" where
  "internal_value_at index n = page_of (snd (items n ! index))"

text \<open>\<open>value_index\<close>: the index of a child page, or \<open>-1\<close>.\<close>

fun value_index_from :: "nat \<Rightarrow> PageNum \<Rightarrow> item list \<Rightarrow> int" where
  "value_index_from i p [] = -1"
| "value_index_from i p (it # its) =
     (if p = page_of (snd it) then int i else value_index_from (Suc i) p its)"

definition value_index :: "PageNum \<Rightarrow> IndexNode \<Rightarrow> int" where
  "value_index p n = value_index_from 0 p (items n)"

section \<open>Pages and logging\<close>

definition append_log_entry :: "LogEntryHandler \<Rightarrow> btree \<Rightarrow> btree" where
  "append_log_entry e t = (if need_log t then t\<lparr>entries := entries t @ [e]\<rparr> else t)"

definition modify_page :: "PageNum \<Rightarrow> (IndexNode \<Rightarrow> IndexNode) \<Rightarrow> btree \<Rightarrow> btree" where
  "modify_page p f t = t\<lparr>pages := (pages t)(p := f (pages t p))\<rparr>"

text \<open>Reading a page outside the file fails in \<open>DiskBufferPool::load_page\<close>.\<close>

definition get_page :: "PageNum \<Rightarrow> btree \<Rightarrow> RC" where
  "get_page p t = (if 0 \<le> p \<and> p < int (page_count t) then SUCCESS else IOERR_READ)"

definition BP_MAX_PAGE_NUM :: nat where
  "BP_MAX_PAGE_NUM = (BP_PAGE_DATA_SIZE - 4 - 4) * 8"

text \<open>
  \<open>LatchMemo::allocate_page\<close>: the first free page, with whatever it held before, or a fresh zeroed one
  at the end of the file (see \<open>DiskBufferPool::allocate_page\<close>).
\<close>

definition allocate_page :: "btree \<Rightarrow> (RC + PageNum) \<times> btree" where
  "allocate_page t =
     (case filter (\<lambda>i. \<not> allocated t (int i)) [0..<page_count t] of
        i # _ \<Rightarrow> (Inr (int i), t\<lparr>allocated := (allocated t)(int i := True)\<rparr>)
      | [] \<Rightarrow>
          (if page_count t \<ge> BP_MAX_PAGE_NUM then (Inl BUFFERPOOL_NOBUF, t)
           else (let p = int (page_count t)
                 in (Inr p, t\<lparr>allocated := (allocated t)(p := True), page_count := page_count t + 1,
                              pages := (pages t)(p := zero_node)\<rparr>))))"

definition dispose_page :: "PageNum \<Rightarrow> btree \<Rightarrow> btree" where
  "dispose_page p t = t\<lparr>disposed_pages := disposed_pages t @ [p]\<rparr>"

section \<open>Node operations\<close>

definition set_parent_page_num :: "PageNum \<Rightarrow> PageNum \<Rightarrow> btree \<Rightarrow> btree" where
  "set_parent_page_num p par t =
     modify_page p (\<lambda>n. n\<lparr>parent := par\<rparr>) (append_log_entry (SetParentPage p par (parent (pages t p))) t)"

subsection \<open>Leaf nodes\<close>

definition leaf_init_empty :: "PageNum \<Rightarrow> btree \<Rightarrow> btree" where
  "leaf_init_empty p t =
     modify_page p (\<lambda>n. (init_empty True n)\<lparr>next_brother := BP_INVALID_PAGE_NUM\<rparr>)
       (append_log_entry (LeafInitEmpty p) t)"

definition leaf_set_next_page :: "PageNum \<Rightarrow> PageNum \<Rightarrow> btree \<Rightarrow> btree" where
  "leaf_set_next_page p nxt t =
     modify_page p (\<lambda>n. n\<lparr>next_brother := nxt\<rparr>)
       (append_log_entry (LeafSetNextPage p nxt (next_brother (pages t p))) t)"

definition leaf_insert :: "PageNum \<Rightarrow> nat \<Rightarrow> IKey \<Rightarrow> ItemValue \<Rightarrow> btree \<Rightarrow> btree" where
  "leaf_insert p index key val t =
     modify_page p (recover_insert_items index [(key, val)])
       (append_log_entry (NodeInsert p index [(key, val)] 1) t)"

definition node_remove :: "PageNum \<Rightarrow> nat \<Rightarrow> nat \<Rightarrow> btree \<Rightarrow> btree" where
  "node_remove p index num t =
     modify_page p (recover_remove_items index num)
       (append_log_entry (NodeRemove p index (take num (drop index (items (pages t p)))) num) t)"

definition leaf_remove :: "PageNum \<Rightarrow> nat \<Rightarrow> btree \<Rightarrow> btree" where
  "leaf_remove p index t = node_remove p index 1 t"

text \<open>\<open>remove(key, comparator)\<close>: the number of removed items and the new state.\<close>

definition leaf_remove_key :: "PageNum \<Rightarrow> IKey \<Rightarrow> btree \<Rightarrow> nat \<times> btree" where
  "leaf_remove_key p key t =
     (let (index, found) = leaf_lookup (key_comparator t) key (pages t p)
      in if found then (1, leaf_remove p index t) else (0, t))"

definition leaf_append :: "PageNum \<Rightarrow> item list \<Rightarrow> btree \<Rightarrow> btree" where
  "leaf_append p its t =
     (let size = length (items (pages t p))
      in modify_page p (recover_insert_items size its)
           (append_log_entry (NodeInsert p size its (length its)) t))"

definition leaf_preappend :: "PageNum \<Rightarrow> item \<Rightarrow> btree \<Rightarrow> btree" where
  "leaf_preappend p it t = leaf_insert p 0 (fst it) (snd it) t"

definition leaf_move_half_to :: "PageNum \<Rightarrow> PageNum \<Rightarrow> btree \<Rightarrow> btree" where
  "leaf_move_half_to p other t =
     (let its = items (pages t p); size = length its; move_index = size div 2;
          move_item_num = size - move_index;
          t1 = leaf_append other (drop move_index its) t
      in node_remove p move_index move_item_num t1)"

definition leaf_move_first_to_end :: "PageNum \<Rightarrow> PageNum \<Rightarrow> btree \<Rightarrow> btree" where
  "leaf_move_first_to_end p other t =
     leaf_remove p 0 (leaf_append other [items (pages t p) ! 0] t)"

definition leaf_move_last_to_front :: "PageNum \<Rightarrow> PageNum \<Rightarrow> btree \<Rightarrow> btree" where
  "leaf_move_last_to_front p other t =
     (let last_index = length (items (pages t p)) - 1
      in leaf_remove p last_index (leaf_preappend other (items (pages t p) ! last_index) t))"

text \<open>\<open>move_to\<close>: all items to the left page, which also takes over the successor link.\<close>

definition leaf_move_to :: "PageNum \<Rightarrow> PageNum \<Rightarrow> btree \<Rightarrow> btree" where
  "leaf_move_to p other t =
     (let its = items (pages t p);
          t1 = leaf_append other its t;
          t2 = leaf_set_next_page other (next_brother (pages t1 p)) t1
      in node_remove p 0 (length its) t2)"

subsection \<open>Internal nodes\<close>

definition internal_init_empty :: "PageNum \<Rightarrow> btree \<Rightarrow> btree" where
  "internal_init_empty p t =
     modify_page p (init_empty False) (append_log_entry (InternalInitEmpty p) t)"

definition zero_key :: "IndexFileHeader \<Rightarrow> IKey" where
  "zero_key h = \<lparr>user_key = replicate (attr_length h) 0, key_rid = RID_min\<rparr>"

text \<open>Both callers run it on a node that \<open>init_empty\<close> has just emptied.\<close>

definition create_new_root_items :: "IndexFileHeader \<Rightarrow> PageNum \<Rightarrow> IKey \<Rightarrow> PageNum \<Rightarrow> IndexNode \<Rightarrow> IndexNode" where
  "create_new_root_items h first_page_num key pnum n =
     n\<lparr>items := (zero_key h, PageV first_page_num) # (key, PageV pnum) # drop 2 (items n)\<rparr>"

definition internal_create_new_root :: "PageNum \<Rightarrow> PageNum \<Rightarrow> IKey \<Rightarrow> PageNum \<Rightarrow> btree \<Rightarrow> btree" where
  "internal_create_new_root p first_page_num key pnum t =
     modify_page p (create_new_root_items (file_header t) first_page_num key pnum)
       (append_log_entry (InternalCreateNewRoot p first_page_num key pnum) t)"

definition internal_insert :: "PageNum \<Rightarrow> IKey \<Rightarrow> PageNum \<Rightarrow> btree \<Rightarrow> btree" where
  "internal_insert p key pnum t =
     (let (_, _, insert_position) = internal_lookup (key_comparator t) key (pages t p)
      in modify_page p (recover_insert_items insert_position [(key, PageV pnum)])
           (append_log_entry (NodeInsert p insert_position [(key, PageV pnum)] 1) t))"

definition internal_set_key_at :: "PageNum \<Rightarrow> nat \<Rightarrow> IKey \<Rightarrow> btree \<Rightarrow> btree" where
  "internal_set_key_at p index key t =
     modify_page p (\<lambda>n. n\<lparr>items := (items n)[index := (key, snd (items n ! index))]\<rparr>)
       (append_log_entry (InternalUpdateKey p index key (fst (items (pages t p) ! index))) t)"

definition internal_remove :: "PageNum \<Rightarrow> nat \<Rightarrow> btree \<Rightarrow> btree" where
  "internal_remove p index t = node_remove p index 1 t"

text \<open>The loop of \<open>insert_items\<close> that points the moved children to their new parent.\<close>

fun adopt_children :: "PageNum \<Rightarrow> item list \<Rightarrow> btree \<Rightarrow> RC \<times> btree" where
  "adopt_children p [] t = (SUCCESS, t)"
| "adopt_children p (it # its) t =
     (let child = page_of (snd it); rc = get_page child t
      in if rc \<noteq> SUCCESS then (rc, t)
         else adopt_children p its (set_parent_page_num child p t))"

definition internal_insert_items :: "PageNum \<Rightarrow> nat \<Rightarrow> item list \<Rightarrow> btree \<Rightarrow> RC \<times> btree" where
  "internal_insert_items p index its t =
     adopt_children p its
       (modify_page p (recover_insert_items index its)
         (append_log_entry (NodeInsert p index its (length its)) t))"

definition internal_append :: "PageNum \<Rightarrow> item list \<Rightarrow> btree \<Rightarrow> RC \<times> btree" where
  "internal_append p its t = internal_insert_items p (length (items (pages t p))) its t"

definition internal_preappend :: "PageNum \<Rightarrow> item \<Rightarrow> btree \<Rightarrow> RC \<times> btree" where
  "internal_preappend p it t = internal_insert_items p 0 [it] t"

definition internal_move_half_to :: "PageNum \<Rightarrow> PageNum \<Rightarrow> btree \<Rightarrow> RC \<times> btree" where
  "internal_move_half_to p other t =
     (let its = items (pages t p); size = length its; move_index = size div 2;
          move_num = size - move_index;
          (rc, t1) = internal_append other (drop move_index its) t
      in if rc \<noteq> SUCCESS then (rc, t1) else (rc, node_remove p move_index move_num t1))"

definition internal_move_to :: "PageNum \<Rightarrow> PageNum \<Rightarrow> btree \<Rightarrow> RC \<times> btree" where
  "internal_move_to p other t =
     (let its = items (pages t p);
          (rc, t1) = internal_append other its t
      in if rc \<noteq> SUCCESS then (rc, t1) else (SUCCESS, node_remove p 0 (length its) t1))"

definition internal_move_first_to_end :: "PageNum \<Rightarrow> PageNum \<Rightarrow> btree \<Rightarrow> RC \<times> btree" where
  "internal_move_first_to_end p other t =
     (let (rc, t1) = internal_append other [items (pages t p) ! 0] t
      in if rc \<noteq> SUCCESS then (rc, t1) else (rc, internal_remove p 0 t1))"

definition internal_move_last_to_front :: "PageNum \<Rightarrow> PageNum \<Rightarrow> btree \<Rightarrow> RC \<times> btree" where
  "internal_move_last_to_front p other t =
     (let last_index = length (items (pages t p)) - 1;
          (rc, t1) = internal_preappend other (items (pages t p) ! last_index) t
      in if rc \<noteq> SUCCESS then (rc, t1) else (rc, node_remove p last_index 1 t1))"

section \<open>Evaluation\<close>

text \<open>What each primitive leaves alone.\<close>

lemma append_log_entry_sel [node_simps]:
  "pages (append_log_entry e t) = pages t" "file_header (append_log_entry e t) = file_header t"
  "key_comparator (append_log_entry e t) = key_comparator t"
  "page_count (append_log_entry e t) = page_count t" "allocated (append_log_entry e t) = allocated t"
  "need_log (append_log_entry e t) = need_log t"
  "disposed_pages (append_log_entry e t) = disposed_pages t"
  by (simp_all add: append_log_entry_def)

lemma modify_page_sel [node_simps]:
  "pages (modify_page p f t) = (pages t)(p := f (pages t p))"
  "file_header (modify_page p f t) = file_header t"
  "key_comparator (modify_page p f t) = key_comparator t"
  "page_count (modify_page p f t) = page_count t" "allocated (modify_page p f t) = allocated t"
  "need_log (modify_page p f t) = need_log t" "entries (modify_page p f t) = entries t"
  "disposed_pages (modify_page p f t) = disposed_pages t"
  by (simp_all add: modify_page_def)

lemma recover_items_sel [node_simps]:
  "items (recover_insert_items i its n) = list_insert_at i its (items n)"
  "items (recover_remove_items i k n) = list_remove_at i k (items n)"
  "is_leaf (recover_insert_items i its n) = is_leaf n" "is_leaf (recover_remove_items i k n) = is_leaf n"
  "parent (recover_insert_items i its n) = parent n" "parent (recover_remove_items i k n) = parent n"
  "next_brother (recover_insert_items i its n) = next_brother n"
  "next_brother (recover_remove_items i k n) = next_brother n"
  by (simp_all add: recover_insert_items_def recover_remove_items_def)

lemmas leaf_op_defs = leaf_insert_def node_remove_def leaf_remove_def leaf_append_def
  leaf_preappend_def leaf_set_next_page_def leaf_init_empty_def set_parent_page_num_def

text \<open>Moving the children of a range of items.\<close>

lemma adopt_children_spec:
  assumes "\<forall>it\<in>set its. get_page (page_of (snd it)) t = SUCCESS"
  shows "fst (adopt_children p its t) = SUCCESS"
    and "pages (snd (adopt_children p its t)) q =
      (if q \<in> (page_of \<circ> snd) ` set its then (pages t q)\<lparr>parent := p\<rparr> else pages t q)"
  using assms
  by (induction its arbitrary: t)
    (auto simp: Let_def set_parent_page_num_def get_page_def node_simps)

lemma adopt_children_frame:
  "page_count (snd (adopt_children p its t)) = page_count t"
  "file_header (snd (adopt_children p its t)) = file_header t"
  "key_comparator (snd (adopt_children p its t)) = key_comparator t"
  "allocated (snd (adopt_children p its t)) = allocated t"
  by (induction its arbitrary: t) (auto simp: Let_def set_parent_page_num_def node_simps)

lemma adopt_children_items: "items (pages (snd (adopt_children p its t)) q) = items (pages t q)"
  by (induction its arbitrary: t) (auto simp: Let_def set_parent_page_num_def node_simps)

section \<open>Searching\<close>

text \<open>The key types an index is built on have a proper order.\<close>

definition index_type :: "AttrType \<Rightarrow> bool" where
  "index_type ty \<longleftrightarrow> ty \<in> {INTS, DATES, CHARS}"

abbreviation index_cmp :: "(byte list \<Rightarrow> byte list \<Rightarrow> rat option) \<Rightarrow> AttrType \<Rightarrow> nat \<Rightarrow> IKey \<Rightarrow> IKey \<Rightarrow> int" where
  "index_cmp fsub ty len \<equiv> KeyComparator (AttrComparator fsub ty len)"

abbreviation index_key :: "nat \<Rightarrow> IKey \<Rightarrow> bool" where
  "index_key len \<equiv> ikey_ok (\<lambda>v. length v = len)"

lemma index_key_order: "index_type ty \<Longrightarrow> key_order (index_cmp fsub ty len) (index_key len)"
  using int_attr.k.key_order_axioms date_attr.k.key_order_axioms char_attr.k.key_order_axioms
  by (auto simp: index_type_def)

context key_order
begin

lemma separator_lookup:
  assumes asc: "ascending (tl ks)" and v: "valid key" and ne: "ks \<noteq> []"
    and lb: "lower_bound cmp (tl ks) key = (i, found)"
    and r: "r = (if i + 1 \<ge> length ks \<or> cmp key (ks ! (i + 1)) < 0 then i else i + 1)"
  shows "r < length ks" "0 < r \<Longrightarrow> cmp (ks ! r) key \<le> 0"
    and "\<And>j. r < j \<Longrightarrow> j < length ks \<Longrightarrow> cmp key (ks ! j) < 0"
proof -
  note lbs = lower_bound_spec [OF asc v lb]
  have tl_nth: "tl ks ! j = ks ! Suc j" if "j < length (tl ks)" for j
    using that by (simp add: nth_tl)
  have len: "length (tl ks) = length ks - 1" by simp
  have vj: "valid (ks ! Suc j)" if "j < length (tl ks)" for j
    using ascending_valid [OF asc nth_mem [OF that]] tl_nth [OF that] by simp
  have i: "i \<le> length ks - 1" using lbs(1) by (simp add: search_pos_def)
  have smaller: "cmp (ks ! Suc j) key < 0" if "j < i" for j
  proof -
    have "cmp (tl ks ! j) key < 0" using lbs(1) that by (simp add: search_pos_def)
    then show ?thesis using tl_nth [of j] that i by simp
  qed
  have larger: "cmp (ks ! Suc j) key \<ge> 0" if "i \<le> j" "Suc j < length ks" for j
  proof -
    have "cmp (tl ks ! j) key \<ge> 0" using lbs(1) that by (simp add: search_pos_def)
    then show ?thesis using tl_nth [of j] that by simp
  qed
  have nonneg: "cmp key (ks ! Suc j) \<le> 0" if "i \<le> j" "Suc j < length ks" for j
    using larger [OF that] cmp_ge_flip [OF vj [of j] v] that(2) by simp
  show "r < length ks" using r i ne by (cases ks) auto
  show "cmp (ks ! r) key \<le> 0" if "0 < r"
  proof (cases "r = i")
    case True
    with that smaller [of "i - 1"] show ?thesis by simp
  next
    case False
    then have "r = Suc i" "Suc i < length ks" "\<not> cmp key (ks ! Suc i) < 0" using r by (auto split: if_splits)
    then show ?thesis using nonneg [of i] cmp_zero_sym [OF v vj [of i]] by force
  qed
  show "cmp key (ks ! j) < 0" if j: "r < j" "j < length ks" for j
  proof -
    obtain j' where j': "j = Suc j'" using j(1) by (cases j) auto
    have "i \<le> j'" using r j(1) j' by (auto split: if_splits)
    show ?thesis
    proof (cases "i = j'")
      case True
      with r j j' show ?thesis by (auto split: if_splits)
    next
      case False
      with \<open>i \<le> j'\<close> have "i < j'" by simp
      have "cmp (tl ks ! i) (tl ks ! j') < 0"
        using ascending_nth [OF asc \<open>i < j'\<close>] j j' by simp
      then have lt: "cmp (ks ! Suc i) (ks ! Suc j') < 0"
        using tl_nth [of i] tl_nth [of j'] \<open>i < j'\<close> j j' by simp
      have "cmp key (ks ! Suc i) \<le> 0" using nonneg [of i] \<open>i < j'\<close> j j' by simp
      with lt show ?thesis
        using cmp_le_less_trans [OF v vj [of i] vj [of j']] \<open>i < j'\<close> j j' by simp
    qed
  qed
qed

end

section \<open>Properties of node operations\<close>

text \<open>
  In an internal node with ascending separators, \<open>lookup\<close> returns the index of the one child whose
  key range holds the key: its separator (unless it is the first child) is not above the key, and every
  later separator is above it.
\<close>

lemma internal_lookup_routes:
  assumes "index_type ty" "items n \<noteq> []" "index_key len key"
    and "key_ascending (index_cmp fsub ty len) (index_key len) (tl (node_keys n))"
    and "internal_lookup (index_cmp fsub ty len) key n = (r, found, pos)"
  shows "r < length (items n)
    \<and> (0 < r \<longrightarrow> index_cmp fsub ty len (node_keys n ! r) key \<le> 0)
    \<and> (\<forall>j. r < j \<and> j < length (items n) \<longrightarrow> index_cmp fsub ty len key (node_keys n ! j) < 0)"
proof -
  obtain i where lb: "lower_bound (index_cmp fsub ty len) (tl (node_keys n)) key = (i, found)"
    and r: "r = (if i + 1 \<ge> length (node_keys n) \<or> index_cmp fsub ty len key (node_keys n ! (i + 1)) < 0
                 then i else i + 1)"
    using assms(2,5) by (auto simp: internal_lookup_def Let_def split: prod.splits cong: if_cong)
  have ne: "node_keys n \<noteq> []" using assms(2) by simp
  show ?thesis
    using key_order.separator_lookup [OF index_key_order [OF assms(1)] assms(4,3) ne lb r] by simp
qed

text \<open>A small concrete node, for the witnesses.\<close>

definition ex_key :: "int \<Rightarrow> IKey" where
  "ex_key v = \<lparr>user_key = int_to_bytes 4 v, key_rid = \<lparr>page_num = 1, slot_num = v\<rparr>\<rparr>"

definition ex_internal :: IndexNode where
  "ex_internal = \<lparr>is_leaf = False, parent = -1, next_brother = 0,
     items = [(ex_key 0, PageV 2), (ex_key 5, PageV 3), (ex_key 9, PageV 4)]\<rparr>"

lemma ex_key_cmp [simp]:
  "int32 v \<Longrightarrow> int32 w \<Longrightarrow> 0 \<le> v \<Longrightarrow> 0 \<le> w \<Longrightarrow>
    index_cmp fsub INTS len (ex_key v) (ex_key w) = (if v > w then 1 else if v < w then -1 else 0)"
  by (simp add: ex_key_def KeyComparator_def compare_int_def int32_roundtrip RID_compare_exact
      rid_ok_def int32_def)

lemma ex_key_ok [simp]: "0 \<le> v \<Longrightarrow> int32 v \<Longrightarrow> index_key 4 (ex_key v)"
  by (simp add: ikey_ok_def ex_key_def rid_ok_def int32_def)

lemma small_int32 [simp]: "int32 0" "int32 1" "int32 (numeral v) = (numeral v < (2147483648 :: int))"
  by (simp_all add: int32_def)

text \<open>
  Inserting an absent key into a leaf at the position \<open>lookup\<close> returns keeps the keys strictly
  ascending, adds exactly that item and reports the key as absent.
\<close>

lemma leaf_insert_sorted:
  assumes "index_type ty" "index_key len key"
    and "key_comparator t = index_cmp fsub ty len"
    and "key_ascending (index_cmp fsub ty len) (index_key len) (node_keys (pages t p))"
    and "\<forall>k\<in>set (node_keys (pages t p)). index_cmp fsub ty len k key \<noteq> 0"
    and "leaf_lookup (key_comparator t) key (pages t p) = (i, found)"
    and "t' = leaf_insert p i key (RidV rid) t"
  shows "\<not> found
    \<and> key_ascending (index_cmp fsub ty len) (index_key len) (node_keys (pages t' p))
    \<and> set (items (pages t' p)) = insert (key, RidV rid) (set (items (pages t p)))
    \<and> (\<forall>q. q \<noteq> p \<longrightarrow> pages t' q = pages t q)"
proof -
  note ko = index_key_order [OF assms(1), of fsub len]
  have lb: "lower_bound (index_cmp fsub ty len) (node_keys (pages t p)) key = (i, found)"
    using assms(3,6) by (simp add: leaf_lookup_def)
  note spec = key_order.lower_bound_spec [OF ko assms(4,2) lb]
  have "\<not> found"
    using spec(2) assms(5) by (metis nth_mem)
  moreover have "node_keys (pages t' p) = list_insert_at i [key] (node_keys (pages t p))"
    by (simp add: assms(7) leaf_insert_def node_simps map_list_insert_at)
  moreover have "key_ascending (index_cmp fsub ty len) (index_key len)
      (list_insert_at i [key] (node_keys (pages t p)))"
    using key_order.ascending_insert [OF ko assms(4,2) spec(1) assms(5)] .
  ultimately show ?thesis by (simp add: assms(7) leaf_insert_def node_simps)
qed

definition ex_leaf_tree :: btree where
  "ex_leaf_tree = \<lparr>file_header = \<lparr>root_page = 2, internal_max_size = 4, leaf_max_size = 4,
       attr_length = 4, key_length = 12, attr_type = INTS\<rparr>,
     header_dirty = False, key_comparator = index_cmp (\<lambda>_ _. None) INTS 4, page_count = 3,
     allocated = (\<lambda>p. 0 \<le> p \<and> p < 3),
     pages = (\<lambda>p. if p = 2 then \<lparr>is_leaf = True, parent = -1, next_brother = -1,
        items = [(ex_key 3, RidV \<lparr>page_num = 1, slot_num = 3\<rparr>),
                 (ex_key 8, RidV \<lparr>page_num = 1, slot_num = 8\<rparr>)]\<rparr> else zero_node),
     page_lsn = (\<lambda>_. 0), disposed_pages = [], need_log = True, entries = []\<rparr>"

text \<open>
  \<open>move_half_to\<close> on a leaf splits it in order: the old page keeps the first half, an empty new page
  receives the rest, nothing is lost or duplicated, and no other page changes.
\<close>

lemma leaf_move_half_to_split:
  assumes "p \<noteq> other" "items (pages t other) = []" "t' = leaf_move_half_to p other t"
  shows "items (pages t' p) @ items (pages t' other) = items (pages t p)
    \<and> length (items (pages t' p)) = length (items (pages t p)) div 2
    \<and> (\<forall>q. q \<noteq> p \<and> q \<noteq> other \<longrightarrow> pages t' q = pages t q)"
  using assms
  by (simp add: leaf_move_half_to_def leaf_append_def node_remove_def node_simps Let_def
      list_remove_at_def list_insert_at_def)

text \<open>
  \<open>move_half_to\<close> on an internal node also hands over the children: every child in the second half
  has the new page as its parent, the children of the first half keep theirs.
\<close>

lemma internal_move_half_to_split:
  assumes "p \<noteq> other" "items (pages t other) = []"
    and "\<forall>c\<in>set (node_pages (pages t p)). get_page c t = SUCCESS"
    and "distinct (node_pages (pages t p))"
    and "internal_move_half_to p other t = (rc, t')"
  shows "rc = SUCCESS
    \<and> items (pages t' p) @ items (pages t' other) = items (pages t p)
    \<and> length (items (pages t' p)) = length (items (pages t p)) div 2
    \<and> (\<forall>c\<in>set (node_pages (pages t' other)). parent (pages t' c) = other)
    \<and> (\<forall>c\<in>set (node_pages (pages t' p)). parent (pages t' c) = parent (pages t c))"
proof -
  let ?its = "items (pages t p)" and ?m = "length (items (pages t p)) div 2"
  let ?t1 = "modify_page other (recover_insert_items 0 (drop ?m ?its))
    (append_log_entry (NodeInsert other 0 (drop ?m ?its) (length (drop ?m ?its))) t)"
  have ok: "\<forall>it\<in>set (drop ?m ?its). get_page (page_of (snd it)) ?t1 = SUCCESS"
    using assms(3) by (force simp: get_page_def node_simps dest: in_set_dropD split: if_splits)
  note ad = adopt_children_spec [OF ok, of other]
  obtain t2 where t2: "adopt_children other (drop ?m ?its) ?t1 = (SUCCESS, t2)"
    using ad(1) by (metis prod.collapse)
  have res: "rc = SUCCESS" "t' = node_remove p ?m (length ?its - ?m) t2"
    using assms(2,5) t2 by (auto simp: internal_move_half_to_def internal_append_def
        internal_insert_items_def Let_def)
  have it2: "items (pages t2 q) = items (pages ?t1 q)" for q
    using adopt_children_items [of other "drop ?m ?its" ?t1 q] t2 by simp
  have par2: "parent (pages t2 c) = other" if "c \<in> (page_of \<circ> snd) ` set (drop ?m ?its)" for c
    using ad(2) [of c] t2 that by simp
  have par3: "parent (pages t2 c) = parent (pages t c)" if "c \<notin> (page_of \<circ> snd) ` set (drop ?m ?its)" for c
    using ad(2) [of c] t2 that by (simp add: node_simps)
  have p': "items (pages t' p) = take ?m ?its"
    using it2 [of p] assms(1) by (simp add: res(2) node_remove_def node_simps list_remove_at_def)
  have o': "items (pages t' other) = drop ?m ?its"
    using it2 [of other] assms(1,2) by (simp add: res(2) node_remove_def node_simps)
  have parent': "parent (pages t' c) = parent (pages t2 c)" for c
    by (simp add: res(2) node_remove_def node_simps)
  have disj: "c \<notin> (page_of \<circ> snd) ` set (drop ?m ?its)" if "c \<in> set (map (page_of \<circ> snd) (take ?m ?its))" for c
  proof -
    have "distinct (map (page_of \<circ> snd) (take ?m ?its) @ map (page_of \<circ> snd) (drop ?m ?its))"
      using assms(4) by (metis append_take_drop_id map_append)
    then have "set (map (page_of \<circ> snd) (take ?m ?its)) \<inter> set (map (page_of \<circ> snd) (drop ?m ?its)) = {}"
      by (simp only: distinct_append)
    with that show ?thesis by (metis IntI empty_iff set_map)
  qed
  have "\<forall>c\<in>set (node_pages (pages t' other)). parent (pages t' c) = other"
    using par2 unfolding o' parent' by simp
  moreover have "\<forall>c\<in>set (node_pages (pages t' p)). parent (pages t' c) = parent (pages t c)"
    using par3 disj unfolding p' parent' by blast
  moreover have "length (take ?m ?its) = ?m" by simp
  ultimately show ?thesis using res(1) p' o' by (metis append_take_drop_id)
qed

definition ex_internal_tree :: btree where
  "ex_internal_tree = ex_leaf_tree\<lparr>page_count := 6,
     pages := (\<lambda>p. if p = 5 then ex_internal else zero_node\<lparr>parent := 5\<rparr>)\<rparr>"

text \<open>
  \<open>move_to\<close> empties a leaf into its left neighbour, whose items come first and whose successor link
  becomes the one of the emptied leaf.
\<close>

lemma leaf_move_to_merges:
  assumes "p \<noteq> other" "t' = leaf_move_to p other t"
  shows "items (pages t' other) = items (pages t other) @ items (pages t p)
    \<and> items (pages t' p) = []
    \<and> next_brother (pages t' other) = next_brother (pages t p)
    \<and> (\<forall>q. q \<noteq> p \<and> q \<noteq> other \<longrightarrow> pages t' q = pages t q)"
  using assms
  by (simp add: leaf_move_to_def leaf_append_def leaf_set_next_page_def node_remove_def node_simps Let_def
      list_remove_at_def)

text \<open>
  The capacities computed for a new index fit the page: the header and \<open>capacity\<close> items never exceed
  the data area of a page, and one more item would.
\<close>

lemma page_capacity_fits:
  "12 + calc_internal_page_capacity len * (len + 8 + 4) \<le> BP_PAGE_DATA_SIZE
   \<and> BP_PAGE_DATA_SIZE < 12 + (calc_internal_page_capacity len + 1) * (len + 8 + 4)
   \<and> 16 + calc_leaf_page_capacity len * (len + 8 + 8) \<le> BP_PAGE_DATA_SIZE
   \<and> BP_PAGE_DATA_SIZE < 16 + (calc_leaf_page_capacity len + 1) * (len + 8 + 8)"
proof -
  have div: "c * (n div c) \<le> n \<and> n < c * (n div c) + c" if "0 < c" for n c :: nat
    using that by (metis div_mult_mod_eq le_add1 mod_less_divisor mult.commute nat_add_left_cancel_less)
  show ?thesis
    using div [of "len + 8 + 4" "BP_PAGE_DATA_SIZE - 12"] div [of "len + 8 + 8" "BP_PAGE_DATA_SIZE - 16"]
    by (simp add: calc_internal_page_capacity_def calc_leaf_page_capacity_def BP_PAGE_DATA_SIZE_eq
        algebra_simps)
qed

end
