(* ===== verification/BplusTree.thy ===== *)
theory BplusTree
  imports Prelude BplusNode
begin

text \<open>
  The tree handler \<open>BplusTreeHandler\<close> and the scanner \<open>BplusTreeScanner\<close> of
  \<^verbatim>\<open>src/observer/storage/index/bplus_tree.cpp\<close>, over the nodes of \<open>BplusNode\<close>.

  Descents, ascents and scans follow page numbers stored in pages, so nothing in the code alone bounds
  them: they are partial functions, \<open>None\<close> standing for a run that does not return (an endless chase of
  page numbers or a failed \<open>ASSERT\<close>). That they return on well-formed trees is proved, not assumed.
\<close>

section \<open>Descending\<close>

definition FIRST_INDEX_PAGE :: PageNum where
  "FIRST_INDEX_PAGE = 1"

definition is_empty :: "btree \<Rightarrow> bool" where
  "is_empty t \<longleftrightarrow> root_page (file_header t) = BP_INVALID_PAGE_NUM"

partial_function (option) find_leaf_loop :: "(IndexNode \<Rightarrow> PageNum) \<Rightarrow> btree \<Rightarrow> PageNum \<Rightarrow> (RC + PageNum) option" where
  "find_leaf_loop child_page_getter t p =
     (if is_leaf (pages t p) then Some (Inr p)
      else (let next_page_id = child_page_getter (pages t p);
                rc = get_page next_page_id t
            in if rc \<noteq> SUCCESS then Some (Inl rc)
               else find_leaf_loop child_page_getter t next_page_id))"

definition find_leaf_internal :: "(IndexNode \<Rightarrow> PageNum) \<Rightarrow> btree \<Rightarrow> (RC + PageNum) option" where
  "find_leaf_internal child_page_getter t =
     (if is_empty t then Some (Inl EMPTY)
      else (let root_pn = root_page (file_header t); rc = get_page root_pn t
            in if rc \<noteq> SUCCESS then Some (Inl rc) else find_leaf_loop child_page_getter t root_pn))"

definition find_leaf :: "IKey \<Rightarrow> btree \<Rightarrow> (RC + PageNum) option" where
  "find_leaf key t =
     find_leaf_internal
       (\<lambda>n. internal_value_at (fst (internal_lookup (key_comparator t) key n)) n) t"

definition left_most_page :: "btree \<Rightarrow> (RC + PageNum) option" where
  "left_most_page t = find_leaf_internal (internal_value_at 0) t"

section \<open>Inserting\<close>

definition make_key :: "btree \<Rightarrow> byte list \<Rightarrow> RID \<Rightarrow> IKey" where
  "make_key t ukey rid = \<lparr>user_key = take (attr_length (file_header t)) ukey, key_rid = rid\<rparr>"

definition update_root_page_num_locked :: "PageNum \<Rightarrow> btree \<Rightarrow> btree" where
  "update_root_page_num_locked root_pn t =
     (append_log_entry (UpdateRootPage FIRST_INDEX_PAGE root_pn (root_page (file_header t))) t)
       \<lparr>file_header := (file_header t)\<lparr>root_page := root_pn\<rparr>, header_dirty := True\<rparr>"

definition create_new_tree :: "IKey \<Rightarrow> RID \<Rightarrow> btree \<Rightarrow> RC \<times> btree" where
  "create_new_tree key rid t =
     (if root_page (file_header t) \<noteq> BP_INVALID_PAGE_NUM then (INTERNAL, t)
      else (case allocate_page t of
              (Inl rc, t1) \<Rightarrow> (rc, t1)
            | (Inr p, t1) \<Rightarrow>
                (SUCCESS, update_root_page_num_locked p
                            (leaf_insert p 0 key (RidV rid) (leaf_init_empty p t1)))))"

text \<open>\<open>split<LeafIndexNodeHandler>\<close> and \<open>split<InternalIndexNodeHandler>\<close>.\<close>

definition split_leaf :: "PageNum \<Rightarrow> btree \<Rightarrow> (RC + PageNum) \<times> btree" where
  "split_leaf p t =
     (case allocate_page t of
        (Inl rc, t1) \<Rightarrow> (Inl rc, t1)
      | (Inr q, t1) \<Rightarrow>
          (let t2 = leaf_init_empty q t1;
               t3 = set_parent_page_num q (parent (pages t2 p)) t2
           in (Inr q, leaf_move_half_to p q t3)))"

definition split_internal :: "PageNum \<Rightarrow> btree \<Rightarrow> (RC + PageNum) \<times> btree" where
  "split_internal p t =
     (case allocate_page t of
        (Inl rc, t1) \<Rightarrow> (Inl rc, t1)
      | (Inr q, t1) \<Rightarrow>
          (let t2 = internal_init_empty q t1;
               t3 = set_parent_page_num q (parent (pages t2 p)) t2
           in (Inr q, snd (internal_move_half_to p q t3))))"

definition key_at :: "PageNum \<Rightarrow> nat \<Rightarrow> btree \<Rightarrow> IKey" where
  "key_at p index t = fst (items (pages t p) ! index)"

partial_function (option) insert_entry_into_parent :: "PageNum \<Rightarrow> PageNum \<Rightarrow> IKey \<Rightarrow> btree \<Rightarrow> (RC \<times> btree) option" where
  "insert_entry_into_parent p q key t =
     (let par = parent (pages t p)
      in if par = BP_INVALID_PAGE_NUM then
           (case allocate_page t of
              (Inl rc, t1) \<Rightarrow> Some (rc, t1)
            | (Inr r, t1) \<Rightarrow>
                (let t2 = internal_create_new_root r p key q (internal_init_empty r t1);
                     t3 = set_parent_page_num q r (set_parent_page_num p r t2)
                 in Some (SUCCESS, update_root_page_num_locked r t3)))
         else (let rc = get_page par t
               in if rc \<noteq> SUCCESS then Some (rc, t)
                  else if node_size (pages t par) < max_size (file_header t) (pages t par) then
                    Some (SUCCESS, set_parent_page_num q par (internal_insert par key q t))
                  else (case split_internal par t of
                          (Inl rc, t1) \<Rightarrow> Some (rc, t1)
                        | (Inr np, t1) \<Rightarrow>
                            (let t2 = (if key_comparator t1 key (key_at np 0 t1) > 0
                                       then set_parent_page_num q np (internal_insert np key q t1)
                                       else set_parent_page_num q par (internal_insert par key q t1))
                             in insert_entry_into_parent par np (key_at np 0 t2) t2))))"

definition insert_entry_into_leaf_node :: "PageNum \<Rightarrow> IKey \<Rightarrow> RID \<Rightarrow> btree \<Rightarrow> (RC \<times> btree) option" where
  "insert_entry_into_leaf_node p key rid t =
     (let (insert_position, exists) = leaf_lookup (key_comparator t) key (pages t p)
      in if exists then Some (RECORD_DUPLICATE_KEY, t)
         else if node_size (pages t p) < max_size (file_header t) (pages t p) then
           Some (SUCCESS, leaf_insert p insert_position key (RidV rid) t)
         else (case split_leaf p t of
                 (Inl rc, t1) \<Rightarrow> Some (rc, t1)
               | (Inr q, t1) \<Rightarrow>
                   (let t2 = leaf_set_next_page q (next_brother (pages t1 p)) t1;
                        t3 = set_parent_page_num q (parent (pages t2 p)) t2;
                        t4 = leaf_set_next_page p q t3;
                        size = length (items (pages t4 p));
                        t5 = (if insert_position < size
                              then leaf_insert p insert_position key (RidV rid) t4
                              else leaf_insert q (insert_position - size) key (RidV rid) t4)
                    in insert_entry_into_parent p q (key_at q 0 t5) t5)))"

text \<open>
  \<open>insert_entry\<close> up to the destructor of its mini transaction, with non-null arguments and a key
  allocated from the memory pool.
\<close>

definition insert_entry :: "byte list \<Rightarrow> RID \<Rightarrow> btree \<Rightarrow> (RC \<times> btree) option" where
  "insert_entry ukey rid t =
     (let key = make_key t ukey rid
      in if is_empty t then Some (create_new_tree key rid t)
         else (case find_leaf key t of
                 None \<Rightarrow> None
               | Some (Inl rc) \<Rightarrow> Some (rc, t)
               | Some (Inr p) \<Rightarrow> insert_entry_into_leaf_node p key rid t))"

section \<open>Deleting\<close>

definition adjust_root :: "PageNum \<Rightarrow> btree \<Rightarrow> RC \<times> btree" where
  "adjust_root p t =
     (let n = pages t p
      in if is_leaf n \<and> node_size n > 0 then (SUCCESS, t)
         else if is_leaf n then
           (SUCCESS, dispose_page p (update_root_page_num_locked BP_INVALID_PAGE_NUM t))
         else (let child = internal_value_at 0 n; rc = get_page child t
               in if rc \<noteq> SUCCESS then (rc, t)
                  else (SUCCESS, dispose_page p (update_root_page_num_locked child
                                   (set_parent_page_num child BP_INVALID_PAGE_NUM t)))))"

text \<open>The template parameter of the source is the flag \<open>leaf\<close>.\<close>

definition redistribute :: "bool \<Rightarrow> PageNum \<Rightarrow> PageNum \<Rightarrow> PageNum \<Rightarrow> nat \<Rightarrow> btree \<Rightarrow> btree" where
  "redistribute leaf neighbor p par index t =
     (if index = 0 then
        (let t1 = (if leaf then leaf_move_first_to_end neighbor p t
                   else snd (internal_move_first_to_end neighbor p t))
         in internal_set_key_at par (index + 1) (key_at neighbor 0 t1) t1)
      else
        (let t1 = (if leaf then leaf_move_last_to_front neighbor p t
                   else snd (internal_move_last_to_front neighbor p t))
         in internal_set_key_at par index (key_at p 0 t1) t1))"

text \<open>\<open>coalesce\<close> up to the recursive call.\<close>

definition coalesce_step :: "bool \<Rightarrow> PageNum \<Rightarrow> PageNum \<Rightarrow> PageNum \<Rightarrow> nat \<Rightarrow> btree \<Rightarrow> RC \<times> btree" where
  "coalesce_step leaf neighbor p par index t =
     (let (left, right, index') = (if index = 0 then (p, neighbor, index + 1) else (neighbor, p, index));
          t1 = internal_remove par index' t;
          (rc, t2) = (if leaf then (SUCCESS, leaf_move_to right left t1) else internal_move_to right left t1)
      in if rc \<noteq> SUCCESS then (rc, t2)
         else (let t3 = (if is_leaf (pages t2 left)
                         then leaf_set_next_page left (next_brother (pages t2 right)) t2 else t2)
               in (SUCCESS, dispose_page right t3)))"

partial_function (option) coalesce_or_redistribute :: "bool \<Rightarrow> PageNum \<Rightarrow> btree \<Rightarrow> (RC \<times> btree) option" where
  "coalesce_or_redistribute leaf p t =
     (let n = pages t p; par = parent n
      in if node_size n \<ge> min_size (file_header t) n then Some (SUCCESS, t)
         else if par = BP_INVALID_PAGE_NUM then
           Some (SUCCESS, if node_size n > 1 then t else snd (adjust_root p t))
         else (let rc = get_page par t
               in if rc \<noteq> SUCCESS then Some (rc, t)
                  else if items n = [] then None
                  else (let (index, _, _) =
                              internal_lookup (key_comparator t) (key_at p (length (items n) - 1) t) (pages t par);
                            neighbor = internal_value_at (if index = 0 then 1 else index - 1) (pages t par);
                            rc = get_page neighbor t
                        in if internal_value_at index (pages t par) \<noteq> p then None
                           else if rc \<noteq> SUCCESS then Some (rc, t)
                           else if node_size n + node_size (pages t neighbor) > max_size (file_header t) n
                           then Some (SUCCESS, redistribute leaf neighbor p par index t)
                           else (case coalesce_step leaf neighbor p par index t of
                                   (rc, t1) \<Rightarrow> if rc \<noteq> SUCCESS then Some (rc, t1)
                                              else coalesce_or_redistribute False par t1))))"

definition delete_entry_internal :: "PageNum \<Rightarrow> IKey \<Rightarrow> btree \<Rightarrow> (RC \<times> btree) option" where
  "delete_entry_internal p key t =
     (let (remove_count, t1) = leaf_remove_key p key t
      in if remove_count = 0 then Some (RECORD_NOT_EXIST, t1)
         else if node_size (pages t1 p) \<ge> min_size (file_header t1) (pages t1 p) then Some (SUCCESS, t1)
         else coalesce_or_redistribute True p t1)"

definition delete_entry :: "byte list \<Rightarrow> RID \<Rightarrow> btree \<Rightarrow> (RC \<times> btree) option" where
  "delete_entry ukey rid t =
     (let key = make_key t ukey rid
      in case find_leaf key t of
           None \<Rightarrow> None
         | Some (Inl rc) \<Rightarrow> Some (if rc = EMPTY then RECORD_NOT_EXIST else rc, t)
         | Some (Inr p) \<Rightarrow> delete_entry_internal p key t)"

section \<open>Scanning\<close>

record scanner =
  inited :: bool
  first_emitted :: bool
  current_frame :: "PageNum option"
  iter_index :: int
  right_key :: "IKey option"

text \<open>
  \<open>fix_user_key\<close> cuts or pads a character key to the column's length; a longer key is rounded up for a
  lower bound. The result is the fixed key and \<open>should_inclusive\<close>.
\<close>

definition fix_user_key :: "nat \<Rightarrow> byte list \<Rightarrow> nat \<Rightarrow> bool \<Rightarrow> byte list \<times> bool" where
  "fix_user_key attr_len ukey key_len want_greater =
     (if key_len \<le> attr_len then (take key_len ukey @ replicate (attr_len - key_len) 0, False)
      else (let key_buf = take attr_len ukey
            in if ukey ! attr_len = 0 then (key_buf, False)
               else (if want_greater then key_buf[attr_len - 1 := key_buf ! (attr_len - 1) + 1] else key_buf,
                     True)))"

definition touch_end :: "btree \<Rightarrow> scanner \<Rightarrow> bool" where
  "touch_end t s =
     (case right_key s of
        None \<Rightarrow> False
      | Some rk \<Rightarrow> (case current_frame s of
                      None \<Rightarrow> False
                    | Some p \<Rightarrow> key_comparator t (key_at p (nat (iter_index s)) t) rk > 0))"

text \<open>A bound of a scan: the user key, its length and whether the bound is included.\<close>

type_synonym bound = "byte list \<times> nat \<times> bool"

definition scan_left_key :: "btree \<Rightarrow> bound \<Rightarrow> IKey" where
  "scan_left_key t b =
     (let (ukey, len, incl) = b;
          (fixed, incl') = (if attr_type (file_header t) = CHARS
                            then (let (f, i) = fix_user_key (attr_length (file_header t)) ukey len True
                                  in (f, i \<or> incl))
                            else (ukey, incl))
      in make_key t fixed (if incl' then RID_min else RID_max))"

definition scan_right_key :: "btree \<Rightarrow> bound \<Rightarrow> IKey" where
  "scan_right_key t b =
     (let (ukey, len, incl) = b;
          (fixed, incl') = (if attr_type (file_header t) = CHARS
                            then (let (f, i) = fix_user_key (attr_length (file_header t)) ukey len False
                                  in (f, i \<or> incl))
                            else (ukey, incl))
      in make_key t fixed (if incl' then RID_max else RID_min))"

text \<open>
  The argument check of \<open>open\<close>; \<open>attr_cmp\<close> is the comparator's attribute part.
\<close>

definition scan_range_invalid :: "(byte list \<Rightarrow> byte list \<Rightarrow> int) \<Rightarrow> bound option \<Rightarrow> bound option \<Rightarrow> bool" where
  "scan_range_invalid attr_cmp left right =
     (case (left, right) of
        (Some (lk, _, li), Some (rk, _, ri)) \<Rightarrow>
          (let result = attr_cmp lk rk in result > 0 \<or> (result = 0 \<and> (\<not> li \<or> \<not> ri)))
      | _ \<Rightarrow> False)"

text \<open>The start position of a scan: \<open>None\<close> when there is nothing to return.\<close>

definition scan_start :: "btree \<Rightarrow> bound option \<Rightarrow> (RC + (PageNum \<times> int) option) option" where
  "scan_start t left =
     (case left of
        None \<Rightarrow>
          (case left_most_page t of
             None \<Rightarrow> None
           | Some (Inl rc) \<Rightarrow> Some (if rc = EMPTY then Inr None else Inl rc)
           | Some (Inr p) \<Rightarrow> Some (Inr (Some (p, 0))))
      | Some b \<Rightarrow>
          (let left_key = scan_left_key t b
           in case find_leaf left_key t of
                None \<Rightarrow> None
              | Some (Inl rc) \<Rightarrow> Some (if rc = EMPTY then Inr None else Inl rc)
              | Some (Inr p) \<Rightarrow>
                  (let (left_index, _) = leaf_lookup (key_comparator t) left_key (pages t p)
                   in if left_index \<ge> length (items (pages t p)) then
                        (let next_page_num = next_brother (pages t p)
                         in if next_page_num = BP_INVALID_PAGE_NUM then Some (Inr None)
                            else (let rc = get_page next_page_num t
                                  in if rc \<noteq> SUCCESS then Some (Inl rc)
                                     else Some (Inr (Some (next_page_num, 0)))))
                      else Some (Inr (Some (p, int left_index))))))"

definition scanner_open :: "(byte list \<Rightarrow> byte list \<Rightarrow> int) \<Rightarrow> btree \<Rightarrow> bound option \<Rightarrow> bound option \<Rightarrow> scanner \<Rightarrow> (RC \<times> scanner) option" where
  "scanner_open attr_cmp t left right s =
     (if inited s then Some (INTERNAL, s)
      else (let s1 = s\<lparr>inited := True, first_emitted := False\<rparr>
            in if scan_range_invalid attr_cmp left right then Some (INVALID_ARGUMENT, s1)
               else (case scan_start t left of
                       None \<Rightarrow> None
                     | Some (Inl rc) \<Rightarrow> Some (rc, s1)
                     | Some (Inr None) \<Rightarrow> Some (SUCCESS, s1\<lparr>current_frame := None\<rparr>)
                     | Some (Inr (Some (p, i))) \<Rightarrow>
                         (let s2 = s1\<lparr>current_frame := Some p, iter_index := i,
                                      right_key := map_option (scan_right_key t) right\<rparr>
                          in Some (SUCCESS, if touch_end t s2 then s2\<lparr>current_frame := None\<rparr> else s2)))))"

definition fetch_item :: "btree \<Rightarrow> PageNum \<Rightarrow> int \<Rightarrow> ItemValue" where
  "fetch_item t p i = snd (items (pages t p) ! nat i)"

partial_function (option) next_entry :: "btree \<Rightarrow> scanner \<Rightarrow> (RC \<times> ItemValue option \<times> scanner) option" where
  "next_entry t s =
     (case current_frame s of
        None \<Rightarrow> Some (RECORD_EOF, None, s)
      | Some p \<Rightarrow>
          if \<not> first_emitted s then
            Some (SUCCESS, Some (fetch_item t p (iter_index s)), s\<lparr>first_emitted := True\<rparr>)
          else
            (let s1 = s\<lparr>iter_index := iter_index s + 1\<rparr>
             in if iter_index s1 < node_size (pages t p) then
                  (if touch_end t s1 then Some (RECORD_EOF, None, s1)
                   else Some (SUCCESS, Some (fetch_item t p (iter_index s1)), s1))
                else
                  (let next_page_num = next_brother (pages t p)
                   in if next_page_num = BP_INVALID_PAGE_NUM then Some (RECORD_EOF, None, s1)
                      else (let rc = get_page next_page_num t
                            in if rc \<noteq> SUCCESS then Some (rc, None, s1)
                               else next_entry t (s1\<lparr>current_frame := Some next_page_num, iter_index := -1\<rparr>)))))"

text \<open>The loop of \<open>get_entry\<close>: collect until the scanner stops.\<close>

partial_function (option) scan_all :: "btree \<Rightarrow> scanner \<Rightarrow> ItemValue list \<Rightarrow> (RC \<times> ItemValue list) option" where
  "scan_all t s acc =
     (case next_entry t s of
        None \<Rightarrow> None
      | Some (rc, v, s1) \<Rightarrow>
          (case v of
             Some x \<Rightarrow> scan_all t s1 (acc @ [x])
           | None \<Rightarrow> Some (if rc = RECORD_EOF then SUCCESS else rc, acc)))"

definition new_scanner :: scanner where
  "new_scanner = \<lparr>inited = False, first_emitted = False, current_frame = None, iter_index = -1, right_key = None\<rparr>"

definition get_entry :: "(byte list \<Rightarrow> byte list \<Rightarrow> int) \<Rightarrow> btree \<Rightarrow> byte list \<Rightarrow> nat \<Rightarrow> (RC \<times> ItemValue list) option" where
  "get_entry attr_cmp t ukey key_len =
     (case scanner_open attr_cmp t (Some (ukey, key_len, True)) (Some (ukey, key_len, True)) new_scanner of
        None \<Rightarrow> None
      | Some (rc, s) \<Rightarrow> if rc \<noteq> SUCCESS then Some (rc, []) else scan_all t s [])"

end
