(* ===== verification/Serializer.thy ===== *)
theory Serializer
  imports Prelude
begin

text \<open>
  \<open>Serializer\<close> and \<open>Deserializer\<close> (\<^verbatim>\<open>deps/common/lang/serializer.{h,cpp}\<close>): a growing byte buffer and a
  reading position in one. The log records of the index, the record manager, the buffer pool and the
  transactions are written and read through them.

  The locale \<open>codec\<close> is the contract of a pair of writer and reader; it is closed under sequencing, so
  the round trip of a log record is put together from those of its fields.
\<close>

section \<open>Writing and reading\<close>

definition ser_write :: "byte list \<Rightarrow> byte list \<Rightarrow> byte list" where
  "ser_write buffer data = buffer @ data"

definition write_int32 :: "byte list \<Rightarrow> int \<Rightarrow> byte list" where
  "write_int32 buffer v = ser_write buffer (int_to_bytes 4 v)"

definition write_int64 :: "byte list \<Rightarrow> int \<Rightarrow> byte list" where
  "write_int64 buffer v = ser_write buffer (int_to_bytes 8 v)"

record Deserializer =
  des_buffer :: "byte list"
  position :: nat

definition remain :: "Deserializer \<Rightarrow> int" where
  "remain d = int (length (des_buffer d)) - int (position d)"

text \<open>A failed read returns \<open>-1\<close> and moves nothing; here it is \<open>None\<close>.\<close>

definition des_read :: "nat \<Rightarrow> Deserializer \<Rightarrow> (byte list \<times> Deserializer) option" where
  "des_read n d =
     (if int n > remain d then None
      else Some (take n (drop (position d) (des_buffer d)), d\<lparr>position := position d + n\<rparr>))"

definition read_int32 :: "Deserializer \<Rightarrow> (int \<times> Deserializer) option" where
  "read_int32 d = map_option (\<lambda>(bs, d'). (int32_of_bytes bs, d')) (des_read 4 d)"

definition read_int64 :: "Deserializer \<Rightarrow> (int \<times> Deserializer) option" where
  "read_int64 d = map_option (\<lambda>(bs, d'). (int64_of_bytes bs, d')) (des_read 8 d)"

definition new_deserializer :: "byte list \<Rightarrow> Deserializer" where
  "new_deserializer bs = \<lparr>des_buffer = bs, position = 0\<rparr>"

section \<open>Positions\<close>

text \<open>\<open>reads d bs d'\<close>: the reader went over the bytes \<open>bs\<close> of its buffer.\<close>

definition reads :: "Deserializer \<Rightarrow> byte list \<Rightarrow> Deserializer \<Rightarrow> bool" where
  "reads d bs d' \<longleftrightarrow> des_buffer d' = des_buffer d \<and> position d' \<le> length (des_buffer d) \<and> position d' = position d + length bs
     \<and> take (length bs) (drop (position d) (des_buffer d)) = bs"

lemma reads_Nil: "reads d [] d' \<Longrightarrow> d' = d"
  by (simp add: reads_def)

lemma reads_append:
  assumes "reads d (xs @ ys) d''"
  shows "\<exists>d'. reads d xs d' \<and> reads d' ys d''"
proof -
  let ?d = "d\<lparr>position := position d + length xs\<rparr>"
  have tk: "take (length xs + length ys) (drop (position d) (des_buffer d)) = xs @ ys"
    using assms by (simp add: reads_def)
  have "take (length xs) (drop (position d) (des_buffer d)) = xs"
    using arg_cong [OF tk, of "take (length xs)"] by simp
  moreover have "take (length ys) (drop (position d + length xs) (des_buffer d)) = ys"
    using arg_cong [OF tk, of "drop (length xs)"] by (simp add: drop_take add.commute)
  moreover have "position d + length xs \<le> length (des_buffer d)" using assms by (simp add: reads_def)
  ultimately have "reads d xs ?d" "reads ?d ys d''" using assms by (simp_all add: reads_def)
  then show ?thesis by blast
qed

lemma des_read_reads: "reads d bs d' \<Longrightarrow> length bs = n \<Longrightarrow> des_read n d = Some (bs, d')"
proof -
  assume r: "reads d bs d'" and n: "length bs = n"
  have "int n \<le> remain d" using r n by (simp add: reads_def remain_def)
  moreover have "d' = d\<lparr>position := position d + n\<rparr>" using r n by (simp add: reads_def)
  ultimately show ?thesis using r n by (auto simp: des_read_def reads_def)
qed

lemma des_read_advances: "des_read n d = Some (bs, d') \<Longrightarrow>
    des_buffer d' = des_buffer d \<and> remain d' = remain d - int n \<and> length bs = n"
  by (auto simp: des_read_def remain_def split: if_splits)

section \<open>Codecs\<close>

locale codec =
  fixes enc :: "'a \<Rightarrow> byte list" and dec :: "Deserializer \<Rightarrow> ('a \<times> Deserializer) option" and ok :: "'a \<Rightarrow> bool"
  assumes roundtrip: "ok x \<Longrightarrow> reads d (enc x) d' \<Longrightarrow> dec d = Some (x, d')"
begin

lemma decode_prefix:
  assumes "ok x" "reads d (enc x @ ys) d''"
  shows "\<exists>d'. dec d = Some (x, d') \<and> reads d' ys d''"
  using reads_append [OF assms(2)] roundtrip [OF assms(1)] by blast

lemma decode_whole: "ok x \<Longrightarrow> dec (new_deserializer (enc x)) = Some (x, \<lparr>des_buffer = enc x, position = length (enc x)\<rparr>)"
  by (rule roundtrip) (simp_all add: reads_def new_deserializer_def)

end

interpretation int32_codec: codec "int_to_bytes 4" read_int32 int32
  by unfold_locales (simp add: read_int32_def des_read_reads int32_roundtrip)

interpretation int64_codec: codec "int_to_bytes 8" read_int64 int64
  by unfold_locales (simp add: read_int64_def des_read_reads int64_roundtrip)

interpretation bytes_codec: codec "\<lambda>bs. bs" "des_read n" "\<lambda>bs. length bs = n" for n
  by unfold_locales (simp add: des_read_reads)

text \<open>
  What the serializer wrote, the deserializer reads back: a 32-bit integer, a 64-bit integer and a
  block of bytes, in this order, leave nothing unread.
\<close>

lemma serializer_roundtrip:
  assumes "int32 a" "int64 b"
    and "buf = ser_write (write_int64 (write_int32 [] a) b) bs"
  shows "\<exists>d1 d2 d3. read_int32 (new_deserializer buf) = Some (a, d1) \<and> read_int64 d1 = Some (b, d2)
    \<and> des_read (length bs) d2 = Some (bs, d3) \<and> remain d3 = 0"
proof -
  let ?stop = "\<lparr>des_buffer = buf, position = length buf\<rparr>"
  have "reads (new_deserializer buf) (int_to_bytes 4 a @ int_to_bytes 8 b @ bs) ?stop"
    by (simp add: assms(3) reads_def new_deserializer_def ser_write_def write_int32_def write_int64_def)
  then obtain d1 d2 where "read_int32 (new_deserializer buf) = Some (a, d1)" "read_int64 d1 = Some (b, d2)"
    "reads d2 bs ?stop"
    using int32_codec.decode_prefix [OF assms(1)] int64_codec.decode_prefix [OF assms(2)] by blast
  then show ?thesis using bytes_codec.roundtrip [OF refl, of d2 bs ?stop] by (auto simp: remain_def)
qed

end
