(* ===== verification/BplusLog.thy ===== *)
theory BplusLog
  imports Prelude BplusTree Serializer
begin

text \<open>
  The write-ahead log of the index: \<open>LogEntryHandler\<close> and its subclasses
  (\<^verbatim>\<open>src/observer/storage/index/bplus_tree_log_entry.{h,cpp}\<close>) and \<open>BplusTreeLogger\<close>
  (\<^verbatim>\<open>bplus_tree_log.cpp\<close>).

  An entry is written as its type, its page and a body; a mini transaction commits the concatenation of
  its entries. Recovery reads the records one by one, skips those whose page is already new enough and
  runs the others. A record that was read back (\<open>LogRecord\<close>) holds items and keys as raw bytes, which are
  interpreted by the node they are applied to. Reading a vector of a negative size throws in the source;
  that outcome is \<open>None\<close>.
\<close>

section \<open>Bytes of items\<close>

definition rid_bytes :: "RID \<Rightarrow> byte list" where
  "rid_bytes r = int_to_bytes 4 (page_num r) @ int_to_bytes 4 (slot_num r)"

definition rid_of_bytes :: "byte list \<Rightarrow> RID" where
  "rid_of_bytes bs = \<lparr>page_num = int32_of_bytes bs, slot_num = int32_of_bytes (drop 4 bs)\<rparr>"

definition key_bytes :: "IKey \<Rightarrow> byte list" where
  "key_bytes k = user_key k @ rid_bytes (key_rid k)"

definition key_of_bytes :: "IndexFileHeader \<Rightarrow> byte list \<Rightarrow> IKey" where
  "key_of_bytes h bs = \<lparr>user_key = take (attr_length h) bs, key_rid = rid_of_bytes (drop (attr_length h) bs)\<rparr>"

fun value_bytes :: "ItemValue \<Rightarrow> byte list" where
  "value_bytes (RidV r) = rid_bytes r"
| "value_bytes (PageV p) = int_to_bytes 4 p"

definition value_size :: "bool \<Rightarrow> nat" where
  "value_size leaf = (if leaf then 8 else 4)"

definition item_bytes :: "item \<Rightarrow> byte list" where
  "item_bytes it = key_bytes (fst it) @ value_bytes (snd it)"

definition items_bytes :: "item list \<Rightarrow> byte list" where
  "items_bytes its = concat (map item_bytes its)"

definition item_of_bytes :: "IndexFileHeader \<Rightarrow> bool \<Rightarrow> byte list \<Rightarrow> item" where
  "item_of_bytes h leaf bs =
     (key_of_bytes h bs,
      let v = drop (key_length h) bs in if leaf then RidV (rid_of_bytes v) else PageV (int32_of_bytes v))"

fun items_of_bytes :: "IndexFileHeader \<Rightarrow> bool \<Rightarrow> nat \<Rightarrow> byte list \<Rightarrow> item list" where
  "items_of_bytes h leaf 0 bs = []"
| "items_of_bytes h leaf (Suc n) bs =
     item_of_bytes h leaf bs # items_of_bytes h leaf n (drop (key_length h + value_size leaf) bs)"

text \<open>The 24 bytes of an \<open>IndexFileHeader\<close>; an enumeration is stored as an \<open>int\<close>.\<close>

fun attr_type_index :: "AttrType \<Rightarrow> int" where
  "attr_type_index UNDEFINED = 0" | "attr_type_index CHARS = 1" | "attr_type_index INTS = 2"
| "attr_type_index FLOATS = 3" | "attr_type_index BOOLEANS = 4" | "attr_type_index DATES = 5"
| "attr_type_index TEXTS = 6" | "attr_type_index NULLS = 7"

definition attr_type_of_index :: "int \<Rightarrow> AttrType" where
  "attr_type_of_index i =
     (if i = 1 then CHARS else if i = 2 then INTS else if i = 3 then FLOATS else if i = 4 then BOOLEANS
      else if i = 5 then DATES else if i = 6 then TEXTS else if i = 7 then NULLS else UNDEFINED)"

definition header_bytes :: "IndexFileHeader \<Rightarrow> byte list" where
  "header_bytes h =
     int_to_bytes 4 (root_page h) @ int_to_bytes 4 (internal_max_size h) @ int_to_bytes 4 (leaf_max_size h) @
     int_to_bytes 4 (int (attr_length h)) @ int_to_bytes 4 (int (key_length h)) @
     int_to_bytes 4 (attr_type_index (attr_type h))"

definition header_of_bytes :: "byte list \<Rightarrow> IndexFileHeader" where
  "header_of_bytes bs =
     \<lparr>root_page = int32_of_bytes bs, internal_max_size = int32_of_bytes (drop 4 bs),
      leaf_max_size = int32_of_bytes (drop 8 bs), attr_length = nat (int32_of_bytes (drop 12 bs)),
      key_length = nat (int32_of_bytes (drop 16 bs)),
      attr_type = attr_type_of_index (int32_of_bytes (drop 20 bs))\<rparr>"

section \<open>Writing entries\<close>

fun entry_page :: "LogEntryHandler \<Rightarrow> PageNum" where
  "entry_page (InitHeaderPage p h) = p"
| "entry_page (UpdateRootPage p r old) = p"
| "entry_page (SetParentPage p par old) = p"
| "entry_page (LeafInitEmpty p) = p"
| "entry_page (LeafSetNextPage p nxt old) = p"
| "entry_page (InternalInitEmpty p) = p"
| "entry_page (InternalCreateNewRoot p q k r) = p"
| "entry_page (InternalUpdateKey p i k old) = p"
| "entry_page (NodeInsert p i its n) = p"
| "entry_page (NodeRemove p i its n) = p"

fun operation_index :: "LogEntryHandler \<Rightarrow> int" where
  "operation_index (InitHeaderPage p h) = 0"
| "operation_index (UpdateRootPage p r old) = 1"
| "operation_index (SetParentPage p par old) = 2"
| "operation_index (LeafInitEmpty p) = 3"
| "operation_index (LeafSetNextPage p nxt old) = 4"
| "operation_index (InternalInitEmpty p) = 5"
| "operation_index (InternalCreateNewRoot p q k r) = 6"
| "operation_index (InternalUpdateKey p i k old) = 7"
| "operation_index (NodeInsert p i its n) = 8"
| "operation_index (NodeRemove p i its n) = 9"

definition serialize_header :: "LogEntryHandler \<Rightarrow> byte list \<Rightarrow> byte list" where
  "serialize_header e buffer = write_int32 (write_int32 buffer (operation_index e)) (entry_page e)"

definition write_sized :: "byte list \<Rightarrow> byte list \<Rightarrow> byte list" where
  "write_sized buffer bs = ser_write (write_int32 buffer (int (length bs))) bs"

fun serialize_body :: "LogEntryHandler \<Rightarrow> byte list \<Rightarrow> byte list" where
  "serialize_body (InitHeaderPage p h) buffer = ser_write buffer (header_bytes h)"
| "serialize_body (UpdateRootPage p r old) buffer = write_int32 buffer r"
| "serialize_body (SetParentPage p par old) buffer = write_int32 buffer par"
| "serialize_body (LeafInitEmpty p) buffer = buffer"
| "serialize_body (LeafSetNextPage p nxt old) buffer = write_int32 buffer nxt"
| "serialize_body (InternalInitEmpty p) buffer = buffer"
| "serialize_body (InternalCreateNewRoot p first_pn k pn) buffer =
     write_sized (write_int32 (write_int32 buffer first_pn) pn) (key_bytes k)"
| "serialize_body (InternalUpdateKey p i k old) buffer = write_sized (write_int32 buffer (int i)) (key_bytes k)"
| "serialize_body (NodeInsert p i its n) buffer =
     write_sized (write_int32 (write_int32 buffer (int i)) (int n)) (items_bytes its)"
| "serialize_body (NodeRemove p i its n) buffer =
     write_sized (write_int32 (write_int32 buffer (int i)) (int n)) (items_bytes its)"

definition serialize :: "LogEntryHandler \<Rightarrow> byte list \<Rightarrow> byte list" where
  "serialize e buffer = serialize_body e (serialize_header e buffer)"

definition commit_buffer :: "int \<Rightarrow> LogEntryHandler list \<Rightarrow> byte list" where
  "commit_buffer pool_id es = fold serialize es (write_int32 [] pool_id)"

text \<open>
  \<open>commit\<close>: \<open>append\<close> is the log handler's \<open>append\<close>, an error or the sequence number given to the record.
\<close>

definition commit :: "(byte list \<Rightarrow> RC + LSN) \<Rightarrow> int \<Rightarrow> btree \<Rightarrow> RC \<times> btree" where
  "commit append_log pool_id t =
     (if entries t = [] then (SUCCESS, t)
      else (case append_log (commit_buffer pool_id (entries t)) of
              Inl rc \<Rightarrow> (rc, t)
            | Inr lsn \<Rightarrow>
                (SUCCESS, t\<lparr>page_lsn := (\<lambda>p. if p \<in> entry_page ` set (entries t) then lsn else page_lsn t p),
                            entries := []\<rparr>)))"

section \<open>Reading entries\<close>

datatype LogRecord =
    RInitHeaderPage PageNum IndexFileHeader
  | RUpdateRootPage PageNum PageNum
  | RSetParentPage PageNum PageNum
  | RLeafInitEmpty PageNum
  | RLeafSetNextPage PageNum PageNum
  | RInternalInitEmpty PageNum
  | RInternalCreateNewRoot PageNum PageNum "byte list" PageNum
  | RInternalUpdateKey PageNum int "byte list"
  | RNodeInsert PageNum int "byte list" int
  | RNodeRemove PageNum int "byte list" int

type_synonym 'a parsed = "(RC + 'a \<times> Deserializer) option"

definition deserialize_int32 :: "(int \<Rightarrow> LogRecord) \<Rightarrow> Deserializer \<Rightarrow> LogRecord parsed" where
  "deserialize_int32 mk d =
     (case read_int32 d of None \<Rightarrow> Some (Inl INTERNAL) | Some (v, d1) \<Rightarrow> Some (Inr (mk v, d1)))"

definition deserialize_init_header_page :: "PageNum \<Rightarrow> Deserializer \<Rightarrow> LogRecord parsed" where
  "deserialize_init_header_page p d =
     (case des_read 24 d of
        None \<Rightarrow> Some (Inl INTERNAL)
      | Some (bs, d1) \<Rightarrow> Some (Inr (RInitHeaderPage p (header_of_bytes bs), d1)))"

text \<open>\<open>vector<char> v(size); buffer.read(v)\<close>\<close>

definition read_vector :: "int \<Rightarrow> Deserializer \<Rightarrow> byte list parsed" where
  "read_vector len d =
     (if len < 0 then None
      else (case des_read (nat len) d of None \<Rightarrow> Some (Inl INTERNAL) | Some r \<Rightarrow> Some (Inr r)))"

definition deserialize_normal_operation :: "(int \<Rightarrow> byte list \<Rightarrow> int \<Rightarrow> LogRecord) \<Rightarrow> Deserializer \<Rightarrow> LogRecord parsed" where
  "deserialize_normal_operation mk d =
     (case read_int32 d of
        None \<Rightarrow> Some (Inl INTERNAL)
      | Some (index, d1) \<Rightarrow>
          (case read_int32 d1 of
             None \<Rightarrow> Some (Inl INTERNAL)
           | Some (item_num, d2) \<Rightarrow>
               (case read_int32 d2 of
                  None \<Rightarrow> Some (Inl INTERNAL)
                | Some (nbytes, d3) \<Rightarrow>
                    (case read_vector nbytes d3 of
                       None \<Rightarrow> None
                     | Some (Inl rc) \<Rightarrow> Some (Inl rc)
                     | Some (Inr (its, d4)) \<Rightarrow> Some (Inr (mk index its item_num, d4))))))"

definition deserialize_create_new_root :: "PageNum \<Rightarrow> Deserializer \<Rightarrow> LogRecord parsed" where
  "deserialize_create_new_root p d =
     (case read_int32 d of
        None \<Rightarrow> Some (Inl INTERNAL)
      | Some (first_pn, d1) \<Rightarrow>
          (case read_int32 d1 of
             None \<Rightarrow> Some (Inl INTERNAL)
           | Some (pn, d2) \<Rightarrow>
               (case read_int32 d2 of
                  None \<Rightarrow> Some (Inl INTERNAL)
                | Some (key_size, d3) \<Rightarrow>
                    (case read_vector key_size d3 of
                       None \<Rightarrow> None
                     | Some (Inl rc) \<Rightarrow> Some (Inl rc)
                     | Some (Inr (key, d4)) \<Rightarrow> Some (Inr (RInternalCreateNewRoot p first_pn key pn, d4))))))"

definition deserialize_update_key :: "PageNum \<Rightarrow> Deserializer \<Rightarrow> LogRecord parsed" where
  "deserialize_update_key p d =
     (case read_int32 d of
        None \<Rightarrow> Some (Inl INTERNAL)
      | Some (index, d1) \<Rightarrow>
          (case read_int32 d1 of
             None \<Rightarrow> Some (Inl INTERNAL)
           | Some (key_size, d2) \<Rightarrow>
               (case read_vector key_size d2 of
                  None \<Rightarrow> None
                | Some (Inl rc) \<Rightarrow> Some (Inl rc)
                | Some (Inr (key, d3)) \<Rightarrow> Some (Inr (RInternalUpdateKey p index key, d3)))))"

definition MAX_TYPE :: int where
  "MAX_TYPE = 10"

definition deserialize_entry :: "int \<Rightarrow> PageNum \<Rightarrow> Deserializer \<Rightarrow> LogRecord parsed" where
  "deserialize_entry ty p d =
     (if ty = 0 then deserialize_init_header_page p d
      else if ty = 1 then deserialize_int32 (RUpdateRootPage p) d
      else if ty = 2 then deserialize_int32 (RSetParentPage p) d
      else if ty = 3 then Some (Inr (RLeafInitEmpty p, d))
      else if ty = 4 then deserialize_int32 (RLeafSetNextPage p) d
      else if ty = 5 then Some (Inr (RInternalInitEmpty p, d))
      else if ty = 6 then deserialize_create_new_root p d
      else if ty = 7 then deserialize_update_key p d
      else if ty = 8 then deserialize_normal_operation (RNodeInsert p) d
      else if ty = 9 then deserialize_normal_operation (RNodeRemove p) d
      else Some (Inl INTERNAL))"

definition from_buffer :: "(PageNum \<Rightarrow> RC) \<Rightarrow> Deserializer \<Rightarrow> (PageNum \<times> LogRecord) parsed" where
  "from_buffer frame_getter d =
     (case read_int32 d of
        None \<Rightarrow> Some (Inl INVALID_ARGUMENT)
      | Some (ty, d1) \<Rightarrow>
          if ty < 0 \<or> ty \<ge> MAX_TYPE then Some (Inl INVALID_ARGUMENT)
          else (case read_int32 d1 of
                  None \<Rightarrow> Some (Inl INVALID_ARGUMENT)
                | Some (p, d2) \<Rightarrow>
                    (let rc = frame_getter p
                     in if rc \<noteq> SUCCESS then Some (Inl rc)
                        else (case deserialize_entry ty p d2 of
                                None \<Rightarrow> None
                              | Some (Inl rc) \<Rightarrow> Some (Inl rc)
                              | Some (Inr (r, d3)) \<Rightarrow> Some (Inr ((p, r), d3))))))"

section \<open>Redo\<close>

definition recover_init_header_page :: "(byte list \<Rightarrow> byte list \<Rightarrow> rat option) \<Rightarrow> IndexFileHeader \<Rightarrow> btree \<Rightarrow> btree" where
  "recover_init_header_page fsub h t =
     t\<lparr>file_header := h, header_dirty := False,
       key_comparator := KeyComparator (AttrComparator fsub (attr_type h) (attr_length h))\<rparr>"

text \<open>What one entry does to the tree when it is run again.\<close>

fun redo_entry :: "(byte list \<Rightarrow> byte list \<Rightarrow> rat option) \<Rightarrow> LogEntryHandler \<Rightarrow> btree \<Rightarrow> btree" where
  "redo_entry fsub (InitHeaderPage p h) t = recover_init_header_page fsub h t"
| "redo_entry fsub (UpdateRootPage p r old) t = update_root_page_num_locked r t"
| "redo_entry fsub (SetParentPage p par old) t = set_parent_page_num p par t"
| "redo_entry fsub (LeafInitEmpty p) t = leaf_init_empty p t"
| "redo_entry fsub (LeafSetNextPage p nxt old) t = leaf_set_next_page p nxt t"
| "redo_entry fsub (InternalInitEmpty p) t = internal_init_empty p t"
| "redo_entry fsub (InternalCreateNewRoot p first_pn k pn) t = internal_create_new_root p first_pn k pn t"
| "redo_entry fsub (InternalUpdateKey p i k old) t = internal_set_key_at p i k t"
| "redo_entry fsub (NodeInsert p i its n) t = modify_page p (recover_insert_items i (take n its)) t"
| "redo_entry fsub (NodeRemove p i its n) t = modify_page p (recover_remove_items i n) t"

text \<open>A record read back, interpreted by the header and the node of its page.\<close>

fun entry_of_record :: "btree \<Rightarrow> LogRecord \<Rightarrow> LogEntryHandler" where
  "entry_of_record t (RInitHeaderPage p h) = InitHeaderPage p h"
| "entry_of_record t (RUpdateRootPage p r) = UpdateRootPage p r (-1)"
| "entry_of_record t (RSetParentPage p par) = SetParentPage p par (-1)"
| "entry_of_record t (RLeafInitEmpty p) = LeafInitEmpty p"
| "entry_of_record t (RLeafSetNextPage p nxt) = LeafSetNextPage p nxt (-1)"
| "entry_of_record t (RInternalInitEmpty p) = InternalInitEmpty p"
| "entry_of_record t (RInternalCreateNewRoot p first_pn bs pn) =
     InternalCreateNewRoot p first_pn (key_of_bytes (file_header t) bs) pn"
| "entry_of_record t (RInternalUpdateKey p i bs) =
     InternalUpdateKey p (nat i) (key_of_bytes (file_header t) bs) (key_of_bytes (file_header t) [])"
| "entry_of_record t (RNodeInsert p i bs n) =
     NodeInsert p (nat i) (items_of_bytes (file_header t) (is_leaf (pages t p)) (nat n) bs) (nat n)"
| "entry_of_record t (RNodeRemove p i bs n) = NodeRemove p (nat i) [] (nat n)"

text \<open>Every record that is read takes at least its eight header bytes.\<close>

lemma read_int32_advances: "read_int32 d = Some (v, d') \<Longrightarrow> remain d' = remain d - 4"
  by (auto simp: read_int32_def dest: des_read_advances)

lemma read_vector_advances: "read_vector n d = Some (Inr (v, d')) \<Longrightarrow> remain d' \<le> remain d"
  by (auto simp: read_vector_def split: if_splits option.splits dest: des_read_advances)

lemmas deserialize_defs = deserialize_init_header_page_def deserialize_int32_def deserialize_normal_operation_def
  deserialize_create_new_root_def deserialize_update_key_def

lemma deserialize_entry_advances: "deserialize_entry ty p d = Some (Inr (r, d')) \<Longrightarrow> remain d' \<le> remain d"
  unfolding deserialize_entry_def deserialize_defs
  by (auto split: if_splits option.splits sum.splits prod.splits
      dest!: read_int32_advances read_vector_advances des_read_advances)

lemma from_buffer_advances: "from_buffer g d = Some (Inr (r, d')) \<Longrightarrow> remain d' \<le> remain d - 8"
  unfolding from_buffer_def
  by (auto simp: Let_def split: if_splits option.splits sum.splits prod.splits
      dest!: read_int32_advances deserialize_entry_advances)

text \<open>
  The loop of \<open>__redo\<close>: the return code it stopped with, the tree and the pages whose sequence number is
  to be set.
\<close>

function redo_loop :: "(byte list \<Rightarrow> byte list \<Rightarrow> rat option) \<Rightarrow> LSN \<Rightarrow> Deserializer \<Rightarrow> btree \<Rightarrow> PageNum list \<Rightarrow>
    (RC \<times> btree \<times> PageNum list) option" where
  "redo_loop fsub lsn d t frames =
     (if remain d > 0 then
        (case from_buffer (\<lambda>p. get_page p t) d of
           None \<Rightarrow> None
         | Some (Inl rc) \<Rightarrow> Some (rc, t, frames)
         | Some (Inr ((p, r), d')) \<Rightarrow>
             if page_lsn t p \<ge> lsn then redo_loop fsub lsn d' t frames
             else redo_loop fsub lsn d' (redo_entry fsub (entry_of_record t r) t) (frames @ [p]))
      else Some (SUCCESS, t, frames))"
  by pat_completeness auto

termination redo_loop
  by (relation "measure (\<lambda>(fsub, lsn, d, t, frames). nat (remain d))")
    (auto dest: from_buffer_advances)

declare redo_loop.simps [simp del]

text \<open>\<open>__redo\<close> returns success whatever the loop stopped with.\<close>

definition redo_log :: "(byte list \<Rightarrow> byte list \<Rightarrow> rat option) \<Rightarrow> LSN \<Rightarrow> Deserializer \<Rightarrow> btree \<Rightarrow> (RC \<times> btree) option" where
  "redo_log fsub lsn d t =
     (case redo_loop fsub lsn d (t\<lparr>need_log := False\<rparr>) [] of
        None \<Rightarrow> None
      | Some (rc, t1, frames) \<Rightarrow>
          (let t2 = (if rc = SUCCESS
                     then t1\<lparr>page_lsn := (\<lambda>p. if p \<in> set frames then lsn else page_lsn t1 p)\<rparr> else t1)
           in Some (SUCCESS, t2\<lparr>need_log := True\<rparr>)))"

section \<open>Rollback\<close>

text \<open>
  The rollback of \<open>NormalOperationLogEntryHandler\<close> goes through the base class, whose \<open>__item_at\<close> is the
  null pointer: whenever items have to be moved or copied the process dies, which is \<open>None\<close> here.
\<close>

fun rollback_entry :: "LogEntryHandler \<Rightarrow> btree \<Rightarrow> btree option" where
  "rollback_entry (InitHeaderPage p h) t = Some t"
| "rollback_entry (UpdateRootPage p r old) t = Some (update_root_page_num_locked old t)"
| "rollback_entry (SetParentPage p par old) t = Some (set_parent_page_num p old t)"
| "rollback_entry (LeafInitEmpty p) t = Some t"
| "rollback_entry (LeafSetNextPage p nxt old) t = Some (leaf_set_next_page p old t)"
| "rollback_entry (InternalInitEmpty p) t = Some t"
| "rollback_entry (InternalCreateNewRoot p first_pn k pn) t = Some t"
| "rollback_entry (InternalUpdateKey p i k old) t = Some (internal_set_key_at p i old t)"
| "rollback_entry (NodeInsert p i its n) t =
     (if int i < node_size (pages t p) - int n then None else Some (modify_page p (recover_remove_items i n) t))"
| "rollback_entry (NodeRemove p i its n) t =
     (if int i < node_size (pages t p) \<or> n > 0 then None else Some t)"

fun rollback_entries :: "LogEntryHandler list \<Rightarrow> btree \<Rightarrow> btree option" where
  "rollback_entries [] t = Some t"
| "rollback_entries (e # es) t =
     (case rollback_entry e t of None \<Rightarrow> None | Some t' \<Rightarrow> rollback_entries es t')"

definition rollback :: "btree \<Rightarrow> (RC \<times> btree) option" where
  "rollback t =
     (case rollback_entries (rev (entries t)) (t\<lparr>need_log := False\<rparr>) of
        None \<Rightarrow> None
      | Some t1 \<Rightarrow> Some (SUCCESS, t1\<lparr>entries := [], need_log := True\<rparr>))"

text \<open>The destructor of the mini transaction.\<close>

definition finish_mtr :: "(byte list \<Rightarrow> RC + LSN) \<Rightarrow> int \<Rightarrow> RC \<Rightarrow> btree \<Rightarrow> btree option" where
  "finish_mtr append_log pool_id operation_result t =
     (if operation_result = SUCCESS then Some (snd (commit append_log pool_id t))
      else map_option snd (rollback t))"

section \<open>Round trips\<close>

subsection \<open>Fields\<close>

definition rid_int32 :: "RID \<Rightarrow> bool" where
  "rid_int32 r \<longleftrightarrow> int32 (page_num r) \<and> int32 (slot_num r)"

lemma length_rid_bytes [simp]: "length (rid_bytes r) = 8"
  by (simp add: rid_bytes_def)

lemma int32_of_bytes_append [simp]: "length bs = 4 \<Longrightarrow> int32_of_bytes (bs @ cs) = int32_of_bytes bs"
  by (simp add: int32_of_bytes_def)

lemma rid_of_rid_bytes [simp]: "rid_int32 r \<Longrightarrow> rid_of_bytes (rid_bytes r @ cs) = r"
  by (simp add: rid_of_bytes_def rid_bytes_def rid_int32_def int32_roundtrip)

definition key_fits :: "IndexFileHeader \<Rightarrow> IKey \<Rightarrow> bool" where
  "key_fits h k \<longleftrightarrow> length (user_key k) = attr_length h \<and> rid_int32 (key_rid k)"

definition header_ok :: "IndexFileHeader \<Rightarrow> bool" where
  "header_ok h \<longleftrightarrow> key_length h = attr_length h + 8 \<and> int32 (root_page h) \<and> int32 (internal_max_size h)
     \<and> int32 (leaf_max_size h) \<and> int (key_length h) < 2 ^ 31"

lemma length_key_bytes: "key_fits h k \<Longrightarrow> key_length h = attr_length h + 8 \<Longrightarrow> length (key_bytes k) = key_length h"
  by (simp add: key_bytes_def key_fits_def)

lemma key_of_key_bytes [simp]: "key_fits h k \<Longrightarrow> key_of_bytes h (key_bytes k @ cs) = k"
  by (simp add: key_of_bytes_def key_bytes_def key_fits_def)

lemma key_of_key_bytes' [simp]: "key_fits h k \<Longrightarrow> key_of_bytes h (key_bytes k) = k"
  using key_of_key_bytes [of h k "[]"] by simp

fun value_fits :: "bool \<Rightarrow> ItemValue \<Rightarrow> bool" where
  "value_fits leaf (RidV r) \<longleftrightarrow> leaf \<and> rid_int32 r"
| "value_fits leaf (PageV p) \<longleftrightarrow> \<not> leaf \<and> int32 p"

definition item_fits :: "IndexFileHeader \<Rightarrow> bool \<Rightarrow> item \<Rightarrow> bool" where
  "item_fits h leaf it \<longleftrightarrow> key_fits h (fst it) \<and> value_fits leaf (snd it)"

lemma length_item_bytes:
  "item_fits h leaf it \<Longrightarrow> key_length h = attr_length h + 8 \<Longrightarrow> length (item_bytes it) = key_length h + value_size leaf"
  by (cases "snd it") (auto simp: item_bytes_def item_fits_def length_key_bytes value_size_def)

lemma item_of_item_bytes:
  assumes "item_fits h leaf it" "key_length h = attr_length h + 8"
  shows "item_of_bytes h leaf (item_bytes it @ cs) = it"
proof -
  obtain k v where it: "it = (k, v)" by force
  have k: "key_fits h k" and len: "length (key_bytes k) = key_length h"
    using assms it length_key_bytes by (auto simp: item_fits_def)
  show ?thesis
    using assms(1) k len by (cases v) (auto simp: it item_bytes_def item_of_bytes_def item_fits_def int32_roundtrip)
qed

lemma items_of_items_bytes:
  assumes "\<forall>it\<in>set its. item_fits h leaf it" "key_length h = attr_length h + 8"
  shows "items_of_bytes h leaf (length its) (items_bytes its) = its"
  using assms(1)
proof (induction its)
  case (Cons it its)
  then show ?case
    using item_of_item_bytes [of h leaf it "items_bytes its"] length_item_bytes [of h leaf it] assms(2)
    by (simp add: items_bytes_def)
qed simp

lemma attr_type_of_attr_type_index [simp]: "attr_type_of_index (attr_type_index ty) = ty"
  by (cases ty) (simp_all add: attr_type_of_index_def)

lemma int32_attr_type_index: "int32 (attr_type_index ty)"
  by (cases ty) (simp_all add: int32_def)

lemma header_of_header_bytes: "header_ok h \<Longrightarrow> header_of_bytes (header_bytes h) = h"
proof -
  assume h: "header_ok h"
  have i: "int32 (root_page h)" "int32 (internal_max_size h)" "int32 (leaf_max_size h)"
    "int32 (int (attr_length h))" "int32 (int (key_length h))"
    using h by (auto simp: header_ok_def int32_def)
  show ?thesis
    by (simp add: header_of_bytes_def header_bytes_def i [THEN int32_roundtrip]
        int32_attr_type_index [THEN int32_roundtrip])
qed

lemma length_header_bytes [simp]: "length (header_bytes h) = 24"
  by (simp add: header_bytes_def)

subsection \<open>Entries\<close>

text \<open>What is left of an entry on disk.\<close>

fun record_of :: "LogEntryHandler \<Rightarrow> LogRecord" where
  "record_of (InitHeaderPage p h) = RInitHeaderPage p h"
| "record_of (UpdateRootPage p r old) = RUpdateRootPage p r"
| "record_of (SetParentPage p par old) = RSetParentPage p par"
| "record_of (LeafInitEmpty p) = RLeafInitEmpty p"
| "record_of (LeafSetNextPage p nxt old) = RLeafSetNextPage p nxt"
| "record_of (InternalInitEmpty p) = RInternalInitEmpty p"
| "record_of (InternalCreateNewRoot p q k r) = RInternalCreateNewRoot p q (key_bytes k) r"
| "record_of (InternalUpdateKey p i k old) = RInternalUpdateKey p (int i) (key_bytes k)"
| "record_of (NodeInsert p i its n) = RNodeInsert p (int i) (items_bytes its) (int n)"
| "record_of (NodeRemove p i its n) = RNodeRemove p (int i) (items_bytes its) (int n)"

text \<open>All integers of the entry fit their 32 bits.\<close>

fun entry_int32 :: "LogEntryHandler \<Rightarrow> bool" where
  "entry_int32 (InitHeaderPage p h) \<longleftrightarrow> int32 p \<and> header_ok h"
| "entry_int32 (UpdateRootPage p r old) \<longleftrightarrow> int32 p \<and> int32 r"
| "entry_int32 (SetParentPage p par old) \<longleftrightarrow> int32 p \<and> int32 par"
| "entry_int32 (LeafInitEmpty p) \<longleftrightarrow> int32 p"
| "entry_int32 (LeafSetNextPage p nxt old) \<longleftrightarrow> int32 p \<and> int32 nxt"
| "entry_int32 (InternalInitEmpty p) \<longleftrightarrow> int32 p"
| "entry_int32 (InternalCreateNewRoot p q k r) \<longleftrightarrow>
     int32 p \<and> int32 q \<and> int32 r \<and> int32 (int (length (key_bytes k)))"
| "entry_int32 (InternalUpdateKey p i k old) \<longleftrightarrow> int32 p \<and> int32 (int i) \<and> int32 (int (length (key_bytes k)))"
| "entry_int32 (NodeInsert p i its n) \<longleftrightarrow>
     int32 p \<and> int32 (int i) \<and> int32 (int n) \<and> int32 (int (length (items_bytes its)))"
| "entry_int32 (NodeRemove p i its n) \<longleftrightarrow>
     int32 p \<and> int32 (int i) \<and> int32 (int n) \<and> int32 (int (length (items_bytes its)))"

lemmas write_defs = ser_write_def write_int32_def write_int64_def write_sized_def

lemma serialize_body_append: "serialize_body e buf = buf @ serialize_body e []"
  by (cases e) (simp_all add: write_defs)

lemma serialize_append: "serialize e buf = buf @ serialize e []"
  using serialize_body_append [of e "serialize_header e buf"] serialize_body_append [of e "serialize_header e []"]
  by (simp add: serialize_def serialize_header_def write_defs)

lemma serialize_parts:
  "serialize e [] = int_to_bytes 4 (operation_index e) @ int_to_bytes 4 (entry_page e) @ serialize_body e []"
  using serialize_body_append [of e "serialize_header e []"]
  by (simp add: serialize_def serialize_header_def write_defs)

lemma read_int32_prefix: "int32 v \<Longrightarrow> reads d (int_to_bytes 4 v @ ys) d'' \<Longrightarrow> \<exists>d'. read_int32 d = Some (v, d') \<and> reads d' ys d''"
  by (rule int32_codec.decode_prefix)

lemma read_vector_whole: "reads d bs d' \<Longrightarrow> n = int (length bs) \<Longrightarrow> read_vector n d = Some (Inr (bs, d'))"
  by (simp add: read_vector_def des_read_reads)

lemma read_sized_whole:
  assumes "int32 (int (length bs))" "reads d (write_sized [] bs) d'"
  shows "\<exists>d1. read_int32 d = Some (int (length bs), d1) \<and> read_vector (int (length bs)) d1 = Some (Inr (bs, d'))"
  using read_int32_prefix [OF assms(1), of d bs d'] assms(2) read_vector_whole by (auto simp: write_defs)

lemma deserialize_normal_operation_reads:
  assumes "int32 i" "int32 n" "int32 (int (length bs))"
    and "reads d (int_to_bytes 4 i @ int_to_bytes 4 n @ write_sized [] bs) d'"
  shows "deserialize_normal_operation mk d = Some (Inr (mk i bs n, d'))"
proof -
  obtain d1 d2 where d: "read_int32 d = Some (i, d1)" "read_int32 d1 = Some (n, d2)" "reads d2 (write_sized [] bs) d'"
    using read_int32_prefix [OF assms(1) assms(4)] read_int32_prefix [OF assms(2)] by blast
  with read_sized_whole [OF assms(3) d(3)] show ?thesis by (auto simp: deserialize_normal_operation_def)
qed

lemma deserialize_create_new_root_reads:
  assumes "int32 q" "int32 r" "int32 (int (length bs))"
    and "reads d (int_to_bytes 4 q @ int_to_bytes 4 r @ write_sized [] bs) d'"
  shows "deserialize_create_new_root p d = Some (Inr (RInternalCreateNewRoot p q bs r, d'))"
proof -
  obtain d1 d2 where d: "read_int32 d = Some (q, d1)" "read_int32 d1 = Some (r, d2)" "reads d2 (write_sized [] bs) d'"
    using read_int32_prefix [OF assms(1) assms(4)] read_int32_prefix [OF assms(2)] by blast
  with read_sized_whole [OF assms(3) d(3)] show ?thesis by (auto simp: deserialize_create_new_root_def)
qed

lemma deserialize_update_key_reads:
  assumes "int32 i" "int32 (int (length bs))" "reads d (int_to_bytes 4 i @ write_sized [] bs) d'"
  shows "deserialize_update_key p d = Some (Inr (RInternalUpdateKey p i bs, d'))"
proof -
  obtain d1 where d: "read_int32 d = Some (i, d1)" "reads d1 (write_sized [] bs) d'"
    using read_int32_prefix [OF assms(1) assms(3)] by blast
  with read_sized_whole [OF assms(2) d(2)] show ?thesis by (auto simp: deserialize_update_key_def)
qed

lemma deserialize_int32_reads: "int32 v \<Longrightarrow> reads d (int_to_bytes 4 v) d' \<Longrightarrow> deserialize_int32 mk d = Some (Inr (mk v, d'))"
  using int32_codec.roundtrip [of v d d'] by (simp add: deserialize_int32_def)

lemma deserialize_header_reads:
  "header_ok h \<Longrightarrow> reads d (header_bytes h) d' \<Longrightarrow> deserialize_init_header_page p d = Some (Inr (RInitHeaderPage p h, d'))"
  by (simp add: deserialize_init_header_page_def des_read_reads header_of_header_bytes)

lemma deserialize_entry_reads:
  assumes "entry_int32 e" "reads d (serialize_body e []) d'"
  shows "deserialize_entry (operation_index e) (entry_page e) d = Some (Inr (record_of e, d'))"
  using assms
  by (cases e)
    (simp_all add: deserialize_entry_def deserialize_int32_reads deserialize_header_reads
      deserialize_create_new_root_reads deserialize_update_key_reads deserialize_normal_operation_reads
      ser_write_def write_int32_def reads_Nil [symmetric], simp_all add: write_sized_def ser_write_def write_int32_def
      deserialize_create_new_root_reads deserialize_update_key_reads deserialize_normal_operation_reads)

lemma int32_operation_index: "int32 (operation_index e)" "0 \<le> operation_index e \<and> operation_index e < MAX_TYPE"
  by (cases e; simp add: int32_def MAX_TYPE_def)+

lemma entry_int32_page: "entry_int32 e \<Longrightarrow> int32 (entry_page e)"
  by (cases e) simp_all

lemma from_buffer_reads:
  assumes "entry_int32 e" "frame_getter (entry_page e) = SUCCESS" "reads d (serialize e []) d'"
  shows "from_buffer frame_getter d = Some (Inr ((entry_page e, record_of e), d'))"
proof -
  obtain d1 d2 where d: "read_int32 d = Some (operation_index e, d1)" "read_int32 d1 = Some (entry_page e, d2)"
    "reads d2 (serialize_body e []) d'"
    using read_int32_prefix [OF int32_operation_index(1)] read_int32_prefix [OF entry_int32_page [OF assms(1)]]
      assms(3) unfolding serialize_parts by blast
  with deserialize_entry_reads [OF assms(1) d(3)] int32_operation_index(2) [of e] assms(2)
  show ?thesis by (simp add: from_buffer_def)
qed

text \<open>
  A log entry whose integers fit their fields is read back as written: the same type, page and body
  (the old values kept for rollback are not written), and the reader stops right behind it.
\<close>

lemma log_entry_roundtrip:
  assumes "entry_int32 e" "frame_getter (entry_page e) = SUCCESS"
  shows "\<exists>d'. from_buffer frame_getter \<lparr>des_buffer = pre @ serialize e [] @ post, position = length pre\<rparr>
      = Some (Inr ((entry_page e, record_of e), d'))
    \<and> d' = \<lparr>des_buffer = pre @ serialize e [] @ post, position = length pre + length (serialize e [])\<rparr>"
  using from_buffer_reads [of e frame_getter, OF assms] by (simp add: reads_def)

end
