(* ===== verification/BplusRecovery.thy ===== *)
theory BplusRecovery
  imports Prelude BplusLog
begin

text \<open>
  Recovery of the index from its log. Every page the handlers change is logged first, each log entry acts
  on its own page only, and a page's sequence number says whether it already holds the logged change. So
  running the log of an operation on the state before it gives the state after it, and running it on the
  mixture of old and new pages a crash leaves gives the state after it as well.
\<close>

section \<open>Effects of entries\<close>

definition replay :: "(byte list \<Rightarrow> byte list \<Rightarrow> rat option) \<Rightarrow> LogEntryHandler list \<Rightarrow> btree \<Rightarrow> btree" where
  "replay fsub es t = fold (redo_entry fsub) es t"

text \<open>The effect of an entry on its page; the header only supplies the length of the attribute.\<close>

fun page_effect :: "IndexFileHeader \<Rightarrow> LogEntryHandler \<Rightarrow> IndexNode \<Rightarrow> IndexNode" where
  "page_effect h (InitHeaderPage p h') n = n"
| "page_effect h (UpdateRootPage p r old) n = n"
| "page_effect h (SetParentPage p par old) n = n\<lparr>parent := par\<rparr>"
| "page_effect h (LeafInitEmpty p) n = (init_empty True n)\<lparr>next_brother := BP_INVALID_PAGE_NUM\<rparr>"
| "page_effect h (LeafSetNextPage p nxt old) n = n\<lparr>next_brother := nxt\<rparr>"
| "page_effect h (InternalInitEmpty p) n = init_empty False n"
| "page_effect h (InternalCreateNewRoot p q k r) n = create_new_root_items h q k r n"
| "page_effect h (InternalUpdateKey p i k old) n = n\<lparr>items := (items n)[i := (k, snd (items n ! i))]\<rparr>"
| "page_effect h (NodeInsert p i its m) n = recover_insert_items i (take m its) n"
| "page_effect h (NodeRemove p i its m) n = recover_remove_items i m n"

fun header_effect :: "LogEntryHandler \<Rightarrow> IndexFileHeader \<Rightarrow> IndexFileHeader" where
  "header_effect (InitHeaderPage p h') h = h'"
| "header_effect (UpdateRootPage p r old) h = h\<lparr>root_page := r\<rparr>"
| "header_effect _ h = h"

lemmas node_op_defs = set_parent_page_num_def leaf_init_empty_def leaf_set_next_page_def internal_init_empty_def
  internal_create_new_root_def internal_set_key_at_def update_root_page_num_locked_def recover_init_header_page_def

lemma redo_entry_pages:
  "pages (redo_entry fsub e t) = (pages t)(entry_page e := page_effect (file_header t) e (pages t (entry_page e)))"
  by (cases e) (simp_all add: node_op_defs node_simps)

lemma redo_entry_header: "file_header (redo_entry fsub e t) = header_effect e (file_header t)"
  by (cases e) (simp_all add: node_op_defs node_simps)

lemma append_log_entry_lsn [node_simps]: "page_lsn (append_log_entry e t) = page_lsn t"
  by (simp add: append_log_entry_def)

lemma modify_page_lsn [node_simps]: "page_lsn (modify_page p f t) = page_lsn t"
  by (simp add: modify_page_def)

lemma redo_entry_frame [simp]:
  "page_lsn (redo_entry fsub e t) = page_lsn t" "page_count (redo_entry fsub e t) = page_count t"
  "need_log (redo_entry fsub e t) = need_log t"
  by (cases e; simp add: node_op_defs node_simps)+

lemma redo_entry_quiet: "\<not> need_log t \<Longrightarrow> entries (redo_entry fsub e t) = entries t"
  by (cases e) (simp_all add: node_op_defs node_simps append_log_entry_def)

text \<open>Two states with the same pages and header.\<close>

definition same_store :: "btree \<Rightarrow> btree \<Rightarrow> bool" where
  "same_store t u \<longleftrightarrow> pages t = pages u \<and> file_header t = file_header u"

lemma same_store_refl [simp]: "same_store t t"
  by (simp add: same_store_def)

lemma same_store_trans: "same_store t u \<Longrightarrow> same_store u v \<Longrightarrow> same_store t v"
  by (simp add: same_store_def)

lemma redo_entry_same_store: "same_store t u \<Longrightarrow> same_store (redo_entry fsub e t) (redo_entry fsub e u)"
  by (simp add: same_store_def redo_entry_pages redo_entry_header)

lemma replay_same_store: "same_store t u \<Longrightarrow> same_store (replay fsub es t) (replay fsub es u)"
  by (induction es arbitrary: t u) (auto simp: replay_def intro: redo_entry_same_store)

lemma replay_append: "replay fsub (es @ fs) t = replay fsub fs (replay fsub es t)"
  by (simp add: replay_def)

lemma replay_simps [simp]: "replay fsub [] t = t" "replay fsub (e # es) t = replay fsub es (redo_entry fsub e t)"
  by (simp_all add: replay_def)

section \<open>Every change is logged\<close>

text \<open>
  A state an operation may start from: logging is on, the two header pages exist, and beyond the end of
  the file there is nothing.
\<close>

definition loggable :: "btree \<Rightarrow> bool" where
  "loggable t \<longleftrightarrow> need_log t \<and> 2 \<le> page_count t \<and> (\<forall>p. int (page_count t) \<le> p \<longrightarrow> pages t p = zero_node)"

abbreviation in_file :: "btree \<Rightarrow> PageNum \<Rightarrow> bool" where
  "in_file t p \<equiv> 0 \<le> p \<and> p < int (page_count t)"

text \<open>From \<open>t\<close> to \<open>t'\<close> the operation logged all it did.\<close>

definition logged :: "btree \<Rightarrow> btree \<Rightarrow> bool" where
  "logged t t' \<longleftrightarrow> page_count t \<le> page_count t' \<and> (loggable t \<longrightarrow> loggable t'
     \<and> key_comparator t' = key_comparator t
     \<and> (\<exists>es. entries t' = entries t @ es \<and> (\<forall>fsub. same_store t' (replay fsub es t))
          \<and> (\<forall>e\<in>set es. in_file t' (entry_page e) \<and> (case e of InitHeaderPage _ _ \<Rightarrow> False
               | UpdateRootPage p _ _ \<Rightarrow> p = FIRST_INDEX_PAGE | _ \<Rightarrow> True))))"

lemma logged_refl [simp]: "logged t t"
  by (auto simp: logged_def)

lemma logged_trans:
  assumes "logged t u" "logged u v"
  shows "logged t v"
  unfolding logged_def
proof (intro impI conjI)
  have pc: "page_count t \<le> page_count u" "page_count u \<le> page_count v" using assms by (simp_all add: logged_def)
  then show "page_count t \<le> page_count v" by simp
  assume t: "loggable t"
  from t assms(1) obtain es where u: "loggable u" "key_comparator u = key_comparator t"
    "entries u = entries t @ es" "\<forall>fsub. same_store u (replay fsub es t)"
    "\<forall>e\<in>set es. in_file u (entry_page e) \<and> (case e of InitHeaderPage _ _ \<Rightarrow> False
               | UpdateRootPage p _ _ \<Rightarrow> p = FIRST_INDEX_PAGE | _ \<Rightarrow> True)"
    by (auto simp: logged_def)
  from u(1) assms(2) obtain fs where v: "loggable v" "key_comparator v = key_comparator u"
    "entries v = entries u @ fs" "\<forall>fsub. same_store v (replay fsub fs u)"
    "\<forall>e\<in>set fs. in_file v (entry_page e) \<and> (case e of InitHeaderPage _ _ \<Rightarrow> False
               | UpdateRootPage p _ _ \<Rightarrow> p = FIRST_INDEX_PAGE | _ \<Rightarrow> True)"
    by (auto simp: logged_def)
  have "same_store v (replay fsub (es @ fs) t)" for fsub
    using v(4) u(4) same_store_trans [of v "replay fsub fs u"] replay_same_store [of u "replay fsub es t"]
    by (simp add: replay_append)
  moreover have "\<forall>e\<in>set (es @ fs). in_file v (entry_page e) \<and> (case e of InitHeaderPage _ _ \<Rightarrow> False
               | UpdateRootPage p _ _ \<Rightarrow> p = FIRST_INDEX_PAGE | _ \<Rightarrow> True)"
    using u(5) v(5) pc by fastforce
  ultimately show "\<exists>es. entries v = entries t @ es \<and> (\<forall>fsub. same_store v (replay fsub es t)) \<and>
        (\<forall>e\<in>set es. in_file v (entry_page e) \<and> (case e of InitHeaderPage _ _ \<Rightarrow> False
               | UpdateRootPage p _ _ \<Rightarrow> p = FIRST_INDEX_PAGE | _ \<Rightarrow> True))"
    using u(3) v(3) by (intro exI [of _ "es @ fs"]) auto
  show "loggable v" "key_comparator v = key_comparator t" using u(2) v(1,2) by simp_all
qed

lemma logged_in_file: "logged t u \<Longrightarrow> in_file t p \<Longrightarrow> in_file u p"
  by (simp add: logged_def)

text \<open>One logged change of a page of the file.\<close>

lemma logged_modify:
  assumes "t' = modify_page p f (append_log_entry e t)" "in_file t p" "entry_page e = p"
    and "page_effect (file_header t) e (pages t p) = f (pages t p)" "header_effect e (file_header t) = file_header t"
    and "case e of InitHeaderPage _ _ \<Rightarrow> False | UpdateRootPage p _ _ \<Rightarrow> False | _ \<Rightarrow> True"
  shows "logged t t'"
  unfolding logged_def
proof (intro impI conjI)
  show "page_count t \<le> page_count t'" by (simp add: assms(1) node_simps)
  assume t: "loggable t"
  show "loggable t'" using t assms(2) by (auto simp: loggable_def assms(1) node_simps)
  show "key_comparator t' = key_comparator t" by (simp add: assms(1) node_simps)
  have "same_store t' (replay fsub [e] t)" for fsub
    using assms(3-5) by (simp add: same_store_def assms(1) node_simps redo_entry_pages redo_entry_header)
  moreover have "entries t' = entries t @ [e]" using t by (simp add: assms(1) node_simps append_log_entry_def loggable_def)
  ultimately show "\<exists>es. entries t' = entries t @ es \<and> (\<forall>fsub. same_store t' (replay fsub es t))
          \<and> (\<forall>e\<in>set es. in_file t' (entry_page e) \<and> (case e of InitHeaderPage _ _ \<Rightarrow> False
               | UpdateRootPage p _ _ \<Rightarrow> p = FIRST_INDEX_PAGE | _ \<Rightarrow> True))"
    using assms(2,3,6) by (intro exI [of _ "[e]"]) (auto simp: assms(1) node_simps split: LogEntryHandler.splits)
qed

named_theorems logged_rules

lemma logged_set_parent [logged_rules]: "in_file t p \<Longrightarrow> logged t (set_parent_page_num p par t)"
  unfolding set_parent_page_num_def by (rule logged_modify [OF refl]) auto

lemma logged_leaf_init [logged_rules]: "in_file t p \<Longrightarrow> logged t (leaf_init_empty p t)"
  unfolding leaf_init_empty_def by (rule logged_modify [OF refl]) auto

lemma logged_leaf_set_next [logged_rules]: "in_file t p \<Longrightarrow> logged t (leaf_set_next_page p nxt t)"
  unfolding leaf_set_next_page_def by (rule logged_modify [OF refl]) auto

lemma logged_leaf_insert [logged_rules]: "in_file t p \<Longrightarrow> logged t (leaf_insert p i k v t)"
  unfolding leaf_insert_def by (rule logged_modify [OF refl]) auto

lemma logged_node_remove [logged_rules]: "in_file t p \<Longrightarrow> logged t (node_remove p i n t)"
  unfolding node_remove_def by (rule logged_modify [OF refl]) auto

lemma logged_leaf_append [logged_rules]: "in_file t p \<Longrightarrow> logged t (leaf_append p its t)"
  unfolding leaf_append_def Let_def by (rule logged_modify [OF refl]) auto

lemma logged_internal_init [logged_rules]: "in_file t p \<Longrightarrow> logged t (internal_init_empty p t)"
  unfolding internal_init_empty_def by (rule logged_modify [OF refl]) auto

lemma logged_create_new_root [logged_rules]: "in_file t p \<Longrightarrow> logged t (internal_create_new_root p q k r t)"
  unfolding internal_create_new_root_def by (rule logged_modify [OF refl]) auto

lemma logged_set_key [logged_rules]: "in_file t p \<Longrightarrow> logged t (internal_set_key_at p i k t)"
  unfolding internal_set_key_at_def by (rule logged_modify [OF refl]) auto

lemma logged_internal_insert [logged_rules]: "in_file t p \<Longrightarrow> logged t (internal_insert p k q t)"
  unfolding internal_insert_def Let_def by (auto split: prod.splits intro: logged_modify [OF refl])

lemma page_count_ops [simp]:
  "page_count (set_parent_page_num p par t) = page_count t" "page_count (leaf_init_empty p t) = page_count t"
  "page_count (leaf_set_next_page p nxt t) = page_count t" "page_count (leaf_insert p i k v t) = page_count t"
  "page_count (node_remove p i n t) = page_count t" "page_count (leaf_append p its t) = page_count t"
  "page_count (internal_init_empty p t) = page_count t" "page_count (internal_create_new_root p q k r t) = page_count t"
  "page_count (internal_set_key_at p i k t) = page_count t" "page_count (internal_insert p k q t) = page_count t"
  "page_count (update_root_page_num_locked r t) = page_count t" "page_count (dispose_page p t) = page_count t"
  by (simp_all add: set_parent_page_num_def leaf_init_empty_def leaf_set_next_page_def leaf_insert_def node_remove_def
      leaf_append_def internal_init_empty_def internal_create_new_root_def internal_set_key_at_def internal_insert_def
      update_root_page_num_locked_def dispose_page_def Let_def node_simps split: prod.splits)

lemma get_page_in_file: "get_page p t = SUCCESS \<longleftrightarrow> in_file t p"
  by (simp add: get_page_def)

lemma logged_update_root [logged_rules]: "logged t (update_root_page_num_locked r t)"
  unfolding logged_def
proof (intro impI conjI)
  let ?t = "update_root_page_num_locked r t" and ?e = "UpdateRootPage FIRST_INDEX_PAGE r (root_page (file_header t))"
  show "page_count t \<le> page_count ?t" by simp
  assume t: "loggable t"
  show "loggable ?t" using t by (auto simp: loggable_def update_root_page_num_locked_def node_simps)
  show "key_comparator ?t = key_comparator t"
    by (simp add: update_root_page_num_locked_def node_simps)
  have "same_store ?t (replay fsub [?e] t)" for fsub
    by (simp add: same_store_def)
  moreover have "entries ?t = entries t @ [?e]"
    using t by (simp add: update_root_page_num_locked_def append_log_entry_def loggable_def)
  moreover have "in_file ?t FIRST_INDEX_PAGE" using t by (simp add: loggable_def FIRST_INDEX_PAGE_def)
  ultimately show "\<exists>es. entries ?t = entries t @ es \<and> (\<forall>fsub. same_store ?t (replay fsub es t))
          \<and> (\<forall>e\<in>set es. in_file ?t (entry_page e) \<and> (case e of InitHeaderPage _ _ \<Rightarrow> False
               | UpdateRootPage p _ _ \<Rightarrow> p = FIRST_INDEX_PAGE | _ \<Rightarrow> True))"
    by (intro exI [of _ "[?e]"]) auto
qed

lemma logged_dispose [logged_rules]: "logged t (dispose_page p t)"
  by (auto simp: logged_def loggable_def dispose_page_def same_store_def)

lemma logged_allocate:
  assumes "allocate_page t = (r, t')"
  shows "logged t t'" "r = Inr p \<Longrightarrow> in_file t' p"
proof -
  have mem: "i < page_count t" if "filter (\<lambda>i. \<not> allocated t (int i)) [0..<page_count t] = i # is" for i "is"
  proof -
    have "i \<in> set (filter (\<lambda>i. \<not> allocated t (int i)) [0..<page_count t])" unfolding that by simp
    then show ?thesis by simp
  qed
  show "logged t t'"
    using assms by (auto simp: allocate_page_def logged_def loggable_def same_store_def Let_def fun_upd_idem
        split: list.splits if_splits)
  show "r = Inr p \<Longrightarrow> in_file t' p"
    using assms by (auto simp: allocate_page_def Let_def split: list.splits if_splits dest: mem)
qed

lemma logged_adopt [logged_rules]: "logged t (snd (adopt_children p its t))"
proof (induction its arbitrary: t)
  case (Cons it its)
  show ?case
  proof (cases "get_page (page_of (snd it)) t = SUCCESS")
    case True
    then have "logged t (set_parent_page_num (page_of (snd it)) p t)"
      by (simp add: get_page_in_file logged_set_parent)
    with True Cons.IH show ?thesis by (auto simp: Let_def intro: logged_trans)
  qed (simp add: Let_def)
qed simp

lemma logged_insert_items: "in_file t p \<Longrightarrow> logged t (snd (internal_insert_items p i its t))"
  unfolding internal_insert_items_def
  by (rule logged_trans [OF logged_modify [OF refl] logged_adopt]) auto

lemma logged_internal_append [logged_rules]: "in_file t p \<Longrightarrow> logged t (snd (internal_append p its t))"
  by (simp add: internal_append_def logged_insert_items)

lemma logged_internal_preappend [logged_rules]: "in_file t p \<Longrightarrow> logged t (snd (internal_preappend p it t))"
  by (simp add: internal_preappend_def logged_insert_items)

lemma page_count_internal_ops [simp]:
  "page_count (snd (internal_append p its t)) = page_count t"
  "page_count (snd (internal_preappend p it t)) = page_count t"
  by (simp_all add: internal_append_def internal_preappend_def internal_insert_items_def adopt_children_frame node_simps
      del: adopt_children.simps)

lemma logged_leaf_moves [logged_rules]:
  assumes "in_file t p" "in_file t q"
  shows "logged t (leaf_move_half_to p q t)" "logged t (leaf_move_first_to_end p q t)"
    "logged t (leaf_move_last_to_front p q t)" "logged t (leaf_move_to p q t)"
  using assms
  by (auto simp: leaf_move_half_to_def leaf_move_first_to_end_def leaf_move_last_to_front_def leaf_move_to_def
      leaf_remove_def leaf_preappend_def Let_def intro!: logged_trans [OF logged_leaf_append logged_node_remove]
      logged_trans [OF logged_leaf_insert logged_node_remove]
      logged_trans [OF logged_trans [OF logged_leaf_append logged_leaf_set_next] logged_node_remove])

lemma logged_internal_moves [logged_rules]:
  assumes "in_file t p" "in_file t q"
  shows "logged t (snd (internal_move_half_to p q t))" "logged t (snd (internal_move_first_to_end p q t))"
    "logged t (snd (internal_move_last_to_front p q t))" "logged t (snd (internal_move_to p q t))"
proof -
  have app: "logged t (snd (internal_append q its t))" "logged t (snd (internal_preappend q it t))" for its it
    using assms logged_internal_append logged_internal_preappend by auto
  have rem: "logged t (node_remove p i n (snd (internal_append q its t)))"
    "logged t (node_remove p i n (snd (internal_preappend q it t)))" for i n its it
    by (rule logged_trans [OF app(1) logged_node_remove]; use assms in simp)
      (rule logged_trans [OF app(2) logged_node_remove]; use assms in simp)
  show "logged t (snd (internal_move_half_to p q t))" "logged t (snd (internal_move_first_to_end p q t))"
    "logged t (snd (internal_move_last_to_front p q t))" "logged t (snd (internal_move_to p q t))"
    using app rem
    by (simp_all add: internal_move_half_to_def internal_move_first_to_end_def internal_move_last_to_front_def
        internal_move_to_def internal_remove_def Let_def split_def)
qed

section \<open>Tree operations\<close>

lemma logged_split_leaf:
  assumes "split_leaf p t = (r, t')" "in_file t p"
  shows "logged t t'" "r = Inr q \<Longrightarrow> in_file t' q"
proof -
  obtain r1 t1 where al: "allocate_page t = (r1, t1)" by force
  note a = logged_allocate [OF al]
  have "logged t t' \<and> (r = Inr q \<longrightarrow> in_file t' q)"
  proof (cases r1)
    case (Inr n)
    let ?t2 = "leaf_init_empty n t1"
    let ?t3 = "set_parent_page_num n (parent (pages ?t2 p)) ?t2"
    have f: "in_file t1 n" "in_file t1 p" using a(2) [OF Inr] logged_in_file [OF a(1) assms(2)] by auto
    have "logged t1 ?t2" using f by (simp add: logged_leaf_init)
    moreover have "logged ?t2 ?t3" using f by (simp add: logged_set_parent)
    moreover have l3: "logged ?t3 (leaf_move_half_to p n ?t3)" using f by (simp add: logged_leaf_moves)
    ultimately have "logged t (leaf_move_half_to p n ?t3)" using a(1) logged_trans by blast
    then show ?thesis
      using assms(1) al Inr logged_in_file [OF l3, of n] f by (auto simp: split_leaf_def Let_def)
  qed (use assms(1) al a(1) in \<open>auto simp: split_leaf_def\<close>)
  then show "logged t t'" "r = Inr q \<Longrightarrow> in_file t' q" by auto
qed

lemma logged_split_internal:
  assumes "split_internal p t = (r, t')" "in_file t p"
  shows "logged t t'" "r = Inr q \<Longrightarrow> in_file t' q"
proof -
  obtain r1 t1 where al: "allocate_page t = (r1, t1)" by force
  note a = logged_allocate [OF al]
  have "logged t t' \<and> (r = Inr q \<longrightarrow> in_file t' q)"
  proof (cases r1)
    case (Inr n)
    let ?t2 = "internal_init_empty n t1"
    let ?t3 = "set_parent_page_num n (parent (pages ?t2 p)) ?t2"
    have f: "in_file t1 n" "in_file t1 p" using a(2) [OF Inr] logged_in_file [OF a(1) assms(2)] by auto
    have "logged t1 ?t2" using f by (simp add: logged_internal_init)
    moreover have "logged ?t2 ?t3" using f by (simp add: logged_set_parent)
    moreover have l3: "logged ?t3 (snd (internal_move_half_to p n ?t3))" using f by (simp add: logged_internal_moves)
    ultimately have "logged t (snd (internal_move_half_to p n ?t3))" using a(1) logged_trans by blast
    then show ?thesis
      using assms(1) al Inr logged_in_file [OF l3, of n] f by (auto simp: split_internal_def Let_def)
  qed (use assms(1) al a(1) in \<open>auto simp: split_internal_def\<close>)
  then show "logged t t'" "r = Inr q \<Longrightarrow> in_file t' q" by auto
qed

lemma logged_new_root:
  assumes "allocate_page t = (Inr r, t1)" "in_file t p" "in_file t q"
  shows "logged t (update_root_page_num_locked r (set_parent_page_num q r (set_parent_page_num p r
    (internal_create_new_root r p key q (internal_init_empty r t1)))))"
proof -
  note a = logged_allocate [OF assms(1)]
  have f: "in_file t1 r" "in_file t1 p" "in_file t1 q"
    using a(2) [OF refl] logged_in_file [OF a(1)] assms(2,3) by auto
  have "logged t1 (internal_init_empty r t1)" using f by (simp add: logged_internal_init)
  from logged_trans [OF this logged_create_new_root]
  have "logged t1 (internal_create_new_root r p key q (internal_init_empty r t1))" using f by simp
  from logged_trans [OF this logged_set_parent, of p r]
  have "logged t1 (set_parent_page_num p r (internal_create_new_root r p key q (internal_init_empty r t1)))"
    using f by simp
  from logged_trans [OF logged_trans [OF this logged_set_parent, of q r] logged_update_root, of r]
  show ?thesis using f logged_trans [OF a(1)] by simp
qed

lemma logged_link:
  "in_file t p \<Longrightarrow> in_file t q \<Longrightarrow> logged t (set_parent_page_num q p (internal_insert p key q t))"
  by (rule logged_trans [OF logged_internal_insert logged_set_parent]) simp_all

lemma logged_insert_into_parent:
  "insert_entry_into_parent p q key t = Some y \<Longrightarrow> in_file t p \<longrightarrow> in_file t q \<longrightarrow> logged t (snd y)"
proof (induction rule: insert_entry_into_parent.raw_induct [rotated 1, consumes 1, case_names step])
  case (step iep p q key t y)
  show ?case
  proof (intro impI)
    assume p: "in_file t p" and q: "in_file t q"
    let ?par = "parent (pages t p)"
    show "logged t (snd y)"
    proof (cases "?par = BP_INVALID_PAGE_NUM")
      case True
      obtain r t1 where al: "allocate_page t = (r, t1)" by force
      show ?thesis
        using step(2) True al logged_allocate(1) [OF al] logged_new_root [of t _ t1 p q key] p q
        by (cases r) (auto simp: Let_def)
    next
      case False
      show ?thesis
      proof (cases "get_page ?par t = SUCCESS")
        case True
        then have par: "in_file t ?par" by (simp add: get_page_in_file)
        show ?thesis
        proof (cases "node_size (pages t ?par) < max_size (file_header t) (pages t ?par)")
          case True
          with step(2) False \<open>get_page ?par t = SUCCESS\<close> logged_link [OF par q] show ?thesis
            by (auto simp: Let_def)
        next
          case full: False
          obtain r t1 where sp: "split_internal ?par t = (r, t1)" by force
          note s = logged_split_internal [OF sp par]
          show ?thesis
          proof (cases r)
            case (Inl rc)
            with step(2) False True full sp s(1) show ?thesis by (auto simp: Let_def)
          next
            case (Inr np)
            have f: "in_file t1 np" "in_file t1 ?par" "in_file t1 q"
              using s(2) [OF Inr] logged_in_file [OF s(1)] par q by auto
            let ?t2 = "if key_comparator t1 key (key_at np 0 t1) > 0
                       then set_parent_page_num q np (internal_insert np key q t1)
                       else set_parent_page_num q ?par (internal_insert ?par key q t1)"
            have l2: "logged t1 ?t2" using logged_link f by auto
            have "iep ?par np (key_at np 0 ?t2) ?t2 = Some y"
              using step(2) False True full sp Inr by (simp add: Let_def)
            from step(1) [OF this] have "logged ?t2 (snd y)" using logged_in_file [OF l2] f by blast
            with l2 s(1) show ?thesis using logged_trans by blast
          qed
        qed
      qed (use step(2) False in \<open>auto simp: Let_def\<close>)
    qed
  qed
qed

lemma find_leaf_loop_in_file:
  "find_leaf_loop g t p = Some r \<Longrightarrow> in_file t p \<longrightarrow> (\<forall>q. r = Inr q \<longrightarrow> in_file t q)"
proof (induction rule: find_leaf_loop.raw_induct [rotated 1, consumes 1, case_names step])
  case (step fl g t p r)
  let ?q = "g (pages t p)"
  consider "is_leaf (pages t p)" | "\<not> is_leaf (pages t p)" "get_page ?q t \<noteq> SUCCESS"
    | "\<not> is_leaf (pages t p)" "get_page ?q t = SUCCESS" by blast
  then show ?case
  proof cases
    case 3
    then have "fl g t ?q = Some r" using step(2) by simp
    from step(1) [OF this] 3(2) show ?thesis unfolding get_page_in_file by blast
  qed (use step(2) in auto)
qed

lemma find_leaf_in_file: "find_leaf key t = Some (Inr p) \<Longrightarrow> in_file t p"
  unfolding find_leaf_def find_leaf_internal_def
  using find_leaf_loop_in_file [of _ t "root_page (file_header t)" "Inr p"]
  by (auto simp: Let_def get_page_in_file split: if_splits)

lemma logged_insert_into_leaf:
  assumes "insert_entry_into_leaf_node p key rid t = Some y" "in_file t p"
  shows "logged t (snd y)"
proof -
  obtain pos ex where lk: "leaf_lookup (key_comparator t) key (pages t p) = (pos, ex)" by force
  show ?thesis
  proof (cases "ex \<or> node_size (pages t p) < max_size (file_header t) (pages t p)")
    case True
    then show ?thesis
      using assms lk logged_leaf_insert [where t = t and p = p] by (auto simp: insert_entry_into_leaf_node_def split: if_splits)
  next
    case False
    obtain r t1 where sp: "split_leaf p t = (r, t1)" by force
    note s = logged_split_leaf [OF sp assms(2)]
    show ?thesis
    proof (cases r)
      case (Inl rc)
      with assms(1) lk False sp s(1) show ?thesis by (auto simp: insert_entry_into_leaf_node_def)
    next
      case (Inr q)
      have f: "in_file t1 q" "in_file t1 p" using s(2) [OF Inr] logged_in_file [OF s(1) assms(2)] by auto
      let ?t2 = "leaf_set_next_page q (next_brother (pages t1 p)) t1"
      let ?t3 = "set_parent_page_num q (parent (pages ?t2 p)) ?t2"
      let ?t4 = "leaf_set_next_page p q ?t3"
      let ?n = "length (items (pages ?t4 p))"
      let ?t5 = "if pos < ?n then leaf_insert p pos key (RidV rid) ?t4 else leaf_insert q (pos - ?n) key (RidV rid) ?t4"
      have "logged t1 ?t2" "logged ?t2 ?t3" "logged ?t3 ?t4"
        using f by (simp_all add: logged_leaf_set_next logged_set_parent)
      moreover have "logged ?t4 ?t5" using f by (simp add: logged_leaf_insert)
      ultimately have l5: "logged t ?t5" using s(1) logged_trans by blast
      have "insert_entry_into_parent p q (key_at q 0 ?t5) ?t5 = Some y"
        using assms(1) lk False sp Inr by (simp add: insert_entry_into_leaf_node_def Let_def)
      from logged_insert_into_parent [OF this] have "logged ?t5 (snd y)" using f by simp
      with l5 show ?thesis using logged_trans by blast
    qed
  qed
qed

lemma logged_create_new_tree: "logged t (snd (create_new_tree key rid t))"
proof -
  obtain r t1 where al: "allocate_page t = (r, t1)" by force
  note a = logged_allocate [OF al]
  show ?thesis
  proof (cases r)
    case (Inr p)
    have f: "in_file t1 p" using a(2) [OF Inr] .
    have "logged t1 (leaf_init_empty p t1)" using f by (simp add: logged_leaf_init)
    from logged_trans [OF this logged_leaf_insert, of p 0 key "RidV rid"]
    have "logged t1 (update_root_page_num_locked p (leaf_insert p 0 key (RidV rid) (leaf_init_empty p t1)))"
      using f logged_trans [OF _ logged_update_root] by simp
    with a(1) Inr al show ?thesis using logged_trans by (auto simp: create_new_tree_def)
  qed (use a(1) al in \<open>auto simp: create_new_tree_def\<close>)
qed

lemma logged_insert_entry: "insert_entry ukey rid t = Some y \<Longrightarrow> logged t (snd y)"
  using logged_create_new_tree [of t "make_key t ukey rid" rid]
    logged_insert_into_leaf [of _ "make_key t ukey rid" rid t y] find_leaf_in_file [of "make_key t ukey rid" t]
  by (auto simp: insert_entry_def Let_def split: if_splits option.splits sum.splits)

lemma logged_adjust_root: "logged t (snd (adjust_root p t))"
proof -
  have "logged t (dispose_page p (update_root_page_num_locked r t))" for r
    by (rule logged_trans [OF logged_update_root logged_dispose])
  moreover have "logged t (dispose_page p (update_root_page_num_locked c (set_parent_page_num c i t)))"
    if "get_page c t = SUCCESS" for c i
    by (rule logged_trans [OF logged_trans [OF logged_set_parent logged_update_root] logged_dispose])
      (use that in \<open>simp add: get_page_in_file\<close>)
  ultimately show ?thesis by (auto simp: adjust_root_def Let_def)
qed

lemma logged_redistribute:
  assumes "in_file t n" "in_file t p" "in_file t par"
  shows "logged t (redistribute leaf n p par i t)"
proof -
  have set_key: "logged t (internal_set_key_at par j k u)" if "logged t u" for j k u
    using logged_trans [OF that logged_set_key] logged_in_file [OF that assms(3)] by simp
  show ?thesis
    using logged_leaf_moves [OF assms(1,2)] logged_internal_moves [OF assms(1,2)]
    by (auto simp: redistribute_def Let_def intro!: set_key)
qed

lemma logged_coalesce_step:
  assumes "in_file t n" "in_file t p" "in_file t par"
  shows "logged t (snd (coalesce_step leaf n p par i t))"
proof -
  define l where "l = (if i = 0 then p else n)"
  define r where "r = (if i = 0 then n else p)"
  define j where "j = (if i = 0 then i + 1 else i)"
  let ?t1 = "internal_remove par j t"
  let ?m = "if leaf then (SUCCESS, leaf_move_to r l ?t1) else internal_move_to r l ?t1"
  have f: "in_file t l" "in_file t r" using assms by (auto simp: l_def r_def)
  have l1: "logged t ?t1" using assms(3) by (simp add: internal_remove_def logged_node_remove)
  have "logged ?t1 (snd ?m)"
    using logged_leaf_moves(4) [where t = ?t1 and p = r and q = l] logged_internal_moves(4) [where t = ?t1 and p = r and q = l] logged_in_file [OF l1] f by auto
  with l1 have l2: "logged t (snd ?m)" using logged_trans by blast
  have "logged t (dispose_page r (leaf_set_next_page l x (snd ?m)))" for x
    by (rule logged_trans [OF logged_trans [OF l2 logged_leaf_set_next] logged_dispose])
      (rule logged_in_file [OF l2 f(1)])
  moreover have "logged t (dispose_page r (snd ?m))" by (rule logged_trans [OF l2 logged_dispose])
  moreover have "coalesce_step leaf n p par i t =
      (if fst ?m \<noteq> SUCCESS then ?m
       else (SUCCESS, dispose_page r (if is_leaf (pages (snd ?m) l)
              then leaf_set_next_page l (next_brother (pages (snd ?m) r)) (snd ?m) else snd ?m)))"
    by (cases "i = 0") (auto simp: coalesce_step_def l_def r_def j_def Let_def split: prod.splits)
  ultimately show ?thesis using l2 by simp
qed

lemma logged_coalesce_or_redistribute:
  "coalesce_or_redistribute leaf p t = Some y \<Longrightarrow> in_file t p \<longrightarrow> logged t (snd y)"
proof (induction rule: coalesce_or_redistribute.raw_induct [rotated 1, consumes 1, case_names step])
  case (step cr leaf p t y)
  show ?case
  proof (intro impI)
    assume p: "in_file t p"
    let ?n = "pages t p" and ?par = "parent (pages t p)"
    obtain i found pos where lk: "internal_lookup (key_comparator t) (key_at p (length (items ?n) - 1) t) (pages t ?par)
        = (i, found, pos)" by (metis prod_cases3)
    define nb where "nb = internal_value_at (if i = 0 then 1 else i - 1) (pages t ?par)"
    obtain rc t1 where cs: "coalesce_step leaf nb p ?par i t = (rc, t1)" by force
    show "logged t (snd y)"
    proof (cases "?par \<noteq> BP_INVALID_PAGE_NUM \<and> get_page ?par t = SUCCESS \<and> get_page nb t = SUCCESS
        \<and> node_size ?n < min_size (file_header t) ?n \<and> items ?n \<noteq> [] \<and> internal_value_at i (pages t ?par) = p")
      case True
      then have f: "in_file t ?par" "in_file t nb" by (simp_all add: get_page_in_file)
      note rd = logged_redistribute [OF f(2) p f(1), of leaf i]
      have st: "logged t t1" using logged_coalesce_step [OF f(2) p f(1), of leaf i] cs by simp
      have "cr False ?par t1 = Some y \<Longrightarrow> logged t1 (snd y)"
        using step(1) [of False ?par t1 y] logged_in_file [OF st f(1)] by blast
      with st have rec: "cr False ?par t1 = Some y \<Longrightarrow> logged t (snd y)" using logged_trans by blast
      have "(if node_size ?n + node_size (pages t nb) > max_size (file_header t) ?n
             then Some (SUCCESS, redistribute leaf nb p ?par i t)
             else if rc \<noteq> SUCCESS then Some (rc, t1) else cr False ?par t1) = Some y"
        using step(2) True cs unfolding Let_def lk prod.case nb_def [symmetric]
        by (auto split: if_splits)
      with rec rd st show ?thesis by (auto split: if_splits)
    next
      case False
      from step(2) False have "y = (SUCCESS, t) \<or> y = (SUCCESS, snd (adjust_root p t)) \<or> (\<exists>rc. y = (rc, t))"
        unfolding Let_def lk prod.case nb_def [symmetric] by (auto split: if_splits)
      with logged_adjust_root [of t p] show ?thesis by auto
    qed
  qed
qed

lemma logged_delete_entry:
  assumes "delete_entry ukey rid t = Some y"
  shows "logged t (snd y)"
proof -
  let ?key = "make_key t ukey rid"
  have del: "logged t (snd y)" if d: "delete_entry_internal p ?key t = Some y" "in_file t p" for p
  proof -
    obtain n t1 where rm: "leaf_remove_key p ?key t = (n, t1)" by force
    have l1: "logged t t1"
      using rm that(2) logged_node_remove [where t = t and p = p]
      by (auto simp: leaf_remove_key_def leaf_remove_def Let_def split: prod.splits if_splits)
    have "coalesce_or_redistribute True p t1 = Some y \<Longrightarrow> logged t1 (snd y)"
      using logged_coalesce_or_redistribute [of True p t1 y] logged_in_file [OF l1 that(2)] by blast
    with d(1) rm l1 show ?thesis
      by (auto simp: delete_entry_internal_def split: if_splits intro: logged_trans)
  qed
  show ?thesis
    using assms del find_leaf_in_file [of ?key t]
    by (auto simp: delete_entry_def Let_def split: option.splits sum.splits)
qed

section \<open>Recovery after a crash\<close>

lemma header_lengths:
  "case e of InitHeaderPage _ _ \<Rightarrow> False | _ \<Rightarrow> True \<Longrightarrow>
    attr_length (header_effect e h) = attr_length h \<and> key_length (header_effect e h) = key_length h"
  by (cases e) simp_all

lemma page_effect_header: "attr_length h = attr_length h' \<Longrightarrow> page_effect h e n = page_effect h' e n"
  by (cases e) (simp_all add: create_new_root_items_def zero_key_def)

text \<open>The keys and items of an entry have the format of the node it is applied to.\<close>

fun entry_fits :: "btree \<Rightarrow> LogEntryHandler \<Rightarrow> bool" where
  "entry_fits t (InternalCreateNewRoot p q k r) \<longleftrightarrow> key_fits (file_header t) k"
| "entry_fits t (InternalUpdateKey p i k old) \<longleftrightarrow> key_fits (file_header t) k"
| "entry_fits t (NodeInsert p i its n) \<longleftrightarrow> n = length its \<and>
     (\<forall>it\<in>set its. item_fits (file_header t) (is_leaf (pages t p)) it)"
| "entry_fits t _ \<longleftrightarrow> True"

fun fits_along :: "(byte list \<Rightarrow> byte list \<Rightarrow> rat option) \<Rightarrow> LogEntryHandler list \<Rightarrow> btree \<Rightarrow> bool" where
  "fits_along fsub [] t \<longleftrightarrow> True"
| "fits_along fsub (e # es) t \<longleftrightarrow> entry_fits t e \<and> fits_along fsub es (redo_entry fsub e t)"

text \<open>The log as a list of entries, run with the sequence number check.\<close>

fun redo_list :: "(byte list \<Rightarrow> byte list \<Rightarrow> rat option) \<Rightarrow> LSN \<Rightarrow> LogEntryHandler list \<Rightarrow> btree \<Rightarrow> PageNum list \<Rightarrow>
    btree \<times> PageNum list" where
  "redo_list fsub lsn [] t frames = (t, frames)"
| "redo_list fsub lsn (e # es) t frames =
     (if page_lsn t (entry_page e) \<ge> lsn then redo_list fsub lsn es t frames
      else redo_list fsub lsn es (redo_entry fsub e t) (frames @ [entry_page e]))"

lemma redo_record:
  assumes "entry_fits t e" "\<not> need_log t" "key_length (file_header t) = attr_length (file_header t) + 8"
  shows "redo_entry fsub (entry_of_record t (record_of e)) t = redo_entry fsub e t"
  using assms items_of_items_bytes [of _ "file_header t"]
  by (cases e) (simp_all add: node_op_defs append_log_entry_def)

text \<open>
  A crash image of the tree \<open>t\<close> on the way to \<open>u\<close>: every page is old, with an old sequence number, or new.
  The same goes for the header, which lives in the first index page.
\<close>

definition crash_image :: "LSN \<Rightarrow> btree \<Rightarrow> btree \<Rightarrow> btree \<Rightarrow> bool" where
  "crash_image lsn t u c \<longleftrightarrow>
     (\<forall>p. pages c p = (if page_lsn c p < lsn then pages t p else pages u p))
   \<and> file_header c = (if page_lsn c FIRST_INDEX_PAGE < lsn then file_header t else file_header u)"

lemma fold_frame:
  "page_lsn (replay fsub es t) = page_lsn t" "page_count (replay fsub es t) = page_count t"
  by (induction es arbitrary: t) simp_all

text \<open>The old pages of the image move with the tree, the others stay.\<close>

definition in_step :: "LSN \<Rightarrow> btree \<Rightarrow> btree \<Rightarrow> bool" where
  "in_step lsn t c \<longleftrightarrow> (\<forall>p. page_lsn c p < lsn \<longrightarrow> pages c p = pages t p)
     \<and> (page_lsn c FIRST_INDEX_PAGE < lsn \<longrightarrow> file_header c = file_header t)
     \<and> attr_length (file_header c) = attr_length (file_header t) \<and> key_length (file_header c) = key_length (file_header t)"

abbreviation node_entry :: "LogEntryHandler \<Rightarrow> bool" where
  "node_entry e \<equiv> (case e of InitHeaderPage _ _ \<Rightarrow> False | UpdateRootPage p _ _ \<Rightarrow> p = FIRST_INDEX_PAGE | _ \<Rightarrow> True)"

lemma replay_lengths:
  "\<forall>e\<in>set es. node_entry e \<Longrightarrow> attr_length (file_header (replay fsub es t)) = attr_length (file_header t)
      \<and> key_length (file_header (replay fsub es t)) = key_length (file_header t)"
proof (induction es arbitrary: t)
  case (Cons e es)
  then show ?case using header_lengths [of e "file_header t"] Cons.IH [of "redo_entry fsub e t"]
    by (auto simp: redo_entry_header split: LogEntryHandler.splits)
qed simp

lemma in_step_redo:
  assumes "in_step lsn t c" "node_entry e" "page_lsn c (entry_page e) < lsn"
  shows "in_step lsn (redo_entry fsub e t) (redo_entry fsub e c)"
proof -
  have "page_effect (file_header c) e n = page_effect (file_header t) e n" for n
    by (rule page_effect_header) (use assms(1) in \<open>simp add: in_step_def\<close>)
  moreover have "attr_length (header_effect e h) = attr_length h" "key_length (header_effect e h) = key_length h" for h
    using header_lengths [of e h] assms(2) by (auto split: LogEntryHandler.splits)
  ultimately show ?thesis
    using assms(1,3) by (auto simp: in_step_def redo_entry_pages redo_entry_header)
qed

lemma in_step_skip:
  assumes "in_step lsn t c" "node_entry e" "\<not> page_lsn c (entry_page e) < lsn"
  shows "in_step lsn (redo_entry fsub e t) c"
proof -
  have "attr_length (header_effect e h) = attr_length h" "key_length (header_effect e h) = key_length h" for h
    using header_lengths [of e h] assms(2) by (auto split: LogEntryHandler.splits)
  moreover have "page_lsn c FIRST_INDEX_PAGE < lsn \<Longrightarrow> header_effect e h = h" for h
    using assms(2,3) by (cases e) auto
  ultimately show ?thesis
    using assms(1,3) by (auto simp: in_step_def redo_entry_pages redo_entry_header)
qed

lemma redo_list_stays:
  assumes "\<forall>e\<in>set es. node_entry e"
  shows "page_lsn (fst (redo_list fsub lsn es c fs)) = page_lsn c"
    "lsn \<le> page_lsn c p \<Longrightarrow> pages (fst (redo_list fsub lsn es c fs)) p = pages c p"
    "lsn \<le> page_lsn c FIRST_INDEX_PAGE \<Longrightarrow> file_header (fst (redo_list fsub lsn es c fs)) = file_header c"
  using assms
proof (induction es arbitrary: c fs)
  case (Cons e es)
  { case 1 with Cons.IH(1) show ?case by simp }
  { case 2 with Cons.IH(2) show ?case by (auto simp: redo_entry_pages) }
  { case 3
    then have "page_lsn c (entry_page e) < lsn \<Longrightarrow> header_effect e (file_header c) = file_header c" by (cases e) auto
    with 3 Cons.IH(3) show ?case by (auto simp: redo_entry_header) }
qed simp_all

lemma redo_list_in_step:
  assumes "in_step lsn t c" "\<forall>e\<in>set es. node_entry e"
  shows "in_step lsn (replay fsub es t) (fst (redo_list fsub lsn es c fs))"
  using assms
proof (induction es arbitrary: t c fs)
  case (Cons e es)
  then show ?case
    using in_step_redo [OF Cons.prems(1), of e fsub] in_step_skip [OF Cons.prems(1), of e fsub]
    by (cases "page_lsn c (entry_page e) < lsn") auto
qed simp

lemma redo_crash_image:
  assumes "crash_image lsn t u c" "same_store u (replay fsub es t)" "\<forall>e\<in>set es. node_entry e"
  shows "same_store (fst (redo_list fsub lsn es c fs)) u"
proof -
  note len = replay_lengths [OF assms(3), of fsub t]
  have step: "in_step lsn t c"
    using assms(1,2) len by (auto simp: crash_image_def in_step_def same_store_def)
  note fin = redo_list_in_step [OF step assms(3), of fsub fs] and stay = redo_list_stays [OF assms(3)]
  let ?f = "fst (redo_list fsub lsn es c fs)"
  have "pages ?f p = pages u p" for p
    using fin stay(1) [of fsub lsn c fs] assms(1,2) stay(2) [where lsn = lsn and c = c and fsub = fsub and fs = fs and p = p]
    by (cases "page_lsn c p < lsn") (auto simp: in_step_def crash_image_def same_store_def)
  moreover have "file_header ?f = file_header u"
    using fin stay(1) [of fsub lsn c fs] assms(1,2) stay(3) [where lsn = lsn and c = c and fsub = fsub and fs = fs]
    by (cases "page_lsn c FIRST_INDEX_PAGE < lsn") (auto simp: in_step_def crash_image_def same_store_def)
  ultimately show ?thesis by (auto simp: same_store_def)
qed

subsection \<open>Reading the log\<close>

lemma reads_remain: "reads d bs d' \<Longrightarrow> remain d = remain d' + int (length bs)"
  by (simp add: reads_def remain_def)

lemma serialize_nonempty: "8 \<le> length (serialize e [])"
  unfolding serialize_parts by simp

lemma entry_fits_step:
  assumes "in_step lsn t c" "page_lsn c (entry_page e) < lsn"
  shows "entry_fits c e \<longleftrightarrow> entry_fits t e"
  using assms by (cases e) (auto simp: in_step_def key_fits_def item_fits_def)

lemma redo_loop_entries:
  assumes "\<not> need_log c" "in_step lsn t c" "fits_along fsub es t"
    and "key_length (file_header c) = attr_length (file_header c) + 8"
    and "\<forall>e\<in>set es. node_entry e \<and> entry_int32 e \<and> in_file c (entry_page e)"
    and "reads d (concat (map (\<lambda>e. serialize e []) es)) d'" "remain d' = 0"
  shows "redo_loop fsub lsn d c fs =
    Some (SUCCESS, fst (redo_list fsub lsn es c fs), snd (redo_list fsub lsn es c fs))"
  using assms
proof (induction es arbitrary: t c d fs)
  case Nil
  then show ?case using reads_Nil [of d d'] by (subst redo_loop.simps) simp
next
  case (Cons e es)
  obtain d1 where d1: "reads d (serialize e []) d1" "reads d1 (concat (map (\<lambda>e. serialize e []) es)) d'"
    using reads_append Cons.prems(6) by fastforce
  have rem: "remain d > 0"
    using reads_remain [OF Cons.prems(6)] serialize_nonempty [of e] Cons.prems(7) by simp
  have e: "node_entry e" "entry_int32 e" "get_page (entry_page e) c = SUCCESS"
    using Cons.prems(5) by (simp_all add: get_page_in_file)
  have fb: "from_buffer (\<lambda>p. get_page p c) d = Some (Inr ((entry_page e, record_of e), d1))"
    using from_buffer_reads [of e "\<lambda>p. get_page p c", OF e(2,3) d1(1)] .
  have fit: "entry_fits t e" "fits_along fsub es (redo_entry fsub e t)" using Cons.prems(3) by simp_all
  show ?case
  proof (cases "page_lsn c (entry_page e) < lsn")
    case True
    let ?c = "redo_entry fsub e c"
    have st: "in_step lsn (redo_entry fsub e t) ?c" by (rule in_step_redo [OF Cons.prems(2) e(1) True])
    have rr: "redo_entry fsub (entry_of_record c (record_of e)) c = ?c"
      using redo_record [of c e fsub] entry_fits_step [OF Cons.prems(2) True] fit(1) Cons.prems(1,4) by simp
    have kl: "key_length (file_header ?c) = attr_length (file_header ?c) + 8"
      using header_lengths [of e "file_header c"] Cons.prems(4) e(1)
      by (auto simp: redo_entry_header split: LogEntryHandler.splits)
    have "redo_loop fsub lsn d1 ?c (fs @ [entry_page e]) =
        Some (SUCCESS, fst (redo_list fsub lsn es ?c (fs @ [entry_page e])), snd (redo_list fsub lsn es ?c (fs @ [entry_page e])))"
      by (rule Cons.IH [OF _ st fit(2) kl _ d1(2) Cons.prems(7)]) (use Cons.prems(1,5) in simp_all)
    then show ?thesis using rem fb rr True by (subst redo_loop.simps) simp
  next
    case False
    have "redo_loop fsub lsn d1 c fs = Some (SUCCESS, fst (redo_list fsub lsn es c fs), snd (redo_list fsub lsn es c fs))"
      by (rule Cons.IH [OF _ in_step_skip [OF Cons.prems(2) e(1) False] fit(2) Cons.prems(4) _ d1(2) Cons.prems(7)])
        (use Cons.prems(1,5) in simp_all)
    then show ?thesis using rem fb False by (subst redo_loop.simps) simp
  qed
qed

lemma redo_list_frames:
  "set (snd (redo_list fsub lsn es c fs)) = set fs \<union> {p \<in> entry_page ` set es. page_lsn c p < lsn}"
  by (induction es arbitrary: c fs) auto

lemma commit_buffer_parts:
  "commit_buffer pool_id es = int_to_bytes 4 pool_id @ concat (map (\<lambda>e. serialize e []) es)"
proof -
  have "fold serialize es buf = buf @ concat (map (\<lambda>e. serialize e []) es)" for buf
  proof (induction es arbitrary: buf)
    case (Cons e es)
    then show ?case using serialize_append [of e buf] by simp
  qed simp
  then show ?thesis by (simp add: commit_buffer_def write_defs)
qed

lemma replay_untouched:
  "p \<notin> entry_page ` set es \<Longrightarrow> pages (replay fsub es t) p = pages t p"
  "\<forall>e\<in>set es. node_entry e \<Longrightarrow> FIRST_INDEX_PAGE \<notin> entry_page ` set es \<Longrightarrow>
    file_header (replay fsub es t) = file_header t"
proof (induction es arbitrary: t)
  case (Cons e es)
  { case 1 with Cons.IH(1) show ?case by (simp add: redo_entry_pages) }
  { case 2
    then have "header_effect e (file_header t) = file_header t" by (cases e) auto
    with 2 Cons.IH(2) show ?case by (simp add: redo_entry_header) }
qed simp_all

lemma recovers:
  assumes "logged t t'" "loggable t" "entries t = []"
    and "\<forall>e\<in>set (entries t'). entry_int32 e" "fits_along fsub (entries t') t"
    and "key_length (file_header t) = attr_length (file_header t) + 8"
    and "crash_image lsn t t' c" "page_count c = page_count t'"
    and "int32 pool_id"
  shows "\<exists>d c'. read_int32 (new_deserializer (commit_buffer pool_id (entries t'))) = Some (pool_id, d)
    \<and> redo_log fsub lsn d c = Some (SUCCESS, c') \<and> pages c' = pages t' \<and> file_header c' = file_header t'
    \<and> crash_image lsn t t' c' \<and> (\<forall>e\<in>set (entries t'). lsn \<le> page_lsn c' (entry_page e))"
proof -
  let ?es = "entries t'" and ?buf = "commit_buffer pool_id (entries t')"
  have es: "\<forall>fsub. same_store t' (replay fsub ?es t)" "\<forall>e\<in>set ?es. in_file t' (entry_page e) \<and> node_entry e"
    using assms(1-3) by (auto simp: logged_def)
  have ne: "\<forall>e\<in>set ?es. node_entry e" using es(2) by blast
  let ?stop = "\<lparr>des_buffer = ?buf, position = length ?buf\<rparr>"
  have "reads (new_deserializer ?buf) ?buf ?stop" by (simp add: reads_def new_deserializer_def)
  then obtain d where d: "read_int32 (new_deserializer ?buf) = Some (pool_id, d)"
    "reads d (concat (map (\<lambda>e. serialize e []) ?es)) ?stop"
    using read_int32_prefix [OF assms(9)] unfolding commit_buffer_parts by blast
  let ?c = "c\<lparr>need_log := False\<rparr>"
  have img: "crash_image lsn t t' ?c" using assms(7) by (simp add: crash_image_def)
  define f where "f = fst (redo_list fsub lsn ?es ?c [])"
  define fr where "fr = snd (redo_list fsub lsn ?es ?c [])"
  have same: "same_store f t'" using redo_crash_image [OF img] es(1) ne by (simp add: f_def)
  have len: "attr_length (file_header t') = attr_length (file_header t) \<and> key_length (file_header t') = key_length (file_header t)"
    using replay_lengths [OF ne, of fsub t] es(1) unfolding same_store_def by metis
  have st: "in_step lsn t ?c" using img len by (auto simp: crash_image_def in_step_def)
  have "redo_loop fsub lsn d ?c [] = Some (SUCCESS, f, fr)"
    unfolding f_def fr_def
    by (rule redo_loop_entries [OF _ st assms(5) _ _ d(2)])
      (use assms(4,6,8) es(2) len img in \<open>auto simp: remain_def crash_image_def\<close>)
  moreover have lsn: "page_lsn f = page_lsn c" using redo_list_stays(1) [OF ne, of fsub lsn ?c "[]"] by (simp add: f_def)
  moreover have fr: "set fr = {p \<in> entry_page ` set ?es. page_lsn c p < lsn}"
    using redo_list_frames [of fsub lsn ?es ?c "[]"] by (simp add: fr_def)
  moreover have "pages t' p = pages t p" if "p \<notin> entry_page ` set ?es" for p
    using replay_untouched(1) [OF that, of fsub t] es(1) by (simp add: same_store_def)
  moreover have "file_header t' = file_header t" if "FIRST_INDEX_PAGE \<notin> entry_page ` set ?es"
    using replay_untouched(2) [OF ne that, of fsub t] es(1) by (simp add: same_store_def)
  ultimately show ?thesis
    using same assms(7) d(1)
    by (intro exI [of _ d] exI [of _ "f\<lparr>page_lsn := (\<lambda>p. if p \<in> set fr then lsn else page_lsn f p), need_log := True\<rparr>"])
      (auto simp: redo_log_def same_store_def crash_image_def)
qed

section \<open>Write-ahead logging of the index\<close>

text \<open>
  \<open>insert_entry\<close> logs everything it does, splits and a new root included: running its log entries on the
  tree before the call gives the pages and the header after it, whatever the call returned.
\<close>

lemma insert_entry_logged:
  assumes "loggable t" "entries t = []" "insert_entry ukey rid t = Some (rc, t')"
  shows "pages (replay fsub (entries t') t) = pages t' \<and> file_header (replay fsub (entries t') t) = file_header t'"
  using logged_insert_entry [OF assms(3)] assms(1,2) by (auto simp: logged_def same_store_def)

text \<open>
  \<open>delete_entry\<close> logs everything it does, merges, redistributions and a shrinking root included.
\<close>

lemma delete_entry_logged:
  assumes "loggable t" "entries t = []" "delete_entry ukey rid t = Some (rc, t')"
  shows "pages (replay fsub (entries t') t) = pages t' \<and> file_header (replay fsub (entries t') t) = file_header t'"
  using logged_delete_entry [OF assms(3)] assms(1,2) by (auto simp: logged_def same_store_def)

text \<open>
  C3: Crash recovery of an insertion. After a crash that left any mixture of old pages and pages already
  written, reading the committed record back and running it gives exactly the pages and the header after
  the insertion; every logged page then carries the record's sequence number, and the result is again an
  image recovery can start from, so an interrupted recovery may be repeated.
\<close>

theorem insert_entry_recovers:
  assumes "insert_entry ukey rid t = Some (SUCCESS, t')" "loggable t" "entries t = []"
    and "\<forall>e\<in>set (entries t'). entry_int32 e" "fits_along fsub (entries t') t"
    and "key_length (file_header t) = attr_length (file_header t) + 8"
    and "crash_image lsn t t' c" "page_count c = page_count t'" "int32 pool_id"
  shows "\<exists>d c'. read_int32 (new_deserializer (commit_buffer pool_id (entries t'))) = Some (pool_id, d)
    \<and> redo_log fsub lsn d c = Some (SUCCESS, c') \<and> pages c' = pages t' \<and> file_header c' = file_header t'
    \<and> crash_image lsn t t' c' \<and> (\<forall>e\<in>set (entries t'). lsn \<le> page_lsn c' (entry_page e))"
  using recovers [OF _ assms(2-9)] logged_insert_entry [OF assms(1)] by simp

text \<open>C4: Crash recovery of a deletion, in the same terms.\<close>

theorem delete_entry_recovers:
  assumes "delete_entry ukey rid t = Some (SUCCESS, t')" "loggable t" "entries t = []"
    and "\<forall>e\<in>set (entries t'). entry_int32 e" "fits_along fsub (entries t') t"
    and "key_length (file_header t) = attr_length (file_header t) + 8"
    and "crash_image lsn t t' c" "page_count c = page_count t'" "int32 pool_id"
  shows "\<exists>d c'. read_int32 (new_deserializer (commit_buffer pool_id (entries t'))) = Some (pool_id, d)
    \<and> redo_log fsub lsn d c = Some (SUCCESS, c') \<and> pages c' = pages t' \<and> file_header c' = file_header t'
    \<and> crash_image lsn t t' c' \<and> (\<forall>e\<in>set (entries t'). lsn \<le> page_lsn c' (entry_page e))"
  using recovers [OF _ assms(2-9)] logged_delete_entry [OF assms(1)] by simp

subsection \<open>A concrete run\<close>

lemma ex_loggable: "loggable ex_leaf_tree" "entries ex_leaf_tree = []"
  by (auto simp: loggable_def ex_leaf_tree_def)

lemma ex_find_leaf: "find_leaf key ex_leaf_tree = Some (Inr 2)"
  by (simp add: find_leaf_def find_leaf_internal_def is_empty_def ex_leaf_tree_def BP_INVALID_PAGE_NUM_def
      get_page_def find_leaf_loop.simps)

lemma ex_make_key: "make_key ex_leaf_tree (int_to_bytes 4 v) \<lparr>page_num = 1, slot_num = v\<rparr> = ex_key v"
  by (simp add: make_key_def ex_key_def ex_leaf_tree_def)

lemma ex_insert:
  "insert_entry (int_to_bytes 4 5) \<lparr>page_num = 1, slot_num = 5\<rparr> ex_leaf_tree =
    Some (SUCCESS, leaf_insert 2 1 (ex_key 5) (RidV \<lparr>page_num = 1, slot_num = 5\<rparr>) ex_leaf_tree)"
proof -
  have "leaf_lookup (key_comparator ex_leaf_tree) (ex_key 5) (pages ex_leaf_tree 2) = (1, False)"
    by (simp add: leaf_lookup_def ex_leaf_tree_def lower_bound_def lower_bound_loop.simps)
  moreover have "\<not> is_empty ex_leaf_tree" "node_size (pages ex_leaf_tree 2) < max_size (file_header ex_leaf_tree) (pages ex_leaf_tree 2)"
    by (simp_all add: is_empty_def ex_leaf_tree_def BP_INVALID_PAGE_NUM_def node_size_def max_size_def)
  ultimately show ?thesis
    by (simp add: insert_entry_def ex_make_key ex_find_leaf insert_entry_into_leaf_node_def)
qed

lemma ex_delete:
  "delete_entry (int_to_bytes 4 3) \<lparr>page_num = 1, slot_num = 3\<rparr> ex_leaf_tree =
    Some (SUCCESS, node_remove 2 0 1 ex_leaf_tree)"
proof -
  have "leaf_lookup (key_comparator ex_leaf_tree) (ex_key 3) (pages ex_leaf_tree 2) = (0, True)"
    by (simp add: leaf_lookup_def ex_leaf_tree_def lower_bound_def lower_bound_loop.simps)
  then have rm: "leaf_remove_key 2 (ex_key 3) ex_leaf_tree = (1, node_remove 2 0 1 ex_leaf_tree)"
    by (simp add: leaf_remove_key_def leaf_remove_def)
  have "\<not> node_size (pages (node_remove 2 0 1 ex_leaf_tree) 2)
      \<ge> min_size (file_header (node_remove 2 0 1 ex_leaf_tree)) (pages (node_remove 2 0 1 ex_leaf_tree) 2)"
    "parent (pages (node_remove 2 0 1 ex_leaf_tree) 2) = -1"
    "is_leaf (pages (node_remove 2 0 1 ex_leaf_tree) 2)" "node_size (pages (node_remove 2 0 1 ex_leaf_tree) 2) = 1"
    by (simp_all add: node_remove_def node_simps ex_leaf_tree_def node_size_def min_size_def max_size_def list_remove_at_def)
  then have "coalesce_or_redistribute True 2 (node_remove 2 0 1 ex_leaf_tree) = Some (SUCCESS, node_remove 2 0 1 ex_leaf_tree)"
    by (subst coalesce_or_redistribute.simps) (simp add: adjust_root_def Let_def BP_INVALID_PAGE_NUM_def)
  then show ?thesis
    by (simp add: delete_entry_def ex_make_key ex_find_leaf delete_entry_internal_def rm)
qed

lemma ex_key_fits: "int32 v \<Longrightarrow> key_fits (file_header ex_leaf_tree) (ex_key v)"
  by (simp add: key_fits_def rid_int32_def ex_key_def ex_leaf_tree_def)

theorem insert_entry_recovers_witness:
  "\<exists>t' d c'. insert_entry (int_to_bytes 4 5) \<lparr>page_num = 1, slot_num = 5\<rparr> ex_leaf_tree = Some (SUCCESS, t')
    \<and> read_int32 (new_deserializer (commit_buffer 7 (entries t'))) = Some (7, d)
    \<and> redo_log (\<lambda>_ _. None) 1 d ex_leaf_tree = Some (SUCCESS, c') \<and> pages c' = pages t'"
proof -
  let ?it = "(ex_key 5, RidV \<lparr>page_num = 1, slot_num = 5\<rparr>)"
  let ?t = "leaf_insert 2 1 (fst ?it) (snd ?it) ex_leaf_tree"
  have es: "entries ?t = [NodeInsert 2 1 [?it] 1]"
    by (simp add: leaf_insert_def node_simps append_log_entry_def) (simp add: ex_leaf_tree_def)
  have i: "\<forall>e\<in>set (entries ?t). entry_int32 e"
    unfolding es by (simp add: items_bytes_def item_bytes_def key_bytes_def ex_key_def)
  have f: "fits_along (\<lambda>_ _. None) (entries ?t) ex_leaf_tree"
    using ex_key_fits [of 5] unfolding es by (simp add: item_fits_def rid_int32_def) (simp add: ex_leaf_tree_def)
  have h: "key_length (file_header ex_leaf_tree) = attr_length (file_header ex_leaf_tree) + 8"
    "crash_image 1 ex_leaf_tree ?t ex_leaf_tree" "page_count ex_leaf_tree = page_count ?t"
    by (simp_all add: crash_image_def) (simp_all add: ex_leaf_tree_def)
  have ins: "insert_entry (int_to_bytes 4 5) \<lparr>page_num = 1, slot_num = 5\<rparr> ex_leaf_tree = Some (SUCCESS, ?t)"
    using ex_insert by simp
  from insert_entry_recovers [OF ins ex_loggable i f h, of 7] ins show ?thesis by (auto simp: int32_def)
qed

theorem delete_entry_recovers_witness:
  "\<exists>t' d c'. delete_entry (int_to_bytes 4 3) \<lparr>page_num = 1, slot_num = 3\<rparr> ex_leaf_tree = Some (SUCCESS, t')
    \<and> read_int32 (new_deserializer (commit_buffer 7 (entries t'))) = Some (7, d)
    \<and> redo_log (\<lambda>_ _. None) 1 d ex_leaf_tree = Some (SUCCESS, c') \<and> pages c' = pages t'"
proof -
  let ?t = "node_remove 2 0 1 ex_leaf_tree"
  have es: "entries ?t = [NodeRemove 2 0 (take 1 (items (pages ex_leaf_tree 2))) 1]"
    by (simp add: node_remove_def node_simps append_log_entry_def) (simp add: ex_leaf_tree_def)
  have i: "\<forall>e\<in>set (entries ?t). entry_int32 e"
    unfolding es by (simp add: ex_leaf_tree_def items_bytes_def item_bytes_def key_bytes_def ex_key_def)
  have f: "fits_along (\<lambda>_ _. None) (entries ?t) ex_leaf_tree" unfolding es by simp
  have h: "key_length (file_header ex_leaf_tree) = attr_length (file_header ex_leaf_tree) + 8"
    "crash_image 1 ex_leaf_tree ?t ex_leaf_tree" "page_count ex_leaf_tree = page_count ?t"
    by (simp_all add: crash_image_def) (simp_all add: ex_leaf_tree_def)
  from delete_entry_recovers [OF ex_delete ex_loggable i f h, of 7] ex_delete show ?thesis by (auto simp: int32_def)
qed

end
