(* ===== verification/Bitmap.thy ===== *)
theory Bitmap
  imports Prelude
begin

text \<open>
  \<^verbatim>\<open>deps/common/lang/bitmap.cpp\<close>: the bitmap that records which pages of a file and which slots of a
  record page are in use. The array \<open>bitmap_\<close> is a list of bytes and \<open>size_\<close> a number of bits. An
  access outside the array is undefined in C++ and unspecified here; the lemmas assume an array of at
  least \<open>bytes sz\<close> bytes.

  The two searches share one argument: the locale \<open>byte_scan\<close> states what a byte-wise search relies
  on and proves once that it finds the first matching bit.
\<close>

section \<open>Operations\<close>

function find_first_zero :: "byte \<Rightarrow> nat \<Rightarrow> int" where
  "find_first_zero b i =
     (if i < 8 then (if b AND push_bit i 1 = 0 then int i else find_first_zero b (Suc i)) else -1)"
  by pat_completeness auto
termination
  by (relation "measure (\<lambda>(b, i). 8 - i)") auto

function find_first_setted :: "byte \<Rightarrow> nat \<Rightarrow> int" where
  "find_first_setted b i =
     (if i < 8 then (if b AND push_bit i 1 \<noteq> 0 then int i else find_first_setted b (Suc i)) else -1)"
  by pat_completeness auto
termination
  by (relation "measure (\<lambda>(b, i). 8 - i)") auto

definition bytes :: "nat \<Rightarrow> nat" where
  "bytes sz = (if sz mod 8 = 0 then sz div 8 else sz div 8 + 1)"

definition bitmap_get_bit :: "byte list \<Rightarrow> nat \<Rightarrow> bool" where
  "bitmap_get_bit bitmap index = (bitmap ! (index div 8) AND push_bit (index mod 8) 1 \<noteq> 0)"

definition bitmap_set_bit :: "byte list \<Rightarrow> nat \<Rightarrow> byte list" where
  "bitmap_set_bit bitmap index =
     bitmap[index div 8 := bitmap ! (index div 8) OR push_bit (index mod 8) 1]"

definition bitmap_clear_bit :: "byte list \<Rightarrow> nat \<Rightarrow> byte list" where
  "bitmap_clear_bit bitmap index =
     bitmap[index div 8 := bitmap ! (index div 8) AND NOT (push_bit (index mod 8) 1)]"

text \<open>The loop of \<open>next_unsetted_bit\<close>: \<open>byte != -1\<close> on a signed char is \<open>byte \<noteq> 0xFF\<close>.\<close>

function next_unsetted_loop :: "byte list \<Rightarrow> nat \<Rightarrow> nat \<Rightarrow> nat \<Rightarrow> int" where
  "next_unsetted_loop bitmap end' iter start_in_byte =
     (if iter < end' then
        (let byte = bitmap ! iter;
             index_in_byte = (if byte \<noteq> -1 then find_first_zero byte start_in_byte else -1)
         in if index_in_byte \<ge> 0 then int iter * 8 + index_in_byte
            else next_unsetted_loop bitmap end' (Suc iter) 0)
      else -1)"
  by pat_completeness auto
termination
  by (relation "measure (\<lambda>(b, e, i, s). e - i)") auto

function next_setted_loop :: "byte list \<Rightarrow> nat \<Rightarrow> nat \<Rightarrow> nat \<Rightarrow> int" where
  "next_setted_loop bitmap end' iter start_in_byte =
     (if iter < end' then
        (let byte = bitmap ! iter;
             index_in_byte = (if byte \<noteq> 0 then find_first_setted byte start_in_byte else -1)
         in if index_in_byte \<ge> 0 then int iter * 8 + index_in_byte
            else next_setted_loop bitmap end' (Suc iter) 0)
      else -1)"
  by pat_completeness auto
termination
  by (relation "measure (\<lambda>(b, e, i, s). e - i)") auto

definition next_unsetted_bit :: "byte list \<Rightarrow> nat \<Rightarrow> nat \<Rightarrow> int" where
  "next_unsetted_bit bitmap sz start =
     (let ret = next_unsetted_loop bitmap (bytes sz) (start div 8) (start mod 8)
      in if ret \<ge> int sz then -1 else ret)"

definition next_setted_bit :: "byte list \<Rightarrow> nat \<Rightarrow> nat \<Rightarrow> int" where
  "next_setted_bit bitmap sz start =
     (let ret = next_setted_loop bitmap (bytes sz) (start div 8) (start mod 8)
      in if ret \<ge> int sz then -1 else ret)"

declare find_first_zero.simps [simp del] find_first_setted.simps [simp del]
  next_unsetted_loop.simps [simp del] next_setted_loop.simps [simp del]

section \<open>Single bits\<close>

definition bitmap_ok :: "byte list \<Rightarrow> nat \<Rightarrow> bool" where
  "bitmap_ok bitmap sz \<longleftrightarrow> bytes sz \<le> length bitmap"

lemma byte_and_mask: "(b AND push_bit i 1 \<noteq> 0) = bit b i" for b :: byte
  by (simp add: bit_iff_and_push_bit_not_eq_0)

lemma get_bit_eq: "bitmap_get_bit bitmap i = bit (bitmap ! (i div 8)) (i mod 8)"
  unfolding bitmap_get_bit_def by (rule byte_and_mask)

lemma bytes_gt: "i < sz \<Longrightarrow> i div 8 < bytes sz"
  unfolding bytes_def by auto

lemma bytes_bound: "sz \<le> bytes sz * 8"
  unfolding bytes_def by auto

lemma bitmap_okD: "bitmap_ok bitmap sz \<Longrightarrow> i < sz \<Longrightarrow> i div 8 < length bitmap"
  using bytes_gt by (fastforce simp: bitmap_ok_def)

lemma div_mod_8_neq: "(i::nat) \<noteq> j \<Longrightarrow> i div 8 = j div 8 \<Longrightarrow> i mod 8 \<noteq> j mod 8"
  by (metis div_mult_mod_eq)

lemma length_set_bit [simp]: "length (bitmap_set_bit bitmap i) = length bitmap"
  by (simp add: bitmap_set_bit_def)

lemma length_clear_bit [simp]: "length (bitmap_clear_bit bitmap i) = length bitmap"
  by (simp add: bitmap_clear_bit_def)

lemma bitmap_ok_set_bit [simp]: "bitmap_ok (bitmap_set_bit bitmap i) sz = bitmap_ok bitmap sz"
  by (simp add: bitmap_ok_def)

lemma bitmap_ok_clear_bit [simp]: "bitmap_ok (bitmap_clear_bit bitmap i) sz = bitmap_ok bitmap sz"
  by (simp add: bitmap_ok_def)

lemma get_bit_set_bit:
  "i div 8 < length bitmap \<Longrightarrow> bitmap_get_bit (bitmap_set_bit bitmap i) j = (j = i \<or> bitmap_get_bit bitmap j)"
  using div_mod_8_neq [of j i]
  by (cases "j = i"; cases "j div 8 = i div 8")
    (auto simp: get_bit_eq bitmap_set_bit_def bit_or_iff bit_exp_iff)

lemma get_bit_clear_bit:
  "i div 8 < length bitmap \<Longrightarrow> bitmap_get_bit (bitmap_clear_bit bitmap i) j = (j \<noteq> i \<and> bitmap_get_bit bitmap j)"
  using div_mod_8_neq [of i j]
  by (cases "j div 8 = i div 8")
    (auto simp: get_bit_eq bitmap_clear_bit_def bit_and_iff bit_not_iff bit_exp_iff)

section \<open>Searching\<close>

text \<open>
  A byte-wise search for a bit with value \<open>want\<close>: \<open>find b i\<close> is the first such bit of a byte from
  position \<open>i\<close> on, and \<open>skip b\<close> holds only for bytes that have none.
\<close>

locale byte_scan =
  fixes want :: bool
    and skip :: "byte \<Rightarrow> bool"
    and find :: "byte \<Rightarrow> nat \<Rightarrow> int"
    and loop :: "byte list \<Rightarrow> nat \<Rightarrow> nat \<Rightarrow> nat \<Rightarrow> int"
  assumes skip_none: "skip b \<Longrightarrow> i < 8 \<Longrightarrow> bit b i \<noteq> want"
    and find_step: "find b i = (if i < 8 then (if bit b i = want then int i else find b (Suc i)) else -1)"
    and loop_step: "loop bitmap e it s =
      (if it < e then
         (let r = (if skip (bitmap ! it) then -1 else find (bitmap ! it) s)
          in if r \<ge> 0 then int it * 8 + r else loop bitmap e (Suc it) 0)
       else -1)"
begin

lemma find_cases:
  obtains (none) "find b i = -1" "\<And>j. i \<le> j \<Longrightarrow> j < 8 \<Longrightarrow> bit b j \<noteq> want"
  | (found) j where "find b i = int j" "i \<le> j" "j < 8" "bit b j = want"
      "\<And>k. i \<le> k \<Longrightarrow> k < j \<Longrightarrow> bit b k \<noteq> want"
proof (induction "8 - i" arbitrary: i thesis)
  case 0
  then show ?case by (simp add: find_step [of b i])
next
  case (Suc n)
  then have i: "i < 8" by simp
  show ?case
  proof (cases "bit b i = want")
    case True
    with i Suc.prems(2) [of i] show ?thesis by (simp add: find_step [of b i])
  next
    case False
    have step: "find b i = find b (Suc i)"
      using False i by (simp add: find_step [of b i])
    have n: "n = 8 - Suc i" using Suc.hyps(2) by simp
    show ?thesis
    proof (rule Suc.hyps(1) [OF n])
      assume "find b (Suc i) = -1" "\<And>j. Suc i \<le> j \<Longrightarrow> j < 8 \<Longrightarrow> bit b j \<noteq> want"
      then show ?thesis
        using Suc.prems(1) step False by (metis le_antisym not_less_eq_eq)
    next
      fix j
      assume "find b (Suc i) = int j" "Suc i \<le> j" "j < 8" "bit b j = want"
        "\<And>k. Suc i \<le> k \<Longrightarrow> k < j \<Longrightarrow> bit b k \<noteq> want"
      then show ?thesis
        using Suc.prems(2) [of j] step False by (metis Suc_leD le_antisym not_less_eq_eq)
    qed
  qed
qed

lemma byte_span: "it * 8 \<le> j \<Longrightarrow> j < it * 8 + 8 \<Longrightarrow> j div 8 = it \<and> j mod 8 = j - it * 8" for j it :: nat
  using div_nat_eqI [of 8 it j] by (simp add: minus_div_mult_eq_mod [symmetric] mult.commute)

lemma loop_cases:
  assumes "s < 8"
  obtains (none) "loop bitmap e it s = -1"
      "\<And>j. it * 8 + s \<le> j \<Longrightarrow> j < e * 8 \<Longrightarrow> bitmap_get_bit bitmap j \<noteq> want"
  | (found) j where "loop bitmap e it s = int j" "it * 8 + s \<le> j" "j < e * 8" "bitmap_get_bit bitmap j = want"
      "\<And>k. it * 8 + s \<le> k \<Longrightarrow> k < j \<Longrightarrow> bitmap_get_bit bitmap k \<noteq> want"
  using assms
proof (induction "e - it" arbitrary: it s thesis)
  case 0
  then have "loop bitmap e it s = -1" by (simp add: loop_step [of bitmap e it s])
  with 0 show ?case by force
next
  case (Suc n)
  then have it: "it < e" by simp
  let ?b = "bitmap ! it"
  have inbyte: "bitmap_get_bit bitmap j = bit ?b (j - it * 8)" if "it * 8 \<le> j" "j < it * 8 + 8" for j
    using byte_span [OF that] by (simp add: get_bit_eq)
  have tail: "loop bitmap e it s = loop bitmap e (Suc it) 0 \<Longrightarrow>
      (\<And>j. s \<le> j \<Longrightarrow> j < 8 \<Longrightarrow> bit ?b j \<noteq> want) \<Longrightarrow> thesis"
  proof -
    assume eq: "loop bitmap e it s = loop bitmap e (Suc it) 0"
      and nob: "\<And>j. s \<le> j \<Longrightarrow> j < 8 \<Longrightarrow> bit ?b j \<noteq> want"
    have nog: "bitmap_get_bit bitmap j \<noteq> want" if "it * 8 + s \<le> j" "j < Suc it * 8" for j
      using inbyte [of j] nob [of "j - it * 8"] that by auto
    have n: "n = e - Suc it" using Suc.hyps(2) by simp
    show thesis
    proof (rule Suc.hyps(1) [OF n])
      assume "loop bitmap e (Suc it) 0 = -1"
        "\<And>j. Suc it * 8 + 0 \<le> j \<Longrightarrow> j < e * 8 \<Longrightarrow> bitmap_get_bit bitmap j \<noteq> want"
      then show thesis using Suc.prems(1) eq nog by (metis add.right_neutral not_le)
    next
      fix j
      assume "loop bitmap e (Suc it) 0 = int j" "Suc it * 8 + 0 \<le> j" "j < e * 8"
        "bitmap_get_bit bitmap j = want"
        "\<And>k. Suc it * 8 + 0 \<le> k \<Longrightarrow> k < j \<Longrightarrow> bitmap_get_bit bitmap k \<noteq> want"
      then show thesis
        using Suc.prems(2) [of j] Suc.prems(3) eq nog by (force simp: not_le)
    qed simp
  qed
  show ?case
  proof (cases "skip ?b")
    case True
    then show ?thesis
      using tail it skip_none by (simp add: loop_step [of bitmap e it s])
  next
    case False
    show ?thesis
    proof (rule find_cases [of ?b s])
      assume "find ?b s = -1" "\<And>j. s \<le> j \<Longrightarrow> j < 8 \<Longrightarrow> bit ?b j \<noteq> want"
      then show ?thesis using tail it False by (simp add: loop_step [of bitmap e it s])
    next
      fix j
      assume j: "find ?b s = int j" "s \<le> j" "j < 8" "bit ?b j = want"
        "\<And>k. s \<le> k \<Longrightarrow> k < j \<Longrightarrow> bit ?b k \<noteq> want"
      have "loop bitmap e it s = int (it * 8 + j)"
        using it False j(1) by (simp add: loop_step [of bitmap e it s])
      moreover have "bitmap_get_bit bitmap k \<noteq> want" if "it * 8 + s \<le> k" "k < it * 8 + j" for k
        using inbyte [of k] j(3) j(5) [of "k - it * 8"] that by auto
      moreover have "bitmap_get_bit bitmap (it * 8 + j) = want" using inbyte [of "it * 8 + j"] j by simp
      moreover have "it * 8 + j < e * 8" using it j(3) by auto
      ultimately show ?thesis using Suc.prems(2) [of "it * 8 + j"] j(2) by auto
    qed
  qed
qed

text \<open>The result of a whole search, cut off at \<open>size\<close> bits.\<close>

lemma search_cases:
  assumes "r = (let ret = loop bitmap (bytes sz) (start div 8) (start mod 8)
                in if ret \<ge> int sz then -1 else ret)"
  obtains (none) "r = -1" "\<And>j. start \<le> j \<Longrightarrow> j < sz \<Longrightarrow> bitmap_get_bit bitmap j \<noteq> want"
  | (found) j where "r = int j" "start \<le> j" "j < sz" "bitmap_get_bit bitmap j = want"
      "\<And>k. start \<le> k \<Longrightarrow> k < j \<Longrightarrow> bitmap_get_bit bitmap k \<noteq> want"
proof -
  have s: "start mod 8 < 8" by simp
  have start: "start div 8 * 8 + start mod 8 = start" by simp
  have bound: "j < sz \<Longrightarrow> j < bytes sz * 8" for j using bytes_bound [of sz] by simp
  show thesis
  proof (rule loop_cases [OF s, of bitmap "bytes sz" "start div 8"], unfold start)
    assume "loop bitmap (bytes sz) (start div 8) (start mod 8) = -1"
      "\<And>j. start \<le> j \<Longrightarrow> j < bytes sz * 8 \<Longrightarrow> bitmap_get_bit bitmap j \<noteq> want"
    then show thesis using none assms bound by simp
  next
    fix j
    assume "loop bitmap (bytes sz) (start div 8) (start mod 8) = int j" "start \<le> j"
      "j < bytes sz * 8" "bitmap_get_bit bitmap j = want"
      "\<And>k. start \<le> k \<Longrightarrow> k < j \<Longrightarrow> bitmap_get_bit bitmap k \<noteq> want"
    then show thesis using none found assms by (cases "j < sz") auto
  qed
qed

end

lemma byte_all_ones: "i < 8 \<Longrightarrow> bit (-1 :: byte) i"
  by simp

interpretation unsetted: byte_scan False "\<lambda>b. b = -1" find_first_zero next_unsetted_loop
proof unfold_locales
  fix b :: byte and i :: nat
  show "find_first_zero b i =
    (if i < 8 then (if bit b i = False then int i else find_first_zero b (Suc i)) else -1)"
    using byte_and_mask [of b i] by (subst find_first_zero.simps) auto
next
  fix bitmap :: "byte list" and e it s
  show "next_unsetted_loop bitmap e it s =
    (if it < e then
       (let r = (if bitmap ! it = -1 then -1 else find_first_zero (bitmap ! it) s)
        in if r \<ge> 0 then int it * 8 + r else next_unsetted_loop bitmap e (Suc it) 0)
     else -1)"
    by (subst next_unsetted_loop.simps) (simp add: Let_def)
qed auto

interpretation setted: byte_scan True "\<lambda>b. b = 0" find_first_setted next_setted_loop
proof unfold_locales
  fix b :: byte and i :: nat
  show "find_first_setted b i =
    (if i < 8 then (if bit b i = True then int i else find_first_setted b (Suc i)) else -1)"
    using byte_and_mask [of b i] by (subst find_first_setted.simps) auto
next
  fix bitmap :: "byte list" and e it s
  show "next_setted_loop bitmap e it s =
    (if it < e then
       (let r = (if bitmap ! it = 0 then -1 else find_first_setted (bitmap ! it) s)
        in if r \<ge> 0 then int it * 8 + r else next_setted_loop bitmap e (Suc it) 0)
     else -1)"
    by (subst next_setted_loop.simps) (simp add: Let_def)
qed auto

text \<open>What the two searches return, for the components that use them.\<close>

lemma next_unsetted_cases:
  "next_unsetted_bit bitmap sz start = -1 \<and> (\<forall>j. start \<le> j \<and> j < sz \<longrightarrow> bitmap_get_bit bitmap j)
   \<or> (\<exists>j. next_unsetted_bit bitmap sz start = int j \<and> start \<le> j \<and> j < sz \<and> \<not> bitmap_get_bit bitmap j
        \<and> (\<forall>k. start \<le> k \<and> k < j \<longrightarrow> bitmap_get_bit bitmap k))"
  by (rule unsetted.search_cases [OF next_unsetted_bit_def]) auto

lemma next_setted_cases:
  "next_setted_bit bitmap sz start = -1 \<and> (\<forall>j. start \<le> j \<and> j < sz \<longrightarrow> \<not> bitmap_get_bit bitmap j)
   \<or> (\<exists>j. next_setted_bit bitmap sz start = int j \<and> start \<le> j \<and> j < sz \<and> bitmap_get_bit bitmap j
        \<and> (\<forall>k. start \<le> k \<and> k < j \<longrightarrow> \<not> bitmap_get_bit bitmap k))"
  by (rule setted.search_cases [OF next_setted_bit_def]) auto

text \<open>
  \<open>next_unsetted_bit\<close> returns the first clear bit at or after \<open>start\<close> and below the
  size of the bitmap, and \<open>-1\<close> exactly when every bit in that range is set.
\<close>

lemma next_unsetted_bit_spec:
  "next_unsetted_bit bitmap sz start = -1 \<and> (\<forall>j. start \<le> j \<and> j < sz \<longrightarrow> bitmap_get_bit bitmap j)
   \<or> (\<exists>j. next_unsetted_bit bitmap sz start = int j \<and> start \<le> j \<and> j < sz \<and> \<not> bitmap_get_bit bitmap j
        \<and> (\<forall>k. start \<le> k \<and> k < j \<longrightarrow> bitmap_get_bit bitmap k))"
  by (rule next_unsetted_cases)

end
