(* ===== verification/LruCache.thy ===== *)
theory LruCache
  imports Prelude
begin

text \<open>
  \<open>common::LruCache\<close> (\<^verbatim>\<open>deps/common/lang/lru_cache.h\<close>) at the level of its pointers: nodes in a heap, a
  doubly linked list from the most to the least recently used node, and the hash set \<open>searcher_\<close>, which
  finds a node by its key. Memory is never exhausted: \<open>new\<close> returns the next unused address.

  The cache refines a list of keys and values, most recently used first: lookups and updates move an entry
  to the front, new entries are pushed to the front, and the two traversals walk the list forwards and
  backwards. The frame manager is built on this contract (locale \<open>mru_cache\<close>).
\<close>

section \<open>The code\<close>

type_synonym addr = nat

record ('k, 'v) ListNode =
  node_key :: 'k
  node_value :: 'v
  prev_ptr :: "addr option"
  next_ptr :: "addr option"

record ('k, 'v) lru =
  heap :: "addr \<Rightarrow> ('k, 'v) ListNode"
  fresh :: addr
  searcher :: "'k \<Rightarrow> addr option"
  lru_front :: "addr option"
  lru_tail :: "addr option"

definition set_prev :: "addr \<Rightarrow> addr option \<Rightarrow> (addr \<Rightarrow> ('k, 'v) ListNode) \<Rightarrow> addr \<Rightarrow> ('k, 'v) ListNode" where
  "set_prev a p h = h(a := (h a)\<lparr>prev_ptr := p\<rparr>)"

definition set_next :: "addr \<Rightarrow> addr option \<Rightarrow> (addr \<Rightarrow> ('k, 'v) ListNode) \<Rightarrow> addr \<Rightarrow> ('k, 'v) ListNode" where
  "set_next a n h = h(a := (h a)\<lparr>next_ptr := n\<rparr>)"

text \<open>Linking a node in at the front, the common end of \<open>lru_touch\<close> and \<open>lru_push\<close>.\<close>

definition link_front :: "addr \<Rightarrow> ('k, 'v) lru \<Rightarrow> ('k, 'v) lru" where
  "link_front a c =
     (let h1 = set_next a (lru_front c) (set_prev a None (heap c));
          h2 = (case lru_front c of None \<Rightarrow> h1 | Some f \<Rightarrow> set_prev f (Some a) h1)
      in c\<lparr>heap := h2, lru_front := Some a\<rparr>)"

definition lru_touch :: "addr \<Rightarrow> ('k, 'v) lru \<Rightarrow> ('k, 'v) lru" where
  "lru_touch a c =
     (case prev_ptr (heap c a) of
        None \<Rightarrow> c
      | Some p \<Rightarrow>
          (let h1 = set_next p (next_ptr (heap c a)) (heap c);
               c1 = (case next_ptr (h1 a) of
                       Some n \<Rightarrow> c\<lparr>heap := set_prev n (prev_ptr (h1 a)) h1\<rparr>
                     | None \<Rightarrow> c\<lparr>heap := h1, lru_tail := prev_ptr (h1 a)\<rparr>)
           in link_front a c1))"

definition lru_push :: "addr \<Rightarrow> ('k, 'v) lru \<Rightarrow> ('k, 'v) lru" where
  "lru_push a c =
     (let c1 = (if lru_tail c = None then c\<lparr>lru_tail := Some a\<rparr> else c);
          c2 = link_front a c1
      in c2\<lparr>searcher := (searcher c2)(node_key (heap c2 a) \<mapsto> a)\<rparr>)"

definition lru_remove :: "addr \<Rightarrow> ('k, 'v) lru \<Rightarrow> ('k, 'v) lru" where
  "lru_remove a c =
     (let n = heap c a;
          h1 = (case prev_ptr n of Some p \<Rightarrow> set_next p (next_ptr n) (heap c) | None \<Rightarrow> heap c);
          h2 = (case next_ptr n of Some q \<Rightarrow> set_prev q (prev_ptr n) h1 | None \<Rightarrow> h1)
      in c\<lparr>heap := h2,
           lru_front := (if lru_front c = Some a then next_ptr n else lru_front c),
           lru_tail := (if lru_tail c = Some a then prev_ptr n else lru_tail c),
           searcher := (searcher c)(node_key n := None)\<rparr>)"

definition lru_empty :: "('k, 'v) ListNode \<Rightarrow> ('k, 'v) lru" where
  "lru_empty junk = \<lparr>heap = (\<lambda>_. junk), fresh = 0, searcher = Map.empty, lru_front = None, lru_tail = None\<rparr>"

definition lru_destroy :: "('k, 'v) lru \<Rightarrow> ('k, 'v) lru" where
  "lru_destroy c = c\<lparr>searcher := Map.empty, lru_front := None, lru_tail := None\<rparr>"

definition lru_get :: "'k \<Rightarrow> ('k, 'v) lru \<Rightarrow> 'v option \<times> ('k, 'v) lru" where
  "lru_get k c =
     (case searcher c k of
        None \<Rightarrow> (None, c)
      | Some a \<Rightarrow> (let c1 = lru_touch a c in (Some (node_value (heap c1 a)), c1)))"

definition lru_put :: "'k \<Rightarrow> 'v \<Rightarrow> ('k, 'v) lru \<Rightarrow> ('k, 'v) lru" where
  "lru_put k v c =
     (case searcher c k of
        Some a \<Rightarrow> lru_touch a (c\<lparr>heap := (heap c)(a := (heap c a)\<lparr>node_value := v\<rparr>)\<rparr>)
      | None \<Rightarrow>
          (let a = fresh c
           in lru_push a (c\<lparr>heap := (heap c)(a := \<lparr>node_key = k, node_value = v, prev_ptr = None, next_ptr = None\<rparr>),
                            fresh := a + 1\<rparr>)))"

definition lru_erase :: "'k \<Rightarrow> ('k, 'v) lru \<Rightarrow> ('k, 'v) lru" where
  "lru_erase k c = (case searcher c k of None \<Rightarrow> c | Some a \<Rightarrow> lru_remove a c)"

text \<open>
  The traversals call a function on every entry until it returns false. They follow pointers, so they are
  partial; the result is the accumulated state of the caller.
\<close>

partial_function (option) lru_foreach_from :: "('k \<Rightarrow> 'v \<Rightarrow> 's \<Rightarrow> bool \<times> 's) \<Rightarrow> ('k, 'v) lru \<Rightarrow> addr option \<Rightarrow> 's \<Rightarrow> 's option" where
  "lru_foreach_from f c p s =
     (case p of
        None \<Rightarrow> Some s
      | Some a \<Rightarrow> (case f (node_key (heap c a)) (node_value (heap c a)) s of
                    (b, s') \<Rightarrow> if b then lru_foreach_from f c (next_ptr (heap c a)) s' else Some s'))"

definition lru_foreach :: "('k \<Rightarrow> 'v \<Rightarrow> 's \<Rightarrow> bool \<times> 's) \<Rightarrow> ('k, 'v) lru \<Rightarrow> 's \<Rightarrow> 's option" where
  "lru_foreach f c s = lru_foreach_from f c (lru_front c) s"

partial_function (option) lru_foreach_back :: "('k \<Rightarrow> 'v \<Rightarrow> 's \<Rightarrow> bool \<times> 's) \<Rightarrow> ('k, 'v) lru \<Rightarrow> addr option \<Rightarrow> 's \<Rightarrow> 's option" where
  "lru_foreach_back f c p s =
     (case p of
        None \<Rightarrow> Some s
      | Some a \<Rightarrow> (case f (node_key (heap c a)) (node_value (heap c a)) s of
                    (b, s') \<Rightarrow> if b then lru_foreach_back f c (prev_ptr (heap c a)) s' else Some s'))"

definition lru_foreach_reverse :: "('k \<Rightarrow> 'v \<Rightarrow> 's \<Rightarrow> bool \<times> 's) \<Rightarrow> ('k, 'v) lru \<Rightarrow> 's \<Rightarrow> 's option" where
  "lru_foreach_reverse f c s = lru_foreach_back f c (lru_tail c) s"

section \<open>List segments\<close>

fun first_or :: "addr list \<Rightarrow> addr option \<Rightarrow> addr option" where
  "first_or [] n = n"
| "first_or (a # as) n = Some a"

fun last_or :: "addr list \<Rightarrow> addr option \<Rightarrow> addr option" where
  "last_or [] p = p"
| "last_or (a # as) p = last_or as (Some a)"

text \<open>\<open>seg h p as n\<close>: the nodes \<open>as\<close> are linked both ways, between the neighbours \<open>p\<close> and \<open>n\<close>.\<close>

fun seg :: "(addr \<Rightarrow> ('k, 'v) ListNode) \<Rightarrow> addr option \<Rightarrow> addr list \<Rightarrow> addr option \<Rightarrow> bool" where
  "seg h p [] n = True"
| "seg h p (a # as) n \<longleftrightarrow> prev_ptr (h a) = p \<and> next_ptr (h a) = first_or as n \<and> seg h (Some a) as n"

lemma first_or_append [simp]: "first_or (xs @ ys) n = first_or xs (first_or ys n)"
  by (cases xs) simp_all

lemma last_or_append [simp]: "last_or (xs @ ys) p = last_or ys (last_or xs p)"
  by (induction xs arbitrary: p) simp_all

lemma last_or_snoc: "xs \<noteq> [] \<Longrightarrow> last_or xs p = Some (last xs)"
  by (induction xs arbitrary: p) (simp_all split: if_splits)

lemma last_or_Some [simp]: "last_or xs (Some a) \<noteq> None"
  by (induction xs arbitrary: a) simp_all

lemma first_or_hd: "xs \<noteq> [] \<Longrightarrow> first_or xs n = Some (hd xs)"
  by (cases xs) simp_all

lemma seg_append: "seg h p (xs @ ys) n \<longleftrightarrow> seg h p xs (first_or ys n) \<and> seg h (last_or xs p) ys n"
  by (induction xs arbitrary: p) auto

lemma seg_frame: "(\<And>a. a \<in> set as \<Longrightarrow> prev_ptr (h a) = prev_ptr (h' a) \<and> next_ptr (h a) = next_ptr (h' a)) \<Longrightarrow> seg h p as n = seg h' p as n"
  by (induction as arbitrary: p) auto

lemma seg_set_other [simp]:
  "a \<notin> set as \<Longrightarrow> seg (set_prev a q h) p as n = seg h p as n"
  "a \<notin> set as \<Longrightarrow> seg (set_next a q h) p as n = seg h p as n"
  by (rule seg_frame; auto simp: set_prev_def set_next_def)+

lemma seg_set_prev_head:
  "seg h p as n \<Longrightarrow> distinct as \<Longrightarrow> as \<noteq> [] \<Longrightarrow> seg (set_prev (hd as) q h) q as n"
  by (cases as) (auto simp: set_prev_def seg_frame [of _ "h(_ := _)" h] intro: seg_frame [THEN iffD1, rotated])

lemma seg_set_next_last:
  assumes "seg h p as n" "distinct as" "as \<noteq> []"
  shows "seg (set_next (last as) m h) p as m"
proof -
  obtain xs a where as: "as = xs @ [a]" using assms(3) by (metis append_butlast_last_id)
  have "a \<notin> set xs" using assms(2) as by simp
  then show ?thesis using assms(1) by (simp add: as seg_append) (simp add: set_next_def)
qed

lemma contents_set [simp]:
  "node_key (set_prev a q h b) = node_key (h b)" "node_value (set_prev a q h b) = node_value (h b)"
  "node_key (set_next a q h b) = node_key (h b)" "node_value (set_next a q h b) = node_value (h b)"
  by (simp_all add: set_prev_def set_next_def)

section \<open>Refinement\<close>

definition cache_inv :: "('k, 'v) lru \<Rightarrow> addr list \<Rightarrow> bool" where
  "cache_inv c as \<longleftrightarrow> distinct as \<and> seg (heap c) None as None \<and> lru_front c = first_or as None
     \<and> lru_tail c = last_or as None \<and> (\<forall>a\<in>set as. a < fresh c)
     \<and> (\<forall>k a. searcher c k = Some a \<longleftrightarrow> a \<in> set as \<and> node_key (heap c a) = k)"

definition cache_entries :: "('k, 'v) lru \<Rightarrow> addr list \<Rightarrow> ('k \<times> 'v) list" where
  "cache_entries c as = map (\<lambda>a. (node_key (heap c a), node_value (heap c a))) as"

definition refines :: "('k, 'v) lru \<Rightarrow> ('k \<times> 'v) list \<Rightarrow> bool" where
  "refines c xs \<longleftrightarrow> (\<exists>as. cache_inv c as \<and> xs = cache_entries c as)"

definition without :: "'k \<Rightarrow> ('k \<times> 'v) list \<Rightarrow> ('k \<times> 'v) list" where
  "without k xs = filter (\<lambda>(k', v). k' \<noteq> k) xs"

fun walk :: "('k \<Rightarrow> 'v \<Rightarrow> 's \<Rightarrow> bool \<times> 's) \<Rightarrow> ('k \<times> 'v) list \<Rightarrow> 's \<Rightarrow> 's" where
  "walk f [] s = s"
| "walk f ((k, v) # xs) s = (case f k v s of (b, s') \<Rightarrow> if b then walk f xs s' else s')"

lemma entry_keys: "fst ` set (cache_entries c as) = (\<lambda>a. node_key (heap c a)) ` set as"
  by (simp add: cache_entries_def image_image)

lemma absent_key:
  assumes "cache_inv c as" "searcher c k = None"
  shows "k \<notin> fst ` set (cache_entries c as)"
proof
  assume "k \<in> fst ` set (cache_entries c as)"
  then obtain a where "a \<in> set as" "node_key (heap c a) = k" by (auto simp: entry_keys)
  then have "searcher c k = Some a" using assms(1) by (simp add: cache_inv_def)
  with assms(2) show False by simp
qed

text \<open>Linking in at the front.\<close>

lemma link_front_seg:
  assumes "seg (heap c) None as None" "distinct (a # as)" "lru_front c = first_or as None"
  shows "seg (heap (link_front a c)) None (a # as) None"
proof (cases as)
  case Nil
  then show ?thesis using assms by (simp add: link_front_def set_prev_def set_next_def)
next
  case (Cons b bs)
  let ?h = "set_next a (Some b) (set_prev a None (heap c))"
  have "seg ?h None as None" using assms(1,2) by simp
  then have "seg (set_prev b (Some a) ?h) (Some a) as None"
    using seg_set_prev_head [of ?h None as None "Some a"] assms(2) Cons by simp
  moreover have "prev_ptr (set_prev b (Some a) ?h a) = None" "next_ptr (set_prev b (Some a) ?h a) = Some b"
    using assms(2) Cons by (simp_all add: set_prev_def set_next_def)
  ultimately show ?thesis using assms(3) Cons by (simp add: link_front_def)
qed

lemma link_front_sel [simp]:
  "lru_front (link_front a c) = Some a" "lru_tail (link_front a c) = lru_tail c"
  "searcher (link_front a c) = searcher c" "fresh (link_front a c) = fresh c"
  "node_key (heap (link_front a c) b) = node_key (heap c b)" "node_value (heap (link_front a c) b) = node_value (heap c b)"
  by (simp_all add: link_front_def Let_def split: option.splits)

text \<open>Taking a node out of the list.\<close>

lemma unlink_seg:
  assumes "seg h None (xs @ a # ys) None" "distinct (xs @ a # ys)"
    and "h1 = (case prev_ptr (h a) of Some p \<Rightarrow> set_next p (next_ptr (h a)) h | None \<Rightarrow> h)"
    and "h2 = (case next_ptr (h a) of Some q \<Rightarrow> set_prev q (prev_ptr (h a)) h1 | None \<Rightarrow> h1)"
  shows "seg h2 None (xs @ ys) None"
proof -
  have s: "seg h None xs (Some a)" "prev_ptr (h a) = last_or xs None" "next_ptr (h a) = first_or ys None"
    "seg h (Some a) ys None"
    using assms(1) by (auto simp: seg_append)
  have s1: "seg h1 None xs (first_or ys None) \<and> seg h1 (Some a) ys None"
  proof (cases "xs = []")
    case False
    then have "h1 = set_next (last xs) (first_or ys None) h" using assms(3) s(2,3) by (simp add: last_or_snoc)
    moreover have "last xs \<notin> set ys" using assms(2) last_in_set [OF False] by auto
    ultimately show ?thesis using seg_set_next_last [OF s(1) _ False] assms(2) s(4) by simp
  qed (use assms(3) s in auto)
  show ?thesis
  proof (cases "ys = []")
    case False
    then have h2: "h2 = set_prev (hd ys) (last_or xs None) h1" using assms(4) s(2,3) by (simp add: first_or_hd)
    have "hd ys \<notin> set xs" using assms(2) hd_in_set [OF False] by auto
    moreover have "seg h2 (last_or xs None) ys None"
      using seg_set_prev_head [of h1 "Some a" ys None "last_or xs None"] s1 False assms(2) h2 by simp
    ultimately show ?thesis using s1 h2 False by (simp add: seg_append first_or_hd)
  qed (use assms(4) s s1 in \<open>auto simp: seg_append\<close>)
qed

lemma split_at_member: "a \<in> set as \<Longrightarrow> \<exists>xs ys. as = xs @ a # ys"
  by (rule split_list)

lemma touch_inv:
  assumes "cache_inv c (xs @ a # ys)"
  shows "cache_inv (lru_touch a c) (a # xs @ ys)"
    "cache_entries (lru_touch a c) as = cache_entries c as"
proof -
  have inv: "distinct (xs @ a # ys)" "seg (heap c) None (xs @ a # ys) None"
    "lru_front c = first_or (xs @ a # ys) None" "lru_tail c = last_or (xs @ a # ys) None"
    "\<forall>b\<in>set (xs @ a # ys). b < fresh c"
    "\<forall>k b. searcher c k = Some b \<longleftrightarrow> b \<in> set (xs @ a # ys) \<and> node_key (heap c b) = k"
    using assms unfolding cache_inv_def by blast+
  have ptr: "prev_ptr (heap c a) = last_or xs None" "next_ptr (heap c a) = first_or ys None"
    using inv(2) by (auto simp: seg_append)
  have "cache_inv (lru_touch a c) (a # xs @ ys) \<and> cache_entries (lru_touch a c) as = cache_entries c as"
  proof (cases "xs = []")
    case True
    then have "lru_touch a c = c" using ptr by (simp add: lru_touch_def)
    with assms True show ?thesis by simp
  next
    case False
    define h1 where "h1 = set_next (last xs) (first_or ys None) (heap c)"
    have na: "last xs \<noteq> a" using inv(1) last_in_set [OF False] by auto
    then have ha: "prev_ptr (h1 a) = last_or xs None" "next_ptr (h1 a) = first_or ys None"
      using ptr by (simp_all add: h1_def set_next_def)
    define h2 where "h2 = (case first_or ys None of Some q \<Rightarrow> set_prev q (last_or xs None) h1 | None \<Rightarrow> h1)"
    have un: "seg h2 None (xs @ ys) None"
    proof (rule unlink_seg [OF inv(2,1)])
      show "h1 = (case prev_ptr (heap c a) of Some p \<Rightarrow> set_next p (next_ptr (heap c a)) (heap c) | None \<Rightarrow> heap c)"
        by (simp add: ptr h1_def last_or_snoc [OF False])
      show "h2 = (case next_ptr (heap c a) of Some q \<Rightarrow> set_prev q (prev_ptr (heap c a)) h1 | None \<Rightarrow> h1)"
        unfolding ptr h2_def by (rule refl)
    qed
    define c1 where "c1 = c\<lparr>heap := h2, lru_tail := last_or (xs @ ys) None\<rparr>"
    have eq: "lru_touch a c = link_front a c1"
    proof -
      have h1: "set_next (last xs) (next_ptr (heap c a)) (heap c) = h1" by (simp add: h1_def ptr)
      have "lru_touch a c = link_front a (case next_ptr (h1 a) of
          Some n \<Rightarrow> c\<lparr>heap := set_prev n (prev_ptr (h1 a)) h1\<rparr> | None \<Rightarrow> c\<lparr>heap := h1, lru_tail := prev_ptr (h1 a)\<rparr>)"
        unfolding lru_touch_def ptr(1) last_or_snoc [OF False] option.case h1 Let_def by (rule refl)
      also have "\<dots> = link_front a c1"
        using ha inv(4) last_or_snoc [OF False] by (cases c; cases ys) (simp_all add: h2_def c1_def)
      finally show ?thesis .
    qed
    have con: "node_key (h2 b) = node_key (heap c b)" "node_value (h2 b) = node_value (heap c b)" for b
      by (simp_all add: h2_def h1_def split: option.splits)
    have fr: "lru_front c1 = first_or (xs @ ys) None" using inv(3) False by (cases xs) (simp_all add: c1_def)
    have "seg (heap (link_front a c1)) None (a # xs @ ys) None"
      by (rule link_front_seg) (use un inv(1) fr in \<open>simp_all add: c1_def\<close>)
    moreover have "last_or (xs @ ys) None = last_or (xs @ ys) (Some a)" using False by (cases xs) simp_all
    ultimately have "cache_inv (link_front a c1) (a # xs @ ys)"
      using inv(1,5,6) by (auto simp: cache_inv_def c1_def con)
    then show ?thesis by (simp add: eq cache_entries_def c1_def con)
  qed
  then show "cache_inv (lru_touch a c) (a # xs @ ys)" "cache_entries (lru_touch a c) as = cache_entries c as" by auto
qed

lemma push_inv:
  assumes "cache_inv c as" "k \<notin> fst ` set (cache_entries c as)"
    and "c' = lru_push (fresh c) (c\<lparr>heap := (heap c)(fresh c := \<lparr>node_key = k, node_value = v, prev_ptr = None, next_ptr = None\<rparr>),
                            fresh := fresh c + 1\<rparr>)"
  shows "cache_inv c' (fresh c # as)" "cache_entries c' (fresh c # as) = (k, v) # cache_entries c as"
proof -
  let ?a = "fresh c"
  let ?h = "(heap c)(?a := \<lparr>node_key = k, node_value = v, prev_ptr = None, next_ptr = None\<rparr>)"
  have inv: "distinct as" "seg (heap c) None as None" "lru_front c = first_or as None" "lru_tail c = last_or as None"
    "\<forall>b\<in>set as. b < ?a" "\<forall>k b. searcher c k = Some b \<longleftrightarrow> b \<in> set as \<and> node_key (heap c b) = k"
    using assms(1) by (auto simp: cache_inv_def)
  have na: "?a \<notin> set as" using inv(5) by auto
  define c1 where "c1 = c\<lparr>heap := ?h, fresh := ?a + 1, lru_tail := last_or as (Some ?a)\<rparr>"
  have eq: "c' = (link_front ?a c1)\<lparr>searcher := (searcher c)(k \<mapsto> ?a)\<rparr>"
  proof -
    have "(if lru_tail c = None then c\<lparr>heap := ?h, fresh := ?a + 1, lru_tail := Some ?a\<rparr> else c\<lparr>heap := ?h, fresh := ?a + 1\<rparr>) = c1"
      using inv(4) by (cases c; cases as) (simp_all add: c1_def del: not_None_eq)
    then show ?thesis
      unfolding assms(3) lru_push_def Let_def by (simp add: c1_def)
  qed
  have sg: "seg ?h None as None"
    by (subst seg_frame [of as _ "heap c"]) (use inv(2) na in auto)
  have "seg (heap (link_front ?a c1)) None (?a # as) None"
    by (rule link_front_seg) (use sg inv(1,3) na in \<open>simp_all add: c1_def\<close>)
  moreover have other: "node_key (heap c b) \<noteq> k" if "b \<in> set as" for b
    using assms(2) that unfolding entry_keys by auto
  ultimately show "cache_inv c' (?a # as)"
    using inv(1,5,6) na by (auto simp: cache_inv_def eq c1_def less_Suc_eq)
  show "cache_entries c' (?a # as) = (k, v) # cache_entries c as"
    using na by (auto simp: cache_entries_def eq c1_def)
qed

lemma remove_inv:
  assumes "cache_inv c (xs @ a # ys)"
  shows "cache_inv (lru_remove a c) (xs @ ys)" "cache_entries (lru_remove a c) as = cache_entries c as"
proof -
  have inv: "distinct (xs @ a # ys)" "seg (heap c) None (xs @ a # ys) None"
    "lru_front c = first_or (xs @ a # ys) None" "lru_tail c = last_or (xs @ a # ys) None"
    "\<forall>b\<in>set (xs @ a # ys). b < fresh c"
    "\<forall>k b. searcher c k = Some b \<longleftrightarrow> b \<in> set (xs @ a # ys) \<and> node_key (heap c b) = k"
    using assms unfolding cache_inv_def by blast+
  have ptr: "prev_ptr (heap c a) = last_or xs None" "next_ptr (heap c a) = first_or ys None"
    using inv(2) by (auto simp: seg_append)
  let ?c = "lru_remove a c"
  have con: "node_key (heap ?c b) = node_key (heap c b)" "node_value (heap ?c b) = node_value (heap c b)" for b
    by (simp_all add: lru_remove_def Let_def split: option.splits)
  have sg: "seg (heap ?c) None (xs @ ys) None"
    by (rule unlink_seg [OF inv(2,1) refl]) (simp add: lru_remove_def Let_def)
  have fr: "lru_front ?c = first_or (xs @ ys) None"
    using inv(1,3) ptr by (cases xs) (auto simp: lru_remove_def Let_def)
  have la: "last_or zs p = Some b \<Longrightarrow> b \<in> set zs \<or> p = Some b" for zs p b
    by (induction zs arbitrary: p) auto
  have tl: "lru_tail ?c = last_or (xs @ ys) None"
  proof (cases "ys = []")
    case True
    then show ?thesis using inv(4) ptr by (simp add: lru_remove_def Let_def)
  next
    case False
    then have "last_or ys (Some a) = last_or ys (last_or xs None)" "last_or ys (Some a) \<noteq> Some a"
      using inv(1) last_in_set [OF False] by (auto simp: last_or_snoc)
    then show ?thesis using inv(4) by (simp add: lru_remove_def Let_def)
  qed
  have key: "node_key (heap c b) \<noteq> node_key (heap c a)" if "b \<in> set (xs @ ys)" for b
    using inv(1,6) that by (metis Un_iff distinct.simps(2) distinct_append insert_iff disjoint_iff list.simps(15) option.inject set_append)
  have se: "searcher ?c = (searcher c)(node_key (heap c a) := None)" "fresh ?c = fresh c"
    by (simp_all add: lru_remove_def Let_def)
  have "\<forall>k b. searcher ?c k = Some b \<longleftrightarrow> b \<in> set (xs @ ys) \<and> node_key (heap ?c b) = k"
    using inv(1,6) key by (auto simp: se con)
  then show "cache_inv ?c (xs @ ys)"
    using sg fr tl inv(1,5) by (simp add: cache_inv_def se(2))
  show "cache_entries ?c as = cache_entries c as" by (simp add: cache_entries_def con)
qed

section \<open>The cache as a list\<close>

lemma refines_keys:
  assumes "refines c xs"
  shows "distinct (map fst xs)"
proof -
  obtain as where inv: "cache_inv c as" and xs: "xs = cache_entries c as" using assms by (auto simp: refines_def)
  have "inj_on (\<lambda>a. node_key (heap c a)) (set as)"
    using inv by (auto simp: cache_inv_def inj_on_def) (metis option.inject)
  then show ?thesis using inv by (simp add: xs cache_entries_def cache_inv_def distinct_map o_def)
qed

lemma searcher_map_of:
  assumes "cache_inv c as"
  shows "map_of (cache_entries c as) k = map_option (\<lambda>a. node_value (heap c a)) (searcher c k)"
proof (cases "searcher c k")
  case None
  then have "k \<notin> fst ` set (cache_entries c as)" by (rule absent_key [OF assms])
  with None show ?thesis by (simp add: map_of_eq_None_iff)
next
  case (Some a)
  then have "(k, node_value (heap c a)) \<in> set (cache_entries c as)"
    using assms by (auto simp: cache_inv_def cache_entries_def)
  moreover have "distinct (map fst (cache_entries c as))" by (rule refines_keys) (use assms in \<open>auto simp: refines_def\<close>)
  ultimately show ?thesis using Some by simp
qed

lemma without_absent: "k \<notin> fst ` set xs \<Longrightarrow> without k xs = xs"
  unfolding without_def by (rule filter_True) (auto simp: image_iff)

lemma entries_without:
  assumes "cache_inv c (xs @ a # ys)" "node_key (heap c a) = k"
  shows "without k (cache_entries c (xs @ a # ys)) = cache_entries c (xs @ ys)"
proof -
  have "distinct (map fst (cache_entries c (xs @ a # ys)))"
    by (rule refines_keys) (use assms in \<open>auto simp: refines_def\<close>)
  then have "\<forall>b\<in>set (xs @ ys). node_key (heap c b) \<noteq> k" using assms(2)
    by (auto simp: cache_entries_def image_iff)
  then show ?thesis using assms(2) by (auto simp: without_def cache_entries_def filter_map o_def intro!: filter_True)
qed

lemma get_refines:
  assumes "refines c xs" "lru_get k c = (r, c')"
  shows "r = map_of xs k \<and> refines c' (case map_of xs k of None \<Rightarrow> xs | Some v \<Rightarrow> (k, v) # without k xs)"
proof -
  obtain as where inv: "cache_inv c as" and xs: "xs = cache_entries c as" using assms(1) by (auto simp: refines_def)
  note mo = searcher_map_of [OF inv, of k]
  show ?thesis
  proof (cases "searcher c k")
    case None
    then show ?thesis using assms mo xs by (auto simp: lru_get_def)
  next
    case (Some a)
    then have a: "a \<in> set as" "node_key (heap c a) = k" using inv by (auto simp: cache_inv_def)
    from split_list [OF a(1)] obtain ls rs where as: "as = ls @ a # rs" by blast
    note t = touch_inv [OF inv [unfolded as]]
    have ent: "cache_entries (lru_touch a c) (a # ls @ rs) = (k, node_value (heap c a)) # without k xs"
      using entries_without [OF inv [unfolded as] a(2)] a(2) xs as by (simp add: t(2)) (simp add: cache_entries_def)
    have "node_value (heap (lru_touch a c) a) = node_value (heap c a)"
      using t(2) [of "[a]"] by (simp add: cache_entries_def)
    then have "r = Some (node_value (heap c a))" "c' = lru_touch a c"
      using assms(2) Some by (auto simp: lru_get_def Let_def)
    moreover have "map_of xs k = Some (node_value (heap c a))" using mo Some xs by simp
    moreover have "refines (lru_touch a c) ((k, node_value (heap c a)) # without k xs)"
      using t(1) ent unfolding refines_def by metis
    ultimately show ?thesis by simp
  qed
qed

lemma put_refines:
  assumes "refines c xs"
  shows "refines (lru_put k v c) ((k, v) # without k xs)"
proof -
  obtain as where inv: "cache_inv c as" and xs: "xs = cache_entries c as" using assms by (auto simp: refines_def)
  show ?thesis
  proof (cases "searcher c k")
    case None
    then have k: "k \<notin> fst ` set (cache_entries c as)" by (rule absent_key [OF inv])
    then have "without k xs = xs" unfolding xs by (rule without_absent)
    moreover have "refines (lru_put k v c) ((k, v) # xs)"
      using push_inv [OF inv k refl, of v] None xs
      unfolding lru_put_def refines_def Let_def by auto
    ultimately show ?thesis by simp
  next
    case (Some a)
    then have a: "a \<in> set as" "node_key (heap c a) = k" using inv by (auto simp: cache_inv_def)
    from split_list [OF a(1)] obtain ls rs where as: "as = ls @ a # rs" by blast
    let ?c = "c\<lparr>heap := (heap c)(a := (heap c a)\<lparr>node_value := v\<rparr>)\<rparr>"
    have "seg (heap ?c) None as None"
      by (subst seg_frame [of as _ "heap c"]) (use inv in \<open>auto simp: cache_inv_def\<close>)
    then have inv': "cache_inv ?c (ls @ a # rs)"
      using inv as by (auto simp: cache_inv_def)
    note t = touch_inv [OF inv']
    have "a \<notin> set (ls @ rs)" using inv as by (auto simp: cache_inv_def)
    then have same: "cache_entries ?c (ls @ rs) = cache_entries c (ls @ rs)" by (auto simp: cache_entries_def)
    have "cache_entries (lru_touch a ?c) (a # ls @ rs) = (k, v) # without k xs"
      using entries_without [OF inv [unfolded as] a(2)] same a(2) xs as
      by (simp add: t(2)) (simp add: cache_entries_def)
    with t(1) Some show ?thesis by (auto simp: lru_put_def refines_def)
  qed
qed

lemma erase_refines:
  assumes "refines c xs"
  shows "refines (lru_erase k c) (without k xs)"
proof -
  obtain as where inv: "cache_inv c as" and xs: "xs = cache_entries c as" using assms by (auto simp: refines_def)
  show ?thesis
  proof (cases "searcher c k")
    case None
    then have "k \<notin> fst ` set (cache_entries c as)" by (rule absent_key [OF inv])
    then have "without k xs = xs" unfolding xs by (rule without_absent)
    with None assms show ?thesis by (simp add: lru_erase_def)
  next
    case (Some a)
    then have a: "a \<in> set as" "node_key (heap c a) = k" using inv by (auto simp: cache_inv_def)
    from split_list [OF a(1)] obtain ls rs where as: "as = ls @ a # rs" by blast
    note r = remove_inv [OF inv [unfolded as]]
    from entries_without [OF inv [unfolded as] a(2)] r Some xs as show ?thesis
      by (auto simp: lru_erase_def refines_def)
  qed
qed

lemma foreach_from_seg:
  "seg (heap c) p as None \<Longrightarrow> lru_foreach_from f c (first_or as None) s = Some (walk f (cache_entries c as) s)"
proof (induction as arbitrary: p s)
  case Nil
  then show ?case by (simp add: lru_foreach_from.simps cache_entries_def)
next
  case (Cons a as)
  then show ?case
    by (subst lru_foreach_from.simps) (auto simp: cache_entries_def split: prod.splits)
qed

lemma foreach_back_seg:
  "seg (heap c) None as n \<Longrightarrow> lru_foreach_back f c (last_or as None) s = Some (walk f (rev (cache_entries c as)) s)"
proof (induction as arbitrary: n s rule: rev_induct)
  case Nil
  then show ?case by (simp add: lru_foreach_back.simps cache_entries_def)
next
  case (snoc a as)
  then show ?case
    by (subst lru_foreach_back.simps) (auto simp: seg_append cache_entries_def split: prod.splits)
qed

lemma foreach_refines:
  assumes "refines c xs"
  shows "lru_foreach f c s = Some (walk f xs s)" "lru_foreach_reverse f c s = Some (walk f (rev xs) s)"
  using assms foreach_from_seg foreach_back_seg
  by (auto simp: refines_def cache_inv_def lru_foreach_def lru_foreach_reverse_def)

lemma empty_refines: "refines (lru_empty junk) []" "refines (lru_destroy c) []"
  by (simp_all add: refines_def cache_inv_def lru_empty_def lru_destroy_def cache_entries_def)

section \<open>The contract\<close>

locale mru_cache =
  fixes rel :: "'c \<Rightarrow> ('k \<times> 'v) list \<Rightarrow> bool"
    and get :: "'k \<Rightarrow> 'c \<Rightarrow> 'v option \<times> 'c" and put :: "'k \<Rightarrow> 'v \<Rightarrow> 'c \<Rightarrow> 'c" and erase :: "'k \<Rightarrow> 'c \<Rightarrow> 'c"
  assumes rel_keys: "rel c xs \<Longrightarrow> distinct (map fst xs)"
    and rel_get: "rel c xs \<Longrightarrow> get k c = (r, c') \<Longrightarrow>
      r = map_of xs k \<and> rel c' (case map_of xs k of None \<Rightarrow> xs | Some v \<Rightarrow> (k, v) # without k xs)"
    and rel_put: "rel c xs \<Longrightarrow> rel (put k v c) ((k, v) # without k xs)"
    and rel_erase: "rel c xs \<Longrightarrow> rel (erase k c) (without k xs)"
begin

lemma map_of_without: "map_of (without k xs) l = (if l = k then None else map_of xs l)"
  by (induction xs) (auto simp: without_def)

lemma get_after_put: "rel c xs \<Longrightarrow> fst (get l (put k v c)) = (if l = k then Some v else fst (get l c))"
  using rel_get [of "put k v c" "(k, v) # without k xs" l] rel_get [of c xs l] rel_put [of c xs k v]
  by (cases "get l (put k v c)"; cases "get l c") (auto simp: map_of_without)

lemma get_after_erase: "rel c xs \<Longrightarrow> fst (get l (erase k c)) = (if l = k then None else fst (get l c))"
  using rel_get [of "erase k c" "without k xs" l] rel_get [of c xs l] rel_erase [of c xs k]
  by (cases "get l (erase k c)"; cases "get l c") (auto simp: map_of_without)

lemma get_after_get: "rel c xs \<Longrightarrow> get k c = (r, c') \<Longrightarrow> fst (get l c') = fst (get l c)"
proof -
  assume c: "rel c xs" "get k c = (r, c')"
  obtain r1 c1 r2 c2 where g: "get l c = (r1, c1)" "get l c' = (r2, c2)" by fastforce
  have "r1 = map_of xs l" using rel_get [OF c(1) g(1)] by simp
  moreover have "r2 = map_of xs l"
    using rel_get [OF c] rel_get [OF _ g(2)] map_of_without [of k xs l] by (auto split: option.splits)
  ultimately show ?thesis using g by simp
qed

end

interpretation lru: mru_cache refines lru_get lru_put lru_erase
  by unfold_locales (rule refines_keys get_refines put_refines erase_refines; assumption)+

section \<open>Properties\<close>

text \<open>
  C35: The pointer implementation of the cache refines a most-recently-used list: every operation on a cache
  that represents \<open>xs\<close> gives one that represents the list operation's result, lookups return the list's
  value, and both traversals terminate and visit the entries in the list's order and in reverse.
\<close>

theorem lru_cache_refines:
  assumes "refines c xs" "lru_get k c = (r, c')"
  shows "r = map_of xs k \<and> refines c' (case map_of xs k of None \<Rightarrow> xs | Some v \<Rightarrow> (k, v) # without k xs)
    \<and> refines (lru_put k v c) ((k, v) # without k xs) \<and> refines (lru_erase k c) (without k xs)
    \<and> lru_foreach f c s = Some (walk f xs s) \<and> lru_foreach_reverse f c s = Some (walk f (rev xs) s)"
  by (intro conjI get_refines [OF assms, THEN conjunct1] get_refines [OF assms, THEN conjunct2]
      put_refines [OF assms(1)] erase_refines [OF assms(1)] foreach_refines [OF assms(1)])

text \<open>
  Read your writes: after a \<open>put\<close> the key has the new value and every other key the value it had; after
  a \<open>remove\<close> the key is absent and every other key has the value it had.
\<close>

lemma lru_cache_map:
  assumes "refines c xs"
  shows "fst (lru_get l (lru_put k v c)) = (if l = k then Some v else fst (lru_get l c))
    \<and> fst (lru_get l (lru_erase k c)) = (if l = k then None else fst (lru_get l c))"
  using lru.get_after_put [OF assms] lru.get_after_erase [OF assms] by blast

definition ex_cache :: "(nat, nat) lru" where
  "ex_cache = lru_put 2 20 (lru_put 1 10 (lru_empty \<lparr>node_key = 0, node_value = 0, prev_ptr = None, next_ptr = None\<rparr>))"

lemma ex_cache_refines: "refines ex_cache [(2, 20), (1, 10)]"
proof -
  have "refines ex_cache ((2, 20) # without 2 ((1, 10) # without 1 []))"
    unfolding ex_cache_def by (intro put_refines empty_refines)
  then show ?thesis by (simp add: without_def)
qed

theorem lru_cache_refines_witness:
  "\<exists>c'. lru_get 1 ex_cache = (Some 10, c') \<and> refines c' [(1, 10), (2, 20)]"
proof -
  obtain r c' where g: "lru_get 1 ex_cache = (r, c')" by force
  from lru_cache_refines [OF ex_cache_refines g, of 0 "\<lambda>_ _ s. (True, s)" "()"]
  have "r = Some 10" "refines c' [(1, 10), (2, 20)]" by (simp_all add: without_def)
  with g show ?thesis by blast
qed

end
