(* ===== verification/FrameManager.thy ===== *)
theory FrameManager
  imports LruCache
begin

text \<open>
  The frame manager of the buffer pool: page frames with their pin count and dirty flag
  (\<^verbatim>\<open>storage/buffer/frame.{h,cpp}\<close>), the memory pool the frames come from
  (\<^verbatim>\<open>deps/common/mm/mem_pool.h\<close>, \<open>MemPoolSimple\<close>) and \<open>BPFrameManager\<close>
  (\<^verbatim>\<open>storage/buffer/disk_buffer_pool.cpp\<close>), which finds the frame of a page in the LRU cache, takes a new one
  from the pool and evicts unpinned frames, least recently used first.

  Every frame manager operation runs under one mutex, so the operations are atomic steps here. A failed
  \<open>ASSERT\<close> ends the program in a debug build; it is the result \<open>None\<close>. Latches and access times are left out.
\<close>

section \<open>Frames\<close>

record Page =
  page_lsn :: LSN
  check_sum :: "32 word"
  data :: "byte list"

type_synonym FrameId = "int \<times> PageNum"

record Frame =
  frame_dirty :: bool
  pin_count :: int
  frame_id :: FrameId
  frame_page :: Page

definition can_purge :: "Frame \<Rightarrow> bool" where
  "can_purge f = (pin_count f = 0)"

definition pin :: "Frame \<Rightarrow> Frame" where
  "pin f = f\<lparr>pin_count := pin_count f + 1\<rparr>"

definition unpin :: "Frame \<Rightarrow> Frame option" where
  "unpin f = (if pin_count f > 0 then Some (f\<lparr>pin_count := pin_count f - 1\<rparr>) else None)"

section \<open>The memory pool\<close>

text \<open>The items of the pool are numbered in the order of their allocation from the system, which succeeds.\<close>

record MemPool =
  pool_dynamic :: bool
  item_num_per_pool :: nat
  pool_size :: nat
  used :: "addr set"
  frees :: "addr list"

definition mem_extend :: "MemPool \<Rightarrow> MemPool option" where
  "mem_extend mp =
     (if \<not> pool_dynamic mp then None
      else Some (mp\<lparr>pool_size := pool_size mp + item_num_per_pool mp,
                    frees := frees mp @ [pool_size mp..<pool_size mp + item_num_per_pool mp]\<rparr>))"

fun mem_extend_n :: "nat \<Rightarrow> MemPool \<Rightarrow> MemPool option" where
  "mem_extend_n 0 mp = Some mp"
| "mem_extend_n (Suc n) mp = Option.bind (mem_extend mp) (mem_extend_n n)"

definition mem_cleanup :: "MemPool \<Rightarrow> MemPool" where
  "mem_cleanup mp = mp\<lparr>used := {}, frees := [], pool_size := 0\<rparr>"

text \<open>The pool has been initialised before exactly when it has a size. The result is the return value.\<close>

definition mem_init :: "bool \<Rightarrow> int \<Rightarrow> int \<Rightarrow> MemPool \<Rightarrow> int \<times> MemPool" where
  "mem_init dyn pool_num per_pool mp =
     (if pool_size mp \<noteq> 0 then (0, mp)
      else if pool_num \<le> 0 \<or> per_pool \<le> 0 then (-1, mp)
      else (let mp1 = mp\<lparr>item_num_per_pool := nat per_pool, pool_dynamic := True\<rparr>
            in case mem_extend_n (nat pool_num) mp1 of
                 None \<Rightarrow> (-1, mem_cleanup mp1)
               | Some mp2 \<Rightarrow> (0, mp2\<lparr>pool_dynamic := dyn\<rparr>)))"

definition mem_alloc :: "MemPool \<Rightarrow> addr option \<times> MemPool" where
  "mem_alloc mp =
     (case (if frees mp = [] then mem_extend mp else Some mp) of
        None \<Rightarrow> (None, mp)
      | Some mp1 \<Rightarrow> (Some (hd (frees mp1)),
                     mp1\<lparr>frees := tl (frees mp1), used := insert (hd (frees mp1)) (used mp1)\<rparr>))"

definition mem_free :: "addr \<Rightarrow> MemPool \<Rightarrow> MemPool" where
  "mem_free a mp = (if a \<in> used mp then mp\<lparr>used := used mp - {a}, frees := frees mp @ [a]\<rparr> else mp)"

section \<open>The frame manager\<close>

record BPFrameManager =
  frames :: "(FrameId, addr) lru"
  memory :: "addr \<Rightarrow> Frame"
  allocator :: MemPool

definition on_frame :: "addr \<Rightarrow> (Frame \<Rightarrow> Frame) \<Rightarrow> BPFrameManager \<Rightarrow> BPFrameManager" where
  "on_frame a g m = m\<lparr>memory := (memory m)(a := g (memory m a))\<rparr>"

definition fm_init :: "int \<Rightarrow> BPFrameManager \<Rightarrow> RC \<times> BPFrameManager" where
  "fm_init pool_num m =
     (case mem_init False pool_num 128 (allocator m) of
        (ret, mp) \<Rightarrow> (if ret = 0 then SUCCESS else NOMEM, m\<lparr>allocator := mp\<rparr>))"

definition fm_cleanup :: "BPFrameManager \<Rightarrow> RC \<times> BPFrameManager" where
  "fm_cleanup m =
     (if card (dom (searcher (frames m))) > 0 then (INTERNAL, m)
      else (SUCCESS, m\<lparr>frames := lru_destroy (frames m)\<rparr>))"

definition get_internal :: "FrameId \<Rightarrow> BPFrameManager \<Rightarrow> addr option \<times> BPFrameManager" where
  "get_internal fid m =
     (case lru_get fid (frames m) of
        (None, c) \<Rightarrow> (None, m\<lparr>frames := c\<rparr>)
      | (Some a, c) \<Rightarrow> (Some a, on_frame a pin (m\<lparr>frames := c\<rparr>)))"

definition fm_get :: "int \<Rightarrow> PageNum \<Rightarrow> BPFrameManager \<Rightarrow> addr option \<times> BPFrameManager" where
  "fm_get buffer_pool_id pnum m = get_internal (buffer_pool_id, pnum) m"

definition fm_alloc :: "int \<Rightarrow> PageNum \<Rightarrow> BPFrameManager \<Rightarrow> (addr option \<times> BPFrameManager) option" where
  "fm_alloc buffer_pool_id pnum m =
     (case get_internal (buffer_pool_id, pnum) m of
        (Some a, m1) \<Rightarrow> Some (Some a, m1)
      | (None, m1) \<Rightarrow>
          (case mem_alloc (allocator m1) of
             (None, mp) \<Rightarrow> Some (None, m1\<lparr>allocator := mp\<rparr>)
           | (Some a, mp) \<Rightarrow>
               (if pin_count (memory m1 a) \<noteq> 0 then None
                else (let m2 = on_frame a (\<lambda>f. pin (f\<lparr>frame_id := (buffer_pool_id, pnum)\<rparr>)) (m1\<lparr>allocator := mp\<rparr>)
                      in Some (Some a, m2\<lparr>frames := lru_put (buffer_pool_id, pnum) a (frames m2)\<rparr>)))))"

definition free_internal :: "FrameId \<Rightarrow> addr \<Rightarrow> BPFrameManager \<Rightarrow> BPFrameManager option" where
  "free_internal fid a m =
     (case lru_get fid (frames m) of
        (frame_source, c) \<Rightarrow>
          (if frame_source = Some a \<and> pin_count (memory m a) = 1
           then (case unpin ((memory m a)\<lparr>frame_id := (fst (frame_id (memory m a)), -1)\<rparr>) of
                   None \<Rightarrow> None
                 | Some f \<Rightarrow> Some (m\<lparr>memory := (memory m)(a := f), frames := lru_erase fid c,
                                     allocator := mem_free a (allocator m)\<rparr>))
           else None))"

definition fm_free :: "int \<Rightarrow> PageNum \<Rightarrow> addr \<Rightarrow> BPFrameManager \<Rightarrow> BPFrameManager option" where
  "fm_free buffer_pool_id pnum a m = free_internal (buffer_pool_id, pnum) a m"

text \<open>The two visitors: they pin the frames they collect.\<close>

definition purge_finder :: "nat \<Rightarrow> FrameId \<Rightarrow> addr \<Rightarrow> (addr \<Rightarrow> Frame) \<times> addr list \<Rightarrow> bool \<times> (addr \<Rightarrow> Frame) \<times> addr list" where
  "purge_finder count fid a st =
     (case st of (mem, found) \<Rightarrow>
        (if can_purge (mem a) then
           (let mem' = mem(a := pin (mem a)); found' = found @ [a]
            in (\<not> length found' \<ge> count, mem', found'))
         else (True, mem, found)))"

definition fetcher :: "int \<Rightarrow> FrameId \<Rightarrow> addr \<Rightarrow> (addr \<Rightarrow> Frame) \<times> addr list \<Rightarrow> bool \<times> (addr \<Rightarrow> Frame) \<times> addr list" where
  "fetcher buffer_pool_id fid a st =
     (case st of (mem, found) \<Rightarrow>
        (True, if buffer_pool_id = fst fid then (mem(a := pin (mem a)), found @ [a]) else (mem, found)))"

definition find_list :: "int \<Rightarrow> BPFrameManager \<Rightarrow> (addr list \<times> BPFrameManager) option" where
  "find_list buffer_pool_id m =
     map_option (\<lambda>(mem, found). (found, m\<lparr>memory := mem\<rparr>))
       (lru_foreach (fetcher buffer_pool_id) (frames m) (memory m, []))"

text \<open>
  Eviction. The purger writes a dirty frame back; it works on the frame manager and on the rest of the
  store \<open>'w\<close>. \<open>purge_each\<close> is the loop over the frames found.
\<close>

type_synonym 'w purger = "addr \<Rightarrow> BPFrameManager \<Rightarrow> 'w \<Rightarrow> (RC \<times> BPFrameManager \<times> 'w) option"

fun purge_each :: "'w purger \<Rightarrow> addr list \<Rightarrow> nat \<Rightarrow> BPFrameManager \<Rightarrow> 'w \<Rightarrow> (nat \<times> BPFrameManager \<times> 'w) option" where
  "purge_each purger [] freed m w = Some (freed, m, w)"
| "purge_each purger (a # as) freed m w =
     (case purger a m w of
        None \<Rightarrow> None
      | Some (rc, m1, w1) \<Rightarrow>
          (if rc = SUCCESS
           then (case free_internal (frame_id (memory m1 a)) a m1 of
                   None \<Rightarrow> None
                 | Some m2 \<Rightarrow> purge_each purger as (Suc freed) m2 w1)
           else (case unpin (memory m1 a) of
                   None \<Rightarrow> None
                 | Some f \<Rightarrow> purge_each purger as freed (on_frame a (\<lambda>_. f) m1) w1)))"

definition purge_frames :: "int \<Rightarrow> 'w purger \<Rightarrow> BPFrameManager \<Rightarrow> 'w \<Rightarrow> (nat \<times> BPFrameManager \<times> 'w) option" where
  "purge_frames count purger m w =
     (let n = (if count \<le> 0 then 1 else nat count)
      in case lru_foreach_reverse (purge_finder n) (frames m) (memory m, []) of
           None \<Rightarrow> None
         | Some (mem, found) \<Rightarrow> purge_each purger found 0 (m\<lparr>memory := mem\<rparr>) w)"

section \<open>Invariant\<close>

text \<open>
  \<open>frames_ok m xs\<close>: the cache holds the pages \<open>xs\<close>, most recently used first, each in a frame of its own
  that knows its page; the used items of the pool are exactly these frames and the free ones are unpinned.
\<close>

definition frames_ok :: "BPFrameManager \<Rightarrow> (FrameId \<times> addr) list \<Rightarrow> bool" where
  "frames_ok m xs \<longleftrightarrow> refines (frames m) xs \<and> distinct (map snd xs) \<and> used (allocator m) = snd ` set xs
     \<and> distinct (frees (allocator m)) \<and> set (frees (allocator m)) \<inter> snd ` set xs = {}
     \<and> (\<forall>k a. (k, a) \<in> set xs \<longrightarrow> frame_id (memory m a) = k \<and> 0 \<le> pin_count (memory m a))
     \<and> (\<forall>a\<in>set (frees (allocator m)). pin_count (memory m a) = 0)
     \<and> length xs + length (frees (allocator m)) = pool_size (allocator m) \<and> \<not> pool_dynamic (allocator m)"

lemma frames_okD:
  assumes "frames_ok m xs"
  shows "refines (frames m) xs" "distinct (map snd xs)" "used (allocator m) = snd ` set xs"
    "distinct (frees (allocator m))" "set (frees (allocator m)) \<inter> snd ` set xs = {}"
    "(k, a) \<in> set xs \<Longrightarrow> frame_id (memory m a) = k" "(k, a) \<in> set xs \<Longrightarrow> 0 \<le> pin_count (memory m a)"
    "a \<in> set (frees (allocator m)) \<Longrightarrow> pin_count (memory m a) = 0" "\<not> pool_dynamic (allocator m)"
    "length xs + length (frees (allocator m)) = pool_size (allocator m)"
    "distinct (map fst xs)"
  using assms lru.rel_keys [of "frames m" xs] unfolding frames_ok_def by blast+

lemma without_sublist:
  "set (without k xs) \<subseteq> set xs" "distinct (map snd xs) \<Longrightarrow> distinct (map snd (without k xs))"
  by (auto simp: without_def distinct_map intro: inj_on_subset)

lemma set_without: "set (without k xs) = {e \<in> set xs. fst e \<noteq> k}"
  by (auto simp: without_def)

lemma front_set:
  assumes "distinct (map fst xs)" "map_of xs k = Some a"
  shows "set ((k, a) # without k xs) = set xs"
  using assms map_of_SomeD [OF assms(2)] by (auto simp: set_without) (metis map_of_is_SomeI option.inject)

lemma front_length:
  assumes "distinct (map fst xs)" "map_of xs k = Some a"
  shows "length ((k, a) # without k xs) = length xs" "distinct (map fst ((k, a) # without k xs))"
proof -
  show d: "distinct (map fst ((k, a) # without k xs))"
    using assms(1) by (auto simp: without_def distinct_map intro: inj_on_subset)
  have "length (map fst ((k, a) # without k xs)) = card (fst ` set ((k, a) # without k xs))"
    using distinct_card [OF d] by simp
  also have "\<dots> = length (map fst xs)" using distinct_card [OF assms(1)] front_set [OF assms] by simp
  finally show "length ((k, a) # without k xs) = length xs" by simp
qed

lemma distinct_snd_permute:
  assumes "distinct (map snd xs)" "set ys = set xs" "length ys = length xs"
  shows "distinct (map snd ys)"
proof (rule card_distinct)
  show "card (set (map snd ys)) = length (map snd ys)" using distinct_card [OF assms(1)] assms(2,3) by simp
qed

text \<open>Reordering the cache or changing pin counts keeps the invariant.\<close>

lemma frames_ok_permute:
  assumes "frames_ok m xs" "refines c ys" "set ys = set xs" "length ys = length xs"
  shows "frames_ok (m\<lparr>frames := c\<rparr>) ys"
  using assms distinct_snd_permute [of xs ys] unfolding frames_ok_def by simp

lemma frames_ok_memory:
  assumes "frames_ok m xs"
    and "\<And>k a. (k, a) \<in> set xs \<Longrightarrow> frame_id (mem a) = k \<and> 0 \<le> pin_count (mem a)"
    and "\<And>a. a \<notin> snd ` set xs \<Longrightarrow> mem a = memory m a"
  shows "frames_ok (m\<lparr>memory := mem\<rparr>) xs"
proof -
  have "\<forall>a\<in>set (frees (allocator m)). pin_count (mem a) = 0"
  proof
    fix a assume a: "a \<in> set (frees (allocator m))"
    then have "mem a = memory m a" using assms(3) frames_okD(5) [OF assms(1)] by blast
    with frames_okD(8) [OF assms(1) a] show "pin_count (mem a) = 0" by simp
  qed
  with assms(1,2) show ?thesis unfolding frames_ok_def by simp
qed

lemma frames_ok_on_frame:
  assumes "frames_ok m xs" "(k, a) \<in> set xs" "frame_id (g (memory m a)) = k" "0 \<le> pin_count (g (memory m a))"
  shows "frames_ok (on_frame a g m) xs"
  unfolding on_frame_def
proof (rule frames_ok_memory [OF assms(1)])
  fix l b assume lb: "(l, b) \<in> set xs"
  show "frame_id (((memory m)(a := g (memory m a))) b) = l \<and> 0 \<le> pin_count (((memory m)(a := g (memory m a))) b)"
  proof (cases "b = a")
    case True
    then have "l = k" using frames_okD(6) [OF assms(1)] lb assms(2) by metis
    with True assms(3,4) show ?thesis by simp
  next
    case False
    with frames_okD(6,7) [OF assms(1) lb] show ?thesis by simp
  qed
next
  fix b assume "b \<notin> snd ` set xs"
  then have "b \<noteq> a" using assms(2) by (metis image_eqI snd_conv)
  then show "((memory m)(a := g (memory m a))) b = memory m b" by simp
qed

section \<open>Lookup, allocation and release\<close>

lemma get_internal_hit:
  assumes "frames_ok m xs" "map_of xs fid = Some a"
  obtains m' where "get_internal fid m = (Some a, m')" "frames_ok m' ((fid, a) # without fid xs)"
    "memory m' = (memory m)(a := pin (memory m a))" "allocator m' = allocator m"
proof -
  obtain r c where g: "lru_get fid (frames m) = (r, c)" by force
  from get_refines [OF frames_okD(1) [OF assms(1)] g] assms(2)
  have r: "r = Some a" and c: "refines c ((fid, a) # without fid xs)" by simp_all
  note keys = frames_okD(11) [OF assms(1)]
  let ?ys = "(fid, a) # without fid xs"
  have ok: "frames_ok (m\<lparr>frames := c\<rparr>) ?ys"
    by (rule frames_ok_permute [OF assms(1) c front_set [OF keys assms(2)] front_length(1) [OF keys assms(2)]])
  have a: "frame_id (memory m a) = fid" "0 \<le> pin_count (memory m a)"
    using frames_okD(6,7) [OF assms(1) map_of_SomeD [OF assms(2)]] by simp_all
  have "frames_ok (on_frame a pin (m\<lparr>frames := c\<rparr>)) ?ys"
    by (rule frames_ok_on_frame [OF ok, of fid]) (use a in \<open>simp_all add: pin_def\<close>)
  with g r that show thesis by (simp add: get_internal_def on_frame_def)
qed

lemma get_internal_miss:
  assumes "frames_ok m xs" "map_of xs fid = None"
  obtains m' where "get_internal fid m = (None, m')" "frames_ok m' xs" "memory m' = memory m" "allocator m' = allocator m"
proof -
  obtain r c where g: "lru_get fid (frames m) = (r, c)" by force
  from get_refines [OF frames_okD(1) [OF assms(1)] g] assms(2)
  have r: "r = None" and c: "refines c xs" by simp_all
  from frames_ok_permute [OF assms(1) c refl refl] g r that show thesis by (simp add: get_internal_def)
qed

lemma fm_alloc_full:
  assumes "frames_ok m xs" "map_of xs (i, p) = None" "frees (allocator m) = []"
  obtains m' where "fm_alloc i p m = Some (None, m')" "frames_ok m' xs" "memory m' = memory m" "allocator m' = allocator m"
proof (rule get_internal_miss [OF assms(1,2)])
  fix m' assume m': "get_internal (i, p) m = (None, m')" "frames_ok m' xs" "memory m' = memory m" "allocator m' = allocator m"
  have "mem_alloc (allocator m') = (None, allocator m')"
    using assms(3) m'(4) frames_okD(9) [OF assms(1)] by (simp add: mem_alloc_def mem_extend_def)
  with m' have "fm_alloc i p m = Some (None, m')" by (simp add: fm_alloc_def)
  then show thesis by (rule that) (fact m'(2-4))+
qed

lemma fm_alloc_fresh:
  assumes "frames_ok m xs" "map_of xs (i, p) = None" "frees (allocator m) = a # fs"
  obtains m' where "fm_alloc i p m = Some (Some a, m')" "frames_ok m' (((i, p), a) # xs)" "a \<notin> snd ` set xs"
    "memory m' = (memory m)(a := pin ((memory m a)\<lparr>frame_id := (i, p)\<rparr>))"
    "frees (allocator m') = fs"
proof (rule get_internal_miss [OF assms(1,2)])
  fix m1 assume m1: "get_internal (i, p) m = (None, m1)" "frames_ok m1 xs" "memory m1 = memory m" "allocator m1 = allocator m"
  let ?mp = "(allocator m)\<lparr>frees := fs, used := insert a (used (allocator m))\<rparr>"
  have al: "mem_alloc (allocator m1) = (Some a, ?mp)" using assms(3) m1(4) by (simp add: mem_alloc_def)
  have a0: "pin_count (memory m1 a) = 0" using frames_okD(8) [OF assms(1), of a] assms(3) m1(3) by simp
  let ?mem = "(memory m)(a := pin ((memory m a)\<lparr>frame_id := (i, p)\<rparr>))"
  let ?m = "m1\<lparr>allocator := ?mp, memory := ?mem, frames := lru_put (i, p) a (frames m1)\<rparr>"
  have al1: "fm_alloc i p m = Some (Some a, ?m)" using m1 al a0 by (simp add: fm_alloc_def on_frame_def Let_def)
  have new: "a \<notin> snd ` set xs" using frames_okD(5) [OF assms(1)] assms(3) by auto
  have "(i, p) \<notin> fst ` set xs" using assms(2) by (simp add: map_of_eq_None_iff)
  then have "without (i, p) xs = xs" by (rule without_absent)
  then have ref: "refines (frames ?m) (((i, p), a) # xs)"
    using put_refines [OF frames_okD(1) [OF m1(2)], of "(i, p)" a] by simp
  have other: "b \<noteq> a" if "(k, b) \<in> set xs" for k b using that new by (metis image_eqI snd_conv)
  have fr: "a \<notin> set fs" "set fs \<inter> snd ` set xs = {}" "distinct fs"
    using frames_okD(4,5) [OF assms(1)] assms(3) by auto
  have "frames_ok ?m (((i, p), a) # xs)"
    unfolding frames_ok_def
  proof (intro conjI allI impI ballI)
    fix k b assume kb: "(k, b) \<in> set (((i, p), a) # xs)"
    consider "k = (i, p)" "b = a" | "(k, b) \<in> set xs" using kb by auto
    then show "frame_id (memory ?m b) = k" "0 \<le> pin_count (memory ?m b)"
      by (cases; use other frames_okD(6,7) [OF assms(1), of k b] a0 m1(3) in \<open>simp add: pin_def\<close>)+
  next
    fix b assume "b \<in> set (frees (allocator ?m))"
    then show "pin_count (memory ?m b) = 0" using fr(1) frames_okD(8) [OF assms(1), of b] assms(3) by auto
  next
    show "length (((i, p), a) # xs) + length (frees (allocator ?m)) = pool_size (allocator ?m)"
      using frames_okD(10) [OF assms(1)] assms(3) by simp
  qed (use ref new fr frames_okD(2,3,9) [OF assms(1)] in simp_all)
  from that [OF al1 this new] show thesis by simp
qed

lemma free_internal_ok:
  assumes "frames_ok m xs" "map_of xs fid = Some a" "pin_count (memory m a) = 1"
  obtains m' f where "free_internal fid a m = Some m'" "frames_ok m' (without fid xs)"
    "memory m' = (memory m)(a := f)" "frees (allocator m') = frees (allocator m) @ [a]"
proof -
  obtain r c where g: "lru_get fid (frames m) = (r, c)" by force
  from get_refines [OF frames_okD(1) [OF assms(1)] g] assms(2)
  have r: "r = Some a" and c: "refines c ((fid, a) # without fid xs)" by simp_all
  let ?f = "(memory m a)\<lparr>frame_id := (fst (frame_id (memory m a)), -1), pin_count := 0\<rparr>"
  let ?m = "m\<lparr>memory := (memory m)(a := ?f), frames := lru_erase fid c, allocator := mem_free a (allocator m)\<rparr>"
  have mem: "(fid, a) \<in> set xs" by (rule map_of_SomeD [OF assms(2)])
  have us: "a \<in> used (allocator m)" using mem frames_okD(3) [OF assms(1)] by (metis image_eqI snd_conv)
  have fr: "free_internal fid a m = Some ?m" using g r assms(3) by (simp add: free_internal_def unpin_def)
  have ww: "without fid (without fid xs) = without fid xs" by (simp add: without_def)
  have ref: "refines (lru_erase fid c) (without fid xs)"
    using erase_refines [OF c, of fid] ww by (simp add: without_def)
  note ok = frames_okD [OF assms(1)]
  have not_a: "a \<notin> snd ` set (without fid xs)"
    using front_length(2) [OF ok(11) assms(2)] distinct_snd_permute [OF ok(2) front_set [OF ok(11) assms(2)] front_length(1) [OF ok(11) assms(2)]]
    by simp
  have "snd ` set xs = insert a (snd ` set (without fid xs))"
    unfolding front_set [OF ok(11) assms(2), symmetric] by simp
  then have img: "snd ` set (without fid xs) = snd ` set xs - {a}" using not_a by (metis Diff_insert_absorb)
  have fre: "a \<notin> set (frees (allocator m))" using us ok(3,5) by auto
  have "frames_ok ?m (without fid xs)"
    unfolding frames_ok_def
  proof (intro conjI allI impI ballI)
    fix k b assume kb: "(k, b) \<in> set (without fid xs)"
    then have "b \<noteq> a" using not_a by (metis image_eqI snd_conv)
    then show "frame_id (memory ?m b) = k" "0 \<le> pin_count (memory ?m b)"
      using ok(6,7) [of k b] subsetD [OF without_sublist(1) kb] by simp_all
  next
    fix b assume "b \<in> set (frees (allocator ?m))"
    then show "pin_count (memory ?m b) = 0" using ok(8) [of b] us by (auto simp: mem_free_def)
  next
    show "length (without fid xs) + length (frees (allocator ?m)) = pool_size (allocator ?m)"
      using front_length(1) [OF ok(11) assms(2)] ok(10) us by (simp add: mem_free_def)
  next
    show "used (allocator ?m) = snd ` set (without fid xs)" using us ok(3) img by (simp add: mem_free_def)
  next
    show "set (frees (allocator ?m)) \<inter> snd ` set (without fid xs) = {}" using us ok(5) not_a img by (auto simp: mem_free_def)
  qed (use ref us fre ok(2,4,9) in \<open>simp_all add: mem_free_def without_sublist(2)\<close>)
  from that [OF fr this] us show thesis by (simp add: mem_free_def)
qed

section \<open>Eviction\<close>

text \<open>The visitor finds the least recently used unpinned frames, \<open>count\<close> of them at most, and pins them.\<close>

definition pin_all :: "addr list \<Rightarrow> (addr \<Rightarrow> Frame) \<Rightarrow> addr \<Rightarrow> Frame" where
  "pin_all vs mem a = (if a \<in> set vs then pin (mem a) else mem a)"

definition victims :: "nat \<Rightarrow> (addr \<Rightarrow> Frame) \<Rightarrow> (FrameId \<times> addr) list \<Rightarrow> addr list" where
  "victims count mem xs = take count (filter (\<lambda>a. can_purge (mem a)) (map snd (rev xs)))"

lemma pin_all_Nil [simp]: "pin_all [] mem = mem"
  by (simp add: pin_all_def fun_eq_iff)

lemma walk_purge_finder:
  assumes "distinct (map snd ys)" "length acc < n"
  shows "walk (purge_finder n) ys (mem, acc) =
    (let vs = take (n - length acc) (filter (\<lambda>a. can_purge (mem a)) (map snd ys)) in (pin_all vs mem, acc @ vs))"
  using assms
proof (induction ys arbitrary: mem acc)
  case (Cons y ys)
  obtain k a where y: "y = (k, a)" by (cases y)
  have d: "distinct (map snd ys)" "a \<notin> set (map snd ys)" using Cons.prems(1) y by auto
  show ?case
  proof (cases "can_purge (mem a)")
    case False
    then show ?thesis using Cons.IH [OF d(1) Cons.prems(2)] y by (simp add: purge_finder_def)
  next
    case True
    define mem' where "mem' = mem(a := pin (mem a))"
    have same: "filter (\<lambda>b. can_purge (mem' b)) (map snd ys) = filter (\<lambda>b. can_purge (mem b)) (map snd ys)"
      using d(2) by (intro filter_cong) (auto simp: mem'_def)
    obtain j where j: "n - length acc = Suc j" "n - Suc (length acc) = j" using Cons.prems(2) by (metis Suc_diff_Suc)
    let ?vs = "take j (filter (\<lambda>b. can_purge (mem b)) (map snd ys))"
    have "a \<notin> set ?vs" using d(2) by (meson filter_is_subset in_set_takeD subsetD)
    then have pins: "pin_all ?vs mem' = pin_all (a # ?vs) mem" by (auto simp: pin_all_def fun_eq_iff mem'_def)
    have f: "purge_finder n k a (mem, acc) = (Suc (length acc) < n, mem', acc @ [a])"
      using True by (auto simp: purge_finder_def mem'_def)
    show ?thesis
    proof (cases "Suc (length acc) < n")
      case more: True
      then show ?thesis
        using Cons.IH [OF d(1), of "acc @ [a]" mem'] True same j pins by (simp add: y f Let_def)
    next
      case False
      then have "j = 0" using j Cons.prems(2) by simp
      then show ?thesis using False True j pins by (simp add: y f Let_def)
    qed
  qed
qed simp

lemma find_victims:
  assumes "frames_ok m xs" "0 < n"
  shows "lru_foreach_reverse (purge_finder n) (frames m) (memory m, []) =
    Some (pin_all (victims n (memory m) xs) (memory m), victims n (memory m) xs)"
proof -
  have "distinct (map snd (rev xs))" using frames_okD(2) [OF assms(1)] by (simp add: rev_map [symmetric])
  from walk_purge_finder [OF this, of "[]" n "memory m"] assms(2)
  show ?thesis
    by (simp add: foreach_refines [OF frames_okD(1) [OF assms(1)]] victims_def Let_def)
qed

lemma victims_props:
  assumes "frames_ok m xs" "vs = victims n (memory m) xs"
  shows "set vs \<subseteq> snd ` set xs" "distinct vs" "a \<in> set vs \<Longrightarrow> pin_count (memory m a) = 0"
proof -
  show "set vs \<subseteq> snd ` set xs" unfolding assms(2) victims_def by (auto dest!: in_set_takeD)
  show "distinct vs" unfolding assms(2) victims_def
    using frames_okD(2) [OF assms(1)] by (simp add: rev_map [symmetric])
  show "a \<in> set vs \<Longrightarrow> pin_count (memory m a) = 0"
    unfolding assms(2) victims_def by (auto dest!: in_set_takeD simp: can_purge_def)
qed

lemma frames_ok_pin_all:
  assumes "frames_ok m xs" "set vs \<subseteq> snd ` set xs"
  shows "frames_ok (m\<lparr>memory := pin_all vs (memory m)\<rparr>) xs"
proof (rule frames_ok_memory [OF assms(1)])
  fix k a assume "(k, a) \<in> set xs"
  from frames_okD(6,7) [OF assms(1) this]
  show "frame_id (pin_all vs (memory m) a) = k \<and> 0 \<le> pin_count (pin_all vs (memory m) a)"
    by (simp add: pin_all_def pin_def)
qed (use assms(2) in \<open>auto simp: pin_all_def\<close>)

lemma walk_fetcher:
  assumes "distinct (map snd ys)"
  shows "walk (fetcher i) ys (mem, acc) =
    (let vs = map snd (filter (\<lambda>(k, a). fst k = i) ys) in (pin_all vs mem, acc @ vs))"
  using assms
proof (induction ys arbitrary: mem acc)
  case (Cons y ys)
  obtain k a where y: "y = (k, a)" by (cases y)
  define vs where "vs = map snd (filter (\<lambda>(k, a). fst k = i) ys)"
  define mem' where "mem' = mem(a := pin (mem a))"
  have "a \<notin> set vs" using Cons.prems y by (auto simp: vs_def)
  then have pins: "pin_all vs mem' = pin_all (a # vs) mem" by (auto simp: pin_all_def fun_eq_iff mem'_def)
  have f: "fetcher i k a (mem, acc) = (True, if i = fst k then (mem', acc @ [a]) else (mem, acc))"
    by (simp add: fetcher_def mem'_def)
  have d: "distinct (map snd ys)" using Cons.prems by simp
  show ?case
    using Cons.IH [OF d, folded vs_def, of mem' "acc @ [a]"] Cons.IH [OF d, folded vs_def, of mem acc] pins
    by (cases "fst k = i") (simp_all add: y f Let_def vs_def [symmetric])
qed simp

lemma find_list_ok:
  assumes "frames_ok m xs"
  obtains m' where "find_list i m = Some (map snd (filter (\<lambda>(k, a). fst k = i) xs), m')" "frames_ok m' xs"
    "memory m' = pin_all (map snd (filter (\<lambda>(k, a). fst k = i) xs)) (memory m)" "frames m' = frames m" "allocator m' = allocator m"
proof -
  let ?vs = "map snd (filter (\<lambda>(k, a). fst k = i) xs)"
  have "lru_foreach (fetcher i) (frames m) (memory m, []) = Some (pin_all ?vs (memory m), ?vs)"
    by (simp add: foreach_refines [OF frames_okD(1) [OF assms]] walk_fetcher [OF frames_okD(2) [OF assms]] Let_def)
  then have "find_list i m = Some (?vs, m\<lparr>memory := pin_all ?vs (memory m)\<rparr>)" by (simp add: find_list_def)
  moreover have "frames_ok (m\<lparr>memory := pin_all ?vs (memory m)\<rparr>) xs"
    by (rule frames_ok_pin_all [OF assms]) force
  ultimately show thesis using that by simp
qed

text \<open>The cached pages that remain when the frames \<open>G\<close> have been given back.\<close>

definition keep :: "addr set \<Rightarrow> (FrameId \<times> addr) list \<Rightarrow> (FrameId \<times> addr) list" where
  "keep G xs = filter (\<lambda>e. snd e \<notin> G) xs"

lemma without_keep:
  assumes "frames_ok m xs" "map_of xs fid = Some a"
  shows "without fid xs = keep {a} xs"
  unfolding without_def keep_def
proof (rule filter_cong [OF refl])
  fix e assume e: "e \<in> set xs"
  have a: "(fid, a) \<in> set xs" by (rule map_of_SomeD [OF assms(2)])
  obtain l b where lb: "e = (l, b)" by (cases e)
  have "l = fid \<Longrightarrow> b = a"
    using map_of_is_SomeI [OF frames_okD(11) [OF assms(1)] e [unfolded lb]] assms(2) by simp
  moreover have "b = a \<Longrightarrow> l = fid"
    using frames_okD(6) [OF assms(1) e [unfolded lb]] frames_okD(6) [OF assms(1) a] by simp
  ultimately show "(case e of (k', v) \<Rightarrow> k' \<noteq> fid) = (snd e \<notin> {a})" unfolding lb by auto
qed

lemma map_of_without_upd: "map_of (without fid xs) = (map_of xs)(fid := None)"
  by (rule ext) (simp add: lru.map_of_without)

lemma keyed:
  assumes "frames_ok m xs" "map_of xs l = Some b"
  shows "frame_id (memory m b) = l"
  using frames_okD(6) [OF assms(1) map_of_SomeD [OF assms(2)]] .

text \<open>
  The contract between the frame manager and the purger its client passes in. The purger works on one
  frame, keeps its page and its pin count, and keeps the client's invariant \<open>J\<close> on the cached pages, their
  frames and the rest of the store; when it succeeds, \<open>J\<close> also allows the frame to be dropped. \<open>J\<close> does not
  depend on pin counts.
\<close>

locale frame_purger =
  fixes purger :: "'w purger"
    and J :: "(FrameId \<Rightarrow> addr option) \<Rightarrow> (addr \<Rightarrow> Frame) \<Rightarrow> 'w \<Rightarrow> bool"
  assumes touches: "purger a m w = Some (rc, m', w') \<Longrightarrow> \<exists>f. m' = m\<lparr>memory := (memory m)(a := f)\<rparr>
      \<and> frame_id f = frame_id (memory m a) \<and> pin_count f = pin_count (memory m a)"
    and pins: "J k mem w \<Longrightarrow> (\<And>a. mem' a = (mem a)\<lparr>pin_count := pin_count (mem' a)\<rparr>) \<Longrightarrow> J k mem' w"
    and runs: "J k (memory m) w \<Longrightarrow> (\<And>l b. k l = Some b \<Longrightarrow> frame_id (memory m b) = l) \<Longrightarrow> k fid = Some a \<Longrightarrow>
      \<exists>rc m' w'. purger a m w = Some (rc, m', w')"
    and flushed: "J k (memory m) w \<Longrightarrow> (\<And>l b. k l = Some b \<Longrightarrow> frame_id (memory m b) = l) \<Longrightarrow> k fid = Some a \<Longrightarrow>
      purger a m w = Some (rc, m', w') \<Longrightarrow> J k (memory m') w'"
    and dropped: "J k (memory m) w \<Longrightarrow> (\<And>l b. k l = Some b \<Longrightarrow> frame_id (memory m b) = l) \<Longrightarrow> k fid = Some a \<Longrightarrow>
      purger a m w = Some (SUCCESS, m', w') \<Longrightarrow> J (k(fid := None)) ((memory m')(a := f)) w'"
begin

lemma purge_one:
  assumes ok: "frames_ok m xs" and J: "J (map_of xs) (memory m) w"
    and a: "a \<in> snd ` set xs" "pin_count (memory m a) = 1" and p: "purger a m w = Some (rc, m1, w1)"
  obtains m2 where
    "if rc = SUCCESS then free_internal (frame_id (memory m1 a)) a m1 = Some m2
     else \<exists>f. unpin (memory m1 a) = Some f \<and> m2 = on_frame a (\<lambda>_. f) m1"
    "frames_ok m2 (if rc = SUCCESS then keep {a} xs else xs)"
    "J (map_of (if rc = SUCCESS then keep {a} xs else xs)) (memory m2) w1"
    "\<forall>b. b \<noteq> a \<longrightarrow> memory m2 b = memory m b" "rc \<noteq> SUCCESS \<longrightarrow> pin_count (memory m2 a) = 0"
    "pool_size (allocator m2) = pool_size (allocator m)"
proof -
  obtain fid where fid: "(fid, a) \<in> set xs" using a(1) by force
  have mo: "map_of xs fid = Some a" by (rule map_of_is_SomeI [OF frames_okD(11) [OF ok] fid])
  obtain f where m1: "m1 = m\<lparr>memory := (memory m)(a := f)\<rparr>" and f: "frame_id f = frame_id (memory m a)" "pin_count f = 1"
    using touches [OF p] a(2) by auto
  have idf: "frame_id f = fid" using f(1) keyed [OF ok mo] by simp
  have ok1: "frames_ok m1 xs"
    using frames_ok_on_frame [OF ok fid, of "\<lambda>_. f"] idf f(2) by (simp add: m1 on_frame_def)
  have a1: "pin_count (memory m1 a) = 1" "memory m1 a = f" using f by (simp_all add: m1)
  have J1: "J (map_of xs) (memory m1) w1" by (rule flushed [OF J keyed [OF ok] mo p]) assumption
  show thesis
  proof (cases "rc = SUCCESS")
    case True
    obtain m2 g where m2: "free_internal fid a m1 = Some m2" "frames_ok m2 (without fid xs)" "memory m2 = (memory m1)(a := g)"
      "frees (allocator m2) = frees (allocator m1) @ [a]"
      by (rule free_internal_ok [OF ok1 mo a1(1)])
    have "J ((map_of xs)(fid := None)) ((memory m1)(a := g)) w1"
      by (rule dropped [OF J keyed [OF ok] mo p [unfolded True]]) assumption
    moreover have "pool_size (allocator m2) = pool_size (allocator m)"
      using frames_okD(10) [OF m2(2)] frames_okD(10) [OF ok1] m2(4) front_length(1) [OF frames_okD(11) [OF ok] mo] m1 by simp
    ultimately show thesis
      using that [of m2] True m2 a1(2) idf m1 without_keep [OF ok mo] map_of_without_upd [of fid xs] by simp
  next
    case False
    let ?m = "on_frame a (\<lambda>_. f\<lparr>pin_count := 0\<rparr>) m1"
    have u: "unpin (memory m1 a) = Some (f\<lparr>pin_count := 0\<rparr>)" using a1 by (simp add: unpin_def)
    have ok2: "frames_ok ?m xs" by (rule frames_ok_on_frame [OF ok1 fid]) (simp_all add: idf)
    have "J (map_of xs) (memory ?m) w1" by (rule pins [OF J1]) (simp add: on_frame_def m1)
    with u ok2 False that [of ?m] show thesis by (simp add: on_frame_def m1)
  qed
qed

lemma purge_each_ok:
  assumes "frames_ok m xs" "J (map_of xs) (memory m) w" "distinct vs"
    and "set vs \<subseteq> snd ` set xs" "\<forall>a\<in>set vs. pin_count (memory m a) = 1"
  shows "\<exists>G m' w'. purge_each purger vs freed m w = Some (freed + card G, m', w') \<and> G \<subseteq> set vs
    \<and> frames_ok m' (keep G xs) \<and> J (map_of (keep G xs)) (memory m') w'
    \<and> (\<forall>b. b \<notin> set vs \<longrightarrow> memory m' b = memory m b) \<and> (\<forall>b\<in>set vs - G. pin_count (memory m' b) = 0)
    \<and> pool_size (allocator m') = pool_size (allocator m)
    \<and> (vs \<noteq> [] \<and> (\<exists>m1 w1. purger (hd vs) m w = Some (SUCCESS, m1, w1)) \<longrightarrow> hd vs \<in> G)"
  using assms
proof (induction vs arbitrary: m xs w freed)
  case Nil
  have "keep {} xs = xs" by (simp add: keep_def)
  then show ?case using Nil by (intro exI [of _ "{}"]) simp
next
  case (Cons a vs)
  have a: "a \<in> snd ` set xs" "pin_count (memory m a) = 1" using Cons.prems(4,5) by simp_all
  obtain fid where "(fid, a) \<in> set xs" using a(1) by force
  then have mo: "map_of xs fid = Some a" by (rule map_of_is_SomeI [OF frames_okD(11) [OF Cons.prems(1)]])
  obtain rc m1 w1 where p: "purger a m w = Some (rc, m1, w1)"
    using runs [OF Cons.prems(2) keyed [OF Cons.prems(1)] mo] by blast
  obtain m2 where m2: "if rc = SUCCESS then free_internal (frame_id (memory m1 a)) a m1 = Some m2
       else \<exists>f. unpin (memory m1 a) = Some f \<and> m2 = on_frame a (\<lambda>_. f) m1"
    "frames_ok m2 (if rc = SUCCESS then keep {a} xs else xs)"
    "J (map_of (if rc = SUCCESS then keep {a} xs else xs)) (memory m2) w1"
    "\<forall>b. b \<noteq> a \<longrightarrow> memory m2 b = memory m b" "rc \<noteq> SUCCESS \<longrightarrow> pin_count (memory m2 a) = 0"
    "pool_size (allocator m2) = pool_size (allocator m)"
    by (rule purge_one [OF Cons.prems(1,2) a p])
  define ys where "ys = (if rc = SUCCESS then keep {a} xs else xs)"
  define k where "k = (if rc = SUCCESS then 1 else 0 :: nat)"
  have step: "purge_each purger (a # vs) freed m w = purge_each purger vs (freed + k) m2 w1"
    using p m2(1) by (cases "rc = SUCCESS") (auto simp: k_def)
  have vs: "set vs \<subseteq> snd ` set ys" "\<forall>b\<in>set vs. pin_count (memory m2 b) = 1"
  proof -
    have na: "a \<notin> set vs" using Cons.prems(3) by simp
    show "set vs \<subseteq> snd ` set ys"
    proof
      fix b assume b: "b \<in> set vs"
      then have "b \<noteq> a" "b \<in> snd ` set xs" using na Cons.prems(4) by auto
      then show "b \<in> snd ` set ys" by (auto simp: ys_def keep_def)
    qed
    show "\<forall>b\<in>set vs. pin_count (memory m2 b) = 1"
    proof
      fix b assume b: "b \<in> set vs"
      then have "memory m2 b = memory m b" using na m2(4) by metis
      with b Cons.prems(5) show "pin_count (memory m2 b) = 1" by simp
    qed
  qed
  have "distinct vs" using Cons.prems(3) by simp
  from Cons.IH [OF m2(2,3) [folded ys_def] this vs, of "freed + k"]
  obtain G m' w' where G: "purge_each purger vs (freed + k) m2 w1 = Some (freed + k + card G, m', w')" "G \<subseteq> set vs"
    "frames_ok m' (keep G ys)" "J (map_of (keep G ys)) (memory m') w'"
    "\<forall>b. b \<notin> set vs \<longrightarrow> memory m' b = memory m2 b" "\<forall>b\<in>set vs - G. pin_count (memory m' b) = 0"
    "pool_size (allocator m') = pool_size (allocator m2)"
    by (elim exE conjE)
  define H where "H = (if rc = SUCCESS then insert a G else G)"
  have aG: "a \<notin> G" "finite G" using G(2) Cons.prems(3) finite_subset [OF G(2)] by auto
  have H: "keep H xs = keep G ys" "card H = k + card G" "H \<subseteq> set (a # vs)"
    using aG G(2) by (auto simp: H_def ys_def keep_def k_def intro!: filter_cong)
  have "memory m' a = memory m2 a" using G(5) Cons.prems(3) by simp
  then have rest: "\<forall>b\<in>set (a # vs) - H. pin_count (memory m' b) = 0"
    using G(6) m2(5) aG by (auto simp: H_def)
  have other: "\<forall>b. b \<notin> set (a # vs) \<longrightarrow> memory m' b = memory m b" using G(5) m2(4) by simp
  have "(\<exists>m1 w1. purger a m w = Some (SUCCESS, m1, w1)) \<longrightarrow> a \<in> H" using p by (simp add: H_def)
  with G(1,3,4,7) H rest other step m2(6) show ?case
    by (intro exI [of _ H] exI [of _ m'] exI [of _ w']) (simp add: add.assoc)
qed

lemma purge_frames_ok:
  assumes ok: "frames_ok m xs" and J: "J (map_of xs) (memory m) w"
    and vs: "vs = victims (if count \<le> 0 then 1 else nat count) (memory m) xs"
  shows "\<exists>G m' w'. purge_frames count purger m w = Some (card G, m', w') \<and> G \<subseteq> set vs
    \<and> frames_ok m' (keep G xs) \<and> J (map_of (keep G xs)) (memory m') w'
    \<and> (\<forall>b. b \<notin> set vs \<longrightarrow> memory m' b = memory m b) \<and> (\<forall>b\<in>set vs - G. pin_count (memory m' b) = 0)
    \<and> pool_size (allocator m') = pool_size (allocator m)
    \<and> (vs \<noteq> [] \<and> (\<exists>m1 w1. purger (hd vs) (m\<lparr>memory := pin_all vs (memory m)\<rparr>) w = Some (SUCCESS, m1, w1)) \<longrightarrow> hd vs \<in> G)"
proof -
  let ?n = "if count \<le> 0 then 1 else nat count" and ?m = "m\<lparr>memory := pin_all vs (memory m)\<rparr>"
  note v = victims_props [OF ok vs]
  have ok1: "frames_ok ?m xs" by (rule frames_ok_pin_all [OF ok v(1)])
  have J1: "J (map_of xs) (memory ?m) w" by (rule pins [OF J]) (simp add: pin_all_def pin_def)
  have p1: "\<forall>a\<in>set vs. pin_count (memory ?m a) = 1" using v(3) by (simp add: pin_all_def pin_def)
  have "purge_frames count purger m w = purge_each purger vs 0 ?m w"
    using find_victims [OF ok, of ?n] vs by (simp add: purge_frames_def Let_def)
  then show ?thesis
    using purge_each_ok [OF ok1 J1 v(2,1) p1, of 0] by (simp add: pin_all_def)
qed

end

section \<open>Start-up and properties\<close>

lemma mem_extend_n_ok:
  assumes "pool_dynamic mp" "frees mp = [0..<pool_size mp]"
  shows "\<exists>mp'. mem_extend_n n mp = Some mp' \<and> pool_dynamic mp' \<and> used mp' = used mp
    \<and> pool_size mp' = pool_size mp + n * item_num_per_pool mp \<and> frees mp' = [0..<pool_size mp']"
  using assms
proof (induction n arbitrary: mp)
  case (Suc n)
  define mp1 where "mp1 = mp\<lparr>pool_size := pool_size mp + item_num_per_pool mp,
    frees := frees mp @ [pool_size mp..<pool_size mp + item_num_per_pool mp]\<rparr>"
  have e: "mem_extend mp = Some mp1" using Suc.prems(1) by (simp add: mem_extend_def mp1_def)
  have mp1: "pool_dynamic mp1" "frees mp1 = [0..<pool_size mp1]" "used mp1 = used mp"
    "pool_size mp1 = pool_size mp + item_num_per_pool mp" "item_num_per_pool mp1 = item_num_per_pool mp"
    using Suc.prems upt_add_eq_append [of 0 "pool_size mp" "item_num_per_pool mp"] by (simp_all add: mp1_def)
  from Suc.IH [OF mp1(1,2)] mp1(3-5) e show ?case by auto
qed simp

definition fm_new :: "(FrameId, addr) ListNode \<Rightarrow> Frame \<Rightarrow> BPFrameManager" where
  "fm_new junk f = \<lparr>frames = lru_empty junk, memory = (\<lambda>_. f\<lparr>pin_count := 0\<rparr>),
     allocator = \<lparr>pool_dynamic = True, item_num_per_pool = 0, pool_size = 0, used = {}, frees = []\<rparr>\<rparr>"

lemma fm_init_ok:
  assumes "0 < n"
  obtains m where "fm_init n (fm_new junk f) = (SUCCESS, m)" "frames_ok m []" "pool_size (allocator m) = nat n * 128"
    "frees (allocator m) = [0..<nat n * 128]" "memory m = (\<lambda>_. f\<lparr>pin_count := 0\<rparr>)"
proof -
  let ?mp = "(allocator (fm_new junk f))\<lparr>item_num_per_pool := 128, pool_dynamic := True\<rparr>"
  obtain mp where mp: "mem_extend_n (nat n) ?mp = Some mp" "used mp = {}" "pool_size mp = nat n * 128" "frees mp = [0..<pool_size mp]"
    using mem_extend_n_ok [of ?mp "nat n"] by (auto simp: fm_new_def)
  let ?m = "(fm_new junk f)\<lparr>allocator := mp\<lparr>pool_dynamic := False\<rparr>\<rparr>"
  have "fm_init n (fm_new junk f) = (SUCCESS, ?m)"
    using assms mp(1) by (simp add: fm_init_def mem_init_def fm_new_def Let_def)
  moreover have "frames_ok ?m []"
    using mp empty_refines by (simp add: frames_ok_def fm_new_def)
  ultimately show thesis using that mp by (simp add: fm_new_def)
qed

text \<open>
  Allocating a frame keeps the frame manager's invariant and never aborts. A cached page gets its own
  frame, pinned once more. A page that is not cached gets a free frame, one that holds no other page, pinned
  once; when no frame is free nothing changes. No other frame is touched.
\<close>

lemma frame_alloc_spec:
  assumes "frames_ok m xs"
  shows "\<exists>r m' ys. fm_alloc i p m = Some (r, m') \<and> frames_ok m' ys \<and>
    (case map_of xs (i, p) of
       Some a \<Rightarrow> r = Some a \<and> memory m' = (memory m)(a := pin (memory m a)) \<and> set ys = set xs
     | None \<Rightarrow>
         if frees (allocator m) = [] then r = None \<and> memory m' = memory m \<and> ys = xs
         else \<exists>a. r = Some a \<and> a \<notin> snd ` set xs \<and> ys = ((i, p), a) # xs \<and> pin_count (memory m' a) = 1
                \<and> frame_id (memory m' a) = (i, p) \<and> (\<forall>b. b \<noteq> a \<longrightarrow> memory m' b = memory m b))"
proof (cases "map_of xs (i, p)")
  case (Some a)
  obtain m' where "get_internal (i, p) m = (Some a, m')" "frames_ok m' (((i, p), a) # without (i, p) xs)"
    "memory m' = (memory m)(a := pin (memory m a))"
    by (rule get_internal_hit [OF assms Some])
  with Some front_set [OF frames_okD(11) [OF assms] Some] show ?thesis
    by (intro exI [of _ "Some a"] exI [of _ m'] exI [of _ "((i, p), a) # without (i, p) xs"]) (simp add: fm_alloc_def)
next
  case None
  show ?thesis
  proof (cases "frees (allocator m)")
    case Nil
    obtain m' where "fm_alloc i p m = Some (None, m')" "frames_ok m' xs" "memory m' = memory m"
      by (rule fm_alloc_full [OF assms None Nil])
    with None Nil show ?thesis by simp
  next
    case (Cons a fs)
    obtain m' where m': "fm_alloc i p m = Some (Some a, m')" "frames_ok m' (((i, p), a) # xs)" "a \<notin> snd ` set xs"
      "memory m' = (memory m)(a := pin ((memory m a)\<lparr>frame_id := (i, p)\<rparr>))"
      by (rule fm_alloc_fresh [OF assms None Cons])
    have "pin_count (memory m a) = 0" using frames_okD(8) [OF assms, of a] Cons by simp
    then have "pin_count (memory m' a) = 1" "frame_id (memory m' a) = (i, p)" by (simp_all add: m'(4) pin_def)
    with None Cons m' show ?thesis by simp
  qed
qed

definition ex_frame :: Frame where
  "ex_frame = \<lparr>frame_dirty = False, pin_count = 0, frame_id = (-1, -1), frame_page = \<lparr>page_lsn = 0, check_sum = 0, data = []\<rparr>\<rparr>"

definition ex_fm :: BPFrameManager where
  "ex_fm = snd (fm_init 1 (fm_new \<lparr>node_key = (0, 0), node_value = 0, prev_ptr = None, next_ptr = None\<rparr> ex_frame))"

lemma ex_fm_ok: "frames_ok ex_fm []" "frees (allocator ex_fm) = [0..<128]" "memory ex_fm = (\<lambda>_. ex_frame)"
  by (rule fm_init_ok [of 1 "\<lparr>node_key = (0, 0), node_value = 0, prev_ptr = None, next_ptr = None\<rparr>" ex_frame];
      simp add: ex_fm_def ex_frame_def)+

end
