(* ===== verification/Crc.thy ===== *)
theory Crc
  imports Prelude
begin

text \<open>
  The page checksum \<open>crc32\<close> (\<^verbatim>\<open>deps/common/math/crc.cpp\<close>), driven by a table of 256 entries. The table is shown
  to be the one of the reflected CRC-32 polynomial, and the checksum to notice every change of a single byte,
  whatever the rest of the page holds.
\<close>

section \<open>The code\<close>

definition crc_table :: "32 word list" where
  "crc_table =
    [0x00000000, 0x77073096, 0xEE0E612C, 0x990951BA, 0x076DC419, 0x706AF48F,
     0xE963A535, 0x9E6495A3, 0x0EDB8832, 0x79DCB8A4, 0xE0D5E91E, 0x97D2D988,
     0x09B64C2B, 0x7EB17CBD, 0xE7B82D07, 0x90BF1D91, 0x1DB71064, 0x6AB020F2,
     0xF3B97148, 0x84BE41DE, 0x1ADAD47D, 0x6DDDE4EB, 0xF4D4B551, 0x83D385C7,
     0x136C9856, 0x646BA8C0, 0xFD62F97A, 0x8A65C9EC, 0x14015C4F, 0x63066CD9,
     0xFA0F3D63, 0x8D080DF5, 0x3B6E20C8, 0x4C69105E, 0xD56041E4, 0xA2677172,
     0x3C03E4D1, 0x4B04D447, 0xD20D85FD, 0xA50AB56B, 0x35B5A8FA, 0x42B2986C,
     0xDBBBC9D6, 0xACBCF940, 0x32D86CE3, 0x45DF5C75, 0xDCD60DCF, 0xABD13D59,
     0x26D930AC, 0x51DE003A, 0xC8D75180, 0xBFD06116, 0x21B4F4B5, 0x56B3C423,
     0xCFBA9599, 0xB8BDA50F, 0x2802B89E, 0x5F058808, 0xC60CD9B2, 0xB10BE924,
     0x2F6F7C87, 0x58684C11, 0xC1611DAB, 0xB6662D3D, 0x76DC4190, 0x01DB7106,
     0x98D220BC, 0xEFD5102A, 0x71B18589, 0x06B6B51F, 0x9FBFE4A5, 0xE8B8D433,
     0x7807C9A2, 0x0F00F934, 0x9609A88E, 0xE10E9818, 0x7F6A0DBB, 0x086D3D2D,
     0x91646C97, 0xE6635C01, 0x6B6B51F4, 0x1C6C6162, 0x856530D8, 0xF262004E,
     0x6C0695ED, 0x1B01A57B, 0x8208F4C1, 0xF50FC457, 0x65B0D9C6, 0x12B7E950,
     0x8BBEB8EA, 0xFCB9887C, 0x62DD1DDF, 0x15DA2D49, 0x8CD37CF3, 0xFBD44C65,
     0x4DB26158, 0x3AB551CE, 0xA3BC0074, 0xD4BB30E2, 0x4ADFA541, 0x3DD895D7,
     0xA4D1C46D, 0xD3D6F4FB, 0x4369E96A, 0x346ED9FC, 0xAD678846, 0xDA60B8D0,
     0x44042D73, 0x33031DE5, 0xAA0A4C5F, 0xDD0D7CC9, 0x5005713C, 0x270241AA,
     0xBE0B1010, 0xC90C2086, 0x5768B525, 0x206F85B3, 0xB966D409, 0xCE61E49F,
     0x5EDEF90E, 0x29D9C998, 0xB0D09822, 0xC7D7A8B4, 0x59B33D17, 0x2EB40D81,
     0xB7BD5C3B, 0xC0BA6CAD, 0xEDB88320, 0x9ABFB3B6, 0x03B6E20C, 0x74B1D29A,
     0xEAD54739, 0x9DD277AF, 0x04DB2615, 0x73DC1683, 0xE3630B12, 0x94643B84,
     0x0D6D6A3E, 0x7A6A5AA8, 0xE40ECF0B, 0x9309FF9D, 0x0A00AE27, 0x7D079EB1,
     0xF00F9344, 0x8708A3D2, 0x1E01F268, 0x6906C2FE, 0xF762575D, 0x806567CB,
     0x196C3671, 0x6E6B06E7, 0xFED41B76, 0x89D32BE0, 0x10DA7A5A, 0x67DD4ACC,
     0xF9B9DF6F, 0x8EBEEFF9, 0x17B7BE43, 0x60B08ED5, 0xD6D6A3E8, 0xA1D1937E,
     0x38D8C2C4, 0x4FDFF252, 0xD1BB67F1, 0xA6BC5767, 0x3FB506DD, 0x48B2364B,
     0xD80D2BDA, 0xAF0A1B4C, 0x36034AF6, 0x41047A60, 0xDF60EFC3, 0xA867DF55,
     0x316E8EEF, 0x4669BE79, 0xCB61B38C, 0xBC66831A, 0x256FD2A0, 0x5268E236,
     0xCC0C7795, 0xBB0B4703, 0x220216B9, 0x5505262F, 0xC5BA3BBE, 0xB2BD0B28,
     0x2BB45A92, 0x5CB36A04, 0xC2D7FFA7, 0xB5D0CF31, 0x2CD99E8B, 0x5BDEAE1D,
     0x9B64C2B0, 0xEC63F226, 0x756AA39C, 0x026D930A, 0x9C0906A9, 0xEB0E363F,
     0x72076785, 0x05005713, 0x95BF4A82, 0xE2B87A14, 0x7BB12BAE, 0x0CB61B38,
     0x92D28E9B, 0xE5D5BE0D, 0x7CDCEFB7, 0x0BDBDF21, 0x86D3D2D4, 0xF1D4E242,
     0x68DDB3F8, 0x1FDA836E, 0x81BE16CD, 0xF6B9265B, 0x6FB077E1, 0x18B74777,
     0x88085AE6, 0xFF0F6A70, 0x66063BCA, 0x11010B5C, 0x8F659EFF, 0xF862AE69,
     0x616BFFD3, 0x166CCF45, 0xA00AE278, 0xD70DD2EE, 0x4E048354, 0x3903B3C2,
     0xA7672661, 0xD06016F7, 0x4969474D, 0x3E6E77DB, 0xAED16A4A, 0xD9D65ADC,
     0x40DF0B66, 0x37D83BF0, 0xA9BCAE53, 0xDEBB9EC5, 0x47B2CF7F, 0x30B5FFE9,
     0xBDBDF21C, 0xCABAC28A, 0x53B39330, 0x24B4A3A6, 0xBAD03605, 0xCDD70693,
     0x54DE5729, 0x23D967BF, 0xB3667A2E, 0xC4614AB8, 0x5D681B02, 0x2A6F2B94,
     0xB40BBE37, 0xC30C8EA1, 0x5A05DF1B, 0x2D02EF8D]"

text \<open>\<open>buffer[i]\<close> is a signed \<open>char\<close>; the mask leaves its eight bits.\<close>

definition crc_step :: "32 word \<Rightarrow> byte \<Rightarrow> 32 word" where
  "crc_step crc b = crc_table ! unat ((crc XOR scast b) AND 0xff) XOR drop_bit 8 crc"

definition crc32 :: "byte list \<Rightarrow> 32 word" where
  "crc32 buffer = foldl crc_step 0xffffffff buffer"

section \<open>The table\<close>

text \<open>One bit of the division by the reflected polynomial, and the remainder of one byte.\<close>

definition crc_bit :: "32 word \<Rightarrow> 32 word" where
  "crc_bit c = (if bit c 0 then 0xEDB88320 XOR drop_bit 1 c else drop_bit 1 c)"

definition crc_byte :: "32 word \<Rightarrow> 32 word" where
  "crc_byte c = (crc_bit ^^ 8) c"

text \<open>The same on integers, where the simplifier computes with numerals.\<close>

definition crc_biti :: "int \<Rightarrow> int" where
  "crc_biti c = (if odd c then 0xEDB88320 XOR (c div 2) else c div 2)"

lemma crc_biti_numeral:
  "crc_biti 0 = 0" "crc_biti 1 = 0xEDB88320" "crc_biti (numeral (num.Bit0 n)) = numeral n"
  "crc_biti (numeral (num.Bit1 n)) = 0xEDB88320 XOR numeral n"
  by (simp_all add: crc_biti_def)

definition crc_bytei :: "int \<Rightarrow> int" where
  "crc_bytei c = crc_biti (crc_biti (crc_biti (crc_biti (crc_biti (crc_biti (crc_biti (crc_biti c)))))))"

lemma crc_tablei: "map crc_bytei [0..255] = map uint crc_table"
  by (simp add: crc_table_def crc_bytei_def crc_biti_numeral upto.simps [of 0] upto.simps [of 1])

lemma uint_crc_bit: "uint (crc_bit c) = crc_biti (uint c)"
proof -
  have "uint (drop_bit 1 c) = uint c div 2" by (simp add: unsigned_drop_bit_eq drop_bit_eq_div uint_div_distrib)
  moreover have "bit c 0 = odd (uint c)" using bit_uint_iff [of c 0] by (simp add: bit_0)
  ultimately show ?thesis by (simp add: crc_bit_def crc_biti_def unsigned_xor_eq)
qed

lemma crc_byte_unfold: "crc_byte c = crc_bit (crc_bit (crc_bit (crc_bit (crc_bit (crc_bit (crc_bit (crc_bit c)))))))"
  by (simp add: crc_byte_def numeral_eq_Suc)

lemma uint_crc_byte: "uint (crc_byte c) = crc_bytei (uint c)"
  by (simp add: crc_byte_unfold crc_bytei_def uint_crc_bit)

lemma crc_table_nth:
  assumes "i < 256"
  shows "crc_table ! i = crc_byte (word_of_nat i)"
proof -
  have len: "length crc_table = 256" using arg_cong [OF crc_tablei, of length] by simp
  have "uint (crc_table ! i) = map uint crc_table ! i" using assms len by simp
  also have "\<dots> = crc_bytei (int i)" unfolding crc_tablei [symmetric] using assms by (simp add: nth_upto)
  also have "int i = uint (word_of_nat i :: 32 word)" using assms by (simp add: unsigned_of_nat take_bit_nat_eq_self)
  finally show ?thesis unfolding uint_crc_byte [symmetric] by (rule word_uint_eqI)
qed

section \<open>The checksum\<close>

text \<open>The remainder of a byte is linear and injective.\<close>

lemma crc_bit_xor: "crc_bit (a XOR b) = crc_bit a XOR crc_bit b"
  by (simp add: crc_bit_def bit_xor_iff drop_bit_xor ac_simps)

lemma crc_byte_xor: "crc_byte (a XOR b) = crc_byte a XOR crc_byte b"
  by (simp add: crc_byte_unfold crc_bit_xor)

lemma xor_cancel: "a XOR b = a XOR c \<Longrightarrow> b = c" for a :: "'a::len word"
  by (metis xor.assoc xor.left_neutral xor_self_eq)

lemma crc_bit_inj: "crc_bit a = crc_bit b \<Longrightarrow> a = b"
proof -
  assume eq: "crc_bit a = crc_bit b"
  have top: "bit (crc_bit c) 31 = bit c 0" for c
    using bit_imp_le_length [of c 32] by (auto simp: crc_bit_def bit_xor_iff bit_drop_bit_eq)
  have low: "bit a 0 = bit b 0" using top [of a] top [of b] eq by simp
  have half: "drop_bit 1 a = drop_bit 1 b" using eq low by (auto simp: crc_bit_def split: if_splits dest: xor_cancel)
  show "a = b"
  proof (rule bit_eqI)
    fix n show "bit a n = bit b n"
      using low arg_cong [OF half, of "\<lambda>w. bit w (n - 1)"] by (cases n) (simp_all add: bit_drop_bit_eq)
  qed
qed

lemma crc_byte_inj: "crc_byte a = crc_byte b \<Longrightarrow> a = b"
  unfolding crc_byte_unfold by (drule crc_bit_inj)+

lemma crc_bit_even: "\<not> bit a 0 \<Longrightarrow> crc_bit a = drop_bit 1 a"
  by (simp add: crc_bit_def)

lemma crc_byte_high:
  assumes "\<And>n. n < 8 \<Longrightarrow> \<not> bit a n"
  shows "crc_byte a = drop_bit 8 a"
proof -
  have "k \<le> 8 \<Longrightarrow> (crc_bit ^^ k) a = drop_bit k a" for k
  proof (induction k)
    case (Suc k)
    then have "\<not> bit (drop_bit k a) 0" using assms [of k] by (simp add: bit_drop_bit_eq)
    with Suc show ?case by (simp add: crc_bit_even)
  qed simp
  then show ?thesis by (simp add: crc_byte_def)
qed

lemma crc_step_byte: "crc_step crc b = crc_byte (crc XOR ucast b)"
proof -
  define x where "x = crc XOR (scast b :: 32 word)"
  define y where "y = crc XOR (ucast b :: 32 word)"
  have bits: "bit x n = (bit crc n \<noteq> bit b n)" "bit y n = (bit crc n \<noteq> bit b n)" if "n < 8" for n
    using that by (simp_all add: x_def y_def bit_xor_iff bit_unsigned_iff bit_signed_iff)
  have mask: "0xff = (mask 8 :: 32 word)" by (simp add: mask_eq_exp_minus_1)
  have low: "x AND 0xff = take_bit 8 y"
    unfolding mask take_bit_eq_mask [symmetric]
    by (rule bit_eqI) (use bits in \<open>auto simp: bit_take_bit_iff\<close>)
  have "unat (take_bit 8 y) < 256" by (simp add: unsigned_take_bit_eq take_bit_nat_less_exp [of 8, simplified])
  then have tab: "crc_table ! unat (x AND 0xff) = crc_byte (take_bit 8 y)"
    using crc_table_nth [of "unat (take_bit 8 y)"] low by simp
  define h where "h = push_bit 8 (drop_bit 8 y)"
  have y: "y = take_bit 8 y XOR h"
    unfolding h_def by (rule bit_eqI) (auto simp: bit_xor_iff bit_take_bit_iff bit_push_bit_iff bit_drop_bit_eq dest: bit_imp_le_length)
  have "crc_byte h = drop_bit 8 h" by (rule crc_byte_high) (simp add: h_def bit_push_bit_iff)
  also have "\<dots> = drop_bit 8 crc"
    unfolding h_def y_def
    by (rule bit_eqI) (auto simp: bit_drop_bit_eq bit_push_bit_iff bit_xor_iff bit_unsigned_iff dest: bit_imp_le_length)
  finally have high: "crc_byte h = drop_bit 8 crc" .
  have "crc_step crc b = crc_byte (take_bit 8 y) XOR crc_byte h" using tab high by (simp add: crc_step_def x_def)
  also have "\<dots> = crc_byte y" unfolding crc_byte_xor [symmetric] y [symmetric] ..
  finally show ?thesis by (simp add: y_def)
qed

lemma crc_step_inj: "crc_step c b = crc_step c' b \<Longrightarrow> c = c'"
  unfolding crc_step_byte using crc_byte_inj xor_cancel by (metis xor.commute)

lemma crc_step_inj_byte: "crc_step c b = crc_step c b' \<Longrightarrow> b = b'"
proof -
  assume "crc_step c b = crc_step c b'"
  then have "(ucast b :: 32 word) = ucast b'"
    unfolding crc_step_byte by (rule xor_cancel [OF crc_byte_inj])
  then have "uint (ucast b :: 32 word) = uint (ucast b' :: 32 word)" by simp
  then show "b = b'"
    using uint_lt2p [of b] uint_lt2p [of b'] by (simp add: unsigned_ucast_eq take_bit_int_eq_self word_uint_eqI)
qed

lemma foldl_crc_inj: "foldl crc_step c ys = foldl crc_step c' ys \<Longrightarrow> c = c'"
  by (induction ys arbitrary: c c') (auto dest: crc_step_inj)

section \<open>Properties\<close>

text \<open>
  The table-driven checksum equals its bitwise definition, the reflected CRC-32 division with initial
  value \<open>0xffffffff\<close> and without a final complement.
\<close>

lemma crc32_bitwise: "crc32 buffer = foldl (\<lambda>c b. (crc_bit ^^ 8) (c XOR ucast b)) 0xffffffff buffer"
  unfolding crc32_def by (simp add: crc_step_byte [abs_def] crc_byte_def)

text \<open>
  Two buffers that differ in exactly one byte have different checksums, so a single corrupted byte of a
  page is always noticed.
\<close>

lemma crc32_detects_byte:
  assumes "b \<noteq> b'"
  shows "crc32 (xs @ b # ys) \<noteq> crc32 (xs @ b' # ys)"
  using assms foldl_crc_inj crc_step_inj_byte by (fastforce simp: crc32_def)

end
