(* ===== verification/DoubleWrite.thy ===== *)
theory DoubleWrite
  imports FrameManager Crc
begin

text \<open>
  The double write buffer (\<^verbatim>\<open>storage/buffer/double_write_buffer.{h,cpp}\<close>) and the files under it. A page on its
  way to its file is first written to a slot of a shared file and kept in memory; the buffer is written out
  when it is full, when a file is closed and at start-up.

  A file is a list of pages. The environment decides by \<open>page_io\<close> and \<open>shared_io\<close> what a write returns.
  The buffer is a hash map in the code, walked in an unspecified order; here it is an association list, walked
  in insertion order. A page that has been deleted while it is still in the map is marked \<open>dw_freed\<close>: using it
  again is undefined behaviour, the result \<open>None\<close>; so is a failed \<open>ASSERT\<close>.
\<close>

section \<open>Files\<close>

record Disk =
  files :: "int \<Rightarrow> Page list"
  page_io :: "FrameId \<Rightarrow> RC"

definition zero_page :: Page where
  "zero_page = \<lparr>page_lsn = 0, check_sum = 0, data = replicate BP_PAGE_DATA_SIZE 0\<rparr>"

text \<open>Writing past the end of a file leaves a hole, which reads as zeros.\<close>

definition put_at :: "nat \<Rightarrow> Page \<Rightarrow> Page list \<Rightarrow> Page list" where
  "put_at n pg xs = (if n < length xs then xs[n := pg] else xs @ replicate (n - length xs) zero_page @ [pg])"

definition write_page :: "FrameId \<Rightarrow> Page \<Rightarrow> Disk \<Rightarrow> RC \<times> Disk" where
  "write_page k pg d =
     (if snd k < 0 then (IOERR_SEEK, d)
      else if page_io d k \<noteq> SUCCESS then (page_io d k, d)
      else (SUCCESS, d\<lparr>files := (files d)(fst k := put_at (nat (snd k)) pg (files d (fst k)))\<rparr>))"

definition read_file_page :: "FrameId \<Rightarrow> Disk \<Rightarrow> RC + Page" where
  "read_file_page k d =
     (if snd k < 0 then Inl IOERR_SEEK
      else if nat (snd k) < length (files d (fst k)) then Inr (files d (fst k) ! nat (snd k))
      else Inl IOERR_READ)"

section \<open>The double write buffer on disk\<close>

record DoubleWritePage =
  dw_key :: FrameId
  page_index :: nat
  dw_page :: Page
  dw_freed :: bool

record DiskDoubleWriteBuffer =
  max_pages :: nat
  header_page_cnt :: nat
  dblwr_pages :: "(FrameId \<times> DoubleWritePage) list"
  shared_slots :: "nat \<Rightarrow> DoubleWritePage option"
  shared_page_cnt :: nat
  shared_io :: RC

definition write_page_internal :: "DoubleWritePage \<Rightarrow> DiskDoubleWriteBuffer \<Rightarrow> RC \<times> DiskDoubleWriteBuffer" where
  "write_page_internal e b =
     (if shared_io b \<noteq> SUCCESS then (shared_io b, b)
      else (SUCCESS, b\<lparr>shared_slots := (shared_slots b)(page_index e \<mapsto> e)\<rparr>))"

text \<open>
  \<open>write_out\<close> is the loop of \<open>flush_page\<close> over the buffered pages: the pages written are deleted; the first
  failure ends the loop. \<open>opened\<close> tells which buffer pools are open.
\<close>

fun write_out :: "(int \<Rightarrow> bool) \<Rightarrow> (FrameId \<times> DoubleWritePage) list \<Rightarrow> Disk
    \<Rightarrow> (RC \<times> (FrameId \<times> DoubleWritePage) list \<times> Disk) option" where
  "write_out opened [] d = Some (SUCCESS, [], d)"
| "write_out opened ((k, e) # es) d =
     (if \<not> opened (fst (dw_key e)) \<or> dw_freed e then None
      else case write_page (dw_key e) (dw_page e) d of
             (rc, d1) \<Rightarrow>
               if rc \<noteq> SUCCESS then Some (rc, (k, e) # es, d1)
               else map_option (\<lambda>(rc', es', d'). (rc', (k, e\<lparr>dw_freed := True\<rparr>) # es', d')) (write_out opened es d1))"

definition dwb_flush :: "(int \<Rightarrow> bool) \<Rightarrow> DiskDoubleWriteBuffer \<Rightarrow> Disk \<Rightarrow> (RC \<times> DiskDoubleWriteBuffer \<times> Disk) option" where
  "dwb_flush opened b d =
     map_option (\<lambda>(rc, es, d'). (rc, if rc = SUCCESS then b\<lparr>dblwr_pages := [], header_page_cnt := 0\<rparr> else b\<lparr>dblwr_pages := es\<rparr>, d'))
       (write_out opened (dblwr_pages b) d)"

definition replace_entry :: "FrameId \<Rightarrow> DoubleWritePage \<Rightarrow> (FrameId \<times> DoubleWritePage) list \<Rightarrow> (FrameId \<times> DoubleWritePage) list" where
  "replace_entry k e es = map (\<lambda>(k', e'). if k' = k then (k', e) else (k', e')) es"

definition dwb_add :: "(int \<Rightarrow> bool) \<Rightarrow> FrameId \<Rightarrow> Page \<Rightarrow> DiskDoubleWriteBuffer \<Rightarrow> Disk
    \<Rightarrow> (RC \<times> DiskDoubleWriteBuffer \<times> Disk) option" where
  "dwb_add opened k pg b d =
     (case map_of (dblwr_pages b) k of
        Some e \<Rightarrow>
          (if dw_freed e then None
           else let e' = e\<lparr>dw_page := pg\<rparr>
                in case write_page_internal e' (b\<lparr>dblwr_pages := replace_entry k e' (dblwr_pages b)\<rparr>) of
                     (rc, b') \<Rightarrow> Some (rc, b', d))
      | None \<Rightarrow>
          (let page_cnt = length (dblwr_pages b);
               e = \<lparr>dw_key = k, page_index = page_cnt, dw_page = pg, dw_freed = False\<rparr>
           in case write_page_internal e (b\<lparr>dblwr_pages := dblwr_pages b @ [(k, e)]\<rparr>) of
                (rc, b1) \<Rightarrow>
                  if rc \<noteq> SUCCESS then Some (rc, b1, d)
                  else let grown = page_cnt + 1 > header_page_cnt b1;
                           b2 = (if grown then b1\<lparr>header_page_cnt := page_cnt + 1\<rparr> else b1)
                       in if grown \<and> shared_io b2 \<noteq> SUCCESS then Some (shared_io b2, b2, d)
                          else let b3 = (if grown then b2\<lparr>shared_page_cnt := header_page_cnt b2\<rparr> else b2)
                               in if length (dblwr_pages b3) \<ge> max_pages b3 then dwb_flush opened b3 d
                                  else Some (SUCCESS, b3, d)))"

definition dwb_read :: "FrameId \<Rightarrow> DiskDoubleWriteBuffer \<Rightarrow> (RC + Page) option" where
  "dwb_read k b =
     (case map_of (dblwr_pages b) k of
        None \<Rightarrow> Some (Inl BUFFERPOOL_INVALID_PAGE_NUM)
      | Some e \<Rightarrow> if dw_freed e then None else Some (Inr (dw_page e)))"

text \<open>Closing a file: its pages leave the buffer and are written in the order of their numbers.\<close>

fun write_sorted :: "DoubleWritePage list \<Rightarrow> Disk \<Rightarrow> Disk option" where
  "write_sorted [] d = Some d"
| "write_sorted (e # es) d =
     (if dw_freed e then None
      else case write_page (dw_key e) (dw_page e) d of
             (rc, d1) \<Rightarrow> if rc \<noteq> SUCCESS then Some d1 else write_sorted es d1)"

definition dwb_clear :: "int \<Rightarrow> DiskDoubleWriteBuffer \<Rightarrow> Disk \<Rightarrow> (RC \<times> DiskDoubleWriteBuffer \<times> Disk) option" where
  "dwb_clear i b d =
     (let spec_pages = filter (\<lambda>e. fst (dw_key e) = i) (map snd (dblwr_pages b));
          b' = b\<lparr>dblwr_pages := filter (\<lambda>(k, e). fst (dw_key e) \<noteq> i) (dblwr_pages b)\<rparr>
      in map_option (\<lambda>d'. (SUCCESS, b', d')) (write_sorted (sort_key (\<lambda>e. snd (dw_key e)) spec_pages) d))"

text \<open>
  Start-up: the slots named by the header of the shared file are read back; a page with a wrong checksum is a
  torn write and is left out. \<open>insert\<close> of the map keeps the entry that is already there.
\<close>

fun load_slots :: "nat list \<Rightarrow> DiskDoubleWriteBuffer \<Rightarrow> RC \<times> DiskDoubleWriteBuffer" where
  "load_slots [] b = (SUCCESS, b)"
| "load_slots (n # ns) b =
     (case shared_slots b n of
        None \<Rightarrow> (IOERR_READ, b)
      | Some e \<Rightarrow>
          (if crc32 (data (dw_page e)) = check_sum (dw_page e) \<and> map_of (dblwr_pages b) (dw_key e) = None
           then load_slots ns (b\<lparr>dblwr_pages := dblwr_pages b @ [(dw_key e, e)]\<rparr>)
           else load_slots ns b))"

definition load_pages :: "DiskDoubleWriteBuffer \<Rightarrow> RC \<times> DiskDoubleWriteBuffer" where
  "load_pages b =
     (if dblwr_pages b \<noteq> [] then (BUFFERPOOL_OPEN, b)
      else if shared_io b \<noteq> SUCCESS then (IOERR_READ, b)
      else (let b1 = b\<lparr>header_page_cnt := shared_page_cnt b\<rparr> in load_slots [0..<header_page_cnt b1] b1))"

definition dwb_recover :: "(int \<Rightarrow> bool) \<Rightarrow> DiskDoubleWriteBuffer \<Rightarrow> Disk \<Rightarrow> (RC \<times> DiskDoubleWriteBuffer \<times> Disk) option" where
  "dwb_recover opened b d = dwb_flush opened b d"

section \<open>The interface\<close>

datatype DoubleWriteBuffer = VacuousDoubleWriteBuffer | DiskBuffer DiskDoubleWriteBuffer

fun add_page :: "(int \<Rightarrow> bool) \<Rightarrow> FrameId \<Rightarrow> Page \<Rightarrow> DoubleWriteBuffer \<Rightarrow> Disk \<Rightarrow> (RC \<times> DoubleWriteBuffer \<times> Disk) option" where
  "add_page opened k pg VacuousDoubleWriteBuffer d =
     (case write_page k pg d of (rc, d') \<Rightarrow> Some (rc, VacuousDoubleWriteBuffer, d'))"
| "add_page opened k pg (DiskBuffer b) d = map_option (\<lambda>(rc, b', d'). (rc, DiskBuffer b', d')) (dwb_add opened k pg b d)"

fun read_page :: "FrameId \<Rightarrow> DoubleWriteBuffer \<Rightarrow> (RC + Page) option" where
  "read_page k VacuousDoubleWriteBuffer = Some (Inl BUFFERPOOL_INVALID_PAGE_NUM)"
| "read_page k (DiskBuffer b) = dwb_read k b"

fun clear_pages :: "int \<Rightarrow> DoubleWriteBuffer \<Rightarrow> Disk \<Rightarrow> (RC \<times> DoubleWriteBuffer \<times> Disk) option" where
  "clear_pages i VacuousDoubleWriteBuffer d = Some (SUCCESS, VacuousDoubleWriteBuffer, d)"
| "clear_pages i (DiskBuffer b) d = map_option (\<lambda>(rc, b', d'). (rc, DiskBuffer b', d')) (dwb_clear i b d)"

section \<open>Writing to files\<close>

text \<open>\<open>writable\<close>: every write to a file succeeds. \<open>file_page\<close> is what a read returns, if it returns anything.\<close>

definition writable :: "Disk \<Rightarrow> bool" where
  "writable d \<longleftrightarrow> page_io d = (\<lambda>k. SUCCESS)"

definition file_page :: "Disk \<Rightarrow> FrameId \<Rightarrow> Page option" where
  "file_page d k = (case read_file_page k d of Inr pg \<Rightarrow> Some pg | Inl rc \<Rightarrow> None)"

text \<open>\<open>kept_but ks f g\<close>: what \<open>f\<close> holds for keys outside \<open>ks\<close> is in \<open>g\<close> as well.\<close>

definition kept_but :: "FrameId set \<Rightarrow> (FrameId \<Rightarrow> Page option) \<Rightarrow> (FrameId \<Rightarrow> Page option) \<Rightarrow> bool" where
  "kept_but ks f g \<longleftrightarrow> (\<forall>k pg. k \<notin> ks \<longrightarrow> f k = Some pg \<longrightarrow> g k = Some pg)"

lemma kept_butI: "(\<And>k pg. k \<notin> ks \<Longrightarrow> f k = Some pg \<Longrightarrow> g k = Some pg) \<Longrightarrow> kept_but ks f g"
  unfolding kept_but_def by blast

lemma kept_butD: "kept_but ks f g \<Longrightarrow> f k = Some pg \<Longrightarrow> k \<notin> ks \<Longrightarrow> g k = Some pg"
  unfolding kept_but_def by blast

lemma kept_but_refl [simp]: "kept_but ks f f"
  by (simp add: kept_but_def)

lemma kept_but_trans: "kept_but ks f g \<Longrightarrow> kept_but ls g h \<Longrightarrow> kept_but (ks \<union> ls) f h"
  by (simp add: kept_but_def)

lemma nth_put_at: "j < length (put_at n pg xs) \<Longrightarrow> put_at n pg xs ! j =
    (if j = n then pg else if j < length xs then xs ! j else zero_page)"
  by (auto simp: put_at_def nth_append split: if_splits)

lemma length_put_at: "length (put_at n pg xs) = max (length xs) (Suc n)"
  by (auto simp: put_at_def)

lemma write_page_ok:
  assumes "writable d" "0 \<le> snd k"
  obtains d' where "write_page k pg d = (SUCCESS, d')" "writable d'" "file_page d' k = Some pg"
    "kept_but {k} (file_page d) (file_page d')"
proof -
  let ?d = "d\<lparr>files := (files d)(fst k := put_at (nat (snd k)) pg (files d (fst k)))\<rparr>"
  have w: "write_page k pg d = (SUCCESS, ?d)" using assms by (simp add: write_page_def writable_def)
  have "file_page ?d k = Some pg"
    using assms(2) by (simp add: file_page_def read_file_page_def length_put_at nth_put_at)
  moreover have "kept_but {k} (file_page d) (file_page ?d)"
  proof (rule kept_butI)
    fix l pg' assume l: "l \<notin> {k}" and r: "file_page d l = Some pg'"
    from r have r1: "\<not> snd l < 0" "nat (snd l) < length (files d (fst l))" "files d (fst l) ! nat (snd l) = pg'"
      by (auto simp: file_page_def read_file_page_def split: if_splits)
    have "fst l = fst k \<Longrightarrow> nat (snd l) \<noteq> nat (snd k)" using l r1(1) assms(2) by (metis insertI1 int_nat_eq linorder_not_less prod.expand)
    then show "file_page ?d l = Some pg'"
      using r1 by (auto simp: file_page_def read_file_page_def length_put_at nth_put_at)
  qed
  ultimately show thesis using that [OF w] assms(1) by (simp add: writable_def)
qed

fun store_all :: "DoubleWritePage list \<Rightarrow> Disk \<Rightarrow> Disk" where
  "store_all [] d = d"
| "store_all (e # es) d = store_all es (snd (write_page (dw_key e) (dw_page e) d))"

lemma store_all_ok:
  assumes "writable d" "\<forall>e\<in>set es. 0 \<le> snd (dw_key e)" "distinct (map dw_key es)"
  shows "writable (store_all es d)" "e \<in> set es \<Longrightarrow> file_page (store_all es d) (dw_key e) = Some (dw_page e)"
    "kept_but (dw_key ` set es) (file_page d) (file_page (store_all es d))"
proof -
  have "writable (store_all es d) \<and> (\<forall>e\<in>set es. file_page (store_all es d) (dw_key e) = Some (dw_page e))
    \<and> kept_but (dw_key ` set es) (file_page d) (file_page (store_all es d))"
    using assms
  proof (induction es arbitrary: d)
    case (Cons a es)
    obtain d1 where d1: "write_page (dw_key a) (dw_page a) d = (SUCCESS, d1)" "writable d1" "file_page d1 (dw_key a) = Some (dw_page a)"
      "kept_but {dw_key a} (file_page d) (file_page d1)"
      using Cons.prems by (auto intro: write_page_ok)
    note IH = Cons.IH [OF d1(2)]
    have "dw_key a \<notin> dw_key ` set es" using Cons.prems(3) by simp
    moreover have "kept_but (dw_key ` set es) (file_page d1) (file_page (store_all es d1))" using IH Cons.prems by simp
    ultimately have "file_page (store_all es d1) (dw_key a) = Some (dw_page a)"
      by (rule_tac kept_butD [where f = "file_page d1", OF _ d1(3)])
    moreover have "kept_but ({dw_key a} \<union> dw_key ` set es) (file_page d) (file_page (store_all es d1))"
      using IH Cons.prems by (intro kept_but_trans [OF d1(4)]) simp
    ultimately show ?case using IH Cons.prems d1(1) by simp
  qed simp
  then show "writable (store_all es d)" "e \<in> set es \<Longrightarrow> file_page (store_all es d) (dw_key e) = Some (dw_page e)"
    "kept_but (dw_key ` set es) (file_page d) (file_page (store_all es d))" by simp_all
qed

lemma write_sorted_all:
  "writable d \<Longrightarrow> \<forall>e\<in>set es. 0 \<le> snd (dw_key e) \<and> \<not> dw_freed e \<Longrightarrow> write_sorted es d = Some (store_all es d)"
proof (induction es arbitrary: d)
  case (Cons a es)
  obtain d1 where "write_page (dw_key a) (dw_page a) d = (SUCCESS, d1)" "writable d1"
    using Cons.prems by (auto intro: write_page_ok)
  with Cons show ?case by simp
qed simp

lemma write_out_all:
  "writable d \<Longrightarrow> \<forall>(k, e)\<in>set es. opened (fst (dw_key e)) \<and> 0 \<le> snd (dw_key e) \<and> \<not> dw_freed e \<Longrightarrow>
    \<exists>es'. write_out opened es d = Some (SUCCESS, es', store_all (map snd es) d)"
proof (induction es arbitrary: d)
  case (Cons a es)
  obtain k e where a: "a = (k, e)" by (cases a)
  obtain d1 where "write_page (dw_key e) (dw_page e) d = (SUCCESS, d1)" "writable d1"
    using Cons.prems a by (auto intro: write_page_ok)
  with Cons a show ?case by fastforce
qed simp

section \<open>The contract of a double write buffer\<close>

text \<open>
  \<open>stored\<close> is the latest version of a page below the frames: the buffered one, else the one in its file.
  \<open>ok opened b d\<close> is the implementation's invariant for the set of open pools.
\<close>

locale double_write =
  fixes add :: "(int \<Rightarrow> bool) \<Rightarrow> FrameId \<Rightarrow> Page \<Rightarrow> 'b \<Rightarrow> Disk \<Rightarrow> (RC \<times> 'b \<times> Disk) option"
    and read :: "FrameId \<Rightarrow> 'b \<Rightarrow> (RC + Page) option"
    and clear :: "int \<Rightarrow> 'b \<Rightarrow> Disk \<Rightarrow> (RC \<times> 'b \<times> Disk) option"
    and ok :: "(int \<Rightarrow> bool) \<Rightarrow> 'b \<Rightarrow> Disk \<Rightarrow> bool"
    and stored :: "'b \<Rightarrow> Disk \<Rightarrow> FrameId \<Rightarrow> Page option"
  assumes load_law: "ok opened b d \<Longrightarrow>
      read k b = Some (Inl BUFFERPOOL_INVALID_PAGE_NUM) \<and> stored b d k = file_page d k
      \<or> (\<exists>pg. read k b = Some (Inr pg) \<and> stored b d k = Some pg)"
    and add_law: "ok opened b d \<Longrightarrow> opened (fst k) \<Longrightarrow> 0 \<le> snd k \<Longrightarrow>
      \<exists>b' d'. add opened k pg b d = Some (SUCCESS, b', d') \<and> ok opened b' d'
        \<and> stored b' d' k = Some pg \<and> kept_but {k} (stored b d) (stored b' d')"
    and clear_law: "ok opened b d \<Longrightarrow>
      \<exists>b' d'. clear i b d = Some (SUCCESS, b', d') \<and> ok (\<lambda>j. opened j \<and> j \<noteq> i) b' d'
        \<and> kept_but {} (stored b d) (stored b' d')
        \<and> (\<forall>p pg. stored b d (i, p) = Some pg \<longrightarrow> file_page d' (i, p) = Some pg)"
begin

fun add_all :: "(int \<Rightarrow> bool) \<Rightarrow> (FrameId \<times> Page) list \<Rightarrow> 'b \<Rightarrow> Disk \<Rightarrow> (RC \<times> 'b \<times> Disk) option" where
  "add_all opened [] b d = Some (SUCCESS, b, d)"
| "add_all opened ((k, pg) # ws) b d =
     (case add opened k pg b d of
        None \<Rightarrow> None
      | Some (rc, b', d') \<Rightarrow> if rc \<noteq> SUCCESS then Some (rc, b', d') else add_all opened ws b' d')"

lemma add_all_ok:
  assumes "ok opened b d" "\<forall>(k, pg)\<in>set ws. opened (fst k) \<and> 0 \<le> snd k"
  shows "\<exists>b' d'. add_all opened ws b d = Some (SUCCESS, b', d') \<and> ok opened b' d'
    \<and> (\<forall>k pg. (stored b d ++ map_of (rev ws)) k = Some pg \<longrightarrow> stored b' d' k = Some pg)"
  using assms
proof (induction ws arbitrary: b d)
  case (Cons w ws)
  obtain k pg where w: "w = (k, pg)" by (cases w)
  obtain b1 d1 where a: "add opened k pg b d = Some (SUCCESS, b1, d1)" "ok opened b1 d1"
    "stored b1 d1 k = Some pg" "kept_but {k} (stored b d) (stored b1 d1)"
    using add_law [OF Cons.prems(1), of k pg] Cons.prems(2) w by auto
  obtain b' d' where r: "add_all opened ws b1 d1 = Some (SUCCESS, b', d')" "ok opened b' d'"
    "\<forall>k pg. (stored b1 d1 ++ map_of (rev ws)) k = Some pg \<longrightarrow> stored b' d' k = Some pg"
    using Cons.IH [OF a(2)] Cons.prems(2) by auto
  have "(stored b1 d1 ++ map_of (rev ws)) l = Some q" if "(stored b d ++ map_of (rev (w # ws))) l = Some q" for l q
    using that a(3) kept_butD [OF a(4), of l q] by (auto simp: w map_add_Some_iff map_add_def split: option.splits if_splits)
  with r a(1) w show ?case by auto
qed simp

end

section \<open>The implementations meet it\<close>

definition stored :: "DoubleWriteBuffer \<Rightarrow> Disk \<Rightarrow> FrameId \<Rightarrow> Page option" where
  "stored w d k =
     (case w of
        VacuousDoubleWriteBuffer \<Rightarrow> file_page d k
      | DiskBuffer b \<Rightarrow> (case map_of (dblwr_pages b) k of Some e \<Rightarrow> Some (dw_page e) | None \<Rightarrow> file_page d k))"

definition entries_ok :: "(int \<Rightarrow> bool) \<Rightarrow> (FrameId \<times> DoubleWritePage) list \<Rightarrow> bool" where
  "entries_ok opened es \<longleftrightarrow> distinct (map fst es)
     \<and> (\<forall>k e. (k, e) \<in> set es \<longrightarrow> dw_key e = k \<and> \<not> dw_freed e \<and> opened (fst k) \<and> 0 \<le> snd k)"

definition dblwr_ok :: "(int \<Rightarrow> bool) \<Rightarrow> DoubleWriteBuffer \<Rightarrow> Disk \<Rightarrow> bool" where
  "dblwr_ok opened w d \<longleftrightarrow> writable d
     \<and> (case w of VacuousDoubleWriteBuffer \<Rightarrow> True | DiskBuffer b \<Rightarrow> shared_io b = SUCCESS \<and> entries_ok opened (dblwr_pages b))"

lemma entries_okD:
  assumes "entries_ok opened es" "(k, e) \<in> set es"
  shows "dw_key e = k" "\<not> dw_freed e" "opened (fst k)" "0 \<le> snd k"
  using assms unfolding entries_ok_def by blast+

lemma entries_keys: "entries_ok opened es \<Longrightarrow> map dw_key (map snd es) = map fst es"
  by (auto dest: entries_okD(1))

lemma entries_distinct: "entries_ok opened es \<Longrightarrow> distinct (map dw_key (map snd es))"
  using entries_keys unfolding entries_ok_def by metis

lemma map_of_replace_entry:
  "map_of (replace_entry k e es) l = (if l = k \<and> map_of es k \<noteq> None then Some e else map_of es l)"
  by (induction es) (auto simp: replace_entry_def)

lemma keys_replace_entry [simp]: "map fst (replace_entry k e es) = map fst es"
  by (induction es) (auto simp: replace_entry_def)

lemma replace_entry_ok:
  assumes "entries_ok opened es" "map_of es k = Some e" "dw_key e' = k" "\<not> dw_freed e'"
  shows "entries_ok opened (replace_entry k e' es)"
  unfolding entries_ok_def keys_replace_entry
proof (intro conjI allI impI)
  show "distinct (map fst es)" using assms(1) by (simp add: entries_ok_def)
  fix l f assume "(l, f) \<in> set (replace_entry k e' es)"
  then obtain g where g: "(l, g) \<in> set es" "f = (if l = k then e' else g)"
    by (auto simp: replace_entry_def split: if_splits)
  from entries_okD [OF assms(1) g(1)] g(2) assms(3,4)
  show "dw_key f = l" "\<not> dw_freed f" "opened (fst l)" "0 \<le> snd l" by (auto split: if_splits)
qed

lemma dwb_flush_ok:
  assumes "writable d" "entries_ok opened (dblwr_pages b)"
  obtains d' where "dwb_flush opened b d = Some (SUCCESS, b\<lparr>dblwr_pages := [], header_page_cnt := 0\<rparr>, d')" "writable d'"
    "kept_but {} (stored (DiskBuffer b) d) (file_page d')"
proof -
  let ?es = "dblwr_pages b"
  let ?d = "store_all (map snd ?es) d"
  have k: "\<forall>e\<in>set (map snd ?es). 0 \<le> snd (dw_key e)" using entries_okD(1,4) [OF assms(2)] by fastforce
  note d = entries_distinct [OF assms(2)]
  have pre: "\<forall>(k, e)\<in>set ?es. opened (fst (dw_key e)) \<and> 0 \<le> snd (dw_key e) \<and> \<not> dw_freed e"
    using entries_okD [OF assms(2)] by fastforce
  from write_out_all [OF assms(1) pre]
  have f: "dwb_flush opened b d = Some (SUCCESS, b\<lparr>dblwr_pages := [], header_page_cnt := 0\<rparr>, ?d)"
    by (auto simp: dwb_flush_def)
  have "kept_but {} (stored (DiskBuffer b) d) (file_page ?d)"
  proof (rule kept_butI)
    fix l pg assume s: "stored (DiskBuffer b) d l = Some pg"
    show "file_page ?d l = Some pg"
    proof (cases "map_of ?es l")
      case None
      then have "l \<notin> dw_key ` set (map snd ?es)"
        using entries_keys [OF assms(2)] by (metis map_of_eq_None_iff image_set)
      then show ?thesis using store_all_ok(3) [OF assms(1) k d] s None by (auto simp: stored_def dest: kept_butD)
    next
      case (Some e)
      then have le: "(l, e) \<in> set ?es" by (rule map_of_SomeD)
      then have "e \<in> set (map snd ?es)" by force
      from store_all_ok(2) [OF assms(1) k d this] entries_okD(1) [OF assms(2) le] s Some
      show ?thesis by (simp add: stored_def)
    qed
  qed
  with that [OF f] store_all_ok(1) [OF assms(1) k d] show thesis by blast
qed

text \<open>
  Adding a page, in two cases: one that is in the buffer is replaced in place; a new one takes the next slot
  and may fill the buffer.
\<close>

definition buffered :: "FrameId \<Rightarrow> Page \<Rightarrow> DiskDoubleWriteBuffer \<Rightarrow> DiskDoubleWriteBuffer" where
  "buffered k pg b =
     (case map_of (dblwr_pages b) k of
        Some e \<Rightarrow> let e' = e\<lparr>dw_page := pg\<rparr>
                   in b\<lparr>dblwr_pages := replace_entry k e' (dblwr_pages b), shared_slots := (shared_slots b)(page_index e \<mapsto> e')\<rparr>
      | None \<Rightarrow> let n = length (dblwr_pages b); e = \<lparr>dw_key = k, page_index = n, dw_page = pg, dw_freed = False\<rparr>
                 in b\<lparr>dblwr_pages := dblwr_pages b @ [(k, e)], shared_slots := (shared_slots b)(n \<mapsto> e),
                      header_page_cnt := max (header_page_cnt b) (n + 1),
                      shared_page_cnt := (if n + 1 > header_page_cnt b then n + 1 else shared_page_cnt b)\<rparr>)"

lemma dwb_add_eq:
  assumes "shared_io b = SUCCESS" "entries_ok opened (dblwr_pages b)"
  shows "dwb_add opened k pg b d =
    (if map_of (dblwr_pages b) k = None \<and> length (dblwr_pages b) + 1 \<ge> max_pages b then dwb_flush opened (buffered k pg b) d
     else Some (SUCCESS, buffered k pg b, d))"
proof (cases "map_of (dblwr_pages b) k")
  case None
  then show ?thesis using assms(1) by (auto simp: dwb_add_def buffered_def write_page_internal_def Let_def max_def)
next
  case (Some e)
  then have "\<not> dw_freed e" using entries_okD(2) [OF assms(2) map_of_SomeD] by blast
  with Some show ?thesis using assms(1) by (simp add: dwb_add_def buffered_def write_page_internal_def Let_def)
qed

lemma buffered_ok:
  assumes "entries_ok opened (dblwr_pages b)" "opened (fst k)" "0 \<le> snd k"
  shows "entries_ok opened (dblwr_pages (buffered k pg b))"
    "stored (DiskBuffer (buffered k pg b)) d = (stored (DiskBuffer b) d)(k \<mapsto> pg)"
    "shared_io (buffered k pg b) = shared_io b"
proof -
  show "entries_ok opened (dblwr_pages (buffered k pg b))"
  proof (cases "map_of (dblwr_pages b) k")
    case None
    then have "k \<notin> fst ` set (dblwr_pages b)" by (simp add: map_of_eq_None_iff)
    with None assms show ?thesis by (auto simp: buffered_def entries_ok_def Let_def)
  next
    case (Some e)
    then have "dw_key e = k" "\<not> dw_freed e" using entries_okD(1,2) [OF assms(1) map_of_SomeD] by blast+
    with Some show ?thesis using replace_entry_ok [OF assms(1) Some, of "e\<lparr>dw_page := pg\<rparr>"] by (simp add: buffered_def Let_def)
  qed
  show "stored (DiskBuffer (buffered k pg b)) d = (stored (DiskBuffer b) d)(k \<mapsto> pg)"
    by (rule ext) (auto simp: stored_def buffered_def map_of_replace_entry Let_def map_add_def split: option.splits)
  show "shared_io (buffered k pg b) = shared_io b" by (simp add: buffered_def Let_def split: option.splits)
qed

lemma add_page_ok:
  assumes "dblwr_ok opened w d" "opened (fst k)" "0 \<le> snd k"
  shows "\<exists>w' d'. add_page opened k pg w d = Some (SUCCESS, w', d') \<and> dblwr_ok opened w' d'
    \<and> stored w' d' k = Some pg \<and> kept_but {k} (stored w d) (stored w' d')"
proof (cases w)
  case VacuousDoubleWriteBuffer
  have d: "writable d" using assms(1) by (simp add: dblwr_ok_def)
  obtain d' where "write_page k pg d = (SUCCESS, d')" "writable d'" "file_page d' k = Some pg"
    "kept_but {k} (file_page d) (file_page d')"
    by (rule write_page_ok [OF d assms(3)])
  with VacuousDoubleWriteBuffer show ?thesis by (simp add: dblwr_ok_def stored_def kept_but_def)
next
  case (DiskBuffer b)
  have b: "writable d" "shared_io b = SUCCESS" "entries_ok opened (dblwr_pages b)"
    using assms(1) DiskBuffer by (simp_all add: dblwr_ok_def)
  note n = buffered_ok [OF b(3) assms(2,3), of pg]
  let ?b = "buffered k pg b"
  have k1: "kept_but {k} (stored w d) (stored (DiskBuffer ?b) d)"
    unfolding DiskBuffer n(2) by (rule kept_butI) simp
  show ?thesis
  proof (cases "map_of (dblwr_pages b) k = None \<and> length (dblwr_pages b) + 1 \<ge> max_pages b")
    case False
    then have "add_page opened k pg w d = Some (SUCCESS, DiskBuffer ?b, d)"
      using dwb_add_eq [OF b(2,3), of k pg d] DiskBuffer by auto
    with k1 n b show ?thesis by (simp add: dblwr_ok_def)
  next
    case True
    obtain d' where d': "dwb_flush opened ?b d = Some (SUCCESS, ?b\<lparr>dblwr_pages := [], header_page_cnt := 0\<rparr>, d')"
      "writable d'" "kept_but {} (stored (DiskBuffer ?b) d) (file_page d')"
      by (rule dwb_flush_ok [OF b(1) n(1)])
    let ?w = "DiskBuffer (?b\<lparr>dblwr_pages := [], header_page_cnt := 0\<rparr>)"
    have st: "stored ?w d' = file_page d'" by (simp add: stored_def fun_eq_iff)
    have "add_page opened k pg w d = Some (SUCCESS, ?w, d')"
      using dwb_add_eq [OF b(2,3), of k pg d] DiskBuffer True d'(1) by auto
    moreover have "stored ?w d' k = Some pg" unfolding st by (rule kept_butD [OF d'(3)]) (simp_all add: n(2))
    moreover have "kept_but {k} (stored w d) (stored ?w d')"
      using kept_but_trans [OF k1 d'(3)] by (simp add: st)
    ultimately show ?thesis using d'(2) n(3) b(2) by (simp add: dblwr_ok_def entries_ok_def)
  qed
qed

lemma map_of_filter_keys: "map_of (filter (\<lambda>(k, e). P k) es) k = (if P k then map_of es k else None)"
  by (induction es) auto

lemma clear_pages_ok:
  assumes "dblwr_ok opened w d"
  shows "\<exists>w' d'. clear_pages i w d = Some (SUCCESS, w', d') \<and> dblwr_ok (\<lambda>j. opened j \<and> j \<noteq> i) w' d'
    \<and> kept_but {} (stored w d) (stored w' d') \<and> (\<forall>p pg. stored w d (i, p) = Some pg \<longrightarrow> file_page d' (i, p) = Some pg)"
proof (cases w)
  case VacuousDoubleWriteBuffer
  with assms show ?thesis by (simp add: dblwr_ok_def stored_def)
next
  case (DiskBuffer b)
  have b: "writable d" "shared_io b = SUCCESS" "entries_ok opened (dblwr_pages b)"
    using assms DiskBuffer by (simp_all add: dblwr_ok_def)
  let ?es = "dblwr_pages b"
  define sp where "sp = sort_key (\<lambda>e. snd (dw_key e)) (filter (\<lambda>e. fst (dw_key e) = i) (map snd ?es))"
  define rest where "rest = filter (\<lambda>(k, e). fst (dw_key e) \<noteq> i) ?es"
  have key: "dw_key e = k" if "(k, e) \<in> set ?es" for k e by (rule entries_okD(1) [OF b(3) that])
  have sp: "e \<in> set sp \<longleftrightarrow> (dw_key e, e) \<in> set ?es \<and> fst (dw_key e) = i" for e
    using key by (auto simp: sp_def image_iff) (metis snd_conv)
  have ne: "\<forall>e\<in>set sp. 0 \<le> snd (dw_key e) \<and> \<not> dw_freed e"
    using entries_okD(2,4) [OF b(3)] sp by blast
  have es: "distinct (map snd ?es)" "inj_on dw_key (set (map snd ?es))"
    using entries_distinct [OF b(3)] by (simp_all only: distinct_map)
  have "distinct sp" unfolding sp_def using es(1) by (simp only: distinct_sort distinct_filter)
  moreover have "set sp \<subseteq> set (map snd ?es)" by (auto simp: sp_def)
  ultimately have ds: "distinct (map dw_key sp)" using inj_on_subset [OF es(2)] by (simp only: distinct_map)
  let ?d = "store_all sp d" and ?w = "DiskBuffer (b\<lparr>dblwr_pages := rest\<rparr>)"
  have c: "clear_pages i w d = Some (SUCCESS, ?w, ?d)"
    using write_sorted_all [OF b(1) ne] by (simp add: DiskBuffer dwb_clear_def Let_def sp_def rest_def)
  have ne1: "\<forall>e\<in>set sp. 0 \<le> snd (dw_key e)" using ne by blast
  note st = store_all_ok [OF b(1) ne1 ds]
  have ro: "entries_ok (\<lambda>j. opened j \<and> j \<noteq> i) rest"
    using b(3) key unfolding entries_ok_def rest_def by (auto simp: distinct_map intro: inj_on_subset)
  have mo: "map_of rest k = (if fst k = i then None else map_of ?es k)" for k
  proof -
    have "rest = filter (\<lambda>(k, e). fst k \<noteq> i) ?es" unfolding rest_def by (rule filter_cong) (auto dest: key)
    then show ?thesis by (simp add: map_of_filter_keys)
  qed
  have closed: "file_page ?d k = Some pg" if "stored w d k = Some pg" "fst k = i" for k pg
  proof (cases "map_of ?es k")
    case None
    have "k \<notin> dw_key ` set sp"
    proof
      assume "k \<in> dw_key ` set sp"
      then obtain e where "(k, e) \<in> set ?es" by (auto simp: sp)
      then show False using None by (metis map_of_eq_None_iff image_eqI fst_conv)
    qed
    then show ?thesis using that(1) None by (intro kept_butD [OF st(3)]) (simp_all add: stored_def DiskBuffer)
  next
    case (Some e)
    then have e: "(k, e) \<in> set ?es" "dw_key e = k" using key map_of_SomeD [OF Some] by blast+
    then have "e \<in> set sp" using that(2) by (simp add: sp)
    from st(2) [OF this] e(2) Some that(1) show ?thesis by (simp add: stored_def DiskBuffer)
  qed
  have keep: "stored ?w ?d k = Some pg" if s: "stored w d k = Some pg" for k pg
  proof (cases "fst k = i")
    case True
    with closed [OF s True] show ?thesis by (simp add: stored_def mo)
  next
    case False
    then have "k \<notin> dw_key ` set sp" by (auto simp: sp)
    then show ?thesis using s False kept_butD [OF st(3), of k pg] by (auto simp: stored_def DiskBuffer mo split: option.splits)
  qed
  have "dblwr_ok (\<lambda>j. opened j \<and> j \<noteq> i) ?w ?d" using st(1) ro b(2) by (simp add: dblwr_ok_def)
  moreover have "kept_but {} (stored w d) (stored ?w ?d)" by (rule kept_butI) (rule keep)
  moreover have "\<forall>p pg. stored w d (i, p) = Some pg \<longrightarrow> file_page ?d (i, p) = Some pg" using closed by simp
  ultimately show ?thesis using c by blast
qed

lemma read_page_ok:
  assumes "dblwr_ok opened w d"
  shows "read_page k w = Some (Inl BUFFERPOOL_INVALID_PAGE_NUM) \<and> stored w d k = file_page d k
    \<or> (\<exists>pg. read_page k w = Some (Inr pg) \<and> stored w d k = Some pg)"
proof (cases w)
  case (DiskBuffer b)
  have b: "entries_ok opened (dblwr_pages b)" using assms DiskBuffer by (simp add: dblwr_ok_def)
  show ?thesis
  proof (cases "map_of (dblwr_pages b) k")
    case (Some e)
    then show ?thesis using entries_okD(2) [OF b map_of_SomeD [OF Some]] DiskBuffer by (simp add: dwb_read_def stored_def)
  qed (simp add: DiskBuffer dwb_read_def stored_def)
qed (simp add: stored_def)

interpretation dblwr: double_write add_page read_page clear_pages dblwr_ok stored
  by unfold_locales (rule read_page_ok add_page_ok clear_pages_ok; assumption)+

section \<open>Crash recovery\<close>

text \<open>
  After a crash only the shared file and the page files are left. \<open>slots_ok\<close> is what makes the shared file
  sufficient: while pages are buffered, the counted slots are exactly theirs; right after a flush the old slots
  are still counted, and hold what has been written to the page files.
\<close>

definition slots_ok :: "DiskDoubleWriteBuffer \<Rightarrow> Disk \<Rightarrow> bool" where
  "slots_ok b d \<longleftrightarrow>
     (\<forall>i<length (dblwr_pages b). shared_slots b i = Some (snd (dblwr_pages b ! i)) \<and> page_index (snd (dblwr_pages b ! i)) = i)
     \<and> header_page_cnt b = length (dblwr_pages b)
     \<and> (if dblwr_pages b = []
        then \<exists>es. distinct (map dw_key es) \<and> length es = shared_page_cnt b
               \<and> (\<forall>i<length es. shared_slots b i = Some (es ! i)) \<and> (\<forall>e\<in>set es. file_page d (dw_key e) = Some (dw_page e) \<and> \<not> dw_freed e)
        else shared_page_cnt b = length (dblwr_pages b))"

definition crash :: "DiskDoubleWriteBuffer \<Rightarrow> DiskDoubleWriteBuffer" where
  "crash b = b\<lparr>dblwr_pages := [], header_page_cnt := 0\<rparr>"

definition sealed :: "Page \<Rightarrow> bool" where
  "sealed pg \<longleftrightarrow> check_sum pg = crc32 (data pg)"

lemma load_slots_all:
  assumes "\<forall>i<length es. shared_slots b (n + i) = Some (es ! i) \<and> sealed (dw_page (es ! i))"
    and "distinct (map dw_key es)" "fst ` set (dblwr_pages b) \<inter> dw_key ` set es = {}"
  shows "load_slots [n..<n + length es] b = (SUCCESS, b\<lparr>dblwr_pages := dblwr_pages b @ map (\<lambda>e. (dw_key e, e)) es\<rparr>)"
  using assms
proof (induction es arbitrary: n b)
  case (Cons e es)
  have e: "shared_slots b n = Some e" "sealed (dw_page e)" using Cons.prems(1) by (auto dest: spec [of _ 0])
  have new: "map_of (dblwr_pages b) (dw_key e) = None" using Cons.prems(3) by (simp add: map_of_eq_None_iff)
  let ?b = "b\<lparr>dblwr_pages := dblwr_pages b @ [(dw_key e, e)]\<rparr>"
  have "load_slots [Suc n..<Suc n + length es] ?b =
    (SUCCESS, ?b\<lparr>dblwr_pages := dblwr_pages ?b @ map (\<lambda>e. (dw_key e, e)) es\<rparr>)"
  proof (rule Cons.IH)
    show "\<forall>i<length es. shared_slots ?b (Suc n + i) = Some (es ! i) \<and> sealed (dw_page (es ! i))"
      using Cons.prems(1) by (auto dest: spec [of _ "Suc _"])
  qed (use Cons.prems(2,3) in auto)
  moreover have "[n..<n + length (e # es)] = n # [Suc n..<Suc n + length es]"
    by (simp add: upt_conv_Cons del: upt_Suc)
  ultimately show ?case using e new by (simp add: sealed_def del: upt_Suc)
qed simp

lemma map_of_self_keyed: "entries_ok opened es \<Longrightarrow> map (\<lambda>e. (dw_key e, e)) (map snd es) = es"
  by (rule nth_equalityI) (auto dest!: nth_mem entries_okD(1) simp: prod_eq_iff)

lemma file_page_Some: "file_page d k = Some pg \<Longrightarrow> 0 \<le> snd k"
  by (auto simp: file_page_def read_file_page_def split: if_splits)

text \<open>
  The crash may have torn the file copies of the buffered pages: \<open>d'\<close> agrees with \<open>d\<close> on the other pages only.
\<close>

lemma crash_load:
  assumes "slots_ok b d" "entries_ok (\<lambda>_. True) (dblwr_pages b)" "shared_io b = SUCCESS"
    and "\<forall>i < shared_page_cnt b. \<forall>e. shared_slots b i = Some e \<longrightarrow> sealed (dw_page e)"
    and torn: "\<And>k. map_of (dblwr_pages b) k = None \<Longrightarrow> file_page d' k = file_page d k"
  shows "\<exists>b'. load_pages (crash b) = (SUCCESS, b') \<and> entries_ok (\<lambda>_. True) (dblwr_pages b')
    \<and> stored (DiskBuffer b') d' = stored (DiskBuffer b) d"
proof (cases "dblwr_pages b = []")
  case False
  let ?es = "map snd (dblwr_pages b)"
  have "load_slots [0..<0 + length ?es] (crash b\<lparr>header_page_cnt := shared_page_cnt b\<rparr>) =
    (SUCCESS, crash b\<lparr>header_page_cnt := shared_page_cnt b, dblwr_pages := dblwr_pages b\<rparr>)"
    using load_slots_all [of ?es "crash b\<lparr>header_page_cnt := shared_page_cnt b\<rparr>" 0] assms(1-4) False
      entries_distinct [OF assms(2)] map_of_self_keyed [OF assms(2)]
    by (simp add: crash_def slots_ok_def entries_ok_def)
  then have "load_pages (crash b) = (SUCCESS, crash b\<lparr>header_page_cnt := shared_page_cnt b, dblwr_pages := dblwr_pages b\<rparr>)"
    using assms(1,3) False by (simp add: load_pages_def crash_def slots_ok_def)
  moreover have "stored (DiskBuffer (crash b\<lparr>header_page_cnt := shared_page_cnt b, dblwr_pages := dblwr_pages b\<rparr>)) d' = stored (DiskBuffer b) d"
    by (rule ext) (simp add: stored_def torn split: option.splits)
  ultimately show ?thesis using assms(2) by simp
next
  case True
  then obtain es where es: "distinct (map dw_key es)" "length es = shared_page_cnt b"
    "\<forall>i<length es. shared_slots b i = Some (es ! i)" "\<forall>e\<in>set es. file_page d (dw_key e) = Some (dw_page e) \<and> \<not> dw_freed e"
    using assms(1) by (auto simp: slots_ok_def)
  let ?c = "crash b\<lparr>header_page_cnt := shared_page_cnt b\<rparr>" and ?ps = "map (\<lambda>e. (dw_key e, e)) es"
  have "load_slots [0..<0 + length es] ?c = (SUCCESS, ?c\<lparr>dblwr_pages := ?ps\<rparr>)"
    using load_slots_all [of es ?c 0] es assms(4) by (simp add: crash_def)
  then have l: "load_pages (crash b) = (SUCCESS, ?c\<lparr>dblwr_pages := ?ps\<rparr>)"
    using assms(3) es(2) by (simp add: load_pages_def crash_def)
  have "file_page d k = Some (dw_page e)" if "map_of ?ps k = Some e" for k e
    using map_of_SomeD [OF that] es(4) by auto
  then have "stored (DiskBuffer (?c\<lparr>dblwr_pages := ?ps\<rparr>)) d' = stored (DiskBuffer b) d"
    using True torn by (auto simp: stored_def fun_eq_iff split: option.splits)
  moreover have "entries_ok (\<lambda>_. True) ?ps"
    unfolding entries_ok_def
  proof (intro conjI allI impI)
    show "distinct (map fst ?ps)" using es(1) by (simp add: comp_def)
    fix k e assume "(k, e) \<in> set ?ps"
    then have e: "e \<in> set es" "k = dw_key e" by auto
    then show "dw_key e = k" "\<not> dw_freed e" "0 \<le> snd k" using es(4) file_page_Some by blast+
  qed simp
  ultimately show ?thesis using l by simp
qed

lemma slots_ok_buffered:
  assumes "slots_ok b d" "entries_ok opened (dblwr_pages b)"
  shows "slots_ok (buffered k pg b) d \<and> dblwr_pages (buffered k pg b) \<noteq> []"
proof (cases "map_of (dblwr_pages b) k")
  case None
  with assms(1) show ?thesis by (auto simp: slots_ok_def buffered_def Let_def nth_append less_Suc_eq)
next
  case (Some e)
  let ?ps = "dblwr_pages b" and ?e = "e\<lparr>dw_page := pg\<rparr>"
  obtain j where j: "j < length ?ps" "?ps ! j = (k, e)" using map_of_SomeD [OF Some] by (metis in_set_conv_nth)
  have pj: "page_index e = j" using assms(1) j by (force simp: slots_ok_def)
  have ne: "?ps \<noteq> []" using j(1) by auto
  have nth: "snd (replace_entry k ?e ?ps ! i) = (if i = j then ?e else snd (?ps ! i))" if "i < length ?ps" for i
  proof -
    have "fst (?ps ! i) = k \<longleftrightarrow> i = j"
      using assms(2) that j nth_eq_iff_index_eq [of "map fst ?ps" i j] by (auto simp: entries_ok_def)
    with that show ?thesis by (auto simp: replace_entry_def split: prod.splits)
  qed
  have len: "length (replace_entry k ?e ?ps) = length ?ps" "replace_entry k ?e ?ps \<noteq> []"
    using ne by (auto simp: replace_entry_def)
  show ?thesis
    using assms(1) Some ne nth pj len by (auto simp: slots_ok_def buffered_def Let_def)
qed

lemma slots_ok_flushed:
  assumes "slots_ok b d" "entries_ok opened (dblwr_pages b)" "dblwr_pages b \<noteq> []"
    and "kept_but {} (stored (DiskBuffer b) d) (file_page d')"
  shows "slots_ok (b\<lparr>dblwr_pages := [], header_page_cnt := 0\<rparr>) d'"
proof -
  let ?es = "map snd (dblwr_pages b)"
  have "file_page d' (dw_key e) = Some (dw_page e) \<and> \<not> dw_freed e" if mem: "e \<in> set ?es" for e
  proof -
    obtain x where "e = snd x" "x \<in> set (dblwr_pages b)" using mem unfolding set_map by (rule imageE)
    then have "(fst x, e) \<in> set (dblwr_pages b)" by simp
    then obtain k where k: "(k, e) \<in> set (dblwr_pages b)" by blast
    have "map_of (dblwr_pages b) k = Some e" using assms(2) k by (simp add: entries_ok_def)
    then have "stored (DiskBuffer b) d k = Some (dw_page e)" by (simp add: stored_def)
    from kept_butD [OF assms(4) this] entries_okD(1,2) [OF assms(2) k] show ?thesis by simp
  qed
  then show ?thesis
    using assms(1,3) entries_distinct [OF assms(2)] unfolding slots_ok_def
    by (auto intro!: exI [of _ ?es])
qed

lemma slots_ok_add:
  assumes "slots_ok b d" "entries_ok opened (dblwr_pages b)" "shared_io b = SUCCESS" "writable d"
    and "opened (fst k)" "0 \<le> snd k" "dwb_add opened k pg b d = Some (SUCCESS, b', d')"
  shows "slots_ok b' d'"
proof -
  note s = slots_ok_buffered [OF assms(1,2), of k pg]
  note e = buffered_ok(1) [OF assms(2,5,6), of pg]
  obtain d1 where "dwb_flush opened (buffered k pg b) d = Some (SUCCESS, buffered k pg b\<lparr>dblwr_pages := [], header_page_cnt := 0\<rparr>, d1)"
    "kept_but {} (stored (DiskBuffer (buffered k pg b)) d) (file_page d1)"
    by (rule dwb_flush_ok [OF assms(4) e])
  then show ?thesis
    using assms(7) s slots_ok_flushed [OF _ e] dwb_add_eq [OF assms(3,2), of k pg d] by (auto split: if_splits)
qed

section \<open>Properties\<close>

text \<open>
  Writing a page through either double write buffer succeeds and makes it the latest version of that page;
  every other page keeps its latest version, also when the full buffer is written out. Reading returns the
  latest version from the buffer, or reports a miss when it is the one in the file.
\<close>

lemma double_write_latest:
  assumes "dblwr_ok opened w d" "opened (fst k)" "0 \<le> snd k"
  shows "\<exists>w' d'. add_page opened k pg w d = Some (SUCCESS, w', d') \<and> dblwr_ok opened w' d'
    \<and> stored w' d' k = Some pg \<and> (\<forall>l pg'. l \<noteq> k \<longrightarrow> stored w d l = Some pg' \<longrightarrow> stored w' d' l = Some pg')
    \<and> (\<forall>l. read_page l w' = Some (Inl BUFFERPOOL_INVALID_PAGE_NUM) \<and> stored w' d' l = file_page d' l
         \<or> (\<exists>q. read_page l w' = Some (Inr q) \<and> stored w' d' l = Some q))"
  using dblwr.add_law [OF assms, of pg] dblwr.load_law [of opened] unfolding kept_but_def
  by (elim exE conjE) (intro exI conjI; blast)

text \<open>
  Closing a file is durable: \<open>clear_pages\<close> succeeds, leaves none of the file's pages in the buffer, and the
  file holds the latest version of each of its pages; the other files' pages are untouched.
\<close>

lemma clear_pages_durable:
  assumes "dblwr_ok opened w d"
  shows "\<exists>w' d'. clear_pages i w d = Some (SUCCESS, w', d') \<and> dblwr_ok (\<lambda>j. opened j \<and> j \<noteq> i) w' d'
    \<and> (\<forall>l pg. stored w d l = Some pg \<longrightarrow> stored w' d' l = Some pg)
    \<and> (\<forall>p pg. stored w d (i, p) = Some pg \<longrightarrow> file_page d' (i, p) = Some pg)"
  using dblwr.clear_law [OF assms, of i] by (auto simp: kept_but_def)


text \<open>
  The shared file stays sufficient for recovery when a page is added, whether it is replaced in its slot,
  takes a new one or fills the buffer.
\<close>

lemma dwb_add_recoverable:
  assumes "slots_ok b d" "entries_ok opened (dblwr_pages b)" "shared_io b = SUCCESS" "writable d" "opened (fst k)" "0 \<le> snd k"
  shows "\<exists>b' d'. dwb_add opened k pg b d = Some (SUCCESS, b', d') \<and> slots_ok b' d' \<and> entries_ok opened (dblwr_pages b')"
proof -
  have ok: "dblwr_ok opened (DiskBuffer b) d" using assms(2-4) by (simp add: dblwr_ok_def)
  from dblwr.add_law [OF ok assms(5,6), of pg]
  obtain b' d' where a: "dwb_add opened k pg b d = Some (SUCCESS, b', d')" "entries_ok opened (dblwr_pages b')"
    by (auto simp: dblwr_ok_def)
  with slots_ok_add [OF assms a(1)] show ?thesis by blast
qed

section \<open>Examples\<close>

definition ex_dpage :: "byte \<Rightarrow> Page" where
  "ex_dpage x = \<lparr>page_lsn = 1, check_sum = crc32 [x], data = [x]\<rparr>"

definition ex_disk :: Disk where
  "ex_disk = \<lparr>files = (\<lambda>_. [ex_dpage 0, ex_dpage 0]), page_io = (\<lambda>_. SUCCESS)\<rparr>"

definition ex_dwb :: DiskDoubleWriteBuffer where
  "ex_dwb = \<lparr>max_pages = 16, header_page_cnt = 0, dblwr_pages = [], shared_slots = (\<lambda>_. None),
     shared_page_cnt = 0, shared_io = SUCCESS\<rparr>"

text \<open>Two pages of two files are buffered.\<close>

definition ex_dwb2 :: DiskDoubleWriteBuffer where
  "ex_dwb2 = buffered (2, 1) (ex_dpage 20) (buffered (1, 1) (ex_dpage 10) ex_dwb)"

lemma ex_dwb_ok: "dblwr_ok (\<lambda>_. True) (DiskBuffer ex_dwb) ex_disk" "slots_ok ex_dwb ex_disk"
  "writable ex_disk" "entries_ok (\<lambda>_. True) (dblwr_pages ex_dwb)" "shared_io ex_dwb = SUCCESS"
  by (simp_all add: dblwr_ok_def ex_dwb_def ex_disk_def writable_def entries_ok_def slots_ok_def)

lemma ex_dwb2_ok: "entries_ok (\<lambda>_. True) (dblwr_pages ex_dwb2)" "slots_ok ex_dwb2 ex_disk"
proof -
  have e: "entries_ok (\<lambda>_. True) (dblwr_pages (buffered (1, 1) (ex_dpage 10) ex_dwb))"
    by (rule buffered_ok(1) [OF ex_dwb_ok(4)]) simp_all
  show "entries_ok (\<lambda>_. True) (dblwr_pages ex_dwb2)" unfolding ex_dwb2_def by (rule buffered_ok(1) [OF e]) simp_all
  have "slots_ok (buffered (1, 1) (ex_dpage 10) ex_dwb) ex_disk"
    by (rule slots_ok_buffered [OF ex_dwb_ok(2,4), THEN conjunct1])
  from slots_ok_buffered [OF this e] show "slots_ok ex_dwb2 ex_disk" by (simp add: ex_dwb2_def)
qed

definition ex_torn :: Disk where
  "ex_torn = ex_disk\<lparr>files := (\<lambda>i. [ex_dpage 0, if i = 1 \<or> i = 2 then ex_dpage 99 else ex_dpage 0])\<rparr>"

lemma ex_pages: "dblwr_pages ex_dwb2 =
    [((1, 1), \<lparr>dw_key = (1, 1), page_index = 0, dw_page = ex_dpage 10, dw_freed = False\<rparr>),
     ((2, 1), \<lparr>dw_key = (2, 1), page_index = 1, dw_page = ex_dpage 20, dw_freed = False\<rparr>)]"
  "shared_slots ex_dwb2 = [0 \<mapsto> snd (dblwr_pages ex_dwb2 ! 0), 1 \<mapsto> snd (dblwr_pages ex_dwb2 ! 1)]"
  "shared_page_cnt ex_dwb2 = 2" "shared_io ex_dwb2 = SUCCESS" "header_page_cnt ex_dwb2 = 2" "max_pages ex_dwb2 = 16"
  by (simp_all add: ex_dwb2_def buffered_def ex_dwb_def Let_def fun_eq_iff)


definition ex_dwb3 :: DiskDoubleWriteBuffer where
  "ex_dwb3 = (case dwb_clear 1 ex_dwb2 ex_disk of Some (rc, b, d) \<Rightarrow> buffered (2, 5) (ex_dpage 50) b | None \<Rightarrow> ex_dwb)"

text \<open>
  Closing a file breaks recovery. The slot of a new page is the number of buffered pages, which has become
  smaller, so the new page overwrites the slot of a page that is still buffered: after a crash that page is
  lost and its file has the old version.
\<close>

lemma dwb_clear_loses_page:
  "stored (DiskBuffer ex_dwb3) ex_disk (2, 1) = Some (ex_dpage 20)
   \<and> (\<exists>b'. load_pages (crash ex_dwb3) = (SUCCESS, b') \<and> stored (DiskBuffer b') ex_disk (2, 1) = Some (ex_dpage 0))"
proof -
  have "dwb_clear 1 ex_dwb2 ex_disk = Some (SUCCESS, ex_dwb2\<lparr>dblwr_pages := [dblwr_pages ex_dwb2 ! 1]\<rparr>,
      store_all [snd (dblwr_pages ex_dwb2 ! 0)] ex_disk)"
    by (simp add: dwb_clear_def ex_pages write_page_def ex_disk_def)
  then have eq: "ex_dwb3 = buffered (2, 5) (ex_dpage 50) (ex_dwb2\<lparr>dblwr_pages := [dblwr_pages ex_dwb2 ! 1]\<rparr>)"
    by (simp add: ex_dwb3_def)
  show ?thesis unfolding eq
    by (simp add: ex_pages buffered_def Let_def stored_def load_pages_def crash_def numeral_2_eq_2 ex_dpage_def
        file_page_def read_file_page_def ex_disk_def)
qed

end
