(* ===== verification/BufferPool.thy ===== *)
theory BufferPool
  imports Bitmap DoubleWrite "HOL-Library.Monad_Syntax"
begin

text \<open>
  The buffer pool (\<^verbatim>\<open>storage/buffer/disk_buffer_pool.{h,cpp}\<close>, \<^verbatim>\<open>buffer_pool_log.{h,cpp}\<close>): a file of pages with an
  allocation bitmap in its first page, read and written through frames. This theory holds the code; its
  properties are in \<open>PageAllocation\<close> (the header and its log) and \<open>PoolCoherence\<close> (the contents of the pages).

  The store is everything the pools share: the frame manager, the double write buffer with the files, the set
  of open pools and the log. A pool is its identifier and the frame of its header page, which stays pinned
  while the file is open; the header is read from and written to the bytes of that frame. The result \<open>None\<close>
  is a failed assertion, an access outside a page, or a loop that does not end. What appending to the log
  returns is chosen by the environment (\<open>log_io\<close>).
\<close>

section \<open>The file header\<close>

record BPFileHeader =
  buffer_pool_id :: int
  page_count :: int
  allocated_pages :: int
  hdr_bitmap :: "byte list"

definition MAX_PAGE_NUM :: int where
  "MAX_PAGE_NUM = (int BP_PAGE_DATA_SIZE - 4 - 4) * 8"

definition header_of :: "byte list \<Rightarrow> BPFileHeader" where
  "header_of bs = \<lparr>buffer_pool_id = int32_of_bytes bs, page_count = int32_of_bytes (drop 4 bs),
     allocated_pages = int32_of_bytes (drop 8 bs), hdr_bitmap = drop 12 bs\<rparr>"

definition bytes_of_header :: "BPFileHeader \<Rightarrow> byte list" where
  "bytes_of_header h = int_to_bytes 4 (buffer_pool_id h) @ int_to_bytes 4 (page_count h)
     @ int_to_bytes 4 (allocated_pages h) @ hdr_bitmap h"

text \<open>Bits of the bitmap; an index outside the page has no value.\<close>

definition bit_at :: "byte list \<Rightarrow> int \<Rightarrow> bool option" where
  "bit_at bm p = (if 0 \<le> p \<and> nat p div 8 < length bm then Some (bitmap_get_bit bm (nat p)) else None)"

definition set_bit_at :: "byte list \<Rightarrow> int \<Rightarrow> byte list option" where
  "set_bit_at bm p = (if 0 \<le> p \<and> nat p div 8 < length bm then Some (bitmap_set_bit bm (nat p)) else None)"

definition clear_bit_at :: "byte list \<Rightarrow> int \<Rightarrow> byte list option" where
  "clear_bit_at bm p = (if 0 \<le> p \<and> nat p div 8 < length bm then Some (bitmap_clear_bit bm (nat p)) else None)"

text \<open>The search of \<open>allocate_page\<close> for a clear bit among the first \<open>n\<close>.\<close>

fun find_free :: "byte list \<Rightarrow> nat \<Rightarrow> nat \<Rightarrow> int option option" where
  "find_free bm i 0 = Some None"
| "find_free bm i (Suc n) =
     (case bit_at bm (int i) of
        None \<Rightarrow> None
      | Some b \<Rightarrow> if b then find_free bm (Suc i) n else Some (Some (int i)))"

section \<open>The store\<close>

datatype BufferPoolOperation = ALLOCATE | DEALLOCATE

record BufferPoolLogEntry =
  log_pool :: int
  log_op :: BufferPoolOperation
  log_page :: PageNum

record Store =
  manager :: BPFrameManager
  dblwr :: DoubleWriteBuffer
  disk :: Disk
  opened :: "int \<Rightarrow> bool"
  log_lsn :: LSN
  bp_log :: "(LSN \<times> BufferPoolLogEntry) list"
  log_io :: RC

record DiskBufferPool =
  bp_id :: int
  hdr_frame :: addr
  file_open :: bool

definition frame_at :: "Store \<Rightarrow> addr \<Rightarrow> Frame" where
  "frame_at s a = memory (manager s) a"

definition upd_frame :: "addr \<Rightarrow> (Frame \<Rightarrow> Frame) \<Rightarrow> Store \<Rightarrow> Store" where
  "upd_frame a g s = s\<lparr>manager := on_frame a g (manager s)\<rparr>"

definition mark_dirty :: "Frame \<Rightarrow> Frame" where
  "mark_dirty f = f\<lparr>frame_dirty := True\<rparr>"

definition set_lsn :: "LSN \<Rightarrow> Frame \<Rightarrow> Frame" where
  "set_lsn l f = f\<lparr>frame_page := (frame_page f)\<lparr>page_lsn := l\<rparr>\<rparr>"

definition set_data :: "byte list \<Rightarrow> Frame \<Rightarrow> Frame" where
  "set_data bs f = f\<lparr>frame_page := (frame_page f)\<lparr>data := bs\<rparr>\<rparr>"

definition clear_page :: "Frame \<Rightarrow> Frame" where
  "clear_page f = f\<lparr>frame_page := zero_page\<rparr>"

definition file_header :: "DiskBufferPool \<Rightarrow> Store \<Rightarrow> BPFileHeader" where
  "file_header bp s = header_of (data (frame_page (frame_at s (hdr_frame bp))))"

definition put_header :: "DiskBufferPool \<Rightarrow> BPFileHeader \<Rightarrow> Store \<Rightarrow> Store" where
  "put_header bp h s = upd_frame (hdr_frame bp) (set_data (bytes_of_header h)) s"

text \<open>\<open>BufferPoolLogHandler::append_log\<close>: the new sequence number, or 0 when the log refuses.\<close>

definition append_log :: "DiskBufferPool \<Rightarrow> BufferPoolOperation \<Rightarrow> PageNum \<Rightarrow> Store \<Rightarrow> LSN \<times> Store" where
  "append_log bp op p s =
     (if log_io s \<noteq> SUCCESS then (0, s)
      else (log_lsn s + 1,
            s\<lparr>log_lsn := log_lsn s + 1,
              bp_log := bp_log s @ [(log_lsn s + 1, \<lparr>log_pool = bp_id bp, log_op = op, log_page = p\<rparr>)]\<rparr>))"

section \<open>Flushing, eviction and loading\<close>

type_synonym pages = "DoubleWriteBuffer \<times> Disk"

definition flush_frame :: "(int \<Rightarrow> bool) \<Rightarrow> int \<Rightarrow> addr \<Rightarrow> BPFrameManager \<Rightarrow> pages \<Rightarrow> (RC \<times> BPFrameManager \<times> pages) option" where
  "flush_frame opn i a m ps =
     (let pg = (frame_page (memory m a))\<lparr>check_sum := crc32 (data (frame_page (memory m a)))\<rparr>;
          m1 = on_frame a (\<lambda>f. f\<lparr>frame_page := pg\<rparr>) m
      in do {
        (rc, w, d) \<leftarrow> add_page opn (i, snd (frame_id (memory m a))) pg (fst ps) (snd ps);
        Some (if rc \<noteq> SUCCESS then (rc, m1, (w, d)) else (SUCCESS, on_frame a (\<lambda>f. f\<lparr>frame_dirty := False\<rparr>) m1, (w, d)))
      })"

definition flush_page_internal :: "int \<Rightarrow> addr \<Rightarrow> Store \<Rightarrow> (RC \<times> Store) option" where
  "flush_page_internal i a s =
     map_option (\<lambda>(rc, m, ps). (rc, s\<lparr>manager := m, dblwr := fst ps, disk := snd ps\<rparr>))
       (flush_frame (opened s) i a (manager s) (dblwr s, disk s))"

text \<open>The purger of \<open>allocate_frame\<close>; the frame of another pool goes through \<open>BufferPoolManager::flush_page\<close>.\<close>

definition purger :: "(int \<Rightarrow> bool) \<Rightarrow> int \<Rightarrow> pages purger" where
  "purger opn i a m ps =
     (let j = fst (frame_id (memory m a))
      in if \<not> frame_dirty (memory m a) then Some (SUCCESS, m, ps)
         else if j = i then flush_frame opn i a m ps
         else if opn j then flush_frame opn j a m ps
         else Some (INTERNAL, m, ps))"

partial_function (option) allocate_frame_loop ::
    "(int \<Rightarrow> bool) \<Rightarrow> int \<Rightarrow> PageNum \<Rightarrow> BPFrameManager \<Rightarrow> pages \<Rightarrow> (addr \<times> BPFrameManager \<times> pages) option" where
  "allocate_frame_loop opn i p m ps =
     Option.bind (fm_alloc i p m) (\<lambda>r.
       (case r of
          (Some a, m1) \<Rightarrow> Some (a, m1, ps)
        | (None, m1) \<Rightarrow>
            Option.bind (purge_frames 1 (purger opn i) m1 ps) (\<lambda>q.
              (case q of (n, m2, ps2) \<Rightarrow> allocate_frame_loop opn i p m2 ps2))))"

definition allocate_frame :: "DiskBufferPool \<Rightarrow> PageNum \<Rightarrow> Store \<Rightarrow> (addr \<times> Store) option" where
  "allocate_frame bp p s =
     map_option (\<lambda>(a, m, ps). (a, s\<lparr>manager := m, dblwr := fst ps, disk := snd ps\<rparr>))
       (allocate_frame_loop (opened s) (bp_id bp) p (manager s) (dblwr s, disk s))"

definition load_page :: "DiskBufferPool \<Rightarrow> PageNum \<Rightarrow> addr \<Rightarrow> Store \<Rightarrow> (RC \<times> Store) option" where
  "load_page bp p a s =
     do {
       r \<leftarrow> read_page (bp_id bp, p) (dblwr s);
       Some (case r of
               Inr pg \<Rightarrow> (SUCCESS, upd_frame a (\<lambda>f. f\<lparr>frame_page := pg\<rparr>) s)
             | Inl rc \<Rightarrow>
                 (case read_file_page (bp_id bp, p) (disk s) of
                    Inl rc \<Rightarrow> (rc, s)
                  | Inr pg \<Rightarrow> (SUCCESS, upd_frame a (\<lambda>f. f\<lparr>frame_page := pg, frame_id := (fst (frame_id f), p)\<rparr>) s)))
     }"

definition purge_frame :: "DiskBufferPool \<Rightarrow> PageNum \<Rightarrow> addr \<Rightarrow> Store \<Rightarrow> (RC \<times> Store) option" where
  "purge_frame bp p a s =
     (if pin_count (frame_at s a) \<noteq> 1 then Some (LOCKED_UNLOCK, s)
      else do {
        (rc, s1) \<leftarrow> (if frame_dirty (frame_at s a) then flush_page_internal (bp_id bp) a s else Some (SUCCESS, s));
        if rc \<noteq> SUCCESS then Some (rc, s1)
        else do {
          m \<leftarrow> fm_free (bp_id bp) p a (manager s1);
          Some (SUCCESS, s1\<lparr>manager := m\<rparr>)
        }
      })"

section \<open>Pages\<close>

definition get_this_page :: "DiskBufferPool \<Rightarrow> PageNum \<Rightarrow> Store \<Rightarrow> (RC \<times> addr option \<times> Store) option" where
  "get_this_page bp p s =
     (case fm_get (bp_id bp) p (manager s) of
        (Some a, m) \<Rightarrow> Some (SUCCESS, Some a, s\<lparr>manager := m\<rparr>)
      | (None, m) \<Rightarrow>
          do {
            (a, s1) \<leftarrow> allocate_frame bp p (s\<lparr>manager := m\<rparr>);
            let s2 = upd_frame a (\<lambda>f. f\<lparr>frame_id := (bp_id bp, snd (frame_id f))\<rparr>) s1;
            (rc, s3) \<leftarrow> load_page bp p a s2;
            if rc \<noteq> SUCCESS then do {
              (rc', s4) \<leftarrow> purge_frame bp p a s3;
              Some (rc, None, s4)
            }
            else Some (SUCCESS, Some a, s3)
          })"

definition allocate_page :: "DiskBufferPool \<Rightarrow> Store \<Rightarrow> (RC \<times> addr option \<times> Store) option" where
  "allocate_page bp s =
     do {
       let h = file_header bp s;
       free \<leftarrow> (if allocated_pages h < page_count h then find_free (hdr_bitmap h) 0 (nat (page_count h)) else Some None);
       case free of
         Some i \<Rightarrow> do {
           bm \<leftarrow> set_bit_at (hdr_bitmap h) i;
           let s1 = put_header bp (h\<lparr>allocated_pages := allocated_pages h + 1, hdr_bitmap := bm\<rparr>) s;
           let s2 = upd_frame (hdr_frame bp) mark_dirty s1;
           let (lsn, s3) = append_log bp ALLOCATE i s2;
           get_this_page bp i (upd_frame (hdr_frame bp) (set_lsn lsn) s3)
         }
       | None \<Rightarrow>
           if page_count h \<ge> MAX_PAGE_NUM then Some (BUFFERPOOL_NOBUF, None, s)
           else do {
             let (lsn, s1) = append_log bp ALLOCATE (page_count h) s;
             let s2 = upd_frame (hdr_frame bp) (set_lsn lsn) s1;
             let p = page_count h;
             (a, s3) \<leftarrow> allocate_frame bp p s2;
             let h3 = file_header bp s3;
             bm \<leftarrow> set_bit_at (hdr_bitmap h3) p;
             let s4 = put_header bp (h3\<lparr>allocated_pages := allocated_pages h3 + 1, page_count := page_count h3 + 1, hdr_bitmap := bm\<rparr>) s3;
             let s5 = upd_frame (hdr_frame bp) mark_dirty s4;
             let s6 = upd_frame a (\<lambda>f. (clear_page f)\<lparr>frame_id := (bp_id bp, p)\<rparr>) s5;
             (rc, s7) \<leftarrow> flush_page_internal (bp_id bp) a s6;
             Some (SUCCESS, Some a, s7)
           }
     }"

definition dispose_page :: "DiskBufferPool \<Rightarrow> PageNum \<Rightarrow> Store \<Rightarrow> (RC \<times> Store) option" where
  "dispose_page bp p s =
     (if p = 0 then Some (INTERNAL, s)
      else do {
        s1 \<leftarrow> (case fm_get (bp_id bp) p (manager s) of
                  (Some a, m) \<Rightarrow> map_option (\<lambda>m'. s\<lparr>manager := m'\<rparr>) (fm_free (bp_id bp) p a m)
                | (None, m) \<Rightarrow> Some (s\<lparr>manager := m\<rparr>));
        let (lsn, s2) = append_log bp DEALLOCATE p s1;
        let s3 = upd_frame (hdr_frame bp) (\<lambda>f. mark_dirty (set_lsn lsn f)) s2;
        let h = file_header bp s3;
        bm \<leftarrow> clear_bit_at (hdr_bitmap h) p;
        Some (SUCCESS, put_header bp (h\<lparr>allocated_pages := allocated_pages h - 1, hdr_bitmap := bm\<rparr>) s3)
      })"

definition unpin_page :: "addr \<Rightarrow> Store \<Rightarrow> (RC \<times> Store) option" where
  "unpin_page a s = map_option (\<lambda>f. (SUCCESS, upd_frame a (\<lambda>_. f) s)) (unpin (frame_at s a))"

definition purge_page :: "DiskBufferPool \<Rightarrow> PageNum \<Rightarrow> Store \<Rightarrow> (RC \<times> Store) option" where
  "purge_page bp p s =
     (case fm_get (bp_id bp) p (manager s) of
        (Some a, m) \<Rightarrow> purge_frame bp p a (s\<lparr>manager := m\<rparr>)
      | (None, m) \<Rightarrow> Some (SUCCESS, s\<lparr>manager := m\<rparr>))"

fun purge_frame_list :: "DiskBufferPool \<Rightarrow> addr list \<Rightarrow> Store \<Rightarrow> Store option" where
  "purge_frame_list bp [] s = Some s"
| "purge_frame_list bp (a # as) s =
     do { (rc, s1) \<leftarrow> purge_frame bp (snd (frame_id (frame_at s a))) a s; purge_frame_list bp as s1 }"

definition purge_all_pages :: "DiskBufferPool \<Rightarrow> Store \<Rightarrow> (RC \<times> Store) option" where
  "purge_all_pages bp s =
     do {
       (used, m) \<leftarrow> find_list (bp_id bp) (manager s);
       s1 \<leftarrow> purge_frame_list bp used (s\<lparr>manager := m\<rparr>);
       Some (SUCCESS, s1)
     }"

fun unpin_list :: "addr list \<Rightarrow> Store \<Rightarrow> Store option" where
  "unpin_list [] s = Some s"
| "unpin_list (a # as) s = do { (rc, s1) \<leftarrow> unpin_page a s; unpin_list as s1 }"

definition check_all_pages_unpinned :: "DiskBufferPool \<Rightarrow> Store \<Rightarrow> (RC \<times> Store) option" where
  "check_all_pages_unpinned bp s =
     do {
       (fs, m) \<leftarrow> find_list (bp_id bp) (manager s);
       s1 \<leftarrow> unpin_list fs (s\<lparr>manager := m\<rparr>);
       Some (SUCCESS, s1)
     }"

fun flush_list :: "DiskBufferPool \<Rightarrow> addr list \<Rightarrow> Store \<Rightarrow> (RC \<times> Store) option" where
  "flush_list bp [] s = Some (SUCCESS, s)"
| "flush_list bp (a # as) s =
     do {
       (rc, s1) \<leftarrow> flush_page_internal (bp_id bp) a s;
       (u, s2) \<leftarrow> unpin_page a s1;
       if rc \<noteq> SUCCESS then Some (rc, s2) else flush_list bp as s2
     }"

definition flush_all_pages :: "DiskBufferPool \<Rightarrow> Store \<Rightarrow> (RC \<times> Store) option" where
  "flush_all_pages bp s =
     do { (used, m) \<leftarrow> find_list (bp_id bp) (manager s); flush_list bp used (s\<lparr>manager := m\<rparr>) }"

definition recover_page :: "DiskBufferPool \<Rightarrow> PageNum \<Rightarrow> Store \<Rightarrow> (RC \<times> Store) option" where
  "recover_page bp p s =
     do {
       let h = file_header bp s;
       b \<leftarrow> bit_at (hdr_bitmap h) p;
       if b then Some (SUCCESS, s)
       else do {
         bm \<leftarrow> set_bit_at (hdr_bitmap h) p;
         Some (SUCCESS, upd_frame (hdr_frame bp) mark_dirty
           (put_header bp (h\<lparr>hdr_bitmap := bm, allocated_pages := allocated_pages h + 1, page_count := page_count h + 1\<rparr>) s))
       }
     }"

definition check_page_num :: "DiskBufferPool \<Rightarrow> PageNum \<Rightarrow> Store \<Rightarrow> RC option" where
  "check_page_num bp p s =
     (if p \<ge> page_count (file_header bp s) then Some BUFFERPOOL_INVALID_PAGE_NUM
      else do {
        b \<leftarrow> bit_at (hdr_bitmap (file_header bp s)) p;
        Some (if b then SUCCESS else BUFFERPOOL_INVALID_PAGE_NUM)
      })"

section \<open>Replaying the log\<close>

definition redo_allocate_page :: "DiskBufferPool \<Rightarrow> LSN \<Rightarrow> PageNum \<Rightarrow> Store \<Rightarrow> (RC \<times> Store) option" where
  "redo_allocate_page bp lsn p s =
     (let h = file_header bp s
      in if page_lsn (frame_page (frame_at s (hdr_frame bp))) \<ge> lsn then Some (SUCCESS, s)
         else if p < page_count h then do {
           b \<leftarrow> bit_at (hdr_bitmap h) p;
           if b then Some (SUCCESS, s)
           else do {
             bm \<leftarrow> set_bit_at (hdr_bitmap h) p;
             Some (SUCCESS, upd_frame (hdr_frame bp) mark_dirty
               (put_header bp (h\<lparr>hdr_bitmap := bm, allocated_pages := allocated_pages h + 1\<rparr>) s))
           }
         }
         else if p > page_count h then Some (INTERNAL, s)
         else if page_count h \<ge> MAX_PAGE_NUM then Some (INTERNAL, s)
         else do {
           bm \<leftarrow> set_bit_at (hdr_bitmap h) p;
           Some (SUCCESS, upd_frame (hdr_frame bp) (\<lambda>f. mark_dirty (set_lsn lsn f))
             (put_header bp (h\<lparr>allocated_pages := allocated_pages h + 1, page_count := page_count h + 1, hdr_bitmap := bm\<rparr>) s))
         })"

definition redo_deallocate_page :: "DiskBufferPool \<Rightarrow> LSN \<Rightarrow> PageNum \<Rightarrow> Store \<Rightarrow> (RC \<times> Store) option" where
  "redo_deallocate_page bp lsn p s =
     (let h = file_header bp s
      in if page_lsn (frame_page (frame_at s (hdr_frame bp))) \<ge> lsn then Some (SUCCESS, s)
         else if p \<ge> page_count h then Some (INTERNAL, s)
         else do {
           b \<leftarrow> bit_at (hdr_bitmap h) p;
           if \<not> b then Some (INTERNAL, s)
           else do {
             bm \<leftarrow> clear_bit_at (hdr_bitmap h) p;
             Some (SUCCESS, upd_frame (hdr_frame bp) (\<lambda>f. mark_dirty (set_lsn lsn f))
               (put_header bp (h\<lparr>hdr_bitmap := bm, allocated_pages := allocated_pages h - 1\<rparr>) s))
           }
         })"

text \<open>\<open>BufferPoolLogReplayer::replay\<close>; \<open>pool_of\<close> is \<open>BufferPoolManager::get_buffer_pool\<close>.\<close>

definition replay_entry :: "(int \<Rightarrow> DiskBufferPool option) \<Rightarrow> LSN \<times> BufferPoolLogEntry \<Rightarrow> Store \<Rightarrow> (RC \<times> Store) option" where
  "replay_entry pool_of e s =
     (case pool_of (log_pool (snd e)) of
        None \<Rightarrow> Some (INTERNAL, s)
      | Some bp \<Rightarrow>
          (case log_op (snd e) of
             ALLOCATE \<Rightarrow> redo_allocate_page bp (fst e) (log_page (snd e)) s
           | DEALLOCATE \<Rightarrow> redo_deallocate_page bp (fst e) (log_page (snd e)) s))"

section \<open>Opening and closing\<close>

definition close_file :: "DiskBufferPool \<Rightarrow> Store \<Rightarrow> (RC \<times> DiskBufferPool \<times> Store) option" where
  "close_file bp s =
     (if \<not> file_open bp then Some (SUCCESS, bp, s)
      else do {
        (u, s1) \<leftarrow> unpin_page (hdr_frame bp) s;
        (rc, s2) \<leftarrow> purge_all_pages bp s1;
        if rc \<noteq> SUCCESS then Some (rc, bp, s2)
        else do {
          (rc, w, d) \<leftarrow> clear_pages (bp_id bp) (dblwr s2) (disk s2);
          let s3 = s2\<lparr>dblwr := w, disk := d\<rparr>;
          if rc \<noteq> SUCCESS then Some (rc, bp, s3)
          else Some (SUCCESS, bp\<lparr>file_open := False\<rparr>, s3\<lparr>opened := (opened s3)(bp_id bp := False)\<rparr>)
        }
      })"

text \<open>\<open>DiskBufferPool::open_file\<close> on the file of pool \<open>i\<close>; the identifier is read from its first page.\<close>

definition open_file :: "int \<Rightarrow> Store \<Rightarrow> (RC \<times> DiskBufferPool option \<times> Store) option" where
  "open_file i s =
     (case read_file_page (i, BP_HEADER_PAGE) (disk s) of
        Inl rc \<Rightarrow> Some (IOERR_READ, None, s)
      | Inr pg \<Rightarrow>
          do {
            let bp0 = \<lparr>bp_id = buffer_pool_id (header_of (data pg)), hdr_frame = 0, file_open = True\<rparr>;
            (a, s1) \<leftarrow> allocate_frame bp0 BP_HEADER_PAGE s;
            let bp = bp0\<lparr>hdr_frame := a\<rparr>;
            (rc, s2) \<leftarrow> load_page bp BP_HEADER_PAGE a s1;
            if rc \<noteq> SUCCESS then do {
              (rc', s3) \<leftarrow> purge_frame bp BP_HEADER_PAGE a s2;
              Some (rc, None, s3)
            }
            else Some (SUCCESS, Some bp, s2\<lparr>opened := (opened s2)(bp_id bp := True)\<rparr>)
          })"

text \<open>\<open>BufferPoolManager::create_file\<close>: the first page of a new file, for the next free identifier.\<close>

definition new_file_header :: "int \<Rightarrow> BPFileHeader" where
  "new_file_header i = \<lparr>buffer_pool_id = i, page_count = 1, allocated_pages = 1,
     hdr_bitmap = bitmap_set_bit (replicate (BP_PAGE_DATA_SIZE - 12) 0) 0\<rparr>"

definition create_file :: "int \<Rightarrow> Store \<Rightarrow> RC \<times> Store" where
  "create_file i s =
     (if files (disk s) i \<noteq> [] then (SCHEMA_DB_EXIST, s)
      else case write_page (i, 0) (zero_page\<lparr>data := bytes_of_header (new_file_header i)\<rparr>) (disk s) of
             (rc, d) \<Rightarrow> (rc, s\<lparr>disk := d\<rparr>))"

section \<open>Iterating over the allocated pages\<close>

text \<open>The iterator keeps a pointer to the live bitmap and the number of pages at the time of \<open>init\<close>.\<close>

record BufferPoolIterator =
  it_pool :: DiskBufferPool
  it_size :: nat
  current_page_num :: PageNum

definition it_init :: "DiskBufferPool \<Rightarrow> PageNum \<Rightarrow> Store \<Rightarrow> BufferPoolIterator" where
  "it_init bp start s = \<lparr>it_pool = bp, it_size = nat (page_count (file_header bp s)),
     current_page_num = (if start \<le> 0 then -1 else start - 1)\<rparr>"

definition it_find :: "BufferPoolIterator \<Rightarrow> Store \<Rightarrow> PageNum" where
  "it_find it s = next_setted_bit (hdr_bitmap (file_header (it_pool it) s)) (it_size it) (nat (current_page_num it + 1))"

definition has_next :: "BufferPoolIterator \<Rightarrow> Store \<Rightarrow> bool" where
  "has_next it s = (it_find it s \<noteq> -1)"

definition it_next :: "BufferPoolIterator \<Rightarrow> Store \<Rightarrow> PageNum \<times> BufferPoolIterator" where
  "it_next it s =
     (let p = it_find it s in (p, if p \<noteq> -1 then it\<lparr>current_page_num := p\<rparr> else it))"

definition it_reset :: "BufferPoolIterator \<Rightarrow> BufferPoolIterator" where
  "it_reset it = it\<lparr>current_page_num := 0\<rparr>"

end
