(* ===== verification/PageAllocation.thy ===== *)
theory PageAllocation
  imports BufferPool
begin

text \<open>
  Page allocation of a buffer pool file. The header with its counters and bitmap stands for the set of
  allocated pages; allocation and disposal are steps on it (\<open>header_step\<close>), each with a log entry. Replaying the
  log from any header that reached the disk gives the header at the end of the run. The iterator returns
  the allocated pages in ascending order.
\<close>

section \<open>The header as a set of pages\<close>

definition alloc_set :: "BPFileHeader \<Rightarrow> nat set" where
  "alloc_set h = {i. i < nat (page_count h) \<and> bitmap_get_bit (hdr_bitmap h) i}"

text \<open>
  The bitmap has \<open>8164\<close> bytes, hence the bound \<open>65312\<close> on the number of pages. The source allows
  \<open>MAX_PAGE_NUM\<close>, which is 32 more.
\<close>

definition header_ok :: "BPFileHeader \<Rightarrow> bool" where
  "header_ok h \<longleftrightarrow> length (hdr_bitmap h) = 8164 \<and> 0 < page_count h \<and> page_count h \<le> 65312
     \<and> allocated_pages h = int (card (alloc_set h)) \<and> 0 \<in> alloc_set h \<and> int32 (buffer_pool_id h)"

lemma MAX_PAGE_NUM_eq: "MAX_PAGE_NUM = 65344"
  by (simp add: MAX_PAGE_NUM_def BP_PAGE_DATA_SIZE_eq)

lemma alloc_set_finite [simp]: "finite (alloc_set h)"
  by (simp add: alloc_set_def)

lemma card_alloc_set: "card (alloc_set h) \<le> nat (page_count h)"
  using card_mono [of "{..<nat (page_count h)}" "alloc_set h"] by (auto simp: alloc_set_def)

lemma header_okD:
  assumes "header_ok h"
  shows "length (hdr_bitmap h) = 8164" "0 < page_count h" "page_count h \<le> 65312"
    "allocated_pages h = int (card (alloc_set h))" "0 \<in> alloc_set h"
    "int32 (buffer_pool_id h)" "int32 (page_count h)" "int32 (allocated_pages h)"
  using assms card_alloc_set [of h] by (auto simp: header_ok_def int32_def)

lemma int32_of_prefix: "int32 v \<Longrightarrow> int32_of_bytes (int_to_bytes 4 v @ xs) = v"
  using int32_roundtrip [of v] by (simp add: int32_of_bytes_def)

lemma header_roundtrip:
  assumes "int32 (buffer_pool_id h)" "int32 (page_count h)" "int32 (allocated_pages h)"
  shows "header_of (bytes_of_header h) = h"
  using assms by (simp add: header_of_def bytes_of_header_def int32_of_prefix)

lemma index_in_page: "header_ok h \<Longrightarrow> 0 \<le> p \<Longrightarrow> p < 65312 \<Longrightarrow> nat p div 8 < length (hdr_bitmap h)"
  by (auto simp: header_okD(1))

lemma bit_at_ok:
  assumes "header_ok h" "0 \<le> p" "p < 65312"
  shows "bit_at (hdr_bitmap h) p = Some (bitmap_get_bit (hdr_bitmap h) (nat p))"
    "set_bit_at (hdr_bitmap h) p = Some (bitmap_set_bit (hdr_bitmap h) (nat p))"
    "clear_bit_at (hdr_bitmap h) p = Some (bitmap_clear_bit (hdr_bitmap h) (nat p))"
  using index_in_page [OF assms] assms(2) by (simp_all add: bit_at_def set_bit_at_def clear_bit_at_def)

lemma find_free_spec:
  assumes "(i + n) \<le> 8 * length bm"
  shows "find_free bm i n = Some None \<and> (\<forall>j. i \<le> j \<and> j < i + n \<longrightarrow> bitmap_get_bit bm j)
    \<or> (\<exists>j. find_free bm i n = Some (Some (int j)) \<and> i \<le> j \<and> j < i + n \<and> \<not> bitmap_get_bit bm j
         \<and> (\<forall>k. i \<le> k \<and> k < j \<longrightarrow> bitmap_get_bit bm k))"
  using assms
proof (induction n arbitrary: i)
  case (Suc n)
  have b: "bit_at bm (int i) = Some (bitmap_get_bit bm i)" using Suc.prems by (simp add: bit_at_def)
  show ?case
  proof (cases "bitmap_get_bit bm i")
    case True
    have le: "(\<forall>j. Suc i \<le> j \<and> j < m \<longrightarrow> bitmap_get_bit bm j) \<Longrightarrow> (\<forall>j. i \<le> j \<and> j < m \<longrightarrow> bitmap_get_bit bm j)" for m
      using True by (metis le_antisym not_less_eq_eq)
    from Suc.IH [of "Suc i"] Suc.prems True b le show ?thesis by fastforce
  qed (use b in auto)
qed auto

section \<open>Allocation and disposal\<close>

definition header_alloc :: "int \<Rightarrow> BPFileHeader \<Rightarrow> BPFileHeader" where
  "header_alloc p h = h\<lparr>allocated_pages := allocated_pages h + 1, page_count := max (page_count h) (p + 1),
     hdr_bitmap := bitmap_set_bit (hdr_bitmap h) (nat p)\<rparr>"

definition header_free :: "int \<Rightarrow> BPFileHeader \<Rightarrow> BPFileHeader" where
  "header_free p h = h\<lparr>allocated_pages := allocated_pages h - 1, hdr_bitmap := bitmap_clear_bit (hdr_bitmap h) (nat p)\<rparr>"

text \<open>The page \<open>allocate_page\<close> takes: the lowest free one below \<open>page_count\<close>, else the next one.\<close>

definition next_page :: "BPFileHeader \<Rightarrow> int \<Rightarrow> bool" where
  "next_page h p \<longleftrightarrow> 0 \<le> p \<and> p \<le> page_count h \<and> nat p \<notin> alloc_set h \<and> {..<nat p} \<subseteq> alloc_set h"

lemma alloc_set_header_alloc:
  assumes "header_ok h" "0 \<le> p" "p \<le> page_count h" "p < 65312"
  shows "alloc_set (header_alloc p h) = insert (nat p) (alloc_set h)"
proof -
  have i: "nat p div 8 < length (hdr_bitmap h)" by (rule index_in_page [OF assms(1,2,4)])
  show ?thesis
    using assms(2,3) get_bit_set_bit [OF i]
    by (auto simp: alloc_set_def header_alloc_def max_def)
qed

lemma alloc_set_header_free:
  assumes "header_ok h" "0 \<le> p" "p < 65312"
  shows "alloc_set (header_free p h) = alloc_set h - {nat p}"
  using get_bit_clear_bit [OF index_in_page [OF assms]] by (auto simp: alloc_set_def header_free_def)

lemma header_alloc_ok:
  assumes "header_ok h" "next_page h p" "p < 65312"
  shows "header_ok (header_alloc p h)"
proof -
  have p: "0 \<le> p" "p \<le> page_count h" "nat p \<notin> alloc_set h" using assms(2) by (simp_all add: next_page_def)
  note s = alloc_set_header_alloc [OF assms(1) p(1,2) assms(3)]
  show ?thesis
    using assms(1,3) p(3) unfolding header_ok_def s by (auto simp: header_alloc_def)
qed

lemma header_free_ok:
  assumes "header_ok h" "0 < p" "nat p \<in> alloc_set h"
  shows "header_ok (header_free p h)"
proof -
  have p: "0 \<le> p" "p < 65312" using assms header_okD(3) [OF assms(1)] by (auto simp: alloc_set_def)
  note s = alloc_set_header_free [OF assms(1) p]
  have "card (alloc_set h) \<ge> 1" using assms(3) by (metis One_nat_def Suc_leI alloc_set_finite card_gt_0_iff empty_iff)
  then show ?thesis
    using assms unfolding header_ok_def s by (simp add: header_free_def of_nat_diff)
qed

lemma find_free_next:
  assumes "header_ok h" "allocated_pages h < page_count h"
  obtains p where "find_free (hdr_bitmap h) 0 (nat (page_count h)) = Some (Some p)" "next_page h p" "p < page_count h"
proof -
  note ok = header_okD [OF assms(1)]
  let ?n = "nat (page_count h)"
  have "(0 + ?n) \<le> 8 * length (hdr_bitmap h)" using ok(1,3) by simp
  from find_free_spec [OF this]
  consider "\<forall>j<?n. bitmap_get_bit (hdr_bitmap h) j"
    | j where "find_free (hdr_bitmap h) 0 ?n = Some (Some (int j))" "j < ?n" "\<not> bitmap_get_bit (hdr_bitmap h) j"
      "\<forall>k<j. bitmap_get_bit (hdr_bitmap h) k" by auto
  then show thesis
  proof cases
    case 1
    then have "alloc_set h = {..<?n}" by (auto simp: alloc_set_def)
    with ok(2,4) assms(2) show thesis by (auto split: if_splits)
  next
    case (2 j)
    then have "next_page h (int j)" "int j < page_count h" by (auto simp: next_page_def alloc_set_def)
    with 2(1) that show thesis by blast
  qed
qed

lemma full_next:
  assumes "header_ok h" "\<not> allocated_pages h < page_count h"
  shows "next_page h (page_count h)"
proof -
  note ok = header_okD [OF assms(1)]
  have sub: "alloc_set h \<subseteq> {..<nat (page_count h)}" by (auto simp: alloc_set_def)
  have "card {..<nat (page_count h)} \<le> card (alloc_set h)" using assms(2) ok(4) by simp
  then have "alloc_set h = {..<nat (page_count h)}" using card_seteq [OF _ sub] by simp
  then show ?thesis using ok(2) by (simp add: next_page_def)
qed

section \<open>Runs and their log\<close>

text \<open>A step of the header of pool \<open>i\<close> with its sequence number and the log entry written for it.\<close>

inductive header_step :: "int \<Rightarrow> BPFileHeader \<times> LSN \<Rightarrow> LSN \<times> BufferPoolLogEntry \<Rightarrow> BPFileHeader \<times> LSN \<Rightarrow> bool" for i where
  alloc: "next_page h p \<Longrightarrow> p < 65312 \<Longrightarrow> k < l \<Longrightarrow>
    header_step i (h, k) (l, \<lparr>log_pool = i, log_op = ALLOCATE, log_page = p\<rparr>) (header_alloc p h, l)"
| free: "0 < p \<Longrightarrow> nat p \<in> alloc_set h \<Longrightarrow> k < l \<Longrightarrow>
    header_step i (h, k) (l, \<lparr>log_pool = i, log_op = DEALLOCATE, log_page = p\<rparr>) (header_free p h, l)"

inductive header_run :: "int \<Rightarrow> BPFileHeader \<times> LSN \<Rightarrow> (LSN \<times> BufferPoolLogEntry) list \<Rightarrow> BPFileHeader \<times> LSN \<Rightarrow> bool" for i where
  finished: "header_run i hs [] hs"
| more: "header_step i hs e hs1 \<Longrightarrow> header_run i hs1 es hs2 \<Longrightarrow> header_run i hs (e # es) hs2"

inductive_cases header_step_cases: "header_step i (h, k) e hs"
inductive_cases header_run_Nil: "header_run i hs [] hs'"
inductive_cases header_run_Cons: "header_run i hs (e # es) hs'"

lemma header_step_ok: "header_step i (h, k) e (h', k') \<Longrightarrow> header_ok h \<Longrightarrow> header_ok h'"
  by (erule header_step_cases) (auto intro: header_alloc_ok header_free_ok)

lemma header_step_lsn: "header_step i (h, k) e (h', k') \<Longrightarrow> k < fst e \<and> k' = fst e"
  by (erule header_step_cases) auto

lemma header_run_ok: "header_run i hs es hs' \<Longrightarrow> header_ok (fst hs) \<Longrightarrow> header_ok (fst hs')"
  by (induction rule: header_run.induct) (auto dest: header_step_ok)

lemma header_run_lsns: "header_run i hs es hs' \<Longrightarrow> snd hs \<le> snd hs' \<and> (\<forall>e\<in>set es. snd hs < fst e \<and> fst e \<le> snd hs')"
proof (induction rule: header_run.induct)
  case (more hs e hs1 es hs2)
  then have "snd hs < fst e" "snd hs1 = fst e" using header_step_lsn [of i "fst hs" "snd hs" e "fst hs1" "snd hs1"] by simp_all
  with more.IH show ?case by fastforce
qed simp

section \<open>The header in the store\<close>

definition header_lsn :: "DiskBufferPool \<Rightarrow> Store \<Rightarrow> LSN" where
  "header_lsn bp s = page_lsn (frame_page (frame_at s (hdr_frame bp)))"

lemma frame_at_upd [simp]: "frame_at (upd_frame a g s) b = (if b = a then g (frame_at s a) else frame_at s b)"
  by (simp add: frame_at_def upd_frame_def on_frame_def)

lemma header_sel [simp]:
  "file_header bp (upd_frame (hdr_frame bp) mark_dirty s) = file_header bp s"
  "file_header bp (upd_frame (hdr_frame bp) (set_lsn l) s) = file_header bp s"
  "file_header bp (upd_frame (hdr_frame bp) (\<lambda>f. mark_dirty (set_lsn l f)) s) = file_header bp s"
  "header_lsn bp (upd_frame (hdr_frame bp) mark_dirty s) = header_lsn bp s"
  "header_lsn bp (upd_frame (hdr_frame bp) (set_lsn l) s) = l"
  "header_lsn bp (upd_frame (hdr_frame bp) (\<lambda>f. mark_dirty (set_lsn l f)) s) = l"
  "header_lsn bp (put_header bp h s) = header_lsn bp s"
  "b \<noteq> hdr_frame bp \<Longrightarrow> frame_at (put_header bp h s) b = frame_at s b"
  by (simp_all add: file_header_def header_lsn_def put_header_def mark_dirty_def set_lsn_def set_data_def)

lemma file_header_put:
  assumes "header_ok h"
  shows "file_header bp (put_header bp h s) = h"
  using header_roundtrip [OF header_okD(6-8) [OF assms]] by (simp add: file_header_def put_header_def set_data_def)

text \<open>Replaying the entry of a step: it is skipped when the header is newer, and repeats the step otherwise.\<close>

lemma replay_skip:
  assumes "pool_of i = Some bp" "log_pool e = i" "l \<le> header_lsn bp s"
  shows "replay_entry pool_of (l, e) s = Some (SUCCESS, s)"
  using assms by (simp add: replay_entry_def redo_allocate_page_def redo_deallocate_page_def header_lsn_def Let_def
      split: BufferPoolOperation.split)

lemma replay_alloc:
  assumes ok: "header_ok h" and p: "next_page h p" "p < 65312" and pool: "pool_of i = Some bp"
    and h: "file_header bp s = h" and lsn: "header_lsn bp s < l"
  shows "\<exists>s'. replay_entry pool_of (l, \<lparr>log_pool = i, log_op = ALLOCATE, log_page = p\<rparr>) s = Some (SUCCESS, s')
    \<and> file_header bp s' = header_alloc p h \<and> header_lsn bp s' \<le> l \<and> (\<forall>b. b \<noteq> hdr_frame bp \<longrightarrow> frame_at s' b = frame_at s b)"
proof -
  let ?h = "header_alloc p h"
  have p0: "0 \<le> p" "p \<le> page_count h" "nat p \<notin> alloc_set h" using p(1) by (simp_all add: next_page_def)
  note bits = bit_at_ok [OF ok p0(1) p(2)] and put = file_header_put [OF header_alloc_ok [OF ok p]]
  have old: "\<not> l \<le> page_lsn (frame_page (frame_at s (hdr_frame bp)))" using lsn by (simp add: header_lsn_def)
  show ?thesis
  proof (cases "p < page_count h")
    case True
    have "\<not> bitmap_get_bit (hdr_bitmap h) (nat p)" using p0(1,3) True by (simp add: alloc_set_def)
    moreover have "h\<lparr>hdr_bitmap := bitmap_set_bit (hdr_bitmap h) (nat p), allocated_pages := allocated_pages h + 1\<rparr> = ?h"
      using True by (simp add: header_alloc_def max_def)
    ultimately have "replay_entry pool_of (l, \<lparr>log_pool = i, log_op = ALLOCATE, log_page = p\<rparr>) s
        = Some (SUCCESS, upd_frame (hdr_frame bp) mark_dirty (put_header bp ?h s))"
      using pool h True bits old by (simp add: replay_entry_def redo_allocate_page_def Let_def)
    then show ?thesis using put lsn by simp
  next
    case False
    then have eq: "p = page_count h" using p0(2) by simp
    then have "h\<lparr>allocated_pages := allocated_pages h + 1, page_count := page_count h + 1,
        hdr_bitmap := bitmap_set_bit (hdr_bitmap h) (nat p)\<rparr> = ?h"
      by (simp add: header_alloc_def max_def)
    then have "replay_entry pool_of (l, \<lparr>log_pool = i, log_op = ALLOCATE, log_page = p\<rparr>) s =
        Some (SUCCESS, upd_frame (hdr_frame bp) (\<lambda>f. mark_dirty (set_lsn l f)) (put_header bp ?h s))"
      using pool h eq p(2) bits old by (simp add: replay_entry_def redo_allocate_page_def Let_def MAX_PAGE_NUM_eq)
    then show ?thesis using put by simp
  qed
qed

lemma replay_free:
  assumes ok: "header_ok h" and p: "0 < p" "nat p \<in> alloc_set h" and pool: "pool_of i = Some bp"
    and h: "file_header bp s = h" and lsn: "header_lsn bp s < l"
  shows "\<exists>s'. replay_entry pool_of (l, \<lparr>log_pool = i, log_op = DEALLOCATE, log_page = p\<rparr>) s = Some (SUCCESS, s')
    \<and> file_header bp s' = header_free p h \<and> header_lsn bp s' \<le> l \<and> (\<forall>b. b \<noteq> hdr_frame bp \<longrightarrow> frame_at s' b = frame_at s b)"
proof -
  let ?h = "header_free p h"
  have p0: "0 \<le> p" "p < page_count h" "p < 65312" "bitmap_get_bit (hdr_bitmap h) (nat p)"
    using p header_okD(3) [OF ok] by (auto simp: alloc_set_def)
  note bits = bit_at_ok [OF ok p0(1,3)]
  have "h\<lparr>hdr_bitmap := bitmap_clear_bit (hdr_bitmap h) (nat p), allocated_pages := allocated_pages h - 1\<rparr> = ?h"
    by (simp add: header_free_def)
  then have "replay_entry pool_of (l, \<lparr>log_pool = i, log_op = DEALLOCATE, log_page = p\<rparr>) s =
      Some (SUCCESS, upd_frame (hdr_frame bp) (\<lambda>f. mark_dirty (set_lsn l f)) (put_header bp ?h s))"
    using pool h p0 bits lsn by (simp add: replay_entry_def redo_deallocate_page_def Let_def header_lsn_def)
  then show ?thesis using file_header_put [OF header_free_ok [OF ok p]] by simp
qed

lemma replay_step:
  assumes "header_step i (h, k) (l, e) (h', k')" "header_ok h" "pool_of i = Some bp" "file_header bp s = h" "header_lsn bp s < l"
  shows "\<exists>s'. replay_entry pool_of (l, e) s = Some (SUCCESS, s') \<and> file_header bp s' = h' \<and> header_lsn bp s' \<le> l
    \<and> (\<forall>b. b \<noteq> hdr_frame bp \<longrightarrow> frame_at s' b = frame_at s b)"
  using assms(1)
  by (rule header_step_cases)
    (use replay_alloc [of h _ pool_of i bp s l] replay_free [of h _ pool_of i bp s l] assms(2-5) in auto)

fun replay_log :: "(int \<Rightarrow> DiskBufferPool option) \<Rightarrow> (LSN \<times> BufferPoolLogEntry) list \<Rightarrow> Store \<Rightarrow> (RC \<times> Store) option" where
  "replay_log pool_of [] s = Some (SUCCESS, s)"
| "replay_log pool_of (e # es) s =
     do { (rc, s1) \<leftarrow> replay_entry pool_of e s; if rc \<noteq> SUCCESS then Some (rc, s1) else replay_log pool_of es s1 }"

lemma replay_log_append_skip:
  assumes "pool_of i = Some bp" "\<forall>e\<in>set es. log_pool (snd e) = i \<and> fst e \<le> header_lsn bp s"
  shows "replay_log pool_of (es @ es') s = replay_log pool_of es' s"
  using assms(2) replay_skip [of pool_of i bp _ _ s, OF assms(1)]
  by (induction es) (auto simp: split_beta)

lemma header_run_pool: "header_run i hs es hs' \<Longrightarrow> \<forall>e\<in>set es. log_pool (snd e) = i"
  by (induction rule: header_run.induct) (auto elim!: header_step.cases)

lemma replay_run:
  assumes "header_run i hs es hs'" "header_ok (fst hs)" "pool_of i = Some bp"
    and "file_header bp s = fst hs" "header_lsn bp s \<le> snd hs"
  shows "\<exists>s'. replay_log pool_of es s = Some (SUCCESS, s') \<and> file_header bp s' = fst hs'
    \<and> (\<forall>b. b \<noteq> hdr_frame bp \<longrightarrow> frame_at s' b = frame_at s b)"
  using assms
proof (induction arbitrary: s rule: header_run.induct)
  case (more hs e hs1 es hs2)
  obtain h k l f h1 k1 where eqs: "hs = (h, k)" "e = (l, f)" "hs1 = (h1, k1)" by (cases hs, cases e, cases hs1) blast
  note st = more.hyps(1) [unfolded eqs]
  have k: "k < l" "k1 = l" using header_step_lsn [OF st] by simp_all
  obtain s1 where s1: "replay_entry pool_of (l, f) s = Some (SUCCESS, s1)" "file_header bp s1 = h1" "header_lsn bp s1 \<le> l"
    "\<forall>b. b \<noteq> hdr_frame bp \<longrightarrow> frame_at s1 b = frame_at s b"
    using replay_step [OF st, of pool_of bp s] more.prems eqs k by auto
  have "header_ok h1" using header_step_ok [OF st] more.prems(1) eqs by simp
  then obtain s' where "replay_log pool_of es s1 = Some (SUCCESS, s')" "file_header bp s' = fst hs2"
    "\<forall>b. b \<noteq> hdr_frame bp \<longrightarrow> frame_at s' b = frame_at s1 b"
    using more.IH [of s1] more.prems(2) s1 eqs k by auto
  with s1 eqs show ?case by simp
qed simp

section \<open>Iteration\<close>

text \<open>The loop over an iterator, as the clients write it.\<close>

partial_function (option) it_collect :: "BufferPoolIterator \<Rightarrow> Store \<Rightarrow> PageNum list \<Rightarrow> PageNum list option" where
  "it_collect it s acc =
     (if has_next it s then (case it_next it s of (p, it') \<Rightarrow> it_collect it' s (acc @ [p])) else Some acc)"

definition pages_from :: "nat \<Rightarrow> BPFileHeader \<Rightarrow> PageNum list" where
  "pages_from k h = map int (filter (\<lambda>i. i \<in> alloc_set h) [k..<nat (page_count h)])"

lemma pages_from_found:
  assumes "k \<le> j" "j \<in> alloc_set h" "\<And>i. k \<le> i \<Longrightarrow> i < j \<Longrightarrow> i \<notin> alloc_set h"
  shows "pages_from k h = int j # pages_from (Suc j) h"
proof -
  have j: "j < nat (page_count h)" using assms(2) by (simp add: alloc_set_def)
  have "[k..<nat (page_count h)] = [k..<j] @ j # [Suc j..<nat (page_count h)]"
    using assms(1) j by (metis le_add_diff_inverse less_imp_le upt_add_eq_append upt_conv_Cons)
  moreover have "filter (\<lambda>i. i \<in> alloc_set h) [k..<j] = []" using assms(3) by simp
  ultimately show ?thesis using assms(2) by (simp add: pages_from_def)
qed

lemma it_collect_from:
  assumes "nat (page_count h) - k = n" "file_header (it_pool it) s = h" "it_size it = nat (page_count h)"
    and "current_page_num it = int k - 1"
  shows "it_collect it s acc = Some (acc @ pages_from k h)"
  using assms
proof (induction n arbitrary: k it acc rule: less_induct)
  case (less n)
  have f: "it_find it s = next_setted_bit (hdr_bitmap h) (nat (page_count h)) k" using less.prems by (simp add: it_find_def)
  consider "it_find it s = -1" "\<forall>j. k \<le> j \<and> j < nat (page_count h) \<longrightarrow> \<not> bitmap_get_bit (hdr_bitmap h) j"
    | j where "it_find it s = int j" "k \<le> j" "j < nat (page_count h)" "bitmap_get_bit (hdr_bitmap h) j"
      "\<forall>i. k \<le> i \<and> i < j \<longrightarrow> \<not> bitmap_get_bit (hdr_bitmap h) i"
    using next_setted_cases [of "hdr_bitmap h" "nat (page_count h)" k] unfolding f by blast
  then show ?case
  proof cases
    case 1
    then have "pages_from k h = []" by (auto simp: pages_from_def alloc_set_def filter_empty_conv)
    with 1 show ?thesis by (subst it_collect.simps) (simp add: has_next_def)
  next
    case (2 j)
    have "pages_from k h = int j # pages_from (Suc j) h"
      by (rule pages_from_found) (use 2 in \<open>auto simp: alloc_set_def\<close>)
    moreover have "it_collect (it\<lparr>current_page_num := int j\<rparr>) s (acc @ [int j]) = Some ((acc @ [int j]) @ pages_from (Suc j) h)"
      by (rule less.IH [OF _ refl]) (use 2 less.prems in auto)
    ultimately show ?thesis using 2 by (subst it_collect.simps) (simp add: has_next_def it_next_def Let_def)
  qed
qed

section \<open>Properties\<close>

text \<open>
  Every run of allocations and disposals keeps the header's invariant: the counter is the number of set
  bits, page 0 stays allocated, and the sequence numbers of the log entries increase.
\<close>

lemma header_run_invariant:
  assumes "header_run i (h, k) es (h', k')" "header_ok h"
  shows "header_ok h' \<and> k \<le> k' \<and> (\<forall>(l, e)\<in>set es. k < l \<and> l \<le> k' \<and> log_pool e = i)"
  using header_run_ok [OF assms(1)] header_run_lsns [OF assms(1)] header_run_pool [OF assms(1)] assms(2) by fastforce


text \<open>
  The iterator terminates and returns exactly the allocated pages from the start page on, in ascending
  order.
\<close>

lemma iterator_complete:
  "it_collect (it_init bp start s) s [] = Some (pages_from (nat start) (file_header bp s))"
proof -
  have "it_collect (it_init bp start s) s [] = Some ([] @ pages_from (nat start) (file_header bp s))"
    by (rule it_collect_from [OF refl]) (simp_all add: it_init_def)
  then show ?thesis by simp
qed


section \<open>Examples\<close>

lemma new_header_ok: "int32 i \<Longrightarrow> header_ok (new_file_header i)"
proof -
  assume i: "int32 i"
  have "nat 0 div 8 < length (replicate 8164 (0 :: byte))" by simp
  from get_bit_set_bit [OF this] have "alloc_set (new_file_header i) = {0}"
    by (auto simp: alloc_set_def new_file_header_def BP_PAGE_DATA_SIZE_eq)
  with i show ?thesis by (simp add: header_ok_def new_file_header_def BP_PAGE_DATA_SIZE_eq)
qed

definition ex_hdr :: BPFileHeader where
  "ex_hdr = new_file_header 1"

definition ex_entry :: BufferPoolLogEntry where
  "ex_entry = \<lparr>log_pool = 1, log_op = ALLOCATE, log_page = 1\<rparr>"

lemma ex_hdr_ok: "header_ok ex_hdr"
  by (simp add: ex_hdr_def new_header_ok int32_def)

lemma ex_run: "header_run 1 (ex_hdr, 0) [(5, ex_entry)] (header_alloc 1 ex_hdr, 5)"
proof -
  have "next_page ex_hdr (page_count ex_hdr)"
    by (rule full_next [OF ex_hdr_ok]) (simp add: ex_hdr_def new_file_header_def)
  then have "next_page ex_hdr 1" by (simp add: ex_hdr_def new_file_header_def)
  then have "header_step 1 (ex_hdr, 0) (5, ex_entry) (header_alloc 1 ex_hdr, 5)"
    unfolding ex_entry_def by (rule header_step.alloc) simp_all
  then show ?thesis by (blast intro: header_run.intros)
qed

definition ex_bp :: DiskBufferPool where
  "ex_bp = \<lparr>bp_id = 1, hdr_frame = 0, file_open = True\<rparr>"

definition ex_store :: Store where
  "ex_store = put_header ex_bp ex_hdr \<lparr>manager = ex_fm, dblwr = DiskBuffer ex_dwb, disk = ex_disk, opened = (\<lambda>_. True),
     log_lsn = 5, bp_log = [(5, ex_entry)], log_io = SUCCESS\<rparr>"


end
