(* ===== verification/PoolCoherence.thy ===== *)
theory PoolCoherence
  imports PageAllocation
begin

text \<open>
  The contents of the pages as the clients of the buffer pool see them. The content of a page is in its frame
  when it is cached, else in the double write buffer or in its file; eviction, loading, flushing and closing
  move contents between these places and must not change them. The invariant \<open>pool_inv\<close> is the contract of the
  frame manager's purger (locale \<open>frame_purger\<close>): a frame that is not dirty can be dropped, because what lies
  below has the same content.
\<close>

section \<open>Contents and the invariant\<close>

definition content :: "Page \<Rightarrow> LSN \<times> byte list" where
  "content pg = (page_lsn pg, data pg)"

definition below :: "pages \<Rightarrow> FrameId \<Rightarrow> (LSN \<times> byte list) option" where
  "below ps l = map_option content (stored (fst ps) (snd ps) l)"

definition view :: "(FrameId \<Rightarrow> addr option) \<Rightarrow> (addr \<Rightarrow> Frame) \<Rightarrow> pages \<Rightarrow> FrameId \<Rightarrow> (LSN \<times> byte list) option" where
  "view k mem ps l = (case k l of Some a \<Rightarrow> Some (content (frame_page (mem a))) | None \<Rightarrow> below ps l)"

text \<open>\<open>V\<close> are contents that must not get lost.\<close>

definition pool_inv :: "(int \<Rightarrow> bool) \<Rightarrow> (FrameId \<Rightarrow> (LSN \<times> byte list) option) \<Rightarrow>
    (FrameId \<Rightarrow> addr option) \<Rightarrow> (addr \<Rightarrow> Frame) \<Rightarrow> pages \<Rightarrow> bool" where
  "pool_inv opn V k mem ps \<longleftrightarrow> dblwr_ok opn (fst ps) (snd ps)
     \<and> (\<forall>l a. k l = Some a \<longrightarrow> opn (fst l) \<and> 0 \<le> snd l)
     \<and> (\<forall>l a. k l = Some a \<longrightarrow> frame_dirty (mem a) \<or> below ps l = Some (content (frame_page (mem a))))
     \<and> (\<forall>l c. V l = Some c \<longrightarrow> view k mem ps l = Some c)"

lemma pool_invD:
  assumes "pool_inv opn V k mem ps"
  shows "dblwr_ok opn (fst ps) (snd ps)" "k l = Some a \<Longrightarrow> opn (fst l)" "k l = Some a \<Longrightarrow> 0 \<le> snd l"
    "k l = Some a \<Longrightarrow> \<not> frame_dirty (mem a) \<Longrightarrow> below ps l = Some (content (frame_page (mem a)))"
    "V l = Some c \<Longrightarrow> view k mem ps l = Some c"
  using assms unfolding pool_inv_def by blast+

lemma pool_invI:
  assumes "dblwr_ok opn (fst ps) (snd ps)" "\<And>l a. k l = Some a \<Longrightarrow> opn (fst l) \<and> 0 \<le> snd l"
    and "\<And>l a. k l = Some a \<Longrightarrow> \<not> frame_dirty (mem a) \<Longrightarrow> below ps l = Some (content (frame_page (mem a)))"
    and "\<And>l c. V l = Some c \<Longrightarrow> view k mem ps l = Some c"
  shows "pool_inv opn V k mem ps"
  using assms unfolding pool_inv_def by blast

lemma pool_inv_frames:
  assumes "pool_inv opn V k mem ps"
    and "\<And>l a. k l = Some a \<Longrightarrow> frame_page (mem' a) = frame_page (mem a) \<and> frame_dirty (mem' a) = frame_dirty (mem a)"
  shows "pool_inv opn V k mem' ps"
proof (rule pool_invI)
  fix l c assume c: "V l = Some c"
  show "view k mem' ps l = Some c"
    using pool_invD(5) [OF assms(1) c] assms(2) [of l] by (simp add: view_def split: option.splits)
next
  fix l a assume a: "k l = Some a"
  show "opn (fst l) \<and> 0 \<le> snd l" using pool_invD(2,3) [OF assms(1) a] by simp
  assume "\<not> frame_dirty (mem' a)"
  then show "below ps l = Some (content (frame_page (mem' a)))" using pool_invD(4) [OF assms(1) a] assms(2) [OF a] by simp
qed (rule pool_invD(1) [OF assms(1)])

lemma below_kept: "kept_but ks (stored w d) (stored w' d') \<Longrightarrow> below (w, d) l = Some c \<Longrightarrow> l \<notin> ks \<Longrightarrow> below (w', d') l = Some c"
  by (auto simp: below_def dest: kept_butD)

section \<open>Flushing a frame\<close>

definition flushed_frame :: "Frame \<Rightarrow> Frame" where
  "flushed_frame f = f\<lparr>frame_page := (frame_page f)\<lparr>check_sum := crc32 (data (frame_page f))\<rparr>, frame_dirty := False\<rparr>"

lemma flushed_frame_sel [simp]:
  "frame_id (flushed_frame f) = frame_id f" "pin_count (flushed_frame f) = pin_count f"
  "content (frame_page (flushed_frame f)) = content (frame_page f)" "\<not> frame_dirty (flushed_frame f)"
  by (simp_all add: flushed_frame_def content_def)

lemma flush_frame_ok:
  assumes "dblwr_ok opn w d" "frame_id (memory m a) = (j, p)" "opn j" "0 \<le> p"
  obtains w' d' where
    "flush_frame opn j a m (w, d) = Some (SUCCESS, m\<lparr>memory := (memory m)(a := flushed_frame (memory m a))\<rparr>, (w', d'))"
    "dblwr_ok opn w' d'" "stored w' d' (j, p) = Some (frame_page (flushed_frame (memory m a)))"
    "kept_but {(j, p)} (stored w d) (stored w' d')"
proof -
  let ?pg = "(frame_page (memory m a))\<lparr>check_sum := crc32 (data (frame_page (memory m a)))\<rparr>"
  obtain w' d' where "add_page opn (j, p) ?pg w d = Some (SUCCESS, w', d')" "dblwr_ok opn w' d'"
    "stored w' d' (j, p) = Some ?pg" "kept_but {(j, p)} (stored w d) (stored w' d')"
    using dblwr.add_law [OF assms(1), of "(j, p)" ?pg] assms(3,4) by auto
  then show thesis using that assms(2) by (simp add: flush_frame_def on_frame_def flushed_frame_def Let_def)
qed

lemma pool_inv_flushed:
  assumes inv: "pool_inv opn V k mem (w, d)" and inj: "\<And>l b. k l = Some b \<Longrightarrow> frame_id (mem b) = l"
    and a: "k l0 = Some a" "stored w' d' l0 = Some (frame_page (flushed_frame (mem a)))"
    and kept: "kept_but {l0} (stored w d) (stored w' d')" and ok: "dblwr_ok opn w' d'"
  shows "pool_inv opn V k (mem(a := flushed_frame (mem a))) (w', d')"
proof (rule pool_invI)
  let ?mem = "mem(a := flushed_frame (mem a))"
  have same: "content (frame_page (?mem b)) = content (frame_page (mem b))" for b by simp
  show "dblwr_ok opn (fst (w', d')) (snd (w', d'))" using ok by simp
  show "opn (fst l) \<and> 0 \<le> snd l" if "k l = Some b" for l b using pool_invD(2,3) [OF inv that] by simp
  show "below (w', d') l = Some (content (frame_page (?mem b)))" if b: "k l = Some b" "\<not> frame_dirty (?mem b)" for l b
  proof (cases "b = a")
    case True
    then have "l = l0" using inj [OF b(1)] inj [OF a(1)] by simp
    with True a(2) show ?thesis by (simp add: below_def)
  next
    case False
    then have "l \<noteq> l0" using b(1) a(1) by auto
    with False b below_kept [OF kept pool_invD(4) [OF inv b(1)]] show ?thesis by simp
  qed
  show "view k ?mem (w', d') l = Some c" if c: "V l = Some c" for l c
  proof (cases "k l")
    case None
    then have "below (w, d) l = Some c" "l \<noteq> l0" using pool_invD(5) [OF inv c] a(1) by (auto simp: view_def)
    then show ?thesis using below_kept [OF kept] None by (simp add: view_def)
  next
    case (Some b)
    then show ?thesis using pool_invD(5) [OF inv c] same by (simp add: view_def)
  qed
qed

lemma pool_inv_drop:
  assumes inv: "pool_inv opn V k mem ps" and inj: "\<And>l b. k l = Some b \<Longrightarrow> frame_id (mem b) = l"
    and a: "k l0 = Some a" "\<not> frame_dirty (mem a)"
  shows "pool_inv opn V (k(l0 := None)) (mem(a := f)) ps"
proof (rule pool_invI)
  have other: "b \<noteq> a" if "k l = Some b" "l \<noteq> l0" for l b using inj [OF that(1)] inj [OF a(1)] that(2) by auto
  show "dblwr_ok opn (fst ps) (snd ps)" by (rule pool_invD(1) [OF inv])
  show "opn (fst l) \<and> 0 \<le> snd l" if "(k(l0 := None)) l = Some b" for l b
    using pool_invD(2,3) [OF inv, of l b] that by (simp split: if_splits)
  show "below ps l = Some (content (frame_page ((mem(a := f)) b)))"
    if "(k(l0 := None)) l = Some b" "\<not> frame_dirty ((mem(a := f)) b)" for l b
    using pool_invD(4) [OF inv, of l b] that other [of l b] by (simp split: if_splits)
  show "view (k(l0 := None)) (mem(a := f)) ps l = Some c" if c: "V l = Some c" for l c
  proof (cases "l = l0")
    case True
    then show ?thesis using pool_invD(4) [OF inv a] pool_invD(5) [OF inv c] a(1) by (simp add: view_def)
  next
    case False
    then show ?thesis using pool_invD(5) [OF inv c] other by (auto simp: view_def split: option.splits)
  qed
qed

section \<open>The purger meets its contract\<close>

lemma purger_ok:
  assumes inv: "pool_inv opn V k (memory m) ps" and inj: "\<And>l b. k l = Some b \<Longrightarrow> frame_id (memory m b) = l"
    and a: "k fid = Some a"
  obtains f ps' where "purger opn i a m ps = Some (SUCCESS, m\<lparr>memory := (memory m)(a := f)\<rparr>, ps')"
    "\<not> frame_dirty f" "frame_id f = frame_id (memory m a)" "pin_count f = pin_count (memory m a)"
    "pool_inv opn V k ((memory m)(a := f)) ps'"
proof (cases "frame_dirty (memory m a)")
  case False
  then have "purger opn i a m ps = Some (SUCCESS, m\<lparr>memory := (memory m)(a := memory m a)\<rparr>, ps)" by (simp add: purger_def)
  then show thesis by (rule that) (use False inv in simp_all)
next
  case True
  obtain w d where ps: "ps = (w, d)" by (cases ps)
  obtain j p where fid: "fid = (j, p)" by (cases fid)
  have idf: "frame_id (memory m a) = (j, p)" using inj [OF a] fid by simp
  have j: "opn j" "0 \<le> p" using pool_invD(2,3) [OF inv a] fid by simp_all
  have ok: "dblwr_ok opn w d" using pool_invD(1) [OF inv] ps by simp
  obtain w' d' where fl: "flush_frame opn j a m (w, d) = Some (SUCCESS, m\<lparr>memory := (memory m)(a := flushed_frame (memory m a))\<rparr>, (w', d'))"
    "dblwr_ok opn w' d'" "stored w' d' (j, p) = Some (frame_page (flushed_frame (memory m a)))"
    "kept_but {(j, p)} (stored w d) (stored w' d')"
    by (rule flush_frame_ok [OF ok idf j])
  have "purger opn i a m ps = Some (SUCCESS, m\<lparr>memory := (memory m)(a := flushed_frame (memory m a))\<rparr>, (w', d'))"
    using True idf j(1) fl(1) ps by (auto simp: purger_def Let_def)
  moreover have "pool_inv opn V k ((memory m)(a := flushed_frame (memory m a))) (w', d')"
    using pool_inv_flushed [OF inv [unfolded ps] inj a _ _ fl(2)] fl(3,4) fid by simp
  ultimately show thesis using that [of "flushed_frame (memory m a)" "(w', d')"] by simp
qed

lemma flush_frame_touches:
  assumes "flush_frame opn j a m ps = Some (rc, m', ps')"
  shows "\<exists>f. m' = m\<lparr>memory := (memory m)(a := f)\<rparr> \<and> frame_id f = frame_id (memory m a) \<and> pin_count f = pin_count (memory m a)"
proof -
  let ?pg = "(frame_page (memory m a))\<lparr>check_sum := crc32 (data (frame_page (memory m a)))\<rparr>"
  obtain rc0 w d where "add_page opn (j, snd (frame_id (memory m a))) ?pg (fst ps) (snd ps) = Some (rc0, w, d)"
    using assms by (auto simp: flush_frame_def Let_def split: Option.bind_splits)
  then show ?thesis
    using assms by (cases "rc0 = SUCCESS") (auto simp: flush_frame_def Let_def on_frame_def)
qed

lemma purger_touches:
  assumes "purger opn i a m ps = Some (rc, m', ps')"
  shows "\<exists>f. m' = m\<lparr>memory := (memory m)(a := f)\<rparr> \<and> frame_id f = frame_id (memory m a) \<and> pin_count f = pin_count (memory m a)"
proof (cases "m' = m")
  case True
  then show ?thesis by (intro exI [of _ "memory m a"]) simp
next
  case False
  then show ?thesis using assms by (auto simp: purger_def Let_def split: if_splits dest: flush_frame_touches)
qed

interpretation evict: frame_purger "purger opn i" "pool_inv opn V" for opn i V
proof unfold_locales
  fix a m w rc m' w'
  assume "purger opn i a m w = Some (rc, m', w')"
  then show "\<exists>f. m' = m\<lparr>memory := (memory m)(a := f)\<rparr> \<and> frame_id f = frame_id (memory m a) \<and> pin_count f = pin_count (memory m a)"
    by (rule purger_touches)
next
  fix k mem w mem' assume inv: "pool_inv opn V k mem w" and eq: "\<And>a. mem' a = (mem a)\<lparr>pin_count := pin_count (mem' a)\<rparr>"
  show "pool_inv opn V k mem' w"
    by (rule pool_inv_frames [OF inv]) (use arg_cong [OF eq, of frame_page] arg_cong [OF eq, of frame_dirty] in simp)
next
  fix k w fid a and m :: BPFrameManager
  assume p: "pool_inv opn V k (memory m) w" "\<And>l b. k l = Some b \<Longrightarrow> frame_id (memory m b) = l" "k fid = Some a"
  show "\<exists>rc m' w'. purger opn i a m w = Some (rc, m', w')" by (rule purger_ok [OF p]) auto
  fix rc w' and m' :: BPFrameManager assume "purger opn i a m w = Some (rc, m', w')"
  then show "pool_inv opn V k (memory m') w'" by (rule_tac purger_ok [OF p, of i]) auto
next
  fix k w fid a w' f and m m' :: BPFrameManager
  assume p: "pool_inv opn V k (memory m) w" "\<And>l b. k l = Some b \<Longrightarrow> frame_id (memory m b) = l" "k fid = Some a"
    and s: "purger opn i a m w = Some (SUCCESS, m', w')"
  obtain g ps' where g: "purger opn i a m w = Some (SUCCESS, m\<lparr>memory := (memory m)(a := g)\<rparr>, ps')"
    "\<not> frame_dirty g" "frame_id g = frame_id (memory m a)" "pool_inv opn V k ((memory m)(a := g)) ps'"
    by (rule purger_ok [OF p]) auto
  have "pool_inv opn V (k(fid := None)) (((memory m)(a := g))(a := f)) ps'"
    by (rule pool_inv_drop [OF g(4) _ p(3)]) (use p(2) g(2,3) in auto)
  then show "pool_inv opn V (k(fid := None)) ((memory m')(a := f)) w'" using g(1) s by simp
qed

section \<open>Allocating a frame\<close>

text \<open>There is a free frame or one that nobody has pinned.\<close>

definition frame_available :: "BPFrameManager \<Rightarrow> (FrameId \<times> addr) list \<Rightarrow> bool" where
  "frame_available m xs \<longleftrightarrow> frees (allocator m) \<noteq> [] \<or> (\<exists>a\<in>snd ` set xs. pin_count (memory m a) = 0)"

text \<open>
  What the allocation of a frame for a page that is not cached leaves: the frame is new and pinned once, the
  pages that were pinned are still in their frames, unchanged, and all contents are kept.
\<close>

definition allocated_for :: "(int \<Rightarrow> bool) \<Rightarrow> (FrameId \<Rightarrow> (LSN \<times> byte list) option) \<Rightarrow> FrameId \<Rightarrow>
    BPFrameManager \<Rightarrow> (FrameId \<times> addr) list \<Rightarrow> addr \<Rightarrow> BPFrameManager \<Rightarrow> pages \<Rightarrow> (FrameId \<times> addr) list \<Rightarrow> bool" where
  "allocated_for opn V fid m xs a m' ps' ys \<longleftrightarrow>
     frames_ok m' ((fid, a) # ys) \<and> a \<notin> snd ` set ys \<and> fid \<notin> fst ` set ys \<and> set ys \<subseteq> set xs
     \<and> pool_inv opn V (map_of ys) (memory m') ps' \<and> pin_count (memory m' a) = 1 \<and> frame_id (memory m' a) = fid
     \<and> (\<forall>l b. (l, b) \<in> set xs \<longrightarrow> 0 < pin_count (memory m b) \<longrightarrow> (l, b) \<in> set ys \<and> memory m' b = memory m b)"

lemma alloc_fresh_for:
  assumes ok: "frames_ok m xs" and inv: "pool_inv opn V (map_of xs) (memory m) ps"
    and none: "map_of xs (i, p) = None" and fr: "frees (allocator m) \<noteq> []"
  obtains a m' where "fm_alloc i p m = Some (Some a, m')" "allocated_for opn V (i, p) m xs a m' ps xs"
proof -
  obtain a fs where fs: "frees (allocator m) = a # fs" using fr by (cases "frees (allocator m)") auto
  obtain m' where m': "fm_alloc i p m = Some (Some a, m')" "frames_ok m' (((i, p), a) # xs)" "a \<notin> snd ` set xs"
    "memory m' = (memory m)(a := pin ((memory m a)\<lparr>frame_id := (i, p)\<rparr>))"
    by (rule fm_alloc_fresh [OF ok none fs])
  have other: "b \<noteq> a" if "(l, b) \<in> set xs" for l b using that m'(3) by (metis image_eqI snd_conv)
  have "pool_inv opn V (map_of xs) (memory m') ps"
    by (rule pool_inv_frames [OF inv]) (use other m'(4) in \<open>auto dest!: map_of_SomeD\<close>)
  moreover have "pin_count (memory m a) = 0" using frames_okD(8) [OF ok, of a] fs by simp
  moreover have "(i, p) \<notin> fst ` set xs" using none by (simp add: map_of_eq_None_iff)
  ultimately have "allocated_for opn V (i, p) m xs a m' ps xs"
    using m'(2-4) other by (auto simp: allocated_for_def pin_def)
  with that m'(1) show thesis by blast
qed

lemma evict_one:
  assumes ok: "frames_ok m xs" and inv: "pool_inv opn V (map_of xs) (memory m) ps"
    and un: "\<exists>a\<in>snd ` set xs. pin_count (memory m a) = 0"
  obtains n m' ps' v where "purge_frames 1 (purger opn i) m ps = Some (n, m', ps')" "frames_ok m' (keep {v} xs)"
    "pool_inv opn V (map_of (keep {v} xs)) (memory m') ps'" "pin_count (memory m v) = 0" "\<forall>b. b \<noteq> v \<longrightarrow> memory m' b = memory m b"
    "frees (allocator m') \<noteq> []"
proof -
  let ?vs = "victims (if (1::int) \<le> 0 then 1 else nat 1) (memory m) xs"
  obtain v where vs: "?vs = [v]"
  proof -
    obtain a where "a \<in> snd ` set xs" "pin_count (memory m a) = 0" using un by blast
    then have "a \<in> set (filter (\<lambda>a. can_purge (memory m a)) (map snd (rev xs)))" by (auto simp: can_purge_def)
    then obtain v vt where "filter (\<lambda>a. can_purge (memory m a)) (map snd (rev xs)) = v # vt" by (cases "filter (\<lambda>a. can_purge (memory m a)) (map snd (rev xs))") auto
    then show thesis using that by (simp add: victims_def)
  qed
  note v = victims_props [OF ok vs [symmetric]]
  obtain fid where fid: "(fid, v) \<in> set xs" using v(1) by force
  have mo: "map_of xs fid = Some v" by (rule map_of_is_SomeI [OF frames_okD(11) [OF ok] fid])
  let ?m = "m\<lparr>memory := pin_all [v] (memory m)\<rparr>"
  have okm: "frames_ok ?m xs" by (rule frames_ok_pin_all [OF ok]) (use v(1) in simp)
  have invm: "pool_inv opn V (map_of xs) (memory ?m) ps"
    by (rule pool_inv_frames [OF inv]) (simp add: pin_all_def pin_def)
  have "\<exists>m1 w1. purger opn i v ?m ps = Some (SUCCESS, m1, w1)"
    by (rule purger_ok [OF invm keyed [OF okm] mo]) auto
  with evict.purge_frames_ok [OF ok inv vs [symmetric], of i]
  obtain G m' ps' where G: "purge_frames 1 (purger opn i) m ps = Some (card G, m', ps')" "G \<subseteq> {v}" "v \<in> G"
    "frames_ok m' (keep G xs)" "pool_inv opn V (map_of (keep G xs)) (memory m') ps'"
    "\<forall>b. b \<notin> set [v] \<longrightarrow> memory m' b = memory m b" "pool_size (allocator m') = pool_size (allocator m)"
    by auto
  have "G = {v}" using G(2,3) by auto
  moreover have "length (keep {v} xs) < length xs" unfolding keep_def using fid by (intro length_filter_less [of "(fid, v)"]) auto
  then have "frees (allocator m') \<noteq> []"
    using frames_okD(10) [OF G(4)] frames_okD(10) [OF ok] G(7) \<open>G = {v}\<close> by auto
  ultimately show thesis using that [OF G(1)] G v(3) by simp
qed

lemma allocate_frame_loop_ok:
  assumes ok: "frames_ok m xs" and inv: "pool_inv opn V (map_of xs) (memory m) ps"
    and none: "map_of xs (i, p) = None" and av: "frame_available m xs"
  obtains a m' ps' ys where "allocate_frame_loop opn i p m ps = Some (a, m', ps')" "allocated_for opn V (i, p) m xs a m' ps' ys"
proof (cases "frees (allocator m) = []")
  case False
  obtain a m' where "fm_alloc i p m = Some (Some a, m')" "allocated_for opn V (i, p) m xs a m' ps xs"
    by (rule alloc_fresh_for [OF ok inv none False])
  moreover from this have "allocate_frame_loop opn i p m ps = Some (a, m', ps)" by (subst allocate_frame_loop.simps) simp
  ultimately show thesis using that by blast
next
  case True
  obtain m1 where m1: "fm_alloc i p m = Some (None, m1)" "frames_ok m1 xs" "memory m1 = memory m" "allocator m1 = allocator m"
    by (rule fm_alloc_full [OF ok none True])
  have un: "\<exists>a\<in>snd ` set xs. pin_count (memory m1 a) = 0" using av True m1(3) by (simp add: frame_available_def)
  have inv1: "pool_inv opn V (map_of xs) (memory m1) ps" using inv m1(3) by simp
  obtain n m2 ps2 v where m2: "purge_frames 1 (purger opn i) m1 ps = Some (n, m2, ps2)" "frames_ok m2 (keep {v} xs)"
    "pool_inv opn V (map_of (keep {v} xs)) (memory m2) ps2" "pin_count (memory m1 v) = 0" "\<forall>b. b \<noteq> v \<longrightarrow> memory m2 b = memory m1 b"
    "frees (allocator m2) \<noteq> []"
    by (rule evict_one [OF m1(2) inv1 un])
  have none2: "map_of (keep {v} xs) (i, p) = None" using none by (auto simp: keep_def map_of_eq_None_iff)
  obtain a m' where m': "fm_alloc i p m2 = Some (Some a, m')" "allocated_for opn V (i, p) m2 (keep {v} xs) a m' ps2 (keep {v} xs)"
    by (rule alloc_fresh_for [OF m2(2,3) none2 m2(6)])
  have step: "allocate_frame_loop opn i p m ps = Some (a, m', ps2)"
    by (subst allocate_frame_loop.simps) (simp add: m1(1) m2(1), subst allocate_frame_loop.simps, simp add: m'(1))
  have "(l, b) \<in> set (keep {v} xs) \<and> memory m2 b = memory m b" if "(l, b) \<in> set xs" "0 < pin_count (memory m b)" for l b
  proof -
    have "b \<noteq> v" using that(2) m2(4) m1(3) by auto
    then show ?thesis using that(1) m2(5) m1(3) by (simp add: keep_def)
  qed
  then have "allocated_for opn V (i, p) m xs a m' ps2 (keep {v} xs)"
    using m'(2) by (auto simp: allocated_for_def keep_def)
  with step that show thesis by blast
qed

text \<open>When every frame is pinned the loop does not end.\<close>

definition no_room :: "int \<Rightarrow> PageNum \<Rightarrow> BPFrameManager \<Rightarrow> bool" where
  "no_room i p m \<longleftrightarrow> (\<exists>xs. frames_ok m xs \<and> map_of xs (i, p) = None \<and> \<not> frame_available m xs)"

lemma no_room_step:
  assumes "no_room i p m"
  obtains m' where "fm_alloc i p m = Some (None, m')" "purge_frames 1 (purger opn i) m' ps = Some (0, m', ps)" "no_room i p m'"
proof -
  obtain xs where xs: "frames_ok m xs" "map_of xs (i, p) = None" "frees (allocator m) = []"
    "\<forall>a\<in>snd ` set xs. pin_count (memory m a) \<noteq> 0"
    using assms by (auto simp: no_room_def frame_available_def)
  obtain m' where m': "fm_alloc i p m = Some (None, m')" "frames_ok m' xs" "memory m' = memory m" "allocator m' = allocator m"
    by (rule fm_alloc_full [OF xs(1-3)])
  have "victims 1 (memory m') xs = []"
    using xs(4) m'(3) by (auto simp: victims_def can_purge_def filter_empty_conv image_iff)
  then have "purge_frames 1 (purger opn i) m' ps = Some (0, m', ps)"
    using find_victims [OF m'(2), of 1] by (simp add: purge_frames_def)
  moreover have "no_room i p m'" using xs m' by (auto simp: no_room_def frame_available_def)
  ultimately show thesis using that m'(1) by blast
qed

lemma allocate_frame_loop_stuck:
  assumes "allocate_frame_loop opn i p m ps = Some r"
  shows "\<not> no_room i p m"
proof (rule allocate_frame_loop.raw_induct [where P = "\<lambda>opn i p m ps r. \<not> no_room i p m", OF _ assms])
  fix loop opn i p m ps r
  assume IH: "\<And>opn i p m ps r. loop opn i p m ps = Some r \<Longrightarrow> \<not> no_room i p m"
    and step: "Option.bind (fm_alloc i p m) (\<lambda>r. case r of (Some a, m1) \<Rightarrow> Some (a, m1, ps)
      | (None, m1) \<Rightarrow> Option.bind (purge_frames 1 (purger opn i) m1 ps) (\<lambda>q. case q of (n, m2, ps2) \<Rightarrow> loop opn i p m2 ps2)) = Some r"
  show "\<not> no_room i p m"
  proof
    assume "no_room i p m"
    then obtain m' where m': "fm_alloc i p m = Some (None, m')" "purge_frames 1 (purger opn i) m' ps = Some (0, m', ps)" "no_room i p m'"
      by (rule no_room_step)
    then show False using step IH [of opn i p m' ps r] by simp
  qed
qed

end
