(* ===== verification/PoolPages.thy ===== *)
theory PoolPages
  imports PoolCoherence
begin

text \<open>
  The operations of the buffer pool on the contents of pages: reading, changing, allocating, flushing, purging
  a page and closing the file. They are stated over the store the pools share; the invariant of the frames and
  their contents is that of \<open>PoolCoherence\<close>.
\<close>

section \<open>Coherence of the store\<close>

definition cached :: "Store \<Rightarrow> FrameId \<Rightarrow> addr option" where
  "cached s l = fst (lru_get l (frames (manager s)))"

text \<open>The content of a page as its clients see it.\<close>

definition content_of :: "Store \<Rightarrow> FrameId \<Rightarrow> (LSN \<times> byte list) option" where
  "content_of s = view (cached s) (memory (manager s)) (dblwr s, disk s)"

definition keeps :: "Store \<Rightarrow> (FrameId \<Rightarrow> (LSN \<times> byte list) option) \<Rightarrow> (FrameId \<times> addr) list \<Rightarrow> bool" where
  "keeps s V xs \<longleftrightarrow> frames_ok (manager s) xs \<and> pool_inv (opened s) V (map_of xs) (memory (manager s)) (dblwr s, disk s)"

definition coherent :: "Store \<Rightarrow> bool" where
  "coherent s \<longleftrightarrow> (\<exists>xs. keeps s Map.empty xs)"

definition available :: "Store \<Rightarrow> bool" where
  "available s \<longleftrightarrow> (\<exists>xs. frames_ok (manager s) xs \<and> frame_available (manager s) xs)"

lemma cached_map_of: "frames_ok (manager s) xs \<Longrightarrow> cached s = map_of xs"
  using get_refines [OF frames_okD(1), of "manager s" xs] unfolding cached_def by (metis ext prod.collapse)

lemma pool_inv_view: "pool_inv opn V k mem ps \<Longrightarrow> pool_inv opn (view k mem ps) k mem ps"
  by (simp add: pool_inv_def)

lemma coherent_keeps: "coherent s \<Longrightarrow> \<exists>xs. keeps s (content_of s) xs"
  unfolding coherent_def keeps_def content_of_def using pool_inv_view by (metis cached_map_of)

lemma keeps_content:
  assumes "keeps s V xs"
  shows "coherent s" "V l = Some c \<Longrightarrow> content_of s l = Some c"
proof -
  have "pool_inv (opened s) Map.empty (map_of xs) (memory (manager s)) (dblwr s, disk s)"
    using assms unfolding keeps_def pool_inv_def by simp
  then show "coherent s" using assms unfolding coherent_def keeps_def by blast
  have "pool_inv (opened s) V (map_of xs) (memory (manager s)) (dblwr s, disk s)" using assms unfolding keeps_def by simp
  from pool_invD(5) [OF this] show "content_of s l = Some c" if "V l = Some c"
    using that assms cached_map_of [of s xs] unfolding keeps_def content_of_def by simp
qed

lemma available_for:
  assumes "available s" "frames_ok (manager s) xs"
  shows "frame_available (manager s) xs"
proof -
  obtain ys where ys: "frames_ok (manager s) ys" "frame_available (manager s) ys" using assms(1) by (auto simp: available_def)
  have "snd ` set ys = snd ` set xs" using frames_okD(3) [OF ys(1)] frames_okD(3) [OF assms(2)] by simp
  then show ?thesis using ys(2) by (simp add: frame_available_def)
qed


lemma pool_inv_load:
  assumes inv: "pool_inv opn V k mem ps" and l: "k l = None" "opn (fst l)" "0 \<le> snd l"
    and c: "below ps l = Some (content (frame_page (mem' a)))"
    and other: "\<And>l b. k l = Some b \<Longrightarrow> frame_page (mem' b) = frame_page (mem b) \<and> frame_dirty (mem' b) = frame_dirty (mem b)"
  shows "pool_inv opn V (k(l \<mapsto> a)) mem' ps"
proof (rule pool_invI)
  have inv': "pool_inv opn V k mem' ps" by (rule pool_inv_frames [OF inv other])
  show "dblwr_ok opn (fst ps) (snd ps)" by (rule pool_invD(1) [OF inv])
  show "opn (fst j) \<and> 0 \<le> snd j" if "(k(l \<mapsto> a)) j = Some b" for j b
    using that l pool_invD(2,3) [OF inv, of j b] by (cases "j = l") auto
  show "below ps j = Some (content (frame_page (mem' b)))" if "(k(l \<mapsto> a)) j = Some b" "\<not> frame_dirty (mem' b)" for j b
    using that c pool_invD(4) [OF inv', of j b] by (cases "j = l") auto
  show "view (k(l \<mapsto> a)) mem' ps j = Some v" if "V j = Some v" for j v
    using pool_invD(5) [OF inv' that] l(1) c by (cases "j = l") (auto simp: view_def)
qed

section \<open>Reading a page\<close>

lemma load_page_ok:
  assumes "dblwr_ok (opened s) (dblwr s) (disk s)" "stored (dblwr s) (disk s) (bp_id bp, p) = Some pg"
    and "frame_id (frame_at s a) = (bp_id bp, p)"
  shows "load_page bp p a s = Some (SUCCESS, upd_frame a (\<lambda>f. f\<lparr>frame_page := pg\<rparr>) s)"
proof -
  have same: "upd_frame a (\<lambda>f. f\<lparr>frame_page := pg, frame_id := (fst (frame_id f), p)\<rparr>) s = upd_frame a (\<lambda>f. f\<lparr>frame_page := pg\<rparr>) s"
  proof -
    define f where "f = memory (manager s) a"
    have "frame_id f = (bp_id bp, p)" using assms(3) by (simp add: f_def frame_at_def)
    then have "f\<lparr>frame_page := pg, frame_id := (fst (frame_id f), p)\<rparr> = f\<lparr>frame_page := pg\<rparr>" by (cases f) simp
    then show ?thesis unfolding upd_frame_def on_frame_def f_def by (rule arg_cong)
  qed
  have "read_file_page (bp_id bp, p) (disk s) = Inr pg" if "file_page (disk s) (bp_id bp, p) = Some pg"
    using that by (simp add: file_page_def split: sum.splits)
  with dblwr.load_law [OF assms(1), of "(bp_id bp, p)"] assms(2) same show ?thesis by (auto simp: load_page_def)
qed

text \<open>
  What reading a page promises its caller: the frame holds the page, pinned; the pages that others have pinned
  stay where they are, with the same bytes, and no page of any file changes its content.
\<close>

definition page_in :: "Store \<Rightarrow> FrameId \<Rightarrow> addr \<Rightarrow> Store \<Rightarrow> bool" where
  "page_in s l a s' \<longleftrightarrow> coherent s' \<and> cached s' l = Some a \<and> frame_id (frame_at s' a) = l \<and> 0 < pin_count (frame_at s' a)
     \<and> content_of s' l = Some (content (frame_page (frame_at s' a)))
     \<and> (\<forall>j c. content_of s j = Some c \<longrightarrow> content_of s' j = Some c)
     \<and> (\<forall>j b. cached s j = Some b \<longrightarrow> 0 < pin_count (frame_at s b) \<longrightarrow> cached s' j = Some b \<and> (b \<noteq> a \<longrightarrow> frame_at s' b = frame_at s b))"



lemma keeps_cached: "keeps s V xs \<Longrightarrow> cached s = map_of xs"
  unfolding keeps_def using cached_map_of by blast

lemma page_inI:
  assumes ks: "keeps s (content_of s) xs" and ks': "keeps s' (content_of s) ys" and a: "map_of ys l = Some a"
    and pin: "0 < pin_count (frame_at s' a)"
    and other: "\<And>j b. map_of xs j = Some b \<Longrightarrow> 0 < pin_count (frame_at s b) \<Longrightarrow> map_of ys j = Some b \<and> (b \<noteq> a \<longrightarrow> frame_at s' b = frame_at s b)"
  shows "page_in s l a s'"
proof -
  have f: "frames_ok (manager s') ys" using ks' by (simp add: keeps_def)
  have "frame_id (frame_at s' a) = l" unfolding frame_at_def by (rule frames_okD(6) [OF f map_of_SomeD [OF a]])
  moreover have "content_of s' l = Some (content (frame_page (frame_at s' a)))"
    by (simp add: content_of_def view_def keeps_cached [OF ks'] a frame_at_def)
  ultimately show ?thesis
    unfolding page_in_def keeps_cached [OF ks] keeps_cached [OF ks']
    using keeps_content [OF ks'] a pin other by blast
qed

lemma get_this_page_hit:
  assumes ks: "keeps s (content_of s) xs" and a: "map_of xs (bp_id bp, p) = Some a"
  obtains s' where "get_this_page bp p s = Some (SUCCESS, Some a, s')" "page_in s (bp_id bp, p) a s'"
proof -
  have f: "frames_ok (manager s) xs" and inv: "pool_inv (opened s) (content_of s) (map_of xs) (memory (manager s)) (dblwr s, disk s)"
    using ks by (simp_all add: keeps_def)
  let ?ys = "((bp_id bp, p), a) # without (bp_id bp, p) xs"
  obtain m where m: "get_internal (bp_id bp, p) (manager s) = (Some a, m)" "frames_ok m ?ys"
    "memory m = (memory (manager s))(a := pin (memory (manager s) a))"
    by (rule get_internal_hit [OF f a])
  let ?s = "s\<lparr>manager := m\<rparr>"
  have ys: "map_of ?ys = map_of xs" using a by (simp add: map_of_without_upd fun_eq_iff)
  have "pool_inv (opened s) (content_of s) (map_of ?ys) (memory m) (dblwr s, disk s)"
    unfolding ys by (rule pool_inv_frames [OF inv]) (simp add: m(3) pin_def)
  then have "keeps ?s (content_of s) ?ys" using m(2) by (simp add: keeps_def)
  then have "page_in s (bp_id bp, p) a ?s"
  proof (rule page_inI [OF ks])
    show "0 < pin_count (frame_at ?s a)"
      using frames_okD(7) [OF f map_of_SomeD [OF a]] by (simp add: frame_at_def m(3) pin_def)
  qed (use m(3) ys a in \<open>auto simp: frame_at_def\<close>)
  moreover have "get_this_page bp p s = Some (SUCCESS, Some a, ?s)" by (simp add: get_this_page_def fm_get_def m(1))
  ultimately show thesis using that by blast
qed


lemma get_this_page_miss:
  assumes ks: "keeps s (content_of s) xs" and none: "map_of xs (bp_id bp, p) = None"
    and av: "available s" and op: "opened s (bp_id bp)" "0 \<le> p" and c: "content_of s (bp_id bp, p) = Some c"
  obtains a s' where "get_this_page bp p s = Some (SUCCESS, Some a, s')" "page_in s (bp_id bp, p) a s'"
proof -
  let ?l = "(bp_id bp, p)"
  have f: "frames_ok (manager s) xs" and inv: "pool_inv (opened s) (content_of s) (map_of xs) (memory (manager s)) (dblwr s, disk s)"
    using ks by (simp_all add: keeps_def)
  obtain m where m: "get_internal ?l (manager s) = (None, m)" "frames_ok m xs" "memory m = memory (manager s)" "allocator m = allocator (manager s)"
    by (rule get_internal_miss [OF f none])
  have inv1: "pool_inv (opened s) (content_of s) (map_of xs) (memory m) (dblwr s, disk s)" using inv m(3) by simp
  have av1: "frame_available m xs" using available_for [OF av f] m(3,4) by (simp add: frame_available_def)
  obtain a m' ps ys where al: "allocate_frame_loop (opened s) (bp_id bp) p m (dblwr s, disk s) = Some (a, m', ps)"
    and alf: "allocated_for (opened s) (content_of s) ?l m xs a m' ps ys"
    by (rule allocate_frame_loop_ok [OF m(2) inv1 none av1])
  have f': "frames_ok m' ((?l, a) # ys)" and iv: "pool_inv (opened s) (content_of s) (map_of ys) (memory m') ps"
    and fr: "a \<notin> snd ` set ys" "?l \<notin> fst ` set ys" "pin_count (memory m' a) = 1" "frame_id (memory m' a) = ?l"
    and kept: "\<And>j b. (j, b) \<in> set xs \<Longrightarrow> 0 < pin_count (memory m b) \<Longrightarrow> (j, b) \<in> set ys \<and> memory m' b = memory m b"
    using alf unfolding allocated_for_def by blast+
  have no: "map_of ys ?l = None" using fr(2) by (simp add: map_of_eq_None_iff)
  have "below ps ?l = Some c" using pool_invD(5) [OF iv c] no by (simp add: view_def)
  then obtain pg where pg: "stored (fst ps) (snd ps) ?l = Some pg" "content pg = c" by (auto simp: below_def)
  define s1 where "s1 = s\<lparr>manager := m', dblwr := fst ps, disk := snd ps\<rparr>"
  define s2 where "s2 = upd_frame a (\<lambda>f. f\<lparr>frame_page := pg\<rparr>) s1"
  have other: "b \<noteq> a" if "map_of ys j = Some b" for j b using map_of_SomeD [OF that] fr(1) by (metis image_eqI snd_conv)
  have "frames_ok (manager s2) ((?l, a) # ys)"
    unfolding s2_def upd_frame_def s1_def using frames_ok_on_frame [OF f', of ?l a "\<lambda>f. f\<lparr>frame_page := pg\<rparr>"] fr(3,4) by simp
  moreover have "pool_inv (opened s) (content_of s) ((map_of ys)(?l \<mapsto> a)) (memory (manager s2)) ps"
    by (rule pool_inv_load [OF iv no])
      (use op pg other in \<open>auto simp: s2_def s1_def upd_frame_def on_frame_def below_def\<close>)
  ultimately have ks2: "keeps s2 (content_of s) ((?l, a) # ys)"
    by (simp add: keeps_def s2_def s1_def upd_frame_def)
  have "page_in s ?l a s2"
  proof (rule page_inI [OF ks ks2])
    fix j b assume jb: "map_of xs j = Some b" "0 < pin_count (frame_at s b)"
    then have k: "(j, b) \<in> set ys" "memory m' b = memory m b" using kept [OF map_of_SomeD [OF jb(1)]] m(3) by (simp_all add: frame_at_def)
    have "distinct (map fst ((?l, a) # ys))" by (rule frames_okD(11) [OF f'])
    then show "map_of ((?l, a) # ys) j = Some b \<and> (b \<noteq> a \<longrightarrow> frame_at s2 b = frame_at s b)"
      using k m(3) by (intro conjI map_of_is_SomeI) (auto simp: frame_at_def s2_def s1_def upd_frame_def on_frame_def)
  qed (simp_all add: s2_def s1_def upd_frame_def frame_at_def on_frame_def fr(3))
  moreover have "get_this_page bp p s = Some (SUCCESS, Some a, s2)"
  proof -
    have "allocate_frame bp p (s\<lparr>manager := m\<rparr>) = Some (a, s1)" by (simp add: allocate_frame_def al s1_def)
    moreover have "upd_frame a (\<lambda>f. f\<lparr>frame_id := (bp_id bp, snd (frame_id f))\<rparr>) s1 = s1"
    proof -
      have g: "(memory m' a)\<lparr>frame_id := ?l\<rparr> = memory m' a" using fr(4) by (cases "memory m' a") simp
      show ?thesis by (simp add: upd_frame_def on_frame_def s1_def fr(4) g)
    qed
    moreover have "load_page bp p a s1 = Some (SUCCESS, s2)"
      unfolding s2_def by (rule load_page_ok) (use pool_invD(1) [OF iv] pg fr(4) in \<open>simp_all add: s1_def frame_at_def\<close>)
    ultimately show ?thesis by (simp add: get_this_page_def fm_get_def m(1))
  qed
  ultimately show thesis using that by blast
qed


section \<open>Purging pages and closing the file\<close>

lemma purge_frame_ok:
  assumes ks: "keeps s V xs" and a: "map_of xs (bp_id bp, p) = Some a" and pin: "pin_count (frame_at s a) = 1"
  obtains s' where "purge_frame bp p a s = Some (SUCCESS, s')" "keeps s' V (without (bp_id bp, p) xs)" "opened s' = opened s"
    "\<forall>b. b \<noteq> a \<longrightarrow> frame_at s' b = frame_at s b"
proof -
  let ?l = "(bp_id bp, p)" and ?m = "manager s"
  have f: "frames_ok ?m xs" and inv: "pool_inv (opened s) V (map_of xs) (memory ?m) (dblwr s, disk s)"
    using ks by (simp_all add: keeps_def)
  have mem: "(?l, a) \<in> set xs" by (rule map_of_SomeD [OF a])
  have ida: "frame_id (memory ?m a) = ?l" by (rule frames_okD(6) [OF f mem])
  obtain g ps where g: "purger (opened s) (bp_id bp) a ?m (dblwr s, disk s) = Some (SUCCESS, ?m\<lparr>memory := (memory ?m)(a := g)\<rparr>, ps)"
    "\<not> frame_dirty g" "frame_id g = frame_id (memory ?m a)" "pin_count g = pin_count (memory ?m a)"
    "pool_inv (opened s) V (map_of xs) ((memory ?m)(a := g)) ps"
    by (rule purger_ok [OF inv keyed [OF f] a])
  let ?m1 = "?m\<lparr>memory := (memory ?m)(a := g)\<rparr>"
  have f1: "frames_ok ?m1 xs"
    using frames_ok_on_frame [OF f mem, of "\<lambda>_. g"] ida g(3,4) frames_okD(7) [OF f mem] by (simp add: on_frame_def)
  obtain m' h where m': "free_internal ?l a ?m1 = Some m'" "frames_ok m' (without ?l xs)" "memory m' = (memory ?m1)(a := h)"
    by (rule free_internal_ok [OF f1 a]) (use pin g(4) in \<open>simp_all add: frame_at_def\<close>)
  let ?s = "s\<lparr>manager := m', dblwr := fst ps, disk := snd ps\<rparr>"
  have "pool_inv (opened s) V ((map_of xs)(?l := None)) (((memory ?m)(a := g))(a := h)) ps"
    by (rule pool_inv_drop [OF g(5) _ a]) (use keyed [OF f1] g(2) in simp_all)
  then have "keeps ?s V (without ?l xs)" using m'(2,3) by (simp add: keeps_def map_of_without_upd)
  moreover have "purge_frame bp p a s = Some (SUCCESS, ?s)"
  proof -
    have "(if frame_dirty (frame_at s a) then flush_page_internal (bp_id bp) a s else Some (SUCCESS, s))
        = Some (SUCCESS, s\<lparr>manager := ?m1, dblwr := fst ps, disk := snd ps\<rparr>)"
      using g(1) ida by (cases ps) (auto simp: purger_def Let_def flush_page_internal_def frame_at_def split: if_splits)
    then show ?thesis using pin m'(1) by (simp add: purge_frame_def fm_free_def)
  qed
  ultimately show thesis using that m'(3) by (simp add: frame_at_def)
qed

lemma purge_frame_list_ok:
  assumes "keeps s V xs" "distinct as" "\<And>a. a \<in> set as \<Longrightarrow> \<exists>p. map_of xs (bp_id bp, p) = Some a \<and> pin_count (frame_at s a) = 1"
  shows "\<exists>s'. purge_frame_list bp as s = Some s' \<and> keeps s' V (keep (set as) xs) \<and> opened s' = opened s"
  using assms
proof (induction as arbitrary: s xs)
  case (Cons a as)
  have f: "frames_ok (manager s) xs" using Cons.prems(1) by (simp add: keeps_def)
  obtain p where p: "map_of xs (bp_id bp, p) = Some a" "pin_count (frame_at s a) = 1" using Cons.prems(3) [of a] by auto
  have ida: "frame_id (frame_at s a) = (bp_id bp, p)"
    using frames_okD(6) [OF f map_of_SomeD [OF p(1)]] by (simp add: frame_at_def)
  obtain s1 where s1: "purge_frame bp p a s = Some (SUCCESS, s1)" "keeps s1 V (without (bp_id bp, p) xs)" "opened s1 = opened s"
    "\<forall>b. b \<noteq> a \<longrightarrow> frame_at s1 b = frame_at s b"
    by (rule purge_frame_ok [OF Cons.prems(1) p])
  have "\<exists>q. map_of (without (bp_id bp, p) xs) (bp_id bp, q) = Some b \<and> pin_count (frame_at s1 b) = 1" if b: "b \<in> set as" for b
  proof -
    have ne: "b \<noteq> a" using b Cons.prems(2) by auto
    obtain q where q: "map_of xs (bp_id bp, q) = Some b" "pin_count (frame_at s b) = 1" using Cons.prems(3) [of b] b by auto
    then have "q \<noteq> p" using p(1) ne by auto
    then show ?thesis using q s1(4) ne by (auto simp: map_of_without_upd)
  qed
  from Cons.IH [OF s1(2) _ this] Cons.prems(2)
  obtain s' where s': "purge_frame_list bp as s1 = Some s'" "keeps s' V (keep (set as) (without (bp_id bp, p) xs))" "opened s' = opened s1"
    by auto
  have "keep (set as) (without (bp_id bp, p) xs) = keep (set (a # as)) xs"
    unfolding without_keep [OF f p(1)] by (auto simp: keep_def intro: filter_cong)
  then show ?case using s1(1,3) s' ida by auto
qed (simp add: keep_def)


lemma purge_all_pages_ok:
  assumes ks: "keeps s V xs" and pins: "\<And>p a. map_of xs (bp_id bp, p) = Some a \<Longrightarrow> pin_count (frame_at s a) = 0"
  obtains s' ys where "purge_all_pages bp s = Some (SUCCESS, s')" "keeps s' V ys" "opened s' = opened s"
    "\<And>p. map_of ys (bp_id bp, p) = None"
proof -
  have f: "frames_ok (manager s) xs" and inv: "pool_inv (opened s) V (map_of xs) (memory (manager s)) (dblwr s, disk s)"
    using ks by (simp_all add: keeps_def)
  let ?vs = "map snd (filter (\<lambda>(k, a). fst k = bp_id bp) xs)"
  obtain m where m: "find_list (bp_id bp) (manager s) = Some (?vs, m)" "frames_ok m xs" "memory m = pin_all ?vs (memory (manager s))"
    by (rule find_list_ok [OF f])
  let ?s = "s\<lparr>manager := m\<rparr>"
  have "pool_inv (opened s) V (map_of xs) (memory m) (dblwr s, disk s)"
    by (rule pool_inv_frames [OF inv]) (simp add: m(3) pin_all_def pin_def)
  then have ks1: "keeps ?s V xs" using m(2) by (simp add: keeps_def)
  have d: "distinct ?vs" using frames_okD(2) [OF f] by (simp add: distinct_map inj_on_def)
  have mem: "\<exists>p. map_of xs (bp_id bp, p) = Some a \<and> pin_count (frame_at ?s a) = 1" if a: "a \<in> set ?vs" for a
  proof -
    obtain p where "((bp_id bp, p), a) \<in> set xs" using a by auto
    then have "map_of xs (bp_id bp, p) = Some a" by (rule map_of_is_SomeI [OF frames_okD(11) [OF f]])
    with pins [OF this] a show ?thesis by (auto simp: frame_at_def m(3) pin_all_def pin_def)
  qed
  obtain s' where s': "purge_frame_list bp ?vs ?s = Some s'" "keeps s' V (keep (set ?vs) xs)" "opened s' = opened ?s"
    using purge_frame_list_ok [OF ks1 d mem] by blast
  have "map_of (keep (set ?vs) xs) (bp_id bp, p) = None" for p
    by (force simp: map_of_eq_None_iff keep_def)
  moreover have "purge_all_pages bp s = Some (SUCCESS, s')" using m(1) s'(1) by (simp add: purge_all_pages_def)
  ultimately show thesis using that s' by simp
qed

lemma clear_pages_keeps:
  assumes ks: "keeps s V ys" and none: "\<And>p. map_of ys (i, p) = None"
  obtains w d where "clear_pages i (dblwr s) (disk s) = Some (SUCCESS, w, d)"
    "keeps (s\<lparr>dblwr := w, disk := d, opened := (opened s)(i := False)\<rparr>) V ys"
    "\<And>p c. V (i, p) = Some c \<Longrightarrow> map_option content (file_page d (i, p)) = Some c"
proof -
  have inv: "pool_inv (opened s) V (map_of ys) (memory (manager s)) (dblwr s, disk s)" using ks by (simp add: keeps_def)
  obtain w d where cl: "clear_pages i (dblwr s) (disk s) = Some (SUCCESS, w, d)" "dblwr_ok (\<lambda>j. opened s j \<and> j \<noteq> i) w d"
    "kept_but {} (stored (dblwr s) (disk s)) (stored w d)"
    "\<forall>p pg. stored (dblwr s) (disk s) (i, p) = Some pg \<longrightarrow> file_page d (i, p) = Some pg"
    using dblwr.clear_law [OF pool_invD(1) [OF inv], of i] by auto
  let ?o = "(opened s)(i := False)"
  have kb: "below (w, d) l = Some c" if "below (dblwr s, disk s) l = Some c" for l c
    using below_kept [OF cl(3) that] by simp
  have "pool_inv ?o V (map_of ys) (memory (manager s)) (w, d)"
  proof (rule pool_invI)
    have "(\<lambda>j. opened s j \<and> j \<noteq> i) = ?o" by (auto simp: fun_eq_iff)
    then show "dblwr_ok ?o (fst (w, d)) (snd (w, d))" using cl(2) by simp
    show "?o (fst l) \<and> 0 \<le> snd l" if b: "map_of ys l = Some b" for l b
      using pool_invD(2,3) [OF inv b] none [of "snd l"] b by (cases l) auto
    show "below (w, d) l = Some (content (frame_page (memory (manager s) b)))"
      if "map_of ys l = Some b" "\<not> frame_dirty (memory (manager s) b)" for l b
      by (rule kb [OF pool_invD(4) [OF inv that]])
    show "view (map_of ys) (memory (manager s)) (w, d) l = Some c" if c: "V l = Some c" for l c
      using pool_invD(5) [OF inv c] kb by (auto simp: view_def split: option.splits)
  qed
  then have "keeps (s\<lparr>dblwr := w, disk := d, opened := ?o\<rparr>) V ys" using ks by (simp add: keeps_def)
  moreover have "map_option content (file_page d (i, p)) = Some c" if c: "V (i, p) = Some c" for p c
    using pool_invD(5) [OF inv c] none [of p] cl(4) by (auto simp: view_def below_def)
  ultimately show thesis using that cl(1) by blast
qed

text \<open>Changing one frame in place.\<close>

lemma keeps_frame:
  assumes ks: "keeps s V xs" and a: "map_of xs l = Some a"
    and g: "frame_id (g (frame_at s a)) = frame_id (frame_at s a)" "0 \<le> pin_count (g (frame_at s a))"
      "frame_page (g (frame_at s a)) = frame_page (frame_at s a)" "frame_dirty (g (frame_at s a)) = frame_dirty (frame_at s a)"
  shows "keeps (upd_frame a g s) V xs"
proof -
  have f: "frames_ok (manager s) xs" and inv: "pool_inv (opened s) V (map_of xs) (memory (manager s)) (dblwr s, disk s)"
    using ks by (simp_all add: keeps_def)
  have "frames_ok (on_frame a g (manager s)) xs"
    using g keyed [OF f a] by (intro frames_ok_on_frame [OF f map_of_SomeD [OF a]]) (simp_all add: frame_at_def)
  moreover have "pool_inv (opened s) V (map_of xs) (memory (on_frame a g (manager s))) (dblwr s, disk s)"
    by (rule pool_inv_frames [OF inv]) (use g in \<open>auto simp: on_frame_def frame_at_def\<close>)
  ultimately show ?thesis by (simp add: keeps_def upd_frame_def)
qed

lemma keeps_write:
  assumes ks: "keeps s V xs" and a: "map_of xs l = Some a"
  shows "keeps (upd_frame a (\<lambda>f. mark_dirty (set_lsn k (set_data bs f))) s) (V(l \<mapsto> (k, bs))) xs" (is "keeps (upd_frame a ?g s) _ _")
proof -
  have f: "frames_ok (manager s) xs" and inv: "pool_inv (opened s) V (map_of xs) (memory (manager s)) (dblwr s, disk s)"
    using ks by (simp_all add: keeps_def)
  have "frames_ok (on_frame a ?g (manager s)) xs"
    using keyed [OF f a] frames_okD(7) [OF f map_of_SomeD [OF a]]
    by (intro frames_ok_on_frame [OF f map_of_SomeD [OF a]]) (simp_all add: mark_dirty_def set_lsn_def set_data_def)
  moreover have "pool_inv (opened s) (V(l \<mapsto> (k, bs))) (map_of xs) (memory (on_frame a ?g (manager s))) (dblwr s, disk s)"
  proof (rule pool_invI)
    show "dblwr_ok (opened s) (fst (dblwr s, disk s)) (snd (dblwr s, disk s))" by (rule pool_invD(1) [OF inv])
    show "opened s (fst j) \<and> 0 \<le> snd j" if "map_of xs j = Some b" for j b using pool_invD(2,3) [OF inv that] by simp
    show "below (dblwr s, disk s) j = Some (content (frame_page (memory (on_frame a ?g (manager s)) b)))"
      if b: "map_of xs j = Some b" "\<not> frame_dirty (memory (on_frame a ?g (manager s)) b)" for j b
      using b(2) pool_invD(4) [OF inv b(1)] by (cases "b = a") (simp_all add: on_frame_def mark_dirty_def)
    show "view (map_of xs) (memory (on_frame a ?g (manager s))) (dblwr s, disk s) j = Some c" if c: "(V(l \<mapsto> (k, bs))) j = Some c" for j c
    proof (cases "j = l")
      case True
      then show ?thesis using a c by (auto simp: view_def on_frame_def content_def mark_dirty_def set_lsn_def set_data_def)
    next
      case False
      then have "map_of xs j \<noteq> Some a" using keyed [OF f, of j a] keyed [OF f a] by auto
      then show ?thesis using False c pool_invD(5) [OF inv, of j c] by (auto simp: view_def on_frame_def split: option.splits)
    qed
  qed
  ultimately show ?thesis by (simp add: keeps_def upd_frame_def)
qed

lemma close_file_ok:
  assumes ks: "keeps s V xs" and op: "file_open bp"
    and hdr: "map_of xs (bp_id bp, 0) = Some (hdr_frame bp)" "pin_count (frame_at s (hdr_frame bp)) = 1"
    and pins: "\<And>p a. map_of xs (bp_id bp, p) = Some a \<Longrightarrow> p \<noteq> 0 \<Longrightarrow> pin_count (frame_at s a) = 0"
  obtains s' ys where "close_file bp s = Some (SUCCESS, bp\<lparr>file_open := False\<rparr>, s')" "keeps s' V ys"
    "\<And>p c. V (bp_id bp, p) = Some c \<Longrightarrow> map_option content (file_page (disk s') (bp_id bp, p)) = Some c"
    "\<And>p. map_of ys (bp_id bp, p) = None"
proof -
  let ?i = "bp_id bp" and ?a = "hdr_frame bp"
  define g where "g = (frame_at s ?a)\<lparr>pin_count := 0\<rparr>"
  define s1 where "s1 = upd_frame ?a (\<lambda>_. g) s"
  have u: "unpin_page ?a s = Some (SUCCESS, s1)" using hdr(2) by (simp add: unpin_page_def unpin_def s1_def g_def)
  have ks1: "keeps s1 V xs" unfolding s1_def by (rule keeps_frame [OF ks hdr(1)]) (simp_all add: g_def)
  have "pin_count (frame_at s1 a) = 0" if "map_of xs (?i, p) = Some a" for p a
    using that pins [OF that] hdr(1) by (cases "p = 0") (auto simp: s1_def g_def)
  then obtain s2 ys where s2: "purge_all_pages bp s1 = Some (SUCCESS, s2)" "keeps s2 V ys" "\<And>p. map_of ys (?i, p) = None"
    by (rule purge_all_pages_ok [OF ks1]) blast+
  obtain w d where "clear_pages ?i (dblwr s2) (disk s2) = Some (SUCCESS, w, d)"
    "keeps (s2\<lparr>dblwr := w, disk := d, opened := (opened s2)(?i := False)\<rparr>) V ys"
    "\<And>p c. V (?i, p) = Some c \<Longrightarrow> map_option content (file_page d (?i, p)) = Some c"
    by (rule clear_pages_keeps [OF s2(2,3)]) blast
  moreover from this have "close_file bp s = Some (SUCCESS, bp\<lparr>file_open := False\<rparr>, s2\<lparr>dblwr := w, disk := d, opened := (opened s2)(?i := False)\<rparr>)"
    using op u s2(1) by (simp add: close_file_def)
  ultimately show thesis using that s2(3) by simp
qed

section \<open>Properties\<close>

text \<open>
  C32: Reading a page of an open file, when some frame is free or unpinned, ends and succeeds. The returned frame
  is pinned and holds the page with its current content, whether it was cached, buffered for a double write or
  only in the file. Evicting other pages on the way loses nothing: every page of every file keeps its content,
  and frames that were pinned keep their page.
\<close>

theorem get_this_page_coherent:
  assumes "coherent s" "available s" "opened s (bp_id bp)" "0 \<le> p" "content_of s (bp_id bp, p) = Some c"
  shows "\<exists>a s'. get_this_page bp p s = Some (SUCCESS, Some a, s') \<and> page_in s (bp_id bp, p) a s'
    \<and> content (frame_page (frame_at s' a)) = c"
proof -
  obtain xs where xs: "keeps s (content_of s) xs" using coherent_keeps [OF assms(1)] by blast
  obtain a s' where g: "get_this_page bp p s = Some (SUCCESS, Some a, s')" "page_in s (bp_id bp, p) a s'"
  proof (cases "map_of xs (bp_id bp, p)")
    case None
    show thesis by (rule get_this_page_miss [OF xs None assms(2-5)]) (rule that)
  next
    case (Some a)
    show thesis by (rule get_this_page_hit [OF xs Some]) (rule that)
  qed
  moreover have "content_of s' (bp_id bp, p) = Some c" "content_of s' (bp_id bp, p) = Some (content (frame_page (frame_at s' a)))"
    using g(2) assms(5) unfolding page_in_def by blast+
  then have "content (frame_page (frame_at s' a)) = c" by simp
  ultimately show ?thesis by blast
qed


text \<open>
  Allocating a frame never returns when no frame is free and every cached page is pinned: the loop evicts
  nothing and tries again for ever.
\<close>

lemma allocate_frame_no_room:
  assumes "coherent s" "\<not> available s" "cached s (bp_id bp, p) = None"
  shows "allocate_frame bp p s = None"
proof -
  obtain xs where xs: "keeps s (content_of s) xs" using coherent_keeps [OF assms(1)] by blast
  then have "no_room (bp_id bp) p (manager s)"
    using assms(2,3) keeps_cached [OF xs] by (auto simp: no_room_def keeps_def available_def)
  then have "allocate_frame_loop (opened s) (bp_id bp) p (manager s) (dblwr s, disk s) = None"
    using allocate_frame_loop_stuck by (metis not_None_eq)
  then show ?thesis by (simp add: allocate_frame_def)
qed

section \<open>Examples\<close>

definition ex_pages :: "BPFrameManager \<Rightarrow> Store" where
  "ex_pages m = \<lparr>manager = m, dblwr = DiskBuffer ex_dwb, disk = ex_disk, opened = (\<lambda>_. True), log_lsn = 0, bp_log = [], log_io = SUCCESS\<rparr>"

lemma ex_stored: "stored (DiskBuffer ex_dwb) ex_disk (i, 1) = Some (ex_dpage 0)"
  by (simp add: stored_def ex_dwb_def file_page_def read_file_page_def ex_disk_def)

lemma ex_pages_empty:
  assumes "frames_ok m []"
  shows "coherent (ex_pages m)" "content_of (ex_pages m) (i, 1) = Some (1, [0])"
proof -
  have "pool_inv (\<lambda>_. True) Map.empty Map.empty (memory m) (DiskBuffer ex_dwb, ex_disk)"
    by (rule pool_invI) (use ex_dwb_ok in simp_all)
  then show "coherent (ex_pages m)" using assms by (auto simp: coherent_def keeps_def ex_pages_def intro!: exI [of _ "[]"])
  have "cached (ex_pages m) (i, 1) = None" using cached_map_of [of "ex_pages m" "[]"] assms by (simp add: ex_pages_def)
  then show "content_of (ex_pages m) (i, 1) = Some (1, [0])"
    by (simp add: content_of_def view_def below_def ex_pages_def ex_stored content_def ex_dpage_def)
qed

theorem get_this_page_coherent_witness:
  "\<exists>a s'. get_this_page ex_bp 1 (ex_pages ex_fm) = Some (SUCCESS, Some a, s') \<and> content (frame_page (frame_at s' a)) = (1, [0])"
proof -
  have "available (ex_pages ex_fm)"
    using ex_fm_ok by (auto simp: available_def frame_available_def ex_pages_def intro!: exI [of _ "[]"])
  then show ?thesis
    using get_this_page_coherent [OF ex_pages_empty(1) [OF ex_fm_ok(1)] _ _ _ ex_pages_empty(2) [OF ex_fm_ok(1)], of ex_bp]
    by (auto simp: ex_pages_def ex_bp_def)
qed

text \<open>A pool with one frame, which holds the header page.\<close>

definition ex_small :: BPFrameManager where
  "ex_small = ex_fm\<lparr>allocator := \<lparr>pool_dynamic = False, item_num_per_pool = 1, pool_size = 1, used = {}, frees = [0]\<rparr>\<rparr>"

definition ex_full :: Store where
  "ex_full = upd_frame 0 mark_dirty (ex_pages (snd (the (fm_alloc 1 0 ex_small))))"

lemma ex_full_ok:
  "keeps ex_full Map.empty [((1, 0), 0)]" "pin_count (frame_at ex_full 0) = 1" "frees (allocator (manager ex_full)) = []"
proof -
  have ok: "frames_ok ex_small []"
    using frames_okD(1) [OF ex_fm_ok(1)] ex_fm_ok(3) by (simp add: frames_ok_def ex_small_def ex_frame_def)
  obtain m where m: "fm_alloc 1 0 ex_small = Some (Some 0, m)" "frames_ok m [((1, 0), 0)]"
    "memory m = (memory ex_small)(0 := pin ((memory ex_small 0)\<lparr>frame_id := (1, 0)\<rparr>))" "frees (allocator m) = []"
    by (rule fm_alloc_fresh [OF ok, of 1 0 0 "[]"]) (simp_all add: ex_small_def)
  have e: "ex_full = upd_frame 0 mark_dirty (ex_pages m)" by (simp add: ex_full_def m(1))
  have mem: "memory m 0 = pin (ex_frame\<lparr>frame_id := (1, 0)\<rparr>)" using m(3) ex_fm_ok(3) by (simp add: ex_small_def)
  show "pin_count (frame_at ex_full 0) = 1" by (simp add: e) (simp add: frame_at_def ex_pages_def mem mark_dirty_def pin_def ex_frame_def)
  show "frees (allocator (manager ex_full)) = []" using m(4) by (simp add: e upd_frame_def on_frame_def ex_pages_def)
  have "frames_ok (on_frame 0 mark_dirty m) [((1, 0), 0)]"
    by (rule frames_ok_on_frame [OF m(2)]) (simp_all add: mem mark_dirty_def pin_def ex_frame_def)
  moreover have "pool_inv (\<lambda>_. True) Map.empty (map_of [((1, 0), 0)]) (memory (on_frame 0 mark_dirty m)) (DiskBuffer ex_dwb, ex_disk)"
    by (rule pool_invI) (use ex_dwb_ok in \<open>auto simp: on_frame_def mark_dirty_def split: if_splits\<close>)
  ultimately show "keeps ex_full Map.empty [((1, 0), 0)]" by (simp add: keeps_def e upd_frame_def ex_pages_def)
qed


end
