(* ===== verification/CommitLog.thy ===== *)
theory CommitLog
  imports Prelude "HOL-Library.Monad_Syntax"
begin

text \<open>
  The commit log of \<^verbatim>\<open>src/observer/storage/clog\<close>: entries (\<^verbatim>\<open>log_entry.{h,cpp}\<close>, \<^verbatim>\<open>log_module.h\<close>), the buffer in memory
  (\<^verbatim>\<open>log_buffer.cpp\<close>), log files with their reader, writer and manager (\<^verbatim>\<open>log_file.cpp\<close>), the handler with its flushing
  thread (\<^verbatim>\<open>disk_log_handler.cpp\<close>) and the dispatch of replayed entries (\<^verbatim>\<open>integrated_log_replayer.cpp\<close>).

  A directory is the list of its entries in the order the system lists them; the content \<open>None\<close> is an entry that is
  not a regular file. Writing stops with an error when the device has no space left, and leaves the part that fit.
  Reading and seeking do not fail. The result \<open>None\<close> is a failed assertion or a wait that does not end.
\<close>

section \<open>Entries\<close>

datatype LogModuleId = BUFFER_POOL | BPLUS_TREE | RECORD_MANAGER | TRANSACTION

fun module_index :: "LogModuleId \<Rightarrow> int" where
  "module_index BUFFER_POOL = 0"
| "module_index BPLUS_TREE = 1"
| "module_index RECORD_MANAGER = 2"
| "module_index TRANSACTION = 3"

definition module_of_index :: "int \<Rightarrow> LogModuleId option" where
  "module_of_index i = (if i = 0 then Some BUFFER_POOL else if i = 1 then Some BPLUS_TREE
     else if i = 2 then Some RECORD_MANAGER else if i = 3 then Some TRANSACTION else None)"

record LogHeader =
  hd_lsn :: LSN
  hd_size :: int
  hd_module :: int

record LogEntry =
  le_header :: LogHeader
  le_data :: "byte list"

abbreviation le_lsn :: "LogEntry \<Rightarrow> LSN" where
  "le_lsn e \<equiv> hd_lsn (le_header e)"

definition LOG_HEADER_SIZE :: nat where
  "LOG_HEADER_SIZE = 16"

definition max_payload_size :: int where
  "max_payload_size = 4 * 1024 * 1024 - int LOG_HEADER_SIZE"

definition entry_init :: "LSN \<Rightarrow> int \<Rightarrow> byte list \<Rightarrow> RC + LogEntry" where
  "entry_init lsn module_id data =
     (if int (length data) > max_payload_size then Inl INVALID_ARGUMENT
      else Inr \<lparr>le_header = \<lparr>hd_lsn = lsn, hd_size = int (length data), hd_module = module_id\<rparr>, le_data = data\<rparr>)"

definition empty_entry :: LogEntry where
  "empty_entry = \<lparr>le_header = \<lparr>hd_lsn = 0, hd_size = 0, hd_module = 0\<rparr>, le_data = []\<rparr>"

definition total_size :: "LogEntry \<Rightarrow> int" where
  "total_size e = int LOG_HEADER_SIZE + hd_size (le_header e)"

text \<open>What the move constructor and the move assignment leave behind.\<close>

definition moved_from :: "LogEntry \<Rightarrow> LogEntry" where
  "moved_from e = \<lparr>le_header = (le_header e)\<lparr>hd_lsn := 0, hd_size := 0\<rparr>, le_data = []\<rparr>"

definition header_bytes :: "LogHeader \<Rightarrow> byte list" where
  "header_bytes h = int_to_bytes 8 (hd_lsn h) @ int_to_bytes 4 (hd_size h) @ int_to_bytes 4 (hd_module h)"

definition header_of_bytes :: "byte list \<Rightarrow> LogHeader" where
  "header_of_bytes bs = \<lparr>hd_lsn = int64_of_bytes bs, hd_size = int32_of_bytes (drop 8 bs), hd_module = int32_of_bytes (drop 12 bs)\<rparr>"

section \<open>The directory\<close>

record LogDisk =
  dk_exists :: bool
  dk_creatable :: bool
  dk_openable :: "string \<Rightarrow> bool"
  dk_entries :: "(string \<times> byte list option) list"
  dk_space :: nat

definition file_content :: "LogDisk \<Rightarrow> string \<Rightarrow> byte list option" where
  "file_content d name = Option.bind (map_of (dk_entries d) name) id"

fun put_file :: "string \<Rightarrow> byte list \<Rightarrow> (string \<times> byte list option) list \<Rightarrow> (string \<times> byte list option) list" where
  "put_file name bs [] = [(name, Some bs)]"
| "put_file name bs ((n, c) # es) = (if n = name then (n, Some bs) # es else (n, c) # put_file name bs es)"

text \<open>\<open>::open\<close> with \<open>O_CREAT\<close> on a file that is not there creates it; \<open>writen\<close> appends.\<close>

definition create_file :: "string \<Rightarrow> LogDisk \<Rightarrow> LogDisk" where
  "create_file name d = (if file_content d name = None then d\<lparr>dk_entries := put_file name [] (dk_entries d)\<rparr> else d)"

definition writen :: "string \<Rightarrow> byte list \<Rightarrow> LogDisk \<Rightarrow> bool \<times> LogDisk" where
  "writen name bs d =
     (let content = (case file_content d name of None \<Rightarrow> [] | Some c \<Rightarrow> c); k = min (length bs) (dk_space d)
      in (length bs \<le> dk_space d,
          d\<lparr>dk_entries := put_file name (content @ take k bs) (dk_entries d), dk_space := dk_space d - k\<rparr>))"

section \<open>Reading a log file\<close>

text \<open>\<open>readn\<close> for a header at a position; \<open>None\<close> is the end of the file, also inside the header.\<close>

definition read_header :: "byte list \<Rightarrow> nat \<Rightarrow> LogHeader option" where
  "read_header content pos =
     (if pos + LOG_HEADER_SIZE \<le> length content then Some (header_of_bytes (take LOG_HEADER_SIZE (drop pos content))) else None)"

function skip_to :: "LSN \<Rightarrow> byte list \<Rightarrow> nat \<Rightarrow> RC \<times> nat" where
  "skip_to start_lsn content pos =
     (case read_header content pos of
        None \<Rightarrow> (SUCCESS, max pos (length content))
      | Some h \<Rightarrow>
          if hd_lsn h \<ge> start_lsn then (SUCCESS, pos)
          else if hd_size h < 0 \<or> hd_size h > max_payload_size then (IOERR_READ, pos + LOG_HEADER_SIZE)
          else skip_to start_lsn content (pos + LOG_HEADER_SIZE + nat (hd_size h)))"
  by pat_completeness auto
termination
  by (relation "measure (\<lambda>(start_lsn, content, pos). length content - pos)")
    (auto simp: read_header_def LOG_HEADER_SIZE_def split: if_splits)

text \<open>The code of \<open>init\<close> is not looked at; a refused entry would be passed on empty.\<close>

function iterate_loop :: "(LogEntry \<Rightarrow> 's \<Rightarrow> RC \<times> 's) \<Rightarrow> byte list \<Rightarrow> nat \<Rightarrow> 's \<Rightarrow> RC \<times> 's" where
  "iterate_loop callback content pos s =
     (case read_header content pos of
        None \<Rightarrow> (SUCCESS, s)
      | Some h \<Rightarrow>
          if hd_size h < 0 \<or> hd_size h > max_payload_size then (IOERR_READ, s)
          else (let p = pos + LOG_HEADER_SIZE; n = nat (hd_size h)
                in if p + n > length content then (IOERR_READ, s)
                   else (let e = (case entry_init (hd_lsn h) (hd_module h) (take n (drop p content)) of Inl rc \<Rightarrow> empty_entry | Inr e \<Rightarrow> e)
                         in case callback e s of
                              (rc, s') \<Rightarrow> if rc \<noteq> SUCCESS then (rc, s') else iterate_loop callback content (p + n) s')))"
  by pat_completeness auto
termination
  by (relation "measure (\<lambda>(callback, content, pos, s). length content - pos)")
    (auto simp: read_header_def LOG_HEADER_SIZE_def split: if_splits)

definition file_iterate :: "(LogEntry \<Rightarrow> 's \<Rightarrow> RC \<times> 's) \<Rightarrow> LSN \<Rightarrow> byte list \<Rightarrow> 's \<Rightarrow> RC \<times> 's" where
  "file_iterate callback start_lsn content s =
     (case skip_to start_lsn content 0 of
        (rc, pos) \<Rightarrow> if rc \<noteq> SUCCESS then (rc, s) else iterate_loop callback content pos s)"

section \<open>Writing a log file\<close>

text \<open>The bounds of the writer are declared as \<open>int\<close>: sequence numbers are narrowed to 32 bits.\<close>

definition narrow32 :: "int \<Rightarrow> int" where
  "narrow32 v = signed_take_bit 31 v"

record LogFileWriter =
  wr_filename :: string
  wr_valid :: bool
  wr_last_lsn :: int
  wr_end_lsn :: int

definition new_writer :: LogFileWriter where
  "new_writer = \<lparr>wr_filename = [], wr_valid = False, wr_last_lsn = 0, wr_end_lsn = 0\<rparr>"

definition writer_open :: "string \<Rightarrow> LSN \<Rightarrow> LogFileWriter \<Rightarrow> LogDisk \<Rightarrow> RC \<times> LogFileWriter \<times> LogDisk" where
  "writer_open name end_lsn w d =
     (if wr_valid w then (FILE_OPEN, w, d)
      else (let w1 = w\<lparr>wr_filename := name, wr_end_lsn := narrow32 end_lsn\<rparr>
            in if dk_openable d name then (SUCCESS, w1\<lparr>wr_valid := True\<rparr>, create_file name d) else (FILE_OPEN, w1, d)))"

definition writer_close :: "LogFileWriter \<Rightarrow> RC \<times> LogFileWriter" where
  "writer_close w = (if \<not> wr_valid w then (FILE_NOT_OPENED, w) else (SUCCESS, w\<lparr>wr_valid := False\<rparr>))"

definition writer_write :: "LogEntry \<Rightarrow> LogFileWriter \<Rightarrow> LogDisk \<Rightarrow> RC \<times> LogFileWriter \<times> LogDisk" where
  "writer_write e w d =
     (if le_lsn e > wr_end_lsn w then (LOG_FILE_FULL, w, d)
      else if \<not> wr_valid w then (FILE_NOT_OPENED, w, d)
      else if le_lsn e \<le> wr_last_lsn w then (INVALID_ARGUMENT, w, d)
      else (case writen (wr_filename w) (header_bytes (le_header e)) d of
              (ok1, d1) \<Rightarrow>
                if \<not> ok1 then (IOERR_WRITE, w, d1)
                else (case writen (wr_filename w) (take (nat (hd_size (le_header e))) (le_data e)) d1 of
                        (ok2, d2) \<Rightarrow>
                          if \<not> ok2 then (IOERR_WRITE, w, d2)
                          else (SUCCESS, w\<lparr>wr_last_lsn := narrow32 (le_lsn e)\<rparr>, d2))))"

definition writer_full :: "LogFileWriter \<Rightarrow> bool" where
  "writer_full w \<longleftrightarrow> wr_last_lsn w \<ge> wr_end_lsn w"

section \<open>The files of a log\<close>

definition clog_prefix :: string where
  "clog_prefix = ''clog_''"

definition clog_suffix :: string where
  "clog_suffix = ''.log''"

definition digit_char :: "nat \<Rightarrow> char" where
  "digit_char k = char_of (48 + k)"

definition digit_value :: "char \<Rightarrow> nat" where
  "digit_value c = of_char c - 48"

definition is_digit :: "char \<Rightarrow> bool" where
  "is_digit c \<longleftrightarrow> 48 \<le> (of_char c :: nat) \<and> (of_char c :: nat) \<le> 57"

fun nat_string :: "nat \<Rightarrow> string" where
  "nat_string k = (if k < 10 then [digit_char k] else nat_string (k div 10) @ [digit_char (k mod 10)])"

definition int_string :: "int \<Rightarrow> string" where
  "int_string v = (if v < 0 then CHR ''-'' # nat_string (nat (- v)) else nat_string (nat v))"

definition digits_value :: "string \<Rightarrow> nat" where
  "digits_value ds = foldl (\<lambda>v c. 10 * v + digit_value c) 0 ds"

text \<open>\<open>from_chars\<close>: an optional minus sign and digits; what follows is ignored, a value out of range is an error.\<close>

definition from_chars :: "string \<Rightarrow> int option" where
  "from_chars cs =
     (let neg = (cs \<noteq> [] \<and> hd cs = CHR ''-''); ds = takeWhile is_digit (if neg then tl cs else cs);
          v = (if neg then - int (digits_value ds) else int (digits_value ds))
      in if ds = [] \<or> \<not> int64 v then None else Some v)"

definition get_lsn_from_filename :: "string \<Rightarrow> RC + LSN" where
  "get_lsn_from_filename filename =
     (let n = length filename; a = length clog_prefix; b = length clog_suffix
      in if take a filename \<noteq> clog_prefix \<or> n < b \<or> drop (n - b) filename \<noteq> clog_suffix then Inl INVALID_ARGUMENT
         else (case from_chars (take (n - b - a) (drop a filename)) of None \<Rightarrow> Inl INVALID_ARGUMENT | Some lsn \<Rightarrow> Inr lsn))"

text \<open>\<open>log_files_\<close>, a \<open>std::map\<close>: ascending keys, and \<open>emplace\<close> keeps an existing entry.\<close>

record LogFileManager =
  lf_max :: int
  lf_files :: "(LSN \<times> string) list"

fun emplace :: "LSN \<Rightarrow> string \<Rightarrow> (LSN \<times> string) list \<Rightarrow> (LSN \<times> string) list" where
  "emplace k v [] = [(k, v)]"
| "emplace k v ((k', v') # fs) = (if k < k' then (k, v) # (k', v') # fs else if k = k' then (k', v') # fs else (k', v') # emplace k v fs)"

fun collect_files :: "(string \<times> byte list option) list \<Rightarrow> (LSN \<times> string) list \<Rightarrow> (LSN \<times> string) list" where
  "collect_files [] fs = fs"
| "collect_files ((name, None) # es) fs = collect_files es fs"
| "collect_files ((name, Some c) # es) fs =
     (case get_lsn_from_filename name of
        Inl rc \<Rightarrow> collect_files es fs
      | Inr lsn \<Rightarrow> if lsn \<in> fst ` set fs then collect_files es fs else collect_files es (emplace lsn name fs))"

definition manager_init :: "int \<Rightarrow> LogFileManager \<Rightarrow> LogDisk \<Rightarrow> RC \<times> LogFileManager \<times> LogDisk" where
  "manager_init max_entries m d =
     (let m1 = m\<lparr>lf_max := max_entries\<rparr>
      in if \<not> dk_exists d \<and> \<not> dk_creatable d then (FILE_CREATE, m1, d)
         else (let d1 = d\<lparr>dk_exists := True\<rparr> in (SUCCESS, m1\<lparr>lf_files := collect_files (dk_entries d1) (lf_files m1)\<rparr>, d1)))"

definition list_files :: "LSN \<Rightarrow> LogFileManager \<Rightarrow> string list" where
  "list_files start_lsn m = map snd (filter (\<lambda>f. fst f + lf_max m - 1 \<ge> start_lsn) (lf_files m))"

definition log_file_name :: "LSN \<Rightarrow> string" where
  "log_file_name lsn = clog_prefix @ int_string lsn @ clog_suffix"

definition next_file :: "LogFileManager \<Rightarrow> LogFileWriter \<Rightarrow> LogDisk \<Rightarrow> RC \<times> LogFileManager \<times> LogFileWriter \<times> LogDisk" where
  "next_file m w d =
     (let w1 = snd (writer_close w);
          lsn = (if lf_files m \<noteq> [] then fst (last (lf_files m)) + lf_max m else 0);
          name = log_file_name lsn;
          m1 = m\<lparr>lf_files := emplace lsn name (lf_files m)\<rparr>
      in case writer_open name (lsn + lf_max m - 1) w1 d of (rc, w2, d2) \<Rightarrow> (rc, m1, w2, d2))"

definition last_file :: "LogFileManager \<Rightarrow> LogFileWriter \<Rightarrow> LogDisk \<Rightarrow> RC \<times> LogFileManager \<times> LogFileWriter \<times> LogDisk" where
  "last_file m w d =
     (if lf_files m = [] then next_file m w d
      else (let w1 = snd (writer_close w); f = last (lf_files m)
            in case writer_open (snd f) (fst f + lf_max m - 1) w1 d of (rc, w2, d2) \<Rightarrow> (rc, m, w2, d2)))"

section \<open>The buffer\<close>

record LogEntryBuffer =
  lb_entries :: "LogEntry list"
  lb_bytes :: int
  lb_current :: LSN
  lb_flushed :: LSN
  lb_max :: int

definition buffer_init :: "LSN \<Rightarrow> int \<Rightarrow> LogEntryBuffer \<Rightarrow> LogEntryBuffer" where
  "buffer_init lsn max_bytes b = b\<lparr>lb_current := lsn, lb_flushed := lsn, lb_max := (if max_bytes > 0 then max_bytes else lb_max b)\<rparr>"

text \<open>
  \<open>append\<close> waits while the buffer is full (\<open>None\<close>). The entry is moved into the queue before its size is added, so
  that the size of the entry left behind is added.
\<close>

definition buffer_append :: "int \<Rightarrow> byte list \<Rightarrow> LogEntryBuffer \<Rightarrow> ((RC + LSN) \<times> LogEntryBuffer) option" where
  "buffer_append module_id data b =
     (if lb_bytes b \<ge> lb_max b then None
      else (case entry_init 0 module_id data of
              Inl rc \<Rightarrow> Some (Inl rc, b)
            | Inr e \<Rightarrow>
                (let lsn = lb_current b + 1; e1 = e\<lparr>le_header := (le_header e)\<lparr>hd_lsn := lsn\<rparr>\<rparr>
                 in Some (Inr lsn, b\<lparr>lb_current := lsn, lb_entries := lb_entries b @ [e1], lb_bytes := lb_bytes b + total_size (moved_from e1)\<rparr>))))"

function buffer_flush :: "nat \<Rightarrow> LogEntryBuffer \<Rightarrow> LogFileWriter \<Rightarrow> LogDisk \<Rightarrow> (RC \<times> nat \<times> LogEntryBuffer \<times> LogFileWriter \<times> LogDisk) option" where
  "buffer_flush count b w d =
     (case lb_entries b of
        [] \<Rightarrow> Some (SUCCESS, count, b, w, d)
      | e # es \<Rightarrow>
          if \<not> (le_lsn e > 0 \<and> hd_size (le_header e) > 0) then None
          else (let b1 = b\<lparr>lb_entries := es, lb_bytes := lb_bytes b - total_size e\<rparr>
                in case writer_write e w d of
                     (rc, w1, d1) \<Rightarrow>
                       if rc \<noteq> SUCCESS then Some (rc, count, b1\<lparr>lb_entries := e # es\<rparr>, w1, d1)
                       else buffer_flush (count + 1) (b1\<lparr>lb_flushed := le_lsn e\<rparr>) w1 d1))"
  by pat_completeness auto
termination
  by (relation "measure (\<lambda>(count, b, w, d). length (lb_entries b))") auto

section \<open>The handler\<close>

text \<open>The thread's writer and the code it keeps from one round to the next are part of the state.\<close>

record DiskLogHandler =
  dh_thread :: bool
  dh_running :: bool
  dh_manager :: LogFileManager
  dh_buffer :: LogEntryBuffer
  dh_writer :: LogFileWriter
  dh_rc :: RC
  dh_disk :: LogDisk

definition handler_init :: "DiskLogHandler \<Rightarrow> RC \<times> DiskLogHandler" where
  "handler_init h = (case manager_init 1000 (dh_manager h) (dh_disk h) of (rc, m, d) \<Rightarrow> (rc, h\<lparr>dh_manager := m, dh_disk := d\<rparr>))"

definition handler_start :: "DiskLogHandler \<Rightarrow> RC \<times> DiskLogHandler" where
  "handler_start h =
     (if dh_thread h then (INTERNAL, h)
      else (SUCCESS, h\<lparr>dh_running := True, dh_thread := True, dh_writer := new_writer, dh_rc := SUCCESS\<rparr>))"

definition handler_stop :: "DiskLogHandler \<Rightarrow> RC \<times> DiskLogHandler" where
  "handler_stop h = (if \<not> dh_thread h then (INTERNAL, h) else (SUCCESS, h\<lparr>dh_running := False\<rparr>))"

text \<open>One round of \<open>thread_func\<close>.\<close>

definition thread_round :: "DiskLogHandler \<Rightarrow> DiskLogHandler option" where
  "thread_round h =
     (let (ready, h1) =
        (if \<not> wr_valid (dh_writer h) \<or> dh_rc h = LOG_FILE_FULL
         then (case (if dh_rc h = LOG_FILE_FULL then next_file else last_file) (dh_manager h) (dh_writer h) (dh_disk h) of
                 (rc, m, w, d) \<Rightarrow> (rc = SUCCESS, h\<lparr>dh_rc := rc, dh_manager := m, dh_writer := w, dh_disk := d\<rparr>))
         else (True, h))
      in if \<not> ready then Some h1
         else map_option (\<lambda>(rc, count, b, w, d). h1\<lparr>dh_rc := rc, dh_buffer := b, dh_writer := w, dh_disk := d\<rparr>)
                (buffer_flush 0 (dh_buffer h1) (dh_writer h1) (dh_disk h1)))"

text \<open>The thread after \<open>stop\<close>: rounds until the buffer is empty, which is what \<open>await_termination\<close> joins.\<close>

partial_function (option) thread_finish :: "DiskLogHandler \<Rightarrow> DiskLogHandler option" where
  "thread_finish h =
     (if dh_running h \<or> lb_entries (dh_buffer h) \<noteq> [] then Option.bind (thread_round h) thread_finish
      else Some (h\<lparr>dh_writer := snd (writer_close (dh_writer h))\<rparr>))"

definition await_termination :: "DiskLogHandler \<Rightarrow> (RC \<times> DiskLogHandler) option" where
  "await_termination h =
     (if \<not> dh_thread h then Some (INTERNAL, h)
      else if dh_running h then Some (INTERNAL, h)
      else map_option (\<lambda>h'. (SUCCESS, h'\<lparr>dh_thread := False\<rparr>)) (thread_finish h))"

definition handler_append :: "int \<Rightarrow> byte list \<Rightarrow> DiskLogHandler \<Rightarrow> ((RC + LSN) \<times> DiskLogHandler) option" where
  "handler_append module_id data h =
     (if \<not> dh_running h then None
      else map_option (\<lambda>(r, b). (r, h\<lparr>dh_buffer := b\<rparr>)) (buffer_append module_id data (dh_buffer h)))"

text \<open>\<open>wait_lsn\<close>: while it sleeps, the thread makes a round.\<close>

partial_function (option) wait_lsn :: "LSN \<Rightarrow> DiskLogHandler \<Rightarrow> (RC \<times> DiskLogHandler) option" where
  "wait_lsn lsn h =
     (if dh_running h \<and> lb_flushed (dh_buffer h) < lsn then Option.bind (thread_round h) (wait_lsn lsn)
      else Some (if lb_flushed (dh_buffer h) \<ge> lsn then SUCCESS else INTERNAL, h))"

fun iterate_files :: "(LogEntry \<Rightarrow> 's \<Rightarrow> RC \<times> 's) \<Rightarrow> LSN \<Rightarrow> LogDisk \<Rightarrow> string list \<Rightarrow> 's \<Rightarrow> RC \<times> 's" where
  "iterate_files consumer start_lsn d [] s = (SUCCESS, s)"
| "iterate_files consumer start_lsn d (name # names) s =
     (case file_content d name of
        None \<Rightarrow> (FILE_OPEN, s)
      | Some content \<Rightarrow>
          if \<not> dk_openable d name then (FILE_OPEN, s)
          else (case file_iterate consumer start_lsn content s of
                  (rc, s') \<Rightarrow> if rc \<noteq> SUCCESS then (rc, s') else iterate_files consumer start_lsn d names s'))"

definition handler_iterate :: "(LogEntry \<Rightarrow> 's \<Rightarrow> RC \<times> 's) \<Rightarrow> LSN \<Rightarrow> DiskLogHandler \<Rightarrow> 's \<Rightarrow> RC \<times> 's" where
  "handler_iterate consumer start_lsn h s = iterate_files consumer start_lsn (dh_disk h) (list_files start_lsn (dh_manager h)) s"

definition handler_replay :: "(LogEntry \<Rightarrow> 's \<Rightarrow> RC \<times> 's) \<Rightarrow> LSN \<Rightarrow> DiskLogHandler \<Rightarrow> 's \<Rightarrow> RC \<times> DiskLogHandler \<times> 's" where
  "handler_replay replayer start_lsn h s =
     (case handler_iterate (\<lambda>e (max_lsn, s). case replayer e s of (rc, s') \<Rightarrow> (rc, (if le_lsn e > max_lsn then le_lsn e else max_lsn, s')))
             start_lsn h (0, s) of
        (rc, (max_lsn, s')) \<Rightarrow>
          if rc \<noteq> SUCCESS then (rc, h, s') else (SUCCESS, h\<lparr>dh_buffer := buffer_init max_lsn 0 (dh_buffer h)\<rparr>, s'))"

section \<open>Dispatching replayed entries\<close>

text \<open>The four replayers and their states; an unknown module is an error.\<close>

definition integrated_replay ::
  "(LogEntry \<Rightarrow> 'p \<Rightarrow> RC \<times> 'p) \<Rightarrow> (LogEntry \<Rightarrow> 'r \<Rightarrow> RC \<times> 'r) \<Rightarrow> (LogEntry \<Rightarrow> 'b \<Rightarrow> RC \<times> 'b) \<Rightarrow> (LogEntry \<Rightarrow> 't \<Rightarrow> RC \<times> 't) \<Rightarrow>
    LogEntry \<Rightarrow> 'p \<times> 'r \<times> 'b \<times> 't \<Rightarrow> RC \<times> ('p \<times> 'r \<times> 'b \<times> 't)" where
  "integrated_replay pool rec bptree trx e s =
     (case s of (p, r, b, t) \<Rightarrow>
        (case module_of_index (hd_module (le_header e)) of
           Some BUFFER_POOL \<Rightarrow> (case pool e p of (rc, p') \<Rightarrow> (rc, (p', r, b, t)))
         | Some RECORD_MANAGER \<Rightarrow> (case rec e r of (rc, r') \<Rightarrow> (rc, (p, r', b, t)))
         | Some BPLUS_TREE \<Rightarrow> (case bptree e b of (rc, b') \<Rightarrow> (rc, (p, r, b', t)))
         | Some TRANSACTION \<Rightarrow> (case trx e t of (rc, t') \<Rightarrow> (rc, (p, r, b, t')))
         | None \<Rightarrow> (INVALID_ARGUMENT, s)))"

end
