(* ===== verification/CommitLogStore.thy ===== *)
theory CommitLogStore
  imports CommitLog
begin

text \<open>
  What the commit log promises: entries that were appended are written to the files in order by the flushing thread,
  which ends, and are read back in order; a log cut off inside an entry gives the entries before it.
\<close>

declare skip_to.simps [simp del] iterate_loop.simps [simp del] buffer_flush.simps [simp del]

section \<open>Reading entries\<close>

definition entry_ok :: "LogEntry \<Rightarrow> bool" where
  "entry_ok e \<longleftrightarrow> hd_size (le_header e) = int (length (le_data e)) \<and> 0 < length (le_data e) \<and> int (length (le_data e)) \<le> max_payload_size
     \<and> 0 < le_lsn e \<and> int64 (le_lsn e) \<and> int32 (hd_module (le_header e))"

definition entry_bytes :: "LogEntry \<Rightarrow> byte list" where
  "entry_bytes e = header_bytes (le_header e) @ le_data e"

abbreviation log_bytes :: "LogEntry list \<Rightarrow> byte list" where
  "log_bytes es \<equiv> concat (map entry_bytes es)"

lemma length_log_header [simp]: "length (header_bytes h) = LOG_HEADER_SIZE"
  by (simp add: header_bytes_def LOG_HEADER_SIZE_def)

lemma length_entry_bytes [simp]: "length (entry_bytes e) = LOG_HEADER_SIZE + length (le_data e)"
  by (simp add: entry_bytes_def)

lemma log_header_of_bytes: "entry_ok e \<Longrightarrow> header_of_bytes (header_bytes (le_header e)) = le_header e"
  using int64_roundtrip [of "le_lsn e"] int32_roundtrip [of "hd_size (le_header e)"] int32_roundtrip [of "hd_module (le_header e)"]
  by (simp add: header_of_bytes_def header_bytes_def entry_ok_def max_payload_size_def LOG_HEADER_SIZE_def int32_def int32_of_bytes_def int64_of_bytes_def)

lemma read_header_at: "entry_ok e \<Longrightarrow> read_header (pre @ entry_bytes e @ post) (length pre) = Some (le_header e)"
  by (simp add: read_header_def entry_bytes_def log_header_of_bytes)

lemma read_header_short: "length post < LOG_HEADER_SIZE \<Longrightarrow> read_header (pre @ post) (length pre) = None"
  by (simp add: read_header_def)

text \<open>What a consumer sees of a list of entries.\<close>

fun consume :: "(LogEntry \<Rightarrow> 's \<Rightarrow> RC \<times> 's) \<Rightarrow> LogEntry list \<Rightarrow> 's \<Rightarrow> RC \<times> 's" where
  "consume callback [] s = (SUCCESS, s)"
| "consume callback (e # es) s = (case callback e s of (rc, s') \<Rightarrow> if rc \<noteq> SUCCESS then (rc, s') else consume callback es s')"

lemma consume_append:
  "consume callback (es @ es') s = (case consume callback es s of (rc, s') \<Rightarrow> if rc \<noteq> SUCCESS then (rc, s') else consume callback es' s')"
  by (induction es arbitrary: s) (auto split: prod.splits)

lemma iterate_entries:
  assumes "\<forall>e\<in>set es. entry_ok e"
  shows "iterate_loop callback (pre @ log_bytes es @ post) (length pre) s =
    (case consume callback es s of (rc, s') \<Rightarrow> if rc \<noteq> SUCCESS then (rc, s')
       else iterate_loop callback (pre @ log_bytes es @ post) (length (pre @ log_bytes es)) s')"
  using assms
proof (induction es arbitrary: pre s)
  case (Cons e es)
  have e: "entry_ok e" using Cons.prems by simp
  let ?p = "length pre + LOG_HEADER_SIZE"
  define c where "c = pre @ log_bytes (e # es) @ post"
  have rd: "read_header c (length pre) = Some (le_header e)"
    using read_header_at [OF e, of pre "log_bytes es @ post"] by (simp add: c_def)
  have sz: "nat (hd_size (le_header e)) = length (le_data e)" "hd_size (le_header e) = int (length (le_data e))" "\<not> hd_size (le_header e) < 0"
    "\<not> max_payload_size < hd_size (le_header e)" using e by (simp_all add: entry_ok_def)
  have len: "\<not> ?p + length (le_data e) > length c" by (simp add: c_def)
  have dat: "take (length (le_data e)) (drop ?p c) = le_data e" by (simp add: entry_bytes_def c_def)
  have init: "entry_init (hd_lsn (le_header e)) (hd_module (le_header e)) (le_data e) = Inr e"
    using sz(2,4) by (simp add: entry_init_def)
  have "iterate_loop callback c (length pre) s =
      (case callback e s of (rc, s') \<Rightarrow> if rc \<noteq> SUCCESS then (rc, s') else iterate_loop callback c (?p + length (le_data e)) s')"
    using sz len dat init by (subst iterate_loop.simps) (simp add: rd Let_def)
  moreover have "c = (pre @ entry_bytes e) @ log_bytes es @ post" "?p + length (le_data e) = length (pre @ entry_bytes e)" by (simp_all add: c_def)
  ultimately show ?case
    unfolding c_def [symmetric]
    using Cons.IH [of "pre @ entry_bytes e"] Cons.prems by (simp add: add.assoc split: prod.splits)
qed (simp)

lemma iterate_tail: "length t < LOG_HEADER_SIZE \<Longrightarrow> iterate_loop callback (pre @ t) (length pre) s = (SUCCESS, s)"
  by (subst iterate_loop.simps) (simp add: read_header_short)

lemma iterate_torn:
  assumes "entry_ok e" "k < length (le_data e)"
  shows "iterate_loop callback (pre @ header_bytes (le_header e) @ take k (le_data e)) (length pre) s = (IOERR_READ, s)"
proof -
  have "read_header (pre @ header_bytes (le_header e) @ take k (le_data e)) (length pre) = Some (le_header e)"
    by (simp add: read_header_def log_header_of_bytes assms(1))
  then show ?thesis using assms by (subst iterate_loop.simps) (simp add: Let_def entry_ok_def)
qed

subsection \<open>Skipping\<close>

definition ascending :: "LogEntry list \<Rightarrow> bool" where
  "ascending es \<longleftrightarrow> sorted_wrt (<) (map le_lsn es)"

lemma ascending_clauses [simp]: "ascending []" "ascending (e # es) \<longleftrightarrow> (\<forall>x\<in>set es. le_lsn e < le_lsn x) \<and> ascending es"
  by (simp_all add: ascending_def)

lemma ascending_appended: "ascending (xs @ ys) \<longleftrightarrow> ascending xs \<and> ascending ys \<and> (\<forall>x\<in>set xs. \<forall>y\<in>set ys. le_lsn x < le_lsn y)"
  by (simp add: ascending_def sorted_wrt_append)

lemma ascending_from: "ascending es \<Longrightarrow> filter (\<lambda>e. start \<le> le_lsn e) es = dropWhile (\<lambda>e. le_lsn e < start) es"
proof (induction es)
  case (Cons e es)
  have "dropWhile (\<lambda>e. le_lsn e < start) es = es" if "start \<le> le_lsn e" using Cons.prems that by (cases es) auto
  then show ?case using Cons by auto
qed simp

lemma skip_entries:
  assumes "\<forall>e\<in>set es. entry_ok e" "length post < LOG_HEADER_SIZE \<or> (\<exists>h. hd_lsn h \<ge> start \<and> (\<forall>pre. read_header (pre @ post) (length pre) = Some h))"
  shows "\<exists>p. skip_to start (pre @ log_bytes es @ post) (length pre) = (SUCCESS, p)
    \<and> (\<exists>pre' post'. pre @ log_bytes es @ post = pre' @ log_bytes (dropWhile (\<lambda>e. le_lsn e < start) es) @ post'
         \<and> p = length pre' \<and> (post' = post \<or> length post < LOG_HEADER_SIZE \<and> post' = []))"
  using assms
proof (induction es arbitrary: pre)
  case Nil
  show ?case
  proof (cases "length post < LOG_HEADER_SIZE")
    case False
    then have "skip_to start (pre @ post) (length pre) = (SUCCESS, length pre)" using Nil.prems(2) by (subst skip_to.simps) auto
    then show ?thesis by (intro exI [of _ "length pre"] conjI exI [of _ pre] exI [of _ post]) simp_all
  next
    case True
    then have "skip_to start (pre @ post) (length pre) = (SUCCESS, length (pre @ post))"
      by (subst skip_to.simps) (simp add: read_header_short)
    then show ?thesis
      using True by (intro exI [of _ "length (pre @ post)"] conjI, simp) (rule exI [of _ "pre @ post"], rule exI [of _ "[]"], simp)
  qed
next
  case (Cons e es)
  have e: "entry_ok e" using Cons.prems by simp
  define c where "c = pre @ log_bytes (e # es) @ post"
  have rd: "read_header c (length pre) = Some (le_header e)" using read_header_at [OF e, of pre "log_bytes es @ post"] by (simp add: c_def)
  have c: "c = (pre @ entry_bytes e) @ log_bytes es @ post" by (simp add: c_def)
  show ?case
  proof (cases "le_lsn e < start")
    case True
    have "skip_to start c (length pre) = skip_to start c (length (pre @ entry_bytes e))"
      using e True by (subst skip_to.simps) (simp add: rd entry_ok_def add.assoc)
    then show ?thesis using Cons.IH [of "pre @ entry_bytes e"] Cons.prems True by (simp add: c_def)
  next
    case False
    then have "skip_to start c (length pre) = (SUCCESS, length pre)" by (subst skip_to.simps) (simp add: rd)
    then show ?thesis using False unfolding c_def by (intro exI [of _ "length pre"] conjI exI [of _ pre] exI [of _ post]) simp_all
  qed
qed

text \<open>A file of entries, possibly cut off inside the header of a further one.\<close>

lemma file_iterate_entries:
  assumes "\<forall>e\<in>set es. entry_ok e" "ascending es" "length t < LOG_HEADER_SIZE"
  shows "file_iterate callback start (log_bytes es @ t) s = consume callback (filter (\<lambda>e. start \<le> le_lsn e) es) s"
proof -
  let ?es = "dropWhile (\<lambda>e. le_lsn e < start) es"
  obtain p pre' post' where p: "skip_to start (log_bytes es @ t) 0 = (SUCCESS, p)" "log_bytes es @ t = pre' @ log_bytes ?es @ post'" "p = length pre'"
    "post' = t \<or> post' = []"
    using skip_entries [of es t start "[]", OF assms(1) disjI1 [OF assms(3)]] unfolding append_Nil list.size(3) by blast
  have ok: "\<forall>e\<in>set ?es. entry_ok e" using assms(1) set_dropWhileD by metis
  have "length post' < LOG_HEADER_SIZE" using p(4) assms(3) by auto
  then have tl: "iterate_loop callback (pre' @ log_bytes ?es @ post') (length (pre' @ log_bytes ?es)) s' = (SUCCESS, s')" for s'
    using iterate_tail [of post' callback "pre' @ log_bytes ?es"] by simp
  have "file_iterate callback start (log_bytes es @ t) s = iterate_loop callback (pre' @ log_bytes ?es @ post') (length pre') s"
    using p(1,3) unfolding p(2) [symmetric] by (simp add: file_iterate_def)
  also have "\<dots> = consume callback ?es s"
    unfolding iterate_entries [OF ok] tl by (auto split: prod.splits)
  finally show ?thesis by (simp add: ascending_from [OF assms(2)])
qed

section \<open>File names\<close>

lemma digit_char [simp]: "k < 10 \<Longrightarrow> is_digit (digit_char k)" "k < 10 \<Longrightarrow> digit_value (digit_char k) = k"
  by (simp_all add: is_digit_def digit_char_def digit_value_def)

declare nat_string.simps [simp del]

lemma nat_string_digits: "nat_string k \<noteq> []" "\<forall>c\<in>set (nat_string k). is_digit c" "digits_value (nat_string k) = k"
proof (induction k rule: nat_string.induct)
  case (1 k)
  { case 1 show ?case by (subst nat_string.simps) simp }
  { case 2 show ?case using "1"(2) by (subst nat_string.simps) auto }
  { case 3 show ?case
    proof (cases "k < 10")
      case True
      then show ?thesis by (subst nat_string.simps) (simp add: digits_value_def)
    next
      case False
      then have "digits_value (nat_string k) = 10 * digits_value (nat_string (k div 10)) + k mod 10"
        by (subst nat_string.simps) (simp add: digits_value_def)
      then show ?thesis using "1"(3) False by simp
    qed }
qed

lemma not_digit_head: "is_digit c \<Longrightarrow> c \<noteq> CHR ''-''" "\<not> is_digit (CHR ''.'')"
  by (auto simp: is_digit_def)

lemma file_name_roundtrip: "0 \<le> lsn \<Longrightarrow> int64 lsn \<Longrightarrow> get_lsn_from_filename (log_file_name lsn) = Inr lsn"
proof -
  assume lsn: "0 \<le> lsn" "int64 lsn"
  let ?s = "nat_string (nat lsn)"
  have all: "takeWhile is_digit ?s = ?s" using nat_string_digits(2) by (simp add: takeWhile_eq_all_conv)
  have "hd ?s \<noteq> CHR ''-''" using nat_string_digits(1,2) not_digit_head(1) by (meson hd_in_set)
  then have "from_chars ?s = Some lsn"
    using nat_string_digits(1,3) lsn by (simp add: from_chars_def Let_def all)
  moreover have "log_file_name lsn = ''clog_'' @ ?s @ ''.log''"
    using lsn by (simp add: log_file_name_def int_string_def clog_prefix_def clog_suffix_def)
  ultimately show ?thesis
    by (simp add: get_lsn_from_filename_def clog_prefix_def clog_suffix_def Let_def)
qed

section \<open>The files of a log\<close>

lemma map_of_put_file: "map_of (put_file name bs es) = (map_of es)(name \<mapsto> Some bs)"
  by (induction es) (auto simp: fun_eq_iff)

lemma keys_put_file: "fst ` set (put_file name bs es) = insert name (fst ` set es)"
  by (simp add: dom_map_of_conv_image_fst [symmetric] map_of_put_file)

definition store_ok :: "LogFileManager \<Rightarrow> LogDisk \<Rightarrow> LogEntry list list \<Rightarrow> bool" where
  "store_ok m d ess \<longleftrightarrow> 0 < lf_max m \<and> lf_max m \<le> 2 ^ 31 \<and> sorted_wrt (<) (map fst (lf_files m)) \<and> distinct (map snd (lf_files m))
     \<and> (\<forall>f\<in>set (lf_files m). 0 \<le> fst f \<and> fst f + lf_max m \<le> 2 ^ 31)
     \<and> list_all2 (\<lambda>f es. file_content d (snd f) = Some (log_bytes es) \<and> (\<forall>e\<in>set es. le_lsn e < fst f + lf_max m)) (lf_files m) ess
     \<and> (\<forall>name k. name \<in> fst ` set (dk_entries d) \<longrightarrow> get_lsn_from_filename name = Inr k \<longrightarrow> k \<in> fst ` set (lf_files m))
     \<and> (\<forall>name. dk_openable d name)"

definition queue_ok :: "LogFileManager \<Rightarrow> LogEntry list \<Rightarrow> bool" where
  "queue_ok m es \<longleftrightarrow> ascending es \<and> (\<forall>e\<in>set es. entry_ok e \<and> le_lsn e + lf_max m \<le> 2 ^ 31)"

definition writer_ok :: "LogFileManager \<Rightarrow> LogFileWriter \<Rightarrow> LogEntry list \<Rightarrow> bool" where
  "writer_ok m w es \<longleftrightarrow> (wr_valid w \<longrightarrow> lf_files m \<noteq> [] \<and> wr_filename w = snd (last (lf_files m)) \<and> wr_end_lsn w = fst (last (lf_files m)) + lf_max m - 1)
     \<and> (\<forall>e\<in>set es. wr_last_lsn w < le_lsn e)"

text \<open>Reading all files.\<close>

lemma iterate_files_ok:
  assumes "list_all2 (\<lambda>f es. file_content d (snd f) = Some (log_bytes es)) fs ess" "\<forall>name. dk_openable d name"
    and "\<forall>e\<in>set (concat ess). entry_ok e" "ascending (concat ess)"
  shows "iterate_files callback start d (map snd fs) s = consume callback (filter (\<lambda>e. start \<le> le_lsn e) (concat ess)) s"
  using assms
proof (induction fs ess arbitrary: s rule: list_all2_induct)
  case (Cons f fs es ess)
  have "file_iterate callback start (log_bytes es) s = consume callback (filter (\<lambda>e. start \<le> le_lsn e) es) s"
    using file_iterate_entries [of es "[]"] Cons.prems by (simp add: ascending_appended LOG_HEADER_SIZE_def)
  then show ?case using Cons by (simp add: consume_append ascending_appended split: prod.splits)
qed simp

lemma handler_iterate_ok:
  assumes "store_ok (dh_manager h) (dh_disk h) ess" "\<forall>e\<in>set (concat ess). entry_ok e" "ascending (concat ess)"
  shows "handler_iterate callback start h s = consume callback (filter (\<lambda>e. start \<le> le_lsn e) (concat ess)) s"
proof -
  let ?m = "dh_manager h" and ?d = "dh_disk h"
  let ?P = "\<lambda>f. fst f + lf_max ?m - 1 \<ge> start"
  have all: "list_all2 (\<lambda>f es. file_content ?d (snd f) = Some (log_bytes es) \<and> (\<forall>e\<in>set es. le_lsn e < fst f + lf_max ?m)) (lf_files ?m) ess"
    and open': "\<forall>name. dk_openable ?d name" using assms(1) by (simp_all add: store_ok_def)
  have "\<exists>ess'. list_all2 (\<lambda>f es. file_content ?d (snd f) = Some (log_bytes es)) (filter ?P fs) ess'
      \<and> filter (\<lambda>e. start \<le> le_lsn e) (concat ess') = filter (\<lambda>e. start \<le> le_lsn e) (concat ess)
      \<and> set (concat ess') \<subseteq> set (concat ess) \<and> ascending (concat ess')"
    if "list_all2 (\<lambda>f es. file_content ?d (snd f) = Some (log_bytes es) \<and> (\<forall>e\<in>set es. le_lsn e < fst f + lf_max ?m)) fs ess" "ascending (concat ess)" for fs ess
    using that
  proof (induction fs ess rule: list_all2_induct)
    case (Cons f fs es ess)
    obtain ess' where ess': "list_all2 (\<lambda>f es. file_content ?d (snd f) = Some (log_bytes es)) (filter ?P fs) ess'"
      "filter (\<lambda>e. start \<le> le_lsn e) (concat ess') = filter (\<lambda>e. start \<le> le_lsn e) (concat ess)" "set (concat ess') \<subseteq> set (concat ess)" "ascending (concat ess')"
      using Cons by (auto simp: ascending_appended)
    show ?case
    proof (cases "?P f")
      case True
      then show ?thesis using ess' Cons.hyps Cons.prems by (intro exI [of _ "es # ess'"]) (auto simp: ascending_appended)
    next
      case False
      then have "filter (\<lambda>e. start \<le> le_lsn e) es = []" using Cons.hyps by (auto simp: filter_empty_conv)
      then show ?thesis using ess' False by (intro exI [of _ ess']) auto
    qed
  qed simp
  from this [OF all assms(3)] obtain ess' where "list_all2 (\<lambda>f es. file_content ?d (snd f) = Some (log_bytes es)) (filter ?P (lf_files ?m)) ess'"
    "filter (\<lambda>e. start \<le> le_lsn e) (concat ess') = filter (\<lambda>e. start \<le> le_lsn e) (concat ess)" "set (concat ess') \<subseteq> set (concat ess)" "ascending (concat ess')"
    by blast
  note ess' = this
  have "\<forall>e\<in>set (concat ess'). entry_ok e" using ess'(3) assms(2) by blast
  from iterate_files_ok [OF ess'(1) open' this ess'(4), of callback start s, unfolded ess'(2)] show ?thesis
    by (simp add: handler_iterate_def list_files_def)
qed

section \<open>Writing entries\<close>

lemma list_all2_snoc: "list_all2 P (xs @ [x]) (ys @ [y]) \<longleftrightarrow> list_all2 P xs ys \<and> P x y"
  using list_all2_rev [of P "xs @ [x]" "ys @ [y]"] list_all2_rev [of P xs ys] by auto

lemma narrow32_id: "0 \<le> v \<Longrightarrow> v < 2 ^ 31 \<Longrightarrow> narrow32 v = v"
  by (simp add: narrow32_def signed_take_bit_int_eq_self)

lemma file_content_writen:
  "file_content (snd (writen name bs d)) name' =
     (if name' = name then Some ((case file_content d name of None \<Rightarrow> [] | Some c \<Rightarrow> c) @ take (min (length bs) (dk_space d)) bs) else file_content d name')"
  by (simp add: writen_def file_content_def map_of_put_file Let_def)

lemma writen_fits:
  assumes "length bs \<le> dk_space d"
  shows "fst (writen name bs d)" "dk_space (snd (writen name bs d)) = dk_space d - length bs" "dk_openable (snd (writen name bs d)) = dk_openable d"
    "fst ` set (dk_entries (snd (writen name bs d))) = insert name (fst ` set (dk_entries d))"
  using assms by (simp_all add: writen_def Let_def keys_put_file)

lemma writer_write_ok:
  assumes fs: "lf_files m = fs @ [f]" and store: "store_ok m d (ess @ [es])" and w: "writer_ok m w (e # rest)" "wr_valid w"
    and e: "entry_ok e" "le_lsn e + lf_max m \<le> 2 ^ 31" "le_lsn e < fst f + lf_max m" and sp: "length (entry_bytes e) \<le> dk_space d"
  obtains d' where "writer_write e w d = (SUCCESS, w\<lparr>wr_last_lsn := le_lsn e\<rparr>, d')" "store_ok m d' (ess @ [es @ [e]])"
    "dk_space d' = dk_space d - length (entry_bytes e)"
proof -
  let ?n = "wr_filename w"
  have n: "?n = snd f" "wr_end_lsn w = fst f + lf_max m - 1" "wr_last_lsn w < le_lsn e" using w fs by (simp_all add: writer_ok_def)
  define d1 where "d1 = snd (writen ?n (header_bytes (le_header e)) d)"
  define d2 where "d2 = snd (writen ?n (le_data e) d1)"
  have 1: "writen ?n (header_bytes (le_header e)) d = (True, d1)" using writen_fits(1) [of "header_bytes (le_header e)" d ?n] sp
    by (auto simp: d1_def prod_eq_iff)
  have s1: "dk_space d1 = dk_space d - LOG_HEADER_SIZE" using writen_fits(2) [of "header_bytes (le_header e)" d ?n] sp by (simp add: d1_def)
  have 2: "writen ?n (le_data e) d1 = (True, d2)" using writen_fits(1) [of "le_data e" d1 ?n] s1 sp by (auto simp: d2_def prod_eq_iff)
  have old: "file_content d (snd f) = Some (log_bytes es)" using store by (simp add: store_ok_def fs list_all2_snoc)
  have cont: "file_content d2 name = (if name = snd f then Some (log_bytes (es @ [e])) else file_content d name)" for name
    using sp s1 old by (simp add: d2_def d1_def file_content_writen n(1) entry_bytes_def)
  have mem: "?n \<in> fst ` set (dk_entries d)" using old n(1) by (auto simp: file_content_def bind_eq_Some_conv dest!: map_of_SomeD intro: rev_image_eqI)
  have keys: "fst ` set (dk_entries d2) = fst ` set (dk_entries d)" "dk_openable d2 = dk_openable d"
    using writen_fits(3,4) [of "header_bytes (le_header e)" d ?n] writen_fits(3,4) [of "le_data e" d1 ?n] s1 sp mem
    by (auto simp: d1_def [symmetric] d2_def [symmetric])
  have "snd f \<notin> snd ` set fs" using store by (simp add: store_ok_def fs)
  then have dist: "\<forall>g\<in>set fs. snd g \<noteq> snd f" by (metis imageI)
  have "list_all2 (\<lambda>f es. file_content d2 (snd f) = Some (log_bytes es) \<and> (\<forall>e\<in>set es. le_lsn e < fst f + lf_max m)) fs ess"
  proof -
    have "list_all2 (\<lambda>f es. file_content d (snd f) = Some (log_bytes es) \<and> (\<forall>e\<in>set es. le_lsn e < fst f + lf_max m)) fs ess"
      using store by (simp add: store_ok_def fs list_all2_snoc)
    then show ?thesis by (rule list.rel_mono_strong) (use dist in \<open>auto simp: cont\<close>)
  qed
  then have "store_ok m d2 (ess @ [es @ [e]])"
    using store e(3) unfolding store_ok_def fs by (simp add: list_all2_snoc cont keys) blast
  moreover have "writer_write e w d = (SUCCESS, w\<lparr>wr_last_lsn := le_lsn e\<rparr>, d2)"
    using n e w(2) 1 2 narrow32_id [of "le_lsn e"] store by (simp add: writer_write_def entry_ok_def store_ok_def)
  moreover have "dk_space d2 = dk_space d - length (entry_bytes e)"
    using writen_fits(2) [of "le_data e" d1 ?n] s1 sp by (simp add: d2_def)
  ultimately show thesis using that by blast
qed

lemma flush_ok:
  assumes fs: "lf_files m = fs @ [f]" and "store_ok m d (ess @ [es])" "queue_ok m (lb_entries b)" "writer_ok m w (lb_entries b)" "wr_valid w"
    and "length (log_bytes (lb_entries b)) \<le> dk_space d"
  shows "\<exists>rc count' b' w' d' xs. buffer_flush count b w d = Some (rc, count', b', w', d') \<and> lb_entries b = xs @ lb_entries b'
    \<and> store_ok m d' (ess @ [es @ xs]) \<and> writer_ok m w' (lb_entries b') \<and> wr_valid w' \<and> length (log_bytes (lb_entries b')) \<le> dk_space d'
    \<and> (if lb_entries b' = [] then rc = SUCCESS else rc = LOG_FILE_FULL \<and> fst f + lf_max m \<le> le_lsn (hd (lb_entries b')))
    \<and> lb_current b' = lb_current b \<and> lb_flushed b' = (if xs = [] then lb_flushed b else le_lsn (last xs))"
  using assms(2-)
proof (induction "lb_entries b" arbitrary: b w d es count)
  case Nil
  then show ?case by (subst buffer_flush.simps) (auto intro!: exI [of _ "[]"])
next
  case (Cons e rest)
  note b = Cons.hyps(2) [symmetric]
  have e: "entry_ok e" "le_lsn e + lf_max m \<le> 2 ^ 31" using Cons.prems(2) by (simp_all add: b queue_ok_def)
  have pos: "0 < le_lsn e" "0 < hd_size (le_header e)" using e by (simp_all add: entry_ok_def)
  show ?case
  proof (cases "le_lsn e < fst f + lf_max m")
    case False
    have "le_lsn e > wr_end_lsn w" using Cons.prems(3,4) False by (simp add: writer_ok_def fs)
    then have "writer_write e w d = (LOG_FILE_FULL, w, d)" by (simp add: writer_write_def)
    then show ?thesis using Cons.prems False pos b by (subst buffer_flush.simps) (auto simp: Let_def intro!: exI [of _ "[]"])
  next
    case True
    have sp: "length (entry_bytes e) \<le> dk_space d" "length (log_bytes rest) \<le> dk_space d - length (entry_bytes e)" using Cons.prems(5) by (simp_all add: b)
    have w1: "writer_ok m w (e # rest)" using Cons.prems(3) by (simp add: b)
    obtain d1 where d1: "writer_write e w d = (SUCCESS, w\<lparr>wr_last_lsn := le_lsn e\<rparr>, d1)" "store_ok m d1 (ess @ [es @ [e]])"
      "dk_space d1 = dk_space d - length (entry_bytes e)"
      by (rule writer_write_ok [OF fs Cons.prems(1) w1 Cons.prems(4) e True sp(1)])
    let ?w = "w\<lparr>wr_last_lsn := le_lsn e\<rparr>"
    let ?b = "b\<lparr>lb_entries := rest, lb_bytes := lb_bytes b - total_size e, lb_flushed := le_lsn e\<rparr>"
    have q: "queue_ok m rest" "\<forall>x\<in>set rest. le_lsn e < le_lsn x" using Cons.prems(2) by (simp_all add: b queue_ok_def)
    have w2: "writer_ok m ?w rest" "wr_valid ?w" using w1 Cons.prems(4) q(2) by (simp_all add: writer_ok_def)
    have step: "buffer_flush count b w d = buffer_flush (count + 1) ?b ?w d1"
      using d1(1) pos b by (subst buffer_flush.simps) (simp add: Let_def)
    obtain rc count' b' w' d' xs where ih: "buffer_flush (count + 1) ?b ?w d1 = Some (rc, count', b', w', d')" "lb_entries ?b = xs @ lb_entries b'"
      "store_ok m d' (ess @ [(es @ [e]) @ xs])" "writer_ok m w' (lb_entries b')" "wr_valid w'" "length (log_bytes (lb_entries b')) \<le> dk_space d'"
      "if lb_entries b' = [] then rc = SUCCESS else rc = LOG_FILE_FULL \<and> fst f + lf_max m \<le> le_lsn (hd (lb_entries b'))"
      "lb_current b' = lb_current ?b" "lb_flushed b' = (if xs = [] then lb_flushed ?b else le_lsn (last xs))"
      using Cons.hyps(1) [of ?b d1 "es @ [e]" ?w "count + 1"] d1(2,3) q(1) w2 sp(2) by auto
    show ?thesis
      unfolding step using ih b by (intro exI [of _ rc] exI [of _ count'] exI [of _ b'] exI [of _ w'] exI [of _ d'] exI [of _ "e # xs"]) auto
  qed
qed

lemma emplace_last: "\<forall>f\<in>set fs. fst f < k \<Longrightarrow> emplace k v fs = fs @ [(k, v)]"
  by (induction fs) auto

lemma writer_close_sel [simp]: "wr_last_lsn (snd (writer_close w)) = wr_last_lsn w" "wr_valid (snd (writer_close w)) = False"
  by (simp_all add: writer_close_def)

lemma last_file_ok:
  assumes "store_ok m d ess" "lf_files m \<noteq> []" "writer_ok m w es"
  obtains w' where "last_file m w d = (SUCCESS, m, w', d)" "writer_ok m w' es" "wr_valid w'"
proof -
  obtain fs f where fs: "lf_files m = fs @ [f]" using assms(2) by (metis rev_exhaust)
  obtain ess' es' where ess: "ess = ess' @ [es']" using assms(1) fs by (cases ess rule: rev_cases) (auto simp: store_ok_def)
  have cont: "file_content d (snd f) = Some (log_bytes es')" and f: "0 \<le> fst f" "fst f + lf_max m \<le> 2 ^ 31" "0 < lf_max m" "dk_openable d (snd f)"
    using assms(1) by (simp_all add: store_ok_def fs ess list_all2_snoc)
  then show thesis
    using that assms(3) narrow32_id [of "fst f + lf_max m - 1"] by (simp add: last_file_def writer_open_def create_file_def Let_def fs writer_ok_def)
qed

lemma next_file_ok:
  assumes "store_ok m d ess" "writer_ok m w es"
    and key: "key = (if lf_files m = [] then 0 else fst (last (lf_files m)) + lf_max m)" "key + lf_max m \<le> 2 ^ 31"
  obtains m' w' d' where "next_file m w d = (SUCCESS, m', w', d')" "store_ok m' d' (ess @ [[]])" "writer_ok m' w' es" "wr_valid w'"
    "lf_files m' = lf_files m @ [(key, log_file_name key)]" "lf_max m' = lf_max m" "dk_space d' = dk_space d"
proof -
  have s: "0 < lf_max m" "sorted_wrt (<) (map fst (lf_files m))" "\<forall>f\<in>set (lf_files m). 0 \<le> fst f" "\<And>name. dk_openable d name"
    "distinct (map snd (lf_files m))" using assms(1) by (simp_all add: store_ok_def)
  have less: "\<forall>f\<in>set (lf_files m). fst f < key"
    using s(1,2) key(1) by (cases "lf_files m" rule: rev_cases) (auto simp: sorted_wrt_append)
  have pos: "0 \<le> key" using s(1,3) key(1) by (auto simp: last_in_set)
  let ?n = "log_file_name key"
  have name: "get_lsn_from_filename ?n = Inr key" using file_name_roundtrip [OF pos] key(2) s(1) pos by (simp add: int64_def)
  have new: "?n \<notin> fst ` set (dk_entries d)" using assms(1) name less by (fastforce simp: store_ok_def)
  then have none: "file_content d ?n = None" by (simp add: file_content_def map_of_eq_None_iff [THEN iffD2])
  let ?m = "m\<lparr>lf_files := lf_files m @ [(key, ?n)]\<rparr>" and ?d = "d\<lparr>dk_entries := put_file ?n [] (dk_entries d)\<rparr>"
  let ?w = "(snd (writer_close w))\<lparr>wr_filename := ?n, wr_end_lsn := key + lf_max m - 1, wr_valid := True\<rparr>"
  have cont: "file_content ?d name = (if name = ?n then Some [] else file_content d name)" for name
    by (simp add: file_content_def map_of_put_file)
  have all: "list_all2 (\<lambda>f es. file_content d (snd f) = Some (log_bytes es) \<and> (\<forall>e\<in>set es. le_lsn e < fst f + lf_max m)) (lf_files m) ess"
    using assms(1) by (simp add: store_ok_def)
  have fresh: "?n \<notin> snd ` set (lf_files m)" using all none by (force simp: list_all2_conv_all_nth in_set_conv_nth)
  have "list_all2 (\<lambda>f es. file_content ?d (snd f) = Some (log_bytes es) \<and> (\<forall>e\<in>set es. le_lsn e < fst f + lf_max m)) (lf_files m) ess"
    using all by (rule list.rel_mono_strong) (use fresh in \<open>force simp: cont\<close>)
  then have "store_ok ?m ?d (ess @ [[]])"
    using assms(1) less pos key(2) fresh name unfolding store_ok_def
    by (simp add: list_all2_snoc cont keys_put_file sorted_wrt_append) blast
  moreover have "next_file m w d = (SUCCESS, ?m, ?w, ?d)"
  proof -
    have "(if lf_files m \<noteq> [] then fst (last (lf_files m)) + lf_max m else 0) = key" "narrow32 (key + lf_max m - 1) = key + lf_max m - 1"
      using key s(1) pos narrow32_id [of "key + lf_max m - 1"] by simp_all
    then show ?thesis using emplace_last [OF less] none s(4) by (simp add: next_file_def writer_open_def create_file_def Let_def del: if_split)
  qed
  moreover have "writer_ok ?m ?w es" using assms(2) by (simp add: writer_ok_def)
  ultimately show thesis using that by simp
qed

section \<open>The flushing thread\<close>

definition log_ok :: "DiskLogHandler \<Rightarrow> LogEntry list list \<Rightarrow> bool" where
  "log_ok h ess \<longleftrightarrow> store_ok (dh_manager h) (dh_disk h) ess \<and> queue_ok (dh_manager h) (concat ess @ lb_entries (dh_buffer h))
     \<and> writer_ok (dh_manager h) (dh_writer h) (lb_entries (dh_buffer h))
     \<and> length (log_bytes (lb_entries (dh_buffer h))) \<le> dk_space (dh_disk h)
     \<and> (dh_rc h = LOG_FILE_FULL \<longrightarrow> lb_entries (dh_buffer h) \<noteq> [] \<and> lf_files (dh_manager h) \<noteq> []
          \<and> fst (last (lf_files (dh_manager h))) + lf_max (dh_manager h) \<le> le_lsn (hd (lb_entries (dh_buffer h))))
     \<and> (\<forall>e\<in>set (lb_entries (dh_buffer h)). lb_flushed (dh_buffer h) < le_lsn e)
     \<and> lb_current (dh_buffer h) = (if lb_entries (dh_buffer h) = [] then lb_flushed (dh_buffer h) else le_lsn (last (lb_entries (dh_buffer h))))"

definition last_key :: "DiskLogHandler \<Rightarrow> int" where
  "last_key h = (if lf_files (dh_manager h) = [] then - lf_max (dh_manager h) else fst (last (lf_files (dh_manager h))))"

text \<open>Opening a file, where a round needs one.\<close>

lemma round_open:
  assumes ok: "log_ok h ess" and ne: "lb_entries (dh_buffer h) \<noteq> []"
  obtains h1 ess1 es1 where "log_ok (h1\<lparr>dh_rc := SUCCESS\<rparr>) (ess1 @ [es1])" "concat (ess1 @ [es1]) = concat ess" "wr_valid (dh_writer h1)" "dh_buffer h1 = dh_buffer h"
    "dh_running h1 = dh_running h" "dh_thread h1 = dh_thread h" "last_key h1 \<ge> last_key h" "dh_rc h = LOG_FILE_FULL \<longrightarrow> last_key h1 > last_key h"
    "thread_round h = map_option (\<lambda>(rc, count, b, w, d). h1\<lparr>dh_rc := rc, dh_buffer := b, dh_writer := w, dh_disk := d\<rparr>)
       (buffer_flush 0 (dh_buffer h1) (dh_writer h1) (dh_disk h1))"
proof -
  let ?m = "dh_manager h" and ?w = "dh_writer h" and ?d = "dh_disk h" and ?es = "lb_entries (dh_buffer h)"
  note o = ok [unfolded log_ok_def]
  have max: "0 < lf_max ?m" "lf_max ?m \<le> 2 ^ 31" using o by (simp_all add: store_ok_def)
  consider (full) "dh_rc h = LOG_FILE_FULL" | (empty) "dh_rc h \<noteq> LOG_FILE_FULL" "\<not> wr_valid ?w" "lf_files ?m = []"
    | (last) "dh_rc h \<noteq> LOG_FILE_FULL" "\<not> wr_valid ?w" "lf_files ?m \<noteq> []" | (valid) "dh_rc h \<noteq> LOG_FILE_FULL" "wr_valid ?w" by blast
  then show thesis
  proof cases
    case full
    define key where "key = fst (last (lf_files ?m)) + lf_max ?m"
    have key: "key = (if lf_files ?m = [] then 0 else fst (last (lf_files ?m)) + lf_max ?m)" using o full by (simp add: key_def)
    have "le_lsn (hd ?es) + lf_max ?m \<le> 2 ^ 31" using o ne by (simp add: queue_ok_def)
    then have "key + lf_max ?m \<le> 2 ^ 31" using o full by (simp add: key_def)
    then obtain m' w' d' where n: "next_file ?m ?w ?d = (SUCCESS, m', w', d')" "store_ok m' d' (ess @ [[]])" "writer_ok m' w' ?es" "wr_valid w'"
      "lf_files m' = lf_files ?m @ [(key, log_file_name key)]" "lf_max m' = lf_max ?m" "dk_space d' = dk_space ?d"
      using next_file_ok [of ?m ?d ess ?w ?es key] key o by blast
    show thesis
      by (rule that [of "h\<lparr>dh_rc := SUCCESS, dh_manager := m', dh_writer := w', dh_disk := d'\<rparr>" ess "[]"])
        (use n o full max in \<open>simp_all add: log_ok_def thread_round_def last_key_def key_def queue_ok_def Let_def\<close>)
  next
    case empty
    have key: "(0::int) = (if lf_files ?m = [] then 0 else fst (last (lf_files ?m)) + lf_max ?m)" using empty by simp
    obtain m' w' d' where n: "next_file ?m ?w ?d = (SUCCESS, m', w', d')" "store_ok m' d' (ess @ [[]])" "writer_ok m' w' ?es" "wr_valid w'"
      "lf_files m' = lf_files ?m @ [(0, log_file_name 0)]" "lf_max m' = lf_max ?m" "dk_space d' = dk_space ?d"
      using next_file_ok [of ?m ?d ess ?w ?es 0] key o max(2) by auto
    have run: "last_file ?m ?w ?d = (SUCCESS, m', w', d')" using n(1) empty by (simp add: last_file_def)
    show thesis
      by (rule that [of "h\<lparr>dh_rc := SUCCESS, dh_manager := m', dh_writer := w', dh_disk := d'\<rparr>" ess "[]"])
        (use n run o empty max in \<open>simp_all add: log_ok_def thread_round_def last_key_def queue_ok_def Let_def\<close>)
  next
    case last
    obtain ess1 es1 where ess: "ess = ess1 @ [es1]" using o last(3) by (cases ess rule: rev_cases) (auto simp: store_ok_def)
    obtain w' where n: "last_file ?m ?w ?d = (SUCCESS, ?m, w', ?d)" "writer_ok ?m w' ?es" "wr_valid w'" using last_file_ok [of ?m ?d ess ?w ?es] o last by blast
    show thesis
      by (rule that [of "h\<lparr>dh_rc := SUCCESS, dh_writer := w'\<rparr>" ess1 es1])
        (use n o last ess in \<open>simp_all add: log_ok_def thread_round_def last_key_def Let_def\<close>)
  next
    case valid
    have "lf_files ?m \<noteq> []" using o valid by (simp add: writer_ok_def)
    then obtain ess1 es1 where ess: "ess = ess1 @ [es1]" using o by (cases ess rule: rev_cases) (auto simp: store_ok_def)
    show thesis
      by (rule that [of h ess1 es1]) (use o valid ess in \<open>simp_all add: log_ok_def thread_round_def Let_def\<close>)
  qed
qed

text \<open>A round writes what fits the current file; if entries are left, the next round opens a new file.\<close>

lemma round_ok:
  assumes ok: "log_ok h ess" and ne: "lb_entries (dh_buffer h) \<noteq> []"
  obtains h' ess' where "thread_round h = Some h'" "log_ok h' ess'" "concat ess' @ lb_entries (dh_buffer h') = concat ess @ lb_entries (dh_buffer h)"
    "dh_running h' = dh_running h" "dh_thread h' = dh_thread h" "lb_current (dh_buffer h') = lb_current (dh_buffer h)" "last_key h' \<ge> last_key h"
    "lb_entries (dh_buffer h') = [] \<or> dh_rc h' = LOG_FILE_FULL \<and> (dh_rc h = LOG_FILE_FULL \<longrightarrow> last_key h' > last_key h)"
proof -
  obtain h1 ess1 es1 where o: "log_ok (h1\<lparr>dh_rc := SUCCESS\<rparr>) (ess1 @ [es1])" "concat (ess1 @ [es1]) = concat ess" "wr_valid (dh_writer h1)" "dh_buffer h1 = dh_buffer h"
    "dh_running h1 = dh_running h" "dh_thread h1 = dh_thread h" "last_key h1 \<ge> last_key h" "dh_rc h = LOG_FILE_FULL \<longrightarrow> last_key h1 > last_key h"
    "thread_round h = map_option (\<lambda>(rc, count, b, w, d). h1\<lparr>dh_rc := rc, dh_buffer := b, dh_writer := w, dh_disk := d\<rparr>)
       (buffer_flush 0 (dh_buffer h1) (dh_writer h1) (dh_disk h1))"
    by (rule round_open [OF ok ne])
  have l: "store_ok (dh_manager h1) (dh_disk h1) (ess1 @ [es1])" "queue_ok (dh_manager h1) (concat (ess1 @ [es1]) @ lb_entries (dh_buffer h1))"
    "writer_ok (dh_manager h1) (dh_writer h1) (lb_entries (dh_buffer h1))" "length (log_bytes (lb_entries (dh_buffer h1))) \<le> dk_space (dh_disk h1)"
    "lb_current (dh_buffer h1) = (if lb_entries (dh_buffer h1) = [] then lb_flushed (dh_buffer h1) else le_lsn (last (lb_entries (dh_buffer h1))))"
    "\<forall>e\<in>set (lb_entries (dh_buffer h1)). lb_flushed (dh_buffer h1) < le_lsn e"
    using o(1) by (simp_all add: log_ok_def)
  obtain fs f where fs: "lf_files (dh_manager h1) = fs @ [f]" using l(3) o(3) by (metis rev_exhaust writer_ok_def)
  have q: "queue_ok (dh_manager h1) (lb_entries (dh_buffer h1))" using l(2) by (simp add: queue_ok_def ascending_appended)
  obtain rc count' b' w' d' xs where r: "buffer_flush 0 (dh_buffer h1) (dh_writer h1) (dh_disk h1) = Some (rc, count', b', w', d')"
    "lb_entries (dh_buffer h1) = xs @ lb_entries b'" "store_ok (dh_manager h1) d' (ess1 @ [es1 @ xs])" "writer_ok (dh_manager h1) w' (lb_entries b')"
    "length (log_bytes (lb_entries b')) \<le> dk_space d'"
    "if lb_entries b' = [] then rc = SUCCESS else rc = LOG_FILE_FULL \<and> fst f + lf_max (dh_manager h1) \<le> le_lsn (hd (lb_entries b'))"
    "lb_current b' = lb_current (dh_buffer h1)" "lb_flushed b' = (if xs = [] then lb_flushed (dh_buffer h1) else le_lsn (last xs))"
    using flush_ok [OF fs l(1) q l(3) o(3) l(4), of 0] by blast
  let ?h = "h1\<lparr>dh_rc := rc, dh_buffer := b', dh_writer := w', dh_disk := d'\<rparr>"
  have cc: "concat (ess1 @ [es1 @ xs]) @ lb_entries b' = concat (ess1 @ [es1]) @ lb_entries (dh_buffer h1)" using r(2) by simp
  have "\<forall>e\<in>set (lb_entries b'). lb_flushed b' < le_lsn e" using l(6) q r(2,8) by (auto simp: queue_ok_def ascending_appended)
  then have "log_ok ?h (ess1 @ [es1 @ xs])"
    unfolding log_ok_def using l(2,5) r fs cc by (auto simp: queue_ok_def split: if_splits)
  moreover have "last_key ?h = last_key h1" by (simp add: last_key_def)
  ultimately show thesis
    using that [of ?h "ess1 @ [es1 @ xs]"] o r(1,6,7) cc by (auto split: if_splits)
qed

text \<open>
  A common measure: how far the keys of the files are behind the last entry, and whether the thread knows that the
  file is full.
\<close>

definition behind :: "DiskLogHandler \<Rightarrow> nat" where
  "behind h = 2 * nat (lb_current (dh_buffer h) - last_key h) + (if dh_rc h = LOG_FILE_FULL then 0 else 1)"

lemma round_behind:
  assumes "log_ok h' ess'" "last_key h' \<ge> last_key h" "lb_current (dh_buffer h') = lb_current (dh_buffer h)" "lb_entries (dh_buffer h') \<noteq> []"
    and "dh_rc h' = LOG_FILE_FULL \<and> (dh_rc h = LOG_FILE_FULL \<longrightarrow> last_key h' > last_key h)"
  shows "behind h' < behind h"
proof -
  note o = assms(1) [unfolded log_ok_def]
  let ?es = "lb_entries (dh_buffer h')"
  have "le_lsn (hd ?es) \<le> le_lsn (last ?es)" using o assms(4) by (cases ?es) (auto simp: queue_ok_def ascending_appended less_imp_le)
  then have "last_key h' < lb_current (dh_buffer h')" using o assms(4,5) by (simp add: last_key_def store_ok_def)
  then show ?thesis using assms(2,3,5) by (auto simp: behind_def)
qed

lemma thread_finish_ok:
  assumes "log_ok h ess" "\<not> dh_running h"
  shows "\<exists>h' ess'. thread_finish h = Some h' \<and> log_ok h' ess' \<and> concat ess' = concat ess @ lb_entries (dh_buffer h) \<and> lb_entries (dh_buffer h') = []
    \<and> lb_current (dh_buffer h') = lb_current (dh_buffer h) \<and> dh_thread h' = dh_thread h \<and> \<not> dh_running h'"
  using assms
proof (induction "behind h" arbitrary: h ess rule: less_induct)
  case less
  show ?case
  proof (cases "lb_entries (dh_buffer h) = []")
    case True
    have "log_ok (h\<lparr>dh_writer := snd (writer_close (dh_writer h))\<rparr>) ess" using less.prems(1) True by (auto simp: log_ok_def writer_ok_def)
    then show ?thesis using True less.prems by (subst thread_finish.simps) (auto intro!: exI [of _ ess])
  next
    case False
    obtain h1 ess1 where r: "thread_round h = Some h1" "log_ok h1 ess1" "concat ess1 @ lb_entries (dh_buffer h1) = concat ess @ lb_entries (dh_buffer h)"
      "dh_running h1 = dh_running h" "dh_thread h1 = dh_thread h" "lb_current (dh_buffer h1) = lb_current (dh_buffer h)" "last_key h1 \<ge> last_key h"
      "lb_entries (dh_buffer h1) = [] \<or> dh_rc h1 = LOG_FILE_FULL \<and> (dh_rc h = LOG_FILE_FULL \<longrightarrow> last_key h1 > last_key h)"
      by (rule round_ok [OF less.prems(1) False])
    have step: "thread_finish h = thread_finish h1" using False r(1) by (subst thread_finish.simps) simp
    show ?thesis
    proof (cases "lb_entries (dh_buffer h1) = []")
      case True
      have "log_ok (h1\<lparr>dh_writer := snd (writer_close (dh_writer h1))\<rparr>) ess1" using r(2) True by (auto simp: log_ok_def writer_ok_def)
      moreover have "thread_finish h1 = Some (h1\<lparr>dh_writer := snd (writer_close (dh_writer h1))\<rparr>)"
        using True r(4) less.prems(2) by (subst thread_finish.simps) simp
      ultimately show ?thesis using step r(3-6) True less.prems(2) by (auto intro!: exI [of _ ess1])
    next
      case ne: False
      have "behind h1 < behind h" using round_behind [OF r(2,7,6) ne] r(8) ne by blast
      from less.hyps [OF this r(2)] show ?thesis using step r(3-6) less.prems(2) by auto
    qed
  qed
qed

lemma wait_lsn_ok:
  assumes "log_ok h ess" "dh_running h" "lsn \<le> lb_current (dh_buffer h)"
  shows "\<exists>h' ess'. wait_lsn lsn h = Some (SUCCESS, h') \<and> log_ok h' ess' \<and> lsn \<le> lb_flushed (dh_buffer h')
    \<and> concat ess' @ lb_entries (dh_buffer h') = concat ess @ lb_entries (dh_buffer h) \<and> dh_running h'"
  using assms
proof (induction "behind h" arbitrary: h ess rule: less_induct)
  case less
  show ?case
  proof (cases "lb_flushed (dh_buffer h) < lsn")
    case False
    then show ?thesis using less.prems by (subst wait_lsn.simps) (auto intro!: exI [of _ ess])
  next
    case True
    have ne: "lb_entries (dh_buffer h) \<noteq> []" using True less.prems by (auto simp: log_ok_def)
    obtain h1 ess1 where r: "thread_round h = Some h1" "log_ok h1 ess1" "concat ess1 @ lb_entries (dh_buffer h1) = concat ess @ lb_entries (dh_buffer h)"
      "dh_running h1 = dh_running h" "dh_thread h1 = dh_thread h" "lb_current (dh_buffer h1) = lb_current (dh_buffer h)" "last_key h1 \<ge> last_key h"
      "lb_entries (dh_buffer h1) = [] \<or> dh_rc h1 = LOG_FILE_FULL \<and> (dh_rc h = LOG_FILE_FULL \<longrightarrow> last_key h1 > last_key h)"
      by (rule round_ok [OF less.prems(1) ne])
    have step: "wait_lsn lsn h = wait_lsn lsn h1" using True r(1) less.prems(2) by (subst wait_lsn.simps) simp
    show ?thesis
    proof (cases "lb_entries (dh_buffer h1) = []")
      case True
      then have "lsn \<le> lb_flushed (dh_buffer h1)" using r(2,6) less.prems(3) by (simp add: log_ok_def)
      then have "wait_lsn lsn h1 = Some (SUCCESS, h1)" by (subst wait_lsn.simps) simp
      then show ?thesis using step r(2-4) less.prems(2) \<open>lsn \<le> lb_flushed (dh_buffer h1)\<close> by (auto intro!: exI [of _ ess1])
    next
      case ne: False
      have "behind h1 < behind h" using round_behind [OF r(2,7,6) ne] r(8) ne by blast
      from less.hyps [OF this r(2)] show ?thesis using step r(3,4,6) less.prems(2,3) by auto
    qed
  qed
qed

section \<open>Appending\<close>

definition new_entry :: "LSN \<Rightarrow> int \<Rightarrow> byte list \<Rightarrow> LogEntry" where
  "new_entry lsn module_id data = \<lparr>le_header = \<lparr>hd_lsn = lsn, hd_size = int (length data), hd_module = module_id\<rparr>, le_data = data\<rparr>"

lemma handler_append_ok:
  assumes "log_ok h ess" "dh_running h" "lb_bytes (dh_buffer h) < lb_max (dh_buffer h)" "data \<noteq> []" "int (length data) \<le> max_payload_size" "int32 module_id"
    and "0 \<le> lb_current (dh_buffer h)" "lb_current (dh_buffer h) + 1 + lf_max (dh_manager h) \<le> 2 ^ 31" "\<forall>e\<in>set (concat ess). le_lsn e \<le> lb_current (dh_buffer h)"
      "wr_last_lsn (dh_writer h) \<le> lb_current (dh_buffer h)"
      "length (log_bytes (lb_entries (dh_buffer h))) + LOG_HEADER_SIZE + length data \<le> dk_space (dh_disk h)"
  obtains h' where "handler_append module_id data h = Some (Inr (lb_current (dh_buffer h) + 1), h')" "log_ok h' ess" "lb_current (dh_buffer h') = lb_current (dh_buffer h) + 1"
    "lb_entries (dh_buffer h') = lb_entries (dh_buffer h) @ [new_entry (lb_current (dh_buffer h) + 1) module_id data]"
proof -
  let ?b = "dh_buffer h" and ?e = "new_entry (lb_current (dh_buffer h) + 1) module_id data"
  note o = assms(1) [unfolded log_ok_def]
  let ?b' = "?b\<lparr>lb_current := lb_current ?b + 1, lb_entries := lb_entries ?b @ [?e], lb_bytes := lb_bytes ?b + total_size (moved_from ?e)\<rparr>"
  have run: "handler_append module_id data h = Some (Inr (lb_current ?b + 1), h\<lparr>dh_buffer := ?b'\<rparr>)"
    using assms(2,3,5) by (simp add: handler_append_def buffer_append_def entry_init_def new_entry_def Let_def)
  have e: "entry_ok ?e" "le_lsn ?e = lb_current ?b + 1" using assms(4-8) o by (simp_all add: entry_ok_def new_entry_def int64_def store_ok_def)
  have old: "\<forall>x\<in>set (concat ess @ lb_entries ?b). le_lsn x < le_lsn ?e"
  proof -
    have "le_lsn x \<le> lb_current ?b" if "x \<in> set (lb_entries ?b)" for x
      using that o by (cases "lb_entries ?b" rule: rev_cases) (auto simp: queue_ok_def ascending_appended)
    then show ?thesis using assms(9) e(2) by fastforce
  qed
  have q: "queue_ok (dh_manager h) (concat ess @ lb_entries ?b @ [?e])"
    using o e old assms(8) by (auto simp: queue_ok_def ascending_appended)
  have fl: "lb_flushed ?b < le_lsn ?e" using o e(2) by (cases "lb_entries ?b" rule: rev_cases) (auto split: if_splits)
  have "log_ok (h\<lparr>dh_buffer := ?b'\<rparr>) ess"
    unfolding log_ok_def using o q e fl assms(10,11) by (auto simp: writer_ok_def new_entry_def hd_append)
  then show thesis using that [OF run] by simp
qed

section \<open>Properties\<close>

text \<open>
  C14: Waiting for a sequence number that has been given out returns with success: the flushing thread makes progress, opens
  new files when the current one is full, and afterwards every entry up to that number is in the log files, in
  order.
\<close>

theorem wait_lsn_durable:
  assumes "log_ok h ess" "dh_running h" "lsn \<le> lb_current (dh_buffer h)"
  shows "\<exists>h' ess'. wait_lsn lsn h = Some (SUCCESS, h') \<and> log_ok h' ess'
    \<and> (\<exists>rest. concat ess @ lb_entries (dh_buffer h) = concat ess' @ rest \<and> (\<forall>e\<in>set rest. lsn < le_lsn e))
    \<and> handler_iterate (\<lambda>e acc. (SUCCESS, acc @ [e])) 0 h' [] = (SUCCESS, concat ess')"
proof -
  obtain h' ess' where w: "wait_lsn lsn h = Some (SUCCESS, h')" "log_ok h' ess'" "lsn \<le> lb_flushed (dh_buffer h')"
    "concat ess' @ lb_entries (dh_buffer h') = concat ess @ lb_entries (dh_buffer h)" using wait_lsn_ok [OF assms] by blast
  have s: "store_ok (dh_manager h') (dh_disk h') ess'" "\<forall>e\<in>set (concat ess'). entry_ok e" "ascending (concat ess')" "\<forall>e\<in>set (lb_entries (dh_buffer h')). lsn < le_lsn e"
    using w(2,3) by (fastforce simp: log_ok_def queue_ok_def ascending_appended)+
  have "consume (\<lambda>e acc. (SUCCESS, acc @ [e])) es acc = (SUCCESS, acc @ es)" for es acc by (induction es arbitrary: acc) simp_all
  moreover have "filter (\<lambda>e. 0 \<le> le_lsn e) (concat ess') = concat ess'" using s(2) by (auto simp: filter_id_conv entry_ok_def intro: less_imp_le)
  ultimately have "handler_iterate (\<lambda>e acc. (SUCCESS, acc @ [e])) 0 h' [] = (SUCCESS, concat ess')"
    using handler_iterate_ok [OF s(1-3), of "\<lambda>e acc. (SUCCESS, acc @ [e])" 0 "[]"] by simp
  then show ?thesis using w s(4) by metis
qed

text \<open>
  C15: Stopping the log writes every buffered entry, and reading the log from a sequence number on gives a consumer exactly
  the entries from that number on, in order, until the consumer refuses one.
\<close>

theorem commit_log_roundtrip:
  assumes "log_ok h ess" "dh_thread h"
  shows "\<exists>h'. await_termination (snd (handler_stop h)) = Some (SUCCESS, h')
    \<and> handler_iterate callback start h' s = consume callback (filter (\<lambda>e. start \<le> le_lsn e) (concat ess @ lb_entries (dh_buffer h))) s"
proof -
  let ?h = "h\<lparr>dh_running := False\<rparr>"
  have "log_ok ?h ess" using assms(1) by (simp add: log_ok_def)
  then obtain h' ess' where f: "thread_finish ?h = Some h'" "log_ok h' ess'" "concat ess' = concat ess @ lb_entries (dh_buffer h)"
    using thread_finish_ok [of ?h ess] by auto
  have "store_ok (dh_manager h') (dh_disk h') ess'" "\<forall>e\<in>set (concat ess'). entry_ok e" "ascending (concat ess')"
    using f(2) by (auto simp: log_ok_def queue_ok_def ascending_appended)
  then have it: "handler_iterate callback start (h'\<lparr>dh_thread := False\<rparr>) s = consume callback (filter (\<lambda>e. start \<le> le_lsn e) (concat ess')) s"
    using handler_iterate_ok [of "h'\<lparr>dh_thread := False\<rparr>" ess'] by simp
  have "await_termination (snd (handler_stop h)) = Some (SUCCESS, h'\<lparr>dh_thread := False\<rparr>)"
    using f(1) assms(2) by (simp add: handler_stop_def await_termination_def)
  then show ?thesis using it f(3) by metis
qed

text \<open>
  A log file cut off inside its last entry. If the cut is inside the header of the entry, the reader passes on the
  entries before it and ends with success; if it is inside the payload, it passes them on and reports an error.
\<close>

lemma torn_log_tail:
  assumes "\<forall>x\<in>set (es @ [e]). entry_ok x" "ascending (es @ [e])" "k < length (entry_bytes e)" "start \<le> le_lsn e"
  shows "file_iterate callback start (log_bytes es @ take k (entry_bytes e)) s =
    (case consume callback (filter (\<lambda>e. start \<le> le_lsn e) es) s of
       (rc, s') \<Rightarrow> if rc \<noteq> SUCCESS then (rc, s') else if k < LOG_HEADER_SIZE then (SUCCESS, s') else (IOERR_READ, s'))"
proof (cases "k < LOG_HEADER_SIZE")
  case True
  then show ?thesis
    using file_iterate_entries [of es "take k (entry_bytes e)" callback start s] assms by (auto simp: ascending_appended split: prod.splits)
next
  case False
  let ?t = "take k (entry_bytes e)" and ?es = "dropWhile (\<lambda>e. le_lsn e < start) es"
  have t: "?t = header_bytes (le_header e) @ take (k - LOG_HEADER_SIZE) (le_data e)" using False by (simp add: entry_bytes_def)
  have ok: "\<forall>x\<in>set es. entry_ok x" "entry_ok e" "ascending es" using assms(1,2) by (auto simp: ascending_appended)
  have "read_header (pre @ ?t) (length pre) = Some (le_header e)" for pre unfolding t by (simp add: read_header_def log_header_of_bytes [OF ok(2)])
  then obtain p pre' where p: "skip_to start (log_bytes es @ ?t) 0 = (SUCCESS, p)" "log_bytes es @ ?t = pre' @ log_bytes ?es @ ?t" "p = length pre'"
    using skip_entries [of es ?t start "[]", OF ok(1)] assms(3,4) False unfolding append_Nil list.size(3) by (auto simp: min_def)
  have ok': "\<forall>x\<in>set ?es. entry_ok x" using ok(1) set_dropWhileD by metis
  have k: "k - LOG_HEADER_SIZE < length (le_data e)" using assms(3) False by simp
  have "file_iterate callback start (log_bytes es @ ?t) s = iterate_loop callback (pre' @ log_bytes ?es @ ?t) (length pre') s"
    using p(1,3) unfolding p(2) [symmetric] by (simp add: file_iterate_def)
  also have "\<dots> = (case consume callback ?es s of (rc, s') \<Rightarrow> if rc \<noteq> SUCCESS then (rc, s') else (IOERR_READ, s'))"
    unfolding iterate_entries [OF ok'] t using iterate_torn [OF ok(2) k, of callback "pre' @ log_bytes ?es"] by (auto split: prod.splits)
  finally show ?thesis using False by (simp add: ascending_from [OF ok(3)] split: prod.splits)
qed

text \<open>
  The byte counter of the buffer drifts: appending adds the size of the entry that was moved away, a bare header,
  and flushing subtracts the whole entry. After an entry has been appended and flushed the counter is smaller by the
  payload, so the limit of the buffer is never reached.
\<close>

lemma buffer_bytes_drift:
  assumes "lb_entries b = []" "buffer_append module_id data b = Some (Inr lsn, b1)" "buffer_flush 0 b1 w d = Some (SUCCESS, count, b2, w', d')"
  shows "lb_entries b2 = [] \<and> lb_bytes b2 = lb_bytes b - int (length data)"
proof -
  have b1: "lb_entries b1 = [new_entry lsn module_id data]" "lb_bytes b1 = lb_bytes b + int LOG_HEADER_SIZE"
    using assms(1,2) by (auto simp: buffer_append_def entry_init_def new_entry_def moved_from_def total_size_def Let_def split: if_splits)
  have nil: "buffer_flush n b' w' d' = Some (SUCCESS, n, b', w', d')" if "lb_entries b' = []" for n b' w' d'
    using that by (subst buffer_flush.simps) simp
  show ?thesis
    using assms(3) b1 by (subst (asm) buffer_flush.simps) (auto simp: Let_def nil total_size_def new_entry_def split: prod.splits if_splits)
qed

text \<open>
  The writer keeps its bounds in 32 bits. Once sequence numbers reach \<open>2 ^ 31\<close>, no round of the flushing thread writes
  an entry any more, however many files it opens.
\<close>

lemma lsn_limit:
  assumes "lb_entries (dh_buffer h) = e # es" "2 ^ 31 \<le> le_lsn e" "0 < hd_size (le_header e)" "wr_valid (dh_writer h) \<longrightarrow> wr_end_lsn (dh_writer h) < 2 ^ 31"
  shows "\<exists>h'. thread_round h = Some h' \<and> lb_entries (dh_buffer h') = e # es \<and> (wr_valid (dh_writer h') \<longrightarrow> wr_end_lsn (dh_writer h') < 2 ^ 31)"
proof -
  have nar: "narrow32 v < 2 ^ 31" for v using signed_take_bit_int_less_exp [of 31 v] by (simp add: narrow32_def)
  have opened: "writer_open name n w d = (SUCCESS, w', d') \<Longrightarrow> wr_valid w' \<and> wr_end_lsn w' < 2 ^ 31" for name n w d w' d'
    using nar by (auto simp: writer_open_def Let_def split: if_splits)
  have flush: "buffer_flush 0 (dh_buffer h) w d = Some (LOG_FILE_FULL, 0, (dh_buffer h)\<lparr>lb_bytes := lb_bytes (dh_buffer h) - total_size e\<rparr>, w, d)"
    if "wr_end_lsn w < 2 ^ 31" for w d
    using that assms(1-3) by (subst buffer_flush.simps) (simp add: writer_write_def Let_def)
  have closed: "writer_open name n w d = (rc, w', d') \<Longrightarrow> rc \<noteq> SUCCESS \<Longrightarrow> \<not> wr_valid w \<Longrightarrow> \<not> wr_valid w'" for name n w d w' d' rc
    by (auto simp: writer_open_def Let_def split: if_splits)
  consider "\<not> (\<not> wr_valid (dh_writer h) \<or> dh_rc h = LOG_FILE_FULL)" | "\<not> wr_valid (dh_writer h) \<or> dh_rc h = LOG_FILE_FULL" by blast
  then show ?thesis
  proof cases
    case 1
    then show ?thesis using flush [of "dh_writer h"] assms(1,4) by (simp add: thread_round_def)
  next
    case 2
    obtain rc m w d where o: "(if dh_rc h = LOG_FILE_FULL then next_file else last_file) (dh_manager h) (dh_writer h) (dh_disk h) = (rc, m, w, d)"
      by (metis prod_cases4)
    then have "\<exists>name n d0. writer_open name n (snd (writer_close (dh_writer h))) d0 = (rc, w, d)"
      by (auto simp: next_file_def last_file_def Let_def split: if_splits prod.splits)
    then have w: "rc = SUCCESS \<Longrightarrow> wr_end_lsn w < 2 ^ 31" "rc \<noteq> SUCCESS \<Longrightarrow> \<not> wr_valid w" using opened closed by fastforce+
    show ?thesis using 2 o w flush [of w d] assms(1) by (cases "rc = SUCCESS") (simp_all add: thread_round_def)
  qed
qed

text \<open>
  Replaying a log with entries of several modules gives every module the state it would reach from its own entries
  alone, in log order, if none of the replayers reports an error.
\<close>

lemma integrated_replay_projects:
  assumes "\<forall>e\<in>set es. module_of_index (hd_module (le_header e)) \<noteq> None"
    and "consume pool (filter (\<lambda>e. module_of_index (hd_module (le_header e)) = Some BUFFER_POOL) es) p = (SUCCESS, p')"
      "consume rec (filter (\<lambda>e. module_of_index (hd_module (le_header e)) = Some RECORD_MANAGER) es) r = (SUCCESS, r')"
      "consume bptree (filter (\<lambda>e. module_of_index (hd_module (le_header e)) = Some BPLUS_TREE) es) b = (SUCCESS, b')"
      "consume trx (filter (\<lambda>e. module_of_index (hd_module (le_header e)) = Some TRANSACTION) es) t = (SUCCESS, t')"
  shows "consume (integrated_replay pool rec bptree trx) es (p, r, b, t) = (SUCCESS, (p', r', b', t'))"
  using assms
proof (induction es arbitrary: p r b t)
  case (Cons e es)
  obtain m where m: "module_of_index (hd_module (le_header e)) = Some m" using Cons.prems(1) by auto
  show ?case
    using Cons m by (cases m) (auto simp: integrated_replay_def split: prod.splits if_splits)
qed simp

section \<open>Examples\<close>

text \<open>A running log with an empty directory, and entries 999 and 1000 in the buffer, which go to different files.\<close>

definition ex_entries :: "LogEntry list" where
  "ex_entries = [new_entry 999 2 [1, 2], new_entry 1000 3 [5]]"

definition ex_log :: DiskLogHandler where
  "ex_log = \<lparr>dh_thread = True, dh_running = True, dh_manager = \<lparr>lf_max = 1000, lf_files = []\<rparr>,
     dh_buffer = \<lparr>lb_entries = ex_entries, lb_bytes = 32, lb_current = 1000, lb_flushed = 998, lb_max = 4194304\<rparr>,
     dh_writer = new_writer, dh_rc = SUCCESS,
     dh_disk = \<lparr>dk_exists = True, dk_creatable = True, dk_openable = (\<lambda>_. True), dk_entries = [], dk_space = 100\<rparr>\<rparr>"

lemma ex_entries_ok: "\<forall>e\<in>set ex_entries. entry_ok e" "ascending ex_entries"
  by (simp_all add: ex_entries_def new_entry_def entry_ok_def max_payload_size_def LOG_HEADER_SIZE_def int64_def int32_def)

lemma ex_log_ok: "log_ok ex_log []"
  using ex_entries_ok
  by (simp add: log_ok_def ex_log_def store_ok_def queue_ok_def writer_ok_def new_writer_def)
    (simp add: ex_entries_def new_entry_def LOG_HEADER_SIZE_def)

theorem wait_lsn_durable_witness:
  "\<exists>h'. wait_lsn 1000 ex_log = Some (SUCCESS, h') \<and> handler_iterate (\<lambda>e acc. (SUCCESS, acc @ [e])) 0 h' [] = (SUCCESS, ex_entries)"
proof -
  have "dh_running ex_log" "1000 \<le> lb_current (dh_buffer ex_log)" "lb_entries (dh_buffer ex_log) = ex_entries" by (simp_all add: ex_log_def)
  then obtain h' ess' rest where w: "wait_lsn 1000 ex_log = Some (SUCCESS, h')" "ex_entries = concat ess' @ rest" "\<forall>e\<in>set rest. 1000 < le_lsn e"
    "handler_iterate (\<lambda>e acc. (SUCCESS, acc @ [e])) 0 h' [] = (SUCCESS, concat ess')"
    using wait_lsn_durable [OF ex_log_ok, of 1000] by auto
  have "\<forall>e\<in>set ex_entries. le_lsn e \<le> 1000" by (simp add: ex_entries_def new_entry_def)
  moreover have "set rest \<subseteq> set ex_entries" using w(2) by (metis Un_upper2 set_append)
  ultimately have "rest = []" using w(3) by (cases rest) fastforce+
  then show ?thesis using w by auto
qed

theorem commit_log_roundtrip_witness:
  "\<exists>h'. await_termination (snd (handler_stop ex_log)) = Some (SUCCESS, h')
    \<and> handler_iterate (\<lambda>e n. (SUCCESS, n + 1)) 1000 h' 0 = (SUCCESS, 1 :: nat)"
proof -
  have "dh_thread ex_log" by (simp add: ex_log_def)
  then obtain h' where w: "await_termination (snd (handler_stop ex_log)) = Some (SUCCESS, h')"
    "handler_iterate (\<lambda>e n. (SUCCESS, n + 1)) 1000 h' (0 :: nat) =
       consume (\<lambda>e n. (SUCCESS, n + 1)) (filter (\<lambda>e. 1000 \<le> le_lsn e) (concat [] @ lb_entries (dh_buffer ex_log))) 0"
    using commit_log_roundtrip [OF ex_log_ok, where callback = "\<lambda>e n. (SUCCESS, n + 1)" and start = 1000 and s = "0 :: nat"] by metis
  moreover have "filter (\<lambda>e. 1000 \<le> le_lsn e) (lb_entries (dh_buffer ex_log)) = [new_entry 1000 3 [5]]"
    by (simp add: ex_log_def ex_entries_def new_entry_def)
  ultimately have "handler_iterate (\<lambda>e n. (SUCCESS, n + 1)) 1000 h' (0 :: nat) = (SUCCESS, 1)" by simp
  then show ?thesis using w(1) by blast
qed

end
