(* ===== verification/SqlValue.thy ===== *)
theory SqlValue
  imports Comparator "HOL-Library.Signed_Division" "HOL-Library.Monad_Syntax"
begin

text \<open>
  The values of SQL: \<^verbatim>\<open>src/observer/sql/parser/value.{h,cpp}\<close>. Strings are lists of bytes without the terminating zero.
  The union of the numeric members is one word of 32 bits, in which an integer is read as signed, a float as the bits of
  its single precision representation, and a boolean as its lowest byte.

  Floating point arithmetic and the conversion of strings to floating point numbers are the parameter \<open>fpu\<close>; a double is
  the 64 bits of its representation. Reading a number from NULL throws \<open>null_cast_exception\<close> (\<open>NullCast\<close>); a failed assertion
  is \<open>Abort\<close>.
\<close>

section \<open>Floating point and strings\<close>

record fpu =
  f_of_int :: "int \<Rightarrow> 32 word"
  f_to_int :: "32 word \<Rightarrow> int"
  f_add :: "32 word \<Rightarrow> 32 word \<Rightarrow> 32 word"
  f_sub :: "32 word \<Rightarrow> 32 word \<Rightarrow> 32 word"
  f_mul :: "32 word \<Rightarrow> 32 word \<Rightarrow> 32 word"
  f_div :: "32 word \<Rightarrow> 32 word \<Rightarrow> 32 word"
  f_neg :: "32 word \<Rightarrow> 32 word"
  f_beyond_eps :: "32 word \<Rightarrow> bool"
  f_within_eps :: "32 word \<Rightarrow> bool"
  d_of_int :: "int \<Rightarrow> 64 word"
  d_of_float :: "32 word \<Rightarrow> 64 word"
  d_cmp :: "64 word \<Rightarrow> 64 word \<Rightarrow> int"
  str_to_f :: "byte list \<Rightarrow> 32 word option"
  str_to_d :: "byte list \<Rightarrow> 64 word option"
  d_fixed2 :: "64 word \<Rightarrow> byte list"

text \<open>
  \<open>f_beyond_eps\<close> is \<open>val >= EPSILON || val <= -EPSILON\<close>, \<open>f_within_eps\<close> is \<open>val > -EPSILON && val < EPSILON\<close>, \<open>d_cmp\<close> the
  sign that \<open>compare\<close> reads off the difference of two doubles, \<open>str_to_f\<close> and \<open>str_to_d\<close> are \<open>stof\<close> and \<open>stod\<close> with \<open>None\<close> for
  an exception, \<open>d_fixed2\<close> is \<open>printf\<close> with \<open>%.2f\<close>.
\<close>

datatype 'a cast = Val 'a | NullCast | Abort

definition ascii :: "string \<Rightarrow> byte list" where
  "ascii s = map of_char s"

definition is_digit :: "byte \<Rightarrow> bool" where
  "is_digit c \<longleftrightarrow> 48 \<le> c \<and> c \<le> 57"

definition is_space :: "byte \<Rightarrow> bool" where
  "is_space c \<longleftrightarrow> c = 32 \<or> 9 \<le> c \<and> c \<le> 13"

definition digit :: "nat \<Rightarrow> byte" where
  "digit n = word_of_nat (48 + n)"

fun digits_value :: "byte list \<Rightarrow> int \<Rightarrow> int" where
  "digits_value [] acc = acc"
| "digits_value (c # cs) acc = digits_value cs (acc * 10 + (uint c - 48))"

text \<open>\<open>strtol\<close> to base ten: white space, an optional sign and digits; the rest of the string is returned.\<close>

definition str_int :: "byte list \<Rightarrow> (int \<times> byte list) option" where
  "str_int s =
     (let s1 = dropWhile is_space s;
          neg = (s1 \<noteq> [] \<and> hd s1 = 45);
          s2 = (if s1 \<noteq> [] \<and> (hd s1 = 45 \<or> hd s1 = 43) then tl s1 else s1);
          ds = takeWhile is_digit s2
      in if ds = [] then None
         else Some (if neg then - digits_value ds 0 else digits_value ds 0, drop (length ds) s2))"

text \<open>\<open>std::stol\<close> throws for a string without a number and for a number that does not fit 64 bits.\<close>

definition stol :: "byte list \<Rightarrow> int option" where
  "stol s = (case str_int s of None \<Rightarrow> None | Some (v, r) \<Rightarrow> if int64 v then Some v else None)"

text \<open>\<open>%d\<close> of \<open>sscanf\<close>: the number is read as 64 bits, saturating, and stored into 32.\<close>

definition scan_d :: "byte list \<Rightarrow> (int \<times> byte list) option" where
  "scan_d s = map_option (\<lambda>(v, r). (signed_take_bit 31 (max (- (2 ^ 63)) (min (2 ^ 63 - 1) v)), r)) (str_int s)"

text \<open>\<open>sscanf\<close> with \<open>%d-%d-%d\<close>, and whether all three fields were read.\<close>

definition scan_dash :: "byte list \<Rightarrow> byte list option" where
  "scan_dash s = (if s \<noteq> [] \<and> hd s = 45 then Some (tl s) else None)"

definition scan_date :: "byte list \<Rightarrow> (int \<times> int \<times> int) option" where
  "scan_date s =
     do {
       (year, s1) \<leftarrow> scan_d s; s2 \<leftarrow> scan_dash s1;
       (month, s3) \<leftarrow> scan_d s2; s4 \<leftarrow> scan_dash s3;
       (day, s5) \<leftarrow> scan_d s4;
       Some (year, month, day)
     }"

fun dec :: "nat \<Rightarrow> byte list" where
  "dec n = (if n < 10 then [digit n] else dec (n div 10) @ [digit (n mod 10)])"

declare dec.simps [simp del]

text \<open>\<open>%0wd\<close> of \<open>printf\<close>.\<close>

definition print_d :: "nat \<Rightarrow> int \<Rightarrow> byte list" where
  "print_d w v =
     (let ds = dec (nat \<bar>v\<bar>); sign = (if v < 0 then [45] else [])
      in sign @ replicate (w - length ds - length sign) 48 @ ds)"

text \<open>\<open>double_to_str\<close>: trailing zeros of the two decimals and the point are cut off.\<close>

definition strip_zeros :: "byte list \<Rightarrow> byte list" where
  "strip_zeros s = (let s1 = rev (dropWhile (\<lambda>c. c = 48) (rev s)) in if s1 \<noteq> [] \<and> last s1 = 46 then butlast s1 else s1)"

section \<open>Dates\<close>

definition leap :: "int \<Rightarrow> bool" where
  "leap year \<longleftrightarrow> year mod 4 = 0 \<and> year mod 100 \<noteq> 0 \<or> year mod 400 = 0"

definition parse_date :: "byte list \<Rightarrow> int" where
  "parse_date s =
     (case scan_date s of
        None \<Rightarrow> 0
      | Some (year, month, day) \<Rightarrow>
          if year < 0 \<or> month < 1 \<or> month > 12 \<or> day < 1 \<or> day > 31 then 0
          else if month = 2 \<and> leap year \<and> day > 29 then 0
          else if month = 2 \<and> \<not> leap year \<and> day > 28 then 0
          else if (month = 4 \<or> month = 6 \<or> month = 9 \<or> month = 11) \<and> day > 30 then 0
          else signed_take_bit 31 (year * 10000 + month * 100 + day))"

definition date_to_string :: "int \<Rightarrow> byte list" where
  "date_to_string date =
     (if date = 0 then ascii ''0000-00-00''
      else take 15 (print_d 4 (date sdiv 10000) @ [45] @ print_d 2 ((date smod 10000) sdiv 100) @ [45] @ print_d 2 (date smod 100)))"

section \<open>Values\<close>

record Value =
  v_type :: AttrType
  v_length :: int
  v_num :: "32 word"
  v_str :: "byte list"

definition new_value :: Value where
  "new_value = \<lparr>v_type = UNDEFINED, v_length = 0, v_num = 0, v_str = []\<rparr>"

definition set_int :: "int \<Rightarrow> Value \<Rightarrow> Value" where
  "set_int i v = v\<lparr>v_type := INTS, v_num := word_of_int i, v_length := 4\<rparr>"

definition set_float :: "32 word \<Rightarrow> Value \<Rightarrow> Value" where
  "set_float f v = v\<lparr>v_type := FLOATS, v_num := f, v_length := 4\<rparr>"

definition set_boolean :: "bool \<Rightarrow> Value \<Rightarrow> Value" where
  "set_boolean b v = v\<lparr>v_type := BOOLEANS, v_num := (v_num v AND 0xFFFFFF00) OR (if b then 1 else 0), v_length := 1\<rparr>"

text \<open>A positive length bounds the string; otherwise it ends at the first zero.\<close>

definition c_str :: "byte list \<Rightarrow> byte list" where
  "c_str s = takeWhile (\<lambda>c. c \<noteq> 0) s"

definition set_string :: "byte list \<Rightarrow> int \<Rightarrow> Value \<Rightarrow> Value" where
  "set_string s len v =
     (let t = (if len > 0 then c_str (take (nat len) s) else c_str s) in v\<lparr>v_type := CHARS, v_str := t, v_length := int (length t)\<rparr>)"

definition set_text :: "byte list \<Rightarrow> Value \<Rightarrow> Value" where
  "set_text s v = v\<lparr>v_type := TEXTS, v_str := c_str s, v_length := int (length (c_str s))\<rparr>"

definition set_null :: "Value \<Rightarrow> Value" where
  "set_null v = v\<lparr>v_type := NULLS, v_length := 0\<rparr>"

definition set_date :: "byte list \<Rightarrow> Value \<Rightarrow> Value" where
  "set_date s v =
     (let d = parse_date s; v1 = v\<lparr>v_num := word_of_int d\<rparr>
      in if d = 0 then set_null v1 else v1\<lparr>v_type := DATES, v_length := 4\<rparr>)"

definition value_set_data :: "byte list \<Rightarrow> int \<Rightarrow> Value \<Rightarrow> Value option" where
  "value_set_data bs len v =
     (case v_type v of
        CHARS \<Rightarrow> Some (set_string bs len v)
      | INTS \<Rightarrow> Some (v\<lparr>v_num := word_of_int (bytes_to_int (take 4 bs)), v_length := len\<rparr>)
      | FLOATS \<Rightarrow> Some (v\<lparr>v_num := word_of_int (bytes_to_int (take 4 bs)), v_length := len\<rparr>)
      | BOOLEANS \<Rightarrow> Some (v\<lparr>v_num := (v_num v AND 0xFFFFFF00) OR (if bytes_to_int (take 4 bs) \<noteq> 0 then 1 else 0), v_length := len\<rparr>)
      | DATES \<Rightarrow> Some (v\<lparr>v_num := word_of_int (bytes_to_int (take 4 bs)), v_length := len\<rparr>)
      | _ \<Rightarrow> None)"

text \<open>The bytes behind the pointer that \<open>data\<close> returns.\<close>

definition value_data :: "Value \<Rightarrow> byte list option" where
  "value_data v =
     (case v_type v of
        CHARS \<Rightarrow> Some (v_str v @ [0])
      | TEXTS \<Rightarrow> Some (v_str v @ [0])
      | NULLS \<Rightarrow> None
      | UNDEFINED \<Rightarrow> None
      | _ \<Rightarrow> Some (int_to_bytes 4 (uint (v_num v))))"

definition bool_value :: "Value \<Rightarrow> bool" where
  "bool_value v \<longleftrightarrow> v_num v AND 0xFF \<noteq> 0"

definition value_to_string :: "fpu \<Rightarrow> Value \<Rightarrow> byte list" where
  "value_to_string fp v =
     (case v_type v of
        INTS \<Rightarrow> print_d 0 (sint (v_num v))
      | FLOATS \<Rightarrow> strip_zeros (d_fixed2 fp (d_of_float fp (v_num v)))
      | BOOLEANS \<Rightarrow> [if bool_value v then 49 else 48]
      | CHARS \<Rightarrow> v_str v
      | DATES \<Rightarrow> date_to_string (sint (v_num v))
      | TEXTS \<Rightarrow> v_str v
      | NULLS \<Rightarrow> ascii ''NULL''
      | UNDEFINED \<Rightarrow> ascii ''UNDEFINED'')"

section \<open>Conversions\<close>

definition get_int :: "fpu \<Rightarrow> Value \<Rightarrow> int cast" where
  "get_int fp v =
     (case v_type v of
        TEXTS \<Rightarrow> Val (case stol (v_str v) of None \<Rightarrow> 0 | Some i \<Rightarrow> signed_take_bit 31 i)
      | CHARS \<Rightarrow> Val (case stol (v_str v) of None \<Rightarrow> 0 | Some i \<Rightarrow> signed_take_bit 31 i)
      | INTS \<Rightarrow> Val (sint (v_num v))
      | FLOATS \<Rightarrow> Val (f_to_int fp (v_num v))
      | BOOLEANS \<Rightarrow> Val (if bool_value v then 1 else 0)
      | DATES \<Rightarrow> Val (sint (v_num v))
      | NULLS \<Rightarrow> NullCast
      | UNDEFINED \<Rightarrow> Abort)"

definition get_float :: "fpu \<Rightarrow> Value \<Rightarrow> 32 word cast" where
  "get_float fp v =
     (case v_type v of
        TEXTS \<Rightarrow> Val (case str_to_f fp (v_str v) of None \<Rightarrow> f_of_int fp 0 | Some f \<Rightarrow> f)
      | CHARS \<Rightarrow> Val (case str_to_f fp (v_str v) of None \<Rightarrow> f_of_int fp 0 | Some f \<Rightarrow> f)
      | INTS \<Rightarrow> Val (f_of_int fp (sint (v_num v)))
      | FLOATS \<Rightarrow> Val (v_num v)
      | BOOLEANS \<Rightarrow> Val (f_of_int fp (if bool_value v then 1 else 0))
      | DATES \<Rightarrow> Val (f_of_int fp (sint (v_num v)))
      | NULLS \<Rightarrow> NullCast
      | UNDEFINED \<Rightarrow> Abort)"

definition get_string :: "fpu \<Rightarrow> Value \<Rightarrow> byte list cast" where
  "get_string fp v = (if v_type v = NULLS then NullCast else Val (value_to_string fp v))"

definition string_boolean :: "fpu \<Rightarrow> byte list \<Rightarrow> bool" where
  "string_boolean fp s =
     (case str_to_f fp s of
        None \<Rightarrow> s \<noteq> []
      | Some f \<Rightarrow>
          if f_beyond_eps fp f then True
          else (case stol s of
                  None \<Rightarrow> s \<noteq> []
                | Some i \<Rightarrow> if signed_take_bit 31 i \<noteq> 0 then True else s \<noteq> []))"

definition get_boolean :: "fpu \<Rightarrow> Value \<Rightarrow> bool cast" where
  "get_boolean fp v =
     (case v_type v of
        TEXTS \<Rightarrow> Val (string_boolean fp (v_str v))
      | CHARS \<Rightarrow> Val (string_boolean fp (v_str v))
      | INTS \<Rightarrow> Val (sint (v_num v) \<noteq> 0)
      | FLOATS \<Rightarrow> Val (f_beyond_eps fp (v_num v))
      | BOOLEANS \<Rightarrow> Val (bool_value v)
      | DATES \<Rightarrow> Val (sint (v_num v) \<noteq> 0)
      | NULLS \<Rightarrow> NullCast
      | UNDEFINED \<Rightarrow> Abort)"

definition get_double :: "fpu \<Rightarrow> Value \<Rightarrow> 64 word cast" where
  "get_double fp v =
     (case v_type v of
        TEXTS \<Rightarrow> Val (case str_to_d fp (v_str v) of None \<Rightarrow> d_of_int fp 0 | Some d \<Rightarrow> d)
      | CHARS \<Rightarrow> Val (case str_to_d fp (v_str v) of None \<Rightarrow> d_of_int fp 0 | Some d \<Rightarrow> d)
      | INTS \<Rightarrow> Val (d_of_int fp (sint (v_num v)))
      | FLOATS \<Rightarrow> Val (d_of_float fp (v_num v))
      | BOOLEANS \<Rightarrow> Val (d_of_int fp (if bool_value v then 1 else 0))
      | DATES \<Rightarrow> Val (d_of_int fp (sint (v_num v)))
      | NULLS \<Rightarrow> NullCast
      | UNDEFINED \<Rightarrow> Abort)"

definition set_value :: "fpu \<Rightarrow> Value \<Rightarrow> Value \<Rightarrow> Value option" where
  "set_value fp w v =
     (case v_type w of
        INTS \<Rightarrow> Some (set_int (sint (v_num w)) v)
      | FLOATS \<Rightarrow> Some (set_float (v_num w) v)
      | CHARS \<Rightarrow> Some (set_string (v_str w) 0 v)
      | BOOLEANS \<Rightarrow> Some (set_boolean (bool_value w) v)
      | DATES \<Rightarrow> Some (set_date (value_to_string fp w) v)
      | TEXTS \<Rightarrow> Some (set_text (v_str w) v)
      | NULLS \<Rightarrow> Some (set_null v)
      | UNDEFINED \<Rightarrow> None)"

section \<open>Comparison\<close>

text \<open>\<open>std::string::compare\<close>; of the result only the sign is used.\<close>

fun str_compare :: "byte list \<Rightarrow> byte list \<Rightarrow> int" where
  "str_compare [] [] = 0"
| "str_compare [] (b # s2) = -1"
| "str_compare (a # s1) [] = 1"
| "str_compare (a # s1) (b # s2) = (if a < b then -1 else if b < a then 1 else str_compare s1 s2)"

definition is_text :: "Value \<Rightarrow> bool" where
  "is_text v \<longleftrightarrow> v_type v = CHARS \<or> v_type v = TEXTS"

fun cast_bind :: "'a cast \<Rightarrow> ('a \<Rightarrow> 'b cast) \<Rightarrow> 'b cast" where
  "cast_bind (Val a) f = f a"
| "cast_bind NullCast f = NullCast"
| "cast_bind Abort f = Abort"

definition value_compare :: "fpu \<Rightarrow> Value \<Rightarrow> Value \<Rightarrow> int cast" where
  "value_compare fp v w =
     (if v_type v = DATES \<and> v_type w = CHARS then
        cast_bind (get_int fp v) (\<lambda>a. cast_bind (get_int fp (set_date (v_str w) new_value)) (\<lambda>b. Val (d_cmp fp (d_of_int fp a) (d_of_int fp b))))
      else if v_type v = CHARS \<and> v_type w = DATES then
        cast_bind (get_int fp (set_date (v_str v) new_value)) (\<lambda>a. cast_bind (get_int fp w) (\<lambda>b. Val (d_cmp fp (d_of_int fp a) (d_of_int fp b))))
      else if is_text v \<and> is_text w then Val (str_compare (v_str v) (v_str w))
      else cast_bind (get_double fp v) (\<lambda>a. cast_bind (get_double fp w) (\<lambda>b. Val (d_cmp fp a b))))"

definition value_eq :: "fpu \<Rightarrow> Value \<Rightarrow> Value \<Rightarrow> bool option" where
  "value_eq fp v w =
     (if v_type v = NULLS \<and> v_type w = NULLS then Some True
      else (case value_compare fp v w of Val i \<Rightarrow> Some (i = 0) | NullCast \<Rightarrow> Some False | Abort \<Rightarrow> None))"

definition value_less :: "fpu \<Rightarrow> Value \<Rightarrow> Value \<Rightarrow> bool option" where
  "value_less fp v w = (case value_compare fp v w of Val i \<Rightarrow> Some (i < 0) | NullCast \<Rightarrow> Some False | Abort \<Rightarrow> None)"

text \<open>A value is stored unless reading it threw; the handler of the exception stores NULL.\<close>

definition store :: "'a cast \<Rightarrow> ('a \<Rightarrow> Value \<Rightarrow> Value) \<Rightarrow> Value \<Rightarrow> Value option" where
  "store c set_to res = (case c of Val a \<Rightarrow> Some (set_to a res) | NullCast \<Rightarrow> Some (set_null res) | Abort \<Rightarrow> None)"

definition try_convert_value :: "fpu \<Rightarrow> Value \<Rightarrow> AttrType \<Rightarrow> Value \<Rightarrow> (RC \<times> Value) option" where
  "try_convert_value fp v ty res =
     (case ty of
        UNDEFINED \<Rightarrow> None
      | CHARS \<Rightarrow> map_option (Pair SUCCESS) (store (get_string fp v) (\<lambda>s. set_string s 0) res)
      | INTS \<Rightarrow> map_option (Pair SUCCESS) (store (get_int fp v) set_int res)
      | FLOATS \<Rightarrow> map_option (Pair SUCCESS) (store (get_float fp v) set_float res)
      | BOOLEANS \<Rightarrow> map_option (Pair SUCCESS) (store (get_boolean fp v) set_boolean res)
      | DATES \<Rightarrow>
          (case get_string fp v of
             Val s \<Rightarrow> (let r = set_date s res in Some (if v_type r = NULLS then INCORRECT_DATE_FORMAT else SUCCESS, r))
           | NullCast \<Rightarrow> Some (SUCCESS, set_null res)
           | Abort \<Rightarrow> None)
      | TEXTS \<Rightarrow> map_option (Pair SUCCESS) (store (get_string fp v) set_text res)
      | NULLS \<Rightarrow> Some (SUCCESS, set_null res))"

end
