(* ===== verification/SqlOrder.thy ===== *)
theory SqlOrder
  imports SqlValue
begin

text \<open>
  Values as SQL uses them: dates survive being printed and read, the comparison is a total preorder on numbers and on
  strings, and where it is not.
\<close>

section \<open>Numbers in strings\<close>

lemma digit_facts: "n < 10 \<Longrightarrow> is_digit (digit n)" "n < 10 \<Longrightarrow> uint (digit n) = 48 + int n"
proof -
  assume n: "n < 10"
  then have u: "uint (digit n) = 48 + int n" by (simp add: digit_def uint_nat unat_word_ariths unat_of_nat)
  then show "uint (digit n) = 48 + int n" .
  show "is_digit (digit n)" using u n by (simp add: is_digit_def word_le_def)
qed

lemma digits_value_append: "digits_value (xs @ ys) acc = digits_value ys (digits_value xs acc)"
  by (induction xs arbitrary: acc) auto

lemma dec_digits: "dec n \<noteq> []" "\<forall>c\<in>set (dec n). is_digit c" "digits_value (dec n) 0 = int n"
proof (induction n rule: dec.induct)
  case (1 n)
  show "dec n \<noteq> []" by (subst dec.simps) simp
  show "\<forall>c\<in>set (dec n). is_digit c" using 1 digit_facts(1) by (cases "n < 10") (simp_all add: dec.simps [of n])
  show "digits_value (dec n) 0 = int n"
  proof (cases "n < 10")
    case True
    then show ?thesis using digit_facts(2) by (simp add: dec.simps [of n])
  next
    case False
    have "int n = int (n div 10) * 10 + int (n mod 10)" by (metis div_mult_mod_eq of_nat_add of_nat_mult of_nat_numeral)
    then show ?thesis using False 1 digit_facts(2) [of "n mod 10"] by (simp add: dec.simps [of n] digits_value_append)
  qed
qed

lemma length_dec: "n < 10 ^ k \<Longrightarrow> 0 < k \<Longrightarrow> length (dec n) \<le> k"
proof (induction n arbitrary: k rule: dec.induct)
  case (1 n)
  show ?case
  proof (cases "n < 10")
    case True
    then show ?thesis using 1 by (simp add: dec.simps [of n])
  next
    case False
    then obtain j where k: "k = Suc j" "0 < j" using 1(2,3) by (cases k; cases "k = 1") (auto simp: gr0_conv_Suc)
    then have "n div 10 < 10 ^ j" using 1(2) by (simp add: less_mult_imp_div_less mult.commute)
    then show ?thesis using 1(1) [OF False] k False by (simp add: dec.simps [of n])
  qed
qed

lemma takeWhile_digits: "\<forall>c\<in>set ds. is_digit c \<Longrightarrow> r = [] \<or> \<not> is_digit (hd r) \<Longrightarrow> takeWhile is_digit (ds @ r) = ds"
  by (induction ds) (cases r, auto)

lemma digits_value_zeros: "digits_value (replicate k 48 @ ds) 0 = digits_value ds 0"
  by (induction k) auto

lemma not_digit: "is_digit c \<Longrightarrow> \<not> is_space c \<and> c \<noteq> 45 \<and> c \<noteq> 43"
  unfolding is_digit_def is_space_def word_le_def by auto

lemma str_int_print:
  assumes "0 \<le> v" "r = [] \<or> \<not> is_digit (hd r)"
  shows "str_int (print_d w v @ r) = Some (v, r)"
proof -
  let ?ds = "replicate (w - length (dec (nat v))) 48 @ dec (nat v)"
  have p: "print_d w v = ?ds" using assms(1) by (simp add: print_d_def Let_def)
  have dig: "\<forall>c\<in>set ?ds. is_digit c" using dec_digits(2) by (auto simp: is_digit_def)
  have ne: "?ds \<noteq> []" using dec_digits(1) by simp
  have c: "is_digit (hd (?ds @ r))" using dig ne hd_in_set [OF ne] by (metis hd_append2)
  then have "\<not> is_space (hd (?ds @ r))" "hd (?ds @ r) \<noteq> 45" "hd (?ds @ r) \<noteq> 43"
    using not_digit by blast+
  moreover have "digits_value ?ds 0 = v" using dec_digits(3) [of "nat v"] assms(1) by (simp add: digits_value_zeros)
  moreover have "dropWhile is_space (?ds @ r) = ?ds @ r" using calculation(1) ne by (cases "?ds @ r") auto
  ultimately show ?thesis using takeWhile_digits [OF dig assms(2)] ne unfolding p str_int_def Let_def by (simp del: append_assoc replicate_append_same)
qed

lemma scan_d_print: "0 \<le> v \<Longrightarrow> v < 2 ^ 31 \<Longrightarrow> r = [] \<or> \<not> is_digit (hd r) \<Longrightarrow> scan_d (print_d w v @ r) = Some (v, r)"
  using str_int_print [of v r w] signed_take_bit_int_eq_self_iff [of 31 v] by (simp add: scan_d_def)

section \<open>Dates\<close>

definition valid_date :: "int \<Rightarrow> int \<Rightarrow> int \<Rightarrow> bool" where
  "valid_date year month day \<longleftrightarrow> 0 \<le> year \<and> 1 \<le> month \<and> month \<le> 12 \<and> 1 \<le> day \<and> day \<le> 31
     \<and> \<not> (month = 2 \<and> day > (if leap year then 29 else 28)) \<and> \<not> (month \<in> {4, 6, 9, 11} \<and> day > 30)"

lemma parse_date_valid:
  assumes "scan_date s = Some (y, m, d)" "y \<le> 214747"
  shows "parse_date s = (if valid_date y m d then y * 10000 + m * 100 + d else 0)"
proof (cases "valid_date y m d")
  case True
  have "signed_take_bit 31 (y * 10000 + m * 100 + d) = y * 10000 + m * 100 + d"
    using True assms(2) by (subst signed_take_bit_int_eq_self_iff) (auto simp: valid_date_def)
  then show ?thesis using True assms(1) by (auto simp: parse_date_def valid_date_def)
next
  case False
  then show ?thesis using assms(1) by (auto simp: parse_date_def valid_date_def split: if_splits)
qed

lemma sdiv_smod_nonneg: "0 \<le> (a :: int) \<Longrightarrow> 0 < b \<Longrightarrow> a sdiv b = a div b" "0 \<le> (a :: int) \<Longrightarrow> 0 < b \<Longrightarrow> a smod b = a mod b"
  by (simp_all add: signed_divide_int_def signed_modulo_int_def minus_div_mult_eq_mod [symmetric] sgn_if)

lemma date_fields:
  assumes "valid_date y m d"
  shows "(y * 10000 + m * 100 + d) sdiv 10000 = y" "((y * 10000 + m * 100 + d) smod 10000) sdiv 100 = m" "(y * 10000 + m * 100 + d) smod 100 = d"
proof -
  have b: "0 \<le> y" "1 \<le> m" "m \<le> 12" "1 \<le> d" "d \<le> 31" using assms by (auto simp: valid_date_def)
  have n: "0 \<le> y * 10000 + m * 100 + d" "y * 10000 + m * 100 + d = (m * 100 + d) + y * 10000" "y * 10000 + m * 100 + d = d + (y * 100 + m) * 100"
    using b by simp_all
  have r: "(m * 100 + d) div 10000 = 0" "(m * 100 + d) mod 10000 = m * 100 + d" using b by simp_all
  have "((m * 100 + d) + y * 10000) div 10000 = y" using r(1) by (subst div_mult_self1) simp_all
  then show "(y * 10000 + m * 100 + d) sdiv 10000 = y" using n(1) unfolding n(2) by (simp add: sdiv_smod_nonneg)
  have "((m * 100 + d) + y * 10000) mod 10000 = m * 100 + d" using r(2) by (subst mod_mult_self1)
  moreover have "(m * 100 + d) div 100 = m" using b by simp
  ultimately show "((y * 10000 + m * 100 + d) smod 10000) sdiv 100 = m" using n(1) b unfolding n(2) by (simp add: sdiv_smod_nonneg)
  have "(d + (y * 100 + m) * 100) mod 100 = d" using b by (subst mod_mult_self1) simp
  then show "(y * 10000 + m * 100 + d) smod 100 = d" using n(1) unfolding n(3) by (simp add: sdiv_smod_nonneg)
qed

lemma print_d_length: "0 \<le> v \<Longrightarrow> v < 10 ^ k \<Longrightarrow> 0 < k \<Longrightarrow> length (print_d w v) \<le> max w k"
  using length_dec [of "nat v" k] by (simp add: print_d_def Let_def nat_less_iff)

lemma scan_printed_date:
  assumes "valid_date y m d" "y \<le> 214747"
  shows "scan_date (date_to_string (y * 10000 + m * 100 + d)) = Some (y, m, d)"
proof -
  have b: "0 \<le> y" "1 \<le> m" "m \<le> 12" "1 \<le> d" "d \<le> 31" using assms by (auto simp: valid_date_def)
  let ?s = "print_d 4 y @ [45] @ print_d 2 m @ [45] @ print_d 2 d"
  have "length (print_d 4 y) \<le> 6" "length (print_d 2 m) \<le> 2" "length (print_d 2 d) \<le> 2"
    using print_d_length [of y 6 4] print_d_length [of m 2 2] print_d_length [of d 2 2] b assms(2) by simp_all
  then have "date_to_string (y * 10000 + m * 100 + d) = ?s"
    using date_fields [OF assms(1)] b by (simp add: date_to_string_def)
  moreover have "scan_date ?s = Some (y, m, d)"
    using scan_d_print [of y "[45] @ print_d 2 m @ [45] @ print_d 2 d" 4] scan_d_print [of m "[45] @ print_d 2 d" 2] scan_d_print [of d "[]" 2] b assms(2)
    by (simp add: scan_date_def scan_dash_def is_digit_def)
  ultimately show ?thesis by simp
qed

section \<open>Comparison\<close>

text \<open>Doubles represent 32-bit integers exactly, and their differences too.\<close>

definition fpu_ok :: "fpu \<Rightarrow> bool" where
  "fpu_ok fp \<longleftrightarrow> (\<forall>a b. int32 a \<longrightarrow> int32 b \<longrightarrow> d_cmp fp (d_of_int fp a) (d_of_int fp b) = sgn (a - b))"

definition value_cmp :: "fpu \<Rightarrow> Value \<Rightarrow> Value \<Rightarrow> int" where
  "value_cmp fp v w = (case value_compare fp v w of Val i \<Rightarrow> i | _ \<Rightarrow> 0)"

definition whole_number :: "Value \<Rightarrow> bool" where
  "whole_number v \<longleftrightarrow> v_type v = INTS \<or> v_type v = DATES \<or> v_type v = BOOLEANS"

definition number_of :: "Value \<Rightarrow> int" where
  "number_of v = (if v_type v = BOOLEANS then (if bool_value v then 1 else 0) else sint (v_num v))"

lemma sint_int32: "int32 (sint (w :: 32 word))"
  using sint_greater_eq [of w] sint_less [of w] by (simp add: int32_def)

lemma compare_numbers:
  assumes "fpu_ok fp" "whole_number v" "whole_number w"
  shows "value_compare fp v w = Val (sgn (number_of v - number_of w))"
proof -
  have n: "int32 (number_of u)" for u using sint_int32 [of "v_num u"] by (simp add: number_of_def int32_def)
  have "get_double fp u = Val (d_of_int fp (number_of u))" if "whole_number u" for u
    using that by (auto simp: whole_number_def get_double_def number_of_def)
  then show ?thesis using assms n by (auto simp: value_compare_def whole_number_def is_text_def fpu_ok_def)
qed

lemma compare_texts: "is_text v \<Longrightarrow> is_text w \<Longrightarrow> value_compare fp v w = Val (str_compare (v_str v) (v_str w))"
  by (auto simp: value_compare_def is_text_def)

lemma str_compare_refl [simp]: "str_compare s s = 0"
  by (induction s) auto

lemma str_compare_flip: "str_compare s t < 0 \<longleftrightarrow> str_compare t s > 0"
  by (induction s t rule: str_compare.induct) auto

lemma str_compare_trans: "str_compare s t \<le> 0 \<Longrightarrow> str_compare t u \<le> 0 \<Longrightarrow> str_compare s u \<le> 0"
proof (induction s t arbitrary: u rule: str_compare.induct)
  case (2 b s2)
  then show ?case by (cases u) auto
next
  case (4 a s1 b s2)
  then show ?case by (cases u) (auto split: if_splits)
next
  case 1
  then show ?case by (cases u) auto
qed auto

lemma numbers_order: "fpu_ok fp \<Longrightarrow> key_order (value_cmp fp) whole_number"
  by unfold_locales (auto simp: value_cmp_def compare_numbers sgn_if split: if_splits)

lemma texts_order: "key_order (value_cmp fp) is_text"
proof unfold_locales
  show "is_text v \<Longrightarrow> is_text w \<Longrightarrow> is_text u \<Longrightarrow> value_cmp fp v w \<le> 0 \<Longrightarrow> value_cmp fp w u \<le> 0 \<Longrightarrow> value_cmp fp v u \<le> 0" for v w u
    using str_compare_trans by (auto simp: value_cmp_def compare_texts)
qed (auto simp: value_cmp_def compare_texts str_compare_flip)

section \<open>The order of an index\<close>

text \<open>The value of a column, as it is read from the bytes of a record.\<close>

definition stored_value :: "AttrType \<Rightarrow> byte list \<Rightarrow> Value option" where
  "stored_value ty bs = value_set_data bs (int (length bs)) (new_value\<lparr>v_type := ty\<rparr>)"

lemma sgn_strncmp: "length s = n \<Longrightarrow> length t = n \<Longrightarrow> sgn (strncmp n s t) = str_compare (c_str s) (c_str t)"
proof (induction n s t rule: strncmp.induct)
  case (1 n a s1 b s2)
  have z: "0 < uint c" if "c \<noteq> 0" for c :: byte using that by (simp add: order_le_neq_trans uint_0_iff)
  show ?case
  proof (cases "a = b")
    case True
    then show ?thesis using 1 by (auto simp: c_str_def)
  next
    case False
    then have "uint a \<noteq> uint b" by (simp add: word_uint_eq_iff)
    then show ?thesis using False z [of a] z [of b] by (auto simp: c_str_def word_less_def sgn_if)
  qed
qed (auto simp: c_str_def)

lemma sint_word32: "sint (word_of_int i :: 32 word) = signed_take_bit 31 i"
  by transfer simp

lemma sint_stored: "sint (word_of_int (bytes_to_int (take 4 bs)) :: 32 word) = int32_of_bytes bs"
  by (simp add: int32_of_bytes_def sint_word32)

lemma sgn_compare_int: "compare_int a b = sgn (int32_of_bytes a - int32_of_bytes b)"
  by (simp add: compare_int_def Let_def sgn_if)

lemma sgn_str_compare [simp]: "sgn (str_compare s t) = str_compare s t"
  by (induction s t rule: str_compare.induct) auto

section \<open>Properties\<close>

text \<open>
  A date read from a string with a year up to 214747 survives being printed and read: copying the value, which goes
  through its string, gives the same date, and so does converting it to a string and back.
\<close>

lemma date_roundtrip:
  assumes "scan_date s = Some (y, m, d)" "y \<le> 214747" "v_type (set_date s u) = DATES"
  shows "set_value fp (set_date s u) w = Some (w\<lparr>v_type := DATES, v_length := 4, v_num := v_num (set_date s u)\<rparr>)
    \<and> (\<exists>t r. try_convert_value fp (set_date s u) CHARS w = Some (SUCCESS, t) \<and> try_convert_value fp t DATES w = Some (SUCCESS, r)
        \<and> v_type r = DATES \<and> v_num r = v_num (set_date s u))"
proof -
  let ?n = "y * 10000 + m * 100 + d" and ?v = "set_date s u"
  have v: "valid_date y m d" "parse_date s = ?n"
    using parse_date_valid [OF assms(1,2)] assms(3) by (auto simp: set_date_def Let_def set_null_def split: if_splits)
  have b: "0 \<le> y" "1 \<le> m" "m \<le> 12" "1 \<le> d" "d \<le> 31" using v(1) by (auto simp: valid_date_def)
  have n0: "?n \<noteq> 0" "signed_take_bit 31 ?n = ?n" using b assms(2) by (auto simp: signed_take_bit_int_eq_self_iff)
  have num: "v_num ?v = word_of_int ?n" "v_type ?v = DATES" using v n0(1) by (simp_all add: set_date_def Let_def)
  have "sint (v_num ?v) = ?n" unfolding num(1) using n0(2) by (subst sint_word32)
  then have str: "value_to_string fp ?v = date_to_string ?n" using num(2) by (simp add: value_to_string_def)
  have parse: "parse_date (date_to_string ?n) = ?n" using parse_date_valid [OF scan_printed_date [OF v(1) assms(2)] assms(2)] v(1) by simp
  have z: "c_str (date_to_string ?n) = date_to_string ?n"
  proof -
    have "0 \<notin> set (print_d k i)" for k i using dec_digits(2) by (fastforce simp: print_d_def Let_def is_digit_def split: if_splits)
    then have "0 \<notin> set (date_to_string ?n)" using n0(1) by (auto simp: date_to_string_def dest!: in_set_takeD)
    then show ?thesis by (auto simp: c_str_def takeWhile_eq_all_conv)
  qed
  have "set_value fp ?v w = Some (w\<lparr>v_type := DATES, v_length := 4, v_num := v_num ?v\<rparr>)"
    using num str parse n0(1) by (simp add: set_value_def set_date_def Let_def)
  moreover have "try_convert_value fp ?v CHARS w = Some (SUCCESS, set_string (date_to_string ?n) 0 w)"
    using num(2) str by (simp add: try_convert_value_def store_def get_string_def)
  moreover have "try_convert_value fp (set_string (date_to_string ?n) 0 w) DATES w = Some (SUCCESS, w\<lparr>v_type := DATES, v_length := 4, v_num := word_of_int ?n\<rparr>)"
    using z parse n0(1) by (simp add: try_convert_value_def get_string_def value_to_string_def set_string_def Let_def set_date_def)
  ultimately show ?thesis using num by simp
qed


text \<open>
  C17: The index over a column of whole numbers, dates or strings is in the order in which SQL compares the values stored in
  the column.
\<close>

theorem index_order_agrees:
  assumes "fpu_ok fp" "ty \<in> {INTS, DATES, CHARS}" "length a = len" "length b = len"
  shows "\<exists>v w i. stored_value ty a = Some v \<and> stored_value ty b = Some w \<and> value_compare fp v w = Val i \<and> sgn (AttrComparator fsub ty len a b) = i"
proof (cases "ty = CHARS")
  case True
  let ?v = "\<lambda>s. new_value\<lparr>v_type := CHARS, v_str := c_str s, v_length := int (length (c_str s))\<rparr>"
  have "stored_value ty s = Some (?v s)" if "length s = len" for s
    using True that by (simp add: stored_value_def value_set_data_def set_string_def Let_def)
  moreover have "value_compare fp (?v a) (?v b) = Val (str_compare (c_str a) (c_str b))" by (simp add: compare_texts is_text_def)
  ultimately show ?thesis using True assms(3,4) sgn_strncmp [of a len b] by (auto simp: compare_string_def Let_def sgn_if split: if_splits)
next
  case False
  let ?v = "\<lambda>s. new_value\<lparr>v_type := ty, v_num := word_of_int (bytes_to_int (take 4 s)), v_length := int (length s)\<rparr>"
  have st: "stored_value ty s = Some (?v s)" for s using False assms(2) by (auto simp: stored_value_def value_set_data_def)
  have "number_of (?v s) = int32_of_bytes s" for s using False assms(2) sint_stored by (auto simp: number_of_def)
  then have "value_compare fp (?v a) (?v b) = Val (sgn (int32_of_bytes a - int32_of_bytes b))"
    using compare_numbers [OF assms(1), of "?v a" "?v b"] False assms(2) by (auto simp: whole_number_def)
  moreover have "sgn (AttrComparator fsub ty len a b) = sgn (int32_of_bytes a - int32_of_bytes b)" using False assms(2) sgn_compare_int by auto
  ultimately show ?thesis using st by blast
qed

section \<open>Examples\<close>

text \<open>A unit whose numbers are whole, for the examples: a double is its value as 64 bits.\<close>

definition ex_fpu :: fpu where
  "ex_fpu = \<lparr>f_of_int = word_of_int, f_to_int = sint, f_add = (+), f_sub = (-), f_mul = (*), f_div = (\<lambda>a b. word_of_int (sint a sdiv sint b)),
     f_neg = uminus, f_beyond_eps = (\<lambda>f. f \<noteq> 0), f_within_eps = (\<lambda>f. f = 0), d_of_int = word_of_int, d_of_float = (\<lambda>f. word_of_int (sint f)),
     d_cmp = (\<lambda>a b. sgn (sint a - sint b)), str_to_f = (\<lambda>s. map_option (\<lambda>r. word_of_int (fst r)) (str_int s)),
     str_to_d = (\<lambda>s. map_option (\<lambda>r. word_of_int (fst r)) (str_int s)), d_fixed2 = (\<lambda>d. print_d 0 (sint d) @ ascii ''.00'')\<rparr>"

lemma ex_fpu_ok: "fpu_ok ex_fpu"
proof -
  have "sint (word_of_int a :: 64 word) = a" if "int32 a" for a
  proof -
    have "sint (word_of_int a :: 64 word) = signed_take_bit 63 a" by transfer simp
    moreover have "signed_take_bit 63 a = a" using that by (subst signed_take_bit_int_eq_self_iff) (simp add: int32_def)
    ultimately show ?thesis by simp
  qed
  then show ?thesis by (simp add: fpu_ok_def ex_fpu_def)
qed


theorem index_order_agrees_witness:
  "\<exists>v w i. stored_value CHARS (ascii ''ab'') = Some v \<and> stored_value CHARS (ascii ''b'' @ [0]) = Some w \<and> value_compare ex_fpu v w = Val i
    \<and> sgn (AttrComparator (\<lambda>_ _. None) CHARS 2 (ascii ''ab'') (ascii ''b'' @ [0])) = i"
  using index_order_agrees [OF ex_fpu_ok, of CHARS "ascii ''ab''" 2 "ascii ''b'' @ [0]" "\<lambda>_ _. None"] by (simp add: ascii_def)

end
