(* ===== verification/SqlFunction.thy ===== *)
theory SqlFunction
  imports SqlOrder
begin

text \<open>
  The functions of SQL: \<^verbatim>\<open>src/observer/sql/expr/function.cpp\<close>. \<open>DATE_FORMAT\<close> prints a date by a pattern, for which it computes
  the day of the year and of the week; the day of the week is shown to be right from the year 1000 on. Reading behind one of
  the arrays of names, or printing a year into a buffer it does not fit, is \<open>Abort\<close>.
\<close>

section \<open>Calendar\<close>

definition is_luner_year :: "int \<Rightarrow> bool" where
  "is_luner_year year \<longleftrightarrow> year mod 4 = 0 \<and> (year mod 100 \<noteq> 0 \<or> year mod 400 = 0)"

definition days_in_month :: "int list" where
  "days_in_month = [0, 31, 28, 31, 30, 31, 30, 31, 31, 30, 31, 30, 31]"

text \<open>The names are arrays: an index outside is undefined.\<close>

definition entry :: "'a list \<Rightarrow> int \<Rightarrow> 'a cast" where
  "entry xs i = (if 0 \<le> i \<and> nat i < length xs then Val (xs ! nat i) else Abort)"

definition day_of_year :: "int \<Rightarrow> int \<Rightarrow> int \<Rightarrow> int cast" where
  "day_of_year year month day =
     (if month \<le> 13 then
        Val (foldl (\<lambda>n i. n + days_in_month ! i) day [1..<nat month] + (if month > 2 \<and> is_luner_year year then 1 else 0))
      else Abort)"

function add_years :: "int \<Rightarrow> int \<Rightarrow> int \<Rightarrow> int" where
  "add_years i year n = (if i < year then add_years (i + 1) year (n + 365 + (if is_luner_year i then 1 else 0)) else n)"
  by auto
termination by (relation "measure (\<lambda>(i, year, n). nat (year - i))") auto

declare add_years.simps [simp del]

definition day_of_week :: "int \<Rightarrow> int \<Rightarrow> int \<Rightarrow> int cast" where
  "day_of_week year month day = cast_bind (day_of_year year month day) (\<lambda>n. Val ((add_years 1000 year n + 1) smod 7))"

section \<open>Printing a date\<close>

definition weekday_names :: "byte list list" where
  "weekday_names = map ascii [''Monday'', ''Tuesday'', ''Wednesday'', ''Thursday'', ''Friday'', ''Saturday'', ''Sunday'']"

definition abbreviated_weekday_names :: "byte list list" where
  "abbreviated_weekday_names = map ascii [''Mon'', ''Tue'', ''Wed'', ''Thu'', ''Fri'', ''Sat'', ''Sun'']"

definition month_names :: "byte list list" where
  "month_names = map ascii ['''', ''January'', ''February'', ''March'', ''April'', ''May'', ''June'', ''July'', ''August'', ''September'', ''October'',
     ''November'', ''December'']"

definition abbreviated_month_names :: "byte list list" where
  "abbreviated_month_names = map ascii ['''', ''Jan'', ''Feb'', ''Mar'', ''Apr'', ''May'', ''Jun'', ''Jul'', ''Aug'', ''Sep'', ''Oct'', ''Nov'', ''Dec'']"

definition get_abbreviated_weekday_name :: "int \<Rightarrow> int \<Rightarrow> int \<Rightarrow> byte list cast" where
  "get_abbreviated_weekday_name year month day = cast_bind (day_of_week year month day) (entry abbreviated_weekday_names)"

definition get_weekday_name :: "int \<Rightarrow> int \<Rightarrow> int \<Rightarrow> byte list cast" where
  "get_weekday_name year month day = cast_bind (day_of_week year month day) (entry weekday_names)"

definition get_month_numeric :: "int \<Rightarrow> byte list" where
  "get_month_numeric month = print_d 0 (month - 1)"

definition suffixes :: "byte list list" where
  "suffixes = map ascii [''th'', ''st'', ''nd'', ''th'', ''th'', ''th'', ''th'', ''th'', ''th'', ''th'']"

definition get_day_of_month_with_english_suffix :: "int \<Rightarrow> byte list cast" where
  "get_day_of_month_with_english_suffix day =
     (if day = 3 then Val (print_d 0 day @ ascii ''rd'') else cast_bind (entry suffixes (day smod 10)) (\<lambda>s. Val (print_d 0 day @ s)))"

definition zero_fill :: "int \<Rightarrow> byte list" where
  "zero_fill n = (if n < 10 then 48 # print_d 0 n else print_d 0 n)"

definition get_day_of_year_zero_fill :: "int \<Rightarrow> int \<Rightarrow> int \<Rightarrow> byte list cast" where
  "get_day_of_year_zero_fill year month day = cast_bind (day_of_year year month day) (\<lambda>n. Val (print_d 0 n))"

definition get_day_of_week :: "int \<Rightarrow> int \<Rightarrow> int \<Rightarrow> byte list cast" where
  "get_day_of_week year month day = cast_bind (day_of_week year month day) (\<lambda>w. Val (print_d 0 ((w + 1) smod 7)))"

text \<open>The buffers have room for four and for two characters.\<close>

definition get_year_four_digits :: "int \<Rightarrow> byte list cast" where
  "get_year_four_digits year = (if length (print_d 4 year) \<le> 4 then Val (print_d 4 year) else Abort)"

definition get_year_two_digits :: "int \<Rightarrow> byte list cast" where
  "get_year_two_digits year = (if length (print_d 2 (year smod 100)) \<le> 2 then Val (print_d 2 (year smod 100)) else Abort)"

text \<open>What is printed for the letter after a percent sign; \<open>None\<close> for an unknown letter.\<close>

definition format_letter :: "int \<Rightarrow> int \<Rightarrow> int \<Rightarrow> byte \<Rightarrow> byte list cast option" where
  "format_letter year month day c =
     (if c = of_char CHR ''a'' then Some (get_abbreviated_weekday_name year month day)
      else if c = of_char CHR ''b'' then Some (entry abbreviated_month_names month)
      else if c = of_char CHR ''c'' then Some (Val (get_month_numeric month))
      else if c = of_char CHR ''D'' then Some (get_day_of_month_with_english_suffix day)
      else if c = of_char CHR ''d'' then Some (Val (zero_fill day))
      else if c = of_char CHR ''e'' then Some (Val (print_d 0 day))
      else if c = of_char CHR ''j'' then Some (get_day_of_year_zero_fill year month day)
      else if c = of_char CHR ''M'' then Some (entry month_names month)
      else if c = of_char CHR ''m'' then Some (Val (zero_fill month))
      else if c = of_char CHR ''W'' then Some (get_weekday_name year month day)
      else if c = of_char CHR ''w'' then Some (get_day_of_week year month day)
      else if c = of_char CHR ''Y'' then Some (get_year_four_digits year)
      else if c = of_char CHR ''y'' then Some (get_year_two_digits year)
      else if c = 37 then Some (Val [37])
      else None)"

fun do_date_format :: "int \<Rightarrow> int \<Rightarrow> int \<Rightarrow> byte list \<Rightarrow> byte list \<Rightarrow> (RC \<times> byte list) cast" where
  "do_date_format year month day [] acc = Val (SUCCESS, acc)"
| "do_date_format year month day [c] acc = (if c = 37 then Val (INCORRECT_DATE_FORMAT, acc) else Val (SUCCESS, acc @ [c]))"
| "do_date_format year month day (c # d # cs) acc =
     (if c \<noteq> 37 then do_date_format year month day (d # cs) (acc @ [c])
      else (case format_letter year month day d of
              None \<Rightarrow> Val (INCORRECT_DATE_FORMAT, acc)
            | Some r \<Rightarrow> cast_bind r (\<lambda>s. do_date_format year month day cs (acc @ s))))"

section \<open>The functions\<close>

datatype FunctionType = FN_LENGTH | FN_ROUND | FN_DATE_FORMAT

text \<open>
  The operations of \<open>do_round\<close> that \<open>fpu\<close> does not have: a power of ten as a float, subtracting a half, and whether a float
  is greater than \<open>EPSILON\<close>.
\<close>

record rounding =
  r_pow10 :: "int \<Rightarrow> 32 word"
  r_minus_half :: "32 word \<Rightarrow> 32 word"
  r_above_eps :: "32 word \<Rightarrow> bool"

definition do_round :: "fpu \<Rightarrow> rounding \<Rightarrow> 32 word \<Rightarrow> int \<Rightarrow> 32 word" where
  "do_round fp rd num precision =
     (let factor = r_pow10 rd precision;
          upperred_num = f_mul fp num factor;
          fractional_part = f_to_int fp upperred_num;
          truncated_half = r_minus_half rd (f_sub fp upperred_num (f_of_int fp fractional_part));
          up = r_above_eps rd truncated_half \<or> f_within_eps fp truncated_half \<and> fractional_part smod 2 = 1
      in f_div fp (f_of_int fp (if up then fractional_part + 1 else fractional_part)) factor)"

text \<open>Reading a parameter that is not there is undefined.\<close>

definition param :: "Value list \<Rightarrow> nat \<Rightarrow> Value cast" where
  "param ps i = (if i < length ps then Val (ps ! i) else Abort)"

text \<open>The handler of \<open>null_cast_exception\<close> in the functions: the result is NULL.\<close>

definition or_null :: "'a cast \<Rightarrow> ('a \<Rightarrow> (RC \<times> Value) cast) \<Rightarrow> Value \<Rightarrow> (RC \<times> Value) cast" where
  "or_null c f v = (case c of Val a \<Rightarrow> f a | NullCast \<Rightarrow> Val (SUCCESS, set_null v) | Abort \<Rightarrow> Abort)"

definition length_body :: "fpu \<Rightarrow> Value list \<Rightarrow> Value \<Rightarrow> (RC \<times> Value) cast" where
  "length_body fp ps res = or_null (cast_bind (param ps 0) (get_string fp)) (\<lambda>s. Val (SUCCESS, set_int (int (length s)) res)) res"

definition round_body :: "fpu \<Rightarrow> rounding \<Rightarrow> Value list \<Rightarrow> Value \<Rightarrow> (RC \<times> Value) cast" where
  "round_body fp rd ps res =
     (if length ps = 1 then or_null (get_float fp (ps ! 0)) (\<lambda>num. Val (SUCCESS, set_float (do_round fp rd num 0) res)) res
      else if length ps = 2 then
        or_null (cast_bind (get_float fp (ps ! 0)) (\<lambda>num. cast_bind (get_int fp (ps ! 1)) (\<lambda>precision. Val (num, precision))))
          (\<lambda>(num, precision). Val (SUCCESS, set_float (do_round fp rd num precision) res)) res
      else Val (SUCCESS, res))"

definition date_format_body :: "fpu \<Rightarrow> Value list \<Rightarrow> Value \<Rightarrow> (RC \<times> Value) cast" where
  "date_format_body fp ps res =
     or_null (cast_bind (param ps 0) (get_string fp))
       (\<lambda>s. let date = set_date s new_value
            in if v_type date = NULLS then Val (SUCCESS, set_null res)
               else or_null (cast_bind (cast_bind (param ps 1) (get_string fp)) (\<lambda>fmt. cast_bind (get_int fp date) (\<lambda>ymd. Val (fmt, ymd))))
                      (\<lambda>(fmt, ymd).
                         cast_bind (do_date_format (ymd sdiv 10000) ((ymd smod 10000) sdiv 100) (ymd smod 100) fmt [])
                           (\<lambda>(rc, s). if rc \<noteq> SUCCESS then Val (rc, res) else Val (SUCCESS, set_string s 0 res)))
                      res)
       res"

definition function_body :: "fpu \<Rightarrow> rounding \<Rightarrow> FunctionType \<Rightarrow> Value list \<Rightarrow> Value \<Rightarrow> (RC \<times> Value) cast" where
  "function_body fp rd ty ps res =
     (case ty of FN_LENGTH \<Rightarrow> length_body fp ps res | FN_ROUND \<Rightarrow> round_body fp rd ps res | FN_DATE_FORMAT \<Rightarrow> date_format_body fp ps res)"

definition check_params :: "FunctionType \<Rightarrow> nat \<Rightarrow> RC" where
  "check_params ty n =
     (case ty of
        FN_LENGTH \<Rightarrow> (if n \<noteq> 1 then INVALID_ARGUMENT else SUCCESS)
      | FN_ROUND \<Rightarrow> (if n \<noteq> 1 \<and> n \<noteq> 2 then INVALID_ARGUMENT else SUCCESS)
      | FN_DATE_FORMAT \<Rightarrow> (if n \<noteq> 2 then INVALID_ARGUMENT else SUCCESS))"

definition function_value_type :: "FunctionType \<Rightarrow> AttrType" where
  "function_value_type ty = (case ty of FN_LENGTH \<Rightarrow> INTS | FN_ROUND \<Rightarrow> FLOATS | FN_DATE_FORMAT \<Rightarrow> CHARS)"

section \<open>The calendar is right\<close>

text \<open>The days before a year, counted from the year 1, and the day after a date.\<close>

definition days_before :: "int \<Rightarrow> int" where
  "days_before year = 365 * (year - 1) + (year - 1) div 4 - (year - 1) div 100 + (year - 1) div 400"

definition month_length :: "int \<Rightarrow> int \<Rightarrow> int" where
  "month_length year month = (if month = 2 then (if leap year then 29 else 28) else if month \<in> {4, 6, 9, 11} then 30 else 31)"

definition next_day :: "int \<times> int \<times> int \<Rightarrow> int \<times> int \<times> int" where
  "next_day = (\<lambda>(year, month, day). if day < month_length year month then (year, month, day + 1)
     else if month < 12 then (year, month + 1, 1) else (year + 1, 1, 1))"

lemma luner_leap: "is_luner_year year = leap year"
  unfolding is_luner_year_def leap_def by presburger

lemma div_pred:
  fixes y k :: int
  assumes "0 < k"
  shows "y div k = (y - 1) div k + (if y mod k = 0 then 1 else 0)"
proof -
  have y: "y = k * (y div k) + y mod k" by simp
  show ?thesis
  proof (cases "y mod k = 0")
    case True
    then have "y - 1 = k * (y div k - 1) + (k - 1)" using y by (simp add: algebra_simps)
    then have "(y - 1) div k = y div k - 1" using assms by (intro int_div_pos_eq [where r = "k - 1"]) auto
    then show ?thesis using True by simp
  next
    case False
    then have "0 < y mod k" "y mod k < k" using assms pos_mod_sign [of k y] pos_mod_bound [of k y] by linarith+
    moreover have "y - 1 = k * (y div k) + (y mod k - 1)" using y by simp
    ultimately have "(y - 1) div k = y div k" by (intro int_div_pos_eq [where r = "y mod k - 1"]) auto
    then show ?thesis using False by simp
  qed
qed

lemma days_before_step: "days_before (year + 1) = days_before year + 365 + (if leap year then 1 else 0)"
proof -
  have sum: "A = a + x \<Longrightarrow> B = b + y \<Longrightarrow> C = c + z \<Longrightarrow> 365 * n + A - B + C = 365 * (n - 1) + a - b + c + 365 + x - y + z" for A B C a b c x y z n :: int
    by simp
  have l: "year mod 400 = 0 \<Longrightarrow> year mod 100 = 0" "year mod 100 = 0 \<Longrightarrow> year mod 4 = 0" 
    using dvd_trans [of 100 400 year] dvd_trans [of 4 100 year] by (simp_all add: dvd_eq_mod_eq_0)
  have "days_before (year + 1) = days_before year + 365 + (if year mod 4 = 0 then 1 else 0) - (if year mod 100 = 0 then 1 else 0) + (if year mod 400 = 0 then 1 else 0)"
    unfolding days_before_def add_diff_cancel_right' by (rule sum) (rule div_pred; simp)+
  then show ?thesis using l by (auto simp: leap_def)
qed

lemma add_years_days: "i \<le> year \<Longrightarrow> add_years i year n = n + days_before year - days_before i"
proof (induction i year n rule: add_years.induct)
  case (1 i year n)
  show ?case using 1 days_before_step [of i] by (subst add_years.simps) (auto simp: luner_leap)
qed

lemma add_years_ge: "n \<le> add_years i year n"
proof (induction i year n rule: add_years.induct)
  case (1 i year n)
  then show ?case by (subst add_years.simps) (auto split: if_splits)
qed

lemma day_of_week_closed:
  assumes "day_of_year year month day = Val n" "0 \<le> n" "1000 \<le> year"
  shows "day_of_week year month day = Val ((days_before year + n - 1) mod 7)"
proof -
  have a: "add_years 1000 year n = n + days_before year - 364877"
    using assms(3) by (simp add: add_years_days) (simp add: days_before_def)
  then have "0 \<le> n + days_before year - 364877" using add_years_ge [of n 1000 year] assms(2) by linarith
  then have "(add_years 1000 year n + 1) smod 7 = (days_before year + n - 364876) mod 7" unfolding a by (simp add: sdiv_smod_nonneg algebra_simps)
  also have "\<dots> = ((days_before year + n - 364876) + 52125 * 7) mod 7" by (simp only: mod_mult_self1)
  also have "\<dots> = (days_before year + n - 1) mod 7" by simp
  finally show ?thesis using assms(1) by (simp add: day_of_week_def)
qed

lemma month_cases: "1 \<le> m \<Longrightarrow> m \<le> 12 \<Longrightarrow> m \<in> {1, 2, 3, 4, 5, 6, 7, 8, 9, 10, 11, 12}" for m :: int
  by simp presburger

lemma month_length_array:
  "1 \<le> month \<Longrightarrow> month \<le> 12 \<Longrightarrow> month_length year month = days_in_month ! nat month + (if month = 2 \<and> leap year then 1 else 0)"
  by (drule (1) month_cases, elim insertE) (simp_all add: month_length_def days_in_month_def)

lemma valid_date_length: "valid_date y m d \<longleftrightarrow> 0 \<le> y \<and> 1 \<le> m \<and> m \<le> 12 \<and> 1 \<le> d \<and> d \<le> month_length y m"
  by (cases "m = 2"; cases "m \<in> {4, 6, 9, 11}"; cases "leap y") (simp_all add: valid_date_def month_length_def, linarith+)

lemma month_length_pos: "28 \<le> month_length y m"
  by (simp add: month_length_def)

definition month_sum :: "int \<Rightarrow> int" where
  "month_sum month = foldl (\<lambda>n i. n + days_in_month ! i) 0 [1..<nat month]"

lemma foldl_days: "foldl (\<lambda>n i. n + days_in_month ! i) d xs = d + foldl (\<lambda>n i. n + days_in_month ! i) 0 xs"
proof (induction xs arbitrary: d)
  case (Cons x xs)
  show ?case using Cons [of "d + days_in_month ! x"] Cons [of "days_in_month ! x"] by simp
qed simp

lemma day_of_year_sum:
  "month \<le> 13 \<Longrightarrow> day_of_year year month day = Val (day + month_sum month + (if month > 2 \<and> leap year then 1 else 0))"
  using foldl_days [of day] by (simp add: day_of_year_def month_sum_def luner_leap)

lemma month_sum_step: "1 \<le> month \<Longrightarrow> month_sum (month + 1) = month_sum month + days_in_month ! nat month"
proof -
  assume m: "1 \<le> month"
  then have "[1..<nat (month + 1)] = [1..<nat month] @ [nat month]" by (simp add: nat_add_distrib)
  then show ?thesis by (simp add: month_sum_def)
qed

lemma month_sum_nonneg: "1 \<le> month \<Longrightarrow> month \<le> 12 \<Longrightarrow> 0 \<le> month_sum month"
  by (drule (1) month_cases, elim insertE) (simp_all add: month_sum_def days_in_month_def upt_rec)

lemma day_of_year_next:
  assumes "valid_date year month day"
  shows "\<exists>n. day_of_year year month day = Val n \<and> 0 < n
    \<and> (month < 12 \<or> day < month_length year month \<longrightarrow> (case next_day (year, month, day) of (y, m, d) \<Rightarrow> y = year \<and> day_of_year y m d = Val (n + 1)))
    \<and> (month = 12 \<and> day = 31 \<longrightarrow> n = 365 + (if leap year then 1 else 0))"
proof -
  let ?n = "day + month_sum month + (if month > 2 \<and> leap year then 1 else 0)"
  have v: "1 \<le> month" "month \<le> 12" "1 \<le> day" "day \<le> month_length year month" using assms by (auto simp: valid_date_length)
  have n: "day_of_year year month day = Val ?n" "0 < ?n" using v month_sum_nonneg [OF v(1,2)] day_of_year_sum [of month year day] by simp_all
  have "month = 12 \<Longrightarrow> month_sum month = 334" by (simp add: month_sum_def days_in_month_def upt_rec)
  moreover have "case next_day (year, month, day) of (y, m, d) \<Rightarrow> y = year \<and> day_of_year y m d = Val (?n + 1)"
    if "month < 12 \<or> day < month_length year month"
  proof (cases "day < month_length year month")
    case True
    then show ?thesis using v day_of_year_sum [of month year "day + 1"] by (simp add: next_day_def)
  next
    case False
    then have "day = days_in_month ! nat month + (if month = 2 \<and> leap year then 1 else 0)" using v month_length_array by simp
    then show ?thesis using False that v day_of_year_sum [of "month + 1" year 1] month_sum_step [OF v(1)] by (auto simp: next_day_def split: if_splits)
  qed
  ultimately show ?thesis using n by (intro exI [of _ ?n]) auto
qed

lemma next_day_valid: "valid_date y m d \<Longrightarrow> (case next_day (y, m, d) of (y', m', d') \<Rightarrow> valid_date y' m' d')"
  using month_length_pos [of y "m + 1"] month_length_pos [of "y + 1" 1] by (auto simp: valid_date_length next_day_def)

lemma next_day_week:
  assumes "valid_date y m d" "1000 \<le> y"
  shows "\<exists>w. day_of_week y m d = Val (w mod 7) \<and> (case next_day (y, m, d) of (y', m', d') \<Rightarrow> day_of_week y' m' d' = Val ((w + 1) mod 7))"
proof -
  obtain n where n: "day_of_year y m d = Val n" "0 < n"
    "m < 12 \<or> d < month_length y m \<longrightarrow> (case next_day (y, m, d) of (y', m', d') \<Rightarrow> y' = y \<and> day_of_year y' m' d' = Val (n + 1))"
    "m = 12 \<and> d = 31 \<longrightarrow> n = 365 + (if leap y then 1 else 0)"
    using day_of_year_next [OF assms(1)] by (elim exE conjE) (rule that)
  let ?w = "days_before y + n - 1"
  have w: "day_of_week y m d = Val (?w mod 7)" using day_of_week_closed [OF n(1)] n(2) assms(2) by simp
  show ?thesis
  proof (cases "m < 12 \<or> d < month_length y m")
    case True
    then obtain m' d' where "next_day (y, m, d) = (y, m', d')" "day_of_year y m' d' = Val (n + 1)"
      using n(3) by (cases "next_day (y, m, d)") auto
    then show ?thesis using w day_of_week_closed [of y m' d' "n + 1"] n(2) assms(2) by (intro exI [of _ ?w]) simp
  next
    case False
    then have e: "m = 12" "d = 31" using assms(1) by (auto simp: valid_date_def month_length_def)
    have "day_of_year (y + 1) 1 1 = Val 1" by (simp add: day_of_year_def)
    then have "day_of_week (y + 1) 1 1 = Val (days_before (y + 1) mod 7)" using day_of_week_closed [of "y + 1" 1 1 1] assms(2) by simp
    moreover have "days_before (y + 1) = ?w + 1" using days_before_step [of y] n(4) e by simp
    moreover have "next_day (y, m, d) = (y + 1, 1, 1)" using False e by (simp add: next_day_def)
    ultimately show ?thesis using w by (intro exI [of _ ?w]) simp
  qed
qed

section \<open>Properties\<close>

text \<open>
  From the year 1000 on, \<open>DATE_FORMAT\<close> knows the day of the week: the first of January 1000 is a Wednesday, and the day
  after a valid date is a valid date that has the next day of the week.
\<close>

lemma weekday_advances:
  assumes "valid_date y m d" "1000 \<le> y"
  shows "day_of_week 1000 1 1 = Val 2
    \<and> (\<exists>w. 0 \<le> w \<and> w < 7 \<and> day_of_week y m d = Val w
        \<and> (case next_day (y, m, d) of (y', m', d') \<Rightarrow> valid_date y' m' d' \<and> day_of_week y' m' d' = Val ((w + 1) mod 7)))"
proof -
  have "day_of_week 1000 1 1 = Val 2" using day_of_week_closed [of 1000 1 1 1] by (simp add: day_of_year_def days_before_def)
  moreover obtain w where w: "day_of_week y m d = Val (w mod 7)"
    "case next_day (y, m, d) of (y', m', d') \<Rightarrow> day_of_week y' m' d' = Val ((w + 1) mod 7)"
    using next_day_week [OF assms] by (elim exE conjE) (rule that)
  moreover have "((w mod 7) + 1) mod 7 = (w + 1) mod 7" by (rule mod_add_left_eq)
  ultimately show ?thesis using next_day_valid [OF assms(1)] by (intro conjI exI [of _ "w mod 7"]) (auto split: prod.splits)
qed

text \<open>
  \<open>DATE_FORMAT\<close> misprints: the last day of 999, a Tuesday as the day before a Wednesday, is printed as a Wednesday too;
  \<open>%c\<close> prints the number of the month before; \<open>%D\<close> prints 11st, 12nd and 23th.
\<close>

lemma date_format_misprints:
  "next_day (999, 12, 31) = (1000, 1, 1) \<and> get_weekday_name 1000 1 1 = Val (ascii ''Wednesday'')
    \<and> get_weekday_name 999 12 31 = Val (ascii ''Wednesday'')
    \<and> get_month_numeric 3 = ascii ''2''
    \<and> get_day_of_month_with_english_suffix 11 = Val (ascii ''11st'') \<and> get_day_of_month_with_english_suffix 12 = Val (ascii ''12nd'')
    \<and> get_day_of_month_with_english_suffix 23 = Val (ascii ''23th'')"
  by code_simp

end
