(* ===== verification/RecordPage.thy ===== *)
theory RecordPage
  imports Prelude Bitmap
begin

text \<open>
  A page of records: \<open>RecordPageHandler\<close> and \<open>RecordPageIterator\<close> of
  \<^verbatim>\<open>src/observer/storage/record/record_manager.{h,cpp}\<close>.

  The page's data area is a list of bytes: twenty bytes of \<open>PageHeader\<close>, the slot bitmap, then the records
  at \<open>first_record_offset\<close>. The header is kept as a record beside the bytes; the layout lemmas show that
  bitmap and record accesses stay clear of it and of each other. A page is abstracted to the finite map
  from its occupied slots to their contents, which the operations update as a map.
\<close>

section \<open>Layout\<close>

record PageHeader =
  record_num :: int
  record_real_size :: nat
  record_size :: nat
  record_capacity :: nat
  first_record_offset :: nat

record RecPage =
  page_header :: PageHeader
  page_data :: "byte list"
  page_dirty :: bool

definition PAGE_HEADER_SIZE :: nat where
  "PAGE_HEADER_SIZE = 20"

definition align8 :: "nat \<Rightarrow> nat" where
  "align8 n = (n + 7) div 8 * 8"

text \<open>
  \<open>(int)((page_size - PAGE_HEADER_SIZE - 1) / (record_size + 0.125))\<close>: multiplied by eight, numerator and
  denominator are integers.
\<close>

definition page_record_capacity :: "nat \<Rightarrow> nat \<Rightarrow> nat" where
  "page_record_capacity page_size rec_size = (8 * (page_size - PAGE_HEADER_SIZE - 1)) div (8 * rec_size + 1)"

definition page_bitmap_size :: "nat \<Rightarrow> nat" where
  "page_bitmap_size cap = (cap + 7) div 8"

text \<open>The loop of \<open>fix_record_capacity\<close>; \<open>None\<close> if it never ends.\<close>

partial_function (option) fix_capacity_loop :: "nat \<Rightarrow> int \<Rightarrow> int \<Rightarrow> int option" where
  "fix_capacity_loop rec_size cap last_offset =
     (if last_offset > int BP_PAGE_DATA_SIZE
      then fix_capacity_loop rec_size (cap - 1) (last_offset - int rec_size) else Some cap)"

definition fix_record_capacity :: "PageHeader \<Rightarrow> PageHeader option" where
  "fix_record_capacity h =
     map_option (\<lambda>cap. h\<lparr>record_capacity := nat cap\<rparr>)
       (fix_capacity_loop (record_size h) (int (record_capacity h))
         (int (first_record_offset h + record_capacity h * record_size h)))"

text \<open>The bitmap in the page.\<close>

definition page_bitmap :: "RecPage \<Rightarrow> byte list" where
  "page_bitmap p = drop PAGE_HEADER_SIZE (page_data p)"

definition set_page_bitmap :: "RecPage \<Rightarrow> byte list \<Rightarrow> RecPage" where
  "set_page_bitmap p bm = p\<lparr>page_data := take PAGE_HEADER_SIZE (page_data p) @ bm\<rparr>"

definition record_offset :: "PageHeader \<Rightarrow> nat \<Rightarrow> nat" where
  "record_offset h slot = first_record_offset h + record_size h * slot"

definition get_record_data :: "RecPage \<Rightarrow> nat \<Rightarrow> byte list" where
  "get_record_data p slot =
     take (record_real_size (page_header p)) (drop (record_offset (page_header p) slot) (page_data p))"

text \<open>\<open>memcpy\<close> into the page\<close>

definition write_bytes :: "nat \<Rightarrow> byte list \<Rightarrow> byte list \<Rightarrow> byte list" where
  "write_bytes off new bs = take off bs @ new @ drop (off + length new) bs"

definition put_record_data :: "RecPage \<Rightarrow> nat \<Rightarrow> byte list \<Rightarrow> RecPage" where
  "put_record_data p slot data =
     p\<lparr>page_data := write_bytes (record_offset (page_header p) slot)
        (take (record_real_size (page_header p)) data) (page_data p)\<rparr>"

section \<open>Operations\<close>

definition init_empty_page :: "nat \<Rightarrow> RecPage \<Rightarrow> RecPage option" where
  "init_empty_page rec_size p =
     (let cap = page_record_capacity BP_PAGE_DATA_SIZE (align8 rec_size);
          h = \<lparr>record_num = 0, record_real_size = rec_size, record_size = align8 rec_size, record_capacity = cap,
               first_record_offset = align8 (PAGE_HEADER_SIZE + page_bitmap_size cap)\<rparr>
      in case fix_record_capacity h of
           None \<Rightarrow> None
         | Some h' \<Rightarrow>
             if first_record_offset h' + record_capacity h' * record_size h' \<le> BP_PAGE_DATA_SIZE
             then Some (p\<lparr>page_header := h', page_data :=
                    write_bytes PAGE_HEADER_SIZE (replicate (page_bitmap_size (record_capacity h')) 0) (page_data p)\<rparr>)
             else None)"

definition is_full :: "RecPage \<Rightarrow> bool" where
  "is_full p \<longleftrightarrow> record_num (page_header p) \<ge> int (record_capacity (page_header p))"

definition insert_record :: "byte list \<Rightarrow> RecPage \<Rightarrow> (RC + int) \<times> RecPage" where
  "insert_record data p =
     (let h = page_header p; cap = record_capacity h
      in if record_num h = int cap then (Inl RECORD_NOMEM, p)
         else (let index = next_unsetted_bit (page_bitmap p) cap 0;
                   p1 = set_page_bitmap p (bitmap_set_bit (page_bitmap p) (nat index));
                   p2 = p1\<lparr>page_header := h\<lparr>record_num := record_num h + 1\<rparr>\<rparr>;
                   p3 = put_record_data p2 (nat index) data
               in (Inr index, p3\<lparr>page_dirty := True\<rparr>)))"

definition recover_insert_record :: "byte list \<Rightarrow> SlotNum \<Rightarrow> RecPage \<Rightarrow> RC \<times> RecPage" where
  "recover_insert_record data slot p =
     (let h = page_header p
      in if slot \<ge> int (record_capacity h) then (RECORD_INVALID_RID, p)
         else (let p1 = (if bitmap_get_bit (page_bitmap p) (nat slot) then p
                         else (set_page_bitmap p (bitmap_set_bit (page_bitmap p) (nat slot)))
                                \<lparr>page_header := h\<lparr>record_num := record_num h + 1\<rparr>\<rparr>)
               in (SUCCESS, (put_record_data p1 (nat slot) data)\<lparr>page_dirty := True\<rparr>)))"

definition delete_record :: "SlotNum \<Rightarrow> RecPage \<Rightarrow> RC \<times> RecPage" where
  "delete_record slot p =
     (let h = page_header p
      in if slot \<ge> int (record_capacity h) then (INVALID_ARGUMENT, p)
         else if bitmap_get_bit (page_bitmap p) (nat slot) then
           (SUCCESS, (set_page_bitmap p (bitmap_clear_bit (page_bitmap p) (nat slot)))
              \<lparr>page_header := h\<lparr>record_num := record_num h - 1\<rparr>, page_dirty := True\<rparr>)
         else (RECORD_NOT_EXIST, p))"

definition update_record :: "SlotNum \<Rightarrow> byte list \<Rightarrow> RecPage \<Rightarrow> RC \<times> RecPage" where
  "update_record slot data p =
     (let h = page_header p
      in if slot \<ge> int (record_capacity h) then (INVALID_ARGUMENT, p)
         else if bitmap_get_bit (page_bitmap p) (nat slot) then
           (SUCCESS, (put_record_data p (nat slot) data)\<lparr>page_dirty := True\<rparr>)
         else (RECORD_NOT_EXIST, p))"

definition get_record :: "SlotNum \<Rightarrow> RecPage \<Rightarrow> RC + byte list" where
  "get_record slot p =
     (if slot \<ge> int (record_capacity (page_header p)) then Inl RECORD_INVALID_RID
      else if \<not> bitmap_get_bit (page_bitmap p) (nat slot) then Inl RECORD_NOT_EXIST
      else Inr (get_record_data p (nat slot)))"

subsection \<open>Iteration\<close>

text \<open>The state of a \<open>RecordPageIterator\<close> is the slot it returns next.\<close>

definition iter_init :: "RecPage \<Rightarrow> SlotNum \<Rightarrow> SlotNum" where
  "iter_init p start = next_setted_bit (page_bitmap p) (record_capacity (page_header p)) (nat start)"

definition iter_next :: "RecPage \<Rightarrow> SlotNum \<Rightarrow> (SlotNum \<times> byte list) \<times> SlotNum" where
  "iter_next p slot =
     ((slot, get_record_data p (nat slot)),
      if slot \<ge> 0 then next_setted_bit (page_bitmap p) (record_capacity (page_header p)) (nat slot + 1) else slot)"

text \<open>All records of a page, the way the scanner walks it: \<open>while (has_next()) next(record)\<close>.\<close>

partial_function (option) page_scan :: "RecPage \<Rightarrow> SlotNum \<Rightarrow> (SlotNum \<times> byte list) list \<Rightarrow> (SlotNum \<times> byte list) list option" where
  "page_scan p slot acc =
     (if slot = -1 then Some acc
      else (case iter_next p slot of (r, slot') \<Rightarrow> page_scan p slot' (acc @ [r])))"

section \<open>Well-formed pages\<close>

abbreviation cap :: "RecPage \<Rightarrow> nat" where
  "cap p \<equiv> record_capacity (page_header p)"

definition occupied :: "RecPage \<Rightarrow> nat set" where
  "occupied p = {i. i < cap p \<and> bitmap_get_bit (page_bitmap p) i}"

definition page_ok :: "RecPage \<Rightarrow> bool" where
  "page_ok p \<longleftrightarrow>
     (let h = page_header p
      in length (page_data p) = BP_PAGE_DATA_SIZE \<and> record_real_size h \<le> record_size h
         \<and> PAGE_HEADER_SIZE + page_bitmap_size (record_capacity h) \<le> first_record_offset h
         \<and> first_record_offset h + record_capacity h * record_size h \<le> BP_PAGE_DATA_SIZE
         \<and> record_num h = int (card (occupied p)))"

definition page_records :: "RecPage \<Rightarrow> nat \<Rightarrow> byte list option" where
  "page_records p i = (if i \<in> occupied p then Some (get_record_data p i) else None)"

lemma bytes_eq_bitmap_size: "bytes n = page_bitmap_size n"
proof -
  define q r where "q = n div 8" and "r = n mod 8"
  have n: "n = 8 * q + r" "r < 8" by (simp_all add: q_def r_def)
  have "(8 * q + r + 7) div 8 = q + (r + 7) div 8" by (simp add: add.assoc)
  moreover have "(r + 7) div 8 = (if r = 0 then 0 else 1)" using n(2) by (auto intro: div_nat_eqI)
  ultimately show ?thesis unfolding bytes_def page_bitmap_size_def by (simp add: n(1) n(2))
qed

lemma finite_occupied [simp]: "finite (occupied p)"
  by (simp add: occupied_def)

lemma page_okD:
  assumes "page_ok p"
  shows "length (page_data p) = BP_PAGE_DATA_SIZE" "record_real_size (page_header p) \<le> record_size (page_header p)"
    "PAGE_HEADER_SIZE + page_bitmap_size (cap p) \<le> first_record_offset (page_header p)"
    "first_record_offset (page_header p) + cap p * record_size (page_header p) \<le> BP_PAGE_DATA_SIZE"
    "record_num (page_header p) = int (card (occupied p))"
  using assms by (simp_all add: page_ok_def Let_def)

subsection \<open>Bytes\<close>

lemma write_bytes_other:
  assumes "off + length new \<le> length bs" "p + n \<le> off \<or> off + length new \<le> p"
  shows "take n (drop p (write_bytes off new bs)) = take n (drop p bs)"
  using assms(2)
proof
  assume "p + n \<le> off"
  then show ?thesis using assms(1) by (simp add: write_bytes_def drop_take)
next
  assume "off + length new \<le> p"
  then show ?thesis using assms(1) by (simp add: write_bytes_def)
qed

lemma length_write_bytes [simp]: "off + length new \<le> length bs \<Longrightarrow> length (write_bytes off new bs) = length bs"
  by (simp add: write_bytes_def)

lemma read_written: "off \<le> length bs \<Longrightarrow> take (length new) (drop off (write_bytes off new bs)) = new"
  by (simp add: write_bytes_def)

lemma read_before:
  "off \<le> length bs \<Longrightarrow> off' + n \<le> off \<Longrightarrow> take n (drop off' (write_bytes off new bs)) = take n (drop off' bs)"
proof -
  assume a: "off \<le> length bs" "off' + n \<le> off"
  have "take n (drop off' (write_bytes off new bs)) = take n (drop off' (take off bs))"
    using a by (simp add: write_bytes_def drop_append)
  also have "\<dots> = take n (drop off' bs)" using a by (simp add: drop_take min_def)
  finally show ?thesis .
qed

lemma read_after:
  "off \<le> length bs \<Longrightarrow> off + length new \<le> off' \<Longrightarrow> drop off' (write_bytes off new bs) = drop off' bs"
  by (simp add: write_bytes_def drop_append)

lemma nth_write_before: "i < off \<Longrightarrow> off \<le> length bs \<Longrightarrow> write_bytes off new bs ! i = bs ! i"
  by (simp add: write_bytes_def nth_append)

subsection \<open>Slots\<close>

lemma bitmap_byte_bound: "i < cap p \<Longrightarrow> i div 8 < page_bitmap_size (cap p)"
  using bytes_gt [of i "cap p"] by (simp add: bytes_eq_bitmap_size)

lemma slot_bounds:
  assumes "page_ok p" "i < cap p"
  shows "record_offset (page_header p) i + record_size (page_header p) \<le> BP_PAGE_DATA_SIZE"
    "PAGE_HEADER_SIZE + i div 8 < record_offset (page_header p) j" "i div 8 < length (page_bitmap p)"
proof -
  let ?h = "page_header p"
  have "record_size ?h * i + record_size ?h \<le> cap p * record_size ?h"
    using assms(2) mult_le_mono1 [of "Suc i" "cap p" "record_size ?h"] by (simp add: mult.commute)
  then show "record_offset ?h i + record_size ?h \<le> BP_PAGE_DATA_SIZE"
    using page_okD(4) [OF assms(1)] by (simp add: record_offset_def)
  show "PAGE_HEADER_SIZE + i div 8 < record_offset ?h j"
    using page_okD(3) [OF assms(1)] bitmap_byte_bound [OF assms(2)] by (simp add: record_offset_def)
  then show "i div 8 < length (page_bitmap p)"
    using page_okD(1,3,4) [OF assms(1)] bitmap_byte_bound [OF assms(2)] by (simp add: page_bitmap_def)
qed

lemma slots_apart:
  "record_real_size h \<le> record_size h \<Longrightarrow> i < j \<Longrightarrow> record_offset h i + record_real_size h \<le> record_offset h j"
proof -
  assume a: "record_real_size h \<le> record_size h" "i < j"
  then have "record_size h * i + record_size h \<le> record_size h * j"
    using mult_le_mono2 [of "Suc i" j "record_size h"] by simp
  with a(1) show ?thesis by (simp add: record_offset_def)
qed

text \<open>Changing one byte of the bitmap.\<close>

lemma set_page_bitmap_update:
  assumes "PAGE_HEADER_SIZE \<le> length (page_data p)"
  shows "set_page_bitmap p ((page_bitmap p)[k := v]) = p\<lparr>page_data := (page_data p)[PAGE_HEADER_SIZE + k := v]\<rparr>"
proof -
  have "page_data p = take PAGE_HEADER_SIZE (page_data p) @ drop PAGE_HEADER_SIZE (page_data p)" by simp
  then have "(page_data p)[PAGE_HEADER_SIZE + k := v]
      = take PAGE_HEADER_SIZE (page_data p) @ (drop PAGE_HEADER_SIZE (page_data p))[k := v]"
    using list_update_append [of "take PAGE_HEADER_SIZE (page_data p)" "drop PAGE_HEADER_SIZE (page_data p)"
        "PAGE_HEADER_SIZE + k" v] assms by (simp add: min_def)
  then show ?thesis by (simp add: set_page_bitmap_def page_bitmap_def)
qed

lemma page_bitmap_set [simp]:
  "PAGE_HEADER_SIZE \<le> length (page_data p) \<Longrightarrow> page_bitmap (set_page_bitmap p bm) = bm"
  by (simp add: set_page_bitmap_def page_bitmap_def)

lemma header_le_data: "page_ok p \<Longrightarrow> PAGE_HEADER_SIZE \<le> length (page_data p)"
  by (simp add: page_okD(1) PAGE_HEADER_SIZE_def BP_PAGE_DATA_SIZE_eq)

lemma get_record_data_bitmap:
  assumes "page_ok p" "i < cap p"
  shows "take n (drop (record_offset (page_header p) j) (page_data (set_page_bitmap p ((page_bitmap p)[i div 8 := v]))))
    = take n (drop (record_offset (page_header p) j) (page_data p))"
  using slot_bounds(2) [OF assms, of j] set_page_bitmap_update [OF header_le_data [OF assms(1)]] by simp

text \<open>Writing a record.\<close>

lemma put_record_data_sel [simp]:
  "page_header (put_record_data p i d) = page_header p" "page_dirty (put_record_data p i d) = page_dirty p"
  by (simp_all add: put_record_data_def)

lemma put_record_data_props:
  assumes "page_ok p" "i < cap p" "length d = record_real_size (page_header p)"
  shows "length (page_data (put_record_data p i d)) = BP_PAGE_DATA_SIZE"
    "get_record_data (put_record_data p i d) i = d"
    "j \<noteq> i \<Longrightarrow> get_record_data (put_record_data p i d) j = get_record_data p j"
    "k < cap p \<Longrightarrow> bitmap_get_bit (page_bitmap (put_record_data p i d)) k = bitmap_get_bit (page_bitmap p) k"
proof -
  let ?h = "page_header p" let ?o = "record_offset ?h i"
  have len: "?o + length d \<le> length (page_data p)" "?o \<le> length (page_data p)"
    using slot_bounds(1) [OF assms(1,2)] page_okD(1,2) [OF assms(1)] assms(3) by simp_all
  show "length (page_data (put_record_data p i d)) = BP_PAGE_DATA_SIZE"
    using len(1) page_okD(1) [OF assms(1)] assms(3) by (simp add: put_record_data_def)
  show "get_record_data (put_record_data p i d) i = d"
    using read_written [OF len(2), of d] assms(3) by (simp add: get_record_data_def put_record_data_def)
  show "get_record_data (put_record_data p i d) j = get_record_data p j" if "j \<noteq> i"
  proof (cases "j < i")
    case True
    then show ?thesis
      using read_before [OF len(2) slots_apart [OF page_okD(2) [OF assms(1)] True]] assms(3)
      by (simp add: get_record_data_def put_record_data_def)
  next
    case False
    then have "i < j" using that by simp
    then show ?thesis
      using read_after [OF len(2), of d "record_offset ?h j"] slots_apart [OF page_okD(2) [OF assms(1)]] assms(3)
      by (simp add: get_record_data_def put_record_data_def)
  qed
  show "bitmap_get_bit (page_bitmap (put_record_data p i d)) k = bitmap_get_bit (page_bitmap p) k" if "k < cap p"
    using nth_write_before [OF slot_bounds(2) [OF assms(1) that] len(2), of d] assms(3) len(1)
      slot_bounds(3) [OF assms(1) that]
    by (simp add: get_bit_eq page_bitmap_def put_record_data_def)
qed

subsection \<open>Occupying and vacating a slot\<close>

definition occupy :: "nat \<Rightarrow> RecPage \<Rightarrow> RecPage" where
  "occupy i p = (set_page_bitmap p (bitmap_set_bit (page_bitmap p) i))
     \<lparr>page_header := (page_header p)\<lparr>record_num := record_num (page_header p) + 1\<rparr>\<rparr>"

definition vacate :: "nat \<Rightarrow> RecPage \<Rightarrow> RecPage" where
  "vacate i p = (set_page_bitmap p (bitmap_clear_bit (page_bitmap p) i))
     \<lparr>page_header := (page_header p)\<lparr>record_num := record_num (page_header p) - 1\<rparr>\<rparr>"

lemma set_page_bitmap_header [simp]: "page_header (set_page_bitmap p bm) = page_header p"
  by (simp add: set_page_bitmap_def)

lemma page_bitmap_header [simp]: "page_bitmap (p\<lparr>page_header := h\<rparr>) = page_bitmap p" "page_bitmap (p\<lparr>page_dirty := b\<rparr>) = page_bitmap p"
  by (simp_all add: page_bitmap_def)

lemma length_set_page_bitmap:
  "page_ok p \<Longrightarrow> length bm = length (page_bitmap p) \<Longrightarrow> length (page_data (set_page_bitmap p bm)) = BP_PAGE_DATA_SIZE"
  using header_le_data [of p] by (simp add: set_page_bitmap_def page_bitmap_def page_okD(1))

lemma bit_change_keeps:
  assumes "page_ok p" "i < cap p" "bm = bitmap_set_bit (page_bitmap p) i \<or> bm = bitmap_clear_bit (page_bitmap p) i"
    and "h = (page_header p)\<lparr>record_num := n\<rparr>"
  shows "get_record_data ((set_page_bitmap p bm)\<lparr>page_header := h\<rparr>) j = get_record_data p j"
  using assms(3) get_record_data_bitmap [OF assms(1,2)]
  by (auto simp: assms(4) get_record_data_def bitmap_set_bit_def bitmap_clear_bit_def record_offset_def)

lemma occupy_props:
  assumes "page_ok p" "i < cap p" "i \<notin> occupied p"
  shows "page_ok (occupy i p)" "occupied (occupy i p) = insert i (occupied p)"
    "get_record_data (occupy i p) j = get_record_data p j"
proof -
  note b = slot_bounds(3) [OF assms(1,2)] and hd = header_le_data [OF assms(1)]
  show occ: "occupied (occupy i p) = insert i (occupied p)"
    using assms(2) get_bit_set_bit [OF b] hd by (auto simp: occupied_def occupy_def)
  show "get_record_data (occupy i p) j = get_record_data p j"
    unfolding occupy_def using bit_change_keeps [OF assms(1,2) _ refl] by simp
  show "page_ok (occupy i p)"
    using page_okD [OF assms(1)] assms(3) occ length_set_page_bitmap [OF assms(1)]
    by (simp add: page_ok_def) (simp add: occupy_def)
qed

lemma vacate_props:
  assumes "page_ok p" "i \<in> occupied p"
  shows "page_ok (vacate i p)" "occupied (vacate i p) = occupied p - {i}"
    "get_record_data (vacate i p) j = get_record_data p j"
proof -
  have i: "i < cap p" using assms(2) by (simp add: occupied_def)
  note b = slot_bounds(3) [OF assms(1) i] and hd = header_le_data [OF assms(1)]
  show occ: "occupied (vacate i p) = occupied p - {i}"
    using get_bit_clear_bit [OF b] hd by (auto simp: occupied_def vacate_def)
  show "get_record_data (vacate i p) j = get_record_data p j"
    unfolding vacate_def using bit_change_keeps [OF assms(1) i _ refl] by simp
  have "Suc (card (occupied p - {i})) = card (occupied p)" using card_Suc_Diff1 [OF finite_occupied assms(2)] .
  then have "int (card (occupied (vacate i p))) = int (card (occupied p)) - 1" unfolding occ by linarith
  then show "page_ok (vacate i p)"
    using page_okD [OF assms(1)] length_set_page_bitmap [OF assms(1)]
    by (simp add: page_ok_def) (simp add: vacate_def)
qed

lemma put_props:
  assumes "page_ok p" "i < cap p" "length d = record_real_size (page_header p)"
  shows "page_ok (put_record_data p i d)" "occupied (put_record_data p i d) = occupied p"
    "i \<in> occupied p \<Longrightarrow> page_records (put_record_data p i d) = (page_records p)(i \<mapsto> d)"
proof -
  note put = put_record_data_props [OF assms]
  show occ: "occupied (put_record_data p i d) = occupied p" using put(4) by (auto simp: occupied_def)
  show "page_ok (put_record_data p i d)"
    using page_okD [OF assms(1)] put(1) occ by (simp add: page_ok_def)
  show "page_records (put_record_data p i d) = (page_records p)(i \<mapsto> d)" if "i \<in> occupied p"
    using put(2,3) occ that by (auto simp: page_records_def fun_eq_iff)
qed

lemma occupied_dirty [simp]: "occupied (p\<lparr>page_dirty := b\<rparr>) = occupied p"
  by (simp add: occupied_def)

lemma page_ok_dirty [simp]: "page_ok (p\<lparr>page_dirty := b\<rparr>) = page_ok p"
  by (simp add: page_ok_def)

lemma page_records_dirty [simp]: "page_records (p\<lparr>page_dirty := b\<rparr>) = page_records p"
  by (rule ext) (simp add: page_records_def get_record_data_def)

lemma occupied_subset: "occupied p \<subseteq> {..<cap p}"
  by (auto simp: occupied_def)

lemma full_iff: "page_ok p \<Longrightarrow> record_num (page_header p) = int (cap p) \<longleftrightarrow> occupied p = {..<cap p}"
proof -
  assume "page_ok p"
  then have "record_num (page_header p) = int (cap p) \<longleftrightarrow> card (occupied p) = card {..<cap p}"
    by (simp add: page_okD(5))
  also have "\<dots> \<longleftrightarrow> occupied p = {..<cap p}"
    using card_subset_eq [OF finite_lessThan occupied_subset] by metis
  finally show ?thesis .
qed

section \<open>The page as a map\<close>

lemma occupied_records: "i \<in> occupied p \<longleftrightarrow> page_records p i \<noteq> None"
  by (simp add: page_records_def)

lemma insert_record_map:
  assumes "page_ok p" "length d = record_real_size (page_header p)" "occupied p \<noteq> {..<cap p}"
  shows "\<exists>i p'. insert_record d p = (Inr (int i), p') \<and> i < cap p \<and> page_records p i = None
    \<and> (\<forall>j<i. page_records p j \<noteq> None) \<and> page_ok p' \<and> page_records p' = (page_records p)(i \<mapsto> d)
    \<and> page_header p' = (page_header p)\<lparr>record_num := record_num (page_header p) + 1\<rparr>"
proof -
  obtain k where k: "k < cap p" "k \<notin> occupied p" using assms(3) occupied_subset [of p] by blast
  then obtain i where i: "next_unsetted_bit (page_bitmap p) (cap p) 0 = int i" "i < cap p"
    "\<not> bitmap_get_bit (page_bitmap p) i" "\<forall>k<i. bitmap_get_bit (page_bitmap p) k"
    using next_unsetted_cases [of "page_bitmap p" "cap p" 0] by (auto simp: occupied_def)
  have free: "i \<notin> occupied p" using i(3) by (simp add: occupied_def)
  have before: "\<forall>j<i. page_records p j \<noteq> None" using i(2,4) by (auto simp: page_records_def occupied_def)
  note oc = occupy_props [OF assms(1) i(2) free]
  let ?p = "occupy i p"
  have h: "page_header ?p = (page_header p)\<lparr>record_num := record_num (page_header p) + 1\<rparr>" by (simp add: occupy_def)
  have ci: "i < cap ?p" "length d = record_real_size (page_header ?p)" using i(2) assms(2) h by simp_all
  note pt = put_props [OF oc(1) ci]
  have rec: "page_records (put_record_data ?p i d) = (page_records p)(i \<mapsto> d)"
    using pt(3) oc(2,3) by (auto simp: page_records_def fun_eq_iff)
  have "insert_record d p = (Inr (int i), (put_record_data ?p i d)\<lparr>page_dirty := True\<rparr>)"
    using full_iff [OF assms(1)] assms(3) i(1) by (simp add: insert_record_def Let_def occupy_def)
  with i(2) free before pt(1) rec h show ?thesis by (auto simp: page_records_def)
qed

lemma insert_record_full:
  "page_ok p \<Longrightarrow> occupied p = {..<cap p} \<Longrightarrow> insert_record d p = (Inl RECORD_NOMEM, p)"
  using full_iff [of p] by (simp add: insert_record_def Let_def)

lemma delete_record_map:
  assumes "page_ok p" "page_records p i = Some d"
  shows "\<exists>p'. delete_record (int i) p = (SUCCESS, p') \<and> page_ok p' \<and> page_records p' = (page_records p)(i := None)
    \<and> page_header p' = (page_header p)\<lparr>record_num := record_num (page_header p) - 1\<rparr>"
proof -
  have i: "i \<in> occupied p" using assms(2) by (simp add: occupied_records)
  note va = vacate_props [OF assms(1) i]
  have "page_records (vacate i p) = (page_records p)(i := None)"
    using va(2,3) by (auto simp: page_records_def fun_eq_iff)
  moreover have "delete_record (int i) p = (SUCCESS, (vacate i p)\<lparr>page_dirty := True\<rparr>)"
    using i by (simp add: delete_record_def Let_def vacate_def occupied_def)
  ultimately show ?thesis using va(1) by (simp add: vacate_def)
qed

lemma update_record_map:
  assumes "page_ok p" "page_records p i = Some d" "length d' = record_real_size (page_header p)"
  shows "\<exists>p'. update_record (int i) d' p = (SUCCESS, p') \<and> page_ok p' \<and> page_records p' = (page_records p)(i \<mapsto> d')
    \<and> page_header p' = page_header p"
proof -
  have i: "i \<in> occupied p" using assms(2) by (simp add: occupied_records)
  then have ci: "i < cap p" by (simp add: occupied_def)
  note pt = put_props [OF assms(1) ci assms(3)]
  have "update_record (int i) d' p = (SUCCESS, (put_record_data p i d')\<lparr>page_dirty := True\<rparr>)"
    using i by (simp add: update_record_def Let_def occupied_def)
  with pt i show ?thesis by simp
qed

lemma get_record_map: "page_records p i = Some d \<Longrightarrow> get_record (int i) p = Inr d"
  by (auto simp: get_record_def page_records_def occupied_def split: if_splits)

lemma recover_insert_record_map:
  assumes "page_ok p" "i < cap p" "length d = record_real_size (page_header p)"
  shows "\<exists>p'. recover_insert_record d (int i) p = (SUCCESS, p') \<and> page_ok p' \<and> page_records p' = (page_records p)(i \<mapsto> d)"
proof (cases "i \<in> occupied p")
  case True
  note pt = put_props [OF assms]
  have "recover_insert_record d (int i) p = (SUCCESS, (put_record_data p i d)\<lparr>page_dirty := True\<rparr>)"
    using True by (simp add: recover_insert_record_def Let_def occupied_def)
  with pt True show ?thesis by simp
next
  case False
  note oc = occupy_props [OF assms(1,2) False]
  have ci: "i < cap (occupy i p)" "length d = record_real_size (page_header (occupy i p))"
    using assms(2,3) by (simp_all add: occupy_def)
  note pt = put_props [OF oc(1) ci]
  have "page_records (put_record_data (occupy i p) i d) = (page_records p)(i \<mapsto> d)"
    using pt(3) oc(2,3) by (auto simp: page_records_def fun_eq_iff)
  moreover have "recover_insert_record d (int i) p = (SUCCESS, (put_record_data (occupy i p) i d)\<lparr>page_dirty := True\<rparr>)"
    using False assms(2) by (simp add: recover_insert_record_def Let_def occupied_def occupy_def)
  ultimately show ?thesis using pt(1) by simp
qed

section \<open>A fresh page\<close>

lemma fix_capacity_loop_spec:
  "off \<le> BP_PAGE_DATA_SIZE \<Longrightarrow> \<exists>c'. fix_capacity_loop rs (int c) (int (off + c * rs)) = Some (int c') \<and> c' \<le> c
    \<and> off + c' * rs \<le> BP_PAGE_DATA_SIZE \<and> (off + rs \<le> BP_PAGE_DATA_SIZE \<longrightarrow> 0 < c \<longrightarrow> 0 < c')"
proof (induction c)
  case 0
  then show ?case by (subst fix_capacity_loop.simps) auto
next
  case (Suc c)
  show ?case
  proof (cases "off + Suc c * rs \<le> BP_PAGE_DATA_SIZE")
    case True
    then have "fix_capacity_loop rs (int (Suc c)) (int (off + Suc c * rs)) = Some (int (Suc c))"
      by (subst fix_capacity_loop.simps) (simp del: of_nat_add of_nat_mult of_nat_Suc mult_Suc)
    with True show ?thesis by blast
  next
    case False
    have "fix_capacity_loop rs (int (Suc c)) (int (off + Suc c * rs)) = fix_capacity_loop rs (int c) (int (off + c * rs))"
    proof -
      have "int (Suc c) - 1 = int c" "int (off + Suc c * rs) - int rs = int (off + c * rs)" by (simp_all add: algebra_simps)
      moreover have "int (off + Suc c * rs) > int BP_PAGE_DATA_SIZE" using False by linarith
      ultimately show ?thesis
        by (subst fix_capacity_loop.simps) (simp only: if_True)
    qed
    moreover obtain c' where c': "fix_capacity_loop rs (int c) (int (off + c * rs)) = Some (int c')" "c' \<le> c"
      "off + c' * rs \<le> BP_PAGE_DATA_SIZE" "off + rs \<le> BP_PAGE_DATA_SIZE \<longrightarrow> 0 < c \<longrightarrow> 0 < c'"
      using Suc by blast
    moreover have "off + rs \<le> BP_PAGE_DATA_SIZE \<longrightarrow> 0 < c" using False by (cases c) auto
    ultimately show ?thesis by (intro exI [of _ c']) auto
  qed
qed

lemma align8_bounds: "n \<le> align8 n" "align8 n \<le> n + 7" "m \<le> n \<Longrightarrow> align8 m \<le> align8 n"
proof -
  have "n + 7 = 8 * ((n + 7) div 8) + (n + 7) mod 8" "(n + 7) mod 8 < 8" by simp_all
  then show "n \<le> align8 n" "align8 n \<le> n + 7" unfolding align8_def by linarith+
  show "m \<le> n \<Longrightarrow> align8 m \<le> align8 n" unfolding align8_def by (intro mult_le_mono1 div_le_mono) simp
qed

lemma capacity_bounds:
  "page_record_capacity BP_PAGE_DATA_SIZE rs * (8 * rs + 1) \<le> 65240"
  "page_record_capacity BP_PAGE_DATA_SIZE rs \<le> 65240"
proof -
  have eq: "page_record_capacity BP_PAGE_DATA_SIZE rs = 65240 div (8 * rs + 1)"
    by (simp add: page_record_capacity_def PAGE_HEADER_SIZE_def BP_PAGE_DATA_SIZE_eq)
  show "page_record_capacity BP_PAGE_DATA_SIZE rs * (8 * rs + 1) \<le> 65240" unfolding eq by (rule div_times_less_eq_dividend)
  show "page_record_capacity BP_PAGE_DATA_SIZE rs \<le> 65240" unfolding eq by (rule div_le_dividend)
qed

lemma bitmap_size_mono: "m \<le> n \<Longrightarrow> page_bitmap_size m \<le> page_bitmap_size n"
  unfolding page_bitmap_size_def by (intro div_le_mono) simp

lemma first_offset_bound:
  "align8 (PAGE_HEADER_SIZE + page_bitmap_size (page_record_capacity BP_PAGE_DATA_SIZE rs)) \<le> BP_PAGE_DATA_SIZE"
proof -
  have "page_bitmap_size (page_record_capacity BP_PAGE_DATA_SIZE rs) \<le> page_bitmap_size 65240"
    by (rule bitmap_size_mono) (rule capacity_bounds)
  then have "PAGE_HEADER_SIZE + page_bitmap_size (page_record_capacity BP_PAGE_DATA_SIZE rs) \<le> 8175"
    by (simp add: PAGE_HEADER_SIZE_def page_bitmap_size_def)
  from align8_bounds(3) [OF this] show ?thesis by (simp add: align8_def BP_PAGE_DATA_SIZE_eq)
qed

text \<open>The first record fits if it is no longer than what is left of a page with one slot.\<close>

lemma first_record_fits:
  assumes "n \<le> 8152"
  shows "align8 (PAGE_HEADER_SIZE + page_bitmap_size (page_record_capacity BP_PAGE_DATA_SIZE (align8 n))) + align8 n
      \<le> BP_PAGE_DATA_SIZE" "0 < page_record_capacity BP_PAGE_DATA_SIZE (align8 n)"
proof -
  define rs where "rs = align8 n"
  define c where "c = page_record_capacity BP_PAGE_DATA_SIZE rs"
  have rs: "rs \<le> 8152" using align8_bounds(3) [OF assms] by (simp add: align8_def rs_def)
  have ceq: "c = 65240 div (8 * rs + 1)"
    by (simp add: c_def page_record_capacity_def PAGE_HEADER_SIZE_def BP_PAGE_DATA_SIZE_eq)
  show "0 < page_record_capacity BP_PAGE_DATA_SIZE (align8 n)"
    using rs unfolding rs_def [symmetric] c_def [symmetric] ceq by (simp add: div_greater_zero_iff)
  then have c0: "0 < c" by (simp add: c_def rs_def)
  have cb: "c * (8 * rs + 1) \<le> 65240" using capacity_bounds(1) [of rs] by (simp add: c_def)
  have "align8 (PAGE_HEADER_SIZE + page_bitmap_size c) + rs \<le> BP_PAGE_DATA_SIZE"
  proof -
    consider "c = 1" | "rs = 0" | "2 \<le> c" "8 \<le> rs"
      using c0 unfolding rs_def align8_def by fastforce
    then show ?thesis
    proof cases
      case 1
      then show ?thesis using rs by (simp add: page_bitmap_size_def PAGE_HEADER_SIZE_def align8_def BP_PAGE_DATA_SIZE_eq)
    next
      case 2
      then show ?thesis using first_offset_bound [of rs] by (simp add: c_def)
    next
      case 3
      have "2 * (8 * rs + 1) \<le> 65240" using mult_le_mono1 [OF 3(1), of "8 * rs + 1"] cb by linarith
      moreover have "c * 65 \<le> 65240" using mult_le_mono2 [of 65 "8 * rs + 1" c] 3(2) cb by linarith
      moreover have "page_bitmap_size c \<le> page_bitmap_size 1003"
        by (rule bitmap_size_mono) (use \<open>c * 65 \<le> 65240\<close> in linarith)
      then have "page_bitmap_size c \<le> 126" by (simp add: page_bitmap_size_def)
      ultimately show ?thesis
        using align8_bounds(2) [of "PAGE_HEADER_SIZE + page_bitmap_size c"]
        by (simp add: PAGE_HEADER_SIZE_def BP_PAGE_DATA_SIZE_eq)
    qed
  qed
  then show "align8 (PAGE_HEADER_SIZE + page_bitmap_size (page_record_capacity BP_PAGE_DATA_SIZE (align8 n))) + align8 n
      \<le> BP_PAGE_DATA_SIZE" by (simp add: c_def rs_def)
qed

lemma fresh_bitmap_clear:
  assumes "length (page_data p) = BP_PAGE_DATA_SIZE" "PAGE_HEADER_SIZE + page_bitmap_size c \<le> BP_PAGE_DATA_SIZE" "i < c"
  shows "\<not> bitmap_get_bit (drop PAGE_HEADER_SIZE
    (write_bytes PAGE_HEADER_SIZE (replicate (page_bitmap_size c) 0) (page_data p))) i"
proof -
  have "i div 8 < page_bitmap_size c" using bytes_gt [OF assms(3)] by (simp add: bytes_eq_bitmap_size)
  then show ?thesis using assms(1,2) by (simp add: get_bit_eq write_bytes_def nth_append)
qed

lemma init_empty_page_spec:
  assumes "length (page_data p) = BP_PAGE_DATA_SIZE"
  shows "\<exists>p'. init_empty_page n p = Some p' \<and> page_ok p' \<and> page_records p' = Map.empty
    \<and> record_real_size (page_header p') = n \<and> (n \<le> 8152 \<longrightarrow> 0 < cap p')"
proof -
  define rs where "rs = align8 n"
  define c where "c = page_record_capacity BP_PAGE_DATA_SIZE rs"
  define off where "off = align8 (PAGE_HEADER_SIZE + page_bitmap_size c)"
  define h where "h = \<lparr>record_num = 0, record_real_size = n, record_size = rs, record_capacity = c, first_record_offset = off\<rparr>"
  have "off \<le> BP_PAGE_DATA_SIZE" using first_offset_bound [of rs] by (simp add: off_def c_def)
  then obtain c' where c': "fix_capacity_loop rs (int c) (int (off + c * rs)) = Some (int c')" "c' \<le> c"
    "off + c' * rs \<le> BP_PAGE_DATA_SIZE" "off + rs \<le> BP_PAGE_DATA_SIZE \<longrightarrow> 0 < c \<longrightarrow> 0 < c'"
    using fix_capacity_loop_spec by blast
  let ?h = "h\<lparr>record_capacity := c'\<rparr>"
  let ?p = "p\<lparr>page_header := ?h, page_data := write_bytes PAGE_HEADER_SIZE (replicate (page_bitmap_size c') 0) (page_data p)\<rparr>"
  have eq: "init_empty_page n p = Some ?p"
    using c'(1,3) by (simp add: init_empty_page_def fix_record_capacity_def rs_def [symmetric] c_def [symmetric]
        off_def [symmetric] Let_def h_def)
  have bm: "PAGE_HEADER_SIZE + page_bitmap_size c' \<le> off"
    using bitmap_size_mono [OF c'(2)] align8_bounds(1) [of "PAGE_HEADER_SIZE + page_bitmap_size c"] by (simp add: off_def)
  then have bm': "PAGE_HEADER_SIZE + page_bitmap_size c' \<le> BP_PAGE_DATA_SIZE" using c'(3) by simp
  have occ: "occupied ?p = {}"
    using fresh_bitmap_clear [OF assms bm'] by (auto simp: occupied_def page_bitmap_def)
  have "page_ok ?p"
    using bm bm' c'(3) assms align8_bounds(1) [of n] occ by (simp add: page_ok_def h_def rs_def)
  moreover have "page_records ?p = Map.empty" by (simp add: page_records_def occ fun_eq_iff)
  moreover have "n \<le> 8152 \<longrightarrow> 0 < c'"
    using first_record_fits [of n] c'(4) by (simp add: off_def c_def rs_def)
  ultimately show ?thesis using eq by (auto simp: h_def)
qed

section \<open>Iteration\<close>

definition page_listing :: "RecPage \<Rightarrow> nat \<Rightarrow> (SlotNum \<times> byte list) list" where
  "page_listing p s = map (\<lambda>i. (int i, get_record_data p i)) (filter (\<lambda>i. i \<in> occupied p) [s..<cap p])"

lemma filter_upt_skip:
  assumes "s \<le> j" "j < n" "\<forall>k. s \<le> k \<and> k < j \<longrightarrow> \<not> P k" "P j"
  shows "filter P [s..<n] = j # filter P [Suc j..<n]"
proof -
  have "[s..<n] = [s..<j] @ j # [Suc j..<n]"
    using assms(1,2) upt_add_eq_append [of s j "n - j"] upt_conv_Cons [of j n] by simp
  moreover have "filter P [s..<j] = []" using assms(3) by (simp add: filter_empty_conv)
  ultimately show ?thesis using assms(4) by simp
qed

lemma page_scan_from:
  "page_scan p (next_setted_bit (page_bitmap p) (cap p) s) acc = Some (acc @ page_listing p s)"
proof (induction "cap p - s" arbitrary: s acc rule: less_induct)
  case less
  consider "next_setted_bit (page_bitmap p) (cap p) s = -1" "\<forall>j. s \<le> j \<and> j < cap p \<longrightarrow> \<not> bitmap_get_bit (page_bitmap p) j"
    | j where "next_setted_bit (page_bitmap p) (cap p) s = int j" "s \<le> j" "j < cap p" "bitmap_get_bit (page_bitmap p) j"
      "\<forall>k. s \<le> k \<and> k < j \<longrightarrow> \<not> bitmap_get_bit (page_bitmap p) k"
    using next_setted_cases [of "page_bitmap p" "cap p" s] by blast
  then show ?case
  proof cases
    case 1
    then have "page_listing p s = []" by (auto simp: page_listing_def occupied_def filter_empty_conv)
    with 1(1) show ?thesis by (subst page_scan.simps) simp
  next
    case 2
    have l: "page_listing p s = (int j, get_record_data p j) # page_listing p (Suc j)"
      using filter_upt_skip [of s j "cap p" "\<lambda>i. i \<in> occupied p"] 2 by (simp add: page_listing_def occupied_def)
    have "page_scan p (next_setted_bit (page_bitmap p) (cap p) (Suc j)) (acc @ [(int j, get_record_data p j)])
        = Some ((acc @ [(int j, get_record_data p j)]) @ page_listing p (Suc j))"
      by (rule less) (use 2(2,3) in simp)
    with 2(1) l show ?thesis by (subst page_scan.simps) (simp add: iter_next_def)
  qed
qed

section \<open>Properties\<close>

text \<open>
  Initialising a page for records of any size terminates (the assertion of the source holds), leaves a
  well-formed page without records, and the page has room for at least one record of up to 8152 bytes.
\<close>

lemma init_empty_page_ok:
  assumes "length (page_data p) = BP_PAGE_DATA_SIZE"
  shows "\<exists>p'. init_empty_page n p = Some p' \<and> page_ok p' \<and> page_records p' = Map.empty
    \<and> record_real_size (page_header p') = n \<and> (n \<le> 8152 \<longrightarrow> 0 < record_capacity (page_header p'))"
  using assms by (rule init_empty_page_spec)

definition ex_blank :: RecPage where
  "ex_blank = \<lparr>page_header = \<lparr>record_num = 0, record_real_size = 0, record_size = 0, record_capacity = 0,
     first_record_offset = 0\<rparr>, page_data = replicate BP_PAGE_DATA_SIZE 0, page_dirty = False\<rparr>"

text \<open>
  Inserting into a well-formed page keeps it well-formed. A full page refuses and stays as it is;
  otherwise the record goes to the lowest free slot and no other record changes, as in a map update.
\<close>

lemma insert_record_spec:
  assumes "page_ok p" "length d = record_real_size (page_header p)" "insert_record d p = (r, p')"
  shows "page_ok p' \<and>
    (if \<forall>i<record_capacity (page_header p). page_records p i \<noteq> None then r = Inl RECORD_NOMEM \<and> p' = p
     else \<exists>i<record_capacity (page_header p). r = Inr (int i) \<and> page_records p i = None \<and> (\<forall>j<i. page_records p j \<noteq> None)
            \<and> page_records p' = (page_records p)(i \<mapsto> d))"
proof -
  have "(\<forall>i<cap p. page_records p i \<noteq> None) \<longleftrightarrow> occupied p = {..<cap p}"
    using occupied_subset [of p] unfolding occupied_records [symmetric] by auto
  note full = this
  show ?thesis
  proof (cases "occupied p = {..<cap p}")
    case True
    then show ?thesis using assms(1,3) insert_record_full [OF assms(1) True, of d] full by simp
  next
    case False
    from insert_record_map [OF assms(1,2) False] assms(3) have "page_ok p'"
      "\<exists>i<cap p. r = Inr (int i) \<and> page_records p i = None \<and> (\<forall>j<i. page_records p j \<noteq> None)
            \<and> page_records p' = (page_records p)(i \<mapsto> d)" by auto
    with False full show ?thesis by auto
  qed
qed

text \<open>
  On a well-formed page deletion, update, lookup and insertion at a given slot act on the map of its
  records; every operation keeps the page well-formed and an error leaves it unchanged.
\<close>

lemma record_page_map:
  assumes "page_ok p" "length d = record_real_size (page_header p)"
  shows "(case page_records p i of
       None \<Rightarrow> (\<exists>rc. delete_record (int i) p = (rc, p) \<and> rc \<noteq> SUCCESS) \<and> (\<exists>rc. update_record (int i) d p = (rc, p) \<and> rc \<noteq> SUCCESS)
         \<and> (\<exists>rc. get_record (int i) p = Inl rc)
     | Some d0 \<Rightarrow> get_record (int i) p = Inr d0
         \<and> (\<exists>p'. delete_record (int i) p = (SUCCESS, p') \<and> page_ok p' \<and> page_records p' = (page_records p)(i := None))
         \<and> (\<exists>p'. update_record (int i) d p = (SUCCESS, p') \<and> page_ok p' \<and> page_records p' = (page_records p)(i \<mapsto> d)))
    \<and> (\<exists>rc p'. recover_insert_record d (int i) p = (rc, p') \<and> page_ok p'
         \<and> (if i < record_capacity (page_header p) then rc = SUCCESS \<and> page_records p' = (page_records p)(i \<mapsto> d)
            else rc = RECORD_INVALID_RID \<and> p' = p))"
proof (intro conjI)
  show "case page_records p i of
       None \<Rightarrow> (\<exists>rc. delete_record (int i) p = (rc, p) \<and> rc \<noteq> SUCCESS) \<and> (\<exists>rc. update_record (int i) d p = (rc, p) \<and> rc \<noteq> SUCCESS)
         \<and> (\<exists>rc. get_record (int i) p = Inl rc)
     | Some d0 \<Rightarrow> get_record (int i) p = Inr d0
         \<and> (\<exists>p'. delete_record (int i) p = (SUCCESS, p') \<and> page_ok p' \<and> page_records p' = (page_records p)(i := None))
         \<and> (\<exists>p'. update_record (int i) d p = (SUCCESS, p') \<and> page_ok p' \<and> page_records p' = (page_records p)(i \<mapsto> d))"
  proof (cases "page_records p i")
    case None
    then show ?thesis
      by (auto simp: page_records_def occupied_def delete_record_def update_record_def get_record_def Let_def split: if_splits)
  next
    case (Some d0)
    with get_record_map [OF Some] delete_record_map [OF assms(1) Some] update_record_map [OF assms(1) Some assms(2)]
    show ?thesis by auto
  qed
  show "\<exists>rc p'. recover_insert_record d (int i) p = (rc, p') \<and> page_ok p'
         \<and> (if i < record_capacity (page_header p) then rc = SUCCESS \<and> page_records p' = (page_records p)(i \<mapsto> d)
            else rc = RECORD_INVALID_RID \<and> p' = p)"
    using recover_insert_record_map [OF assms(1) _ assms(2), of i] assms(1)
    by (cases "i < cap p") (auto simp: recover_insert_record_def)
qed

text \<open>
  The page iterator terminates and returns every record of the page exactly once, in slot order.
\<close>

lemma page_iterator_complete:
  "page_scan p (iter_init p 0) [] =
    Some (map (\<lambda>i. (int i, get_record_data p i)) (filter (\<lambda>i. page_records p i \<noteq> None) [0..<record_capacity (page_header p)]))"
  using page_scan_from [of p 0 "[]"] by (simp add: iter_init_def page_listing_def occupied_records)

subsection \<open>A page with records\<close>

definition ex_page :: RecPage where
  "ex_page = the (init_empty_page 2 ex_blank)"

lemma ex_page_ok: "page_ok ex_page" "page_records ex_page = Map.empty" "record_real_size (page_header ex_page) = 2"
  "0 < cap ex_page"
proof -
  have "length (page_data ex_blank) = BP_PAGE_DATA_SIZE" by (simp add: ex_blank_def)
  from init_empty_page_spec [OF this, of 2]
  show "page_ok ex_page" "page_records ex_page = Map.empty" "record_real_size (page_header ex_page) = 2" "0 < cap ex_page"
    by (auto simp: ex_page_def)
qed

end
