(* ===== verification/SqlRecord.thy ===== *)
theory SqlRecord
  imports SqlValue Bitmap RecordPage
begin

text \<open>
  The layout of the records of a table and the way from values to records and back:
  \<^verbatim>\<open>src/observer/storage/field/field_meta.cpp\<close>, \<^verbatim>\<open>src/observer/storage/table/table_meta.cpp\<close> (\<open>init\<close>), \<open>make_values\<close> of
  \<^verbatim>\<open>src/observer/sql/stmt/insert_stmt.cpp\<close>, \<open>Table::make_record\<close> and \<open>RowTuple\<close> of \<^verbatim>\<open>src/observer/sql/expr/tuple.h\<close>; and the
  store of long texts, \<^verbatim>\<open>src/observer/mock/in_memory_text_storage.cpp\<close>.

  The result \<open>None\<close> is a failed assertion or an access outside of an object, which C++ leaves undefined.
\<close>

section \<open>Fields and tables\<close>

record FieldMeta =
  fm_name :: "byte list"
  fm_type :: AttrType
  fm_offset :: int
  fm_len :: int
  fm_visible :: bool
  fm_nullable :: bool

record AttrInfo =
  ai_type :: AttrType
  ai_name :: "byte list"
  ai_length :: int
  ai_nullable :: bool

record TableMeta =
  tm_id :: int
  tm_name :: "byte list"
  tm_sys_fields :: "FieldMeta list"
  tm_fields :: "FieldMeta list"
  tm_record_size :: int

definition is_blank :: "byte list \<Rightarrow> bool" where
  "is_blank s \<longleftrightarrow> (\<forall>c\<in>set s. is_space c)"

definition new_field :: FieldMeta where
  "new_field = \<lparr>fm_name = [], fm_type = UNDEFINED, fm_offset = -1, fm_len = 0, fm_visible = False, fm_nullable = False\<rparr>"

definition field_init :: "byte list \<Rightarrow> AttrType \<Rightarrow> int \<Rightarrow> int \<Rightarrow> bool \<Rightarrow> bool \<Rightarrow> RC + FieldMeta" where
  "field_init name ty off len visible nullable =
     (if is_blank name then Inl INVALID_ARGUMENT
      else if ty = UNDEFINED \<or> off < 0 \<or> len \<le> 0 then Inl INVALID_ARGUMENT
      else Inr \<lparr>fm_name = name, fm_type = ty, fm_offset = off, fm_len = len, fm_visible = visible, fm_nullable = nullable\<rparr>)"

text \<open>The fields of the transactions get their offsets; the constructor of a field asserts that it is valid.\<close>

fun place_trx_fields :: "FieldMeta list \<Rightarrow> int \<Rightarrow> (FieldMeta list \<times> int) option" where
  "place_trx_fields [] off = Some ([], off)"
| "place_trx_fields (f # fs) off =
     (case field_init (fm_name f) (fm_type f) off (fm_len f) False False of
        Inl rc \<Rightarrow> None
      | Inr g \<Rightarrow> map_option (\<lambda>(gs, e). (g # gs, e)) (place_trx_fields fs (off + fm_len f)))"

text \<open>The columns in their order, up to the first invalid one.\<close>

fun place_columns :: "AttrInfo list \<Rightarrow> int \<Rightarrow> RC \<times> FieldMeta list \<times> int" where
  "place_columns [] off = (SUCCESS, [], off)"
| "place_columns (a # as) off =
     (case field_init (ai_name a) (ai_type a) off (ai_length a) True (ai_nullable a) of
        Inl rc \<Rightarrow> (rc, [], off)
      | Inr g \<Rightarrow> (case place_columns as (off + ai_length a) of (rc, gs, e) \<Rightarrow> (rc, g # gs, e)))"

definition null_bitmap_name :: "byte list" where
  "null_bitmap_name = ascii ''__null_bitmap''"

definition table_meta_init :: "int \<Rightarrow> byte list \<Rightarrow> FieldMeta list option \<Rightarrow> AttrInfo list \<Rightarrow> TableMeta \<Rightarrow> (RC \<times> TableMeta) option" where
  "table_meta_init table_id name trx_fields attributes m =
     (if is_blank name then Some (INVALID_ARGUMENT, m)
      else if attributes = [] then Some (INVALID_ARGUMENT, m)
      else do {
        (sys, off) \<leftarrow> place_trx_fields (case trx_fields of None \<Rightarrow> [] | Some fs \<Rightarrow> fs) 0;
        let m1 = (case trx_fields of None \<Rightarrow> m | Some fs \<Rightarrow> m\<lparr>tm_sys_fields := fs\<rparr>);
        (case field_init null_bitmap_name INTS off 4 False False of
           Inl rc \<Rightarrow> Some (rc, m1\<lparr>tm_fields := sys @ replicate (length attributes + 1) new_field\<rparr>)
         | Inr nb \<Rightarrow>
             (let m2 = m1\<lparr>tm_sys_fields := tm_sys_fields m1 @ [nb]\<rparr>
              in case place_columns attributes (off + 4) of
                   (rc, cs, e) \<Rightarrow>
                     (let m3 = m2\<lparr>tm_fields := sys @ [nb] @ cs @ replicate (length attributes - length cs) new_field\<rparr>
                      in Some (rc, if rc \<noteq> SUCCESS then m3 else m3\<lparr>tm_record_size := e, tm_id := table_id, tm_name := name\<rparr>))))
      })"

definition sys_field_num :: "TableMeta \<Rightarrow> nat" where
  "sys_field_num m = length (tm_sys_fields m)"

definition field_num :: "TableMeta \<Rightarrow> nat" where
  "field_num m = length (tm_fields m)"

definition null_bitmap_field :: "TableMeta \<Rightarrow> FieldMeta" where
  "null_bitmap_field m = tm_fields m ! (sys_field_num m - 1)"

section \<open>Long texts\<close>

record TextStorage =
  next_key :: int
  storage :: "int \<Rightarrow> byte list option"

definition text_put :: "byte list \<Rightarrow> TextStorage \<Rightarrow> int \<times> TextStorage" where
  "text_put t s = (next_key s, s\<lparr>storage := (storage s)(next_key s \<mapsto> t), next_key := signed_take_bit 31 (next_key s + 1)\<rparr>)"

text \<open>Reading a missing key adds an empty text.\<close>

definition text_get :: "int \<Rightarrow> TextStorage \<Rightarrow> byte list \<times> TextStorage" where
  "text_get key s = (case storage s key of Some t \<Rightarrow> (t, s) | None \<Rightarrow> ([], s\<lparr>storage := (storage s)(key \<mapsto> [])\<rparr>))"

definition text_remove :: "int \<Rightarrow> TextStorage \<Rightarrow> TextStorage" where
  "text_remove key s = s\<lparr>storage := (storage s)(key := None)\<rparr>"

section \<open>From values to records\<close>

text \<open>One value of an \<open>INSERT\<close>, converted to the type of its column; \<open>res\<close> is the value it is stored in.\<close>

definition make_value :: "fpu \<Rightarrow> Value \<Rightarrow> FieldMeta \<Rightarrow> TextStorage \<Rightarrow> ((RC + Value) \<times> TextStorage) option" where
  "make_value fp v f ts =
     (if v_type v = NULLS \<and> fm_nullable f then Some (Inr v, ts)
      else if v_type v = NULLS then Some (Inl SCHEMA_FIELD_NON_NULL, ts)
      else if fm_type f = TEXTS then
        (if v_type v \<noteq> CHARS then Some (Inl UNIMPLENMENT, ts)
         else if v_length v > 65536 then Some (Inl INSERT_VALUE_TOOLONG, ts)
         else (case text_put (v_str v) ts of (key, ts') \<Rightarrow> Some (Inr (set_text (print_d 0 key) new_value), ts')))
      else if fm_type f = v_type v then Some (Inr v, ts)
      else map_option (\<lambda>(rc, r). (if rc \<noteq> SUCCESS then Inl INVALID_ARGUMENT else Inr r, ts)) (try_convert_value fp v (fm_type f) new_value))"

fun make_value_list :: "fpu \<Rightarrow> Value list \<Rightarrow> FieldMeta list \<Rightarrow> TextStorage \<Rightarrow> ((RC + Value list) \<times> TextStorage) option" where
  "make_value_list fp (v # vs) (f # fs) ts =
     do {
       (r, ts1) \<leftarrow> make_value fp v f ts;
       (case r of
          Inl rc \<Rightarrow> Some (Inl rc, ts1)
        | Inr w \<Rightarrow> do { (rs, ts2) \<leftarrow> make_value_list fp vs fs ts1; Some (case rs of Inl rc \<Rightarrow> Inl rc | Inr ws \<Rightarrow> Inr (w # ws), ts2) })
     }"
| "make_value_list fp _ _ ts = Some (Inr [], ts)"

definition make_values :: "fpu \<Rightarrow> Value list \<Rightarrow> TableMeta \<Rightarrow> TextStorage \<Rightarrow> ((RC + Value list) \<times> TextStorage) option" where
  "make_values fp values m ts =
     (if int (field_num m) - int (sys_field_num m) \<noteq> int (length values) then Some (Inl SCHEMA_FIELD_MISSING, ts)
      else make_value_list fp values (drop (sys_field_num m) (tm_fields m)) ts)"

definition type_matches :: "Value \<Rightarrow> FieldMeta \<Rightarrow> bool" where
  "type_matches v f \<longleftrightarrow> v_type v = NULLS \<and> fm_nullable f \<or> fm_type f = v_type v"

definition copy_length :: "Value \<Rightarrow> FieldMeta \<Rightarrow> int" where
  "copy_length v f = (if fm_type f = CHARS \<and> fm_len f > v_length v then v_length v + 1 else fm_len f)"

text \<open>The bytes that are copied for a value: reading more than the value has is undefined.\<close>

definition value_bytes :: "Value \<Rightarrow> FieldMeta \<Rightarrow> byte list option" where
  "value_bytes v f =
     (if v_type v = NULLS then Some (replicate (nat (copy_length v f)) 0)
      else Option.bind (value_data v) (\<lambda>bs. if nat (copy_length v f) \<le> length bs then Some (take (nat (copy_length v f)) bs) else None))"

fun copy_values :: "(Value \<times> FieldMeta) list \<Rightarrow> byte list \<Rightarrow> byte list option" where
  "copy_values [] rec = Some rec"
| "copy_values ((v, f) # vs) rec = Option.bind (value_bytes v f) (\<lambda>bs. copy_values vs (write_bytes (nat (fm_offset f)) bs rec))"

text \<open>The bitmap of NULLs is an array of four bytes on the stack; setting a bit behind it is undefined.\<close>

fun null_bits :: "nat \<Rightarrow> Value list \<Rightarrow> byte list \<Rightarrow> byte list option" where
  "null_bits i [] bm = Some bm"
| "null_bits i (v # vs) bm =
     (if v_type v = NULLS then (if i < 32 then null_bits (Suc i) vs (bitmap_set_bit bm i) else None) else null_bits (Suc i) vs bm)"

text \<open>\<open>mem\<close> is the memory that \<open>malloc\<close> returns.\<close>

definition make_record :: "byte list \<Rightarrow> Value list \<Rightarrow> TableMeta \<Rightarrow> (RC + byte list) option" where
  "make_record mem values m =
     (if length values + sys_field_num m \<noteq> field_num m then Some (Inl SCHEMA_FIELD_MISSING)
      else (let vfs = zip values (drop (sys_field_num m) (tm_fields m))
            in if \<not> list_all (\<lambda>(v, f). type_matches v f) vfs then Some (Inl SCHEMA_FIELD_TYPE_MISMATCH)
               else do {
                 rec \<leftarrow> copy_values vfs mem;
                 bm \<leftarrow> null_bits (sys_field_num m) values (replicate 4 0);
                 Some (Inr (write_bytes (nat (fm_offset (null_bitmap_field m))) bm rec))
               }))"

section \<open>From records to values\<close>

text \<open>The bit is read from the record even when it lies behind the bitmap.\<close>

definition cell_at :: "int \<Rightarrow> byte list \<Rightarrow> TableMeta \<Rightarrow> Value \<Rightarrow> TextStorage \<Rightarrow> ((RC \<times> Value) \<times> TextStorage) option" where
  "cell_at index rec m cell ts =
     (if index < 0 \<or> index \<ge> int (field_num m) then Some ((INVALID_ARGUMENT, cell), ts)
      else (let bits = drop (nat (fm_offset (null_bitmap_field m))) rec;
                f = tm_fields m ! nat index;
                data = drop (nat (fm_offset f)) rec
            in if nat index div 8 \<ge> length bits then None
               else if bitmap_get_bit bits (nat index) then Some ((SUCCESS, set_null cell), ts)
               else if fm_type f = TEXTS then
                 (if length (c_str data) > 3 then None
                  else (case text_get (case str_int (c_str data) of None \<Rightarrow> 0 | Some (key, r) \<Rightarrow> key) ts of
                          (t, ts') \<Rightarrow> Some ((SUCCESS, set_string t 0 cell), ts')))
               else map_option (\<lambda>c. ((SUCCESS, c), ts)) (value_set_data data (fm_len f) (cell\<lparr>v_type := fm_type f\<rparr>))))"

fun find_field_index :: "byte list \<Rightarrow> FieldMeta list \<Rightarrow> nat \<Rightarrow> nat option" where
  "find_field_index name [] i = None"
| "find_field_index name (f # fs) i = (if fm_name f = name then Some i else find_field_index name fs (Suc i))"

definition find_cell :: "byte list \<Rightarrow> byte list \<Rightarrow> byte list \<Rightarrow> TableMeta \<Rightarrow> Value \<Rightarrow> TextStorage \<Rightarrow> ((RC \<times> Value) \<times> TextStorage) option" where
  "find_cell table_name field_name rec m cell ts =
     (if table_name \<noteq> tm_name m then Some ((NOTFOUND, cell), ts)
      else (case find_field_index field_name (tm_fields m) 0 of
              None \<Rightarrow> Some ((NOTFOUND, cell), ts)
            | Some i \<Rightarrow> cell_at (int i) rec m cell ts))"

end
