(* ===== verification/SqlExpr.thy ===== *)
theory SqlExpr
  imports SqlFunction SqlRecord
begin

text \<open>
  Expressions: \<^verbatim>\<open>src/observer/sql/expr/expression.{h,cpp}\<close>. A tuple is the record of its three virtual functions. \<open>get_value\<close>
  evaluates an expression on a tuple, \<open>try_get_value\<close> without one; both write into the value they are given, so the value
  goes in and comes out. \<open>NullCast\<close> is an exception that leaves the call, \<open>Abort\<close> a failed assertion, another exception
  or undefined behaviour.
\<close>

section \<open>Tuples\<close>

record TupleCellSpec =
  cs_table :: "byte list"
  cs_field :: "byte list"
  cs_alias :: "byte list"

text \<open>A record is its identifier and its bytes. \<open>t_record\<close> is the record of a row of a table; other tuples have none.\<close>

type_synonym Record = "RID \<times> byte list"

record Tuple =
  t_cell_num :: nat
  t_cell_at :: "int \<Rightarrow> Value \<Rightarrow> (RC \<times> Value) cast"
  t_find_cell :: "TupleCellSpec \<Rightarrow> Value \<Rightarrow> (RC \<times> Value) cast"
  t_record :: "Record option"

section \<open>Patterns\<close>

text \<open>
  The regular expressions that \<open>LikeExpr\<close> builds: characters and dots, each perhaps repeated. Letters match in both cases;
  a dot does not match the end of a line.
\<close>

datatype atom = Lit byte | Dot
datatype item = One atom | Many atom

definition special_chars :: "byte list" where
  "special_chars = ascii [CHR ''^'', CHR ''$'', CHR ''.'', CHR ''*'', CHR ''+'', CHR ''?'', CHR ''('', CHR '')'', CHR ''['', CHR '']'', CHR 0x7B,
     CHR 0x7D, CHR ''|'', CHR 0x5C]"

definition like_source :: "byte list \<Rightarrow> byte list" where
  "like_source p = concat (map (\<lambda>c. if c \<in> set special_chars then [92, c] else if c = 37 then [46, 42] else if c = 95 then [46] else [c]) p)"

fun regex_compile :: "byte list \<Rightarrow> item list option"
  and regex_item :: "atom \<Rightarrow> byte list \<Rightarrow> item list option" where
  "regex_compile [] = Some []"
| "regex_compile (c # cs) =
     (if c = 92 then (case cs of [] \<Rightarrow> None | d # ds \<Rightarrow> if d \<in> set special_chars then regex_item (Lit d) ds else None)
      else if c = 46 then regex_item Dot cs
      else if c \<in> set special_chars then None
      else regex_item (Lit c) cs)"
| "regex_item a [] = Some [One a]"
| "regex_item a (c # cs) = (if c = 42 then map_option ((#) (Many a)) (regex_compile cs) else map_option ((#) (One a)) (regex_compile (c # cs)))"

definition to_lower :: "byte \<Rightarrow> byte" where
  "to_lower c = (if 65 \<le> c \<and> c \<le> 90 then c + 32 else c)"

definition line_end :: "byte \<Rightarrow> bool" where
  "line_end c \<longleftrightarrow> c = 10 \<or> c = 13"

fun atom_match :: "atom \<Rightarrow> byte \<Rightarrow> bool" where
  "atom_match (Lit c) d \<longleftrightarrow> to_lower c = to_lower d"
| "atom_match Dot d \<longleftrightarrow> \<not> line_end d"

fun regex_match :: "item list \<Rightarrow> byte list \<Rightarrow> bool" where
  "regex_match [] s \<longleftrightarrow> s = []"
| "regex_match (One a # is) [] \<longleftrightarrow> False"
| "regex_match (One a # is) (d # s) \<longleftrightarrow> atom_match a d \<and> regex_match is s"
| "regex_match (Many a # is) [] \<longleftrightarrow> regex_match is []"
| "regex_match (Many a # is) (d # s) \<longleftrightarrow> regex_match is (d # s) \<or> atom_match a d \<and> regex_match (Many a # is) s"

section \<open>Expressions\<close>

datatype CompOp = EQUAL_TO | LESS_EQUAL | NOT_EQUAL | LESS_THAN | GREAT_EQUAL | GREAT_THAN | NO_OP
datatype ConjunctionType = CONJ_AND | CONJ_OR
datatype ArithmeticType = ADD | SUB | MUL | DIV | NEGATIVE

datatype Expression =
    FieldExpr "byte list" "byte list" AttrType
  | ValueExpr Value
  | CastExpr Expression AttrType
  | ComparisonExpr CompOp Expression Expression
  | ConjunctionExpr ConjunctionType "Expression list"
  | ArithmeticExpr ArithmeticType Expression "Expression option"
  | LikeExpr "item list" Expression
  | NotExpr Expression
  | TupleCellExpr TupleCellSpec AttrType
  | InExpr Expression "Expression option" "Expression list"
  | ExistsExpr Expression
  | IsNullExpr Expression
  | FunctionExpression FunctionType "Expression list"

definition new_like_expr :: "byte list \<Rightarrow> Expression \<Rightarrow> Expression option" where
  "new_like_expr partten child = map_option (\<lambda>r. LikeExpr r child) (regex_compile (like_source partten))"

fun value_type :: "Expression \<Rightarrow> AttrType" where
  "value_type (FieldExpr table field ty) = ty"
| "value_type (ValueExpr v) = v_type v"
| "value_type (CastExpr e ty) = ty"
| "value_type (ArithmeticExpr ty l None) = value_type l"
| "value_type (ArithmeticExpr ty l (Some r)) = (if value_type l = INTS \<and> value_type r = INTS \<and> ty \<noteq> DIV then INTS else FLOATS)"
| "value_type (TupleCellExpr spec ty) = ty"
| "value_type (FunctionExpression f ps) = function_value_type f"
| "value_type _ = BOOLEANS"

text \<open>
  What the program leaves to libraries: floating point, and reading back the list of values that a subquery was stored as
  (\<open>string_to_arr\<close>, by a JSON parser; \<open>None\<close> when it throws).
\<close>

record sql_env =
  e_fp :: fpu
  e_rd :: rounding
  e_arr :: "byte list \<Rightarrow> Value list option"

section \<open>The steps of an evaluation\<close>

text \<open>An exception in the conversion stores NULL. The child has written into the value that is cast.\<close>

definition cast_store :: "'a cast \<Rightarrow> ('a \<Rightarrow> Value \<Rightarrow> Value) \<Rightarrow> Value \<Rightarrow> (RC \<times> Value) cast" where
  "cast_store c set_to v = or_null c (\<lambda>a. Val (SUCCESS, set_to a v)) v"

definition cast_value :: "fpu \<Rightarrow> AttrType \<Rightarrow> Value \<Rightarrow> (RC \<times> Value) cast" where
  "cast_value fp ty v =
     (if ty = v_type v then Val (SUCCESS, v)
      else (case ty of
              BOOLEANS \<Rightarrow> cast_store (get_boolean fp v) set_boolean v
            | DATES \<Rightarrow> cast_store (get_string fp v) set_date v
            | FLOATS \<Rightarrow> cast_store (get_float fp v) set_float v
            | INTS \<Rightarrow> cast_store (get_int fp v) set_int v
            | NULLS \<Rightarrow> Val (SUCCESS, set_null v)
            | CHARS \<Rightarrow> or_null (get_string fp v) (\<lambda>s. let w = set_string s 0 v in cast_store (get_string fp w) set_text w) v
            | TEXTS \<Rightarrow> cast_store (get_string fp v) set_text v
            | UNDEFINED \<Rightarrow> Val (SUCCESS, set_null v)))"

definition comp_holds :: "CompOp \<Rightarrow> int \<Rightarrow> bool option" where
  "comp_holds op c =
     (case op of
        EQUAL_TO \<Rightarrow> Some (c = 0)
      | LESS_EQUAL \<Rightarrow> Some (c \<le> 0)
      | NOT_EQUAL \<Rightarrow> Some (c \<noteq> 0)
      | LESS_THAN \<Rightarrow> Some (c < 0)
      | GREAT_EQUAL \<Rightarrow> Some (c \<ge> 0)
      | GREAT_THAN \<Rightarrow> Some (c > 0)
      | NO_OP \<Rightarrow> None)"

definition compare_value :: "fpu \<Rightarrow> CompOp \<Rightarrow> Value \<Rightarrow> Value \<Rightarrow> (RC \<times> bool) cast" where
  "compare_value fp op l r =
     (case value_compare fp l r of
        NullCast \<Rightarrow> Val (NULL_VALUE, False)
      | Abort \<Rightarrow> Abort
      | Val c \<Rightarrow> (case comp_holds op c of None \<Rightarrow> Val (INTERNAL, False) | Some b \<Rightarrow> Val (SUCCESS, b)))"

definition comparison_result :: "fpu \<Rightarrow> CompOp \<Rightarrow> Value \<Rightarrow> Value \<Rightarrow> Value \<Rightarrow> (RC \<times> Value) cast" where
  "comparison_result fp op l r v =
     cast_bind (compare_value fp op l r)
       (\<lambda>(rc, b). if rc = SUCCESS then Val (SUCCESS, set_boolean b v)
                  else if rc = NULL_VALUE then Val (SUCCESS, set_null v)
                  else Val (rc, v))"

text \<open>Integers wrap around; dividing the least integer by \<open>-1\<close> traps.\<close>

definition calc_int :: "ArithmeticType \<Rightarrow> int \<Rightarrow> int \<Rightarrow> Value \<Rightarrow> (RC \<times> Value) cast" where
  "calc_int ty a b v =
     (case ty of
        ADD \<Rightarrow> Val (SUCCESS, set_int (a + b) v)
      | SUB \<Rightarrow> Val (SUCCESS, set_int (a - b) v)
      | MUL \<Rightarrow> Val (SUCCESS, set_int (a * b) v)
      | DIV \<Rightarrow> (if a = - (2 ^ 31) \<and> b = -1 then Abort else Val (SUCCESS, set_int (a sdiv b) v))
      | NEGATIVE \<Rightarrow> Val (SUCCESS, set_int (- a) v))"

definition calc_float :: "fpu \<Rightarrow> ArithmeticType \<Rightarrow> 32 word \<Rightarrow> 32 word \<Rightarrow> Value \<Rightarrow> (RC \<times> Value) cast" where
  "calc_float fp ty a b v =
     (case ty of
        ADD \<Rightarrow> Val (SUCCESS, set_float (f_add fp a b) v)
      | SUB \<Rightarrow> Val (SUCCESS, set_float (f_sub fp a b) v)
      | MUL \<Rightarrow> Val (SUCCESS, set_float (f_mul fp a b) v)
      | DIV \<Rightarrow> Val (SUCCESS, set_float (f_div fp a b) v)
      | NEGATIVE \<Rightarrow> Val (SUCCESS, set_float (f_neg fp a) v))"

text \<open>A negation does not read its right operand; a division by zero is NULL, and its left operand is not read.\<close>

definition calc_value :: "fpu \<Rightarrow> AttrType \<Rightarrow> ArithmeticType \<Rightarrow> Value \<Rightarrow> Value \<Rightarrow> Value \<Rightarrow> (RC \<times> Value) cast" where
  "calc_value fp target ty l r v =
     (if target = INTS then
        cast_bind (if ty = NEGATIVE then Val 0 else get_int fp r)
          (\<lambda>b. if ty = DIV \<and> b = 0 then Val (SUCCESS, set_null v) else cast_bind (get_int fp l) (\<lambda>a. calc_int ty a b v))
      else
        cast_bind (if ty = NEGATIVE then Val 0 else get_float fp r)
          (\<lambda>b. if ty = DIV \<and> f_within_eps fp b then Val (SUCCESS, set_null v) else cast_bind (get_float fp l) (\<lambda>a. calc_float fp ty a b v)))"

text \<open>\<open>ArithmeticExpr\<close> catches the exception of \<open>calc_value\<close>.\<close>

definition catch_null :: "(RC \<times> Value) cast \<Rightarrow> Value \<Rightarrow> (RC \<times> Value) cast" where
  "catch_null c v = or_null c Val v"

definition like_result :: "fpu \<Rightarrow> item list \<Rightarrow> Value \<Rightarrow> Value \<Rightarrow> (RC \<times> Value) cast" where
  "like_result fp r child v = or_null (get_string fp child) (\<lambda>s. Val (SUCCESS, set_boolean (regex_match r s) v)) v"

definition not_result :: "fpu \<Rightarrow> Value \<Rightarrow> Value \<Rightarrow> (RC \<times> Value) cast" where
  "not_result fp child v = or_null (get_boolean fp child) (\<lambda>b. Val (SUCCESS, set_boolean (\<not> b) v)) v"

text \<open>
  The values of an \<open>IN\<close> without NULL are put into a \<open>std::set\<close> ordered by \<open>std::less\<close>. The set is defined only when the
  comparison is a strict weak order on the values it sees.
\<close>

definition less_value :: "fpu \<Rightarrow> Value \<Rightarrow> Value \<Rightarrow> bool" where
  "less_value fp a b \<longleftrightarrow> value_less fp a b = Some True"

definition equiv_value :: "fpu \<Rightarrow> Value \<Rightarrow> Value \<Rightarrow> bool" where
  "equiv_value fp a b \<longleftrightarrow> \<not> less_value fp a b \<and> \<not> less_value fp b a"

definition strict_weak_order :: "fpu \<Rightarrow> Value list \<Rightarrow> bool" where
  "strict_weak_order fp vs \<longleftrightarrow>
     (\<forall>a\<in>set vs. \<not> less_value fp a a \<and>
        (\<forall>b\<in>set vs. value_less fp a b \<noteq> None \<and>
           (\<forall>c\<in>set vs. (less_value fp a b \<and> less_value fp b c \<longrightarrow> less_value fp a c)
              \<and> (equiv_value fp a b \<and> equiv_value fp b c \<longrightarrow> equiv_value fp a c))))"

definition is_in :: "fpu \<Rightarrow> Value \<Rightarrow> Value list \<Rightarrow> bool \<Rightarrow> Value \<Rightarrow> (RC \<times> Value) cast" where
  "is_in fp left right_values contain_null v =
     (if v_type left = NULLS then Val (SUCCESS, set_null v)
      else if \<not> strict_weak_order fp (left # right_values) then Abort
      else if \<exists>w\<in>set right_values. equiv_value fp left w then Val (SUCCESS, set_boolean True v)
      else if contain_null then Val (SUCCESS, set_null v)
      else Val (SUCCESS, set_boolean False v))"

definition in_values :: "fpu \<Rightarrow> Value \<Rightarrow> Value list \<Rightarrow> Value \<Rightarrow> (RC \<times> Value) cast" where
  "in_values fp left vs v =
     (let values = filter (\<lambda>w. v_type w \<noteq> NULLS) vs
      in if \<not> strict_weak_order fp values then Abort else is_in fp left values (\<exists>w\<in>set vs. v_type w = NULLS) v)"

definition in_subquery :: "sql_env \<Rightarrow> Value \<Rightarrow> Value \<Rightarrow> Value \<Rightarrow> (RC \<times> Value) cast" where
  "in_subquery env left sub v =
     cast_bind (get_string (e_fp env) sub) (\<lambda>s. case e_arr env s of None \<Rightarrow> Abort | Some vs \<Rightarrow> in_values (e_fp env) left vs v)"

text \<open>The value of a child, or the code of its failure; the result is not written then.\<close>

definition on_success :: "(RC \<times> 'a) cast \<Rightarrow> ('a \<Rightarrow> (RC \<times> 'b) cast) \<Rightarrow> 'b \<Rightarrow> (RC \<times> 'b) cast" where
  "on_success c f v = cast_bind c (\<lambda>(rc, w). if rc \<noteq> SUCCESS then Val (rc, v) else f w)"

section \<open>Evaluation\<close>

text \<open>
  In a conjunction, \<open>tmp\<close> is the one value all children write into. \<open>get_values\<close> evaluates the list of an \<open>IN\<close> or the
  parameters of a function.
\<close>

fun get_value :: "sql_env \<Rightarrow> Tuple \<Rightarrow> Expression \<Rightarrow> Value \<Rightarrow> (RC \<times> Value) cast"
  and get_conjunction :: "sql_env \<Rightarrow> Tuple \<Rightarrow> ConjunctionType \<Rightarrow> Expression list \<Rightarrow> Value \<Rightarrow> bool \<Rightarrow> Value \<Rightarrow> (RC \<times> Value) cast"
  and get_values :: "sql_env \<Rightarrow> Tuple \<Rightarrow> Expression list \<Rightarrow> (RC \<times> Value list) cast" where
  "get_value env t (FieldExpr table field ty) v = t_find_cell t \<lparr>cs_table = table, cs_field = field, cs_alias = []\<rparr> v"
| "get_value env t (ValueExpr w) v = Val (SUCCESS, w)"
| "get_value env t (CastExpr e ty) v = cast_bind (get_value env t e v) (\<lambda>(rc, w). if rc \<noteq> SUCCESS then Val (rc, w) else cast_value (e_fp env) ty w)"
| "get_value env t (ComparisonExpr op l r) v =
     on_success (get_value env t l new_value) (\<lambda>a. on_success (get_value env t r new_value) (\<lambda>b. comparison_result (e_fp env) op a b v) v) v"
| "get_value env t (ConjunctionExpr ty es) v =
     (if es = [] then Val (SUCCESS, set_boolean True v) else get_conjunction env t ty es new_value False v)"
| "get_value env t (ArithmeticExpr ty l None) v = on_success (get_value env t l new_value) (\<lambda>a. Abort) v"
| "get_value env t (ArithmeticExpr ty l (Some r)) v =
     on_success (get_value env t l new_value)
       (\<lambda>a. on_success (get_value env t r new_value)
              (\<lambda>b. catch_null (calc_value (e_fp env) (value_type (ArithmeticExpr ty l (Some r))) ty a b v) v) v) v"
| "get_value env t (LikeExpr p e) v = on_success (get_value env t e new_value) (\<lambda>a. like_result (e_fp env) p a v) v"
| "get_value env t (NotExpr e) v = on_success (get_value env t e new_value) (\<lambda>a. not_result (e_fp env) a v) v"
| "get_value env t (TupleCellExpr spec ty) v = t_find_cell t spec v"
| "get_value env t (InExpr l (Some q) es) v =
     on_success (get_value env t l new_value) (\<lambda>a. cast_bind (get_value env t q new_value) (\<lambda>(rc, w). in_subquery env a w v)) v"
| "get_value env t (InExpr l None es) v =
     on_success (get_value env t l new_value) (\<lambda>a. on_success (get_values env t es) (\<lambda>vs. in_values (e_fp env) a vs v) v) v"
| "get_value env t (ExistsExpr q) v = get_value env t q v"
| "get_value env t (IsNullExpr e) v =
     cast_bind (get_value env t e v) (\<lambda>(rc, w). Val (rc, if rc \<noteq> SUCCESS then w else set_boolean (v_type w = NULLS) w))"
| "get_value env t (FunctionExpression f ps) v = on_success (get_values env t ps) (\<lambda>vs. function_body (e_fp env) (e_rd env) f vs v) v"
| "get_conjunction env t ty [] tmp contain_null v =
     Val (SUCCESS, if contain_null then set_null v else set_boolean (ty = CONJ_AND) v)"
| "get_conjunction env t ty (e # es) tmp contain_null v =
     on_success (get_value env t e tmp)
       (\<lambda>w. if v_type w = NULLS then get_conjunction env t ty es w True v
            else cast_bind (get_boolean (e_fp env) w)
                   (\<lambda>b. if ty = CONJ_AND \<and> \<not> b \<or> ty = CONJ_OR \<and> b then Val (SUCCESS, set_boolean b v)
                        else get_conjunction env t ty es w contain_null v)) v"
| "get_values env t [] = Val (SUCCESS, [])"
| "get_values env t (e # es) =
     on_success (get_value env t e new_value) (\<lambda>w. cast_bind (get_values env t es) (\<lambda>(rc, ws). Val (rc, w # ws))) []"

fun try_get_value :: "sql_env \<Rightarrow> Expression \<Rightarrow> Value \<Rightarrow> (RC \<times> Value) cast"
  and try_conjunction :: "sql_env \<Rightarrow> ConjunctionType \<Rightarrow> Expression list \<Rightarrow> Value \<Rightarrow> bool \<Rightarrow> Value \<Rightarrow> (RC \<times> Value) cast"
  and try_values :: "sql_env \<Rightarrow> Expression list \<Rightarrow> (RC \<times> Value list) cast" where
  "try_get_value env (FieldExpr table field ty) v = Val (UNIMPLENMENT, v)"
| "try_get_value env (ValueExpr w) v = Val (SUCCESS, w)"
| "try_get_value env (CastExpr e ty) v = cast_bind (try_get_value env e v) (\<lambda>(rc, w). if rc \<noteq> SUCCESS then Val (rc, w) else cast_value (e_fp env) ty w)"
| "try_get_value env (ComparisonExpr op l r) v =
     on_success (try_get_value env l new_value) (\<lambda>a. on_success (try_get_value env r new_value) (\<lambda>b. comparison_result (e_fp env) op a b v) v) v"
| "try_get_value env (ConjunctionExpr ty es) v =
     (if es = [] then Val (SUCCESS, set_boolean True v) else try_conjunction env ty es new_value False v)"
| "try_get_value env (ArithmeticExpr ty l None) v =
     on_success (try_get_value env l new_value)
       (\<lambda>a. catch_null (calc_value (e_fp env) (value_type (ArithmeticExpr ty l None)) ty a new_value v) v) v"
| "try_get_value env (ArithmeticExpr ty l (Some r)) v =
     on_success (try_get_value env l new_value)
       (\<lambda>a. on_success (try_get_value env r new_value)
              (\<lambda>b. catch_null (calc_value (e_fp env) (value_type (ArithmeticExpr ty l (Some r))) ty a b v) v) v) v"
| "try_get_value env (LikeExpr p e) v = on_success (try_get_value env e new_value) (\<lambda>a. like_result (e_fp env) p a v) v"
| "try_get_value env (NotExpr e) v = on_success (try_get_value env e new_value) (\<lambda>a. not_result (e_fp env) a v) v"
| "try_get_value env (TupleCellExpr spec ty) v = Val (UNIMPLENMENT, v)"
| "try_get_value env (InExpr l (Some q) es) v =
     on_success (try_get_value env l new_value) (\<lambda>a. cast_bind (try_get_value env q new_value) (\<lambda>(rc, w). in_subquery env a w v)) v"
| "try_get_value env (InExpr l None es) v =
     on_success (try_get_value env l new_value) (\<lambda>a. on_success (try_values env es) (\<lambda>vs. in_values (e_fp env) a vs v) v) v"
| "try_get_value env (ExistsExpr q) v = Val (UNIMPLENMENT, v)"
| "try_get_value env (IsNullExpr e) v =
     cast_bind (try_get_value env e v) (\<lambda>(rc, w). Val (rc, if rc \<noteq> SUCCESS then w else set_boolean (v_type w = NULLS) w))"
| "try_get_value env (FunctionExpression f ps) v = on_success (try_values env ps) (\<lambda>vs. function_body (e_fp env) (e_rd env) f vs v) v"
| "try_conjunction env ty [] tmp contain_null v =
     Val (SUCCESS, if contain_null \<and> ty \<noteq> CONJ_AND then set_null v else set_boolean (ty = CONJ_AND) v)"
| "try_conjunction env ty (e # es) tmp contain_null v =
     on_success (try_get_value env e tmp)
       (\<lambda>w. cast_bind (if v_type w = NULLS then Val False else get_boolean (e_fp env) w)
              (\<lambda>b. if ty = CONJ_AND \<and> \<not> b \<or> ty = CONJ_OR \<and> b then Val (SUCCESS, set_boolean b v)
                   else try_conjunction env ty es w (contain_null \<or> v_type w = NULLS) v)) v"
| "try_values env [] = Val (SUCCESS, [])"
| "try_values env (e # es) =
     on_success (try_get_value env e new_value) (\<lambda>w. cast_bind (try_values env es) (\<lambda>(rc, ws). Val (rc, w # ws))) []"

end
