(* ===== verification/SqlTuple.thy ===== *)
theory SqlTuple
  imports SqlExpr
begin

text \<open>
  The tuples that operators pass on: \<^verbatim>\<open>src/observer/sql/expr/tuple.h\<close>. A tuple over another tuple evaluates its cells when they
  are asked for. Aggregates are tuples whose values are updated row by row.
\<close>

section \<open>Tuples over rows and values\<close>

definition from_option :: "('a \<times> 'b) option \<Rightarrow> 'a cast" where
  "from_option r = (case r of None \<Rightarrow> Abort | Some (a, ts) \<Rightarrow> Val a)"

text \<open>A row of a table; \<open>ts\<close> is the storage of long texts at the time the row is read.\<close>

definition row_tuple :: "TableMeta \<Rightarrow> TextStorage \<Rightarrow> Record \<Rightarrow> Tuple" where
  "row_tuple m ts rec =
     \<lparr>t_cell_num = field_num m,
      t_cell_at = (\<lambda>i cell. from_option (cell_at i (snd rec) m cell ts)),
      t_find_cell = (\<lambda>spec cell. from_option (find_cell (cs_table spec) (cs_field spec) (snd rec) m cell ts)),
      t_record = Some rec\<rparr>"

definition list_cell_at :: "Value list \<Rightarrow> int \<Rightarrow> Value \<Rightarrow> (RC \<times> Value) cast" where
  "list_cell_at cells i cell = (if i < 0 \<or> i \<ge> int (length cells) then Val (NOTFOUND, cell) else Val (SUCCESS, cells ! nat i))"

definition value_list_tuple :: "Value list \<Rightarrow> Tuple" where
  "value_list_tuple cells = \<lparr>t_cell_num = length cells, t_cell_at = list_cell_at cells, t_find_cell = (\<lambda>spec cell. Val (INTERNAL, cell)),
     t_record = None\<rparr>"

definition joined_cell_at :: "Tuple \<Rightarrow> Tuple \<Rightarrow> int \<Rightarrow> Value \<Rightarrow> (RC \<times> Value) cast" where
  "joined_cell_at l r i v =
     (if 0 \<le> i \<and> i < int (t_cell_num l) then t_cell_at l i v
      else if int (t_cell_num l) \<le> i \<and> i < int (t_cell_num l) + int (t_cell_num r) then t_cell_at r (i - int (t_cell_num l)) v
      else Val (NOTFOUND, v))"

definition joined_find_cell :: "Tuple \<Rightarrow> Tuple \<Rightarrow> TupleCellSpec \<Rightarrow> Value \<Rightarrow> (RC \<times> Value) cast" where
  "joined_find_cell l r spec v = cast_bind (t_find_cell l spec v) (\<lambda>(rc, w). if rc \<noteq> NOTFOUND then Val (rc, w) else t_find_cell r spec w)"

definition joined_tuple :: "Tuple \<Rightarrow> Tuple \<Rightarrow> Tuple" where
  "joined_tuple l r = \<lparr>t_cell_num = t_cell_num l + t_cell_num r, t_cell_at = joined_cell_at l r, t_find_cell = joined_find_cell l r,
     t_record = None\<rparr>"

section \<open>Projection\<close>

text \<open>The position of the first cell that a test accepts.\<close>

fun find_spec :: "(TupleCellSpec \<Rightarrow> bool) \<Rightarrow> TupleCellSpec list \<Rightarrow> nat \<Rightarrow> nat option" where
  "find_spec P [] i = None"
| "find_spec P (c # cs) i = (if P c then Some i else find_spec P cs (Suc i))"

definition project_cell_at :: "sql_env \<Rightarrow> Expression list \<Rightarrow> Tuple option \<Rightarrow> int \<Rightarrow> Value \<Rightarrow> (RC \<times> Value) cast" where
  "project_cell_at env exprs tuple i cell =
     (if i < 0 \<or> i \<ge> int (length exprs) then Val (INTERNAL, cell)
      else (case tuple of None \<Rightarrow> Val (INTERNAL, cell) | Some t \<Rightarrow> get_value env t (exprs ! nat i) cell))"

definition project_find_cell :: "sql_env \<Rightarrow> Expression list \<Rightarrow> TupleCellSpec list \<Rightarrow> Tuple option \<Rightarrow> TupleCellSpec \<Rightarrow> Value \<Rightarrow> (RC \<times> Value) cast" where
  "project_find_cell env exprs schema tuple spec cell =
     (case find_spec (\<lambda>c. cs_alias spec \<noteq> [] \<and> cs_alias spec = cs_alias c) schema 0 of
        Some i \<Rightarrow> project_cell_at env exprs tuple (int i) cell
      | None \<Rightarrow> (case tuple of None \<Rightarrow> Abort | Some t \<Rightarrow> t_find_cell t spec cell))"

definition project_tuple :: "sql_env \<Rightarrow> Expression list \<Rightarrow> TupleCellSpec list \<Rightarrow> Tuple option \<Rightarrow> Tuple" where
  "project_tuple env exprs schema tuple =
     \<lparr>t_cell_num = length exprs, t_cell_at = project_cell_at env exprs tuple, t_find_cell = project_find_cell env exprs schema tuple,
      t_record = None\<rparr>"

text \<open>The tuple of a \<open>CALC\<close> statement; its expressions have names.\<close>

fun find_named :: "byte list \<Rightarrow> (byte list \<times> Expression) list \<Rightarrow> Expression option" where
  "find_named name [] = None"
| "find_named name ((n, e) # es) = (if name = n then Some e else find_named name es)"

definition expression_tuple :: "sql_env \<Rightarrow> (byte list \<times> Expression) list \<Rightarrow> Tuple" where
  "expression_tuple env es =
     \<lparr>t_cell_num = length es,
      t_cell_at = (\<lambda>i cell. if i < 0 \<or> i \<ge> int (length es) then Val (INTERNAL, cell) else try_get_value env (snd (es ! nat i)) cell),
      t_find_cell = (\<lambda>spec cell. case find_named (cs_alias spec) es of None \<Rightarrow> Val (NOTFOUND, cell) | Some e \<Rightarrow> try_get_value env e cell),
      t_record = None\<rparr>"

section \<open>Cached tuples\<close>

definition cache_find_cell :: "TupleCellSpec list \<Rightarrow> Value list \<Rightarrow> TupleCellSpec \<Rightarrow> Value \<Rightarrow> (RC \<times> Value) cast" where
  "cache_find_cell specs cells spec cell =
     (case find_spec (\<lambda>c. cs_alias spec = cs_alias c) specs 0 of
        Some i \<Rightarrow> list_cell_at cells (int i) cell
      | None \<Rightarrow>
          (case find_spec (\<lambda>c. cs_table spec = cs_table c \<and> cs_field spec = cs_field c) specs 0 of
             Some i \<Rightarrow> list_cell_at cells (int i) cell
           | None \<Rightarrow> Val (NOTFOUND, cell)))"

definition cache_tuple :: "TupleCellSpec list \<Rightarrow> Value list \<Rightarrow> Tuple" where
  "cache_tuple specs cells = \<lparr>t_cell_num = length specs, t_cell_at = list_cell_at cells, t_find_cell = cache_find_cell specs cells,
     t_record = None\<rparr>"

fun read_cells :: "Tuple \<Rightarrow> nat list \<Rightarrow> (RC \<times> Value list) cast" where
  "read_cells t [] = Val (SUCCESS, [])"
| "read_cells t (i # is) = on_success (t_cell_at t (int i) new_value) (\<lambda>v. cast_bind (read_cells t is) (\<lambda>(rc, vs). Val (rc, v # vs))) []"

text \<open>\<open>None\<close> is the empty pointer of a failed clone.\<close>

definition clone_tuple :: "TupleCellSpec list \<Rightarrow> Tuple \<Rightarrow> (RC \<times> Tuple option) cast" where
  "clone_tuple specs t =
     (if t_cell_num t \<noteq> length specs then Val (INVALID_ARGUMENT, None)
      else on_success (read_cells t [0..<t_cell_num t]) (\<lambda>cells. Val (SUCCESS, Some (cache_tuple specs cells))) None)"

section \<open>Aggregates\<close>

datatype AggregateType = AGG_INVALID | AGG_COUNT | AGG_SUM | AGG_AVG | AGG_MAX | AGG_MIN | AGG_GROUP

text \<open>
  \<open>AVG\<close> keeps its state as a string, \<open>count: %d, sum: %f\<close>. Narrowing a double, printing with \<open>%f\<close> and reading with \<open>%f\<close> are
  parameters; \<open>a_scan_f\<close> is \<open>None\<close> when no number is read, which leaves the variable without a value.
\<close>

record agg_io =
  a_narrow :: "64 word \<Rightarrow> 32 word"
  a_print_f :: "32 word \<Rightarrow> byte list"
  a_scan_f :: "byte list \<Rightarrow> 32 word option"

definition avg_info :: "agg_io \<Rightarrow> int \<Rightarrow> 32 word \<Rightarrow> byte list" where
  "avg_info io n f = ascii ''count: '' @ print_d 0 n @ ascii '', sum: '' @ a_print_f io f"

definition strip_prefix :: "byte list \<Rightarrow> byte list \<Rightarrow> byte list option" where
  "strip_prefix p s = (if take (length p) s = p then Some (drop (length p) s) else None)"

definition avg_scan :: "agg_io \<Rightarrow> byte list \<Rightarrow> (int \<times> 32 word) option" where
  "avg_scan io s =
     do {
       s1 \<leftarrow> strip_prefix (ascii ''count: '') s;
       (n, s2) \<leftarrow> scan_d s1;
       s3 \<leftarrow> strip_prefix (ascii '', sum: '') s2;
       f \<leftarrow> a_scan_f io s3;
       Some (n, f)
     }"

text \<open>The buffer of the string has 100 characters.\<close>

definition avg_store :: "agg_io \<Rightarrow> int \<Rightarrow> 32 word \<Rightarrow> Value \<Rightarrow> (RC \<times> Value) cast" where
  "avg_store io n f a = (let s = avg_info io n f in if length s < 100 then Val (SUCCESS, set_string s 0 a) else Abort)"

definition set_from :: "fpu \<Rightarrow> Value \<Rightarrow> Value \<Rightarrow> (RC \<times> Value) cast" where
  "set_from fp v a = (case set_value fp v a of None \<Rightarrow> Abort | Some a' \<Rightarrow> Val (SUCCESS, a'))"

definition aggregate_value :: "fpu \<Rightarrow> agg_io \<Rightarrow> AggregateType \<Rightarrow> Value \<Rightarrow> Value \<Rightarrow> (RC \<times> Value) cast" where
  "aggregate_value fp io ty v a =
     (case ty of
        AGG_SUM \<Rightarrow>
          (if v_type a = NULLS then cast_bind (get_double fp v) (\<lambda>d. Val (SUCCESS, set_float (a_narrow io d) a))
           else cast_bind (get_float fp a) (\<lambda>x. cast_bind (get_float fp v) (\<lambda>y. Val (SUCCESS, set_float (f_add fp x y) a))))
      | AGG_COUNT \<Rightarrow> cast_bind (get_int fp a) (\<lambda>n. Val (SUCCESS, set_int (n + 1) a))
      | AGG_AVG \<Rightarrow>
          (if v_type a = NULLS then cast_bind (get_float fp v) (\<lambda>f. avg_store io 1 f a)
           else cast_bind (get_string fp a)
                  (\<lambda>s. case avg_scan io s of
                         None \<Rightarrow> Abort
                       | Some (n, acc) \<Rightarrow> cast_bind (get_float fp v) (\<lambda>f. avg_store io (n + 1) (f_add fp acc f) a)))
      | AGG_MAX \<Rightarrow>
          (if v_type a = NULLS then set_from fp v a
           else cast_bind (value_compare fp v a) (\<lambda>c. if c > 0 then set_from fp v a else Val (SUCCESS, a)))
      | AGG_MIN \<Rightarrow>
          (if v_type a = NULLS then set_from fp v a
           else cast_bind (value_compare fp v a) (\<lambda>c. if c < 0 then set_from fp v a else Val (SUCCESS, a)))
      | AGG_GROUP \<Rightarrow> (case value_eq fp a v of None \<Rightarrow> Abort | Some b \<Rightarrow> Val (if b then SUCCESS else INTERNAL, a))
      | AGG_INVALID \<Rightarrow> Val (INTERNAL, a))"

type_synonym agg_desc = "AggregateType \<times> Expression \<times> TupleCellSpec"

fun aggregate_tuple :: "sql_env \<Rightarrow> agg_io \<Rightarrow> Tuple \<Rightarrow> agg_desc list \<Rightarrow> Value list \<Rightarrow> (RC \<times> Value list) cast" where
  "aggregate_tuple env io t ((ty, e, spec) # ds) (a # as) =
     on_success (get_value env t e new_value)
       (\<lambda>v. cast_bind (if v_type v = NULLS then Val (SUCCESS, a) else aggregate_value (e_fp env) io ty v a)
              (\<lambda>(rc, a'). if rc \<noteq> SUCCESS then Val (rc, a' # as) else cast_bind (aggregate_tuple env io t ds as) (\<lambda>(rc, as'). Val (rc, a' # as'))))
       (a # as)"
| "aggregate_tuple env io t _ as = Val (SUCCESS, as)"

text \<open>A group value that is missing or left over is an exception.\<close>

fun generate_values :: "agg_desc list \<Rightarrow> Value list \<Rightarrow> Value list option" where
  "generate_values [] gs = (if gs = [] then Some [] else None)"
| "generate_values ((ty, e, spec) # ds) gs =
     (case ty of
        AGG_COUNT \<Rightarrow> map_option ((#) (set_int 0 new_value)) (generate_values ds gs)
      | AGG_GROUP \<Rightarrow> (case gs of [] \<Rightarrow> None | g # gs' \<Rightarrow> map_option ((#) g) (generate_values ds gs'))
      | AGG_INVALID \<Rightarrow> None
      | _ \<Rightarrow> map_option ((#) (set_null new_value)) (generate_values ds gs))"

definition agg_cell_at :: "fpu \<Rightarrow> agg_io \<Rightarrow> agg_desc list \<Rightarrow> Value list \<Rightarrow> int \<Rightarrow> Value \<Rightarrow> (RC \<times> Value) cast" where
  "agg_cell_at fp io ds as i cell =
     (if i < 0 \<or> i \<ge> int (length as) then Val (NOTFOUND, cell)
      else (let v = as ! nat i
            in if fst (ds ! nat i) = AGG_AVG \<and> v_type v \<noteq> NULLS then
                 cast_bind (get_string fp v)
                   (\<lambda>s. case avg_scan io s of None \<Rightarrow> Abort | Some (n, acc) \<Rightarrow> Val (SUCCESS, set_float (f_div fp acc (f_of_int fp n)) cell))
               else Val (SUCCESS, v)))"

definition agg_find_cell :: "fpu \<Rightarrow> agg_io \<Rightarrow> agg_desc list \<Rightarrow> Value list \<Rightarrow> TupleCellSpec \<Rightarrow> Value \<Rightarrow> (RC \<times> Value) cast" where
  "agg_find_cell fp io ds as spec cell =
     (case find_spec (\<lambda>c. cs_alias spec = cs_alias c) (map (snd \<circ> snd) ds) 0 of
        Some i \<Rightarrow> agg_cell_at fp io ds as (int i) cell
      | None \<Rightarrow> Val (NOTFOUND, cell))"

definition agg_tuple :: "fpu \<Rightarrow> agg_io \<Rightarrow> agg_desc list \<Rightarrow> Value list \<Rightarrow> Tuple" where
  "agg_tuple fp io ds as = \<lparr>t_cell_num = length ds, t_cell_at = agg_cell_at fp io ds as, t_find_cell = agg_find_cell fp io ds as,
     t_record = None\<rparr>"

end
