(* ===== verification/SqlLogic.thy ===== *)
theory SqlLogic
  imports SqlExpr
begin

text \<open>
  What expressions mean: conditions follow the logic of three values, \<open>IN\<close> is a disjunction of comparisons, \<open>LIKE\<close> is
  matching with wildcards, and an expression that is evaluated without a tuple has the value it has on every tuple, unless
  it has a conjunction with NULL.
\<close>

section \<open>Truth values\<close>

definition truth :: "fpu \<Rightarrow> Value \<Rightarrow> bool option cast" where
  "truth fp v = (if v_type v = NULLS then Val None else cast_bind (get_boolean fp v) (\<lambda>b. Val (Some b)))"

definition kleene :: "ConjunctionType \<Rightarrow> bool option list \<Rightarrow> bool option" where
  "kleene ty ts =
     (let stop = (ty = CONJ_OR) in if Some stop \<in> set ts then Some stop else if None \<in> set ts then None else Some (\<not> stop))"

text \<open>The logic of a condition, given the truth of its leaves.\<close>

fun logic :: "(Expression \<Rightarrow> bool option) \<Rightarrow> Expression \<Rightarrow> bool option" where
  "logic \<rho> (ConjunctionExpr ty es) = kleene ty (map (logic \<rho>) es)"
| "logic \<rho> (NotExpr e) = map_option Not (logic \<rho> e)"
| "logic \<rho> e = \<rho> e"

fun leaves :: "Expression \<Rightarrow> Expression list" where
  "leaves (ConjunctionExpr ty es) = concat (map leaves es)"
| "leaves (NotExpr e) = leaves e"
| "leaves e = [e]"

fun or_filled :: "Expression \<Rightarrow> bool" where
  "or_filled (ConjunctionExpr ty es) \<longleftrightarrow> (ty = CONJ_OR \<longrightarrow> es \<noteq> []) \<and> (\<forall>e\<in>set es. or_filled e)"
| "or_filled (NotExpr e) \<longleftrightarrow> or_filled e"
| "or_filled e \<longleftrightarrow> True"

lemma bool_value_set [simp]: "bool_value (set_boolean b v) = b"
proof -
  have "(x AND 0xFFFFFF00 OR (if b then 1 else 0)) AND 0xFF = (if b then 1 else 0)" for x :: "32 word"
    by (simp add: bit.conj_disj_distrib2 and.assoc)
  then show ?thesis by (simp add: bool_value_def set_boolean_def)
qed

lemma v_type_set [simp]: "v_type (set_boolean b v) = BOOLEANS" "v_type (set_null v) = NULLS" "v_type (set_int i v) = INTS" "v_type (set_float f v) = FLOATS"
  by (simp_all add: set_boolean_def set_null_def set_int_def set_float_def)

lemma truth_set [simp]: "truth fp (set_boolean b v) = Val (Some b)" "truth fp (set_null v) = Val None"
  by (simp_all add: truth_def get_boolean_def)

lemma truth_cases:
  assumes "truth fp w = Val b"
  shows "b = None \<and> v_type w = NULLS \<or> (\<exists>c. b = Some c \<and> v_type w \<noteq> NULLS \<and> get_boolean fp w = Val c)"
  using assms by (cases "get_boolean fp w") (auto simp: truth_def split: if_splits)

lemma not_result_truth: "truth fp w = Val b \<Longrightarrow> \<exists>r. not_result fp w v = Val (SUCCESS, r) \<and> truth fp r = Val (map_option Not b)"
  by (drule truth_cases) (auto simp: not_result_def or_null_def get_boolean_def)

definition has_truth :: "sql_env \<Rightarrow> Tuple \<Rightarrow> Expression \<Rightarrow> bool option \<Rightarrow> bool" where
  "has_truth env t e b \<longleftrightarrow> (\<forall>v. \<exists>w. get_value env t e v = Val (SUCCESS, w) \<and> truth (e_fp env) w = Val b)"

lemma conjunction_truth:
  assumes "list_all2 (has_truth env t) es bs"
  shows "\<exists>w. get_conjunction env t ty es tmp cn v = Val (SUCCESS, w)
    \<and> truth (e_fp env) w = Val (kleene ty (bs @ (if cn then [None] else [])))"
  using assms
proof (induction es bs arbitrary: tmp cn rule: list_all2_induct)
  case Nil
  then show ?case by (cases ty) (auto simp: kleene_def)
next
  case (Cons e es b bs)
  obtain w where w: "get_value env t e tmp = Val (SUCCESS, w)" "truth (e_fp env) w = Val b" using Cons(1) unfolding has_truth_def by meson
  from truth_cases [OF w(2)] show ?case
  proof (elim disjE exE conjE)
    assume "b = None" "v_type w = NULLS"
    then show ?thesis using w(1) Cons.IH [of w True] by (auto simp: on_success_def kleene_def Let_def split: if_splits)
  next
    fix c assume c: "b = Some c" "v_type w \<noteq> NULLS" "get_boolean (e_fp env) w = Val c"
    then show ?thesis using w(1) Cons.IH [of w cn] by (cases ty; cases c) (auto simp: on_success_def kleene_def Let_def split: if_splits)
  qed
qed

lemma nonempty_truth: "list_all2 (has_truth env t) es bs \<Longrightarrow> es \<noteq> [] \<Longrightarrow> has_truth env t (ConjunctionExpr ty es) (kleene ty bs)"
  using conjunction_truth [of env t es bs ty new_value False] by (simp add: has_truth_def)

lemma logic_truth:
  assumes "\<forall>l\<in>set (leaves e). has_truth env t l (\<rho> l)" "or_filled e"
  shows "has_truth env t e (logic \<rho> e)"
  using assms
proof (induction \<rho> e rule: logic.induct)
  case (1 \<rho> ty es)
  then have c: "\<forall>e\<in>set es. has_truth env t e (logic \<rho> e)" by auto
  show ?case
  proof (cases "es = []")
    case True
    then show ?thesis using 1 by (cases ty) (auto simp: has_truth_def kleene_def)
  next
    case False
    then show ?thesis using nonempty_truth [of env t es "map (logic \<rho>) es" ty] c by (simp add: list_all2_map2 list.rel_refl_strong)
  qed
next
  case (2 \<rho> e)
  then have "has_truth env t e (logic \<rho> e)" by simp
  then obtain w where w: "get_value env t e new_value = Val (SUCCESS, w)" "truth (e_fp env) w = Val (logic \<rho> e)" unfolding has_truth_def by meson
  show ?case unfolding has_truth_def using w(1) not_result_truth [OF w(2)] by (simp add: on_success_def)
qed auto

section \<open>Evaluation without a tuple\<close>

text \<open>No conjunction with AND, no list that comes from a subquery, no negation by a missing operand.\<close>

fun fold_safe :: "Expression \<Rightarrow> bool" where
  "fold_safe (CastExpr e ty) \<longleftrightarrow> fold_safe e"
| "fold_safe (ComparisonExpr op l r) \<longleftrightarrow> fold_safe l \<and> fold_safe r"
| "fold_safe (ConjunctionExpr ty es) \<longleftrightarrow> (es \<noteq> [] \<longrightarrow> ty = CONJ_OR) \<and> (\<forall>e\<in>set es. fold_safe e)"
| "fold_safe (ArithmeticExpr ty l None) \<longleftrightarrow> False"
| "fold_safe (ArithmeticExpr ty l (Some r)) \<longleftrightarrow> fold_safe l \<and> fold_safe r"
| "fold_safe (LikeExpr p e) \<longleftrightarrow> fold_safe e"
| "fold_safe (NotExpr e) \<longleftrightarrow> fold_safe e"
| "fold_safe (InExpr l (Some q) es) \<longleftrightarrow> False"
| "fold_safe (InExpr l None es) \<longleftrightarrow> fold_safe l \<and> (\<forall>e\<in>set es. fold_safe e)"
| "fold_safe (IsNullExpr e) \<longleftrightarrow> fold_safe e"
| "fold_safe (FunctionExpression f ps) \<longleftrightarrow> (\<forall>e\<in>set ps. fold_safe e)"
| "fold_safe e \<longleftrightarrow> True"

lemma on_success_ok: "on_success c f v = Val (SUCCESS, w) \<longleftrightarrow> (\<exists>u. c = Val (SUCCESS, u) \<and> f u = Val (SUCCESS, w))"
  by (cases c) (auto simp: on_success_def split: if_splits)

lemma cast_bind_ok: "cast_bind c f = Val w \<longleftrightarrow> (\<exists>u. c = Val u \<and> f u = Val w)"
  by (cases c) auto

lemma fold_agrees_all:
  "fold_safe e \<Longrightarrow> try_get_value env e v = Val (SUCCESS, w) \<Longrightarrow> get_value env t e v = Val (SUCCESS, w)"
  "ty = CONJ_OR \<Longrightarrow> \<forall>e\<in>set es. fold_safe e \<Longrightarrow> try_conjunction env ty es tmp cn v = Val (SUCCESS, w)
     \<Longrightarrow> get_conjunction env t ty es tmp cn v = Val (SUCCESS, w)"
  "\<forall>e\<in>set es. fold_safe e \<Longrightarrow> try_values env es = Val (SUCCESS, ws) \<Longrightarrow> get_values env t es = Val (SUCCESS, ws)"
proof (induction env e v and env ty es tmp cn v and env es arbitrary: w and w and ws rule: try_get_value_try_conjunction_try_values.induct)
  case (17 env ty e es tmp cn v)
  from "17.prems" obtain u where u: "try_get_value env e tmp = Val (SUCCESS, u)"
    "cast_bind (if v_type u = NULLS then Val False else get_boolean (e_fp env) u)
       (\<lambda>b. if b then Val (SUCCESS, set_boolean b v) else try_conjunction env ty es u (cn \<or> v_type u = NULLS) v) = Val (SUCCESS, w)"
    by (auto simp: on_success_ok)
  have s: "ty = CONJ_OR" "fold_safe e" "\<forall>e\<in>set es. fold_safe e" using "17.prems" by simp_all
  have ih: "get_conjunction env t ty es u (cn \<or> v_type u = NULLS) v = Val (SUCCESS, w)"
    if "try_conjunction env ty es u (cn \<or> v_type u = NULLS) v = Val (SUCCESS, w)" for w
    using "17.IH"(2) [of False u w] s that by simp
  have "get_value env t e tmp = Val (SUCCESS, u)" using "17.IH"(1) s(2) u(1) by blast
  then have g: "get_conjunction env t ty (e # es) tmp cn v =
      (if v_type u = NULLS then get_conjunction env t ty es u True v
       else cast_bind (get_boolean (e_fp env) u) (\<lambda>b. if b then Val (SUCCESS, set_boolean b v) else get_conjunction env t ty es u cn v))"
    unfolding s(1) by (simp add: on_success_def)
  show ?case
  proof (cases "v_type u = NULLS")
    case True
    then have "try_conjunction env ty es u (cn \<or> v_type u = NULLS) v = Val (SUCCESS, w)" using u(2) by simp
    from ih [OF this] show ?thesis unfolding g using True by simp
  next
    case False
    then obtain b where b: "get_boolean (e_fp env) u = Val b"
      "(if b then Val (SUCCESS, set_boolean b v) else try_conjunction env ty es u (cn \<or> v_type u = NULLS) v) = Val (SUCCESS, w)"
      using u(2) unfolding cast_bind_ok by auto
    then show ?thesis unfolding g using False ih by (cases b) simp_all
  qed
qed (auto simp: on_success_ok cast_bind_ok split: if_splits)

section \<open>Patterns\<close>

text \<open>\<open>LIKE\<close>: a percent sign stands for any characters, an underscore for one character, letters match in both cases.\<close>

fun like :: "byte list \<Rightarrow> byte list \<Rightarrow> bool" where
  "like [] s \<longleftrightarrow> s = []"
| "like (c # p) [] \<longleftrightarrow> c = 37 \<and> like p []"
| "like (c # p) (d # s) \<longleftrightarrow>
     (if c = 37 then like p (d # s) \<or> like (c # p) s else (c = 95 \<or> to_lower c = to_lower d) \<and> like p s)"

definition like_item :: "byte \<Rightarrow> item" where
  "like_item c = (if c = 37 then Many Dot else if c = 95 then One Dot else One (Lit c))"

lemma special_chars_eq: "set special_chars = {94, 36, 46, 42, 43, 63, 40, 41, 91, 93, 123, 125, 124, 92}"
  by (simp add: special_chars_def ascii_def)

lemma like_source_hd: "like_source p = [] \<or> hd (like_source p) \<noteq> 42"
  by (cases p) (auto simp: like_source_def special_chars_eq)

lemma regex_item_one: "s = [] \<or> hd s \<noteq> 42 \<Longrightarrow> regex_item a s = map_option ((#) (One a)) (regex_compile s)"
  by (cases s) auto

lemma compile_like: "regex_compile (like_source p) = Some (map like_item p)"
proof (induction p)
  case (Cons c p)
  have s: "like_source (c # p) = (if c \<in> set special_chars then [92, c] else if c = 37 then [46, 42] else if c = 95 then [46] else [c]) @ like_source p"
    by (simp add: like_source_def)
  note r = Cons regex_item_one [OF like_source_hd [of p]]
  show ?case
  proof (cases "c \<in> set special_chars")
    case True
    then have "like_item c = One (Lit c)" by (auto simp: like_item_def special_chars_eq)
    then show ?thesis unfolding s using True r by simp
  next
    case False
    moreover have "c \<noteq> 92" "c \<noteq> 46" using False by (auto simp: special_chars_eq)
    ultimately have c: "regex_compile (c # u) = regex_item (Lit c) u" for u by simp
    consider "c = 37" | "c = 95" | "c \<noteq> 37" "c \<noteq> 95" by blast
    then show ?thesis
    proof cases
      case 1
      then show ?thesis unfolding s using False r by (simp add: like_item_def)
    next
      case 2
      then show ?thesis unfolding s using False r by (simp add: like_item_def)
    next
      case 3
      then have "like_source (c # p) = c # like_source p" using False s by simp
      then have "regex_compile (like_source (c # p)) = map_option ((#) (One (Lit c))) (Some (map like_item p))" by (simp only: c r)
      then show ?thesis using 3 by (simp add: like_item_def)
    qed
  qed
qed (simp add: like_source_def)

lemma regex_match_like: "\<forall>c\<in>set s. \<not> line_end c \<Longrightarrow> regex_match (map like_item p) s = like p s"
proof (induction p s rule: like.induct)
  case (3 c p d s)
  then show ?case by (auto simp: like_item_def)
qed (auto simp: like_item_def)

section \<open>Membership\<close>

definition comparable :: "(Value \<Rightarrow> bool) \<Rightarrow> Value \<Rightarrow> bool" where
  "comparable S v \<longleftrightarrow> S v \<or> v_type v = NULLS"

definition eq3 :: "fpu \<Rightarrow> Value \<Rightarrow> Value \<Rightarrow> bool option" where
  "eq3 fp a b = (if v_type a = NULLS \<or> v_type b = NULLS then None else Some (value_cmp fp a b = 0))"

lemma compare_null_left: "v_type a = NULLS \<Longrightarrow> value_compare fp a b = NullCast"
  by (simp add: value_compare_def is_text_def get_double_def)

lemma compare_null_right: "v_type b = NULLS \<Longrightarrow> v_type a \<noteq> UNDEFINED \<Longrightarrow> value_compare fp a b = NullCast"
  by (cases "v_type a") (simp_all add: value_compare_def is_text_def get_double_def)

lemma less_value_cmp: "value_compare fp a b = Val i \<Longrightarrow> less_value fp a b \<longleftrightarrow> value_cmp fp a b < 0"
  by (simp add: less_value_def value_less_def value_cmp_def)

lemma order_strict_weak:
  assumes "key_order (value_cmp fp) S" "\<And>a b. S a \<Longrightarrow> S b \<Longrightarrow> \<exists>i. value_compare fp a b = Val i" "\<forall>v\<in>set vs. S v"
  shows "strict_weak_order fp vs"
proof -
  note o = key_order.cmp_refl [OF assms(1)] key_order.cmp_flip [OF assms(1)] key_order.cmp_less_le_trans [OF assms(1)] key_order.cmp_trans [OF assms(1)]
  have l: "less_value fp a b \<longleftrightarrow> value_cmp fp a b < 0" if "a \<in> set vs" "b \<in> set vs" for a b
    using assms(2) [of a b] assms(3) that less_value_cmp by blast
  have e: "equiv_value fp a b \<longleftrightarrow> value_cmp fp a b \<le> 0 \<and> value_cmp fp b a \<le> 0" if "a \<in> set vs" "b \<in> set vs" for a b
    using that assms(3) l [of a b] l [of b a] o(2) [of a b] o(2) [of b a] by (auto simp: equiv_value_def)
  have n: "value_less fp a b \<noteq> None" if "a \<in> set vs" "b \<in> set vs" for a b
    using assms(2) [of a b] assms(3) that by (auto simp: value_less_def)
  show ?thesis unfolding strict_weak_order_def
  proof (intro ballI conjI impI)
    show "\<not> less_value fp a a" if "a \<in> set vs" for a using that l o(1) assms(3) by simp
    show "value_less fp a b \<noteq> None" if "a \<in> set vs" "b \<in> set vs" for a b using n that .
    show "less_value fp a c" if "a \<in> set vs" "b \<in> set vs" "c \<in> set vs" "less_value fp a b \<and> less_value fp b c" for a b c
      using that l o(3) [of a b c] assms(3) by simp
    show "equiv_value fp a c" if "a \<in> set vs" "b \<in> set vs" "c \<in> set vs" "equiv_value fp a b \<and> equiv_value fp b c" for a b c
      using that e o(4) [of a b c] o(4) [of c b a] assms(3) by simp
  qed
qed

text \<open>Numbers are one class of values on which the comparison is an order, strings are another.\<close>

definition value_class :: "fpu \<Rightarrow> (Value \<Rightarrow> bool) \<Rightarrow> bool" where
  "value_class fp S \<longleftrightarrow> S = whole_number \<and> fpu_ok fp \<or> S = is_text"

lemma class_order:
  assumes "value_class fp S"
  shows "key_order (value_cmp fp) S" "\<And>a b. S a \<Longrightarrow> S b \<Longrightarrow> \<exists>i. value_compare fp a b = Val i" "\<And>v. S v \<Longrightarrow> whole_number v \<or> is_text v"
  using assms numbers_order texts_order compare_numbers compare_texts by (auto simp: value_class_def)

lemma class_not_null: "value_class fp S \<Longrightarrow> S v \<Longrightarrow> v_type v \<noteq> NULLS"
  by (auto simp: value_class_def whole_number_def is_text_def)

lemma in_values_or:
  assumes "value_class fp S" "comparable S a" "\<forall>w\<in>set ws. comparable S w" "ws \<noteq> []"
  shows "\<exists>r. in_values fp a ws v = Val (SUCCESS, r) \<and> truth fp r = Val (kleene CONJ_OR (map (eq3 fp a) ws))"
proof -
  note k = class_order [OF assms(1)]
  let ?vs = "filter (\<lambda>w. v_type w \<noteq> NULLS) ws"
  have vs: "\<forall>w\<in>set ?vs. S w" using assms(3) by (auto simp: comparable_def)
  have o: "strict_weak_order fp ?vs" using order_strict_weak [OF k(1,2)] vs by blast
  show ?thesis
  proof (cases "v_type a = NULLS")
    case True
    then have "kleene CONJ_OR (map (eq3 fp a) ws) = None" using assms(4) by (cases ws) (auto simp: kleene_def eq3_def)
    then show ?thesis using True o by (simp add: in_values_def is_in_def Let_def)
  next
    case False
    then have a: "S a" using assms(2) by (simp add: comparable_def)
    then have o2: "strict_weak_order fp (a # ?vs)" using order_strict_weak [OF k(1,2), of "a # ?vs"] vs by simp
    have e: "equiv_value fp a w \<longleftrightarrow> eq3 fp a w = Some True" if "w \<in> set ?vs" for w
    proof -
      have w: "S w" "v_type w \<noteq> NULLS" using vs that by auto
      have "less_value fp a w \<longleftrightarrow> value_cmp fp a w < 0" "less_value fp w a \<longleftrightarrow> value_cmp fp w a < 0"
        using k(2) [OF a w(1)] k(2) [OF w(1) a] less_value_cmp by blast+
      then show ?thesis using key_order.cmp_flip [OF k(1) w(1) a] w(2) False by (auto simp: equiv_value_def eq3_def)
    qed
    have "(\<exists>w\<in>set ?vs. equiv_value fp a w) \<longleftrightarrow> Some True \<in> set (map (eq3 fp a) ws)" using e by (auto simp: eq3_def)
    moreover have "(\<exists>w\<in>set ws. v_type w = NULLS) \<longleftrightarrow> None \<in> set (map (eq3 fp a) ws)" using False by (auto simp: eq3_def)
    ultimately show ?thesis using False o o2 by (simp add: in_values_def is_in_def Let_def kleene_def)
  qed
qed

lemma equality_truth:
  assumes "value_class (e_fp env) S" "get_value env t l new_value = Val (SUCCESS, a)" "get_value env t e new_value = Val (SUCCESS, w)" "comparable S a" "comparable S w"
  shows "has_truth env t (ComparisonExpr EQUAL_TO l e) (eq3 (e_fp env) a w)"
proof -
  have r: "get_value env t (ComparisonExpr EQUAL_TO l e) v = comparison_result (e_fp env) EQUAL_TO a w v" for v
    using assms(2,3) by (simp add: on_success_def)
  show ?thesis
  proof (cases "v_type a = NULLS \<or> v_type w = NULLS")
    case True
    have "v_type a \<noteq> UNDEFINED"
      using assms(4) class_order(3) [OF assms(1), of a] by (auto simp: comparable_def whole_number_def is_text_def)
    then have "value_compare (e_fp env) a w = NullCast" using True compare_null_left compare_null_right by blast
    then show ?thesis unfolding has_truth_def r using True by (simp add: comparison_result_def compare_value_def eq3_def)
  next
    case False
    then obtain i where "value_compare (e_fp env) a w = Val i" using assms(4,5) class_order(2) [OF assms(1), of a w] by (auto simp: comparable_def)
    then show ?thesis unfolding has_truth_def r using False by (simp add: comparison_result_def compare_value_def comp_holds_def eq3_def value_cmp_def)
  qed
qed

lemma get_values_all:
  "list_all2 (\<lambda>e w. get_value env t e new_value = Val (SUCCESS, w)) es ws \<Longrightarrow> get_values env t es = Val (SUCCESS, ws)"
  by (induction es ws rule: list_all2_induct) (simp_all add: on_success_def)

section \<open>Properties\<close>

text \<open>
  C23: A condition follows the logic of three values: when its comparisons and other leaves have truth values, NULL among them,
  evaluating it succeeds and gives the value that AND, OR and NOT have in Kleene's logic.
\<close>

theorem condition_logic:
  assumes "\<forall>l\<in>set (leaves e). has_truth env t l (\<rho> l)" "or_filled e"
  shows "\<exists>w. get_value env t e v = Val (SUCCESS, w) \<and> truth (e_fp env) w = Val (logic \<rho> e)"
  using logic_truth [OF assms] by (simp add: has_truth_def)


text \<open>
  C29: \<open>LIKE\<close> matches with wildcards: whatever the pattern, the regular expression built from it is accepted, and on a string
  without ends of lines it matches as the pattern does.
\<close>

theorem like_matches:
  assumes "get_value env t e new_value = Val (SUCCESS, w)" "get_string (e_fp env) w = Val s" "\<forall>c\<in>set s. \<not> line_end c"
  shows "\<exists>x. new_like_expr p e = Some x \<and> get_value env t x v = Val (SUCCESS, set_boolean (like p s) v)"
  using assms regex_match_like [OF assms(3)] by (simp add: new_like_expr_def compile_like on_success_def like_result_def or_null_def)

text \<open>
  An expression that can be evaluated without a tuple has that value on every tuple, when it has no conjunction with AND
  and no subquery.
\<close>

lemma fold_agrees:
  assumes "fold_safe e" "try_get_value env e v = Val (SUCCESS, w)"
  shows "get_value env t e v = Val (SUCCESS, w)"
  using fold_agrees_all(1) assms by blast

text \<open>
  Evaluated without a tuple, \<open>NULL AND TRUE\<close> is FALSE, so that \<open>NOT (NULL AND TRUE)\<close> is TRUE; evaluated on a tuple, it is NULL.
\<close>

lemma folded_null_conjunction:
  assumes "v_type n = NULLS" "truth (e_fp env) b = Val (Some True)"
  shows "let e = NotExpr (ConjunctionExpr CONJ_AND [ValueExpr n, ValueExpr b])
    in try_get_value env e v = Val (SUCCESS, set_boolean True v) \<and> get_value env t e v = Val (SUCCESS, set_null v)"
proof -
  have "v_type b \<noteq> NULLS" "get_boolean (e_fp env) b = Val True" using truth_cases [OF assms(2)] by auto
  then show ?thesis using assms(1) by (simp add: Let_def on_success_def not_result_def or_null_def get_boolean_def)
qed

section \<open>Witnesses\<close>

definition ex_rounding :: rounding where
  "ex_rounding = \<lparr>r_pow10 = (\<lambda>n. 10 ^ nat n), r_minus_half = id, r_above_eps = (\<lambda>f. f \<noteq> 0)\<rparr>"

definition ex_env :: sql_env where
  "ex_env = \<lparr>e_fp = ex_fpu, e_rd = ex_rounding, e_arr = (\<lambda>s. None)\<rparr>"

definition ex_tuple :: Tuple where
  "ex_tuple = \<lparr>t_cell_num = 0, t_cell_at = (\<lambda>i v. Val (NOTFOUND, v)), t_find_cell = (\<lambda>c v. Val (NOTFOUND, v)), t_record = None\<rparr>"

definition null_expr :: Expression where
  "null_expr = ValueExpr (set_null new_value)"

definition int_expr :: "int \<Rightarrow> Expression" where
  "int_expr i = ValueExpr (set_int i new_value)"

lemma const_truth: "has_truth env t null_expr None" "sint (word_of_int i :: 32 word) \<noteq> 0 \<Longrightarrow> has_truth env t (int_expr i) (Some True)"
  by (simp_all add: has_truth_def null_expr_def int_expr_def truth_def get_boolean_def set_int_def)

theorem condition_logic_witness:
  "\<exists>w. get_value ex_env ex_tuple (NotExpr (ConjunctionExpr CONJ_AND [null_expr, int_expr 1])) new_value = Val (SUCCESS, w) \<and> truth (e_fp ex_env) w = Val None"
proof -
  let ?\<rho> = "\<lambda>e. if e = null_expr then None else Some True"
  have n: "int_expr 1 \<noteq> null_expr" by (simp add: int_expr_def null_expr_def set_int_def set_null_def new_value_def)
  have l: "logic ?\<rho> null_expr = ?\<rho> null_expr" "logic ?\<rho> (int_expr 1) = ?\<rho> (int_expr 1)" "leaves null_expr = [null_expr]" "leaves (int_expr 1) = [int_expr 1]"
    "or_filled null_expr" "or_filled (int_expr 1)" by (simp_all add: null_expr_def int_expr_def)
  show ?thesis
    using condition_logic [of "NotExpr (ConjunctionExpr CONJ_AND [null_expr, int_expr 1])" ex_env ex_tuple ?\<rho> new_value] const_truth n l
    by (simp add: kleene_def)
qed


theorem like_matches_witness:
  "\<exists>x. new_like_expr (ascii ''a%_b'') (ValueExpr (set_string (ascii ''Axyb'') 0 new_value)) = Some x
    \<and> get_value ex_env ex_tuple x new_value = Val (SUCCESS, set_boolean True new_value)"
proof -
  let ?w = "set_string (ascii ''Axyb'') 0 new_value"
  have s: "get_string (e_fp ex_env) ?w = Val (ascii ''Axyb'')" "\<forall>c\<in>set (ascii ''Axyb''). \<not> line_end c" "like (ascii ''a%_b'') (ascii ''Axyb'')"
    by (simp_all add: get_string_def value_to_string_def set_string_def c_str_def ascii_def line_end_def to_lower_def Let_def)
  show ?thesis using like_matches [OF _ s(1,2), of ex_tuple "ValueExpr ?w" "ascii ''a%_b''" new_value] s(3) by simp
qed

end
