(* ===== verification/SqlOperator.thy ===== *)
theory SqlOperator
  imports SqlTuple SqlLogic
begin

text \<open>
  Physical operators: \<^verbatim>\<open>src/observer/sql/operator/*_physical_operator.cpp\<close>. An operator is the record of its four virtual functions on
  its state; an operator with children takes the records of its children. A call that does not return, because it throws,
  aborts or loops for ever, is \<open>None\<close>. A tuple that an operator hands out is a pointer into its state, so it is read off the
  state at the time it is used.
\<close>

section \<open>The interface\<close>

record 's oper =
  o_open :: "'s \<Rightarrow> (RC \<times> 's) option"
  o_next :: "'s \<Rightarrow> (RC \<times> 's) option"
  o_close :: "'s \<Rightarrow> (RC \<times> 's) option"
  o_tuple :: "'s \<Rightarrow> Tuple option"

definition returned :: "'a cast \<Rightarrow> 'a option" where
  "returned c = (case c of Val a \<Rightarrow> Some a | _ \<Rightarrow> None)"

section \<open>Scans\<close>

text \<open>
  \<open>scan_filter\<close> tests the predicates that were pushed down to a scan; they share one value. The table scan takes NULL as false;
  the index scan does not catch the exception that reading NULL throws (\<open>caught\<close>).
\<close>

fun scan_filter :: "bool \<Rightarrow> sql_env \<Rightarrow> Expression list \<Rightarrow> Tuple \<Rightarrow> Value \<Rightarrow> (RC \<times> bool) option" where
  "scan_filter caught env [] t v = Some (SUCCESS, True)"
| "scan_filter caught env (e # es) t v =
     Option.bind (returned (get_value env t e v))
       (\<lambda>(rc, w). if rc \<noteq> SUCCESS then Some (rc, False)
                  else Option.bind (case get_boolean (e_fp env) w of Val b \<Rightarrow> Some b | NullCast \<Rightarrow> if caught then Some False else None | Abort \<Rightarrow> None)
                         (\<lambda>b. if \<not> b then Some (SUCCESS, False) else scan_filter caught env es t w))"

record scan =
  sc_rest :: "Record list"
  sc_current :: "Record"

text \<open>
  A table is scanned for the records that its record scanner returns; \<open>opened\<close> is the outcome of opening that scanner, \<open>visit\<close> what
  the transaction says of a record, which it may fill in.
\<close>

record table_source =
  ts_meta :: TableMeta
  ts_texts :: TextStorage
  ts_visit :: "Record \<Rightarrow> RC \<times> Record"
  ts_opened :: "RC \<times> Record list"

fun table_scan_next :: "sql_env \<Rightarrow> table_source \<Rightarrow> Expression list \<Rightarrow> Record \<Rightarrow> Record list \<Rightarrow> (RC \<times> scan) option" where
  "table_scan_next env src preds cur [] = Some (RECORD_EOF, \<lparr>sc_rest = [], sc_current = cur\<rparr>)"
| "table_scan_next env src preds cur (r # rs) =
     (case ts_visit src r of
        (rc, r') \<Rightarrow>
          if rc = RECORD_INVISIBLE then table_scan_next env src preds r' rs
          else (case scan_filter True env preds (row_tuple (ts_meta src) (ts_texts src) r') new_value of
                  None \<Rightarrow> None
                | Some (rc, b) \<Rightarrow>
                    if rc \<noteq> SUCCESS then Some (rc, \<lparr>sc_rest = rs, sc_current = r'\<rparr>)
                    else if b then Some (SUCCESS, \<lparr>sc_rest = rs, sc_current = r'\<rparr>)
                    else table_scan_next env src preds r' rs))"

definition scan_open :: "RC \<times> Record list \<Rightarrow> scan \<Rightarrow> (RC \<times> scan) option" where
  "scan_open opened s = Some (fst opened, if fst opened = SUCCESS then s\<lparr>sc_rest := snd opened\<rparr> else s)"

definition table_scan :: "sql_env \<Rightarrow> table_source \<Rightarrow> Expression list \<Rightarrow> scan oper" where
  "table_scan env src preds =
     \<lparr>o_open = scan_open (ts_opened src),
      o_next = (\<lambda>s. table_scan_next env src preds (sc_current s) (sc_rest s)),
      o_close = (\<lambda>s. Some (SUCCESS, s)),
      o_tuple = (\<lambda>s. Some (row_tuple (ts_meta src) (ts_texts src) (sc_current s)))\<rparr>"

text \<open>An index scan: the scanner of the index returns record identifiers, and \<open>fetch\<close> gets their records.\<close>

record 'r index_scan_state =
  ix_rest :: "'r list"
  ix_current :: "Record"

fun index_scan_next ::
  "sql_env \<Rightarrow> table_source \<Rightarrow> ('r \<Rightarrow> RC \<times> Record) \<Rightarrow> Expression list \<Rightarrow> Record \<Rightarrow> 'r list \<Rightarrow> (RC \<times> 'r index_scan_state) option" where
  "index_scan_next env src fetch preds cur [] = Some (RECORD_EOF, \<lparr>ix_rest = [], ix_current = cur\<rparr>)"
| "index_scan_next env src fetch preds cur (r # rs) =
     (let (rc, rec) = fetch r; (rc1, rec1) = ts_visit src rec
      in if rc \<noteq> SUCCESS then Some (rc, \<lparr>ix_rest = rs, ix_current = rec\<rparr>)
         else if rc1 = RECORD_INVISIBLE then index_scan_next env src fetch preds rec1 rs
         else (case scan_filter False env preds (row_tuple (ts_meta src) (ts_texts src) rec1) new_value of
                 None \<Rightarrow> None
               | Some (rc2, b) \<Rightarrow>
                   if rc2 \<noteq> SUCCESS then Some (rc2, \<lparr>ix_rest = rs, ix_current = rec1\<rparr>)
                   else if \<not> b then index_scan_next env src fetch preds rec1 rs
                   else (let (rc3, rec3) = ts_visit src rec1
                         in if rc3 = RECORD_INVISIBLE then index_scan_next env src fetch preds rec3 rs
                            else Some (rc3, \<lparr>ix_rest = rs, ix_current = rec3\<rparr>))))"

text \<open>\<open>scanner\<close> is what the index scanner returns for the two bounds, \<open>None\<close> when it cannot be created.\<close>

definition index_scan :: "sql_env \<Rightarrow> table_source \<Rightarrow> ('r \<Rightarrow> RC \<times> Record) \<Rightarrow> 'r list option \<Rightarrow> Expression list \<Rightarrow> 'r index_scan_state oper" where
  "index_scan env src fetch scanner preds =
     \<lparr>o_open = (\<lambda>s. case scanner of None \<Rightarrow> Some (INTERNAL, s) | Some rids \<Rightarrow> Some (SUCCESS, s\<lparr>ix_rest := rids\<rparr>)),
      o_next = (\<lambda>s. index_scan_next env src fetch preds (ix_current s) (ix_rest s)),
      o_close = (\<lambda>s. Some (SUCCESS, s\<lparr>ix_rest := []\<rparr>)),
      o_tuple = (\<lambda>s. Some (row_tuple (ts_meta src) (ts_texts src) (ix_current s)))\<rparr>"

section \<open>Predicates\<close>

text \<open>Whether the row is wanted; NULL counts as false.\<close>

definition row_wanted :: "sql_env \<Rightarrow> Expression \<Rightarrow> Tuple option \<Rightarrow> (RC \<times> bool) option" where
  "row_wanted env e tuple =
     (case tuple of
        None \<Rightarrow> Some (INTERNAL, False)
      | Some t \<Rightarrow>
          Option.bind (returned (get_value env t e new_value))
            (\<lambda>(rc, v). if rc \<noteq> SUCCESS then Some (rc, False)
                       else (case get_boolean (e_fp env) v of Val b \<Rightarrow> Some (SUCCESS, b) | NullCast \<Rightarrow> Some (SUCCESS, False) | Abort \<Rightarrow> None)))"

partial_function (option) predicate_next :: "sql_env \<Rightarrow> Expression \<Rightarrow> 's oper \<Rightarrow> 's \<Rightarrow> (RC \<times> 's) option" where
  "predicate_next env e child s =
     Option.bind (o_next child s)
       (\<lambda>(rc, s'). if rc \<noteq> SUCCESS then Some (rc, s')
                   else Option.bind (row_wanted env e (o_tuple child s'))
                          (\<lambda>(rc, b). if rc \<noteq> SUCCESS \<or> b then Some (rc, s') else predicate_next env e child s'))"

definition predicate_oper :: "sql_env \<Rightarrow> Expression \<Rightarrow> 's oper \<Rightarrow> 's oper" where
  "predicate_oper env e child =
     \<lparr>o_open = o_open child,
      o_next = predicate_next env e child,
      o_close = (\<lambda>s. map_option (\<lambda>(rc, s'). (SUCCESS, s')) (o_close child s)),
      o_tuple = o_tuple child\<rparr>"

section \<open>Nested loop join\<close>

record ('l, 'r) join =
  j_left :: 'l
  j_right :: 'r
  j_round_done :: bool
  j_right_closed :: bool

definition join_open :: "'l oper \<Rightarrow> ('l, 'r) join \<Rightarrow> (RC \<times> ('l, 'r) join) option" where
  "join_open left s =
     (let s1 = s\<lparr>j_right_closed := True, j_round_done := True\<rparr>
      in map_option (\<lambda>(rc, l). (rc, s1\<lparr>j_left := l\<rparr>)) (o_open left (j_left s1)))"

definition join_left_next :: "'l oper \<Rightarrow> ('l, 'r) join \<Rightarrow> (RC \<times> ('l, 'r) join) option" where
  "join_left_next left s =
     Option.bind (o_next left (j_left s))
       (\<lambda>(rc, l). Some (rc, s\<lparr>j_left := l\<rparr>))"

text \<open>The right child is closed and opened again at the beginning of each round.\<close>

definition join_right_open :: "'r oper \<Rightarrow> ('l, 'r) join \<Rightarrow> (RC \<times> ('l, 'r) join) option" where
  "join_right_open right s =
     (if \<not> j_round_done s then Some (SUCCESS, s)
      else Option.bind (if j_right_closed s then Some (SUCCESS, j_right s) else o_close right (j_right s))
             (\<lambda>(rc, r). let s1 = s\<lparr>j_right := r, j_right_closed := True\<rparr>
                        in if rc \<noteq> SUCCESS then Some (rc, s1)
                           else Option.bind (o_open right r)
                                  (\<lambda>(rc, r'). if rc \<noteq> SUCCESS then Some (rc, s1\<lparr>j_right := r'\<rparr>)
                                              else Some (SUCCESS, s1\<lparr>j_right := r', j_right_closed := False, j_round_done := False\<rparr>))))"

definition join_right_next :: "'r oper \<Rightarrow> ('l, 'r) join \<Rightarrow> (RC \<times> ('l, 'r) join) option" where
  "join_right_next right s =
     Option.bind (join_right_open right s)
       (\<lambda>(rc, s1). if rc \<noteq> SUCCESS then Some (rc, s1)
                   else Option.bind (o_next right (j_right s1))
                          (\<lambda>(rc, r). Some (rc, if rc = RECORD_EOF then s1\<lparr>j_right := r, j_round_done := True\<rparr> else s1\<lparr>j_right := r\<rparr>)))"

text \<open>
  A step of the left child. The flag \<open>left_need_step\<close> is true whenever the code comes to its test: the round is done, before or
  after the call on the right child.
\<close>

definition join_step :: "'l oper \<Rightarrow> 'r oper \<Rightarrow> ('l, 'r) join \<Rightarrow> (RC \<times> ('l, 'r) join) option" where
  "join_step left right s =
     Option.bind (join_left_next left s)
       (\<lambda>(rc, s1). if rc \<noteq> SUCCESS then Some (rc, s1) else join_right_next right s1)"

definition join_next :: "'l oper \<Rightarrow> 'r oper \<Rightarrow> ('l, 'r) join \<Rightarrow> (RC \<times> ('l, 'r) join) option" where
  "join_next left right s =
     (if j_round_done s then join_step left right s
      else Option.bind (join_right_next right s)
             (\<lambda>(rc, s1). if rc = RECORD_EOF then join_step left right s1 else Some (rc, s1)))"

definition join_close :: "'l oper \<Rightarrow> 'r oper \<Rightarrow> ('l, 'r) join \<Rightarrow> (RC \<times> ('l, 'r) join) option" where
  "join_close left right s =
     Option.bind (o_close left (j_left s))
       (\<lambda>(rc, l). let s1 = s\<lparr>j_left := l\<rparr>
                  in if j_right_closed s1 then Some (rc, s1)
                     else Option.bind (o_close right (j_right s1))
                            (\<lambda>(rc, r). Some (rc, if rc \<noteq> SUCCESS then s1\<lparr>j_right := r\<rparr> else s1\<lparr>j_right := r, j_right_closed := True\<rparr>)))"

definition join_tuple :: "'l oper \<Rightarrow> 'r oper \<Rightarrow> ('l, 'r) join \<Rightarrow> Tuple option" where
  "join_tuple left right s = Option.bind (o_tuple left (j_left s)) (\<lambda>l. map_option (joined_tuple l) (o_tuple right (j_right s)))"

definition nested_loop_join :: "'l oper \<Rightarrow> 'r oper \<Rightarrow> ('l, 'r) join oper" where
  "nested_loop_join left right =
     \<lparr>o_open = join_open left, o_next = join_next left right, o_close = join_close left right, o_tuple = join_tuple left right\<rparr>"

section \<open>Equality join\<close>

text \<open>
  The rows of the left child are copied into a \<open>std::multimap\<close> by their key; it is the list of its entries in the order of
  insertion, which is the order of entries with equivalent keys. Keys that the comparison does not order are undefined
  behaviour. \<open>q_range\<close> are the entries between the two iterators.
\<close>

record ('l, 'r) eq_join =
  q_left :: 'l
  q_right :: 'r
  q_table :: "(Value \<times> Tuple) list"
  q_range :: "Tuple list"

definition eq_entry :: "sql_env \<Rightarrow> Expression \<Rightarrow> TupleCellSpec list \<Rightarrow> Tuple option \<Rightarrow> Value \<Rightarrow> (RC \<times> Value \<times> Tuple option) option" where
  "eq_entry env e specs tuple key =
     Option.bind tuple
       (\<lambda>t. Option.bind (returned (clone_tuple specs t))
              (\<lambda>(rc, cache). case cache of
                               None \<Rightarrow> Some (rc, key, None)
                             | Some c \<Rightarrow>
                                 Option.bind (returned (get_value env c e key))
                                   (\<lambda>(rc, v). Some (rc, v, if rc \<noteq> SUCCESS then None else Some c))))"

definition table_insert :: "fpu \<Rightarrow> Value \<Rightarrow> Tuple \<Rightarrow> (Value \<times> Tuple) list \<Rightarrow> (Value \<times> Tuple) list option" where
  "table_insert fp v c table = (if strict_weak_order fp (v # map fst table) then Some (table @ [(v, c)]) else None)"

definition equal_range :: "fpu \<Rightarrow> Value \<Rightarrow> (Value \<times> Tuple) list \<Rightarrow> Tuple list option" where
  "equal_range fp v table =
     (if strict_weak_order fp (v # map fst table) then Some (map snd (filter (\<lambda>(k, c). equiv_value fp k v) table)) else None)"

partial_function (option) eq_build ::
  "sql_env \<Rightarrow> Expression \<Rightarrow> TupleCellSpec list \<Rightarrow> 'l oper \<Rightarrow> Value \<Rightarrow> 'l \<Rightarrow> (Value \<times> Tuple) list \<Rightarrow> (RC \<times> 'l \<times> (Value \<times> Tuple) list) option" where
  "eq_build env e specs left key l table =
     Option.bind (o_next left l)
       (\<lambda>(rc, l'). if rc \<noteq> SUCCESS then Some (rc, l', table)
                   else Option.bind (eq_entry env e specs (o_tuple left l') key)
                          (\<lambda>(rc, v, c). if c = None then Some (rc, l', table)
                                        else Option.bind (table_insert (e_fp env) v (the c) table) (eq_build env e specs left v l')))"

definition generate_hash_table :: "sql_env \<Rightarrow> Expression \<Rightarrow> TupleCellSpec list \<Rightarrow> 'l oper \<Rightarrow> ('l, 'r) eq_join \<Rightarrow> (RC \<times> ('l, 'r) eq_join) option" where
  "generate_hash_table env e specs left s =
     Option.bind (o_open left (q_left s))
       (\<lambda>(rc, l). if rc \<noteq> SUCCESS then Some (rc, s\<lparr>q_left := l\<rparr>)
                  else Option.bind (eq_build env e specs left new_value l (q_table s))
                         (\<lambda>(rc, l', table). Some (if rc \<noteq> RECORD_EOF then rc else SUCCESS, s\<lparr>q_left := l', q_table := table\<rparr>)))"

definition eq_open :: "sql_env \<Rightarrow> Expression \<Rightarrow> TupleCellSpec list \<Rightarrow> 'l oper \<Rightarrow> 'r oper \<Rightarrow> ('l, 'r) eq_join \<Rightarrow> (RC \<times> ('l, 'r) eq_join) option" where
  "eq_open env e specs left right s =
     (let s1 = s\<lparr>q_range := []\<rparr>
      in Option.bind (o_open right (q_right s1))
           (\<lambda>(rc, r). let s2 = s1\<lparr>q_right := r\<rparr> in if rc \<noteq> SUCCESS then Some (rc, s2) else generate_hash_table env e specs left s2))"

definition fetch_next_tuple_in_range :: "('l, 'r) eq_join \<Rightarrow> RC \<times> ('l, 'r) eq_join" where
  "fetch_next_tuple_in_range s =
     (if q_range s = [] then (RECORD_EOF, s)
      else (let s1 = s\<lparr>q_range := tl (q_range s)\<rparr> in (if q_range s1 = [] then RECORD_EOF else SUCCESS, s1)))"

partial_function (option) fetch_next_tuple_in_table ::
  "sql_env \<Rightarrow> Expression \<Rightarrow> 'r oper \<Rightarrow> Value \<Rightarrow> ('l, 'r) eq_join \<Rightarrow> (RC \<times> ('l, 'r) eq_join) option" where
  "fetch_next_tuple_in_table env e right key s =
     Option.bind (o_next right (q_right s))
       (\<lambda>(rc, r). if rc \<noteq> SUCCESS then Some (rc, s\<lparr>q_right := r\<rparr>)
                  else Option.bind (o_tuple right r)
                         (\<lambda>t. Option.bind (returned (get_value env t e key))
                                (\<lambda>(rc, v). if rc \<noteq> SUCCESS then Some (rc, s\<lparr>q_right := r\<rparr>)
                                           else Option.bind (equal_range (e_fp env) v (q_table s))
                                                  (\<lambda>range. if range \<noteq> [] then Some (SUCCESS, s\<lparr>q_right := r, q_range := range\<rparr>)
                                                           else fetch_next_tuple_in_table env e right v (s\<lparr>q_right := r, q_range := []\<rparr>)))))"

definition eq_next :: "sql_env \<Rightarrow> Expression \<Rightarrow> 'r oper \<Rightarrow> ('l, 'r) eq_join \<Rightarrow> (RC \<times> ('l, 'r) eq_join) option" where
  "eq_next env e right s =
     (let (rc, s1) = fetch_next_tuple_in_range s
      in if rc \<noteq> RECORD_EOF then Some (rc, s1) else fetch_next_tuple_in_table env e right new_value s1)"

definition eq_close :: "'r oper \<Rightarrow> ('l, 'r) eq_join \<Rightarrow> (RC \<times> ('l, 'r) eq_join) option" where
  "eq_close right s =
     Option.bind (o_close right (q_right s))
       (\<lambda>(rc, r). Some (rc, if rc \<noteq> SUCCESS then s\<lparr>q_right := r\<rparr> else s\<lparr>q_right := r, q_table := []\<rparr>))"

definition eq_tuple :: "'r oper \<Rightarrow> ('l, 'r) eq_join \<Rightarrow> Tuple option" where
  "eq_tuple right s = (case q_range s of [] \<Rightarrow> None | c # cs \<Rightarrow> map_option (joined_tuple c) (o_tuple right (q_right s)))"

definition rb_tree_eq_join :: "sql_env \<Rightarrow> Expression \<Rightarrow> Expression \<Rightarrow> TupleCellSpec list \<Rightarrow> 'l oper \<Rightarrow> 'r oper \<Rightarrow> ('l, 'r) eq_join oper" where
  "rb_tree_eq_join env left_expr right_expr specs left right =
     \<lparr>o_open = eq_open env left_expr specs left right, o_next = eq_next env right_expr right, o_close = eq_close right, o_tuple = eq_tuple right\<rparr>"

section \<open>Projection and aggregation\<close>

text \<open>Without a child, a projection is a \<open>SELECT\<close> of constants: one row, evaluated on a tuple without cells.\<close>

record 's project =
  p_child :: 's
  p_const_eof :: bool

definition on_child :: "('s \<Rightarrow> (RC \<times> 's) option) \<Rightarrow> 's project \<Rightarrow> (RC \<times> 's project) option" where
  "on_child f s = map_option (\<lambda>(rc, c). (rc, s\<lparr>p_child := c\<rparr>)) (f (p_child s))"

definition project_oper :: "sql_env \<Rightarrow> Expression list \<Rightarrow> TupleCellSpec list \<Rightarrow> 's oper option \<Rightarrow> 's project oper" where
  "project_oper env exprs schema child =
     (case child of
        None \<Rightarrow>
          \<lparr>o_open = (\<lambda>s. Some (SUCCESS, s)),
           o_next = (\<lambda>s. if \<not> p_const_eof s then Some (SUCCESS, s\<lparr>p_const_eof := True\<rparr>) else Some (RECORD_EOF, s)),
           o_close = (\<lambda>s. Some (SUCCESS, s)),
           o_tuple = (\<lambda>s. Some (project_tuple env exprs schema (Some (value_list_tuple []))))\<rparr>
      | Some c \<Rightarrow>
          \<lparr>o_open = on_child (o_open c),
           o_next = on_child (o_next c),
           o_close = on_child (o_close c),
           o_tuple = (\<lambda>s. Some (project_tuple env exprs schema (o_tuple c (p_child s))))\<rparr>)"

text \<open>
  The list of expressions to group by is a member of the operator that nothing fills: there is at most one group, and it is
  made when the first row comes.
\<close>

record 's group =
  g_child :: 's
  g_tuples :: "Value list list"
  g_index :: int

partial_function (option) group_rows ::
  "sql_env \<Rightarrow> agg_io \<Rightarrow> agg_desc list \<Rightarrow> 's oper \<Rightarrow> Value list option \<Rightarrow> 's \<Rightarrow> (RC \<times> Value list option \<times> 's) option" where
  "group_rows env io ds child g c =
     Option.bind (o_next child c)
       (\<lambda>(rc, c'). if rc \<noteq> SUCCESS then Some (rc, g, c')
                   else Option.bind (o_tuple child c')
                          (\<lambda>t. Option.bind (if g = None then generate_values ds [] else g)
                                 (\<lambda>as. Option.bind (returned (aggregate_tuple env io t ds as))
                                         (\<lambda>(rc, as'). if rc \<noteq> SUCCESS then Some (rc, Some as', c') else group_rows env io ds child (Some as') c'))))"

definition group_open :: "sql_env \<Rightarrow> agg_io \<Rightarrow> agg_desc list \<Rightarrow> 's oper \<Rightarrow> 's group \<Rightarrow> (RC \<times> 's group) option" where
  "group_open env io ds child s =
     Option.bind (o_open child (g_child s))
       (\<lambda>(rc, c). if rc \<noteq> SUCCESS then Some (rc, s\<lparr>g_child := c\<rparr>)
                  else Option.bind (group_rows env io ds child None c)
                         (\<lambda>(rc, g, c'). if rc \<noteq> RECORD_EOF then Some (rc, s\<lparr>g_child := c'\<rparr>)
                                        else Option.bind (case g of None \<Rightarrow> if g_tuples s = [] then map_option (\<lambda>as. [as]) (generate_values ds []) else Some []
                                                                  | Some as \<Rightarrow> Some [as])
                                               (\<lambda>new. map_option (\<lambda>(rc, c''). (rc, s\<lparr>g_child := c'', g_tuples := g_tuples s @ new\<rparr>)) (o_close child c'))))"

definition group_next :: "'s group \<Rightarrow> (RC \<times> 's group) option" where
  "group_next s = Some (if g_index s + 1 < int (length (g_tuples s)) then (SUCCESS, s\<lparr>g_index := g_index s + 1\<rparr>) else (RECORD_EOF, s))"

definition group_close :: "'s group \<Rightarrow> (RC \<times> 's group) option" where
  "group_close s = Some (SUCCESS, s\<lparr>g_tuples := [], g_index := -1\<rparr>)"

definition group_tuple :: "sql_env \<Rightarrow> agg_io \<Rightarrow> agg_desc list \<Rightarrow> 's group \<Rightarrow> Tuple option" where
  "group_tuple env io ds s =
     (if g_index s < 0 \<or> g_index s \<ge> int (length (g_tuples s)) then None
      else Some (agg_tuple (e_fp env) io ds (g_tuples s ! nat (g_index s))))"

definition group_oper :: "sql_env \<Rightarrow> agg_io \<Rightarrow> agg_desc list \<Rightarrow> 's oper \<Rightarrow> 's group oper" where
  "group_oper env io ds child =
     \<lparr>o_open = group_open env io ds child, o_next = group_next, o_close = group_close, o_tuple = group_tuple env io ds\<rparr>"

end
