(* ===== verification/SqlRows.thy ===== *)
theory SqlRows
  imports SqlOperator
begin

text \<open>
  The rows that operators deliver. An operator is a source of rows when, opened from an idle state, it returns the rows one by
  one, then the end, and can be closed at any time, which makes it idle again. A predicate is a source of the rows it holds
  for, a nested loop join of all pairs, an equality join of the pairs with equal keys.
\<close>

section \<open>Sources of rows\<close>

definition closes :: "'s oper \<Rightarrow> ('s \<Rightarrow> bool) \<Rightarrow> 's \<Rightarrow> bool" where
  "closes op idle s \<longleftrightarrow> (\<exists>s'. o_close op s = Some (SUCCESS, s') \<and> idle s')"

inductive delivers :: "'s oper \<Rightarrow> ('s \<Rightarrow> bool) \<Rightarrow> 's \<Rightarrow> Tuple list \<Rightarrow> bool" for op :: "'s oper" and idle :: "'s \<Rightarrow> bool" where
  deliver_end: "closes op idle s \<Longrightarrow> o_next op s = Some (RECORD_EOF, s') \<Longrightarrow> closes op idle s' \<Longrightarrow> delivers op idle s []"
| deliver_row: "closes op idle s \<Longrightarrow> o_next op s = Some (SUCCESS, s') \<Longrightarrow> o_tuple op s' = Some t \<Longrightarrow> delivers op idle s' ts \<Longrightarrow> delivers op idle s (t # ts)"

inductive_cases deliver_nilE: "delivers op idle s []"
inductive_cases deliver_consE: "delivers op idle s (t # ts)"

definition gives :: "'s oper \<Rightarrow> ('s \<Rightarrow> bool) \<Rightarrow> (RC \<times> 's) option \<Rightarrow> Tuple list \<Rightarrow> bool" where
  "gives op idle r ts \<longleftrightarrow>
     (case ts of
        [] \<Rightarrow> \<exists>s'. r = Some (RECORD_EOF, s') \<and> closes op idle s'
      | t # ts' \<Rightarrow> \<exists>s'. r = Some (SUCCESS, s') \<and> o_tuple op s' = Some t \<and> delivers op idle s' ts')"

lemma delivers_iff: "delivers op idle s ts \<longleftrightarrow> closes op idle s \<and> gives op idle (o_next op s) ts"
  by (cases ts) (auto simp: gives_def elim: deliver_nilE deliver_consE intro: delivers.intros)

lemma delivers_closes: "delivers op idle s ts \<Longrightarrow> closes op idle s"
  by (simp add: delivers_iff)

locale row_source =
  fixes op :: "'s oper" and idle :: "'s \<Rightarrow> bool" and rows :: "Tuple list"
  assumes opens: "idle s \<Longrightarrow> \<exists>s'. o_open op s = Some (SUCCESS, s') \<and> delivers op idle s' rows"

section \<open>Predicates\<close>

lemma predicate_sel [simp]:
  "o_open (predicate_oper env e op) = o_open op" "o_next (predicate_oper env e op) = predicate_next env e op"
  "o_tuple (predicate_oper env e op) = o_tuple op"
  by (simp_all add: predicate_oper_def)

lemma predicate_closes: "closes op idle s \<Longrightarrow> closes (predicate_oper env e op) idle s"
  by (auto simp: closes_def predicate_oper_def)

lemma delivers_filter:
  assumes "delivers op idle s ts" "\<forall>t\<in>set ts. row_wanted env e (Some t) = Some (SUCCESS, P t)"
  shows "delivers (predicate_oper env e op) idle s (filter P ts)"
  using assms
proof (induction rule: delivers.induct)
  case (deliver_end s s')
  then show ?case by (auto intro!: delivers.deliver_end predicate_closes simp: predicate_next.simps [of env e op s])
next
  case (deliver_row s s' t ts)
  then have ih: "delivers (predicate_oper env e op) idle s' (filter P ts)" "row_wanted env e (Some t) = Some (SUCCESS, P t)" by simp_all
  have n: "predicate_next env e op s = (if P t then Some (SUCCESS, s') else predicate_next env e op s')"
    using deliver_row ih(2) by (subst predicate_next.simps) simp
  show ?case
  proof (cases "P t")
    case True
    then show ?thesis using n ih(1) deliver_row by (auto intro!: delivers.deliver_row predicate_closes)
  next
    case False
    then show ?thesis using n ih(1) deliver_row(1) predicate_closes by (simp add: delivers_iff [of _ _ s] delivers_iff [of _ _ s'] gives_def)
  qed
qed

locale filtered_source = row_source +
  fixes env :: sql_env and e :: Expression and P :: "Tuple \<Rightarrow> bool"
  assumes holds: "t \<in> set rows \<Longrightarrow> row_wanted env e (Some t) = Some (SUCCESS, P t)"

sublocale filtered_source \<subseteq> filtered: row_source "predicate_oper env e op" idle "filter P rows"
  by unfold_locales (use opens delivers_filter holds in fastforce)

context filtered_source
begin

lemma is_source: "row_source (predicate_oper env e op) idle (filter P rows)"
  by (rule filtered.row_source_axioms)

end

section \<open>Nested loop join\<close>

definition product :: "Tuple list \<Rightarrow> Tuple list \<Rightarrow> Tuple list" where
  "product ls rs = concat (map (\<lambda>l. map (joined_tuple l) rs) ls)"

lemma product_nil: "product ls [] = []"
  by (simp add: product_def)

definition join_idle :: "('l \<Rightarrow> bool) \<Rightarrow> ('r \<Rightarrow> bool) \<Rightarrow> ('l, 'r) join \<Rightarrow> bool" where
  "join_idle lidle ridle s \<longleftrightarrow> lidle (j_left s) \<and> ridle (j_right s)"

definition right_ready :: "'r oper \<Rightarrow> ('r \<Rightarrow> bool) \<Rightarrow> ('l, 'r) join \<Rightarrow> bool" where
  "right_ready rop ridle s \<longleftrightarrow> (if j_right_closed s then ridle (j_right s) else closes rop ridle (j_right s))"

locale joined_sources = l: row_source lop lidle lrows + r: row_source rop ridle rrows
  for lop :: "'l oper" and lidle lrows and rop :: "'r oper" and ridle rrows
begin

lemma join_closes: "closes lop lidle (j_left s) \<Longrightarrow> right_ready rop ridle s \<Longrightarrow> closes (nested_loop_join lop rop) (join_idle lidle ridle) s"
  by (auto simp: closes_def nested_loop_join_def join_close_def join_idle_def right_ready_def Let_def split: if_splits)

lemma right_open:
  assumes "right_ready rop ridle s" "j_round_done s"
  shows "\<exists>r. join_right_open rop s = Some (SUCCESS, s\<lparr>j_right := r, j_right_closed := False, j_round_done := False\<rparr>) \<and> delivers rop ridle r rrows"
proof (cases "j_right_closed s")
  case True
  then obtain r where "o_open rop (j_right s) = Some (SUCCESS, r)" "delivers rop ridle r rrows" using assms(1) r.opens by (auto simp: right_ready_def)
  then show ?thesis using True assms(2) by (auto simp: join_right_open_def Let_def)
next
  case False
  then obtain q where q: "o_close rop (j_right s) = Some (SUCCESS, q)" "ridle q" using assms(1) by (auto simp: right_ready_def closes_def)
  then obtain r where "o_open rop q = Some (SUCCESS, r)" "delivers rop ridle r rrows" using r.opens by blast
  then show ?thesis using False q assms(2) by (auto simp: join_right_open_def Let_def)
qed

lemma right_ready_left: "right_ready rop ridle (s\<lparr>j_left := l\<rparr>) = right_ready rop ridle s"
  by (simp add: right_ready_def)

lemma right_row:
  assumes "delivers rop ridle (j_right s) (b # bs)" "\<not> j_round_done s"
  shows "\<exists>r. join_right_next rop s = Some (SUCCESS, s\<lparr>j_right := r\<rparr>) \<and> o_tuple rop r = Some b \<and> delivers rop ridle r bs"
  using assms by (auto simp: join_right_next_def join_right_open_def delivers_iff [of _ _ "j_right s"] gives_def)

lemma right_end:
  assumes "delivers rop ridle (j_right s) []" "\<not> j_round_done s"
  shows "\<exists>r. join_right_next rop s = Some (RECORD_EOF, s\<lparr>j_right := r, j_round_done := True\<rparr>) \<and> closes rop ridle r"
  using assms by (auto simp: join_right_next_def join_right_open_def delivers_iff [of _ _ "j_right s"] gives_def)

lemma right_first:
  assumes "right_ready rop ridle s" "j_round_done s"
  shows "\<exists>r. join_right_next rop s = join_right_next rop (s\<lparr>j_right := r, j_right_closed := False, j_round_done := False\<rparr>) \<and> delivers rop ridle r rrows"
proof -
  obtain r where r: "join_right_open rop s = Some (SUCCESS, s\<lparr>j_right := r, j_right_closed := False, j_round_done := False\<rparr>)" "delivers rop ridle r rrows"
    using right_open [OF assms] by blast
  have "join_right_open rop (s\<lparr>j_right := r, j_right_closed := False, j_round_done := False\<rparr>) = join_right_open rop s"
    unfolding r(1) by (simp add: join_right_open_def)
  then show ?thesis using r(2) unfolding join_right_next_def by (intro exI [of _ r]) simp
qed

abbreviation "op \<equiv> nested_loop_join lop rop"
abbreviation "idle \<equiv> join_idle lidle ridle"

lemma join_sel [simp]: "o_next op = join_next lop rop" "o_tuple op = join_tuple lop rop" "o_open op = join_open lop"
  by (simp_all add: nested_loop_join_def)

lemma round_delivers:
  assumes step: "\<And>s. delivers lop lidle (j_left s) ls \<Longrightarrow> right_ready rop ridle s \<Longrightarrow> j_round_done s \<Longrightarrow> gives op idle (join_step lop rop s) (product ls rrows)"
    and left: "delivers lop lidle (j_left s) ls" "o_tuple lop (j_left s) = Some a"
    and right: "delivers rop ridle (j_right s) rs" "\<not> j_round_done s" "\<not> j_right_closed s"
  shows "delivers op idle s (map (joined_tuple a) rs @ product ls rrows)"
  using left right
proof (induction rs arbitrary: s rule: list.induct)
  case Nil
  obtain r where r: "join_right_next rop s = Some (RECORD_EOF, s\<lparr>j_right := r, j_round_done := True\<rparr>)" "closes rop ridle r"
    using right_end Nil by blast
  have "gives op idle (join_step lop rop (s\<lparr>j_right := r, j_round_done := True\<rparr>)) (product ls rrows)"
    using step [of "s\<lparr>j_right := r, j_round_done := True\<rparr>"] Nil r(2) by (simp add: right_ready_def)
  moreover have "closes op idle s" using join_closes [of s] delivers_closes [OF Nil(1)] delivers_closes [OF Nil(3)] Nil by (simp add: right_ready_def)
  ultimately show ?case using r(1) Nil by (simp add: delivers_iff [of _ _ s] join_next_def)
next
  case (Cons b bs)
  obtain r where r: "join_right_next rop s = Some (SUCCESS, s\<lparr>j_right := r\<rparr>)" "o_tuple rop r = Some b" "delivers rop ridle r bs"
    using right_row Cons.prems by blast
  have "delivers op idle (s\<lparr>j_right := r\<rparr>) (map (joined_tuple a) bs @ product ls rrows)" using Cons r by simp
  moreover have "closes op idle s" using join_closes [of s] delivers_closes [OF Cons.prems(1)] delivers_closes [OF Cons.prems(3)] Cons.prems by (simp add: right_ready_def)
  ultimately show ?case using r Cons.prems by (simp add: delivers_iff [of _ _ s] gives_def join_next_def join_tuple_def)
qed

lemma step_gives:
  assumes "delivers lop lidle (j_left s) ls" "right_ready rop ridle s" "j_round_done s"
  shows "gives op idle (join_step lop rop s) (product ls rrows)"
  using assms
proof (induction ls arbitrary: s rule: list.induct)
  case Nil
  obtain l where l: "o_next lop (j_left s) = Some (RECORD_EOF, l)" "closes lop lidle l" using Nil by (auto simp: delivers_iff gives_def)
  then have "closes op idle (s\<lparr>j_left := l\<rparr>)" using join_closes [of "s\<lparr>j_left := l\<rparr>"] Nil by (simp add: right_ready_def)
  then show ?case using l(1) by (simp add: gives_def product_def join_step_def join_left_next_def)
next
  case (Cons a ls)
  obtain l where l: "o_next lop (j_left s) = Some (SUCCESS, l)" "o_tuple lop l = Some a" "delivers lop lidle l ls"
    using Cons.prems(1) by (auto simp: delivers_iff [of _ _ "j_left s"] gives_def)
  let ?s1 = "s\<lparr>j_left := l\<rparr>"
  obtain r where r: "join_right_next rop ?s1 = join_right_next rop (?s1\<lparr>j_right := r, j_right_closed := False, j_round_done := False\<rparr>)" "delivers rop ridle r rrows"
    using right_first [of ?s1] Cons.prems by (auto simp: right_ready_left)
  let ?s2 = "?s1\<lparr>j_right := r, j_right_closed := False, j_round_done := False\<rparr>"
  have j: "join_step lop rop s = join_right_next rop ?s2" using l(1) r(1) by (simp add: join_step_def join_left_next_def)
  show ?case
  proof (cases rrows)
    case Nil
    obtain q where q: "join_right_next rop ?s2 = Some (RECORD_EOF, ?s2\<lparr>j_right := q, j_round_done := True\<rparr>)" "closes rop ridle q"
      using right_end [of ?s2] r(2) Nil by auto
    then have "closes op idle (?s2\<lparr>j_right := q, j_round_done := True\<rparr>)"
      using join_closes [of "?s2\<lparr>j_right := q, j_round_done := True\<rparr>"] delivers_closes [OF l(3)] by (simp add: right_ready_def)
    then show ?thesis using j q(1) Nil by (simp add: gives_def product_nil)
  next
    case (Cons b bs)
    obtain q where q: "join_right_next rop ?s2 = Some (SUCCESS, ?s2\<lparr>j_right := q\<rparr>)" "o_tuple rop q = Some b" "delivers rop ridle q bs"
      using right_row [of ?s2 b bs] r(2) Cons by auto
    have "delivers op idle (?s2\<lparr>j_right := q\<rparr>) (map (joined_tuple a) bs @ product ls rrows)"
      using round_delivers [of ls "?s2\<lparr>j_right := q\<rparr>" a bs] Cons.IH l q by simp
    then show ?thesis using j q l Cons by (simp add: gives_def product_def join_tuple_def)
  qed
qed

end

sublocale joined_sources \<subseteq> joined: row_source "nested_loop_join lop rop" "join_idle lidle ridle" "product lrows rrows"
proof unfold_locales
  fix s :: "('l, 'r) join" assume s: "join_idle lidle ridle s"
  then obtain l where l: "o_open lop (j_left s) = Some (SUCCESS, l)" "delivers lop lidle l lrows" using l.opens by (auto simp: join_idle_def)
  let ?s = "s\<lparr>j_right_closed := True, j_round_done := True, j_left := l\<rparr>"
  have r: "right_ready rop ridle ?s" using s by (simp add: right_ready_def join_idle_def)
  have "delivers op idle ?s (product lrows rrows)"
    using step_gives [of ?s lrows] join_closes [of ?s] l(2) r delivers_closes [OF l(2)] by (simp add: delivers_iff [of _ _ ?s] join_next_def)
  then show "\<exists>s'. o_open op s = Some (SUCCESS, s') \<and> delivers op idle s' (product lrows rrows)"
    using l(1) by (simp add: join_open_def Let_def)
qed

context joined_sources
begin

lemma is_source: "row_source (nested_loop_join lop rop) (join_idle lidle ridle) (product lrows rrows)"
  by (rule joined.row_source_axioms)

end

section \<open>Scans\<close>

text \<open>The rows that a scan without predicates delivers: the visible records, as the transaction filled them in.\<close>

definition visible_rows :: "table_source \<Rightarrow> Tuple list" where
  "visible_rows src =
     map (\<lambda>r. row_tuple (ts_meta src) (ts_texts src) (snd (ts_visit src r))) (filter (\<lambda>r. fst (ts_visit src r) \<noteq> RECORD_INVISIBLE) (snd (ts_opened src)))"

lemma scan_delivers:
  assumes "\<forall>r\<in>set (sc_rest s). fst (ts_visit src r) \<noteq> RECORD_INVISIBLE \<longrightarrow>
    scan_filter True env preds (row_tuple (ts_meta src) (ts_texts src) (snd (ts_visit src r))) new_value
      = Some (SUCCESS, P (row_tuple (ts_meta src) (ts_texts src) (snd (ts_visit src r))))"
  shows "delivers (table_scan env src preds) (\<lambda>_. True) s (filter P (visible_rows (src\<lparr>ts_opened := (SUCCESS, sc_rest s)\<rparr>)))"
  using assms
proof (induction "sc_rest s" arbitrary: s)
  case Nil
  then show ?case by (auto simp: delivers_iff gives_def table_scan_def closes_def visible_rows_def)
next
  case (Cons r rs)
  obtain rc r' where v: "ts_visit src r = (rc, r')" by (cases "ts_visit src r")
  let ?s = "\<lparr>sc_rest = rs, sc_current = r'\<rparr>" and ?t = "row_tuple (ts_meta src) (ts_texts src) r'"
  have ih: "delivers (table_scan env src preds) (\<lambda>_. True) ?s (filter P (visible_rows (src\<lparr>ts_opened := (SUCCESS, rs)\<rparr>)))"
    using Cons.hyps(1) [of ?s] Cons.hyps(2) [symmetric] Cons.prems by simp
  have n: "o_next (table_scan env src preds) s =
      (if rc \<noteq> RECORD_INVISIBLE \<and> P ?t then Some (SUCCESS, ?s) else o_next (table_scan env src preds) ?s)"
    using Cons.hyps(2) [symmetric] Cons.prems v by (auto simp: table_scan_def)
  have r: "visible_rows (src\<lparr>ts_opened := (SUCCESS, sc_rest s)\<rparr>) =
      (if rc \<noteq> RECORD_INVISIBLE then [?t] else []) @ visible_rows (src\<lparr>ts_opened := (SUCCESS, rs)\<rparr>)"
    using Cons.hyps(2) [symmetric] v by (simp add: visible_rows_def)
  have c: "closes (table_scan env src preds) (\<lambda>_. True) u" for u by (simp add: closes_def table_scan_def)
  show ?case
  proof (cases "rc \<noteq> RECORD_INVISIBLE \<and> P ?t")
    case True
    moreover have "o_tuple (table_scan env src preds) ?s = Some ?t" by (simp add: table_scan_def)
    ultimately show ?thesis unfolding r using n c ih by (simp add: delivers_iff [of _ _ s] gives_def)
  next
    case False
    then have "filter P (visible_rows (src\<lparr>ts_opened := (SUCCESS, sc_rest s)\<rparr>)) = filter P (visible_rows (src\<lparr>ts_opened := (SUCCESS, rs)\<rparr>))"
      unfolding r by auto
    then show ?thesis using n c ih False by (simp add: delivers_iff [of _ _ s] delivers_iff [of _ _ ?s])
  qed
qed

lemma visible_rows_opened: "visible_rows (src\<lparr>ts_opened := (SUCCESS, snd (ts_opened src))\<rparr>) = visible_rows src"
  by (simp add: visible_rows_def)

definition scan_of :: "table_source \<Rightarrow> Record list \<Rightarrow> table_source" where
  "scan_of src rs = src\<lparr>ts_opened := (SUCCESS, rs)\<rparr>"

interpretation scanned: row_source "table_scan env (scan_of src rs) []" "\<lambda>_. True" "visible_rows (scan_of src rs)"
proof unfold_locales
  fix s :: scan
  have "delivers (table_scan env (scan_of src rs) []) (\<lambda>_. True) (s\<lparr>sc_rest := rs\<rparr>) (filter (\<lambda>_. True) (visible_rows (scan_of src rs)))"
    using scan_delivers [of "s\<lparr>sc_rest := rs\<rparr>" "scan_of src rs" env "[]" "\<lambda>_. True"] by (simp add: scan_of_def)
  then show "\<exists>s'. o_open (table_scan env (scan_of src rs) []) s = Some (SUCCESS, s') \<and> delivers (table_scan env (scan_of src rs) []) (\<lambda>_. True) s' (visible_rows (scan_of src rs))"
    by (simp add: table_scan_def scan_open_def scan_of_def)
qed

interpretation scanned_pair: joined_sources "table_scan env (scan_of src rs) []" "\<lambda>_. True" "visible_rows (scan_of src rs)"
    "table_scan env' (scan_of src' rs') []" "\<lambda>_. True" "visible_rows (scan_of src' rs')"
  by unfold_locales

interpretation const_pred: filtered_source "table_scan env (scan_of src rs) []" "\<lambda>_. True" "visible_rows (scan_of src rs)" env
    "ValueExpr (set_boolean b new_value)" "\<lambda>_. b"
  by unfold_locales (simp add: row_wanted_def returned_def get_boolean_def)

section \<open>Equality join\<close>

lemma class_equiv:
  assumes "value_class fp S" "S a" "S b"
  shows "equiv_value fp a b \<longleftrightarrow> value_cmp fp a b = 0"
proof -
  note k = class_order [OF assms(1)]
  have "less_value fp a b \<longleftrightarrow> value_cmp fp a b < 0" "less_value fp b a \<longleftrightarrow> value_cmp fp b a < 0"
    using k(2) [OF assms(2,3)] k(2) [OF assms(3,2)] less_value_cmp by blast+
  then show ?thesis using key_order.cmp_flip [OF k(1) assms(3,2)] by (auto simp: equiv_value_def)
qed

lemma class_cong:
  assumes "value_class fp S" "S a" "S a'" "S b" "S b'" "value_cmp fp a a' = 0" "value_cmp fp b b' = 0"
  shows "value_cmp fp a b = 0 \<longleftrightarrow> value_cmp fp a' b' = 0"
proof -
  note k = class_order(1) [OF assms(1)]
  note sym = key_order.cmp_zero_sym [OF k] and trans = key_order.cmp_trans [OF k] and ge = key_order.cmp_ge_flip [OF k]
  have le: "value_cmp fp x' y' = 0" if "S x" "S x'" "S y" "S y'" "value_cmp fp x x' = 0" "value_cmp fp y y' = 0" "value_cmp fp x y = 0" for x x' y y'
  proof -
    have "value_cmp fp x' x \<le> 0" "value_cmp fp y' y \<le> 0" "value_cmp fp y x \<le> 0" using sym that by force+
    then have "value_cmp fp x' y' \<le> 0" "value_cmp fp y' x' \<le> 0"
      using trans [of x' x y] trans [of x' y y'] trans [of y' y x] trans [of y' x x'] that by auto
    then show ?thesis using ge [of x' y'] that by force
  qed
  show ?thesis using le [of a a' b b'] le [of a' a b' b] sym assms by blast
qed

definition has_key :: "sql_env \<Rightarrow> (Value \<Rightarrow> bool) \<Rightarrow> Tuple \<Rightarrow> Expression \<Rightarrow> Value \<Rightarrow> bool" where
  "has_key env S t e k \<longleftrightarrow> S k \<and> (\<forall>key. \<exists>v. get_value env t e key = Val (SUCCESS, v) \<and> S v \<and> value_cmp (e_fp env) v k = 0)"

definition eq_rows :: "fpu \<Rightarrow> (Tuple \<Rightarrow> Tuple) \<Rightarrow> (Tuple \<Rightarrow> Value) \<Rightarrow> (Tuple \<Rightarrow> Value) \<Rightarrow> Tuple list \<Rightarrow> Tuple list \<Rightarrow> Tuple list" where
  "eq_rows fp copy lk rk ls rs = concat (map (\<lambda>b. map (\<lambda>a. joined_tuple (copy a) b) (filter (\<lambda>a. value_cmp fp (lk a) (rk b) = 0) ls)) rs)"

definition eq_idle :: "('r \<Rightarrow> bool) \<Rightarrow> ('l, 'r) eq_join \<Rightarrow> bool" where
  "eq_idle ridle s \<longleftrightarrow> ridle (q_right s) \<and> q_table s = []"

locale keyed_sources = l: row_source lop "\<lambda>_. True" lrows + r: row_source rop ridle rrows
  for lop :: "'l oper" and lrows and rop :: "'r oper" and ridle rrows +
  fixes env :: sql_env and le re :: Expression and specs :: "TupleCellSpec list" and S :: "Value \<Rightarrow> bool"
    and copy :: "Tuple \<Rightarrow> Tuple" and lk rk :: "Tuple \<Rightarrow> Value"
  assumes cls: "value_class (e_fp env) S"
    and clone: "a \<in> set lrows \<Longrightarrow> clone_tuple specs a = Val (SUCCESS, Some (copy a))"
    and lkey: "a \<in> set lrows \<Longrightarrow> has_key env S (copy a) le (lk a)"
    and rkey: "b \<in> set rrows \<Longrightarrow> has_key env S b re (rk b)"
begin

definition entry_of :: "Value \<times> Tuple \<Rightarrow> Tuple \<Rightarrow> bool" where
  "entry_of x a \<longleftrightarrow> snd x = copy a \<and> S (fst x) \<and> value_cmp (e_fp env) (fst x) (lk a) = 0 \<and> S (lk a)"

lemma swo: "\<forall>x\<in>set xs. S x \<Longrightarrow> strict_weak_order (e_fp env) xs"
  using order_strict_weak class_order [OF cls] by blast

lemma build:
  assumes "delivers lop (\<lambda>_. True) l ls" "set ls \<subseteq> set lrows" "\<forall>x\<in>set table. S (fst x)"
  shows "\<exists>l' new. eq_build env le specs lop key l table = Some (RECORD_EOF, l', table @ new) \<and> list_all2 entry_of new ls"
  using assms
proof (induction ls arbitrary: l key table rule: list.induct)
  case Nil
  then show ?case by (subst eq_build.simps) (auto simp: delivers_iff [of _ _ l] gives_def)
next
  case (Cons a ls)
  obtain l1 where l1: "o_next lop l = Some (SUCCESS, l1)" "o_tuple lop l1 = Some a" "delivers lop (\<lambda>_. True) l1 ls"
    using Cons.prems(1) by (auto simp: delivers_iff [of _ _ l] gives_def)
  have a: "a \<in> set lrows" using Cons.prems by simp
  obtain v where v: "get_value env (copy a) le key = Val (SUCCESS, v)" "S v" "value_cmp (e_fp env) v (lk a) = 0" "S (lk a)"
    using lkey [OF a] unfolding has_key_def by meson
  have t: "\<forall>x\<in>set (table @ [(v, copy a)]). S (fst x)" using Cons.prems v(2) by auto
  have "table_insert (e_fp env) v (copy a) table = Some (table @ [(v, copy a)])"
    using swo [of "v # map fst table"] v(2) Cons.prems(3) by (simp add: table_insert_def)
  then have b: "eq_build env le specs lop key l table = eq_build env le specs lop v l1 (table @ [(v, copy a)])"
    using l1 v(1) clone [OF a] by (subst eq_build.simps) (simp add: eq_entry_def returned_def)
  obtain l' new where n: "eq_build env le specs lop v l1 (table @ [(v, copy a)]) = Some (RECORD_EOF, l', (table @ [(v, copy a)]) @ new)" "list_all2 entry_of new ls"
    using Cons.IH [OF l1(3) _ t, of v] Cons.prems(2) by auto
  moreover have "entry_of (v, copy a) a" using v by (simp add: entry_of_def)
  ultimately show ?case using b by (intro exI [of _ l'] exI [of _ "(v, copy a) # new"]) simp
qed

lemma range_of:
  assumes "list_all2 entry_of table ls" "S v" "value_cmp (e_fp env) v (rk b) = 0" "S (rk b)"
  shows "equal_range (e_fp env) v table = Some (map copy (filter (\<lambda>a. value_cmp (e_fp env) (lk a) (rk b) = 0) ls))"
proof -
  have "\<forall>x\<in>set table. S (fst x)" using assms(1) by (induction rule: list_all2_induct) (auto simp: entry_of_def)
  then have "strict_weak_order (e_fp env) (v # map fst table)" using swo assms(2) by simp
  moreover have "map snd (filter (\<lambda>(k, c). equiv_value (e_fp env) k v) table) = map copy (filter (\<lambda>a. value_cmp (e_fp env) (lk a) (rk b) = 0) ls)"
    using assms(1)
  proof (induction rule: list_all2_induct)
    case (Cons x xs a as)
    obtain k c where x: "x = (k, c)" by (cases x)
    have "equiv_value (e_fp env) k v \<longleftrightarrow> value_cmp (e_fp env) (lk a) (rk b) = 0"
      using class_equiv [OF cls, of k v] class_cong [OF cls, of k "lk a" v "rk b"] Cons(1) assms(2-4) x by (simp add: entry_of_def)
    then show ?case using Cons x by (simp add: entry_of_def)
  qed simp
  ultimately show ?thesis by (simp add: equal_range_def)
qed

abbreviation "rows_of \<equiv> eq_rows (e_fp env) copy lk rk lrows"
abbreviation "op \<equiv> rb_tree_eq_join env le re specs lop rop"
abbreviation "idle \<equiv> eq_idle ridle"

lemma eq_sel [simp]: "o_next op = eq_next env re rop" "o_tuple op = eq_tuple rop" "o_open op = eq_open env le specs lop rop" "o_close op = eq_close rop"
  by (simp_all add: rb_tree_eq_join_def)

lemma eq_closes: "closes rop ridle (q_right s) \<Longrightarrow> closes op idle s"
  by (auto simp: closes_def eq_close_def eq_idle_def)

lemma in_range:
  assumes rest: "\<And>s key. delivers rop ridle (q_right s) rs \<Longrightarrow> list_all2 entry_of (q_table s) lrows
      \<Longrightarrow> gives op idle (fetch_next_tuple_in_table env re rop key s) (rows_of rs)"
    and s: "q_range s = c # cs" "o_tuple rop (q_right s) = Some b" "delivers rop ridle (q_right s) rs" "list_all2 entry_of (q_table s) lrows"
  shows "delivers op idle s (map (\<lambda>c. joined_tuple c b) cs @ rows_of rs)"
  using s
proof (induction cs arbitrary: c s rule: list.induct)
  case Nil
  let ?s = "s\<lparr>q_range := []\<rparr>"
  have "eq_next env re rop s = fetch_next_tuple_in_table env re rop new_value ?s" using Nil(1) by (simp add: eq_next_def fetch_next_tuple_in_range_def)
  then show ?case using rest [of ?s new_value] Nil eq_closes delivers_closes [OF Nil(3)] by (simp add: delivers_iff [of _ _ s])
next
  case (Cons d ds)
  let ?s = "s\<lparr>q_range := d # ds\<rparr>"
  have "eq_next env re rop s = Some (SUCCESS, ?s)" using Cons.prems(1) by (simp add: eq_next_def fetch_next_tuple_in_range_def)
  moreover have "eq_tuple rop ?s = Some (joined_tuple d b)" using Cons.prems(2) by (simp add: eq_tuple_def)
  moreover have "delivers op idle ?s (map (\<lambda>c. joined_tuple c b) ds @ rows_of rs)" using Cons.IH [of ?s d] Cons.prems by simp
  ultimately show ?case using eq_closes delivers_closes [OF Cons.prems(3)] by (simp add: delivers_iff [of _ _ s] gives_def)
qed

lemma in_table:
  assumes "delivers rop ridle (q_right s) rs" "list_all2 entry_of (q_table s) lrows" "set rs \<subseteq> set rrows"
  shows "gives op idle (fetch_next_tuple_in_table env re rop key s) (rows_of rs)"
  using assms
proof (induction rs arbitrary: s key rule: list.induct)
  case Nil
  then obtain r where "o_next rop (q_right s) = Some (RECORD_EOF, r)" "closes rop ridle r" by (auto simp: delivers_iff [of _ _ "q_right s"] gives_def)
  then show ?case using eq_closes [of "s\<lparr>q_right := r\<rparr>"] by (subst fetch_next_tuple_in_table.simps) (simp add: gives_def eq_rows_def)
next
  case (Cons b rs)
  obtain r where r: "o_next rop (q_right s) = Some (SUCCESS, r)" "o_tuple rop r = Some b" "delivers rop ridle r rs"
    using Cons.prems(1) by (auto simp: delivers_iff [of _ _ "q_right s"] gives_def)
  obtain v where v: "get_value env b re key = Val (SUCCESS, v)" "S v" "value_cmp (e_fp env) v (rk b) = 0" "S (rk b)"
    using rkey [of b] Cons.prems(3) unfolding has_key_def by (metis list.set_intros(1) subset_code(1))
  let ?m = "filter (\<lambda>a. value_cmp (e_fp env) (lk a) (rk b) = 0) lrows"
  note range = range_of [OF Cons.prems(2) v(2-4)]
  have f: "fetch_next_tuple_in_table env re rop key s =
      (if ?m \<noteq> [] then Some (SUCCESS, s\<lparr>q_right := r, q_range := map copy ?m\<rparr>) else fetch_next_tuple_in_table env re rop v (s\<lparr>q_right := r, q_range := []\<rparr>))"
    using r v(1) range by (subst fetch_next_tuple_in_table.simps) (simp add: returned_def)
  have rows: "rows_of (b # rs) = map (\<lambda>c. joined_tuple c b) (map copy ?m) @ rows_of rs" by (simp add: eq_rows_def comp_def)
  have ih: "delivers rop ridle (q_right s) rs \<Longrightarrow> list_all2 entry_of (q_table s) lrows \<Longrightarrow> gives op idle (fetch_next_tuple_in_table env re rop key s) (rows_of rs)" for s key
    using Cons.IH Cons.prems(3) by simp
  show ?case
  proof (cases "map copy ?m")
    case Nil
    then show ?thesis unfolding f rows using ih [of "s\<lparr>q_right := r, q_range := []\<rparr>" v] r(3) Cons.prems(2) by simp
  next
    case (Cons c cs)
    let ?s = "s\<lparr>q_right := r, q_range := c # cs\<rparr>"
    have "delivers op idle ?s (map (\<lambda>c. joined_tuple c b) cs @ rows_of rs)" using in_range [OF ih, of ?s c cs b] r Cons.prems(2) by simp
    moreover have "?m \<noteq> []" using Cons by auto
    ultimately show ?thesis unfolding f rows Cons using r(2) by (simp add: gives_def eq_tuple_def)
  qed
qed

end

sublocale keyed_sources \<subseteq> keyed: row_source "rb_tree_eq_join env le re specs lop rop" "eq_idle ridle" "eq_rows (e_fp env) copy lk rk lrows rrows"
proof unfold_locales
  fix s :: "('l, 'r) eq_join" assume s: "eq_idle ridle s"
  then obtain r where r: "o_open rop (q_right s) = Some (SUCCESS, r)" "delivers rop ridle r rrows" using r.opens by (auto simp: eq_idle_def)
  obtain l where l: "o_open lop (q_left s) = Some (SUCCESS, l)" "delivers lop (\<lambda>_. True) l lrows" using l.opens by auto
  obtain l' new where b: "eq_build env le specs lop new_value l [] = Some (RECORD_EOF, l', new)" "list_all2 entry_of new lrows" using build [OF l(2), of "[]" new_value] by auto
  let ?s = "s\<lparr>q_range := [], q_right := r, q_left := l', q_table := new\<rparr>"
  have "eq_next env re rop ?s = fetch_next_tuple_in_table env re rop new_value ?s" by (simp add: eq_next_def fetch_next_tuple_in_range_def)
  then have "delivers op idle ?s (rows_of rrows)"
    using in_table [of ?s rrows new_value] r(2) b(2) eq_closes [of ?s] delivers_closes [OF r(2)] by (simp add: delivers_iff [of _ _ ?s])
  moreover have "o_open op s = Some (SUCCESS, ?s)" using r(1) l(1) b(1) s by (simp add: eq_open_def generate_hash_table_def Let_def eq_idle_def)
  ultimately show "\<exists>s'. o_open op s = Some (SUCCESS, s') \<and> delivers op idle s' (rows_of rrows)" by blast
qed

context keyed_sources
begin

lemma is_source: "row_source (rb_tree_eq_join env le re specs lop rop) (eq_idle ridle) (eq_rows (e_fp env) copy lk rk lrows rrows)"
  by (rule keyed.row_source_axioms)

end

section \<open>Properties\<close>

text \<open>
  C24: A predicate over a nested loop join delivers the pairs of rows it holds for, in the order of the left rows and for each of
  them of the right rows, and then the end; it can be closed at any time and opened again. This is for every two sources of
  rows, tables or other joins, on whose pairs the condition can be evaluated.
\<close>

theorem nested_loop_join_rows:
  assumes "row_source lop lidle lrows" "row_source rop ridle rrows"
    "\<forall>t\<in>set (product lrows rrows). row_wanted env e (Some t) = Some (SUCCESS, P t)"
  shows "row_source (predicate_oper env e (nested_loop_join lop rop)) (join_idle lidle ridle)
    (filter P (concat (map (\<lambda>l. map (joined_tuple l) rrows) lrows)))"
proof -
  have "row_source (nested_loop_join lop rop) (join_idle lidle ridle) (product lrows rrows)"
    using joined_sources.is_source [OF joined_sources.intro [OF assms(1,2)]] .
  then have "filtered_source (nested_loop_join lop rop) (join_idle lidle ridle) (product lrows rrows) env e P"
    using assms(3) by (simp add: filtered_source_def filtered_source_axioms_def)
  from filtered_source.is_source [OF this] show ?thesis by (simp add: product_def)
qed


text \<open>
  C39: A copied row finds a field by its alias first, and fields have none: when the first cell of the copy has no alias either,
  as in the schema of a table, every field of the copy reads as its first cell.
\<close>

theorem cached_row_first_cell:
  assumes "specs \<noteq> []" "cs_alias (hd specs) = []" "cells \<noteq> []"
  shows "get_value env (cache_tuple specs cells) (FieldExpr table field ty) v = Val (SUCCESS, hd cells)"
  using assms by (cases specs; cases cells) (simp_all add: cache_tuple_def cache_find_cell_def list_cell_at_def)

text \<open>
  An index scan does not return when a predicate is NULL on a visible row that it reaches: it throws. The table scan
  passes over the same row.
\<close>

lemma index_scan_null_throws:
  assumes "fetch r = (SUCCESS, rec)" "ts_visit src rec = (rc, rec')" "rc \<noteq> RECORD_INVISIBLE"
    "get_value env (row_tuple (ts_meta src) (ts_texts src) rec') e new_value = Val (SUCCESS, w)" "v_type w = NULLS"
  shows "index_scan_next env src fetch (e # es) cur (r # rs) = None
    \<and> table_scan_next env src (e # es) cur (rec # recs) = table_scan_next env src (e # es) rec' recs"
  using assms by (simp add: returned_def get_boolean_def)

section \<open>Witnesses\<close>

definition ex_meta :: TableMeta where
  "ex_meta = \<lparr>tm_id = 1, tm_name = ascii ''t'', tm_sys_fields = [], tm_fields = [], tm_record_size = 0\<rparr>"

definition ex_record :: "nat \<Rightarrow> Record" where
  "ex_record n = (\<lparr>page_num = 1, slot_num = int n\<rparr>, [of_nat n])"

definition ex_source :: table_source where
  "ex_source = \<lparr>ts_meta = ex_meta, ts_texts = \<lparr>next_key = 0, storage = (\<lambda>_. None)\<rparr>, ts_visit = Pair SUCCESS, ts_opened = (SUCCESS, [])\<rparr>"

definition true_expr :: Expression where
  "true_expr = ValueExpr (set_boolean True new_value)"

lemma true_wanted: "row_wanted env true_expr (Some t) = Some (SUCCESS, True)"
  by (simp add: row_wanted_def true_expr_def returned_def get_boolean_def)

theorem nested_loop_join_rows_witness:
  "\<exists>rows. length rows = 6 \<and> row_source (predicate_oper ex_env true_expr
     (nested_loop_join (table_scan ex_env (scan_of ex_source [ex_record 1, ex_record 2]) []) (table_scan ex_env (scan_of ex_source [ex_record 3, ex_record 4, ex_record 5]) [])))
     (join_idle (\<lambda>_. True) (\<lambda>_. True)) rows"
proof -
  let ?l = "visible_rows (scan_of ex_source [ex_record 1, ex_record 2])" and ?r = "visible_rows (scan_of ex_source [ex_record 3, ex_record 4, ex_record 5])"
  have n: "length (filter (\<lambda>_. True) (concat (map (\<lambda>l. map (joined_tuple l) ?r) ?l))) = 6" by (simp add: visible_rows_def scan_of_def ex_source_def)
  show ?thesis
    using nested_loop_join_rows [OF scanned.row_source_axioms [of ex_env ex_source "[ex_record 1, ex_record 2]"] scanned.row_source_axioms [of ex_env ex_source "[ex_record 3, ex_record 4, ex_record 5]"],
        of ex_env true_expr "\<lambda>_. True"] true_wanted n by blast
qed

lemma ex_class: "value_class (e_fp ex_env) whole_number"
  using ex_fpu_ok by (simp add: value_class_def ex_env_def)

lemma ex_key: "value_cmp (e_fp ex_env) (set_int 7 new_value) (set_int 7 new_value) = 0" "has_key ex_env whole_number t (int_expr 7) (set_int 7 new_value)"
proof -
  show "value_cmp (e_fp ex_env) (set_int 7 new_value) (set_int 7 new_value) = 0"
    using key_order.cmp_refl [OF numbers_order [OF ex_fpu_ok], of "set_int 7 new_value"] by (simp add: whole_number_def ex_env_def)
  then show "has_key ex_env whole_number t (int_expr 7) (set_int 7 new_value)" by (simp add: has_key_def int_expr_def whole_number_def)
qed

lemma ex_clone: "a \<in> set (visible_rows (scan_of ex_source rs)) \<Longrightarrow> clone_tuple [] a = Val (SUCCESS, Some (cache_tuple [] []))"
  by (auto simp: visible_rows_def scan_of_def ex_source_def clone_tuple_def row_tuple_def field_num_def ex_meta_def on_success_def)

interpretation ex_keyed: keyed_sources "table_scan ex_env (scan_of ex_source rs) []" "visible_rows (scan_of ex_source rs)"
    "table_scan ex_env (scan_of src rs') []" "\<lambda>_. True" "visible_rows (scan_of src rs')" ex_env "int_expr 7" "int_expr 7" "[]" whole_number
    "\<lambda>_. cache_tuple [] []" "\<lambda>_. set_int 7 new_value" "\<lambda>_. set_int 7 new_value"
  by unfold_locales (simp_all add: ex_class ex_key ex_clone)


theorem cached_row_first_cell_witness:
  "get_value ex_env (cache_tuple [\<lparr>cs_table = ascii ''t'', cs_field = ascii ''a'', cs_alias = []\<rparr>, \<lparr>cs_table = ascii ''t'', cs_field = ascii ''b'', cs_alias = []\<rparr>]
     [set_int 1 new_value, set_int 2 new_value]) (FieldExpr (ascii ''t'') (ascii ''b'') INTS) new_value = Val (SUCCESS, set_int 1 new_value)"
  using cached_row_first_cell [of "[\<lparr>cs_table = ascii ''t'', cs_field = ascii ''a'', cs_alias = []\<rparr>, \<lparr>cs_table = ascii ''t'', cs_field = ascii ''b'', cs_alias = []\<rparr>]"
      "[set_int 1 new_value, set_int 2 new_value]"] by simp

end
