(* ===== verification/RecordFile.thy ===== *)
theory RecordFile
  imports RecordPage "HOL-Library.Monad_Syntax"
begin

text \<open>
  Record files and their log: \<open>RecordFileHandler\<close> and \<open>RecordFileScanner\<close> of
  \<^verbatim>\<open>src/observer/storage/record/record_manager.{h,cpp}\<close>, and \<open>RecordLogHandler\<close> and \<open>RecordLogReplayer\<close> of
  \<^verbatim>\<open>src/observer/storage/record/record_log.{h,cpp}\<close>.

  A file is seen through its buffer pool as the clients of \<open>PoolPages\<close> see it: pages with their contents and
  sequence numbers, the allocation of pages, and the log, whose answer to an append is chosen by the environment.
  The pages that may have room, \<open>free_pages_\<close>, are an \<open>unordered_set\<close>: which page its \<open>begin()\<close> is, is a
  parameter (\<open>begin_page\<close>). The result \<open>None\<close> is a failed assertion or a loop that does not end.
\<close>

section \<open>The file\<close>

record RecFile =
  rf_id :: int
  rf_count :: nat
  rf_alloc :: "PageNum \<Rightarrow> bool"
  rf_pages :: "PageNum \<Rightarrow> RecPage"
  rf_lsn :: "PageNum \<Rightarrow> LSN"
  rf_log :: "(LSN \<times> byte list) list"
  rf_next :: LSN
  rf_log_io :: RC
  free_pages :: "PageNum set"

text \<open>What the record manager uses of the buffer pool: \<open>get_this_page\<close>, \<open>allocate_page\<close>, the iterator.\<close>

definition rf_max_pages :: nat where
  "rf_max_pages = (BP_PAGE_DATA_SIZE - 4 - 4) * 8"

definition zero_rec_page :: RecPage where
  "zero_rec_page = \<lparr>page_header = \<lparr>record_num = 0, record_real_size = 0, record_size = 0, record_capacity = 0,
     first_record_offset = 0\<rparr>, page_data = replicate BP_PAGE_DATA_SIZE 0, page_dirty = False\<rparr>"

definition rf_get_page :: "PageNum \<Rightarrow> RecFile \<Rightarrow> RC" where
  "rf_get_page p f = (if p < 0 then IOERR_SEEK else if p < int (rf_count f) then SUCCESS else IOERR_READ)"

definition rf_allocate :: "RecFile \<Rightarrow> (RC + PageNum) \<times> RecFile" where
  "rf_allocate f =
     (case filter (\<lambda>i. \<not> rf_alloc f (int i)) [0..<rf_count f] of
        i # _ \<Rightarrow> (Inr (int i), f\<lparr>rf_alloc := (rf_alloc f)(int i := True)\<rparr>)
      | [] \<Rightarrow>
          (if rf_count f \<ge> rf_max_pages then (Inl BUFFERPOOL_NOBUF, f)
           else (let p = int (rf_count f)
                 in (Inr p, f\<lparr>rf_alloc := (rf_alloc f)(p := True), rf_count := rf_count f + 1,
                              rf_pages := (rf_pages f)(p := zero_rec_page), rf_lsn := (rf_lsn f)(p := 0)\<rparr>))))"

definition rf_next_page :: "nat \<Rightarrow> PageNum \<Rightarrow> RecFile \<Rightarrow> PageNum option" where
  "rf_next_page n current f = map_option int (find (\<lambda>i. rf_alloc f (int i)) [nat (current + 1)..<n])"

definition put_page :: "PageNum \<Rightarrow> RecPage \<Rightarrow> RecFile \<Rightarrow> RecFile" where
  "put_page p pg f = f\<lparr>rf_pages := (rf_pages f)(p := pg)\<rparr>"

section \<open>The log\<close>

datatype RecordOperation = INIT_PAGE | INSERT_RECORD | DELETE_RECORD | UPDATE_RECORD

fun type_id :: "RecordOperation \<Rightarrow> int" where
  "type_id INIT_PAGE = 0"
| "type_id INSERT_RECORD = 1"
| "type_id DELETE_RECORD = 2"
| "type_id UPDATE_RECORD = 3"

definition operation_of :: "int \<Rightarrow> RecordOperation option" where
  "operation_of i = (if i = 0 then Some INIT_PAGE else if i = 1 then Some INSERT_RECORD
     else if i = 2 then Some DELETE_RECORD else if i = 3 then Some UPDATE_RECORD else None)"

text \<open>The slot number and the record size share a field, as in the source.\<close>

record RecordLogHeader =
  lh_pool :: int
  lh_op :: int
  lh_page :: PageNum
  lh_slot :: int
  lh_data :: "byte list"

definition RECORD_LOG_HEADER_SIZE :: nat where
  "RECORD_LOG_HEADER_SIZE = 16"

definition log_payload :: "RecordLogHeader \<Rightarrow> byte list" where
  "log_payload h = int_to_bytes 4 (lh_pool h) @ int_to_bytes 4 (lh_op h) @ int_to_bytes 4 (lh_page h)
     @ int_to_bytes 4 (lh_slot h) @ lh_data h"

definition log_header_of :: "byte list \<Rightarrow> RecordLogHeader" where
  "log_header_of bs = \<lparr>lh_pool = int32_of_bytes bs, lh_op = int32_of_bytes (drop 4 bs), lh_page = int32_of_bytes (drop 8 bs),
     lh_slot = int32_of_bytes (drop 12 bs), lh_data = drop RECORD_LOG_HEADER_SIZE bs\<rparr>"

text \<open>Appending an entry for a page; on success the page's sequence number is the entry's.\<close>

definition append_record_log :: "RecordLogHeader \<Rightarrow> RecFile \<Rightarrow> RC \<times> RecFile" where
  "append_record_log h f =
     (if rf_log_io f \<noteq> SUCCESS then (rf_log_io f, f)
      else (let lsn = rf_next f + 1
            in (SUCCESS, f\<lparr>rf_log := rf_log f @ [(lsn, log_payload h)], rf_next := lsn,
                           rf_lsn := (if lsn > 0 then (rf_lsn f)(lh_page h := lsn) else rf_lsn f)\<rparr>)))"

definition log_init_new_page :: "nat \<Rightarrow> PageNum \<Rightarrow> RecFile \<Rightarrow> RC \<times> RecFile" where
  "log_init_new_page rec_size p f = append_record_log
     \<lparr>lh_pool = rf_id f, lh_op = type_id INIT_PAGE, lh_page = p, lh_slot = int rec_size, lh_data = []\<rparr> f"

definition log_insert_record :: "nat \<Rightarrow> RID \<Rightarrow> byte list \<Rightarrow> RecFile \<Rightarrow> RC \<times> RecFile" where
  "log_insert_record rec_size rid data f = append_record_log
     \<lparr>lh_pool = rf_id f, lh_op = type_id INSERT_RECORD, lh_page = page_num rid, lh_slot = slot_num rid, lh_data = take rec_size data\<rparr> f"

definition log_update_record :: "nat \<Rightarrow> RID \<Rightarrow> byte list \<Rightarrow> RecFile \<Rightarrow> RC \<times> RecFile" where
  "log_update_record rec_size rid data f = append_record_log
     \<lparr>lh_pool = rf_id f, lh_op = type_id UPDATE_RECORD, lh_page = page_num rid, lh_slot = slot_num rid, lh_data = take rec_size data\<rparr> f"

definition log_delete_record :: "RID \<Rightarrow> RecFile \<Rightarrow> RC \<times> RecFile" where
  "log_delete_record rid f = append_record_log
     \<lparr>lh_pool = rf_id f, lh_op = type_id DELETE_RECORD, lh_page = page_num rid, lh_slot = slot_num rid, lh_data = []\<rparr> f"

section \<open>Page handlers with their log\<close>

text \<open>
  The operations of \<open>RecordPage\<close> on a page of the file, with the log entry the handler writes. The codes of the
  appends are ignored, as in the source, except for a new page.
\<close>

definition page_rec_size :: "PageNum \<Rightarrow> RecFile \<Rightarrow> nat" where
  "page_rec_size p f = record_real_size (page_header (rf_pages f p))"

definition handler_init_empty_page :: "PageNum \<Rightarrow> nat \<Rightarrow> RecFile \<Rightarrow> (RC \<times> RecFile) option" where
  "handler_init_empty_page p rec_size f =
     (let rc = rf_get_page p f
      in if rc \<noteq> SUCCESS then Some (rc, f)
         else (case log_init_new_page rec_size p f of
                 (rc, f1) \<Rightarrow> if rc \<noteq> SUCCESS then Some (rc, f1)
                            else map_option (\<lambda>pg. (SUCCESS, put_page p pg f1)) (init_empty_page rec_size (rf_pages f1 p))))"

definition handler_insert_record :: "PageNum \<Rightarrow> byte list \<Rightarrow> RecFile \<Rightarrow> (RC + RID) \<times> RecFile" where
  "handler_insert_record p data f =
     (case insert_record data (rf_pages f p) of
        (Inl rc, pg) \<Rightarrow> (Inl rc, f)
      | (Inr index, pg) \<Rightarrow>
          (let rid = \<lparr>page_num = p, slot_num = index\<rparr>
           in (Inr rid, put_page p pg (snd (log_insert_record (page_rec_size p f) rid data f)))))"

definition handler_delete_record :: "RID \<Rightarrow> RecFile \<Rightarrow> RC \<times> RecFile" where
  "handler_delete_record rid f =
     (case delete_record (slot_num rid) (rf_pages f (page_num rid)) of
        (rc, pg) \<Rightarrow> if rc \<noteq> SUCCESS then (rc, f) else (SUCCESS, put_page (page_num rid) pg (snd (log_delete_record rid f))))"

definition handler_update_record :: "RID \<Rightarrow> byte list \<Rightarrow> RecFile \<Rightarrow> RC \<times> RecFile" where
  "handler_update_record rid data f =
     (case update_record (slot_num rid) data (rf_pages f (page_num rid)) of
        (rc, pg) \<Rightarrow> if rc \<noteq> SUCCESS then (rc, f)
                   else (SUCCESS, put_page (page_num rid) pg (snd (log_update_record (page_rec_size (page_num rid) f) rid data f))))"

section \<open>The file handler\<close>

text \<open>\<open>init_free_pages\<close>: the loop over the iterator, which starts behind page 0.\<close>

partial_function (option) init_free_loop :: "nat \<Rightarrow> PageNum \<Rightarrow> RecFile \<Rightarrow> (RC \<times> RecFile) option" where
  "init_free_loop n current f =
     (case rf_next_page n current f of
        None \<Rightarrow> Some (SUCCESS, f)
      | Some p \<Rightarrow>
          (let rc = rf_get_page p f
           in if rc \<noteq> SUCCESS then Some (rc, f)
              else init_free_loop n p (if is_full (rf_pages f p) then f else f\<lparr>free_pages := insert p (free_pages f)\<rparr>)))"

definition init_free_pages :: "RecFile \<Rightarrow> (RC \<times> RecFile) option" where
  "init_free_pages f = init_free_loop (rf_count f) 0 f"

text \<open>\<open>init\<close> of a closed handler; the code of \<open>init_free_pages\<close> is logged and dropped.\<close>

definition file_init :: "RecFile \<Rightarrow> (RC \<times> RecFile) option" where
  "file_init f = map_option (\<lambda>(rc, f'). (SUCCESS, f')) (init_free_pages f)"

definition file_close :: "RecFile \<Rightarrow> RecFile" where
  "file_close f = f\<lparr>free_pages := {}\<rparr>"

text \<open>The search of \<open>insert_record\<close> for a page with room.\<close>

partial_function (option) find_room :: "(PageNum set \<Rightarrow> PageNum) \<Rightarrow> RecFile \<Rightarrow> ((RC + PageNum option) \<times> RecFile) option" where
  "find_room begin_page f =
     (if free_pages f = {} then Some (Inr None, f)
      else (let p = begin_page (free_pages f); rc = rf_get_page p f
            in if rc \<noteq> SUCCESS then Some (Inl rc, f)
               else if \<not> is_full (rf_pages f p) then Some (Inr (Some p), f)
               else find_room begin_page (f\<lparr>free_pages := free_pages f - {p}\<rparr>)))"

definition file_insert_record :: "(PageNum set \<Rightarrow> PageNum) \<Rightarrow> byte list \<Rightarrow> nat \<Rightarrow> RecFile \<Rightarrow> ((RC + RID) \<times> RecFile) option" where
  "file_insert_record begin_page data rec_size f =
     do {
       (r, f1) \<leftarrow> find_room begin_page f;
       case r of
         Inl rc \<Rightarrow> Some (Inl rc, f1)
       | Inr (Some p) \<Rightarrow> Some (handler_insert_record p data f1)
       | Inr None \<Rightarrow>
           (case rf_allocate f1 of
              (Inl rc, f2) \<Rightarrow> Some (Inl rc, f2)
            | (Inr p, f2) \<Rightarrow>
                do {
                  (rc, f3) \<leftarrow> handler_init_empty_page p rec_size f2;
                  if rc \<noteq> SUCCESS then Some (Inl rc, f3)
                  else Some (handler_insert_record p data (f3\<lparr>free_pages := insert p (free_pages f3)\<rparr>))
                })
     }"

definition file_recover_insert_record :: "byte list \<Rightarrow> RID \<Rightarrow> RecFile \<Rightarrow> RC \<times> RecFile" where
  "file_recover_insert_record data rid f =
     (let rc = rf_get_page (page_num rid) f
      in if rc \<noteq> SUCCESS then (rc, f)
         else (let f1 = f\<lparr>rf_alloc := (rf_alloc f)(page_num rid := True)\<rparr>
               in case recover_insert_record data (slot_num rid) (rf_pages f1 (page_num rid)) of
                    (rc, pg) \<Rightarrow> (rc, put_page (page_num rid) pg f1)))"

definition file_delete_record :: "RID \<Rightarrow> RecFile \<Rightarrow> RC \<times> RecFile" where
  "file_delete_record rid f =
     (let rc = rf_get_page (page_num rid) f
      in if rc \<noteq> SUCCESS then (rc, f)
         else (case handler_delete_record rid f of
                 (rc, f1) \<Rightarrow> if rc = SUCCESS then (SUCCESS, f1\<lparr>free_pages := insert (page_num rid) (free_pages f1)\<rparr>) else (rc, f1)))"

definition file_get_record :: "RID \<Rightarrow> RecFile \<Rightarrow> RC + byte list" where
  "file_get_record rid f =
     (let rc = rf_get_page (page_num rid) f
      in if rc \<noteq> SUCCESS then Inl rc else get_record (slot_num rid) (rf_pages f (page_num rid)))"

text \<open>\<open>visit_record\<close>: the updater works on a copy and says whether it changed it.\<close>

definition file_visit_record :: "RID \<Rightarrow> (byte list \<Rightarrow> bool \<times> byte list) \<Rightarrow> RecFile \<Rightarrow> RC \<times> RecFile" where
  "file_visit_record rid updater f =
     (case file_get_record rid f of
        Inl rc \<Rightarrow> (rc, f)
      | Inr data \<Rightarrow> (case updater data of (updated, data') \<Rightarrow> if updated then handler_update_record rid data' f else (SUCCESS, f)))"

section \<open>The scanner\<close>

text \<open>
  The page iterator is \<open>None\<close> until a page has been opened; the filter is the optional \<open>ConditionFilter\<close>.
\<close>

record RecordFileScanner =
  sc_size :: nat
  sc_current :: PageNum
  sc_page :: PageNum
  sc_slot :: "SlotNum option"
  sc_filter :: "(RID \<Rightarrow> byte list \<Rightarrow> bool) option"
  sc_next :: RID

definition new_file_scanner :: RecordFileScanner where
  "new_file_scanner = \<lparr>sc_size = 0, sc_current = -1, sc_page = -1, sc_slot = None, sc_filter = None,
     sc_next = \<lparr>page_num = -1, slot_num = -1\<rparr>\<rparr>"

text \<open>Opening sets the iterator over the pages and the filter; the iterator inside a page stays as it was.\<close>

definition open_scan :: "(RID \<Rightarrow> byte list \<Rightarrow> bool) option \<Rightarrow> RecFile \<Rightarrow> RecordFileScanner \<Rightarrow> RecordFileScanner" where
  "open_scan flt f sc = sc\<lparr>sc_size := rf_count f, sc_current := 0, sc_filter := flt\<rparr>"

definition close_scan :: "RecordFileScanner \<Rightarrow> RecordFileScanner" where
  "close_scan sc = sc\<lparr>sc_filter := None\<rparr>"

definition passes :: "RecordFileScanner \<Rightarrow> RID \<Rightarrow> byte list \<Rightarrow> bool" where
  "passes sc rid data = (case sc_filter sc of None \<Rightarrow> True | Some g \<Rightarrow> g rid data)"

partial_function (option) fetch_next_record_in_page :: "RecFile \<Rightarrow> SlotNum \<Rightarrow> RecordFileScanner \<Rightarrow>
    ((RC + RID \<times> byte list) \<times> RecordFileScanner) option" where
  "fetch_next_record_in_page f slot sc =
     (if slot = -1 then Some (Inl RECORD_EOF, sc\<lparr>sc_slot := Some slot, sc_next := (sc_next sc)\<lparr>slot_num := -1\<rparr>\<rparr>)
      else (case iter_next (rf_pages f (sc_page sc)) slot of
              ((s, data), slot') \<Rightarrow>
                (let rid = \<lparr>page_num = sc_page sc, slot_num = s\<rparr>
                 in if passes sc rid data then Some (Inr (rid, data), sc\<lparr>sc_slot := Some slot', sc_next := rid\<rparr>)
                    else fetch_next_record_in_page f slot' (sc\<lparr>sc_next := rid\<rparr>))))"

partial_function (option) fetch_next_page :: "RecFile \<Rightarrow> RecordFileScanner \<Rightarrow> ((RC + RID \<times> byte list) \<times> RecordFileScanner) option" where
  "fetch_next_page f sc =
     (case rf_next_page (sc_size sc) (sc_current sc) f of
        None \<Rightarrow> Some (Inl RECORD_EOF, sc\<lparr>sc_next := (sc_next sc)\<lparr>slot_num := -1\<rparr>\<rparr>)
      | Some p \<Rightarrow>
          (let rc = rf_get_page p f; sc1 = sc\<lparr>sc_current := p, sc_page := p\<rparr>
           in if rc \<noteq> SUCCESS then Some (Inl rc, sc1)
              else Option.bind (fetch_next_record_in_page f (iter_init (rf_pages f p) 0) sc1) (\<lambda>r.
                     (case r of
                        (Inl rc, sc2) \<Rightarrow> if rc \<noteq> RECORD_EOF then Some (Inl rc, sc2) else fetch_next_page f sc2
                      | (Inr rec, sc2) \<Rightarrow> Some (Inr rec, sc2)))))"

definition fetch_next_record :: "RecFile \<Rightarrow> RecordFileScanner \<Rightarrow> ((RC + RID \<times> byte list) \<times> RecordFileScanner) option" where
  "fetch_next_record f sc =
     (case sc_slot sc of
        None \<Rightarrow> fetch_next_page f sc
      | Some slot \<Rightarrow>
          do {
            (r, sc1) \<leftarrow> fetch_next_record_in_page f slot sc;
            (case r of
               Inl rc \<Rightarrow> if rc \<noteq> RECORD_EOF then Some (Inl rc, sc1) else fetch_next_page f sc1
             | Inr rec \<Rightarrow> Some (Inr rec, sc1))
          })"

definition update_current :: "RID \<Rightarrow> byte list \<Rightarrow> RecordFileScanner \<Rightarrow> RecFile \<Rightarrow> RC \<times> RecFile" where
  "update_current rid data sc f = (if rid \<noteq> sc_next sc then (INVALID_ARGUMENT, f) else handler_update_record rid data f)"

text \<open>The way a scan is used: \<open>next\<close> until it reports the end.\<close>

partial_function (option) scan_file :: "RecFile \<Rightarrow> RecordFileScanner \<Rightarrow> (RID \<times> byte list) list \<Rightarrow> (RC \<times> (RID \<times> byte list) list) option" where
  "scan_file f sc acc =
     Option.bind (fetch_next_record f sc) (\<lambda>r.
       (case r of
          (Inl rc, sc1) \<Rightarrow> Some (rc, acc)
        | (Inr rec, sc1) \<Rightarrow> scan_file f sc1 (acc @ [rec])))"

section \<open>Replaying the log\<close>

text \<open>The operation of an entry on its page, with a log handler that drops everything.\<close>

definition replay_on_page :: "RecordLogHeader \<Rightarrow> RecPage \<Rightarrow> (RC \<times> RecPage) option" where
  "replay_on_page h pg =
     (case operation_of (lh_op h) of
        None \<Rightarrow> Some (INVALID_ARGUMENT, pg)
      | Some INIT_PAGE \<Rightarrow> map_option (\<lambda>pg'. (SUCCESS, pg')) (init_empty_page (nat (lh_slot h)) pg)
      | Some INSERT_RECORD \<Rightarrow> Some (case insert_record (lh_data h) pg of (Inl rc, pg') \<Rightarrow> (rc, pg') | (Inr _, pg') \<Rightarrow> (SUCCESS, pg'))
      | Some DELETE_RECORD \<Rightarrow> Some (delete_record (lh_slot h) pg)
      | Some UPDATE_RECORD \<Rightarrow> Some (update_record (lh_slot h) (lh_data h) pg))"

definition replay_record :: "LSN \<times> byte list \<Rightarrow> RecFile \<Rightarrow> (RC \<times> RecFile) option" where
  "replay_record e f =
     (if length (snd e) < RECORD_LOG_HEADER_SIZE then Some (INVALID_ARGUMENT, f)
      else (let h = log_header_of (snd e); rc = rf_get_page (lh_page h) f
            in if rc \<noteq> SUCCESS then Some (rc, f)
               else if rf_lsn f (lh_page h) \<ge> fst e then Some (SUCCESS, f)
               else (case replay_on_page h (rf_pages f (lh_page h)) of
                       None \<Rightarrow> None
                     | Some (rc, pg) \<Rightarrow>
                         (let f1 = put_page (lh_page h) pg f
                          in if rc \<noteq> SUCCESS then Some (rc, f1)
                             else Some (SUCCESS, f1\<lparr>rf_lsn := (rf_lsn f1)(lh_page h := fst e)\<rparr>)))))"

fun replay_records :: "(LSN \<times> byte list) list \<Rightarrow> RecFile \<Rightarrow> (RC \<times> RecFile) option" where
  "replay_records [] f = Some (SUCCESS, f)"
| "replay_records (e # es) f =
     Option.bind (replay_record e f) (\<lambda>r. case r of (rc, f1) \<Rightarrow> if rc \<noteq> SUCCESS then Some (rc, f1) else replay_records es f1)"

end
