(* ===== verification/Table.thy ===== *)
theory Table
  imports RecordFile BplusTree
begin

text \<open>
  Tables (\<^verbatim>\<open>src/observer/storage/table/table.cpp\<close>): a record file and the B+ tree indexes over it
  (\<^verbatim>\<open>src/observer/storage/index/bplus_tree_index.cpp\<close>). Of the description of the table the operations use the size of a
  record, the offsets of the two transaction fields and, for every index, the offset of its column. The result \<open>None\<close>
  is a failed assertion.
\<close>

record TableIndex =
  ix_offset :: nat
  ix_tree :: btree

record Table =
  tb_record_size :: nat
  tb_begin_offset :: nat
  tb_end_offset :: nat
  tb_heap :: RecFile
  tb_indexes :: "TableIndex list"

section \<open>Indexes\<close>

definition index_insert_entry :: "byte list \<Rightarrow> RID \<Rightarrow> TableIndex \<Rightarrow> (RC \<times> TableIndex) option" where
  "index_insert_entry rec rid ix = map_option (\<lambda>(rc, t). (rc, ix\<lparr>ix_tree := t\<rparr>)) (insert_entry (drop (ix_offset ix) rec) rid (ix_tree ix))"

definition index_delete_entry :: "byte list \<Rightarrow> RID \<Rightarrow> TableIndex \<Rightarrow> (RC \<times> TableIndex) option" where
  "index_delete_entry rec rid ix = map_option (\<lambda>(rc, t). (rc, ix\<lparr>ix_tree := t\<rparr>)) (delete_entry (drop (ix_offset ix) rec) rid (ix_tree ix))"

fun insert_entry_of_indexes :: "byte list \<Rightarrow> RID \<Rightarrow> TableIndex list \<Rightarrow> (RC \<times> TableIndex list) option" where
  "insert_entry_of_indexes rec rid [] = Some (SUCCESS, [])"
| "insert_entry_of_indexes rec rid (ix # ixs) =
     do {
       (rc, ix') \<leftarrow> index_insert_entry rec rid ix;
       if rc \<noteq> SUCCESS then Some (rc, ix' # ixs)
       else do { (rc', ixs') \<leftarrow> insert_entry_of_indexes rec rid ixs; Some (rc', ix' # ixs') }
     }"

text \<open>The code returned is that of the last index visited.\<close>

fun delete_entry_of_indexes :: "bool \<Rightarrow> byte list \<Rightarrow> RID \<Rightarrow> RC \<Rightarrow> TableIndex list \<Rightarrow> (RC \<times> TableIndex list) option" where
  "delete_entry_of_indexes error_on_not_exists rec rid rc0 [] = Some (rc0, [])"
| "delete_entry_of_indexes error_on_not_exists rec rid rc0 (ix # ixs) =
     do {
       (rc, ix') \<leftarrow> index_delete_entry rec rid ix;
       if rc \<noteq> SUCCESS \<and> (rc \<noteq> RECORD_INVALID_KEY \<or> \<not> error_on_not_exists) then Some (rc, ix' # ixs)
       else do { (rc', ixs') \<leftarrow> delete_entry_of_indexes error_on_not_exists rec rid rc ixs; Some (rc', ix' # ixs') }
     }"

text \<open>The loop of \<open>delete_record\<close>, which asserts that every index has the entry.\<close>

fun remove_from_indexes :: "byte list \<Rightarrow> RID \<Rightarrow> TableIndex list \<Rightarrow> TableIndex list option" where
  "remove_from_indexes rec rid [] = Some []"
| "remove_from_indexes rec rid (ix # ixs) =
     do {
       (rc, ix') \<leftarrow> index_delete_entry rec rid ix;
       if rc \<noteq> SUCCESS then None
       else do { ixs' \<leftarrow> remove_from_indexes rec rid ixs; Some (ix' # ixs') }
     }"

section \<open>Records\<close>

text \<open>What both insertions do once the record is in the file; failures of the clean-up are only logged.\<close>

definition add_to_indexes :: "byte list \<Rightarrow> RID \<Rightarrow> Table \<Rightarrow> ((RC + RID) \<times> Table) option" where
  "add_to_indexes rec rid tb =
     do {
       (rc, ixs) \<leftarrow> insert_entry_of_indexes rec rid (tb_indexes tb);
       if rc = SUCCESS then Some (Inr rid, tb\<lparr>tb_indexes := ixs\<rparr>)
       else do {
         (rc2, ixs') \<leftarrow> delete_entry_of_indexes False rec rid SUCCESS ixs;
         Some (Inl rc, tb\<lparr>tb_indexes := ixs', tb_heap := snd (file_delete_record rid (tb_heap tb))\<rparr>)
       }
     }"

definition table_insert_record :: "(PageNum set \<Rightarrow> PageNum) \<Rightarrow> byte list \<Rightarrow> Table \<Rightarrow> ((RC + RID) \<times> Table) option" where
  "table_insert_record begin_page rec tb =
     do {
       (r, heap) \<leftarrow> file_insert_record begin_page rec (tb_record_size tb) (tb_heap tb);
       (case r of
          Inl rc \<Rightarrow> Some (Inl rc, tb\<lparr>tb_heap := heap\<rparr>)
        | Inr rid \<Rightarrow> add_to_indexes rec rid (tb\<lparr>tb_heap := heap\<rparr>))
     }"

definition table_recover_insert_record :: "byte list \<Rightarrow> RID \<Rightarrow> Table \<Rightarrow> ((RC + RID) \<times> Table) option" where
  "table_recover_insert_record rec rid tb =
     (case file_recover_insert_record rec rid (tb_heap tb) of
        (rc, heap) \<Rightarrow> if rc \<noteq> SUCCESS then Some (Inl rc, tb\<lparr>tb_heap := heap\<rparr>) else add_to_indexes rec rid (tb\<lparr>tb_heap := heap\<rparr>))"

definition table_get_record :: "RID \<Rightarrow> Table \<Rightarrow> RC + byte list" where
  "table_get_record rid tb = file_get_record rid (tb_heap tb)"

definition table_visit_record :: "RID \<Rightarrow> (byte list \<Rightarrow> bool \<times> byte list) \<Rightarrow> Table \<Rightarrow> RC \<times> Table" where
  "table_visit_record rid visitor tb = (case file_visit_record rid visitor (tb_heap tb) of (rc, heap) \<Rightarrow> (rc, tb\<lparr>tb_heap := heap\<rparr>))"

definition table_delete_data :: "byte list \<Rightarrow> RID \<Rightarrow> Table \<Rightarrow> (RC \<times> Table) option" where
  "table_delete_data rec rid tb =
     do {
       ixs \<leftarrow> remove_from_indexes rec rid (tb_indexes tb);
       (case file_delete_record rid (tb_heap tb) of (rc, heap) \<Rightarrow> Some (rc, tb\<lparr>tb_indexes := ixs, tb_heap := heap\<rparr>))
     }"

definition table_delete_record :: "RID \<Rightarrow> Table \<Rightarrow> (RC \<times> Table) option" where
  "table_delete_record rid tb =
     (case table_get_record rid tb of Inl rc \<Rightarrow> Some (rc, tb) | Inr rec \<Rightarrow> table_delete_data rec rid tb)"

section \<open>Creating an index\<close>

text \<open>
  The part of \<open>create_index\<close> that fills the new index: every record a scan returns is inserted, and the index is added
  to the table once the scan has reached its end.
\<close>

fun fill_index :: "(RID \<times> byte list) list \<Rightarrow> TableIndex \<Rightarrow> (RC \<times> TableIndex) option" where
  "fill_index [] ix = Some (SUCCESS, ix)"
| "fill_index ((rid, rec) # rs) ix =
     do { (rc, ix') \<leftarrow> index_insert_entry rec rid ix; if rc \<noteq> SUCCESS then Some (rc, ix') else fill_index rs ix' }"

definition create_index :: "TableIndex \<Rightarrow> Table \<Rightarrow> (RC \<times> Table) option" where
  "create_index ix tb =
     do {
       (end_rc, rs) \<leftarrow> scan_file (tb_heap tb) (open_scan None (tb_heap tb) new_file_scanner) [];
       (rc, ix') \<leftarrow> fill_index rs ix;
       Some (if rc \<noteq> SUCCESS then (rc, tb)
             else if end_rc \<noteq> RECORD_EOF then (end_rc, tb)
             else (SUCCESS, tb\<lparr>tb_indexes := tb_indexes tb @ [ix']\<rparr>))
     }"

end
