(* ===== verification/MvccTrx.thy ===== *)
theory MvccTrx
  imports Table
begin

text \<open>
  Multi-version transactions: \<^verbatim>\<open>src/observer/storage/trx/mvcc_trx.{h,cpp}\<close> and \<^verbatim>\<open>mvcc_trx_log.{h,cpp}\<close>. A record carries the
  transaction that created it and the one that deleted it; a negative number is a transaction that has not committed.

  The tables of the database are a map from table numbers. The log is the list of appended payloads; whether an
  append succeeds is chosen by the environment. The result \<open>None\<close> is a failed assertion.
\<close>

section \<open>The transaction fields of a record\<close>

definition field_get_int :: "nat \<Rightarrow> byte list \<Rightarrow> int" where
  "field_get_int offset rec = int32_of_bytes (drop offset rec)"

definition field_set_int :: "nat \<Rightarrow> int \<Rightarrow> byte list \<Rightarrow> byte list" where
  "field_set_int offset v rec = write_bytes offset (int_to_bytes 4 v) rec"

definition max_trx_id :: int where
  "max_trx_id = 2 ^ 31 - 1"

section \<open>The log\<close>

datatype MvccTrxLogOperation = TRX_INSERT_RECORD | TRX_DELETE_RECORD | TRX_COMMIT | TRX_ROLLBACK

fun trx_op_index :: "MvccTrxLogOperation \<Rightarrow> int" where
  "trx_op_index TRX_INSERT_RECORD = 0"
| "trx_op_index TRX_DELETE_RECORD = 1"
| "trx_op_index TRX_COMMIT = 2"
| "trx_op_index TRX_ROLLBACK = 3"

definition trx_op_of :: "int \<Rightarrow> MvccTrxLogOperation option" where
  "trx_op_of i = (if i = 0 then Some TRX_INSERT_RECORD else if i = 1 then Some TRX_DELETE_RECORD
     else if i = 2 then Some TRX_COMMIT else if i = 3 then Some TRX_ROLLBACK else None)"

definition TRX_LOG_HEADER_SIZE :: nat where
  "TRX_LOG_HEADER_SIZE = 8"

definition record_log_payload :: "MvccTrxLogOperation \<Rightarrow> int \<Rightarrow> int \<Rightarrow> RID \<Rightarrow> byte list" where
  "record_log_payload oper trx_id table_id rid = int_to_bytes 4 (trx_op_index oper) @ int_to_bytes 4 trx_id
     @ int_to_bytes 4 table_id @ int_to_bytes 4 (page_num rid) @ int_to_bytes 4 (slot_num rid)"

definition commit_log_payload :: "int \<Rightarrow> int \<Rightarrow> byte list" where
  "commit_log_payload trx_id commit_id = int_to_bytes 4 (trx_op_index TRX_COMMIT) @ int_to_bytes 4 trx_id @ int_to_bytes 4 commit_id"

text \<open>The last field of a rollback entry is not initialised; its bytes are whatever the stack holds.\<close>

definition rollback_log_payload :: "byte list \<Rightarrow> int \<Rightarrow> byte list" where
  "rollback_log_payload stack trx_id = int_to_bytes 4 (trx_op_index TRX_ROLLBACK) @ int_to_bytes 4 trx_id @ stack"

section \<open>State\<close>

text \<open>Of the types of operations, updates are never recorded: an update is a deletion and an insertion.\<close>

datatype OpType = OP_INSERT | OP_DELETE

type_synonym TrxOperation = "OpType \<times> int \<times> RID"

record MvccTrx =
  trx_id :: int
  trx_started :: bool
  trx_recovering :: bool
  trx_operations :: "TrxOperation list"

record MvccDb =
  db_tables :: "int \<Rightarrow> Table option"
  current_trx_id :: int
  db_log :: "byte list list"
  db_log_io :: RC
  db_wait_io :: RC
  db_stack :: "byte list"

definition new_trx :: MvccTrx where
  "new_trx = \<lparr>trx_id = -1, trx_started = False, trx_recovering = False, trx_operations = []\<rparr>"

definition recovered_trx :: "int \<Rightarrow> MvccTrx" where
  "recovered_trx tid = \<lparr>trx_id = tid, trx_started = True, trx_recovering = True, trx_operations = []\<rparr>"

definition put_table :: "int \<Rightarrow> Table \<Rightarrow> MvccDb \<Rightarrow> MvccDb" where
  "put_table table_id tb db = db\<lparr>db_tables := (db_tables db)(table_id \<mapsto> tb)\<rparr>"

definition next_trx_id :: "MvccDb \<Rightarrow> int \<times> MvccDb" where
  "next_trx_id db = (let i = signed_take_bit 31 (current_trx_id db + 1) in (i, db\<lparr>current_trx_id := i\<rparr>))"

definition append_trx_log :: "byte list \<Rightarrow> MvccDb \<Rightarrow> RC \<times> MvccDb" where
  "append_trx_log payload db =
     (if db_log_io db \<noteq> SUCCESS then (db_log_io db, db) else (SUCCESS, db\<lparr>db_log := db_log db @ [payload]\<rparr>))"

text \<open>The handlers assert that the transaction has a number. A commit waits until its entry is on the disk.\<close>

definition trx_log_record :: "MvccTrxLogOperation \<Rightarrow> int \<Rightarrow> int \<Rightarrow> RID \<Rightarrow> MvccDb \<Rightarrow> (RC \<times> MvccDb) option" where
  "trx_log_record oper tid table_id rid db =
     (if tid > 0 then Some (append_trx_log (record_log_payload oper tid table_id rid) db) else None)"

definition trx_log_commit :: "int \<Rightarrow> int \<Rightarrow> MvccDb \<Rightarrow> (RC \<times> MvccDb) option" where
  "trx_log_commit tid commit_id db =
     (if tid > 0 \<and> commit_id > tid
      then (case append_trx_log (commit_log_payload tid commit_id) db of (rc, db1) \<Rightarrow> Some (if rc \<noteq> SUCCESS then rc else db_wait_io db1, db1))
      else None)"

definition trx_log_rollback :: "int \<Rightarrow> MvccDb \<Rightarrow> (RC \<times> MvccDb) option" where
  "trx_log_rollback tid db =
     (if tid > 0 then Some (append_trx_log (rollback_log_payload (db_stack db) tid) db) else None)"

section \<open>Operations of a transaction\<close>

definition start_if_need :: "MvccTrx \<Rightarrow> MvccDb \<Rightarrow> (MvccTrx \<times> MvccDb) option" where
  "start_if_need trx db =
     (if trx_started trx then Some (trx, db)
      else if trx_operations trx \<noteq> [] then None
      else (case next_trx_id db of (i, db1) \<Rightarrow> Some (trx\<lparr>trx_id := i, trx_started := True\<rparr>, db1)))"

text \<open>\<open>visit_record\<close>, from the two fields of the record.\<close>

definition mvcc_visit :: "int \<Rightarrow> bool \<Rightarrow> int \<Rightarrow> int \<Rightarrow> RC" where
  "mvcc_visit tid read_only begin_xid end_xid =
     (if begin_xid > 0 \<and> end_xid > 0 then
        (if tid \<ge> begin_xid \<and> tid \<le> end_xid then SUCCESS else RECORD_INVISIBLE)
      else if begin_xid < 0 then
        (if - begin_xid = tid then SUCCESS else RECORD_INVISIBLE)
      else if end_xid < 0 then
        (if read_only then (if - end_xid \<noteq> tid then SUCCESS else RECORD_INVISIBLE)
         else (if - end_xid \<noteq> tid then LOCKED_CONCURRENCY_CONFLICT else RECORD_INVISIBLE))
      else SUCCESS)"

definition trx_visit_record :: "int \<Rightarrow> bool \<Rightarrow> Table \<Rightarrow> byte list \<Rightarrow> RC" where
  "trx_visit_record tid read_only tb rec =
     mvcc_visit tid read_only (field_get_int (tb_begin_offset tb) rec) (field_get_int (tb_end_offset tb) rec)"

definition trx_insert_record :: "(PageNum set \<Rightarrow> PageNum) \<Rightarrow> int \<Rightarrow> byte list \<Rightarrow> MvccTrx \<Rightarrow> MvccDb \<Rightarrow> ((RC + RID) \<times> MvccTrx \<times> MvccDb) option" where
  "trx_insert_record begin_page table_id rec trx db =
     do {
       tb \<leftarrow> db_tables db table_id;
       let rec' = field_set_int (tb_end_offset tb) max_trx_id (field_set_int (tb_begin_offset tb) (- trx_id trx) rec);
       (r, tb') \<leftarrow> table_insert_record begin_page rec' tb;
       let db1 = put_table table_id tb' db;
       (case r of
          Inl rc \<Rightarrow> Some (Inl rc, trx, db1)
        | Inr rid \<Rightarrow>
            do {
              (rc, db2) \<leftarrow> trx_log_record TRX_INSERT_RECORD (trx_id trx) table_id rid db1;
              if rc \<noteq> SUCCESS then None
              else Some (Inr rid, trx\<lparr>trx_operations := trx_operations trx @ [(OP_INSERT, table_id, rid)]\<rparr>, db2)
            })
     }"

text \<open>The visitor of \<open>delete_record\<close>: the record is marked if the transaction may change it.\<close>

definition mark_deleted :: "int \<Rightarrow> Table \<Rightarrow> byte list \<Rightarrow> bool \<times> byte list" where
  "mark_deleted tid tb rec =
     (if trx_visit_record tid False tb rec \<noteq> SUCCESS then (False, rec) else (True, field_set_int (tb_end_offset tb) (- tid) rec))"

definition trx_delete_record :: "int \<Rightarrow> RID \<Rightarrow> MvccTrx \<Rightarrow> MvccDb \<Rightarrow> (RC \<times> MvccTrx \<times> MvccDb) option" where
  "trx_delete_record table_id rid trx db =
     do {
       tb \<leftarrow> db_tables db table_id;
       let delete_result = (case table_get_record rid tb of Inl rc \<Rightarrow> SUCCESS | Inr rec \<Rightarrow> trx_visit_record (trx_id trx) False tb rec);
       (case table_visit_record rid (mark_deleted (trx_id trx) tb) tb of
          (rc, tb') \<Rightarrow>
            let db1 = put_table table_id tb' db
            in if rc \<noteq> SUCCESS then Some (rc, trx, db1)
               else if delete_result \<noteq> SUCCESS then Some (delete_result, trx, db1)
               else do {
                 (rc, db2) \<leftarrow> trx_log_record TRX_DELETE_RECORD (trx_id trx) table_id rid db1;
                 if rc \<noteq> SUCCESS then None
                 else Some (SUCCESS, trx\<lparr>trx_operations := trx_operations trx @ [(OP_DELETE, table_id, rid)]\<rparr>, db2)
               })
     }"

text \<open>The updates of commit and rollback, with the assertions of their visitors.\<close>

definition commit_operation :: "int \<Rightarrow> MvccTrx \<Rightarrow> TrxOperation \<Rightarrow> MvccDb \<Rightarrow> MvccDb option" where
  "commit_operation commit_xid trx oper db =
     (case oper of (ty, table_id, rid) \<Rightarrow>
        do {
          tb \<leftarrow> db_tables db table_id;
          (case table_get_record rid tb of
             Inl rc \<Rightarrow> None
           | Inr rec \<Rightarrow>
               (let ok = (case ty of
                            OP_INSERT \<Rightarrow> field_get_int (tb_begin_offset tb) rec = - trx_id trx \<and> \<not> trx_recovering trx
                          | OP_DELETE \<Rightarrow> field_get_int (tb_end_offset tb) rec = - trx_id trx);
                    offset = (case ty of OP_INSERT \<Rightarrow> tb_begin_offset tb | OP_DELETE \<Rightarrow> tb_end_offset tb)
                in if \<not> ok then None
                   else (case table_visit_record rid (\<lambda>rec. (True, field_set_int offset commit_xid rec)) tb of
                           (rc, tb') \<Rightarrow> if rc \<noteq> SUCCESS then None else Some (put_table table_id tb' db))))
        })"

fun commit_operations :: "int \<Rightarrow> MvccTrx \<Rightarrow> TrxOperation list \<Rightarrow> MvccDb \<Rightarrow> MvccDb option" where
  "commit_operations commit_xid trx [] db = Some db"
| "commit_operations commit_xid trx (op # ops) db = Option.bind (commit_operation commit_xid trx op db) (commit_operations commit_xid trx ops)"

definition commit_with_trx_id :: "int \<Rightarrow> MvccTrx \<Rightarrow> MvccDb \<Rightarrow> (RC \<times> MvccTrx \<times> MvccDb) option" where
  "commit_with_trx_id commit_xid trx db =
     do {
       db1 \<leftarrow> commit_operations commit_xid trx (trx_operations trx) db;
       let trx1 = trx\<lparr>trx_started := False, trx_operations := []\<rparr>;
       (if trx_recovering trx then Some (SUCCESS, trx1, db1)
        else do { (rc, db2) \<leftarrow> trx_log_commit (trx_id trx) commit_xid db1; Some (rc, trx1, db2) })
     }"

definition trx_commit :: "MvccTrx \<Rightarrow> MvccDb \<Rightarrow> (RC \<times> MvccTrx \<times> MvccDb) option" where
  "trx_commit trx db = (case next_trx_id db of (commit_id, db1) \<Rightarrow> commit_with_trx_id commit_id trx db1)"

text \<open>
  One operation undone; the code is that of the loop variable \<open>rc\<close>, which the next operation may look at. An error while
  reading a record during recovery leaves the whole loop (\<open>Inl\<close>).
\<close>

definition rollback_operation :: "MvccTrx \<Rightarrow> TrxOperation \<Rightarrow> RC \<Rightarrow> MvccDb \<Rightarrow> (RC + RC \<times> MvccDb) option" where
  "rollback_operation trx oper rc0 db =
     (case oper of (ty, table_id, rid) \<Rightarrow>
        do {
          tb \<leftarrow> db_tables db table_id;
          (case ty of
             OP_INSERT \<Rightarrow>
               (let rec = table_get_record rid tb;
                    skip = trx_recovering trx \<and>
                      (case rec of Inr r \<Rightarrow> field_get_int (tb_begin_offset tb) r \<noteq> - trx_id trx | Inl rc \<Rightarrow> rc = RECORD_NOT_EXIST)
                in if trx_recovering trx \<and> (case rec of Inr r \<Rightarrow> False | Inl rc \<Rightarrow> rc \<noteq> RECORD_NOT_EXIST)
                   then Some (Inl (case rec of Inr r \<Rightarrow> SUCCESS | Inl rc \<Rightarrow> rc))
                   else if skip then Some (Inr (case rec of Inr r \<Rightarrow> SUCCESS | Inl rc \<Rightarrow> rc, db))
                   else do {
                     (rc, tb') \<leftarrow> table_delete_record rid tb;
                     if rc \<noteq> SUCCESS then None else Some (Inr (SUCCESS, put_table table_id tb' db))
                   })
           | OP_DELETE \<Rightarrow>
               (if rc0 \<noteq> SUCCESS then None
                else (case table_get_record rid tb of
                        Inl rc \<Rightarrow> None
                      | Inr rec \<Rightarrow>
                          if field_get_int (tb_end_offset tb) rec \<noteq> - trx_id trx then (if trx_recovering trx then Some (Inr (SUCCESS, db)) else None)
                          else (case table_visit_record rid (\<lambda>rec. (True, field_set_int (tb_end_offset tb) max_trx_id rec)) tb of
                                  (rc, tb') \<Rightarrow> if rc \<noteq> SUCCESS then None else Some (Inr (SUCCESS, put_table table_id tb' db))))))
        })"

fun rollback_operations :: "MvccTrx \<Rightarrow> TrxOperation list \<Rightarrow> RC \<Rightarrow> MvccDb \<Rightarrow> (RC option \<times> MvccDb) option" where
  "rollback_operations trx [] rc db = Some (None, db)"
| "rollback_operations trx (op # ops) rc db =
     Option.bind (rollback_operation trx op rc db)
       (\<lambda>r. (case r of Inl rc' \<Rightarrow> Some (Some rc', db) | Inr (rc', db') \<Rightarrow> rollback_operations trx ops rc' db'))"

definition trx_rollback :: "MvccTrx \<Rightarrow> MvccDb \<Rightarrow> (RC \<times> MvccTrx \<times> MvccDb) option" where
  "trx_rollback trx db =
     do {
       (r, db1) \<leftarrow> rollback_operations trx (rev (trx_operations trx)) SUCCESS db;
       (case r of
          Some rc \<Rightarrow> Some (rc, trx\<lparr>trx_started := False\<rparr>, db1)
        | None \<Rightarrow>
            (let trx1 = trx\<lparr>trx_started := False, trx_operations := []\<rparr>
             in if trx_recovering trx then Some (SUCCESS, trx1, db1)
                else do { (rc, db2) \<leftarrow> trx_log_rollback (trx_id trx) db1; Some (rc, trx1, db2) }))
     }"

section \<open>Redo and replay\<close>

definition trx_redo :: "byte list \<Rightarrow> MvccTrx \<Rightarrow> MvccDb \<Rightarrow> (RC \<times> MvccTrx) option" where
  "trx_redo payload trx db =
     (let table_id = int32_of_bytes (drop 8 payload);
          rid = \<lparr>page_num = int32_of_bytes (drop 12 payload), slot_num = int32_of_bytes (drop 16 payload)\<rparr>
      in case trx_op_of (int32_of_bytes payload) of
           None \<Rightarrow> None
         | Some TRX_INSERT_RECORD \<Rightarrow>
             Some (if db_tables db table_id = None then (SCHEMA_TABLE_NOT_EXIST, trx)
                   else (SUCCESS, trx\<lparr>trx_operations := trx_operations trx @ [(OP_INSERT, table_id, rid)]\<rparr>))
         | Some TRX_DELETE_RECORD \<Rightarrow>
             Some (if db_tables db table_id = None then (SCHEMA_TABLE_NOT_EXIST, trx)
                   else (SUCCESS, trx\<lparr>trx_operations := trx_operations trx @ [(OP_DELETE, table_id, rid)]\<rparr>))
         | Some TRX_COMMIT \<Rightarrow> Some (SUCCESS, trx)
         | Some TRX_ROLLBACK \<Rightarrow> Some (SUCCESS, trx))"

text \<open>
  The transactions of the kit are objects with an address; the replayer has a map from transaction numbers to
  addresses, in which \<open>None\<close> is the null pointer.
\<close>

record TrxReplayer =
  kit_trxes :: "(nat \<times> MvccTrx) list"
  kit_next :: nat
  trx_map :: "(int \<times> nat option) list"

definition create_trx :: "int \<Rightarrow> TrxReplayer \<Rightarrow> MvccDb \<Rightarrow> nat \<times> TrxReplayer \<times> MvccDb" where
  "create_trx tid s db =
     (kit_next s, s\<lparr>kit_trxes := kit_trxes s @ [(kit_next s, recovered_trx tid)], kit_next := kit_next s + 1\<rparr>,
      db\<lparr>current_trx_id := max (current_trx_id db) tid\<rparr>)"

definition destroy_trx :: "nat option \<Rightarrow> TrxReplayer \<Rightarrow> TrxReplayer" where
  "destroy_trx a s = s\<lparr>kit_trxes := filter (\<lambda>t. Some (fst t) \<noteq> a) (kit_trxes s)\<rparr>"

definition find_trx :: "int \<Rightarrow> TrxReplayer \<Rightarrow> nat option" where
  "find_trx tid s = map_option fst (find (\<lambda>t. trx_id (snd t) = tid) (kit_trxes s))"

definition trx_replay :: "byte list \<Rightarrow> TrxReplayer \<Rightarrow> MvccDb \<Rightarrow> (RC \<times> TrxReplayer \<times> MvccDb) option" where
  "trx_replay payload s db =
     (if length payload < TRX_LOG_HEADER_SIZE then Some (LOG_ENTRY_INVALID, s, db)
      else (let tid = int32_of_bytes (drop 4 payload);
                (a, s1, db1) = (case map_of (trx_map s) tid of
                                  None \<Rightarrow> (case create_trx tid s db of (a, s1, db1) \<Rightarrow> (Some a, s1, db1))
                                | Some a \<Rightarrow> (a, s, db))
            in do {
                 addr \<leftarrow> a;
                 trx \<leftarrow> map_of (kit_trxes s1) addr;
                 (rc, trx') \<leftarrow> trx_redo payload trx db1;
                 let s2 = s1\<lparr>kit_trxes := map (\<lambda>t. if fst t = addr then (addr, trx') else t) (kit_trxes s1)\<rparr>;
                 let oper = trx_op_of (int32_of_bytes payload);
                 Some (rc,
                       if oper = Some TRX_ROLLBACK \<or> oper = Some TRX_COMMIT
                       then (destroy_trx (case map_of (trx_map s2) tid of None \<Rightarrow> None | Some a \<Rightarrow> a) s2)
                              \<lparr>trx_map := filter (\<lambda>e. fst e \<noteq> tid) (trx_map s2)\<rparr>
                       else s2, db1)
               }))"

text \<open>The entries of the log in their order, up to the first error.\<close>

fun trx_replay_all :: "byte list list \<Rightarrow> TrxReplayer \<Rightarrow> MvccDb \<Rightarrow> (RC \<times> TrxReplayer \<times> MvccDb) option" where
  "trx_replay_all [] s db = Some (SUCCESS, s, db)"
| "trx_replay_all (e # es) s db =
     Option.bind (trx_replay e s db) (\<lambda>(rc, s', db'). if rc \<noteq> SUCCESS then Some (rc, s', db') else trx_replay_all es s' db')"

text \<open>\<open>on_done\<close>: what is left in the map is rolled back; the codes are ignored.\<close>

fun rollback_all :: "(int \<times> nat option) list \<Rightarrow> TrxReplayer \<Rightarrow> MvccDb \<Rightarrow> MvccDb option" where
  "rollback_all [] s db = Some db"
| "rollback_all ((tid, a) # es) s db =
     do {
       addr \<leftarrow> a;
       trx \<leftarrow> map_of (kit_trxes s) addr;
       (rc, trx', db') \<leftarrow> trx_rollback trx db;
       rollback_all es s db'
     }"

definition trx_on_done :: "TrxReplayer \<Rightarrow> MvccDb \<Rightarrow> (RC \<times> TrxReplayer \<times> MvccDb) option" where
  "trx_on_done s db = do { db' \<leftarrow> rollback_all (trx_map s) s db; Some (SUCCESS, s\<lparr>trx_map := []\<rparr>, db') }"

end
