(* ===== verification/SqlModify.thy ===== *)
theory SqlModify
  imports SqlRows MvccTrx
begin

text \<open>
  The operators that change a table: \<^verbatim>\<open>insert_physical_operator.cpp\<close>, \<^verbatim>\<open>delete_physical_operator.cpp\<close>, \<^verbatim>\<open>update_physical_operator.cpp\<close> and
  \<^verbatim>\<open>update_record_maker.cpp\<close> under \<^verbatim>\<open>src/observer/sql/operator\<close>. All of their work is done by \<open>open\<close>; \<open>next\<close> reports the end at once.
  They read the rows of their child to the end before they change anything, so the child works on the table as it was.
  The result \<open>None\<close> is a failed assertion, a wrong cast of a tuple, or a child that does not return.
\<close>

section \<open>The rows of a table for a transaction\<close>

text \<open>The records that the record scanner of a table scan returns, and what the transaction says of them.\<close>

definition table_records :: "Table \<Rightarrow> Record list" where
  "table_records tb =
     (case scan_file (tb_heap tb) (open_scan None (tb_heap tb) new_file_scanner) [] of None \<Rightarrow> [] | Some (rc, rs) \<Rightarrow> rs)"

definition trx_source :: "TableMeta \<Rightarrow> TextStorage \<Rightarrow> int \<Rightarrow> bool \<Rightarrow> Table \<Rightarrow> table_source" where
  "trx_source m ts tid read_only tb =
     \<lparr>ts_meta = m, ts_texts = ts, ts_visit = (\<lambda>r. (trx_visit_record tid read_only tb (snd r), r)), ts_opened = (SUCCESS, table_records tb)\<rparr>"

section \<open>Insertion\<close>

text \<open>\<open>mem\<close> is the memory that \<open>malloc\<close> returns for the new record.\<close>

definition insert_open ::
  "(PageNum set \<Rightarrow> PageNum) \<Rightarrow> byte list \<Rightarrow> TableMeta \<Rightarrow> int \<Rightarrow> Value list \<Rightarrow> MvccTrx \<Rightarrow> MvccDb \<Rightarrow> (RC \<times> MvccTrx \<times> MvccDb) option" where
  "insert_open begin_page mem m table_id values trx db =
     do {
       r \<leftarrow> make_record mem values m;
       (case r of
          Inl rc \<Rightarrow> Some (rc, trx, db)
        | Inr rec \<Rightarrow>
            do {
              (res, trx1, db1) \<leftarrow> trx_insert_record begin_page table_id rec trx db;
              Some (case res of Inl rc \<Rightarrow> rc | Inr rid \<Rightarrow> SUCCESS, trx1, db1)
            })
     }"

section \<open>Deletion\<close>

text \<open>
  The loop over the rows of the child. The code is \<open>SUCCESS\<close> only for the return from inside the loop, when there is no tuple.
\<close>

partial_function (option) collect_records :: "'s oper \<Rightarrow> 's \<Rightarrow> Record list \<Rightarrow> (RC \<times> 's \<times> Record list) option" where
  "collect_records child s rs =
     Option.bind (o_next child s) (\<lambda>(rc, s1).
       if rc \<noteq> SUCCESS then Some (rc, s1, rs)
       else (case o_tuple child s1 of
               None \<Rightarrow> Some (SUCCESS, s1, rs)
             | Some t \<Rightarrow> Option.bind (t_record t) (\<lambda>r. collect_records child s1 (rs @ [r]))))"

fun delete_records :: "int \<Rightarrow> Record list \<Rightarrow> MvccTrx \<Rightarrow> MvccDb \<Rightarrow> (RC \<times> MvccTrx \<times> MvccDb) option" where
  "delete_records table_id [] trx db = Some (SUCCESS, trx, db)"
| "delete_records table_id (r # rs) trx db =
     do {
       (rc, trx1, db1) \<leftarrow> trx_delete_record table_id (fst r) trx db;
       if rc \<noteq> SUCCESS then Some (rc, trx1, db1) else delete_records table_id rs trx1 db1
     }"

record 's delete_oper =
  d_child :: 's
  d_records :: "Record list"

text \<open>Without a child there is nothing to do. The code that ended the loop and that of closing the child are ignored.\<close>

definition delete_open :: "'s oper option \<Rightarrow> int \<Rightarrow> 's delete_oper \<Rightarrow> MvccTrx \<Rightarrow> MvccDb \<Rightarrow> (RC \<times> 's delete_oper \<times> MvccTrx \<times> MvccDb) option" where
  "delete_open child table_id s trx db =
     (case child of
        None \<Rightarrow> Some (SUCCESS, s, trx, db)
      | Some op \<Rightarrow>
          do {
            (rc, c) \<leftarrow> o_open op (d_child s);
            if rc \<noteq> SUCCESS then Some (rc, s\<lparr>d_child := c\<rparr>, trx, db)
            else do {
              (rc1, c1, rs) \<leftarrow> collect_records op c (d_records s);
              if rc1 = SUCCESS then Some (rc1, \<lparr>d_child = c1, d_records = rs\<rparr>, trx, db)
              else do {
                (rc2, c2) \<leftarrow> o_close op c1;
                (rc3, trx1, db1) \<leftarrow> delete_records table_id rs trx db;
                Some (rc3, \<lparr>d_child = c2, d_records = rs\<rparr>, trx1, db1)
              }
            }
          })"

section \<open>Update\<close>

text \<open>
  The record maker remembers which columns are updated, in the order of the table; a new record has the new values in these
  columns and the values of the row in the others.
\<close>

definition update_field_order :: "TableMeta \<Rightarrow> byte list list \<Rightarrow> nat list" where
  "update_field_order m names = filter (\<lambda>i. fm_name (tm_fields m ! i) \<in> set names) [sys_field_num m..<field_num m]"

fun update_values :: "sql_env \<Rightarrow> TableMeta \<Rightarrow> nat list \<Rightarrow> Value list \<Rightarrow> Tuple \<Rightarrow> nat list \<Rightarrow> (RC \<times> Value list) option" where
  "update_values env m order new_values t [] = Some (SUCCESS, [])"
| "update_values env m order new_values t (i # is) =
     do {
       (rc, w) \<leftarrow> (case find (\<lambda>j. order ! j = i) [0..<length order] of
                      Some j \<Rightarrow> Some (SUCCESS, new_values ! j)
                    | None \<Rightarrow> (let f = tm_fields m ! i in returned (get_value env t (FieldExpr (tm_name m) (fm_name f) (fm_type f)) new_value)));
       if rc \<noteq> SUCCESS then Some (rc, [])
       else do { (rc1, ws) \<leftarrow> update_values env m order new_values t is; Some (rc1, w # ws) }
     }"

definition maker_update :: "sql_env \<Rightarrow> TableMeta \<Rightarrow> byte list \<Rightarrow> nat list \<Rightarrow> Value list \<Rightarrow> Tuple \<Rightarrow> (RC + byte list) option" where
  "maker_update env m mem order new_values t =
     (if length new_values \<noteq> length order then Some (Inl INVALID_ARGUMENT)
      else do {
        (rc, vs) \<leftarrow> update_values env m order new_values t [sys_field_num m..<field_num m];
        if rc \<noteq> SUCCESS then Some (Inl rc) else make_record mem vs m
      })"

text \<open>The loop over the rows; \<open>maker\<close> makes the new record of a row. \<open>Inl\<close> is a return from \<open>open\<close>.\<close>

partial_function (option) collect_updates ::
  "'s oper \<Rightarrow> (Tuple \<Rightarrow> (RC + byte list) option) \<Rightarrow> 's \<Rightarrow> Record list \<Rightarrow> byte list list \<Rightarrow> (RC \<times> 's + 's \<times> Record list \<times> byte list list) option" where
  "collect_updates child maker s olds news =
     Option.bind (o_next child s) (\<lambda>(rc, s1).
       if rc = RECORD_EOF then Some (Inr (s1, olds, news))
       else if rc \<noteq> SUCCESS then Some (Inl (rc, s1))
       else Option.bind (o_tuple child s1) (\<lambda>t.
              Option.bind (maker t) (\<lambda>res.
                (case res of
                   Inl rc \<Rightarrow> Some (Inl (rc, s1))
                 | Inr new \<Rightarrow> Option.bind (t_record t) (\<lambda>old. collect_updates child maker s1 (olds @ [old]) (news @ [new]))))))"

fun insert_records :: "(PageNum set \<Rightarrow> PageNum) \<Rightarrow> int \<Rightarrow> byte list list \<Rightarrow> MvccTrx \<Rightarrow> MvccDb \<Rightarrow> (RC \<times> MvccTrx \<times> MvccDb) option" where
  "insert_records begin_page table_id [] trx db = Some (SUCCESS, trx, db)"
| "insert_records begin_page table_id (rec # recs) trx db =
     do {
       (res, trx1, db1) \<leftarrow> trx_insert_record begin_page table_id rec trx db;
       (case res of Inl rc \<Rightarrow> Some (rc, trx1, db1) | Inr rid \<Rightarrow> insert_records begin_page table_id recs trx1 db1)
     }"

definition update_open ::
  "'s oper \<Rightarrow> (Tuple \<Rightarrow> (RC + byte list) option) \<Rightarrow> (PageNum set \<Rightarrow> PageNum) \<Rightarrow> int \<Rightarrow> 's \<Rightarrow> MvccTrx \<Rightarrow> MvccDb \<Rightarrow> (RC \<times> 's \<times> MvccTrx \<times> MvccDb) option" where
  "update_open child maker begin_page table_id s trx db =
     do {
       (rc, c) \<leftarrow> o_open child s;
       if rc \<noteq> SUCCESS then Some (rc, c, trx, db)
       else do {
         res \<leftarrow> collect_updates child maker c [] [];
         (case res of
            Inl (rc1, c1) \<Rightarrow> Some (rc1, c1, trx, db)
          | Inr (c1, olds, news) \<Rightarrow>
              do {
                (rc2, c2) \<leftarrow> o_close child c1;
                if rc2 \<noteq> SUCCESS then Some (rc2, c2, trx, db)
                else do {
                  (rc3, trx1, db1) \<leftarrow> delete_records table_id olds trx db;
                  if rc3 \<noteq> SUCCESS then Some (rc3, c2, trx1, db1)
                  else do { (rc4, trx2, db2) \<leftarrow> insert_records begin_page table_id news trx1 db1; Some (rc4, c2, trx2, db2) }
                }
              })
       }
     }"

end
