(* ===== verification/SqlLayout.thy ===== *)
theory SqlLayout
  imports SqlRecord SqlOrder
begin

text \<open>
  The fields of a table are adjacent and fill the record, and the values of a row are read back from the record they
  were written to, NULLs included, as long as the bitmap of NULLs has a bit for every field.
\<close>

section \<open>The layout of a record\<close>

fun adjacent :: "int \<Rightarrow> FieldMeta list \<Rightarrow> int \<Rightarrow> bool" where
  "adjacent off [] e \<longleftrightarrow> off = e"
| "adjacent off (f # fs) e \<longleftrightarrow> fm_offset f = off \<and> 0 < fm_len f \<and> adjacent (off + fm_len f) fs e"

definition meta_ok :: "TableMeta \<Rightarrow> bool" where
  "meta_ok m \<longleftrightarrow> adjacent 0 (tm_fields m) (tm_record_size m) \<and> 0 < sys_field_num m \<and> sys_field_num m \<le> field_num m \<and> fm_len (null_bitmap_field m) = 4"

lemma adjacent_append: "adjacent off (fs @ gs) e \<longleftrightarrow> (\<exists>k. adjacent off fs k \<and> adjacent k gs e)"
  by (induction fs arbitrary: off) auto

lemma adjacent_le: "adjacent off fs e \<Longrightarrow> off \<le> e"
  by (induction fs arbitrary: off) force+

lemma adjacent_nth: "adjacent off fs e \<Longrightarrow> i < length fs \<Longrightarrow> off \<le> fm_offset (fs ! i) \<and> fm_offset (fs ! i) + fm_len (fs ! i) \<le> e \<and> 0 < fm_len (fs ! i)"
proof (induction fs arbitrary: off i)
  case (Cons f fs)
  show ?case
  proof (cases i)
    case 0
    then show ?thesis using Cons.prems adjacent_le by auto
  next
    case (Suc j)
    then show ?thesis using Cons.IH [of "off + fm_len f" j] Cons.prems by auto
  qed
qed simp

lemma adjacent_mono: "adjacent off fs e \<Longrightarrow> i \<le> j \<Longrightarrow> j < length fs \<Longrightarrow> fm_offset (fs ! i) \<le> fm_offset (fs ! j)"
proof (induction fs arbitrary: off i j)
  case (Cons f fs)
  show ?case
  proof (cases i)
    case 0
    then show ?thesis using adjacent_nth [OF Cons.prems(1), of j] Cons.prems by auto
  next
    case (Suc i')
    then obtain j' where "j = Suc j'" using Cons.prems(2) by (cases j) auto
    then show ?thesis using Suc Cons.IH [of "off + fm_len f" i' j'] Cons.prems by auto
  qed
qed simp

lemma place_trx_fields_adjacent:
  "place_trx_fields fs off = Some (gs, e) \<Longrightarrow> adjacent off gs e \<and> map fm_len gs = map fm_len fs \<and> map fm_name gs = map fm_name fs"
proof (induction fs arbitrary: off gs)
  case (Cons f fs)
  then show ?case by (auto simp: field_init_def split: if_splits)
qed simp

lemma place_columns_adjacent:
  "place_columns as off = (SUCCESS, gs, e) \<Longrightarrow> adjacent off gs e
    \<and> map (\<lambda>f. (fm_name f, fm_type f, fm_len f, fm_nullable f)) gs = map (\<lambda>a. (ai_name a, ai_type a, ai_length a, ai_nullable a)) as"
proof (induction as arbitrary: off gs)
  case (Cons a as)
  then show ?case by (auto simp: field_init_def split: if_splits prod.splits)
qed simp

section \<open>Writing a record\<close>

text \<open>A value that a column can hold: NULL, or a value of the type of the column, strings no longer than the column.\<close>

definition fits :: "Value \<Rightarrow> FieldMeta \<Rightarrow> bool" where
  "fits v f \<longleftrightarrow> v_type v = NULLS \<and> fm_nullable f \<and> v_length v = 0
     \<or> v_type v = fm_type f \<and> (v_type v \<in> {INTS, FLOATS, DATES} \<and> fm_len f = 4
         \<or> v_type v = CHARS \<and> 0 \<notin> set (v_str v) \<and> v_length v = int (length (v_str v)) \<and> v_length v \<le> fm_len f)"

lemma fits_cases:
  assumes "fits v f"
  obtains (null) "v_type v = NULLS" "v_length v = 0"
    | (num) "v_type v \<in> {INTS, FLOATS, DATES}" "fm_type f = v_type v" "fm_len f = 4"
    | (str) "v_type v = CHARS" "fm_type f = CHARS" "0 \<notin> set (v_str v)" "v_length v = int (length (v_str v))" "v_length v \<le> fm_len f"
  using assms unfolding fits_def by metis

lemma fits_bytes:
  assumes "fits v f" "0 < fm_len f"
  obtains bs where "value_bytes v f = Some bs" "length bs \<le> nat (fm_len f)"
  using assms(1)
proof (cases rule: fits_cases)
  case null
  then have "copy_length v f \<le> fm_len f" using assms by (simp add: copy_length_def)
  then show ?thesis using null that [of "replicate (nat (copy_length v f)) 0"] by (simp add: value_bytes_def)
next
  case num
  then show ?thesis using that [of "int_to_bytes 4 (uint (v_num v))"] by (auto simp: value_bytes_def value_data_def copy_length_def)
next
  case str
  then have c: "copy_length v f \<le> fm_len f" "nat (copy_length v f) \<le> Suc (length (v_str v))" by (auto simp: copy_length_def)
  then show ?thesis using str that [of "take (nat (copy_length v f)) (v_str v @ [0])"] by (simp add: value_bytes_def value_data_def nat_mono)
qed

lemma copy_values_ok:
  assumes "adjacent off fs e" "0 \<le> off" "nat e \<le> length rec" "length vs = length fs" "\<forall>i<length fs. fits (vs ! i) (fs ! i)"
  shows "\<exists>rec'. copy_values (zip vs fs) rec = Some rec' \<and> length rec' = length rec \<and> (\<forall>p n. p + n \<le> nat off \<longrightarrow> take n (drop p rec') = take n (drop p rec))
    \<and> (\<forall>i bs. i < length fs \<longrightarrow> value_bytes (vs ! i) (fs ! i) = Some bs \<longrightarrow> take (length bs) (drop (nat (fm_offset (fs ! i))) rec') = bs)"
  using assms
proof (induction fs arbitrary: off rec vs)
  case (Cons f fs)
  obtain v vs' where vs: "vs = v # vs'" "length vs' = length fs" using Cons.prems(4) by (cases vs) auto
  have f: "fm_offset f = off" "0 < fm_len f" "adjacent (off + fm_len f) fs e" using Cons.prems(1) by auto
  have e: "off + fm_len f \<le> e" using adjacent_le [OF f(3)] .
  obtain bs where bs: "value_bytes v f = Some bs" "length bs \<le> nat (fm_len f)" using fits_bytes [of v f] Cons.prems(5) vs(1) f(2) by (metis nth_Cons_0 length_greater_0_conv list.discI)
  let ?rec = "write_bytes (nat off) bs rec"
  have room: "nat off + length bs \<le> nat (off + fm_len f)" "nat off + length bs \<le> length rec" using bs(2) e Cons.prems(2,3) f(2) by linarith+
  have fit: "\<forall>i<length fs. fits (vs' ! i) (fs ! i)"
  proof (intro allI impI)
    fix i assume "i < length fs"
    then show "fits (vs' ! i) (fs ! i)" using Cons.prems(5) [rule_format, of "Suc i"] vs(1) by simp
  qed
  obtain rec' where rec': "copy_values (zip vs' fs) ?rec = Some rec'" "length rec' = length ?rec"
    "\<And>p n. p + n \<le> nat (off + fm_len f) \<Longrightarrow> take n (drop p rec') = take n (drop p ?rec)"
    "\<And>i b. i < length fs \<Longrightarrow> value_bytes (vs' ! i) (fs ! i) = Some b \<Longrightarrow> take (length b) (drop (nat (fm_offset (fs ! i))) rec') = b"
    using Cons.IH [OF f(3) _ _ vs(2) fit, of ?rec] Cons.prems(2,3) f(2) room(2) by auto
  have "take (length b) (drop (nat (fm_offset ((f # fs) ! i))) rec') = b" if "i < length (f # fs)" "value_bytes (vs ! i) ((f # fs) ! i) = Some b" for i b
  proof (cases i)
    case 0
    then have "b = bs" using that(2) vs(1) bs(1) by simp
    then show ?thesis using rec'(3) [OF room(1)] read_written [of "nat off" rec bs] room(2) 0 f(1) by simp
  next
    case (Suc j)
    then show ?thesis using that rec'(4) [of j b] vs(1) by simp
  qed
  moreover have "take n (drop p rec') = take n (drop p rec)" if "p + n \<le> nat off" for p n
    using rec'(3) [of p n] write_bytes_other [OF room(2), of p n] that f(2) Cons.prems(2) by simp
  ultimately show ?case using rec'(1,2) bs(1) vs(1) f(1) room(2) by auto
qed simp

lemma null_bits_ok:
  assumes "\<forall>j<length vs. v_type (vs ! j) = NULLS \<longrightarrow> i + j < 32" "length bm = 4"
  shows "\<exists>bm'. null_bits i vs bm = Some bm' \<and> length bm' = 4
    \<and> (\<forall>k<32. bitmap_get_bit bm' k \<longleftrightarrow> bitmap_get_bit bm k \<or> (i \<le> k \<and> k < i + length vs \<and> v_type (vs ! (k - i)) = NULLS))"
  using assms
proof (induction vs arbitrary: i bm)
  case (Cons v vs)
  have rest: "\<forall>j<length vs. v_type (vs ! j) = NULLS \<longrightarrow> Suc i + j < 32" using Cons.prems(1) by (metis add_Suc_shift length_Cons not_less_eq nth_Cons_Suc)
  have i: "v_type v = NULLS \<Longrightarrow> i < 32" using Cons.prems(1) by force
  let ?bm = "if v_type v = NULLS then bitmap_set_bit bm i else bm"
  obtain bm' where bm': "null_bits (Suc i) vs ?bm = Some bm'" "length bm' = 4"
    "\<And>k. k < 32 \<Longrightarrow> bitmap_get_bit bm' k \<longleftrightarrow> bitmap_get_bit ?bm k \<or> (Suc i \<le> k \<and> k < Suc i + length vs \<and> v_type (vs ! (k - Suc i)) = NULLS)"
  proof -
    have "length ?bm = 4" using Cons.prems(2) by simp
    from Cons.IH [OF rest this] show ?thesis using that by blast
  qed
  have "bitmap_get_bit bm' k \<longleftrightarrow> bitmap_get_bit bm k \<or> (i \<le> k \<and> k < i + length (v # vs) \<and> v_type ((v # vs) ! (k - i)) = NULLS)" if "k < 32" for k
  proof -
    have "bitmap_get_bit ?bm k \<longleftrightarrow> bitmap_get_bit bm k \<or> (k = i \<and> v_type v = NULLS)"
      using get_bit_set_bit [of i bm k] i Cons.prems(2) that by auto
    moreover have "(v # vs) ! (k - i) = vs ! (k - Suc i)" if "Suc i \<le> k" using that by (simp add: Suc_diff_le nth_Cons')
    ultimately show ?thesis using bm'(3) [OF that] by (cases "k = i") (auto simp: Suc_le_eq le_less)
  qed
  then show ?case using bm'(1,2) i by auto
next
  case Nil
  then show ?case by (intro exI [of _ bm]) auto
qed

text \<open>A record that is written, in terms of its parts.\<close>

lemma make_record_ok:
  assumes ok: "meta_ok m" and mem: "length mem = nat (tm_record_size m)" and num: "length vs + sys_field_num m = field_num m"
    and fit: "\<forall>i<length vs. fits (vs ! i) (tm_fields m ! (i + sys_field_num m))"
    and nulls: "\<forall>i<length vs. v_type (vs ! i) = NULLS \<longrightarrow> i + sys_field_num m < 32"
  shows "\<exists>rec bm. make_record mem vs m = Some (Inr rec) \<and> length rec = nat (tm_record_size m)
    \<and> take 4 (drop (nat (fm_offset (null_bitmap_field m))) rec) = bm \<and> length bm = 4
    \<and> (\<forall>k<32. bitmap_get_bit bm k \<longleftrightarrow> sys_field_num m \<le> k \<and> k < field_num m \<and> v_type (vs ! (k - sys_field_num m)) = NULLS)
    \<and> (\<forall>i bs. i < length vs \<longrightarrow> value_bytes (vs ! i) (tm_fields m ! (i + sys_field_num m)) = Some bs \<longrightarrow>
         take (length bs) (drop (nat (fm_offset (tm_fields m ! (i + sys_field_num m)))) rec) = bs)"
proof -
  let ?n = "sys_field_num m" and ?nb = "null_bitmap_field m"
  let ?cs = "drop ?n (tm_fields m)" and ?ss = "take (?n - 1) (tm_fields m)"
  have n: "0 < ?n" "?n \<le> length (tm_fields m)" "length ?cs = length vs" using ok num by (auto simp: meta_ok_def field_num_def)
  have nth: "?cs ! i = tm_fields m ! (i + ?n)" if "i < length vs" for i using n(2) by (simp add: add.commute)
  have fs: "tm_fields m = ?ss @ [?nb] @ ?cs"
    using id_take_nth_drop [of "?n - 1" "tm_fields m"] n(1,2) by (simp add: null_bitmap_field_def)
  obtain o1 o2 where adj: "adjacent 0 ?ss o1" "adjacent o1 [?nb] o2" "adjacent o2 ?cs (tm_record_size m)"
  proof -
    have "adjacent 0 (?ss @ [?nb] @ ?cs) (tm_record_size m)" using ok fs unfolding meta_ok_def by metis
    then show ?thesis using that unfolding adjacent_append by blast
  qed
  have nb: "fm_offset ?nb = o1" "o2 = o1 + 4" "0 \<le> o1" using adj(2) adjacent_le [OF adj(1)] ok by (auto simp: meta_ok_def)
  have sz: "o2 \<le> tm_record_size m" by (rule adjacent_le [OF adj(3)])
  have fit': "\<forall>i<length ?cs. fits (vs ! i) (?cs ! i)" using fit nth n(3) by simp
  obtain r1 where r1: "copy_values (zip vs ?cs) mem = Some r1" "length r1 = length mem"
    "\<And>i bs. i < length ?cs \<Longrightarrow> value_bytes (vs ! i) (?cs ! i) = Some bs \<Longrightarrow> take (length bs) (drop (nat (fm_offset (?cs ! i))) r1) = bs"
    using copy_values_ok [OF adj(3) _ _ _ fit', of mem] nb mem n(3) by auto
  obtain bm where bm: "null_bits ?n vs (replicate 4 0) = Some bm" "length bm = 4"
    "\<And>k. k < 32 \<Longrightarrow> bitmap_get_bit bm k \<longleftrightarrow> bitmap_get_bit (replicate 4 0) k \<or> (?n \<le> k \<and> k < ?n + length vs \<and> v_type (vs ! (k - ?n)) = NULLS)"
    using null_bits_ok [of vs ?n "replicate 4 0"] nulls by (auto simp: add.commute)
  have zero: "\<not> bitmap_get_bit (replicate 4 0) k" if "k < 32" for k
    using that by (simp add: get_bit_eq nth_replicate less_mult_imp_div_less)
  let ?rec = "write_bytes (nat o1) bm r1"
  have room: "nat o1 + length bm \<le> length r1" using bm(2) r1(2) mem nb sz by linarith
  have "list_all (\<lambda>(v, f). type_matches v f) (zip vs ?cs)"
    using fit' by (auto simp: list_all_length type_matches_def fits_def)
  then have "make_record mem vs m = Some (Inr ?rec)"
    using num r1(1) bm(1) nb(1) by (simp add: make_record_def Let_def)
  moreover have "take (length bs) (drop (nat (fm_offset (tm_fields m ! (i + ?n)))) ?rec) = bs"
    if "i < length vs" "value_bytes (vs ! i) (tm_fields m ! (i + ?n)) = Some bs" for i bs
  proof -
    have "o2 \<le> fm_offset (?cs ! i)" using adjacent_nth [OF adj(3), of i] that(1) n(3) by auto
    then have "nat o1 + length bm \<le> nat (fm_offset (tm_fields m ! (i + ?n)))" using nb bm(2) nth [OF that(1)] by (simp add: nat_le_iff le_nat_iff)
    then show ?thesis using r1(3) [of i bs] that nth [OF that(1)] n(3) write_bytes_other [OF room] by simp
  qed
  moreover have "take 4 (drop (nat (fm_offset ?nb)) ?rec) = bm" using read_written [of "nat o1" r1 bm] room bm(2) nb(1) by simp
  moreover have "length ?rec = nat (tm_record_size m)" using room r1(2) mem by simp
  moreover have "bitmap_get_bit bm k \<longleftrightarrow> ?n \<le> k \<and> k < field_num m \<and> v_type (vs ! (k - ?n)) = NULLS" if "k < 32" for k
    using bm(3) [OF that] zero [OF that] num by auto
  ultimately show ?thesis using bm(2) by blast
qed

text \<open>Reading a value from the bytes it was written to.\<close>

lemma read_value:
  assumes fit: "fits v f" and nn: "v_type v \<noteq> NULLS" and len: "0 < fm_len f" and bs: "value_bytes v f = Some bs" and data: "take (length bs) data = bs"
  shows "\<exists>c. value_set_data data (fm_len f) (cell\<lparr>v_type := fm_type f\<rparr>) = Some c \<and> v_type c = v_type v
    \<and> (if v_type v = CHARS then v_str c = v_str v else v_num c = v_num v)"
proof -
  from fit show ?thesis
  proof (cases rule: fits_cases)
    case null
    then show ?thesis using nn by simp
  next
    case num
    then have "bs = int_to_bytes 4 (uint (v_num v))" using bs nn by (auto simp: value_bytes_def value_data_def copy_length_def)
    then have "take 4 data = int_to_bytes 4 (uint (v_num v))" using data by simp
    moreover have "uint (v_num v) mod 2 ^ 32 = uint (v_num v)" using uint_lt2p [of "v_num v"] by simp
    ultimately have "word_of_int (bytes_to_int (take 4 data)) = v_num v" by (simp add: bytes_to_int_to_bytes)
    then show ?thesis using num by (auto simp: value_set_data_def)
  next
    case str
    have z: "c_str (v_str v) = v_str v" "c_str (v_str v @ 0 # xs) = v_str v" for xs
      using str(3) by (auto simp: c_str_def takeWhile_eq_all_conv takeWhile_append)
    have "c_str (take (nat (fm_len f)) data) = v_str v"
    proof (cases "fm_len f > v_length v")
      case True
      then have "bs = v_str v @ [0]" using bs str by (simp add: value_bytes_def value_data_def copy_length_def nat_add_distrib)
      then have "take (Suc (length (v_str v))) data = v_str v @ [0]" using data by simp
      then have "data = v_str v @ 0 # drop (Suc (length (v_str v))) data" by (metis append.assoc append_Cons append_Nil append_take_drop_id)
      moreover have "Suc (length (v_str v)) \<le> nat (fm_len f)" using True str(4) by simp
      ultimately obtain xs where "take (nat (fm_len f)) data = v_str v @ 0 # xs" 
        using that [of "take (nat (fm_len f) - Suc (length (v_str v))) (drop (Suc (length (v_str v))) data)"]
        by (metis Suc_diff_Suc Suc_le_lessD take_Suc_Cons take_append take_all Suc_leD)
      then show ?thesis using z(2) by simp
    next
      case False
      then have n: "nat (fm_len f) = length (v_str v)" "copy_length v f = int (length (v_str v))" using str by (auto simp: copy_length_def)
      then have "bs = v_str v" using bs str by (simp add: value_bytes_def value_data_def)
      then have "take (nat (fm_len f)) data = v_str v" using data n by simp
      then show ?thesis using z(1) by simp
    qed
    then show ?thesis using str len by (simp add: value_set_data_def set_string_def Let_def)
  qed
qed

lemma set_data_fits:
  assumes "fits v f" "v_type v \<noteq> NULLS" "0 < fm_len f" "value_set_data data (fm_len f) (cell\<lparr>v_type := fm_type f\<rparr>) = Some c"
  shows "fits c f"
  using assms(1)
proof (cases rule: fits_cases)
  case str
  have "0 \<notin> set (c_str xs)" "length (c_str xs) \<le> length xs" for xs
    using set_takeWhileD by (fastforce simp: c_str_def length_takeWhile_le)+
  moreover have "length (c_str (take (nat (fm_len f)) data)) \<le> nat (fm_len f)"
    using calculation(2) [of "take (nat (fm_len f)) data"] by simp
  ultimately show ?thesis using str assms(3,4) by (auto simp: value_set_data_def set_string_def fits_def Let_def le_nat_iff)
qed (use assms in \<open>auto simp: value_set_data_def fits_def split: AttrType.splits\<close>)

lemma table_meta_init_ok:
  assumes "table_meta_init table_id name trx_fields attributes m0 = Some (SUCCESS, m)" "tm_sys_fields m0 = []"
  shows "meta_ok m \<and> sys_field_num m = length (case trx_fields of None \<Rightarrow> [] | Some fs \<Rightarrow> fs) + 1
    \<and> map (\<lambda>f. (fm_name f, fm_type f, fm_len f, fm_nullable f)) (drop (sys_field_num m) (tm_fields m))
        = map (\<lambda>a. (ai_name a, ai_type a, ai_length a, ai_nullable a)) attributes"
proof -
  let ?trx = "case trx_fields of None \<Rightarrow> [] | Some fs \<Rightarrow> fs"
  let ?nb = "\<lambda>off. \<lparr>fm_name = null_bitmap_name, fm_type = INTS, fm_offset = off, fm_len = 4, fm_visible = False, fm_nullable = False\<rparr>"
  obtain sys off where p: "place_trx_fields ?trx 0 = Some (sys, off)"
    using assms(1) by (auto simp: table_meta_init_def bind_eq_Some_conv split: if_splits)
  note sys = place_trx_fields_adjacent [OF p]
  have off: "0 \<le> off" using sys adjacent_le by blast
  then have nb: "field_init null_bitmap_name INTS off 4 False False = Inr (?nb off)"
    by (simp add: field_init_def null_bitmap_name_def is_blank_def ascii_def is_space_def)
  obtain rc cs e where c: "place_columns attributes (off + 4) = (rc, cs, e)" using prod_cases3 by blast
  have rc: "rc = SUCCESS" and m: "tm_fields m = sys @ [?nb off] @ cs @ replicate (length attributes - length cs) new_field"
    "tm_sys_fields m = ?trx @ [?nb off]" "tm_record_size m = e"
    using assms p nb c by (auto simp: table_meta_init_def Let_def split: if_splits option.splits)
  note cols = place_columns_adjacent [OF c [unfolded rc]]
  have len: "length cs = length attributes" "length sys = length ?trx"
    using map_eq_imp_length_eq [OF conjunct2 [OF cols]] map_eq_imp_length_eq [OF conjunct1 [OF conjunct2 [OF sys]]] .
  then have f: "tm_fields m = sys @ [?nb off] @ cs" "sys_field_num m = length sys + 1" using m by (simp_all add: sys_field_num_def)
  then have n: "null_bitmap_field m = ?nb off" "drop (sys_field_num m) (tm_fields m) = cs" by (simp_all add: null_bitmap_field_def nth_append)
  have "adjacent 0 (sys @ [?nb off] @ cs) e" unfolding adjacent_append using sys cols by auto
  then have "meta_ok m" using f n(1) m(3) by (simp add: meta_ok_def field_num_def)
  then show ?thesis using n(2) cols f(2) len(2) by simp
qed

text \<open>Reading a column of a new record; what is read fits the column again.\<close>

lemma record_cells:
  assumes "meta_ok m" "field_num m \<le> 32" "length mem = nat (tm_record_size m)" "length vs + sys_field_num m = field_num m"
    and "\<forall>i<length vs. fits (vs ! i) (tm_fields m ! (i + sys_field_num m))"
  shows "\<exists>rec. make_record mem vs m = Some (Inr rec) \<and> length rec = nat (tm_record_size m)
    \<and> (\<forall>i<length vs. \<exists>c. cell_at (int (i + sys_field_num m)) rec m cell ts = Some ((SUCCESS, c), ts) \<and> v_type c = v_type (vs ! i)
         \<and> (v_type c = CHARS \<longrightarrow> v_str c = v_str (vs ! i)) \<and> (v_type c \<in> {INTS, FLOATS, DATES} \<longrightarrow> v_num c = v_num (vs ! i))
         \<and> fits c (tm_fields m ! (i + sys_field_num m)))"
proof -
  let ?n = "sys_field_num m"
  have nulls: "\<forall>i<length vs. v_type (vs ! i) = NULLS \<longrightarrow> i + ?n < 32" using assms(2,4) by auto
  obtain rec bm where r: "make_record mem vs m = Some (Inr rec)" "length rec = nat (tm_record_size m)"
    "take 4 (drop (nat (fm_offset (null_bitmap_field m))) rec) = bm" "length bm = 4"
    "\<And>k. k < 32 \<Longrightarrow> bitmap_get_bit bm k \<longleftrightarrow> ?n \<le> k \<and> k < field_num m \<and> v_type (vs ! (k - ?n)) = NULLS"
    "\<And>i bs. i < length vs \<Longrightarrow> value_bytes (vs ! i) (tm_fields m ! (i + ?n)) = Some bs \<Longrightarrow>
         take (length bs) (drop (nat (fm_offset (tm_fields m ! (i + ?n)))) rec) = bs"
    using make_record_ok [OF assms(1,3,4,5) nulls] by blast
  let ?bits = "drop (nat (fm_offset (null_bitmap_field m))) rec"
  have "\<exists>c. cell_at (int (i + ?n)) rec m cell ts = Some ((SUCCESS, c), ts) \<and> v_type c = v_type (vs ! i)
         \<and> (v_type c = CHARS \<longrightarrow> v_str c = v_str (vs ! i)) \<and> (v_type c \<in> {INTS, FLOATS, DATES} \<longrightarrow> v_num c = v_num (vs ! i))
         \<and> fits c (tm_fields m ! (i + ?n))" if i: "i < length vs" for i
  proof -
    let ?v = "vs ! i" and ?f = "tm_fields m ! (i + ?n)"
    have k: "i + ?n < 32" "(i + ?n) div 8 < 4" using i assms(2,4) by auto
    have len: "4 \<le> length ?bits" using r(3,4) by (metis length_take min.bounded_iff order_refl)
    have "bitmap_get_bit ?bits (i + ?n) = bitmap_get_bit bm (i + ?n)" using k r(3) by (auto simp: bitmap_get_bit_def)
    then have bit: "bitmap_get_bit ?bits (i + ?n) \<longleftrightarrow> v_type ?v = NULLS" using r(5) [OF k(1)] i assms(4) by simp
    have fit: "fits ?v ?f" using assms(5) i by blast
    have pos: "0 < fm_len ?f" using adjacent_nth [of 0 "tm_fields m" "tm_record_size m" "i + ?n"] assms(1,4) i by (simp add: meta_ok_def field_num_def)
    show ?thesis
    proof (cases "v_type ?v = NULLS")
      case True
      then show ?thesis using bit k len assms(4) i fit by (simp add: cell_at_def Let_def set_null_def fits_def del: of_nat_add)
    next
      case False
      obtain bs where bs: "value_bytes ?v ?f = Some bs" using fits_bytes [OF fit pos] by blast
      obtain c where c: "value_set_data (drop (nat (fm_offset ?f)) rec) (fm_len ?f) (cell\<lparr>v_type := fm_type ?f\<rparr>) = Some c" "v_type c = v_type ?v"
        "if v_type ?v = CHARS then v_str c = v_str ?v else v_num c = v_num ?v"
        using read_value [OF fit False pos bs r(6) [OF i bs]] by blast
      have "fm_type ?f \<noteq> TEXTS" using fit False by (auto simp: fits_def)
      then have "cell_at (int (i + ?n)) rec m cell ts = Some ((SUCCESS, c), ts)"
        using bit False k len assms(4) i c(1) by (simp add: cell_at_def Let_def del: of_nat_add)
      then show ?thesis using c(2,3) set_data_fits [OF fit False pos c(1)] by (auto split: if_splits)
    qed
  qed
  then show ?thesis using r(1,2) by blast
qed

section \<open>Properties\<close>

text \<open>
  The description of a new table: the fields of the transactions, the bitmap of NULLs and the columns, in the order and
  with the types and lengths given, lie one behind the other from offset 0 and fill the record exactly.
\<close>

lemma table_meta_layout:
  assumes "table_meta_init table_id name trx_fields attributes m0 = Some (SUCCESS, m)" "tm_sys_fields m0 = []"
  shows "meta_ok m \<and> sys_field_num m = length (case trx_fields of None \<Rightarrow> [] | Some fs \<Rightarrow> fs) + 1
    \<and> map (\<lambda>f. (fm_name f, fm_type f, fm_len f, fm_nullable f)) (drop (sys_field_num m) (tm_fields m))
        = map (\<lambda>a. (ai_name a, ai_type a, ai_length a, ai_nullable a)) attributes"
  using assms by (rule table_meta_init_ok)

text \<open>
  C16: A row is read back from its record as it was written: in a table of at most 32 fields, values that fit their columns
  are stored, and reading a column gives the type and the contents of the value, NULL included.
\<close>

theorem record_roundtrip:
  assumes "meta_ok m" "field_num m \<le> 32" "length mem = nat (tm_record_size m)" "length vs + sys_field_num m = field_num m"
    and "\<forall>i<length vs. fits (vs ! i) (tm_fields m ! (i + sys_field_num m))"
  shows "\<exists>rec. make_record mem vs m = Some (Inr rec) \<and> length rec = nat (tm_record_size m)
    \<and> (\<forall>i<length vs. \<exists>c. cell_at (int (i + sys_field_num m)) rec m cell ts = Some ((SUCCESS, c), ts) \<and> v_type c = v_type (vs ! i)
         \<and> (v_type c = CHARS \<longrightarrow> v_str c = v_str (vs ! i)) \<and> (v_type c \<in> {INTS, FLOATS, DATES} \<longrightarrow> v_num c = v_num (vs ! i)))"
  using record_cells [OF assms] by blast

text \<open>
  In a table of more than 32 fields the bit of the 33rd field is read from the first column: a row whose first column
  is an odd number has NULL in the 33rd field, whatever was written there.
\<close>

lemma wide_table_null:
  assumes "meta_ok m" "32 < field_num m" "sys_field_num m < 32" "length mem = nat (tm_record_size m)" "length vs + sys_field_num m = field_num m"
    and "\<forall>i<length vs. fits (vs ! i) (tm_fields m ! (i + sys_field_num m)) \<and> v_type (vs ! i) \<noteq> NULLS" and "v_type (vs ! 0) = INTS" "odd (uint (v_num (vs ! 0)))"
  shows "\<exists>rec. make_record mem vs m = Some (Inr rec) \<and> cell_at 32 rec m cell ts = Some ((SUCCESS, set_null cell), ts)"
proof -
  let ?n = "sys_field_num m" and ?nb = "null_bitmap_field m" and ?f = "tm_fields m ! sys_field_num m" and ?v = "vs ! 0"
  have vs: "0 < length vs" using assms(2,3,5) by linarith
  obtain rec where r: "make_record mem vs m = Some (Inr rec)" 
    "\<And>i bs. i < length vs \<Longrightarrow> value_bytes (vs ! i) (tm_fields m ! (i + ?n)) = Some bs \<Longrightarrow>
         take (length bs) (drop (nat (fm_offset (tm_fields m ! (i + ?n)))) rec) = bs"
    using make_record_ok [OF assms(1,4,5)] assms(6) by blast
  have n: "0 < ?n" "?n < length (tm_fields m)" using assms(1-3) by (auto simp: meta_ok_def field_num_def)
  have "tm_fields m = take (?n - 1) (tm_fields m) @ ?nb # ?f # drop (Suc ?n) (tm_fields m)"
    using id_take_nth_drop [of "?n - 1" "tm_fields m"] Cons_nth_drop_Suc [OF n(2)] n by (simp add: null_bitmap_field_def)
  then have "adjacent 0 (take (?n - 1) (tm_fields m) @ ?nb # ?f # drop (Suc ?n) (tm_fields m)) (tm_record_size m)" using assms(1) unfolding meta_ok_def by metis
  then obtain o1 where "0 \<le> o1" "fm_offset ?nb = o1" "fm_offset ?f = o1 + fm_len ?nb" unfolding adjacent_append using adjacent_le by auto
  then have off: "nat (fm_offset ?f) = nat (fm_offset ?nb) + 4" using assms(1) by (simp add: meta_ok_def)
  have "fits ?v ?f" using assms(6) vs by force
  then have bs: "value_bytes ?v ?f = Some (int_to_bytes 4 (uint (v_num ?v)))"
    using assms(7) by (cases rule: fits_cases) (auto simp: value_bytes_def value_data_def copy_length_def)
  have four: "take 4 (drop (nat (fm_offset ?f)) rec) = int_to_bytes 4 (uint (v_num ?v))" using r(2) [OF vs, of "int_to_bytes 4 (uint (v_num ?v))"] bs by simp
  let ?bits = "drop (nat (fm_offset ?nb)) rec"
  have d: "take 4 (drop 4 ?bits) = int_to_bytes 4 (uint (v_num ?v))" using four off by (simp add: add.commute)
  have len: "4 < length ?bits"
  proof (rule ccontr)
    assume "\<not> 4 < length ?bits"
    then have "take 4 (drop 4 ?bits) = []" by simp
    then show False using d by (metis length_int_to_bytes list.size(3) zero_neq_numeral)
  qed
  have "?bits ! 4 = take 4 (drop 4 ?bits) ! 0" using len by (simp add: add.commute)
  also have "\<dots> = int_to_bytes 4 (uint (v_num ?v)) ! 0" unfolding d ..
  also have "\<dots> = word_of_int (uint (v_num ?v))" by (simp add: numeral_eq_Suc)
  finally have "?bits ! 4 = word_of_int (uint (v_num ?v))" .
  moreover have "bit (word_of_int (uint (v_num ?v)) :: byte) 0" unfolding bit_word_of_int_iff using assms(8) by (simp add: bit_0)
  ultimately have "bit (?bits ! 4) 0" by simp
  then have "bitmap_get_bit ?bits 32" by (simp add: get_bit_eq)
  then have "cell_at 32 rec m cell ts = Some ((SUCCESS, set_null cell), ts)" using assms(2) len by (simp add: cell_at_def Let_def)
  then show ?thesis using r(1) by blast
qed

section \<open>Examples\<close>

text \<open>The fields of multi-version transactions, and a table with columns of one kind.\<close>

definition ex_trx_fields :: "FieldMeta list" where
  "ex_trx_fields = map (\<lambda>n. \<lparr>fm_name = ascii n, fm_type = INTS, fm_offset = 0, fm_len = 4, fm_visible = False, fm_nullable = False\<rparr>)
     [''__trx_xid_begin'', ''__trx_xid_end'']"

definition ex_attrs :: "nat \<Rightarrow> AttrInfo list" where
  "ex_attrs n = replicate n \<lparr>ai_type = INTS, ai_name = ascii ''a'', ai_length = 4, ai_nullable = True\<rparr>"

definition no_meta :: TableMeta where
  "no_meta = \<lparr>tm_id = -1, tm_name = [], tm_sys_fields = [], tm_fields = [], tm_record_size = 0\<rparr>"

definition ex_column :: "int \<Rightarrow> FieldMeta" where
  "ex_column off = \<lparr>fm_name = ascii ''a'', fm_type = INTS, fm_offset = off, fm_len = 4, fm_visible = True, fm_nullable = True\<rparr>"

lemma place_ex_attrs: "0 \<le> off \<Longrightarrow> place_columns (ex_attrs n) off = (SUCCESS, map (\<lambda>i. ex_column (off + 4 * int i)) [0..<n], off + 4 * int n)"
proof (induction n arbitrary: off)
  case (Suc n)
  have "map (\<lambda>i. ex_column (off + 4 * int i)) [0..<Suc n] = ex_column off # map (\<lambda>i. ex_column (off + 4 + 4 * int i)) [0..<n]"
    by (simp add: upt_conv_Cons map_Suc_upt [symmetric] del: upt_Suc) (simp add: add.assoc)
  then show ?case using Suc.IH [of "off + 4"] Suc.prems
    by (simp add: ex_attrs_def field_init_def is_blank_def ascii_def is_space_def ex_column_def del: upt_Suc)
qed (simp add: ex_attrs_def)

lemma ex_meta: "0 < n \<Longrightarrow> \<exists>m. table_meta_init 1 (ascii ''t'') (Some ex_trx_fields) (ex_attrs n) no_meta = Some (SUCCESS, m) \<and> tm_record_size m = 12 + 4 * int n
    \<and> field_num m = n + 3 \<and> sys_field_num m = 3 \<and> drop 3 (tm_fields m) = map (\<lambda>i. ex_column (12 + 4 * int i)) [0..<n]"
  using place_ex_attrs [of 12 n]
  by (simp add: table_meta_init_def ex_trx_fields_def field_init_def is_blank_def ascii_def is_space_def null_bitmap_name_def no_meta_def Let_def
      field_num_def sys_field_num_def) (simp add: ex_attrs_def)

lemma ex_meta_fits:
  assumes "0 < n"
  obtains m where "meta_ok m" "tm_record_size m = 12 + 4 * int n" "field_num m = n + 3" "sys_field_num m = 3" "\<And>i. i < n \<Longrightarrow> tm_fields m ! (i + 3) = ex_column (12 + 4 * int i)"
proof -
  obtain m where m: "table_meta_init 1 (ascii ''t'') (Some ex_trx_fields) (ex_attrs n) no_meta = Some (SUCCESS, m)" "tm_record_size m = 12 + 4 * int n"
    "field_num m = n + 3" "sys_field_num m = 3" "drop 3 (tm_fields m) = map (\<lambda>i. ex_column (12 + 4 * int i)) [0..<n]" using ex_meta [OF assms] by blast
  have "tm_fields m ! (i + 3) = drop 3 (tm_fields m) ! i" if "i < n" for i using that m(3) by (simp add: field_num_def add.commute)
  then show ?thesis using that [of m] m table_meta_init_ok [OF m(1)] by (simp add: no_meta_def)
qed

lemma ex_fits: "fits (set_int i new_value) (ex_column off)" "fits (set_null new_value) (ex_column off)"
  by (simp_all add: fits_def set_int_def set_null_def new_value_def ex_column_def)

theorem record_roundtrip_witness:
  "\<exists>m rec c d ts. make_record (replicate 20 0) [set_int 7 new_value, set_null new_value] m = Some (Inr rec)
    \<and> cell_at 3 rec m new_value ts = Some ((SUCCESS, c), ts) \<and> v_type c = INTS \<and> v_num c = 7
    \<and> cell_at 4 rec m new_value ts = Some ((SUCCESS, d), ts) \<and> v_type d = NULLS"
proof -
  obtain m where m: "meta_ok m" "tm_record_size m = 12 + 4 * int 2" "field_num m = 2 + 3" "sys_field_num m = 3"
    "\<And>i. i < 2 \<Longrightarrow> tm_fields m ! (i + 3) = ex_column (12 + 4 * int i)" using ex_meta_fits [of 2] by auto
  let ?vs = "[set_int 7 new_value, set_null new_value]" and ?ts = "\<lparr>next_key = 0, storage = Map.empty\<rparr>"
  have fit: "\<forall>i<length ?vs. fits (?vs ! i) (tm_fields m ! (i + sys_field_num m))"
    using m(4,5) ex_fits by (auto simp: less_Suc_eq numeral_2_eq_2 simp del: add_Suc_right)
  obtain rec where rec: "make_record (replicate 20 0) ?vs m = Some (Inr rec)"
    "\<And>i. i < length ?vs \<Longrightarrow> \<exists>c. cell_at (int (i + 3)) rec m new_value ?ts = Some ((SUCCESS, c), ?ts) \<and> v_type c = v_type (?vs ! i)
         \<and> (v_type c = CHARS \<longrightarrow> v_str c = v_str (?vs ! i)) \<and> (v_type c \<in> {INTS, FLOATS, DATES} \<longrightarrow> v_num c = v_num (?vs ! i))"
    using record_roundtrip [OF m(1) _ _ _ fit, of "replicate 20 0" new_value ?ts] m(2-4) by auto
  obtain c where c: "cell_at 3 rec m new_value ?ts = Some ((SUCCESS, c), ?ts)" "v_type c = INTS" "v_num c = 7"
    using rec(2) [of 0] by (auto simp: set_int_def)
  obtain d where "cell_at 4 rec m new_value ?ts = Some ((SUCCESS, d), ?ts)" "v_type d = NULLS"
    using rec(2) [of 1] by (auto simp: set_null_def)
  then show ?thesis using rec(1) c by blast
qed

end
