(* ===== verification/SqlPlan.thy ===== *)
theory SqlPlan
  imports SqlRows
begin

text \<open>
  Rewriting a plan: \<^verbatim>\<open>src/observer/sql/optimizer/{rewriter,expression_rewriter,predicate_rewrite,predicate_pushdown_rewriter}.cpp\<close> and the
  loop of \<^verbatim>\<open>optimize_stage.cpp\<close>. A logical operator has its expressions and its children; a table access has predicates too, and \<open>'a\<close>
  is what else an operator knows. \<open>None\<close> is a failed assertion.
\<close>

section \<open>Logical operators\<close>

datatype LogicalOperatorType = TABLE_GET | PREDICATE | PROJECTION | JOIN | INSERT | DELETE | UPDATE | EXPLAIN | GROUP

datatype 'a LogicalOperator =
  LogicalOper (lo_type: LogicalOperatorType) (lo_info: 'a) (lo_expressions: "Expression list") (lo_predicates: "Expression list")
    (lo_children: "'a LogicalOperator list")

section \<open>Rules for expressions\<close>

text \<open>
  The list of rules of \<open>ExpressionRewriter\<close> is empty; it walks over the expressions and changes nothing. The two rules that its
  constructor leaves out are here too.
\<close>

definition comparison_simplification :: "sql_env \<Rightarrow> Expression \<Rightarrow> (Expression \<times> bool) option" where
  "comparison_simplification env e =
     (case e of
        ComparisonExpr op l r \<Rightarrow> Option.bind (returned (try_get_value env e new_value)) (\<lambda>(rc, v). Some (if rc = SUCCESS then (ValueExpr v, True) else (e, False)))
      | _ \<Rightarrow> Some (e, False))"

definition try_to_get_bool_constant :: "Expression \<Rightarrow> bool option" where
  "try_to_get_bool_constant e = (case e of ValueExpr v \<Rightarrow> (if v_type v = BOOLEANS then Some (bool_value v) else None) | _ \<Rightarrow> None)"

text \<open>The children that stay, or the constant decides: then the first child that is left takes the place of the conjunction.\<close>

fun conjunction_children :: "ConjunctionType \<Rightarrow> Expression list \<Rightarrow> Expression list \<Rightarrow> Expression + Expression list" where
  "conjunction_children ty kept [] = Inr kept"
| "conjunction_children ty kept (e # es) =
     (case try_to_get_bool_constant e of
        None \<Rightarrow> conjunction_children ty (kept @ [e]) es
      | Some b \<Rightarrow> if b = (ty = CONJ_AND) then conjunction_children ty kept es else Inl (hd (kept @ e # es)))"

definition conjunction_simplification :: "Expression \<Rightarrow> Expression \<times> bool" where
  "conjunction_simplification e =
     (case e of
        ConjunctionExpr ty es \<Rightarrow>
          (case conjunction_children ty [] es of
             Inl x \<Rightarrow> (x, False)
           | Inr es' \<Rightarrow> if length es' = 1 then (hd es', True) else (ConjunctionExpr ty es', False))
      | _ \<Rightarrow> (e, False))"

fun rewrite_expression :: "Expression \<Rightarrow> Expression \<times> bool" where
  "rewrite_expression (CastExpr e ty) = (case rewrite_expression e of (e', c) \<Rightarrow> (CastExpr e' ty, c))"
| "rewrite_expression (ComparisonExpr op l r) =
     (let rl = rewrite_expression l; rr = rewrite_expression r in (ComparisonExpr op (fst rl) (fst rr), snd rl \<or> snd rr))"
| "rewrite_expression (ConjunctionExpr ty es) = (let rs = map rewrite_expression es in (ConjunctionExpr ty (map fst rs), list_ex snd rs))"
| "rewrite_expression e = (e, False)"

fun expression_rewrite :: "'a LogicalOperator \<Rightarrow> 'a LogicalOperator \<times> bool" where
  "expression_rewrite (LogicalOper ty x es ps cs) =
     (let rs = map rewrite_expression es; ds = map expression_rewrite cs
      in (LogicalOper ty x (map fst rs) ps (map fst ds), list_ex snd rs \<or> list_ex snd ds))"

section \<open>Rules for operators\<close>

text \<open>A constant that is NULL counts as false.\<close>

definition constant_holds :: "fpu \<Rightarrow> Value \<Rightarrow> bool option" where
  "constant_holds fp v = (case get_boolean fp v of Val b \<Rightarrow> Some b | NullCast \<Rightarrow> Some False | Abort \<Rightarrow> None)"

text \<open>A child that is a constant predicate is replaced by its children, or removed.\<close>

fun predicate_rewrite :: "fpu \<Rightarrow> 'a LogicalOperator \<Rightarrow> ('a LogicalOperator \<times> bool) option" where
  "predicate_rewrite fp (LogicalOper ty x es ps [LogicalOper PREDICATE y [ValueExpr v] qs gs]) =
     map_option (\<lambda>b. (LogicalOper ty x es ps (if b then gs else []), True)) (constant_holds fp v)"
| "predicate_rewrite fp op = Some (op, False)"

fun is_field :: "Expression \<Rightarrow> bool" where
  "is_field (FieldExpr table field ty) \<longleftrightarrow> True"
| "is_field e \<longleftrightarrow> False"

fun is_value :: "Expression \<Rightarrow> bool" where
  "is_value (ValueExpr v) \<longleftrightarrow> True"
| "is_value e \<longleftrightarrow> False"

definition comparison_pushed :: "CompOp \<Rightarrow> Expression \<Rightarrow> Expression \<Rightarrow> bool" where
  "comparison_pushed op l r \<longleftrightarrow>
     op = EQUAL_TO \<and> \<not> (\<not> is_field l \<and> \<not> is_field r) \<and> \<not> (\<not> is_field l \<and> \<not> is_value l \<and> \<not> is_field r \<and> \<not> is_value r)"

text \<open>What is left of an expression, \<open>None\<close> for the empty pointer, and what is pushed down.\<close>

fun get_exprs_can_pushdown :: "Expression \<Rightarrow> Expression option \<times> Expression list" where
  "get_exprs_can_pushdown (ConjunctionExpr ty es) =
     (if ty = CONJ_OR then (Some (ConjunctionExpr ty es), [])
      else (let rs = map get_exprs_can_pushdown es in (Some (ConjunctionExpr ty (List.map_filter fst rs)), concat (map snd rs))))"
| "get_exprs_can_pushdown (ComparisonExpr op l r) =
     (if comparison_pushed op l r then (None, [ComparisonExpr op l r]) else (Some (ComparisonExpr op l r), []))"
| "get_exprs_can_pushdown e = (Some e, [])"

definition remainder :: "Expression \<Rightarrow> Expression" where
  "remainder e = (case fst (get_exprs_can_pushdown e) of None \<Rightarrow> ValueExpr (set_boolean True new_value) | Some e' \<Rightarrow> e')"

definition pushed :: "Expression \<Rightarrow> Expression list" where
  "pushed e = snd (get_exprs_can_pushdown e)"

fun predicate_pushdown :: "'a LogicalOperator \<Rightarrow> 'a LogicalOperator \<times> bool" where
  "predicate_pushdown (LogicalOper PREDICATE x [e] ps [LogicalOper TABLE_GET y es qs gs]) =
     (if pushed e = [] then (LogicalOper PREDICATE x [remainder e] ps [LogicalOper TABLE_GET y es qs gs], False)
      else (LogicalOper PREDICATE x [remainder e] ps [LogicalOper TABLE_GET y es (pushed e) gs], True))"
| "predicate_pushdown op = (op, False)"

section \<open>The rewriter\<close>

definition apply_rules :: "fpu \<Rightarrow> 'a LogicalOperator \<Rightarrow> ('a LogicalOperator \<times> bool) option" where
  "apply_rules fp op =
     (case expression_rewrite op of
        (op1, c1) \<Rightarrow> Option.bind (predicate_rewrite fp op1) (\<lambda>(op2, c2). case predicate_pushdown op2 of (op3, c3) \<Rightarrow> Some (op3, c1 \<or> c2 \<or> c3)))"

fun nodes :: "'a LogicalOperator \<Rightarrow> nat" where
  "nodes (LogicalOper ty x es ps cs) = Suc (sum_list (map nodes cs))"

lemma rewrite_expression_id: "rewrite_expression e = (e, False)"
proof (induction e rule: rewrite_expression.induct)
  case (3 ty es)
  then show ?case by (auto simp: comp_def list_ex_iff intro!: map_idI)
qed auto

lemma expression_rewrite_id: "expression_rewrite op = (op, False)"
proof (induction op rule: expression_rewrite.induct)
  case (1 ty x es ps cs)
  then show ?case by (auto simp: comp_def list_ex_iff rewrite_expression_id intro!: map_idI)
qed

lemma predicate_rewrite_nodes: "predicate_rewrite fp op = Some (op', c) \<Longrightarrow> nodes op' \<le> nodes op"
  by (induction fp op rule: predicate_rewrite.induct) auto

lemma predicate_pushdown_nodes: "nodes (fst (predicate_pushdown op)) = nodes op"
  by (induction op rule: predicate_pushdown.induct) auto

lemma apply_rules_cases:
  assumes "apply_rules fp op = Some (op', c)"
  obtains op2 c2 c3 where "predicate_rewrite fp op = Some (op2, c2)" "predicate_pushdown op2 = (op', c3)" "c = (c2 \<or> c3)"
proof -
  obtain op2 c2 where r: "predicate_rewrite fp op = Some (op2, c2)"
    using assms by (cases "predicate_rewrite fp op") (auto simp: apply_rules_def expression_rewrite_id)
  then show ?thesis using assms that by (cases "predicate_pushdown op2") (auto simp: apply_rules_def expression_rewrite_id)
qed

lemma apply_rules_nodes: "apply_rules fp op = Some (op', c) \<Longrightarrow> nodes op' \<le> nodes op"
  by (elim apply_rules_cases) (metis predicate_rewrite_nodes predicate_pushdown_nodes fst_conv)

lemma nodes_child: "c \<in> set cs \<Longrightarrow> nodes c < nodes (LogicalOper ty x es ps cs)"
  by (simp add: member_le_sum_list less_Suc_eq_le)

lemma rules_children: "apply_rules fp op = Some (op', c) \<Longrightarrow> d \<in> set (lo_children op') \<Longrightarrow> nodes d < nodes op"
  using apply_rules_nodes [of fp op op' c] nodes_child [of d "lo_children op'"] by (cases op') fastforce

text \<open>The rules are applied to an operator and then to the children it has after that.\<close>

function rewrite :: "fpu \<Rightarrow> 'a LogicalOperator \<Rightarrow> ('a LogicalOperator \<times> bool) option" where
  "rewrite fp op =
     (case apply_rules fp op of
        None \<Rightarrow> None
      | Some (op', c) \<Rightarrow>
          map_option (\<lambda>rs. (LogicalOper (lo_type op') (lo_info op') (lo_expressions op') (lo_predicates op') (map fst rs), c \<or> list_ex snd rs))
            (those (map (rewrite fp) (lo_children op'))))"
  by auto
termination by (relation "measure (\<lambda>(fp, op). nodes op)") (auto intro: rules_children)

declare rewrite.simps [simp del]

partial_function (option) optimize_rewrite :: "fpu \<Rightarrow> 'a LogicalOperator \<Rightarrow> 'a LogicalOperator option" where
  "optimize_rewrite fp op = Option.bind (rewrite fp op) (\<lambda>(op', c). if c then optimize_rewrite fp op' else Some op')"

section \<open>Rewriting ends\<close>

fun pushable :: "Expression \<Rightarrow> nat" where
  "pushable (ConjunctionExpr ty es) = (if ty = CONJ_OR then 0 else sum_list (map pushable es))"
| "pushable (ComparisonExpr op l r) = (if comparison_pushed op l r then 1 else 0)"
| "pushable e = 0"

fun weight :: "'a LogicalOperator \<Rightarrow> nat" where
  "weight (LogicalOper ty x es ps cs) = Suc ((if ty = PREDICATE then sum_list (map pushable es) else 0) + sum_list (map weight cs))"

fun constants_ok :: "'a LogicalOperator \<Rightarrow> bool" where
  "constants_ok (LogicalOper ty x es ps cs) \<longleftrightarrow> (\<forall>v. ValueExpr v \<in> set es \<longrightarrow> v_type v \<noteq> UNDEFINED) \<and> (\<forall>c\<in>set cs. constants_ok c)"

lemma pushed_count: "length (snd (get_exprs_can_pushdown e)) = pushable e"
proof (induction e rule: get_exprs_can_pushdown.induct)
  case (1 ty es)
  then show ?case by (cases ty) (auto simp: Let_def length_concat comp_def intro!: arg_cong [where f = sum_list] map_cong)
qed simp_all

lemma left_count: "fst (get_exprs_can_pushdown e) = Some e' \<Longrightarrow> pushable e' = 0"
proof (induction e arbitrary: e' rule: get_exprs_can_pushdown.induct)
  case (1 ty es)
  have "pushable x = 0" if "x \<in> set (List.map_filter fst (map get_exprs_can_pushdown es))" "ty \<noteq> CONJ_OR" for x
    using that 1 by (auto simp: List.map_filter_def)
  then show ?case using 1 by (auto simp: Let_def split: if_splits)
qed (auto split: if_splits)

lemma remainder_count: "pushable (remainder e) = 0"
  using left_count [of e] by (auto simp: remainder_def split: option.splits)

lemma left_value: "fst (get_exprs_can_pushdown e) = Some (ValueExpr v) \<Longrightarrow> e = ValueExpr v"
  by (induction e rule: get_exprs_can_pushdown.induct) (auto simp: Let_def split: if_splits)

lemma remainder_value: "remainder e = ValueExpr v \<Longrightarrow> v_type v = BOOLEANS \<or> e = ValueExpr v"
  using left_value [of e v] by (auto simp: remainder_def split: option.splits)

lemma predicate_rewrite_total:
  assumes "constants_ok op"
  shows "\<exists>op' c. predicate_rewrite fp op = Some (op', c) \<and> constants_ok op' \<and> weight op' \<le> weight op \<and> (c \<longrightarrow> weight op' < weight op)"
  using assms
proof (induction fp op rule: predicate_rewrite.induct)
  case (1 fp ty x es ps y v qs gs)
  then have "v_type v \<noteq> UNDEFINED" by simp
  then obtain b where "constant_holds fp v = Some b" by (cases "v_type v") (auto simp: constant_holds_def get_boolean_def)
  then show ?case using 1 by auto
qed auto

lemma predicate_pushdown_total:
  assumes "constants_ok op"
  shows "case predicate_pushdown op of (op', c) \<Rightarrow> constants_ok op' \<and> weight op' \<le> weight op \<and> (c \<longrightarrow> weight op' < weight op)"
  using assms
proof (induction op rule: predicate_pushdown.induct)
  case (1 x e ps y es qs gs)
  have p: "length (pushed e) = pushable e" by (simp add: pushed_def pushed_count)
  have v: "\<forall>v. ValueExpr v = remainder e \<longrightarrow> v_type v \<noteq> UNDEFINED" using 1 remainder_value [of e] by force
  show ?case using 1 p v remainder_count [of e] by (cases "pushed e") auto
qed auto

lemma those_map: "\<forall>x\<in>set xs. f x = Some (g x) \<Longrightarrow> those (map f xs) = Some (map g xs)"
  by (induction xs) auto

lemma apply_rules_total:
  assumes "constants_ok op"
  shows "\<exists>op' c. apply_rules fp op = Some (op', c) \<and> constants_ok op' \<and> weight op' \<le> weight op \<and> (c \<longrightarrow> weight op' < weight op)"
proof -
  obtain op2 c2 where r: "predicate_rewrite fp op = Some (op2, c2)" "constants_ok op2" "weight op2 \<le> weight op" "c2 \<longrightarrow> weight op2 < weight op"
    using predicate_rewrite_total [OF assms, of fp] by blast
  obtain op3 c3 where p: "predicate_pushdown op2 = (op3, c3)" by (cases "predicate_pushdown op2")
  then show ?thesis using r predicate_pushdown_total [OF r(2)] by (auto simp: apply_rules_def expression_rewrite_id)
qed

lemma sum_list_le: "\<forall>x\<in>set xs. (f x :: nat) \<le> g x \<Longrightarrow> sum_list (map f xs) \<le> sum_list (map g xs)"
  by (induction xs) auto

lemma sum_list_less: "\<forall>x\<in>set xs. (f x :: nat) \<le> g x \<Longrightarrow> \<exists>x\<in>set xs. f x < g x \<Longrightarrow> sum_list (map f xs) < sum_list (map g xs)"
proof (induction xs)
  case (Cons x xs)
  then show ?case using sum_list_le [of xs f g] by (cases "f x < g x") (auto simp: add_less_le_mono add_le_less_mono)
qed simp

lemma rewrite_total:
  "constants_ok op \<Longrightarrow> \<exists>op' c. rewrite fp op = Some (op', c) \<and> constants_ok op' \<and> weight op' \<le> weight op \<and> (c \<longrightarrow> weight op' < weight op)"
proof (induction fp op rule: rewrite.induct)
  case (1 fp op)
  obtain op1 c1 where r: "apply_rules fp op = Some (op1, c1)" "constants_ok op1" "weight op1 \<le> weight op" "c1 \<longrightarrow> weight op1 < weight op"
    using apply_rules_total [OF 1(2), of fp] by blast
  obtain ty x es ps cs where o: "op1 = LogicalOper ty x es ps cs" by (cases op1)
  have "\<forall>d\<in>set cs. \<exists>p. rewrite fp d = Some p \<and> constants_ok (fst p) \<and> weight (fst p) \<le> weight d \<and> (snd p \<longrightarrow> weight (fst p) < weight d)"
    using 1(1) [OF r(1) refl] r(2) o by fastforce
  then obtain g where g: "\<forall>d\<in>set cs. rewrite fp d = Some (g d) \<and> constants_ok (fst (g d)) \<and> weight (fst (g d)) \<le> weight d \<and> (snd (g d) \<longrightarrow> weight (fst (g d)) < weight d)"
    by metis
  let ?op = "LogicalOper ty x es ps (map (fst \<circ> g) cs)" and ?c = "c1 \<or> list_ex (snd \<circ> g) cs"
  have w: "rewrite fp op = Some (?op, ?c)" using those_map [of cs "rewrite fp" g] g r(1) o by (subst rewrite.simps) (simp add: list_ex_iff)
  have le: "sum_list (map (weight \<circ> (fst \<circ> g)) cs) \<le> sum_list (map weight cs)" using sum_list_le [of cs "weight \<circ> (fst \<circ> g)" weight] g by simp
  have "sum_list (map (weight \<circ> (fst \<circ> g)) cs) < sum_list (map weight cs)" if "list_ex (snd \<circ> g) cs"
    using sum_list_less [of cs "weight \<circ> (fst \<circ> g)" weight] g that by (auto simp: list_ex_iff)
  then show ?case using w le r(2-4) g unfolding o by (intro exI [of _ ?op] exI [of _ ?c]) (auto simp: comp_def)
qed

lemma optimize_total:
  "constants_ok op \<Longrightarrow> \<exists>op' x. optimize_rewrite fp op = Some op' \<and> rewrite fp x = Some (op', False) \<and> weight op' \<le> weight op"
proof (induction "weight op" arbitrary: op rule: less_induct)
  case less
  obtain op1 c where r: "rewrite fp op = Some (op1, c)" "constants_ok op1" "weight op1 \<le> weight op" "c \<longrightarrow> weight op1 < weight op"
    using rewrite_total [OF less(2), of fp] by blast
  show ?case
  proof (cases c)
    case True
    then obtain op' x where "optimize_rewrite fp op1 = Some op'" "rewrite fp x = Some (op', False)" "weight op' \<le> weight op1" using less(1) r by blast
    then show ?thesis using r True by (subst optimize_rewrite.simps) fastforce
  next
    case False
    then show ?thesis using r by (subst optimize_rewrite.simps) auto
  qed
qed

section \<open>Pushing down keeps the rows\<close>

lemma kleene_and: "kleene CONJ_AND ts = Some True \<longleftrightarrow> (\<forall>t\<in>set ts. t = Some True)"
proof -
  have "t = Some True \<or> t = Some False \<or> t = None" for t :: "bool option" by (cases t) auto
  then show ?thesis by (auto simp: kleene_def Let_def)
qed

lemma left_set: "set (List.map_filter fst (map get_exprs_can_pushdown es)) = {y. \<exists>x\<in>set es. fst (get_exprs_can_pushdown x) = Some y}"
  by (induction es) (auto simp: map_filter_simps split: option.splits)

lemma pushdown_logic:
  "logic \<rho> e = Some True \<longleftrightarrow> (\<forall>p\<in>set (snd (get_exprs_can_pushdown e)). \<rho> p = Some True)
     \<and> (case fst (get_exprs_can_pushdown e) of None \<Rightarrow> True | Some e' \<Rightarrow> logic \<rho> e' = Some True)"
proof (induction e rule: get_exprs_can_pushdown.induct)
  case (1 ty es)
  show ?case
  proof (cases ty)
    case CONJ_AND
    have "logic \<rho> x = Some True \<longleftrightarrow> (\<forall>p\<in>set (snd (get_exprs_can_pushdown x)). \<rho> p = Some True)
        \<and> (\<forall>e'. fst (get_exprs_can_pushdown x) = Some e' \<longrightarrow> logic \<rho> e' = Some True)" if "x \<in> set es" for x
      using 1 [OF _ that] CONJ_AND by (simp split: option.splits)
    then show ?thesis using CONJ_AND by (simp add: Let_def kleene_and left_set) blast
  qed simp
qed (auto split: if_splits)

lemma pushdown_leaves:
  "set (snd (get_exprs_can_pushdown e)) \<subseteq> set (leaves e)
     \<and> (\<forall>e'. fst (get_exprs_can_pushdown e) = Some e' \<longrightarrow> set (leaves e') \<subseteq> set (leaves e) \<and> (or_filled e \<longrightarrow> or_filled e'))"
proof (induction e rule: get_exprs_can_pushdown.induct)
  case (1 ty es)
  show ?case
  proof (cases ty)
    case CONJ_AND
    then have ih: "set (snd (get_exprs_can_pushdown x)) \<subseteq> set (leaves x)"
      "fst (get_exprs_can_pushdown x) = Some e' \<Longrightarrow> set (leaves e') \<subseteq> set (leaves x) \<and> (or_filled x \<longrightarrow> or_filled e')" if "x \<in> set es" for x e'
      using 1 [OF _ that] by auto
    let ?ys = "List.map_filter fst (map get_exprs_can_pushdown es)"
    have ys: "\<exists>x\<in>set es. fst (get_exprs_can_pushdown x) = Some y" if "y \<in> set ?ys" for y using that by (simp add: left_set)
    have "set (leaves y) \<subseteq> (\<Union>x\<in>set es. set (leaves x))" if "y \<in> set ?ys" for y using ys [OF that] ih(2) by blast
    moreover have "or_filled y" if "y \<in> set ?ys" "\<forall>x\<in>set es. or_filled x" for y using ys [OF that(1)] ih(2) that(2) by blast
    moreover have "(\<Union>x\<in>set es. set (snd (get_exprs_can_pushdown x))) \<subseteq> (\<Union>x\<in>set es. set (leaves x))" using ih(1) by blast
    ultimately show ?thesis using CONJ_AND by (simp add: Let_def UN_subset_iff)
  qed simp
qed auto

lemma scan_filter_truth:
  "\<forall>p\<in>set ps. has_truth env t p (f p) \<Longrightarrow> scan_filter True env ps t v = Some (SUCCESS, \<forall>p\<in>set ps. f p = Some True)"
proof (induction ps arbitrary: v)
  case (Cons p ps)
  obtain w where w: "get_value env t p v = Val (SUCCESS, w)" "truth (e_fp env) w = Val (f p)" using Cons.prems unfolding has_truth_def by (meson list.set_intros(1))
  from truth_cases [OF w(2)] show ?case
  proof (elim disjE exE conjE)
    assume "f p = None" "v_type w = NULLS"
    then show ?thesis using w(1) by (simp add: returned_def get_boolean_def)
  next
    fix b assume "f p = Some b" "v_type w \<noteq> NULLS" "get_boolean (e_fp env) w = Val b"
    then show ?thesis using w(1) Cons.IH Cons.prems by (simp add: returned_def)
  qed
qed simp

lemma wanted_truth:
  assumes "has_truth env t e b"
  shows "row_wanted env e (Some t) = Some (SUCCESS, b = Some True)"
proof -
  obtain w where w: "get_value env t e new_value = Val (SUCCESS, w)" "truth (e_fp env) w = Val b" using assms unfolding has_truth_def by meson
  from truth_cases [OF w(2)] show ?thesis using w(1) by (auto simp: row_wanted_def returned_def get_boolean_def)
qed

lemma remainder_truth:
  assumes "\<forall>l\<in>set (leaves e). has_truth env t l (\<rho> l)" "or_filled e"
  shows "has_truth env t (remainder e) (case fst (get_exprs_can_pushdown e) of None \<Rightarrow> Some True | Some e' \<Rightarrow> logic \<rho> e')"
proof (cases "fst (get_exprs_can_pushdown e)")
  case None
  then show ?thesis by (simp add: remainder_def has_truth_def)
next
  case (Some e')
  then have "\<forall>l\<in>set (leaves e'). has_truth env t l (\<rho> l)" "or_filled e'" using pushdown_leaves [of e] assms by auto
  then show ?thesis using logic_truth Some by (simp add: remainder_def)
qed

lemma visible_rows_source: "visible_rows (scan_of src rs) = map (\<lambda>r. row_tuple (ts_meta src) (ts_texts src) (snd (ts_visit src r))) (filter (\<lambda>r. fst (ts_visit src r) \<noteq> RECORD_INVISIBLE) rs)"
  by (simp add: visible_rows_def scan_of_def)

lemma scan_source:
  assumes "\<forall>t\<in>set (visible_rows (scan_of src rs)). \<forall>p\<in>set ps. has_truth env t p (f t p)"
  shows "row_source (table_scan env (scan_of src rs) ps) (\<lambda>_. True) (filter (\<lambda>t. \<forall>p\<in>set ps. f t p = Some True) (visible_rows (scan_of src rs)))"
proof unfold_locales
  fix s :: scan
  let ?P = "\<lambda>t. \<forall>p\<in>set ps. f t p = Some True"
  have "scan_filter True env ps t new_value = Some (SUCCESS, ?P t)" if "t \<in> set (visible_rows (scan_of src rs))" for t
    using scan_filter_truth [of ps env t "f t" new_value] assms that by blast
  then have "\<forall>r\<in>set rs. fst (ts_visit src r) \<noteq> RECORD_INVISIBLE \<longrightarrow>
      scan_filter True env ps (row_tuple (ts_meta src) (ts_texts src) (snd (ts_visit src r))) new_value
        = Some (SUCCESS, ?P (row_tuple (ts_meta src) (ts_texts src) (snd (ts_visit src r))))"
    by (simp add: visible_rows_source)
  then have "delivers (table_scan env (scan_of src rs) ps) (\<lambda>_. True) (s\<lparr>sc_rest := rs\<rparr>) (filter ?P (visible_rows (scan_of src rs)))"
    using scan_delivers [of "s\<lparr>sc_rest := rs\<rparr>" "scan_of src rs" env ps ?P] by (simp add: scan_of_def)
  then show "\<exists>s'. o_open (table_scan env (scan_of src rs) ps) s = Some (SUCCESS, s') \<and> delivers (table_scan env (scan_of src rs) ps) (\<lambda>_. True) s' (filter ?P (visible_rows (scan_of src rs)))"
    by (simp add: table_scan_def scan_open_def scan_of_def)
qed

lemma filter_source:
  assumes "row_source op idle rows" "\<forall>t\<in>set rows. row_wanted env e (Some t) = Some (SUCCESS, P t)"
  shows "row_source (predicate_oper env e op) idle (filter P rows)"
proof -
  have "filtered_source op idle rows env e P" using assms by (simp add: filtered_source_def filtered_source_axioms_def)
  then show ?thesis by (rule filtered_source.is_source)
qed

section \<open>Properties\<close>


text \<open>
  C27: Rewriting a plan ends: the loop that applies the rules until nothing changes returns, with a plan that the last
  round left unchanged, for every plan whose constants have a type.
\<close>

theorem rewriting_ends:
  assumes "constants_ok op"
  shows "\<exists>op' x. optimize_rewrite fp op = Some op' \<and> rewrite fp x = Some (op', False) \<and> weight op' \<le> weight op"
  using optimize_total [OF assms] .


section \<open>Witnesses\<close>


theorem rewriting_ends_witness:
  "\<exists>op'. optimize_rewrite ex_fpu (LogicalOper PREDICATE () [ComparisonExpr EQUAL_TO (FieldExpr (ascii ''t'') (ascii ''a'') INTS) (int_expr 1)] []
      [LogicalOper TABLE_GET () [] [] []]) = Some op'"
  using rewriting_ends [of "LogicalOper PREDICATE () [ComparisonExpr EQUAL_TO (FieldExpr (ascii ''t'') (ascii ''a'') INTS) (int_expr 1)] [] [LogicalOper TABLE_GET () [] [] []]" ex_fpu]
  by auto


end
