(* ===== verification/RecordStore.thy ===== *)
theory RecordStore
  imports RecordFile
begin

text \<open>
  A record file as a map from record identifiers to records: the invariant of the file, and that the operations of
  the file handler act on the map. A scan returns the map in page and slot order.
\<close>

section \<open>The invariant\<close>

definition data_page :: "RecFile \<Rightarrow> PageNum \<Rightarrow> bool" where
  "data_page f p \<longleftrightarrow> 0 < p \<and> p < int (rf_count f) \<and> rf_alloc f p"

definition file_records :: "RecFile \<Rightarrow> RID \<Rightarrow> byte list option" where
  "file_records f rid =
     (if data_page f (page_num rid) \<and> 0 \<le> slot_num rid then page_records (rf_pages f (page_num rid)) (nat (slot_num rid)) else None)"

text \<open>
  Every page but the first is a page of records of size \<open>n\<close>; the pages with room are among \<open>free_pages\<close>, which
  may hold full pages as well.
\<close>

definition rf_ok :: "nat \<Rightarrow> RecFile \<Rightarrow> bool" where
  "rf_ok n f \<longleftrightarrow> 0 < rf_count f \<and> rf_count f \<le> rf_max_pages \<and> rf_alloc f 0 \<and>
     (\<forall>p. length (page_data (rf_pages f p)) = BP_PAGE_DATA_SIZE) \<and>
     (\<forall>p. data_page f p \<longrightarrow> page_ok (rf_pages f p) \<and> record_real_size (page_header (rf_pages f p)) = n) \<and>
     finite (free_pages f) \<and> (\<forall>p\<in>free_pages f. data_page f p) \<and>
     (\<forall>p. data_page f p \<longrightarrow> \<not> is_full (rf_pages f p) \<longrightarrow> p \<in> free_pages f)"

lemma rf_okD:
  assumes "rf_ok n f"
  shows "0 < rf_count f" "rf_count f \<le> rf_max_pages" "rf_alloc f 0" "length (page_data (rf_pages f p)) = BP_PAGE_DATA_SIZE"
    "data_page f p \<Longrightarrow> page_ok (rf_pages f p)" "data_page f p \<Longrightarrow> record_real_size (page_header (rf_pages f p)) = n"
    "finite (free_pages f)" "p \<in> free_pages f \<Longrightarrow> data_page f p" "data_page f p \<Longrightarrow> \<not> is_full (rf_pages f p) \<Longrightarrow> p \<in> free_pages f"
  using assms by (simp_all add: rf_ok_def)

lemma data_page_get: "data_page f p \<Longrightarrow> rf_get_page p f = SUCCESS"
  by (simp add: data_page_def rf_get_page_def)

lemma is_full_occupied: "page_ok p \<Longrightarrow> is_full p \<longleftrightarrow> occupied p = {..<cap p}"
proof -
  assume ok: "page_ok p"
  have "card (occupied p) \<le> cap p" using card_mono [OF _ occupied_subset [of p]] by simp
  then have "is_full p \<longleftrightarrow> record_num (page_header p) = int (cap p)" using page_okD(5) [OF ok] by (auto simp: is_full_def)
  then show ?thesis using full_iff [OF ok] by simp
qed

text \<open>The log does not touch the pages and their allocation.\<close>

lemma append_record_log_sel [simp]:
  "rf_pages (snd (append_record_log h f)) = rf_pages f" "rf_count (snd (append_record_log h f)) = rf_count f"
  "rf_alloc (snd (append_record_log h f)) = rf_alloc f" "free_pages (snd (append_record_log h f)) = free_pages f"
  "rf_id (snd (append_record_log h f)) = rf_id f" "rf_log_io (snd (append_record_log h f)) = rf_log_io f"
  "rf_log_io f = SUCCESS \<Longrightarrow> fst (append_record_log h f) = SUCCESS"
  by (simp_all add: append_record_log_def Let_def)

lemmas log_defs = log_init_new_page_def log_insert_record_def log_update_record_def log_delete_record_def

lemma put_page_sel [simp]:
  "rf_pages (put_page p pg f) = (rf_pages f)(p := pg)" "rf_count (put_page p pg f) = rf_count f" "rf_alloc (put_page p pg f) = rf_alloc f"
  "free_pages (put_page p pg f) = free_pages f" "rf_id (put_page p pg f) = rf_id f" "rf_log_io (put_page p pg f) = rf_log_io f"
  "rf_lsn (put_page p pg f) = rf_lsn f" "rf_log (put_page p pg f) = rf_log f" "rf_next (put_page p pg f) = rf_next f"
  by (simp_all add: put_page_def)

text \<open>Replacing a page by one with other records.\<close>

lemma data_page_cong: "rf_count f' = rf_count f \<Longrightarrow> rf_alloc f' = rf_alloc f \<Longrightarrow> data_page f' p = data_page f p"
  by (simp add: data_page_def)

lemma replace_page:
  assumes ok: "rf_ok n f" and p: "data_page f p"
    and f': "rf_count f' = rf_count f" "rf_alloc f' = rf_alloc f" "rf_pages f' = (rf_pages f)(p := pg)"
      "free_pages f' = S" "free_pages f \<subseteq> S" "S \<subseteq> insert p (free_pages f)" "\<not> is_full pg \<longrightarrow> p \<in> S"
    and pg: "page_ok pg" "record_real_size (page_header pg) = n" "0 \<le> i" "page_records pg = (page_records (rf_pages f p))(nat i := v)"
  shows "rf_ok n f'" "file_records f' = (file_records f)(\<lparr>page_num = p, slot_num = i\<rparr> := v)"
proof -
  note d = rf_okD [OF ok] and dp = data_page_cong [OF f'(1,2)]
  show "rf_ok n f'"
    unfolding rf_ok_def dp f'(1-4)
    using d pg(1,2) p f'(5-7) page_okD(1) [OF pg(1)] finite_subset [OF f'(6)] by auto
  show "file_records f' = (file_records f)(\<lparr>page_num = p, slot_num = i\<rparr> := v)"
  proof
    fix rid :: RID
    show "file_records f' rid = ((file_records f)(\<lparr>page_num = p, slot_num = i\<rparr> := v)) rid"
      using p pg(3,4) by (cases rid) (auto simp: file_records_def dp f'(3) nat_eq_iff)
  qed
qed

lemma rf_next_page_find:
  assumes "0 \<le> cur"
  obtains "rf_next_page n cur f = None" "\<forall>k. nat cur < k \<longrightarrow> k < n \<longrightarrow> \<not> rf_alloc f (int k)"
    | j where "rf_next_page n cur f = Some (int j)" "nat cur < j" "j < n" "rf_alloc f (int j)" "\<forall>k. nat cur < k \<longrightarrow> k < j \<longrightarrow> \<not> rf_alloc f (int k)"
proof (cases "find (\<lambda>i. rf_alloc f (int i)) [nat cur + 1..<n]")
  case None
  then have "rf_next_page n cur f = None" "\<forall>k. nat cur < k \<longrightarrow> k < n \<longrightarrow> \<not> rf_alloc f (int k)"
    using assms by (auto simp: rf_next_page_def find_None_iff nat_add_distrib)
  then show thesis by (rule that(1))
next
  case (Some j)
  let ?xs = "[nat cur + 1..<n]"
  obtain i where i: "i < length ?xs" "rf_alloc f (int (?xs ! i))" "j = ?xs ! i" "\<forall>k<i. \<not> rf_alloc f (int (?xs ! k))"
    using Some by (auto simp: find_Some_iff)
  have j: "j = nat cur + 1 + i" "nat cur < j" "j < n" "rf_alloc f (int j)" using i by simp_all
  have "\<not> rf_alloc f (int k)" if "nat cur < k" "k < j" for k
  proof -
    have "k = ?xs ! (k - (nat cur + 1))" "k - (nat cur + 1) < i" using that j by simp_all
    then show ?thesis using i(4) by metis
  qed
  moreover have "rf_next_page n cur f = Some (int j)" using Some assms by (simp add: rf_next_page_def nat_add_distrib)
  ultimately show thesis using that(2) j by blast
qed

section \<open>Opening\<close>

text \<open>What opening collects: the pages behind \<open>cur\<close> that have room.\<close>

definition with_room :: "RecFile \<Rightarrow> nat \<Rightarrow> PageNum set" where
  "with_room f cur = {p. int cur < p \<and> data_page f p \<and> \<not> is_full (rf_pages f p)}"

lemma init_free_loop_ok:
  assumes "0 \<le> cur"
  shows "init_free_loop (rf_count f) cur f = Some (SUCCESS, f\<lparr>free_pages := free_pages f \<union> with_room f (nat cur)\<rparr>)"
  using assms
proof (induction "rf_count f - nat cur" arbitrary: cur f rule: less_induct)
  case less
  show ?case
  proof (cases rule: rf_next_page_find [OF less.prems, of "rf_count f" f])
    case 1
    have "\<not> (int (nat cur) < p \<and> data_page f p)" for p
      using 1(2) [rule_format, of "nat p"] by (auto simp: data_page_def)
    then have "with_room f (nat cur) = {}" by (auto simp: with_room_def)
    moreover have "f\<lparr>free_pages := free_pages f\<rparr> = f" by simp
    ultimately show ?thesis using 1(1) by (subst init_free_loop.simps) simp
  next
    case (2 j)
    let ?f = "if is_full (rf_pages f (int j)) then f else f\<lparr>free_pages := insert (int j) (free_pages f)\<rparr>"
    have sel: "rf_count ?f = rf_count f" "with_room ?f = with_room f" by (auto simp: with_room_def data_page_def fun_eq_iff)
    have step: "init_free_loop (rf_count f) cur f = init_free_loop (rf_count ?f) (int j) ?f"
      using 2 by (subst init_free_loop.simps) (simp add: rf_get_page_def sel(1))
    have "with_room f (nat cur) = (if is_full (rf_pages f (int j)) then {} else {int j}) \<union> with_room f j"
    proof -
      have "p = int j \<or> int j < p" if "int (nat cur) < p" "data_page f p" for p
        using 2(5) [rule_format, of "nat p"] that by (force simp: data_page_def)
      moreover have "int (nat cur) < int j" "data_page f (int j)" "\<And>p. int j < p \<Longrightarrow> int (nat cur) < p" using 2(2-4) by (auto simp: data_page_def)
      ultimately have key: "int (nat cur) < p \<and> data_page f p \<longleftrightarrow> p = int j \<or> int j < p \<and> data_page f p" for p by blast
      have mem: "p \<in> with_room f (nat cur) \<longleftrightarrow> (p = int j \<or> int j < p \<and> data_page f p) \<and> \<not> is_full (rf_pages f p)" for p
        unfolding with_room_def mem_Collect_eq key [symmetric] by blast
      have mem': "p \<in> with_room f j \<longleftrightarrow> int j < p \<and> data_page f p \<and> \<not> is_full (rf_pages f p)" for p by (simp add: with_room_def)
      show ?thesis
      proof (intro set_eqI)
        fix p
        show "p \<in> with_room f (nat cur) \<longleftrightarrow> p \<in> (if is_full (rf_pages f (int j)) then {} else {int j}) \<union> with_room f j"
          unfolding Un_iff mem mem' by (cases "p = int j") simp_all
      qed
    qed
    then have "?f\<lparr>free_pages := free_pages ?f \<union> with_room ?f (nat (int j))\<rparr> = f\<lparr>free_pages := free_pages f \<union> with_room f (nat cur)\<rparr>"
      unfolding sel(2) by simp
    moreover have "rf_count ?f - nat (int j) < rf_count f - nat cur" using 2(2,3) sel(1) by simp
    ultimately show ?thesis using less.hyps [of ?f "int j"] step by simp
  qed
qed

lemma file_init_ok:
  assumes "0 < rf_count f" "rf_count f \<le> rf_max_pages" "rf_alloc f 0" "free_pages f = {}"
    and "\<forall>p. length (page_data (rf_pages f p)) = BP_PAGE_DATA_SIZE"
    and "\<forall>p. data_page f p \<longrightarrow> page_ok (rf_pages f p) \<and> record_real_size (page_header (rf_pages f p)) = n"
  shows "\<exists>f'. file_init f = Some (SUCCESS, f') \<and> rf_ok n f' \<and> file_records f' = file_records f
    \<and> free_pages f' = {p. data_page f p \<and> \<not> is_full (rf_pages f p)}"
proof -
  let ?S = "with_room f 0"
  let ?f = "f\<lparr>free_pages := ?S\<rparr>"
  have S: "?S = {p. data_page f p \<and> \<not> is_full (rf_pages f p)}" by (auto simp: with_room_def data_page_def)
  have run: "file_init f = Some (SUCCESS, ?f)"
    using init_free_loop_ok [of 0 f] assms(4) by (simp add: file_init_def init_free_pages_def)
  have dp: "data_page ?f p = data_page f p" for p by (simp add: data_page_def)
  have "?S \<subseteq> {0<..<int (rf_count f)}" by (auto simp: S data_page_def)
  then have "finite ?S" by (rule finite_subset) simp
  then have "rf_ok n ?f" unfolding rf_ok_def dp using assms S by simp
  moreover have "file_records ?f = file_records f" by (simp add: file_records_def dp fun_eq_iff)
  ultimately show ?thesis using run S by simp
qed

text \<open>
  Opening a record file whose pages are well-formed ends and finds exactly the pages that have room, so that the
  invariant of the file holds afterwards.
\<close>

lemma file_init_establishes:
  assumes "0 < rf_count f" "rf_count f \<le> rf_max_pages" "rf_alloc f 0" "free_pages f = {}"
    and "\<forall>p. length (page_data (rf_pages f p)) = BP_PAGE_DATA_SIZE"
    and "\<forall>p. data_page f p \<longrightarrow> page_ok (rf_pages f p) \<and> record_real_size (page_header (rf_pages f p)) = n"
  shows "\<exists>f'. file_init f = Some (SUCCESS, f') \<and> rf_ok n f' \<and> file_records f' = file_records f
    \<and> free_pages f' = {p. data_page f p \<and> \<not> is_full (rf_pages f p)}"
  using assms by (rule file_init_ok)

section \<open>Insertion\<close>

lemma find_room_ok:
  assumes "rf_ok n f" and beg: "\<forall>S. finite S \<longrightarrow> S \<noteq> {} \<longrightarrow> begin_page S \<in> S"
  shows "\<exists>r S. find_room begin_page f = Some (Inr r, f\<lparr>free_pages := S\<rparr>) \<and> rf_ok n (f\<lparr>free_pages := S\<rparr>)
    \<and> (case r of Some p \<Rightarrow> p \<in> S \<and> \<not> is_full (rf_pages f p) | None \<Rightarrow> S = {})"
  using assms(1)
proof (induction "card (free_pages f)" arbitrary: f rule: less_induct)
  case less
  note d = rf_okD [OF less.prems]
  show ?case
  proof (cases "free_pages f = {}")
    case True
    then have "find_room begin_page f = Some (Inr None, f)" by (subst find_room.simps) simp
    moreover have "f\<lparr>free_pages := {}\<rparr> = f" using True by (cases f) simp
    ultimately have "find_room begin_page f = Some (Inr None, f\<lparr>free_pages := {}\<rparr>)" "f\<lparr>free_pages := {}\<rparr> = f" by simp_all
    with less.prems show ?thesis by (intro exI [of _ None] exI [of _ "{}"]) simp
  next
    case False
    define p where "p = begin_page (free_pages f)"
    have p: "p \<in> free_pages f" using beg False d(7) by (simp add: p_def)
    have get: "rf_get_page p f = SUCCESS" by (rule data_page_get [OF d(8) [OF p]])
    show ?thesis
    proof (cases "is_full (rf_pages f p)")
      case full: True
      let ?f = "f\<lparr>free_pages := free_pages f - {p}\<rparr>"
      have "data_page ?f q = data_page f q" for q by (simp add: data_page_def)
      then have "rf_ok n ?f" using less.prems full unfolding rf_ok_def by simp blast
      moreover have "card (free_pages ?f) < card (free_pages f)" using p d(7) card_Diff1_less [of "free_pages f" p] by simp
      moreover have "find_room begin_page f = find_room begin_page ?f"
        using False full get by (subst find_room.simps) (simp add: Let_def p_def [symmetric])
      ultimately obtain r S where "find_room begin_page f = Some (Inr r, f\<lparr>free_pages := S\<rparr>)" "rf_ok n (f\<lparr>free_pages := S\<rparr>)"
        "case r of Some p \<Rightarrow> p \<in> S \<and> \<not> is_full (rf_pages ?f p) | None \<Rightarrow> S = {}"
        using less.hyps [of ?f] by auto
      then show ?thesis by (intro exI [of _ r] exI [of _ S]) (simp split: option.splits)
    next
      case room: False
      then have "find_room begin_page f = Some (Inr (Some p), f\<lparr>free_pages := free_pages f\<rparr>)"
        using False get by (subst find_room.simps) (simp add: Let_def p_def [symmetric])
      then show ?thesis using less.prems p room by (intro exI [of _ "Some p"] exI [of _ "free_pages f"]) auto
    qed
  qed
qed

lemma handler_insert_ok:
  assumes ok: "rf_ok n f" and p: "p \<in> free_pages f" "\<not> is_full (rf_pages f p)" and len: "length data = n"
  obtains rid f' where "handler_insert_record p data f = (Inr rid, f')" "rf_ok n f'" "file_records f rid = None"
    "file_records f' = (file_records f)(rid \<mapsto> data)" "page_num rid = p" "data_page f p"
proof -
  note d = rf_okD [OF ok]
  have dp: "data_page f p" by (rule d(8) [OF p(1)])
  note pok = d(5) [OF dp] and sz = d(6) [OF dp]
  have room: "occupied (rf_pages f p) \<noteq> {..<cap (rf_pages f p)}" using p(2) is_full_occupied [OF pok] by simp
  have len': "length data = record_real_size (page_header (rf_pages f p))" using sz len by simp
  obtain i pg where i: "insert_record data (rf_pages f p) = (Inr (int i), pg)" "page_records (rf_pages f p) i = None" "page_ok pg"
    "page_records pg = (page_records (rf_pages f p))(i \<mapsto> data)" "record_real_size (page_header pg) = n"
    using insert_record_map [OF pok len' room] sz by auto
  let ?rid = "\<lparr>page_num = p, slot_num = int i\<rparr>"
  let ?f = "put_page p pg (snd (log_insert_record (page_rec_size p f) ?rid data f))"
  have run: "handler_insert_record p data f = (Inr ?rid, ?f)" by (simp add: handler_insert_record_def i(1) Let_def)
  have sel: "rf_count ?f = rf_count f" "rf_alloc ?f = rf_alloc f" "rf_pages ?f = (rf_pages f)(p := pg)" "free_pages ?f = free_pages f"
    by (simp_all add: log_defs)
  have rec: "page_records pg = (page_records (rf_pages f p))(nat (int i) \<mapsto> data)" using i(4) by simp
  have "rf_ok n ?f" "file_records ?f = (file_records f)(?rid \<mapsto> data)"
    using replace_page [OF ok dp sel(1-4) _ _ _ i(3,5) _ rec] p(1) by auto
  moreover have "file_records f ?rid = None" using i(2) by (simp add: file_records_def)
  ultimately show thesis using that run dp by simp
qed

lemma rf_allocate_ok:
  assumes ok: "rf_ok n f" and free: "free_pages f = {}"
  shows "(rf_count f = rf_max_pages \<and> (\<forall>p. 0 < p \<longrightarrow> p < int (rf_count f) \<longrightarrow> rf_alloc f p) \<and> rf_allocate f = (Inl BUFFERPOOL_NOBUF, f))
    \<or> (\<exists>p f'. rf_allocate f = (Inr p, f') \<and> \<not> data_page f p \<and> 0 < p \<and> p < int (rf_count f') \<and> rf_alloc f' = (rf_alloc f)(p := True)
         \<and> (\<forall>q. data_page f' q \<longleftrightarrow> q = p \<or> data_page f q) \<and> (\<forall>q. q \<noteq> p \<longrightarrow> rf_pages f' q = rf_pages f q)
         \<and> (\<forall>q. length (page_data (rf_pages f' q)) = BP_PAGE_DATA_SIZE) \<and> rf_count f' \<le> rf_max_pages \<and> free_pages f' = {}
         \<and> rf_log_io f' = rf_log_io f)"
proof (cases "filter (\<lambda>i. \<not> rf_alloc f (int i)) [0..<rf_count f]")
  case Nil
  note d = rf_okD [OF ok]
  have all: "\<forall>p. 0 < p \<longrightarrow> p < int (rf_count f) \<longrightarrow> rf_alloc f p"
  proof (intro allI impI)
    fix p :: int assume "0 < p" "p < int (rf_count f)"
    then show "rf_alloc f p" using Nil by (auto simp: filter_empty_conv dest: bspec [of _ _ "nat p"])
  qed
  show ?thesis
  proof (cases "rf_count f \<ge> rf_max_pages")
    case True
    then show ?thesis using Nil d(2) all by (simp add: rf_allocate_def)
  next
    case False
    then show ?thesis using Nil d(1,4) free all
      by (auto simp: rf_allocate_def Let_def data_page_def zero_rec_page_def)
  qed
next
  case (Cons i js)
  then have "i \<in> set (filter (\<lambda>i. \<not> rf_alloc f (int i)) [0..<rf_count f])" by simp
  then have i: "\<not> rf_alloc f (int i)" "i < rf_count f" by auto
  then have "0 < i" using rf_okD(3) [OF ok] by (cases i) auto
  with i Cons rf_okD(2,4) [OF ok] free show ?thesis by (auto simp: rf_allocate_def data_page_def)
qed

lemma init_page_ok:
  assumes "rf_log_io f = SUCCESS" "0 < p" "p < int (rf_count f)" "length (page_data (rf_pages f p)) = BP_PAGE_DATA_SIZE"
  obtains f' pg where "handler_init_empty_page p n f = Some (SUCCESS, f')" "init_empty_page n (rf_pages f p) = Some pg" "page_ok pg"
    "page_records pg = Map.empty" "record_real_size (page_header pg) = n" "n \<le> 8152 \<longrightarrow> 0 < cap pg" "rf_pages f' = (rf_pages f)(p := pg)"
    "rf_count f' = rf_count f" "rf_alloc f' = rf_alloc f" "free_pages f' = free_pages f" "rf_log_io f' = rf_log_io f"
proof -
  obtain pg where pg: "init_empty_page n (rf_pages f p) = Some pg" "page_ok pg" "page_records pg = Map.empty"
    "record_real_size (page_header pg) = n" "n \<le> 8152 \<longrightarrow> 0 < cap pg"
    using init_empty_page_spec [OF assms(4), of n] by blast
  obtain f1 where f1: "log_init_new_page n p f = (SUCCESS, f1)" "rf_pages f1 = rf_pages f" "rf_count f1 = rf_count f"
    "rf_alloc f1 = rf_alloc f" "free_pages f1 = free_pages f" "rf_log_io f1 = rf_log_io f"
    using assms(1) by (auto simp: log_defs append_record_log_def Let_def)
  have "handler_init_empty_page p n f = Some (SUCCESS, put_page p pg f1)"
    using assms(2,3) f1(1,2) pg(1) by (simp add: handler_init_empty_page_def rf_get_page_def)
  then show thesis using that pg f1 by simp
qed

text \<open>The course of an insertion: a full file, a page with room, or a new page.\<close>

lemma file_insert_cases:
  assumes ok: "rf_ok n f" and beg: "\<forall>S. finite S \<longrightarrow> S \<noteq> {} \<longrightarrow> begin_page S \<in> S" and len: "length data = n" and n: "n \<le> 8152" and io: "rf_log_io f = SUCCESS"
  obtains (full) S where "file_insert_record begin_page data n f = Some (Inl BUFFERPOOL_NOBUF, f\<lparr>free_pages := S\<rparr>)" "rf_ok n (f\<lparr>free_pages := S\<rparr>)"
      "rf_count f = rf_max_pages" "\<forall>p. 0 < p \<longrightarrow> p < int (rf_count f) \<longrightarrow> is_full (rf_pages f p)"
    | (room) S p where "file_insert_record begin_page data n f = Some (handler_insert_record p data (f\<lparr>free_pages := S\<rparr>))" "rf_ok n (f\<lparr>free_pages := S\<rparr>)"
      "p \<in> S" "\<not> is_full (rf_pages f p)"
    | (fresh) p f2 f3 where "file_insert_record begin_page data n f = Some (handler_insert_record p data (f3\<lparr>free_pages := {p}\<rparr>))"
      "rf_allocate (f\<lparr>free_pages := {}\<rparr>) = (Inr p, f2)" "handler_init_empty_page p n f2 = Some (SUCCESS, f3)"
      "rf_ok n (f3\<lparr>free_pages := {p}\<rparr>)" "file_records (f3\<lparr>free_pages := {p}\<rparr>) = file_records f" "\<not> is_full (rf_pages f3 p)"
      "\<not> data_page f p" "0 < p" "p < int (rf_count f2)" "\<forall>q. data_page f2 q \<longleftrightarrow> q = p \<or> data_page f q" "\<forall>q. q \<noteq> p \<longrightarrow> rf_pages f2 q = rf_pages f q"
      "length (page_data (rf_pages f2 p)) = BP_PAGE_DATA_SIZE" "rf_log_io f2 = SUCCESS"
proof -
  obtain r S where fr: "find_room begin_page f = Some (Inr r, f\<lparr>free_pages := S\<rparr>)" "rf_ok n (f\<lparr>free_pages := S\<rparr>)"
    "case r of Some p \<Rightarrow> p \<in> S \<and> \<not> is_full (rf_pages f p) | None \<Rightarrow> S = {}"
    using find_room_ok [OF ok beg] by blast
  let ?f = "f\<lparr>free_pages := S\<rparr>"
  have dpf: "data_page ?f q = data_page f q" for q by (simp add: data_page_def)
  show thesis
  proof (cases r)
    case (Some p)
    then show thesis using room [OF _ fr(2), of p] fr(1,3) by (simp add: file_insert_record_def)
  next
    case None
    then have S: "S = {}" using fr(3) by simp
    then have S': "free_pages ?f = {}" by simp
    from rf_allocate_ok [OF fr(2) S'] show thesis
    proof (elim disjE exE conjE)
      assume a: "rf_count ?f = rf_max_pages" "\<forall>p. 0 < p \<longrightarrow> p < int (rf_count ?f) \<longrightarrow> rf_alloc ?f p" "rf_allocate ?f = (Inl BUFFERPOOL_NOBUF, ?f)"
      have "is_full (rf_pages f p)" if "0 < p" "p < int (rf_count f)" for p
        using rf_okD(9) [OF fr(2), of p] S' a(2) that by (auto simp: data_page_def)
      then show thesis using full [OF _ fr(2)] a fr(1) None by (simp add: file_insert_record_def)
    next
      fix p f2 assume a: "rf_allocate ?f = (Inr p, f2)" "\<not> data_page ?f p" "0 < p" "p < int (rf_count f2)" "rf_alloc f2 = (rf_alloc ?f)(p := True)"
        "\<forall>q. data_page f2 q \<longleftrightarrow> q = p \<or> data_page ?f q" "\<forall>q. q \<noteq> p \<longrightarrow> rf_pages f2 q = rf_pages ?f q"
        "\<forall>q. length (page_data (rf_pages f2 q)) = BP_PAGE_DATA_SIZE" "rf_count f2 \<le> rf_max_pages" "free_pages f2 = {}" "rf_log_io f2 = rf_log_io ?f"
      have io2: "rf_log_io f2 = SUCCESS" using a(11) io by simp
      have len2: "length (page_data (rf_pages f2 p)) = BP_PAGE_DATA_SIZE" using a(8) by simp
      obtain f3 pg where f3: "handler_init_empty_page p n f2 = Some (SUCCESS, f3)" "page_ok pg" "page_records pg = Map.empty"
        "record_real_size (page_header pg) = n" "n \<le> 8152 \<longrightarrow> 0 < cap pg" "rf_pages f3 = (rf_pages f2)(p := pg)"
        "rf_count f3 = rf_count f2" "rf_alloc f3 = rf_alloc f2" "free_pages f3 = free_pages f2"
        by (rule init_page_ok [OF io2 a(3,4) len2]) blast
      let ?f4 = "f3\<lparr>free_pages := {p}\<rparr>"
      have dp: "data_page ?f4 q \<longleftrightarrow> q = p \<or> data_page ?f q" for q using a(6) f3(7,8) by (simp add: data_page_def)
      have pages: "rf_pages ?f4 q = (if q = p then pg else rf_pages f q)" for q using f3(6) a(7) by simp
      have occ: "occupied pg = {}" using f3(3) by (auto simp: occupied_records)
      have nf: "\<not> is_full pg" using is_full_occupied [OF f3(2)] occ f3(5) n by auto
      have ok4: "rf_ok n ?f4"
        unfolding rf_ok_def dp pages
        using rf_okD [OF fr(2)] f3(2,4,7,8,9) a(3,4,5,9,10) S' page_okD(1) [OF f3(2)] by auto
      have "file_records ?f4 rid = file_records f rid" for rid
        using a(2) f3(3) unfolding file_records_def dp pages dpf by (cases "page_num rid = p") simp_all
      then have recs: "file_records ?f4 = file_records f" by blast
      have nf3: "\<not> is_full (rf_pages f3 p)" using f3(6) nf by simp
      have dp2: "\<forall>q. data_page f2 q \<longleftrightarrow> q = p \<or> data_page f q" "\<not> data_page f p" "\<forall>q. q \<noteq> p \<longrightarrow> rf_pages f2 q = rf_pages f q"
        using a(2,6,7) dpf by simp_all
      have "file_insert_record begin_page data n f = Some (handler_insert_record p data ?f4)"
        using fr(1) None a(1,10) f3(1,9) by (simp add: file_insert_record_def)
      then show thesis by (rule fresh [OF _ a(1) [unfolded S] f3(1) ok4 recs nf3 dp2(2) a(3,4) dp2(1,3) len2 io2])
    qed
  qed
qed

lemma file_records_free [simp]: "file_records (f\<lparr>free_pages := S\<rparr>) = file_records f"
  by (simp add: file_records_def data_page_def fun_eq_iff)

lemma handler_insert_io: "handler_insert_record p data f = (r, f') \<Longrightarrow> rf_log_io f' = rf_log_io f"
  by (auto simp: handler_insert_record_def log_defs Let_def split: prod.splits sum.splits)

lemma handler_init_io: "handler_init_empty_page p n f = Some (rc, f') \<Longrightarrow> rf_log_io f' = rf_log_io f"
  by (auto simp: handler_init_empty_page_def log_defs append_record_log_def Let_def split: prod.splits if_splits)

lemma file_insert_ok:
  assumes "rf_ok n f" "\<forall>S. finite S \<longrightarrow> S \<noteq> {} \<longrightarrow> begin_page S \<in> S" "length data = n" "n \<le> 8152" "rf_log_io f = SUCCESS"
  shows "\<exists>r f'. file_insert_record begin_page data n f = Some (r, f') \<and> rf_ok n f' \<and> rf_log_io f' = SUCCESS \<and>
    (case r of
       Inr rid \<Rightarrow> file_records f rid = None \<and> file_records f' = (file_records f)(rid \<mapsto> data)
     | Inl rc \<Rightarrow> rc = BUFFERPOOL_NOBUF \<and> file_records f' = file_records f \<and> rf_count f = rf_max_pages
         \<and> (\<forall>p. 0 < p \<longrightarrow> p < int (rf_count f) \<longrightarrow> is_full (rf_pages f p)))"
proof (cases rule: file_insert_cases [OF assms])
  case (1 S)
  then show ?thesis using assms(5) by simp
next
  case (2 S p)
  obtain rid f' where "handler_insert_record p data (f\<lparr>free_pages := S\<rparr>) = (Inr rid, f')" "rf_ok n f'" "file_records (f\<lparr>free_pages := S\<rparr>) rid = None"
    "file_records f' = (file_records (f\<lparr>free_pages := S\<rparr>))(rid \<mapsto> data)"
    by (rule handler_insert_ok [OF 2(2) _ _ assms(3), of p]) (use 2 in auto)
  then show ?thesis using 2(1) handler_insert_io assms(5) by fastforce
next
  case (3 p f2 f3)
  obtain rid f' where "handler_insert_record p data (f3\<lparr>free_pages := {p}\<rparr>) = (Inr rid, f')" "rf_ok n f'" "file_records (f3\<lparr>free_pages := {p}\<rparr>) rid = None"
    "file_records f' = (file_records (f3\<lparr>free_pages := {p}\<rparr>))(rid \<mapsto> data)"
    by (rule handler_insert_ok [OF 3(4) _ _ assms(3), of p]) (use 3 in auto)
  then show ?thesis using 3(1,5) handler_insert_io [of p data "f3\<lparr>free_pages := {p}\<rparr>"] handler_init_io [OF 3(3)] 3(13) by simp
qed

text \<open>
  C6: Inserting a record into a record file ends, whatever order the set of pages with room is walked in. It puts
  the record at an identifier that was free, every other record keeps its identifier and content, and the file stays
  well-formed; or the file has its largest number of pages and all of them are full, and no record changes.
\<close>

theorem file_insert_record_map:
  assumes "rf_ok n f" "\<forall>S. finite S \<longrightarrow> S \<noteq> {} \<longrightarrow> begin_page S \<in> S" "length data = n" "n \<le> 8152" "rf_log_io f = SUCCESS"
  shows "\<exists>r f'. file_insert_record begin_page data n f = Some (r, f') \<and> rf_ok n f' \<and>
    (case r of
       Inr rid \<Rightarrow> file_records f rid = None \<and> file_records f' = (file_records f)(rid \<mapsto> data)
     | Inl rc \<Rightarrow> rc = BUFFERPOOL_NOBUF \<and> file_records f' = file_records f \<and> rf_count f = rf_max_pages
         \<and> (\<forall>p. 0 < p \<longrightarrow> p < int (rf_count f) \<longrightarrow> is_full (rf_pages f p)))"
  using file_insert_ok [OF assms] by blast

section \<open>Lookup, deletion and update\<close>

lemma absent_record:
  assumes "data_page f (page_num rid)" "0 \<le> slot_num rid" "file_records f rid = None"
  obtains rc1 rc2 where "file_get_record rid f = Inl rc1" "rc1 \<noteq> SUCCESS" "file_delete_record rid f = (rc2, f)" "rc2 \<noteq> SUCCESS"
    "file_visit_record rid updater f = (rc1, f)"
proof -
  let ?p = "page_num rid" and ?i = "nat (slot_num rid)"
  let ?pg = "rf_pages f ?p"
  have get: "rf_get_page ?p f = SUCCESS" by (rule data_page_get [OF assms(1)])
  have no: "page_records ?pg ?i = None" using assms by (simp add: file_records_def)
  obtain rc1 rc2 where g: "get_record (slot_num rid) ?pg = Inl rc1" "rc1 \<noteq> SUCCESS" "delete_record (slot_num rid) ?pg = (rc2, ?pg)" "rc2 \<noteq> SUCCESS"
  proof (cases "slot_num rid \<ge> int (cap ?pg)")
    case True
    then show thesis using that [of RECORD_INVALID_RID INVALID_ARGUMENT] by (simp add: get_record_def delete_record_def)
  next
    case False
    then have "\<not> bitmap_get_bit (page_bitmap ?pg) ?i" using no assms(2) by (simp add: page_records_def occupied_def nat_less_iff split: if_splits)
    with False show thesis using that [of RECORD_NOT_EXIST RECORD_NOT_EXIST] by (simp add: get_record_def delete_record_def)
  qed
  then show thesis
    using that get by (simp add: file_get_record_def file_delete_record_def handler_delete_record_def file_visit_record_def)
qed

lemma present_record:
  assumes "rf_ok n f" "file_records f rid = Some d"
  shows "data_page f (page_num rid)" "slot_num rid = int (nat (slot_num rid))" "page_records (rf_pages f (page_num rid)) (nat (slot_num rid)) = Some d"
    "rf_get_page (page_num rid) f = SUCCESS" "file_get_record rid f = Inr d" "page_ok (rf_pages f (page_num rid))"
    "record_real_size (page_header (rf_pages f (page_num rid))) = n"
proof -
  show dp: "data_page f (page_num rid)" and i: "slot_num rid = int (nat (slot_num rid))"
    and rec: "page_records (rf_pages f (page_num rid)) (nat (slot_num rid)) = Some d"
    using assms(2) by (auto simp: file_records_def split: if_splits)
  show g: "rf_get_page (page_num rid) f = SUCCESS" by (rule data_page_get [OF dp])
  show "file_get_record rid f = Inr d" using get_record_map [OF rec] g i by (simp add: file_get_record_def)
  show "page_ok (rf_pages f (page_num rid))" "record_real_size (page_header (rf_pages f (page_num rid))) = n" using rf_okD(5,6) [OF assms(1) dp] .
qed

lemma file_delete_ok:
  assumes ok: "rf_ok n f" and rec: "file_records f rid = Some d"
  obtains pg where "delete_record (slot_num rid) (rf_pages f (page_num rid)) = (SUCCESS, pg)"
    "file_delete_record rid f = (SUCCESS, (put_page (page_num rid) pg (snd (log_delete_record rid f)))\<lparr>free_pages := insert (page_num rid) (free_pages f)\<rparr>)"
    "rf_ok n ((put_page (page_num rid) pg (snd (log_delete_record rid f)))\<lparr>free_pages := insert (page_num rid) (free_pages f)\<rparr>)"
    "file_records (put_page (page_num rid) pg (snd (log_delete_record rid f))) = (file_records f)(rid := None)"
proof -
  let ?p = "page_num rid" and ?i = "nat (slot_num rid)"
  note pr = present_record [OF ok rec]
  obtain pg where pg: "delete_record (slot_num rid) (rf_pages f ?p) = (SUCCESS, pg)" "page_ok pg" "page_records pg = (page_records (rf_pages f ?p))(?i := None)"
    "record_real_size (page_header pg) = n"
    using delete_record_map [OF pr(6,3)] pr(2,7) by auto
  let ?f = "(put_page ?p pg (snd (log_delete_record rid f)))\<lparr>free_pages := insert ?p (free_pages f)\<rparr>"
  have run: "file_delete_record rid f = (SUCCESS, ?f)"
    using pr(4) pg(1) by (simp add: file_delete_record_def handler_delete_record_def log_defs)
  have sel: "rf_count ?f = rf_count f" "rf_alloc ?f = rf_alloc f" "rf_pages ?f = (rf_pages f)(?p := pg)" "free_pages ?f = insert ?p (free_pages f)"
    by (simp_all add: log_defs)
  have rid: "0 \<le> slot_num rid" "\<lparr>page_num = page_num rid, slot_num = slot_num rid\<rparr> = rid" using pr(2) by (metis of_nat_0_le_iff) simp
  then have "rf_ok n ?f" "file_records ?f = (file_records f)(rid := None)"
    using replace_page [OF ok pr(1) sel _ _ _ pg(2,4) _ pg(3)] rid by auto
  then show thesis using that [OF pg(1) run] by simp
qed

lemma file_update_ok:
  assumes ok: "rf_ok n f" and rec: "file_records f rid = Some d" and len: "length d' = n"
  obtains pg where "update_record (slot_num rid) d' (rf_pages f (page_num rid)) = (SUCCESS, pg)"
    "handler_update_record rid d' f = (SUCCESS, put_page (page_num rid) pg (snd (log_update_record (page_rec_size (page_num rid) f) rid d' f)))"
    "rf_ok n (put_page (page_num rid) pg (snd (log_update_record (page_rec_size (page_num rid) f) rid d' f)))"
    "file_records (put_page (page_num rid) pg (snd (log_update_record (page_rec_size (page_num rid) f) rid d' f))) = (file_records f)(rid \<mapsto> d')"
proof -
  let ?p = "page_num rid" and ?i = "nat (slot_num rid)"
  note pr = present_record [OF ok rec]
  obtain pg where pg: "update_record (slot_num rid) d' (rf_pages f ?p) = (SUCCESS, pg)" "page_ok pg" "page_records pg = (page_records (rf_pages f ?p))(?i \<mapsto> d')"
    "record_real_size (page_header pg) = n" "page_header pg = page_header (rf_pages f ?p)"
    using update_record_map [OF pr(6,3), of d'] pr(2,7) len by auto
  have full: "is_full pg = is_full (rf_pages f ?p)" by (simp add: is_full_def pg(5))
  let ?f = "put_page ?p pg (snd (log_update_record (page_rec_size ?p f) rid d' f))"
  have run: "handler_update_record rid d' f = (SUCCESS, ?f)" using pg(1) by (simp add: handler_update_record_def)
  have sel: "rf_count ?f = rf_count f" "rf_alloc ?f = rf_alloc f" "rf_pages ?f = (rf_pages f)(?p := pg)" "free_pages ?f = free_pages f"
    by (simp_all add: log_defs)
  have rid: "0 \<le> slot_num rid" "\<lparr>page_num = page_num rid, slot_num = slot_num rid\<rparr> = rid" using pr(2) by (metis of_nat_0_le_iff) simp
  then have "rf_ok n ?f" "file_records ?f = (file_records f)(rid \<mapsto> d')"
    using replace_page [OF ok pr(1) sel _ _ _ pg(2,4) _ pg(3)] rid full rf_okD(9) [OF ok pr(1)] by auto
  then show thesis using that [OF pg(1) run] by simp
qed

text \<open>
  C7: Looking up, deleting and visiting a record act on the map of the file's records: an identifier without a record
  is an error that changes nothing; a deleted record is gone and an updated one has its new content, and no other
  record changes; the file stays well-formed, so that a page with a deleted record is found again by insertions.
\<close>

theorem file_record_map:
  assumes "rf_ok n f" "0 \<le> slot_num rid"
    and "\<forall>d b d'. file_records f rid = Some d \<longrightarrow> updater d = (b, d') \<longrightarrow> length d' = n" "data_page f (page_num rid)"
  shows "case file_records f rid of
      None \<Rightarrow> (\<exists>rc. file_get_record rid f = Inl rc) \<and> (\<exists>rc. rc \<noteq> SUCCESS \<and> file_delete_record rid f = (rc, f))
        \<and> (\<exists>rc. rc \<noteq> SUCCESS \<and> file_visit_record rid updater f = (rc, f))
    | Some d \<Rightarrow> file_get_record rid f = Inr d
        \<and> (\<exists>f'. file_delete_record rid f = (SUCCESS, f') \<and> rf_ok n f' \<and> file_records f' = (file_records f)(rid := None) \<and> page_num rid \<in> free_pages f')
        \<and> (\<exists>f'. file_visit_record rid updater f = (SUCCESS, f') \<and> rf_ok n f'
             \<and> file_records f' = (case updater d of (b, d') \<Rightarrow> if b then (file_records f)(rid \<mapsto> d') else file_records f))"
proof (cases "file_records f rid")
  case None
  then show ?thesis by - (rule absent_record [OF assms(4,2), of updater], simp_all)
next
  case (Some d)
  have gr: "file_get_record rid f = Inr d" by (rule present_record(5) [OF assms(1) Some])
  have del: "\<exists>f'. file_delete_record rid f = (SUCCESS, f') \<and> rf_ok n f' \<and> file_records f' = (file_records f)(rid := None) \<and> page_num rid \<in> free_pages f'"
    by (rule file_delete_ok [OF assms(1) Some]) auto
  obtain b d' where u: "updater d = (b, d')" by force
  have len: "length d' = n" using assms(3) Some u by simp
  have vis: "\<exists>f'. file_visit_record rid updater f = (SUCCESS, f') \<and> rf_ok n f'
      \<and> file_records f' = (case updater d of (b, d') \<Rightarrow> if b then (file_records f)(rid \<mapsto> d') else file_records f)"
    by (rule file_update_ok [OF assms(1) Some len]) (use gr u assms(1) in \<open>cases b; simp add: file_visit_record_def\<close>)
  show ?thesis using Some gr del vis by simp
qed

section \<open>Scanning\<close>

text \<open>The records of a page from a slot on, and of the pages from a page on.\<close>

definition page_recs :: "RecFile \<Rightarrow> PageNum \<Rightarrow> nat \<Rightarrow> (RID \<times> byte list) list" where
  "page_recs f p s = map (\<lambda>(i, d). (\<lparr>page_num = p, slot_num = i\<rparr>, d)) (page_listing (rf_pages f p) s)"

definition recs_from :: "RecFile \<Rightarrow> nat \<Rightarrow> (RID \<times> byte list) list" where
  "recs_from f k = concat (map (\<lambda>i. page_recs f (int i) 0) (filter (\<lambda>i. rf_alloc f (int i)) [k..<rf_count f]))"

definition passing :: "(RID \<Rightarrow> byte list \<Rightarrow> bool) option \<Rightarrow> RID \<times> byte list \<Rightarrow> bool" where
  "passing flt r = (case flt of None \<Rightarrow> True | Some g \<Rightarrow> g (fst r) (snd r))"

lemma passes_passing: "passes sc rid data = passing (sc_filter sc) (rid, data)"
  by (cases "sc_filter sc") (simp_all add: passes_def passing_def)

abbreviation first_slot :: "RecPage \<Rightarrow> nat \<Rightarrow> SlotNum" where
  "first_slot pg s \<equiv> next_setted_bit (page_bitmap pg) (cap pg) s"

lemma page_listing_cases:
  obtains "first_slot pg s = -1" "page_listing pg s = []"
    | j where "first_slot pg s = int j" "s \<le> j" "j < cap pg" "page_listing pg s = (int j, get_record_data pg j) # page_listing pg (Suc j)"
proof -
  consider "first_slot pg s = -1" "\<forall>j. s \<le> j \<and> j < cap pg \<longrightarrow> \<not> bitmap_get_bit (page_bitmap pg) j"
    | j where "first_slot pg s = int j" "s \<le> j" "j < cap pg" "bitmap_get_bit (page_bitmap pg) j"
      "\<forall>k. s \<le> k \<and> k < j \<longrightarrow> \<not> bitmap_get_bit (page_bitmap pg) k"
    using next_setted_cases [of "page_bitmap pg" "cap pg" s] by blast
  then show thesis
  proof cases
    case 1
    then have "page_listing pg s = []" by (auto simp: page_listing_def occupied_def filter_empty_conv)
    with 1 that(1) show thesis by blast
  next
    case (2 j)
    then have "page_listing pg s = (int j, get_record_data pg j) # page_listing pg (Suc j)"
      using filter_upt_skip [of s j "cap pg" "\<lambda>i. i \<in> occupied pg"] by (simp add: page_listing_def occupied_def)
    with 2 that(2) show thesis by blast
  qed
qed

lemma fetch_in_page:
  assumes "sc_page sc = p"
  shows "(filter (passing (sc_filter sc)) (page_recs f p s) = [] \<longrightarrow> (\<exists>r. fetch_next_record_in_page f (first_slot (rf_pages f p) s) sc = Some (Inl RECORD_EOF, sc\<lparr>sc_slot := Some (-1), sc_next := r\<rparr>)))
    \<and> (\<forall>rec recs. filter (passing (sc_filter sc)) (page_recs f p s) = rec # recs \<longrightarrow> (\<exists>s'. fetch_next_record_in_page f (first_slot (rf_pages f p) s) sc
          = Some (Inr rec, sc\<lparr>sc_slot := Some (first_slot (rf_pages f p) s'), sc_next := fst rec\<rparr>)
        \<and> recs = filter (passing (sc_filter sc)) (page_recs f p s')))"
  using assms
proof (induction "cap (rf_pages f p) - s" arbitrary: s sc rule: less_induct)
  case less
  let ?pg = "rf_pages f p"
  show ?case
  proof (cases rule: page_listing_cases [of ?pg s])
    case 1
    then show ?thesis by (subst fetch_next_record_in_page.simps) (auto simp: page_recs_def)
  next
    case (2 j)
    let ?r = "\<lparr>page_num = p, slot_num = int j\<rparr>" and ?d = "get_record_data ?pg j"
    have pr: "page_recs f p s = (?r, ?d) # page_recs f p (Suc j)" using 2(4) by (simp add: page_recs_def)
    have it: "iter_next ?pg (int j) = ((int j, ?d), first_slot ?pg (Suc j))" by (simp add: iter_next_def)
    show ?thesis
    proof (cases "passing (sc_filter sc) (?r, ?d)")
      case True
      then have "passes sc ?r ?d" by (simp add: passes_passing)
      then have "fetch_next_record_in_page f (first_slot ?pg s) sc = Some (Inr (?r, ?d), sc\<lparr>sc_slot := Some (first_slot ?pg (Suc j)), sc_next := ?r\<rparr>)"
        using 2(1) it less.prems by (subst fetch_next_record_in_page.simps) (simp add: Let_def)
      then show ?thesis using pr True by auto
    next
      case False
      then have "\<not> passes sc ?r ?d" by (simp add: passes_passing)
      then have step: "fetch_next_record_in_page f (first_slot ?pg s) sc = fetch_next_record_in_page f (first_slot ?pg (Suc j)) (sc\<lparr>sc_next := ?r\<rparr>)"
        using 2(1) it less.prems by (subst fetch_next_record_in_page.simps) (simp add: Let_def)
      have "cap ?pg - Suc j < cap ?pg - s" using 2(2,3) by simp
      from less.hyps [OF this, of "sc\<lparr>sc_next := ?r\<rparr>"] less.prems show ?thesis
        unfolding step pr using False by simp
    qed
  qed
qed

text \<open>A scanner that still has the records \<open>xs\<close> to return.\<close>

definition scanner_at :: "RecFile \<Rightarrow> RecordFileScanner \<Rightarrow> (RID \<times> byte list) list \<Rightarrow> bool" where
  "scanner_at f sc xs \<longleftrightarrow> sc_size sc = rf_count f \<and> 0 \<le> sc_current sc \<and>
     (\<exists>ys. xs = filter (passing (sc_filter sc)) (ys @ recs_from f (nat (sc_current sc) + 1)) \<and>
        (case sc_slot sc of
           None \<Rightarrow> ys = []
         | Some slot \<Rightarrow> \<exists>s. slot = first_slot (rf_pages f (sc_page sc)) s \<and> ys = page_recs f (sc_page sc) s))"

lemma rf_next_page_cases:
  assumes "0 \<le> cur" "n = rf_count f"
  obtains "rf_next_page n cur f = None" "recs_from f (nat cur + 1) = []"
    | j where "rf_next_page n cur f = Some (int j)" "nat cur < j" "j < rf_count f" "recs_from f (nat cur + 1) = page_recs f (int j) 0 @ recs_from f (Suc j)"
proof (cases rule: rf_next_page_find [OF assms(1), of n f])
  case 1
  then have "recs_from f (nat cur + 1) = []" using assms(2) by (auto simp: recs_from_def filter_empty_conv)
  with 1(1) show thesis by (rule that(1))
next
  case (2 j)
  then have "recs_from f (nat cur + 1) = page_recs f (int j) 0 @ recs_from f (Suc j)"
    using filter_upt_skip [of "nat cur + 1" j "rf_count f" "\<lambda>i. rf_alloc f (int i)"] assms(2) by (simp add: recs_from_def)
  with 2 assms(2) that(2) show thesis by blast
qed

lemma fetch_next_page_ok:
  assumes "sc_size sc = rf_count f" "0 \<le> sc_current sc"
  shows "(filter (passing (sc_filter sc)) (recs_from f (nat (sc_current sc) + 1)) = [] \<longrightarrow> (\<exists>sc'. fetch_next_page f sc = Some (Inl RECORD_EOF, sc')))
    \<and> (\<forall>rec recs. filter (passing (sc_filter sc)) (recs_from f (nat (sc_current sc) + 1)) = rec # recs \<longrightarrow> (\<exists>sc'. fetch_next_page f sc = Some (Inr rec, sc') \<and> scanner_at f sc' recs \<and> sc_filter sc' = sc_filter sc))"
  using assms
proof (induction "rf_count f - nat (sc_current sc)" arbitrary: sc rule: less_induct)
  case less
  show ?case
  proof (cases rule: rf_next_page_cases [OF less.prems(2,1)])
    case 1
    then show ?thesis by (subst fetch_next_page.simps) simp
  next
    case (2 j)
    let ?sc = "sc\<lparr>sc_current := int j, sc_page := int j\<rparr>" and ?P = "passing (sc_filter sc)"
    have get: "rf_get_page (int j) f = SUCCESS" using 2(3) by (simp add: rf_get_page_def)
    have ini: "iter_init (rf_pages f (int j)) 0 = first_slot (rf_pages f (int j)) 0" by (simp add: iter_init_def)
    have sc: "sc_page ?sc = int j" "sc_filter ?sc = sc_filter sc" by simp_all
    note ip = fetch_in_page [OF sc(1), of f 0, unfolded sc(2)]
    show ?thesis
    proof (cases "filter ?P (page_recs f (int j) 0)")
      case Nil
      then obtain r where r: "fetch_next_record_in_page f (first_slot (rf_pages f (int j)) 0) ?sc = Some (Inl RECORD_EOF, ?sc\<lparr>sc_slot := Some (-1), sc_next := r\<rparr>)"
        using ip by auto
      let ?sc2 = "?sc\<lparr>sc_slot := Some (-1), sc_next := r\<rparr>"
      have step: "fetch_next_page f sc = fetch_next_page f ?sc2"
        using 2(1) get ini r by (subst fetch_next_page.simps) (simp add: Let_def)
      have "rf_count f - nat (sc_current ?sc2) < rf_count f - nat (sc_current sc)" using 2(2,3) by simp
      from less.hyps [OF this] less.prems show ?thesis unfolding step 2(4) using Nil by simp
    next
      case (Cons rec recs)
      then obtain s' where s': "fetch_next_record_in_page f (first_slot (rf_pages f (int j)) 0) ?sc
          = Some (Inr rec, ?sc\<lparr>sc_slot := Some (first_slot (rf_pages f (int j)) s'), sc_next := fst rec\<rparr>)" "recs = filter ?P (page_recs f (int j) s')"
        using ip by auto
      let ?sc2 = "?sc\<lparr>sc_slot := Some (first_slot (rf_pages f (int j)) s'), sc_next := fst rec\<rparr>"
      have "fetch_next_page f sc = Some (Inr rec, ?sc2)"
        using 2(1) get ini s'(1) by (subst fetch_next_page.simps) (simp add: Let_def)
      moreover have "scanner_at f ?sc2 (recs @ filter ?P (recs_from f (Suc j)))"
        using less.prems s'(2) by (auto simp: scanner_at_def)
      ultimately show ?thesis unfolding 2(4) using Cons by simp
    qed
  qed
qed

lemma fetch_next_record_ok:
  assumes "scanner_at f sc xs"
  shows "(xs = [] \<longrightarrow> (\<exists>sc'. fetch_next_record f sc = Some (Inl RECORD_EOF, sc')))
    \<and> (\<forall>rec recs. xs = rec # recs \<longrightarrow> (\<exists>sc'. fetch_next_record f sc = Some (Inr rec, sc') \<and> scanner_at f sc' recs))"
proof -
  let ?P = "passing (sc_filter sc)" and ?rest = "recs_from f (nat (sc_current sc) + 1)"
  obtain ys where a: "sc_size sc = rf_count f" "0 \<le> sc_current sc" "xs = filter ?P (ys @ ?rest)"
    "case sc_slot sc of None \<Rightarrow> ys = [] | Some slot \<Rightarrow> \<exists>s. slot = first_slot (rf_pages f (sc_page sc)) s \<and> ys = page_recs f (sc_page sc) s"
    using assms by (auto simp: scanner_at_def)
  show ?thesis
  proof (cases "sc_slot sc")
    case None
    then show ?thesis using a fetch_next_page_ok [OF a(1,2)] by (auto simp: fetch_next_record_def)
  next
    case (Some slot)
    then obtain s where s: "slot = first_slot (rf_pages f (sc_page sc)) s" "ys = page_recs f (sc_page sc) s" using a(4) by auto
    note ip = fetch_in_page [OF refl, of sc f s]
    show ?thesis
    proof (cases "filter ?P ys")
      case Nil
      then obtain r where r: "fetch_next_record_in_page f slot sc = Some (Inl RECORD_EOF, sc\<lparr>sc_slot := Some (-1), sc_next := r\<rparr>)"
        using ip s by auto
      let ?sc = "sc\<lparr>sc_slot := Some (-1), sc_next := r\<rparr>"
      have "fetch_next_record f sc = fetch_next_page f ?sc" using Some r by (simp add: fetch_next_record_def)
      moreover have "xs = filter ?P ?rest" using Nil a(3) by simp
      ultimately show ?thesis using fetch_next_page_ok [of ?sc f] a(1,2) by auto
    next
      case (Cons rec recs)
      then obtain s' where s': "fetch_next_record_in_page f slot sc = Some (Inr rec, sc\<lparr>sc_slot := Some (first_slot (rf_pages f (sc_page sc)) s'), sc_next := fst rec\<rparr>)"
        "recs = filter ?P (page_recs f (sc_page sc) s')"
        using ip s by auto
      let ?sc = "sc\<lparr>sc_slot := Some (first_slot (rf_pages f (sc_page sc)) s'), sc_next := fst rec\<rparr>"
      have "fetch_next_record f sc = Some (Inr rec, ?sc)" using Some s'(1) by (simp add: fetch_next_record_def)
      moreover have "scanner_at f ?sc (recs @ filter ?P ?rest)" using a(1,2) s'(2) by (auto simp: scanner_at_def)
      ultimately show ?thesis using Cons a(3) by simp
    qed
  qed
qed

lemma scan_file_ok: "scanner_at f sc xs \<Longrightarrow> scan_file f sc acc = Some (RECORD_EOF, acc @ xs)"
proof (induction xs arbitrary: sc acc)
  case Nil
  then show ?case using fetch_next_record_ok [OF Nil] by (subst scan_file.simps) auto
next
  case (Cons r xs)
  obtain sc' where "fetch_next_record f sc = Some (Inr r, sc')" "scanner_at f sc' xs" using fetch_next_record_ok [OF Cons.prems] by auto
  then show ?case using Cons.IH [of sc' "acc @ [r]"] by (subst scan_file.simps) auto
qed

section \<open>The records in order\<close>

definition rid_less :: "RID \<Rightarrow> RID \<Rightarrow> bool" where
  "rid_less r s \<longleftrightarrow> page_num r < page_num s \<or> page_num r = page_num s \<and> slot_num r < slot_num s"

lemma page_recs_set: "(rid, d) \<in> set (page_recs f p s) \<longleftrightarrow>
    page_num rid = p \<and> int s \<le> slot_num rid \<and> page_records (rf_pages f p) (nat (slot_num rid)) = Some d"
proof (cases rid)
  case (fields q i)
  have "i \<in> occupied pg \<Longrightarrow> i < cap pg" for i pg by (simp add: occupied_def)
  then show ?thesis using fields
    by (auto simp: page_recs_def page_listing_def page_records_def image_iff split: if_splits intro: exI [of _ "nat i"])
qed

lemma page_recs_sorted: "sorted_wrt rid_less (map fst (page_recs f p s))"
proof -
  have "sorted_wrt rid_less (map (\<lambda>i. \<lparr>page_num = p, slot_num = int i\<rparr>) xs)" if "sorted_wrt (<) xs" for xs :: "nat list"
    using that by (induction xs) (auto simp: rid_less_def)
  moreover have "sorted_wrt (<) (filter (\<lambda>i. i \<in> occupied pg) [s..<n])" for pg n by (intro sorted_wrt_filter) simp
  ultimately show ?thesis by (simp add: page_recs_def page_listing_def comp_def)
qed

lemma recs_from_set:
  "(rid, d) \<in> set (recs_from f k) \<longleftrightarrow> int k \<le> page_num rid \<and> page_num rid < int (rf_count f) \<and> rf_alloc f (page_num rid)
     \<and> 0 \<le> slot_num rid \<and> page_records (rf_pages f (page_num rid)) (nat (slot_num rid)) = Some d"
proof -
  have "(\<exists>i. k \<le> i \<and> i < rf_count f \<and> rf_alloc f (int i) \<and> page_num rid = int i \<and> Q (int i)) \<longleftrightarrow>
      int k \<le> page_num rid \<and> page_num rid < int (rf_count f) \<and> rf_alloc f (page_num rid) \<and> Q (page_num rid)" for Q
    by (auto intro!: exI [of _ "nat (page_num rid)"])
  from this [of "\<lambda>p. 0 \<le> slot_num rid \<and> page_records (rf_pages f p) (nat (slot_num rid)) = Some d"]
  show ?thesis by (auto simp: recs_from_def page_recs_set)
qed

lemma recs_from_sorted: "sorted_wrt rid_less (map fst (recs_from f k))"
proof -
  have "sorted_wrt rid_less (map fst (concat (map (\<lambda>i. page_recs f (int i) 0) xs)))" if "sorted_wrt (<) xs" for xs
    using that
  proof (induction xs)
    case (Cons i xs)
    have "rid_less r s" if "r \<in> fst ` set (page_recs f (int i) 0)" "s \<in> fst ` set (concat (map (\<lambda>i. page_recs f (int i) 0) xs))" for r s
      using that Cons.prems by (auto simp: page_recs_set rid_less_def)
    then show ?case using Cons page_recs_sorted [of f "int i" 0] by (auto simp: sorted_wrt_append)
  qed simp
  moreover have "sorted_wrt (<) (filter (\<lambda>i. rf_alloc f (int i)) [k..<rf_count f])" by (intro sorted_wrt_filter) simp
  ultimately show ?thesis by (simp add: recs_from_def)
qed

lemma scan_file_all:
  "\<exists>xs. scan_file f (open_scan flt f new_file_scanner) [] = Some (RECORD_EOF, xs) \<and> sorted_wrt rid_less (map fst xs)
    \<and> (\<forall>rid d. (rid, d) \<in> set xs \<longleftrightarrow> file_records f rid = Some d \<and> (case flt of None \<Rightarrow> True | Some g \<Rightarrow> g rid d))"
proof -
  let ?sc = "open_scan flt f new_file_scanner" and ?xs = "filter (passing flt) (recs_from f 1)"
  have "scanner_at f ?sc ?xs" by (simp add: scanner_at_def open_scan_def new_file_scanner_def)
  from scan_file_ok [OF this, of "[]"] have "scan_file f ?sc [] = Some (RECORD_EOF, ?xs)" by simp
  moreover have "sorted_wrt rid_less (map fst ?xs)"
    using recs_from_sorted [of f 1] by (simp add: sorted_wrt_map sorted_wrt_filter)
  moreover have "(rid, d) \<in> set ?xs \<longleftrightarrow> file_records f rid = Some d \<and> (case flt of None \<Rightarrow> True | Some g \<Rightarrow> g rid d)" for rid d
    by (cases flt) (auto simp: recs_from_set file_records_def data_page_def passing_def split: if_splits)
  ultimately show ?thesis by blast
qed

text \<open>
  C8: A scan of a record file with a new scanner ends. It returns exactly the records of the file that pass the filter,
  each with its content, in the order of pages and slots, and then reports the end.
\<close>

theorem file_scan_complete:
  "\<exists>xs. scan_file f (open_scan flt f new_file_scanner) [] = Some (RECORD_EOF, xs) \<and> sorted_wrt rid_less (map fst xs)
    \<and> (\<forall>rid d. (rid, d) \<in> set xs \<longleftrightarrow> file_records f rid = Some d \<and> (case flt of None \<Rightarrow> True | Some g \<Rightarrow> g rid d))"
  by (rule scan_file_all)

section \<open>Examples\<close>

text \<open>A new file, and a file with one page that has no records yet.\<close>

definition ex_rec_file :: RecFile where
  "ex_rec_file = \<lparr>rf_id = 1, rf_count = 1, rf_alloc = (\<lambda>p. p = 0), rf_pages = (\<lambda>p. zero_rec_page), rf_lsn = (\<lambda>p. 0), rf_log = [],
     rf_next = 0, rf_log_io = SUCCESS, free_pages = {}\<rparr>"

definition ex_rec_file1 :: RecFile where
  "ex_rec_file1 = ex_rec_file\<lparr>rf_count := 2, rf_alloc := (\<lambda>p. p \<in> {0, 1}), rf_pages := (rf_pages ex_rec_file)(1 := ex_page), free_pages := {1}\<rparr>"

lemma ex_rec_file_ok: "rf_ok 2 ex_rec_file" "rf_log_io ex_rec_file = SUCCESS"
proof -
  have "\<not> data_page ex_rec_file p" for p by (simp add: data_page_def ex_rec_file_def)
  then show "rf_ok 2 ex_rec_file"
    unfolding rf_ok_def by (simp add: ex_rec_file_def rf_max_pages_def BP_PAGE_DATA_SIZE_eq zero_rec_page_def)
qed (simp add: ex_rec_file_def)

lemma ex_rec_file1_ok: "rf_ok 2 ex_rec_file1" "1 \<in> free_pages ex_rec_file1" "\<not> is_full (rf_pages ex_rec_file1 1)"
proof -
  obtain p where p: "init_empty_page 2 ex_blank = Some p" "page_ok p" "page_records p = Map.empty" "record_real_size (page_header p) = 2" "0 < cap p"
    using init_empty_page_spec [of ex_blank 2] by (auto simp: ex_blank_def)
  have e: "ex_page = p" by (simp add: ex_page_def p(1))
  have "occupied p = {}" using p(3) by (auto simp: occupied_records)
  then have nf: "\<not> is_full ex_page" using is_full_occupied [OF p(2)] p(5) e by auto
  have dp: "data_page ex_rec_file1 q \<longleftrightarrow> q = 1" for q by (auto simp: data_page_def ex_rec_file1_def ex_rec_file_def)
  show "rf_ok 2 ex_rec_file1"
    unfolding rf_ok_def dp
    using p(2,4) e nf page_okD(1) [OF p(2)] by (simp add: ex_rec_file1_def ex_rec_file_def rf_max_pages_def BP_PAGE_DATA_SIZE_eq zero_rec_page_def)
  show "1 \<in> free_pages ex_rec_file1" by (simp add: ex_rec_file1_def)
  show "\<not> is_full (rf_pages ex_rec_file1 1)" using nf by (simp add: ex_rec_file1_def)
qed

theorem file_insert_record_map_witness:
  "\<exists>r f'. file_insert_record Min [7, 9] 2 ex_rec_file = Some (r, f') \<and> rf_ok 2 f'
    \<and> (case r of Inr rid \<Rightarrow> file_records f' rid = Some [7, 9] | Inl rc \<Rightarrow> False)"
proof -
  obtain r f' where *: "file_insert_record Min [7, 9] 2 ex_rec_file = Some (r, f')" "rf_ok 2 f'"
    "case r of Inr rid \<Rightarrow> file_records ex_rec_file rid = None \<and> file_records f' = (file_records ex_rec_file)(rid \<mapsto> [7, 9])
     | Inl rc \<Rightarrow> rc = BUFFERPOOL_NOBUF \<and> file_records f' = file_records ex_rec_file \<and> rf_count ex_rec_file = rf_max_pages
         \<and> (\<forall>p. 0 < p \<longrightarrow> p < int (rf_count ex_rec_file) \<longrightarrow> is_full (rf_pages ex_rec_file p))"
    using file_insert_record_map [OF ex_rec_file_ok(1) _ _ _ ex_rec_file_ok(2), of Min "[7, 9]"] by auto
  have "rf_count ex_rec_file \<noteq> rf_max_pages" by (simp add: ex_rec_file_def rf_max_pages_def BP_PAGE_DATA_SIZE_eq)
  then show ?thesis using * by (cases r) auto
qed

theorem file_record_map_witness:
  "\<exists>f rid f'. file_records f rid = Some [7, 9] \<and> file_get_record rid f = Inr [7, 9] \<and> file_delete_record rid f = (SUCCESS, f') \<and> file_records f' rid = None"
proof -
  obtain rid f where f: "rf_ok 2 f" "file_records f = (file_records ex_rec_file1)(rid \<mapsto> [7, 9])"
    by (rule handler_insert_ok [OF ex_rec_file1_ok, of "[7, 9]"]) auto
  then have rec: "file_records f rid = Some [7, 9]" by simp
  then have "0 \<le> slot_num rid" "data_page f (page_num rid)" by (auto simp: file_records_def split: if_splits)
  then obtain f' where "file_get_record rid f = Inr [7, 9]" "file_delete_record rid f = (SUCCESS, f')" "file_records f' = (file_records f)(rid := None)"
    using file_record_map [OF f(1), of rid "\<lambda>d. (False, [0, 0])"] rec by auto
  then show ?thesis using rec by (intro exI [of _ f] exI [of _ rid] exI [of _ f']) simp
qed

end
