(* ===== verification/RecordRecovery.thy ===== *)
theory RecordRecovery
  imports RecordStore
begin

text \<open>
  Crash recovery of record files. After a crash every page is on disk in one of the versions it went through; the
  replayer skips the entries a page already has and repeats the others, which gives the records of the file at the
  time of the crash. The pages need not come out byte for byte the same, because a new page keeps the bytes it had
  outside its header and its bitmap.
\<close>

section \<open>Pages with the same records\<close>

definition same_page :: "RecPage \<Rightarrow> RecPage \<Rightarrow> bool" where
  "same_page p q \<longleftrightarrow> page_ok p \<and> page_ok q \<and> page_header p = page_header q \<and> page_records p = page_records q"

lemma same_page_refl: "page_ok p \<Longrightarrow> same_page p p"
  by (simp add: same_page_def)

lemma same_page_dirty [simp]: "same_page (p\<lparr>page_dirty := b\<rparr>) q = same_page p q"
  by (simp add: same_page_def)

lemma same_occupied: "same_page p q \<Longrightarrow> occupied p = occupied q"
  by (auto simp: same_page_def occupied_records)

lemma insert_same_page:
  assumes "same_page p q" "insert_record d q = (Inr i, q')" "length d = record_real_size (page_header q)"
  obtains p' where "insert_record d p = (Inr i, p')" "same_page p' q'"
proof -
  have ok: "page_ok p" "page_ok q" "page_header p = page_header q" "page_records p = page_records q" using assms(1) by (simp_all add: same_page_def)
  have room: "occupied q \<noteq> {..<cap q}" using insert_record_full [OF ok(2)] assms(2) by auto
  obtain j q1 where q: "insert_record d q = (Inr (int j), q1)" "page_records q j = None" "\<forall>k<j. page_records q k \<noteq> None" "page_ok q1"
    "page_records q1 = (page_records q)(j \<mapsto> d)" "page_header q1 = (page_header q)\<lparr>record_num := record_num (page_header q) + 1\<rparr>"
    using insert_record_map [OF ok(2) assms(3) room] by blast
  have room': "occupied p \<noteq> {..<cap p}" using room ok(3) same_occupied [OF assms(1)] by simp
  have len: "length d = record_real_size (page_header p)" using assms(3) ok(3) by simp
  obtain k p1 where p: "insert_record d p = (Inr (int k), p1)" "page_records p k = None" "\<forall>j<k. page_records p j \<noteq> None" "page_ok p1"
    "page_records p1 = (page_records p)(k \<mapsto> d)" "page_header p1 = (page_header p)\<lparr>record_num := record_num (page_header p) + 1\<rparr>"
    using insert_record_map [OF ok(1) len room'] by blast
  have "k = j" using p(2,3) q(2,3) ok(4) by (metis linorder_neqE_nat)
  then show thesis using that [of p1] p q assms(2) ok(3,4) by (simp add: same_page_def)
qed

lemma delete_same_page:
  assumes "same_page p q" "page_records q i = Some d" "delete_record (int i) q = (SUCCESS, q')"
  obtains p' where "delete_record (int i) p = (SUCCESS, p')" "same_page p' q'"
proof -
  have ok: "page_ok p" "page_ok q" "page_header p = page_header q" "page_records p = page_records q" using assms(1) by (simp_all add: same_page_def)
  show thesis using delete_record_map [OF ok(1), of i d] delete_record_map [OF ok(2) assms(2)] that ok assms(2,3) by (auto simp: same_page_def)
qed

lemma update_same_page:
  assumes "same_page p q" "page_records q i = Some d" "update_record (int i) d' q = (SUCCESS, q')" "length d' = record_real_size (page_header q)"
  obtains p' where "update_record (int i) d' p = (SUCCESS, p')" "same_page p' q'"
proof -
  have ok: "page_ok p" "page_ok q" "page_header p = page_header q" "page_records p = page_records q" using assms(1) by (simp_all add: same_page_def)
  show thesis
    using update_record_map [OF ok(1), of i d d'] update_record_map [OF ok(2) assms(2,4)] that ok assms(2-4) by (auto simp: same_page_def)
qed

lemma init_same_page:
  assumes "init_empty_page n q = Some q'" "length (page_data p) = BP_PAGE_DATA_SIZE" "length (page_data q) = BP_PAGE_DATA_SIZE"
  obtains p' where "init_empty_page n p = Some p'" "same_page p' q'"
proof -
  obtain p' where p: "init_empty_page n p = Some p'" "page_ok p'" "page_records p' = Map.empty" using init_empty_page_spec [OF assms(2), of n] by blast
  have q: "page_ok q'" "page_records q' = Map.empty" using init_empty_page_spec [OF assms(3), of n] assms(1) by auto
  have "page_header p' = page_header q'"
    using p(1) assms(1) by (auto simp: init_empty_page_def Let_def split: option.splits if_splits)
  then show thesis using that p q by (simp add: same_page_def)
qed

section \<open>Replaying the entries of one page\<close>

fun page_replay :: "(LSN \<times> byte list) list \<Rightarrow> RecPage \<times> LSN \<Rightarrow> (RecPage \<times> LSN) option" where
  "page_replay [] st = Some st"
| "page_replay (e # es) (pg, l) =
     (if fst e \<le> l then page_replay es (pg, l)
      else (case replay_on_page (log_header_of (snd e)) pg of
              Some (rc, pg') \<Rightarrow> if rc = SUCCESS then page_replay es (pg', fst e) else None
            | None \<Rightarrow> None))"

definition entries_of :: "PageNum \<Rightarrow> (LSN \<times> byte list) list \<Rightarrow> (LSN \<times> byte list) list" where
  "entries_of p es = filter (\<lambda>e. lh_page (log_header_of (snd e)) = p) es"

lemma entries_of_simps [simp]:
  "entries_of p [] = []" "entries_of p (es @ es') = entries_of p es @ entries_of p es'"
  by (simp_all add: entries_of_def)

lemma page_replay_append: "page_replay (es @ es') st = Option.bind (page_replay es st) (page_replay es')"
proof (induction es arbitrary: st)
  case (Cons e es)
  then show ?case by (cases st) (auto split: option.splits)
qed simp

lemma page_replay_skip: "\<forall>e\<in>set es. fst e \<le> l \<Longrightarrow> page_replay es (pg, l) = Some (pg, l)"
  by (induction es) auto

text \<open>The replayer works on every page on its own.\<close>

lemma replay_records_pages:
  assumes "\<forall>p. \<exists>st. page_replay (entries_of p es) (rf_pages g p, rf_lsn g p) = Some st"
    and "\<forall>e\<in>set es. RECORD_LOG_HEADER_SIZE \<le> length (snd e) \<and> 0 \<le> lh_page (log_header_of (snd e)) \<and> lh_page (log_header_of (snd e)) < int (rf_count g)"
  shows "\<exists>g'. replay_records es g = Some (SUCCESS, g') \<and> rf_count g' = rf_count g \<and> rf_alloc g' = rf_alloc g
    \<and> (\<forall>p. page_replay (entries_of p es) (rf_pages g p, rf_lsn g p) = Some (rf_pages g' p, rf_lsn g' p))"
  using assms
proof (induction es arbitrary: g)
  case (Cons e es)
  define h where "h = log_header_of (snd e)"
  let ?p = "lh_page h"
  have e: "RECORD_LOG_HEADER_SIZE \<le> length (snd e)" "rf_get_page ?p g = SUCCESS" using Cons.prems(2) by (auto simp: h_def rf_get_page_def)
  have en: "entries_of p (e # es) = (if p = ?p then e # entries_of p es else entries_of p es)" for p by (simp add: entries_of_def h_def)
  show ?case
  proof (cases "fst e \<le> rf_lsn g ?p")
    case True
    have *: "page_replay (entries_of p (e # es)) (rf_pages g p, rf_lsn g p) = page_replay (entries_of p es) (rf_pages g p, rf_lsn g p)" for p
      using True by (simp add: en)
    have "replay_record e g = Some (SUCCESS, g)" using e True by (simp add: replay_record_def h_def [symmetric] Let_def)
    then show ?thesis using Cons.IH [of g] Cons.prems unfolding * by simp
  next
    case False
    obtain st where "page_replay (entries_of ?p (e # es)) (rf_pages g ?p, rf_lsn g ?p) = Some st" using Cons.prems(1) by blast
    then obtain pg where pg: "replay_on_page h (rf_pages g ?p) = Some (SUCCESS, pg)"
      using False by (auto simp: en h_def [symmetric] split: option.splits if_splits)
    let ?g = "(put_page ?p pg g)\<lparr>rf_lsn := (rf_lsn g)(?p := fst e)\<rparr>"
    have *: "page_replay (entries_of p (e # es)) (rf_pages g p, rf_lsn g p) = page_replay (entries_of p es) (rf_pages ?g p, rf_lsn ?g p)" for p
      using False pg by (simp add: en h_def [symmetric])
    have "replay_record e g = Some (SUCCESS, ?g)"
      using e False pg by (simp add: replay_record_def h_def [symmetric] Let_def)
    then show ?thesis using Cons.IH [of ?g] Cons.prems unfolding * by simp
  qed
qed simp

section \<open>Entries\<close>

definition header_fits :: "RecordLogHeader \<Rightarrow> bool" where
  "header_fits h \<longleftrightarrow> int32 (lh_pool h) \<and> int32 (lh_op h) \<and> int32 (lh_page h) \<and> int32 (lh_slot h)"

lemma log_header_of_payload [simp]: "header_fits h \<Longrightarrow> log_header_of (log_payload h) = h"
  using int32_roundtrip
  by (simp add: header_fits_def log_header_of_def log_payload_def RECORD_LOG_HEADER_SIZE_def int32_of_bytes_def)

lemma length_log_payload: "length (log_payload h) = RECORD_LOG_HEADER_SIZE + length (lh_data h)"
  by (simp add: log_payload_def RECORD_LOG_HEADER_SIZE_def)

lemma slot_bound: "page_ok pg \<Longrightarrow> page_records pg i = Some d \<Longrightarrow> int32 (int i)"
  using page_okD(3,4) [of pg]
  by (auto simp: page_records_def occupied_def page_bitmap_size_def BP_PAGE_DATA_SIZE_eq int32_def split: if_splits)

lemma page_records_length: "page_ok pg \<Longrightarrow> page_records pg i = Some d \<Longrightarrow> length d = record_real_size (page_header pg)"
  using slot_bounds(1) [of pg i] page_okD(1,2) [of pg]
  by (auto simp: page_records_def occupied_def get_record_data_def Let_def split: if_splits)

section \<open>Runs with write-backs\<close>

text \<open>
  The state is the file as its clients see it and the pages as they are on disk, with their sequence numbers. Pages
  are written back at any time; bytes behind the end of the file read as zeros once the file is extended.
\<close>

type_synonym page_image = "PageNum \<Rightarrow> RecPage \<times> LSN"

definition disk_image :: "RecFile \<Rightarrow> page_image" where
  "disk_image f p = (if 0 \<le> p \<and> p < int (rf_count f) then (rf_pages f p, rf_lsn f p) else (zero_rec_page, 0))"

inductive file_step :: "(PageNum set \<Rightarrow> PageNum) \<Rightarrow> nat \<Rightarrow> RecFile \<times> page_image \<Rightarrow> RecFile \<times> page_image \<Rightarrow> bool" for begin_page n where
  insert: "file_insert_record begin_page data n f = Some (r, f') \<Longrightarrow> length data = n \<Longrightarrow> file_step begin_page n (f, d) (f', d)"
| delete: "file_delete_record rid f = (rc, f') \<Longrightarrow> data_page f (page_num rid) \<Longrightarrow> 0 \<le> slot_num rid \<Longrightarrow> file_step begin_page n (f, d) (f', d)"
| visit: "file_visit_record rid updater f = (rc, f') \<Longrightarrow> data_page f (page_num rid) \<Longrightarrow> 0 \<le> slot_num rid \<Longrightarrow>
    (\<And>v. length v = n \<Longrightarrow> length (snd (updater v)) = n) \<Longrightarrow> file_step begin_page n (f, d) (f', d)"
| write_back: "0 \<le> p \<Longrightarrow> p < int (rf_count f) \<Longrightarrow> file_step begin_page n (f, d) (f, d(p := (rf_pages f p, rf_lsn f p)))"

text \<open>The file after a crash, before its log is replayed: the pages on disk; the pool has recovered the allocation.\<close>

definition crashed :: "RecFile \<Rightarrow> page_image \<Rightarrow> RecFile" where
  "crashed f d = f\<lparr>rf_pages := \<lambda>p. fst (d p), rf_lsn := \<lambda>p. snd (d p), free_pages := {}\<rparr>"

text \<open>Every page on disk leads to the current page when its entries are replayed.\<close>

definition leads_to :: "RecFile \<Rightarrow> page_image \<Rightarrow> PageNum \<Rightarrow> bool" where
  "leads_to f d p \<longleftrightarrow> (\<exists>pg l. page_replay (entries_of p (rf_log f)) (d p) = Some (pg, l) \<and> l \<le> rf_next f
     \<and> length (page_data pg) = BP_PAGE_DATA_SIZE \<and> (data_page f p \<longrightarrow> same_page pg (rf_pages f p)))"

definition log_in_range :: "RecFile \<Rightarrow> bool" where
  "log_in_range f \<longleftrightarrow> 0 \<le> rf_next f \<and> int32 (rf_id f) \<and> rf_log_io f = SUCCESS \<and> (\<forall>p. rf_lsn f p \<le> rf_next f) \<and>
     (\<forall>e\<in>set (rf_log f). RECORD_LOG_HEADER_SIZE \<le> length (snd e) \<and> 0 \<le> lh_page (log_header_of (snd e))
        \<and> lh_page (log_header_of (snd e)) < int (rf_count f) \<and> fst e \<le> rf_lsn f (lh_page (log_header_of (snd e))))"

definition recoverable :: "nat \<Rightarrow> RecFile \<times> page_image \<Rightarrow> bool" where
  "recoverable n s \<longleftrightarrow> (case s of (f, d) \<Rightarrow> rf_ok n f \<and> log_in_range f \<and> (\<forall>p. leads_to f d p))"

text \<open>One entry: the operation changes a page, and its entry repeats the change on every page with the same records.\<close>

definition appended :: "RecordLogHeader \<Rightarrow> RecPage \<Rightarrow> RecFile \<Rightarrow> RecFile \<Rightarrow> bool" where
  "appended h pg f f' \<longleftrightarrow> rf_log f' = rf_log f @ [(rf_next f + 1, log_payload h)] \<and> rf_next f' = rf_next f + 1 \<and>
     (\<forall>q. rf_lsn f' q = (if q = lh_page h then rf_next f + 1 else rf_lsn f q)) \<and>
     (\<forall>q. rf_pages f' q = (if q = lh_page h then pg else rf_pages f q)) \<and> rf_id f' = rf_id f \<and> rf_log_io f' = rf_log_io f \<and>
     rf_count f \<le> rf_count f' \<and> (\<forall>q. data_page f' q \<longrightarrow> q = lh_page h \<or> data_page f q)"

definition repeats :: "RecordLogHeader \<Rightarrow> RecPage \<Rightarrow> RecFile \<Rightarrow> bool" where
  "repeats h pg f \<longleftrightarrow> (\<forall>q. length (page_data q) = BP_PAGE_DATA_SIZE \<longrightarrow> (data_page f (lh_page h) \<longrightarrow> same_page q (rf_pages f (lh_page h))) \<longrightarrow>
     (\<exists>q'. replay_on_page h q = Some (SUCCESS, q') \<and> same_page q' pg))"

lemma append_recoverable:
  assumes "recoverable n (f, d)" "appended h pg f f'" "repeats h pg f" "rf_ok n f'" "header_fits h" "0 \<le> lh_page h" "lh_page h < int (rf_count f')"
  shows "recoverable n (f', d)"
proof -
  have r: "log_in_range f" "\<And>p. leads_to f d p" using assms(1) by (simp_all add: recoverable_def)
  note a = assms(2) [unfolded appended_def]
  have io: "0 \<le> rf_next f" "rf_log_io f = SUCCESS" "\<And>p. rf_lsn f p \<le> rf_next f" using r(1) by (auto simp: log_in_range_def)
  have "log_in_range f'"
    unfolding log_in_range_def
  proof (intro conjI allI ballI)
    fix e assume "e \<in> set (rf_log f')"
    then consider "e \<in> set (rf_log f)" | "e = (rf_next f + 1, log_payload h)" using a by auto
    then have "RECORD_LOG_HEADER_SIZE \<le> length (snd e) \<and> 0 \<le> lh_page (log_header_of (snd e)) \<and> lh_page (log_header_of (snd e)) < int (rf_count f')
        \<and> fst e \<le> rf_lsn f' (lh_page (log_header_of (snd e)))"
    proof cases
      case 1
      let ?p = "lh_page (log_header_of (snd e))"
      have e: "RECORD_LOG_HEADER_SIZE \<le> length (snd e)" "0 \<le> ?p" "?p < int (rf_count f)" "fst e \<le> rf_lsn f ?p" using 1 r(1) by (auto simp: log_in_range_def)
      moreover have "rf_lsn f ?p \<le> rf_lsn f' ?p" "rf_count f \<le> rf_count f'" using a io(3) [of ?p] by auto
      ultimately show ?thesis by linarith
    next
      case 2
      then show ?thesis using a assms(5-7) by (simp add: length_log_payload)
    qed
    then show "RECORD_LOG_HEADER_SIZE \<le> length (snd e)" "0 \<le> lh_page (log_header_of (snd e))" "lh_page (log_header_of (snd e)) < int (rf_count f')"
      "fst e \<le> rf_lsn f' (lh_page (log_header_of (snd e)))" by simp_all
  next
    fix p
    show "rf_lsn f' p \<le> rf_next f'" using a io(3) [of p] by simp
  qed (use r(1) a io in \<open>simp_all add: log_in_range_def\<close>)
  moreover have "leads_to f' d p" for p
  proof -
    obtain q l where q: "page_replay (entries_of p (rf_log f)) (d p) = Some (q, l)" "l \<le> rf_next f" "length (page_data q) = BP_PAGE_DATA_SIZE"
      "data_page f p \<longrightarrow> same_page q (rf_pages f p)" using r(2) [of p] by (auto simp: leads_to_def)
    show ?thesis
    proof (cases "p = lh_page h")
      case True
      obtain q' where q': "replay_on_page h q = Some (SUCCESS, q')" "same_page q' pg" using assms(3) q(3,4) True by (auto simp: repeats_def)
      have e: "entries_of p (rf_log f') = entries_of p (rf_log f) @ [(rf_next f + 1, log_payload h)]"
        using a True assms(5) by (simp add: entries_of_def)
      have "page_replay (entries_of p (rf_log f')) (d p) = Some (q', rf_next f + 1)"
        unfolding e page_replay_append q(1) using q(2) q'(1) assms(5) by simp
      moreover have "length (page_data q') = BP_PAGE_DATA_SIZE" using q'(2) page_okD(1) by (auto simp: same_page_def)
      ultimately show ?thesis using q'(2) a True by (simp add: leads_to_def)
    next
      case False
      then have "entries_of p (rf_log f') = entries_of p (rf_log f)" using a assms(5) by (simp add: entries_of_def)
      then show ?thesis using q a False by (auto simp: leads_to_def)
    qed
  qed
  ultimately show ?thesis using assms(4) unfolding recoverable_def by blast
qed


section \<open>Every step keeps the file recoverable\<close>

lemma log_appended:
  assumes "log_in_range f" "lh_page h = p"
  shows "appended h pg f (put_page p pg (snd (append_record_log h f)))"
  using assms by (simp add: appended_def append_record_log_def log_in_range_def Let_def data_page_def)

lemma appended_free [simp]: "appended h pg f (f'\<lparr>free_pages := S\<rparr>) = appended h pg f f'" "appended h pg (f\<lparr>free_pages := S\<rparr>) f' = appended h pg f f'"
  by (simp_all add: appended_def data_page_def)

lemma recoverable_free: "recoverable n (f, d) \<Longrightarrow> rf_ok n (f\<lparr>free_pages := S\<rparr>) \<Longrightarrow> recoverable n (f\<lparr>free_pages := S\<rparr>, d)"
  by (simp add: recoverable_def log_in_range_def leads_to_def data_page_def)

lemma page_int32: "rf_ok n f \<Longrightarrow> 0 \<le> p \<Longrightarrow> p < int (rf_count f) \<Longrightarrow> int32 p"
  using rf_okD(2) [of n f] by (simp add: rf_max_pages_def BP_PAGE_DATA_SIZE_eq int32_def)

lemma handler_insert_recoverable:
  assumes r: "recoverable n (f, d)" and p: "p \<in> free_pages f" "\<not> is_full (rf_pages f p)" and len: "length data = n"
    and run: "handler_insert_record p data f = (r', f')"
  shows "recoverable n (f', d)"
proof -
  have ok: "rf_ok n f" "log_in_range f" using r by (simp_all add: recoverable_def)
  obtain rid where i: "r' = Inr rid" "rf_ok n f'" "file_records f' = (file_records f)(rid \<mapsto> data)" "page_num rid = p" "data_page f p"
    using handler_insert_ok [OF ok(1) p len] run by (metis prod.inject)
  obtain pg where pg: "insert_record data (rf_pages f p) = (Inr (slot_num rid), pg)"
    "f' = put_page p pg (snd (log_insert_record (page_rec_size p f) rid data f))"
    using run i(1,4) by (cases rid) (auto simp: handler_insert_record_def Let_def split: prod.splits sum.splits)
  have n: "record_real_size (page_header (rf_pages f p)) = n" using rf_okD(6) [OF ok(1) i(5)] .
  define h where "h = \<lparr>lh_pool = rf_id f, lh_op = type_id INSERT_RECORD, lh_page = p, lh_slot = slot_num rid, lh_data = data\<rparr>"
  have f': "f' = put_page p pg (snd (append_record_log h f))"
    using pg(2) len n i(4) by (simp add: log_insert_record_def h_def page_rec_size_def)
  have slot: "page_records pg (nat (slot_num rid)) = Some data" "0 \<le> slot_num rid" "page_ok pg"
    using fun_cong [OF i(3), of rid] rf_okD(5) [OF i(2), of p] i(4,5) f'
    by (auto simp: file_records_def data_page_def split: if_splits)
  have fits: "header_fits h"
    using ok(2) page_int32 [OF ok(1), of p] i(5) slot_bound [OF slot(3,1)] slot(2)
    by (simp add: header_fits_def h_def log_in_range_def data_page_def int32_def)
  have rep: "repeats h pg f"
    unfolding repeats_def
  proof (intro allI impI)
    fix q assume "data_page f (lh_page h) \<longrightarrow> same_page q (rf_pages f (lh_page h))"
    then have "same_page q (rf_pages f p)" using i(5) by (simp add: h_def)
    then obtain q' where "insert_record data q = (Inr (slot_num rid), q')" "same_page q' pg"
      using insert_same_page [OF _ pg(1)] n len by metis
    then show "\<exists>q'. replay_on_page h q = Some (SUCCESS, q') \<and> same_page q' pg"
      by (simp add: replay_on_page_def h_def operation_of_def)
  qed
  show ?thesis
    by (rule append_recoverable [OF r _ rep i(2) fits])
      (use log_appended [OF ok(2), of h p pg] f' i(5) in \<open>auto simp: h_def data_page_def\<close>)
qed

lemma init_page_recoverable:
  assumes r: "recoverable n (f, d)" and alloc: "rf_allocate (f\<lparr>free_pages := {}\<rparr>) = (Inr p, f2)"
    and init: "handler_init_empty_page p n f2 = Some (SUCCESS, f3)" and ok3: "rf_ok n (f3\<lparr>free_pages := S\<rparr>)"
    and p: "\<not> data_page f p" "0 < p" "p < int (rf_count f2)" "\<forall>q. data_page f2 q \<longleftrightarrow> q = p \<or> data_page f q"
      "\<forall>q. q \<noteq> p \<longrightarrow> rf_pages f2 q = rf_pages f q" "length (page_data (rf_pages f2 p)) = BP_PAGE_DATA_SIZE" and n: "n \<le> 8152"
  shows "recoverable n (f3\<lparr>free_pages := S\<rparr>, d)"
proof -
  have ok: "rf_ok n f" "log_in_range f" using r by (simp_all add: recoverable_def)
  have f2: "rf_log f2 = rf_log f" "rf_next f2 = rf_next f" "rf_id f2 = rf_id f" "rf_log_io f2 = rf_log_io f" "rf_count f \<le> rf_count f2"
    "\<forall>q. q \<noteq> p \<longrightarrow> rf_lsn f2 q = rf_lsn f q"
    using alloc by (auto simp: rf_allocate_def Let_def split: list.splits if_splits)
  define h where "h = \<lparr>lh_pool = rf_id f, lh_op = type_id INIT_PAGE, lh_page = p, lh_slot = int n, lh_data = []\<rparr>"
  obtain pg where pg: "init_empty_page n (rf_pages f2 p) = Some pg" "f3 = put_page p pg (snd (append_record_log h f2))"
    using init p(2,3) f2(3,4) ok(2)
    by (auto simp: handler_init_empty_page_def rf_get_page_def log_init_new_page_def h_def append_record_log_def log_in_range_def Let_def put_page_def)
  have app: "appended h pg f (f3\<lparr>free_pages := S\<rparr>)"
    using ok(2) f2 p(4,5) unfolding pg(2) by (auto simp: appended_def append_record_log_def log_in_range_def Let_def data_page_def h_def)
  have rep: "repeats h pg f"
    unfolding repeats_def
  proof (intro allI impI)
    fix q :: RecPage assume "length (page_data q) = BP_PAGE_DATA_SIZE"
    then obtain q' where "init_empty_page n q = Some q'" "same_page q' pg" using init_same_page [OF pg(1) _ p(6)] by metis
    then show "\<exists>q'. replay_on_page h q = Some (SUCCESS, q') \<and> same_page q' pg"
      by (simp add: replay_on_page_def h_def operation_of_def)
  qed
  have cnt: "rf_count f3 = rf_count f2" unfolding pg(2) by simp
  have "header_fits h"
    using ok(2) page_int32 [OF ok3, of p] p(2,3) n cnt by (simp add: header_fits_def h_def log_in_range_def int32_def)
  then show ?thesis
    by (rule append_recoverable [OF r app rep ok3]) (use p(2,3) cnt in \<open>simp_all add: h_def\<close>)
qed

lemma replaced_recoverable:
  assumes r: "recoverable n (f, d)" and dp: "data_page f (page_num rid)" and rec: "file_records f rid = Some v"
    and h: "h = \<lparr>lh_pool = rf_id f, lh_op = type_id oper, lh_page = page_num rid, lh_slot = slot_num rid, lh_data = w\<rparr>"
    and f': "f' = (put_page (page_num rid) pg (snd (append_record_log h f)))\<lparr>free_pages := S\<rparr>" "rf_ok n f'"
    and rep: "\<And>q. same_page q (rf_pages f (page_num rid)) \<Longrightarrow> \<exists>q'. replay_on_page h q = Some (SUCCESS, q') \<and> same_page q' pg"
  shows "recoverable n (f', d)"
proof -
  have ok: "rf_ok n f" "log_in_range f" using r by (simp_all add: recoverable_def)
  note pr = present_record [OF ok(1) rec]
  have "int32 (slot_num rid)" using slot_bound [OF pr(6,3)] pr(2) by simp
  moreover have "int32 (type_id oper)" by (cases oper) (simp_all add: int32_def)
  ultimately have "header_fits h"
    using ok(2) page_int32 [OF ok(1), of "page_num rid"] dp by (simp add: header_fits_def h log_in_range_def data_page_def)
  moreover have "appended h pg f f'"
    unfolding f'(1) appended_free by (rule log_appended [OF ok(2)]) (simp add: h)
  moreover have "repeats h pg f" using rep dp by (simp add: repeats_def h)
  ultimately show ?thesis
    by - (rule append_recoverable [OF r _ _ f'(2)], use dp f'(1) in \<open>auto simp: h data_page_def\<close>)
qed

lemma delete_recoverable:
  assumes r: "recoverable n (f, d)" and rec: "file_records f rid = Some v"
  shows "recoverable n (snd (file_delete_record rid f), d)"
proof -
  have ok: "rf_ok n f" using r by (simp add: recoverable_def)
  note pr = present_record [OF ok rec]
  obtain pg where pg: "delete_record (slot_num rid) (rf_pages f (page_num rid)) = (SUCCESS, pg)"
    "file_delete_record rid f = (SUCCESS, (put_page (page_num rid) pg (snd (log_delete_record rid f)))\<lparr>free_pages := insert (page_num rid) (free_pages f)\<rparr>)"
    "rf_ok n ((put_page (page_num rid) pg (snd (log_delete_record rid f)))\<lparr>free_pages := insert (page_num rid) (free_pages f)\<rparr>)"
    by (rule file_delete_ok [OF ok rec])
  show ?thesis
  proof (rule replaced_recoverable [OF r pr(1) rec refl, where oper = DELETE_RECORD and w = "[]"])
    fix q assume "same_page q (rf_pages f (page_num rid))"
    then obtain q' where "delete_record (slot_num rid) q = (SUCCESS, q')" "same_page q' pg"
      using delete_same_page [OF _ pr(3)] pg(1) pr(2) by metis
    then show "\<exists>q'. replay_on_page \<lparr>lh_pool = rf_id f, lh_op = type_id DELETE_RECORD, lh_page = page_num rid, lh_slot = slot_num rid, lh_data = []\<rparr> q
        = Some (SUCCESS, q') \<and> same_page q' pg" by (simp add: replay_on_page_def operation_of_def)
  qed (use pg(2,3) in \<open>simp_all add: log_delete_record_def\<close>)
qed

lemma update_recoverable:
  assumes r: "recoverable n (f, d)" and rec: "file_records f rid = Some v" and len: "length w = n"
  shows "recoverable n (snd (handler_update_record rid w f), d)"
proof -
  have ok: "rf_ok n f" using r by (simp add: recoverable_def)
  note pr = present_record [OF ok rec]
  let ?f = "\<lambda>pg. put_page (page_num rid) pg (snd (log_update_record (page_rec_size (page_num rid) f) rid w f))"
  obtain pg where pg: "update_record (slot_num rid) w (rf_pages f (page_num rid)) = (SUCCESS, pg)"
    "handler_update_record rid w f = (SUCCESS, ?f pg)" "rf_ok n (?f pg)"
    by (rule file_update_ok [OF ok rec len])
  have sz: "page_rec_size (page_num rid) f = n" using pr(7) by (simp add: page_rec_size_def)
  have free: "f'\<lparr>free_pages := free_pages f'\<rparr> = f'" for f' :: RecFile by simp
  show ?thesis
  proof (rule replaced_recoverable [OF r pr(1) rec refl, where oper = UPDATE_RECORD and w = w and S = "free_pages f"])
    fix q assume "same_page q (rf_pages f (page_num rid))"
    then obtain q' where "update_record (slot_num rid) w q = (SUCCESS, q')" "same_page q' pg"
      using update_same_page [OF _ pr(3)] pg(1) pr(2,7) len by metis
    then show "\<exists>q'. replay_on_page \<lparr>lh_pool = rf_id f, lh_op = type_id UPDATE_RECORD, lh_page = page_num rid, lh_slot = slot_num rid, lh_data = w\<rparr> q
        = Some (SUCCESS, q') \<and> same_page q' pg" by (simp add: replay_on_page_def operation_of_def)
  qed (use pg(2,3) len sz free [of "?f pg"] in \<open>simp_all add: log_update_record_def\<close>)
qed

lemma write_back_recoverable:
  assumes r: "recoverable n (f, d)" and p: "0 \<le> p" "p < int (rf_count f)"
  shows "recoverable n (f, d(p := (rf_pages f p, rf_lsn f p)))"
proof -
  have ok: "rf_ok n f" "log_in_range f" and lead: "\<And>q. leads_to f d q" using r by (simp_all add: recoverable_def)
  have "\<forall>e\<in>set (entries_of p (rf_log f)). fst e \<le> rf_lsn f p" using ok(2) by (auto simp: log_in_range_def entries_of_def)
  then have "page_replay (entries_of p (rf_log f)) (rf_pages f p, rf_lsn f p) = Some (rf_pages f p, rf_lsn f p)" by (rule page_replay_skip)
  then have "leads_to f (d(p := (rf_pages f p, rf_lsn f p))) p"
    using rf_okD(4,5) [OF ok(1), of p] ok(2) by (simp add: leads_to_def log_in_range_def same_page_refl)
  moreover have "leads_to f (d(p := (rf_pages f p, rf_lsn f p))) q" if "q \<noteq> p" for q using lead [of q] that by (simp add: leads_to_def)
  ultimately show ?thesis using ok unfolding recoverable_def prod.case by metis
qed

lemma step_recoverable:
  assumes beg: "\<forall>S. finite S \<longrightarrow> S \<noteq> {} \<longrightarrow> begin_page S \<in> S" and n: "n \<le> 8152"
  shows "file_step begin_page n s s' \<Longrightarrow> recoverable n s \<Longrightarrow> recoverable n s'"
proof (induction rule: file_step.induct)
  case (insert data f r f' d)
  have ok: "rf_ok n f" "rf_log_io f = SUCCESS" using insert.prems by (simp_all add: recoverable_def log_in_range_def)
  show ?case
  proof (cases rule: file_insert_cases [OF ok(1) beg insert.hyps(2) n ok(2)])
    case (1 S)
    then show ?thesis using insert.hyps(1) recoverable_free [OF insert.prems 1(2)] by simp
  next
    case (2 S p)
    then show ?thesis
      using insert.hyps handler_insert_recoverable [OF recoverable_free [OF insert.prems 2(2)], of p data r f'] by simp
  next
    case (3 p f2 f3)
    have "recoverable n (f3\<lparr>free_pages := {p}\<rparr>, d)" by (rule init_page_recoverable [OF insert.prems 3(2-4,7-12) n])
    then show ?thesis using 3(1,6) insert.hyps handler_insert_recoverable [of n "f3\<lparr>free_pages := {p}\<rparr>" d p data r f'] by simp
  qed
next
  case (delete rid f rc f' d)
  show ?case
  proof (cases "file_records f rid")
    case None
    then have "f' = f" using absent_record [OF delete.hyps(2,3) None] delete.hyps(1) by (metis prod.inject)
    then show ?thesis using delete.prems by simp
  next
    case (Some v)
    then show ?thesis using delete_recoverable [OF delete.prems Some] delete.hyps(1) by simp
  qed
next
  case (visit rid updater f rc f' d)
  have ok: "rf_ok n f" using visit.prems by (simp add: recoverable_def)
  show ?case
  proof (cases "file_records f rid")
    case None
    then have "f' = f" using absent_record [OF visit.hyps(2,3) None, of updater] visit.hyps(1) by (metis prod.inject)
    then show ?thesis using visit.prems by simp
  next
    case (Some v)
    have get: "file_get_record rid f = Inr v" by (rule present_record(5) [OF ok Some])
    have "length v = n" using present_record [OF ok Some] page_records_length by metis
    then have len: "length (snd (updater v)) = n" by (rule visit.hyps(4))
    show ?thesis
      using update_recoverable [OF visit.prems Some len] visit.hyps(1) visit.prems get
      by (auto simp: file_visit_record_def split: prod.splits if_splits)
  qed
next
  case (write_back p f d)
  show ?case by (rule write_back_recoverable [OF write_back.prems write_back.hyps])
qed

lemma recoverable_init:
  assumes "rf_ok n f" "log_in_range f" "rf_log f = []"
  shows "recoverable n (f, disk_image f)"
proof -
  have "leads_to f (disk_image f) p" for p
    using assms rf_okD(4,5) [OF assms(1), of p]
    by (auto simp: leads_to_def disk_image_def log_in_range_def data_page_def zero_rec_page_def same_page_refl)
  then show ?thesis using assms unfolding recoverable_def prod.case by blast
qed

text \<open>
  C5: Crash recovery of record files. From a file with an empty log, records are inserted, deleted and updated and pages
  are written back, in any order; then the pages in memory are lost. Replaying the log on the pages as they are on
  disk ends with success and gives exactly the records the file had, and opening the file afterwards establishes
  its invariant.
\<close>

theorem record_file_recovery:
  assumes "rf_ok n f" "log_in_range f" "rf_log f = []" "n \<le> 8152" "\<forall>S. finite S \<longrightarrow> S \<noteq> {} \<longrightarrow> begin_page S \<in> S"
    and "(file_step begin_page n)\<^sup>*\<^sup>* (f, disk_image f) (f', d)"
  shows "\<exists>g g'. replay_records (rf_log f') (crashed f' d) = Some (SUCCESS, g) \<and> file_records g = file_records f'
    \<and> file_init (g\<lparr>free_pages := {}\<rparr>) = Some (SUCCESS, g') \<and> rf_ok n g' \<and> file_records g' = file_records f'"
proof -
  have "recoverable n s" if "(file_step begin_page n)\<^sup>*\<^sup>* (f, disk_image f) s" for s
    using that recoverable_init [OF assms(1-3)] by (induction rule: rtranclp_induct) (auto intro: step_recoverable [OF assms(5,4)])
  then have "recoverable n (f', d)" using assms(6) by blast
  then have r: "rf_ok n f'" "log_in_range f'" "\<And>p. leads_to f' d p" by (simp_all add: recoverable_def)
  let ?c = "crashed f' d"
  have replay: "\<forall>p. \<exists>st. page_replay (entries_of p (rf_log f')) (rf_pages ?c p, rf_lsn ?c p) = Some st"
    using r(3) unfolding leads_to_def crashed_def by simp blast
  obtain g where g: "replay_records (rf_log f') ?c = Some (SUCCESS, g)" "rf_count g = rf_count ?c" "rf_alloc g = rf_alloc ?c"
    "\<And>p. page_replay (entries_of p (rf_log f')) (rf_pages ?c p, rf_lsn ?c p) = Some (rf_pages g p, rf_lsn g p)"
    using replay_records_pages [OF replay] r(2) by (auto simp: log_in_range_def crashed_def)
  have dp: "data_page g p = data_page f' p" for p using g(2,3) by (simp add: data_page_def crashed_def)
  have same: "length (page_data (rf_pages g p)) = BP_PAGE_DATA_SIZE" "data_page f' p \<longrightarrow> same_page (rf_pages g p) (rf_pages f' p)" for p
    using r(3) [of p] g(4) [of p] by (auto simp: leads_to_def crashed_def)
  have recs: "file_records g = file_records f'"
    using same(2) by (auto simp: file_records_def dp same_page_def fun_eq_iff)
  have "\<exists>g'. file_init (g\<lparr>free_pages := {}\<rparr>) = Some (SUCCESS, g') \<and> rf_ok n g' \<and> file_records g' = file_records g"
  proof -
    have free: "data_page (g\<lparr>free_pages := {}\<rparr>) p = data_page f' p" for p using dp by (simp add: data_page_def)
    have "\<exists>g'. file_init (g\<lparr>free_pages := {}\<rparr>) = Some (SUCCESS, g') \<and> rf_ok n g' \<and> file_records g' = file_records (g\<lparr>free_pages := {}\<rparr>)
      \<and> free_pages g' = {p. data_page (g\<lparr>free_pages := {}\<rparr>) p \<and> \<not> is_full (rf_pages (g\<lparr>free_pages := {}\<rparr>) p)}"
    proof (rule file_init_ok)
      show "\<forall>p. data_page (g\<lparr>free_pages := {}\<rparr>) p \<longrightarrow> page_ok (rf_pages (g\<lparr>free_pages := {}\<rparr>) p)
          \<and> record_real_size (page_header (rf_pages (g\<lparr>free_pages := {}\<rparr>) p)) = n"
        unfolding free using same(2) rf_okD(6) [OF r(1)] by (simp add: same_page_def)
    qed (use same(1) g(2,3) rf_okD [OF r(1)] in \<open>simp_all add: crashed_def\<close>)
    then show ?thesis by auto
  qed
  then show ?thesis using g(1) recs by auto
qed

text \<open>A file that gets a record, is written back and gets another record before it crashes.\<close>

theorem record_file_recovery_witness:
  "\<exists>f1 f2 d g r1 r2. file_insert_record Min [7, 9] 2 ex_rec_file = Some (r1, f1) \<and> file_insert_record Min [8, 8] 2 f1 = Some (r2, f2)
     \<and> d = (disk_image ex_rec_file)(0 := (rf_pages f1 0, rf_lsn f1 0)) \<and> replay_records (rf_log f2) (crashed f2 d) = Some (SUCCESS, g)
     \<and> file_records g = file_records f2"
proof -
  have beg: "\<forall>S. finite S \<longrightarrow> S \<noteq> {} \<longrightarrow> Min S \<in> (S :: PageNum set)" by simp
  have rng: "log_in_range ex_rec_file" "rf_log ex_rec_file = []" by (simp_all add: log_in_range_def ex_rec_file_def int32_def)
  let ?R = "file_step Min 2"
  have rec: "recoverable 2 (ex_rec_file, disk_image ex_rec_file)" by (rule recoverable_init [OF ex_rec_file_ok(1) rng])
  have total: "\<exists>r f'. file_insert_record Min v 2 f = Some (r, f')" if "recoverable 2 (f, d)" "length v = 2" for f d v
    using that by - (rule file_insert_cases [of 2 f Min v], auto simp: recoverable_def log_in_range_def intro: prod.exhaust)
  obtain r1 f1 where 1: "file_insert_record Min [7, 9] 2 ex_rec_file = Some (r1, f1)" using total [OF rec, of "[7, 9]"] by auto
  have s1: "?R (ex_rec_file, disk_image ex_rec_file) (f1, disk_image ex_rec_file)" by (rule file_step.insert [OF 1]) simp
  have rec1: "recoverable 2 (f1, disk_image ex_rec_file)" by (rule step_recoverable [OF beg _ s1 rec]) simp
  have cnt: "0 < rf_count f1" using rec1 rf_okD(1) by (auto simp: recoverable_def)
  let ?d = "(disk_image ex_rec_file)(0 := (rf_pages f1 0, rf_lsn f1 0))"
  have s2: "?R (f1, disk_image ex_rec_file) (f1, ?d)" by (rule file_step.write_back) (use cnt in simp_all)
  obtain r2 f2 where 2: "file_insert_record Min [8, 8] 2 f1 = Some (r2, f2)" using total [OF rec1, of "[8, 8]"] by auto
  have s3: "?R (f1, ?d) (f2, ?d)" by (rule file_step.insert [OF 2]) simp
  have run: "?R\<^sup>*\<^sup>* (ex_rec_file, disk_image ex_rec_file) (f2, ?d)"
    using s1 s2 s3 by (meson converse_rtranclp_into_rtranclp rtranclp.rtrancl_refl)
  obtain g where "replay_records (rf_log f2) (crashed f2 ?d) = Some (SUCCESS, g)" "file_records g = file_records f2"
    using record_file_recovery [OF ex_rec_file_ok(1) rng _ beg run] by auto
  then show ?thesis using 1 2 by blast
qed

text \<open>
  A page initialised by the replay is not marked as changed: \<open>init_empty_page\<close> never calls \<open>mark_dirty\<close>. A clean
  page stays clean, so the pool may drop it from memory without writing it.
\<close>

lemma replay_init_page_clean:
  "replay_on_page \<lparr>lh_pool = i, lh_op = type_id INIT_PAGE, lh_page = p, lh_slot = int n, lh_data = []\<rparr> pg = Some (rc, pg') \<Longrightarrow>
     \<not> page_dirty pg \<Longrightarrow> \<not> page_dirty pg'"
  by (auto simp: replay_on_page_def operation_of_def init_empty_page_def Let_def split: if_splits option.splits)

end
