(* ===== verification/BplusRepr.thy ===== *)
theory BplusRepr
  imports Prelude BplusTree
begin

text \<open>
  The abstract view of an index: a tree of pages with their items, when the pages of a \<open>btree\<close> store it,
  and when it is ordered. On a stored and ordered tree the descent returns, and it returns the one leaf
  where the key belongs; the scanner then returns the items of the index in order.
\<close>

section \<open>Abstract trees\<close>

datatype bt = BLeaf PageNum "item list" | BNode PageNum "(IKey \<times> bt) list"

fun bt_page :: "bt \<Rightarrow> PageNum" where
  "bt_page (BLeaf p its) = p"
| "bt_page (BNode p cs) = p"

fun bt_leaves :: "bt \<Rightarrow> (PageNum \<times> item list) list" where
  "bt_leaves (BLeaf p its) = [(p, its)]"
| "bt_leaves (BNode p cs) = concat (map (\<lambda>(k, c). bt_leaves c) cs)"

definition bt_items :: "bt \<Rightarrow> item list" where
  "bt_items b = concat (map snd (bt_leaves b))"

lemma bt_items_BNode: "bt_items (BNode p cs) = concat (map (bt_items \<circ> snd) cs)"
  by (induction cs) (auto simp: bt_items_def)

fun bt_pages :: "bt \<Rightarrow> PageNum list" where
  "bt_pages (BLeaf p its) = [p]"
| "bt_pages (BNode p cs) = p # concat (map (\<lambda>(k, c). bt_pages c) cs)"

text \<open>The pages of a tree store it: kind, items and parent links.\<close>

fun stored :: "(PageNum \<Rightarrow> IndexNode) \<Rightarrow> PageNum \<Rightarrow> bt \<Rightarrow> bool" where
  "stored pg par (BLeaf p its) \<longleftrightarrow> is_leaf (pg p) \<and> parent (pg p) = par \<and> items (pg p) = its"
| "stored pg par (BNode p cs) \<longleftrightarrow> \<not> is_leaf (pg p) \<and> parent (pg p) = par \<and>
     items (pg p) = map (\<lambda>(k, c). (k, PageV (bt_page c))) cs \<and> (\<forall>(k, c)\<in>set cs. stored pg p c)"

section \<open>Order\<close>

definition above :: "(IKey \<Rightarrow> IKey \<Rightarrow> int) \<Rightarrow> IKey option \<Rightarrow> IKey \<Rightarrow> bool" where
  "above cmp lo k \<longleftrightarrow> (case lo of None \<Rightarrow> True | Some l \<Rightarrow> cmp l k \<le> 0)"

definition below :: "(IKey \<Rightarrow> IKey \<Rightarrow> int) \<Rightarrow> IKey option \<Rightarrow> IKey \<Rightarrow> bool" where
  "below cmp hi k \<longleftrightarrow> (case hi of None \<Rightarrow> True | Some h \<Rightarrow> cmp k h < 0)"

definition strictly_above :: "(IKey \<Rightarrow> IKey \<Rightarrow> int) \<Rightarrow> IKey option \<Rightarrow> IKey \<Rightarrow> bool" where
  "strictly_above cmp lo k \<longleftrightarrow> (case lo of None \<Rightarrow> True | Some l \<Rightarrow> cmp l k < 0)"

text \<open>
  \<open>ranges cmp valid f lo hi cs\<close>: the first child lies between \<open>lo\<close> and the next separator, and so on; the
  first key of the list is ignored, as in the source.
\<close>

fun ranges :: "(IKey \<Rightarrow> IKey \<Rightarrow> int) \<Rightarrow> (IKey \<Rightarrow> bool) \<Rightarrow> (IKey option \<Rightarrow> IKey option \<Rightarrow> 'b \<Rightarrow> bool) \<Rightarrow>
    IKey option \<Rightarrow> IKey option \<Rightarrow> (IKey \<times> 'b) list \<Rightarrow> bool" where
  "ranges cmp valid f lo hi [] = False"
| "ranges cmp valid f lo hi [(k, c)] = f lo hi c"
| "ranges cmp valid f lo hi ((k, c) # (k', c') # cs) \<longleftrightarrow>
     f lo (Some k') c \<and> valid k' \<and> strictly_above cmp lo k' \<and> below cmp hi k' \<and>
     ranges cmp valid f (Some k') hi ((k', c') # cs)"

lemma ranges_cong [fundef_cong]:
  assumes "cmp = cmp'" "valid = valid'" "lo = lo'" "hi = hi'" "cs = cs'"
    and "\<And>k c l u. (k, c) \<in> set cs' \<Longrightarrow> f l u c = g l u c"
  shows "ranges cmp valid f lo hi cs = ranges cmp' valid' g lo' hi' cs'"
  unfolding assms(1-5) using assms(6)
  by (induction cmp' valid' g lo' hi' cs' rule: ranges.induct) auto

fun bt_ord :: "(IKey \<Rightarrow> IKey \<Rightarrow> int) \<Rightarrow> (IKey \<Rightarrow> bool) \<Rightarrow> IKey option \<Rightarrow> IKey option \<Rightarrow> bt \<Rightarrow> bool" where
  "bt_ord cmp valid lo hi (BLeaf p its) \<longleftrightarrow>
     key_ascending cmp valid (map fst its) \<and> (\<forall>k\<in>fst ` set its. above cmp lo k \<and> below cmp hi k)"
| "bt_ord cmp valid lo hi (BNode p cs) \<longleftrightarrow> ranges cmp valid (\<lambda>l u c. bt_ord cmp valid l u c) lo hi cs"

text \<open>The leaf chain: each leaf links to the next one, the last to no page.\<close>

fun leaf_chain :: "(PageNum \<Rightarrow> IndexNode) \<Rightarrow> PageNum list \<Rightarrow> bool" where
  "leaf_chain pg [] = True"
| "leaf_chain pg [p] \<longleftrightarrow> next_brother (pg p) = BP_INVALID_PAGE_NUM"
| "leaf_chain pg (p # q # ps) \<longleftrightarrow> next_brother (pg p) = q \<and> leaf_chain pg (q # ps)"

text \<open>An index that holds the items of the tree \<open>b\<close>, or is empty.\<close>

definition tree_ok :: "btree \<Rightarrow> (IKey \<Rightarrow> bool) \<Rightarrow> bt \<Rightarrow> bool" where
  "tree_ok t valid b \<longleftrightarrow>
     root_page (file_header t) = bt_page b \<and> bt_page b \<noteq> BP_INVALID_PAGE_NUM \<and>
     stored (pages t) BP_INVALID_PAGE_NUM b \<and> bt_ord (key_comparator t) valid None None b \<and>
     (\<forall>p\<in>set (bt_pages b). 0 \<le> p \<and> p < int (page_count t)) \<and>
     leaf_chain (pages t) (map fst (bt_leaves b)) \<and>
     (\<forall>(p, its)\<in>set (bt_leaves b). its \<noteq> [])"

section \<open>Routing\<close>

locale index_order = key_order cmp valid
  for cmp :: "IKey \<Rightarrow> IKey \<Rightarrow> int" and valid :: "IKey \<Rightarrow> bool"
begin

abbreviation bounds_ok :: "IKey option \<Rightarrow> bool" where
  "bounds_ok lo \<equiv> \<forall>l. lo = Some l \<longrightarrow> valid l"

lemma above_trans: "bounds_ok lo \<Longrightarrow> valid k \<Longrightarrow> valid l \<Longrightarrow> above cmp lo k \<Longrightarrow> cmp k l \<le> 0 \<Longrightarrow> above cmp lo l"
  by (cases lo) (auto simp: above_def intro: cmp_trans)

lemma strictly_above_trans:
  "bounds_ok lo \<Longrightarrow> valid k \<Longrightarrow> valid l \<Longrightarrow> strictly_above cmp lo k \<Longrightarrow> cmp k l \<le> 0 \<Longrightarrow> strictly_above cmp lo l"
  by (cases lo) (auto simp: strictly_above_def intro: cmp_less_le_trans)

lemma strictly_above_imp_above: "strictly_above cmp lo k \<Longrightarrow> above cmp lo k"
  by (cases lo) (auto simp: above_def strictly_above_def)

lemma below_trans: "bounds_ok hi \<Longrightarrow> valid k \<Longrightarrow> valid l \<Longrightarrow> below cmp hi l \<Longrightarrow> cmp k l \<le> 0 \<Longrightarrow> below cmp hi k"
  by (cases hi) (auto simp: below_def intro: cmp_le_less_trans)

lemma ranges_separators:
  assumes "ranges cmp valid f lo hi cs" "bounds_ok lo"
  shows "ascending (tl (map fst cs)) \<and> (\<forall>k\<in>set (tl (map fst cs)). strictly_above cmp lo k \<and> below cmp hi k)"
  using assms
proof (induction cs arbitrary: lo rule: induct_list012)
  case (3 x y cs)
  obtain k c k' c' where [simp]: "x = (k, c)" "y = (k', c')" by (cases x, cases y)
  have k': "valid k'" "strictly_above cmp lo k'" "below cmp hi k'"
    using "3.prems"(1) by auto
  have IH: "ascending (map fst cs)" "\<forall>z\<in>set (map fst cs). strictly_above cmp (Some k') z \<and> below cmp hi z"
    using "3.IH"(2) [of "Some k'"] "3.prems"(1) by auto
  have "strictly_above cmp lo z" if "z \<in> set (map fst cs)" for z
  proof -
    have "valid z" using ascending_valid [OF IH(1) that] .
    moreover have "cmp k' z < 0" using IH(2) that by (auto simp: strictly_above_def)
    ultimately show ?thesis using strictly_above_trans [OF "3.prems"(2) k'(1) _ k'(2)] by simp
  qed
  then show ?case
    using k' IH by (auto simp: ascending_Cons strictly_above_def)
qed auto

abbreviation child_lo :: "IKey option \<Rightarrow> (IKey \<times> 'b) list \<Rightarrow> nat \<Rightarrow> IKey option" where
  "child_lo lo cs r \<equiv> (if r = 0 then lo else Some (fst (cs ! r)))"

abbreviation child_hi :: "IKey option \<Rightarrow> (IKey \<times> 'b) list \<Rightarrow> nat \<Rightarrow> IKey option" where
  "child_hi hi cs r \<equiv> (if Suc r = length cs then hi else Some (fst (cs ! Suc r)))"

lemma ranges_nth:
  "ranges cmp valid f lo hi cs \<Longrightarrow> r < length cs \<Longrightarrow> f (child_lo lo cs r) (child_hi hi cs r) (snd (cs ! r))"
proof (induction cs arbitrary: lo r rule: induct_list012)
  case (3 x y cs)
  obtain k c k' c' where [simp]: "x = (k, c)" "y = (k', c')" by (cases x, cases y)
  show ?case
  proof (cases r)
    case 0
    with 3 show ?thesis by simp
  next
    case (Suc r')
    then show ?thesis using "3.IH"(2) [of "Some k'" r'] "3.prems" by (cases r') auto
  qed
qed auto

lemma separator_props:
  assumes "ranges cmp valid f lo hi cs" "bounds_ok lo" "0 < r" "r < length cs"
  shows "valid (fst (cs ! r))" "strictly_above cmp lo (fst (cs ! r))" "below cmp hi (fst (cs ! r))"
proof -
  have "fst (cs ! r) \<in> set (tl (map fst cs))"
    using assms(3,4) nth_mem [of "r - 1" "tl (map fst cs)"] by (simp add: nth_tl)
  then show "valid (fst (cs ! r))" "strictly_above cmp lo (fst (cs ! r))" "below cmp hi (fst (cs ! r))"
    using ranges_separators [OF assms(1,2)] ascending_valid by auto
qed

lemma child_bounds_ok:
  assumes "ranges cmp valid f lo hi cs" "bounds_ok lo" "bounds_ok hi" "r < length cs"
  shows "bounds_ok (child_lo lo cs r)" "bounds_ok (child_hi hi cs r)"
  using assms separator_props [OF assms(1,2)] by auto

lemma bt_ord_bounds:
  assumes "bt_ord cmp valid lo hi b" "bounds_ok lo" "bounds_ok hi"
    and "(p, its) \<in> set (bt_leaves b)" "k \<in> fst ` set its"
  shows "valid k \<and> above cmp lo k \<and> below cmp hi k"
  using assms
proof (induction b arbitrary: lo hi)
  case (BLeaf q jts)
  then show ?case by (auto simp: key_ascending_def)
next
  case (BNode q cs)
  obtain k0 c where kc: "(k0, c) \<in> set cs" "(p, its) \<in> set (bt_leaves c)"
    using BNode.prems(4) by auto
  obtain r where r: "r < length cs" "cs ! r = (k0, c)" using kc(1) by (auto simp: in_set_conv_nth)
  have rg: "ranges cmp valid (\<lambda>l u c. bt_ord cmp valid l u c) lo hi cs" using BNode.prems(1) by simp
  note sep = separator_props [OF rg BNode.prems(2)]
  note cb = child_bounds_ok [OF rg BNode.prems(2,3) r(1)]
  have "bt_ord cmp valid (child_lo lo cs r) (child_hi hi cs r) c" using ranges_nth [OF rg r(1)] r(2) by simp
  then have IH: "valid k" "above cmp (child_lo lo cs r) k" "below cmp (child_hi hi cs r) k"
    using BNode.IH [OF kc(1), of c "child_lo lo cs r" "child_hi hi cs r"] cb kc(2) BNode.prems(5) by auto
  have "above cmp lo k"
  proof (cases "r = 0")
    case False
    then have "cmp (fst (cs ! r)) k \<le> 0" using IH(2) by (simp add: above_def)
    then show ?thesis
      using above_trans [OF BNode.prems(2), of "fst (cs ! r)" k] sep [of r] False r(1) IH(1)
      by (auto intro: strictly_above_imp_above)
  qed (use IH in simp)
  moreover have "below cmp hi k"
  proof (cases "Suc r = length cs")
    case False
    then have "cmp k (fst (cs ! Suc r)) < 0" using IH(3) by (simp add: below_def)
    then show ?thesis
      using below_trans [OF BNode.prems(3), of k "fst (cs ! Suc r)"] sep [of "Suc r"] False r(1) IH(1) by auto
  qed (use IH in simp)
  ultimately show ?case using IH(1) by simp
qed

text \<open>The leaves to the left of a child lie below its separator, those to the right above it.\<close>

lemma leaves_left:
  assumes "ranges cmp valid (\<lambda>l u c. bt_ord cmp valid l u c) lo hi cs" "bounds_ok lo" "bounds_ok hi" "valid key"
    and "r < length cs" "0 < r \<longrightarrow> cmp (fst (cs ! r)) key \<le> 0" "j < r"
    and "(q, jts) \<in> set (bt_leaves (snd (cs ! j)))" "k \<in> fst ` set jts"
  shows "cmp k key < 0"
proof -
  note rg = assms(1) and sep = separator_props [OF assms(1,2)]
  have j: "j < length cs" "Suc j < length cs" using assms(5,7) by auto
  have "bt_ord cmp valid (child_lo lo cs j) (Some (fst (cs ! Suc j))) (snd (cs ! j))"
    using ranges_nth [OF rg j(1)] j(2) by simp
  from bt_ord_bounds [OF this _ _ assms(8,9)]
  have k: "valid k" "cmp k (fst (cs ! Suc j)) < 0"
    using child_bounds_ok [OF rg assms(2,3) j(1)] j by (auto simp: below_def)
  have "cmp (fst (cs ! Suc j)) key \<le> 0"
  proof (cases "Suc j = r")
    case True
    with assms(6) show ?thesis by simp
  next
    case False
    then have "Suc j < r" using assms(7) by simp
    then have "cmp (fst (cs ! Suc j)) (fst (cs ! r)) < 0"
      using ascending_nth [of "tl (map fst cs)" j "r - 1"] ranges_separators [OF rg assms(2)] assms(5)
      by (simp add: nth_tl)
    then show ?thesis
      using cmp_trans [of "fst (cs ! Suc j)" "fst (cs ! r)" key] sep assms(4-6) \<open>Suc j < r\<close> by simp
  qed
  then show ?thesis using cmp_less_le_trans [of k "fst (cs ! Suc j)" key] k sep j assms(4) by simp
qed

lemma leaves_right:
  assumes "ranges cmp valid (\<lambda>l u c. bt_ord cmp valid l u c) lo hi cs" "bounds_ok lo" "bounds_ok hi" "valid key"
    and "r < j" "j < length cs" "cmp key (fst (cs ! j)) < 0"
    and "(q, jts) \<in> set (bt_leaves (snd (cs ! j)))" "k \<in> fst ` set jts"
  shows "cmp key k < 0"
proof -
  note rg = assms(1) and sep = separator_props [OF assms(1,2)]
  have "bt_ord cmp valid (Some (fst (cs ! j))) (child_hi hi cs j) (snd (cs ! j))"
    using ranges_nth [OF rg assms(6)] assms(5) by (simp add: gr0_conv_Suc)
  from bt_ord_bounds [OF this _ _ assms(8,9)]
  have "valid k" "cmp (fst (cs ! j)) k \<le> 0"
    using child_bounds_ok [OF rg assms(2,3,6)] sep [of j] assms(5,6) by (auto simp: above_def)
  then show ?thesis using cmp_less_le_trans [of key "fst (cs ! j)" k] sep [of j] assms(4-7) by simp
qed

lemma leaves_split_at:
  assumes "r < length cs"
  shows "bt_leaves (BNode p cs) = concat (map (bt_leaves \<circ> snd) (take r cs)) @ bt_leaves (snd (cs ! r))
    @ concat (map (bt_leaves \<circ> snd) (drop (Suc r) cs))"
proof -
  have "map (\<lambda>(k, c). bt_leaves c) cs = map (bt_leaves \<circ> snd) cs" by (auto simp: split_def)
  also have "\<dots> = map (bt_leaves \<circ> snd) (take r cs @ cs ! r # drop (Suc r) cs)"
    using id_take_nth_drop [OF assms] by simp
  finally show ?thesis by simp
qed

lemma find_leaf_loop_correct:
  assumes "stored (pages t) par b" "bt_ord cmp valid lo hi b" "bounds_ok lo" "bounds_ok hi"
    and "valid key" "above cmp lo key" "below cmp hi key"
    and "\<forall>p\<in>set (bt_pages b). 0 \<le> p \<and> p < int (page_count t)"
  shows "\<exists>ls p its rs.
    find_leaf_loop (\<lambda>n. internal_value_at (fst (internal_lookup cmp key n)) n) t (bt_page b) = Some (Inr p)
    \<and> bt_leaves b = ls @ (p, its) # rs \<and> is_leaf (pages t p) \<and> items (pages t p) = its
    \<and> (\<forall>(q, jts)\<in>set ls. \<forall>k\<in>fst ` set jts. cmp k key < 0)
    \<and> (\<forall>(q, jts)\<in>set rs. \<forall>k\<in>fst ` set jts. cmp key k < 0)"
  using assms
proof (induction b arbitrary: par lo hi)
  case (BLeaf p its)
  then show ?case by (intro exI [of _ "[]"] exI [of _ p] exI [of _ its]) (simp add: find_leaf_loop.simps)
next
  case (BNode p cs)
  let ?n = "pages t p"
  have rg: "ranges cmp valid (\<lambda>l u c. bt_ord cmp valid l u c) lo hi cs" using BNode.prems(2) by simp
  then have ne: "cs \<noteq> []" by auto
  have st: "\<not> is_leaf ?n" "items ?n = map (\<lambda>(k, c). (k, PageV (bt_page c))) cs"
    "\<forall>(k, c)\<in>set cs. stored (pages t) p c"
    using BNode.prems(1) by auto
  have keys: "node_keys ?n = map fst cs" unfolding st(2) by (simp add: split_def)
  obtain i found where lb: "lower_bound cmp (tl (map fst cs)) key = (i, found)" by force
  define r where "r = (if i + 1 \<ge> length (map fst cs) \<or> cmp key (map fst cs ! (i + 1)) < 0 then i else i + 1)"
  note rt = separator_lookup [OF conjunct1 [OF ranges_separators [OF rg BNode.prems(3)]]
      BNode.prems(5) _ lb r_def]
  have r: "r < length cs" "0 < r \<longrightarrow> cmp (fst (cs ! r)) key \<le> 0"
    using rt ne by auto
  have r3: "cmp key (fst (cs ! j)) < 0" if "r < j" "j < length cs" for j
    using rt(3) [of j] that ne by simp
  have look: "fst (internal_lookup cmp key ?n) = r"
  proof -
    have len: "length (items ?n) = length cs" unfolding st(2) by simp
    show ?thesis using lb ne unfolding internal_lookup_def keys len
      by (cases "Suc i < length cs") (simp_all add: r_def)
  qed
  have child: "internal_value_at r ?n = bt_page (snd (cs ! r))"
    using r(1) by (simp add: internal_value_at_def st(2) split_def)
  obtain k c where kc: "cs ! r = (k, c)" by force
  then have mem: "(k, c) \<in> set cs" using r(1) nth_mem by metis
  have pg: "\<forall>q\<in>set (bt_pages c). 0 \<le> q \<and> q < int (page_count t)" using BNode.prems(8) mem by auto
  have pgc: "get_page (bt_page c) t = SUCCESS" using pg by (cases c) (auto simp: get_page_def)
  have ord: "bt_ord cmp valid (child_lo lo cs r) (child_hi hi cs r) c" using ranges_nth [OF rg r(1)] kc by simp
  have ab: "above cmp (child_lo lo cs r) key" "below cmp (child_hi hi cs r) key"
    using BNode.prems(6,7) r r3 [of "Suc r"] by (auto simp: above_def below_def)
  obtain ls q its rs where IH:
    "find_leaf_loop (\<lambda>n. internal_value_at (fst (internal_lookup cmp key n)) n) t (bt_page c) = Some (Inr q)"
    "bt_leaves c = ls @ (q, its) # rs" "is_leaf (pages t q)" "items (pages t q) = its"
    "\<forall>(q, jts)\<in>set ls. \<forall>k\<in>fst ` set jts. cmp k key < 0"
    "\<forall>(q, jts)\<in>set rs. \<forall>k\<in>fst ` set jts. cmp key k < 0"
    using BNode.IH [OF mem _ _ ord child_bounds_ok [OF rg BNode.prems(3,4) r(1)] BNode.prems(5) ab pg]
      st(3) mem by fastforce
  let ?L = "concat (map (bt_leaves \<circ> snd) (take r cs)) @ ls"
  let ?R = "rs @ concat (map (bt_leaves \<circ> snd) (drop (Suc r) cs))"
  have f1: "find_leaf_loop (\<lambda>n. internal_value_at (fst (internal_lookup cmp key n)) n) t p = Some (Inr q)"
    using st(1) IH(1) pgc look child kc
    by (subst find_leaf_loop.simps) simp
  have f2: "bt_leaves (BNode p cs) = ?L @ (q, its) # ?R"
    using leaves_split_at [OF r(1), of p] IH(2) kc by simp
  have f3: "\<forall>(q, jts)\<in>set ?L. \<forall>k\<in>fst ` set jts. cmp k key < 0"
  proof (intro ballI, clarify)
    fix q jts k v
    assume "(q, jts) \<in> set ?L" and k: "(k, v) \<in> set jts"
    then consider "(q, jts) \<in> set ls" | x where "x \<in> set (take r cs)" "(q, jts) \<in> set (bt_leaves (snd x))"
      by auto
    then show "cmp (fst (k, v)) key < 0"
    proof cases
      case 1
      with IH(5) k show ?thesis by force
    next
      case 2
      then obtain j where "j < r" "x = cs ! j" by (auto simp: in_set_conv_nth)
      with 2 k show ?thesis using leaves_left [OF rg BNode.prems(3-5) r, of j q jts k] by force
    qed
  qed
  have f4: "\<forall>(q, jts)\<in>set ?R. \<forall>k\<in>fst ` set jts. cmp key k < 0"
  proof (intro ballI, clarify)
    fix q jts k v
    assume "(q, jts) \<in> set ?R" and k: "(k, v) \<in> set jts"
    then consider "(q, jts) \<in> set rs" | x where "x \<in> set (drop (Suc r) cs)" "(q, jts) \<in> set (bt_leaves (snd x))"
      by auto
    then show "cmp key (fst (k, v)) < 0"
    proof cases
      case 1
      with IH(6) k show ?thesis by force
    next
      case 2
      then obtain i where "i < length cs - Suc r" "x = cs ! (Suc r + i)" by (auto simp: in_set_conv_nth)
      then have j: "r < Suc r + i" "Suc r + i < length cs" "x = cs ! (Suc r + i)" by auto
      with 2 k show ?thesis
        using leaves_right [OF rg BNode.prems(3-5) j(1,2) r3 [OF j(1,2)], of q jts k] by force
    qed
  qed
  show ?case
    unfolding bt_page.simps
    by (rule exI [of _ ?L], rule exI [of _ q], rule exI [of _ its], rule exI [of _ ?R], intro conjI)
      (fact f1 f2 f3 f4 IH(3) IH(4))+
qed

text \<open>The items of the leaves are ascending as a whole.\<close>

lemma bt_items_ascending:
  assumes "bt_ord cmp valid lo hi b" "bounds_ok lo" "bounds_ok hi"
  shows "ascending (map fst (bt_items b))"
  using assms
proof (induction b arbitrary: lo hi)
  case (BLeaf p its)
  then show ?case by (simp add: bt_items_def)
next
  case (BNode p cs)
  have rg: "ranges cmp valid (\<lambda>l u c. bt_ord cmp valid l u c) lo hi cs" using BNode.prems(1) by simp
  have kids: "ascending (map fst (bt_items (snd (cs ! r))))" if "r < length cs" for r
  proof -
    obtain k c where "cs ! r = (k, c)" by force
    then show ?thesis
      using BNode.IH [of "(k, c)" c "child_lo lo cs r" "child_hi hi cs r"] ranges_nth [OF rg that]
        child_bounds_ok [OF rg BNode.prems(2,3) that] nth_mem [OF that] by auto
  qed
  have "ascending (map fst (concat (map (bt_items \<circ> snd) (drop r cs))))" if "r \<le> length cs" for r
    using that
  proof (induction "length cs - r" arbitrary: r)
    case (Suc n)
    then have r: "r < length cs" by simp
    have eq: "drop r cs = cs ! r # drop (Suc r) cs" using r by (simp add: Cons_nth_drop_Suc)
    have IH: "ascending (map fst (concat (map (bt_items \<circ> snd) (drop (Suc r) cs))))"
      using Suc.hyps(1) [of "Suc r"] Suc.hyps(2) r by simp
    have "cmp k l < 0" if kl: "k \<in> set (map fst (bt_items (snd (cs ! r))))"
      "l \<in> set (map fst (concat (map (bt_items \<circ> snd) (drop (Suc r) cs))))" for k l
    proof -
      from kl(2) obtain x where x: "x \<in> set (drop (Suc r) cs)" "l \<in> set (map fst (bt_items (snd x)))" by auto
      then obtain i where "i < length cs - Suc r" "x = cs ! (Suc r + i)" by (auto simp: in_set_conv_nth)
      then have j: "Suc r + i < length cs" "x = cs ! (Suc r + i)" by auto
      obtain q jts where l: "(q, jts) \<in> set (bt_leaves (snd (cs ! (Suc r + i))))" "l \<in> fst ` set jts"
        using x(2) j(2) by (force simp: bt_items_def)
      obtain q' jts' where k: "(q', jts') \<in> set (bt_leaves (snd (cs ! r)))" "k \<in> fst ` set jts'"
        using kl(1) by (force simp: bt_items_def)
      let ?s = "fst (cs ! (Suc r + i))"
      have s: "valid ?s" using separator_props [OF rg BNode.prems(2), of "Suc r + i"] j by simp
      have "cmp k ?s < 0"
        by (rule leaves_left [OF rg BNode.prems(2,3) s j(1) _ _ k]) (use cmp_refl [OF s] in auto)
      moreover have "cmp ?s l \<le> 0" "valid l"
        using bt_ord_bounds [OF ranges_nth [OF rg j(1)] child_bounds_ok [OF rg BNode.prems(2,3) j(1)] l]
        by (auto simp: above_def)
      moreover have "valid k"
        using bt_ord_bounds [OF ranges_nth [OF rg r] child_bounds_ok [OF rg BNode.prems(2,3) r] k] by simp
      ultimately show ?thesis using cmp_less_le_trans s by blast
    qed
    then show ?case using kids [OF r] IH by (simp add: eq ascending_append)
  qed simp
  from this [of 0] show ?case by (simp add: bt_items_BNode)
qed

end

section \<open>The index's own orders\<close>

interpretation int_index: index_order "index_cmp fsub INTS len" "index_key len" for fsub len
  by (rule index_order.intro) (rule int_attr.k.key_order_axioms)

interpretation date_index: index_order "index_cmp fsub DATES len" "index_key len" for fsub len
  by (rule index_order.intro) (rule date_attr.k.key_order_axioms)

interpretation char_index: index_order "index_cmp fsub CHARS len" "index_key len" for fsub len
  by (rule index_order.intro) (rule char_attr.k.key_order_axioms)

lemma index_order_of_type: "index_type ty \<Longrightarrow> index_order (index_cmp fsub ty len) (index_key len)"
  using int_index.index_order_axioms date_index.index_order_axioms char_index.index_order_axioms
  by (auto simp: index_type_def)

end
