(* ===== verification/BplusScan.thy ===== *)
theory BplusScan
  imports Prelude BplusRepr
begin

text \<open>
  Range scans over a stored tree: \<open>BplusTreeScanner\<close> walks the leaf chain from the first key of the range
  and stops at the first key beyond it. The scanner terminates, and what it returns is the selection of
  the index's items by the range, in key order; \<open>get_entry\<close> is the scan of one attribute value.
\<close>

section \<open>Walking the leaf chain\<close>

text \<open>The item is past the right end of the scan.\<close>

definition beyond :: "btree \<Rightarrow> IKey option \<Rightarrow> item \<Rightarrow> bool" where
  "beyond t rk it \<longleftrightarrow> (case rk of None \<Rightarrow> False | Some k \<Rightarrow> key_comparator t (fst it) k > 0)"

text \<open>What is left of the chain after the item at the scanner's position.\<close>

definition scan_rest :: "btree \<Rightarrow> scanner \<Rightarrow> item list \<Rightarrow> bool" where
  "scan_rest t s rest \<longleftrightarrow> (\<exists>p ps. current_frame s = Some p \<and> first_emitted s \<and> -1 \<le> iter_index s
     \<and> leaf_chain (pages t) (p # ps) \<and> BP_INVALID_PAGE_NUM \<notin> set ps
     \<and> (\<forall>q\<in>set ps. get_page q t = SUCCESS \<and> items (pages t q) \<noteq> [])
     \<and> rest = drop (nat (iter_index s + 1)) (items (pages t p)) @ concat (map (items \<circ> pages t) ps))"

lemma touch_end_beyond:
  "current_frame s = Some p \<Longrightarrow> touch_end t s = beyond t (right_key s) (items (pages t p) ! nat (iter_index s))"
  by (cases "right_key s") (simp_all add: touch_end_def beyond_def key_at_def)

lemma next_entry_in_page:
  assumes "current_frame s = Some p" "first_emitted s" "-1 \<le> iter_index s"
    and "iter_index s + 1 < node_size (pages t p)"
  shows "next_entry t s =
    (let s1 = s\<lparr>iter_index := iter_index s + 1\<rparr>; it = items (pages t p) ! nat (iter_index s + 1)
     in if beyond t (right_key s) it then Some (RECORD_EOF, None, s1) else Some (SUCCESS, Some (snd it), s1))"
  using assms touch_end_beyond [of "s\<lparr>iter_index := iter_index s + 1\<rparr>" p t]
  by (subst next_entry.simps) (simp add: Let_def fetch_item_def)

lemma scan_rest_next:
  assumes "scan_rest t s rest"
  shows "case rest of
      [] \<Rightarrow> \<exists>s'. next_entry t s = Some (RECORD_EOF, None, s')
    | it # rest' \<Rightarrow>
        if beyond t (right_key s) it then \<exists>s'. next_entry t s = Some (RECORD_EOF, None, s')
        else \<exists>s'. next_entry t s = Some (SUCCESS, Some (snd it), s') \<and> scan_rest t s' rest'
               \<and> right_key s' = right_key s"
proof -
  obtain p ps where p: "current_frame s = Some p" "first_emitted s" "-1 \<le> iter_index s"
    "leaf_chain (pages t) (p # ps)" "BP_INVALID_PAGE_NUM \<notin> set ps"
    "\<forall>q\<in>set ps. get_page q t = SUCCESS \<and> items (pages t q) \<noteq> []"
    and rest: "rest = drop (nat (iter_index s + 1)) (items (pages t p)) @ concat (map (items \<circ> pages t) ps)"
    using assms by (auto simp: scan_rest_def)
  have in_page: ?thesis
    if q: "current_frame s' = Some q" "first_emitted s'" "-1 \<le> iter_index s'" "right_key s' = right_key s"
      "iter_index s' + 1 < node_size (pages t q)" "leaf_chain (pages t) (q # qs)" "BP_INVALID_PAGE_NUM \<notin> set qs"
      "\<forall>r\<in>set qs. get_page r t = SUCCESS \<and> items (pages t r) \<noteq> []"
      "rest = drop (nat (iter_index s' + 1)) (items (pages t q)) @ concat (map (items \<circ> pages t) qs)"
      and eq: "next_entry t s = next_entry t s'" for s' q qs
  proof -
    let ?i = "nat (iter_index s' + 1)"
    have i: "?i < length (items (pages t q))" using q(3,5) by (simp add: node_size_def)
    have dr: "rest = items (pages t q) ! ?i # drop (Suc ?i) (items (pages t q)) @ concat (map (items \<circ> pages t) qs)"
      using q(9) i by (simp add: Cons_nth_drop_Suc)
    have "scan_rest t (s'\<lparr>iter_index := iter_index s' + 1\<rparr>) (tl rest)"
      unfolding scan_rest_def
      by (rule exI [of _ q], rule exI [of _ qs]) (use q dr in \<open>auto simp: Suc_nat_eq_nat_zadd1 add.commute\<close>)
    then show ?thesis
      using next_entry_in_page [OF q(1,2,3,5)] q(4) dr eq by (auto simp: Let_def)
  qed
  show ?thesis
  proof (cases "iter_index s + 1 < node_size (pages t p)")
    case True
    from in_page [OF p(1-3) refl True p(4-6) rest refl] show ?thesis .
  next
    case False
    then have done': "drop (nat (iter_index s + 1)) (items (pages t p)) = []"
      by (simp add: node_size_def)
    show ?thesis
    proof (cases ps)
      case Nil
      have "next_entry t s = Some (RECORD_EOF, None, s\<lparr>iter_index := iter_index s + 1\<rparr>)"
        using p False Nil by (subst next_entry.simps) (simp add: Let_def)
      with rest done' Nil show ?thesis by simp
    next
      case (Cons q qs)
      let ?s' = "s\<lparr>current_frame := Some q, iter_index := -1\<rparr>"
      have q: "q \<noteq> BP_INVALID_PAGE_NUM" "get_page q t = SUCCESS" "items (pages t q) \<noteq> []"
        "next_brother (pages t p) = q" "leaf_chain (pages t) (q # qs)"
        using p(4-6) Cons by auto
      have "next_entry t s = next_entry t ?s'"
        using p False q by (subst next_entry.simps) (simp add: Let_def)
      then show ?thesis
        by (intro in_page [of ?s' q qs]) (use p q Cons rest done' in \<open>auto simp: node_size_def\<close>)
    qed
  qed
qed

lemma scan_all_rest:
  "scan_rest t s rest \<Longrightarrow>
    scan_all t s acc = Some (SUCCESS, acc @ map snd (takeWhile (\<lambda>it. \<not> beyond t (right_key s) it) rest))"
proof (induction rest arbitrary: s acc)
  case Nil
  then show ?case using scan_rest_next [OF Nil] by (subst scan_all.simps) auto
next
  case (Cons it rest)
  show ?case
  proof (cases "beyond t (right_key s) it")
    case True
    then show ?thesis using scan_rest_next [OF Cons.prems] by (subst scan_all.simps) auto
  next
    case False
    then obtain s' where s': "next_entry t s = Some (SUCCESS, Some (snd it), s')" "scan_rest t s' rest"
      "right_key s' = right_key s"
      using scan_rest_next [OF Cons.prems] by auto
    then show ?thesis using Cons.IH [OF s'(2), of "acc @ [snd it]"] False
      by (subst scan_all.simps) simp
  qed
qed

text \<open>The state right after \<open>open\<close>: the first item has not been returned yet.\<close>

lemma scan_all_opened:
  assumes "current_frame s = Some p" "\<not> first_emitted s" "iter_index s = int i" "i < length (items (pages t p))"
    and "\<not> touch_end t s"
    and "leaf_chain (pages t) (p # ps)" "BP_INVALID_PAGE_NUM \<notin> set ps"
    and "\<forall>q\<in>set ps. get_page q t = SUCCESS \<and> items (pages t q) \<noteq> []"
  shows "scan_all t s [] = Some (SUCCESS, map snd (takeWhile (\<lambda>it. \<not> beyond t (right_key s) it)
    (drop i (items (pages t p)) @ concat (map (items \<circ> pages t) ps))))"
proof -
  let ?it = "items (pages t p) ! i" and ?s1 = "s\<lparr>first_emitted := True\<rparr>"
  have ne: "next_entry t s = Some (SUCCESS, Some (snd ?it), ?s1)"
    using assms(1-3) by (subst next_entry.simps) (simp add: fetch_item_def)
  have nb: "\<not> beyond t (right_key s) ?it"
    using assms(5) touch_end_beyond [OF assms(1), of t] assms(3) by simp
  have "scan_rest t ?s1 (drop (Suc i) (items (pages t p)) @ concat (map (items \<circ> pages t) ps))"
    unfolding scan_rest_def
    by (rule exI [of _ p], rule exI [of _ ps]) (use assms in \<open>auto simp: nat_add_distrib\<close>)
  from scan_all_rest [OF this, of "[snd ?it]"] show ?thesis
    using ne nb assms(4) by (subst scan_all.simps) (simp add: Cons_nth_drop_Suc [symmetric])
qed

section \<open>Selecting a range\<close>

lemma takeWhile_filter_sorted:
  assumes "\<forall>x\<in>set xs. \<not> P x" and "\<forall>x\<in>set ys. P x"
    and "sorted_wrt (\<lambda>x y. Q y \<longrightarrow> Q x) ys"
  shows "takeWhile Q ys = filter (\<lambda>x. P x \<and> Q x) (xs @ ys)"
proof -
  have "filter (\<lambda>x. P x \<and> Q x) xs = []" using assms(1) by (simp add: filter_empty_conv)
  moreover have "takeWhile Q ys = filter (\<lambda>x. P x \<and> Q x) ys"
    using assms(2,3)
  proof (induction ys)
    case (Cons y ys)
    then show ?case by (cases "Q y") (auto simp: filter_empty_conv)
  qed simp
  ultimately show ?thesis by simp
qed

lemma leaf_chain_append: "leaf_chain pg (ps @ qs) \<Longrightarrow> leaf_chain pg qs"
proof (induction ps)
  case (Cons p ps)
  then show ?case by (cases "ps @ qs") auto
qed simp

text \<open>The leaves of a stored tree are in their pages, and their pages can be read.\<close>

lemma stored_leaves:
  "stored pg par b \<Longrightarrow> (p, its) \<in> set (bt_leaves b) \<Longrightarrow> items (pg p) = its \<and> p \<in> set (bt_pages b)"
proof (induction b arbitrary: par)
  case (BNode q cs)
  then obtain k c where kc: "(k, c) \<in> set cs" "(p, its) \<in> set (bt_leaves c)" "stored pg q c" by auto
  with BNode.IH [OF kc(1), of c q] show ?case by auto
qed simp

lemma tree_ok_leaf:
  assumes "tree_ok t valid b" "(p, its) \<in> set (bt_leaves b)"
  shows "items (pages t p) = its" "its \<noteq> []" "get_page p t = SUCCESS" "p \<noteq> BP_INVALID_PAGE_NUM"
  using assms stored_leaves [of "pages t" BP_INVALID_PAGE_NUM b p its]
  by (auto simp: tree_ok_def get_page_def BP_INVALID_PAGE_NUM_def)

lemma leaf_items_from:
  assumes "tree_ok t valid b" "bt_leaves b = ls @ (p, its) # rs"
  shows "bt_items b = concat (map snd ls) @ its @ concat (map (items \<circ> pages t) (map fst rs))"
    "leaf_chain (pages t) (p # map fst rs)" "BP_INVALID_PAGE_NUM \<notin> set (map fst rs)"
    "\<forall>q\<in>set (map fst rs). get_page q t = SUCCESS \<and> items (pages t q) \<noteq> []"
proof -
  have leaf: "(q, jts) \<in> set (ls @ (p, its) # rs) \<Longrightarrow> items (pages t q) = jts \<and> jts \<noteq> [] \<and>
      get_page q t = SUCCESS \<and> q \<noteq> BP_INVALID_PAGE_NUM" for q jts
    using tree_ok_leaf [OF assms(1)] assms(2) by simp
  have "map (items \<circ> pages t) (map fst rs) = map snd rs"
    unfolding map_map by (rule map_cong) (use leaf in fastforce)+
  then show "bt_items b = concat (map snd ls) @ its @ concat (map (items \<circ> pages t) (map fst rs))"
    by (simp add: bt_items_def assms(2) del: map_map)
  show "leaf_chain (pages t) (p # map fst rs)"
  proof (rule leaf_chain_append)
    have "leaf_chain (pages t) (map fst (bt_leaves b))" using assms(1) by (simp add: tree_ok_def)
    then show "leaf_chain (pages t) (map fst ls @ p # map fst rs)" by (simp add: assms(2))
  qed
  have "q \<noteq> BP_INVALID_PAGE_NUM" "get_page q t = SUCCESS \<and> items (pages t q) \<noteq> []" if "q \<in> set (map fst rs)" for q
  proof -
    from that obtain jts where "(q, jts) \<in> set rs" by auto
    from leaf [of q jts] this show "q \<noteq> BP_INVALID_PAGE_NUM" "get_page q t = SUCCESS \<and> items (pages t q) \<noteq> []" by auto
  qed
  then show "BP_INVALID_PAGE_NUM \<notin> set (map fst rs)"
    "\<forall>q\<in>set (map fst rs). get_page q t = SUCCESS \<and> items (pages t q) \<noteq> []" by blast+
qed

text \<open>
  A start position: everything before it fails the left condition, everything from it on meets it.
\<close>

definition starts_at :: "btree \<Rightarrow> bt \<Rightarrow> (IKey \<Rightarrow> bool) \<Rightarrow> (PageNum \<times> int) option \<Rightarrow> bool" where
  "starts_at t b P pos \<longleftrightarrow> (case pos of
     None \<Rightarrow> \<forall>it\<in>set (bt_items b). \<not> P (fst it)
   | Some (p, i) \<Rightarrow> \<exists>j ps xs. i = int j \<and> j < length (items (pages t p))
       \<and> leaf_chain (pages t) (p # ps) \<and> BP_INVALID_PAGE_NUM \<notin> set ps
       \<and> (\<forall>q\<in>set ps. get_page q t = SUCCESS \<and> items (pages t q) \<noteq> [])
       \<and> bt_items b = xs @ drop j (items (pages t p)) @ concat (map (items \<circ> pages t) ps)
       \<and> (\<forall>it\<in>set xs. \<not> P (fst it))
       \<and> (\<forall>it\<in>set (drop j (items (pages t p)) @ concat (map (items \<circ> pages t) ps)). P (fst it)))"

lemma starts_atI:
  assumes "bt_items b = xs @ drop j (items (pages t p)) @ concat (map (items \<circ> pages t) ps)"
    and "j < length (items (pages t p))" "leaf_chain (pages t) (p # ps)" "BP_INVALID_PAGE_NUM \<notin> set ps"
    and "\<forall>q\<in>set ps. get_page q t = SUCCESS \<and> items (pages t q) \<noteq> []"
    and "\<And>it. it \<in> set xs \<Longrightarrow> \<not> P (fst it)"
    and "\<And>it. it \<in> set (drop j (items (pages t p))) \<Longrightarrow> P (fst it)"
    and "\<And>it. it \<in> set (concat (map (items \<circ> pages t) ps)) \<Longrightarrow> P (fst it)"
  shows "starts_at t b P (Some (p, int j))"
  unfolding starts_at_def option.case prod.case
  by (rule exI [of _ j], rule exI [of _ ps], rule exI [of _ xs])
    (intro conjI ballI, use assms in \<open>auto simp only: set_append\<close>)

context index_order
begin

text \<open>
  From any position of the leaf chain where everything before is below the range and nothing after is,
  the walk returns the items of the range.
\<close>

lemma walk_selects:
  assumes "bt_ord cmp valid None None b" "key_comparator t = cmp" "\<forall>r. rk = Some r \<longrightarrow> valid r"
    and "bt_items b = xs @ ys" "\<forall>it\<in>set xs. \<not> P (fst it)" "\<forall>it\<in>set ys. P (fst it)"
  shows "takeWhile (\<lambda>it. \<not> beyond t rk it) ys = filter (\<lambda>it. P (fst it) \<and> \<not> beyond t rk it) (bt_items b)"
proof -
  have asc: "ascending (map fst (xs @ ys))" using bt_items_ascending [OF assms(1)] assms(4) by simp
  then have ys: "sorted_wrt (\<lambda>x y. cmp (fst x) (fst y) < 0) ys" "\<forall>it\<in>set ys. valid (fst it)"
    by (auto simp: ascending_def sorted_wrt_append sorted_wrt_map)
  have "sorted_wrt (\<lambda>x y. \<not> beyond t rk y \<longrightarrow> \<not> beyond t rk x) ys"
  proof (rule sorted_wrt_mono_rel [OF _ ys(1)])
    fix x y
    assume xy: "x \<in> set ys" "y \<in> set ys" "cmp (fst x) (fst y) < 0"
    show "\<not> beyond t rk y \<longrightarrow> \<not> beyond t rk x"
    proof (cases rk)
      case (Some r')
      then show ?thesis
        using cmp_trans [of "fst x" "fst y" r'] xy ys(2) assms(2,3) by (auto simp: beyond_def not_less)
    qed (simp add: beyond_def)
  qed
  then show ?thesis
    using takeWhile_filter_sorted [of xs "\<lambda>it. P (fst it)" ys "\<lambda>it. \<not> beyond t rk it"] assms(4-6) by simp
qed

lemma left_most_loop:
  assumes "stored (pages t) par b" "bt_ord cmp valid lo hi b"
    and "\<forall>p\<in>set (bt_pages b). 0 \<le> p \<and> p < int (page_count t)"
  shows "\<exists>p its rs. find_leaf_loop (internal_value_at 0) t (bt_page b) = Some (Inr p) \<and> bt_leaves b = (p, its) # rs"
  using assms
proof (induction b arbitrary: par lo hi)
  case (BLeaf p its)
  then show ?case by (simp add: find_leaf_loop.simps)
next
  case (BNode p cs)
  have rg: "ranges cmp valid (\<lambda>l u c. bt_ord cmp valid l u c) lo hi cs" using BNode.prems(2) by simp
  then obtain k c cs' where cs: "cs = (k, c) # cs'" by (cases cs) auto
  have ord: "bt_ord cmp valid lo (child_hi hi cs 0) c" using ranges_nth [OF rg, of 0] cs by simp
  have pg: "\<forall>q\<in>set (bt_pages c). 0 \<le> q \<and> q < int (page_count t)" using BNode.prems(3) cs by auto
  then have "get_page (bt_page c) t = SUCCESS" by (cases c) (auto simp: get_page_def)
  moreover obtain q its rs where
    "find_leaf_loop (internal_value_at 0) t (bt_page c) = Some (Inr q)" "bt_leaves c = (q, its) # rs"
    using BNode.IH [of "(k, c)" c p lo, OF _ _ _ ord pg] BNode.prems(1) cs by fastforce
  moreover have "internal_value_at 0 (pages t p) = bt_page c" "\<not> is_leaf (pages t p)"
    using BNode.prems(1) cs by (simp_all add: internal_value_at_def)
  ultimately show ?case using cs by (simp add: find_leaf_loop.simps [of _ t p])
qed

text \<open>The descent for a key ends at the one leaf where it belongs.\<close>

lemma find_leaf_reaches:
  assumes "tree_ok t valid b" "key_comparator t = cmp" "valid key"
  shows "\<exists>ls p its rs. find_leaf key t = Some (Inr p) \<and> bt_leaves b = ls @ (p, its) # rs
    \<and> is_leaf (pages t p) \<and> items (pages t p) = its
    \<and> (\<forall>(q, jts)\<in>set ls. \<forall>k\<in>fst ` set jts. cmp k key < 0)
    \<and> (\<forall>(q, jts)\<in>set rs. \<forall>k\<in>fst ` set jts. cmp key k < 0)"
proof -
  have ok: "stored (pages t) BP_INVALID_PAGE_NUM b" "bt_ord cmp valid None None b"
    "\<forall>p\<in>set (bt_pages b). 0 \<le> p \<and> p < int (page_count t)"
    "root_page (file_header t) = bt_page b" "bt_page b \<noteq> BP_INVALID_PAGE_NUM"
    using assms(1,2) by (auto simp: tree_ok_def)
  have "get_page (bt_page b) t = SUCCESS" using ok(3) by (cases b) (auto simp: get_page_def)
  then show ?thesis
    using find_leaf_loop_correct [OF ok(1,2) _ _ assms(3) _ _ ok(3)] ok(4,5) assms(2)
    by (simp add: find_leaf_def find_leaf_internal_def is_empty_def above_def below_def)
qed

lemma left_most_reaches:
  assumes "tree_ok t valid b" "key_comparator t = cmp"
  shows "\<exists>p its rs. left_most_page t = Some (Inr p) \<and> bt_leaves b = (p, its) # rs"
proof -
  have ok: "stored (pages t) BP_INVALID_PAGE_NUM b" "bt_ord cmp valid None None b"
    "\<forall>p\<in>set (bt_pages b). 0 \<le> p \<and> p < int (page_count t)"
    "root_page (file_header t) = bt_page b" "bt_page b \<noteq> BP_INVALID_PAGE_NUM"
    using assms by (auto simp: tree_ok_def)
  have "get_page (bt_page b) t = SUCCESS" using ok(3) by (cases b) (auto simp: get_page_def)
  then show ?thesis
    using left_most_loop [OF ok(1-3)] ok(4,5)
    by (simp add: left_most_page_def find_leaf_internal_def is_empty_def)
qed

abbreviation from_left :: "btree \<Rightarrow> bound option \<Rightarrow> IKey \<Rightarrow> bool" where
  "from_left t left k \<equiv> (case left of None \<Rightarrow> True | Some bd \<Rightarrow> cmp k (scan_left_key t bd) \<ge> 0)"

lemma scan_start_all:
  assumes "tree_ok t valid b" "key_comparator t = cmp"
  shows "\<exists>pos. scan_start t None = Some (Inr pos) \<and> starts_at t b (from_left t None) pos"
proof -
  obtain p its rs where p: "left_most_page t = Some (Inr p)" "bt_leaves b = [] @ (p, its) # rs"
    using left_most_reaches [OF assms] by auto
  note frm = leaf_items_from [OF assms(1) p(2)] and leaf = tree_ok_leaf [OF assms(1), of p its]
  have "starts_at t b (from_left t None) (Some (p, int 0))"
    by (rule starts_atI [where ps = "map fst rs" and xs = "[]"]) (use frm leaf p(2) in simp_all)
  then show ?thesis using p(1) by (auto simp: scan_start_def)
qed

lemma scan_start_from:
  assumes "tree_ok t valid b" "key_comparator t = cmp" "valid (scan_left_key t bd)"
  shows "\<exists>pos. scan_start t (Some bd) = Some (Inr pos) \<and> starts_at t b (from_left t (Some bd)) pos"
proof -
  let ?key = "scan_left_key t bd" and ?P = "from_left t (Some bd)"
  obtain ls p its rs where p: "find_leaf ?key t = Some (Inr p)" "bt_leaves b = ls @ (p, its) # rs"
    "items (pages t p) = its" "\<forall>(q, jts)\<in>set ls. \<forall>k\<in>fst ` set jts. cmp k ?key < 0"
    "\<forall>(q, jts)\<in>set rs. \<forall>k\<in>fst ` set jts. cmp ?key k < 0"
    using find_leaf_reaches [OF assms] by (elim exE conjE) (rule that)
  note frm = leaf_items_from [OF assms(1) p(2)]
  obtain i found where lb: "lower_bound cmp (map fst its) ?key = (i, found)" by force
  have ord: "bt_ord cmp valid None None b" using assms(1,2) by (simp add: tree_ok_def)
  have asc_all: "ascending (map fst (bt_items b))" using bt_items_ascending [OF ord] by simp
  then have asc: "ascending (map fst its)" unfolding frm(1) by (simp add: ascending_append)
  note pos = lower_bound_spec(1) [OF asc assms(3) lb]
  have i: "i \<le> length its" using pos by (simp add: lb_pos_def)
  have before: "\<not> ?P (fst it)" if "it \<in> set (concat (map snd ls) @ take i its)" for it
  proof (cases "it \<in> set (take i its)")
    case True
    then have "fst it \<in> set (take i (map fst its))" by (simp add: take_map)
    from lb_pos_take [OF pos this] show ?thesis by simp
  next
    case False
    with that p(4) show ?thesis by fastforce
  qed
  have right: "?P (fst it)" if "it \<in> set (concat (map (items \<circ> pages t) (map fst rs)))" for it
  proof -
    from that obtain q jts where q: "(q, jts) \<in> set rs" "it \<in> set (items (pages t q))" by auto
    then have "it \<in> set jts" using tree_ok_leaf(1) [OF assms(1), of q jts] p(2) by simp
    moreover from this have "fst it \<in> set (map fst (bt_items b))" using q(1) p(2) by (force simp: bt_items_def)
    ultimately show ?thesis
      using p(5) q(1) cmp_flip [of ?key "fst it"] ascending_valid [OF asc_all] assms(3) by fastforce
  qed
  have here: "?P (fst it)" if "it \<in> set (drop i its)" for it
  proof -
    have "fst it \<in> set (drop i (map fst its))" using that by (simp add: drop_map)
    from lb_pos_drop [OF pos this] show ?thesis by simp
  qed
  have look: "leaf_lookup (key_comparator t) ?key (pages t p) = (i, found)"
    using lb p(3) assms(2) by (simp add: leaf_lookup_def)
  show ?thesis
  proof (cases "i < length its")
    case True
    have "starts_at t b ?P (Some (p, int i))"
    proof (rule starts_atI [where ps = "map fst rs"])
      show "bt_items b = (concat (map snd ls) @ take i its) @
          drop i (items (pages t p)) @ concat (map (items \<circ> pages t) (map fst rs))"
        using frm(1) p(3) by simp
      show "?P (fst it)" if "it \<in> set (drop i (items (pages t p)))" for it
        using here [of it] that p(3) by simp
    qed (use True frm(2-4) p(3) before right in blast)+
    moreover have "scan_start t (Some bd) = Some (Inr (Some (p, int i)))"
      using True p(1,3) look by (simp add: scan_start_def)
    ultimately show ?thesis by blast
  next
    case False
    then have i: "i = length its" using i by simp
    show ?thesis
    proof (cases rs)
      case Nil
      have "starts_at t b ?P None"
        using frm(1) before i Nil by (simp add: starts_at_def)
      moreover have "scan_start t (Some bd) = Some (Inr None)"
        using i p(1,3) look frm(2) Nil by (simp add: scan_start_def)
      ultimately show ?thesis by blast
    next
      case (Cons x rs')
      obtain q jts where x: "x = (q, jts)" by force
      have q: "items (pages t q) = jts" "jts \<noteq> []" "get_page q t = SUCCESS" "q \<noteq> BP_INVALID_PAGE_NUM"
        using tree_ok_leaf [OF assms(1), of q jts] p(2) Cons x by auto
      have "starts_at t b ?P (Some (q, int 0))"
      proof (rule starts_atI [where ps = "map fst rs'"])
        show "bt_items b = (concat (map snd ls) @ its) @
            drop 0 (items (pages t q)) @ concat (map (items \<circ> pages t) (map fst rs'))"
          using frm(1) Cons x by simp
        show "\<not> ?P (fst it)" if "it \<in> set (concat (map snd ls) @ its)" for it
          using before [of it] that i by simp
        show "?P (fst it)" if "it \<in> set (drop 0 (items (pages t q)))" for it
          using right [of it] that Cons x by simp
        show "?P (fst it)" if "it \<in> set (concat (map (items \<circ> pages t) (map fst rs')))" for it
          using right [of it] that Cons x by simp
      qed (use q frm(2-4) Cons x in auto)
      moreover have "scan_start t (Some bd) = Some (Inr (Some (q, 0)))"
        using i p(1,3) look frm(2) Cons x q by (simp add: scan_start_def)
      ultimately show ?thesis by auto
    qed
  qed
qed

text \<open>A scan returns the items of its range, in key order, and then stops.\<close>

lemma scan_selects:
  assumes "tree_ok t valid b" "key_comparator t = cmp" "\<not> scan_range_invalid acmp left right"
    and "\<forall>bd. left = Some bd \<longrightarrow> valid (scan_left_key t bd)"
    and "\<forall>bd. right = Some bd \<longrightarrow> valid (scan_right_key t bd)"
  shows "\<exists>s. scanner_open acmp t left right new_scanner = Some (SUCCESS, s) \<and>
    scan_all t s [] = Some (SUCCESS, map snd (filter (\<lambda>it. from_left t left (fst it) \<and>
      \<not> beyond t (map_option (scan_right_key t) right) it) (bt_items b)))"
proof -
  let ?P = "from_left t left" and ?rk = "map_option (scan_right_key t) right"
  have rk: "\<forall>r. ?rk = Some r \<longrightarrow> valid r" using assms(5) by auto
  have ord: "bt_ord cmp valid None None b" using assms(1,2) by (simp add: tree_ok_def)
  obtain pos where pos: "scan_start t left = Some (Inr pos)" "starts_at t b ?P pos"
  proof (cases left)
    case None
    with scan_start_all [OF assms(1,2)] that show ?thesis by auto
  next
    case (Some bd)
    with scan_start_from [OF assms(1,2), of bd] assms(4) that show ?thesis by auto
  qed
  show ?thesis
  proof (cases pos)
    case None
    then have "filter (\<lambda>it. ?P (fst it) \<and> \<not> beyond t ?rk it) (bt_items b) = []"
      using pos(2) by (simp add: starts_at_def filter_empty_conv)
    with None pos(1) assms(3) show ?thesis
      by (simp add: scanner_open_def new_scanner_def scan_all.simps next_entry.simps)
  next
    case (Some pi)
    then obtain p i where pi: "pos = Some (p, i)" by (cases pi) auto
    obtain j ps xs where st: "i = int j" "j < length (items (pages t p))" "leaf_chain (pages t) (p # ps)"
      "BP_INVALID_PAGE_NUM \<notin> set ps" "\<forall>q\<in>set ps. get_page q t = SUCCESS \<and> items (pages t q) \<noteq> []"
      "bt_items b = xs @ drop j (items (pages t p)) @ concat (map (items \<circ> pages t) ps)"
      "\<forall>it\<in>set xs. \<not> ?P (fst it)"
      "\<forall>it\<in>set (drop j (items (pages t p)) @ concat (map (items \<circ> pages t) ps)). ?P (fst it)"
      using pos(2) unfolding pi starts_at_def option.case prod.case by blast
    let ?s = "new_scanner\<lparr>inited := True, first_emitted := False, current_frame := Some p, iter_index := i, right_key := ?rk\<rparr>"
    note sel = walk_selects [OF ord assms(2) rk st(6-8)]
    have op: "scanner_open acmp t left right new_scanner =
        Some (SUCCESS, if touch_end t ?s then ?s\<lparr>current_frame := None\<rparr> else ?s)"
      using pos(1) pi assms(3) by (simp add: scanner_open_def new_scanner_def Let_def)
    show ?thesis
    proof (cases "touch_end t ?s")
      case True
      then have "beyond t ?rk (items (pages t p) ! j)" using touch_end_beyond [of ?s p t] st(1) by simp
      then have "takeWhile (\<lambda>it. \<not> beyond t ?rk it) (drop j (items (pages t p)) @ concat (map (items \<circ> pages t) ps)) = []"
        using st(2) by (simp add: Cons_nth_drop_Suc [symmetric])
      then show ?thesis using op True sel by (simp add: scan_all.simps next_entry.simps)
    next
      case False
      have "scan_all t ?s [] = Some (SUCCESS, map snd (takeWhile (\<lambda>it. \<not> beyond t ?rk it)
          (drop j (items (pages t p)) @ concat (map (items \<circ> pages t) ps))))"
        using scan_all_opened [of ?s p j t ps] st False by simp
      then show ?thesis using op False sel by simp
    qed
  qed
qed

end

section \<open>Lookups and scans of an index\<close>

text \<open>The keys a full-length user key is turned into at the two ends of a scan.\<close>

lemma scan_keys_full:
  assumes "length ukey = attr_length (file_header t)"
  shows "scan_left_key t (ukey, length ukey, True) = \<lparr>user_key = ukey, key_rid = RID_min\<rparr>"
    "scan_right_key t (ukey, length ukey, True) = \<lparr>user_key = ukey, key_rid = RID_max\<rparr>"
  using assms by (simp_all add: scan_left_key_def scan_right_key_def fix_user_key_def make_key_def)

lemma index_key_ends:
  "length ukey = len \<Longrightarrow> index_key len \<lparr>user_key = ukey, key_rid = RID_min\<rparr>"
  "length ukey = len \<Longrightarrow> index_key len \<lparr>user_key = ukey, key_rid = RID_max\<rparr>"
  by (simp_all add: ikey_ok_def rid_ok_def RID_min_def RID_max_def)

lemma between_ends:
  assumes "rid_ok (key_rid k)"
  shows "KeyComparator acmp k \<lparr>user_key = u, key_rid = RID_min\<rparr> \<ge> 0
      \<and> \<not> KeyComparator acmp k \<lparr>user_key = u, key_rid = RID_max\<rparr> > 0 \<longleftrightarrow> acmp (user_key k) u = 0"
proof -
  have ends: "rid_ok RID_min" "rid_ok RID_max" by (simp_all add: rid_ok_def RID_min_def RID_max_def)
  have "RID_compare (key_rid k) RID_min \<ge> 0" "RID_compare (key_rid k) RID_max \<le> 0"
    unfolding RID_compare_exact [OF assms ends(1)] RID_compare_exact [OF assms ends(2)]
    using assms by (auto simp: rid_ok_def RID_min_def RID_max_def)
  then show ?thesis by (auto simp: KeyComparator_def Let_def)
qed

lemma attr_refl: "index_type ty \<Longrightarrow> length u = len \<Longrightarrow> AttrComparator fsub ty len u u = 0"
  using int_attr.a.cmp_refl [of u len] date_attr.a.cmp_refl [of u len] char_attr.a.cmp_refl [of u len]
  by (auto simp: index_type_def)

text \<open>
  On a well-formed index the descent terminates and ends in a leaf of the tree; all keys of the leaves
  to its left are smaller than the searched key, all keys of the leaves to its right are greater.
\<close>

lemma find_leaf_correct:
  assumes "index_type ty" "key_comparator t = index_cmp fsub ty len"
    and "tree_ok t (index_key len) b" "index_key len key"
  shows "\<exists>ls p its rs. find_leaf key t = Some (Inr p) \<and> bt_leaves b = ls @ (p, its) # rs
    \<and> is_leaf (pages t p) \<and> items (pages t p) = its
    \<and> (\<forall>(q, jts)\<in>set ls. \<forall>k\<in>fst ` set jts. index_cmp fsub ty len k key < 0)
    \<and> (\<forall>(q, jts)\<in>set rs. \<forall>k\<in>fst ` set jts. index_cmp fsub ty len key k < 0)"
  using index_order.find_leaf_reaches [OF index_order_of_type [OF assms(1)] assms(3,2,4)] .

text \<open>
  \<open>get_entry\<close> on a well-formed index terminates with success and returns exactly the record ids of the
  entries whose attribute value equals the searched one, in index order.
\<close>

lemma get_entry_correct:
  assumes "index_type ty" "key_comparator t = index_cmp fsub ty len" "attr_length (file_header t) = len"
    and "tree_ok t (index_key len) b" "length ukey = len"
  shows "get_entry (AttrComparator fsub ty len) t ukey len =
    Some (SUCCESS, map snd (filter (\<lambda>(k, v). AttrComparator fsub ty len (user_key k) ukey = 0) (bt_items b)))"
proof -
  note ord = index_order_of_type [OF assms(1), of fsub len]
  let ?acmp = "AttrComparator fsub ty len" and ?bd = "(ukey, len, True)"
  note keys = scan_keys_full [of ukey t, unfolded assms(3,5), OF refl]
  have ok: "\<not> scan_range_invalid ?acmp (Some ?bd) (Some ?bd)"
    using attr_refl [OF assms(1), of ukey len] assms(5) by (simp add: scan_range_invalid_def)
  have valid: "\<forall>bd. Some ?bd = Some bd \<longrightarrow> index_key len (scan_left_key t bd)"
    "\<forall>bd. Some ?bd = Some bd \<longrightarrow> index_key len (scan_right_key t bd)"
    using index_key_ends [OF assms(5)] keys by simp_all
  have bt: "bt_ord (index_cmp fsub ty len) (index_key len) None None b"
    using assms(2,4) by (simp add: tree_ok_def)
  have asc: "key_ascending (index_cmp fsub ty len) (index_key len) (map fst (bt_items b))"
    using index_order.bt_items_ascending [OF ord bt] by simp
  have sel: "index_cmp fsub ty len (fst it) (scan_left_key t ?bd) \<ge> 0 \<and>
      \<not> beyond t (map_option (scan_right_key t) (Some ?bd)) it \<longleftrightarrow> ?acmp (user_key (fst it)) ukey = 0"
    if "it \<in> set (bt_items b)" for it
  proof -
    have "rid_ok (key_rid (fst it))" using asc that by (simp add: key_ascending_def ikey_ok_def)
    from between_ends [OF this, of ?acmp ukey] show ?thesis
      by (simp only: keys beyond_def option.map option.case assms(2))
  qed
  have "filter (\<lambda>it. index_cmp fsub ty len (fst it) (scan_left_key t ?bd) \<ge> 0 \<and>
        \<not> beyond t (map_option (scan_right_key t) (Some ?bd)) it) (bt_items b)
      = filter (\<lambda>(k, v). ?acmp (user_key k) ukey = 0) (bt_items b)"
    by (rule filter_cong) (use sel in auto)
  then show ?thesis
    using index_order.scan_selects [OF ord assms(4,2) ok valid] by (auto simp: get_entry_def)
qed

text \<open>
  Bounds of full length: the left key is at or after the record ids of the value when the bound is
  excluded, before them when it is included; the right key the other way round.
\<close>

definition within_bounds :: "(byte list \<Rightarrow> byte list \<Rightarrow> int) \<Rightarrow> bound option \<Rightarrow> bound option \<Rightarrow> byte list \<Rightarrow> bool" where
  "within_bounds acmp left right u \<longleftrightarrow>
     (case left of None \<Rightarrow> True | Some (lk, _, li) \<Rightarrow> acmp u lk > 0 \<or> li \<and> acmp u lk = 0) \<and>
     (case right of None \<Rightarrow> True | Some (rk, _, ri) \<Rightarrow> acmp u rk < 0 \<or> ri \<and> acmp u rk = 0)"

definition full_bound :: "nat \<Rightarrow> bound option \<Rightarrow> bool" where
  "full_bound len bd \<longleftrightarrow> (case bd of None \<Rightarrow> True | Some (k, n, i) \<Rightarrow> n = len \<and> length k = len)"

text \<open>Record ids of stored records: never on the header page, never the largest page number.\<close>

definition record_rid :: "RID \<Rightarrow> bool" where
  "record_rid r \<longleftrightarrow> rid_ok r \<and> 0 < page_num r \<and> page_num r < 2 ^ 31 - 1"

lemma scan_keys_bound:
  assumes "length k = attr_length (file_header t)"
  shows "scan_left_key t (k, length k, i) = \<lparr>user_key = k, key_rid = if i then RID_min else RID_max\<rparr>"
    "scan_right_key t (k, length k, i) = \<lparr>user_key = k, key_rid = if i then RID_max else RID_min\<rparr>"
  using assms by (simp_all add: scan_left_key_def scan_right_key_def fix_user_key_def make_key_def)

lemma record_rid_ends:
  assumes "record_rid r"
  shows "RID_compare r RID_min > 0" "RID_compare r RID_max < 0"
proof -
  have ok: "rid_ok r" "rid_ok RID_min" "rid_ok RID_max"
    using assms by (simp_all add: record_rid_def rid_ok_def RID_min_def RID_max_def)
  show "RID_compare r RID_min > 0" "RID_compare r RID_max < 0"
    unfolding RID_compare_exact [OF ok(1,2)] RID_compare_exact [OF ok(1,3)]
    using assms by (auto simp: record_rid_def rid_ok_def RID_min_def RID_max_def)
qed

lemma scan_ends:
  assumes "record_rid (key_rid k)"
  shows "KeyComparator acmp k \<lparr>user_key = u, key_rid = if i then RID_min else RID_max\<rparr> \<ge> 0
      \<longleftrightarrow> acmp (user_key k) u > 0 \<or> i \<and> acmp (user_key k) u = 0"
    and "\<not> KeyComparator acmp k \<lparr>user_key = u, key_rid = if i then RID_max else RID_min\<rparr> > 0
      \<longleftrightarrow> acmp (user_key k) u < 0 \<or> i \<and> acmp (user_key k) u = 0"
  using record_rid_ends [OF assms] by (auto simp: KeyComparator_def Let_def)


section \<open>A concrete index\<close>

definition ex_item :: "int \<Rightarrow> item" where
  "ex_item v = (ex_key v, RidV \<lparr>page_num = 1, slot_num = v\<rparr>)"

definition ex_bt :: bt where
  "ex_bt = BNode 4 [(ex_key 0, BLeaf 2 [ex_item 3, ex_item 8]), (ex_key 10, BLeaf 3 [ex_item 10, ex_item 12])]"

definition ex_tree :: btree where
  "ex_tree = ex_leaf_tree
     \<lparr>file_header := (file_header ex_leaf_tree)\<lparr>root_page := 4\<rparr>, page_count := 5,
      pages := (\<lambda>p. if p = 2 then \<lparr>is_leaf = True, parent = 4, next_brother = 3, items = [ex_item 3, ex_item 8]\<rparr>
               else if p = 3 then \<lparr>is_leaf = True, parent = 4, next_brother = -1, items = [ex_item 10, ex_item 12]\<rparr>
               else if p = 4 then \<lparr>is_leaf = False, parent = -1, next_brother = 0,
                                   items = [(ex_key 0, PageV 2), (ex_key 10, PageV 3)]\<rparr>
               else zero_node)\<rparr>"

lemma ex_tree_ok: "tree_ok ex_tree (index_key 4) ex_bt"
  by (simp add: tree_ok_def ex_tree_def ex_leaf_tree_def ex_bt_def ex_item_def key_ascending_def
      above_def below_def strictly_above_def BP_INVALID_PAGE_NUM_def)

lemma ex_tree_header [simp]:
  "key_comparator ex_tree = index_cmp (\<lambda>_ _. None) INTS 4" "attr_length (file_header ex_tree) = 4"
  by (simp_all add: ex_tree_def ex_leaf_tree_def)

lemma ex_items: "bt_items ex_bt = [ex_item 3, ex_item 8, ex_item 10, ex_item 12]"
  by (simp add: ex_bt_def bt_items_def)

lemma ex_attr [simp]:
  "int32 v \<Longrightarrow> int32 w \<Longrightarrow> compare_int (user_key (ex_key v)) (int_to_bytes 4 w) =
    (if v > w then 1 else if v < w then -1 else 0)"
  by (simp add: ex_key_def compare_int_def int32_roundtrip)


end
