(* ===== verification/BplusPath.thy ===== *)
theory BplusPath
  imports BplusScan "HOL-Library.Multiset"
begin

text \<open>
  The invariant of an index under insertion and deletion, and paths into the tree. A tree is balanced, its nodes
  hold no more items than a page may and, except for the root, at least half as many; the first key of an
  internal node is the separator its parent has for it, so that it stays right when a merge or a redistribution
  turns it into a separator of another node. A path is the list of the nodes above a subtree, innermost first,
  each with the children to the left and to the right; plugging a subtree into a path gives the tree.
\<close>

section \<open>Well-formed trees\<close>

fun wf :: "(IKey \<Rightarrow> IKey \<Rightarrow> int) \<Rightarrow> (IKey \<Rightarrow> bool) \<Rightarrow> IndexFileHeader \<Rightarrow> nat \<Rightarrow> IKey option \<Rightarrow> IKey option \<Rightarrow> bt \<Rightarrow> bool" where
  "wf cmp valid h n lo hi (BLeaf p its) \<longleftrightarrow> n = 0 \<and> int (length its) \<le> leaf_max_size h \<and>
     key_ascending cmp valid (map fst its) \<and> (\<forall>k\<in>fst ` set its. above cmp lo k \<and> below cmp hi k)"
| "wf cmp valid h n lo hi (BNode p cs) \<longleftrightarrow> 0 < n \<and> int (length cs) \<le> internal_max_size h \<and>
     (\<forall>l. lo = Some l \<longrightarrow> fst (hd cs) = l) \<and> ranges cmp valid (\<lambda>l u c. wf cmp valid h (n - 1) l u c) lo hi cs"

fun filled :: "IndexFileHeader \<Rightarrow> bt \<Rightarrow> bool" where
  "filled h (BLeaf p its) \<longleftrightarrow> leaf_max_size h div 2 \<le> int (length its)"
| "filled h (BNode p cs) \<longleftrightarrow> internal_max_size h div 2 \<le> int (length cs) \<and> (\<forall>(k, c)\<in>set cs. filled h c)"

fun root_filled :: "IndexFileHeader \<Rightarrow> bt \<Rightarrow> bool" where
  "root_filled h (BLeaf p its) \<longleftrightarrow> its \<noteq> []"
| "root_filled h (BNode p cs) \<longleftrightarrow> 2 \<le> length cs \<and> (\<forall>(k, c)\<in>set cs. filled h c)"

fun bt_height :: "bt \<Rightarrow> nat" where
  "bt_height (BLeaf p its) = 0"
| "bt_height (BNode p []) = 0"
| "bt_height (BNode p (e # cs)) = Suc (bt_height (snd e))"

text \<open>The sizes the index is created with leave room for the argument below.\<close>

definition sizes_ok :: "IndexFileHeader \<Rightarrow> bool" where
  "sizes_ok h \<longleftrightarrow> 4 \<le> leaf_max_size h \<and> 6 \<le> internal_max_size h"

definition index_inv :: "btree \<Rightarrow> (IKey \<Rightarrow> bool) \<Rightarrow> bt \<Rightarrow> bool" where
  "index_inv t valid b \<longleftrightarrow> tree_ok t valid b \<and> distinct (bt_pages b) \<and> (\<forall>p\<in>set (bt_pages b). allocated t p) \<and>
     (\<exists>n. wf (key_comparator t) valid (file_header t) n None None b) \<and> root_filled (file_header t) b \<and> sizes_ok (file_header t)"

lemma ranges_mono:
  "ranges cmp valid f lo hi cs \<Longrightarrow> (\<And>k c l u. (k, c) \<in> set cs \<Longrightarrow> f l u c \<Longrightarrow> g l u c) \<Longrightarrow> ranges cmp valid g lo hi cs"
  by (induction cmp valid f lo hi cs rule: ranges.induct) auto

lemma ranges_first: "ranges cmp valid f lo hi ((k, c) # cs) = ranges cmp valid f lo hi ((k', c) # cs)"
  by (cases cs) auto

lemma ranges_all: "ranges cmp valid f lo hi cs \<Longrightarrow> (k, c) \<in> set cs \<Longrightarrow> \<exists>l u. f l u c"
  by (induction cmp valid f lo hi cs rule: ranges.induct) auto

lemma wf_ord: "wf cmp valid h n lo hi b \<Longrightarrow> bt_ord cmp valid lo hi b"
proof (induction b arbitrary: n lo hi)
  case (BNode p cs)
  then have "ranges cmp valid (\<lambda>l u c. wf cmp valid h (n - 1) l u c) lo hi cs" by simp
  then have "ranges cmp valid (\<lambda>l u c. bt_ord cmp valid l u c) lo hi cs" by (rule ranges_mono) (use BNode.IH in auto)
  then show ?case by simp
qed simp

lemma wf_height: "wf cmp valid h n lo hi b \<Longrightarrow> bt_height b = n"
proof (induction b arbitrary: n lo hi rule: bt_height.induct)
  case (3 p e cs)
  then have "ranges cmp valid (wf cmp valid h (n - 1)) lo hi (e # cs)" "0 < n" by auto
  moreover obtain l u where "wf cmp valid h (n - 1) l u (snd e)"
    using ranges_all [OF calculation(1), of "fst e" "snd e"] by auto
  ultimately show ?case using "3.IH" by auto
qed auto

lemma wf_nonempty: "filled h b \<Longrightarrow> sizes_ok h \<Longrightarrow> (p, its) \<in> set (bt_leaves b) \<Longrightarrow> its \<noteq> []"
proof (induction b)
  case (BNode q cs)
  then obtain k c where "(k, c) \<in> set cs" "(p, its) \<in> set (bt_leaves c)" "filled h c" by auto
  with BNode.IH [of "(k, c)" c] BNode.prems(2) show ?case by auto
qed (auto simp: sizes_ok_def)

lemma root_filled_nonempty: "root_filled h b \<Longrightarrow> sizes_ok h \<Longrightarrow> (p, its) \<in> set (bt_leaves b) \<Longrightarrow> its \<noteq> []"
  by (cases b) (use wf_nonempty in fastforce)+

section \<open>Paths\<close>

type_synonym children = "(IKey \<times> bt) list"
type_synonym path = "(PageNum \<times> children \<times> IKey \<times> children) list"

fun plug :: "path \<Rightarrow> bt \<Rightarrow> bt" where
  "plug [] b = b"
| "plug ((p, ls, k, rs) # ctx) b = plug ctx (BNode p (ls @ (k, b) # rs))"

abbreviation child_pages :: "children \<Rightarrow> PageNum list" where
  "child_pages cs \<equiv> concat (map (bt_pages \<circ> snd) cs)"

abbreviation child_leaves :: "children \<Rightarrow> (PageNum \<times> item list) list" where
  "child_leaves cs \<equiv> concat (map (bt_leaves \<circ> snd) cs)"

fun path_pages :: "path \<Rightarrow> PageNum list" where
  "path_pages [] = []"
| "path_pages ((p, ls, k, rs) # ctx) = p # child_pages ls @ child_pages rs @ path_pages ctx"

fun path_left :: "path \<Rightarrow> (PageNum \<times> item list) list" where
  "path_left [] = []"
| "path_left ((p, ls, k, rs) # ctx) = path_left ctx @ child_leaves ls"

fun path_right :: "path \<Rightarrow> (PageNum \<times> item list) list" where
  "path_right [] = []"
| "path_right ((p, ls, k, rs) # ctx) = child_leaves rs @ path_right ctx"

lemma bt_pages_BNode [simp]: "bt_pages (BNode p cs) = p # child_pages cs"
  by (simp add: comp_def split_def)

lemma bt_leaves_BNode [simp]: "bt_leaves (BNode p cs) = child_leaves cs"
  by (simp add: comp_def split_def)

declare bt_pages.simps(2) [simp del] bt_leaves.simps(2) [simp del]

lemma plug_append: "plug (ctx @ ctx') b = plug ctx' (plug ctx b)"
  by (induction ctx b rule: plug.induct) auto

lemma plug_pages: "mset (bt_pages (plug ctx b)) = mset (path_pages ctx @ bt_pages b)"
  by (induction ctx b rule: plug.induct) (auto simp: ac_simps)

lemma plug_leaves: "bt_leaves (plug ctx b) = path_left ctx @ bt_leaves b @ path_right ctx"
  by (induction ctx b rule: plug.induct) auto

lemma plug_pages_distinct: "distinct (bt_pages (plug ctx b)) = distinct (path_pages ctx @ bt_pages b)"
  by (rule mset_eq_imp_distinct_iff [OF plug_pages])

lemma plug_pages_set: "set (bt_pages (plug ctx b)) = set (path_pages ctx) \<union> set (bt_pages b)"
  using mset_eq_setD [OF plug_pages, of ctx b] by simp

lemma bt_page_in [simp]: "bt_page b \<in> set (bt_pages b)"
  by (cases b) auto

section \<open>Stored paths\<close>

abbreviation child_item :: "IKey \<times> bt \<Rightarrow> item" where
  "child_item c \<equiv> (fst c, PageV (bt_page (snd c)))"

fun path_stored :: "(PageNum \<Rightarrow> IndexNode) \<Rightarrow> path \<Rightarrow> PageNum \<Rightarrow> PageNum \<Rightarrow> bool" where
  "path_stored pg [] x par \<longleftrightarrow> par = BP_INVALID_PAGE_NUM"
| "path_stored pg ((p, ls, k, rs) # ctx) x par \<longleftrightarrow> par = p \<and> \<not> is_leaf (pg p) \<and>
     items (pg p) = map child_item ls @ (k, PageV x) # map child_item rs \<and>
     (\<forall>c\<in>set (ls @ rs). stored pg p (snd c)) \<and> path_stored pg ctx p (parent (pg p))"

lemma stored_BNode [simp]:
  "stored pg par (BNode p cs) \<longleftrightarrow> \<not> is_leaf (pg p) \<and> parent (pg p) = par \<and> items (pg p) = map child_item cs \<and>
     (\<forall>c\<in>set cs. stored pg p (snd c))"
  by (auto simp: split_def)

declare stored.simps(2) [simp del]

lemma stored_parent: "stored pg par b \<Longrightarrow> parent (pg (bt_page b)) = par"
  by (cases b) auto

lemma stored_plug: "path_stored pg ctx (bt_page b) par \<Longrightarrow> stored pg par b \<Longrightarrow> stored pg BP_INVALID_PAGE_NUM (plug ctx b)"
proof (induction ctx b arbitrary: par rule: plug.induct)
  case (2 p ls k rs ctx b)
  have "path_stored pg ctx (bt_page (BNode p (ls @ (k, b) # rs))) (parent (pg p))"
    "stored pg (parent (pg p)) (BNode p (ls @ (k, b) # rs))"
    using "2.prems" by auto
  from "2.IH" [OF this] show ?case by simp
qed simp

lemma plug_stored:
  "stored pg BP_INVALID_PAGE_NUM (plug ctx b) \<Longrightarrow> path_stored pg ctx (bt_page b) (parent (pg (bt_page b))) \<and> stored pg (parent (pg (bt_page b))) b"
proof (induction ctx b rule: plug.induct)
  case (1 b)
  then show ?case using stored_parent [of pg _ b] by simp
next
  case (2 p ls k rs ctx b)
  then have IH: "path_stored pg ctx p (parent (pg p))" "stored pg (parent (pg p)) (BNode p (ls @ (k, b) # rs))" by simp_all
  then have "stored pg p b" by simp
  with IH stored_parent [OF this] show ?case by simp
qed

text \<open>The nodes that storing a tree depends on.\<close>

abbreviation same_node :: "IndexNode \<Rightarrow> IndexNode \<Rightarrow> bool" where
  "same_node n m \<equiv> is_leaf n = is_leaf m \<and> parent n = parent m \<and> items n = items m"

lemma stored_cong:
  "stored pg par b \<Longrightarrow> (\<And>p. p \<in> set (bt_pages b) \<Longrightarrow> same_node (pg' p) (pg p)) \<Longrightarrow> stored pg' par b"
proof (induction b arbitrary: par)
  case (BNode p cs)
  have "stored pg' p (snd c)" if c: "c \<in> set cs" for c
  proof (rule BNode.IH [OF c])
    show "snd c \<in> Basic_BNFs.snds c" by (cases c) auto
    show "stored pg p (snd c)" using BNode.prems(1) c by simp
    show "same_node (pg' q) (pg q)" if "q \<in> set (bt_pages (snd c))" for q
      by (rule BNode.prems(2)) (use that c in auto)
  qed
  then show ?case using BNode.prems(1) BNode.prems(2) [of p] by simp
qed auto

lemma stored_reparent:
  assumes "stored pg par b" "distinct (bt_pages b)"
    and "\<And>p. p \<in> set (bt_pages b) \<Longrightarrow> p \<noteq> bt_page b \<Longrightarrow> same_node (pg' p) (pg p)"
    and "is_leaf (pg' (bt_page b)) = is_leaf (pg (bt_page b))" "items (pg' (bt_page b)) = items (pg (bt_page b))"
    and "parent (pg' (bt_page b)) = par'"
  shows "stored pg' par' b"
proof (cases b)
  case (BNode p cs)
  have "stored pg' p (snd c)" if c: "c \<in> set cs" for c
  proof (rule stored_cong)
    show "stored pg p (snd c)" using assms(1) c BNode by simp
    fix q assume "q \<in> set (bt_pages (snd c))"
    then have "q \<in> set (child_pages cs)" using c by auto
    with assms(2) BNode show "same_node (pg' q) (pg q)" by (intro assms(3)) auto
  qed
  then show ?thesis using assms(1,4-6) BNode by simp
qed (use assms in auto)

lemma path_stored_cong:
  "path_stored pg ctx x par \<Longrightarrow> (\<And>p. p \<in> set (path_pages ctx) \<Longrightarrow> same_node (pg' p) (pg p)) \<Longrightarrow> path_stored pg' ctx x par"
proof (induction ctx arbitrary: x par)
  case (Cons e ctx)
  obtain p ls k rs where e: "e = (p, ls, k, rs)" by (cases e)
  have "stored pg' p (snd c)" if c: "c \<in> set (ls @ rs)" for c
  proof (rule stored_cong)
    show "stored pg p (snd c)" using Cons.prems(1) c e by simp
    show "same_node (pg' q) (pg q)" if "q \<in> set (bt_pages (snd c))" for q
      using that c by (intro Cons.prems(2)) (auto simp: e)
  qed
  moreover have "path_stored pg' ctx p (parent (pg p))"
    by (rule Cons.IH) (use Cons.prems e in auto)
  ultimately show ?case using Cons.prems(1) Cons.prems(2) [of p] e by simp
qed simp

section \<open>Well-formed paths\<close>

text \<open>The bounds a node's separators put on a child between \<open>ls\<close> and \<open>rs\<close>.\<close>

definition left_part :: "(IKey \<Rightarrow> IKey \<Rightarrow> int) \<Rightarrow> (IKey \<Rightarrow> bool) \<Rightarrow> (IKey option \<Rightarrow> IKey option \<Rightarrow> bt \<Rightarrow> bool) \<Rightarrow>
    IKey option \<Rightarrow> IKey option \<Rightarrow> children \<Rightarrow> IKey \<Rightarrow> IKey option \<Rightarrow> bool" where
  "left_part cmp valid f lo hi ls k l \<longleftrightarrow>
     (if ls = [] then l = lo
      else l = Some k \<and> valid k \<and> strictly_above cmp lo k \<and> below cmp hi k \<and> ranges cmp valid f lo (Some k) ls)"

definition right_part :: "(IKey \<Rightarrow> IKey \<Rightarrow> int) \<Rightarrow> (IKey \<Rightarrow> bool) \<Rightarrow> (IKey option \<Rightarrow> IKey option \<Rightarrow> bt \<Rightarrow> bool) \<Rightarrow>
    IKey option \<Rightarrow> IKey option \<Rightarrow> children \<Rightarrow> IKey option \<Rightarrow> bool" where
  "right_part cmp valid f l hi rs u \<longleftrightarrow>
     (case rs of [] \<Rightarrow> u = hi
      | e # es \<Rightarrow> u = Some (fst e) \<and> valid (fst e) \<and> strictly_above cmp l (fst e) \<and> below cmp hi (fst e) \<and> ranges cmp valid f (Some (fst e)) hi rs)"

fun path_wf :: "(IKey \<Rightarrow> IKey \<Rightarrow> int) \<Rightarrow> (IKey \<Rightarrow> bool) \<Rightarrow> IndexFileHeader \<Rightarrow> path \<Rightarrow> nat \<Rightarrow> IKey option \<Rightarrow> IKey option \<Rightarrow> bool" where
  "path_wf cmp valid h [] n l u \<longleftrightarrow> l = None \<and> u = None"
| "path_wf cmp valid h ((p, ls, k, rs) # ctx) n l u \<longleftrightarrow>
     (\<exists>lo hi. path_wf cmp valid h ctx (Suc n) lo hi \<and> int (length ls + length rs + 1) \<le> internal_max_size h \<and>
        (\<forall>x. lo = Some x \<longrightarrow> hd (map fst ls @ [k]) = x) \<and>
        left_part cmp valid (wf cmp valid h n) lo hi ls k l \<and> right_part cmp valid (wf cmp valid h n) l hi rs u)"

fun path_filled :: "IndexFileHeader \<Rightarrow> path \<Rightarrow> bool" where
  "path_filled h [] = True"
| "path_filled h ((p, ls, k, rs) # ctx) \<longleftrightarrow> (\<forall>c\<in>set (ls @ rs). filled h (snd c)) \<and>
     (if ctx = [] then 1 \<le> length ls + length rs else internal_max_size h div 2 \<le> int (length ls + length rs + 1)) \<and> path_filled h ctx"

lemma filled_BNode [simp]:
  "filled h (BNode p cs) \<longleftrightarrow> internal_max_size h div 2 \<le> int (length cs) \<and> (\<forall>c\<in>set cs. filled h (snd c))"
  "root_filled h (BNode p cs) \<longleftrightarrow> 2 \<le> length cs \<and> (\<forall>c\<in>set cs. filled h (snd c))"
  by (auto simp: split_def)

declare filled.simps(2) [simp del] root_filled.simps(2) [simp del]

lemma plug_filled:
  "path_filled h ctx \<Longrightarrow> (if ctx = [] then root_filled h b else filled h b) \<Longrightarrow> root_filled h (plug ctx b)"
  by (induction ctx b rule: plug.induct) (auto split: if_splits)

lemma filled_plug:
  "root_filled h (plug ctx b) \<Longrightarrow> path_filled h ctx \<and> (if ctx = [] then root_filled h b else filled h b)"
  by (induction ctx b rule: plug.induct) (auto split: if_splits)

context index_order
begin

lemma ranges_bounds_hd:
  assumes "ranges cmp valid f lo hi ((k, c) # cs)" "bounds_ok lo" "e \<in> set cs"
  shows "valid (fst e)" "strictly_above cmp lo (fst e)" "below cmp hi (fst e)"
  using ranges_separators [OF assms(1,2)] assms(3) ascending_valid by auto

lemma below_less: "bounds_ok hi \<Longrightarrow> valid k \<Longrightarrow> valid l \<Longrightarrow> cmp k l < 0 \<Longrightarrow> below cmp hi l \<Longrightarrow> below cmp hi k"
  by (rule below_trans) auto

lemma ranges_split:
  assumes "bounds_ok lo" "bounds_ok hi" "xs \<noteq> []"
  shows "ranges cmp valid f lo hi (xs @ (k, c) # ys) \<longleftrightarrow>
    ranges cmp valid f lo (Some k) xs \<and> valid k \<and> strictly_above cmp lo k \<and> below cmp hi k \<and> ranges cmp valid f (Some k) hi ((k, c) # ys)"
  using assms(1,3)
proof (induction xs arbitrary: lo rule: induct_list012)
  case (2 x)
  then show ?case by (cases x) auto
next
  case (3 x y xs)
  obtain k1 c1 k2 c2 where xy: "x = (k1, c1)" "y = (k2, c2)" by (cases x, cases y)
  have IH: "ranges cmp valid f (Some k2) hi ((k2, c2) # xs @ (k, c) # ys) \<longleftrightarrow>
    ranges cmp valid f (Some k2) (Some k) ((k2, c2) # xs) \<and> valid k \<and> strictly_above cmp (Some k2) k \<and> below cmp hi k \<and> ranges cmp valid f (Some k) hi ((k, c) # ys)"
    if "valid k2" using "3.IH"(2) [of "Some k2"] that xy by simp
  have "below cmp hi k2" if "valid k2" "valid k" "cmp k2 k < 0" "below cmp hi k" by (rule below_less [OF assms(2) that])
  moreover have "strictly_above cmp lo k" if "valid k2" "valid k" "cmp k2 k < 0" "strictly_above cmp lo k2"
    by (rule strictly_above_trans [OF "3.prems"(1) that(1,2,4)]) (use that(3) in simp)
  moreover have "below cmp (Some k) k2 \<longleftrightarrow> cmp k2 k < 0" "strictly_above cmp (Some k2) k \<longleftrightarrow> cmp k2 k < 0"
    by (simp_all add: below_def strictly_above_def)
  ultimately show ?case
    unfolding xy append_Cons ranges.simps using IH by blast
qed simp

lemma ranges_hole:
  assumes "bounds_ok lo" "bounds_ok hi"
  shows "ranges cmp valid f lo hi (ls @ (k, b) # rs) \<longleftrightarrow>
    (\<exists>l u. left_part cmp valid f lo hi ls k l \<and> right_part cmp valid f l hi rs u \<and> f l u b)"
proof -
  have right: "ranges cmp valid f l hi ((k, b) # rs) \<longleftrightarrow> (\<exists>u. right_part cmp valid f l hi rs u \<and> f l u b)" for l
    by (cases rs) (auto simp: right_part_def)
  show ?thesis
  proof (cases "ls = []")
    case True
    with right [of lo] show ?thesis by (simp add: left_part_def)
  next
    case False
    with ranges_split [OF assms False, of f k b rs] right [of "Some k"] show ?thesis by (auto simp: left_part_def)
  qed
qed

lemma right_part_insert:
  assumes "right_part cmp valid f l hi rs u" "bounds_ok hi" "valid key" "strictly_above cmp l key" "below cmp u key" "f (Some key) u b2"
  shows "right_part cmp valid f l hi ((key, b2) # rs) (Some key)"
proof -
  have hi: "below cmp hi key"
  proof (cases rs)
    case (Cons e es)
    then show ?thesis using assms below_less [of hi key "fst e"] by (auto simp: right_part_def below_def [of cmp "Some _"])
  qed (use assms in \<open>simp add: right_part_def\<close>)
  have "right_part cmp valid f (Some key) hi rs u"
    using assms by (auto simp: right_part_def strictly_above_def below_def split: list.splits)
  then have "ranges cmp valid f (Some key) hi ([] @ (key, b2) # rs)"
    using assms by (subst ranges_hole) (auto simp: left_part_def)
  then show ?thesis using assms hi by (simp add: right_part_def)
qed

lemma left_part_bounds: "left_part cmp valid f lo hi ls k l \<Longrightarrow> bounds_ok lo \<Longrightarrow> bounds_ok l"
  by (auto simp: left_part_def split: if_splits)

lemma right_part_bounds: "right_part cmp valid f l hi rs u \<Longrightarrow> bounds_ok hi \<Longrightarrow> bounds_ok u"
  by (auto simp: right_part_def split: list.splits)

lemma path_wf_bounds: "path_wf cmp valid h ctx n l u \<Longrightarrow> bounds_ok l \<and> bounds_ok u"
proof (induction ctx arbitrary: n l u)
  case (Cons e ctx)
  obtain p ls k rs where e: "e = (p, ls, k, rs)" by (cases e)
  obtain lo hi where *: "path_wf cmp valid h ctx (Suc n) lo hi" "left_part cmp valid (wf cmp valid h n) lo hi ls k l"
    "right_part cmp valid (wf cmp valid h n) l hi rs u"
    using Cons.prems e by auto
  show ?case using left_part_bounds [OF *(2)] right_part_bounds [OF *(3)] Cons.IH [OF *(1)] by blast
qed simp

lemma plug_wf: "path_wf cmp valid h ctx n l u \<Longrightarrow> wf cmp valid h n l u b \<Longrightarrow> \<exists>m. wf cmp valid h m None None (plug ctx b)"
proof (induction ctx b arbitrary: n l u rule: plug.induct)
  case (2 p ls k rs ctx b)
  obtain lo hi where w: "path_wf cmp valid h ctx (Suc n) lo hi" "int (length ls + length rs + 1) \<le> internal_max_size h"
    "\<forall>x. lo = Some x \<longrightarrow> hd (map fst ls @ [k]) = x" "left_part cmp valid (wf cmp valid h n) lo hi ls k l"
    "right_part cmp valid (wf cmp valid h n) l hi rs u"
    using "2.prems"(1) by auto
  have "hd (map fst ls @ [k]) = fst (hd (ls @ (k, b) # rs))" by (cases ls) auto
  moreover have "ranges cmp valid (wf cmp valid h n) lo hi (ls @ (k, b) # rs)"
    using ranges_hole [of lo hi] path_wf_bounds [OF w(1)] w(4,5) "2.prems"(2) by blast
  ultimately have "wf cmp valid h (Suc n) lo hi (BNode p (ls @ (k, b) # rs))" using w(2,3) by simp
  from "2.IH" [OF w(1) this] show ?case by simp
qed auto

section \<open>Finding the path to a key\<close>

lemma lower_bound_between:
  assumes "ascending (xs @ ys)" "valid key" "\<forall>x\<in>set xs. cmp x key < 0" "\<forall>y\<in>set ys. cmp key y < 0"
  shows "lower_bound cmp (xs @ ys) key = (length xs, False)"
proof -
  obtain i found where lb: "lower_bound cmp (xs @ ys) key = (i, found)" by force
  note spec = lower_bound_spec [OF assms(1,2) lb]
  have gr: "cmp y key > 0" if "y \<in> set ys" for y
    using assms(1,2,4) that cmp_flip [of key y] ascending_valid [OF assms(1)] by auto
  have "i \<le> length (xs @ ys)" using spec(1) by (simp add: lb_pos_def)
  moreover have "\<not> i < length xs"
  proof
    assume i: "i < length xs"
    then have "cmp ((xs @ ys) ! i) key \<ge> 0" using spec(1) by (simp add: lb_pos_def)
    moreover have "cmp (xs ! i) key < 0" using assms(3) i by simp
    ultimately show False using i by (simp add: nth_append)
  qed
  moreover have "\<not> length xs < i"
  proof
    assume i: "length xs < i"
    then have "cmp ((xs @ ys) ! length xs) key < 0" using spec(1) by (simp add: lb_pos_def)
    moreover have "length xs < length (xs @ ys)" using i \<open>i \<le> length (xs @ ys)\<close> by (rule less_le_trans)
    ultimately show False using gr [of "ys ! 0"] by (cases ys) (auto simp: nth_append)
  qed
  ultimately have i: "i = length xs" by simp
  have "\<not> found"
  proof
    assume "found"
    then have "i < length (xs @ ys)" "cmp ((xs @ ys) ! i) key = 0" using spec(2) by auto
    then show False using i gr [of "ys ! 0"] by (simp add: nth_append)
  qed
  with i lb show ?thesis by simp
qed

lemma internal_insert_position:
  assumes "node_keys n = map fst ls @ k # map fst rs" "ascending (tl (node_keys n))" "valid key"
    and "\<forall>x\<in>set (tl (map fst ls @ [k])). cmp x key < 0" "\<forall>x\<in>set (map fst rs). cmp key x < 0"
  shows "internal_lookup cmp key n = (length ls, False, Suc (length ls))"
proof -
  have eq: "tl (node_keys n) = tl (map fst ls @ [k]) @ map fst rs" using assms(1) by (cases ls) auto
  have len: "length (tl (map fst ls @ [k])) = length ls" by simp
  have lb: "lower_bound cmp (tl (node_keys n)) key = (length ls, False)"
    using lower_bound_between [OF assms(2) [unfolded eq] assms(3-5)] eq by simp
  have sz: "length (items n) = length ls + length rs + 1" using arg_cong [OF assms(1), of length] by simp
  have "cmp key (node_keys n ! Suc (length ls)) < 0" if "rs \<noteq> []"
    using assms(5) that by (cases rs) (auto simp: assms(1) nth_append)
  then show ?thesis unfolding internal_lookup_def Let_def lb sz by (cases "rs = []") auto
qed

lemma internal_lookup_child:
  assumes "node_keys n = map fst cs" "ascending (tl (map fst cs))" "cs \<noteq> []" "valid key"
  obtains r where "fst (internal_lookup cmp key n) = r" "r < length cs" "0 < r \<longrightarrow> cmp (fst (cs ! r)) key \<le> 0"
    "\<forall>j. r < j \<longrightarrow> j < length cs \<longrightarrow> cmp key (fst (cs ! j)) < 0"
proof -
  obtain i found where lb: "lower_bound cmp (tl (map fst cs)) key = (i, found)" by force
  define r where "r = (if i + 1 \<ge> length (map fst cs) \<or> cmp key (map fst cs ! (i + 1)) < 0 then i else i + 1)"
  have ne: "map fst cs \<noteq> []" using assms(3) by simp
  note rt = separator_lookup [OF assms(2,4) ne lb r_def]
  have len: "length (items n) = length cs" using arg_cong [OF assms(1), of length] by (simp only: length_map)
  have "fst (internal_lookup cmp key n) = r"
  proof -
    have "length cs \<noteq> 0" using assms(3) by simp
    then show ?thesis
      unfolding internal_lookup_def assms(1) len lb Let_def prod.case r_def by (simp split del: if_split cong: if_cong)
  qed
  moreover have "r < length cs" using rt(1) by simp
  moreover have "0 < r \<longrightarrow> cmp (fst (cs ! r)) key \<le> 0" using rt(2) \<open>r < length cs\<close> by simp
  moreover have "\<forall>j. r < j \<longrightarrow> j < length cs \<longrightarrow> cmp key (fst (cs ! j)) < 0" using rt(3) by simp
  ultimately show thesis by (rule that)
qed

lemma find_leaf_loop_path:
  assumes "stored (pages t) par b" "wf cmp valid h n lo hi b" "path_wf cmp valid h ctx0 n lo hi"
    and "valid key" "above cmp lo key" "below cmp hi key" "\<forall>p\<in>set (bt_pages b). 0 \<le> p \<and> p < int (page_count t)"
  shows "\<exists>ctx p its l u.
    find_leaf_loop (\<lambda>n. internal_value_at (fst (internal_lookup cmp key n)) n) t (bt_page b) = Some (Inr p)
    \<and> b = plug ctx (BLeaf p its) \<and> length ctx = n \<and> path_wf cmp valid h (ctx @ ctx0) 0 l u \<and> wf cmp valid h 0 l u (BLeaf p its)
    \<and> above cmp l key \<and> below cmp u key"
  using assms
proof (induction b arbitrary: par n lo hi ctx0)
  case (BLeaf p its)
  then show ?case
    by (intro exI [of _ "[]"] exI [of _ p] exI [of _ its] exI [of _ lo] exI [of _ hi]) (simp add: find_leaf_loop.simps)
next
  case (BNode p cs)
  have bd: "bounds_ok lo" "bounds_ok hi" using path_wf_bounds [OF BNode.prems(3)] by simp_all
  have w: "0 < n" "int (length cs) \<le> internal_max_size h" "\<forall>l. lo = Some l \<longrightarrow> fst (hd cs) = l"
    and rg: "ranges cmp valid (wf cmp valid h (n - 1)) lo hi cs" using BNode.prems(2) by auto
  have ne: "cs \<noteq> []" using rg by auto
  have st: "\<not> is_leaf (pages t p)" "items (pages t p) = map child_item cs" "\<forall>c\<in>set cs. stored (pages t) p (snd c)"
    using BNode.prems(1) by auto
  have ks: "node_keys (pages t p) = map fst cs" using st(2) by simp
  obtain r where r: "fst (internal_lookup cmp key (pages t p)) = r" "r < length cs" "0 < r \<longrightarrow> cmp (fst (cs ! r)) key \<le> 0"
    "\<forall>j. r < j \<longrightarrow> j < length cs \<longrightarrow> cmp key (fst (cs ! j)) < 0"
    by (rule internal_lookup_child [OF ks conjunct1 [OF ranges_separators [OF rg bd(1)]] ne BNode.prems(4)])
  obtain k c where kc: "cs ! r = (k, c)" by force
  have cs: "cs = take r cs @ (k, c) # drop (Suc r) cs" using id_take_nth_drop [OF r(2)] kc by simp
  obtain l u where lu: "left_part cmp valid (wf cmp valid h (n - 1)) lo hi (take r cs) k l"
    "right_part cmp valid (wf cmp valid h (n - 1)) l hi (drop (Suc r) cs) u" "wf cmp valid h (n - 1) l u c"
    using ranges_hole [OF bd, of "wf cmp valid h (n - 1)" "take r cs" k c "drop (Suc r) cs"] rg cs by auto
  let ?e = "(p, take r cs, k, drop (Suc r) cs)"
  have hd: "hd (map fst (take r cs) @ [k]) = fst (hd cs)"
    using kc ne by (cases r; cases cs) auto
  have pw: "path_wf cmp valid h (?e # ctx0) (n - 1) l u"
    unfolding path_wf.simps
    by (rule exI [of _ lo], rule exI [of _ hi]) (use BNode.prems(3) w lu(1,2) hd r(2) in simp)
  have ab: "above cmp l key"
    using lu(1) r(2,3) kc BNode.prems(5) ne by (auto simp: left_part_def above_def split: if_splits)
  have be: "below cmp u key"
  proof (cases "Suc r < length cs")
    case True
    then have "drop (Suc r) cs = cs ! Suc r # drop (Suc (Suc r)) cs" by (simp add: Cons_nth_drop_Suc)
    then show ?thesis using lu(2) r(4) True by (auto simp: right_part_def below_def)
  qed (use lu(2) BNode.prems(6) in \<open>auto simp: right_part_def\<close>)
  have mem: "(k, c) \<in> set cs" using nth_mem [OF r(2)] kc by simp
  have pg: "\<forall>q\<in>set (bt_pages c). 0 \<le> q \<and> q < int (page_count t)" using BNode.prems(7) mem by force
  obtain ctx q its l' u' where IH:
    "find_leaf_loop (\<lambda>n. internal_value_at (fst (internal_lookup cmp key n)) n) t (bt_page c) = Some (Inr q)"
    "c = plug ctx (BLeaf q its)" "length ctx = n - 1" "path_wf cmp valid h (ctx @ ?e # ctx0) 0 l' u'" "wf cmp valid h 0 l' u' (BLeaf q its)"
    "above cmp l' key" "below cmp u' key"
    using BNode.IH [OF mem _ _ lu(3) pw BNode.prems(4) ab be pg] st(3) mem by fastforce
  have "get_page (bt_page c) t = SUCCESS" using pg bt_page_in [of c] by (simp add: get_page_def)
  moreover have "internal_value_at r (pages t p) = bt_page c" using r(2) kc by (simp add: internal_value_at_def st(2))
  ultimately have "find_leaf_loop (\<lambda>n. internal_value_at (fst (internal_lookup cmp key n)) n) t p = Some (Inr q)"
    using st(1) IH(1) r(1) by (subst find_leaf_loop.simps) simp
  moreover have "BNode p cs = plug (ctx @ [?e]) (BLeaf q its)" using IH(2) cs by (simp add: plug_append)
  moreover have "path_wf cmp valid h ((ctx @ [?e]) @ ctx0) 0 l' u'" "length (ctx @ [?e]) = n" using IH(3,4) w(1) by simp_all
  ultimately show ?case using IH(5-7) unfolding bt_page.simps by blast
qed

end

section \<open>Taking the tree apart at a path\<close>

text \<open>
  Everything but the subtree itself: the path is stored, well-formed and filled, its pages and the pages \<open>ps\<close>
  of the hole are different, allocated and in the file, and the leaves are chained, with \<open>lv\<close> those of the hole.
\<close>

definition located :: "btree \<Rightarrow> (IKey \<Rightarrow> bool) \<Rightarrow> path \<Rightarrow> nat \<Rightarrow> IKey option \<Rightarrow> IKey option \<Rightarrow> PageNum \<Rightarrow> PageNum \<Rightarrow>
    PageNum list \<Rightarrow> PageNum list \<Rightarrow> bool" where
  "located t valid ctx n l u x par ps lv \<longleftrightarrow>
     path_stored (pages t) ctx x par \<and> path_wf (key_comparator t) valid (file_header t) ctx n l u \<and> path_filled (file_header t) ctx \<and>
     distinct (path_pages ctx @ ps) \<and> (\<forall>p\<in>set (path_pages ctx @ ps). 0 \<le> p \<and> p < int (page_count t) \<and> allocated t p) \<and>
     root_page (file_header t) = (if ctx = [] then x else fst (last ctx)) \<and>
     leaf_chain (pages t) (map fst (path_left ctx) @ lv @ map fst (path_right ctx)) \<and> sizes_ok (file_header t)"

lemma locatedD:
  assumes "located t valid ctx n l u x par ps lv"
  shows "path_stored (pages t) ctx x par" "path_wf (key_comparator t) valid (file_header t) ctx n l u" "path_filled (file_header t) ctx"
    "distinct (path_pages ctx @ ps)" "p \<in> set (path_pages ctx @ ps) \<Longrightarrow> 0 \<le> p \<and> p < int (page_count t) \<and> allocated t p"
    "root_page (file_header t) = (if ctx = [] then x else fst (last ctx))"
    "leaf_chain (pages t) (map fst (path_left ctx) @ lv @ map fst (path_right ctx))" "sizes_ok (file_header t)"
  using assms unfolding located_def by blast+

lemma plug_page: "bt_page (plug ctx b) = (if ctx = [] then bt_page b else fst (last ctx))"
  by (induction ctx b rule: plug.induct) auto

lemma leaf_chain_cong:
  "leaf_chain pg ps \<Longrightarrow> (\<And>p. p \<in> set ps \<Longrightarrow> next_brother (pg' p) = next_brother (pg p)) \<Longrightarrow> leaf_chain pg' ps"
  by (induction pg ps rule: leaf_chain.induct) auto

lemma stored_leaf_pages: "set (map fst (bt_leaves b)) \<subseteq> set (bt_pages b)"
  by (induction b) (force simp: comp_def)+

lemma child_leaf_pages: "set (map fst (child_leaves cs)) \<subseteq> set (child_pages cs)"
proof (induction cs)
  case (Cons c cs)
  then show ?case using stored_leaf_pages [of "snd c"] by auto
qed simp

lemma path_leaf_pages: "set (map fst (path_left ctx)) \<union> set (map fst (path_right ctx)) \<subseteq> set (path_pages ctx)"
proof (induction ctx rule: path_left.induct)
  case (2 p ls k rs ctx)
  then show ?case
    using child_leaf_pages [of ls] child_leaf_pages [of rs] unfolding path_left.simps path_right.simps path_pages.simps map_append set_append set_simps
    by blast
qed simp

lemma distinct_submset:
  assumes "distinct ys" "mset xs \<subseteq># mset ys"
  shows "distinct xs"
  unfolding distinct_count_atmost_1
proof
  fix a
  have "count (mset xs) a \<le> count (mset ys) a" by (rule mset_subset_eq_count [OF assms(2)])
  also have "\<dots> \<le> 1" using assms(1) by (simp add: distinct_count_atmost_1)
  finally have le: "count (mset xs) a \<le> 1" .
  show "count (mset xs) a = (if a \<in> set xs then 1 else 0)"
  proof (cases "a \<in> set xs")
    case True
    then have "0 < count (mset xs) a" by simp
    with le have "count (mset xs) a = 1" by linarith
    with True show ?thesis by simp
  qed simp
qed

lemma leaf_pages_mset: "mset (map fst (bt_leaves b)) \<subseteq># mset (bt_pages b)"
proof (induction b)
  case (BNode p cs)
  have "mset (map fst (child_leaves ds)) \<subseteq># mset (child_pages ds)" if "set ds \<subseteq> set cs" for ds
    using that
  proof (induction ds)
    case (Cons e ds)
    have "mset (map fst (bt_leaves (snd e))) \<subseteq># mset (bt_pages (snd e))" using BNode.IH [of e "snd e"] Cons.prems by (cases e) auto
    moreover have "mset (map fst (child_leaves ds)) \<subseteq># mset (child_pages ds)" using Cons by (simp add: comp_def)
    ultimately have "mset (map fst (bt_leaves (snd e))) + mset (map fst (child_leaves ds)) \<subseteq># mset (bt_pages (snd e)) + mset (child_pages ds)"
      by (rule subset_mset.add_mono)
    then show ?case by (simp add: comp_def)
  qed simp
  from this [of cs] have "mset (map fst (child_leaves cs)) \<subseteq># mset (child_pages cs)" by simp
  then have "mset (map fst (child_leaves cs)) \<subseteq># {#p#} + mset (child_pages cs)" by (rule subset_mset.order_trans) simp
  then show ?case by (simp add: comp_def)
qed simp

lemma distinct_leaf_pages: "distinct (bt_pages b) \<Longrightarrow> distinct (map fst (bt_leaves b))"
  by (rule distinct_submset [OF _ leaf_pages_mset])

lemma located_change:
  assumes "located t valid ctx n l u x par ps lv"
    and "\<And>p. p \<in> set (path_pages ctx) \<Longrightarrow> same_node (pages t' p) (pages t p)"
    and "file_header t' = file_header t" "key_comparator t' = key_comparator t"
    and "page_count t \<le> page_count t'" "\<And>p. allocated t p \<Longrightarrow> allocated t' p"
    and "distinct ps'" "set ps' \<inter> set (path_pages ctx) = {}"
    and "\<And>p. p \<in> set ps' \<Longrightarrow> p \<notin> set ps \<Longrightarrow> 0 \<le> p \<and> p < int (page_count t') \<and> allocated t' p"
    and "leaf_chain (pages t') (map fst (path_left ctx) @ lv' @ map fst (path_right ctx))"
  shows "located t' valid ctx n l u x par ps' lv'"
proof -
  have "path_stored (pages t') ctx x par" by (rule path_stored_cong [OF locatedD(1) [OF assms(1)] assms(2)])
  moreover have "0 \<le> p \<and> p < int (page_count t') \<and> allocated t' p" if "p \<in> set (path_pages ctx @ ps')" for p
  proof (cases "p \<in> set (path_pages ctx @ ps)")
    case True
    then show ?thesis using locatedD(5) [OF assms(1) True] assms(5,6) by auto
  qed (use that assms(9) in auto)
  moreover have "distinct (path_pages ctx @ ps')" using locatedD(4) [OF assms(1)] assms(7,8) by auto
  ultimately show ?thesis
    using locatedD(2,3,6,8) [OF assms(1)] assms(10) unfolding located_def assms(3,4) by blast
qed

lemma located_keep:
  assumes "located t valid ctx n l u x par ps lv" "set lv \<subseteq> set ps"
    and "\<And>p. p \<in> set (path_pages ctx) \<Longrightarrow> same_node (pages t' p) (pages t p)"
    and "\<And>p. p \<in> set (path_pages ctx @ ps) \<Longrightarrow> next_brother (pages t' p) = next_brother (pages t p)"
    and "file_header t' = file_header t" "key_comparator t' = key_comparator t"
    and "page_count t \<le> page_count t'" "\<And>p. allocated t p \<Longrightarrow> allocated t' p"
  shows "located t' valid ctx n l u x par ps lv"
proof (rule located_change [OF assms(1,3,5-8)])
  show "leaf_chain (pages t') (map fst (path_left ctx) @ lv @ map fst (path_right ctx))"
    by (rule leaf_chain_cong [OF locatedD(7) [OF assms(1)]]) (use path_leaf_pages [of ctx] assms(2) in \<open>auto intro!: assms(4)\<close>)
qed (use locatedD(4) [OF assms(1)] in auto)

lemma plug_located:
  assumes "index_inv t valid (plug ctx b)" "path_wf (key_comparator t) valid (file_header t) ctx n l u"
  shows "located t valid ctx n l u (bt_page b) (parent (pages t (bt_page b))) (bt_pages b) (map fst (bt_leaves b))"
    "stored (pages t) (parent (pages t (bt_page b))) b" "if ctx = [] then root_filled (file_header t) b else filled (file_header t) b"
proof -
  have ok: "tree_ok t valid (plug ctx b)" and d: "distinct (bt_pages (plug ctx b))" and fl: "root_filled (file_header t) (plug ctx b)"
    and sz: "sizes_ok (file_header t)" and al: "\<forall>p\<in>set (bt_pages (plug ctx b)). allocated t p"
    using assms(1) by (auto simp: index_inv_def)
  have st: "stored (pages t) BP_INVALID_PAGE_NUM (plug ctx b)" and ch: "leaf_chain (pages t) (map fst (bt_leaves (plug ctx b)))"
    and rt: "root_page (file_header t) = bt_page (plug ctx b)" and pg: "\<forall>p\<in>set (bt_pages (plug ctx b)). 0 \<le> p \<and> p < int (page_count t)"
    using ok by (auto simp: tree_ok_def)
  show "stored (pages t) (parent (pages t (bt_page b))) b" using plug_stored [OF st] by simp
  show "if ctx = [] then root_filled (file_header t) b else filled (file_header t) b" using filled_plug [OF fl] by simp
  show "located t valid ctx n l u (bt_page b) (parent (pages t (bt_page b))) (bt_pages b) (map fst (bt_leaves b))"
    unfolding located_def
  proof (intro conjI)
    show "leaf_chain (pages t) (map fst (path_left ctx) @ map fst (bt_leaves b) @ map fst (path_right ctx))"
      using ch by (simp add: plug_leaves)
    show "\<forall>p\<in>set (path_pages ctx @ bt_pages b). 0 \<le> p \<and> p < int (page_count t) \<and> allocated t p"
      using pg al by (auto simp: plug_pages_set)
  qed (use plug_stored [OF st] filled_plug [OF fl] assms(2) d sz rt in \<open>simp_all add: plug_pages_distinct plug_page\<close>)
qed

context index_order
begin

lemma located_plug:
  assumes lo: "located t valid ctx n l u (bt_page b) par (bt_pages b) (map fst (bt_leaves b))" and c: "key_comparator t = cmp"
    and b: "stored (pages t) par b" "wf cmp valid (file_header t) n l u b"
      "if ctx = [] then root_filled (file_header t) b else filled (file_header t) b"
  shows "index_inv t valid (plug ctx b)"
proof -
  note d = locatedD [OF lo]
  have pg: "0 \<le> p \<and> p < int (page_count t) \<and> allocated t p" if "p \<in> set (bt_pages (plug ctx b))" for p
    by (rule d(5)) (use that in \<open>simp add: plug_pages_set\<close>)
  obtain m where m: "wf cmp valid (file_header t) m None None (plug ctx b)" using plug_wf [OF d(2) [unfolded c] b(2)] by blast
  have fl: "root_filled (file_header t) (plug ctx b)" by (rule plug_filled [OF d(3) b(3)])
  have "bt_page (plug ctx b) \<noteq> BP_INVALID_PAGE_NUM" using pg [OF bt_page_in] by (auto simp: BP_INVALID_PAGE_NUM_def)
  moreover have "leaf_chain (pages t) (map fst (bt_leaves (plug ctx b)))" using d(7) by (simp add: plug_leaves)
  moreover have "\<forall>(p, its)\<in>set (bt_leaves (plug ctx b)). its \<noteq> []" using root_filled_nonempty [OF fl d(8)] by auto
  ultimately have "tree_ok t valid (plug ctx b)"
    using pg d(6) stored_plug [OF d(1) b(1)] wf_ord [OF m] by (simp add: tree_ok_def plug_page c)
  then show ?thesis
    using pg d(4,8) m fl by (auto simp: index_inv_def c plug_pages_distinct)
qed

lemma find_leaf_path:
  assumes "index_inv t valid b" "key_comparator t = cmp" "valid key"
  obtains ctx p its l u where "find_leaf key t = Some (Inr p)" "b = plug ctx (BLeaf p its)" "length ctx = bt_height b"
    "located t valid ctx 0 l u p (parent (pages t p)) [p] [p]" "wf cmp valid (file_header t) 0 l u (BLeaf p its)"
    "is_leaf (pages t p)" "items (pages t p) = its" "if ctx = [] then its \<noteq> [] else leaf_max_size (file_header t) div 2 \<le> int (length its)"
    "above cmp l key" "below cmp u key"
proof -
  let ?h = "file_header t"
  obtain n where n: "wf cmp valid ?h n None None b" using assms(1,2) by (auto simp: index_inv_def)
  have ok: "stored (pages t) BP_INVALID_PAGE_NUM b" "\<forall>p\<in>set (bt_pages b). 0 \<le> p \<and> p < int (page_count t)"
    "root_page ?h = bt_page b" "bt_page b \<noteq> BP_INVALID_PAGE_NUM"
    using assms(1) by (auto simp: index_inv_def tree_ok_def)
  have "path_wf cmp valid ?h [] n None None" "above cmp None key" "below cmp None key" by (simp_all add: above_def below_def)
  from find_leaf_loop_path [OF ok(1) n this(1) assms(3) this(2,3) ok(2)]
  obtain ctx p its l u where f: "find_leaf_loop (\<lambda>n. internal_value_at (fst (internal_lookup cmp key n)) n) t (bt_page b) = Some (Inr p)"
    "b = plug ctx (BLeaf p its)" "length ctx = n" "path_wf cmp valid ?h ctx 0 l u" "wf cmp valid ?h 0 l u (BLeaf p its)" "above cmp l key" "below cmp u key"
    by auto
  have "get_page (bt_page b) t = SUCCESS" using ok(2) bt_page_in [of b] by (simp add: get_page_def)
  then have "find_leaf key t = Some (Inr p)"
    using f(1) ok(3,4) assms(2) by (simp add: find_leaf_def find_leaf_internal_def is_empty_def)
  then show thesis
    using that [OF _ f(2) _ _ f(5) _ _ _ f(6,7)] plug_located [of t valid ctx "BLeaf p its", OF assms(1) [unfolded f(2)] f(4) [folded assms(2)]]
      f(3) wf_height [OF n]
    by (simp split: if_splits)
qed

end

end
