(* ===== verification/BplusInsert.thy ===== *)
theory BplusInsert
  imports BplusPath
begin

text \<open>
  Insertion into a whole index: the entry goes to its leaf, full nodes are split on the way up, and the result is
  again a well-formed, balanced index with the entry added at its place.
\<close>

section \<open>New pages\<close>

text \<open>The pages of the tree are in the file and allocated; a new page is none of them.\<close>

lemma allocate_page_ok:
  assumes "page_count t < BP_MAX_PAGE_NUM"
  obtains q t1 where "allocate_page t = (Inr q, t1)" "0 \<le> q" "q < int (page_count t1)"
    "\<forall>p. allocated t p \<longrightarrow> p < int (page_count t) \<longrightarrow> p \<noteq> q" "allocated t1 = (allocated t)(q := True)"
    "page_count t \<le> page_count t1" "page_count t1 \<le> Suc (page_count t)" "\<forall>p. p \<noteq> q \<longrightarrow> pages t1 p = pages t p"
    "file_header t1 = file_header t" "key_comparator t1 = key_comparator t"
proof (cases "filter (\<lambda>i. \<not> allocated t (int i)) [0..<page_count t]")
  case Nil
  then show thesis using assms that by (simp add: allocate_page_def Let_def)
next
  case (Cons i ix)
  then have "i \<in> set (filter (\<lambda>i. \<not> allocated t (int i)) [0..<page_count t])" by simp
  then have "\<not> allocated t (int i)" "i < page_count t" by auto
  with Cons that show thesis by (auto simp: allocate_page_def)
qed

definition split_off :: "btree \<Rightarrow> PageNum \<Rightarrow> PageNum \<Rightarrow> btree \<Rightarrow> bool" where
  "split_off t p q t1 \<longleftrightarrow> 0 \<le> q \<and> q < int (page_count t1) \<and> (\<forall>x. allocated t x \<longrightarrow> x < int (page_count t) \<longrightarrow> x \<noteq> q) \<and>
     allocated t1 = (allocated t)(q := True) \<and> page_count t \<le> page_count t1 \<and> page_count t1 \<le> Suc (page_count t) \<and>
     file_header t1 = file_header t \<and> key_comparator t1 = key_comparator t \<and>
     pages t1 p = (pages t p)\<lparr>items := take (length (items (pages t p)) div 2) (items (pages t p))\<rparr> \<and>
     is_leaf (pages t1 q) = is_leaf (pages t p) \<and> parent (pages t1 q) = parent (pages t p) \<and>
     items (pages t1 q) = drop (length (items (pages t p)) div 2) (items (pages t p))"

lemma split_leaf_ok:
  assumes "page_count t < BP_MAX_PAGE_NUM" "allocated t p" "p < int (page_count t)" "is_leaf (pages t p)"
  obtains q t1 where "split_leaf p t = (Inr q, t1)" "split_off t p q t1" "\<And>x. x \<noteq> p \<Longrightarrow> x \<noteq> q \<Longrightarrow> pages t1 x = pages t x"
proof -
  obtain q t1 where q: "allocate_page t = (Inr q, t1)" "0 \<le> q" "q < int (page_count t1)"
    "\<forall>p. allocated t p \<longrightarrow> p < int (page_count t) \<longrightarrow> p \<noteq> q" "allocated t1 = (allocated t)(q := True)"
    "page_count t \<le> page_count t1" "page_count t1 \<le> Suc (page_count t)" "\<forall>p. p \<noteq> q \<longrightarrow> pages t1 p = pages t p"
    "file_header t1 = file_header t" "key_comparator t1 = key_comparator t"
    by (rule allocate_page_ok [OF assms(1)])
  have ne: "p \<noteq> q" using q(4) assms(2,3) by blast
  define t2 where "t2 = leaf_move_half_to p q (set_parent_page_num q (parent (pages t p)) (leaf_init_empty q t1))"
  have "split_leaf p t = (Inr q, t2)"
    using q(1,8) ne by (simp add: split_leaf_def t2_def Let_def leaf_init_empty_def node_simps)
  moreover have "split_off t p q t2"
    using q ne assms(4)
    by (simp add: split_off_def t2_def leaf_move_half_to_def leaf_op_defs node_simps Let_def init_empty_def recover_insert_items_def recover_remove_items_def list_remove_at_def list_insert_at_def)
  moreover have "pages t2 x = pages t x" if "x \<noteq> p" "x \<noteq> q" for x
    using that q(8) by (simp add: t2_def leaf_move_half_to_def leaf_op_defs node_simps Let_def)
  ultimately show thesis using that by blast
qed

lemma split_internal_ok:
  assumes "page_count t < BP_MAX_PAGE_NUM" "allocated t p" "p < int (page_count t)" "\<not> is_leaf (pages t p)"
    and "\<forall>it\<in>set (items (pages t p)). page_of (snd it) \<noteq> p \<and> 0 \<le> page_of (snd it) \<and> page_of (snd it) < int (page_count t) \<and> allocated t (page_of (snd it))"
  obtains q t1 where "split_internal p t = (Inr q, t1)" "split_off t p q t1"
    "\<And>x. x \<noteq> p \<Longrightarrow> x \<noteq> q \<Longrightarrow> pages t1 x =
       (if x \<in> (page_of \<circ> snd) ` set (drop (length (items (pages t p)) div 2) (items (pages t p))) then (pages t x)\<lparr>parent := q\<rparr> else pages t x)"
proof -
  obtain q t1 where q: "allocate_page t = (Inr q, t1)" "0 \<le> q" "q < int (page_count t1)"
    "\<forall>p. allocated t p \<longrightarrow> p < int (page_count t) \<longrightarrow> p \<noteq> q" "allocated t1 = (allocated t)(q := True)"
    "page_count t \<le> page_count t1" "page_count t1 \<le> Suc (page_count t)" "\<forall>p. p \<noteq> q \<longrightarrow> pages t1 p = pages t p"
    "file_header t1 = file_header t" "key_comparator t1 = key_comparator t"
    by (rule allocate_page_ok [OF assms(1)])
  have ne: "p \<noteq> q" using q(4) assms(2,3) by blast
  let ?its = "items (pages t p)" and ?m = "length (items (pages t p)) div 2"
  define t2 where "t2 = set_parent_page_num q (parent (pages t p)) (internal_init_empty q t1)"
  define t3 where "t3 = modify_page q (recover_insert_items 0 (drop ?m ?its)) (append_log_entry (NodeInsert q 0 (drop ?m ?its) (length ?its - ?m)) t2)"
  define t4 where "t4 = snd (adopt_children q (drop ?m ?its) t3)"
  have s: "page_count t3 = page_count t1" "pages t3 q = \<lparr>is_leaf = False, parent = parent (pages t p), next_brother = next_brother (pages t1 q), items = drop ?m ?its\<rparr>"
    "allocated t3 = allocated t1" "file_header t3 = file_header t1" "key_comparator t3 = key_comparator t1"
    by (simp_all add: t3_def t2_def internal_init_empty_def set_parent_page_num_def node_simps init_empty_def recover_insert_items_def list_insert_at_def)
  have s': "pages t3 x = pages t x" if "x \<noteq> q" for x
    using that q(8) by (simp add: t3_def t2_def internal_init_empty_def set_parent_page_num_def node_simps)
  have ch: "page_of (snd it) \<noteq> p \<and> page_of (snd it) \<noteq> q" "get_page (page_of (snd it)) t3 = SUCCESS" if "it \<in> set (drop ?m ?its)" for it
    using assms(5) in_set_dropD [OF that] q(4,6) s(1) by (auto simp: get_page_def)
  have gp: "\<forall>it\<in>set (drop ?m ?its). get_page (page_of (snd it)) t3 = SUCCESS" using ch(2) by blast
  have pq: "p \<notin> (page_of \<circ> snd) ` set (drop ?m ?its)" "q \<notin> (page_of \<circ> snd) ` set (drop ?m ?its)" using ch(1) by auto
  have t4: "pages t4 x = (if x \<in> (page_of \<circ> snd) ` set (drop ?m ?its) then (pages t3 x)\<lparr>parent := q\<rparr> else pages t3 x)" for x
    unfolding t4_def by (rule adopt_children_spec(2) [OF gp])
  have ad: "adopt_children q (drop ?m ?its) t3 = (SUCCESS, t4)"
    using adopt_children_spec(1) [OF gp, of q] unfolding t4_def by (metis prod.collapse)
  have qi: "items (pages t2 q) = []" "pages t2 p = pages t p"
    using ne q(8) by (simp_all add: t2_def internal_init_empty_def set_parent_page_num_def node_simps init_empty_def)
  have mv: "internal_move_half_to p q t2 = (SUCCESS, node_remove p ?m (length ?its - ?m) t4)"
    by (simp add: internal_move_half_to_def internal_append_def internal_insert_items_def qi Let_def t3_def [symmetric] ad)
  define t5 where "t5 = node_remove p ?m (length ?its - ?m) t4"
  have "split_internal p t = (Inr q, t5)"
  proof -
    have "parent (pages (internal_init_empty q t1) p) = parent (pages t p)" using ne q(8) by (simp add: internal_init_empty_def node_simps)
    then show ?thesis using q(1) mv by (simp add: split_internal_def Let_def t2_def [symmetric] t5_def)
  qed
  moreover have "split_off t p q t5"
  proof -
    have "page_count t4 = page_count t1" "file_header t4 = file_header t" "key_comparator t4 = key_comparator t" "allocated t4 = allocated t1"
      using s q(9,10) by (simp_all add: t4_def adopt_children_frame)
    moreover have "pages t4 p = pages t p" "pages t4 q = pages t3 q" using t4 pq s' ne by auto
    ultimately show ?thesis
      using q ne assms(4) s(2) by (simp add: split_off_def t5_def node_remove_def node_simps recover_remove_items_def list_remove_at_def)
  qed
  moreover have "pages t5 x = (if x \<in> (page_of \<circ> snd) ` set (drop ?m ?its) then (pages t x)\<lparr>parent := q\<rparr> else pages t x)" if "x \<noteq> p" "x \<noteq> q" for x
    using that s' by (simp add: t5_def node_remove_def node_simps t4)
  ultimately show thesis using that by blast
qed

section \<open>Inserting the separator of a split into the parent\<close>

text \<open>A split below the path: two neighbouring subtrees with the key between them, the second not yet linked.\<close>

definition splitting :: "btree \<Rightarrow> (IKey \<Rightarrow> bool) \<Rightarrow> path \<Rightarrow> nat \<Rightarrow> bt \<Rightarrow> IKey \<Rightarrow> bt \<Rightarrow> bool" where
  "splitting t valid ctx n b1 key b2 \<longleftrightarrow>
     (\<exists>par par2 l u. located t valid ctx n l u (bt_page b1) par (bt_pages b1 @ bt_pages b2) (map fst (bt_leaves b1 @ bt_leaves b2)) \<and>
        stored (pages t) par b1 \<and> stored (pages t) par2 b2 \<and>
        wf (key_comparator t) valid (file_header t) n l (Some key) b1 \<and> wf (key_comparator t) valid (file_header t) n (Some key) u b2 \<and>
        valid key \<and> strictly_above (key_comparator t) l key \<and> below (key_comparator t) u key) \<and>
     filled (file_header t) b1 \<and> filled (file_header t) b2"

text \<open>A node whose children have been divided between its page and a new one.\<close>

definition halved :: "btree \<Rightarrow> PageNum \<Rightarrow> PageNum \<Rightarrow> children \<Rightarrow> nat \<Rightarrow> btree \<Rightarrow> bool" where
  "halved t p q cs m t2 \<longleftrightarrow>
     items (pages t2 p) = map child_item (take m cs) \<and> items (pages t2 q) = map child_item (drop m cs) \<and>
     \<not> is_leaf (pages t2 p) \<and> \<not> is_leaf (pages t2 q) \<and>
     parent (pages t2 p) = parent (pages t p) \<and> parent (pages t2 q) = parent (pages t p) \<and>
     (\<forall>x. x \<noteq> p \<longrightarrow> x \<noteq> q \<longrightarrow> is_leaf (pages t2 x) = is_leaf (pages t x) \<and> items (pages t2 x) = items (pages t x) \<and>
        next_brother (pages t2 x) = next_brother (pages t x) \<and> (x \<notin> (bt_page \<circ> snd) ` set cs \<longrightarrow> parent (pages t2 x) = parent (pages t x))) \<and>
     (\<forall>e\<in>set (take m cs). parent (pages t2 (bt_page (snd e))) = p) \<and> (\<forall>e\<in>set (drop m cs). parent (pages t2 (bt_page (snd e))) = q)"

lemma leaf_chain_insert:
  assumes "leaf_chain pg (ps @ p # qs)" "distinct (ps @ p # qs)" "q \<notin> set (ps @ p # qs)"
    and "next_brother (pg' p) = q" "next_brother (pg' q) = next_brother (pg p)"
    and "\<And>x. x \<noteq> p \<Longrightarrow> x \<noteq> q \<Longrightarrow> next_brother (pg' x) = next_brother (pg x)"
  shows "leaf_chain pg' (ps @ p # q # qs)"
  using assms(1-3)
proof (induction ps)
  case Nil
  have "leaf_chain pg' (q # qs)"
  proof (cases qs)
    case (Cons r rs)
    have "leaf_chain pg' (r # rs)"
    proof (rule leaf_chain_cong)
      show "leaf_chain pg (r # rs)" using Nil Cons by simp
      show "next_brother (pg' x) = next_brother (pg x)" if "x \<in> set (r # rs)" for x
        by (rule assms(6)) (use that Nil Cons in auto)
    qed
    then show ?thesis using Nil(1) Cons assms(5) by simp
  qed (use Nil assms(5) in simp)
  then show ?case using assms(4) by simp
next
  case (Cons x ps)
  have "leaf_chain pg (ps @ p # qs)" using leaf_chain_append [of pg "[x]" "ps @ p # qs"] Cons.prems(1) by simp
  then have IH: "leaf_chain pg' (ps @ p # q # qs)" using Cons by auto
  have "next_brother (pg' x) = next_brother (pg x)" using Cons.prems assms(6) by auto
  then show ?case using IH Cons.prems(1) by (cases ps) auto
qed

definition inserted_into :: "btree \<Rightarrow> (IKey \<Rightarrow> bool) \<Rightarrow> (PageNum \<times> item list) list \<Rightarrow> nat \<Rightarrow> (RC \<times> btree) option \<Rightarrow> bool" where
  "inserted_into t valid lv d r \<longleftrightarrow> (\<exists>t' b'. r = Some (SUCCESS, t') \<and> index_inv t' valid b' \<and> bt_leaves b' = lv \<and>
     key_comparator t' = key_comparator t \<and> file_header t' = (file_header t)\<lparr>root_page := root_page (file_header t')\<rparr> \<and>
     page_count t' \<le> page_count t + d)"

definition entry_added :: "btree \<Rightarrow> (IKey \<Rightarrow> bool) \<Rightarrow> (PageNum \<times> item list) list \<Rightarrow> item list \<Rightarrow> (PageNum \<times> item list) list \<Rightarrow> (RC \<times> btree) option \<Rightarrow> bool" where
  "entry_added t valid lv its rv r \<longleftrightarrow> (\<exists>t' b'. r = Some (SUCCESS, t') \<and> index_inv t' valid b' \<and>
     bt_items b' = concat (map snd lv) @ its @ concat (map snd rv) \<and> key_comparator t' = key_comparator t \<and>
     file_header t' = (file_header t)\<lparr>root_page := root_page (file_header t')\<rparr>)"

lemma wf_header_root [simp]: "wf cmp valid (h\<lparr>root_page := r\<rparr>) n lo hi b = wf cmp valid h n lo hi b"
  by (induction b arbitrary: n lo hi) (auto cong: ranges_cong)

lemma filled_header_root [simp]: "filled (h\<lparr>root_page := r\<rparr>) b = filled h b" "root_filled (h\<lparr>root_page := r\<rparr>) b = root_filled h b"
  "sizes_ok (h\<lparr>root_page := r\<rparr>) = sizes_ok h"
proof -
  show *: "filled (h\<lparr>root_page := r\<rparr>) b = filled h b" for b by (induction b) auto
  show "root_filled (h\<lparr>root_page := r\<rparr>) b = root_filled h b" by (cases b) (auto simp: *)
qed (simp add: sizes_ok_def)

context index_order
begin

lemma insert_new_root:
  assumes sp: "splitting t valid [] n b1 key b2" and c: "key_comparator t = cmp" and room: "page_count t < BP_MAX_PAGE_NUM"
  shows "inserted_into t valid (bt_leaves b1 @ bt_leaves b2) 1 (insert_entry_into_parent (bt_page b1) (bt_page b2) key t)"
proof -
  let ?p = "bt_page b1" and ?q = "bt_page b2" and ?h = "file_header t"
  obtain par par2 l u where lo: "located t valid [] n l u ?p par (bt_pages b1 @ bt_pages b2) (map fst (bt_leaves b1 @ bt_leaves b2))"
    and st: "stored (pages t) par b1" "stored (pages t) par2 b2"
    and w: "wf cmp valid ?h n l (Some key) b1" "wf cmp valid ?h n (Some key) u b2" and k: "valid key"
    using sp c by (auto simp: splitting_def)
  note d = locatedD [OF lo]
  have lu: "l = None" "u = None" and par: "par = BP_INVALID_PAGE_NUM" using d(1,2) by simp_all
  obtain r t1 where r: "allocate_page t = (Inr r, t1)" "0 \<le> r" "r < int (page_count t1)"
    "\<forall>p. allocated t p \<longrightarrow> p < int (page_count t) \<longrightarrow> p \<noteq> r" "allocated t1 = (allocated t)(r := True)"
    "page_count t \<le> page_count t1" "page_count t1 \<le> Suc (page_count t)" "\<forall>p. p \<noteq> r \<longrightarrow> pages t1 p = pages t p"
    "file_header t1 = file_header t" "key_comparator t1 = key_comparator t"
    by (rule allocate_page_ok [OF room])
  have new: "x \<noteq> r" if "x \<in> set (bt_pages b1 @ bt_pages b2)" for x
  proof -
    have "allocated t x" "x < int (page_count t)" using d(5) [of x] that by simp_all
    then show ?thesis using r(4) by blast
  qed
  have ne: "?p \<noteq> r" "?q \<noteq> r" using new by auto
  have ne': "?p \<notin> set (bt_pages b2)" "?q \<notin> set (bt_pages b1)" using d(4) by (auto simp: disjoint_iff)
  define t2 where "t2 = update_root_page_num_locked r (set_parent_page_num ?q r (set_parent_page_num ?p r
      (internal_create_new_root r ?p key ?q (internal_init_empty r t1))))"
  let ?b = "BNode r [(zero_key ?h, b1), (key, b2)]"
  have run: "insert_entry_into_parent ?p ?q key t = Some (SUCCESS, t2)"
    using stored_parent [OF st(1)] par r(1)
    by (subst insert_entry_into_parent.simps) (simp add: Let_def t2_def)
  have sel: "file_header t2 = ?h\<lparr>root_page := r\<rparr>" "key_comparator t2 = cmp" "allocated t2 = allocated t1" "page_count t2 = page_count t1"
    using r(9,10) c by (simp_all add: t2_def update_root_page_num_locked_def set_parent_page_num_def internal_create_new_root_def internal_init_empty_def node_simps)
  have pg: "pages t2 x = (if x = r then (pages t2 r) else if x = ?p \<or> x = ?q then (pages t x)\<lparr>parent := r\<rparr> else pages t x)" for x
    using r(8) ne by (simp add: t2_def update_root_page_num_locked_def set_parent_page_num_def internal_create_new_root_def internal_init_empty_def node_simps)
  have root: "\<not> is_leaf (pages t2 r)" "parent (pages t2 r) = BP_INVALID_PAGE_NUM" "items (pages t2 r) = [(zero_key ?h, PageV ?p), (key, PageV ?q)]"
    using ne r(9) by (simp_all add: t2_def update_root_page_num_locked_def set_parent_page_num_def internal_create_new_root_def internal_init_empty_def node_simps init_empty_def create_new_root_items_def)
  have st1: "stored (pages t2) r b1"
    by (rule stored_reparent [OF st(1)]) (use d(4) new ne ne' pg in auto)
  have st2: "stored (pages t2) r b2"
    by (rule stored_reparent [OF st(2)]) (use d(4) new ne ne' pg in auto)
  have "located t2 valid [] (Suc n) None None (bt_page ?b) BP_INVALID_PAGE_NUM (bt_pages ?b) (map fst (bt_leaves ?b))"
    unfolding located_def
  proof (intro conjI)
    show "leaf_chain (pages t2) (map fst (path_left []) @ map fst (bt_leaves ?b) @ map fst (path_right []))"
    proof -
      have "leaf_chain (pages t2) (map fst (bt_leaves b1 @ bt_leaves b2))"
      proof (rule leaf_chain_cong)
        show "leaf_chain (pages t) (map fst (bt_leaves b1 @ bt_leaves b2))" using d(7) by simp
        show "next_brother (pages t2 x) = next_brother (pages t x)" if "x \<in> set (map fst (bt_leaves b1 @ bt_leaves b2))" for x
          using new [of x] that stored_leaf_pages [of b1] stored_leaf_pages [of b2] by (subst pg) auto
      qed
      then show ?thesis by simp
    qed
    show "\<forall>p\<in>set (path_pages [] @ bt_pages ?b). 0 \<le> p \<and> p < int (page_count t2) \<and> allocated t2 p"
      using d(5) r(2,3,5,6) sel by fastforce
  qed (use d(4,8) new sel in \<open>auto simp: sizes_ok_def\<close>)
  moreover have "wf cmp valid (file_header t2) (Suc n) None None ?b"
    using w lu k d(8) sel by (simp add: sizes_ok_def strictly_above_def below_def)
  moreover have "stored (pages t2) BP_INVALID_PAGE_NUM ?b" using root st1 st2 by simp
  moreover have "root_filled (file_header t2) ?b" using sp sel by (simp add: splitting_def)
  ultimately have "index_inv t2 valid (plug [] ?b)" using sel by (intro located_plug) auto
  then show ?thesis
    unfolding inserted_into_def run using sel r(7) c by (intro exI [of _ t2] exI [of _ ?b]) simp
qed

text \<open>The position of the new separator in a node that holds some of the children around it.\<close>

lemma insert_position_sub:
  assumes "ascending (tl (map fst ls @ [k]) @ key # map fst rs)" "i \<le> length ls"
    and "node_keys n = map fst (drop i ls) @ k # map fst (take j rs)"
  shows "internal_lookup cmp key n = (length ls - i, False, Suc (length ls - i))"
proof -
  let ?xs = "tl (map fst ls @ [k])" and ?ys = "map fst rs"
  have tl: "tl (map fst (drop i ls) @ [k]) = drop i ?xs"
  proof -
    have "map fst (drop i ls) @ [k] = drop i (map fst ls @ [k])" using assms(2) by (simp add: drop_map)
    then show ?thesis by (simp only: tl_drop)
  qed
  have asc: "ascending ?xs" "ascending ?ys" "valid key" "\<forall>x\<in>set ?xs. cmp x key < 0" "\<forall>y\<in>set ?ys. cmp key y < 0"
    "\<forall>x\<in>set ?xs. \<forall>y\<in>set ?ys. cmp x y < 0"
    using assms(1) by (auto simp: ascending_append ascending_Cons)
  have "ascending (take i ?xs @ drop i ?xs)" "ascending (take j ?ys @ drop j ?ys)" using asc(1,2) by simp_all
  then have "ascending (drop i ?xs @ take j ?ys)"
    using asc(6) unfolding ascending_append by (meson in_set_dropD in_set_takeD)
  moreover have "tl (node_keys n) = drop i ?xs @ take j ?ys"
    unfolding assms(3) tl [symmetric] by (cases "drop i ls") (auto simp: take_map)
  moreover have "\<forall>x\<in>set (map fst (take j rs)). cmp key x < 0" using asc(5) by (auto dest: in_set_takeD)
  moreover have "\<forall>x\<in>set (drop i ?xs). cmp x key < 0" using asc(4) by (meson in_set_dropD)
  ultimately show ?thesis
    using internal_insert_position [of n "drop i ls" k "take j rs" key] assms(3) asc(3) tl by simp
qed

lemma splitting_parent:
  assumes sp: "splitting t valid ((pp, ls, k, rs) # ctx) n b1 key b2" and c: "key_comparator t = cmp"
  defines "cs \<equiv> ls @ (k, b1) # (key, b2) # rs"
  obtains lo hi par2 where
    "located t valid ctx (Suc n) lo hi pp (parent (pages t pp)) (pp # child_pages cs) (map fst (child_leaves cs))"
    "ranges cmp valid (wf cmp valid (file_header t) n) lo hi cs" "\<forall>x. lo = Some x \<longrightarrow> fst (hd cs) = x"
    "\<not> is_leaf (pages t pp)" "items (pages t pp) = map child_item (ls @ (k, b1) # rs)" "parent (pages t (bt_page b1)) = pp"
    "\<forall>e\<in>set (ls @ (k, b1) # rs). stored (pages t) pp (snd e)" "stored (pages t) par2 b2"
    "int (length cs) \<le> internal_max_size (file_header t) + 1" "\<forall>e\<in>set cs. filled (file_header t) (snd e)"
    "if ctx = [] then 2 < length cs else internal_max_size (file_header t) div 2 < int (length cs)"
    "bounds_ok lo" "bounds_ok hi"
    "ascending (tl (map fst ls @ [k]) @ key # map fst rs)"
proof -
  let ?h = "file_header t"
  obtain par par2 l u where lo: "located t valid ((pp, ls, k, rs) # ctx) n l u (bt_page b1) par (bt_pages b1 @ bt_pages b2) (map fst (bt_leaves b1 @ bt_leaves b2))"
    and st: "stored (pages t) par b1" "stored (pages t) par2 b2"
    and w: "wf cmp valid ?h n l (Some key) b1" "wf cmp valid ?h n (Some key) u b2"
    and k: "valid key" "strictly_above cmp l key" "below cmp u key" and fl: "filled ?h b1" "filled ?h b2"
    using sp c by (auto simp: splitting_def)
  note d = locatedD [OF lo]
  obtain lo hi where pw: "path_wf cmp valid ?h ctx (Suc n) lo hi" "int (length ls + length rs + 1) \<le> internal_max_size ?h"
    "\<forall>x. lo = Some x \<longrightarrow> hd (map fst ls @ [k]) = x" "left_part cmp valid (wf cmp valid ?h n) lo hi ls k l"
    "right_part cmp valid (wf cmp valid ?h n) l hi rs u"
    using d(2) c by auto
  have bd: "bounds_ok lo" "bounds_ok hi" using path_wf_bounds [OF pw(1)] by simp_all
  have rg: "ranges cmp valid (wf cmp valid ?h n) lo hi cs"
    unfolding cs_def ranges_hole [OF bd]
    using pw(4) right_part_insert [OF pw(5) bd(2) k w(2)] w(1) by blast
  have loc: "located t valid ctx (Suc n) lo hi pp (parent (pages t pp)) (pp # child_pages cs) (map fst (child_leaves cs))"
    unfolding located_def
  proof (intro conjI)
    show "distinct (path_pages ctx @ pp # child_pages cs)" using d(4) by (auto simp: cs_def)
    show "\<forall>p\<in>set (path_pages ctx @ pp # child_pages cs). 0 \<le> p \<and> p < int (page_count t) \<and> allocated t p"
      using d(5) by (auto simp: cs_def)
    show "leaf_chain (pages t) (map fst (path_left ctx) @ map fst (child_leaves cs) @ map fst (path_right ctx))"
      using d(7) by (simp add: cs_def)
  qed (use d(1,3,6,8) pw(1) c in simp_all)
  have asc: "ascending (tl (map fst ls @ [k]) @ key # map fst rs)"
  proof -
    have "tl (map fst cs) = tl (map fst ls @ [k]) @ key # map fst rs" by (cases ls) (auto simp: cs_def)
    then show ?thesis using ranges_separators [OF rg bd(1)] by simp
  qed
  have hd: "\<forall>x. lo = Some x \<longrightarrow> fst (hd cs) = x" using pw(3) by (cases ls) (auto simp: cs_def)
  have "if ctx = [] then 2 < length cs else internal_max_size ?h div 2 < int (length cs)"
    using d(3) by (auto simp: cs_def split: if_splits)
  moreover have "\<forall>e\<in>set cs. filled ?h (snd e)" using d(3) fl by (auto simp: cs_def)
  moreover have "parent (pages t (bt_page b1)) = pp" using stored_parent [OF st(1)] d(1) by simp
  moreover have "\<forall>e\<in>set (ls @ (k, b1) # rs). stored (pages t) pp (snd e)" using d(1) st(1) by auto
  moreover have "int (length cs) \<le> internal_max_size ?h + 1" using pw(2) by (simp add: cs_def)
  ultimately show thesis using that [OF loc rg hd _ _ _ _ st(2) _ _ _ bd asc] d(1) by simp
qed

lemma link_child:
  assumes "p \<noteq> q" "internal_lookup (key_comparator t) key (pages t p) = (r, f, i)"
  defines "t' \<equiv> set_parent_page_num q p (internal_insert p key q t)"
  shows "pages t' x = (if x = q then (pages t q)\<lparr>parent := p\<rparr>
      else if x = p then (pages t p)\<lparr>items := list_insert_at i [(key, PageV q)] (items (pages t p))\<rparr> else pages t x)"
    "file_header t' = file_header t" "key_comparator t' = key_comparator t" "page_count t' = page_count t" "allocated t' = allocated t"
  using assms by (simp_all add: internal_insert_def set_parent_page_num_def node_simps recover_insert_items_def)

lemma stored_children_in:
  assumes "distinct (p # child_pages cs)" "e \<in> set cs"
  shows "p \<notin> set (bt_pages (snd e))" "set (bt_pages (snd e)) \<subseteq> set (child_pages cs)" "distinct (bt_pages (snd e))"
  using assms by (auto simp: distinct_concat_iff)

lemma child_disjoint:
  assumes "distinct (child_pages (xs @ e # ys))" "f \<in> set (xs @ ys)" "x \<in> set (bt_pages (snd f))"
  shows "x \<notin> set (bt_pages (snd e))"
proof -
  have "x \<in> set (child_pages xs) \<union> set (child_pages ys)" using assms(2,3) by auto
  then show ?thesis using assms(1) by (auto simp del: set_concat)
qed

lemma insert_not_full:
  assumes sp: "splitting t valid ((pp, ls, k, rs) # ctx) n b1 key b2" and c: "key_comparator t = cmp"
    and nf: "node_size (pages t pp) < max_size (file_header t) (pages t pp)"
  shows "inserted_into t valid (path_left ctx @ child_leaves (ls @ (k, b1) # (key, b2) # rs) @ path_right ctx) 0
    (insert_entry_into_parent (bt_page b1) (bt_page b2) key t)"
proof -
  define cs where "cs = ls @ (k, b1) # (key, b2) # rs"
  let ?p = "bt_page b1" and ?q = "bt_page b2" and ?h = "file_header t"
  obtain lo hi par2 where
    loc: "located t valid ctx (Suc n) lo hi pp (parent (pages t pp)) (pp # child_pages cs) (map fst (child_leaves cs))"
    and rg: "ranges cmp valid (wf cmp valid ?h n) lo hi cs" and hd: "\<forall>x. lo = Some x \<longrightarrow> fst (hd cs) = x"
    and nd: "\<not> is_leaf (pages t pp)" "items (pages t pp) = map child_item (ls @ (k, b1) # rs)" "parent (pages t ?p) = pp"
      "\<forall>e\<in>set (ls @ (k, b1) # rs). stored (pages t) pp (snd e)" "stored (pages t) par2 b2"
    and fl: "\<forall>e\<in>set cs. filled ?h (snd e)" "if ctx = [] then 2 < length cs else internal_max_size ?h div 2 < int (length cs)"
    and asc: "ascending (tl (map fst ls @ [k]) @ key # map fst rs)"
    by (rule splitting_parent [OF sp c, folded cs_def])
  note d = locatedD [OF loc]
  have dis: "distinct (pp # child_pages cs)" using d(4) by simp
  have pq: "pp \<noteq> ?q" using stored_children_in(1) [OF dis, of "(key, b2)"] by (auto simp: cs_def)
  have gp: "get_page pp t = SUCCESS" "pp \<noteq> BP_INVALID_PAGE_NUM"
    using d(5) [of pp] by (simp_all add: get_page_def BP_INVALID_PAGE_NUM_def)
  have "internal_lookup cmp key (pages t pp) = (length ls - 0, False, Suc (length ls - 0))"
    by (rule insert_position_sub [OF asc, of _ _ "length rs"]) (simp_all add: nd(2))
  then have lk: "internal_lookup (key_comparator t) key (pages t pp) = (length ls, False, Suc (length ls))" using c by simp
  define t' where "t' = set_parent_page_num ?q pp (internal_insert pp key ?q t)"
  note lc = link_child [OF pq lk, folded t'_def]
  have run: "insert_entry_into_parent ?p ?q key t = Some (SUCCESS, t')"
    using nd(3) gp nf by (subst insert_entry_into_parent.simps) (simp add: t'_def Let_def)
  have it: "items (pages t' pp) = map child_item cs" using pq by (simp add: lc(1) nd(2) list_insert_at_def cs_def)
  have kids: "stored (pages t') pp (snd e)" if e: "e \<in> set cs" for e
  proof (cases "e = (key, b2)")
    case True
    have "stored (pages t') pp b2"
    proof (rule stored_reparent [OF nd(5)])
      have e2: "(key, b2) \<in> set cs" by (simp add: cs_def)
      show "distinct (bt_pages b2)" using stored_children_in(3) [OF dis e2] by simp
      show "same_node (pages t' x) (pages t x)" if "x \<in> set (bt_pages b2)" "x \<noteq> ?q" for x
        using stored_children_in(1) [OF dis e2] that by (auto simp: lc(1))
    qed (simp_all add: lc(1))
    with True show ?thesis by simp
  next
    case False
    then have e': "e \<in> set (ls @ (k, b1) # rs)" using e by (auto simp: cs_def)
    show ?thesis
    proof (rule stored_cong)
      show "stored (pages t) pp (snd e)" using nd(4) e' by blast
      fix x assume x: "x \<in> set (bt_pages (snd e))"
      then have "x \<noteq> pp" using stored_children_in(1) [OF dis e] by auto
      moreover have "x \<noteq> ?q"
        using child_disjoint [of "ls @ [(k, b1)]" "(key, b2)" rs e x] x e' dis by (auto simp: cs_def simp del: set_concat)
      ultimately show "same_node (pages t' x) (pages t x)" by (simp add: lc(1))
    qed
  qed
  have "located t' valid ctx (Suc n) lo hi pp (parent (pages t pp)) (pp # child_pages cs) (map fst (child_leaves cs))"
  proof (rule located_keep [OF loc])
    show "set (map fst (child_leaves cs)) \<subseteq> set (pp # child_pages cs)" using child_leaf_pages [of cs] by auto
    show "same_node (pages t' x) (pages t x)" if x: "x \<in> set (path_pages ctx)" for x
    proof -
      have "?q \<in> set (pp # child_pages cs)" using bt_page_in [of b2] by (simp add: cs_def)
      moreover have "x \<notin> set (pp # child_pages cs)" using x d(4) unfolding distinct_append by blast
      ultimately have "x \<noteq> pp" "x \<noteq> ?q" by (metis list.set_intros(1), metis)
      then show ?thesis by (simp add: lc(1))
    qed
  qed (simp_all add: lc)
  moreover have "wf cmp valid (file_header t') (Suc n) lo hi (BNode pp cs)"
    using rg hd nf nd(1,2) by (simp add: lc(2) node_size_def max_size_def cs_def)
  moreover have "stored (pages t') (parent (pages t pp)) (BNode pp cs)" using it kids nd(1) pq by (simp add: lc(1))
  ultimately have "index_inv t' valid (plug ctx (BNode pp cs))"
    using fl lc c by (intro located_plug) (auto split: if_splits)
  moreover have "bt_leaves (plug ctx (BNode pp cs)) = path_left ctx @ child_leaves cs @ path_right ctx" by (simp add: plug_leaves)
  ultimately show ?thesis
    unfolding inserted_into_def run cs_def [symmetric] using lc c by (intro exI [of _ t'] exI [of _ "plug ctx (BNode pp cs)"]) simp
qed

lemma roots_distinct:
  assumes "distinct (child_pages cs)" "e \<in> set cs" "x \<in> set (bt_pages (snd e))" "x \<noteq> bt_page (snd e)"
  shows "x \<notin> (bt_page \<circ> snd) ` set cs"
proof
  assume "x \<in> (bt_page \<circ> snd) ` set cs"
  then obtain f where f: "f \<in> set cs" "x = bt_page (snd f)" by auto
  then have "f \<noteq> e" using assms(4) by auto
  obtain xs ys where cs: "cs = xs @ e # ys" using split_list [OF assms(2)] by blast
  then have "f \<in> set (xs @ ys)" using f(1) \<open>f \<noteq> e\<close> by auto
  then have "x \<notin> set (bt_pages (snd e))" using child_disjoint [of xs e ys f x] assms(1) cs f(2) by simp
  with assms(3) show False by simp
qed

lemma halved_stored:
  assumes h: "halved t p q cs m t2" and dis: "distinct (p # child_pages cs)" and q: "q \<notin> set (child_pages cs)"
    and e: "e \<in> set cs" "stored (pages t) par (snd e)" and par: "parent (pages t2 (bt_page (snd e))) = par2"
  shows "stored (pages t2) par2 (snd e)"
proof (rule stored_reparent [OF e(2)])
  note ch = stored_children_in [OF dis e(1)]
  show "distinct (bt_pages (snd e))" by (rule ch(3))
  have x: "x \<noteq> p" "x \<noteq> q" if "x \<in> set (bt_pages (snd e))" for x using ch(1,2) q that by auto
  show "same_node (pages t2 x) (pages t x)" if "x \<in> set (bt_pages (snd e))" "x \<noteq> bt_page (snd e)" for x
    using h x [OF that(1)] roots_distinct [OF _ e(1) that] dis unfolding halved_def by auto
  show "is_leaf (pages t2 (bt_page (snd e))) = is_leaf (pages t (bt_page (snd e)))" "items (pages t2 (bt_page (snd e))) = items (pages t (bt_page (snd e)))"
    using h x [OF bt_page_in] unfolding halved_def by auto
qed (rule par)

lemma halved_nodes:
  assumes h: "halved t p q cs m t2" and dis: "distinct (p # child_pages cs)" and q: "q \<notin> set (child_pages cs)"
    and kids: "\<forall>e\<in>set cs. \<exists>par. stored (pages t) par (snd e)"
  shows "stored (pages t2) (parent (pages t p)) (BNode p (take m cs))" "stored (pages t2) (parent (pages t p)) (BNode q (drop m cs))"
proof -
  have *: "stored (pages t2) par2 (snd e)" if "e \<in> set cs" "parent (pages t2 (bt_page (snd e))) = par2" for e par2
    using halved_stored [OF h dis q that(1) _ that(2)] kids that(1) by blast
  have "stored (pages t2) p (snd e)" if e: "e \<in> set (take m cs)" for e
    by (rule * [OF in_set_takeD [OF e]]) (use h e in \<open>simp add: halved_def\<close>)
  moreover have "stored (pages t2) q (snd e)" if e: "e \<in> set (drop m cs)" for e
    by (rule * [OF in_set_dropD [OF e]]) (use h e in \<open>simp add: halved_def\<close>)
  ultimately show "stored (pages t2) (parent (pages t p)) (BNode p (take m cs))" "stored (pages t2) (parent (pages t p)) (BNode q (drop m cs))"
    using h unfolding halved_def by auto
qed

lemma halved_located:
  assumes loc: "located t valid ctx n lo hi p par (p # child_pages cs) (map fst (child_leaves cs))"
    and h: "halved t p q cs m t2" and t2: "file_header t2 = file_header t" "key_comparator t2 = key_comparator t" "page_count t \<le> page_count t2"
      "allocated t2 = (allocated t)(q := True)" "0 \<le> q" "q < int (page_count t2)"
    and q: "q \<notin> set (path_pages ctx @ p # child_pages cs)"
  shows "located t2 valid ctx n lo hi p par (p # child_pages (take m cs) @ q # child_pages (drop m cs))
      (map fst (child_leaves (take m cs) @ child_leaves (drop m cs)))" (is "located _ _ _ _ _ _ _ _ ?ps ?lv")
proof (rule located_change [OF loc])
  note d = locatedD [OF loc]
  have pages: "child_pages (take m cs) @ child_pages (drop m cs) = child_pages cs" by (metis append_take_drop_id concat_append map_append)
  have leaves: "child_leaves (take m cs) @ child_leaves (drop m cs) = child_leaves cs" by (metis append_take_drop_id concat_append map_append)
  have ms: "mset ?ps = mset (q # p # child_pages cs)" unfolding pages [symmetric] by simp
  then show "distinct ?ps" using mset_eq_imp_distinct_iff [OF ms] d(4) q by simp
  have st: "set ?ps = insert q (set (p # child_pages cs))" using mset_eq_setD [OF ms] by simp
  then show "set ?ps \<inter> set (path_pages ctx) = {}" using d(4) q by (auto simp del: set_concat)
  show "0 \<le> x \<and> x < int (page_count t2) \<and> allocated t2 x" if "x \<in> set ?ps" "x \<notin> set (p # child_pages cs)" for x
  proof -
    have "x = q" using that st by blast
    then show ?thesis using t2(4-6) by simp
  qed
  show "same_node (pages t2 x) (pages t x)" if x: "x \<in> set (path_pages ctx)" for x
  proof -
    have "x \<notin> set (p # child_pages cs)" using x d(4) unfolding distinct_append by blast
    moreover have "(bt_page \<circ> snd) ` set cs \<subseteq> set (child_pages cs)" by auto
    ultimately have "x \<noteq> p" "x \<noteq> q" "x \<notin> (bt_page \<circ> snd) ` set cs" using q x by auto
    then show ?thesis using h unfolding halved_def by blast
  qed
  show "leaf_chain (pages t2) (map fst (path_left ctx) @ ?lv @ map fst (path_right ctx))"
    unfolding leaves
  proof (rule leaf_chain_cong [OF d(7)])
    fix x assume "x \<in> set (map fst (path_left ctx) @ map fst (child_leaves cs) @ map fst (path_right ctx))"
    then have "x \<in> set (path_pages ctx) \<union> set (child_pages cs)"
      using path_leaf_pages [of ctx] child_leaf_pages [of cs] unfolding set_append by blast
    then have "x \<noteq> p" "x \<noteq> q" using d(4) q by (auto simp del: set_concat)
    then show "next_brother (pages t2 x) = next_brother (pages t x)" using h unfolding halved_def by blast
  qed
qed (use t2 in auto)

lemma halved_splitting:
  assumes loc: "located t valid ctx (Suc n) lo hi p par (p # child_pages cs) (map fst (child_leaves cs))"
    and rg: "ranges cmp valid (wf cmp valid (file_header t) n) lo hi cs" and hd: "\<forall>x. lo = Some x \<longrightarrow> fst (hd cs) = x"
    and kids: "\<forall>e\<in>set cs. \<exists>par. stored (pages t) par (snd e)" and par: "par = parent (pages t p)"
    and fl: "\<forall>e\<in>set cs. filled (file_header t) (snd e)" and c: "key_comparator t = cmp"
    and bd: "bounds_ok lo" "bounds_ok hi"
    and m: "0 < m" "m < length cs" "internal_max_size (file_header t) div 2 \<le> int m" "internal_max_size (file_header t) div 2 \<le> int (length cs - m)"
      "int m \<le> internal_max_size (file_header t)" "int (length cs - m) \<le> internal_max_size (file_header t)"
    and h: "halved t p q cs m t2" and t2: "file_header t2 = file_header t" "key_comparator t2 = key_comparator t" "page_count t \<le> page_count t2"
      "allocated t2 = (allocated t)(q := True)" "0 \<le> q" "q < int (page_count t2)"
      "\<forall>x. allocated t x \<longrightarrow> x < int (page_count t) \<longrightarrow> x \<noteq> q"
  shows "splitting t2 valid ctx (Suc n) (BNode p (take m cs)) (fst (cs ! m)) (BNode q (drop m cs))"
proof -
  note d = locatedD [OF loc]
  have q: "q \<notin> set (path_pages ctx @ p # child_pages cs)"
  proof
    assume "q \<in> set (path_pages ctx @ p # child_pages cs)"
    with d(5) [OF this] t2(7) show False by blast
  qed
  have dis: "distinct (p # child_pages cs)" using d(4) by simp
  let ?h = "file_header t" and ?k = "fst (cs ! m)"
  have eq: "cs = take m cs @ (?k, snd (cs ! m)) # drop (Suc m) cs" using id_take_nth_drop [OF m(2)] by simp
  have dm: "drop m cs = (?k, snd (cs ! m)) # drop (Suc m) cs" using m(2) by (simp add: Cons_nth_drop_Suc)
  have ne: "take m cs \<noteq> []" using m(1,2) by auto
  have rs: "ranges cmp valid (wf cmp valid ?h n) lo (Some ?k) (take m cs)" "valid ?k" "strictly_above cmp lo ?k" "below cmp hi ?k"
    "ranges cmp valid (wf cmp valid ?h n) (Some ?k) hi (drop m cs)"
    using rg ranges_split [OF bd ne, of "wf cmp valid ?h n" ?k "snd (cs ! m)" "drop (Suc m) cs"] eq dm by auto
  have "wf cmp valid ?h (Suc n) lo (Some ?k) (BNode p (take m cs))" "wf cmp valid ?h (Suc n) (Some ?k) hi (BNode q (drop m cs))"
    using rs hd m(1,2,5,6) dm by (auto simp: hd_take)
  moreover have "stored (pages t2) (parent (pages t p)) (BNode p (take m cs))" "stored (pages t2) (parent (pages t p)) (BNode q (drop m cs))"
    using halved_nodes [OF h dis _ kids] q by simp_all
  moreover have "filled ?h (BNode p (take m cs))" "filled ?h (BNode q (drop m cs))"
    using fl m by (auto dest: in_set_takeD in_set_dropD)
  moreover have "located t2 valid ctx (Suc n) lo hi p par (bt_pages (BNode p (take m cs)) @ bt_pages (BNode q (drop m cs)))
      (map fst (bt_leaves (BNode p (take m cs)) @ bt_leaves (BNode q (drop m cs))))"
    using halved_located [OF loc h t2(1-6) q] by simp
  ultimately show ?thesis
    unfolding splitting_def t2(1,2) c using rs(2-4) par by auto
qed

lemma distinct_roots: "distinct (child_pages cs) \<Longrightarrow> distinct (map (bt_page \<circ> snd) cs)"
proof (induction cs)
  case (Cons e cs)
  have "distinct (bt_pages (snd e) @ child_pages cs)" using Cons.prems by (simp add: comp_def)
  then have "bt_page (snd e) \<notin> set (child_pages cs)" using bt_page_in [of "snd e"] unfolding distinct_append by blast
  moreover have "set (map (bt_page \<circ> snd) cs) \<subseteq> set (child_pages cs)" by auto
  ultimately have "bt_page (snd e) \<notin> set (map (bt_page \<circ> snd) cs)" by blast
  with Cons show ?case by simp
qed simp

text \<open>The state after a split of the parent, and after linking the new child on the side where it belongs.\<close>

definition parent_split :: "btree \<Rightarrow> PageNum \<Rightarrow> PageNum \<Rightarrow> children \<Rightarrow> nat \<Rightarrow> btree \<Rightarrow> bool" where
  "parent_split t p np old m t1 \<longleftrightarrow> split_off t p np t1 \<and> items (pages t p) = map child_item old \<and> m = length old div 2 \<and> p \<noteq> np \<and>
     (\<forall>x. x \<noteq> p \<longrightarrow> x \<noteq> np \<longrightarrow> pages t1 x = (if x \<in> set (map (bt_page \<circ> snd) (drop m old)) then (pages t x)\<lparr>parent := np\<rparr> else pages t x))"

lemma link_halves:
  assumes ps: "parent_split t p np old m t1" and nl: "\<not> is_leaf (pages t p)"
    and dis: "distinct (p # np # map (bt_page \<circ> snd) (xs @ (key, b2) # ys))" and old: "old = xs @ ys"
    and par: "\<forall>e\<in>set old. parent (pages t (bt_page (snd e))) = p" and tgt: "tgt = (if m < length xs then np else p)" "m \<le> length old"
    and m': "m' = (if m < length xs then m else Suc m)"
    and lk: "internal_lookup (key_comparator t1) key (pages t1 tgt) = (r, f, if m < length xs then length xs - m else length xs)"
    and t2: "t2 = set_parent_page_num (bt_page b2) tgt (internal_insert tgt key (bt_page b2) t1)"
  shows "halved t p np (xs @ (key, b2) # ys) m' t2" (is "halved t p np ?cs m' t2")
proof -
  let ?q = "bt_page b2"
  have tq: "tgt \<noteq> ?q" using dis tgt(1) by auto
  note lc = link_child [OF tq lk, folded t2]
  have so: "split_off t p np t1" "items (pages t p) = map child_item old" "m = length old div 2" "p \<noteq> np"
    and p1: "\<And>x. x \<noteq> p \<Longrightarrow> x \<noteq> np \<Longrightarrow> pages t1 x = (if x \<in> set (map (bt_page \<circ> snd) (drop m old)) then (pages t x)\<lparr>parent := np\<rparr> else pages t x)"
    using ps by (auto simp: parent_split_def)
  have pp: "pages t1 p = (pages t p)\<lparr>items := map child_item (take m old)\<rparr>" and np: "\<not> is_leaf (pages t1 np)" "parent (pages t1 np) = parent (pages t p)"
    "items (pages t1 np) = map child_item (drop m old)"
    using so nl by (auto simp: split_off_def take_map drop_map)
  have qn: "?q \<noteq> p" "?q \<noteq> np" using dis by auto
  have lists: "map child_item (take m' ?cs) = (if m < length xs then map child_item (take m old) else list_insert_at (length xs) [(key, PageV ?q)] (map child_item (take m old)))"
    "map child_item (drop m' ?cs) = (if m < length xs then list_insert_at (length xs - m) [(key, PageV ?q)] (map child_item (drop m old)) else map child_item (drop m old))"
    using tgt(2) by (simp_all add: old m' list_insert_at_def take_map drop_map Suc_diff_le not_less)
  have items: "items (pages t2 p) = map child_item (take m' ?cs)" "items (pages t2 np) = map child_item (drop m' ?cs)"
    unfolding lists using qn so(4) by (simp_all add: lc(1) tgt(1) pp np(3))
  have kept: "is_leaf (pages t2 x) = is_leaf (pages t x) \<and> items (pages t2 x) = items (pages t x) \<and>
        next_brother (pages t2 x) = next_brother (pages t x) \<and> (x \<notin> (bt_page \<circ> snd) ` set ?cs \<longrightarrow> parent (pages t2 x) = parent (pages t x))"
    if "x \<noteq> p" "x \<noteq> np" for x
  proof -
    have "x \<notin> set (map (bt_page \<circ> snd) (drop m old)) \<and> x \<noteq> ?q" if "x \<notin> (bt_page \<circ> snd) ` set ?cs"
      using that by (auto simp: old dest!: in_set_dropD)
    moreover have "x \<noteq> tgt" using that tgt(1) by simp
    ultimately show ?thesis using p1 [OF that] by (auto simp: lc(1) split: if_splits)
  qed
  have "distinct (map (bt_page \<circ> snd) old)" and dq: "?q \<notin> set (map (bt_page \<circ> snd) old)" using dis old by auto
  then have dr: "distinct (map (bt_page \<circ> snd) (take m old) @ map (bt_page \<circ> snd) (drop m old))" by (metis append_take_drop_id map_append)
  have away: "bt_page (snd e) \<noteq> p \<and> bt_page (snd e) \<noteq> np \<and> bt_page (snd e) \<noteq> ?q" if "e \<in> set old" for e
  proof -
    have "bt_page (snd e) \<in> set (map (bt_page \<circ> snd) old)" using that by simp
    moreover have "p \<notin> set (map (bt_page \<circ> snd) old)" "np \<notin> set (map (bt_page \<circ> snd) old)" using dis old by auto
    ultimately show ?thesis using dq by metis
  qed
  have left: "parent (pages t2 (bt_page (snd e))) = p" if e: "e \<in> set (take m' ?cs)" for e
  proof (cases "e = (key, b2) \<and> \<not> m < length xs")
    case False
    have "e \<in> set (take m old)" using e False tgt(2) by (auto simp: m' old take_Cons' split: if_splits)
    then have "bt_page (snd e) \<in> set (map (bt_page \<circ> snd) (take m old))" and eo: "e \<in> set old" by (auto dest: in_set_takeD)
    then have x: "bt_page (snd e) \<notin> set (map (bt_page \<circ> snd) (drop m old))" "e \<in> set old" using dr unfolding distinct_append by blast+
    have "bt_page (snd e) \<noteq> p" "bt_page (snd e) \<noteq> np" "bt_page (snd e) \<noteq> ?q" using away [OF x(2)] by simp_all
    then show ?thesis using p1 x par tgt(1) by (auto simp: lc(1))
  qed (simp add: lc(1) tgt(1))
  have right: "parent (pages t2 (bt_page (snd e))) = np" if e: "e \<in> set (drop m' ?cs)" for e
  proof (cases "e = (key, b2) \<and> m < length xs")
    case False
    have "e \<in> set (drop m old)" using e False tgt(2) by (auto simp: m' old drop_Cons' Suc_diff_le split: if_splits)
    then have x: "bt_page (snd e) \<in> set (map (bt_page \<circ> snd) (drop m old))" "e \<in> set old" by (auto dest: in_set_dropD)
    have "bt_page (snd e) \<noteq> p" "bt_page (snd e) \<noteq> np" "bt_page (snd e) \<noteq> ?q" using away [OF x(2)] by simp_all
    then show ?thesis using p1 x tgt(1) by (auto simp: lc(1))
  qed (simp add: lc(1) tgt(1))
  have "\<not> is_leaf (pages t2 p)" "\<not> is_leaf (pages t2 np)" "parent (pages t2 p) = parent (pages t p)" "parent (pages t2 np) = parent (pages t p)"
    using qn nl np so(4) pp by (auto simp: lc(1))
  then show ?thesis unfolding halved_def using items kept left right by blast
qed

lemma split_side:
  assumes asc: "ascending (tl (map fst ls @ [k]) @ key # map fst rs)" and m: "0 < m" "m < length (ls @ (k, b1) # rs)"
  shows "cmp key (fst ((ls @ (k, b1) # rs) ! m)) > 0 \<longleftrightarrow> m < length (ls @ [(k, b1)])"
proof (cases "m < length (ls @ [(k, b1)])")
  case True
  then have "fst ((ls @ (k, b1) # rs) ! m) = (map fst ls @ [k]) ! m" by (auto simp: nth_append less_Suc_eq)
  also have "\<dots> = tl (map fst ls @ [k]) ! (m - 1)" using m True by (simp add: nth_tl)
  finally have "fst ((ls @ (k, b1) # rs) ! m) \<in> set (tl (map fst ls @ [k]))" using m True nth_mem [of "m - 1" "tl (map fst ls @ [k])"] by simp
  then have "cmp (fst ((ls @ (k, b1) # rs) ! m)) key < 0" "valid (fst ((ls @ (k, b1) # rs) ! m))" "valid key"
    using asc by (auto simp: ascending_append ascending_Cons dest: ascending_valid)
  then show ?thesis using True cmp_flip by blast
next
  case False
  then have "(ls @ (k, b1) # rs) ! m = rs ! (m - Suc (length ls))" by (simp add: nth_append nth_Cons')
  moreover have "rs ! (m - Suc (length ls)) \<in> set rs" using m False by (intro nth_mem) simp
  ultimately have "cmp key (fst ((ls @ (k, b1) # rs) ! m)) < 0"
    using asc by (auto simp: ascending_append ascending_Cons)
  then show ?thesis using False by simp
qed

lemma insert_split_step:
  assumes sp: "splitting t valid ((pp, ls, k, rs) # ctx) n b1 key b2" and c: "key_comparator t = cmp"
    and full: "\<not> node_size (pages t pp) < max_size (file_header t) (pages t pp)" and room: "page_count t < BP_MAX_PAGE_NUM"
  obtains np t2 m where
    "insert_entry_into_parent (bt_page b1) (bt_page b2) key t = insert_entry_into_parent pp np (fst ((ls @ (k, b1) # (key, b2) # rs) ! m)) t2"
    "splitting t2 valid ctx (Suc n) (BNode pp (take m (ls @ (k, b1) # (key, b2) # rs))) (fst ((ls @ (k, b1) # (key, b2) # rs) ! m))
       (BNode np (drop m (ls @ (k, b1) # (key, b2) # rs)))"
    "file_header t2 = file_header t" "key_comparator t2 = cmp" "page_count t2 \<le> Suc (page_count t)"
proof -
  define cs where "cs = ls @ (k, b1) # (key, b2) # rs"
  define old where "old = ls @ (k, b1) # rs"
  let ?p = "bt_page b1" and ?q = "bt_page b2" and ?h = "file_header t" and ?xs = "ls @ [(k, b1)]"
  have cs': "cs = ?xs @ (key, b2) # rs" "old = ?xs @ rs" by (simp_all add: cs_def old_def)
  obtain lo hi par2 where
    loc: "located t valid ctx (Suc n) lo hi pp (parent (pages t pp)) (pp # child_pages cs) (map fst (child_leaves cs))"
    and rg: "ranges cmp valid (wf cmp valid ?h n) lo hi cs" and hd: "\<forall>x. lo = Some x \<longrightarrow> fst (hd cs) = x"
    and nd: "\<not> is_leaf (pages t pp)" "items (pages t pp) = map child_item old" "parent (pages t ?p) = pp"
      "\<forall>e\<in>set old. stored (pages t) pp (snd e)" "stored (pages t) par2 b2"
    and len: "int (length cs) \<le> internal_max_size ?h + 1" and fl: "\<forall>e\<in>set cs. filled ?h (snd e)" and bd: "bounds_ok lo" "bounds_ok hi"
    and asc: "ascending (tl (map fst ls @ [k]) @ key # map fst rs)"
    by (rule splitting_parent [OF sp c, folded cs_def old_def])
  note d = locatedD [OF loc]
  have M: "int (length old) = internal_max_size ?h" "6 \<le> length old" "length cs = Suc (length old)"
    using full len nd(1,2) d(8) by (simp_all add: node_size_def max_size_def cs' sizes_ok_def)
  have kid: "bt_page (snd e) \<in> set (child_pages cs)" if "e \<in> set cs" for e using that by (auto intro!: bexI [of _ e])
  have sub: "set old \<subseteq> set cs" by (auto simp: cs')
  have inr: "0 \<le> x \<and> x < int (page_count t) \<and> allocated t x" if "x \<in> set (pp # child_pages cs)" for x
    by (rule d(5)) (use that in auto)
  have dis: "distinct (pp # child_pages cs)" using d(4) by simp
  have "\<forall>it\<in>set (items (pages t pp)). page_of (snd it) \<noteq> pp \<and> 0 \<le> page_of (snd it) \<and> page_of (snd it) < int (page_count t) \<and> allocated t (page_of (snd it))"
  proof
    fix it assume "it \<in> set (items (pages t pp))"
    then obtain e where e: "e \<in> set old" "page_of (snd it) = bt_page (snd e)" using nd(2) by auto
    then have "bt_page (snd e) \<in> set (child_pages cs)" using kid sub by blast
    then show "page_of (snd it) \<noteq> pp \<and> 0 \<le> page_of (snd it) \<and> page_of (snd it) < int (page_count t) \<and> allocated t (page_of (snd it))"
      using inr [of "bt_page (snd e)"] dis e(2) by (auto simp del: set_concat)
  qed
  moreover have "allocated t pp" "pp < int (page_count t)" using inr [of pp] by simp_all
  ultimately obtain np t1 where sp1: "split_internal pp t = (Inr np, t1)" "split_off t pp np t1"
    "\<And>x. x \<noteq> pp \<Longrightarrow> x \<noteq> np \<Longrightarrow> pages t1 x =
       (if x \<in> (page_of \<circ> snd) ` set (drop (length (items (pages t pp)) div 2) (items (pages t pp))) then (pages t x)\<lparr>parent := np\<rparr> else pages t x)"
    using split_internal_ok [OF room _ _ nd(1)] by metis
  define m where "m = length old div 2"
  have m: "0 < m" "m < length old" using M(2) by (auto simp: m_def)
  have fresh: "np \<notin> set (pp # child_pages cs)" using sp1(2) inr unfolding split_off_def by blast
  have roots: "set (map (bt_page \<circ> snd) cs) \<subseteq> set (child_pages cs)" by auto
  have ps: "parent_split t pp np old m t1"
    unfolding parent_split_def using sp1(2,3) nd(2) m_def fresh by (auto simp: drop_map image_comp comp_def)
  have dr: "distinct (pp # np # map (bt_page \<circ> snd) (?xs @ (key, b2) # rs))"
    using distinct_roots [of cs] dis fresh roots unfolding cs'(1) [symmetric] by (auto simp del: set_concat)
  have par: "\<forall>e\<in>set old. parent (pages t (bt_page (snd e))) = pp" using nd(4) stored_parent by blast
  define tgt where "tgt = (if m < length ?xs then np else pp)"
  define m' where "m' = (if m < length ?xs then m else Suc m)"
  define t2 where "t2 = set_parent_page_num ?q tgt (internal_insert tgt key ?q t1)"
  have c1: "key_comparator t1 = cmp" "file_header t1 = ?h" using sp1(2) c by (auto simp: split_off_def)
  have np: "items (pages t1 np) = map child_item (drop m old)" "items (pages t1 pp) = map child_item (take m old)"
    using sp1(2) nd(2) m_def by (auto simp: split_off_def drop_map take_map)
  have lk: "internal_lookup (key_comparator t1) key (pages t1 tgt) = (length ls - (if m < length ?xs then m else 0), False, if m < length ?xs then length ?xs - m else length ?xs)"
  proof (cases "m < length ?xs")
    case True
    then show ?thesis
      using insert_position_sub [OF asc, of m "pages t1 np" "length rs"] np(1) c1
      by (auto simp: tgt_def old_def Suc_diff_le comp_def)
  next
    case False
    then show ?thesis
      using insert_position_sub [OF asc, of 0 "pages t1 pp" "m - Suc (length ls)"] np(2) c1
      by (auto simp: tgt_def old_def take_Cons' comp_def)
  qed
  have h: "halved t pp np cs m' t2"
    unfolding cs'(1) by (rule link_halves [OF ps nd(1) dr cs'(2) par tgt_def _ m'_def lk t2_def]) (use m in simp)
  have tq: "tgt \<noteq> ?q" using dr by (auto simp: tgt_def)
  note lc = link_child [OF tq lk, folded t2_def]
  have key0: "key_at np 0 t1 = fst (old ! m)" "key_at np 0 t2 = fst (cs ! m')"
  proof -
    show "key_at np 0 t1 = fst (old ! m)" using np(1) m by (simp add: key_at_def)
    have "m' < length cs" using m M(3) by (simp add: m'_def)
    then show "key_at np 0 t2 = fst (cs ! m')" using h by (simp add: halved_def key_at_def)
  qed
  have side: "cmp key (fst (old ! m)) > 0 \<longleftrightarrow> m < length ?xs"
    using split_side [OF asc m(1), of b1] m(2) by (simp add: old_def)
  have gp: "get_page pp t = SUCCESS" "pp \<noteq> BP_INVALID_PAGE_NUM"
    using inr [of pp] by (simp_all add: get_page_def BP_INVALID_PAGE_NUM_def)
  have "insert_entry_into_parent ?p ?q key t = insert_entry_into_parent pp np (key_at np 0 t2) t2"
    using gp full nd(3) sp1(1) side c1(1)
    by (subst insert_entry_into_parent.simps) (simp add: Let_def key0(1) t2_def tgt_def split del: if_split cong: if_cong, simp split: if_splits)
  moreover have "splitting t2 valid ctx (Suc n) (BNode pp (take m' cs)) (fst (cs ! m')) (BNode np (drop m' cs))"
  proof (rule halved_splitting [OF loc rg hd _ refl fl c bd _ _ _ _ _ _ h])
    show "\<forall>e\<in>set cs. \<exists>par. stored (pages t) par (snd e)" using nd(4,5) by (auto simp: cs_def old_def)
    show "0 < m'" "m' < length cs" "internal_max_size ?h div 2 \<le> int m'" "internal_max_size ?h div 2 \<le> int (length cs - m')"
      "int m' \<le> internal_max_size ?h" "int (length cs - m') \<le> internal_max_size ?h"
      using M m by (auto simp: m'_def m_def)
  qed (use lc sp1(2) in \<open>simp_all add: split_off_def\<close>)
  ultimately show thesis
    using that [folded cs_def] key0(2) lc(2-4) c1 sp1(2) by (simp add: split_off_def)
qed

lemma insert_into_parent_ok:
  assumes "splitting t valid ctx n b1 key b2" "key_comparator t = cmp" "page_count t + length ctx < BP_MAX_PAGE_NUM"
  shows "inserted_into t valid (path_left ctx @ bt_leaves b1 @ bt_leaves b2 @ path_right ctx) (Suc (length ctx))
    (insert_entry_into_parent (bt_page b1) (bt_page b2) key t)"
  using assms
proof (induction ctx arbitrary: t n b1 key b2)
  case Nil
  then show ?case using insert_new_root [OF Nil(1,2)] by simp
next
  case (Cons e ctx)
  obtain pp ls k rs where e: "e = (pp, ls, k, rs)" by (cases e)
  let ?cs = "ls @ (k, b1) # (key, b2) # rs"
  note sp = Cons.prems(1) [unfolded e]
  have lv: "path_left (e # ctx) @ bt_leaves b1 @ bt_leaves b2 @ path_right (e # ctx) = path_left ctx @ child_leaves ?cs @ path_right ctx"
    by (simp add: e)
  show ?case
  proof (cases "node_size (pages t pp) < max_size (file_header t) (pages t pp)")
    case True
    from insert_not_full [OF sp Cons.prems(2) True] show ?thesis unfolding lv by (auto simp: inserted_into_def)
  next
    case False
    have "page_count t < BP_MAX_PAGE_NUM" using Cons.prems(3) by simp
    then obtain np t2 m where st: "insert_entry_into_parent (bt_page b1) (bt_page b2) key t = insert_entry_into_parent pp np (fst (?cs ! m)) t2"
      "splitting t2 valid ctx (Suc n) (BNode pp (take m ?cs)) (fst (?cs ! m)) (BNode np (drop m ?cs))"
      "file_header t2 = file_header t" "key_comparator t2 = cmp" "page_count t2 \<le> Suc (page_count t)"
      by (rule insert_split_step [OF sp Cons.prems(2) False])
    have "page_count t2 + length ctx < BP_MAX_PAGE_NUM" using st(5) Cons.prems(3) by simp
    from Cons.IH [OF st(2,4) this] have "inserted_into t2 valid (path_left ctx @ child_leaves ?cs @ path_right ctx) (Suc (length ctx))
      (insert_entry_into_parent pp np (fst (?cs ! m)) t2)"
      unfolding bt_leaves_BNode bt_page.simps by (metis append.assoc append_take_drop_id concat_append map_append)
    then show ?thesis unfolding lv st(1) inserted_into_def st(3,4) Cons.prems(2) using st(5) by fastforce
  qed
qed

section \<open>Inserting into a leaf\<close>

lemma ascending_halves:
  assumes "ascending (map fst its)" "0 < m" "m < length its" "bounds_ok l" "\<forall>k\<in>fst ` set its. above cmp l k \<and> below cmp u k"
    and "int m \<le> leaf_max_size h" "int (length its - m) \<le> leaf_max_size h"
  defines "key \<equiv> fst (its ! m)"
  shows "wf cmp valid h 0 l (Some key) (BLeaf p (take m its))" "wf cmp valid h 0 (Some key) u (BLeaf q (drop m its))"
    "valid key" "strictly_above cmp l key" "below cmp u key"
proof -
  have asc: "ascending (map fst (take m its) @ map fst (drop m its))" using assms(1) by (metis append_take_drop_id map_append)
  have dm: "drop m its = its ! m # drop (Suc m) its" using assms(3) by (simp add: Cons_nth_drop_Suc)
  have mem: "its ! m \<in> set its" using assms(3) by simp
  show k: "valid key" using ascending_valid [OF assms(1)] mem by (simp add: key_def)
  show "below cmp u key" using assms(5) mem by (simp add: key_def)
  have lt: "cmp x key < 0" if "x \<in> fst ` set (take m its)" for x
    using asc that by (auto simp: ascending_append dm key_def)
  have ge: "cmp key x \<le> 0" if "x \<in> fst ` set (drop m its)" for x
    using asc that cmp_refl [OF k] by (auto simp: ascending_append ascending_Cons dm key_def)
  show "wf cmp valid h 0 l (Some key) (BLeaf p (take m its))"
    using asc lt assms(3,5,6) by (auto simp: ascending_append below_def dest: in_set_takeD)
  show "wf cmp valid h 0 (Some key) u (BLeaf q (drop m its))"
    using asc ge assms(5,7) by (auto simp: ascending_append above_def dest: in_set_dropD)
  have x: "its ! 0 \<in> set (take m its)" "its ! 0 \<in> set its" using assms(2,3) by (cases its; cases m; auto)+
  have "cmp v key < 0" if "l = Some v" for v
  proof (rule cmp_le_less_trans [of v "fst (its ! 0)"])
    show "cmp v (fst (its ! 0)) \<le> 0" using assms(5) x(2) that by (auto simp: above_def)
  qed (use that assms(4) k lt x ascending_valid [OF assms(1)] in auto)
  then show "strictly_above cmp l key" by (cases l) (auto simp: strictly_above_def)
qed

text \<open>The leaf after a split and the insertion of the new entry on its side.\<close>

lemma split_leaf_insert:
  fixes key :: IKey and rid :: RID
  assumes so: "split_off t p q t1" and oth: "\<And>x. x \<noteq> p \<Longrightarrow> x \<noteq> q \<Longrightarrow> pages t1 x = pages t x" and ne: "p \<noteq> q" and leaf: "is_leaf (pages t p)"
    and its: "items (pages t p) = its" and i: "i \<le> length its"
  defines "its' \<equiv> list_insert_at i [(key, RidV rid)] its" and "m \<equiv> length its div 2"
  defines "t4 \<equiv> leaf_set_next_page p q (set_parent_page_num q (parent (pages (leaf_set_next_page q (next_brother (pages t1 p)) t1) p))
      (leaf_set_next_page q (next_brother (pages t1 p)) t1))"
  defines "m' \<equiv> (if i < m then Suc m else m)"
  defines "t5 \<equiv> (if i < length (items (pages t4 p)) then leaf_insert p i key (RidV rid) t4 else leaf_insert q (i - length (items (pages t4 p))) key (RidV rid) t4)"
  shows "items (pages t5 p) = take m' its'" "items (pages t5 q) = drop m' its'" "is_leaf (pages t5 p)" "is_leaf (pages t5 q)"
    "parent (pages t5 p) = parent (pages t p)" "parent (pages t5 q) = parent (pages t p)"
    "next_brother (pages t5 p) = q" "next_brother (pages t5 q) = next_brother (pages t p)"
    "x \<noteq> p \<Longrightarrow> x \<noteq> q \<Longrightarrow> pages t5 x = pages t x"
    "file_header t5 = file_header t" "key_comparator t5 = key_comparator t" "page_count t5 = page_count t1" "allocated t5 = allocated t1"
proof -
  have p1: "pages t1 p = (pages t p)\<lparr>items := take m its\<rparr>" "is_leaf (pages t1 q)" "parent (pages t1 q) = parent (pages t p)" "items (pages t1 q) = drop m its"
    "file_header t1 = file_header t" "key_comparator t1 = key_comparator t"
    using so leaf by (auto simp: split_off_def its m_def)
  have p4: "pages t4 p = (pages t p)\<lparr>items := take m its, next_brother := q\<rparr>" "items (pages t4 q) = drop m its" "is_leaf (pages t4 q)"
    "parent (pages t4 q) = parent (pages t p)" "next_brother (pages t4 q) = next_brother (pages t p)" "x \<noteq> p \<Longrightarrow> x \<noteq> q \<Longrightarrow> pages t4 x = pages t1 x"
    and s4: "file_header t4 = file_header t1" "key_comparator t4 = key_comparator t1" "page_count t4 = page_count t1" "allocated t4 = allocated t1" for x
    using p1 ne by (simp_all add: t4_def leaf_set_next_page_def set_parent_page_num_def node_simps)
  have len: "length (items (pages t4 p)) = m" by (simp add: p4(1) m_def)
  have t5: "t5 = (if i < m then leaf_insert p i key (RidV rid) t4 else leaf_insert q (i - m) key (RidV rid) t4)" by (simp add: t5_def len)
  have lists: "take m' its' = (if i < m then list_insert_at i [(key, RidV rid)] (take m its) else take m its)"
    "drop m' its' = (if i < m then drop m its else list_insert_at (i - m) [(key, RidV rid)] (drop m its))"
    using i by (auto simp: its'_def m'_def list_insert_at_def m_def min_def not_less Suc_diff_le drop_take)
  show "items (pages t5 p) = take m' its'" "items (pages t5 q) = drop m' its'"
    unfolding lists using ne by (simp_all add: t5 p4 leaf_insert_def node_simps)
  show "is_leaf (pages t5 p)" "is_leaf (pages t5 q)" "parent (pages t5 p) = parent (pages t p)" "parent (pages t5 q) = parent (pages t p)"
    "next_brother (pages t5 p) = q" "next_brother (pages t5 q) = next_brother (pages t p)"
    using ne leaf by (simp_all add: t5 p4 leaf_insert_def node_simps)
  show "x \<noteq> p \<Longrightarrow> x \<noteq> q \<Longrightarrow> pages t5 x = pages t x" using oth by (simp add: t5 p4(6) leaf_insert_def node_simps)
  show "file_header t5 = file_header t" "key_comparator t5 = key_comparator t" "page_count t5 = page_count t1" "allocated t5 = allocated t1"
    by (simp_all add: t5 leaf_insert_def node_simps s4 p1)
qed

lemma insert_leaf_full:
  assumes loc: "located t valid ctx 0 l u p (parent (pages t p)) [p] [p]" and c: "key_comparator t = cmp"
    and leaf: "is_leaf (pages t p)" "items (pages t p) = its" and i: "i \<le> length its"
    and its': "its' = list_insert_at i [(key, RidV rid)] its" "ascending (map fst its')" "\<forall>k\<in>fst ` set its'. above cmp l k \<and> below cmp u k"
    and len: "int (length its) = leaf_max_size (file_header t)" and room: "page_count t + length ctx + 1 < BP_MAX_PAGE_NUM"
    and lk: "leaf_lookup cmp key (pages t p) = (i, False)"
  shows "entry_added t valid (path_left ctx) its' (path_right ctx) (insert_entry_into_leaf_node p key rid t)"
proof -
  let ?h = "file_header t"
  note d = locatedD [OF loc]
  have al: "allocated t p" "p < int (page_count t)" using d(5) [of p] by simp_all
  have rm: "page_count t < BP_MAX_PAGE_NUM" using room by simp
  obtain q t1 where q: "split_leaf p t = (Inr q, t1)" "split_off t p q t1" "\<And>x. x \<noteq> p \<Longrightarrow> x \<noteq> q \<Longrightarrow> pages t1 x = pages t x"
    by (rule split_leaf_ok [OF rm al leaf(1)]) blast
  have fresh: "q \<notin> set (path_pages ctx @ [p])"
  proof
    assume "q \<in> set (path_pages ctx @ [p])"
    with d(5) [OF this] q(2) show False unfolding split_off_def by blast
  qed
  then have ne: "p \<noteq> q" by auto
  define m where "m = length its div 2"
  define t4 where "t4 = leaf_set_next_page p q (set_parent_page_num q (parent (pages (leaf_set_next_page q (next_brother (pages t1 p)) t1) p))
      (leaf_set_next_page q (next_brother (pages t1 p)) t1))"
  define m' where "m' = (if i < m then Suc m else m)"
  define t5 where "t5 = (if i < length (items (pages t4 p)) then leaf_insert p i key (RidV rid) t4 else leaf_insert q (i - length (items (pages t4 p))) key (RidV rid) t4)"
  note s5 = split_leaf_insert [where key = key and rid = rid, OF q(2,3) ne leaf i, folded its'(1) m_def, folded t4_def, folded m'_def t5_def]
  have M: "4 \<le> length its" "length its' = Suc (length its)" using len d(8) its'(1) by (simp_all add: sizes_ok_def)
  have m': "0 < m'" "m' < length its'" "int m' \<le> leaf_max_size ?h" "int (length its' - m') \<le> leaf_max_size ?h"
    "leaf_max_size ?h div 2 \<le> int m'" "leaf_max_size ?h div 2 \<le> int (length its' - m')"
    using M len by (auto simp: m'_def m_def)
  let ?b1 = "BLeaf p (take m' its')" and ?b2 = "BLeaf q (drop m' its')" and ?k = "fst (its' ! m')"
  have bl: "bounds_ok l" using path_wf_bounds [OF d(2) [unfolded c]] by simp
  note halves = ascending_halves [OF its'(2) m'(1,2) bl its'(3) m'(3,4)]
  have chain: "leaf_chain (pages t5) (map fst (path_left ctx) @ p # q # map fst (path_right ctx))"
  proof (rule leaf_chain_insert [of "pages t"])
    show "leaf_chain (pages t) (map fst (path_left ctx) @ p # map fst (path_right ctx))" using d(7) by simp
    have "distinct (bt_pages (plug ctx ?b1))" using d(4) by (simp add: plug_pages_distinct)
    from distinct_leaf_pages [OF this] show "distinct (map fst (path_left ctx) @ p # map fst (path_right ctx))" by (simp add: plug_leaves)
    show "q \<notin> set (map fst (path_left ctx) @ p # map fst (path_right ctx))" using fresh path_leaf_pages [of ctx] by auto
  qed (use s5 in auto)
  have loc5: "located t5 valid ctx 0 l u p (parent (pages t p)) (bt_pages ?b1 @ bt_pages ?b2) (map fst (bt_leaves ?b1 @ bt_leaves ?b2))"
  proof (rule located_change [OF loc])
    show "same_node (pages t5 x) (pages t x)" if x: "x \<in> set (path_pages ctx)" for x
    proof -
      have "x \<noteq> p" "x \<noteq> q" using x fresh d(4) by auto
      then show ?thesis using s5(9) by simp
    qed
  qed (use s5 q(2) fresh ne chain d(4) in \<open>auto simp: split_off_def\<close>)
  have st: "stored (pages t5) (parent (pages t p)) ?b1" "stored (pages t5) (parent (pages t p)) ?b2" using s5 by simp_all
  have sp: "splitting t5 valid ctx 0 ?b1 ?k ?b2"
  proof -
    have "filled ?h ?b1" "filled ?h ?b2" using m' by simp_all
    moreover have "file_header t5 = ?h" "key_comparator t5 = cmp" using s5 c by simp_all
    ultimately show ?thesis using loc5 st halves unfolding splitting_def bt_page.simps by metis
  qed
  have "key_at q 0 t5 = ?k" using s5(2) m'(2) by (simp add: key_at_def)
  then have run: "insert_entry_into_leaf_node p key rid t = insert_entry_into_parent p q ?k t5"
    using lk c leaf len q(1)
    by (simp add: insert_entry_into_leaf_node_def Let_def node_size_def max_size_def t4_def [symmetric]) (auto simp: t5_def split: if_splits)
  have "page_count t5 + length ctx < BP_MAX_PAGE_NUM" "key_comparator t5 = cmp" using room q(2) s5(11,12) c by (auto simp: split_off_def)
  then obtain t' b' where "insert_entry_into_parent p q ?k t5 = Some (SUCCESS, t')" "index_inv t' valid b'"
    "bt_leaves b' = path_left ctx @ bt_leaves ?b1 @ bt_leaves ?b2 @ path_right ctx" "key_comparator t' = cmp"
    "file_header t' = (file_header t5)\<lparr>root_page := root_page (file_header t')\<rparr>"
    using insert_into_parent_ok [OF sp] by (auto simp: inserted_into_def)
  moreover have "take m' its' @ drop m' its' @ zs = its' @ zs" for zs by (metis append.assoc append_take_drop_id)
  ultimately show ?thesis
    unfolding entry_added_def run using c s5(10) by (intro exI [of _ t'] exI [of _ b']) (simp add: bt_items_def)
qed

lemma insert_leaf_room:
  assumes loc: "located t valid ctx 0 l u p (parent (pages t p)) [p] [p]" and c: "key_comparator t = cmp"
    and leaf: "is_leaf (pages t p)" "items (pages t p) = its"
    and fl: "if ctx = [] then its \<noteq> [] else leaf_max_size (file_header t) div 2 \<le> int (length its)"
    and its': "its' = list_insert_at i [(key, RidV rid)] its" "ascending (map fst its')" "\<forall>k\<in>fst ` set its'. above cmp l k \<and> below cmp u k"
    and len: "int (length its) < leaf_max_size (file_header t)" and lk: "leaf_lookup cmp key (pages t p) = (i, False)"
  shows "entry_added t valid (path_left ctx) its' (path_right ctx) (insert_entry_into_leaf_node p key rid t)"
proof -
  define t' where "t' = leaf_insert p i key (RidV rid) t"
  let ?b = "BLeaf p its'"
  have sel: "pages t' x = (if x = p then (pages t p)\<lparr>items := its'\<rparr> else pages t x)" "file_header t' = file_header t"
    "key_comparator t' = key_comparator t" "page_count t' = page_count t" "allocated t' = allocated t" for x
    by (simp_all add: t'_def leaf_insert_def node_simps recover_insert_items_def leaf(2) its'(1))
  have run: "insert_entry_into_leaf_node p key rid t = Some (SUCCESS, t')"
    using lk c leaf len by (simp add: insert_entry_into_leaf_node_def node_size_def max_size_def t'_def)
  have "located t' valid ctx 0 l u (bt_page ?b) (parent (pages t p)) (bt_pages ?b) (map fst (bt_leaves ?b))"
  proof -
    have "located t' valid ctx 0 l u p (parent (pages t p)) [p] [p]"
      by (rule located_keep [OF loc]) (use locatedD(4) [OF loc] in \<open>auto simp: sel\<close>)
    then show ?thesis by simp
  qed
  moreover have "length its' = Suc (length its)" by (simp add: its'(1))
  ultimately have "index_inv t' valid (plug ctx ?b)"
    using leaf(1) its'(2,3) len fl c by (intro located_plug) (auto simp: sel split: if_splits)
  then show ?thesis
    unfolding entry_added_def run using c sel
    by (intro exI [of _ t'] exI [of _ "plug ctx ?b"]) (simp add: bt_items_def plug_leaves)
qed

lemma lower_bound_absent:
  assumes "ascending ks" "valid v" "lower_bound cmp ks v = (i, False)"
  shows "\<forall>k\<in>set ks. cmp k v \<noteq> 0"
proof
  note spec = lower_bound_spec [OF assms]
  fix k assume "k \<in> set ks"
  then obtain j where j: "j < length ks" "k = ks ! j" by (auto simp: in_set_conv_nth)
  consider "j < i" | "j = i" | "i < j" by linarith
  then show "cmp k v \<noteq> 0"
  proof cases
    case 3
    then have i: "cmp (ks ! i) v \<ge> 0" "cmp (ks ! i) k < 0" using spec(1) j ascending_nth [OF assms(1)] by (auto simp: lb_pos_def)
    moreover have "valid (ks ! i)" "valid k" using ascending_valid [OF assms(1)] j 3 by auto
    ultimately show ?thesis using cmp_less_le_trans [of "ks ! i" k v] assms(2) by auto
  qed (use spec j in \<open>auto simp: lb_pos_def\<close>)
qed

text \<open>An entry with the key is in the leaf of the key.\<close>

lemma find_leaf_only:
  assumes "index_inv t valid b" "key_comparator t = cmp" "valid key" "find_leaf key t = Some (Inr p)" "items (pages t p) = its"
    and "it \<in> set (bt_items b)" "cmp (fst it) key = 0"
  shows "it \<in> set its"
proof -
  have ok: "tree_ok t valid b" using assms(1) by (simp add: index_inv_def)
  obtain ls rs where f: "bt_leaves b = ls @ (p, its) # rs" "\<forall>(q, jts)\<in>set ls. \<forall>k\<in>fst ` set jts. cmp k key < 0"
    "\<forall>(q, jts)\<in>set rs. \<forall>k\<in>fst ` set jts. cmp key k < 0"
    using find_leaf_reaches [OF ok assms(2,3)] assms(4,5) by auto
  have asc: "ascending (map fst (bt_items b))"
    using assms(1,2) by (intro bt_items_ascending [of None None]) (auto simp: index_inv_def tree_ok_def)
  then have "cmp key (fst it) = 0" using cmp_zero_sym [OF _ assms(3,7)] ascending_valid [OF asc] assms(6) by simp
  then show ?thesis using assms(6,7) f by (force simp: bt_items_def)
qed

lemma insert_entry_ok:
  assumes inv: "index_inv t valid b" and c: "key_comparator t = cmp" and key: "valid (make_key t ukey rid)"
    and room: "page_count t + bt_height b + 1 < BP_MAX_PAGE_NUM"
  shows "if \<exists>it\<in>set (bt_items b). cmp (fst it) (make_key t ukey rid) = 0
    then insert_entry ukey rid t = Some (RECORD_DUPLICATE_KEY, t)
    else \<exists>lv its rv i. bt_items b = concat (map snd lv) @ its @ concat (map snd rv) \<and>
      entry_added t valid lv (list_insert_at i [(make_key t ukey rid, RidV rid)] its) rv (insert_entry ukey rid t)"
proof -
  let ?k = "make_key t ukey rid" and ?h = "file_header t"
  obtain ctx p its l u where f: "find_leaf ?k t = Some (Inr p)" "b = plug ctx (BLeaf p its)" "length ctx = bt_height b"
    "located t valid ctx 0 l u p (parent (pages t p)) [p] [p]" "wf cmp valid ?h 0 l u (BLeaf p its)"
    "is_leaf (pages t p)" "items (pages t p) = its" "if ctx = [] then its \<noteq> [] else leaf_max_size ?h div 2 \<le> int (length its)"
    "above cmp l ?k" "below cmp u ?k"
    by (rule find_leaf_path [OF inv c key])
  have items: "bt_items b = concat (map snd (path_left ctx)) @ its @ concat (map snd (path_right ctx))"
    by (simp add: f(2) bt_items_def plug_leaves)
  have w: "int (length its) \<le> leaf_max_size ?h" "ascending (map fst its)" "\<forall>k\<in>fst ` set its. above cmp l k \<and> below cmp u k"
    using f(5) by simp_all
  have ne: "\<not> is_empty t" using inv by (auto simp: is_empty_def index_inv_def tree_ok_def)
  obtain i found where lk: "leaf_lookup cmp ?k (pages t p) = (i, found)" by force
  have lb: "lower_bound cmp (map fst its) ?k = (i, found)" using lk by (simp add: leaf_lookup_def f(7))
  note spec = lower_bound_spec [OF w(2) key lb]
  have run: "insert_entry ukey rid t = insert_entry_into_leaf_node p ?k rid t" using ne f(1) by (simp add: insert_entry_def Let_def)
  show ?thesis
  proof (cases found)
    case True
    then have "its ! i \<in> set (bt_items b)" "cmp (fst (its ! i)) ?k = 0" using spec(2) items by auto
    moreover have "insert_entry ukey rid t = Some (RECORD_DUPLICATE_KEY, t)"
      unfolding run using lk True c by (simp add: insert_entry_into_leaf_node_def)
    ultimately show ?thesis by auto
  next
    case False
    let ?its = "list_insert_at i [(?k, RidV rid)] its"
    have absent: "\<forall>k\<in>set (map fst its). cmp k ?k \<noteq> 0" using lower_bound_absent [OF w(2) key] lb False by simp
    have asc': "ascending (map fst ?its)"
      using ascending_insert [OF w(2) key spec(1) absent] by (simp add: map_list_insert_at)
    have bd: "\<forall>k\<in>fst ` set ?its. above cmp l k \<and> below cmp u k" using w(3) f(9,10) by auto
    have "entry_added t valid (path_left ctx) ?its (path_right ctx) (insert_entry ukey rid t)"
    proof (cases "int (length its) < leaf_max_size ?h")
      case True
      show ?thesis unfolding run by (rule insert_leaf_room [OF f(4) c f(6-8) refl asc' bd True]) (use lk False in simp)
    next
      case nf: False
      show ?thesis unfolding run
        by (rule insert_leaf_full [OF f(4) c f(6,7) _ refl asc' bd]) (use spec(1) lk False nf w(1) room f(3) in \<open>simp_all add: lb_pos_def\<close>)
    qed
    moreover have "\<not> (\<exists>it\<in>set (bt_items b). cmp (fst it) ?k = 0)"
      using find_leaf_only [OF inv c key f(1,7)] absent by auto
    ultimately show ?thesis using items by auto
  qed
qed

end

section \<open>The index as a sorted list of entries\<close>

text \<open>The index has height \<open>n\<close> and holds the entries \<open>its\<close>, in key order. An index without a root page holds none.\<close>

definition index_holds :: "btree \<Rightarrow> (IKey \<Rightarrow> bool) \<Rightarrow> nat \<Rightarrow> item list \<Rightarrow> bool" where
  "index_holds t valid n its \<longleftrightarrow>
     (if is_empty t then n = 0 \<and> its = [] \<and> sizes_ok (file_header t)
      else \<exists>b. index_inv t valid b \<and> bt_height b = n \<and> bt_items b = its)"

lemma index_inv_not_empty: "index_inv t valid b \<Longrightarrow> \<not> is_empty t"
  by (auto simp: is_empty_def index_inv_def tree_ok_def)

lemma index_inv_holds: "index_inv t valid b \<Longrightarrow> index_holds t valid (bt_height b) (bt_items b)"
  using index_inv_not_empty by (auto simp: index_holds_def)

lemma create_new_tree_ok:
  assumes "is_empty t" "sizes_ok (file_header t)" "page_count t < BP_MAX_PAGE_NUM" "key_comparator t = cmp" "valid key"
  obtains t' where "create_new_tree key rid t = (SUCCESS, t')" "index_holds t' valid 0 [(key, RidV rid)]"
    "key_comparator t' = key_comparator t" "file_header t' = (file_header t)\<lparr>root_page := root_page (file_header t')\<rparr>"
proof -
  obtain q t1 where q: "allocate_page t = (Inr q, t1)" "0 \<le> q" "q < int (page_count t1)"
    "\<forall>p. allocated t p \<longrightarrow> p < int (page_count t) \<longrightarrow> p \<noteq> q" "allocated t1 = (allocated t)(q := True)"
    "page_count t \<le> page_count t1" "page_count t1 \<le> Suc (page_count t)" "\<forall>p. p \<noteq> q \<longrightarrow> pages t1 p = pages t p"
    "file_header t1 = file_header t" "key_comparator t1 = key_comparator t"
    by (rule allocate_page_ok [OF assms(3)])
  define t' where "t' = update_root_page_num_locked q (leaf_insert q 0 key (RidV rid) (leaf_init_empty q t1))"
  have sel: "file_header t' = (file_header t)\<lparr>root_page := q\<rparr>" "key_comparator t' = cmp" "page_count t' = page_count t1" "allocated t' = allocated t1"
    "is_leaf (pages t' q)" "parent (pages t' q) = BP_INVALID_PAGE_NUM" "next_brother (pages t' q) = BP_INVALID_PAGE_NUM" "items (pages t' q) = [(key, RidV rid)]"
    using q(9,10) assms(4)
    by (simp_all add: t'_def update_root_page_num_locked_def leaf_insert_def leaf_init_empty_def node_simps init_empty_def)
  let ?b = "BLeaf q [(key, RidV rid)]"
  have "tree_ok t' valid ?b"
    using sel q(2,3) assms(5) by (simp add: tree_ok_def BP_INVALID_PAGE_NUM_def above_def below_def key_ascending_def)
  moreover have "wf cmp valid (file_header t') 0 None None ?b"
    using sel assms(2,5) by (simp add: sizes_ok_def above_def below_def key_ascending_def)
  ultimately have "index_inv t' valid ?b"
    using sel q(5) assms(2) by (auto simp: index_inv_def)
  from index_inv_holds [OF this] have "index_holds t' valid 0 [(key, RidV rid)]" by (simp add: bt_items_def)
  moreover have "create_new_tree key rid t = (SUCCESS, t')"
    using assms(1) q(1) by (simp add: create_new_tree_def is_empty_def t'_def)
  ultimately show thesis using that sel assms(4) by simp
qed

lemma entry_added_at:
  assumes "entry_added t valid lv (list_insert_at i [e] its) rv r"
  obtains t' n' xs ys where "concat (map snd lv) @ its @ concat (map snd rv) = xs @ ys" "r = Some (SUCCESS, t')"
    "index_holds t' valid n' (xs @ e # ys)" "key_comparator t' = key_comparator t"
    "file_header t' = (file_header t)\<lparr>root_page := root_page (file_header t')\<rparr>"
proof -
  obtain t' b' where t': "r = Some (SUCCESS, t')" "index_inv t' valid b'"
    "bt_items b' = concat (map snd lv) @ list_insert_at i [e] its @ concat (map snd rv)"
    "key_comparator t' = key_comparator t" "file_header t' = (file_header t)\<lparr>root_page := root_page (file_header t')\<rparr>"
    using assms by (auto simp: entry_added_def)
  let ?xs = "concat (map snd lv) @ take i its" and ?ys = "drop i its @ concat (map snd rv)"
  have "index_holds t' valid (bt_height b') (?xs @ e # ?ys)"
    using index_inv_holds [OF t'(2)] t'(3) by (simp add: list_insert_at_def)
  moreover have "concat (map snd lv) @ its @ concat (map snd rv) = ?xs @ ?ys" by (metis append.assoc append_take_drop_id)
  ultimately show thesis using that t' by blast
qed

lemma insert_entry_spec:
  assumes "index_type ty" "key_comparator t = index_cmp fsub ty len" "attr_length (file_header t) = len"
    and "index_holds t (index_key len) n its" "length ukey = len" "rid_ok rid" "page_count t + n + 1 < BP_MAX_PAGE_NUM"
  shows "if \<exists>it\<in>set its. index_cmp fsub ty len (fst it) (make_key t ukey rid) = 0
    then insert_entry ukey rid t = Some (RECORD_DUPLICATE_KEY, t)
    else \<exists>t' n' xs ys. its = xs @ ys \<and> insert_entry ukey rid t = Some (SUCCESS, t')
      \<and> index_holds t' (index_key len) n' (xs @ (make_key t ukey rid, RidV rid) # ys)
      \<and> key_comparator t' = key_comparator t \<and> file_header t' = (file_header t)\<lparr>root_page := root_page (file_header t')\<rparr>"
proof -
  let ?k = "make_key t ukey rid"
  note ord = index_order_of_type [OF assms(1), of fsub len]
  have key: "index_key len ?k" using assms(3,5,6) by (simp add: make_key_def ikey_ok_def)
  show ?thesis
  proof (cases "is_empty t")
    case True
    have "its = []" "sizes_ok (file_header t)" using assms(4) True by (simp_all add: index_holds_def)
    moreover obtain t' where "create_new_tree ?k rid t = (SUCCESS, t')" "index_holds t' (index_key len) 0 [(?k, RidV rid)]"
      "key_comparator t' = key_comparator t" "file_header t' = (file_header t)\<lparr>root_page := root_page (file_header t')\<rparr>"
      by (rule create_new_tree_ok [where valid = "index_key len" and key = ?k, OF True calculation(2) _ assms(2) key])
        (use assms(7) in simp_all)
    ultimately show ?thesis using True by (auto simp: insert_entry_def Let_def)
  next
    case False
    obtain b where b: "index_inv t (index_key len) b" "bt_height b = n" "bt_items b = its"
      using assms(4) False by (auto simp: index_holds_def)
    have "page_count t + bt_height b + 1 < BP_MAX_PAGE_NUM" using assms(7) b(2) by simp
    note ok = index_order.insert_entry_ok [OF ord b(1) assms(2) key this, unfolded b(3)]
    show ?thesis
    proof (cases "\<exists>it\<in>set its. index_cmp fsub ty len (fst it) ?k = 0")
      case True
      with ok show ?thesis by simp
    next
      case False
      then obtain lv jts rv i where e: "its = concat (map snd lv) @ jts @ concat (map snd rv)"
        "entry_added t (index_key len) lv (list_insert_at i [(?k, RidV rid)] jts) rv (insert_entry ukey rid t)"
        using ok by auto
      obtain t' n' xs ys where "concat (map snd lv) @ jts @ concat (map snd rv) = xs @ ys" "insert_entry ukey rid t = Some (SUCCESS, t')"
        "index_holds t' (index_key len) n' (xs @ (?k, RidV rid) # ys)" "key_comparator t' = key_comparator t"
        "file_header t' = (file_header t)\<lparr>root_page := root_page (file_header t')\<rparr>"
        by (rule entry_added_at [OF e(2)])
      with e(1) show ?thesis unfolding if_not_P [OF False] by blast
    qed
  qed
qed

text \<open>
  C1: Inserting an entry into an index whose file has room for the new pages returns. When an entry with the same
  key and record identifier is there, it reports a duplicate and changes nothing. Otherwise it succeeds, and the
  result is again a well-formed index (ordered, balanced, with filled nodes that fit their pages, chained leaves
  and right parent links) that holds the old entries and the new one at its place in the order.
\<close>

theorem insert_entry_correct:
  assumes "index_type ty" "key_comparator t = index_cmp fsub ty len" "attr_length (file_header t) = len"
    and "index_holds t (index_key len) n its" "length ukey = len" "rid_ok rid" "page_count t + n + 1 < BP_MAX_PAGE_NUM"
  shows "if \<exists>it\<in>set its. index_cmp fsub ty len (fst it) (make_key t ukey rid) = 0
    then insert_entry ukey rid t = Some (RECORD_DUPLICATE_KEY, t)
    else \<exists>t' n' xs ys. its = xs @ ys \<and> insert_entry ukey rid t = Some (SUCCESS, t')
      \<and> index_holds t' (index_key len) n' (xs @ (make_key t ukey rid, RidV rid) # ys)
      \<and> key_comparator t' = key_comparator t \<and> file_header t' = (file_header t)\<lparr>root_page := root_page (file_header t')\<rparr>"
  using assms by (rule insert_entry_spec)

text \<open>A full root leaf; the insertion splits it.\<close>

definition ex_full_leaf :: btree where
  "ex_full_leaf = ex_leaf_tree
     \<lparr>file_header := (file_header ex_leaf_tree)\<lparr>internal_max_size := 6\<rparr>,
      pages := (\<lambda>p. if p = 2 then \<lparr>is_leaf = True, parent = -1, next_brother = -1,
                                   items = [ex_item 3, ex_item 8, ex_item 10, ex_item 12]\<rparr> else zero_node)\<rparr>"

lemma ex_full_leaf_inv:
  "index_inv ex_full_leaf (index_key 4) (BLeaf 2 [ex_item 3, ex_item 8, ex_item 10, ex_item 12])" (is "index_inv _ _ ?b")
proof -
  have "tree_ok ex_full_leaf (index_key 4) ?b"
    by (simp add: tree_ok_def ex_full_leaf_def ex_leaf_tree_def ex_item_def key_ascending_def above_def below_def BP_INVALID_PAGE_NUM_def)
  moreover have "wf (key_comparator ex_full_leaf) (index_key 4) (file_header ex_full_leaf) 0 None None ?b"
    by (simp add: ex_full_leaf_def ex_leaf_tree_def ex_item_def key_ascending_def above_def below_def)
  ultimately show ?thesis
    by (auto simp: index_inv_def sizes_ok_def ex_full_leaf_def ex_leaf_tree_def)
qed

lemma ex_full_leaf_ok:
  "index_holds ex_full_leaf (index_key 4) 0 [ex_item 3, ex_item 8, ex_item 10, ex_item 12]"
  "key_comparator ex_full_leaf = index_cmp (\<lambda>_ _. None) INTS 4" "attr_length (file_header ex_full_leaf) = 4" "page_count ex_full_leaf = 3"
  using index_inv_holds [OF ex_full_leaf_inv] by (simp_all add: bt_items_def ex_full_leaf_def ex_leaf_tree_def)

lemma ex_index_key: "int32 v \<Longrightarrow> attr_length (file_header t) = 4 \<Longrightarrow> make_key t (int_to_bytes 4 v) \<lparr>page_num = 1, slot_num = v\<rparr> = ex_key v"
  by (simp add: make_key_def ex_key_def)

theorem insert_entry_correct_witness:
  "\<exists>t' n' xs ys. [ex_item 3, ex_item 8, ex_item 10, ex_item 12] = xs @ ys
    \<and> insert_entry (int_to_bytes 4 5) \<lparr>page_num = 1, slot_num = 5\<rparr> ex_full_leaf = Some (SUCCESS, t')
    \<and> index_holds t' (index_key 4) n' (xs @ ex_item 5 # ys)"
proof -
  have "\<not> (\<exists>it\<in>set [ex_item 3, ex_item 8, ex_item 10, ex_item 12]. index_cmp (\<lambda>_ _. None) INTS 4 (fst it) (ex_key 5) = 0)"
    by (simp add: ex_item_def)
  then show ?thesis
    using insert_entry_correct [OF _ ex_full_leaf_ok(2,3,1), of "int_to_bytes 4 5" "\<lparr>page_num = 1, slot_num = 5\<rparr>"]
    by (auto simp: index_type_def ex_index_key ex_full_leaf_ok rid_ok_def BP_MAX_PAGE_NUM_def BP_PAGE_DATA_SIZE_eq ex_item_def [of 5] split: if_splits)
qed

end
