(* ===== verification/BplusMerge.thy ===== *)
theory BplusMerge
  imports BplusInsert
begin

text \<open>
  Two neighbouring nodes below a common parent: what taking an item from the neighbour (\<open>redistribute\<close>) and
  merging with it (\<open>coalesce\<close> up to its recursive call) do to the pages, and that the subtree of the parent stays
  ordered and stored, with the same entries in the same order.
\<close>

section \<open>A subtree at a path\<close>

definition placed :: "btree \<Rightarrow> (IKey \<Rightarrow> bool) \<Rightarrow> path \<Rightarrow> nat \<Rightarrow> IKey option \<Rightarrow> IKey option \<Rightarrow> bt \<Rightarrow> bool" where
  "placed t valid ctx n l u b \<longleftrightarrow>
     located t valid ctx n l u (bt_page b) (parent (pages t (bt_page b))) (bt_pages b) (map fst (bt_leaves b)) \<and>
     stored (pages t) (parent (pages t (bt_page b))) b \<and> wf (key_comparator t) valid (file_header t) n l u b"

text \<open>A node that may lack one item; the root may lack more.\<close>

fun lacking :: "IndexFileHeader \<Rightarrow> bool \<Rightarrow> bt \<Rightarrow> bool" where
  "lacking h is_root (BLeaf p its) \<longleftrightarrow> (if is_root then True else leaf_max_size h div 2 \<le> int (length its) + 1)"
| "lacking h is_root (BNode p cs) \<longleftrightarrow> (if is_root then cs \<noteq> [] else internal_max_size h div 2 \<le> int (length cs) + 1) \<and> (\<forall>e\<in>set cs. filled h (snd e))"

lemma placedD:
  assumes "placed t valid ctx n lo hi (BNode pp cs)"
  shows "distinct (pp # child_pages cs)" "e \<in> set cs \<Longrightarrow> stored (pages t) pp (snd e)" "items (pages t pp) = map child_item cs" "\<not> is_leaf (pages t pp)"
    "p \<in> set (pp # child_pages cs) \<Longrightarrow> 0 \<le> p \<and> p < int (page_count t) \<and> allocated t p" "sizes_ok (file_header t)" "path_filled (file_header t) ctx"
    "path_wf (key_comparator t) valid (file_header t) ctx n lo hi" "wf (key_comparator t) valid (file_header t) n lo hi (BNode pp cs)"
proof -
  have loc: "located t valid ctx n lo hi pp (parent (pages t pp)) (pp # child_pages cs) (map fst (child_leaves cs))"
    and st: "stored (pages t) (parent (pages t pp)) (BNode pp cs)"
    and w: "wf (key_comparator t) valid (file_header t) n lo hi (BNode pp cs)" using assms by (simp_all add: placed_def)
  note d = locatedD [OF loc]
  show "distinct (pp # child_pages cs)" using d(4) by simp
  show "0 \<le> p \<and> p < int (page_count t) \<and> allocated t p" if "p \<in> set (pp # child_pages cs)" by (rule d(5)) (use that in auto)
  show "e \<in> set cs \<Longrightarrow> stored (pages t) pp (snd e)" "items (pages t pp) = map child_item cs" "\<not> is_leaf (pages t pp)" using st by simp_all
  show "sizes_ok (file_header t)" "path_filled (file_header t) ctx" "path_wf (key_comparator t) valid (file_header t) ctx n lo hi"
    "wf (key_comparator t) valid (file_header t) n lo hi (BNode pp cs)" using w d by blast+
qed

lemma leaf_chain_remove:
  assumes "leaf_chain pg (ps @ p # q # qs)" "distinct (ps @ p # q # qs)"
    and "next_brother (pg' p) = next_brother (pg q)" "\<And>x. x \<in> set (ps @ qs) \<Longrightarrow> next_brother (pg' x) = next_brother (pg x)"
  shows "leaf_chain pg' (ps @ p # qs)"
  using assms(1,2,4)
proof (induction ps)
  case Nil
  have "leaf_chain pg qs" using leaf_chain_append [of pg "[p, q]" qs] Nil(1) by simp
  then have "leaf_chain pg' qs" by (rule leaf_chain_cong) (use Nil(3) in simp)
  then show ?case using Nil(1) assms(3) by (cases qs) auto
next
  case (Cons x ps)
  have "leaf_chain pg (ps @ p # q # qs)" using leaf_chain_append [of pg "[x]" "ps @ p # q # qs"] Cons.prems(1) by simp
  then have IH: "leaf_chain pg' (ps @ p # qs)" using Cons by auto
  have "next_brother (pg' x) = next_brother (pg x)" using Cons.prems(3) by simp
  then show ?case using IH Cons.prems(1) by (cases ps) auto
qed

context index_order
begin

lemma placed_up:
  assumes "placed t valid ((pp, ls, k, rs) # ctx) n l u b" "key_comparator t = cmp"
  obtains lo hi where "placed t valid ctx (Suc n) lo hi (BNode pp (ls @ (k, b) # rs))" "parent (pages t (bt_page b)) = pp"
proof -
  let ?h = "file_header t"
  have loc: "located t valid ((pp, ls, k, rs) # ctx) n l u (bt_page b) (parent (pages t (bt_page b))) (bt_pages b) (map fst (bt_leaves b))"
    and st: "stored (pages t) (parent (pages t (bt_page b))) b" and w: "wf cmp valid ?h n l u b"
    using assms by (auto simp: placed_def)
  note d = locatedD [OF loc]
  obtain lo hi where pw: "path_wf cmp valid ?h ctx (Suc n) lo hi" "int (length ls + length rs + 1) \<le> internal_max_size ?h"
    "\<forall>x. lo = Some x \<longrightarrow> hd (map fst ls @ [k]) = x" "left_part cmp valid (wf cmp valid ?h n) lo hi ls k l"
    "right_part cmp valid (wf cmp valid ?h n) l hi rs u"
    using d(2) assms(2) by auto
  let ?B = "BNode pp (ls @ (k, b) # rs)"
  have "ranges cmp valid (wf cmp valid ?h n) lo hi (ls @ (k, b) # rs)"
    using ranges_hole [of lo hi] path_wf_bounds [OF pw(1)] pw(4,5) w by blast
  then have "wf cmp valid ?h (Suc n) lo hi ?B" using pw(2,3) by (cases ls) auto
  moreover have "stored (pages t) (parent (pages t pp)) ?B" using d(1) st by auto
  moreover have "located t valid ctx (Suc n) lo hi pp (parent (pages t pp)) (bt_pages ?B) (map fst (bt_leaves ?B))"
    unfolding located_def
  proof (intro conjI)
    show "distinct (path_pages ctx @ bt_pages ?B)" using d(4) by auto
    show "\<forall>p\<in>set (path_pages ctx @ bt_pages ?B). 0 \<le> p \<and> p < int (page_count t) \<and> allocated t p" using d(5) by auto
    show "leaf_chain (pages t) (map fst (path_left ctx) @ map fst (bt_leaves ?B) @ map fst (path_right ctx))" using d(7) by simp
  qed (use d(1,3,6,8) pw(1) assms(2) in simp_all)
  ultimately show thesis using that [of lo hi] d(1) assms(2) by (simp add: placed_def)
qed

lemma ranges_pair:
  assumes bd: "bounds_ok lo" "bounds_ok hi"
  shows "ranges cmp valid f lo hi (xs @ (kA, bA) # (kB, bB) # ys) \<longleftrightarrow>
    (\<exists>l u. left_part cmp valid f lo hi xs kA l \<and> right_part cmp valid f l hi ys u \<and> f l (Some kB) bA \<and> f (Some kB) u bB
       \<and> valid kB \<and> strictly_above cmp l kB \<and> below cmp u kB)" (is "?L \<longleftrightarrow> ?R")
proof
  assume ?R
  then show ?L unfolding ranges_hole [OF bd] using right_part_insert [OF _ bd(2)] by blast
next
  assume ?L
  then obtain l v where l: "left_part cmp valid f lo hi xs kA l" "right_part cmp valid f l hi ((kB, bB) # ys) v" "f l v bA"
    unfolding ranges_hole [OF bd] by blast
  then have v: "v = Some kB" "valid kB" "strictly_above cmp l kB" "below cmp hi kB" "ranges cmp valid f (Some kB) hi ([] @ (kB, bB) # ys)"
    by (simp_all add: right_part_def)
  obtain u where u: "right_part cmp valid f (Some kB) hi ys u" "f (Some kB) u bB"
    using v(5) ranges_hole [of "Some kB" hi f "[]" kB bB ys] v(2) bd(2) by (auto simp: left_part_def)
  have bl: "bounds_ok l" by (rule left_part_bounds [OF l(1) bd(1)])
  have "right_part cmp valid f l hi ys u \<and> below cmp u kB"
  proof (cases ys)
    case (Cons e es)
    then have e: "u = Some (fst e)" "valid (fst e)" "cmp kB (fst e) < 0" using u(1) by (simp_all add: right_part_def strictly_above_def)
    then have "strictly_above cmp l (fst e)" using strictly_above_trans [OF bl v(2) e(2) v(3)] by simp
    then show ?thesis using u(1) e Cons by (simp add: right_part_def below_def)
  qed (use u(1) v(4) in \<open>simp add: right_part_def\<close>)
  then show ?R using l v(1-3) u by blast
qed

text \<open>Two neighbours replaced by one or two other subtrees on a part of their pages.\<close>

lemma placed_pair:
  assumes pl: "placed t valid ctx (Suc n) lo hi (BNode pp (xs @ es @ ys))" and c: "key_comparator t = cmp"
    and sel: "file_header t' = file_header t" "key_comparator t' = key_comparator t" "page_count t' = page_count t" "allocated t' = allocated t"
    and pp: "items (pages t' pp) = map child_item (xs @ es' @ ys)" "is_leaf (pages t' pp) = is_leaf (pages t pp)" "parent (pages t' pp) = parent (pages t pp)"
    and oth: "\<And>x. x \<noteq> pp \<Longrightarrow> x \<notin> set (child_pages es) \<Longrightarrow> same_node (pages t' x) (pages t x)"
    and es: "\<And>e. e \<in> set es' \<Longrightarrow> stored (pages t') pp (snd e)" "distinct (child_pages es')" "set (child_pages es') \<subseteq> set (child_pages es)"
    and w: "wf cmp valid (file_header t) (Suc n) lo hi (BNode pp (xs @ es' @ ys))"
    and ch: "leaf_chain (pages t') (map fst (path_left ctx @ child_leaves (xs @ es' @ ys) @ path_right ctx))"
  shows "placed t' valid ctx (Suc n) lo hi (BNode pp (xs @ es' @ ys))"
proof -
  let ?B = "BNode pp (xs @ es @ ys)" and ?B' = "BNode pp (xs @ es' @ ys)"
  have loc: "located t valid ctx (Suc n) lo hi pp (parent (pages t pp)) (bt_pages ?B) (map fst (bt_leaves ?B))"
    and st: "stored (pages t) (parent (pages t pp)) ?B"
    using pl by (auto simp: placed_def)
  note d = locatedD [OF loc]
  have dis: "distinct (pp # child_pages xs @ child_pages es @ child_pages ys)" using d(4) by simp
  have sub: "set (bt_pages ?B') \<subseteq> set (bt_pages ?B)" using es(3) by (auto simp del: set_concat)
  have "located t' valid ctx (Suc n) lo hi pp (parent (pages t pp)) (bt_pages ?B') (map fst (bt_leaves ?B'))"
  proof (rule located_change [OF loc])
    show "distinct (bt_pages ?B')" using dis es(2,3) by (auto simp del: set_concat)
    show "set (bt_pages ?B') \<inter> set (path_pages ctx) = {}" using sub d(4) unfolding distinct_append by blast
    show "same_node (pages t' x) (pages t x)" if x: "x \<in> set (path_pages ctx)" for x
    proof (rule oth)
      have "x \<notin> set (bt_pages ?B)" using x d(4) unfolding distinct_append by blast
      then show "x \<noteq> pp" "x \<notin> set (child_pages es)" by auto
    qed
  qed (use sel sub ch in auto)
  moreover have "stored (pages t') pp (snd e)" if e: "e \<in> set (xs @ es' @ ys)" for e
  proof (cases "e \<in> set es'")
    case False
    then have e': "e \<in> set (xs @ ys)" using e by auto
    show ?thesis
    proof (rule stored_cong)
      show "stored (pages t) pp (snd e)" using st e' by auto
      fix x assume "x \<in> set (bt_pages (snd e))"
      then have "x \<in> set (child_pages xs @ child_pages ys)" using e' by auto
      then show "same_node (pages t' x) (pages t x)" using dis by (intro oth) (auto simp del: set_concat)
    qed
  qed (rule es(1))
  ultimately show ?thesis using pp st w sel c by (simp add: placed_def)
qed

section \<open>Joining and dividing neighbours\<close>

lemma leaf_join:
  assumes "wf cmp valid h n l (Some k) (BLeaf p its)" "wf cmp valid h n (Some k) u (BLeaf q jts)"
    and k: "valid k" "strictly_above cmp l k" "below cmp u k" and bd: "bounds_ok l" "bounds_ok u"
  shows "ascending (map fst (its @ jts))" "\<forall>x\<in>fst ` set (its @ jts). above cmp l x \<and> below cmp u x"
proof -
  have i: "ascending (map fst its)" "\<And>x. x \<in> fst ` set its \<Longrightarrow> above cmp l x \<and> cmp x k < 0"
    and j: "ascending (map fst jts)" "\<And>x. x \<in> fst ` set jts \<Longrightarrow> cmp k x \<le> 0 \<and> below cmp u x"
    using assms(1,2) by (auto simp: above_def below_def)
  have v: "valid x" if "x \<in> fst ` set its \<or> x \<in> fst ` set jts" for x
    using that ascending_valid [OF i(1)] ascending_valid [OF j(1)] by auto
  have "cmp x y < 0" if "x \<in> fst ` set its" "y \<in> fst ` set jts" for x y
    using cmp_less_le_trans [of x k y] i(2) [OF that(1)] j(2) [OF that(2)] v that k(1) by blast
  then show "ascending (map fst (its @ jts))" using i(1) j(1) by (simp add: ascending_append)
  have "below cmp u x" if "x \<in> fst ` set its" for x
    by (rule below_less [OF bd(2) _ k(1) _ k(3)]) (use v i(2) that in blast)+
  moreover have "above cmp l x" if "x \<in> fst ` set jts" for x
    by (rule above_trans [OF bd(1) k(1) _ strictly_above_imp_above [OF k(2)]]) (use v j(2) that in blast)+
  ultimately show "\<forall>x\<in>fst ` set (its @ jts). above cmp l x \<and> below cmp u x" using i(2) j(2) unfolding set_append image_Un by blast
qed

lemma node_join:
  assumes "wf cmp valid h (Suc n) l (Some k) (BNode p cs)" "wf cmp valid h (Suc n) (Some k) u (BNode q ds)"
    and k: "valid k" "strictly_above cmp l k" "below cmp u k" and bd: "bounds_ok l" "bounds_ok u"
  shows "ranges cmp valid (wf cmp valid h n) l u (cs @ ds)" "\<forall>x. l = Some x \<longrightarrow> fst (hd (cs @ ds)) = x" "cs \<noteq> []" "ds \<noteq> []"
proof -
  have r: "ranges cmp valid (wf cmp valid h n) l (Some k) cs" "ranges cmp valid (wf cmp valid h n) (Some k) u ds" "fst (hd ds) = k"
    "\<forall>x. l = Some x \<longrightarrow> fst (hd cs) = x"
    using assms(1,2) by auto
  show ne: "cs \<noteq> []" "ds \<noteq> []" using r by auto
  then obtain c ds' where ds: "ds = (k, c) # ds'" using r(3) by (cases ds) (auto simp: prod_eq_iff)
  show "ranges cmp valid (wf cmp valid h n) l u (cs @ ds)" unfolding ds ranges_split [OF bd ne(1)] using r(1,2) k ds by simp
  show "\<forall>x. l = Some x \<longrightarrow> fst (hd (cs @ ds)) = x" using r(4) ne by simp
qed

lemma node_halves:
  assumes "ranges cmp valid (wf cmp valid h n) l u cs" "\<forall>x. l = Some x \<longrightarrow> fst (hd cs) = x" "0 < m" "m < length cs"
    and bd: "bounds_ok l" "bounds_ok u" and len: "int m \<le> internal_max_size h" "int (length cs - m) \<le> internal_max_size h"
  defines "k \<equiv> fst (cs ! m)"
  shows "wf cmp valid h (Suc n) l (Some k) (BNode p (take m cs))" "wf cmp valid h (Suc n) (Some k) u (BNode q (drop m cs))"
    "valid k" "strictly_above cmp l k" "below cmp u k"
proof -
  have dm: "drop m cs = (k, snd (cs ! m)) # drop (Suc m) cs" using assms(4) by (simp add: Cons_nth_drop_Suc k_def)
  then have eq: "cs = take m cs @ (k, snd (cs ! m)) # drop (Suc m) cs" by (metis append_take_drop_id)
  have ne: "take m cs \<noteq> []" using assms(3,4) by auto
  have rs: "ranges cmp valid (wf cmp valid h n) l (Some k) (take m cs) \<and> valid k \<and> strictly_above cmp l k \<and> below cmp u k
      \<and> ranges cmp valid (wf cmp valid h n) (Some k) u (drop m cs)"
    using assms(1) ranges_split [OF bd ne, of "wf cmp valid h n" k "snd (cs ! m)" "drop (Suc m) cs"] eq dm by simp
  then show "wf cmp valid h (Suc n) l (Some k) (BNode p (take m cs))" "wf cmp valid h (Suc n) (Some k) u (BNode q (drop m cs))"
    "valid k" "strictly_above cmp l k" "below cmp u k"
    using assms(2-4) len dm by (auto simp: hd_take)
qed

text \<open>The bounds of two neighbours and of what replaces them.\<close>

lemma pair_bounds:
  assumes "placed t valid ctx (Suc n) lo hi (BNode pp (xs @ [(kA, bA), (kB, bB)] @ ys))" "key_comparator t = cmp"
  obtains l u where "bounds_ok l" "bounds_ok u" "wf cmp valid (file_header t) n l (Some kB) bA" "wf cmp valid (file_header t) n (Some kB) u bB"
    "valid kB" "strictly_above cmp l kB" "below cmp u kB"
    "\<And>bA' k' bB'. wf cmp valid (file_header t) n l (Some k') bA' \<Longrightarrow> wf cmp valid (file_header t) n (Some k') u bB' \<Longrightarrow> valid k' \<Longrightarrow>
       strictly_above cmp l k' \<Longrightarrow> below cmp u k' \<Longrightarrow> wf cmp valid (file_header t) (Suc n) lo hi (BNode pp (xs @ [(kA, bA'), (k', bB')] @ ys))"
    "\<And>bA'. wf cmp valid (file_header t) n l u bA' \<Longrightarrow> wf cmp valid (file_header t) (Suc n) lo hi (BNode pp (xs @ [(kA, bA')] @ ys))"
proof -
  let ?h = "file_header t"
  have "path_wf cmp valid ?h ctx (Suc n) lo hi" and w: "wf cmp valid ?h (Suc n) lo hi (BNode pp (xs @ [(kA, bA), (kB, bB)] @ ys))"
    using assms by (auto simp: placed_def located_def)
  then have bd: "bounds_ok lo" "bounds_ok hi" using path_wf_bounds by blast+
  obtain l u where lu: "left_part cmp valid (wf cmp valid ?h n) lo hi xs kA l" "right_part cmp valid (wf cmp valid ?h n) l hi ys u"
    "wf cmp valid ?h n l (Some kB) bA" "wf cmp valid ?h n (Some kB) u bB" "valid kB" "strictly_above cmp l kB" "below cmp u kB"
    using w ranges_pair [OF bd, of "wf cmp valid ?h n" xs kA bA kB bB ys] by auto
  have hd: "\<forall>x. lo = Some x \<longrightarrow> fst (hd (xs @ (kA, b) # zs)) = x" for b zs using w by (cases xs) auto
  have r2: "wf cmp valid ?h (Suc n) lo hi (BNode pp (xs @ [(kA, bA'), (k', bB')] @ ys))"
    if "wf cmp valid ?h n l (Some k') bA'" "wf cmp valid ?h n (Some k') u bB'" "valid k'" "strictly_above cmp l k'" "below cmp u k'" for bA' k' bB'
  proof -
    have "ranges cmp valid (wf cmp valid ?h n) lo hi (xs @ (kA, bA') # (k', bB') # ys)" unfolding ranges_pair [OF bd] using lu(1,2) that by blast
    then show ?thesis using w hd by simp
  qed
  have r1: "wf cmp valid ?h (Suc n) lo hi (BNode pp (xs @ [(kA, bA')] @ ys))" if "wf cmp valid ?h n l u bA'" for bA'
  proof -
    have "ranges cmp valid (wf cmp valid ?h n) lo hi (xs @ (kA, bA') # ys)" unfolding ranges_hole [OF bd] using lu(1,2) that by blast
    then show ?thesis using w hd by simp
  qed
  show thesis by (rule that [OF left_part_bounds [OF lu(1) bd(1)] right_part_bounds [OF lu(2) bd(2)] lu(3-7) r2 r1])
qed

lemma child_item_update:
  "(map child_item (xs @ [(kA, bA), (kB, bB)] @ ys))[Suc (length xs) := (k', PageV (bt_page bB))] =
    map child_item (xs @ [(kA, bA), (k', bB)] @ ys)"
  by (simp add: list_update_append)

lemma shift_placed:
  assumes pl: "placed t valid ctx (Suc n) lo hi (BNode pp (xs @ [(kA, bA), (kB, bB)] @ ys))" and c: "key_comparator t = cmp"
    and sel: "file_header t' = file_header t" "key_comparator t' = key_comparator t" "page_count t' = page_count t" "allocated t' = allocated t"
    and pp: "pages t' pp = (pages t pp)\<lparr>items := (items (pages t pp))[Suc (length xs) := (k', PageV (bt_page bB))]\<rparr>"
    and oth: "\<And>x. x \<noteq> pp \<Longrightarrow> x \<notin> set (bt_pages bA) \<Longrightarrow> x \<notin> set (bt_pages bB) \<Longrightarrow> same_node (pages t' x) (pages t x)"
    and nxt: "\<And>x. x \<in> set (path_pages ctx) \<union> set (child_pages (xs @ [(kA, bA), (kB, bB)] @ ys)) \<Longrightarrow> next_brother (pages t' x) = next_brother (pages t x)"
    and st: "stored (pages t') pp bA'" "stored (pages t') pp bB'" "bt_page bA' = bt_page bA" "bt_page bB' = bt_page bB"
    and ms: "mset (bt_pages bA' @ bt_pages bB') = mset (bt_pages bA @ bt_pages bB)"
    and lv: "map fst (bt_leaves bA' @ bt_leaves bB') = map fst (bt_leaves bA @ bt_leaves bB)"
    and w: "wf cmp valid (file_header t) (Suc n) lo hi (BNode pp (xs @ [(kA, bA'), (k', bB')] @ ys))"
  shows "placed t' valid ctx (Suc n) lo hi (BNode pp (xs @ [(kA, bA'), (k', bB')] @ ys))"
proof (rule placed_pair [OF pl c sel _ _ _ _ _ _ _ w])
  have loc: "located t valid ctx (Suc n) lo hi pp (parent (pages t pp)) (bt_pages (BNode pp (xs @ [(kA, bA), (kB, bB)] @ ys)))
      (map fst (bt_leaves (BNode pp (xs @ [(kA, bA), (kB, bB)] @ ys))))"
    and items: "items (pages t pp) = map child_item (xs @ [(kA, bA), (kB, bB)] @ ys)"
    using pl by (auto simp: placed_def)
  note d = locatedD [OF loc]
  show "items (pages t' pp) = map child_item (xs @ [(kA, bA'), (k', bB')] @ ys)"
    using child_item_update [of xs kA bA kB bB ys k'] st(3,4) by (simp add: pp items)
  have "distinct (bt_pages bA @ bt_pages bB)" using placedD(1) [OF pl] by auto
  then show "distinct (child_pages [(kA, bA'), (k', bB')])" using mset_eq_imp_distinct_iff [OF ms] by simp
  show "set (child_pages [(kA, bA'), (k', bB')]) \<subseteq> set (child_pages [(kA, bA), (kB, bB)])" using mset_eq_setD [OF ms] by simp
  have leaves: "map fst (path_left ctx @ child_leaves (xs @ [(kA, bA'), (k', bB')] @ ys) @ path_right ctx) =
      map fst (path_left ctx) @ map fst (child_leaves (xs @ [(kA, bA), (kB, bB)] @ ys)) @ map fst (path_right ctx)" using lv by simp
  show "leaf_chain (pages t') (map fst (path_left ctx @ child_leaves (xs @ [(kA, bA'), (k', bB')] @ ys) @ path_right ctx))"
    unfolding leaves
  proof (rule leaf_chain_cong)
    show "leaf_chain (pages t) (map fst (path_left ctx) @ map fst (child_leaves (xs @ [(kA, bA), (kB, bB)] @ ys)) @ map fst (path_right ctx))"
      using d(7) by simp
    fix x assume "x \<in> set (map fst (path_left ctx) @ map fst (child_leaves (xs @ [(kA, bA), (kB, bB)] @ ys)) @ map fst (path_right ctx))"
    then show "next_brother (pages t' x) = next_brother (pages t x)"
      using path_leaf_pages [of ctx] child_leaf_pages [of "xs @ [(kA, bA), (kB, bB)] @ ys"] unfolding set_append by (intro nxt) blast
  qed
qed (use pp oth st in auto)

lemma shift_leaf:
  assumes pl: "placed t valid ctx (Suc n) lo hi (BNode pp (xs @ [(kA, BLeaf pa ia), (kB, BLeaf pb ib)] @ ys))" and c: "key_comparator t = cmp"
    and sel: "file_header t' = file_header t" "key_comparator t' = key_comparator t" "page_count t' = page_count t" "allocated t' = allocated t"
    and m: "0 < m" "m < length (ia @ ib)" "int m \<le> leaf_max_size (file_header t)" "int (length (ia @ ib) - m) \<le> leaf_max_size (file_header t)"
    and pg: "\<And>x. pages t' x = (if x = pp then (pages t pp)\<lparr>items := (items (pages t pp))[Suc (length xs) := (fst ((ia @ ib) ! m), PageV pb)]\<rparr>
      else if x = pa then (pages t pa)\<lparr>items := take m (ia @ ib)\<rparr> else if x = pb then (pages t pb)\<lparr>items := drop m (ia @ ib)\<rparr> else pages t x)"
  shows "placed t' valid ctx (Suc n) lo hi (BNode pp (xs @ [(kA, BLeaf pa (take m (ia @ ib))), (fst ((ia @ ib) ! m), BLeaf pb (drop m (ia @ ib)))] @ ys))"
proof (rule shift_placed [OF pl c sel])
  let ?h = "file_header t"
  have st: "is_leaf (pages t pa)" "is_leaf (pages t pb)" "parent (pages t pa) = pp" "parent (pages t pb) = pp"
    and dis: "distinct [pp, pa, pb]"
    using placedD(2) [OF pl, of "(kA, BLeaf pa ia)"] placedD(2) [OF pl, of "(kB, BLeaf pb ib)"] placedD(1) [OF pl] by auto
  obtain l u where bd: "bounds_ok l" "bounds_ok u"
    and wA: "wf cmp valid ?h n l (Some kB) (BLeaf pa ia)" and wB: "wf cmp valid ?h n (Some kB) u (BLeaf pb ib)"
    and k: "valid kB" "strictly_above cmp l kB" "below cmp u kB"
    and new: "\<And>bA' k' bB'. wf cmp valid ?h n l (Some k') bA' \<Longrightarrow> wf cmp valid ?h n (Some k') u bB' \<Longrightarrow> valid k' \<Longrightarrow>
       strictly_above cmp l k' \<Longrightarrow> below cmp u k' \<Longrightarrow> wf cmp valid ?h (Suc n) lo hi (BNode pp (xs @ [(kA, bA'), (k', bB')] @ ys))"
    by (rule pair_bounds [OF pl c]) blast
  have "n = 0" using wA by simp
  note j = leaf_join [OF wA wB k bd]
  show "wf cmp valid ?h (Suc n) lo hi (BNode pp (xs @ [(kA, BLeaf pa (take m (ia @ ib))), (fst ((ia @ ib) ! m), BLeaf pb (drop m (ia @ ib)))] @ ys))"
    using new [unfolded \<open>n = 0\<close>, OF ascending_halves [OF j(1) m(1,2) bd(1) j(2) m(3,4)]] \<open>n = 0\<close> by simp
  show "stored (pages t') pp (BLeaf pa (take m (ia @ ib)))" "stored (pages t') pp (BLeaf pb (drop m (ia @ ib)))"
    using st dis by (auto simp: pg)
qed (use pg in auto)

text \<open>Two neighbouring internal nodes after their children have been divided anew.\<close>

lemma halved_pair:
  assumes pl: "placed t valid ctx (Suc n) lo hi (BNode pp (xs @ [(kA, BNode pa ca), (kB, BNode pb cb)] @ ys))"
    and hv: "halved t pa pb (ca @ cb) m t1" and t': "\<forall>x. x \<noteq> pp \<longrightarrow> pages t' x = pages t1 x"
  shows "stored (pages t') pp (BNode pa (take m (ca @ cb)))" "stored (pages t') pp (BNode pb (drop m (ca @ cb)))"
    "x \<noteq> pp \<Longrightarrow> x \<notin> set (bt_pages (BNode pa ca)) \<Longrightarrow> x \<notin> set (bt_pages (BNode pb cb)) \<Longrightarrow>
       same_node (pages t' x) (pages t x) \<and> next_brother (pages t' x) = next_brother (pages t x)"
    "x \<noteq> pp \<Longrightarrow> x \<noteq> pa \<Longrightarrow> x \<noteq> pb \<Longrightarrow> next_brother (pages t' x) = next_brother (pages t x)"
proof -
  have dis: "distinct ((pa # child_pages ca) @ (pb # child_pages cb))" "pp \<notin> set ((pa # child_pages ca) @ (pb # child_pages cb))"
    using placedD(1) [OF pl] by (auto simp del: set_concat)
  have st: "stored (pages t) pp (BNode pa ca)" "stored (pages t) pp (BNode pb cb)"
    using placedD(2) [OF pl, of "(kA, BNode pa ca)"] placedD(2) [OF pl, of "(kB, BNode pb cb)"] by auto
  have par: "parent (pages t pa) = pp" using stored_parent [OF st(1)] by simp
  have cong: "stored (pages t') pp b" if "stored (pages t1) pp b" "pp \<notin> set (bt_pages b)" for b
  proof (rule stored_cong [OF that(1)])
    fix x assume "x \<in> set (bt_pages b)"
    then have "x \<noteq> pp" using that(2) by auto
    then show "same_node (pages t' x) (pages t1 x)" using t' by simp
  qed
  have "stored (pages t1) pp (BNode pa (take m (ca @ cb)))" "stored (pages t1) pp (BNode pb (drop m (ca @ cb)))"
    using halved_nodes [OF hv] dis st par by (auto simp del: set_concat)
  moreover have "pp \<notin> set (bt_pages (BNode pa (take m (ca @ cb))))" "pp \<notin> set (bt_pages (BNode pb (drop m (ca @ cb))))"
  proof -
    have "set (child_pages (take m (ca @ cb))) \<subseteq> set (child_pages ca @ child_pages cb)"
      "set (child_pages (drop m (ca @ cb))) \<subseteq> set (child_pages ca @ child_pages cb)"
      by (auto dest!: in_set_takeD in_set_dropD)
    then show "pp \<notin> set (bt_pages (BNode pa (take m (ca @ cb))))" "pp \<notin> set (bt_pages (BNode pb (drop m (ca @ cb))))"
      using dis(2) by (auto simp del: set_concat take_append drop_append)
  qed
  ultimately show "stored (pages t') pp (BNode pa (take m (ca @ cb)))" "stored (pages t') pp (BNode pb (drop m (ca @ cb)))"
    using cong by blast+
  show "next_brother (pages t' x) = next_brother (pages t x)" if "x \<noteq> pp" "x \<noteq> pa" "x \<noteq> pb"
    using hv t' that by (simp add: halved_def)
  show "same_node (pages t' x) (pages t x) \<and> next_brother (pages t' x) = next_brother (pages t x)"
    if "x \<noteq> pp" "x \<notin> set (bt_pages (BNode pa ca))" "x \<notin> set (bt_pages (BNode pb cb))"
  proof -
    have "x \<notin> (bt_page \<circ> snd) ` set (ca @ cb)" using that(2,3) by auto
    then show ?thesis using hv t' that by (simp add: halved_def)
  qed
qed

lemma shift_node:
  assumes pl: "placed t valid ctx (Suc n) lo hi (BNode pp (xs @ [(kA, BNode pa ca), (kB, BNode pb cb)] @ ys))" and c: "key_comparator t = cmp"
    and sel: "file_header t' = file_header t" "key_comparator t' = key_comparator t" "page_count t' = page_count t" "allocated t' = allocated t"
    and m: "0 < m" "m < length (ca @ cb)" "int m \<le> internal_max_size (file_header t)" "int (length (ca @ cb) - m) \<le> internal_max_size (file_header t)"
    and hv: "halved t pa pb (ca @ cb) m t1" and t': "\<forall>x. x \<noteq> pp \<longrightarrow> pages t' x = pages t1 x"
    and pp: "pages t' pp = (pages t pp)\<lparr>items := (items (pages t pp))[Suc (length xs) := (fst ((ca @ cb) ! m), PageV pb)]\<rparr>"
    and nx: "next_brother (pages t1 pa) = next_brother (pages t pa)" "next_brother (pages t1 pb) = next_brother (pages t pb)"
  shows "placed t' valid ctx (Suc n) lo hi (BNode pp (xs @ [(kA, BNode pa (take m (ca @ cb))), (fst ((ca @ cb) ! m), BNode pb (drop m (ca @ cb)))] @ ys))"
proof (rule shift_placed [OF pl c sel])
  let ?h = "file_header t"
  note hp = halved_pair [OF pl hv t']
  have app: "concat (map f (take m (ca @ cb))) @ concat (map f (drop m (ca @ cb))) = concat (map f ca) @ concat (map f cb)" for f :: "IKey \<times> bt \<Rightarrow> 'a list"
    by (metis append_take_drop_id concat_append map_append)
  obtain l u where bd: "bounds_ok l" "bounds_ok u"
    and wA: "wf cmp valid ?h n l (Some kB) (BNode pa ca)" and wB: "wf cmp valid ?h n (Some kB) u (BNode pb cb)"
    and k: "valid kB" "strictly_above cmp l kB" "below cmp u kB"
    and new: "\<And>bA' k' bB'. wf cmp valid ?h n l (Some k') bA' \<Longrightarrow> wf cmp valid ?h n (Some k') u bB' \<Longrightarrow> valid k' \<Longrightarrow>
       strictly_above cmp l k' \<Longrightarrow> below cmp u k' \<Longrightarrow> wf cmp valid ?h (Suc n) lo hi (BNode pp (xs @ [(kA, bA'), (k', bB')] @ ys))"
    by (rule pair_bounds [OF pl c]) blast
  obtain n' where n: "n = Suc n'" using wA by (cases n) auto
  note j = node_join [OF wA [unfolded n] wB [unfolded n] k bd]
  show "wf cmp valid ?h (Suc n) lo hi (BNode pp (xs @ [(kA, BNode pa (take m (ca @ cb))), (fst ((ca @ cb) ! m), BNode pb (drop m (ca @ cb)))] @ ys))"
    using new [unfolded n, OF node_halves [OF j(1,2) m(1,2) bd m(3,4)]] unfolding n .
  show "stored (pages t') pp (BNode pa (take m (ca @ cb)))" "stored (pages t') pp (BNode pb (drop m (ca @ cb)))" by (rule hp)+
  show "mset (bt_pages (BNode pa (take m (ca @ cb))) @ bt_pages (BNode pb (drop m (ca @ cb)))) = mset (bt_pages (BNode pa ca) @ bt_pages (BNode pb cb))"
    using arg_cong [OF app [of "bt_pages \<circ> snd"], of mset] by (simp add: ac_simps del: take_append drop_append mset_concat)
  show "map fst (bt_leaves (BNode pa (take m (ca @ cb))) @ bt_leaves (BNode pb (drop m (ca @ cb)))) = map fst (bt_leaves (BNode pa ca) @ bt_leaves (BNode pb cb))"
    using app [of "bt_leaves \<circ> snd"] by (simp del: take_append drop_append)
  show "next_brother (pages t' x) = next_brother (pages t x)" for x
    using hp(4) [of x] nx pp t' by (cases "x = pp"; cases "x = pa"; cases "x = pb") auto
  show "same_node (pages t' x) (pages t x)" if "x \<noteq> pp" "x \<notin> set (bt_pages (BNode pa ca))" "x \<notin> set (bt_pages (BNode pb cb))" for x
    using hp(3) [OF that] by blast
qed (simp_all add: pp)

lemma child_item_remove:
  "list_remove_at (Suc (length xs)) 1 (map child_item (xs @ [(kA, bA), (kB, bB)] @ ys)) = map child_item (xs @ [(kA, bA)] @ ys)"
  by (simp add: list_remove_at_def)

lemma merge_leaf:
  assumes pl: "placed t valid ctx (Suc n) lo hi (BNode pp (xs @ [(kA, BLeaf pa ia), (kB, BLeaf pb ib)] @ ys))" and c: "key_comparator t = cmp"
    and sel: "file_header t' = file_header t" "key_comparator t' = key_comparator t" "page_count t' = page_count t" "allocated t' = allocated t"
    and len: "int (length (ia @ ib)) \<le> leaf_max_size (file_header t)"
    and pg: "\<And>x. pages t' x = (if x = pp then (pages t pp)\<lparr>items := list_remove_at (Suc (length xs)) 1 (items (pages t pp))\<rparr>
      else if x = pa then (pages t pa)\<lparr>items := ia @ ib, next_brother := next_brother (pages t pb)\<rparr> else if x = pb then (pages t pb)\<lparr>items := []\<rparr> else pages t x)"
  shows "placed t' valid ctx (Suc n) lo hi (BNode pp (xs @ [(kA, BLeaf pa (ia @ ib))] @ ys))"
proof (rule placed_pair [OF pl c sel])
  let ?h = "file_header t" and ?cs = "xs @ [(kA, BLeaf pa ia), (kB, BLeaf pb ib)] @ ys"
  have st: "is_leaf (pages t pa)" "parent (pages t pa) = pp" and dis: "distinct [pp, pa, pb]"
    using placedD(2) [OF pl, of "(kA, BLeaf pa ia)"] placedD(1) [OF pl] by auto
  obtain l u where bd: "bounds_ok l" "bounds_ok u"
    and wA: "wf cmp valid ?h n l (Some kB) (BLeaf pa ia)" and wB: "wf cmp valid ?h n (Some kB) u (BLeaf pb ib)"
    and k: "valid kB" "strictly_above cmp l kB" "below cmp u kB"
    and new: "\<And>bA'. wf cmp valid ?h n l u bA' \<Longrightarrow> wf cmp valid ?h (Suc n) lo hi (BNode pp (xs @ [(kA, bA')] @ ys))"
    by (rule pair_bounds [OF pl c]) blast
  show "wf cmp valid ?h (Suc n) lo hi (BNode pp (xs @ [(kA, BLeaf pa (ia @ ib))] @ ys))"
    by (rule new) (use leaf_join [OF wA wB k bd] wA len in simp)
  show "items (pages t' pp) = map child_item (xs @ [(kA, BLeaf pa (ia @ ib))] @ ys)"
    using child_item_remove [of xs kA "BLeaf pa ia" kB "BLeaf pb ib" ys] placedD(3) [OF pl] by (simp add: pg)
  show "stored (pages t') pp (snd e)" if "e \<in> set [(kA, BLeaf pa (ia @ ib))]" for e using that st dis by (auto simp: pg)
  show "leaf_chain (pages t') (map fst (path_left ctx @ child_leaves (xs @ [(kA, BLeaf pa (ia @ ib))] @ ys) @ path_right ctx))"
  proof -
    have loc: "located t valid ctx (Suc n) lo hi pp (parent (pages t pp)) (bt_pages (BNode pp ?cs)) (map fst (bt_leaves (BNode pp ?cs)))"
      using pl by (simp add: placed_def)
    let ?ps = "map fst (path_left ctx @ child_leaves xs)" and ?qs = "map fst (child_leaves ys @ path_right ctx)"
    have ch: "leaf_chain (pages t) (?ps @ pa # pb # ?qs)" using locatedD(7) [OF loc] by simp
    have "distinct (bt_pages (plug ctx (BNode pp ?cs)))" using locatedD(4) [OF loc] by (simp add: plug_pages_distinct)
    from distinct_leaf_pages [OF this] have dl: "distinct (?ps @ pa # pb # ?qs)" by (simp add: plug_leaves)
    have "pp \<notin> set (?ps @ ?qs)"
    proof -
      have "pp \<notin> set (path_pages ctx) \<union> set (child_pages xs) \<union> set (child_pages ys)" using locatedD(4) [OF loc] by auto
      then show ?thesis using path_leaf_pages [of ctx] child_leaf_pages [of xs] child_leaf_pages [of ys] unfolding map_append set_append by blast
    qed
    have "leaf_chain (pages t') (?ps @ pa # ?qs)"
    proof (rule leaf_chain_remove [OF ch dl])
      show "next_brother (pages t' pa) = next_brother (pages t pb)" using dis by (simp add: pg)
      fix x assume "x \<in> set (?ps @ ?qs)"
      then have "x \<noteq> pp" "x \<noteq> pa" "x \<noteq> pb" using dl \<open>pp \<notin> set (?ps @ ?qs)\<close> by auto
      then show "next_brother (pages t' x) = next_brother (pages t x)" by (simp add: pg)
    qed
    then show ?thesis by simp
  qed
qed (use pg in auto)

lemma merge_node:
  assumes pl: "placed t valid ctx (Suc n) lo hi (BNode pp (xs @ [(kA, BNode pa ca), (kB, BNode pb cb)] @ ys))" and c: "key_comparator t = cmp"
    and sel: "file_header t' = file_header t" "key_comparator t' = key_comparator t" "page_count t' = page_count t" "allocated t' = allocated t"
    and len: "int (length (ca @ cb)) \<le> internal_max_size (file_header t)"
    and hv: "halved t pa pb (ca @ cb) (length (ca @ cb)) t1" and t': "\<forall>x. x \<noteq> pp \<longrightarrow> pages t' x = pages t1 x"
    and pp: "pages t' pp = (pages t pp)\<lparr>items := list_remove_at (Suc (length xs)) 1 (items (pages t pp))\<rparr>"
  shows "placed t' valid ctx (Suc n) lo hi (BNode pp (xs @ [(kA, BNode pa (ca @ cb))] @ ys))"
proof (rule placed_pair [OF pl c sel])
  let ?h = "file_header t" and ?cs = "xs @ [(kA, BNode pa ca), (kB, BNode pb cb)] @ ys"
  note hp = halved_pair [OF pl hv t']
  obtain l u where bd: "bounds_ok l" "bounds_ok u"
    and wA: "wf cmp valid ?h n l (Some kB) (BNode pa ca)" and wB: "wf cmp valid ?h n (Some kB) u (BNode pb cb)"
    and k: "valid kB" "strictly_above cmp l kB" "below cmp u kB"
    and new: "\<And>bA'. wf cmp valid ?h n l u bA' \<Longrightarrow> wf cmp valid ?h (Suc n) lo hi (BNode pp (xs @ [(kA, bA')] @ ys))"
    by (rule pair_bounds [OF pl c]) blast
  obtain n' where n: "n = Suc n'" using wA by (cases n) auto
  show "wf cmp valid ?h (Suc n) lo hi (BNode pp (xs @ [(kA, BNode pa (ca @ cb))] @ ys))"
    by (rule new) (use node_join [OF wA [unfolded n] wB [unfolded n] k bd] len n in simp)
  show "items (pages t' pp) = map child_item (xs @ [(kA, BNode pa (ca @ cb))] @ ys)"
    using child_item_remove [of xs kA "BNode pa ca" kB "BNode pb cb" ys] placedD(3) [OF pl] by (simp add: pp)
  show "stored (pages t') pp (snd e)" if "e \<in> set [(kA, BNode pa (ca @ cb))]" for e using that hp(1) by simp
  have dis: "distinct ((pa # child_pages ca) @ (pb # child_pages cb))" using placedD(1) [OF pl] by (auto simp del: set_concat)
  then show "distinct (child_pages [(kA, BNode pa (ca @ cb))])" by (auto simp del: set_concat)
  show "same_node (pages t' x) (pages t x)" if "x \<noteq> pp" "x \<notin> set (child_pages [(kA, BNode pa ca), (kB, BNode pb cb)])" for x
    using hp(3) [of x] that by auto
  show "leaf_chain (pages t') (map fst (path_left ctx @ child_leaves (xs @ [(kA, BNode pa (ca @ cb))] @ ys) @ path_right ctx))"
  proof (rule leaf_chain_cong)
    have loc: "located t valid ctx (Suc n) lo hi pp (parent (pages t pp)) (bt_pages (BNode pp ?cs)) (map fst (bt_leaves (BNode pp ?cs)))"
      using pl by (simp add: placed_def)
    show "leaf_chain (pages t) (map fst (path_left ctx @ child_leaves (xs @ [(kA, BNode pa (ca @ cb))] @ ys) @ path_right ctx))"
      using locatedD(7) [OF loc] by simp
    have eq: "map fst (path_left ctx @ child_leaves (xs @ [(kA, BNode pa (ca @ cb))] @ ys) @ path_right ctx) =
        map fst (path_left ctx) @ map fst (child_leaves xs) @ map fst (child_leaves ca) @ map fst (child_leaves cb) @ map fst (child_leaves ys) @ map fst (path_right ctx)"
      by simp
    fix x assume "x \<in> set (map fst (path_left ctx @ child_leaves (xs @ [(kA, BNode pa (ca @ cb))] @ ys) @ path_right ctx))"
    then have "x \<in> set (path_pages ctx) \<union> set (child_pages xs) \<union> set (child_pages ca) \<union> set (child_pages cb) \<union> set (child_pages ys)"
      using path_leaf_pages [of ctx] child_leaf_pages [of xs] child_leaf_pages [of ca] child_leaf_pages [of cb] child_leaf_pages [of ys]
      unfolding eq set_append by blast
    moreover have "distinct (path_pages ctx @ pp # child_pages xs @ (pa # child_pages ca) @ (pb # child_pages cb) @ child_pages ys)"
      using locatedD(4) [OF loc] by simp
    ultimately have "x \<noteq> pp" "x \<noteq> pa" "x \<noteq> pb" by (auto simp del: set_concat)
    then show "next_brother (pages t' x) = next_brother (pages t x)" by (rule hp(4))
  qed
qed (use pp in auto)

end

section \<open>What redistributing and merging do to the pages\<close>

lemma set_key_pages:
  "pages (internal_set_key_at p i k t) x = (if x = p then (pages t p)\<lparr>items := (items (pages t p))[i := (k, snd (items (pages t p) ! i))]\<rparr> else pages t x)"
  "file_header (internal_set_key_at p i k t) = file_header t" "key_comparator (internal_set_key_at p i k t) = key_comparator t"
  "page_count (internal_set_key_at p i k t) = page_count t" "allocated (internal_set_key_at p i k t) = allocated t"
  "disposed_pages (internal_set_key_at p i k t) = disposed_pages t"
  by (simp_all add: internal_set_key_at_def node_simps)

text \<open>The state apart from the pages.\<close>

definition same_state :: "btree \<Rightarrow> btree \<Rightarrow> bool" where
  "same_state t t' \<longleftrightarrow> file_header t' = file_header t \<and> key_comparator t' = key_comparator t \<and> page_count t' = page_count t \<and> allocated t' = allocated t"

lemma redistribute_leaf_first:
  assumes "distinct [pp, pa, pb]" "items (pages t pa) = ia" "items (pages t pb) = ib" "1 < length ib" "snd (items (pages t pp) ! 1) = PageV pb"
  defines "t' \<equiv> redistribute True pb pa pp 0 t" and "m \<equiv> Suc (length ia)"
  shows "pages t' x = (if x = pp then (pages t pp)\<lparr>items := (items (pages t pp))[Suc 0 := (fst ((ia @ ib) ! m), PageV pb)]\<rparr>
      else if x = pa then (pages t pa)\<lparr>items := take m (ia @ ib)\<rparr> else if x = pb then (pages t pb)\<lparr>items := drop m (ia @ ib)\<rparr> else pages t x)"
    "same_state t t'" "disposed_pages t' = disposed_pages t"
proof -
  obtain a b ib' where ib: "ib = a # b # ib'" using assms(4) by (cases ib; cases "tl ib") auto
  define t1 where "t1 = leaf_move_first_to_end pb pa t"
  have t1: "pages t1 x = (if x = pa then (pages t pa)\<lparr>items := ia @ [a]\<rparr> else if x = pb then (pages t pb)\<lparr>items := b # ib'\<rparr> else pages t x)"
    "same_state t t1" "disposed_pages t1 = disposed_pages t" for x
    using assms(1-3) ib
    by (simp_all add: t1_def leaf_move_first_to_end_def leaf_op_defs node_simps Let_def recover_insert_items_def recover_remove_items_def list_remove_at_def same_state_def)
  have t': "t' = internal_set_key_at pp 1 (fst b) t1" using assms(1) by (simp add: t'_def redistribute_def t1_def [symmetric] key_at_def t1(1))
  show "pages t' x = (if x = pp then (pages t pp)\<lparr>items := (items (pages t pp))[Suc 0 := (fst ((ia @ ib) ! m), PageV pb)]\<rparr>
      else if x = pa then (pages t pa)\<lparr>items := take m (ia @ ib)\<rparr> else if x = pb then (pages t pb)\<lparr>items := drop m (ia @ ib)\<rparr> else pages t x)"
    using assms(1,5) by (simp add: t' set_key_pages t1(1) m_def ib nth_append)
  show "same_state t t'" "disposed_pages t' = disposed_pages t" using t1(2,3) by (simp_all add: t' same_state_def set_key_pages)
qed

lemma redistribute_leaf_last:
  assumes "distinct [pp, pa, pb]" "items (pages t pa) = ia" "items (pages t pb) = ib" "ia \<noteq> []" "snd (items (pages t pp) ! Suc i) = PageV pb"
  defines "t' \<equiv> redistribute True pa pb pp (Suc i) t" and "m \<equiv> length ia - 1"
  shows "pages t' x = (if x = pp then (pages t pp)\<lparr>items := (items (pages t pp))[Suc i := (fst ((ia @ ib) ! m), PageV pb)]\<rparr>
      else if x = pa then (pages t pa)\<lparr>items := take m (ia @ ib)\<rparr> else if x = pb then (pages t pb)\<lparr>items := drop m (ia @ ib)\<rparr> else pages t x)"
    "same_state t t'" "disposed_pages t' = disposed_pages t"
proof -
  obtain ia' a where ia: "ia = ia' @ [a]" using assms(4) by (cases ia rule: rev_cases) auto
  define t1 where "t1 = leaf_move_last_to_front pa pb t"
  have t1: "pages t1 x = (if x = pa then (pages t pa)\<lparr>items := ia'\<rparr> else if x = pb then (pages t pb)\<lparr>items := a # ib\<rparr> else pages t x)"
    "same_state t t1" "disposed_pages t1 = disposed_pages t" for x
    using assms(1-3) ia
    by (simp_all add: t1_def leaf_move_last_to_front_def leaf_op_defs node_simps Let_def recover_insert_items_def recover_remove_items_def list_remove_at_def same_state_def)
  have t': "t' = internal_set_key_at pp (Suc i) (fst a) t1" using assms(1) by (simp add: t'_def redistribute_def t1_def [symmetric] key_at_def t1(1))
  show "pages t' x = (if x = pp then (pages t pp)\<lparr>items := (items (pages t pp))[Suc i := (fst ((ia @ ib) ! m), PageV pb)]\<rparr>
      else if x = pa then (pages t pa)\<lparr>items := take m (ia @ ib)\<rparr> else if x = pb then (pages t pb)\<lparr>items := drop m (ia @ ib)\<rparr> else pages t x)"
    using assms(1,5) by (simp add: t' set_key_pages t1(1) m_def ia nth_append)
  show "same_state t t'" "disposed_pages t' = disposed_pages t" using t1(2,3) by (simp_all add: t' same_state_def set_key_pages)
qed

lemma coalesce_leaf:
  assumes "distinct [pp, pa, pb]" "items (pages t pa) = ia" "items (pages t pb) = ib" "is_leaf (pages t pa)"
    and "(p, neighbor, index) = (if first then (pa, pb, 0) else (pb, pa, Suc i))" "first \<longrightarrow> i = 0"
  obtains t' where "coalesce_step True neighbor p pp index t = (SUCCESS, t')"
    "\<And>x. pages t' x = (if x = pp then (pages t pp)\<lparr>items := list_remove_at (Suc i) 1 (items (pages t pp))\<rparr>
      else if x = pa then (pages t pa)\<lparr>items := ia @ ib, next_brother := next_brother (pages t pb)\<rparr> else if x = pb then (pages t pb)\<lparr>items := []\<rparr> else pages t x)"
    "same_state t t'" "disposed_pages t' = disposed_pages t @ [pb]"
proof -
  let ?r = "coalesce_step True neighbor p pp index t"
  have "fst ?r = SUCCESS" "same_state t (snd ?r)" "disposed_pages (snd ?r) = disposed_pages t @ [pb]"
    and "pages (snd ?r) x = (if x = pp then (pages t pp)\<lparr>items := list_remove_at (Suc i) 1 (items (pages t pp))\<rparr>
      else if x = pa then (pages t pa)\<lparr>items := ia @ ib, next_brother := next_brother (pages t pb)\<rparr> else if x = pb then (pages t pb)\<lparr>items := []\<rparr> else pages t x)" for x
    using assms
    by (cases first; simp add: coalesce_step_def internal_remove_def leaf_move_to_def dispose_page_def same_state_def leaf_op_defs node_simps Let_def
        recover_insert_items_def recover_remove_items_def list_remove_at_def)+
  then show thesis using that [of "snd ?r"] by (metis prod.collapse)
qed

lemma insert_children:
  assumes "\<forall>it\<in>set its. get_page (page_of (snd it)) t = SUCCESS \<and> page_of (snd it) \<noteq> p"
  obtains t1 where "internal_insert_items p i its t = (SUCCESS, t1)"
    "\<And>x. pages t1 x = (if x = p then (pages t p)\<lparr>items := list_insert_at i its (items (pages t p))\<rparr>
       else if x \<in> (page_of \<circ> snd) ` set its then (pages t x)\<lparr>parent := p\<rparr> else pages t x)"
    "same_state t t1" "disposed_pages t1 = disposed_pages t"
proof -
  define t0 where "t0 = modify_page p (recover_insert_items i its) (append_log_entry (NodeInsert p i its (length its)) t)"
  have t0: "pages t0 x = (if x = p then (pages t p)\<lparr>items := list_insert_at i its (items (pages t p))\<rparr> else pages t x)" "same_state t t0"
    "page_count t0 = page_count t" "disposed_pages t0 = disposed_pages t" for x
    by (simp_all add: t0_def node_simps recover_insert_items_def same_state_def)
  have gp: "\<forall>it\<in>set its. get_page (page_of (snd it)) t0 = SUCCESS" using assms t0(3) by (simp add: get_page_def)
  let ?r = "adopt_children p its t0"
  have "internal_insert_items p i its t = ?r" by (simp add: internal_insert_items_def t0_def)
  moreover have "fst ?r = SUCCESS" by (rule adopt_children_spec(1) [OF gp])
  moreover have "p \<notin> (page_of \<circ> snd) ` set its" using assms by auto
  then have "pages (snd ?r) x = (if x = p then (pages t p)\<lparr>items := list_insert_at i its (items (pages t p))\<rparr>
       else if x \<in> (page_of \<circ> snd) ` set its then (pages t x)\<lparr>parent := p\<rparr> else pages t x)" for x
    using adopt_children_spec(2) [OF gp, of p x] t0(1) [of x] by auto
  moreover have "same_state t (snd ?r)" using t0(2) by (simp add: same_state_def adopt_children_frame)
  moreover have "disposed_pages (snd (adopt_children p its t2)) = disposed_pages t2" for t2
    by (induction its arbitrary: t2) (auto simp: Let_def set_parent_page_num_def node_simps)
  ultimately show thesis using that [of "snd ?r"] t0(4) by (metis prod.collapse)
qed

lemma halved_move:
  assumes dis: "distinct (pa # pb # map (bt_page \<circ> snd) (ca @ cb))"
    and nl: "\<not> is_leaf (pages t pa)" "\<not> is_leaf (pages t pb)" "parent (pages t pb) = parent (pages t pa)"
    and par: "\<forall>e\<in>set ca. parent (pages t (bt_page (snd e))) = pa" "\<forall>e\<in>set cb. parent (pages t (bt_page (snd e))) = pb"
    and R: "length ca \<le> m \<and> R = set (map (bt_page \<circ> snd) (take (m - length ca) cb)) \<and> q = pa
      \<or> m \<le> length ca \<and> R = set (map (bt_page \<circ> snd) (drop m ca)) \<and> q = pb"
    and t1: "\<And>x. pages t1 x = (if x = pa then (pages t pa)\<lparr>items := map child_item (take m (ca @ cb))\<rparr>
      else if x = pb then (pages t pb)\<lparr>items := map child_item (drop m (ca @ cb))\<rparr> else if x \<in> R then (pages t x)\<lparr>parent := q\<rparr> else pages t x)"
  shows "halved t pa pb (ca @ cb) m t1"
proof -
  let ?r = "bt_page \<circ> snd"
  have away: "bt_page (snd e) \<noteq> pa" "bt_page (snd e) \<noteq> pb" if "e \<in> set (ca @ cb)" for e
  proof -
    have "bt_page (snd e) \<in> set (map ?r (ca @ cb))" using that by (simp del: map_append set_append)
    then show "bt_page (snd e) \<noteq> pa" "bt_page (snd e) \<noteq> pb" using dis by auto
  qed
  have sub: "R \<subseteq> ?r ` set (ca @ cb)" using R by (auto dest: in_set_takeD in_set_dropD)
  have parent: "parent (pages t1 (bt_page (snd e))) = (if bt_page (snd e) \<in> R then q else if e \<in> set ca then pa else pb)" if "e \<in> set (ca @ cb)" for e
    using away [OF that] par that by (auto simp: t1)
  have dab: "set (map ?r ca) \<inter> set (map ?r cb) = {}" "distinct (map ?r ca)" "distinct (map ?r cb)" using dis by auto
  have part: "set (map ?r (take i cs)) \<inter> set (map ?r (drop i cs)) = {}" if "distinct (map ?r cs)" for i cs
    using that by (metis append_take_drop_id distinct_append map_append)
  have split: "(e \<in> set (take m (ca @ cb)) \<longrightarrow> parent (pages t1 (bt_page (snd e))) = pa) \<and>
      (e \<in> set (drop m (ca @ cb)) \<longrightarrow> parent (pages t1 (bt_page (snd e))) = pb)" for e
    using R
  proof (elim disjE conjE)
    assume m: "length ca \<le> m" and RR: "R = set (map ?r (take (m - length ca) cb))" and q: "q = pa"
    have 1: "bt_page (snd e) \<notin> R" if "e \<in> set ca" for e
    proof -
      have "bt_page (snd e) \<in> set (map ?r ca)" using that by simp
      moreover have "R \<subseteq> set (map ?r cb)" unfolding RR by (auto dest: in_set_takeD)
      ultimately show ?thesis using dab(1) by blast
    qed
    have 2: "bt_page (snd e) \<notin> R" if "e \<in> set (drop (m - length ca) cb)" for e
    proof -
      have "bt_page (snd e) \<in> set (map ?r (drop (m - length ca) cb))" using that by simp
      then show ?thesis using part [OF dab(3), of "m - length ca"] unfolding RR by blast
    qed
    have 3: "e \<notin> set ca" if "e \<in> set cb" for e
    proof
      assume "e \<in> set ca"
      then have "bt_page (snd e) \<in> set (map ?r ca)" "bt_page (snd e) \<in> set (map ?r cb)" using that by simp_all
      then show False using dab(1) by blast
    qed
    show ?thesis
      using m q parent [of e] 1 [of e] 2 [of e] 3 [of e] in_set_dropD [of e "m - length ca" cb] in_set_takeD [of e "m - length ca" cb]
      by (auto simp: RR)
  next
    assume m: "m \<le> length ca" and RR: "R = set (map ?r (drop m ca))" and q: "q = pb"
    have 1: "bt_page (snd e) \<notin> R" if "e \<in> set cb" for e
    proof -
      have "bt_page (snd e) \<in> set (map ?r cb)" using that by simp
      moreover have "R \<subseteq> set (map ?r ca)" unfolding RR by (auto dest: in_set_dropD)
      ultimately show ?thesis using dab(1) by blast
    qed
    have 2: "bt_page (snd e) \<notin> R" if "e \<in> set (take m ca)" for e
    proof -
      have "bt_page (snd e) \<in> set (map ?r (take m ca))" using that by simp
      then show ?thesis using part [OF dab(2), of m] unfolding RR by blast
    qed
    have 3: "e \<notin> set ca" if "e \<in> set cb" for e
    proof
      assume "e \<in> set ca"
      then have "bt_page (snd e) \<in> set (map ?r ca)" "bt_page (snd e) \<in> set (map ?r cb)" using that by simp_all
      then show False using dab(1) by blast
    qed
    show ?thesis
      using m q parent [of e] 1 [of e] 2 [of e] 3 [of e] in_set_dropD [of e m ca] in_set_takeD [of e m ca]
      by (auto simp: RR)
  qed
  have "x \<notin> ?r ` set (ca @ cb) \<longrightarrow> x \<notin> R" for x using sub by blast
  then show ?thesis
    unfolding halved_def using dis nl split by (auto simp: t1 simp del: take_append drop_append)
qed

definition node_pair :: "btree \<Rightarrow> PageNum \<Rightarrow> PageNum \<Rightarrow> PageNum \<Rightarrow> children \<Rightarrow> children \<Rightarrow> bool" where
  "node_pair t pp pa pb ca cb \<longleftrightarrow> distinct (pp # pa # pb # map (bt_page \<circ> snd) (ca @ cb)) \<and>
     items (pages t pa) = map child_item ca \<and> items (pages t pb) = map child_item cb \<and> \<not> is_leaf (pages t pa) \<and> \<not> is_leaf (pages t pb) \<and>
     parent (pages t pa) = pp \<and> parent (pages t pb) = pp \<and>
     (\<forall>e\<in>set ca. parent (pages t (bt_page (snd e))) = pa) \<and> (\<forall>e\<in>set cb. parent (pages t (bt_page (snd e))) = pb) \<and>
     (\<forall>e\<in>set (ca @ cb). get_page (bt_page (snd e)) t = SUCCESS)"

lemma node_pair_halved:
  assumes "node_pair t pp pa pb ca cb"
    and "length ca \<le> m \<and> R = set (map (bt_page \<circ> snd) (take (m - length ca) cb)) \<and> q = pa
      \<or> m \<le> length ca \<and> R = set (map (bt_page \<circ> snd) (drop m ca)) \<and> q = pb"
    and "\<And>x. pages t1 x = (if x = pa then (pages t pa)\<lparr>items := map child_item (take m (ca @ cb))\<rparr>
      else if x = pb then (pages t pb)\<lparr>items := map child_item (drop m (ca @ cb))\<rparr> else if x \<in> R then (pages t x)\<lparr>parent := q\<rparr> else pages t x)"
  shows "halved t pa pb (ca @ cb) m t1" "next_brother (pages t1 x) = next_brother (pages t x)"
proof -
  show "halved t pa pb (ca @ cb) m t1" using assms(1) by (intro halved_move [OF _ _ _ _ _ _ assms(2,3)]) (auto simp: node_pair_def)
  show "next_brother (pages t1 x) = next_brother (pages t x)" by (simp add: assms(3))
qed

lemma redistribute_node_first:
  assumes np: "node_pair t pp pa pb ca cb" and len: "1 < length cb" and k: "snd (items (pages t pp) ! 1) = PageV pb"
  defines "t' \<equiv> redistribute False pb pa pp 0 t" and "m \<equiv> Suc (length ca)"
  obtains t1 where "halved t pa pb (ca @ cb) m t1" "next_brother (pages t1 pa) = next_brother (pages t pa)" "next_brother (pages t1 pb) = next_brother (pages t pb)"
    "\<forall>x. x \<noteq> pp \<longrightarrow> pages t' x = pages t1 x" "pages t' pp = (pages t pp)\<lparr>items := (items (pages t pp))[Suc 0 := (fst ((ca @ cb) ! m), PageV pb)]\<rparr>"
    "same_state t t'" "disposed_pages t' = disposed_pages t"
proof -
  obtain a b cb' where cb: "cb = a # b # cb'" using len by (cases cb; cases "tl cb") auto
  have d: "distinct (pp # pa # pb # map (bt_page \<circ> snd) (ca @ cb))" "items (pages t pa) = map child_item ca" "items (pages t pb) = map child_item cb"
    "get_page (bt_page (snd a)) t = SUCCESS"
    using np by (auto simp: node_pair_def cb)
  have ch: "\<forall>it\<in>set [child_item a]. get_page (page_of (snd it)) t = SUCCESS \<and> page_of (snd it) \<noteq> pa" using d by (auto simp: cb)
  obtain t0 where t0: "internal_insert_items pa (length ca) [child_item a] t = (SUCCESS, t0)"
    "\<And>x. pages t0 x = (if x = pa then (pages t pa)\<lparr>items := list_insert_at (length ca) [child_item a] (items (pages t pa))\<rparr>
       else if x \<in> (page_of \<circ> snd) ` set [child_item a] then (pages t x)\<lparr>parent := pa\<rparr> else pages t x)"
    "same_state t t0" "disposed_pages t0 = disposed_pages t"
    by (rule insert_children [OF ch]) blast
  define t1 where "t1 = internal_remove pb 0 t0"
  have mv: "internal_move_first_to_end pb pa t = (SUCCESS, t1)"
    using t0(1) by (simp add: internal_move_first_to_end_def internal_append_def d(2,3) cb t1_def)
  have p1: "pages t1 x = (if x = pa then (pages t pa)\<lparr>items := map child_item (take m (ca @ cb))\<rparr>
      else if x = pb then (pages t pb)\<lparr>items := map child_item (drop m (ca @ cb))\<rparr> else if x \<in> {bt_page (snd a)} then (pages t x)\<lparr>parent := pa\<rparr> else pages t x)" for x
    using d by (auto simp: t1_def internal_remove_def node_remove_def node_simps t0(2) recover_remove_items_def list_remove_at_def list_insert_at_def cb m_def)
  have s1: "same_state t t1" "disposed_pages t1 = disposed_pages t"
    using t0(3,4) by (simp_all add: t1_def internal_remove_def node_remove_def node_simps same_state_def)
  have "length ca \<le> m \<and> {bt_page (snd a)} = set (map (bt_page \<circ> snd) (take (m - length ca) cb)) \<and> pa = pa
      \<or> m \<le> length ca \<and> {bt_page (snd a)} = set (map (bt_page \<circ> snd) (drop m ca)) \<and> pa = pb" by (simp add: m_def cb)
  note hv = node_pair_halved [OF np this p1]
  have t': "t' = internal_set_key_at pp 1 (fst b) t1"
  proof -
    have "pb \<noteq> pa" using d(1) by auto
    then show ?thesis using mv by (simp add: t'_def redistribute_def key_at_def p1 cb m_def)
  qed
  have pp: "pages t1 pp = pages t pp" using d(1) by (auto simp: p1 cb)
  show thesis
  proof (rule that [OF hv(1) hv(2) [of pa] hv(2) [of pb]])
    show "\<forall>x. x \<noteq> pp \<longrightarrow> pages t' x = pages t1 x" by (simp add: t' set_key_pages)
    show "pages t' pp = (pages t pp)\<lparr>items := (items (pages t pp))[Suc 0 := (fst ((ca @ cb) ! m), PageV pb)]\<rparr>"
      using k by (simp add: t' set_key_pages pp m_def cb nth_append)
    show "same_state t t'" "disposed_pages t' = disposed_pages t" using s1 by (simp_all add: t' set_key_pages same_state_def)
  qed
qed

lemma redistribute_node_last:
  assumes np: "node_pair t pp pa pb ca cb" and len: "ca \<noteq> []" and k: "snd (items (pages t pp) ! Suc i) = PageV pb"
  defines "t' \<equiv> redistribute False pa pb pp (Suc i) t" and "m \<equiv> length ca - 1"
  obtains t1 where "halved t pa pb (ca @ cb) m t1" "next_brother (pages t1 pa) = next_brother (pages t pa)" "next_brother (pages t1 pb) = next_brother (pages t pb)"
    "\<forall>x. x \<noteq> pp \<longrightarrow> pages t' x = pages t1 x" "pages t' pp = (pages t pp)\<lparr>items := (items (pages t pp))[Suc i := (fst ((ca @ cb) ! m), PageV pb)]\<rparr>"
    "same_state t t'" "disposed_pages t' = disposed_pages t"
proof -
  obtain ca' a where ca: "ca = ca' @ [a]" using len by (cases ca rule: rev_cases) auto
  have d: "distinct (pp # pa # pb # map (bt_page \<circ> snd) (ca @ cb))" "items (pages t pa) = map child_item ca" "items (pages t pb) = map child_item cb"
    "get_page (bt_page (snd a)) t = SUCCESS"
    using np by (auto simp: node_pair_def ca)
  have ch: "\<forall>it\<in>set [child_item a]. get_page (page_of (snd it)) t = SUCCESS \<and> page_of (snd it) \<noteq> pb" using d by (auto simp: ca)
  obtain t0 where t0: "internal_insert_items pb 0 [child_item a] t = (SUCCESS, t0)"
    "\<And>x. pages t0 x = (if x = pb then (pages t pb)\<lparr>items := list_insert_at 0 [child_item a] (items (pages t pb))\<rparr>
       else if x \<in> (page_of \<circ> snd) ` set [child_item a] then (pages t x)\<lparr>parent := pb\<rparr> else pages t x)"
    "same_state t t0" "disposed_pages t0 = disposed_pages t"
    by (rule insert_children [OF ch]) blast
  define t1 where "t1 = node_remove pa (length ca - 1) 1 t0"
  have mv: "internal_move_last_to_front pa pb t = (SUCCESS, t1)"
    using t0(1) by (simp add: internal_move_last_to_front_def internal_preappend_def d(2,3) ca t1_def Let_def nth_append)
  have p1: "pages t1 x = (if x = pa then (pages t pa)\<lparr>items := map child_item (take m (ca @ cb))\<rparr>
      else if x = pb then (pages t pb)\<lparr>items := map child_item (drop m (ca @ cb))\<rparr> else if x \<in> {bt_page (snd a)} then (pages t x)\<lparr>parent := pb\<rparr> else pages t x)" for x
    using d by (auto simp: t1_def node_remove_def node_simps t0(2) recover_remove_items_def list_remove_at_def list_insert_at_def ca m_def)
  have s1: "same_state t t1" "disposed_pages t1 = disposed_pages t"
    using t0(3,4) by (simp_all add: t1_def node_remove_def node_simps same_state_def)
  have "length ca \<le> m \<and> {bt_page (snd a)} = set (map (bt_page \<circ> snd) (take (m - length ca) cb)) \<and> pb = pa
      \<or> m \<le> length ca \<and> {bt_page (snd a)} = set (map (bt_page \<circ> snd) (drop m ca)) \<and> pb = pb" by (simp add: m_def ca)
  note hv = node_pair_halved [OF np this p1]
  have t': "t' = internal_set_key_at pp (Suc i) (fst a) t1"
  proof -
    have "pb \<noteq> pa" using d(1) by auto
    then show ?thesis using mv by (simp add: t'_def redistribute_def key_at_def p1 ca m_def)
  qed
  have pp: "pages t1 pp = pages t pp" using d(1) by (auto simp: p1 ca)
  show thesis
  proof (rule that [OF hv(1) hv(2) [of pa] hv(2) [of pb]])
    show "\<forall>x. x \<noteq> pp \<longrightarrow> pages t' x = pages t1 x" by (simp add: t' set_key_pages)
    show "pages t' pp = (pages t pp)\<lparr>items := (items (pages t pp))[Suc i := (fst ((ca @ cb) ! m), PageV pb)]\<rparr>"
      using k by (simp add: t' set_key_pages pp m_def ca nth_append)
    show "same_state t t'" "disposed_pages t' = disposed_pages t" using s1 by (simp_all add: t' set_key_pages same_state_def)
  qed
qed

lemma coalesce_node:
  assumes np: "node_pair t pp pa pb ca cb"
    and arg: "(p, neighbor, index) = (if first then (pa, pb, 0) else (pb, pa, Suc i))" "first \<longrightarrow> i = 0"
  obtains t1 t' where "coalesce_step False neighbor p pp index t = (SUCCESS, t')" "halved t pa pb (ca @ cb) (length (ca @ cb)) t1"
    "\<forall>x. x \<noteq> pp \<longrightarrow> pages t' x = pages t1 x" "pages t' pp = (pages t pp)\<lparr>items := list_remove_at (Suc i) 1 (items (pages t pp))\<rparr>"
    "same_state t t'" "disposed_pages t' = disposed_pages t @ [pb]"
proof -
  define ta where "ta = internal_remove pp (Suc i) t"
  have ta: "pages ta x = (if x = pp then (pages t pp)\<lparr>items := list_remove_at (Suc i) 1 (items (pages t pp))\<rparr> else pages t x)"
    "same_state t ta" "disposed_pages ta = disposed_pages t" for x
    by (simp_all add: ta_def internal_remove_def node_remove_def node_simps recover_remove_items_def same_state_def)
  have d: "distinct (pp # pa # pb # map (bt_page \<circ> snd) (ca @ cb))" "items (pages t pa) = map child_item ca" "items (pages t pb) = map child_item cb"
    "\<not> is_leaf (pages t pa)" "\<forall>e\<in>set cb. get_page (bt_page (snd e)) t = SUCCESS"
    using np by (auto simp: node_pair_def)
  have "pa \<notin> set (map (bt_page \<circ> snd) cb)" using d(1) by simp
  then have ch: "\<forall>it\<in>set (map child_item cb). get_page (page_of (snd it)) ta = SUCCESS \<and> page_of (snd it) \<noteq> pa"
    using d(5) ta(2) by (auto simp: get_page_def same_state_def)
  obtain t0 where t0: "internal_insert_items pa (length ca) (map child_item cb) ta = (SUCCESS, t0)"
    "\<And>x. pages t0 x = (if x = pa then (pages ta pa)\<lparr>items := list_insert_at (length ca) (map child_item cb) (items (pages ta pa))\<rparr>
       else if x \<in> (page_of \<circ> snd) ` set (map child_item cb) then (pages ta x)\<lparr>parent := pa\<rparr> else pages ta x)"
    "same_state ta t0" "disposed_pages t0 = disposed_pages ta"
    by (rule insert_children [OF ch]) blast
  define t2 where "t2 = node_remove pb 0 (length cb) t0"
  have mv: "internal_move_to pb pa ta = (SUCCESS, t2)"
    using t0(1) d by (simp add: internal_move_to_def internal_append_def ta(1) t2_def)
  let ?R = "set (map (bt_page \<circ> snd) cb)"
  have R: "(page_of \<circ> snd) ` set (map child_item cb) = ?R" by (auto simp: image_comp)
  note t0p = t0(2) [unfolded R]
  define t1 where "t1 = t\<lparr>pages := (pages t2)(pp := pages t pp)\<rparr>"
  have p1: "pages t1 x = (if x = pa then (pages t pa)\<lparr>items := map child_item (take (length (ca @ cb)) (ca @ cb))\<rparr>
      else if x = pb then (pages t pb)\<lparr>items := map child_item (drop (length (ca @ cb)) (ca @ cb))\<rparr> else if x \<in> ?R then (pages t x)\<lparr>parent := pa\<rparr> else pages t x)" for x
  proof -
    have "pp \<notin> ?R" "pb \<notin> ?R" "pa \<notin> ?R" "pp \<noteq> pa" "pp \<noteq> pb" "pa \<noteq> pb" using d(1) by simp_all
    then show ?thesis
      by (simp add: t1_def t2_def node_remove_def node_simps t0p ta(1) d(2,3) recover_remove_items_def list_remove_at_def list_insert_at_def del: set_map)
  qed
  have "halved t pa pb (ca @ cb) (length (ca @ cb)) t1" by (rule node_pair_halved(1) [OF np _ p1]) simp
  moreover have "coalesce_step False neighbor p pp index t = (SUCCESS, dispose_page pb t2)"
  proof -
    have "\<not> is_leaf (pages t2 pa)" using d(1,4) by (simp add: t2_def node_remove_def node_simps t0(2) ta(1))
    then show ?thesis using arg mv by (cases first) (simp_all add: coalesce_step_def ta_def)
  qed
  moreover have "\<forall>x. x \<noteq> pp \<longrightarrow> pages (dispose_page pb t2) x = pages t1 x" by (simp add: t1_def dispose_page_def)
  moreover have "pages (dispose_page pb t2) pp = (pages t pp)\<lparr>items := list_remove_at (Suc i) 1 (items (pages t pp))\<rparr>"
  proof -
    have "pp \<notin> ?R" "pp \<noteq> pa" "pp \<noteq> pb" using d(1) by simp_all
    then show ?thesis by (simp add: dispose_page_def t2_def node_remove_def node_simps t0p ta(1) del: set_map)
  qed
  moreover have "same_state t (dispose_page pb t2)" "disposed_pages (dispose_page pb t2) = disposed_pages t @ [pb]"
    using ta(2,3) t0(3,4) by (simp_all add: dispose_page_def t2_def node_remove_def node_simps same_state_def)
  ultimately show thesis using that by blast
qed

end
