(* ===== verification/BplusDelete.thy ===== *)
theory BplusDelete
  imports BplusMerge
begin

text \<open>
  Deletion from a whole index: the entry is removed from its leaf; a node that is less than half full takes an
  item from a neighbour or is merged with it, which may leave the parent less than half full, up to the root.
\<close>

section \<open>Sizes\<close>

fun bt_size :: "bt \<Rightarrow> nat" where
  "bt_size (BLeaf p its) = length its"
| "bt_size (BNode p cs) = length cs"

fun bt_children :: "bt \<Rightarrow> children" where
  "bt_children (BLeaf p its) = []"
| "bt_children (BNode p cs) = cs"

abbreviation level_max :: "IndexFileHeader \<Rightarrow> nat \<Rightarrow> int" where
  "level_max h n \<equiv> (if n = 0 then leaf_max_size h else internal_max_size h)"

lemma stored_size:
  assumes "stored (pages t) par b" "wf cmp valid h n l u b"
  shows "node_size (pages t (bt_page b)) = int (bt_size b)" "max_size h (pages t (bt_page b)) = level_max h n"
    "length (items (pages t (bt_page b))) = bt_size b" "is_leaf (pages t (bt_page b)) \<longleftrightarrow> n = 0"
  using assms by (cases b; auto simp: node_size_def max_size_def)+

lemma wf_size: "wf cmp valid h n l u b \<Longrightarrow> int (bt_size b) \<le> level_max h n"
  by (cases b) auto

lemma filled_size:
  assumes "wf cmp valid h n l u b"
  shows "filled h b \<longleftrightarrow> level_max h n div 2 \<le> int (bt_size b) \<and> (\<forall>e\<in>set (bt_children b). filled h (snd e))"
    "lacking h False b \<longleftrightarrow> level_max h n div 2 \<le> int (bt_size b) + 1 \<and> (\<forall>e\<in>set (bt_children b). filled h (snd e))"
  using assms by (cases b; auto)+

lemma level_max_ok: "sizes_ok h \<Longrightarrow> 4 \<le> level_max h n"
  by (auto simp: sizes_ok_def)

section \<open>The pages of an index\<close>

text \<open>The index holds the entries \<open>its\<close>, in key order, on the pages \<open>M\<close>.\<close>

definition index_occupies :: "btree \<Rightarrow> (IKey \<Rightarrow> bool) \<Rightarrow> item list \<Rightarrow> PageNum multiset \<Rightarrow> bool" where
  "index_occupies t valid its M \<longleftrightarrow>
     (if is_empty t then its = [] \<and> M = {#} \<and> sizes_ok (file_header t)
      else \<exists>b. index_inv t valid b \<and> bt_items b = its \<and> mset (bt_pages b) = M)"

lemma index_inv_occupies: "index_inv t valid b \<Longrightarrow> index_occupies t valid (bt_items b) (mset (bt_pages b))"
  using index_inv_not_empty by (auto simp: index_occupies_def)

lemma index_occupies_holds: "index_occupies t valid its M \<Longrightarrow> \<exists>n. index_holds t valid n its"
  using index_inv_holds by (cases "is_empty t") (auto simp: index_occupies_def index_holds_def)

text \<open>A run that succeeds and leaves the entries \<open>its\<close>; the pages it frees are those of \<open>M\<close> the index no longer uses.\<close>

definition settled :: "btree \<Rightarrow> (IKey \<Rightarrow> bool) \<Rightarrow> item list \<Rightarrow> PageNum multiset \<Rightarrow> (RC \<times> btree) option \<Rightarrow> bool" where
  "settled t valid its M r \<longleftrightarrow>
     (\<exists>t' ds M'. r = Some (SUCCESS, t') \<and> index_occupies t' valid its M' \<and> disposed_pages t' = disposed_pages t @ ds \<and> M' + mset ds = M \<and>
        key_comparator t' = key_comparator t \<and> file_header t' = (file_header t)\<lparr>root_page := root_page (file_header t')\<rparr>)"

lemma settled_after:
  assumes "settled t1 valid its M r" "same_state t t1" "disposed_pages t1 = disposed_pages t @ ds"
  shows "settled t valid its (M + mset ds) r"
proof -
  obtain t' ds' M' where t': "r = Some (SUCCESS, t')" "index_occupies t' valid its M'" "disposed_pages t' = disposed_pages t1 @ ds'" "M' + mset ds' = M"
    "key_comparator t' = key_comparator t1" "file_header t' = (file_header t1)\<lparr>root_page := root_page (file_header t')\<rparr>"
    using assms(1) by (auto simp: settled_def)
  then have "M' + mset (ds @ ds') = M + mset ds" "disposed_pages t' = disposed_pages t @ ds @ ds'"
    using assms(3) by (auto simp: ac_simps)
  then show ?thesis using t' assms(2) unfolding settled_def same_state_def by (metis append.assoc)
qed

context index_order
begin

section \<open>The position of a node in its parent\<close>

lemma parent_lookup:
  assumes pl: "placed t valid ((pp, ls, k, rs) # ctx) n l u b" and c: "key_comparator t = cmp"
    and key: "valid key" "above cmp l key" "below cmp u key"
  shows "fst (internal_lookup cmp key (pages t pp)) = length ls"
proof -
  let ?h = "file_header t" and ?cs = "ls @ (k, b) # rs"
  obtain lo hi where up: "placed t valid ctx (Suc n) lo hi (BNode pp ?cs)" by (rule placed_up [OF pl c])
  obtain lo' hi' where pw: "path_wf cmp valid ?h ctx (Suc n) lo' hi'" "left_part cmp valid (wf cmp valid ?h n) lo' hi' ls k l"
    "right_part cmp valid (wf cmp valid ?h n) l hi' rs u"
    using pl c by (auto simp: placed_def located_def)
  have rg: "ranges cmp valid (wf cmp valid ?h n) lo hi ?cs" and bd: "bounds_ok lo"
    using placedD(8,9) [OF up] c path_wf_bounds by auto
  have asc: "ascending (tl (map fst ?cs))" using ranges_separators [OF rg bd] by simp
  have ks: "node_keys (pages t pp) = map fst ?cs" using placedD(3) [OF up] by simp
  obtain r where r: "fst (internal_lookup cmp key (pages t pp)) = r" "r < length ?cs" "0 < r \<longrightarrow> cmp (fst (?cs ! r)) key \<le> 0"
    "\<forall>j. r < j \<longrightarrow> j < length ?cs \<longrightarrow> cmp key (fst (?cs ! j)) < 0"
    by (rule internal_lookup_child [OF ks asc _ key(1)]) auto
  have "\<not> r < length ls"
  proof
    assume lt: "r < length ls"
    then have "cmp key k < 0" using r(4) [rule_format, of "length ls"] by simp
    moreover have "valid k" "cmp k key \<le> 0" using pw(2) lt key(2) by (auto simp: left_part_def above_def split: if_splits)
    ultimately show False using cmp_flip [of key k] key(1) by simp
  qed
  moreover have "\<not> length ls < r"
  proof
    assume lt: "length ls < r"
    obtain e es where rs: "rs = e # es" using lt r(2) by (cases rs) auto
    have e: "valid (fst e)" "cmp key (fst e) < 0" using pw(3) key(3) by (auto simp: rs right_part_def below_def)
    have mem: "?cs ! r \<in> set rs" using lt r(2) by (simp add: nth_append nth_Cons')
    have ar: "ascending (map fst rs)" using asc by (cases ls) (auto simp: ascending_append ascending_Cons)
    have "valid (fst (?cs ! r))" using ascending_valid [OF ar] mem by simp
    moreover have "?cs ! r = e \<or> cmp (fst e) (fst (?cs ! r)) < 0" using ar mem unfolding rs by (auto simp: ascending_Cons)
    ultimately have "cmp key (fst (?cs ! r)) < 0" using e cmp_less_le_trans [of key "fst e" "fst (?cs ! r)"] key(1) by auto
    moreover have "cmp (fst (?cs ! r)) key \<le> 0" using r(3) lt by simp
    ultimately show False using cmp_flip [of key "fst (?cs ! r)"] key(1) \<open>valid (fst (?cs ! r))\<close> by simp
  qed
  ultimately show ?thesis using r(1) by linarith
qed

text \<open>The last key of a node lies between the bounds of the node.\<close>

lemma last_key:
  assumes "wf cmp valid h n l u b" "stored (pages t) par b" "if n = 0 then 0 < bt_size b else 1 < bt_size b" "bounds_ok l"
  defines "key \<equiv> key_at (bt_page b) (length (items (pages t (bt_page b))) - 1) t"
  shows "valid key \<and> above cmp l key \<and> below cmp u key"
proof (cases b)
  case (BLeaf p its)
  then have "key = fst (last its)" "its \<noteq> []" using assms(1-3) by (auto simp: key_def key_at_def last_conv_nth)
  then have "key \<in> fst ` set its" by simp
  moreover have "ascending (map fst its)" "\<forall>k\<in>fst ` set its. above cmp l k \<and> below cmp u k" using assms(1) BLeaf by auto
  ultimately show ?thesis using ascending_valid by auto
next
  case (BNode p cs)
  then have rg: "ranges cmp valid (wf cmp valid h (n - 1)) l u cs" and n: "n \<noteq> 0" using assms(1) by auto
  then obtain e cs' where cs: "cs = e # cs'" "cs' \<noteq> []" using assms(3) BNode by (cases cs) auto
  then have "key = fst (last cs')" using assms(2) BNode by (auto simp: key_def key_at_def last_conv_nth nth_Cons')
  then have "key \<in> set (tl (map fst cs))" using cs by simp
  then show ?thesis
    using ranges_separators [OF rg assms(4)] ascending_valid strictly_above_imp_above by auto
qed

section \<open>One step: taking an item from a neighbour, or merging with it\<close>

text \<open>The neighbours \<open>bA\<close> and \<open>bB\<close>; the node that lacks an item is the left one when it has no left neighbour.\<close>

definition step_args :: "bool \<Rightarrow> children \<Rightarrow> bt \<Rightarrow> bt \<Rightarrow> PageNum \<Rightarrow> PageNum \<Rightarrow> nat \<Rightarrow> bool" where
  "step_args first xs bA bB p neighbor index \<longleftrightarrow>
     (p, neighbor, index) = (if first then (bt_page bA, bt_page bB, 0) else (bt_page bB, bt_page bA, Suc (length xs))) \<and> (first \<longrightarrow> xs = [])"

lemma pair_node:
  assumes pl: "placed t valid ctx (Suc n) lo hi (BNode pp (xs @ [(kA, BNode pa ca), (kB, BNode pb cb)] @ ys))"
  shows "node_pair t pp pa pb ca cb"
proof -
  have dis: "distinct (pp # (pa # child_pages ca) @ (pb # child_pages cb))" using placedD(1) [OF pl] by (auto simp del: set_concat)
  have st: "stored (pages t) pp (BNode pa ca)" "stored (pages t) pp (BNode pb cb)"
    using placedD(2) [OF pl, of "(kA, BNode pa ca)"] placedD(2) [OF pl, of "(kB, BNode pb cb)"] by auto
  have kids: "mset (map (bt_page \<circ> snd) cs) \<subseteq># mset (child_pages cs)" for cs :: children
  proof (induction cs)
    case (Cons e cs)
    have "{#bt_page (snd e)#} \<subseteq># mset (bt_pages (snd e))" by simp
    from subset_mset.add_mono [OF this Cons.IH] show ?case by simp
  qed simp
  have "mset (pp # pa # pb # map (bt_page \<circ> snd) (ca @ cb)) \<subseteq># mset (pp # (pa # child_pages ca) @ (pb # child_pages cb))"
    using kids [of "ca @ cb"] by simp
  from distinct_submset [OF dis this] have d: "distinct (pp # pa # pb # map (bt_page \<circ> snd) (ca @ cb))" .
  have "get_page (bt_page (snd e)) t = SUCCESS" if e: "e \<in> set (ca @ cb)" for e
  proof -
    have "bt_page (snd e) \<in> set (child_pages (ca @ cb))" using e by (auto intro!: bexI [of _ e])
    then have "bt_page (snd e) \<in> set (pp # child_pages (xs @ [(kA, BNode pa ca), (kB, BNode pb cb)] @ ys))" by auto
    from placedD(5) [OF pl this] show ?thesis by (simp add: get_page_def)
  qed
  then show ?thesis using d st stored_parent by (auto simp: node_pair_def)
qed

definition shifted :: "btree \<Rightarrow> path \<Rightarrow> nat \<Rightarrow> IKey option \<Rightarrow> IKey option \<Rightarrow> PageNum \<Rightarrow> children \<Rightarrow> children \<Rightarrow> bt \<Rightarrow> bt \<Rightarrow> btree \<Rightarrow> bool" where
  "shifted t ctx n lo hi pp xs ys bA bB t' \<longleftrightarrow> same_state t t' \<and> disposed_pages t' = disposed_pages t \<and>
     (\<exists>kA bA' k' bB'. placed t' valid ctx (Suc n) lo hi (BNode pp (xs @ [(kA, bA'), (k', bB')] @ ys)) \<and>
        filled (file_header t) bA' \<and> filled (file_header t) bB' \<and>
        bt_items bA' @ bt_items bB' = bt_items bA @ bt_items bB \<and>
        mset (bt_pages bA' @ bt_pages bB') = mset (bt_pages bA @ bt_pages bB))"

text \<open>The sizes of the two nodes after the move.\<close>

lemma shift_sizes:
  fixes M :: int
  assumes "M < int (a + b)" "int a \<le> M" "int b \<le> M" "4 \<le> M"
    and "if first then int a < M - M div 2 \<and> M div 2 \<le> int a + 1 else int b < M - M div 2 \<and> M div 2 \<le> int b + 1"
  defines "m \<equiv> (if first then Suc a else a - 1)"
  shows "0 < m" "m < a + b" "int m \<le> M" "int (a + b - m) \<le> M" "M div 2 \<le> int m" "M div 2 \<le> int (a + b - m)" "first \<Longrightarrow> 1 < b" "0 < a \<or> first"
  using assms by (auto split: if_splits)

lemma shift_leaf_step:
  assumes pl: "placed t valid ctx (Suc n) lo hi (BNode pp (xs @ [(kA, BLeaf pa ia), (kB, BLeaf pb ib)] @ ys))" and c: "key_comparator t = cmp"
    and args: "step_args first xs (BLeaf pa ia) (BLeaf pb ib) p neighbor index"
    and sz: "leaf_max_size (file_header t) < int (length ia + length ib)" "int (length ia) \<le> leaf_max_size (file_header t)" "int (length ib) \<le> leaf_max_size (file_header t)"
      "if first then int (length ia) < leaf_max_size (file_header t) - leaf_max_size (file_header t) div 2 \<and> leaf_max_size (file_header t) div 2 \<le> int (length ia) + 1
       else int (length ib) < leaf_max_size (file_header t) - leaf_max_size (file_header t) div 2 \<and> leaf_max_size (file_header t) div 2 \<le> int (length ib) + 1"
  shows "shifted t ctx n lo hi pp xs ys (BLeaf pa ia) (BLeaf pb ib) (redistribute True neighbor p pp index t)"
proof -
  let ?t = "redistribute True neighbor p pp index t"
  define m where "m = (if first then Suc (length ia) else length ia - 1)"
  have "4 \<le> leaf_max_size (file_header t)" using placedD(6) [OF pl] by (simp add: sizes_ok_def)
  note m = shift_sizes [OF sz(1-3) this sz(4), folded m_def]
  have st: "items (pages t pa) = ia" "items (pages t pb) = ib" and dis: "distinct [pp, pa, pb]"
    using placedD(2) [OF pl, of "(kA, BLeaf pa ia)"] placedD(2) [OF pl, of "(kB, BLeaf pb ib)"] placedD(1) [OF pl] by auto
  have k: "snd (items (pages t pp) ! Suc (length xs)) = PageV pb" using placedD(3) [OF pl] by (simp add: nth_append)
  have "(\<forall>x. pages ?t x = (if x = pp then (pages t pp)\<lparr>items := (items (pages t pp))[Suc (length xs) := (fst ((ia @ ib) ! m), PageV pb)]\<rparr>
      else if x = pa then (pages t pa)\<lparr>items := take m (ia @ ib)\<rparr> else if x = pb then (pages t pb)\<lparr>items := drop m (ia @ ib)\<rparr> else pages t x))
      \<and> same_state t ?t \<and> disposed_pages ?t = disposed_pages t"
  proof (cases first)
    case True
    then show ?thesis using redistribute_leaf_first [OF dis st m(7) [OF True]] k args by (simp add: step_args_def m_def)
  next
    case False
    then have "ia \<noteq> []" using m(8) by auto
    then show ?thesis using redistribute_leaf_last [OF dis st _ k] False args by (simp add: step_args_def m_def)
  qed
  then have pg: "\<And>x. pages ?t x = (if x = pp then (pages t pp)\<lparr>items := (items (pages t pp))[Suc (length xs) := (fst ((ia @ ib) ! m), PageV pb)]\<rparr>
      else if x = pa then (pages t pa)\<lparr>items := take m (ia @ ib)\<rparr> else if x = pb then (pages t pb)\<lparr>items := drop m (ia @ ib)\<rparr> else pages t x)"
    and same: "same_state t ?t" "disposed_pages ?t = disposed_pages t" by blast+
  have "placed ?t valid ctx (Suc n) lo hi (BNode pp (xs @ [(kA, BLeaf pa (take m (ia @ ib))), (fst ((ia @ ib) ! m), BLeaf pb (drop m (ia @ ib)))] @ ys))"
    by (rule shift_leaf [OF pl c _ _ _ _ m(1) _ m(3) _ pg]) (use same m in \<open>simp_all add: same_state_def\<close>)
  moreover have "bt_items (BLeaf pa (take m (ia @ ib))) @ bt_items (BLeaf pb (drop m (ia @ ib))) = bt_items (BLeaf pa ia) @ bt_items (BLeaf pb ib)"
    unfolding bt_items_def bt_leaves.simps by (simp del: take_append drop_append)
  moreover have "filled (file_header t) (BLeaf pa (take m (ia @ ib)))" "filled (file_header t) (BLeaf pb (drop m (ia @ ib)))"
    using m(2,5,6) by auto
  moreover have "mset (bt_pages (BLeaf pa (take m (ia @ ib))) @ bt_pages (BLeaf pb (drop m (ia @ ib)))) = mset (bt_pages (BLeaf pa ia) @ bt_pages (BLeaf pb ib))" by simp
  ultimately show ?thesis unfolding shifted_def using same by blast
qed

lemma shift_node_step:
  assumes pl: "placed t valid ctx (Suc n) lo hi (BNode pp (xs @ [(kA, BNode pa ca), (kB, BNode pb cb)] @ ys))" and c: "key_comparator t = cmp"
    and args: "step_args first xs (BNode pa ca) (BNode pb cb) p neighbor index"
    and sz: "internal_max_size (file_header t) < int (length ca + length cb)" "int (length ca) \<le> internal_max_size (file_header t)" "int (length cb) \<le> internal_max_size (file_header t)"
      "if first then int (length ca) < internal_max_size (file_header t) - internal_max_size (file_header t) div 2 \<and> internal_max_size (file_header t) div 2 \<le> int (length ca) + 1
       else int (length cb) < internal_max_size (file_header t) - internal_max_size (file_header t) div 2 \<and> internal_max_size (file_header t) div 2 \<le> int (length cb) + 1"
    and fl: "\<forall>e\<in>set (ca @ cb). filled (file_header t) (snd e)"
  shows "shifted t ctx n lo hi pp xs ys (BNode pa ca) (BNode pb cb) (redistribute False neighbor p pp index t)"
proof -
  let ?t = "redistribute False neighbor p pp index t"
  define m where "m = (if first then Suc (length ca) else length ca - 1)"
  have "4 \<le> internal_max_size (file_header t)" using placedD(6) [OF pl] by (simp add: sizes_ok_def)
  note m = shift_sizes [OF sz(1-3) this sz(4), folded m_def]
  note np = pair_node [OF pl]
  have k: "snd (items (pages t pp) ! Suc (length xs)) = PageV pb" using placedD(3) [OF pl] by (simp add: nth_append)
  obtain t1 where t1: "halved t pa pb (ca @ cb) m t1" "next_brother (pages t1 pa) = next_brother (pages t pa)" "next_brother (pages t1 pb) = next_brother (pages t pb)"
    "\<forall>x. x \<noteq> pp \<longrightarrow> pages ?t x = pages t1 x" "pages ?t pp = (pages t pp)\<lparr>items := (items (pages t pp))[Suc (length xs) := (fst ((ca @ cb) ! m), PageV pb)]\<rparr>"
    "same_state t ?t" "disposed_pages ?t = disposed_pages t"
  proof (cases first)
    case True
    then have a: "p = pa" "neighbor = pb" "index = 0" "xs = []" "m = Suc (length ca)" using args by (simp_all add: step_args_def m_def)
    have "snd (items (pages t pp) ! 1) = PageV pb" using k a(4) by simp
    from redistribute_node_first [OF np m(7) [OF True] this] show thesis using that unfolding a list.size by blast
  next
    case False
    then have a: "p = pb" "neighbor = pa" "index = Suc (length xs)" "m = length ca - 1" "ca \<noteq> []" using args m(8) by (auto simp: step_args_def m_def)
    from redistribute_node_last [OF np a(5) k] show thesis using that unfolding a by blast
  qed
  have "placed ?t valid ctx (Suc n) lo hi (BNode pp (xs @ [(kA, BNode pa (take m (ca @ cb))), (fst ((ca @ cb) ! m), BNode pb (drop m (ca @ cb)))] @ ys))"
    by (rule shift_node [OF pl c _ _ _ _ m(1) _ m(3) _ t1(1,4,5,2,3)]) (use t1(6) m in \<open>simp_all add: same_state_def\<close>)
  moreover have app: "concat (map f (take m (ca @ cb))) @ concat (map f (drop m (ca @ cb))) = concat (map f ca) @ concat (map f cb)" for f :: "IKey \<times> bt \<Rightarrow> 'a list"
    by (metis append_take_drop_id concat_append map_append)
  moreover have "bt_items (BNode pa (take m (ca @ cb))) @ bt_items (BNode pb (drop m (ca @ cb))) = bt_items (BNode pa ca) @ bt_items (BNode pb cb)"
    unfolding bt_items_BNode by (metis append_take_drop_id concat_append map_append)
  moreover have "filled (file_header t) (BNode pa (take m (ca @ cb)))" "filled (file_header t) (BNode pb (drop m (ca @ cb)))"
    using m(2,5,6) fl by (auto dest: in_set_takeD in_set_dropD)
  moreover have "mset (bt_pages (BNode pa (take m (ca @ cb))) @ bt_pages (BNode pb (drop m (ca @ cb)))) = mset (bt_pages (BNode pa ca) @ bt_pages (BNode pb cb))"
    using arg_cong [OF app [of "bt_pages \<circ> snd"], of mset] by (simp add: ac_simps del: take_append drop_append mset_concat)
  ultimately show ?thesis unfolding shifted_def using t1(6,7) by blast
qed

definition merged :: "btree \<Rightarrow> path \<Rightarrow> nat \<Rightarrow> IKey option \<Rightarrow> IKey option \<Rightarrow> PageNum \<Rightarrow> children \<Rightarrow> children \<Rightarrow> bt \<Rightarrow> bt \<Rightarrow> btree \<Rightarrow> bool" where
  "merged t ctx n lo hi pp xs ys bA bB t' \<longleftrightarrow> same_state t t' \<and> disposed_pages t' = disposed_pages t @ [bt_page bB] \<and>
     (\<exists>kA bA'. placed t' valid ctx (Suc n) lo hi (BNode pp (xs @ [(kA, bA')] @ ys)) \<and> filled (file_header t) bA' \<and>
        bt_items bA' = bt_items bA @ bt_items bB \<and> mset (bt_pages bA') + {#bt_page bB#} = mset (bt_pages bA @ bt_pages bB))"

lemma merge_leaf_step:
  assumes pl: "placed t valid ctx (Suc n) lo hi (BNode pp (xs @ [(kA, BLeaf pa ia), (kB, BLeaf pb ib)] @ ys))" and c: "key_comparator t = cmp"
    and args: "step_args first xs (BLeaf pa ia) (BLeaf pb ib) p neighbor index"
    and sz: "int (length ia + length ib) \<le> leaf_max_size (file_header t)" "leaf_max_size (file_header t) div 2 \<le> int (length ia + length ib)"
  obtains t' where "coalesce_step True neighbor p pp index t = (SUCCESS, t')" "merged t ctx n lo hi pp xs ys (BLeaf pa ia) (BLeaf pb ib) t'"
proof -
  have st: "items (pages t pa) = ia" "items (pages t pb) = ib" "is_leaf (pages t pa)" and dis: "distinct [pp, pa, pb]"
    using placedD(2) [OF pl, of "(kA, BLeaf pa ia)"] placedD(2) [OF pl, of "(kB, BLeaf pb ib)"] placedD(1) [OF pl] by auto
  have a: "(p, neighbor, index) = (if first then (pa, pb, 0) else (pb, pa, Suc (length xs)))" "first \<longrightarrow> length xs = 0"
    using args by (auto simp: step_args_def)
  obtain t' where t': "coalesce_step True neighbor p pp index t = (SUCCESS, t')"
    "\<And>x. pages t' x = (if x = pp then (pages t pp)\<lparr>items := list_remove_at (Suc (length xs)) 1 (items (pages t pp))\<rparr>
      else if x = pa then (pages t pa)\<lparr>items := ia @ ib, next_brother := next_brother (pages t pb)\<rparr> else if x = pb then (pages t pb)\<lparr>items := []\<rparr> else pages t x)"
    "same_state t t'" "disposed_pages t' = disposed_pages t @ [pb]"
    by (rule coalesce_leaf [OF dis st a]) blast
  have "placed t' valid ctx (Suc n) lo hi (BNode pp (xs @ [(kA, BLeaf pa (ia @ ib))] @ ys))"
    by (rule merge_leaf [OF pl c _ _ _ _ _ t'(2)]) (use t'(3) sz in \<open>simp_all add: same_state_def\<close>)
  moreover have "filled (file_header t) (BLeaf pa (ia @ ib))" "bt_items (BLeaf pa (ia @ ib)) = bt_items (BLeaf pa ia) @ bt_items (BLeaf pb ib)"
    "mset (bt_pages (BLeaf pa (ia @ ib))) + {#pb#} = mset (bt_pages (BLeaf pa ia) @ bt_pages (BLeaf pb ib))"
    using sz(2) by (simp_all add: bt_items_def)
  ultimately have "merged t ctx n lo hi pp xs ys (BLeaf pa ia) (BLeaf pb ib) t'" unfolding merged_def bt_page.simps using t'(3,4) by blast
  with t'(1) show thesis by (rule that)
qed

lemma merge_node_step:
  assumes pl: "placed t valid ctx (Suc n) lo hi (BNode pp (xs @ [(kA, BNode pa ca), (kB, BNode pb cb)] @ ys))" and c: "key_comparator t = cmp"
    and args: "step_args first xs (BNode pa ca) (BNode pb cb) p neighbor index"
    and sz: "int (length ca + length cb) \<le> internal_max_size (file_header t)" "internal_max_size (file_header t) div 2 \<le> int (length ca + length cb)"
    and fl: "\<forall>e\<in>set (ca @ cb). filled (file_header t) (snd e)"
  obtains t' where "coalesce_step False neighbor p pp index t = (SUCCESS, t')" "merged t ctx n lo hi pp xs ys (BNode pa ca) (BNode pb cb) t'"
proof -
  have a: "(p, neighbor, index) = (if first then (pa, pb, 0) else (pb, pa, Suc (length xs)))" "first \<longrightarrow> length xs = 0"
    using args by (auto simp: step_args_def)
  obtain t1 t' where t': "coalesce_step False neighbor p pp index t = (SUCCESS, t')" "halved t pa pb (ca @ cb) (length (ca @ cb)) t1"
    "\<forall>x. x \<noteq> pp \<longrightarrow> pages t' x = pages t1 x" "pages t' pp = (pages t pp)\<lparr>items := list_remove_at (Suc (length xs)) 1 (items (pages t pp))\<rparr>"
    "same_state t t'" "disposed_pages t' = disposed_pages t @ [pb]"
    by (rule coalesce_node [OF pair_node [OF pl] a])
  have "placed t' valid ctx (Suc n) lo hi (BNode pp (xs @ [(kA, BNode pa (ca @ cb))] @ ys))"
    by (rule merge_node [OF pl c _ _ _ _ _ t'(2-4)]) (use t'(5) sz in \<open>simp_all add: same_state_def\<close>)
  moreover have "filled (file_header t) (BNode pa (ca @ cb))" "bt_items (BNode pa (ca @ cb)) = bt_items (BNode pa ca) @ bt_items (BNode pb cb)"
    "mset (bt_pages (BNode pa (ca @ cb))) + {#pb#} = mset (bt_pages (BNode pa ca) @ bt_pages (BNode pb cb))"
    using sz(2) fl by (simp_all add: bt_items_BNode)
  ultimately have "merged t ctx n lo hi pp xs ys (BNode pa ca) (BNode pb cb) t'" unfolding merged_def bt_page.simps using t'(5,6) by blast
  with t'(1) show thesis by (rule that)
qed

text \<open>Both kinds of nodes at once; \<open>b\<close> is the node that lacks an item, \<open>nb\<close> its neighbour.\<close>

lemma pair_kinds:
  assumes pl: "placed t valid ctx (Suc n) lo hi (BNode pp (xs @ [(kA, bA), (kB, bB)] @ ys))" and c: "key_comparator t = cmp"
  obtains l u where "wf cmp valid (file_header t) n l (Some kB) bA" "wf cmp valid (file_header t) n (Some kB) u bB"
    "n = 0 \<longrightarrow> (\<exists>pa ia pb ib. bA = BLeaf pa ia \<and> bB = BLeaf pb ib)" "n \<noteq> 0 \<longrightarrow> (\<exists>pa ca pb cb. bA = BNode pa ca \<and> bB = BNode pb cb)"
proof -
  obtain l u where w: "wf cmp valid (file_header t) n l (Some kB) bA" "wf cmp valid (file_header t) n (Some kB) u bB" by (rule pair_bounds [OF pl c])
  show thesis by (rule that [OF w]) (use w in \<open>cases bA; cases bB; auto\<close>)+
qed

lemma pair_shift:
  assumes pl: "placed t valid ctx (Suc n) lo hi (BNode pp (xs @ [(kA, bA), (kB, bB)] @ ys))" and c: "key_comparator t = cmp"
    and args: "step_args first xs bA bB p neighbor index" and b: "(b, nb) = (if first then (bA, bB) else (bB, bA))"
    and sz: "level_max (file_header t) n < int (bt_size bA + bt_size bB)" "int (bt_size b) < level_max (file_header t) n - level_max (file_header t) n div 2"
    and fl: "lacking (file_header t) False b" "filled (file_header t) nb"
  shows "shifted t ctx n lo hi pp xs ys bA bB (redistribute (n = 0) neighbor p pp index t)"
proof -
  obtain l u where w: "wf cmp valid (file_header t) n l (Some kB) bA" "wf cmp valid (file_header t) n (Some kB) u bB"
    and kinds: "n = 0 \<longrightarrow> (\<exists>pa ia pb ib. bA = BLeaf pa ia \<and> bB = BLeaf pb ib)" "n \<noteq> 0 \<longrightarrow> (\<exists>pa ca pb cb. bA = BNode pa ca \<and> bB = BNode pb cb)"
    by (rule pair_kinds [OF pl c])
  note le = wf_size [OF w(1)] wf_size [OF w(2)]
  show ?thesis
  proof (cases "n = 0")
    case True
    then obtain pa ia pb ib where k: "bA = BLeaf pa ia" "bB = BLeaf pb ib" using kinds(1) by blast
    have "shifted t ctx n lo hi pp xs ys (BLeaf pa ia) (BLeaf pb ib) (redistribute True neighbor p pp index t)"
      by (rule shift_leaf_step [OF pl [unfolded k] c args [unfolded k]]) (use k True le sz fl b in \<open>cases first; simp\<close>)+
    then show ?thesis using k True by simp
  next
    case False
    then obtain pa ca pb cb where k: "bA = BNode pa ca" "bB = BNode pb cb" using kinds(2) by blast
    have "shifted t ctx n lo hi pp xs ys (BNode pa ca) (BNode pb cb) (redistribute False neighbor p pp index t)"
      by (rule shift_node_step [OF pl [unfolded k] c args [unfolded k]]) (use k False le sz fl b in \<open>cases first; auto\<close>)+
    then show ?thesis using k False by simp
  qed
qed

lemma pair_merge:
  assumes pl: "placed t valid ctx (Suc n) lo hi (BNode pp (xs @ [(kA, bA), (kB, bB)] @ ys))" and c: "key_comparator t = cmp"
    and args: "step_args first xs bA bB p neighbor index" and b: "(b, nb) = (if first then (bA, bB) else (bB, bA))"
    and sz: "int (bt_size bA + bt_size bB) \<le> level_max (file_header t) n" and fl: "lacking (file_header t) False b" "filled (file_header t) nb"
  obtains t' where "coalesce_step (n = 0) neighbor p pp index t = (SUCCESS, t')" "merged t ctx n lo hi pp xs ys bA bB t'"
proof -
  obtain l u where w: "wf cmp valid (file_header t) n l (Some kB) bA" "wf cmp valid (file_header t) n (Some kB) u bB"
    and kinds: "n = 0 \<longrightarrow> (\<exists>pa ia pb ib. bA = BLeaf pa ia \<and> bB = BLeaf pb ib)" "n \<noteq> 0 \<longrightarrow> (\<exists>pa ca pb cb. bA = BNode pa ca \<and> bB = BNode pb cb)"
    by (rule pair_kinds [OF pl c])
  show thesis
  proof (cases "n = 0")
    case True
    then obtain pa ia pb ib where k: "bA = BLeaf pa ia" "bB = BLeaf pb ib" using kinds(1) by blast
    obtain t' where "coalesce_step True neighbor p pp index t = (SUCCESS, t')" "merged t ctx n lo hi pp xs ys (BLeaf pa ia) (BLeaf pb ib) t'"
      by (rule merge_leaf_step [OF pl [unfolded k] c args [unfolded k]]) (use k True sz fl b in \<open>cases first; simp\<close>)+
    then show thesis using that k True by simp
  next
    case False
    then obtain pa ca pb cb where k: "bA = BNode pa ca" "bB = BNode pb cb" using kinds(2) by blast
    obtain t' where "coalesce_step False neighbor p pp index t = (SUCCESS, t')" "merged t ctx n lo hi pp xs ys (BNode pa ca) (BNode pb cb) t'"
      by (rule merge_node_step [OF pl [unfolded k] c args [unfolded k]]) (use k False sz fl b in \<open>cases first; auto\<close>)+
    then show thesis using that k False by simp
  qed
qed

section \<open>Up to the root\<close>

lemma settled_here:
  assumes pl: "placed t valid ctx n l u b" and c: "key_comparator t = cmp" and fl: "if ctx = [] then root_filled (file_header t) b else filled (file_header t) b"
  shows "settled t valid (bt_items (plug ctx b)) (mset (path_pages ctx @ bt_pages b)) (Some (SUCCESS, t))"
proof -
  have "index_inv t valid (plug ctx b)" using pl fl unfolding placed_def c by (intro located_plug [OF _ c]) auto
  from index_inv_occupies [OF this] show ?thesis by (simp add: settled_def plug_pages)
qed

lemma adjust_root_ok:
  assumes pl: "placed t valid [] n l u b" and c: "key_comparator t = cmp" and fl: "lacking (file_header t) True b" and sz: "bt_size b \<le> 1"
  shows "settled t valid (bt_items b) (mset (bt_pages b)) (Some (SUCCESS, snd (adjust_root (bt_page b) t)))"
proof (cases b)
  case (BLeaf p its)
  have st: "is_leaf (pages t p)" "items (pages t p) = its" and ok: "sizes_ok (file_header t)"
    using pl BLeaf by (auto simp: placed_def located_def)
  show ?thesis
  proof (cases "its = []")
    case True
    let ?t = "dispose_page p (update_root_page_num_locked BP_INVALID_PAGE_NUM t)"
    have "adjust_root p t = (SUCCESS, ?t)" using st True by (simp add: adjust_root_def node_size_def)
    moreover have "index_occupies ?t valid [] {#}" using ok
      by (simp add: index_occupies_def is_empty_def dispose_page_def update_root_page_num_locked_def sizes_ok_def)
    ultimately show ?thesis using BLeaf True
      by (auto simp: settled_def bt_items_def dispose_page_def update_root_page_num_locked_def node_simps)
  next
    case False
    then have "adjust_root p t = (SUCCESS, t)" using st by (simp add: adjust_root_def node_size_def)
    then show ?thesis using settled_here [OF pl c] BLeaf False by simp
  qed
next
  case (BNode p cs)
  then obtain k ch where cs: "cs = [(k, ch)]" using fl sz by (cases cs) (auto simp: le_Suc_eq)
  let ?q = "bt_page ch" and ?t = "dispose_page p (update_root_page_num_locked (bt_page ch) (set_parent_page_num (bt_page ch) BP_INVALID_PAGE_NUM t))"
  note pl' = pl [unfolded BNode cs]
  have st: "\<not> is_leaf (pages t p)" "items (pages t p) = [child_item (k, ch)]" "stored (pages t) p ch"
    using placedD(2) [OF pl', of "(k, ch)"] placedD(3,4) [OF pl'] by simp_all
  have w: "wf cmp valid (file_header t) (n - 1) None None ch" using placedD(8,9) [OF pl'] c by simp
  have dis: "distinct (bt_pages ch)" "p \<notin> set (bt_pages ch)" using placedD(1) [OF pl'] by simp_all
  have pg: "0 \<le> x \<and> x < int (page_count t) \<and> allocated t x" if "x \<in> set (bt_pages ch)" for x by (rule placedD(5) [OF pl']) (use that in simp)
  have ch: "leaf_chain (pages t) (map fst (bt_leaves ch))" using pl' by (simp add: placed_def located_def)
  have ar: "adjust_root p t = (SUCCESS, ?t)"
    using st pg [OF bt_page_in] by (simp add: adjust_root_def internal_value_at_def get_page_def Let_def)
  have sel: "pages ?t x = (if x = ?q then (pages t x)\<lparr>parent := BP_INVALID_PAGE_NUM\<rparr> else pages t x)" "page_count ?t = page_count t" "allocated ?t = allocated t"
    "file_header ?t = (file_header t)\<lparr>root_page := ?q\<rparr>" "key_comparator ?t = key_comparator t" "disposed_pages ?t = disposed_pages t @ [p]" for x
    by (simp_all add: dispose_page_def update_root_page_num_locked_def set_parent_page_num_def node_simps)
  have "stored (pages ?t) BP_INVALID_PAGE_NUM ch" by (rule stored_reparent [OF st(3) dis(1)]) (simp_all add: sel)
  moreover have hd: "wf cmp valid (file_header ?t) m l u b' = wf cmp valid (file_header t) m l u b'" "filled (file_header ?t) b' = filled (file_header t) b'" for m l u b'
    by (simp_all add: sel wf_header_root filled_header_root)
  moreover have "leaf_chain (pages ?t) (map fst (bt_leaves ch))" by (rule leaf_chain_cong [OF ch]) (simp add: sel)
  ultimately have pl2: "placed ?t valid [] (n - 1) None None ch"
    using w c dis(1) pg placedD(6) [OF pl'] stored_parent by (simp add: placed_def located_def sel sizes_ok_def)
  have "filled (file_header t) ch" using fl BNode cs by simp
  then have "root_filled (file_header t) ch" using placedD(6) [OF pl'] by (cases ch) (auto simp: sizes_ok_def)
  then have "root_filled (file_header ?t) ch" using hd(2) by (cases ch) (simp_all add: sel)
  from settled_here [OF pl2 _ ] this
  have "settled ?t valid (bt_items ch) (mset (bt_pages ch)) (Some (SUCCESS, ?t))" using c sel(5) by simp
  then show ?thesis using ar BNode cs sel
    by (auto simp: settled_def bt_items_BNode)
qed

text \<open>The neighbour the code chooses.\<close>

lemma choose_neighbor:
  assumes "1 \<le> length ls + length rs" "\<forall>e\<in>set (ls @ rs). filled h (snd e)" "items (pages t pp) = map child_item (ls @ (k, b) # rs)"
  obtains xs kA bA kB bB ys nb where "ls @ (k, b) # rs = xs @ [(kA, bA), (kB, bB)] @ ys"
    "internal_value_at (if length ls = 0 then 1 else length ls - 1) (pages t pp) = bt_page nb"
    "step_args (ls = []) xs bA bB (bt_page b) (bt_page nb) (length ls)" "(b, nb) = (if ls = [] then (bA, bB) else (bB, bA))" "filled h nb"
    "nb \<in> snd ` set (ls @ rs)" "set (xs @ ys) \<subseteq> set (ls @ rs)" "length xs + length ys + 1 = length ls + length rs"
proof (cases ls rule: rev_cases)
  case Nil
  then obtain e rs' where "rs = e # rs'" using assms(1) by (cases rs) auto
  then show thesis using that [of "[]" k b "fst e" "snd e" rs' "snd e"] Nil assms(2,3) by (simp add: step_args_def internal_value_at_def subset_insertI)
next
  case (snoc xs e)
  then show thesis
    using that [of xs "fst e" "snd e" k b rs "snd e"] assms(2,3) by (simp add: step_args_def internal_value_at_def nth_append subset_iff)
qed

lemma plug_items: "bt_items (plug ctx b) = concat (map snd (path_left ctx)) @ bt_items b @ concat (map snd (path_right ctx))"
  by (simp add: bt_items_def plug_leaves)

lemma rebalance_ok:
  assumes "placed t valid ctx n l u b" "key_comparator t = cmp" "lacking (file_header t) (ctx = []) b"
  shows "settled t valid (bt_items (plug ctx b)) (mset (path_pages ctx @ bt_pages b)) (coalesce_or_redistribute (n = 0) (bt_page b) t)"
  using assms
proof (induction ctx arbitrary: t n l u b)
  case Nil
  let ?h = "file_header t" and ?p = "bt_page b"
  have st: "stored (pages t) (parent (pages t ?p)) b" "wf cmp valid ?h n l u b" "parent (pages t ?p) = BP_INVALID_PAGE_NUM" "sizes_ok ?h"
    using Nil.prems(1,2) by (auto simp: placed_def located_def)
  note sz = stored_size [OF st(1,2)]
  have "root_filled ?h b" if "1 < bt_size b" using Nil.prems(3) that by (cases b) auto
  then have here: "settled t valid (bt_items b) (mset (bt_pages b)) (Some (SUCCESS, t))" if "1 < bt_size b"
    using settled_here [OF Nil.prems(1,2)] that by simp
  have "min_size ?h (pages t ?p) = level_max ?h n - level_max ?h n div 2" using level_max_ok [OF st(4), of n] by (simp add: min_size_def sz(2) Let_def)
  moreover have "1 < bt_size b" if "level_max ?h n - level_max ?h n div 2 \<le> int (bt_size b)" using that level_max_ok [OF st(4), of n] by linarith
  ultimately show ?case
    using here adjust_root_ok [OF Nil.prems(1,2)] Nil.prems(3) st(3)
    by (subst coalesce_or_redistribute.simps) (auto simp: sz(1) Let_def)
next
  case (Cons e ctx)
  obtain pp ls k rs where e: "e = (pp, ls, k, rs)" by (cases e)
  let ?h = "file_header t" and ?p = "bt_page b" and ?cs = "ls @ (k, b) # rs" and ?M = "level_max (file_header t) n"
  note pl = Cons.prems(1) [unfolded e]
  have st: "stored (pages t) pp b" "wf cmp valid ?h n l u b" "parent (pages t ?p) = pp" "sizes_ok ?h" "path_filled ?h ((pp, ls, k, rs) # ctx)" "bounds_ok l"
  proof -
    have loc: "located t valid ((pp, ls, k, rs) # ctx) n l u ?p (parent (pages t ?p)) (bt_pages b) (map fst (bt_leaves b))"
      and b: "stored (pages t) (parent (pages t ?p)) b" "wf cmp valid ?h n l u b" using pl Cons.prems(2) by (simp_all add: placed_def)
    note d = locatedD [OF loc]
    show "parent (pages t ?p) = pp" "stored (pages t) pp b" using d(1) b(1) by simp_all
    show "wf cmp valid ?h n l u b" by (rule b(2))
    show "sizes_ok ?h" by (rule d(8))
    show "path_filled ?h ((pp, ls, k, rs) # ctx)" by (rule d(3))
    show "bounds_ok l" using path_wf_bounds [OF d(2) [unfolded Cons.prems(2)]] by blast
  qed
  obtain lo hi where up: "placed t valid ctx (Suc n) lo hi (BNode pp ?cs)" by (rule placed_up [OF pl Cons.prems(2)])
  note sz = stored_size [OF st(1,2)]
  have M: "4 \<le> ?M" "min_size ?h (pages t ?p) = ?M - ?M div 2" using level_max_ok [OF st(4), of n] by (simp_all add: min_size_def sz(2) Let_def)
  have lk: "lacking ?h False b" using Cons.prems(3) by simp
  have goal: "bt_items (plug (e # ctx) b) = bt_items (plug ctx (BNode pp ?cs))" "mset (path_pages (e # ctx) @ bt_pages b) = mset (path_pages ctx @ bt_pages (BNode pp ?cs))"
    by (simp_all add: e ac_simps)
  show ?case
  proof (cases "min_size ?h (pages t ?p) \<le> node_size (pages t ?p)")
    case True
    have "filled ?h b" using True lk M filled_size [OF st(2)] sz(1) by auto
    then have "settled t valid (bt_items (plug (e # ctx) b)) (mset (path_pages (e # ctx) @ bt_pages b)) (Some (SUCCESS, t))"
      by (intro settled_here [OF Cons.prems(1,2)]) simp
    then show ?thesis using True by (subst coalesce_or_redistribute.simps) (simp add: Let_def)
  next
    case small: False
    then have sb: "int (bt_size b) < ?M - ?M div 2" using M(2) sz(1) by simp
    have some: "if n = 0 then 0 < bt_size b else 1 < bt_size b"
      using lk filled_size(2) [OF st(2)] st(4) by (auto simp: sizes_ok_def split: if_splits)
    note key = last_key [OF st(2,1) some st(6)]
    let ?key = "key_at ?p (length (items (pages t ?p)) - 1) t"
    obtain f i where il: "internal_lookup cmp ?key (pages t pp) = (length ls, f, i)"
      using parent_lookup [OF pl Cons.prems(2)] key by (metis prod.collapse)
    have cnt: "1 \<le> length ls + length rs" "\<forall>e\<in>set (ls @ rs). filled ?h (snd e)"
      using st(4,5) by (auto simp: sizes_ok_def split: if_splits)
    obtain xs kA bA kB bB ys nb where nb: "?cs = xs @ [(kA, bA), (kB, bB)] @ ys"
      "internal_value_at (if length ls = 0 then 1 else length ls - 1) (pages t pp) = bt_page nb"
      "step_args (ls = []) xs bA bB ?p (bt_page nb) (length ls)" "(b, nb) = (if ls = [] then (bA, bB) else (bB, bA))" "filled ?h nb"
      "nb \<in> snd ` set (ls @ rs)" "set (xs @ ys) \<subseteq> set (ls @ rs)" "length xs + length ys + 1 = length ls + length rs"
      by (rule choose_neighbor [OF cnt placedD(3) [OF up]])
    note up' = up [unfolded nb(1)]
    have at: "internal_value_at (length ls) (pages t pp) = ?p" using placedD(3) [OF up] by (simp add: internal_value_at_def nth_append)
    have nbp: "bt_page nb \<in> set (child_pages ?cs)"
    proof -
      obtain e where e: "e \<in> set (ls @ rs)" "nb = snd e" using nb(6) by blast
      then have "set (bt_pages nb) \<subseteq> set (child_pages ?cs)" by auto
      then show ?thesis using bt_page_in [of nb] by blast
    qed
    have gp: "get_page pp t = SUCCESS" "get_page (bt_page nb) t = SUCCESS" "pp \<noteq> BP_INVALID_PAGE_NUM"
      using placedD(5) [OF up, of pp] placedD(5) [OF up, of "bt_page nb"] nbp by (auto simp: get_page_def BP_INVALID_PAGE_NUM_def)
    obtain l' u' where "wf cmp valid ?h n l' (Some kB) bA" "wf cmp valid ?h n (Some kB) u' bB" by (rule pair_kinds [OF up' Cons.prems(2)])
    then obtain v v' where "wf cmp valid ?h n v v' nb" using nb(4) by (cases "ls = []") auto
    moreover have "stored (pages t) pp nb" using nb(6) placedD(2) [OF up] by auto
    ultimately have nsz: "node_size (pages t (bt_page nb)) = int (bt_size nb)" using stored_size(1) by blast
    have sum: "int (bt_size b) + int (bt_size nb) = int (bt_size bA) + int (bt_size bB)" using nb(4) by (cases "ls = []") auto
    have run: "coalesce_or_redistribute (n = 0) ?p t =
        (if ?M < int (bt_size bA + bt_size bB) then Some (SUCCESS, redistribute (n = 0) (bt_page nb) ?p pp (length ls) t)
         else (case coalesce_step (n = 0) (bt_page nb) ?p pp (length ls) t of
           (rc, t1) \<Rightarrow> if rc \<noteq> SUCCESS then Some (rc, t1) else coalesce_or_redistribute False pp t1))"
    proof -
      have ne: "items (pages t ?p) \<noteq> []" using some sz(3) by (auto split: if_splits)
      show ?thesis
        unfolding coalesce_or_redistribute.simps [of "n = 0" ?p t] Let_def st(3) Cons.prems(2) il prod.case nb(2)
        using small gp ne by (simp add: at sum sz(1,2) nsz)
    qed
    show ?thesis
    proof (cases "?M < int (bt_size bA + bt_size bB)")
      case True
      let ?t = "redistribute (n = 0) (bt_page nb) ?p pp (length ls) t"
      obtain kA' bA' k' bB' where sh: "same_state t ?t" "disposed_pages ?t = disposed_pages t"
        "placed ?t valid ctx (Suc n) lo hi (BNode pp (xs @ [(kA', bA'), (k', bB')] @ ys))" "filled ?h bA'" "filled ?h bB'"
        "bt_items bA' @ bt_items bB' = bt_items bA @ bt_items bB" "mset (bt_pages bA' @ bt_pages bB') = mset (bt_pages bA @ bt_pages bB)"
        using pair_shift [OF up' Cons.prems(2) nb(3,4) True sb lk nb(5)] by (auto simp: shifted_def)
      let ?B = "BNode pp (xs @ [(kA', bA'), (k', bB')] @ ys)"
      have "if ctx = [] then root_filled (file_header ?t) ?B else filled (file_header ?t) ?B"
        using sh(1,4,5) st(5) nb(7,8) cnt by (auto simp: same_state_def)
      from settled_here [OF sh(3) _ this]
      have "settled ?t valid (bt_items (plug ctx ?B)) (mset (path_pages ctx @ bt_pages ?B)) (Some (SUCCESS, ?t))"
        using sh(1) Cons.prems(2) by (simp add: same_state_def)
      moreover have "bt_items (plug ctx ?B) = bt_items (plug ctx (BNode pp ?cs))" using sh(6) by (simp add: plug_items bt_items_BNode nb(1))
      moreover have "mset (path_pages ctx @ bt_pages ?B) = mset (path_pages ctx @ bt_pages (BNode pp ?cs))" using sh(7) by (simp add: nb(1))
      ultimately show ?thesis unfolding goal run using True settled_after [OF _ sh(1), where ds = "[]"] sh(2) by simp
    next
      case False
      then have le: "int (bt_size bA + bt_size bB) \<le> ?M" by simp
      obtain t' where t': "coalesce_step (n = 0) (bt_page nb) ?p pp (length ls) t = (SUCCESS, t')" "merged t ctx n lo hi pp xs ys bA bB t'"
        by (rule pair_merge [OF up' Cons.prems(2) nb(3,4) le lk nb(5)])
      obtain kA' bA' where mg: "same_state t t'" "disposed_pages t' = disposed_pages t @ [bt_page bB]"
        "placed t' valid ctx (Suc n) lo hi (BNode pp (xs @ [(kA', bA')] @ ys))" "filled ?h bA'"
        "bt_items bA' = bt_items bA @ bt_items bB" "mset (bt_pages bA') + {#bt_page bB#} = mset (bt_pages bA @ bt_pages bB)"
        using t'(2) by (auto simp: merged_def)
      let ?B = "BNode pp (xs @ [(kA', bA')] @ ys)"
      have "lacking (file_header t') (ctx = []) ?B" using mg(1,4) st(5) nb(7,8) cnt by (auto simp: same_state_def)
      from Cons.IH [OF mg(3) _ this]
      have "settled t' valid (bt_items (plug ctx ?B)) (mset (path_pages ctx @ bt_pages ?B)) (coalesce_or_redistribute False pp t')"
        using mg(1) Cons.prems(2) by (simp add: same_state_def)
      from settled_after [OF this mg(1,2)]
      have "settled t valid (bt_items (plug ctx ?B)) (mset (path_pages ctx @ bt_pages ?B) + {#bt_page bB#}) (coalesce_or_redistribute False pp t')" by simp
      moreover have "bt_items (plug ctx ?B) = bt_items (plug ctx (BNode pp ?cs))" using mg(5) by (simp add: plug_items bt_items_BNode nb(1))
      moreover have "mset (path_pages ctx @ bt_pages ?B) + {#bt_page bB#} = mset (path_pages ctx @ bt_pages (BNode pp ?cs))"
        using mg(6) by (simp add: nb(1) ac_simps)
      ultimately have "settled t valid (bt_items (plug ctx (BNode pp ?cs))) (mset (path_pages ctx @ bt_pages (BNode pp ?cs))) (coalesce_or_redistribute False pp t')"
        by (simp only:)
      moreover have "coalesce_or_redistribute (n = 0) ?p t = coalesce_or_redistribute False pp t'" unfolding run t'(1) using False by simp
      ultimately show ?thesis unfolding goal by (simp only:)
    qed
  qed
qed

section \<open>Deleting an entry\<close>

lemma leaf_remove_placed:
  fixes i :: nat
  assumes loc: "located t valid ctx 0 l u p (parent (pages t p)) [p] [p]" and c: "key_comparator t = cmp" and w: "wf cmp valid (file_header t) 0 l u (BLeaf p its)"
    and st: "is_leaf (pages t p)" "items (pages t p) = its"
    and fl: "if ctx = [] then its \<noteq> [] else leaf_max_size (file_header t) div 2 \<le> int (length its)"
  defines "t1 \<equiv> leaf_remove p i t" and "b \<equiv> BLeaf p (list_remove_at i 1 its)"
  shows "placed t1 valid ctx 0 l u b" "lacking (file_header t1) (ctx = []) b" "same_state t t1" "disposed_pages t1 = disposed_pages t"
proof -
  have sel: "pages t1 x = (if x = p then (pages t p)\<lparr>items := list_remove_at i 1 its\<rparr> else pages t x)" "same_state t t1" "disposed_pages t1 = disposed_pages t" for x
    using st(2) by (simp_all add: t1_def leaf_op_defs node_simps recover_remove_items_def same_state_def)
  show "same_state t t1" "disposed_pages t1 = disposed_pages t" by (rule sel)+
  have sub: "set (list_remove_at i 1 its) \<subseteq> set its" "length its \<le> length (list_remove_at i 1 its) + 1" "length (list_remove_at i 1 its) \<le> length its"
    by (auto simp: list_remove_at_def dest: in_set_takeD in_set_dropD)
  have "ascending (map fst (list_remove_at i 1 its))" using ascending_remove [of "map fst its" i 1] w by (simp add: map_list_remove_at)
  then have w': "wf cmp valid (file_header t) 0 l u b" using w sub by (auto simp: b_def)
  have p: "p \<notin> set (path_pages ctx)" using locatedD(4) [OF loc] by simp
  have "located t1 valid ctx 0 l u p (parent (pages t p)) [p] [p]"
    by (rule located_keep [OF loc]) (use p sel in \<open>auto simp: same_state_def\<close>)
  then show "placed t1 valid ctx 0 l u b" using w' st(1) sel(2) c by (simp add: placed_def b_def sel(1) same_state_def)
  show "lacking (file_header t1) (ctx = []) b" using fl sub(2) sel(2) by (auto simp: b_def same_state_def)
qed

lemma delete_internal_run:
  assumes "leaf_remove_key p key t = (1, t1)"
  shows "delete_entry_internal p key t = coalesce_or_redistribute True p t1"
proof (cases "node_size (pages t1 p) \<ge> min_size (file_header t1) (pages t1 p)")
  case True
  then show ?thesis using assms by (subst coalesce_or_redistribute.simps) (simp add: delete_entry_internal_def Let_def)
qed (use assms in \<open>simp add: delete_entry_internal_def\<close>)

lemma delete_entry_ok:
  assumes inv: "index_inv t valid b" and c: "key_comparator t = cmp" and key: "valid (make_key t ukey rid)"
  shows "if \<exists>it\<in>set (bt_items b). cmp (fst it) (make_key t ukey rid) = 0
    then \<exists>xs it ys. bt_items b = xs @ it # ys \<and> cmp (fst it) (make_key t ukey rid) = 0 \<and>
      settled t valid (xs @ ys) (mset (bt_pages b)) (delete_entry ukey rid t)
    else delete_entry ukey rid t = Some (RECORD_NOT_EXIST, t)"
proof -
  let ?k = "make_key t ukey rid" and ?h = "file_header t"
  obtain ctx p its l u where f: "find_leaf ?k t = Some (Inr p)" "b = plug ctx (BLeaf p its)" "length ctx = bt_height b"
    "located t valid ctx 0 l u p (parent (pages t p)) [p] [p]" "wf cmp valid ?h 0 l u (BLeaf p its)"
    "is_leaf (pages t p)" "items (pages t p) = its" "if ctx = [] then its \<noteq> [] else leaf_max_size ?h div 2 \<le> int (length its)"
    "above cmp l ?k" "below cmp u ?k"
    by (rule find_leaf_path [OF inv c key])
  have items: "bt_items b = concat (map snd (path_left ctx)) @ its @ concat (map snd (path_right ctx))"
    by (simp add: f(2) bt_items_def plug_leaves)
  have asc: "ascending (map fst its)" using f(5) by simp
  obtain i found where lk: "leaf_lookup cmp ?k (pages t p) = (i, found)" by force
  have lb: "lower_bound cmp (map fst its) ?k = (i, found)" using lk by (simp add: leaf_lookup_def f(7))
  note spec = lower_bound_spec [OF asc key lb]
  have run: "delete_entry ukey rid t = delete_entry_internal p ?k t" using f(1) by (simp add: delete_entry_def)
  show ?thesis
  proof (cases found)
    case True
    then have i: "i < length its" "cmp (fst (its ! i)) ?k = 0" using spec(2) by auto
    let ?xs = "concat (map snd (path_left ctx)) @ take i its" and ?ys = "drop (Suc i) its @ concat (map snd (path_right ctx))"
    have rk: "leaf_remove_key p ?k t = (1, leaf_remove p i t)" using lk True c by (simp add: leaf_remove_key_def)
    note rm = leaf_remove_placed [OF f(4) c f(5-8), of i]
    have c1: "key_comparator (leaf_remove p i t) = cmp" using rm(3) c by (simp add: same_state_def)
    have eq: "bt_items (plug ctx (BLeaf p (list_remove_at i 1 its))) = ?xs @ ?ys"
      unfolding plug_items by (simp add: bt_items_def list_remove_at_def)
    have pgs: "mset (path_pages ctx @ bt_pages (BLeaf p (list_remove_at i 1 its))) = mset (bt_pages b)" by (simp add: f(2) plug_pages)
    have "settled (leaf_remove p i t) valid (?xs @ ?ys) (mset (bt_pages b)) (delete_entry ukey rid t)"
      using rebalance_ok [OF rm(1) c1 rm(2)] unfolding run delete_internal_run [OF rk] eq pgs by simp
    from settled_after [OF this rm(3), where ds = "[]"] rm(4)
    have "settled t valid (?xs @ ?ys) (mset (bt_pages b)) (delete_entry ukey rid t)" by simp
    moreover have "bt_items b = ?xs @ its ! i # ?ys" using items id_take_nth_drop [OF i(1)] by simp
    moreover have "\<exists>it\<in>set (bt_items b). cmp (fst it) ?k = 0" using i items by auto
    ultimately show ?thesis using i(2) by (simp only: if_True) blast
  next
    case False
    then have "\<forall>k\<in>set (map fst its). cmp k ?k \<noteq> 0" using lower_bound_absent [OF asc key] lb by simp
    then have "\<not> (\<exists>it\<in>set (bt_items b). cmp (fst it) ?k = 0)" using find_leaf_only [OF inv c key f(1,7)] by auto
    moreover have "delete_entry ukey rid t = Some (RECORD_NOT_EXIST, t)"
      unfolding run using lk False c by (simp add: delete_entry_internal_def leaf_remove_key_def)
    ultimately show ?thesis by auto
  qed
qed

end

lemma delete_entry_spec:
  assumes "index_type ty" "key_comparator t = index_cmp fsub ty len" "attr_length (file_header t) = len"
    and "index_occupies t (index_key len) its M" "length ukey = len" "rid_ok rid"
  shows "if \<exists>it\<in>set its. index_cmp fsub ty len (fst it) (make_key t ukey rid) = 0
    then \<exists>t' ds M' xs it ys. its = xs @ it # ys \<and> index_cmp fsub ty len (fst it) (make_key t ukey rid) = 0
      \<and> delete_entry ukey rid t = Some (SUCCESS, t') \<and> index_occupies t' (index_key len) (xs @ ys) M'
      \<and> disposed_pages t' = disposed_pages t @ ds \<and> M' + mset ds = M
      \<and> key_comparator t' = key_comparator t \<and> file_header t' = (file_header t)\<lparr>root_page := root_page (file_header t')\<rparr>
    else delete_entry ukey rid t = Some (RECORD_NOT_EXIST, t)"
proof (cases "is_empty t")
  case True
  then have "its = []" "delete_entry ukey rid t = Some (RECORD_NOT_EXIST, t)"
    using assms(4) by (simp_all add: index_occupies_def delete_entry_def find_leaf_def find_leaf_internal_def)
  then show ?thesis by simp
next
  case False
  let ?k = "make_key t ukey rid"
  note ord = index_order_of_type [OF assms(1), of fsub len]
  have key: "index_key len ?k" using assms(3,5,6) by (simp add: make_key_def ikey_ok_def)
  obtain b where b: "index_inv t (index_key len) b" "bt_items b = its" "mset (bt_pages b) = M" using assms(4) False by (auto simp: index_occupies_def)
  note ok = index_order.delete_entry_ok [OF ord b(1) assms(2) key, unfolded b(2,3)]
  show ?thesis
  proof (cases "\<exists>it\<in>set its. index_cmp fsub ty len (fst it) ?k = 0")
    case True
    then show ?thesis using ok unfolding settled_def by (simp only: if_True) blast
  next
    case False
    then show ?thesis using ok by (simp only: if_False)
  qed
qed


lemma ex_full_leaf_pages: "index_occupies ex_full_leaf (index_key 4) [ex_item 3, ex_item 8, ex_item 10, ex_item 12] {#2#}"
  using index_inv_occupies [OF ex_full_leaf_inv] by (simp add: bt_items_def)


end
