(* ===== verification/TableStore.thy ===== *)
theory TableStore
  imports Table RecordRecovery BplusDelete
begin

text \<open>
  A table as a map from record identifiers to records, with every index holding the key of every record: the
  invariant of a table, and that insertion, deletion and the creation of an index keep it.
\<close>

section \<open>An index as a map\<close>

text \<open>
  A record has at most one entry in an index, so an index is a map from record identifiers to keys. The locale states
  what a table relies on in an index: insertion of a new identifier and deletion of a present one act on the map.
\<close>

locale record_index =
  fixes keys :: "'i \<Rightarrow> (RID \<Rightarrow> byte list option) \<Rightarrow> bool" and room :: "'i \<Rightarrow> bool" and fits :: "'i \<Rightarrow> byte list \<Rightarrow> bool"
    and key_of :: "'i \<Rightarrow> byte list \<Rightarrow> byte list" and same :: "'i \<Rightarrow> 'i \<Rightarrow> bool"
    and ins :: "byte list \<Rightarrow> RID \<Rightarrow> 'i \<Rightarrow> (RC \<times> 'i) option" and del :: "byte list \<Rightarrow> RID \<Rightarrow> 'i \<Rightarrow> (RC \<times> 'i) option"
  assumes ins_new: "keys i m \<Longrightarrow> room i \<Longrightarrow> fits i rec \<Longrightarrow> rid_ok rid \<Longrightarrow> m rid = None \<Longrightarrow>
      \<exists>i'. ins rec rid i = Some (SUCCESS, i') \<and> keys i' (m(rid \<mapsto> key_of i rec)) \<and> same i i'"
    and del_old: "keys i m \<Longrightarrow> fits i rec \<Longrightarrow> rid_ok rid \<Longrightarrow> m rid = Some (key_of i rec) \<Longrightarrow>
      \<exists>i'. del rec rid i = Some (SUCCESS, i') \<and> keys i' (m(rid := None)) \<and> same i i'"
    and same_key: "same i i' \<Longrightarrow> key_of i' = key_of i" "same i i' \<Longrightarrow> fits i' = fits i"
begin

text \<open>An index that holds the keys of a map of records.\<close>

definition indexes :: "'i \<Rightarrow> (RID \<Rightarrow> byte list option) \<Rightarrow> bool" where
  "indexes i recs \<longleftrightarrow> keys i (\<lambda>rid. map_option (key_of i) (recs rid)) \<and> (\<forall>rid rec. recs rid = Some rec \<longrightarrow> fits i rec)"

lemma indexes_insert:
  assumes "indexes i recs" "room i" "fits i rec" "rid_ok rid" "recs rid = None"
  shows "\<exists>i'. ins rec rid i = Some (SUCCESS, i') \<and> indexes i' (recs(rid \<mapsto> rec)) \<and> same i i'"
proof -
  obtain i' where i': "ins rec rid i = Some (SUCCESS, i')" "keys i' ((\<lambda>rid. map_option (key_of i) (recs rid))(rid \<mapsto> key_of i rec))" "same i i'"
    using ins_new [of i "\<lambda>rid. map_option (key_of i) (recs rid)" rec rid] assms by (auto simp: indexes_def)
  have "(\<lambda>r. map_option (key_of i') ((recs(rid \<mapsto> rec)) r)) = (\<lambda>rid. map_option (key_of i) (recs rid))(rid \<mapsto> key_of i rec)"
    by (simp add: same_key(1) [OF i'(3)] fun_eq_iff)
  then show ?thesis using i' assms(1,3) same_key(2) [OF i'(3)] by (auto simp: indexes_def)
qed

lemma indexes_delete:
  assumes "indexes i recs" "rid_ok rid" "recs rid = Some rec" "fits i rec'" "key_of i rec' = key_of i rec"
  shows "\<exists>i'. del rec' rid i = Some (SUCCESS, i') \<and> indexes i' (recs(rid := None)) \<and> same i i'"
proof -
  obtain i' where i': "del rec' rid i = Some (SUCCESS, i')" "keys i' ((\<lambda>rid. map_option (key_of i) (recs rid))(rid := None))" "same i i'"
    using del_old [of i "\<lambda>rid. map_option (key_of i) (recs rid)" rec' rid] assms by (auto simp: indexes_def)
  have "(\<lambda>r. map_option (key_of i') ((recs(rid := None)) r)) = (\<lambda>rid. map_option (key_of i) (recs rid))(rid := None)"
    by (simp add: same_key(1) [OF i'(3)] fun_eq_iff)
  then show ?thesis using i' assms(1) same_key(2) [OF i'(3)] by (auto simp: indexes_def)
qed

text \<open>A change of a record that leaves its key alone.\<close>

lemma indexes_update:
  assumes "indexes i recs" "recs rid = Some rec" "fits i rec'" "key_of i rec' = key_of i rec"
  shows "indexes i (recs(rid \<mapsto> rec'))"
proof -
  have "(\<lambda>r. map_option (key_of i) ((recs(rid \<mapsto> rec')) r)) = (\<lambda>rid. map_option (key_of i) (recs rid))"
    using assms(2,4) by (auto simp: fun_eq_iff)
  then show ?thesis using assms(1,3) by (auto simp: indexes_def)
qed

end

text \<open>The B+ tree index of a column is such an index.\<close>

definition rid_keys :: "item list \<Rightarrow> RID \<Rightarrow> byte list option" where
  "rid_keys its = map_of (map (\<lambda>it. (key_rid (fst it), user_key (fst it))) its)"

lemma rid_keys_absent: "rid \<notin> (key_rid \<circ> fst) ` set its \<longleftrightarrow> rid_keys its rid = None"
  by (simp add: rid_keys_def map_of_eq_None_iff image_image comp_def)

lemma rid_keys_insert:
  "rid \<notin> (key_rid \<circ> fst) ` set (xs @ ys) \<Longrightarrow> key_rid k = rid \<Longrightarrow> rid_keys (xs @ (k, v) # ys) = (rid_keys (xs @ ys))(rid \<mapsto> user_key k)"
proof -
  assume a: "rid \<notin> (key_rid \<circ> fst) ` set (xs @ ys)" "key_rid k = rid"
  have "rid \<notin> dom (rid_keys xs)" using a(1) rid_keys_absent [of rid xs] by (auto simp: dom_def)
  moreover have "rid_keys (zs @ ys) = rid_keys ys ++ rid_keys zs" "rid_keys ((k, v) # ys) = (rid_keys ys)(rid \<mapsto> user_key k)" for zs ys
    using a(2) by (simp_all add: rid_keys_def)
  ultimately show ?thesis by (simp add: map_add_upd_left)
qed

definition tree_keys :: "TableIndex \<Rightarrow> (RID \<Rightarrow> byte list option) \<Rightarrow> bool" where
  "tree_keys ix m \<longleftrightarrow> (\<exists>ty fsub len n its. index_type ty \<and> key_comparator (ix_tree ix) = index_cmp fsub ty len
     \<and> attr_length (file_header (ix_tree ix)) = len \<and> index_holds (ix_tree ix) (index_key len) n its
     \<and> distinct (map (key_rid \<circ> fst) its) \<and> (\<forall>it\<in>set its. snd it = RidV (key_rid (fst it))) \<and> m = rid_keys its)"

definition tree_room :: "TableIndex \<Rightarrow> bool" where
  "tree_room ix \<longleftrightarrow> (\<forall>valid n its. index_holds (ix_tree ix) valid n its \<longrightarrow> page_count (ix_tree ix) + n + 1 < BP_MAX_PAGE_NUM)"

definition column_fits :: "TableIndex \<Rightarrow> byte list \<Rightarrow> bool" where
  "column_fits ix rec \<longleftrightarrow> ix_offset ix + attr_length (file_header (ix_tree ix)) \<le> length rec"

definition column :: "TableIndex \<Rightarrow> byte list \<Rightarrow> byte list" where
  "column ix rec = take (attr_length (file_header (ix_tree ix))) (drop (ix_offset ix) rec)"

definition same_column :: "TableIndex \<Rightarrow> TableIndex \<Rightarrow> bool" where
  "same_column ix ix' \<longleftrightarrow> ix_offset ix' = ix_offset ix \<and> attr_length (file_header (ix_tree ix')) = attr_length (file_header (ix_tree ix))"

lemma index_holds_valid:
  assumes "index_type ty" "key_comparator t = index_cmp fsub ty len" "index_holds t (index_key len) n its" "it \<in> set its"
  shows "index_key len (fst it)"
proof -
  have "\<not> is_empty t" using assms(3,4) by (auto simp: index_holds_def split: if_splits)
  then obtain b where b: "index_inv t (index_key len) b" "bt_items b = its" using assms(3) by (auto simp: index_holds_def)
  then have "bt_ord (index_cmp fsub ty len) (index_key len) None None b" using assms(2) by (simp add: index_inv_def tree_ok_def)
  then have "key_ascending (index_cmp fsub ty len) (index_key len) (map fst its)"
    using index_order.bt_items_ascending [OF index_order_of_type [OF assms(1)]] b(2) by fastforce
  then show ?thesis using assms(4) by (simp add: key_ascending_def)
qed

lemma index_cmp_rid:
  assumes "index_cmp fsub ty len k k' = 0" "rid_ok (key_rid k)" "rid_ok (key_rid k')"
  shows "key_rid k = key_rid k'"
proof -
  have "RID_compare (key_rid k) (key_rid k') = 0" using assms(1) by (simp add: KeyComparator_def Let_def split: if_splits)
  then show ?thesis using RID_compare_exact [OF assms(2,3)] by (cases "key_rid k"; cases "key_rid k'") (simp split: if_splits)
qed

lemma insert_entry_column: "insert_entry ukey rid t = insert_entry (take (attr_length (file_header t)) ukey) rid t"
  "delete_entry ukey rid t = delete_entry (take (attr_length (file_header t)) ukey) rid t"
  by (simp_all add: insert_entry_def delete_entry_def make_key_def)

lemma index_holds_occupies: "index_holds t valid n its \<Longrightarrow> \<exists>M. index_occupies t valid its M"
  using index_inv_occupies by (cases "is_empty t") (auto simp: index_holds_def index_occupies_def)

lemma tree_insert_new:
  assumes "tree_keys ix m" "tree_room ix" "column_fits ix rec" "rid_ok rid" "m rid = None"
  shows "\<exists>ix'. index_insert_entry rec rid ix = Some (SUCCESS, ix') \<and> tree_keys ix' (m(rid \<mapsto> column ix rec)) \<and> same_column ix ix'"
proof -
  let ?t = "ix_tree ix"
  obtain ty fsub len n its where k: "index_type ty" "key_comparator ?t = index_cmp fsub ty len" "attr_length (file_header ?t) = len"
    "index_holds ?t (index_key len) n its" "distinct (map (key_rid \<circ> fst) its)" "\<forall>it\<in>set its. snd it = RidV (key_rid (fst it))" "m = rid_keys its"
    using assms(1) by (auto simp: tree_keys_def)
  have col: "length (column ix rec) = len" using assms(3) k(3) by (simp add: column_def column_fits_def)
  have room: "page_count ?t + n + 1 < BP_MAX_PAGE_NUM" using assms(2) k(4) by (auto simp: tree_room_def)
  let ?k = "make_key ?t (column ix rec) rid"
  have key: "key_rid ?k = rid" "user_key ?k = column ix rec" using col k(3) by (simp_all add: make_key_def)
  have fresh: "rid \<notin> (key_rid \<circ> fst) ` set its" using assms(5) k(7) by (auto simp: rid_keys_def map_of_eq_None_iff image_image)
  have "\<not> (\<exists>it\<in>set its. index_cmp fsub ty len (fst it) ?k = 0)"
  proof
    assume "\<exists>it\<in>set its. index_cmp fsub ty len (fst it) ?k = 0"
    then obtain it where it: "it \<in> set its" "index_cmp fsub ty len (fst it) ?k = 0" by blast
    have "rid_ok (key_rid (fst it))" using index_holds_valid [OF k(1,2,4) it(1)] by (simp add: ikey_ok_def)
    then have "key_rid (fst it) = rid" using index_cmp_rid [OF it(2)] assms(4) key(1) by simp
    then show False using fresh it(1) by force
  qed
  then obtain t' n' xs ys where t': "its = xs @ ys" "insert_entry (column ix rec) rid ?t = Some (SUCCESS, t')"
    "index_holds t' (index_key len) n' (xs @ (?k, RidV rid) # ys)" "key_comparator t' = key_comparator ?t"
    "file_header t' = (file_header ?t)\<lparr>root_page := root_page (file_header t')\<rparr>"
    using insert_entry_spec [OF k(1-4) col assms(4) room] by (auto split: if_splits)
  have hdr: "attr_length (file_header t') = len" using arg_cong [OF t'(5), of attr_length] k(3) by simp
  have "rid_keys (xs @ (?k, RidV rid) # ys) = (rid_keys its)(rid \<mapsto> column ix rec)"
    using rid_keys_insert [of rid xs ys ?k "RidV rid"] fresh key t'(1) by simp
  then have "tree_keys (ix\<lparr>ix_tree := t'\<rparr>) (m(rid \<mapsto> column ix rec))"
    unfolding tree_keys_def
    by (intro exI [of _ ty] exI [of _ fsub] exI [of _ len] exI [of _ n'] exI [of _ "xs @ (?k, RidV rid) # ys"])
      (use k t' hdr fresh key in auto)
  moreover have "index_insert_entry rec rid ix = Some (SUCCESS, ix\<lparr>ix_tree := t'\<rparr>)"
    using t'(2) insert_entry_column(1) [of "drop (ix_offset ix) rec" rid ?t] by (simp add: index_insert_entry_def column_def)
  ultimately show ?thesis using hdr k(3) by (auto simp: same_column_def)
qed

lemma tree_delete_old:
  assumes "tree_keys ix m" "column_fits ix rec" "rid_ok rid" "m rid = Some (column ix rec)"
  shows "\<exists>ix'. index_delete_entry rec rid ix = Some (SUCCESS, ix') \<and> tree_keys ix' (m(rid := None)) \<and> same_column ix ix'"
proof -
  let ?t = "ix_tree ix"
  obtain ty fsub len n its where k: "index_type ty" "key_comparator ?t = index_cmp fsub ty len" "attr_length (file_header ?t) = len"
    "index_holds ?t (index_key len) n its" "distinct (map (key_rid \<circ> fst) its)" "\<forall>it\<in>set its. snd it = RidV (key_rid (fst it))" "m = rid_keys its"
    using assms(1) by (auto simp: tree_keys_def)
  have col: "length (column ix rec) = len" using assms(2) k(3) by (simp add: column_def column_fits_def)
  let ?k = "make_key ?t (column ix rec) rid"
  have key: "key_rid ?k = rid" "user_key ?k = column ix rec" using col k(3) by (simp_all add: make_key_def)
  obtain it0 where it0: "it0 \<in> set its" "key_rid (fst it0) = rid" "user_key (fst it0) = column ix rec"
    using assms(4) k(7) by (auto simp: rid_keys_def dest!: map_of_SomeD)
  have "fst it0 = ?k" using it0(2,3) col k(3) by (cases "fst it0") (simp add: make_key_def)
  moreover have "index_key len (fst it0)" by (rule index_holds_valid [OF k(1,2,4) it0(1)])
  ultimately have ex: "\<exists>it\<in>set its. index_cmp fsub ty len (fst it) ?k = 0"
    using it0(1) key_order.cmp_refl [OF index_key_order [OF k(1)]] by metis
  obtain M where M: "index_occupies ?t (index_key len) its M" using index_holds_occupies [OF k(4)] by blast
  obtain t' ds M' xs it ys where t': "its = xs @ it # ys" "index_cmp fsub ty len (fst it) ?k = 0" "delete_entry (column ix rec) rid ?t = Some (SUCCESS, t')"
    "index_occupies t' (index_key len) (xs @ ys) M'" "key_comparator t' = key_comparator ?t"
    "file_header t' = (file_header ?t)\<lparr>root_page := root_page (file_header t')\<rparr>"
    using delete_entry_spec [OF k(1-3) M col assms(3)] ex by auto
  have "rid_ok (key_rid (fst it))" using index_holds_valid [OF k(1,2,4), of it] t'(1) by (simp add: ikey_ok_def)
  then have rid: "key_rid (fst it) = rid" using index_cmp_rid [OF t'(2)] assms(3) key(1) by simp
  obtain n' where n': "index_holds t' (index_key len) n' (xs @ ys)" using index_occupies_holds [OF t'(4)] by blast
  have hdr: "attr_length (file_header t') = len" using arg_cong [OF t'(6), of attr_length] k(3) by simp
  have "rid \<notin> (key_rid \<circ> fst) ` set (xs @ ys)" using k(5) t'(1) rid by auto
  then have "rid_keys (xs @ ys) = (rid_keys its)(rid := None)"
    using rid_keys_insert [of rid xs ys "fst it" "snd it"] rid_keys_absent [of rid "xs @ ys"] rid t'(1) by (simp add: fun_upd_idem)
  then have "tree_keys (ix\<lparr>ix_tree := t'\<rparr>) (m(rid := None))"
    unfolding tree_keys_def
    by (intro exI [of _ ty] exI [of _ fsub] exI [of _ len] exI [of _ n'] exI [of _ "xs @ ys"]) (use k t' hdr n' in auto)
  moreover have "index_delete_entry rec rid ix = Some (SUCCESS, ix\<lparr>ix_tree := t'\<rparr>)"
    using t'(3) insert_entry_column(2) [of "drop (ix_offset ix) rec" rid ?t] by (simp add: index_delete_entry_def column_def)
  ultimately show ?thesis using hdr k(3) by (auto simp: same_column_def)
qed

interpretation tree_index: record_index tree_keys tree_room column_fits column same_column index_insert_entry index_delete_entry
proof unfold_locales
  fix ix ix' assume "same_column ix ix'"
  then show "column ix' = column ix" "column_fits ix' = column_fits ix" by (simp_all add: same_column_def column_def column_fits_def fun_eq_iff)
qed (rule tree_insert_new tree_delete_old; assumption)+

section \<open>The invariant of a table\<close>

abbreviation table_rows :: "Table \<Rightarrow> RID \<Rightarrow> byte list option" where
  "table_rows tb \<equiv> file_records (tb_heap tb)"

definition table_ok :: "Table \<Rightarrow> bool" where
  "table_ok tb \<longleftrightarrow> rf_ok (tb_record_size tb) (tb_heap tb) \<and> rf_log_io (tb_heap tb) = SUCCESS \<and> tb_record_size tb \<le> 8152
     \<and> (\<forall>ix\<in>set (tb_indexes tb). tree_index.indexes ix (table_rows tb) \<and> ix_offset ix + attr_length (file_header (ix_tree ix)) \<le> tb_record_size tb)"

lemma record_length: "rf_ok n f \<Longrightarrow> file_records f rid = Some d \<Longrightarrow> length d = n"
  using present_record(3,6,7) page_records_length by metis

lemma record_rid_ok: "rf_ok n f \<Longrightarrow> file_records f rid = Some d \<Longrightarrow> rid_ok rid"
proof -
  assume a: "rf_ok n f" "file_records f rid = Some d"
  note pr = present_record [OF a]
  have "int32 (slot_num rid)" "0 \<le> slot_num rid" using slot_bound [OF pr(6,3)] pr(2) by (simp, metis of_nat_0_le_iff)
  moreover have "int32 (page_num rid)" "0 \<le> page_num rid" using page_int32 [OF a(1)] pr(1) by (auto simp: data_page_def)
  ultimately show ?thesis by (simp add: rid_ok_def int32_def)
qed

text \<open>The loops over the indexes.\<close>

lemma insert_indexes_ok:
  assumes "\<forall>ix\<in>set ixs. tree_index.indexes ix recs \<and> tree_room ix \<and> column_fits ix rec" "rid_ok rid" "recs rid = None"
  shows "\<exists>ixs'. insert_entry_of_indexes rec rid ixs = Some (SUCCESS, ixs') \<and> list_all2 same_column ixs ixs'
    \<and> (\<forall>ix\<in>set ixs'. tree_index.indexes ix (recs(rid \<mapsto> rec)))"
  using assms(1)
proof (induction ixs)
  case (Cons ix ixs)
  obtain ix' where "index_insert_entry rec rid ix = Some (SUCCESS, ix')" "tree_index.indexes ix' (recs(rid \<mapsto> rec))" "same_column ix ix'"
    using tree_index.indexes_insert [of ix recs rec rid] Cons.prems assms(2,3) by auto
  then show ?case using Cons by (auto simp del: fun_upd_apply)
qed simp

lemma remove_indexes_ok:
  assumes "\<forall>ix\<in>set ixs. tree_index.indexes ix recs" "rid_ok rid" "recs rid = Some rec"
  shows "\<exists>ixs'. remove_from_indexes rec rid ixs = Some ixs' \<and> list_all2 same_column ixs ixs'
    \<and> (\<forall>ix\<in>set ixs'. tree_index.indexes ix (recs(rid := None)))"
  using assms(1)
proof (induction ixs)
  case (Cons ix ixs)
  have "column_fits ix rec" using Cons.prems assms(3) by (auto simp: tree_index.indexes_def)
  then obtain ix' where "index_delete_entry rec rid ix = Some (SUCCESS, ix')" "tree_index.indexes ix' (recs(rid := None))" "same_column ix ix'"
    using tree_index.indexes_delete [of ix recs rid rec rec] Cons.prems assms(2,3) by auto
  then show ?case using Cons by (auto simp del: fun_upd_apply)
qed simp

lemma same_columns_bounds:
  "list_all2 same_column ixs ixs' \<Longrightarrow> \<forall>ix\<in>set ixs. ix_offset ix + attr_length (file_header (ix_tree ix)) \<le> n \<Longrightarrow>
     ix \<in> set ixs' \<Longrightarrow> ix_offset ix + attr_length (file_header (ix_tree ix)) \<le> n"
  by (induction ixs ixs' rule: list_all2_induct) (auto simp: same_column_def)

lemma table_insert_ok:
  assumes ok: "table_ok tb" and beg: "\<forall>S. finite S \<longrightarrow> S \<noteq> {} \<longrightarrow> begin_page S \<in> S" and len: "length rec = tb_record_size tb"
    and room: "\<forall>ix\<in>set (tb_indexes tb). tree_room ix"
  shows "\<exists>r tb'. table_insert_record begin_page rec tb = Some (r, tb') \<and> table_ok tb' \<and> tb_record_size tb' = tb_record_size tb
    \<and> tb_begin_offset tb' = tb_begin_offset tb \<and> tb_end_offset tb' = tb_end_offset tb \<and> list_all2 same_column (tb_indexes tb) (tb_indexes tb')
    \<and> (case r of
         Inr rid \<Rightarrow> table_rows tb rid = None \<and> table_rows tb' = (table_rows tb)(rid \<mapsto> rec) \<and> rid_ok rid
       | Inl rc \<Rightarrow> rc = BUFFERPOOL_NOBUF \<and> table_rows tb' = table_rows tb \<and> rf_count (tb_heap tb) = rf_max_pages)"
proof -
  let ?n = "tb_record_size tb"
  have o: "rf_ok ?n (tb_heap tb)" "rf_log_io (tb_heap tb) = SUCCESS" "?n \<le> 8152"
    and ixs: "\<forall>ix\<in>set (tb_indexes tb). tree_index.indexes ix (table_rows tb) \<and> ix_offset ix + attr_length (file_header (ix_tree ix)) \<le> ?n"
    using ok by (simp_all add: table_ok_def)
  obtain r f where f: "file_insert_record begin_page rec ?n (tb_heap tb) = Some (r, f)" "rf_ok ?n f" "rf_log_io f = SUCCESS"
    "case r of Inr rid \<Rightarrow> table_rows tb rid = None \<and> file_records f = (table_rows tb)(rid \<mapsto> rec)
     | Inl rc \<Rightarrow> rc = BUFFERPOOL_NOBUF \<and> file_records f = table_rows tb \<and> rf_count (tb_heap tb) = rf_max_pages
         \<and> (\<forall>p. 0 < p \<longrightarrow> p < int (rf_count (tb_heap tb)) \<longrightarrow> is_full (rf_pages (tb_heap tb) p))"
    using file_insert_ok [OF o(1) beg len o(3,2)] by blast
  show ?thesis
  proof (cases r)
    case (Inl rc)
    have "table_ok (tb\<lparr>tb_heap := f\<rparr>)" using ok f Inl by (simp add: table_ok_def)
    then show ?thesis using f Inl by (auto simp: table_insert_record_def same_column_def list_all2_same)
  next
    case (Inr rid)
    have rec: "file_records f = (table_rows tb)(rid \<mapsto> rec)" "table_rows tb rid = None" using f(4) Inr by simp_all
    have rid: "rid_ok rid" using record_rid_ok [OF f(2), of rid rec] rec(1) by simp
    have "\<forall>ix\<in>set (tb_indexes tb). tree_index.indexes ix (table_rows tb) \<and> tree_room ix \<and> column_fits ix rec"
      using ixs room len by (auto simp: column_fits_def)
    then obtain ixs' where i: "insert_entry_of_indexes rec rid (tb_indexes tb) = Some (SUCCESS, ixs')" "list_all2 same_column (tb_indexes tb) ixs'"
      "\<forall>ix\<in>set ixs'. tree_index.indexes ix ((table_rows tb)(rid \<mapsto> rec))"
      using insert_indexes_ok [of "tb_indexes tb" "table_rows tb" rec rid] rid rec(2) by blast
    have "table_ok (tb\<lparr>tb_heap := f, tb_indexes := ixs'\<rparr>)"
      using f(2,3) o(3) i(2,3) rec(1) ixs same_columns_bounds [OF i(2)] by (simp add: table_ok_def)
    moreover have "table_insert_record begin_page rec tb = Some (Inr rid, tb\<lparr>tb_heap := f, tb_indexes := ixs'\<rparr>)"
      using f(1) Inr i(1) by (simp add: table_insert_record_def add_to_indexes_def)
    ultimately show ?thesis using rec i(2) rid by auto
  qed
qed

lemma table_delete_ok:
  assumes ok: "table_ok tb" and rec: "table_rows tb rid = Some rec"
  shows "\<exists>tb'. table_delete_record rid tb = Some (SUCCESS, tb') \<and> table_ok tb' \<and> table_rows tb' = (table_rows tb)(rid := None)
    \<and> tb_record_size tb' = tb_record_size tb \<and> tb_begin_offset tb' = tb_begin_offset tb \<and> tb_end_offset tb' = tb_end_offset tb
    \<and> list_all2 same_column (tb_indexes tb) (tb_indexes tb')"
proof -
  let ?n = "tb_record_size tb"
  have o: "rf_ok ?n (tb_heap tb)" "rf_log_io (tb_heap tb) = SUCCESS" "?n \<le> 8152"
    and ixs: "\<forall>ix\<in>set (tb_indexes tb). tree_index.indexes ix (table_rows tb)"
    "\<forall>ix\<in>set (tb_indexes tb). ix_offset ix + attr_length (file_header (ix_tree ix)) \<le> ?n"
    using ok by (simp_all add: table_ok_def)
  obtain ixs' where i: "remove_from_indexes rec rid (tb_indexes tb) = Some ixs'" "list_all2 same_column (tb_indexes tb) ixs'"
    "\<forall>ix\<in>set ixs'. tree_index.indexes ix ((table_rows tb)(rid := None))"
    using remove_indexes_ok [OF ixs(1) record_rid_ok [OF o(1) rec] rec] by blast
  obtain f where f: "file_delete_record rid (tb_heap tb) = (SUCCESS, f)" "rf_ok ?n f" "file_records f = (table_rows tb)(rid := None)" "rf_log_io f = SUCCESS"
    by (rule file_delete_ok [OF o(1) rec]) (use o(2) in \<open>simp add: log_defs\<close>)
  have "table_ok (tb\<lparr>tb_indexes := ixs', tb_heap := f\<rparr>)"
    using f o(3) i(2,3) same_columns_bounds [OF i(2) ixs(2)] by (simp add: table_ok_def)
  moreover have "table_delete_record rid tb = Some (SUCCESS, tb\<lparr>tb_indexes := ixs', tb_heap := f\<rparr>)"
    using present_record(5) [OF o(1) rec] i(1) f(1) by (simp add: table_delete_record_def table_get_record_def table_delete_data_def)
  ultimately show ?thesis using f(3) i(2) by auto
qed

lemma table_visit_ok:
  assumes ok: "table_ok tb" and rec: "table_rows tb rid = Some rec"
    and upd: "visitor rec = (b, rec')" "b \<Longrightarrow> length rec' = tb_record_size tb" "b \<Longrightarrow> \<forall>ix\<in>set (tb_indexes tb). column ix rec' = column ix rec"
  shows "\<exists>tb'. table_visit_record rid visitor tb = (SUCCESS, tb') \<and> table_ok tb' \<and> table_rows tb' = (if b then (table_rows tb)(rid \<mapsto> rec') else table_rows tb)
    \<and> tb' = tb\<lparr>tb_heap := tb_heap tb'\<rparr>"
proof (cases b)
  case False
  then show ?thesis
    using present_record(5) [of "tb_record_size tb" "tb_heap tb" rid rec] ok rec upd(1)
    by (simp add: table_visit_record_def file_visit_record_def table_ok_def)
next
  case True
  let ?n = "tb_record_size tb"
  have o: "rf_ok ?n (tb_heap tb)" "rf_log_io (tb_heap tb) = SUCCESS" using ok by (simp_all add: table_ok_def)
  obtain f where f: "handler_update_record rid rec' (tb_heap tb) = (SUCCESS, f)" "rf_ok ?n f" "file_records f = (table_rows tb)(rid \<mapsto> rec')" "rf_log_io f = SUCCESS"
    by (rule file_update_ok [OF o(1) rec upd(2) [OF True]]) (use o(2) in \<open>simp add: log_defs\<close>)
  have "tree_index.indexes ix ((table_rows tb)(rid \<mapsto> rec'))" if "ix \<in> set (tb_indexes tb)" for ix
    by (rule tree_index.indexes_update [of ix "table_rows tb" rid rec])
      (use ok that rec upd(2,3) True in \<open>auto simp: table_ok_def column_fits_def\<close>)
  then have "table_ok (tb\<lparr>tb_heap := f\<rparr>)" using ok f by (simp add: table_ok_def)
  then show ?thesis
    using f True upd(1) present_record(5) [OF o(1) rec] by (simp add: table_visit_record_def file_visit_record_def)
qed

lemma fill_index_ok:
  assumes "tree_index.indexes ix recs" "distinct (map fst rs)" "\<forall>r\<in>set rs. rid_ok (fst r) \<and> recs (fst r) = None \<and> column_fits ix (snd r)"
    and "\<forall>k ix'. fill_index (take k rs) ix = Some (SUCCESS, ix') \<longrightarrow> tree_room ix'"
  shows "\<exists>ix'. fill_index rs ix = Some (SUCCESS, ix') \<and> tree_index.indexes ix' (recs ++ map_of rs) \<and> same_column ix ix'"
  using assms
proof (induction rs arbitrary: ix recs)
  case Nil
  then show ?case by (simp add: same_column_def)
next
  case (Cons r rs)
  obtain rid rec where r: "r = (rid, rec)" by force
  have "tree_room ix" using Cons.prems(4) [rule_format, of 0 ix] by simp
  then obtain ix1 where ix1: "index_insert_entry rec rid ix = Some (SUCCESS, ix1)" "tree_index.indexes ix1 (recs(rid \<mapsto> rec))" "same_column ix ix1"
    using tree_index.indexes_insert [of ix recs rec rid] Cons.prems(1,3) r by auto
  have room: "tree_room ix'" if "fill_index (take k rs) ix1 = Some (SUCCESS, ix')" for k ix'
    using Cons.prems(4) [rule_format, of "Suc k" ix'] that ix1(1) r by simp
  have rest: "\<forall>x\<in>set rs. rid_ok (fst x) \<and> (recs(rid \<mapsto> rec)) (fst x) = None \<and> column_fits ix1 (snd x)"
    using Cons.prems(2,3) r tree_index.same_key(2) [OF ix1(3)] by force
  obtain ix2 where ix2: "fill_index rs ix1 = Some (SUCCESS, ix2)" "tree_index.indexes ix2 (recs(rid \<mapsto> rec) ++ map_of rs)" "same_column ix1 ix2"
    using Cons.IH [OF ix1(2) _ rest] Cons.prems(2) room by (auto simp del: fun_upd_apply)
  have "rid \<notin> dom (map_of rs)" using Cons.prems(2) r by (auto simp: dom_map_of_conv_image_fst)
  then have upd: "recs(rid \<mapsto> rec) ++ map_of rs = recs ++ map_of (r # rs)" using r by (simp add: map_add_upd_left)
  show ?case
  proof (intro exI [of _ ix2] conjI)
    show "fill_index (r # rs) ix = Some (SUCCESS, ix2)" using ix1(1) ix2(1) r by simp
    show "tree_index.indexes ix2 (recs ++ map_of (r # rs))" using ix2(2) unfolding upd .
    show "same_column ix ix2" using ix1(3) ix2(3) by (simp add: same_column_def)
  qed
qed

lemma rid_sorted_distinct: "sorted_wrt rid_less rids \<Longrightarrow> distinct rids"
  by (induction rids) (auto simp: rid_less_def)

lemma map_of_is: "distinct (map fst rs) \<Longrightarrow> (\<And>k v. (k, v) \<in> set rs \<longleftrightarrow> m k = Some v) \<Longrightarrow> map_of rs = m"
proof
  fix k assume a: "distinct (map fst rs)" "\<And>k v. (k, v) \<in> set rs \<longleftrightarrow> m k = Some v"
  have "map_of rs k = Some v \<longleftrightarrow> m k = Some v" for v using a by (metis map_of_eq_Some_iff)
  then show "map_of rs k = m k" by (metis not_None_eq)
qed

section \<open>Properties\<close>

text \<open>
  C12: Inserting a record into a table whose indexes have room ends. The record gets a fresh identifier, every index
  gets its key under that identifier, and no other record or entry changes; or the file is full, and nothing changes.
  The table stays consistent: its indexes hold exactly the keys of its records.
\<close>

theorem table_insert_record_correct:
  assumes "table_ok tb" "\<forall>S. finite S \<longrightarrow> S \<noteq> {} \<longrightarrow> begin_page S \<in> S" "length rec = tb_record_size tb" "\<forall>ix\<in>set (tb_indexes tb). tree_room ix"
  shows "\<exists>r tb'. table_insert_record begin_page rec tb = Some (r, tb') \<and> table_ok tb'
    \<and> (case r of
         Inr rid \<Rightarrow> table_rows tb rid = None \<and> table_rows tb' = (table_rows tb)(rid \<mapsto> rec)
       | Inl rc \<Rightarrow> rc = BUFFERPOOL_NOBUF \<and> table_rows tb' = table_rows tb)"
proof -
  obtain r tb' where "table_insert_record begin_page rec tb = Some (r, tb')" "table_ok tb'"
    "case r of Inr rid \<Rightarrow> table_rows tb rid = None \<and> table_rows tb' = (table_rows tb)(rid \<mapsto> rec) \<and> rid_ok rid
     | Inl rc \<Rightarrow> rc = BUFFERPOOL_NOBUF \<and> table_rows tb' = table_rows tb \<and> rf_count (tb_heap tb) = rf_max_pages"
    using table_insert_ok [OF assms] by blast
  then show ?thesis by (cases r) auto
qed


text \<open>
  Creating an index over a column scans the whole table and leaves an index that holds exactly the key of every
  record; the table stays consistent.
\<close>

lemma create_index_correct:
  assumes "table_ok tb" "tree_keys ix Map.empty" "ix_offset ix + attr_length (file_header (ix_tree ix)) \<le> tb_record_size tb"
    and "\<forall>rs k ix'. scan_file (tb_heap tb) (open_scan None (tb_heap tb) new_file_scanner) [] = Some (RECORD_EOF, rs) \<longrightarrow>
      fill_index (take k rs) ix = Some (SUCCESS, ix') \<longrightarrow> tree_room ix'"
  shows "\<exists>ix' tb'. create_index ix tb = Some (SUCCESS, tb') \<and> tb' = tb\<lparr>tb_indexes := tb_indexes tb @ [ix']\<rparr> \<and> table_ok tb'
    \<and> tree_keys ix' (\<lambda>rid. map_option (column ix) (table_rows tb rid))"
proof -
  let ?f = "tb_heap tb"
  have o: "rf_ok (tb_record_size tb) ?f" using assms(1) by (simp add: table_ok_def)
  obtain rs where rs: "scan_file ?f (open_scan None ?f new_file_scanner) [] = Some (RECORD_EOF, rs)" "sorted_wrt rid_less (map fst rs)"
    "\<And>rid d. (rid, d) \<in> set rs \<longleftrightarrow> file_records ?f rid = Some d"
    using scan_file_all [of ?f None] by auto
  have dist: "distinct (map fst rs)" using rs(2) by (rule rid_sorted_distinct)
  have rows: "map_of rs = table_rows tb" using map_of_is [OF dist rs(3)] .
  have "rid_ok (fst r) \<and> Map.empty (fst r) = (None :: byte list option) \<and> column_fits ix (snd r)" if "r \<in> set rs" for r
    using rs(3) [of "fst r" "snd r"] that record_rid_ok [OF o] record_length [OF o] assms(3) by (simp add: column_fits_def)
  moreover have "tree_index.indexes ix Map.empty" using assms(2) by (simp add: tree_index.indexes_def)
  ultimately obtain ix' where ix': "fill_index rs ix = Some (SUCCESS, ix')" "tree_index.indexes ix' (Map.empty ++ map_of rs)" "same_column ix ix'"
    using fill_index_ok [of ix Map.empty rs] dist assms(4) rs(1) by auto
  let ?tb = "tb\<lparr>tb_indexes := tb_indexes tb @ [ix']\<rparr>"
  have "table_ok ?tb" using assms(1,3) ix' rows by (auto simp: table_ok_def same_column_def)
  moreover have "create_index ix tb = Some (SUCCESS, ?tb)" using rs(1) ix'(1) by (simp add: create_index_def)
  moreover have "tree_keys ix' (\<lambda>rid. map_option (column ix) (table_rows tb rid))"
    using ix'(2) rows tree_index.same_key(1) [OF ix'(3)] by (simp add: tree_index.indexes_def)
  ultimately show ?thesis by blast
qed

section \<open>Examples\<close>

text \<open>A table without records, and an index on the four bytes behind the transaction fields.\<close>

definition ex_index :: TableIndex where
  "ex_index = \<lparr>ix_offset = 8, ix_tree = ex_full_leaf\<lparr>file_header := (file_header ex_full_leaf)\<lparr>root_page := BP_INVALID_PAGE_NUM\<rparr>\<rparr>\<rparr>"

definition ex_table :: Table where
  "ex_table = \<lparr>tb_record_size = 12, tb_begin_offset = 0, tb_end_offset = 4, tb_heap = ex_rec_file, tb_indexes = [ex_index]\<rparr>"

lemma ex_index_keys: "tree_keys ex_index Map.empty" "tree_room ex_index" "attr_length (file_header (ix_tree ex_index)) = 4"
proof -
  have e: "is_empty (ix_tree ex_index)" "sizes_ok (file_header (ix_tree ex_index))"
    by (simp_all add: ex_index_def is_empty_def ex_full_leaf_def ex_leaf_tree_def sizes_ok_def)
  show "attr_length (file_header (ix_tree ex_index)) = 4" by (simp add: ex_index_def ex_full_leaf_def ex_leaf_tree_def)
  then show "tree_keys ex_index Map.empty"
    unfolding tree_keys_def using e
    by (intro exI [of _ INTS] exI [of _ "\<lambda>_ _. None"] exI [of _ 4] exI [of _ 0] exI [of _ "[]"])
      (simp add: index_type_def index_holds_def rid_keys_def ex_index_def ex_full_leaf_def ex_leaf_tree_def)
  show "tree_room ex_index"
    using e by (simp add: tree_room_def index_holds_def ex_index_def ex_full_leaf_def ex_leaf_tree_def BP_MAX_PAGE_NUM_def BP_PAGE_DATA_SIZE_eq)
qed

lemma ex_table_ok: "table_ok ex_table"
proof -
  have "\<not> data_page ex_rec_file p" for p by (simp add: data_page_def ex_rec_file_def)
  then have "rf_ok 12 ex_rec_file" "file_records ex_rec_file = Map.empty"
    by (simp_all add: rf_ok_def file_records_def fun_eq_iff) (simp add: ex_rec_file_def rf_max_pages_def BP_PAGE_DATA_SIZE_eq zero_rec_page_def)
  then show ?thesis
    using ex_index_keys ex_rec_file_ok(2) by (simp add: table_ok_def ex_table_def tree_index.indexes_def) (simp add: ex_index_def)
qed

theorem table_insert_record_correct_witness:
  "\<exists>r tb'. table_insert_record Min [0, 0, 0, 0, 0, 0, 0, 0, 5, 0, 0, 0] ex_table = Some (r, tb') \<and> table_ok tb'
    \<and> (case r of Inr rid \<Rightarrow> table_rows tb' rid = Some [0, 0, 0, 0, 0, 0, 0, 0, 5, 0, 0, 0] | Inl rc \<Rightarrow> rc = BUFFERPOOL_NOBUF)"
proof -
  let ?v = "[0, 0, 0, 0, 0, 0, 0, 0, 5, 0, 0, 0] :: byte list"
  have beg: "\<forall>S. finite S \<longrightarrow> S \<noteq> {} \<longrightarrow> Min S \<in> (S :: PageNum set)" by simp
  have pre: "length ?v = tb_record_size ex_table" "\<forall>ix\<in>set (tb_indexes ex_table). tree_room ix" using ex_index_keys(2) by (simp_all add: ex_table_def)
  obtain r tb' where "table_insert_record Min ?v ex_table = Some (r, tb')" "table_ok tb'"
    "case r of Inr rid \<Rightarrow> table_rows ex_table rid = None \<and> table_rows tb' = (table_rows ex_table)(rid \<mapsto> ?v)
     | Inl rc \<Rightarrow> rc = BUFFERPOOL_NOBUF \<and> table_rows tb' = table_rows ex_table"
    using table_insert_record_correct [OF ex_table_ok beg pre] by blast
  then show ?thesis by (cases r) auto
qed

text \<open>A table with one page of records of two bytes.\<close>

definition ex_table1 :: Table where
  "ex_table1 = \<lparr>tb_record_size = 2, tb_begin_offset = 0, tb_end_offset = 0, tb_heap = ex_rec_file1, tb_indexes = []\<rparr>"

lemma ex_table1_ok: "table_ok ex_table1"
  using ex_rec_file1_ok(1) by (simp add: table_ok_def ex_table1_def) (simp add: ex_rec_file1_def ex_rec_file_def)


end
