(* ===== verification/MvccStore.thy ===== *)
theory MvccStore
  imports MvccTrx TableStore
begin

text \<open>
  The versions of the rows as an abstract store, and what the operations of a transaction do to it: insertion adds an
  uncommitted version, deletion marks one, commit and rollback settle the marks.
\<close>

section \<open>Fields of a record\<close>

lemma field_get_set [simp]:
  "int32 v \<Longrightarrow> offset + 4 \<le> length rec \<Longrightarrow> field_get_int offset (field_set_int offset v rec) = v"
  using int32_roundtrip [of v] by (simp add: field_get_int_def field_set_int_def write_bytes_def int32_of_bytes_def)

lemma field_get_int_prefix: "field_get_int offset rec = int32_of_bytes (take 4 (drop offset rec))"
  by (simp add: field_get_int_def int32_of_bytes_def)

lemma length_field_set_int [simp]: "offset + 4 \<le> length rec \<Longrightarrow> length (field_set_int offset v rec) = length rec"
  by (simp add: field_set_int_def write_bytes_def)

lemma take_drop_field_set_int:
  "offset + 4 \<le> length rec \<Longrightarrow> p + n \<le> offset \<or> offset + 4 \<le> p \<Longrightarrow> take n (drop p (field_set_int offset v rec)) = take n (drop p rec)"
  unfolding field_set_int_def by (rule write_bytes_other) simp_all

lemma field_get_other [simp]:
  "offset + 4 \<le> length rec \<Longrightarrow> p + 4 \<le> offset \<or> offset + 4 \<le> p \<Longrightarrow> field_get_int p (field_set_int offset v rec) = field_get_int p rec"
  by (simp add: field_get_int_prefix take_drop_field_set_int)

lemma drop_field_set_int: "offset + 4 \<le> length rec \<Longrightarrow> offset + 4 \<le> p \<Longrightarrow> drop p (field_set_int offset v rec) = drop p rec"
  by (simp add: field_set_int_def write_bytes_def)

section \<open>The versions of the rows\<close>

text \<open>The number of the creator, that of the deleter, and the bytes outside these two fields.\<close>

definition row_payload :: "Table \<Rightarrow> byte list \<Rightarrow> byte list" where
  "row_payload tb rec = take (tb_begin_offset tb) rec
     @ take (tb_end_offset tb - (tb_begin_offset tb + 4)) (drop (tb_begin_offset tb + 4) rec) @ drop (tb_end_offset tb + 4) rec"

type_synonym row = "int \<times> int \<times> byte list"

definition row_of :: "Table \<Rightarrow> byte list \<Rightarrow> row" where
  "row_of tb rec = (field_get_int (tb_begin_offset tb) rec, field_get_int (tb_end_offset tb) rec, row_payload tb rec)"

definition versions :: "MvccDb \<Rightarrow> int \<times> RID \<Rightarrow> row option" where
  "versions db k = Option.bind (db_tables db (fst k)) (\<lambda>tb. map_option (row_of tb) (table_rows tb (snd k)))"

definition trx_table_ok :: "Table \<Rightarrow> bool" where
  "trx_table_ok tb \<longleftrightarrow> table_ok tb \<and> tb_begin_offset tb + 4 \<le> tb_end_offset tb \<and> tb_end_offset tb + 4 \<le> tb_record_size tb
     \<and> (\<forall>ix\<in>set (tb_indexes tb). tb_end_offset tb + 4 \<le> ix_offset ix)"

definition db_ok :: "MvccDb \<Rightarrow> bool" where
  "db_ok db \<longleftrightarrow> db_log_io db = SUCCESS \<and> db_wait_io db = SUCCESS \<and> (\<forall>t tb. db_tables db t = Some tb \<longrightarrow> trx_table_ok tb)"

definition same_layout :: "Table \<Rightarrow> Table \<Rightarrow> bool" where
  "same_layout tb tb' \<longleftrightarrow> tb_record_size tb' = tb_record_size tb \<and> tb_begin_offset tb' = tb_begin_offset tb
     \<and> tb_end_offset tb' = tb_end_offset tb \<and> list_all2 same_column (tb_indexes tb) (tb_indexes tb')"

lemma versions_put:
  assumes "db_tables db t = Some tb" "same_layout tb tb'" "table_rows tb' = (table_rows tb)(rid := x)"
  shows "versions (put_table t tb' db) = (versions db)((t, rid) := map_option (row_of tb) x)"
proof -
  have "row_of tb' = row_of tb" using assms(2) by (simp add: same_layout_def row_of_def row_payload_def fun_eq_iff)
  then show ?thesis using assms(1,3) by (intro ext) (auto simp: versions_def put_table_def)
qed

lemma same_columns_offset: "list_all2 same_column ixs ixs' \<Longrightarrow> \<forall>ix\<in>set ixs. n \<le> ix_offset ix \<Longrightarrow> \<forall>ix\<in>set ixs'. n \<le> ix_offset ix"
  by (induction ixs ixs' rule: list_all2_induct) (auto simp: same_column_def)

lemma same_layout_ok: "trx_table_ok tb \<Longrightarrow> table_ok tb' \<Longrightarrow> same_layout tb tb' \<Longrightarrow> trx_table_ok tb'"
proof -
  assume a: "trx_table_ok tb" "table_ok tb'" "same_layout tb tb'"
  have "list_all2 same_column (tb_indexes tb) (tb_indexes tb')" using a(3) by (simp add: same_layout_def)
  moreover have "\<forall>ix\<in>set (tb_indexes tb). tb_end_offset tb + 4 \<le> ix_offset ix" using a(1) by (simp add: trx_table_ok_def)
  ultimately have "\<forall>ix\<in>set (tb_indexes tb'). tb_end_offset tb + 4 \<le> ix_offset ix"
    by (rule same_columns_offset)
  then show ?thesis using a by (simp add: trx_table_ok_def same_layout_def)
qed

lemma db_ok_put: "db_ok db \<Longrightarrow> db_tables db t = Some tb \<Longrightarrow> table_ok tb' \<Longrightarrow> same_layout tb tb' \<Longrightarrow> db_ok (put_table t tb' db)"
  using same_layout_ok by (auto simp: db_ok_def put_table_def)

lemma versions_Some:
  assumes "db_ok db" "versions db (t, rid) = Some v"
  obtains tb rec where "db_tables db t = Some tb" "trx_table_ok tb" "table_rows tb rid = Some rec" "v = row_of tb rec"
    "length rec = tb_record_size tb" "table_get_record rid tb = Inr rec"
proof -
  from assms(2) obtain tb rec where t: "db_tables db t = Some tb" "table_rows tb rid = Some rec" "v = row_of tb rec"
    by (auto simp: versions_def bind_eq_Some_conv)
  have ok: "trx_table_ok tb" "rf_ok (tb_record_size tb) (tb_heap tb)" using assms(1) t(1) by (auto simp: db_ok_def trx_table_ok_def table_ok_def)
  show thesis
    using that [OF t(1) ok(1) t(2,3) record_length [OF ok(2) t(2)]] present_record(5) [OF ok(2) t(2)] by (simp add: table_get_record_def)
qed

text \<open>Writing one of the two fields of a row in place.\<close>

lemma row_of_set:
  assumes "trx_table_ok tb" "length rec = tb_record_size tb" "int32 v"
  shows "row_of tb (field_set_int (tb_begin_offset tb) v rec) = (v, snd (row_of tb rec))"
    and "row_of tb (field_set_int (tb_end_offset tb) v rec) = (fst (row_of tb rec), v, snd (snd (row_of tb rec)))"
  using assms take_drop_field_set_int [of _ rec 0]
  by (simp_all add: row_of_def row_payload_def trx_table_ok_def take_drop_field_set_int drop_field_set_int)

lemma column_set:
  assumes "trx_table_ok tb" "length rec = tb_record_size tb" "ix \<in> set (tb_indexes tb)"
  shows "column ix (field_set_int (tb_begin_offset tb) v rec) = column ix rec" "column ix (field_set_int (tb_end_offset tb) v rec) = column ix rec"
  using assms by (auto simp: column_def trx_table_ok_def intro!: take_drop_field_set_int)

definition field_offset :: "OpType \<Rightarrow> Table \<Rightarrow> nat" where
  "field_offset ty tb = (case ty of OP_INSERT \<Rightarrow> tb_begin_offset tb | OP_DELETE \<Rightarrow> tb_end_offset tb)"

definition row_set :: "OpType \<Rightarrow> int \<Rightarrow> row \<Rightarrow> row" where
  "row_set ty v r = (case r of (b, e, d) \<Rightarrow> (case ty of OP_INSERT \<Rightarrow> (v, e, d) | OP_DELETE \<Rightarrow> (b, v, d)))"

lemma set_field_ok:
  assumes db: "db_ok db" and tb: "db_tables db t = Some tb" and rec: "table_rows tb rid = Some rec" and v: "int32 v"
    and vis: "visitor rec = (True, field_set_int (field_offset ty tb) v rec)"
  shows "\<exists>tb'. table_visit_record rid visitor tb = (SUCCESS, tb') \<and> db_ok (put_table t tb' db)
    \<and> versions (put_table t tb' db) = (versions db)((t, rid) \<mapsto> row_set ty v (row_of tb rec))"
proof -
  have ok: "trx_table_ok tb" "table_ok tb" "rf_ok (tb_record_size tb) (tb_heap tb)" using db tb by (auto simp: db_ok_def trx_table_ok_def table_ok_def)
  have len: "length rec = tb_record_size tb" by (rule record_length [OF ok(3) rec])
  let ?r = "field_set_int (field_offset ty tb) v rec"
  have "length ?r = tb_record_size tb" using ok(1) len by (cases ty) (simp_all add: field_offset_def trx_table_ok_def)
  moreover have "\<forall>ix\<in>set (tb_indexes tb). column ix ?r = column ix rec" using column_set [OF ok(1) len] by (cases ty) (simp_all add: field_offset_def)
  ultimately obtain tb' where tb': "table_visit_record rid visitor tb = (SUCCESS, tb')" "table_ok tb'" "table_rows tb' = (table_rows tb)(rid \<mapsto> ?r)"
    "tb' = tb\<lparr>tb_heap := tb_heap tb'\<rparr>"
    using table_visit_ok [OF ok(2) rec, of visitor True ?r] vis by auto
  have "tb_record_size tb' = tb_record_size tb" "tb_begin_offset tb' = tb_begin_offset tb" "tb_end_offset tb' = tb_end_offset tb" "tb_indexes tb' = tb_indexes tb"
    using arg_cong [OF tb'(4), of tb_record_size] arg_cong [OF tb'(4), of tb_begin_offset] arg_cong [OF tb'(4), of tb_end_offset]
      arg_cong [OF tb'(4), of tb_indexes] by simp_all
  then have lay: "same_layout tb tb'" by (simp add: same_layout_def list_all2_same same_column_def)
  have "row_of tb ?r = row_set ty v (row_of tb rec)"
    using row_of_set [OF ok(1) len v] by (cases ty) (simp_all add: field_offset_def row_set_def row_of_def)
  then show ?thesis using tb'(1) db_ok_put [OF db tb tb'(2) lay] versions_put [OF tb lay tb'(3)] by simp
qed

section \<open>Commit\<close>

definition op_ready :: "int \<Rightarrow> OpType \<Rightarrow> row \<Rightarrow> bool" where
  "op_ready tid ty r \<longleftrightarrow> (case ty of OP_INSERT \<Rightarrow> fst r = - tid | OP_DELETE \<Rightarrow> fst (snd r) = - tid)"

definition only_tables :: "MvccDb \<Rightarrow> MvccDb \<Rightarrow> bool" where
  "only_tables db db' \<longleftrightarrow> db' = db\<lparr>db_tables := db_tables db'\<rparr>"

lemma only_tables_put [simp]: "only_tables db (put_table t tb db)"
  by (simp add: only_tables_def put_table_def)

lemma only_tables_trans: "only_tables db1 db2 \<Longrightarrow> only_tables db2 db3 \<Longrightarrow> only_tables db1 db3"
  unfolding only_tables_def by (metis MvccDb.update_convs(1) MvccDb.surjective)

lemma only_tablesD: "only_tables db db' \<Longrightarrow> current_trx_id db' = current_trx_id db" "only_tables db db' \<Longrightarrow> db_log db' = db_log db"
    "only_tables db db' \<Longrightarrow> db_log_io db' = db_log_io db" "only_tables db db' \<Longrightarrow> db_stack db' = db_stack db"
  unfolding only_tables_def by (metis MvccDb.select_convs MvccDb.surjective MvccDb.update_convs(1))+

lemma commit_operation_ok:
  assumes db: "db_ok db" and v: "versions db k = Some r" and ready: "op_ready (trx_id trx) ty r" and c: "int32 c" and rec: "\<not> trx_recovering trx"
  shows "\<exists>db'. commit_operation c trx (ty, k) db = Some db' \<and> db_ok db' \<and> versions db' = (versions db)(k \<mapsto> row_set ty c r) \<and> only_tables db db'"
proof -
  obtain t rid where k: "k = (t, rid)" by force
  obtain tb rw where tb: "db_tables db t = Some tb" "trx_table_ok tb" "table_rows tb rid = Some rw" "r = row_of tb rw" "table_get_record rid tb = Inr rw"
    by (rule versions_Some [OF db v [unfolded k]])
  let ?visitor = "\<lambda>rec. (True, field_set_int (case ty of OP_INSERT \<Rightarrow> tb_begin_offset tb | OP_DELETE \<Rightarrow> tb_end_offset tb) c rec)"
  obtain tb' where tb': "table_visit_record rid ?visitor tb = (SUCCESS, tb')" "db_ok (put_table t tb' db)"
    "versions (put_table t tb' db) = (versions db)(k \<mapsto> row_set ty c r)"
    using set_field_ok [OF db tb(1,3) c, of ?visitor ty] tb(4) k by (auto simp: field_offset_def)
  have "commit_operation c trx (ty, k) db = Some (put_table t tb' db)"
    using tb ready rec k tb'(1) by (cases ty) (simp_all add: commit_operation_def op_ready_def row_of_def)
  then show ?thesis using tb' by (intro exI [of _ "put_table t tb' db"]) simp
qed

text \<open>
  The operations of a transaction are exactly its marks: an insertion for every row it has created, a deletion for
  every row it has marked as deleted.
\<close>

definition marks :: "int \<Rightarrow> TrxOperation list \<Rightarrow> (int \<times> RID \<Rightarrow> row option) \<Rightarrow> bool" where
  "marks tid ops V \<longleftrightarrow> (\<forall>op\<in>set ops. V (snd op) \<noteq> None)
     \<and> (\<forall>k b e d. V k = Some (b, e, d) \<longrightarrow> (b = - tid \<longleftrightarrow> (OP_INSERT, k) \<in> set ops) \<and> (e = - tid \<longleftrightarrow> (OP_DELETE, k) \<in> set ops))"

definition committed_rows :: "int \<Rightarrow> int \<Rightarrow> (int \<times> RID \<Rightarrow> row option) \<Rightarrow> int \<times> RID \<Rightarrow> row option" where
  "committed_rows tid c V k = map_option (\<lambda>(b, e, d). (if b = - tid then c else b, if e = - tid then c else e, d)) (V k)"

definition rolled_back_rows :: "int \<Rightarrow> (int \<times> RID \<Rightarrow> row option) \<Rightarrow> int \<times> RID \<Rightarrow> row option" where
  "rolled_back_rows tid V k =
     Option.bind (V k) (\<lambda>(b, e, d). if b = - tid then None else Some (b, if e = - tid then max_trx_id else e, d))"

lemma marksD:
  assumes "marks tid ops V" "V k = Some (b, e, d)"
  shows "b = - tid \<longleftrightarrow> (OP_INSERT, k) \<in> set ops" "e = - tid \<longleftrightarrow> (OP_DELETE, k) \<in> set ops"
  using assms unfolding marks_def by blast+

lemma marks_present: "marks tid ops V \<Longrightarrow> (ty, k) \<in> set ops \<Longrightarrow> \<exists>b e d. V k = Some (b, e, d)"
  unfolding marks_def by (metis option.exhaust prod_cases3 snd_conv)

lemma marksI:
  assumes "\<And>ty k. (ty, k) \<in> set ops \<Longrightarrow> V k \<noteq> None"
    and "\<And>k b e d. V k = Some (b, e, d) \<Longrightarrow> (b = - tid \<longleftrightarrow> (OP_INSERT, k) \<in> set ops) \<and> (e = - tid \<longleftrightarrow> (OP_DELETE, k) \<in> set ops)"
  shows "marks tid ops V"
  unfolding marks_def
proof (intro conjI ballI allI impI)
  fix op assume "op \<in> set ops"
  then show "V (snd op) \<noteq> None" using assms(1) [of "fst op" "snd op"] by simp
qed (use assms(2) in blast)+

lemma marks_ready: "marks tid ((ty, k) # ops) V \<Longrightarrow> \<exists>r. V k = Some r \<and> op_ready tid ty r"
proof -
  assume a: "marks tid ((ty, k) # ops) V"
  then obtain b e d where r: "V k = Some (b, e, d)" using marks_present [OF a, of ty k] by auto
  then show ?thesis using marksD [OF a r] by (cases ty) (auto simp: op_ready_def)
qed

lemma marks_settle:
  assumes m: "marks tid ((ty, k) # ops) V" and "(ty, k) \<notin> set ops" and r: "V k = Some r" and "v \<noteq> - tid"
  shows "marks tid ops (V(k \<mapsto> row_set ty v r))"
proof (rule marksI)
  fix ty' k' assume "(ty', k') \<in> set ops"
  then show "(V(k \<mapsto> row_set ty v r)) k' \<noteq> None" using marks_present [OF m, of ty' k'] by (cases "k' = k") simp_all
next
  fix k' b e d assume v: "(V(k \<mapsto> row_set ty v r)) k' = Some (b, e, d)"
  obtain b0 e0 d0 where r0: "r = (b0, e0, d0)" by (metis prod_cases3)
  show "(b = - tid \<longleftrightarrow> (OP_INSERT, k') \<in> set ops) \<and> (e = - tid \<longleftrightarrow> (OP_DELETE, k') \<in> set ops)"
    using v marksD [OF m, of k' b e d] marksD [OF m r [unfolded r0]] assms(2,4) r0 by (cases "k' = k"; cases ty) (auto simp: row_set_def)
qed

lemma committed_rows_settle:
  assumes "V k = Some r" "op_ready tid ty r" "c \<noteq> - tid"
  shows "committed_rows tid c (V(k \<mapsto> row_set ty c r)) = committed_rows tid c V"
proof -
  obtain b e d where r: "r = (b, e, d)" by (metis prod_cases3)
  show ?thesis using assms r by (cases ty) (auto simp: fun_eq_iff committed_rows_def row_set_def op_ready_def)
qed

lemma rolled_back_rows_settle:
  assumes "V k = Some r" "op_ready tid ty r" "0 < tid"
  shows "rolled_back_rows tid (case ty of OP_INSERT \<Rightarrow> V(k := None) | OP_DELETE \<Rightarrow> V(k \<mapsto> row_set ty max_trx_id r)) = rolled_back_rows tid V"
proof -
  obtain b e d where r: "r = (b, e, d)" by (metis prod_cases3)
  have "max_trx_id \<noteq> - tid" using assms(3) by (simp add: max_trx_id_def)
  then show ?thesis using assms r by (cases ty) (auto simp: fun_eq_iff rolled_back_rows_def row_set_def op_ready_def)
qed

lemma marks_none: "marks tid [] V \<Longrightarrow> committed_rows tid c V = V" "marks tid [] V \<Longrightarrow> rolled_back_rows tid V = V"
proof -
  assume a: "marks tid [] V"
  have n: "b \<noteq> - tid" "e \<noteq> - tid" if "V k = Some (b, e, d)" for k b e d using marksD [OF a that] by simp_all
  show "committed_rows tid c V = V"
  proof
    fix k show "committed_rows tid c V k = V k" using n [of k] by (cases "V k") (auto simp: committed_rows_def)
  qed
  show "rolled_back_rows tid V = V"
  proof
    fix k show "rolled_back_rows tid V k = V k" using n [of k] by (cases "V k") (auto simp: rolled_back_rows_def)
  qed
qed

lemma commit_operations_ok:
  assumes "db_ok db" "marks (trx_id trx) ops (versions db)" "distinct ops" "int32 c" "c \<noteq> - trx_id trx" "\<not> trx_recovering trx"
  shows "\<exists>db'. commit_operations c trx ops db = Some db' \<and> db_ok db' \<and> versions db' = committed_rows (trx_id trx) c (versions db) \<and> only_tables db db'"
  using assms(1-3)
proof (induction ops arbitrary: db)
  case Nil
  then show ?case by (simp add: marks_none) (simp add: only_tables_def)
next
  case (Cons op ops)
  obtain ty k where op: "op = (ty, k)" by (rule prod.exhaust)
  obtain r where r: "versions db k = Some r" "op_ready (trx_id trx) ty r" using marks_ready Cons.prems(2) op by blast
  obtain db1 where db1: "commit_operation c trx op db = Some db1" "db_ok db1" "versions db1 = (versions db)(k \<mapsto> row_set ty c r)" "only_tables db db1"
    using commit_operation_ok [OF Cons.prems(1) r assms(4,6)] op by blast
  have "marks (trx_id trx) ops (versions db1)"
    using marks_settle [OF Cons.prems(2) [unfolded op] _ r(1) assms(5)] Cons.prems(3) op db1(3) by simp
  then obtain db2 where "commit_operations c trx ops db1 = Some db2" "db_ok db2" "versions db2 = committed_rows (trx_id trx) c (versions db1)" "only_tables db1 db2"
    using Cons.IH [OF db1(2)] Cons.prems(3) by auto
  then show ?case using db1 committed_rows_settle [of "versions db" k, OF r assms(5)] only_tables_trans by auto
qed

section \<open>Rollback\<close>

lemma rollback_operation_ok:
  assumes db: "db_ok db" and v: "versions db k = Some r" and ready: "op_ready (trx_id trx) ty r" and rec: "\<not> trx_recovering trx"
  shows "\<exists>db'. rollback_operation trx (ty, k) SUCCESS db = Some (Inr (SUCCESS, db')) \<and> db_ok db' \<and> only_tables db db'
    \<and> versions db' = (case ty of OP_INSERT \<Rightarrow> (versions db)(k := None) | OP_DELETE \<Rightarrow> (versions db)(k \<mapsto> row_set ty max_trx_id r))"
proof -
  obtain t rid where k: "k = (t, rid)" by force
  obtain tb rw where tb: "db_tables db t = Some tb" "trx_table_ok tb" "table_rows tb rid = Some rw" "r = row_of tb rw" "table_get_record rid tb = Inr rw"
    by (rule versions_Some [OF db v [unfolded k]])
  show ?thesis
  proof (cases ty)
    case OP_INSERT
    obtain tb' where tb': "table_delete_record rid tb = Some (SUCCESS, tb')" "table_ok tb'" "table_rows tb' = (table_rows tb)(rid := None)" "same_layout tb tb'"
      using table_delete_ok [OF _ tb(3)] tb(2) by (auto simp: trx_table_ok_def same_layout_def)
    have "rollback_operation trx (ty, k) SUCCESS db = Some (Inr (SUCCESS, put_table t tb' db))"
      using OP_INSERT tb(1) tb'(1) rec k by (simp add: rollback_operation_def)
    then show ?thesis using OP_INSERT db_ok_put [OF db tb(1) tb'(2,4)] versions_put [OF tb(1) tb'(4,3)] k by simp
  next
    case OP_DELETE
    let ?visitor = "\<lambda>rec. (True, field_set_int (tb_end_offset tb) max_trx_id rec)"
    have "int32 max_trx_id" by (simp add: int32_def max_trx_id_def)
    then obtain tb' where tb': "table_visit_record rid ?visitor tb = (SUCCESS, tb')" "db_ok (put_table t tb' db)"
      "versions (put_table t tb' db) = (versions db)(k \<mapsto> row_set ty max_trx_id r)"
      using set_field_ok [OF db tb(1,3), of max_trx_id ?visitor ty] tb(4) k OP_DELETE by (auto simp: field_offset_def)
    have "rollback_operation trx (ty, k) SUCCESS db = Some (Inr (SUCCESS, put_table t tb' db))"
      using OP_DELETE tb ready tb'(1) k by (simp add: rollback_operation_def op_ready_def row_of_def)
    then show ?thesis using OP_DELETE tb' by simp
  qed
qed

text \<open>In the order of undoing, a row is not removed before its deletion is undone.\<close>

definition undoable :: "TrxOperation list \<Rightarrow> bool" where
  "undoable ops \<longleftrightarrow> distinct ops \<and> sorted_wrt (\<lambda>x y. \<not> (fst x = OP_INSERT \<and> fst y = OP_DELETE \<and> snd x = snd y)) ops"

lemma rollback_operations_ok:
  assumes "db_ok db" "marks (trx_id trx) ops (versions db)" "undoable ops" "0 < trx_id trx" "\<not> trx_recovering trx"
  shows "\<exists>db'. rollback_operations trx ops SUCCESS db = Some (None, db') \<and> db_ok db'
    \<and> versions db' = rolled_back_rows (trx_id trx) (versions db) \<and> only_tables db db'"
  using assms(1-3)
proof (induction ops arbitrary: db)
  case Nil
  then show ?case by (simp add: marks_none) (simp add: only_tables_def)
next
  case (Cons op ops)
  obtain ty k where op: "op = (ty, k)" by (rule prod.exhaust)
  obtain r where r: "versions db k = Some r" "op_ready (trx_id trx) ty r" using marks_ready Cons.prems(2) op by blast
  obtain db1 where db1: "rollback_operation trx op SUCCESS db = Some (Inr (SUCCESS, db1))" "db_ok db1" "only_tables db db1"
    "versions db1 = (case ty of OP_INSERT \<Rightarrow> (versions db)(k := None) | OP_DELETE \<Rightarrow> (versions db)(k \<mapsto> row_set ty max_trx_id r))"
    using rollback_operation_ok [OF Cons.prems(1) r assms(5)] op by blast
  have u: "undoable ops" "(ty, k) \<notin> set ops" "ty = OP_INSERT \<Longrightarrow> \<forall>x\<in>set ops. snd x \<noteq> k"
  proof -
    show "undoable ops" "(ty, k) \<notin> set ops" using Cons.prems(3) op by (auto simp: undoable_def)
    show "\<forall>x\<in>set ops. snd x \<noteq> k" if "ty = OP_INSERT"
    proof
      fix x assume x: "x \<in> set ops"
      show "snd x \<noteq> k" using Cons.prems(3) op that x by (cases x; cases "fst x") (auto simp: undoable_def)
    qed
  qed
  have "marks (trx_id trx) ops (versions db1)"
  proof (cases ty)
    case OP_INSERT
    then show ?thesis using u(3) Cons.prems(2) op db1(4) by (auto simp: marks_def)
  next
    case OP_DELETE
    then show ?thesis using marks_settle [OF Cons.prems(2) [unfolded op] u(2) r(1), of max_trx_id] db1(4) assms(4) by (simp add: max_trx_id_def)
  qed
  then obtain db2 where "rollback_operations trx ops SUCCESS db1 = Some (None, db2)" "db_ok db2" "only_tables db1 db2"
    "versions db2 = rolled_back_rows (trx_id trx) (versions db1)"
    using Cons.IH [OF db1(2) _ u(1)] by blast
  then show ?case using db1 rolled_back_rows_settle [of "versions db" k, OF r assms(4)] only_tables_trans by auto
qed

section \<open>The operations of a transaction\<close>

lemma versions_log [simp]: "versions (db\<lparr>db_log := l\<rparr>) = versions db" "versions (db\<lparr>current_trx_id := i\<rparr>) = versions db"
  by (simp_all add: versions_def fun_eq_iff)

lemma db_ok_log [simp]: "db_ok (db\<lparr>db_log := l\<rparr>) = db_ok db" "db_ok (db\<lparr>current_trx_id := i\<rparr>) = db_ok db"
  by (simp_all add: db_ok_def)

lemma put_table_fields [simp]: "current_trx_id (put_table t tb db) = current_trx_id db" "db_log_io (put_table t tb db) = db_log_io db"
    "db_wait_io (put_table t tb db) = db_wait_io db"
  by (simp_all add: put_table_def)

lemma append_trx_log_ok: "db_ok db \<Longrightarrow> append_trx_log p db = (SUCCESS, db\<lparr>db_log := db_log db @ [p]\<rparr>)"
  by (simp add: append_trx_log_def db_ok_def)

definition trx_number :: "MvccTrx \<Rightarrow> bool" where
  "trx_number trx \<longleftrightarrow> 0 < trx_id trx \<and> trx_id trx < max_trx_id"

lemma trx_number_int32: "trx_number trx \<Longrightarrow> int32 (- trx_id trx)"
  by (simp add: trx_number_def int32_def max_trx_id_def)

lemma trx_insert_ok:
  assumes db: "db_ok db" and tb: "db_tables db t = Some tb" and len: "length rec = tb_record_size tb" and trx: "trx_number trx"
    and beg: "\<forall>S. finite S \<longrightarrow> S \<noteq> {} \<longrightarrow> begin_page S \<in> S" and room: "\<forall>ix\<in>set (tb_indexes tb). tree_room ix"
  shows "\<exists>r trx' db'. trx_insert_record begin_page t rec trx db = Some (r, trx', db') \<and> db_ok db' \<and> current_trx_id db' = current_trx_id db
    \<and> (case r of
         Inl rc \<Rightarrow> rc = BUFFERPOOL_NOBUF \<and> trx' = trx \<and> versions db' = versions db \<and> rf_count (tb_heap tb) = rf_max_pages
       | Inr rid \<Rightarrow> trx' = trx\<lparr>trx_operations := trx_operations trx @ [(OP_INSERT, t, rid)]\<rparr> \<and> versions db (t, rid) = None
           \<and> versions db' = (versions db)((t, rid) \<mapsto> (- trx_id trx, max_trx_id, row_payload tb rec)))"
proof -
  have ok: "trx_table_ok tb" "table_ok tb" using db tb by (auto simp: db_ok_def trx_table_ok_def)
  have ids: "int32 (- trx_id trx)" "int32 max_trx_id" "0 < trx_id trx" using trx trx_number_int32 by (simp_all add: trx_number_def max_trx_id_def int32_def)
  let ?r1 = "field_set_int (tb_begin_offset tb) (- trx_id trx) rec"
  let ?r = "field_set_int (tb_end_offset tb) max_trx_id ?r1"
  have len1: "length ?r1 = tb_record_size tb" "length ?r = tb_record_size tb" using ok(1) len by (simp_all add: trx_table_ok_def)
  have row: "row_of tb ?r = (- trx_id trx, max_trx_id, row_payload tb rec)"
    using row_of_set(1) [OF ok(1) len ids(1)] row_of_set(2) [OF ok(1) len1(1) ids(2)] by (simp add: row_of_def)
  obtain r tb' where tb': "table_insert_record begin_page ?r tb = Some (r, tb')" "table_ok tb'" "same_layout tb tb'"
    "case r of Inr rid \<Rightarrow> table_rows tb rid = None \<and> table_rows tb' = (table_rows tb)(rid \<mapsto> ?r) \<and> rid_ok rid
     | Inl rc \<Rightarrow> rc = BUFFERPOOL_NOBUF \<and> table_rows tb' = table_rows tb \<and> rf_count (tb_heap tb) = rf_max_pages"
    using table_insert_ok [OF ok(2) beg len1(2) room] by (auto simp: same_layout_def)
  have db1: "db_ok (put_table t tb' db)" by (rule db_ok_put [OF db tb tb'(2,3)])
  show ?thesis
  proof (cases r)
    case (Inl rc)
    have "versions (put_table t tb' db) = versions db"
      using versions_put [OF tb tb'(3), of undefined "table_rows tb undefined"] tb'(4) Inl tb by (simp add: versions_def fun_upd_idem)
    then show ?thesis using Inl tb tb'(1,4) db1 by (simp add: trx_insert_record_def)
  next
    case (Inr rid)
    have "versions db (t, rid) = None" using tb tb'(4) Inr by (simp add: versions_def)
    moreover have "versions (put_table t tb' db) = (versions db)((t, rid) \<mapsto> (- trx_id trx, max_trx_id, row_payload tb rec))"
      using versions_put [OF tb tb'(3), of rid "Some ?r"] tb'(4) Inr row by simp
    ultimately show ?thesis
      using Inr tb tb'(1) db1 append_trx_log_ok [OF db1] ids(3) by (simp add: trx_insert_record_def trx_log_record_def)
  qed
qed

definition deletion :: "int \<Rightarrow> row \<Rightarrow> RC \<times> row" where
  "deletion tid r = (case r of (b, e, d) \<Rightarrow>
     let rc = mvcc_visit tid False b e in (rc, if rc = SUCCESS then (b, - tid, d) else r))"

lemma trx_delete_ok:
  assumes db: "db_ok db" and v: "versions db (t, rid) = Some r" and trx: "trx_number trx"
  shows "\<exists>db'. trx_delete_record t rid trx db = Some (fst (deletion (trx_id trx) r),
      if fst (deletion (trx_id trx) r) = SUCCESS then trx\<lparr>trx_operations := trx_operations trx @ [(OP_DELETE, t, rid)]\<rparr> else trx, db')
    \<and> db_ok db' \<and> current_trx_id db' = current_trx_id db \<and> versions db' = (versions db)((t, rid) \<mapsto> snd (deletion (trx_id trx) r))"
proof -
  obtain tb rw where tb: "db_tables db t = Some tb" "trx_table_ok tb" "table_rows tb rid = Some rw" "r = row_of tb rw" "table_get_record rid tb = Inr rw"
    by (rule versions_Some [OF db v])
  let ?rc = "trx_visit_record (trx_id trx) False tb rw"
  have del: "deletion (trx_id trx) r = (?rc, if ?rc = SUCCESS then row_set OP_DELETE (- trx_id trx) r else r)"
    by (simp add: deletion_def tb(4) row_of_def trx_visit_record_def Let_def row_set_def)
  show ?thesis
  proof (cases "?rc = SUCCESS")
    case True
    then obtain tb' where tb': "table_visit_record rid (mark_deleted (trx_id trx) tb) tb = (SUCCESS, tb')" "db_ok (put_table t tb' db)"
      "versions (put_table t tb' db) = (versions db)((t, rid) \<mapsto> row_set OP_DELETE (- trx_id trx) r)"
      using set_field_ok [OF db tb(1,3) trx_number_int32 [OF trx], of "mark_deleted (trx_id trx) tb" OP_DELETE] tb(4)
      by (auto simp: mark_deleted_def field_offset_def)
    then show ?thesis
      using True tb append_trx_log_ok [OF tb'(2)] trx del by (simp add: trx_delete_record_def Let_def trx_log_record_def trx_number_def)
  next
    case False
    then obtain tb' where tb': "table_visit_record rid (mark_deleted (trx_id trx) tb) tb = (SUCCESS, tb')" "table_ok tb'" "table_rows tb' = table_rows tb"
      "tb' = tb\<lparr>tb_heap := tb_heap tb'\<rparr>"
      using table_visit_ok [of tb rid rw "mark_deleted (trx_id trx) tb" False rw] tb by (auto simp: mark_deleted_def trx_table_ok_def)
    then have "same_layout tb tb'" by (metis Table.surjective Table.update_convs(4) list_all2_same same_column_def same_layout_def Table.select_convs)
    then have "db_ok (put_table t tb' db)" "versions (put_table t tb' db) = versions db"
      using db_ok_put [OF db tb(1) tb'(2)] versions_put [OF tb(1), of tb' rid "table_rows tb rid"] tb'(3) tb v by (simp_all add: fun_upd_idem)
    then show ?thesis using False tb tb'(1) del v by (simp add: trx_delete_record_def Let_def fun_upd_idem)
  qed
qed

lemma next_trx_id_ok: "0 \<le> current_trx_id db \<Longrightarrow> current_trx_id db < max_trx_id \<Longrightarrow>
    next_trx_id db = (current_trx_id db + 1, db\<lparr>current_trx_id := current_trx_id db + 1\<rparr>)"
proof -
  assume a: "0 \<le> current_trx_id db" "current_trx_id db < max_trx_id"
  have "signed_take_bit 31 (current_trx_id db + 1) = current_trx_id db + 1"
    using a by (subst signed_take_bit_int_eq_self_iff) (simp add: max_trx_id_def)
  then show ?thesis by (simp add: next_trx_id_def Let_def)
qed

lemma trx_commit_ok:
  assumes "db_ok db" "marks (trx_id trx) (trx_operations trx) (versions db)" "undoable (rev (trx_operations trx))" "\<not> trx_recovering trx"
    and "0 < trx_id trx" "trx_id trx \<le> current_trx_id db" "current_trx_id db < max_trx_id - 1"
  shows "\<exists>db'. trx_commit trx db = Some (SUCCESS, trx\<lparr>trx_started := False, trx_operations := []\<rparr>, db') \<and> db_ok db'
    \<and> current_trx_id db' = current_trx_id db + 1 \<and> versions db' = committed_rows (trx_id trx) (current_trx_id db + 1) (versions db)"
proof -
  let ?c = "current_trx_id db + 1" and ?db1 = "db\<lparr>current_trx_id := current_trx_id db + 1\<rparr>"
  have c: "int32 ?c" "?c \<noteq> - trx_id trx" "trx_id trx < ?c" using assms(5-7) by (auto simp: int32_def max_trx_id_def)
  obtain db2 where db2: "commit_operations ?c trx (trx_operations trx) ?db1 = Some db2" "db_ok db2"
    "versions db2 = committed_rows (trx_id trx) ?c (versions db)" "only_tables ?db1 db2"
    using commit_operations_ok [of ?db1 trx "trx_operations trx" ?c] assms(1-4) c by (auto simp: undoable_def)
  show ?thesis
    using db2 next_trx_id_ok [of db] assms(4-7) c append_trx_log_ok [OF db2(2)] only_tablesD(1) [OF db2(4)] db2(2) [unfolded db_ok_def]
    by (simp add: trx_commit_def commit_with_trx_id_def trx_log_commit_def)
qed

lemma trx_rollback_ok:
  assumes "db_ok db" "marks (trx_id trx) (trx_operations trx) (versions db)" "undoable (rev (trx_operations trx))" "\<not> trx_recovering trx" "0 < trx_id trx"
  shows "\<exists>db'. trx_rollback trx db = Some (SUCCESS, trx\<lparr>trx_started := False, trx_operations := []\<rparr>, db') \<and> db_ok db'
    \<and> current_trx_id db' = current_trx_id db \<and> versions db' = rolled_back_rows (trx_id trx) (versions db)"
proof -
  have "marks (trx_id trx) (rev (trx_operations trx)) (versions db)" using assms(2) by (simp add: marks_def)
  then obtain db2 where db2: "rollback_operations trx (rev (trx_operations trx)) SUCCESS db = Some (None, db2)" "db_ok db2"
    "versions db2 = rolled_back_rows (trx_id trx) (versions db)" "only_tables db db2"
    using rollback_operations_ok [OF assms(1) _ assms(3,5,4)] by auto
  show ?thesis
    using db2 assms(4,5) append_trx_log_ok [OF db2(2)] only_tablesD(1) [OF db2(4)] by (simp add: trx_rollback_def trx_log_rollback_def)
qed

end
