(* ===== verification/MvccSystem.thy ===== *)
theory MvccSystem
  imports MvccStore
begin

text \<open>
  Sessions that run transactions over one database, as a step relation labelled with the acting session, and what holds
  in every reachable state: the operations of a transaction are exactly its marks in the rows, so that commit and
  rollback never fail an assertion; commit publishes all marks under one number, rollback removes them all; a row a
  reader sees stays readable whatever the other sessions do.
\<close>

section \<open>Sessions\<close>

record MvccSys =
  sys_db :: MvccDb
  sys_trxs :: "nat \<Rightarrow> MvccTrx option"

definition set_session :: "nat \<Rightarrow> MvccTrx \<Rightarrow> MvccDb \<Rightarrow> MvccSys \<Rightarrow> MvccSys" where
  "set_session a trx db s = s\<lparr>sys_db := db, sys_trxs := (sys_trxs s)(a \<mapsto> trx)\<rparr>"

definition can_insert :: "MvccDb \<Rightarrow> int \<Rightarrow> byte list \<Rightarrow> bool" where
  "can_insert db t rec \<longleftrightarrow> (\<exists>tb. db_tables db t = Some tb \<and> length rec = tb_record_size tb \<and> (\<forall>ix\<in>set (tb_indexes tb). tree_room ix))"

text \<open>
  A session opens with a new transaction object, starts it before its first operation and runs operations until
  it commits or rolls back. The numbers are not exhausted, the inserted records have the size of the table and find room
  in the indexes, and a session does not delete a row again that it has already deleted.
\<close>

inductive mvcc_step :: "nat \<Rightarrow> MvccSys \<Rightarrow> MvccSys \<Rightarrow> bool" where
  opens: "sys_trxs s a = None \<Longrightarrow> mvcc_step a s (set_session a new_trx (sys_db s) s)"
| starts: "sys_trxs s a = Some trx \<Longrightarrow> current_trx_id (sys_db s) < max_trx_id - 1 \<Longrightarrow> start_if_need trx (sys_db s) = Some (trx', db') \<Longrightarrow>
    mvcc_step a s (set_session a trx' db' s)"
| inserts: "sys_trxs s a = Some trx \<Longrightarrow> trx_started trx \<Longrightarrow> can_insert (sys_db s) t rec \<Longrightarrow>
    \<forall>S. finite S \<longrightarrow> S \<noteq> {} \<longrightarrow> begin_page S \<in> S \<Longrightarrow> trx_insert_record begin_page t rec trx (sys_db s) = Some (r, trx', db') \<Longrightarrow>
    mvcc_step a s (set_session a trx' db' s)"
| deletes: "sys_trxs s a = Some trx \<Longrightarrow> trx_started trx \<Longrightarrow> versions (sys_db s) (t, rid) \<noteq> None \<Longrightarrow> (OP_DELETE, t, rid) \<notin> set (trx_operations trx) \<Longrightarrow>
    trx_delete_record t rid trx (sys_db s) = Some (rc, trx', db') \<Longrightarrow> mvcc_step a s (set_session a trx' db' s)"
| commits: "sys_trxs s a = Some trx \<Longrightarrow> trx_started trx \<Longrightarrow> current_trx_id (sys_db s) < max_trx_id - 1 \<Longrightarrow>
    trx_commit trx (sys_db s) = Some (rc, trx', db') \<Longrightarrow> mvcc_step a s (set_session a trx' db' s)"
| rolls_back: "sys_trxs s a = Some trx \<Longrightarrow> trx_started trx \<Longrightarrow> trx_rollback trx (sys_db s) = Some (rc, trx', db') \<Longrightarrow>
    mvcc_step a s (set_session a trx' db' s)"

text \<open>The initial state has no sessions, and every row in it is committed.\<close>

definition mvcc_init :: "MvccSys \<Rightarrow> bool" where
  "mvcc_init s \<longleftrightarrow> sys_trxs s = Map.empty \<and> db_ok (sys_db s) \<and> 0 \<le> current_trx_id (sys_db s) \<and> current_trx_id (sys_db s) < max_trx_id
     \<and> (\<forall>k b e d. versions (sys_db s) k = Some (b, e, d) \<longrightarrow> 0 < b \<and> b \<le> current_trx_id (sys_db s) \<and> 0 < e \<and> (e \<le> current_trx_id (sys_db s) \<or> e = max_trx_id))"

inductive mvcc_reachable :: "MvccSys \<Rightarrow> bool" where
  init: "mvcc_init s \<Longrightarrow> mvcc_reachable s"
| step: "mvcc_reachable s \<Longrightarrow> mvcc_step a s s' \<Longrightarrow> mvcc_reachable s'"

section \<open>The invariant\<close>

definition runs :: "MvccSys \<Rightarrow> int \<Rightarrow> bool" where
  "runs s tid \<longleftrightarrow> (\<exists>a trx. sys_trxs s a = Some trx \<and> trx_started trx \<and> trx_id trx = tid)"

definition row_ok :: "MvccSys \<Rightarrow> row \<Rightarrow> bool" where
  "row_ok s r \<longleftrightarrow> (case r of (b, e, d) \<Rightarrow> (0 < b \<and> b \<le> current_trx_id (sys_db s) \<or> b < 0 \<and> runs s (- b) \<and> (e = max_trx_id \<or> e = b))
     \<and> (0 < e \<and> (e \<le> current_trx_id (sys_db s) \<or> e = max_trx_id) \<or> e < 0 \<and> runs s (- e)))"

definition session_ok :: "MvccDb \<Rightarrow> MvccTrx \<Rightarrow> bool" where
  "session_ok db trx \<longleftrightarrow> \<not> trx_recovering trx
     \<and> (if trx_started trx then 0 < trx_id trx \<and> trx_id trx \<le> current_trx_id db \<and> marks (trx_id trx) (trx_operations trx) (versions db)
          \<and> undoable (rev (trx_operations trx))
        else trx_operations trx = [])"

definition sys_ok :: "MvccSys \<Rightarrow> bool" where
  "sys_ok s \<longleftrightarrow> db_ok (sys_db s) \<and> 0 \<le> current_trx_id (sys_db s) \<and> current_trx_id (sys_db s) < max_trx_id
     \<and> (\<forall>a trx. sys_trxs s a = Some trx \<longrightarrow> session_ok (sys_db s) trx)
     \<and> (\<forall>a b trx trx'. sys_trxs s a = Some trx \<longrightarrow> sys_trxs s b = Some trx' \<longrightarrow> a \<noteq> b \<longrightarrow> trx_started trx \<longrightarrow> trx_started trx' \<longrightarrow> trx_id trx \<noteq> trx_id trx')
     \<and> (\<forall>k r. versions (sys_db s) k = Some r \<longrightarrow> row_ok s r)"

lemma sys_rowD: "sys_ok s \<Longrightarrow> versions (sys_db s) k = Some r \<Longrightarrow> row_ok s r"
  unfolding sys_ok_def by blast

lemma runs_set_session:
  assumes "sys_ok s" "sys_trxs s a = Some trx" "trx_started trx"
  shows "runs (set_session a trx' db' s) tid \<longleftrightarrow> (if tid = trx_id trx then trx_started trx' \<and> trx_id trx' = tid
    else runs s tid \<or> trx_started trx' \<and> trx_id trx' = tid)"
proof -
  have "trx_id t \<noteq> trx_id trx" if "sys_trxs s b = Some t" "b \<noteq> a" "trx_started t" for b t
    using assms that unfolding sys_ok_def by metis
  then show ?thesis using assms(2,3) by (auto simp: runs_def set_session_def) (metis option.inject)+
qed

text \<open>
  A step of a session keeps the invariant if it keeps what the session and the rows have to satisfy, and the marks of
  the other transactions.
\<close>

lemma sys_ok_step:
  assumes ok: "sys_ok s" and a: "sys_trxs s a = Some trx" and db: "db_ok db'" "current_trx_id (sys_db s) \<le> current_trx_id db'" "current_trx_id db' < max_trx_id"
    and trx': "session_ok db' trx'" "trx_started trx' \<Longrightarrow> (if trx_started trx then trx_id trx' = trx_id trx else trx_id trx' > current_trx_id (sys_db s))"
    and others: "\<And>tid ops. 0 < tid \<Longrightarrow> tid \<noteq> trx_id trx \<or> \<not> trx_started trx \<Longrightarrow> marks tid ops (versions (sys_db s)) \<Longrightarrow> marks tid ops (versions db')"
    and rows: "\<And>k r. versions db' k = Some r \<Longrightarrow> row_ok (set_session a trx' db' s) r"
  shows "sys_ok (set_session a trx' db' s)"
proof -
  let ?s = "set_session a trx' db' s"
  have o: "session_ok (sys_db s) t" if "sys_trxs s b = Some t" for b t using ok that by (simp add: sys_ok_def)
  have d: "trx_id t \<noteq> trx_id t'" if "sys_trxs s b = Some t" "sys_trxs s c = Some t'" "b \<noteq> c" "trx_started t" "trx_started t'" for b c t t'
    using ok that unfolding sys_ok_def by blast
  have new: "trx_id t \<noteq> trx_id trx'" if "sys_trxs s b = Some t" "b \<noteq> a" "trx_started t" "trx_started trx'" for b t
    using trx'(2) [OF that(4)] d [OF that(1) a that(2,3)] o [OF that(1)] that(3) by (auto simp: session_ok_def split: if_splits)
  have "session_ok db' t" if "sys_trxs ?s b = Some t" for b t
  proof (cases "b = a")
    case True
    then show ?thesis using that trx'(1) by (simp add: set_session_def)
  next
    case False
    then have t: "sys_trxs s b = Some t" using that by (simp add: set_session_def)
    have "trx_id t \<noteq> trx_id trx \<or> \<not> trx_started trx" if "trx_started t" using d [OF t a False that] by blast
    then show ?thesis using o [OF t] others db(2) by (auto simp: session_ok_def)
  qed
  moreover have "trx_id t \<noteq> trx_id t'" if "sys_trxs ?s b = Some t" "sys_trxs ?s c = Some t'" "b \<noteq> c" "trx_started t" "trx_started t'" for b c t t'
    using that d new by (cases "b = a"; cases "c = a") (auto simp: set_session_def, metis+)
  ultimately show ?thesis
    unfolding sys_ok_def using ok db rows by (auto simp: set_session_def sys_ok_def)
qed

lemma session_facts:
  assumes "sys_ok s" "sys_trxs s a = Some trx" "trx_started trx"
  shows "db_ok (sys_db s)" "0 < trx_id trx" "trx_id trx \<le> current_trx_id (sys_db s)" "marks (trx_id trx) (trx_operations trx) (versions (sys_db s))"
    "undoable (rev (trx_operations trx))" "\<not> trx_recovering trx" "trx_number trx" "runs s (trx_id trx)" "current_trx_id (sys_db s) < max_trx_id"
proof -
  have o: "session_ok (sys_db s) trx" "db_ok (sys_db s)" "current_trx_id (sys_db s) < max_trx_id" using assms(1,2) by (auto simp: sys_ok_def)
  then show "db_ok (sys_db s)" "0 < trx_id trx" "trx_id trx \<le> current_trx_id (sys_db s)" "marks (trx_id trx) (trx_operations trx) (versions (sys_db s))"
    "undoable (rev (trx_operations trx))" "\<not> trx_recovering trx" "trx_number trx" "current_trx_id (sys_db s) < max_trx_id"
    using assms(3) by (simp_all add: session_ok_def trx_number_def)
  show "runs s (trx_id trx)" using assms(2,3) by (auto simp: runs_def)
qed

lemma row_ok_mono: "row_ok s r \<Longrightarrow> (\<And>tid. runs s tid \<Longrightarrow> runs s' tid) \<Longrightarrow> current_trx_id (sys_db s) \<le> current_trx_id (sys_db s') \<Longrightarrow> row_ok s' r"
  unfolding row_ok_def by (cases r) force

lemma marks_upd:
  assumes "marks tid ops V" "\<And>ty. (ty, k) \<in> set ops \<Longrightarrow> r \<noteq> None"
    and "\<And>b e d. r = Some (b, e, d) \<Longrightarrow> (b = - tid \<longleftrightarrow> (OP_INSERT, k) \<in> set ops) \<and> (e = - tid \<longleftrightarrow> (OP_DELETE, k) \<in> set ops)"
  shows "marks tid ops (V(k := r))"
proof (rule marksI)
  fix ty k' assume "(ty, k') \<in> set ops"
  then show "(V(k := r)) k' \<noteq> None" using marks_present [OF assms(1)] assms(2) by (cases "k' = k") fastforce+
next
  fix k' b e d assume "(V(k := r)) k' = Some (b, e, d)"
  then show "(b = - tid \<longleftrightarrow> (OP_INSERT, k') \<in> set ops) \<and> (e = - tid \<longleftrightarrow> (OP_DELETE, k') \<in> set ops)"
    using marksD [OF assms(1)] assms(3) by (cases "k' = k") auto
qed

lemma marks_absent: "marks tid ops V \<Longrightarrow> V k = None \<Longrightarrow> (ty, k) \<notin> set ops"
  using marks_present by fastforce

section \<open>Every step keeps the invariant\<close>

lemma starts_ok:
  assumes "sys_ok s" "sys_trxs s a = Some trx" "current_trx_id (sys_db s) < max_trx_id - 1" "start_if_need trx (sys_db s) = Some (trx', db')"
  shows "sys_ok (set_session a trx' db' s)"
proof (cases "trx_started trx")
  case True
  then have "trx' = trx" "db' = sys_db s" using assms(4) by (simp_all add: start_if_need_def)
  moreover have "set_session a trx (sys_db s) s = s" using assms(2) by (simp add: set_session_def fun_upd_idem)
  ultimately show ?thesis using assms(1) by simp
next
  case False
  let ?c = "current_trx_id (sys_db s)"
  have o: "session_ok (sys_db s) trx" "0 \<le> ?c" using assms(1,2) by (auto simp: sys_ok_def)
  have n: "next_trx_id (sys_db s) = (?c + 1, sys_db s\<lparr>current_trx_id := ?c + 1\<rparr>)" using next_trx_id_ok [OF o(2)] assms(3) by simp
  have new: "trx' = trx\<lparr>trx_id := ?c + 1, trx_started := True\<rparr>" "db' = sys_db s\<lparr>current_trx_id := ?c + 1\<rparr>"
    using assms(4) False n o(1) by (simp_all add: start_if_need_def session_ok_def)
  have less: "tid \<le> ?c" if "runs s tid" for tid using that assms(1) by (auto simp: runs_def sys_ok_def session_ok_def)
  note rows = sys_rowD [OF assms(1)]
  have "marks (?c + 1) [] (versions (sys_db s))"
  proof (rule marksI)
    fix k b e d assume "versions (sys_db s) k = Some (b, e, d)"
    from rows [OF this] show "(b = - (?c + 1) \<longleftrightarrow> (OP_INSERT, k) \<in> set []) \<and> (e = - (?c + 1) \<longleftrightarrow> (OP_DELETE, k) \<in> set [])"
      using less [of "- b"] less [of "- e"] o(2) by (auto simp: row_ok_def max_trx_id_def)
  qed simp
  then have "session_ok db' trx'" using o new False by (simp add: session_ok_def undoable_def)
  moreover have "row_ok (set_session a trx' db' s) r" if "versions db' k = Some r" for k r
  proof (rule row_ok_mono [OF rows [of k r]])
    show "versions (sys_db s) k = Some r" using that new by simp
    show "runs (set_session a trx' db' s) tid" if "runs s tid" for tid
      using that False assms(2) unfolding runs_def set_session_def by auto (metis option.inject)
  qed (simp add: new set_session_def)
  ultimately show ?thesis using sys_ok_step [OF assms(1,2), of db' trx'] assms(1,3) new False by (auto simp: sys_ok_def)
qed

text \<open>A step that changes one row and appends to the operations.\<close>

lemma one_row_ok:
  assumes ok: "sys_ok s" and a: "sys_trxs s a = Some trx" "trx_started trx" and db: "db_ok db'" "current_trx_id db' = current_trx_id (sys_db s)"
    and v: "versions db' = (versions (sys_db s))(k \<mapsto> r)" and trx': "trx' = trx\<lparr>trx_operations := trx_operations trx @ new\<rparr>"
    and own: "marks (trx_id trx) (trx_operations trx @ new) (versions db')" "undoable (rev (trx_operations trx @ new))"
    and others: "\<And>tid ops. 0 < tid \<Longrightarrow> tid \<noteq> trx_id trx \<Longrightarrow> marks tid ops (versions (sys_db s)) \<Longrightarrow> marks tid ops (versions db')"
    and row: "row_ok s r"
  shows "sys_ok (set_session a trx' db' s)"
proof -
  note f = session_facts [OF ok a]
  have runs: "runs s tid \<Longrightarrow> runs (set_session a trx' db' s) tid" for tid using runs_set_session [OF ok a] trx' a(2) by simp
  have "row_ok (set_session a trx' db' s) q" if "versions db' l = Some q" for l q
  proof (rule row_ok_mono [OF _ runs])
    show "row_ok s q" using that v row sys_rowD [OF ok, of l q] by (cases "l = k") simp_all
  qed (simp_all add: set_session_def db)
  moreover have "session_ok db' trx'" using f own trx' a(2) db by (simp add: session_ok_def)
  ultimately show ?thesis using sys_ok_step [OF ok a(1), of db' trx'] db f(9) trx' a(2) others by simp
qed

lemma inserts_ok:
  assumes ok: "sys_ok s" and a: "sys_trxs s a = Some trx" "trx_started trx" and can: "can_insert (sys_db s) t rec"
    and beg: "\<forall>S. finite S \<longrightarrow> S \<noteq> {} \<longrightarrow> begin_page S \<in> S" and ins: "trx_insert_record begin_page t rec trx (sys_db s) = Some (r, trx', db')"
  shows "sys_ok (set_session a trx' db' s)"
proof -
  note f = session_facts [OF ok a]
  obtain tb where tb: "db_tables (sys_db s) t = Some tb" "length rec = tb_record_size tb" "\<forall>ix\<in>set (tb_indexes tb). tree_room ix"
    using can by (auto simp: can_insert_def)
  have i: "db_ok db'" "current_trx_id db' = current_trx_id (sys_db s)"
    "case r of
         Inl rc \<Rightarrow> rc = BUFFERPOOL_NOBUF \<and> trx' = trx \<and> versions db' = versions (sys_db s) \<and> rf_count (tb_heap tb) = rf_max_pages
       | Inr rid \<Rightarrow> trx' = trx\<lparr>trx_operations := trx_operations trx @ [(OP_INSERT, t, rid)]\<rparr> \<and> versions (sys_db s) (t, rid) = None
           \<and> versions db' = (versions (sys_db s))((t, rid) \<mapsto> (- trx_id trx, max_trx_id, row_payload tb rec))"
    using trx_insert_ok [OF f(1) tb(1,2) f(7) beg tb(3)] ins by auto
  show ?thesis
  proof (cases r)
    case (Inl rc)
    have "row_ok (set_session a trx' db' s) q" if "versions db' l = Some q" for l q
      using row_ok_mono [of s q "set_session a trx' db' s"] that i Inl sys_rowD [OF ok, of l q] runs_set_session [OF ok a, of trx' db'] a(2)
      by (simp add: set_session_def)
    then show ?thesis using sys_ok_step [OF ok a(1) i(1), of trx'] i Inl ok a by (auto simp: sys_ok_def session_ok_def)
  next
    case (Inr rid)
    let ?k = "(t, rid)"
    have v: "trx' = trx\<lparr>trx_operations := trx_operations trx @ [(OP_INSERT, ?k)]\<rparr>" "versions (sys_db s) ?k = None"
      "versions db' = (versions (sys_db s))(?k \<mapsto> (- trx_id trx, max_trx_id, row_payload tb rec))" using i(3) Inr by simp_all
    have no: "(ty, ?k) \<notin> set (trx_operations trx)" for ty by (rule marks_absent [OF f(4) v(2)])
    have mx: "max_trx_id \<noteq> - tid" if "0 < tid" for tid using that by (simp add: max_trx_id_def)
    have "marks (trx_id trx) (trx_operations trx @ [(OP_INSERT, ?k)]) (versions db')"
    proof (rule marksI)
      fix ty k assume "(ty, k) \<in> set (trx_operations trx @ [(OP_INSERT, ?k)])"
      then show "versions db' k \<noteq> None" using marks_present [OF f(4), of ty k] v(3) by (cases "k = ?k") auto
    next
      fix k b e d assume "versions db' k = Some (b, e, d)"
      then show "(b = - trx_id trx \<longleftrightarrow> (OP_INSERT, k) \<in> set (trx_operations trx @ [(OP_INSERT, ?k)]))
          \<and> (e = - trx_id trx \<longleftrightarrow> (OP_DELETE, k) \<in> set (trx_operations trx @ [(OP_INSERT, ?k)]))"
        using marksD [OF f(4), of k b e d] v(3) no mx f(2) by (cases "k = ?k") auto
    qed
    moreover have "undoable (rev (trx_operations trx @ [(OP_INSERT, ?k)]))" using f(5) no by (auto simp: undoable_def)
    moreover have "marks tid ops (versions db')" if "0 < tid" "tid \<noteq> trx_id trx" "marks tid ops (versions (sys_db s))" for tid ops
      unfolding v(3) using marks_absent [OF that(3) v(2)] mx [OF that(1)] that(2) by (intro marks_upd [OF that(3)]) auto
    moreover have "row_ok s (- trx_id trx, max_trx_id, row_payload tb rec)" using f by (simp add: row_ok_def max_trx_id_def)
    ultimately show ?thesis using one_row_ok [OF ok a i(1,2) v(3,1)] by blast
  qed
qed

lemma deletes_ok:
  assumes ok: "sys_ok s" and a: "sys_trxs s a = Some trx" "trx_started trx" and row: "versions (sys_db s) k = Some r"
    and no: "(OP_DELETE, k) \<notin> set (trx_operations trx)" and del: "trx_delete_record (fst k) (snd k) trx (sys_db s) = Some (rc, trx', db')"
  shows "sys_ok (set_session a trx' db' s)"
proof -
  note f = session_facts [OF ok a]
  obtain b e d where r: "r = (b, e, d)" by (metis prod_cases3)
  have rok: "row_ok s r" by (rule sys_rowD [OF ok row])
  have dl: "trx' = (if fst (deletion (trx_id trx) r) = SUCCESS then trx\<lparr>trx_operations := trx_operations trx @ [(OP_DELETE, k)]\<rparr> else trx)"
    "db_ok db'" "current_trx_id db' = current_trx_id (sys_db s)" "versions db' = (versions (sys_db s))(k \<mapsto> snd (deletion (trx_id trx) r))"
    using trx_delete_ok [OF f(1), of "fst k" "snd k" r trx] row f(7) del by auto
  show ?thesis
  proof (cases "mvcc_visit (trx_id trx) False b e = SUCCESS")
    case False
    then have v: "trx' = trx\<lparr>trx_operations := trx_operations trx @ []\<rparr>" "versions db' = (versions (sys_db s))(k \<mapsto> r)" "versions db' = versions (sys_db s)"
      using dl r row by (simp_all add: deletion_def Let_def fun_upd_idem)
    show ?thesis using one_row_ok [OF ok a dl(2,3) v(2,1)] f(4,5) rok v(3) by simp
  next
    case True
    have v: "trx' = trx\<lparr>trx_operations := trx_operations trx @ [(OP_DELETE, k)]\<rparr>" "versions db' = (versions (sys_db s))(k \<mapsto> (b, - trx_id trx, d))"
      using dl r True by (simp_all add: deletion_def Let_def)
    have e: "e \<noteq> - trx_id trx" using marksD(2) [OF f(4) row [unfolded r]] no by simp
    have be: "0 < b \<and> 0 < e \<or> b = - trx_id trx \<and> e = max_trx_id" using rok True r e f(2) by (auto simp: row_ok_def mvcc_visit_def split: if_splits)
    have "marks (trx_id trx) (trx_operations trx @ [(OP_DELETE, k)]) (versions db')"
    proof (rule marksI)
      fix ty k' assume "(ty, k') \<in> set (trx_operations trx @ [(OP_DELETE, k)])"
      then show "versions db' k' \<noteq> None" using marks_present [OF f(4), of ty k'] v(2) by (cases "k' = k") auto
    next
      fix k' b' e' d' assume "versions db' k' = Some (b', e', d')"
      then show "(b' = - trx_id trx \<longleftrightarrow> (OP_INSERT, k') \<in> set (trx_operations trx @ [(OP_DELETE, k)]))
          \<and> (e' = - trx_id trx \<longleftrightarrow> (OP_DELETE, k') \<in> set (trx_operations trx @ [(OP_DELETE, k)]))"
        using marksD [OF f(4), of k' b' e' d'] marksD [OF f(4) row [unfolded r]] v(2) by (cases "k' = k") auto
    qed
    moreover have "undoable (rev (trx_operations trx @ [(OP_DELETE, k)]))" using f(5) no by (simp add: undoable_def)
    moreover have "marks tid ops (versions db')" if "0 < tid" "tid \<noteq> trx_id trx" "marks tid ops (versions (sys_db s))" for tid ops
      unfolding v(2) using marksD [OF that(3) row [unfolded r]] be that by (intro marks_upd [OF that(3)]) (auto simp: max_trx_id_def)
    moreover have "row_ok s (b, - trx_id trx, d)" using rok r be f by (auto simp: row_ok_def)
    ultimately show ?thesis using one_row_ok [OF ok a dl(2,3) v(2,1)] by blast
  qed
qed

text \<open>The end of a transaction: its marks are gone, and those of the others stay.\<close>

lemma ends_ok:
  assumes ok: "sys_ok s" and a: "sys_trxs s a = Some trx" "trx_started trx" and db: "db_ok db'" "current_trx_id (sys_db s) \<le> current_trx_id db'" "current_trx_id db' < max_trx_id"
    and trx': "trx' = trx\<lparr>trx_started := False, trx_operations := []\<rparr>"
    and gone: "\<And>k b e d. versions (sys_db s) k = Some (b, e, d) \<Longrightarrow> versions db' k =
      (if b = - trx_id trx then (if keep then Some (c, if e = - trx_id trx then c else e, d) else None) else Some (b, if e = - trx_id trx then x else e, d))"
    and absent: "\<And>k. versions (sys_db s) k = None \<Longrightarrow> versions db' k = None"
    and c: "0 < c" "c \<le> current_trx_id db'" and x: "0 < x" "x \<le> current_trx_id db' \<or> x = max_trx_id"
  shows "sys_ok (set_session a trx' db' s)"
proof (rule sys_ok_step [OF ok a(1) db])
  note f = session_facts [OF ok a]
  show "session_ok db' trx'" using f(6) trx' by (simp add: session_ok_def)
  show "if trx_started trx then trx_id trx' = trx_id trx else current_trx_id (sys_db s) < trx_id trx'" if "trx_started trx'" using that trx' by simp
  have old: "\<exists>b e d. versions (sys_db s) k = Some (b, e, d) \<and> row_ok s (b, e, d)" if "versions db' k \<noteq> None" for k
    using absent [of k] that sys_rowD [OF ok, of k] by (cases "versions (sys_db s) k") auto
  show "row_ok (set_session a trx' db' s) r" if r: "versions db' k = Some r" for k r
  proof -
    obtain b e d where b: "versions (sys_db s) k = Some (b, e, d)" "row_ok s (b, e, d)" using old [of k] r by auto
    let ?cur = "current_trx_id (sys_db s)" and ?s = "set_session a trx' db' s"
    have runs: "runs s tid \<Longrightarrow> tid \<noteq> trx_id trx \<Longrightarrow> runs ?s tid" for tid using runs_set_session [OF ok a, of trx' db'] by simp
    have cur: "current_trx_id (sys_db ?s) = current_trx_id db'" by (simp add: set_session_def)
    have endp: "0 < y \<and> (y \<le> current_trx_id db' \<or> y = max_trx_id) \<or> y < 0 \<and> runs ?s (- y)"
      if "y = (if e = - trx_id trx then z else e)" "0 < z" "z \<le> current_trx_id db' \<or> z = max_trx_id" for y z
      using b(2) that runs [of "- e"] db(2) by (cases "e = - trx_id trx") (auto simp: row_ok_def)
    show ?thesis
    proof (cases "b = - trx_id trx")
      case True
      then have "r = (c, if e = - trx_id trx then c else e, d)" using r gone [OF b(1)] by (simp split: if_splits)
      then show ?thesis using endp [of _ c] c cur by (simp add: row_ok_def)
    next
      case False
      then have q: "r = (b, if e = - trx_id trx then x else e, d)" using r gone [OF b(1)] by simp
      have "0 < b \<and> b \<le> ?cur \<or> b < 0 \<and> runs s (- b) \<and> (e = max_trx_id \<or> e = b)" using b(2) by (simp add: row_ok_def)
      moreover have "max_trx_id \<noteq> - trx_id trx" using f(2) by (simp add: max_trx_id_def)
      ultimately show ?thesis using endp [of _ x] x q cur runs [of "- b"] False db(2) by (auto simp: row_ok_def)
    qed
  qed
  show "marks tid ops (versions db')" if "0 < tid" "tid \<noteq> trx_id trx \<or> \<not> trx_started trx" and m: "marks tid ops (versions (sys_db s))" for tid ops
  proof (rule marksI)
    have ne: "tid \<noteq> trx_id trx" using that(2) a(2) by simp
    fix ty k assume k: "(ty, k) \<in> set ops"
    then obtain b e d where b: "versions (sys_db s) k = Some (b, e, d)" using marks_present [OF m] by blast
    have "b = - tid \<or> e = - tid" using marksD [OF m b] k by (cases ty) auto
    then have "b \<noteq> - trx_id trx" using sys_rowD [OF ok b] ne that(1) f(2) by (auto simp: row_ok_def max_trx_id_def)
    then show "versions db' k \<noteq> None" using gone [OF b] by simp
  next
    fix k b e d assume r: "versions db' k = Some (b, e, d)"
    then obtain b0 e0 d0 where b: "versions (sys_db s) k = Some (b0, e0, d0)" using old [of k] by auto
    show "(b = - tid \<longleftrightarrow> (OP_INSERT, k) \<in> set ops) \<and> (e = - tid \<longleftrightarrow> (OP_DELETE, k) \<in> set ops)"
      using marksD [OF m b] r gone [OF b] that a(2) c x by (auto split: if_splits)
  qed
qed

lemma commits_ok:
  assumes ok: "sys_ok s" and a: "sys_trxs s a = Some trx" "trx_started trx" and n: "current_trx_id (sys_db s) < max_trx_id - 1"
    and com: "trx_commit trx (sys_db s) = Some (rc, trx', db')"
  shows "sys_ok (set_session a trx' db' s)"
proof -
  note f = session_facts [OF ok a]
  let ?c = "current_trx_id (sys_db s) + 1"
  have e: "trx' = trx\<lparr>trx_started := False, trx_operations := []\<rparr>" "db_ok db'" "current_trx_id db' = ?c"
    "versions db' = committed_rows (trx_id trx) ?c (versions (sys_db s))"
    using trx_commit_ok [OF f(1,4,5,6,2,3) n] com by auto
  show ?thesis
    by (rule ends_ok [OF ok a e(2) _ _ e(1), where keep = True and c = ?c and x = ?c]) (use e n f in \<open>auto simp: committed_rows_def\<close>)
qed

lemma rolls_back_ok:
  assumes ok: "sys_ok s" and a: "sys_trxs s a = Some trx" "trx_started trx" and rb: "trx_rollback trx (sys_db s) = Some (rc, trx', db')"
  shows "sys_ok (set_session a trx' db' s)"
proof -
  note f = session_facts [OF ok a]
  have e: "trx' = trx\<lparr>trx_started := False, trx_operations := []\<rparr>" "db_ok db'" "current_trx_id db' = current_trx_id (sys_db s)"
    "versions db' = rolled_back_rows (trx_id trx) (versions (sys_db s))"
    using trx_rollback_ok [OF f(1,4,5,6,2)] rb by auto
  show ?thesis
    by (rule ends_ok [OF ok a e(2) _ _ e(1), where keep = False and c = "trx_id trx" and x = max_trx_id])
      (use e f in \<open>auto simp: rolled_back_rows_def max_trx_id_def\<close>)
qed

lemma opens_ok:
  assumes ok: "sys_ok s" and a: "sys_trxs s a = None"
  shows "sys_ok (set_session a new_trx (sys_db s) s)"
proof -
  have "runs (set_session a new_trx (sys_db s) s) tid \<longleftrightarrow> runs s tid" for tid
    using a unfolding runs_def set_session_def new_trx_def by auto (metis option.distinct(1))
  then have "row_ok (set_session a new_trx (sys_db s) s) r \<longleftrightarrow> row_ok s r" for r
    by (simp add: row_ok_def set_session_def)
  then show ?thesis using ok unfolding sys_ok_def by (simp add: set_session_def) (simp add: session_ok_def new_trx_def)
qed

lemma mvcc_step_ok: "mvcc_step a s s' \<Longrightarrow> sys_ok s \<Longrightarrow> sys_ok s'"
proof (induction rule: mvcc_step.induct)
  case (deletes s a trx t rid rc trx' db')
  then obtain r where "versions (sys_db s) (t, rid) = Some r" by blast
  then show ?case using deletes_ok [of s a trx "(t, rid)" r] deletes by simp
qed (rule opens_ok starts_ok inserts_ok commits_ok rolls_back_ok; assumption)+

lemma mvcc_reachable_ok: "mvcc_reachable s \<Longrightarrow> sys_ok s"
proof (induction rule: mvcc_reachable.induct)
  case (init s)
  then show ?case by (force simp: mvcc_init_def sys_ok_def row_ok_def)
qed (rule mvcc_step_ok)

end
