(* ===== verification/MvccIsolation.thy ===== *)
theory MvccIsolation
  imports MvccSystem
begin

text \<open>
  What the sessions of a database can rely on: commit, rollback and the stability of what a reader sees; and where the
  rules of \<^verbatim>\<open>visit_record\<close> and of the log replayer fall short of that.
\<close>

section \<open>A reader and the others\<close>

text \<open>What the steps of the other sessions do to a row that a running transaction sees.\<close>

definition sees :: "int \<Rightarrow> MvccSys \<Rightarrow> int \<times> RID \<Rightarrow> byte list \<Rightarrow> bool" where
  "sees tid s k d \<longleftrightarrow> (\<exists>b e. versions (sys_db s) k = Some (b, e, d) \<and> b \<le> tid \<and> mvcc_visit tid True b e = SUCCESS)"

lemma mvcc_visit_other:
  assumes "0 < tid" "mvcc_visit tid True b e = SUCCESS" "b \<le> tid" "0 < b \<or> b < 0"
  shows "tid \<le> x \<Longrightarrow> mvcc_visit tid True b x = SUCCESS" "x < 0 \<Longrightarrow> x \<noteq> - tid \<Longrightarrow> mvcc_visit tid True b x = SUCCESS" "b < 0 \<Longrightarrow> b = - tid"
  using assms by (auto simp: mvcc_visit_def split: if_splits)

lemma others_keep_seen:
  assumes step: "mvcc_step a' s s'" and ne: "a' \<noteq> a" and ok: "sys_ok s" and a: "sys_trxs s a = Some trx" "trx_started trx" and sees: "sees (trx_id trx) s k d"
  shows "sees (trx_id trx) s' k d"
proof -
  note f = session_facts [OF ok a]
  obtain b e where v: "versions (sys_db s) k = Some (b, e, d)" "b \<le> trx_id trx" "mvcc_visit (trx_id trx) True b e = SUCCESS" using sees by (auto simp: sees_def)
  have rok: "row_ok s (b, e, d)" by (rule sys_rowD [OF ok v(1)])
  then have b0: "0 < b \<or> b < 0" by (auto simp: row_ok_def)
  note vis = mvcc_visit_other [OF f(2) v(3,2) b0]
  have diff: "trx_id t \<noteq> trx_id trx" if "sys_trxs s a' = Some t" "trx_started t" for t using ok a ne that unfolding sys_ok_def by metis
  from step ok show ?thesis
  proof (cases rule: mvcc_step.cases)
    case opens
    then show ?thesis using sees by (simp add: sees_def set_session_def)
  next
    case (starts t t' db')
    then have "versions db' = versions (sys_db s)" by (auto simp: start_if_need_def next_trx_id_def Let_def split: if_splits)
    then show ?thesis using sees starts(1) by (simp add: sees_def set_session_def)
  next
    case (inserts t ti rec begin_page r t' db')
    note g = session_facts [OF ok inserts(2,3)]
    obtain tb where tb: "db_tables (sys_db s) ti = Some tb" "length rec = tb_record_size tb" "\<forall>ix\<in>set (tb_indexes tb). tree_room ix"
      using inserts(4) by (auto simp: can_insert_def)
    have "versions db' k = versions (sys_db s) k"
      using trx_insert_ok [OF g(1) tb(1,2) g(7) inserts(5) tb(3)] inserts(6) v(1) by (cases r) auto
    then show ?thesis using sees inserts(1) by (simp add: sees_def set_session_def)
  next
    case (deletes t ti rid rc t' db')
    note g = session_facts [OF ok deletes(2,3)]
    obtain r where r: "versions (sys_db s) (ti, rid) = Some r" using deletes(4) by blast
    have db': "versions db' = (versions (sys_db s))((ti, rid) \<mapsto> snd (deletion (trx_id t) r))"
      using trx_delete_ok [OF g(1) r g(7)] deletes(6) by auto
    show ?thesis
    proof (cases "k = (ti, rid)")
      case False
      then show ?thesis using sees deletes(1) db' by (simp add: sees_def set_session_def)
    next
      case True
      then have "r = (b, e, d)" using r v(1) by simp
      then have k: "versions db' k = Some (if mvcc_visit (trx_id t) False b e = SUCCESS then (b, - trx_id t, d) else (b, e, d))"
        using db' True by (simp add: deletion_def Let_def)
      then show ?thesis using deletes(1) v vis(2) [of "- trx_id t"] g(2) diff [OF deletes(2,3)] by (auto simp: sees_def set_session_def)
    qed
  next
    case (commits t rc t' db')
    note g = session_facts [OF ok commits(2,3)]
    have db': "versions db' = committed_rows (trx_id t) (current_trx_id (sys_db s) + 1) (versions (sys_db s))"
      using trx_commit_ok [OF g(1,4,5,6,2,3) commits(4)] commits(5) by auto
    have "b \<noteq> - trx_id t" using vis(3) g(2) diff [OF commits(2,3)] by auto
    then have "versions db' k = Some (b, if e = - trx_id t then current_trx_id (sys_db s) + 1 else e, d)" using db' v(1) by (simp add: committed_rows_def)
    then show ?thesis using commits(1) v vis(1) [of "current_trx_id (sys_db s) + 1"] f(3) by (auto simp: sees_def set_session_def)
  next
    case (rolls_back t rc t' db')
    note g = session_facts [OF ok rolls_back(2,3)]
    have db': "versions db' = rolled_back_rows (trx_id t) (versions (sys_db s))"
      using trx_rollback_ok [OF g(1,4,5,6,2)] rolls_back(4) by auto
    have "b \<noteq> - trx_id t" using vis(3) g(2) diff [OF rolls_back(2,3)] by auto
    then have "versions db' k = Some (b, if e = - trx_id t then max_trx_id else e, d)" using db' v(1) by (simp add: rolled_back_rows_def)
    then show ?thesis using rolls_back(1) v vis(1) [of max_trx_id] f(3,9) by (auto simp: sees_def set_session_def)
  qed
qed

lemma others_keep_session: "mvcc_step a' s s' \<Longrightarrow> a' \<noteq> a \<Longrightarrow> sys_trxs s' a = sys_trxs s a"
  by (induction rule: mvcc_step.induct) (simp_all add: set_session_def)

inductive others_run :: "nat \<Rightarrow> MvccSys \<Rightarrow> MvccSys \<Rightarrow> bool" for a :: nat where
  stop: "others_run a s s"
| more: "mvcc_step a' s s' \<Longrightarrow> a' \<noteq> a \<Longrightarrow> others_run a s' s'' \<Longrightarrow> others_run a s s''"

lemma others_run_keep:
  "others_run a s s' \<Longrightarrow> sys_ok s \<Longrightarrow> sys_trxs s a = Some trx \<Longrightarrow> trx_started trx \<Longrightarrow> sees (trx_id trx) s k d \<Longrightarrow> sees (trx_id trx) s' k d"
proof (induction rule: others_run.induct)
  case (more a' s s' s'')
  then show ?case using others_keep_seen [OF more(1,2)] mvcc_step_ok [OF more(1)] others_keep_session [OF more(1,2)] by simp
qed

section \<open>Anomalies\<close>

lemma commit_operations_append:
  "commit_operations c trx (ops @ ops') db = Option.bind (commit_operations c trx ops db) (commit_operations c trx ops')"
  by (induction ops arbitrary: db) (auto simp: Option.bind_assoc split: Option.bind_split)

text \<open>Committing a deletion of a row that is no longer marked fails an assertion.\<close>

lemma commit_operation_unmarked:
  assumes "db_ok db" "versions db k = Some (b, e, d)" "e \<noteq> - trx_id trx"
  shows "commit_operation c trx (OP_DELETE, k) db = None"
proof -
  obtain t rid where k: "k = (t, rid)" by force
  obtain tb rw where "db_tables db t = Some tb" "(b, e, d) = row_of tb rw" "table_get_record rid tb = Inr rw"
    by (rule versions_Some [OF assms(1,2) [unfolded k]])
  then show ?thesis using assms(3) k by (simp add: commit_operation_def row_of_def)
qed

section \<open>Properties\<close>



text \<open>
  C11: Snapshot reads: a row that a running transaction sees, created no later than the transaction started, stays
  visible to it with the same contents, whatever sequence of steps the other sessions take: deletions, commits and
  rollbacks included.
\<close>

theorem mvcc_snapshot_stable:
  assumes "mvcc_reachable s" "sys_trxs s a = Some trx" "trx_started trx"
    and "versions (sys_db s) k = Some (b, e, d)" "b \<le> trx_id trx" "mvcc_visit (trx_id trx) True b e = SUCCESS" and "others_run a s s'"
  shows "\<exists>b' e'. versions (sys_db s') k = Some (b', e', d) \<and> mvcc_visit (trx_id trx) True b' e' = SUCCESS"
proof -
  have "sees (trx_id trx) s k d" using assms(4-6) by (auto simp: sees_def)
  then have "sees (trx_id trx) s' k d" by (rule others_run_keep [OF assms(7) mvcc_reachable_ok [OF assms(1)] assms(2,3)])
  then show ?thesis by (auto simp: sees_def)
qed

text \<open>
  A transaction that has inserted a row and deleted it again still sees the row; deleting the row once more
  succeeds, and then the commit fails an assertion.
\<close>

lemma own_row_deleted_twice:
  assumes "mvcc_reachable s" "sys_trxs s a = Some trx" "trx_started trx" "current_trx_id (sys_db s) < max_trx_id - 1"
    and "(OP_INSERT, t, rid) \<in> set (trx_operations trx)" "(OP_DELETE, t, rid) \<in> set (trx_operations trx)"
  shows "\<exists>b e d trx' db'. versions (sys_db s) (t, rid) = Some (b, e, d) \<and> mvcc_visit (trx_id trx) True b e = SUCCESS
    \<and> trx_delete_record t rid trx (sys_db s) = Some (SUCCESS, trx', db') \<and> trx_commit trx' db' = None"
proof -
  note f = session_facts [OF mvcc_reachable_ok [OF assms(1)] assms(2,3)]
  let ?k = "(t, rid)" and ?c = "current_trx_id (sys_db s) + 1"
  obtain b e d where v: "versions (sys_db s) ?k = Some (b, e, d)" using marks_present [OF f(4) assms(5)] by blast
  have be: "b = - trx_id trx" "e = - trx_id trx" using marksD [OF f(4) v] assms(5,6) by simp_all
  have vis: "mvcc_visit (trx_id trx) ro b e = SUCCESS" for ro using be f(2) by (simp add: mvcc_visit_def)
  let ?trx = "trx\<lparr>trx_operations := trx_operations trx @ [(OP_DELETE, ?k)]\<rparr>"
  obtain db' where db': "trx_delete_record t rid trx (sys_db s) = Some (SUCCESS, ?trx, db')" "db_ok db'" "current_trx_id db' = current_trx_id (sys_db s)"
    "versions db' = versions (sys_db s)"
    using trx_delete_ok [OF f(1) v f(7)] vis be v by (auto simp: deletion_def Let_def fun_upd_idem)
  have c: "int32 ?c" "?c \<noteq> - trx_id trx" using f(2,3) assms(4) by (auto simp: int32_def max_trx_id_def)
  obtain db2 where db2: "commit_operations ?c ?trx (trx_operations trx) (db'\<lparr>current_trx_id := ?c\<rparr>) = Some db2" "db_ok db2"
    "versions db2 = committed_rows (trx_id trx) ?c (versions (sys_db s))"
    using commit_operations_ok [of "db'\<lparr>current_trx_id := ?c\<rparr>" ?trx "trx_operations trx" ?c] db' f c by (auto simp: undoable_def)
  have "versions db2 ?k = Some (?c, ?c, d)" using db2(3) v be by (simp add: committed_rows_def)
  then have "commit_operation ?c ?trx (OP_DELETE, ?k) db2 = None" using commit_operation_unmarked [OF db2(2)] c(2) by simp
  then have "trx_commit ?trx db' = None"
    using db2(1) next_trx_id_ok [of db'] db'(3) f(2,3) assms(4) by (simp add: trx_commit_def commit_with_trx_id_def commit_operations_append)
  then show ?thesis using v vis db'(1) by blast
qed

text \<open>
  A transaction may delete a row whose deletion another transaction has committed after it started. Rolling back
  then unmarks the row: the committed deletion is lost.
\<close>

lemma committed_deletion_lost:
  assumes "mvcc_reachable s" "sys_trxs s a = Some trx" "trx_started trx"
    and "versions (sys_db s) (t, rid) = Some (b, e, d)" "0 < b" "b \<le> trx_id trx" "trx_id trx \<le> e" "e < max_trx_id"
  shows "\<exists>trx' db' trx'' db''. trx_delete_record t rid trx (sys_db s) = Some (SUCCESS, trx', db')
    \<and> trx_rollback trx' db' = Some (SUCCESS, trx'', db'') \<and> versions db'' (t, rid) = Some (b, max_trx_id, d)"
proof -
  have ok: "sys_ok s" by (rule mvcc_reachable_ok [OF assms(1)])
  note f = session_facts [OF ok assms(2,3)]
  let ?k = "(t, rid)"
  have vis: "mvcc_visit (trx_id trx) False b e = SUCCESS" using assms(5-7) f(2) by (simp add: mvcc_visit_def)
  have no: "(OP_DELETE, ?k) \<notin> set (trx_operations trx)" using marksD(2) [OF f(4) assms(4)] assms(7) f(2) by auto
  let ?trx = "trx\<lparr>trx_operations := trx_operations trx @ [(OP_DELETE, ?k)]\<rparr>"
  obtain db' where db': "trx_delete_record t rid trx (sys_db s) = Some (SUCCESS, ?trx, db')" "versions db' = (versions (sys_db s))(?k \<mapsto> (b, - trx_id trx, d))"
    using trx_delete_ok [OF f(1) assms(4) f(7)] vis by (auto simp: deletion_def Let_def)
  let ?s = "set_session a ?trx db' s"
  have ok': "sys_ok ?s" using deletes_ok [OF ok assms(2,3,4) no] db'(1) by simp
  have s': "sys_trxs ?s a = Some ?trx" "sys_db ?s = db'" "trx_started ?trx" using assms(3) by (simp_all add: set_session_def)
  note g = session_facts [OF ok' s'(1,3), unfolded s'(2)]
  obtain db'' where "trx_rollback ?trx db' = Some (SUCCESS, ?trx\<lparr>trx_started := False, trx_operations := []\<rparr>, db'')"
    "versions db'' = rolled_back_rows (trx_id trx) (versions db')"
    using trx_rollback_ok [OF g(1,4,5,6,2)] by auto
  moreover have "rolled_back_rows (trx_id trx) (versions db') ?k = Some (b, max_trx_id, d)"
    using db'(2) assms(5) f(2) by (simp add: rolled_back_rows_def)
  ultimately show ?thesis using db'(1) by metis
qed

text \<open>
  Replaying the log of transactions never enters one into the map of the replayer, so that at its end no
  transaction is rolled back: the tables are left as they were found, with the rows of unfinished transactions in them.
\<close>

lemma replay_rolls_back_nothing:
  assumes "trx_map s = []" "trx_replay_all es s db = Some (rc, s', db')"
  shows "db_tables db' = db_tables db \<and> trx_on_done s' db' = Some (SUCCESS, s', db')"
proof -
  have step: "trx_map s2 = [] \<and> db_tables db2 = db_tables db1" if "trx_replay e s1 db1 = Some (rc, s2, db2)" "trx_map s1 = []" for e s1 db1 rc s2 db2
    using that by (auto simp: trx_replay_def create_trx_def destroy_trx_def Let_def bind_eq_Some_conv split: if_splits prod.splits)
  from assms have "trx_map s' = [] \<and> db_tables db' = db_tables db"
  proof (induction es arbitrary: s db)
    case (Cons e es)
    then obtain rc1 s1 db1 where e: "trx_replay e s db = Some (rc1, s1, db1)"
      "if rc1 \<noteq> SUCCESS then rc = rc1 \<and> s' = s1 \<and> db' = db1 else trx_replay_all es s1 db1 = Some (rc, s', db')"
      by (auto simp: bind_eq_Some_conv split: if_splits)
    then show ?case using Cons.IH [of s1 db1] step [OF e(1) Cons.prems(1)] by (simp split: if_splits)
  qed simp
  then show ?thesis by (simp add: trx_on_done_def)
qed

section \<open>Examples\<close>

definition ex_db :: MvccDb where
  "ex_db = \<lparr>db_tables = [1 \<mapsto> ex_table], current_trx_id = 0, db_log = [], db_log_io = SUCCESS, db_wait_io = SUCCESS, db_stack = [0, 0, 0, 0]\<rparr>"

definition ex_sys :: MvccSys where
  "ex_sys = \<lparr>sys_db = ex_db, sys_trxs = Map.empty\<rparr>"

definition ex_rec :: "byte list" where
  "ex_rec = [0, 0, 0, 0, 0, 0, 0, 0, 5, 0, 0, 0]"

text \<open>Steps of a run, as they are needed for the states of the examples.\<close>

lemma step_open: "sys_trxs s a = None \<Longrightarrow> \<exists>s'. mvcc_step a s s' \<and> sys_db s' = sys_db s \<and> sys_trxs s' = (sys_trxs s)(a \<mapsto> new_trx)"
  by (intro exI [of _ "set_session a new_trx (sys_db s) s"] conjI mvcc_step.opens) (simp_all add: set_session_def)

lemma step_start:
  assumes "mvcc_reachable s" "sys_trxs s a = Some trx" "\<not> trx_started trx" "current_trx_id (sys_db s) < max_trx_id - 1"
  shows "\<exists>s'. mvcc_step a s s' \<and> sys_db s' = (sys_db s)\<lparr>current_trx_id := current_trx_id (sys_db s) + 1\<rparr>
    \<and> sys_trxs s' = (sys_trxs s)(a \<mapsto> trx\<lparr>trx_id := current_trx_id (sys_db s) + 1, trx_started := True\<rparr>)"
proof -
  let ?trx = "trx\<lparr>trx_id := current_trx_id (sys_db s) + 1, trx_started := True\<rparr>" and ?db = "(sys_db s)\<lparr>current_trx_id := current_trx_id (sys_db s) + 1\<rparr>"
  have "0 \<le> current_trx_id (sys_db s)" "trx_operations trx = []"
    using mvcc_reachable_ok [OF assms(1)] assms(2,3) by (auto simp: sys_ok_def session_ok_def)
  then have "start_if_need trx (sys_db s) = Some (?trx, ?db)" using assms(3,4) next_trx_id_ok by (simp add: start_if_need_def)
  then show ?thesis using mvcc_step.starts [OF assms(2,4)] by (intro exI [of _ "set_session a ?trx ?db s"]) (simp add: set_session_def)
qed

lemma step_delete:
  assumes "mvcc_reachable s" "sys_trxs s a = Some trx" "trx_started trx" "versions (sys_db s) (t, rid) = Some (b, e, d)"
    "(OP_DELETE, t, rid) \<notin> set (trx_operations trx)" "mvcc_visit (trx_id trx) False b e = SUCCESS"
  shows "\<exists>s'. mvcc_step a s s' \<and> versions (sys_db s') = (versions (sys_db s))((t, rid) \<mapsto> (b, - trx_id trx, d))
    \<and> current_trx_id (sys_db s') = current_trx_id (sys_db s)
    \<and> sys_trxs s' = (sys_trxs s)(a \<mapsto> trx\<lparr>trx_operations := trx_operations trx @ [(OP_DELETE, t, rid)]\<rparr>)"
proof -
  note f = session_facts [OF mvcc_reachable_ok [OF assms(1)] assms(2,3)]
  let ?trx = "trx\<lparr>trx_operations := trx_operations trx @ [(OP_DELETE, t, rid)]\<rparr>"
  obtain db' where db': "trx_delete_record t rid trx (sys_db s) = Some (SUCCESS, ?trx, db')" "current_trx_id db' = current_trx_id (sys_db s)"
    "versions db' = (versions (sys_db s))((t, rid) \<mapsto> (b, - trx_id trx, d))"
    using trx_delete_ok [OF f(1) assms(4) f(7)] assms(6) by (auto simp: deletion_def Let_def)
  then show ?thesis
    using mvcc_step.deletes [OF assms(2,3) _ assms(5) db'(1)] assms(4) by (intro exI [of _ "set_session a ?trx db' s"]) (simp add: set_session_def)
qed

lemma step_commit:
  assumes "mvcc_reachable s" "sys_trxs s a = Some trx" "trx_started trx" "current_trx_id (sys_db s) < max_trx_id - 1"
  shows "\<exists>s'. mvcc_step a s s' \<and> versions (sys_db s') = committed_rows (trx_id trx) (current_trx_id (sys_db s) + 1) (versions (sys_db s))
    \<and> current_trx_id (sys_db s') = current_trx_id (sys_db s) + 1
    \<and> sys_trxs s' = (sys_trxs s)(a \<mapsto> trx\<lparr>trx_started := False, trx_operations := []\<rparr>)"
proof -
  note f = session_facts [OF mvcc_reachable_ok [OF assms(1)] assms(2,3)]
  let ?trx = "trx\<lparr>trx_started := False, trx_operations := []\<rparr>"
  obtain db' where db': "trx_commit trx (sys_db s) = Some (SUCCESS, ?trx, db')" "current_trx_id db' = current_trx_id (sys_db s) + 1"
    "versions db' = committed_rows (trx_id trx) (current_trx_id (sys_db s) + 1) (versions (sys_db s))"
    using trx_commit_ok [OF f(1,4,5,6,2,3) assms(4)] by auto
  then show ?thesis
    using mvcc_step.commits [OF assms(2,3,4) db'(1)] by (intro exI [of _ "set_session a ?trx db' s"]) (simp add: set_session_def)
qed

lemma ex_sys_init: "mvcc_init ex_sys" "versions ex_db = Map.empty"
proof -
  have "\<not> data_page ex_rec_file p" for p by (simp add: data_page_def ex_rec_file_def)
  then have "table_rows ex_table = Map.empty" by (simp add: file_records_def ex_table_def fun_eq_iff)
  then show v: "versions ex_db = Map.empty" by (auto simp: versions_def ex_db_def fun_eq_iff)
  have "trx_table_ok ex_table" using ex_table_ok by (simp add: trx_table_ok_def) (simp add: ex_table_def ex_index_def)
  then have "db_ok ex_db" by (simp add: db_ok_def ex_db_def)
  then show "mvcc_init ex_sys" using v by (simp add: mvcc_init_def ex_sys_def) (simp add: ex_db_def max_trx_id_def)
qed

text \<open>One session has inserted a row.\<close>

lemma ex_inserted:
  "\<exists>s rid d. mvcc_reachable s \<and> sys_trxs s = [0 \<mapsto> \<lparr>trx_id = 1, trx_started = True, trx_recovering = False, trx_operations = [(OP_INSERT, 1, rid)]\<rparr>]
    \<and> versions (sys_db s) = [(1, rid) \<mapsto> (- 1, max_trx_id, d)] \<and> current_trx_id (sys_db s) = 1"
proof -
  let ?trx = "\<lparr>trx_id = 1, trx_started = True, trx_recovering = False, trx_operations = []\<rparr>" and ?db = "ex_db\<lparr>current_trx_id := 1\<rparr>"
  obtain s1 where s1: "mvcc_step 0 ex_sys s1" "sys_db s1 = ex_db" "sys_trxs s1 = [0 \<mapsto> new_trx]"
    using step_open [of ex_sys 0] by (auto simp: ex_sys_def)
  have r1: "mvcc_reachable s1" by (rule mvcc_reachable.step [OF mvcc_reachable.init [OF ex_sys_init(1)] s1(1)])
  obtain s2 where s2: "mvcc_step 0 s1 s2" "sys_db s2 = ?db" "sys_trxs s2 = [0 \<mapsto> ?trx]"
    using step_start [OF r1, of 0 new_trx] s1(2,3) by (auto simp: new_trx_def ex_db_def max_trx_id_def)
  have r2: "mvcc_reachable s2" by (rule mvcc_reachable.step [OF r1 s2(1)])
  have tb: "db_tables ?db 1 = Some ex_table" "length ex_rec = tb_record_size ex_table" "\<forall>ix\<in>set (tb_indexes ex_table). tree_room ix"
    using ex_index_keys(2) by (simp_all add: ex_db_def ex_table_def ex_rec_def)
  have db: "db_ok ?db" using ex_sys_init(1) by (simp add: mvcc_init_def ex_sys_def)
  have beg: "\<forall>S. finite S \<longrightarrow> S \<noteq> {} \<longrightarrow> Min S \<in> (S :: PageNum set)" by simp
  have full: "rf_count (tb_heap ex_table) \<noteq> rf_max_pages" by (simp add: ex_table_def ex_rec_file_def rf_max_pages_def BP_PAGE_DATA_SIZE_eq)
  have num: "trx_number ?trx" by (simp add: trx_number_def max_trx_id_def)
  from trx_insert_ok [OF db tb(1,2) num beg tb(3)] obtain r trx' db' where i: "trx_insert_record Min 1 ex_rec ?trx ?db = Some (r, trx', db')"
    "current_trx_id db' = current_trx_id ?db"
    "case r of
         Inl rc \<Rightarrow> rc = BUFFERPOOL_NOBUF \<and> trx' = ?trx \<and> versions db' = versions ?db \<and> rf_count (tb_heap ex_table) = rf_max_pages
       | Inr rid \<Rightarrow> trx' = ?trx\<lparr>trx_operations := trx_operations ?trx @ [(OP_INSERT, 1, rid)]\<rparr> \<and> versions ?db (1, rid) = None
           \<and> versions db' = (versions ?db)((1, rid) \<mapsto> (- trx_id ?trx, max_trx_id, row_payload ex_table ex_rec))" by blast
  then obtain rid where db': "trx_insert_record Min 1 ex_rec ?trx ?db = Some (Inr rid, ?trx\<lparr>trx_operations := [(OP_INSERT, 1, rid)]\<rparr>, db')"
    "current_trx_id db' = 1" "versions db' = [(1, rid) \<mapsto> (- 1, max_trx_id, row_payload ex_table ex_rec)]"
    using full ex_sys_init(2) by (cases r) simp_all
  have "can_insert (sys_db s2) 1 ex_rec" using tb s2(2) by (auto simp: can_insert_def)
  then have "mvcc_step 0 s2 (set_session 0 (?trx\<lparr>trx_operations := [(OP_INSERT, 1, rid)]\<rparr>) db' s2)" (is "mvcc_step 0 s2 ?s3")
    using mvcc_step.inserts [of s2 0 ?trx 1 ex_rec Min] s2 db'(1) beg by simp
  from mvcc_reachable.step [OF r2 this] show ?thesis using db' s2
    by - (rule exI [of _ ?s3], rule exI [of _ rid], rule exI [of _ "row_payload ex_table ex_rec"], simp add: set_session_def)
qed



text \<open>
  A reader has started after the row was committed; another session deletes the row and commits while the reader
  runs.
\<close>

lemma ex_reader:
  "\<exists>s s' rid d trx. mvcc_reachable s \<and> mvcc_reachable s' \<and> others_run 1 s s' \<and> sys_trxs s 1 = Some trx \<and> sys_trxs s' 1 = Some trx
    \<and> trx_started trx \<and> trx_id trx = 3 \<and> versions (sys_db s) = [(1, rid) \<mapsto> (2, max_trx_id, d)] \<and> versions (sys_db s') = [(1, rid) \<mapsto> (2, 5, d)]"
proof -
  obtain s1 rid d where s1: "mvcc_reachable s1" "sys_trxs s1 = [0 \<mapsto> \<lparr>trx_id = 1, trx_started = True, trx_recovering = False, trx_operations = [(OP_INSERT, 1, rid)]\<rparr>]"
    "versions (sys_db s1) = [(1, rid) \<mapsto> (- 1, max_trx_id, d)]" "current_trx_id (sys_db s1) = 1" using ex_inserted by blast
  have com: "committed_rows 1 2 [(1, rid) \<mapsto> (- 1, max_trx_id, d)] = [(1, rid) \<mapsto> (2, max_trx_id, d)]" 
    "committed_rows 4 5 [(1, rid) \<mapsto> (2, - 4, d)] = [(1, rid) \<mapsto> (2, 5, d)]"
    by (auto simp: committed_rows_def fun_eq_iff max_trx_id_def)
  have mx: "(3::int) < max_trx_id - 1" "(4::int) < max_trx_id - 1" "(2::int) < max_trx_id - 1" "(1::int) < max_trx_id - 1" by (simp_all add: max_trx_id_def)
  let ?w = "\<lparr>trx_id = 1, trx_started = False, trx_recovering = False, trx_operations = []\<rparr>"
  let ?r = "new_trx\<lparr>trx_id := 3, trx_started := True\<rparr>"
  let ?w' = "?w\<lparr>trx_id := 4, trx_started := True\<rparr>"
  let ?w'' = "?w'\<lparr>trx_operations := [(OP_DELETE, 1, rid)]\<rparr>"
  obtain s2 where s2: "mvcc_step 0 s1 s2" "versions (sys_db s2) = [(1, rid) \<mapsto> (2, max_trx_id, d)]" "current_trx_id (sys_db s2) = 2" "sys_trxs s2 = [0 \<mapsto> ?w]"
    using step_commit [OF s1(1), of 0] s1(2,3,4) mx com(1) by auto
  have r2: "mvcc_reachable s2" by (rule mvcc_reachable.step [OF s1(1) s2(1)])
  obtain s3 where s3: "mvcc_step 1 s2 s3" "sys_db s3 = sys_db s2" "sys_trxs s3 = [0 \<mapsto> ?w, 1 \<mapsto> new_trx]" using step_open [of s2 1] s2(4) by auto
  have r3: "mvcc_reachable s3" by (rule mvcc_reachable.step [OF r2 s3(1)])
  obtain s4 where s4: "mvcc_step 1 s3 s4" "sys_db s4 = (sys_db s2)\<lparr>current_trx_id := 3\<rparr>" "sys_trxs s4 = [0 \<mapsto> ?w, 1 \<mapsto> ?r]"
    using step_start [OF r3, of 1 new_trx] s3 s2(3) mx by (auto simp: new_trx_def)
  have r4: "mvcc_reachable s4" by (rule mvcc_reachable.step [OF r3 s4(1)])
  have n4: "\<not> trx_started ?w" "sys_trxs s4 0 = Some ?w" "current_trx_id (sys_db s4) = 3" using s4(2,3) by simp_all
  obtain s5 where s5: "mvcc_step 0 s4 s5" "sys_db s5 = (sys_db s2)\<lparr>current_trx_id := 4\<rparr>" "sys_trxs s5 = [0 \<mapsto> ?w', 1 \<mapsto> ?r]"
    using step_start [OF r4 n4(2,1)] n4(3) s4(2,3) mx by (auto simp: fun_upd_twist)
  have r5: "mvcc_reachable s5" by (rule mvcc_reachable.step [OF r4 s5(1)])
  have n5: "sys_trxs s5 0 = Some ?w'" "trx_started ?w'" "versions (sys_db s5) (1, rid) = Some (2, max_trx_id, d)" using s5(2,3) s2(2) by simp_all
  obtain s6 where s6: "mvcc_step 0 s5 s6" "versions (sys_db s6) = [(1, rid) \<mapsto> (2, - 4, d)]" "current_trx_id (sys_db s6) = 4" "sys_trxs s6 = [0 \<mapsto> ?w'', 1 \<mapsto> ?r]"
    using step_delete [OF r5 n5] s5(2,3) s2(2) by (auto simp: mvcc_visit_def max_trx_id_def fun_upd_twist)
  have r6: "mvcc_reachable s6" by (rule mvcc_reachable.step [OF r5 s6(1)])
  have n6: "sys_trxs s6 0 = Some ?w''" "trx_started ?w''" "current_trx_id (sys_db s6) < max_trx_id - 1" using s6(3,4) mx by simp_all
  obtain s7 where s7: "mvcc_step 0 s6 s7" "versions (sys_db s7) = [(1, rid) \<mapsto> (2, 5, d)]" "sys_trxs s7 1 = Some ?r"
    using step_commit [OF r6 n6] s6(2,3,4) com(2) by auto
  have "others_run 1 s4 s7"
    by (rule others_run.more [OF s5(1) _ others_run.more [OF s6(1) _ others_run.more [OF s7(1) _ others_run.stop]]]) simp_all
  moreover have "versions (sys_db s4) = [(1, rid) \<mapsto> (2, max_trx_id, d)]" using s4(2) s2(2) by simp
  moreover have "sys_trxs s4 1 = Some ?r" using s4(3) by simp
  ultimately show ?thesis using r4 mvcc_reachable.step [OF r6 s7(1)] s7(2,3)
    by - (rule exI [of _ s4], rule exI [of _ s7], rule exI [of _ rid], rule exI [of _ d], rule exI [of _ ?r], simp)
qed

theorem mvcc_snapshot_stable_witness:
  "\<exists>(s' :: MvccSys) rid d. versions (sys_db s') (1, rid) = Some (2, 5, d) \<and> mvcc_visit 3 True 2 5 = SUCCESS"
proof -
  obtain s s' rid d trx where s: "mvcc_reachable s" "others_run 1 s s'" "sys_trxs s 1 = Some trx" "trx_started trx" "trx_id trx = 3"
    "versions (sys_db s) = [(1, rid) \<mapsto> (2, max_trx_id, d)]" "versions (sys_db s') = [(1, rid) \<mapsto> (2, 5, d)]" using ex_reader by blast
  have "mvcc_visit (trx_id trx) True 2 max_trx_id = SUCCESS" using s(5) by (simp add: mvcc_visit_def max_trx_id_def)
  then have "\<exists>b e. versions (sys_db s') (1, rid) = Some (b, e, d) \<and> mvcc_visit (trx_id trx) True b e = SUCCESS"
    using mvcc_snapshot_stable [OF s(1,3,4), of "(1, rid)" 2 max_trx_id d s'] s(2,5,6) by simp
  then have "versions (sys_db s') (1, rid) = Some (2, 5, d)" "mvcc_visit 3 True 2 5 = SUCCESS" using s(5,7) by simp_all
  then show ?thesis by blast
qed

end
