(* ===== verification/SqlStatement.thy ===== *)
theory SqlStatement
  imports SqlModify SqlLayout SqlPlan MvccIsolation
begin

text \<open>
  Statements that change a table, from the operator down to the versions of the rows: which rows \<^verbatim>\<open>DELETE\<close> marks, which rows
  \<^verbatim>\<open>UPDATE\<close> marks and adds, and that a row that was inserted is read back with its values.
\<close>

section \<open>The rows of a table\<close>

lemma sorted_rids_distinct: "sorted_wrt rid_less xs \<Longrightarrow> distinct xs"
  by (induction xs) (auto simp: rid_less_def)

lemma table_records_ok:
  "(rid, rec) \<in> set (table_records tb) \<longleftrightarrow> table_rows tb rid = Some rec" "distinct (map fst (table_records tb))"
  using scan_file_all [of "tb_heap tb" None] sorted_rids_distinct by (auto simp: table_records_def)

lemma version_of_record:
  "db_tables db t = Some tb \<Longrightarrow> r \<in> set (table_records tb) \<Longrightarrow> versions db (t, fst r) = Some (row_of tb (snd r))"
  using table_records_ok(1) [of "fst r" "snd r" tb] by (simp add: versions_def)

lemma visit_cases: "mvcc_visit tid False b e \<in> {SUCCESS, RECORD_INVISIBLE, LOCKED_CONCURRENCY_CONFLICT}"
  by (simp add: mvcc_visit_def)

lemma deletion_visit: "fst (deletion tid (row_of tb rec)) = trx_visit_record tid False tb rec"
  by (simp add: deletion_def row_of_def trx_visit_record_def Let_def)

section \<open>Deleting records\<close>

definition marked :: "int \<Rightarrow> (int \<times> RID) set \<Rightarrow> (int \<times> RID \<Rightarrow> row option) \<Rightarrow> int \<times> RID \<Rightarrow> row option" where
  "marked tid K V = (\<lambda>k. if k \<in> K then map_option (row_set OP_DELETE (- tid)) (V k) else V k)"

lemma marked_None: "marked tid K V k = None \<longleftrightarrow> V k = None"
  by (simp add: marked_def)

lemma deletion_marks: "fst (deletion tid r) = SUCCESS \<Longrightarrow> snd (deletion tid r) = row_set OP_DELETE (- tid) r"
  by (cases r) (simp add: deletion_def Let_def row_set_def split: if_splits)

lemma deletion_refused: "fst (deletion tid r) \<noteq> SUCCESS \<Longrightarrow> snd (deletion tid r) = r"
  by (cases r) (auto simp: deletion_def Let_def)

text \<open>Records are marked one by one, up to the first that the transaction may not change.\<close>

lemma delete_records_ok:
  assumes "db_ok db" "trx_number trx" "distinct (map fst rs)" "\<forall>r\<in>set rs. versions db (t, fst r) = Some (v r)"
  shows "\<exists>db'. delete_records t rs trx db = Some
      (case dropWhile (\<lambda>r. fst (deletion (trx_id trx) (v r)) = SUCCESS) rs of [] \<Rightarrow> SUCCESS | r # _ \<Rightarrow> fst (deletion (trx_id trx) (v r)),
       trx\<lparr>trx_operations := trx_operations trx @ map (\<lambda>r. (OP_DELETE, t, fst r)) (takeWhile (\<lambda>r. fst (deletion (trx_id trx) (v r)) = SUCCESS) rs)\<rparr>, db')
    \<and> db_ok db' \<and> current_trx_id db' = current_trx_id db
    \<and> versions db' = marked (trx_id trx) ((\<lambda>r. (t, fst r)) ` set (takeWhile (\<lambda>r. fst (deletion (trx_id trx) (v r)) = SUCCESS) rs)) (versions db)"
  using assms
proof (induction rs arbitrary: trx db)
  case Nil
  then show ?case by (simp add: marked_def)
next
  case (Cons r rs)
  let ?d = "deletion (trx_id trx) (v r)"
  obtain db1 where db1: "trx_delete_record t (fst r) trx db = Some (fst ?d,
      if fst ?d = SUCCESS then trx\<lparr>trx_operations := trx_operations trx @ [(OP_DELETE, t, fst r)]\<rparr> else trx, db1)"
    "db_ok db1" "current_trx_id db1 = current_trx_id db" "versions db1 = (versions db)((t, fst r) \<mapsto> snd ?d)"
    using trx_delete_ok [OF Cons.prems(1) _ Cons.prems(2), of t "fst r" "v r"] Cons.prems(4) by auto
  show ?case
  proof (cases "fst ?d = SUCCESS")
    case True
    let ?trx = "trx\<lparr>trx_operations := trx_operations trx @ [(OP_DELETE, t, fst r)]\<rparr>"
    let ?free = "takeWhile (\<lambda>r. fst (deletion (trx_id trx) (v r)) = SUCCESS) rs"
    have vr: "versions db (t, fst r) = Some (v r)" using Cons.prems(4) by simp
    have n: "trx_number ?trx" "\<forall>r\<in>set rs. versions db1 (t, fst r) = Some (v r)"
      using Cons.prems db1(4) by (auto simp: trx_number_def) (metis fst_conv image_eqI)
    have "marked (trx_id trx) ((\<lambda>r. (t, fst r)) ` F) (versions db1) = marked (trx_id trx) ((\<lambda>r. (t, fst r)) ` insert r F) (versions db)"
      if "fst r \<notin> fst ` F" for F
    proof
      fix k
      have "(t, fst r) \<notin> (\<lambda>r. (t, fst r)) ` F" using that by auto
      then show "marked (trx_id trx) ((\<lambda>r. (t, fst r)) ` F) (versions db1) k = marked (trx_id trx) ((\<lambda>r. (t, fst r)) ` insert r F) (versions db) k"
        using db1(4) deletion_marks [OF True] vr by (cases "k = (t, fst r)") (simp_all add: marked_def)
    qed
    moreover have "fst r \<notin> fst ` set ?free"
      using Cons.prems(3) by (auto dest!: set_takeWhileD)
    ultimately have m: "marked (trx_id trx) ((\<lambda>r. (t, fst r)) ` set ?free) (versions db1) = marked (trx_id trx) ((\<lambda>r. (t, fst r)) ` set (r # ?free)) (versions db)"
      by simp
    have "distinct (map fst rs)" using Cons.prems(3) by simp
    from Cons.IH [OF db1(2) n(1) this n(2)] obtain db' where "delete_records t rs ?trx db1 = Some
        (case dropWhile (\<lambda>r. fst (deletion (trx_id trx) (v r)) = SUCCESS) rs of [] \<Rightarrow> SUCCESS | r # _ \<Rightarrow> fst (deletion (trx_id trx) (v r)),
         ?trx\<lparr>trx_operations := trx_operations ?trx @ map (\<lambda>r. (OP_DELETE, t, fst r)) ?free\<rparr>, db')"
      "db_ok db'" "current_trx_id db' = current_trx_id db1" "versions db' = marked (trx_id trx) ((\<lambda>r. (t, fst r)) ` set ?free) (versions db1)"
      by (auto cong: list.case_cong)
    then show ?thesis using db1(1,3) True m by simp
  next
    case False
    then have "versions db1 = versions db" using db1(4) deletion_refused [OF False] Cons.prems(4) by (simp add: fun_upd_idem)
    then show ?thesis using db1 False by (simp add: marked_def)
  qed
qed

text \<open>The loop over the rows of a source ends and gives their records.\<close>

lemma collect_delivered:
  assumes "delivers op idle s ts" "\<forall>t\<in>set ts. t_record t \<noteq> None"
  shows "\<exists>s'. collect_records op s rs = Some (RECORD_EOF, s', rs @ map (the \<circ> t_record) ts) \<and> closes op idle s'"
  using assms
proof (induction arbitrary: rs rule: delivers.induct)
  case (deliver_end s s')
  then show ?case by (subst collect_records.simps) simp
next
  case (deliver_row s s' t ts)
  then obtain r where "t_record t = Some r" by auto
  then show ?case using deliver_row.IH [of "rs @ [r]"] deliver_row.hyps deliver_row.prems by (subst collect_records.simps) (simp add: comp_def)
qed

section \<open>The layout of a stored row\<close>

definition same_value :: "Value \<Rightarrow> Value \<Rightarrow> bool" where
  "same_value v w \<longleftrightarrow> v_type v = v_type w \<and> (v_type v = CHARS \<longrightarrow> v_str v = v_str w) \<and> (v_type v \<in> {INTS, FLOATS, DATES} \<longrightarrow> v_num v = v_num w)"

text \<open>The values of the columns of a row, as they are read, and a table whose transaction fields lie before the bitmap of NULLs.\<close>

definition row_reads :: "TableMeta \<Rightarrow> TextStorage \<Rightarrow> byte list \<Rightarrow> Value list \<Rightarrow> bool" where
  "row_reads m ts rec vs \<longleftrightarrow> length vs + sys_field_num m = field_num m
     \<and> (\<forall>i<length vs. cell_at (int (i + sys_field_num m)) rec m new_value ts = Some ((SUCCESS, vs ! i), ts) \<and> fits (vs ! i) (tm_fields m ! (i + sys_field_num m)))"

definition describes :: "TableMeta \<Rightarrow> Table \<Rightarrow> bool" where
  "describes m tb \<longleftrightarrow> meta_ok m \<and> field_num m \<le> 32 \<and> tb_record_size tb = nat (tm_record_size m)
     \<and> tb_end_offset tb + 4 \<le> nat (fm_offset (null_bitmap_field m))"

lemma make_record_reads:
  assumes "meta_ok m" "field_num m \<le> 32" "length mem = nat (tm_record_size m)" "length vs + sys_field_num m = field_num m"
    and "\<forall>i<length vs. fits (vs ! i) (tm_fields m ! (i + sys_field_num m))"
  shows "\<exists>rec ws. make_record mem vs m = Some (Inr rec) \<and> length rec = nat (tm_record_size m) \<and> row_reads m ts rec ws \<and> list_all2 same_value ws vs"
proof -
  let ?n = "sys_field_num m"
  obtain rec where rec: "make_record mem vs m = Some (Inr rec)" "length rec = nat (tm_record_size m)"
    "\<forall>i<length vs. \<exists>c. cell_at (int (i + ?n)) rec m new_value ts = Some ((SUCCESS, c), ts) \<and> same_value c (vs ! i) \<and> fits c (tm_fields m ! (i + ?n))"
    using record_cells [OF assms, of new_value ts] unfolding same_value_def by blast
  then obtain c where c: "\<And>i. i < length vs \<Longrightarrow> cell_at (int (i + ?n)) rec m new_value ts = Some ((SUCCESS, c i), ts) \<and> same_value (c i) (vs ! i) \<and> fits (c i) (tm_fields m ! (i + ?n))"
    by metis
  have "row_reads m ts rec (map c [0..<length vs])" "list_all2 same_value (map c [0..<length vs]) vs"
    using c assms(4) by (auto simp: row_reads_def list_all2_conv_all_nth simp del: of_nat_add)
  then show ?thesis using rec(1,2) by blast
qed

text \<open>Setting a transaction field changes no column.\<close>

lemma cell_at_set_int:
  assumes "meta_ok m" "sys_field_num m \<le> k" "offset + 4 \<le> nat (fm_offset (null_bitmap_field m))" "offset + 4 \<le> length rec"
  shows "cell_at (int k) (field_set_int offset v rec) m cell ts = cell_at (int k) rec m cell ts"
proof (cases "k < field_num m")
  case True
  let ?n = "sys_field_num m"
  have n: "0 < ?n" "?n - 1 < k" using assms(1,2) by (auto simp: meta_ok_def)
  have "fm_offset (tm_fields m ! (?n - 1)) \<le> fm_offset (tm_fields m ! k)"
    using adjacent_mono [of 0 "tm_fields m" "tm_record_size m" "?n - 1" k] assms(1) n True by (simp add: meta_ok_def field_num_def)
  then have "offset + 4 \<le> nat (fm_offset (tm_fields m ! k))" using assms(3) by (simp add: null_bitmap_field_def)
  then show ?thesis using assms(3,4) True by (simp add: cell_at_def Let_def drop_field_set_int)
qed (simp add: cell_at_def)

lemma row_reads_set_int:
  assumes "meta_ok m" "offset + 4 \<le> nat (fm_offset (null_bitmap_field m))" "offset + 4 \<le> length rec" "row_reads m ts rec vs"
  shows "row_reads m ts (field_set_int offset v rec) vs"
  using assms cell_at_set_int [OF assms(1) _ assms(2,3)] by (simp add: row_reads_def del: of_nat_add)

section \<open>Deletion\<close>

lemma row_tuple_record [simp]: "t_record (row_tuple m ts r) = Some r"
  by (simp add: row_tuple_def)

lemma trx_source_rows:
  "scan_of (trx_source m ts tid ro tb) (table_records tb) = trx_source m ts tid ro tb"
  "visible_rows (trx_source m ts tid ro tb) = map (row_tuple m ts) (filter (\<lambda>r. trx_visit_record tid ro tb (snd r) \<noteq> RECORD_INVISIBLE) (table_records tb))"
  by (simp_all add: scan_of_def trx_source_def visible_rows_def)

lemma trx_scan_source: "row_source (table_scan env (trx_source m ts tid ro tb) []) (\<lambda>_. True) (visible_rows (trx_source m ts tid ro tb))"
  using scanned.row_source_axioms [of env "trx_source m ts tid ro tb" "table_records tb"] by (simp add: trx_source_rows(1))

text \<open>Over any source of rows of a table, \<open>DELETE\<close> deletes the records of these rows.\<close>

lemma delete_open_rows:
  assumes "row_source op idle (map (row_tuple m ts) rs)" "idle (d_child s)" "d_records s = []" "delete_records t rs trx db = Some (rc, trx', db')"
  shows "\<exists>c. delete_open (Some op) t s trx db = Some (rc, \<lparr>d_child = c, d_records = rs\<rparr>, trx', db') \<and> idle c"
proof -
  obtain c where c: "o_open op (d_child s) = Some (SUCCESS, c)" "delivers op idle c (map (row_tuple m ts) rs)"
    using row_source.opens [OF assms(1,2)] by blast
  obtain c1 where c1: "collect_records op c [] = Some (RECORD_EOF, c1, rs)" "closes op idle c1"
    using collect_delivered [OF c(2), of "[]"] by (auto simp: comp_def)
  then obtain c2 where "o_close op c1 = Some (SUCCESS, c2)" "idle c2" by (auto simp: closes_def)
  then show ?thesis using assms(3,4) c(1) c1(1) by (simp add: delete_open_def)
qed

text \<open>
  C18: \<open>DELETE\<close> in a running transaction marks exactly the rows that the transaction sees and on which the condition is true. It
  stops with a conflict at the first of them that another transaction has marked, with the rows before it marked. This is for
  conditions whose leaves have a truth value, perhaps NULL, on the rows seen.
\<close>

theorem delete_statement:
  assumes "mvcc_reachable s" "sys_trxs s a = Some trx" "trx_started trx" "db_tables (sys_db s) t = Some tb" "d_records d = []"
    "\<forall>r\<in>set (visible_rows (trx_source m ts (trx_id trx) False tb)). \<forall>l\<in>set (leaves e). has_truth env r l (\<rho> r l)" "or_filled e"
  shows "let rows = filter (\<lambda>r. trx_visit_record (trx_id trx) False tb (snd r) \<noteq> RECORD_INVISIBLE \<and> logic (\<rho> (row_tuple m ts r)) e = Some True) (table_records tb);
             free = takeWhile (\<lambda>r. trx_visit_record (trx_id trx) False tb (snd r) = SUCCESS) rows
    in \<exists>d' trx' db'. delete_open (Some (predicate_oper env e (table_scan env (trx_source m ts (trx_id trx) False tb) []))) t d trx (sys_db s)
          = Some (if free = rows then SUCCESS else LOCKED_CONCURRENCY_CONFLICT, d', trx', db')
        \<and> versions db' = marked (trx_id trx) ((\<lambda>r. (t, fst r)) ` set free) (versions (sys_db s))
        \<and> trx_operations trx' = trx_operations trx @ map (\<lambda>r. (OP_DELETE, t, fst r)) free"
proof -
  let ?src = "trx_source m ts (trx_id trx) False tb" and ?visit = "\<lambda>r. trx_visit_record (trx_id trx) False tb (snd r)"
  define rows where "rows = filter (\<lambda>r. ?visit r \<noteq> RECORD_INVISIBLE \<and> logic (\<rho> (row_tuple m ts r)) e = Some True) (table_records tb)"
  define free where "free = takeWhile (\<lambda>r. ?visit r = SUCCESS) rows"
  have ok: "db_ok (sys_db s)" "trx_number trx" using session_facts [OF mvcc_reachable_ok [OF assms(1)] assms(2,3)] by simp_all
  have "row_wanted env e (Some r) = Some (SUCCESS, logic (\<rho> r) e = Some True)" if "r \<in> set (visible_rows ?src)" for r
    by (rule wanted_truth [OF logic_truth]) (use assms(6,7) that in blast)+
  then have "row_source (predicate_oper env e (table_scan env ?src [])) (\<lambda>_. True) (filter (\<lambda>r. logic (\<rho> r) e = Some True) (visible_rows ?src))"
    by (intro filter_source trx_scan_source) blast
  moreover have "filter (\<lambda>r. logic (\<rho> r) e = Some True) (visible_rows ?src) = map (row_tuple m ts) rows"
    by (simp add: trx_source_rows(2) filter_map rows_def comp_def conj_commute)
  ultimately have src: "row_source (predicate_oper env e (table_scan env ?src [])) (\<lambda>_. True) (map (row_tuple m ts) rows)" by simp
  have dist: "distinct (map fst rows)" unfolding rows_def by (rule distinct_map_filter [OF table_records_ok(2)])
  have vers: "\<forall>r\<in>set rows. versions (sys_db s) (t, fst r) = Some (row_of tb (snd r))" using version_of_record [OF assms(4)] by (simp add: rows_def)
  obtain db' where del: "delete_records t rows trx (sys_db s) = Some
      (case dropWhile (\<lambda>r. ?visit r = SUCCESS) rows of [] \<Rightarrow> SUCCESS | r # _ \<Rightarrow> ?visit r,
       trx\<lparr>trx_operations := trx_operations trx @ map (\<lambda>r. (OP_DELETE, t, fst r)) free\<rparr>, db')"
    "versions db' = marked (trx_id trx) ((\<lambda>r. (t, fst r)) ` set free) (versions (sys_db s))"
    using delete_records_ok [OF ok dist vers] by (auto simp: deletion_visit free_def cong: list.case_cong)
  have rc: "(case dropWhile (\<lambda>r. ?visit r = SUCCESS) rows of [] \<Rightarrow> SUCCESS | r # _ \<Rightarrow> ?visit r) = (if free = rows then SUCCESS else LOCKED_CONCURRENCY_CONFLICT)"
  proof (cases "dropWhile (\<lambda>r. ?visit r = SUCCESS) rows")
    case Nil
    then have "free = rows" by (simp add: free_def takeWhile_eq_all_conv)
    then show ?thesis unfolding Nil by simp
  next
    case (Cons r rs)
    then have r: "r \<in> set rows" "?visit r \<noteq> SUCCESS"
      using hd_dropWhile [of "\<lambda>r. ?visit r = SUCCESS" rows] set_dropWhileD [of r "\<lambda>r. ?visit r = SUCCESS" rows] by simp_all
    then have "?visit r \<noteq> RECORD_INVISIBLE" by (simp add: rows_def)
    then have "?visit r = LOCKED_CONCURRENCY_CONFLICT" using r(2) visit_cases unfolding trx_visit_record_def by blast
    moreover have "free \<noteq> rows" using r by (auto simp: free_def takeWhile_eq_all_conv)
    ultimately show ?thesis unfolding Cons by simp
  qed
  show ?thesis
    unfolding Let_def rows_def [symmetric] free_def [symmetric]
    using delete_open_rows [OF src _ assms(5) del(1) [unfolded rc]] del(2) by auto
qed

section \<open>Insertion\<close>

lemma same_layout_payload: "same_layout tb tb' \<Longrightarrow> row_payload tb' = row_payload tb"
  by (simp add: same_layout_def row_payload_def fun_eq_iff)

lemma same_layout_refl: "same_layout tb tb"
  by (simp add: same_layout_def same_column_def list_all2_same)

lemma same_layout_trans: "same_layout tb tb1 \<Longrightarrow> same_layout tb1 tb2 \<Longrightarrow> same_layout tb tb2"
  unfolding same_layout_def by (auto intro: list_all2_trans [of same_column same_column] simp: same_column_def)

text \<open>The table after an insertion by a transaction.\<close>

lemma trx_insert_table:
  assumes db: "db_ok db" and tb: "db_tables db t = Some tb" and len: "length rec = tb_record_size tb"
    and beg: "\<forall>S. finite S \<longrightarrow> S \<noteq> {} \<longrightarrow> begin_page S \<in> S" and room: "\<forall>ix\<in>set (tb_indexes tb). tree_room ix"
    and ins: "trx_insert_record begin_page t rec trx db = Some (r, trx', db')"
  shows "\<exists>tb'. db_tables db' t = Some tb' \<and> same_layout tb tb'
    \<and> (\<forall>rid. r = Inr rid \<longrightarrow> table_rows tb' rid = Some (field_set_int (tb_end_offset tb) max_trx_id (field_set_int (tb_begin_offset tb) (- trx_id trx) rec)))"
proof -
  let ?rec = "field_set_int (tb_end_offset tb) max_trx_id (field_set_int (tb_begin_offset tb) (- trx_id trx) rec)"
  have "trx_table_ok tb" using db tb by (simp add: db_ok_def)
  then have ok: "table_ok tb" "length ?rec = tb_record_size tb" using len by (simp_all add: trx_table_ok_def)
  obtain r1 tb' where ti: "table_insert_record begin_page ?rec tb = Some (r1, tb')" "same_layout tb tb'"
    "case r1 of Inr rid \<Rightarrow> table_rows tb rid = None \<and> table_rows tb' = (table_rows tb)(rid \<mapsto> ?rec) \<and> rid_ok rid
     | Inl rc \<Rightarrow> rc = BUFFERPOOL_NOBUF \<and> table_rows tb' = table_rows tb \<and> rf_count (tb_heap tb) = rf_max_pages"
    using table_insert_ok [OF ok(1) beg ok(2) room] unfolding same_layout_def by blast
  have "db_tables db' t = Some tb'" "r = r1"
    using ins tb ti(1) by (cases r1; auto simp: trx_insert_record_def put_table_def Let_def trx_log_record_def append_trx_log_def split: if_splits)+
  then show ?thesis using ti(2,3) by (cases r1) simp_all
qed

text \<open>
  C19: \<open>INSERT\<close> in a running transaction adds one row, unless the file is full. Scanning the table gives the row to this transaction,
  and the row reads as the values inserted; other transactions do not see it, and no other row changes. This is for values
  that fit their columns.
\<close>

theorem insert_statement:
  assumes "mvcc_reachable s" "sys_trxs s a = Some trx" "trx_started trx" "db_tables (sys_db s) t = Some tb" "describes m tb"
    "length mem = tb_record_size tb" "length vs + sys_field_num m = field_num m" "\<forall>i<length vs. fits (vs ! i) (tm_fields m ! (i + sys_field_num m))"
    "\<forall>S. finite S \<longrightarrow> S \<noteq> {} \<longrightarrow> begin_page S \<in> S" "\<forall>ix\<in>set (tb_indexes tb). tree_room ix"
  shows "\<exists>rc trx' db'. insert_open begin_page mem m t vs trx (sys_db s) = Some (rc, trx', db')
    \<and> (rc = BUFFERPOOL_NOBUF \<and> rf_count (tb_heap tb) = rf_max_pages \<and> versions db' = versions (sys_db s)
       \<or> rc = SUCCESS \<and> (\<exists>rid rec tb' ws. versions (sys_db s) (t, rid) = None \<and> (\<forall>k. k \<noteq> (t, rid) \<longrightarrow> versions db' k = versions (sys_db s) k)
           \<and> db_tables db' t = Some tb' \<and> (rid, rec) \<in> set (table_records tb') \<and> row_reads m ts rec ws \<and> list_all2 same_value ws vs
           \<and> (\<forall>tid ro. trx_visit_record tid ro tb' rec = (if tid = trx_id trx then SUCCESS else RECORD_INVISIBLE))))"
proof -
  note facts = session_facts [OF mvcc_reachable_ok [OF assms(1)] assms(2,3)]
  have ok: "db_ok (sys_db s)" "trx_number trx" "0 < trx_id trx" "trx_table_ok tb" using facts assms(4) by (auto simp: db_ok_def)
  have m: "meta_ok m" "field_num m \<le> 32" "tb_record_size tb = nat (tm_record_size m)" "tb_end_offset tb + 4 \<le> nat (fm_offset (null_bitmap_field m))"
    using assms(5) by (auto simp: describes_def)
  obtain rec ws where rec: "make_record mem vs m = Some (Inr rec)" "length rec = tb_record_size tb" "row_reads m ts rec ws" "list_all2 same_value ws vs"
    using make_record_reads [OF m(1,2) _ assms(7,8), of mem ts] assms(6) m(3) by auto
  obtain r trx' db' where ins: "trx_insert_record begin_page t rec trx (sys_db s) = Some (r, trx', db')"
    "case r of Inl rc \<Rightarrow> rc = BUFFERPOOL_NOBUF \<and> rf_count (tb_heap tb) = rf_max_pages \<and> versions db' = versions (sys_db s)
     | Inr rid \<Rightarrow> versions (sys_db s) (t, rid) = None \<and> versions db' = (versions (sys_db s))((t, rid) \<mapsto> (- trx_id trx, max_trx_id, row_payload tb rec))"
  proof -
    obtain r trx' db' where "trx_insert_record begin_page t rec trx (sys_db s) = Some (r, trx', db')"
      "case r of Inl rc \<Rightarrow> rc = BUFFERPOOL_NOBUF \<and> trx' = trx \<and> versions db' = versions (sys_db s) \<and> rf_count (tb_heap tb) = rf_max_pages
       | Inr rid \<Rightarrow> trx' = trx\<lparr>trx_operations := trx_operations trx @ [(OP_INSERT, t, rid)]\<rparr> \<and> versions (sys_db s) (t, rid) = None
           \<and> versions db' = (versions (sys_db s))((t, rid) \<mapsto> (- trx_id trx, max_trx_id, row_payload tb rec))"
      using trx_insert_ok [OF ok(1) assms(4) rec(2) ok(2) assms(9,10)] by blast
    then show ?thesis using that by (cases r) auto
  qed
  let ?rec = "field_set_int (tb_end_offset tb) max_trx_id (field_set_int (tb_begin_offset tb) (- trx_id trx) rec)"
  obtain tb' where tb': "db_tables db' t = Some tb'" "same_layout tb tb'" "\<And>rid. r = Inr rid \<Longrightarrow> table_rows tb' rid = Some ?rec"
    using trx_insert_table [OF ok(1) assms(4) rec(2) assms(9,10) ins(1)] by blast
  have off: "tb_begin_offset tb + 4 \<le> tb_end_offset tb" "tb_end_offset tb + 4 \<le> length rec" using ok(4) rec(2) by (auto simp: trx_table_ok_def)
  have reads: "row_reads m ts ?rec ws" using m(1,4) off rec(3) by (intro row_reads_set_int) auto
  have ids: "int32 (- trx_id trx)" "int32 max_trx_id" using trx_number_int32 [OF ok(2)] by (simp_all add: max_trx_id_def int32_def)
  have "field_get_int (tb_begin_offset tb) ?rec = - trx_id trx" "field_get_int (tb_end_offset tb) ?rec = max_trx_id"
    using off ids by simp_all
  then have visit: "trx_visit_record tid ro tb' ?rec = (if tid = trx_id trx then SUCCESS else RECORD_INVISIBLE)" for tid ro
    using tb'(2) ok(3) by (auto simp: trx_visit_record_def same_layout_def mvcc_visit_def)
  show ?thesis
  proof (cases r)
    case (Inl rc)
    then show ?thesis using rec(1) ins by (simp add: insert_open_def)
  next
    case (Inr rid)
    then have "(rid, ?rec) \<in> set (table_records tb')" using tb'(3) by (simp add: table_records_ok(1))
    then have "\<exists>rid rec tb' ws. versions (sys_db s) (t, rid) = None \<and> (\<forall>k. k \<noteq> (t, rid) \<longrightarrow> versions db' k = versions (sys_db s) k)
           \<and> db_tables db' t = Some tb' \<and> (rid, rec) \<in> set (table_records tb') \<and> row_reads m ts rec ws \<and> list_all2 same_value ws vs
           \<and> (\<forall>tid ro. trx_visit_record tid ro tb' rec = (if tid = trx_id trx then SUCCESS else RECORD_INVISIBLE))"
      using Inr ins(2) tb'(1) reads rec(4) visit
      by (intro exI [of _ rid] exI [of _ ?rec] exI [of _ tb'] exI [of _ ws]) simp
    then show ?thesis using Inr rec(1) ins(1) by (simp add: insert_open_def)
  qed
qed

section \<open>Examples\<close>

text \<open>A table with two columns of integers that may be NULL, without rows, and a running transaction.\<close>

definition ab_field :: "string \<Rightarrow> int \<Rightarrow> bool \<Rightarrow> FieldMeta" where
  "ab_field name off visible = \<lparr>fm_name = ascii name, fm_type = INTS, fm_offset = off, fm_len = 4, fm_visible = visible, fm_nullable = visible\<rparr>"

definition ab_meta :: TableMeta where
  "ab_meta = (let sys = [ab_field ''x'' 0 False, ab_field ''y'' 4 False, ab_field ''n'' 8 False]
     in \<lparr>tm_id = 1, tm_name = ascii ''t'', tm_sys_fields = sys, tm_fields = sys @ [ab_field ''a'' 12 True, ab_field ''b'' 16 True], tm_record_size = 20\<rparr>)"

definition ab_table :: Table where
  "ab_table = \<lparr>tb_record_size = 20, tb_begin_offset = 0, tb_end_offset = 4, tb_heap = ex_rec_file, tb_indexes = []\<rparr>"

definition ab_sys :: MvccSys where
  "ab_sys = \<lparr>sys_db = ex_db\<lparr>db_tables := [1 \<mapsto> ab_table]\<rparr>, sys_trxs = Map.empty\<rparr>"

definition ab_trx :: MvccTrx where
  "ab_trx = \<lparr>trx_id = 1, trx_started = True, trx_recovering = False, trx_operations = []\<rparr>"

lemma ab_meta_ok:
  "meta_ok ab_meta" "field_num ab_meta = 5" "sys_field_num ab_meta = 3" "tm_record_size ab_meta = 20" "distinct (map fm_name (tm_fields ab_meta))"
  "fits (set_int i new_value) (tm_fields ab_meta ! 3)" "fits (set_int i new_value) (tm_fields ab_meta ! 4)"
  by (simp_all add: ab_meta_def Let_def meta_ok_def field_num_def sys_field_num_def null_bitmap_field_def ab_field_def ascii_def fits_def set_int_def)

lemma ab_fits: "\<forall>k<length [set_int i new_value, set_int j new_value]. fits ([set_int i new_value, set_int j new_value] ! k) (tm_fields ab_meta ! (k + sys_field_num ab_meta))"
  using ab_meta_ok(3,6,7) by (simp add: less_Suc_eq eval_nat_numeral)

lemma ab_describes: "describes ab_meta ab_table"
  using ab_meta_ok by (simp add: describes_def) (simp add: ab_meta_def Let_def null_bitmap_field_def sys_field_num_def ab_field_def ab_table_def)

lemma ab_table_ok: "trx_table_ok ab_table" "table_rows ab_table = Map.empty"
proof -
  have "\<not> data_page ex_rec_file p" for p by (simp add: data_page_def ex_rec_file_def)
  then have r: "rf_ok 20 ex_rec_file" "file_records ex_rec_file = Map.empty"
    by (simp_all add: rf_ok_def file_records_def fun_eq_iff) (simp add: ex_rec_file_def rf_max_pages_def BP_PAGE_DATA_SIZE_eq zero_rec_page_def)
  then show "table_rows ab_table = Map.empty" by (simp add: ab_table_def)
  show "trx_table_ok ab_table" using r by (simp add: trx_table_ok_def table_ok_def ab_table_def) (simp add: ex_rec_file_def)
qed

lemma ab_running: "\<exists>s. mvcc_reachable s \<and> sys_trxs s = [0 \<mapsto> ab_trx] \<and> db_tables (sys_db s) = [1 \<mapsto> ab_table]"
proof -
  have "versions (sys_db ab_sys) = Map.empty" using ab_table_ok(2) by (auto simp: versions_def ab_sys_def fun_eq_iff)
  then have init: "mvcc_init ab_sys" using ab_table_ok(1)
    by (simp add: mvcc_init_def) (simp add: ab_sys_def ex_db_def db_ok_def max_trx_id_def)
  obtain s1 where s1: "mvcc_step 0 ab_sys s1" "sys_db s1 = sys_db ab_sys" "sys_trxs s1 = [0 \<mapsto> new_trx]"
    using step_open [of ab_sys 0] by (auto simp: ab_sys_def)
  have r1: "mvcc_reachable s1" by (rule mvcc_reachable.step [OF mvcc_reachable.init [OF init] s1(1)])
  obtain s2 where s2: "mvcc_step 0 s1 s2" "sys_db s2 = (sys_db ab_sys)\<lparr>current_trx_id := 1\<rparr>" "sys_trxs s2 = [0 \<mapsto> ab_trx]"
    using step_start [OF r1, of 0 new_trx] s1(2,3) by (auto simp: new_trx_def ab_trx_def ab_sys_def ex_db_def max_trx_id_def)
  then show ?thesis using mvcc_reachable.step [OF r1 s2(1)] by (intro exI [of _ s2]) (simp add: ab_sys_def)
qed

theorem insert_statement_witness:
  "\<exists>(s :: MvccSys) trx' db' rid rec tb' ws. insert_open Min (replicate 20 0) ab_meta 1 [set_int 7 new_value, set_int 8 new_value] ab_trx (sys_db s) = Some (SUCCESS, trx', db')
    \<and> db_tables db' 1 = Some tb' \<and> (rid, rec) \<in> set (table_records tb')
    \<and> row_reads ab_meta \<lparr>next_key = 0, storage = Map.empty\<rparr> rec ws \<and> v_num (ws ! 0) = 7 \<and> v_num (ws ! 1) = 8"
proof -
  let ?vs = "[set_int 7 new_value, set_int 8 new_value]" and ?ts = "\<lparr>next_key = 0, storage = Map.empty\<rparr>"
  obtain s where s: "mvcc_reachable s" "sys_trxs s 0 = Some ab_trx" "db_tables (sys_db s) 1 = Some ab_table" using ab_running by auto
  have started: "trx_started ab_trx" by (simp add: ab_trx_def)
  have pre: "length (replicate 20 (0 :: byte)) = tb_record_size ab_table" "length ?vs + sys_field_num ab_meta = field_num ab_meta"
    "\<forall>S. finite S \<longrightarrow> S \<noteq> {} \<longrightarrow> Min S \<in> (S :: PageNum set)" "\<forall>ix\<in>set (tb_indexes ab_table). tree_room ix"
    "rf_count (tb_heap ab_table) \<noteq> rf_max_pages"
    using ab_meta_ok(2,3) by (simp_all add: ab_table_def ex_rec_file_def rf_max_pages_def BP_PAGE_DATA_SIZE_eq)
  obtain trx' db' rid rec tb' ws where w: "insert_open Min (replicate 20 0) ab_meta 1 ?vs ab_trx (sys_db s) = Some (SUCCESS, trx', db')"
    "db_tables db' 1 = Some tb'" "(rid, rec) \<in> set (table_records tb')" "row_reads ab_meta ?ts rec ws" "list_all2 same_value ws ?vs"
    using insert_statement [OF s(1,2) started s(3) ab_describes pre(1,2) ab_fits pre(3,4), of ?ts] pre(5) by blast
  then have "v_num (ws ! 0) = 7 \<and> v_num (ws ! 1) = 8"
    using list_all2_nthD2 [OF w(5), of 0] list_all2_nthD2 [OF w(5), of 1] by (simp add: same_value_def set_int_def)
  then show ?thesis using w by blast
qed

text \<open>The same transaction after it has inserted a row.\<close>

lemma single_record: "distinct (map fst xs) \<Longrightarrow> set xs = {x} \<Longrightarrow> xs = [x]"
  by (cases xs; cases "tl xs") auto

lemma ab_inserted:
  "\<exists>s trx tb rid rec ws. mvcc_reachable s \<and> sys_trxs s 0 = Some trx \<and> trx_started trx \<and> trx_id trx = 1 \<and> db_tables (sys_db s) 1 = Some tb
    \<and> tb_indexes tb = [] \<and> describes ab_meta tb \<and> table_records tb = [(rid, rec)] \<and> row_of tb rec = (- 1, max_trx_id, row_payload tb rec)
    \<and> row_reads ab_meta \<lparr>next_key = 0, storage = Map.empty\<rparr> rec ws"
proof -
  let ?vs = "[set_int 7 new_value, set_int 8 new_value]" and ?ts = "\<lparr>next_key = 0, storage = Map.empty\<rparr>"
  obtain s where s: "mvcc_reachable s" "sys_trxs s 0 = Some ab_trx" "db_tables (sys_db s) = [1 \<mapsto> ab_table]" using ab_running by auto
  have st: "trx_started ab_trx" "trx_number ab_trx" "trx_id ab_trx = 1" by (simp_all add: ab_trx_def trx_number_def max_trx_id_def)
  have db: "db_ok (sys_db s)" "db_tables (sys_db s) 1 = Some ab_table" using session_facts(1) [OF mvcc_reachable_ok [OF s(1)] s(2) st(1)] s(3) by simp_all
  have beg: "\<forall>S. finite S \<longrightarrow> S \<noteq> {} \<longrightarrow> Min S \<in> (S :: PageNum set)" by simp
  have tb0: "\<forall>ix\<in>set (tb_indexes ab_table). tree_room ix" "rf_count (tb_heap ab_table) \<noteq> rf_max_pages" "tb_record_size ab_table = 20"
    "tb_begin_offset ab_table = 0" "tb_end_offset ab_table = 4" "tb_indexes ab_table = []"
    by (simp_all add: ab_table_def ex_rec_file_def rf_max_pages_def BP_PAGE_DATA_SIZE_eq)
  obtain rec ws where rec: "length rec = tb_record_size ab_table" "row_reads ab_meta ?ts rec ws"
    using make_record_reads [OF ab_meta_ok(1) _ _ _ ab_fits [of 7 8], of "replicate 20 0" ?ts] ab_meta_ok(2-4) tb0(3) by auto
  have none: "versions (sys_db s) = Map.empty" using s(3) ab_table_ok(2) by (auto simp: versions_def fun_eq_iff)
  from trx_insert_ok [OF db rec(1) st(2) beg tb0(1)] obtain r trx' db' where i: "trx_insert_record Min 1 rec ab_trx (sys_db s) = Some (r, trx', db')"
    "case r of
         Inl rc \<Rightarrow> rc = BUFFERPOOL_NOBUF \<and> trx' = ab_trx \<and> versions db' = versions (sys_db s) \<and> rf_count (tb_heap ab_table) = rf_max_pages
       | Inr rid \<Rightarrow> trx' = ab_trx\<lparr>trx_operations := trx_operations ab_trx @ [(OP_INSERT, 1, rid)]\<rparr> \<and> versions (sys_db s) (1, rid) = None
           \<and> versions db' = (versions (sys_db s))((1, rid) \<mapsto> (- trx_id ab_trx, max_trx_id, row_payload ab_table rec))" by blast
  then obtain rid where r: "r = Inr rid" "trx_started trx'" "trx_id trx' = 1" "versions db' = [(1, rid) \<mapsto> (- 1, max_trx_id, row_payload ab_table rec)]"
    using tb0(2) st none by (cases r) simp_all
  let ?rec = "field_set_int 4 max_trx_id (field_set_int 0 (- 1) rec)"
  obtain tb' where tb': "db_tables db' 1 = Some tb'" "same_layout ab_table tb'" "table_rows tb' rid = Some ?rec"
    using trx_insert_table [OF db rec(1) beg tb0(1) i(1)] r(1) tb0 st(3) by auto
  have lay: "tb_begin_offset tb' = 0" "tb_end_offset tb' = 4" "tb_record_size tb' = 20" "tb_indexes tb' = []"
    using tb'(2) tb0 by (auto simp: same_layout_def)
  have "can_insert (sys_db s) 1 rec" using db(2) rec(1) tb0(1) by (auto simp: can_insert_def)
  then have step: "mvcc_step 0 s (set_session 0 trx' db' s)" (is "mvcc_step 0 s ?s") using mvcc_step.inserts [OF s(2) st(1) _ beg i(1)] by blast
  have "table_rows tb' rid' = None" if "rid' \<noteq> rid" for rid'
    using fun_cong [OF r(4), of "(1, rid')"] tb'(1) that by (simp add: versions_def)
  then have "set (table_records tb') = {(rid, ?rec)}" using tb'(3) table_records_ok(1) [of _ _ tb'] by (auto, metis option.distinct(1) option.inject)+
  then have one: "table_records tb' = [(rid, ?rec)]" using single_record [OF table_records_ok(2)] by blast
  have "row_of tb' ?rec = (- 1, max_trx_id, row_payload tb' ?rec)" using lay rec(1) tb0(3) by (simp add: row_of_def int32_def max_trx_id_def)
  moreover have "describes ab_meta tb'" using ab_describes tb'(2) by (simp add: describes_def same_layout_def)
  moreover have "row_reads ab_meta ?ts ?rec ws"
    using rec tb0(3) ab_meta_ok(1) by (intro row_reads_set_int) (auto simp: ab_meta_def Let_def null_bitmap_field_def sys_field_num_def ab_field_def)
  ultimately show ?thesis
    using mvcc_reachable.step [OF s(1) step] r tb'(1) one lay(4)
    by (intro exI [of _ ?s] exI [of _ trx'] exI [of _ tb'] exI [of _ rid] exI [of _ ?rec] exI [of _ ws]) (simp add: set_session_def)
qed

theorem delete_statement_witness:
  "\<exists>(s :: MvccSys) trx tb rid ts d' trx' db'. delete_open (Some (predicate_oper ex_env true_expr (table_scan ex_env (trx_source ab_meta ts 1 False tb) []))) 1
      \<lparr>d_child = \<lparr>sc_rest = [], sc_current = ex_record 0\<rparr>, d_records = []\<rparr> trx (sys_db s) = Some (SUCCESS, d', trx', db')
    \<and> (\<exists>p. versions db' (1, rid) = Some (- 1, - 1, p))"
proof -
  let ?ts = "\<lparr>next_key = 0, storage = Map.empty\<rparr>" and ?d = "\<lparr>d_child = \<lparr>sc_rest = [], sc_current = ex_record 0\<rparr>, d_records = []\<rparr>"
  obtain s trx tb rid rec where s: "mvcc_reachable s" "sys_trxs s 0 = Some trx" "trx_started trx" "trx_id trx = 1" "db_tables (sys_db s) 1 = Some tb"
    "table_records tb = [(rid, rec)]" "row_of tb rec = (- 1, max_trx_id, row_payload tb rec)" using ab_inserted by blast
  have visit: "trx_visit_record 1 False tb rec = SUCCESS" using s(7) by (simp add: trx_visit_record_def row_of_def mvcc_visit_def)
  have truth: "has_truth ex_env r l (Some True)" if "l \<in> set (leaves true_expr)" for r l
    using that by (simp add: true_expr_def has_truth_def)
  have v: "versions (sys_db s) (1, rid) = Some (- 1, max_trx_id, row_payload tb rec)" using version_of_record [OF s(5), of "(rid, rec)"] s(6,7) by simp
  obtain d' trx' db' where "delete_open (Some (predicate_oper ex_env true_expr (table_scan ex_env (trx_source ab_meta ?ts 1 False tb) []))) 1 ?d trx (sys_db s) = Some (SUCCESS, d', trx', db')"
    "versions db' = marked 1 {(1, rid)} (versions (sys_db s))"
    using delete_statement [OF s(1-3,5), of ?d ab_meta ?ts true_expr ex_env "\<lambda>r l. Some True"] truth s(4,6) visit
    by (auto simp: Let_def) (auto simp: true_expr_def)
  then show ?thesis using v by (intro exI [of _ s] exI [of _ trx] exI [of _ tb] exI [of _ rid] exI [of _ ?ts] exI) (auto simp: marked_def row_set_def)
qed

end
