(* ===== verification/SqlUpdate.thy ===== *)
theory SqlUpdate
  imports SqlStatement
begin

text \<open>
  \<^verbatim>\<open>UPDATE\<close>: which values the new records have, and which rows are marked and added.
\<close>

section \<open>The record of an update\<close>

lemma find_position: "distinct xs \<Longrightarrow> j < length xs \<Longrightarrow> find (\<lambda>k. xs ! k = xs ! j) [0..<length xs] = Some j"
  by (auto simp: find_Some_iff nth_eq_iff_index_eq intro!: exI [of _ j])

lemma find_no_position: "i \<notin> set xs \<Longrightarrow> find (\<lambda>k. xs ! k = i) [0..<length xs] = None"
  by (auto simp: find_None_iff)

lemma find_field_distinct:
  "distinct (map fm_name fs) \<Longrightarrow> k < length fs \<Longrightarrow> find_field_index (fm_name (fs ! k)) fs n = Some (n + k)"
proof (induction fs arbitrary: k n)
  case (Cons f fs)
  show ?case
  proof (cases k)
    case (Suc j)
    then have "fm_name (fs ! j) \<in> set (map fm_name fs)" using Cons.prems(2) by simp
    then have "fm_name f \<noteq> fm_name (fs ! j)" using Cons.prems(1) by (metis distinct.simps(2) list.simps(9))
    then show ?thesis using Suc Cons.IH [of j "Suc n"] Cons.prems by simp
  qed simp
qed simp

lemma field_value:
  assumes "distinct (map fm_name (tm_fields m))" "row_reads m ts rec vs" "sys_field_num m \<le> k" "k < field_num m"
  shows "get_value env (row_tuple m ts (rid, rec)) (FieldExpr (tm_name m) (fm_name (tm_fields m ! k)) ty) new_value = Val (SUCCESS, vs ! (k - sys_field_num m))"
proof -
  have "find_field_index (fm_name (tm_fields m ! k)) (tm_fields m) 0 = Some k"
    using find_field_distinct [OF assms(1), of k 0] assms(4) by (simp add: field_num_def)
  moreover have "cell_at (int k) rec m new_value ts = Some ((SUCCESS, vs ! (k - sys_field_num m)), ts)"
    using assms(2-4) unfolding row_reads_def by (metis add_diff_inverse_nat add_less_cancel_right diff_add_inverse2 le_add_diff_inverse2 not_le)
  ultimately show ?thesis by (simp add: row_tuple_def find_cell_def from_option_def)
qed

text \<open>The value that the record maker takes for a column.\<close>

definition updated_value :: "TableMeta \<Rightarrow> nat list \<Rightarrow> Value list \<Rightarrow> Value list \<Rightarrow> nat \<Rightarrow> Value" where
  "updated_value m order news vs k = (case find (\<lambda>j. order ! j = k) [0..<length order] of Some j \<Rightarrow> news ! j | None \<Rightarrow> vs ! (k - sys_field_num m))"

lemma update_values_ok:
  assumes "distinct (map fm_name (tm_fields m))" "row_reads m ts rec vs" "\<forall>k\<in>set ks. sys_field_num m \<le> k \<and> k < field_num m"
  shows "update_values env m order news (row_tuple m ts (rid, rec)) ks = Some (SUCCESS, map (updated_value m order news vs) ks)"
  using assms(3)
proof (induction ks)
  case (Cons k ks)
  then show ?case using field_value [OF assms(1,2), of k]
    by (auto simp: updated_value_def Let_def returned_def split: option.splits)
qed simp

lemma maker_update_ok:
  assumes "meta_ok m" "field_num m \<le> 32" "distinct (map fm_name (tm_fields m))" "row_reads m ts rec vs" "length mem = nat (tm_record_size m)"
    "distinct order" "length news = length order" "\<forall>j<length order. fits (news ! j) (tm_fields m ! (order ! j))"
  shows "\<exists>new ws. maker_update env m mem order news (row_tuple m ts (rid, rec)) = Some (Inr new) \<and> length new = nat (tm_record_size m)
    \<and> row_reads m ts new ws
    \<and> (\<forall>i<length vs. same_value (ws ! i) (updated_value m order news vs (i + sys_field_num m)))"
proof -
  let ?n = "sys_field_num m" and ?us = "map (updated_value m order news vs) [sys_field_num m..<field_num m]"
  have len: "length ?us + ?n = field_num m" "length vs = length ?us" using assms(4) by (auto simp: row_reads_def)
  have "fits (?us ! i) (tm_fields m ! (i + ?n))" if "i < length ?us" for i
  proof (cases "i + ?n \<in> set order")
    case True
    then obtain j where j: "j < length order" "order ! j = i + ?n" by (metis in_set_conv_nth)
    then show ?thesis using find_position [OF assms(6) j(1)] assms(8) that by (auto simp: updated_value_def add.commute)
  next
    case False
    then show ?thesis using find_no_position [OF False] assms(4) that len by (simp add: updated_value_def row_reads_def add.commute)
  qed
  then obtain new ws where new: "make_record mem ?us m = Some (Inr new)" "length new = nat (tm_record_size m)" "row_reads m ts new ws" "list_all2 same_value ws ?us"
    using make_record_reads [OF assms(1,2,5) len(1), of ts] by blast
  have "same_value (ws ! i) (updated_value m order news vs (i + ?n))" if "i < length vs" for i
    using list_all2_nthD2 [OF new(4), of i] that len by (simp add: add.commute)
  moreover have "update_values env m order news (row_tuple m ts (rid, rec)) [?n..<field_num m] = Some (SUCCESS, ?us)"
    by (rule update_values_ok [OF assms(3,4)]) simp
  ultimately show ?thesis using new(1-3) assms(7) by (auto simp: maker_update_def)
qed

lemma update_field_order_ascending:
  assumes "distinct (map fm_name (tm_fields m))" "sorted ks" "distinct ks" "\<forall>k\<in>set ks. sys_field_num m \<le> k \<and> k < field_num m"
    "set names = (\<lambda>k. fm_name (tm_fields m ! k)) ` set ks"
  shows "update_field_order m names = ks"
proof -
  have "fm_name (tm_fields m ! i) \<in> set names \<longleftrightarrow> i \<in> set ks" if "i < field_num m" for i
    using assms(1,4,5) that by (auto simp: field_num_def distinct_conv_nth)
  then have "update_field_order m names = filter (\<lambda>i. i \<in> set ks) [sys_field_num m..<field_num m]"
    unfolding update_field_order_def by (intro filter_cong) auto
  moreover have "\<dots> = ks"
    using assms(2-4) by (intro sorted_distinct_set_unique) (auto simp: sorted_filter [of "\<lambda>x. x", simplified])
  ultimately show ?thesis by simp
qed

section \<open>Inserting records\<close>

text \<open>Every insertion finds the indexes with room, as the insertions before have left them.\<close>

definition room_for :: "(PageNum set \<Rightarrow> PageNum) \<Rightarrow> int \<Rightarrow> byte list list \<Rightarrow> MvccTrx \<Rightarrow> MvccDb \<Rightarrow> bool" where
  "room_for begin_page t recs trx db \<longleftrightarrow>
     (\<forall>k<length recs. \<forall>trx1 db1. insert_records begin_page t (take k recs) trx db = Some (SUCCESS, trx1, db1) \<longrightarrow> can_insert db1 t (recs ! k))"

lemma room_for_Cons:
  assumes "room_for begin_page t (rec # recs) trx db" "trx_insert_record begin_page t rec trx db = Some (Inr rid, trx1, db1)"
  shows "can_insert db t rec" "room_for begin_page t recs trx1 db1"
proof -
  show "can_insert db t rec" using assms(1) [unfolded room_for_def, rule_format, of 0 trx db] by simp
  show "room_for begin_page t recs trx1 db1"
    unfolding room_for_def
  proof (intro allI impI)
    fix k trx2 db2 assume "k < length recs" "insert_records begin_page t (take k recs) trx1 db1 = Some (SUCCESS, trx2, db2)"
    then show "can_insert db2 t (recs ! k)" using assms(1) [unfolded room_for_def, rule_format, of "Suc k" trx2 db2] assms(2) by simp
  qed
qed

lemma insert_records_ok:
  assumes "db_ok db" "trx_number trx" "db_tables db t = Some tb" "\<forall>S. finite S \<longrightarrow> S \<noteq> {} \<longrightarrow> begin_page S \<in> S" "room_for begin_page t recs trx db"
  shows "\<exists>rc rids db'. insert_records begin_page t recs trx db
      = Some (rc, trx\<lparr>trx_operations := trx_operations trx @ map (\<lambda>rid. (OP_INSERT, t, rid)) rids\<rparr>, db')
    \<and> (rc = SUCCESS \<and> length rids = length recs \<or> rc = BUFFERPOOL_NOBUF \<and> length rids < length recs)
    \<and> distinct rids \<and> (\<forall>rid\<in>set rids. versions db (t, rid) = None)
    \<and> versions db' = versions db ++ map_of (zip (map (Pair t) rids) (map (\<lambda>rec. (- trx_id trx, max_trx_id, row_payload tb rec)) recs))"
  using assms
proof (induction recs arbitrary: trx db tb)
  case Nil
  then show ?case by (intro exI [of _ SUCCESS] exI [of _ "[]"] exI [of _ db]) simp
next
  case (Cons rec recs)
  have can: "length rec = tb_record_size tb" "\<forall>ix\<in>set (tb_indexes tb). tree_room ix"
    using Cons.prems(5) [unfolded room_for_def, rule_format, of 0 trx db] Cons.prems(3) by (auto simp: can_insert_def)
  obtain r trx1 db1 where ins: "trx_insert_record begin_page t rec trx db = Some (r, trx1, db1)" "db_ok db1"
    "case r of
         Inl rc \<Rightarrow> rc = BUFFERPOOL_NOBUF \<and> trx1 = trx \<and> versions db1 = versions db \<and> rf_count (tb_heap tb) = rf_max_pages
       | Inr rid \<Rightarrow> trx1 = trx\<lparr>trx_operations := trx_operations trx @ [(OP_INSERT, t, rid)]\<rparr> \<and> versions db (t, rid) = None
           \<and> versions db1 = (versions db)((t, rid) \<mapsto> (- trx_id trx, max_trx_id, row_payload tb rec))"
    using trx_insert_ok [OF Cons.prems(1,3) can(1) Cons.prems(2,4) can(2)] by blast
  obtain tb1 where tb1: "db_tables db1 t = Some tb1" "same_layout tb tb1"
    using trx_insert_table [OF Cons.prems(1,3) can(1) Cons.prems(4) can(2) ins(1)] by blast
  show ?case
  proof (cases r)
    case (Inl rc)
    then show ?thesis using ins by (intro exI [of _ rc] exI [of _ "[]"] exI [of _ db1]) simp
  next
    case (Inr rid)
    let ?new = "\<lambda>rec. (- trx_id trx, max_trx_id, row_payload tb rec)"
    have i: "trx1 = trx\<lparr>trx_operations := trx_operations trx @ [(OP_INSERT, t, rid)]\<rparr>" "versions db (t, rid) = None"
      "versions db1 = (versions db)((t, rid) \<mapsto> ?new rec)" using ins(3) Inr by simp_all
    have n: "trx_number trx1" "trx_id trx1 = trx_id trx" using Cons.prems(2) i(1) by (simp_all add: trx_number_def)
    obtain rc rids db' where ih: "insert_records begin_page t recs trx1 db1
        = Some (rc, trx1\<lparr>trx_operations := trx_operations trx1 @ map (\<lambda>rid. (OP_INSERT, t, rid)) rids\<rparr>, db')"
      "rc = SUCCESS \<and> length rids = length recs \<or> rc = BUFFERPOOL_NOBUF \<and> length rids < length recs"
      "distinct rids" "\<forall>rid\<in>set rids. versions db1 (t, rid) = None"
      "versions db' = versions db1 ++ map_of (zip (map (Pair t) rids) (map ?new recs))"
      using Cons.IH [OF ins(2) n(1) tb1(1) Cons.prems(4) room_for_Cons(2) [OF Cons.prems(5) ins(1) [unfolded Inr]]]
      unfolding same_layout_payload [OF tb1(2)] n(2) by blast
    have fresh: "rid \<notin> set rids" using ih(4) i(3) by fastforce
    then have "(t, rid) \<notin> dom (map_of (zip (map (Pair t) rids) (map ?new recs)))" by (auto dest!: set_zip_leftD simp: dom_map_of_conv_image_fst)
    then have v: "versions db' = versions db ++ map_of (zip (map (Pair t) (rid # rids)) (map ?new (rec # recs)))"
      unfolding ih(5) i(3) by (auto simp: map_add_def fun_eq_iff split: option.splits)
    have none: "versions db (t, r) = None" if "r \<in> set (rid # rids)" for r
    proof (cases "r = rid")
      case False
      then have "versions db1 (t, r) = versions db (t, r)" using i(3) by simp
      then show ?thesis using ih(4) that False by simp
    qed (simp add: i(2))
    have "insert_records begin_page t (rec # recs) trx db
        = Some (rc, trx\<lparr>trx_operations := trx_operations trx @ map (\<lambda>rid. (OP_INSERT, t, rid)) (rid # rids)\<rparr>, db')"
      using ins(1) Inr ih(1) i(1) by simp
    moreover have "distinct (rid # rids)" using fresh ih(3) by simp
    moreover have "rc = SUCCESS \<and> length (rid # rids) = length (rec # recs) \<or> rc = BUFFERPOOL_NOBUF \<and> length (rid # rids) < length (rec # recs)" using ih(2) by auto
    ultimately show ?thesis using v none by blast
  qed
qed

section \<open>The operator\<close>

text \<open>Deleting records keeps the layout of the table.\<close>

lemma trx_delete_table:
  assumes "trx_delete_record t rid trx db = Some (rc, trx', db')" "db_tables db t = Some tb"
  shows "\<exists>tb'. db_tables db' t = Some tb' \<and> same_layout tb tb'"
proof -
  obtain rc1 heap where v: "file_visit_record rid (mark_deleted (trx_id trx) tb) (tb_heap tb) = (rc1, heap)" by (cases "file_visit_record rid (mark_deleted (trx_id trx) tb) (tb_heap tb)")
  then have "db_tables db' t = Some (tb\<lparr>tb_heap := heap\<rparr>)"
    using assms by (auto simp: trx_delete_record_def table_visit_record_def put_table_def Let_def trx_log_record_def append_trx_log_def split: if_splits)
  then show ?thesis using same_layout_refl [of tb] by (auto simp: same_layout_def)
qed

lemma delete_records_table:
  "delete_records t rs trx db = Some (rc, trx', db') \<Longrightarrow> db_tables db t = Some tb \<Longrightarrow> \<exists>tb'. db_tables db' t = Some tb' \<and> same_layout tb tb'"
proof (induction rs arbitrary: trx db tb)
  case Nil
  then show ?case using same_layout_refl by auto
next
  case (Cons r rs)
  obtain rc1 trx1 db1 where d: "trx_delete_record t (fst r) trx db = Some (rc1, trx1, db1)" using Cons.prems(1) by (auto simp: bind_eq_Some_conv)
  obtain tb1 where tb1: "db_tables db1 t = Some tb1" "same_layout tb tb1" using trx_delete_table [OF d Cons.prems(2)] by blast
  then show ?case using Cons.IH [of trx1 db1 tb1] Cons.prems d same_layout_trans by (auto split: if_splits)
qed

lemma collect_updates_delivered:
  assumes "delivers op idle s (map (row_tuple m ts) rs)" "\<forall>r\<in>set rs. maker (row_tuple m ts r) = Some (Inr (new r))"
  shows "\<exists>s'. collect_updates op maker s olds news = Some (Inr (s', olds @ rs, news @ map new rs)) \<and> closes op idle s'"
  using assms
proof (induction rs arbitrary: s olds news)
  case Nil
  from Nil(1) show ?case by (subst collect_updates.simps) (auto elim: deliver_nilE)
next
  case (Cons r rs)
  then obtain s' where s': "o_next op s = Some (SUCCESS, s')" "o_tuple op s' = Some (row_tuple m ts r)" "delivers op idle s' (map (row_tuple m ts) rs)"
    by (auto elim: deliver_consE)
  then show ?case using Cons.IH [OF s'(3), of "olds @ [r]" "news @ [new r]"] Cons.prems(2) by (subst collect_updates.simps) simp
qed

text \<open>
  C21: \<open>UPDATE\<close> gives the columns it names, in the order of the table, their new values and leaves the other columns as they are:
  the new record reads so. This is for rows and values that fit their columns.
\<close>

theorem update_sets_columns:
  assumes "meta_ok m" "field_num m \<le> 32" "distinct (map fm_name (tm_fields m))" "row_reads m ts rec vs" "length mem = nat (tm_record_size m)"
    "sorted ks" "distinct ks" "\<forall>k\<in>set ks. sys_field_num m \<le> k \<and> k < field_num m" "length news = length ks"
    "\<forall>j<length ks. fits (news ! j) (tm_fields m ! (ks ! j))"
  shows "\<exists>new ws. maker_update env m mem (update_field_order m (map (\<lambda>k. fm_name (tm_fields m ! k)) ks)) news (row_tuple m ts (rid, rec)) = Some (Inr new)
    \<and> row_reads m ts new ws \<and> (\<forall>j<length ks. same_value (ws ! (ks ! j - sys_field_num m)) (news ! j))
    \<and> (\<forall>i<length vs. i + sys_field_num m \<notin> set ks \<longrightarrow> same_value (ws ! i) (vs ! i))"
proof -
  let ?n = "sys_field_num m"
  have order: "update_field_order m (map (\<lambda>k. fm_name (tm_fields m ! k)) ks) = ks"
    by (rule update_field_order_ascending [OF assms(3,6,7,8)]) simp
  obtain new ws where new: "maker_update env m mem ks news (row_tuple m ts (rid, rec)) = Some (Inr new)" "row_reads m ts new ws"
    "\<And>i. i < length vs \<Longrightarrow> same_value (ws ! i) (updated_value m ks news vs (i + ?n))"
    using maker_update_ok [OF assms(1-5,7,9,10)] by blast
  have "same_value (ws ! (ks ! j - ?n)) (news ! j)" if "j < length ks" for j
  proof -
    have "?n \<le> ks ! j" "ks ! j < field_num m" using assms(8) nth_mem [OF that] by blast+
    then have "?n \<le> ks ! j" "ks ! j - ?n < length vs" using assms(4) by (auto simp: row_reads_def)
    then show ?thesis using new(3) [of "ks ! j - ?n"] find_position [OF assms(7) that] by (simp add: updated_value_def)
  qed
  moreover have "same_value (ws ! i) (vs ! i)" if "i < length vs" "i + ?n \<notin> set ks" for i
    using new(3) [OF that(1)] find_no_position [OF that(2)] by (simp add: updated_value_def)
  ultimately show ?thesis using order new(1,2) by auto
qed

text \<open>
  C37: The order of the assignments is lost: \<open>UPDATE t SET b = x, a = y\<close>, with \<open>a\<close> before \<open>b\<close> in the table, writes \<open>x\<close> to \<open>a\<close> and \<open>y\<close> to \<open>b\<close>.
\<close>

theorem update_swaps_values:
  assumes "meta_ok m" "field_num m \<le> 32" "distinct (map fm_name (tm_fields m))" "row_reads m ts rec vs" "length mem = nat (tm_record_size m)"
    "sys_field_num m \<le> a" "a < b" "b < field_num m" "fits x (tm_fields m ! a)" "fits y (tm_fields m ! b)"
  shows "\<exists>new ws. maker_update env m mem (update_field_order m [fm_name (tm_fields m ! b), fm_name (tm_fields m ! a)]) [x, y] (row_tuple m ts (rid, rec)) = Some (Inr new)
    \<and> row_reads m ts new ws \<and> same_value (ws ! (a - sys_field_num m)) x \<and> same_value (ws ! (b - sys_field_num m)) y"
proof -
  let ?n = "sys_field_num m"
  have order: "update_field_order m [fm_name (tm_fields m ! b), fm_name (tm_fields m ! a)] = [a, b]"
    by (rule update_field_order_ascending [OF assms(3)]) (use assms(6-8) in auto)
  have fit: "\<forall>j<length [a, b]. fits ([x, y] ! j) (tm_fields m ! ([a, b] ! j))" using assms(9,10) by (simp add: less_Suc_eq)
  obtain new ws where new: "maker_update env m mem [a, b] [x, y] (row_tuple m ts (rid, rec)) = Some (Inr new)" "row_reads m ts new ws"
    "\<And>i. i < length vs \<Longrightarrow> same_value (ws ! i) (updated_value m [a, b] [x, y] vs (i + ?n))"
    using maker_update_ok [OF assms(1-5) _ _ fit, of env rid] assms(7) by auto
  have "a - ?n < length vs" "b - ?n < length vs" using assms(4,6-8) by (auto simp: row_reads_def)
  then have "same_value (ws ! (a - ?n)) x" "same_value (ws ! (b - ?n)) y"
    using new(3) [of "a - ?n"] new(3) [of "b - ?n"] assms(6,7) by (simp_all add: updated_value_def upt_rec)
  then show ?thesis using order new(1,2) by auto
qed


section \<open>Examples\<close>

lemma ab_row: "\<exists>rec ws. row_reads ab_meta \<lparr>next_key = 0, storage = Map.empty\<rparr> rec ws"
  using ab_inserted by blast

theorem update_sets_columns_witness:
  "\<exists>rec new ws. maker_update ex_env ab_meta (replicate 20 0) (update_field_order ab_meta [ascii ''b'']) [set_int 5 new_value]
      (row_tuple ab_meta \<lparr>next_key = 0, storage = Map.empty\<rparr> (\<lparr>page_num = 1, slot_num = 0\<rparr>, rec)) = Some (Inr new)
    \<and> row_reads ab_meta \<lparr>next_key = 0, storage = Map.empty\<rparr> new ws \<and> v_num (ws ! 1) = 5"
proof -
  let ?ts = "\<lparr>next_key = 0, storage = Map.empty\<rparr>" and ?rid = "\<lparr>page_num = 1, slot_num = 0\<rparr>"
  obtain rec vs where rec: "row_reads ab_meta ?ts rec vs" using ab_row by blast
  have names: "map (\<lambda>k. fm_name (tm_fields ab_meta ! k)) [4] = [ascii ''b'']" by (simp add: ab_meta_def Let_def ab_field_def)
  obtain new ws where "maker_update ex_env ab_meta (replicate 20 0) (update_field_order ab_meta [ascii ''b'']) [set_int 5 new_value] (row_tuple ab_meta ?ts (?rid, rec)) = Some (Inr new)"
    "row_reads ab_meta ?ts new ws" "same_value (ws ! 1) (set_int 5 new_value)"
    using update_sets_columns [OF ab_meta_ok(1) _ ab_meta_ok(5) rec, of "replicate 20 0" "[4]" "[set_int 5 new_value]" ex_env ?rid] ab_meta_ok(2,3,4,7)
    unfolding names by auto
  then show ?thesis by (auto simp: same_value_def set_int_def)
qed

theorem update_swaps_values_witness:
  "\<exists>rec new ws. maker_update ex_env ab_meta (replicate 20 0) (update_field_order ab_meta [ascii ''b'', ascii ''a'']) [set_int 5 new_value, set_int 6 new_value]
      (row_tuple ab_meta \<lparr>next_key = 0, storage = Map.empty\<rparr> (\<lparr>page_num = 1, slot_num = 0\<rparr>, rec)) = Some (Inr new)
    \<and> row_reads ab_meta \<lparr>next_key = 0, storage = Map.empty\<rparr> new ws \<and> v_num (ws ! 0) = 5 \<and> v_num (ws ! 1) = 6"
proof -
  let ?ts = "\<lparr>next_key = 0, storage = Map.empty\<rparr>" and ?rid = "\<lparr>page_num = 1, slot_num = 0\<rparr>"
  obtain rec vs where rec: "row_reads ab_meta ?ts rec vs" using ab_row by blast
  have names: "fm_name (tm_fields ab_meta ! 3) = ascii ''a''" "fm_name (tm_fields ab_meta ! 4) = ascii ''b''" by (simp_all add: ab_meta_def Let_def ab_field_def)
  obtain new ws where "maker_update ex_env ab_meta (replicate 20 0) (update_field_order ab_meta [ascii ''b'', ascii ''a'']) [set_int 5 new_value, set_int 6 new_value]
      (row_tuple ab_meta ?ts (?rid, rec)) = Some (Inr new)"
    "row_reads ab_meta ?ts new ws" "same_value (ws ! 0) (set_int 5 new_value)" "same_value (ws ! 1) (set_int 6 new_value)"
    using update_swaps_values [OF ab_meta_ok(1) _ ab_meta_ok(5) rec, of "replicate 20 0" 3 4 "set_int 5 new_value" "set_int 6 new_value" ex_env ?rid] ab_meta_ok(2,3,4,6,7)
    unfolding names by auto
  then show ?thesis by (auto simp: same_value_def set_int_def)
qed


end
