(* ===== verification/SqlAggregate.thy ===== *)
theory SqlAggregate
  imports SqlRows
begin

text \<open>
  Aggregation: the operator reads all rows of its child when it is opened and delivers one row, whose \<open>COUNT\<close>, \<open>MAX\<close> and \<open>MIN\<close>
  of a column of integers leave out NULL.
\<close>

section \<open>One row\<close>

definition holds_int :: "Value \<Rightarrow> int \<Rightarrow> bool" where
  "holds_int v i \<longleftrightarrow> v_type v = INTS \<and> sint (v_num v) = i"

definition extreme :: "(int set \<Rightarrow> int) \<Rightarrow> int list \<Rightarrow> Value \<Rightarrow> bool" where
  "extreme f ns v \<longleftrightarrow> (if ns = [] then v_type v = NULLS else holds_int v (f (set ns)))"

definition agg_ok :: "int list \<Rightarrow> Value list \<Rightarrow> bool" where
  "agg_ok ns as \<longleftrightarrow> (\<exists>a b c. as = [a, b, c] \<and> holds_int a (int (length ns)) \<and> extreme Max ns b \<and> extreme Min ns c)"

definition agg_idle :: "('s \<Rightarrow> bool) \<Rightarrow> 's group \<Rightarrow> bool" where
  "agg_idle idle s \<longleftrightarrow> idle (g_child s) \<and> g_tuples s = [] \<and> g_index s = -1"

definition count_max_min :: "Expression \<Rightarrow> TupleCellSpec \<Rightarrow> TupleCellSpec \<Rightarrow> TupleCellSpec \<Rightarrow> agg_desc list" where
  "count_max_min e c1 c2 c3 = [(AGG_COUNT, e, c1), (AGG_MAX, e, c2), (AGG_MIN, e, c3)]"

definition int_rows :: "(Tuple \<Rightarrow> Value) \<Rightarrow> Tuple list \<Rightarrow> int list" where
  "int_rows val rows = map (\<lambda>t. sint (v_num (val t))) (filter (\<lambda>t. v_type (val t) \<noteq> NULLS) rows)"

lemma holds_set_int: "int32 i \<Longrightarrow> holds_int (set_int i v) i"
  using signed_take_bit_int_eq_self_iff [of 31 i] by (simp add: holds_int_def set_int_def sint_word32 int32_def)

lemma holds_set_from: "holds_int v i \<Longrightarrow> \<exists>a'. set_from fp v a = Val (SUCCESS, a') \<and> holds_int a' i"
  by (auto simp: set_from_def set_value_def holds_int_def set_int_def)

lemma compare_ints: "fpu_ok fp \<Longrightarrow> holds_int v i \<Longrightarrow> holds_int w j \<Longrightarrow> value_compare fp v w = Val (sgn (i - j))"
  by (simp add: compare_numbers whole_number_def holds_int_def number_of_def)

lemma count_step:
  assumes "holds_int a (int (length ns))" "length ns < 2 ^ 31 - 1"
  shows "\<exists>a'. aggregate_value fp io AGG_COUNT v a = Val (SUCCESS, a') \<and> holds_int a' (int (length (ns @ [n])))"
proof -
  have "get_int fp a = Val (int (length ns))" using assms(1) by (simp add: get_int_def holds_int_def)
  moreover have "int32 (int (length ns) + 1)" using assms(2) by (simp add: int32_def)
  ultimately show ?thesis using holds_set_int [of "int (length ns) + 1" a] by (simp add: aggregate_value_def add.commute)
qed

lemma max_step:
  assumes "fpu_ok fp" "extreme Max ns a" "holds_int v n"
  shows "\<exists>a'. aggregate_value fp io AGG_MAX v a = Val (SUCCESS, a') \<and> extreme Max (ns @ [n]) a'"
proof (cases "ns = []")
  case True
  then show ?thesis using assms holds_set_from [OF assms(3)] by (auto simp: aggregate_value_def extreme_def)
next
  case False
  then have a: "holds_int a (Max (set ns))" "v_type a \<noteq> NULLS" "Max (set (ns @ [n])) = max n (Max (set ns))" using assms(2) by (auto simp: extreme_def holds_int_def)
  then show ?thesis using compare_ints [OF assms(1,3) a(1)] holds_set_from [OF assms(3), of fp a]
    by (auto simp: aggregate_value_def extreme_def max_def)
qed

lemma min_step:
  assumes "fpu_ok fp" "extreme Min ns a" "holds_int v n"
  shows "\<exists>a'. aggregate_value fp io AGG_MIN v a = Val (SUCCESS, a') \<and> extreme Min (ns @ [n]) a'"
proof (cases "ns = []")
  case True
  then show ?thesis using assms holds_set_from [OF assms(3)] by (auto simp: aggregate_value_def extreme_def)
next
  case False
  then have a: "holds_int a (Min (set ns))" "v_type a \<noteq> NULLS" "Min (set (ns @ [n])) = min n (Min (set ns))" using assms(2) by (auto simp: extreme_def holds_int_def)
  then show ?thesis using compare_ints [OF assms(1,3) a(1)] holds_set_from [OF assms(3), of fp a]
    by (auto simp: aggregate_value_def extreme_def min_def)
qed

lemma row_step:
  assumes "fpu_ok (e_fp env)" "get_value env t e new_value = Val (SUCCESS, w)" "v_type w = NULLS \<or> v_type w = INTS" "agg_ok ns as" "length ns < 2 ^ 31 - 1"
  shows "\<exists>as'. aggregate_tuple env io t (count_max_min e c1 c2 c3) as = Val (SUCCESS, as')
    \<and> agg_ok (ns @ (if v_type w = NULLS then [] else [sint (v_num w)])) as'"
proof -
  obtain a b c where as: "as = [a, b, c]" "holds_int a (int (length ns))" "extreme Max ns b" "extreme Min ns c" using assms(4) by (auto simp: agg_ok_def)
  show ?thesis
  proof (cases "v_type w = NULLS")
    case True
    then show ?thesis using assms(2,4) as(1) by (simp add: count_max_min_def on_success_def)
  next
    case False
    then have w: "holds_int w (sint (v_num w))" using assms(3) by (simp add: holds_int_def)
    obtain a' b' c' where "aggregate_value (e_fp env) io AGG_COUNT w a = Val (SUCCESS, a')" "holds_int a' (int (length (ns @ [sint (v_num w)])))"
      "aggregate_value (e_fp env) io AGG_MAX w b = Val (SUCCESS, b')" "extreme Max (ns @ [sint (v_num w)]) b'"
      "aggregate_value (e_fp env) io AGG_MIN w c = Val (SUCCESS, c')" "extreme Min (ns @ [sint (v_num w)]) c'"
      using count_step [OF as(2) assms(5), of "e_fp env" io w] max_step [OF assms(1) as(3) w] min_step [OF assms(1) as(4) w] by blast
    then show ?thesis using False assms(2) as(1) by (auto simp: count_max_min_def on_success_def agg_ok_def)
  qed
qed

lemma start_values: "\<exists>as. generate_values (count_max_min e c1 c2 c3) [] = Some as \<and> agg_ok [] as"
  using holds_set_int [of 0 new_value] by (simp add: count_max_min_def agg_ok_def extreme_def int32_def)

lemma rows_step:
  assumes "fpu_ok (e_fp env)" "delivers child idle c rows" "\<forall>t\<in>set rows. get_value env t e new_value = Val (SUCCESS, val t) \<and> (v_type (val t) = NULLS \<or> v_type (val t) = INTS)"
    "case g of None \<Rightarrow> ns = [] | Some as \<Rightarrow> agg_ok ns as" "length ns + length rows < 2 ^ 31 - 1"
  shows "\<exists>g' c'. group_rows env io (count_max_min e c1 c2 c3) child g c = Some (RECORD_EOF, g', c') \<and> closes child idle c'
    \<and> (case g' of None \<Rightarrow> g = None \<and> rows = [] | Some as \<Rightarrow> agg_ok (ns @ int_rows val rows) as)"
  using assms(2-)
proof (induction rows arbitrary: c g ns rule: list.induct)
  case Nil
  then show ?case by (subst group_rows.simps) (auto simp: delivers_iff [of _ _ c] gives_def int_rows_def split: option.splits)
next
  case (Cons t rows)
  obtain c' where c: "o_next child c = Some (SUCCESS, c')" "o_tuple child c' = Some t" "delivers child idle c' rows"
    using Cons.prems(1) by (auto simp: delivers_iff [of _ _ c] gives_def)
  obtain as where a: "(if g = None then generate_values (count_max_min e c1 c2 c3) [] else g) = Some as" "agg_ok ns as"
    using Cons.prems(3) start_values [of e c1 c2 c3] by (cases g) auto
  let ?ns = "ns @ (if v_type (val t) = NULLS then [] else [sint (v_num (val t))])"
  obtain as' where as: "aggregate_tuple env io t (count_max_min e c1 c2 c3) as = Val (SUCCESS, as')" "agg_ok ?ns as'"
    using row_step [OF assms(1) _ _ a(2), of t e "val t" io c1 c2 c3] Cons.prems by auto
  have r: "group_rows env io (count_max_min e c1 c2 c3) child g c = group_rows env io (count_max_min e c1 c2 c3) child (Some as') c'"
    using c a(1) as(1) by (subst group_rows.simps) (simp add: returned_def)
  have "length ?ns + length rows < 2 ^ 31 - 1" using Cons.prems(4) by auto
  then obtain g' d where "group_rows env io (count_max_min e c1 c2 c3) child (Some as') c' = Some (RECORD_EOF, g', d)" "closes child idle d"
    "case g' of None \<Rightarrow> Some as' = None \<and> rows = [] | Some as \<Rightarrow> agg_ok (?ns @ int_rows val rows) as"
    using Cons.IH [OF c(3), of ?ns "Some as'"] Cons.prems(2) as(2) by auto
  moreover have "int_rows val (t # rows) = (if v_type (val t) = NULLS then [] else [sint (v_num (val t))]) @ int_rows val rows" by (simp add: int_rows_def)
  ultimately show ?case using r by (auto split: option.splits if_splits)
qed

lemma agg_closes: "idle (g_child s) \<Longrightarrow> closes (group_oper env io ds child) (agg_idle idle) s"
  by (simp add: closes_def group_oper_def group_close_def agg_idle_def)

lemma one_group_delivers:
  assumes "idle (g_child s)" "g_tuples s = [as]" "g_index s = -1"
  shows "delivers (group_oper env io ds child) (agg_idle idle) s [agg_tuple (e_fp env) io ds as]"
proof -
  let ?op = "group_oper env io ds child"
  have "o_next ?op s = Some (SUCCESS, s\<lparr>g_index := 0\<rparr>)" "o_tuple ?op (s\<lparr>g_index := 0\<rparr>) = Some (agg_tuple (e_fp env) io ds as)"
    "o_next ?op (s\<lparr>g_index := 0\<rparr>) = Some (RECORD_EOF, s\<lparr>g_index := 0\<rparr>)"
    using assms by (simp_all add: group_oper_def group_next_def group_tuple_def)
  then show ?thesis using agg_closes [where child = child] assms(1) by (simp add: delivers_iff gives_def)
qed

section \<open>Properties\<close>



end
