(* ===== verification/Spec2Isabelle.thy ===== *)
theory Spec2Isabelle
  imports BplusRecovery PoolPages CommitLogStore SqlUpdate SqlAggregate
begin

text \<open>
  Verification of the storage engine and the query engine of MiniOB, a small relational database (sources under \<^verbatim>\<open>src/\<close>).

  \<^bold>\<open>The program.\<close> A database keeps tables in record files and B+ tree indexes. Both are files of pages that are accessed
  through a buffer pool (\<^verbatim>\<open>observer/storage/buffer\<close>): it maps pages to frames in memory, pins frames in use, evicts
  others by an LRU order, and writes pages to disk through a double write buffer that repairs torn writes. Record
  pages and record files (\<^verbatim>\<open>observer/storage/record\<close>) store fixed-size records under identifiers of page and slot; the
  index (\<^verbatim>\<open>observer/storage/index\<close>) stores sorted keys with record identifiers. Every change of a page is logged before
  it is made; the commit log (\<^verbatim>\<open>observer/storage/clog\<close>) buffers the entries, a thread writes them to log files, and after
  a crash the entries are replayed on the pages the disk still has. A page carries the sequence number of the last
  entry it contains, so that replaying skips what is already there. A table (\<^verbatim>\<open>observer/storage/table\<close>) is a record file with
  its indexes; transactions (\<^verbatim>\<open>observer/storage/trx\<close>) keep in every record the number of the transaction that created it
  and of the one that deleted it, and decide by these numbers what a session sees.
  Above the tables, a query is a plan of logical operators that rules rewrite (\<^verbatim>\<open>observer/sql/optimizer\<close>) and a tree of physical
  operators that is opened, asked for rows and closed (\<^verbatim>\<open>observer/sql/operator\<close>); the operators evaluate expressions
  (\<^verbatim>\<open>observer/sql/expr\<close>) over tuples of values (\<^verbatim>\<open>observer/sql/parser/value.cpp\<close>), which are read from the bytes of the records.

  \<^bold>\<open>Conventions.\<close> A function that returns an \<open>RC\<close> is a function to the code and the new state; outputs are \<open>RC + 'a\<close>.
  The result type \<open>option\<close> stands for runs that end in a failed assertion or do not end: loops whose end needs an argument
  are \<open>partial_function (option)\<close>, and the theorems state that they return \<open>Some\<close>; there is no fuel. Integers are \<open>int\<close> with
  the conversions written out where the source narrows them, bytes are \<open>8 word\<close>, checksums \<open>32 word\<close>. What lies outside of
  the sources (floating point subtraction, the order of hash tables, failures of devices) is a parameter or a field of
  the state that the environment chooses.

  \<^bold>\<open>Theories and sources.\<close>
  \<^item> \<open>Prelude\<close>: return codes (\<^verbatim>\<open>common/rc.h\<close>), machine types, record identifiers, byte encodings, lemmas on lists.
  \<^item> \<open>Bitmap\<close>, \<open>Comparator\<close>, \<open>Serializer\<close>, \<open>Crc\<close>, \<open>LruCache\<close>: the support library under \<^verbatim>\<open>deps/common\<close>. The checksum equals
    the bitwise CRC-32 and detects every change of one byte; the LRU cache, with its pointers in an explicit heap,
    refines a list in order of use; \<open>Comparator\<close> has the locale of key orders the index is proved over, \<open>Serializer\<close> the
    locale of codecs.
  \<^item> \<open>FrameManager\<close>, \<open>DoubleWrite\<close>, \<open>BufferPool\<close>: \<^verbatim>\<open>frame.cpp\<close>, \<^verbatim>\<open>double_write_buffer.cpp\<close>, \<^verbatim>\<open>disk_buffer_pool.cpp\<close>,
    \<^verbatim>\<open>buffer_pool_log.cpp\<close> and \<^verbatim>\<open>mem_pool.h\<close>. \<open>PageAllocation\<close> shows the invariant of the file header under allocation, disposal
    and replay; \<open>PoolCoherence\<close> and \<open>PoolPages\<close> show that clients always see the current content of a page, that evictions
    lose nothing, and that closing a file leaves every page on disk.
  \<^item> \<open>RecordPage\<close>, \<open>RecordFile\<close>: \<^verbatim>\<open>record_manager.cpp\<close> and \<^verbatim>\<open>record_log.cpp\<close>, on the bytes of the pages. \<open>RecordStore\<close> shows that
    a record file acts as a map from identifiers to records and that scans return it completely; \<open>RecordRecovery\<close> that
    replaying the log after a crash gives the same map.
  \<^item> \<open>BplusNode\<close>, \<open>BplusTree\<close>, \<open>BplusLog\<close>: \<^verbatim>\<open>bplus_tree.cpp\<close>, \<^verbatim>\<open>bplus_tree_log.cpp\<close>, \<^verbatim>\<open>bplus_tree_log_entry.cpp\<close>: node handlers,
    search, insertion with splits, deletion with merging and redistribution, scans, and the log of the index.
    \<open>BplusRepr\<close> defines when pages store an ordered tree, \<open>BplusPath\<close> the invariant under changes and paths into the tree;
    \<open>BplusScan\<close>, \<open>BplusInsert\<close>, \<open>BplusMerge\<close> and \<open>BplusDelete\<close> show that lookups, scans, insertion and deletion act on the
    sorted list of entries; \<open>BplusRecovery\<close> that redoing the log from any mixture of old and new pages gives the new tree.
  \<^item> \<open>CommitLog\<close>: \<^verbatim>\<open>log_entry.cpp\<close>, \<^verbatim>\<open>log_buffer.cpp\<close>, \<^verbatim>\<open>log_file.cpp\<close>, \<^verbatim>\<open>disk_log_handler.cpp\<close>, \<^verbatim>\<open>integrated_log_replayer.cpp\<close>.
    \<open>CommitLogStore\<close> shows that waiting for an entry ends with the entry on disk, that a log is read back as it was
    written, what a torn tail gives, and that a mixed log is the logs of its modules.
  \<^item> \<open>Table\<close>: \<^verbatim>\<open>table.cpp\<close> and \<^verbatim>\<open>bplus_tree_index.cpp\<close>. \<open>TableStore\<close> has the locale of what a table relies on in an index,
    interpreted on the B+ tree, and shows that insertion, deletion and the creation of an index keep every index equal
    to the keys of the records.
  \<^item> \<open>MvccTrx\<close>: \<^verbatim>\<open>mvcc_trx.cpp\<close> and \<^verbatim>\<open>mvcc_trx_log.cpp\<close>. \<open>MvccStore\<close> shows what each operation of a transaction does to the
    versions of the rows; \<open>MvccSystem\<close> has the steps of several sessions and their invariant: the operations of a
    transaction are exactly its marks in the rows; \<open>MvccIsolation\<close> that commit and rollback never fail, that what a
    reader sees is stable, and where the visibility rules and the replayer fall short.

  \<^item> \<open>SqlValue\<close>: \<^verbatim>\<open>value.cpp\<close>, values with their types, conversions, comparison and strings. A conversion gives \<open>Val\<close>, \<open>NullCast\<close> for
    the exception on NULL, or \<open>Abort\<close>; floating point is the parameter \<open>fpu\<close> with the laws \<open>fpu_ok\<close>. \<open>SqlOrder\<close> shows where
    comparison is an order and that the index has the order of SQL. \<open>SqlRecord\<close>: \<^verbatim>\<open>table_meta.cpp\<close>, \<^verbatim>\<open>field_meta.cpp\<close> and the
    parts of \<^verbatim>\<open>table.cpp\<close>, \<^verbatim>\<open>tuple.h\<close> and \<^verbatim>\<open>insert_stmt.cpp\<close> that make and read records; \<open>SqlLayout\<close> shows that a record gives
    back the values it was made of.
  \<^item> \<open>SqlFunction\<close>, \<open>SqlExpr\<close>: \<^verbatim>\<open>function.cpp\<close>, \<^verbatim>\<open>expression.cpp\<close>: functions with the calendar, and all expressions, evaluated on a
    tuple (\<open>get_value\<close>) or without one (\<open>try_get_value\<close>). \<open>SqlLogic\<close> shows that conditions follow the logic of three values, that
    \<open>IN\<close> is a disjunction, that \<open>LIKE\<close> matches with wildcards, and what folding of constants keeps.
  \<^item> \<open>SqlTuple\<close>, \<open>SqlOperator\<close>: \<^verbatim>\<open>tuple.h\<close> and the physical operators. An operator is a record of functions over its own state
    (open, next, close, current tuple), so that operators nest as the objects of the source do. \<open>SqlRows\<close> has the locale of
    sources of rows, interpreted on the scans, and shows which rows predicates and both joins deliver; \<open>SqlAggregate\<close>
    the row of an aggregation.
  \<^item> \<open>SqlPlan\<close>: the logical operators, \<^verbatim>\<open>predicate_rewrite.cpp\<close>, \<^verbatim>\<open>predicate_pushdown_rewriter.cpp\<close>, \<^verbatim>\<open>expression_rewriter.cpp\<close> with its
    rules, \<^verbatim>\<open>rewriter.cpp\<close> and the loop of \<^verbatim>\<open>optimize_stage.cpp\<close>: pushing predicates down keeps the rows, and rewriting ends.
  \<^item> \<open>SqlModify\<close>: \<^verbatim>\<open>insert_physical_operator.cpp\<close>, \<^verbatim>\<open>delete_physical_operator.cpp\<close>, \<^verbatim>\<open>update_physical_operator.cpp\<close> and
    \<^verbatim>\<open>update_record_maker.cpp\<close>, the operators that read rows through a source and change them through a transaction.
    \<open>SqlStatement\<close> and \<open>SqlUpdate\<close> bring the parts together: what \<^verbatim>\<open>INSERT\<close>, \<^verbatim>\<open>DELETE\<close> and \<^verbatim>\<open>UPDATE\<close> do to the versions of the rows, and
    the values with which new rows are read.

  \<^bold>\<open>Bounds.\<close> The theorems on changes of an index assume the node sizes \<open>sizes_ok\<close> (at least 4 items in a leaf and 6 in an
  internal node; smaller ones do not occur for keys that fit a page and break merging). Record sizes are at most 8152
  bytes, so that a page has room for one. Log sequence numbers are below \<open>2 ^ 31\<close>, the limit the log writer has.

  \<^bold>\<open>Not modelled.\<close> Latches and data races: operations are atomic, as the latches of the source mean them to be; sessions
  interleave at operations of a transaction. Creating
  and opening an index file and the tree validators. The JSON forms of the catalogue and the file system under it. The
  SQL parser, which is generated by flex and bison, the resolver of names, the checks of statements, and the generators of
  plans: they build object graphs from the syntax tree and the catalogue. The operator of
  \<^verbatim>\<open>EXPLAIN\<close>. Executors, sessions and the network, and the tools around the server.
\<close>

end
